(* ===== verification/Go_Base.thy ===== *)
theory Go_Base
  imports Complex_Main "HOL-Library.Log_Nat" "HOL-Library.Word"
begin

text \<open>
  The prelude of the development: the parts of the Go language that every component uses.

  \<^item> \<open>int64\<close> values are HOL integers, and every arithmetic operation of the source on them goes
    through \<open>i64\<close>, the two's complement wrap-around, so that a proof that a sum or a product
    does not overflow is a proof and not an assumption.  Division is the truncated one.
  \<^item> A fallible function returns \<open>'e + 'a\<close>, with \<open>Inl\<close> for the error, or an optional error
    beside its new state.
  \<^item> Three-way comparisons return \<open>-1\<close>, \<open>0\<close> or \<open>1\<close>, and \<open>cmp3\<close> is the specification they are
    measured against.
  \<^item> The collections \<open>i64_simps\<close> and \<open>go_defs\<close> carry the component proofs.
\<close>

named_theorems i64_simps
named_theorems go_defs

section \<open>Machine integers\<close>

definition MaxInt64 :: int where
  "MaxInt64 = 9223372036854775807"

definition MinInt64 :: int where
  "MinInt64 = - 9223372036854775808"

definition MaxUint64 :: int where
  "MaxUint64 = 18446744073709551615"

definition in64 :: "int \<Rightarrow> bool" where
  "in64 x \<longleftrightarrow> MinInt64 \<le> x \<and> x \<le> MaxInt64"

definition i64 :: "int \<Rightarrow> int" where
  "i64 x = (x + 9223372036854775808) mod 18446744073709551616 - 9223372036854775808"

definition add64 :: "int \<Rightarrow> int \<Rightarrow> int" where
  "add64 a b = i64 (a + b)"

definition sub64 :: "int \<Rightarrow> int \<Rightarrow> int" where
  "sub64 a b = i64 (a - b)"

definition mul64 :: "int \<Rightarrow> int \<Rightarrow> int" where
  "mul64 a b = i64 (a * b)"

text \<open>Go's \<open>/\<close> and \<open>%\<close> truncate towards zero; the divisors of the source are never zero.\<close>

definition quo64 :: "int \<Rightarrow> int \<Rightarrow> int" where
  "quo64 a b = i64 (sgn a * sgn b * (\<bar>a\<bar> div \<bar>b\<bar>))"

definition rem64 :: "int \<Rightarrow> int \<Rightarrow> int" where
  "rem64 a b = sgn a * (\<bar>a\<bar> mod \<bar>b\<bar>)"

lemmas int64_limits = MaxInt64_def MinInt64_def MaxUint64_def

lemma i64_range: "in64 (i64 x)"
proof -
  have "0 \<le> (x + 9223372036854775808) mod 18446744073709551616"
    "(x + 9223372036854775808) mod 18446744073709551616 < 18446744073709551616"
    by simp_all
  then show ?thesis
    unfolding in64_def i64_def int64_limits by linarith
qed

lemma i64_id [simp]: "in64 x \<Longrightarrow> i64 x = x"
  unfolding in64_def i64_def int64_limits by (simp add: mod_pos_pos_trivial)

lemma add64_id [i64_simps]: "in64 (a + b) \<Longrightarrow> add64 a b = a + b"
  by (simp add: add64_def)

lemma sub64_id [i64_simps]: "in64 (a - b) \<Longrightarrow> sub64 a b = a - b"
  by (simp add: sub64_def)

lemma mul64_id [i64_simps]: "in64 (a * b) \<Longrightarrow> mul64 a b = a * b"
  by (simp add: mul64_def)

lemma add64_nonneg [i64_simps]:
  "0 \<le> a \<Longrightarrow> 0 \<le> b \<Longrightarrow> a + b \<le> MaxInt64 \<Longrightarrow> add64 a b = a + b"
  by (rule add64_id) (simp add: in64_def int64_limits)

lemma mul64_nonneg [i64_simps]:
  "0 \<le> a \<Longrightarrow> 0 \<le> b \<Longrightarrow> a * b \<le> MaxInt64 \<Longrightarrow> mul64 a b = a * b"
  by (rule mul64_id, unfold in64_def int64_limits)
    (use mult_nonneg_nonneg [of a b] in linarith)

lemma sub64_nonneg [i64_simps]:
  "0 \<le> a \<Longrightarrow> a \<le> MaxInt64 \<Longrightarrow> 0 \<le> b \<Longrightarrow> b \<le> MaxInt64 \<Longrightarrow> sub64 a b = a - b"
  by (rule sub64_id) (simp add: in64_def int64_limits)

lemma quo64_nonneg [i64_simps]:
  assumes "0 \<le> a" "a \<le> MaxInt64" "0 < b"
  shows "quo64 a b = a div b"
proof -
  have "0 \<le> a div b" using assms by (simp add: pos_imp_zdiv_nonneg_iff)
  moreover have "a div b \<le> a"
    using assms zdiv_mono2 [of a 1 b] by simp
  ultimately have "in64 (a div b)" using assms by (simp add: in64_def int64_limits)
  then show ?thesis using assms by (cases "a = 0") (simp_all add: quo64_def)
qed

lemma rem64_nonneg [i64_simps]: "0 \<le> a \<Longrightarrow> 0 < b \<Longrightarrow> rem64 a b = a mod b"
  by (cases "a = 0") (simp_all add: rem64_def)

text \<open>The overflow test \<open>a > MaxInt64 / b\<close> of the checked products decides the product.\<close>

lemma le_div_iff_mult_le:
  fixes a b m :: int
  assumes "0 < b"
  shows "a \<le> m div b \<longleftrightarrow> a * b \<le> m"
proof
  assume "a \<le> m div b"
  then have "a * b \<le> m div b * b" using assms by (simp add: mult_right_mono)
  also have "\<dots> \<le> m" using assms pos_mod_sign [of b m] by (simp add: minus_mod_eq_div_mult [symmetric])
  finally show "a * b \<le> m" .
next
  assume "a * b \<le> m"
  then have "a * b div b \<le> m div b" using assms by (intro zdiv_mono1) auto
  then show "a \<le> m div b" using assms by simp
qed

section \<open>Three-way comparison\<close>

definition cmp3 :: "'a::linorder \<Rightarrow> 'a \<Rightarrow> int" where
  "cmp3 a b = (if a < b then -1 else if b < a then 1 else 0)"

lemma cmp3_eq_0 [simp]: "cmp3 a b = 0 \<longleftrightarrow> a = b"
  by (auto simp: cmp3_def)

lemma cmp3_neg [simp]: "cmp3 a b < 0 \<longleftrightarrow> a < b"
  by (auto simp: cmp3_def)

lemma cmp3_pos [simp]: "0 < cmp3 a b \<longleftrightarrow> b < a"
  by (auto simp: cmp3_def)

lemma cmp3_swap: "- cmp3 a b = cmp3 b a"
  by (auto simp: cmp3_def)

lemma cmp3_mono: "strict_mono f \<Longrightarrow> cmp3 (f a) (f b) = cmp3 a b"
  by (auto simp: cmp3_def strict_mono_less)

lemma cmp3_minus:
  fixes a b :: "'a::linordered_ab_group_add"
  shows "cmp3 (- a) (- b) = cmp3 b a"
  by (auto simp: cmp3_def)

section \<open>Early returns\<close>

text \<open>
  \<open>tryThen\<close> is the pattern \<open>v, err := f(); if err != nil { return err }\<close>, and \<open>checkThen\<close> the
  same for a call that returns an error alone.
\<close>

definition tryThen :: "'e + 'a \<Rightarrow> ('a \<Rightarrow> 'e + 'b) \<Rightarrow> 'e + 'b" where
  "tryThen r f = (case r of Inl e \<Rightarrow> Inl e | Inr v \<Rightarrow> f v)"

definition checkThen :: "'e option \<Rightarrow> 'e + 'b \<Rightarrow> 'e + 'b" where
  "checkThen r f = (case r of Some e \<Rightarrow> Inl e | None \<Rightarrow> f)"

lemma tryThen_simps [simp]:
  "tryThen (Inl e) f = Inl e" "tryThen (Inr v) f = f v"
  by (simp_all add: tryThen_def)

lemma checkThen_simps [simp]:
  "checkThen (Some e) f = Inl e" "checkThen None f = f"
  by (simp_all add: checkThen_def)

lemma tryThen_Inr_iff [simp]: "tryThen r f = Inr w \<longleftrightarrow> (\<exists>v. r = Inr v \<and> f v = Inr w)"
  by (cases r) simp_all

lemma checkThen_Inr_iff [simp]: "checkThen r f = Inr w \<longleftrightarrow> r = None \<and> f = Inr w"
  by (cases r) simp_all

section \<open>Lists\<close>

lemma dropWhile_hd: "dropWhile P xs = [] \<or> \<not> P (hd (dropWhile P xs))"
  by (cases "dropWhile P xs = []") (simp_all add: hd_dropWhile)

lemma dropWhile_idem [simp]: "dropWhile P (dropWhile P xs) = dropWhile P xs"
  by (induction xs) auto

lemma find_None_all: "find P xs = None \<longleftrightarrow> (\<forall>x\<in>set xs. \<not> P x)"
  by (induction xs) auto

lemma distinct_nth_unique:
  "distinct xs \<Longrightarrow> i < length xs \<Longrightarrow> j < length xs \<Longrightarrow> xs ! i = xs ! j \<Longrightarrow> i = j"
  by (simp add: nth_eq_iff_index_eq)

end
