(* ===== verification/Go_Strings.thy ===== *)
theory Go_Strings
  imports Go_Base
begin

text \<open>
  Go strings are byte sequences: a \<open>string\<close> of HOL is a list of \<open>char\<close>, and a \<open>char\<close> is one
  byte (\<open>of_char\<close> gives its value).  This theory holds what the source uses of the packages
  \<open>strings\<close> and \<open>unicode/utf8\<close>: lexicographic comparison, trimming, splitting, the
  decoding of a byte sequence into runes as a \<open>range\<close> loop does it (an invalid byte is the
  replacement rune U+FFFD of width one), and the encoding of a rune as \<open>WriteRune\<close> does it.
  The decimal digit strings, shared by the integer, decimal and pass-set parsers, are at the end:
  their value \<open>decNat\<close> and the theorem that comparing normalised digit strings by length and then
  bytewise compares their values.
\<close>

section \<open>Bytes\<close>

abbreviation byte :: "char \<Rightarrow> nat" where
  "byte c \<equiv> of_char c"

abbreviation chr :: "nat \<Rightarrow> char" where
  "chr n \<equiv> char_of n"

lemma byte_inject [simp]: "byte c = byte d \<longleftrightarrow> c = d"
  by (simp add: of_char_eq_iff)

text \<open>\<open>strings.Compare\<close>: bytewise lexicographic order.\<close>

fun strCompare :: "string \<Rightarrow> string \<Rightarrow> int" where
  "strCompare [] [] = 0"
| "strCompare [] (y # ys) = -1"
| "strCompare (x # xs) [] = 1"
| "strCompare (x # xs) (y # ys) =
     (if byte x < byte y then -1 else if byte y < byte x then 1 else strCompare xs ys)"

lemma strCompare_eq_0 [simp]: "strCompare xs ys = 0 \<longleftrightarrow> xs = ys"
proof (induction xs ys rule: strCompare.induct)
  case (4 x xs y ys)
  then show ?case by (cases "byte x = byte y") auto
qed auto

lemma strCompare_swap: "strCompare ys xs = - strCompare xs ys"
  by (induction xs ys rule: strCompare.induct) auto

lemma strCompare_range: "strCompare xs ys \<in> {-1, 0, 1}"
  by (induction xs ys rule: strCompare.induct) auto

text \<open>\<open>strings.Split(s, sep)\<close> for a one-byte separator: one more piece than separators.\<close>

fun split_on :: "char \<Rightarrow> string \<Rightarrow> string list" where
  "split_on sep [] = [[]]"
| "split_on sep (c # cs) =
     (if c = sep then [] # split_on sep cs
      else (case split_on sep cs of [] \<Rightarrow> [[c]] | p # ps \<Rightarrow> (c # p) # ps))"

fun join_on :: "string \<Rightarrow> string list \<Rightarrow> string" where
  "join_on sep [] = []"
| "join_on sep [p] = p"
| "join_on sep (p # q # ps) = p @ sep @ join_on sep (q # ps)"

lemma split_on_not_Nil [simp]: "split_on sep s \<noteq> []"
  by (induction s) (auto split: list.splits)

lemma join_split: "join_on [sep] (split_on sep s) = s"
proof (induction s)
  case (Cons c cs)
  obtain p ps where s: "split_on sep cs = p # ps"
    using split_on_not_Nil by (meson neq_Nil_conv)
  show ?case
  proof (cases ps)
    case Nil
    with Cons s show ?thesis by auto
  next
    case (Cons q qs)
    with Cons.IH s show ?thesis by auto
  qed
qed simp

lemma split_on_no_sep: "p \<in> set (split_on sep s) \<Longrightarrow> sep \<notin> set p"
proof (induction s arbitrary: p)
  case (Cons c cs)
  then show ?case
    by (cases "split_on sep cs") (auto split: if_splits)
qed simp

lemma split_on_single: "sep \<notin> set s \<Longrightarrow> split_on sep s = [s]"
  by (induction s) auto

lemma split_on_append: "sep \<notin> set p \<Longrightarrow> split_on sep (p @ sep # s) = p # split_on sep s"
  by (induction p) auto

lemma split_join:
  "ps \<noteq> [] \<Longrightarrow> \<forall>p \<in> set ps. sep \<notin> set p \<Longrightarrow> split_on sep (join_on [sep] ps) = ps"
  by (induction "[sep]" ps rule: join_on.induct) (auto simp: split_on_single split_on_append)

section \<open>UTF-8\<close>

text \<open>
  \<open>utf8.DecodeRuneInString\<close>: the rune and its width.  Every malformed, overlong, surrogate or
  truncated sequence is the replacement rune of width one.
\<close>

definition RuneError :: nat where
  "RuneError = 0xFFFD"

definition cont :: "nat \<Rightarrow> bool" where
  "cont b \<longleftrightarrow> 0x80 \<le> b \<and> b \<le> 0xBF"

definition second3 :: "nat \<Rightarrow> nat \<Rightarrow> bool" where
  "second3 a b \<longleftrightarrow> (if a = 0xE0 then 0xA0 \<le> b \<and> b \<le> 0xBF
                   else if a = 0xED then 0x80 \<le> b \<and> b \<le> 0x9F else cont b)"

definition second4 :: "nat \<Rightarrow> nat \<Rightarrow> bool" where
  "second4 a b \<longleftrightarrow> (if a = 0xF0 then 0x90 \<le> b \<and> b \<le> 0xBF
                   else if a = 0xF4 then 0x80 \<le> b \<and> b \<le> 0x8F else cont b)"

fun decodeBytes :: "nat list \<Rightarrow> nat \<times> nat" where
  "decodeBytes [] = (RuneError, 0)"
| "decodeBytes (a # bs) =
     (if a < 0x80 then (a, 1)
      else if 0xC2 \<le> a \<and> a \<le> 0xDF then
        (case bs of b # _ \<Rightarrow> if cont b then ((a - 0xC0) * 64 + (b - 0x80), 2) else (RuneError, 1)
                  | [] \<Rightarrow> (RuneError, 1))
      else if 0xE0 \<le> a \<and> a \<le> 0xEF then
        (case bs of b # c # _ \<Rightarrow>
             if second3 a b \<and> cont c
             then ((a - 0xE0) * 4096 + (b - 0x80) * 64 + (c - 0x80), 3) else (RuneError, 1)
           | _ \<Rightarrow> (RuneError, 1))
      else if 0xF0 \<le> a \<and> a \<le> 0xF4 then
        (case bs of b # c # d # _ \<Rightarrow>
             if second4 a b \<and> cont c \<and> cont d
             then ((a - 0xF0) * 262144 + (b - 0x80) * 4096 + (c - 0x80) * 64 + (d - 0x80), 4)
             else (RuneError, 1)
           | _ \<Rightarrow> (RuneError, 1))
      else (RuneError, 1))"

definition decodeRune :: "string \<Rightarrow> nat \<times> nat" where
  "decodeRune s = decodeBytes (map byte (take 4 s))"

text \<open>The runes a \<open>range\<close> loop over a string visits, and \<open>utf8.ValidString\<close>.\<close>

fun runes :: "string \<Rightarrow> nat list" where
  "runes [] = []"
| "runes (c # cs) = (let (r, w) = decodeRune (c # cs) in r # runes (drop (w - 1) cs))"

fun validUTF8 :: "string \<Rightarrow> bool" where
  "validUTF8 [] = True"
| "validUTF8 (c # cs) =
     (let (r, w) = decodeRune (c # cs)
      in \<not> (r = RuneError \<and> w = 1) \<and> validUTF8 (drop (w - 1) cs))"

definition scalar_rune :: "nat \<Rightarrow> bool" where
  "scalar_rune r \<longleftrightarrow> r \<le> 0x10FFFF \<and> \<not> (0xD800 \<le> r \<and> r \<le> 0xDFFF)"

text \<open>\<open>strings.Builder.WriteRune\<close> (\<open>utf8.AppendRune\<close>).\<close>

definition encodeRune :: "nat \<Rightarrow> string" where
  "encodeRune r0 =
     (let r = (if scalar_rune r0 then r0 else RuneError) in
      if r < 0x80 then [chr r]
      else if r < 0x800 then [chr (0xC0 + r div 64), chr (0x80 + r mod 64)]
      else if r < 0x10000 then
        [chr (0xE0 + r div 4096), chr (0x80 + r div 64 mod 64), chr (0x80 + r mod 64)]
      else [chr (0xF0 + r div 262144), chr (0x80 + r div 4096 mod 64),
            chr (0x80 + r div 64 mod 64), chr (0x80 + r mod 64)])"

definition encodeRunes :: "nat list \<Rightarrow> string" where
  "encodeRunes rs = concat (map encodeRune rs)"

lemma encodeRunes_simps [simp]:
  "encodeRunes [] = []"
  "encodeRunes (r # rs) = encodeRune r @ encodeRunes rs"
  "encodeRunes (rs @ ss) = encodeRunes rs @ encodeRunes ss"
  by (simp_all add: encodeRunes_def)

lemma encodeRune_ascii: "r < 128 \<Longrightarrow> encodeRune r = [chr r]"
  by (simp add: encodeRune_def scalar_rune_def)

lemma encodeRune_not_Nil [simp]: "encodeRune r \<noteq> []"
  by (simp add: encodeRune_def Let_def)

lemma length_encodeRune: "length (encodeRune r) \<le> 4"
  by (simp add: encodeRune_def Let_def)

lemma byte_chr: "n < 256 \<Longrightarrow> byte (chr n) = n"
  by simp

lemma decodeBytes_encode2:
  assumes "0x80 \<le> r" "r < 0x800"
  shows "decodeBytes ((0xC0 + r div 64) # (0x80 + r mod 64) # bs) = (r, 2)"
proof -
  have "2 \<le> r div 64" "r div 64 < 32" using assms by auto
  then show ?thesis using assms by (simp add: cont_def)
qed

lemma decodeBytes_encode3:
  assumes "0x800 \<le> r" "r < 0x10000" "scalar_rune r"
  shows "decodeBytes ((0xE0 + r div 4096) # (0x80 + r div 64 mod 64) # (0x80 + r mod 64) # bs) = (r, 3)"
proof -
  have d: "r div 4096 < 16" using assms by auto
  have sum: "r div 4096 * 4096 + r div 64 mod 64 * 64 + r mod 64 = r"
  proof -
    have "r div 4096 * 64 + r div 64 mod 64 = r div 64"
      using div_mult_mod_eq [of "r div 64" 64] by (simp add: div_mult2_eq [symmetric])
    moreover have "r div 64 * 64 + r mod 64 = r" by (rule div_mult_mod_eq)
    ultimately show ?thesis by linarith
  qed
  have "second3 (0xE0 + r div 4096) (0x80 + r div 64 mod 64)"
  proof -
    have "r div 4096 = 0 \<Longrightarrow> 32 \<le> r div 64 mod 64"
      using assms by (simp add: div_eq_0_iff)
    moreover have "r div 4096 = 13 \<Longrightarrow> r div 64 mod 64 < 32"
    proof -
      assume "r div 4096 = 13"
      then have "r div 64 div 64 = 13" by (simp add: div_mult2_eq [symmetric])
      then have m: "r div 64 = 13 * 64 + r div 64 mod 64"
        using div_mult_mod_eq [of "r div 64" 64] by simp
      have "r < 0xE000" using \<open>r div 4096 = 13\<close> by auto
      with assms have "r < 0xD800" by (auto simp: scalar_rune_def)
      then have "r div 64 < 864" by auto
      with m show ?thesis by simp
    qed
    moreover have "r div 64 mod 64 < 64" by simp
    ultimately show ?thesis by (auto simp: second3_def cont_def)
  qed
  moreover have "cont (0x80 + r mod 64)" by (auto simp: cont_def)
  ultimately show ?thesis using d sum by simp
qed

lemma decodeBytes_encode4:
  assumes "0x10000 \<le> r" "scalar_rune r"
  shows "decodeBytes ((0xF0 + r div 262144) # (0x80 + r div 4096 mod 64) #
           (0x80 + r div 64 mod 64) # (0x80 + r mod 64) # bs) = (r, 4)"
proof -
  have r: "r \<le> 0x10FFFF" using assms by (simp add: scalar_rune_def)
  then have d: "r div 262144 < 5" by auto
  have sum: "r div 262144 * 262144 + r div 4096 mod 64 * 4096 + r div 64 mod 64 * 64 + r mod 64 = r"
  proof -
    have "r div 262144 * 64 + r div 4096 mod 64 = r div 4096"
      using div_mult_mod_eq [of "r div 4096" 64] by (simp add: div_mult2_eq [symmetric])
    moreover have "r div 4096 * 64 + r div 64 mod 64 = r div 64"
      using div_mult_mod_eq [of "r div 64" 64] by (simp add: div_mult2_eq [symmetric])
    moreover have "r div 64 * 64 + r mod 64 = r" by (rule div_mult_mod_eq)
    ultimately show ?thesis by linarith
  qed
  have m: "r div 4096 = r div 262144 * 64 + r div 4096 mod 64"
    using div_mult_mod_eq [of "r div 4096" 64] by (simp add: div_mult2_eq [symmetric])
  have "second4 (0xF0 + r div 262144) (0x80 + r div 4096 mod 64)"
  proof -
    have "16 \<le> r div 4096" "r div 4096 \<le> 271" using assms r by auto
    with m have "r div 262144 = 0 \<Longrightarrow> 16 \<le> r div 4096 mod 64"
      and "r div 262144 = 4 \<Longrightarrow> r div 4096 mod 64 < 16" by auto
    moreover have "r div 4096 mod 64 < 64" by simp
    ultimately show ?thesis by (auto simp: second4_def cont_def)
  qed
  moreover have "cont (0x80 + r mod 64)" "cont (0x80 + r div 64 mod 64)" by (auto simp: cont_def)
  ultimately show ?thesis using d sum by simp
qed

lemma decodeRune_encode:
  assumes "scalar_rune r"
  shows "decodeRune (encodeRune r @ s) = (r, length (encodeRune r))"
proof -
  have r: "r \<le> 0x10FFFF" using assms by (simp add: scalar_rune_def)
  consider "r < 0x80" | "0x80 \<le> r" "r < 0x800" | "0x800 \<le> r" "r < 0x10000" | "0x10000 \<le> r"
    by linarith
  then show ?thesis
  proof cases
    case 1
    then show ?thesis using assms by (simp add: decodeRune_def encodeRune_def)
  next
    case 2
    then have "r div 64 < 32" by auto
    then have "byte (chr (0xC0 + r div 64)) = 0xC0 + r div 64" by simp
    moreover have "byte (chr (0x80 + r mod 64)) = 0x80 + r mod 64" by simp
    ultimately show ?thesis
      using 2 assms decodeBytes_encode2 [OF 2] by (simp add: decodeRune_def encodeRune_def del: of_char_of)
  next
    case 3
    then have "byte (chr (0xE0 + r div 4096)) = 0xE0 + r div 4096" by auto
    moreover have "byte (chr (0x80 + r mod 64)) = 0x80 + r mod 64"
      and "byte (chr (0x80 + r div 64 mod 64)) = 0x80 + r div 64 mod 64" by simp_all
    ultimately show ?thesis
      using 3 assms decodeBytes_encode3 [OF 3 assms] by (simp add: decodeRune_def encodeRune_def del: of_char_of)
  next
    case 4
    have "byte (chr (0xF0 + r div 262144)) = 0xF0 + r div 262144" using r by auto
    moreover have "byte (chr (0x80 + r mod 64)) = 0x80 + r mod 64"
      and "byte (chr (0x80 + r div 64 mod 64)) = 0x80 + r div 64 mod 64"
      and "byte (chr (0x80 + r div 4096 mod 64)) = 0x80 + r div 4096 mod 64" by simp_all
    ultimately show ?thesis
      using 4 assms decodeBytes_encode4 [OF 4 assms] by (simp add: decodeRune_def encodeRune_def del: of_char_of)
  qed
qed

lemma runes_encodeRune_append:
  "scalar_rune r \<Longrightarrow> runes (encodeRune r @ s) = r # runes s"
  using decodeRune_encode [of r s] encodeRune_not_Nil [of r]
  by (cases "encodeRune r") auto

lemma runes_encodeRunes: "\<forall>r \<in> set rs. scalar_rune r \<Longrightarrow> runes (encodeRunes rs) = rs"
  by (induction rs) (simp_all add: runes_encodeRune_append)

lemma scalar_RuneError [simp]: "scalar_rune RuneError"
  by (simp add: scalar_rune_def RuneError_def)

lemma decodeBytes_scalar: "scalar_rune (fst (decodeBytes bs))"
proof (cases bs)
  case (Cons a cs)
  consider "a < 0x80" | "0xC2 \<le> a" "a \<le> 0xDF" | "0xE0 \<le> a" "a \<le> 0xEF" | "0xF0 \<le> a" "a \<le> 0xF4"
    | "\<not> a < 0x80" "\<not> (0xC2 \<le> a \<and> a \<le> 0xDF)" "\<not> (0xE0 \<le> a \<and> a \<le> 0xEF)" "\<not> (0xF0 \<le> a \<and> a \<le> 0xF4)"
    by linarith
  then show ?thesis
  proof cases
    case 2
    then show ?thesis using Cons by (auto simp: scalar_rune_def cont_def RuneError_def split: list.splits)
  next
    case 3
    have "second3 a b \<Longrightarrow> cont c \<Longrightarrow> scalar_rune ((a - 0xE0) * 4096 + (b - 0x80) * 64 + (c - 0x80))" for b c
      using 3 by (cases "a = 0xED") (auto simp: scalar_rune_def second3_def cont_def split: if_splits)
    with 3 Cons show ?thesis by (auto split: list.splits)
  next
    case 4
    then show ?thesis using Cons
      by (auto simp: scalar_rune_def cont_def second4_def RuneError_def split: list.splits if_splits)
  qed (auto simp: Cons scalar_rune_def RuneError_def)
qed simp

lemma runes_scalar: "r \<in> set (runes s) \<Longrightarrow> scalar_rune r"
proof (induction s rule: runes.induct)
  case (2 c cs)
  obtain q w where d: "decodeRune (c # cs) = (q, w)" by force
  then have "scalar_rune q" using decodeBytes_scalar by (metis decodeRune_def fst_conv)
  with 2 d show ?case by auto
qed simp

lemma div_mod_64:
  fixes m z :: nat
  assumes "z < 64"
  shows "(m * 64 + z) div 64 = m" "(m * 64 + z) mod 64 = z"
  using assms by (simp_all add: div_add1_eq mod_mult_self3)

lemma encode_decode2:
  fixes a b :: nat
  assumes "0xC2 \<le> a" "a \<le> 0xDF" "cont b"
  shows "encodeRune ((a - 0xC0) * 64 + (b - 0x80)) = [chr a, chr b]"
proof -
  have b: "b - 0x80 < 64" "0x80 \<le> b" using assms by (auto simp: cont_def)
  let ?r = "(a - 0xC0) * 64 + (b - 0x80)"
  have "?r div 64 = a - 0xC0" "?r mod 64 = b - 0x80" by (rule div_mod_64 [OF b(1)])+
  moreover have "scalar_rune ?r" "0x80 \<le> ?r" "?r < 0x800" using assms b by (auto simp: scalar_rune_def)
  ultimately show ?thesis using assms b by (simp add: encodeRune_def)
qed

lemma encode_decode3:
  fixes a b c :: nat
  assumes "0xE0 \<le> a" "a \<le> 0xEF" "second3 a b" "cont c"
  shows "encodeRune ((a - 0xE0) * 4096 + (b - 0x80) * 64 + (c - 0x80)) = [chr a, chr b, chr c]"
proof -
  define x y z where "x = a - 0xE0" and "y = b - 0x80" and "z = c - 0x80"
  have rng: "x < 16" "y < 64" "z < 64" "a = 0xE0 + x" "b = 0x80 + y" "c = 0x80 + z"
    using assms by (auto simp: x_def y_def z_def cont_def second3_def split: if_splits)
  let ?r = "x * 4096 + y * 64 + z"
  have f: "?r = (x * 64 + y) * 64 + z" by simp
  have "?r div 64 = x * 64 + y" "?r mod 64 = z" unfolding f by (rule div_mod_64 [OF rng(3)])+
  moreover have "?r div 4096 = x"
    using rng unfolding f by (simp add: div_mult2_eq [of _ 64 64, simplified])
  moreover have "scalar_rune ?r"
    using decodeBytes_scalar [of "[a, b, c]"] assms by (simp add: x_def y_def z_def)
  moreover have "0x800 \<le> ?r" using assms rng
    by (cases "x = 0") (auto simp: second3_def split: if_splits)
  moreover have "?r < 0x10000" using rng by auto
  ultimately have "encodeRune ?r = [chr a, chr b, chr c]"
    using rng by (simp add: encodeRune_def)
  then show ?thesis by (simp add: x_def y_def z_def)
qed

lemma encode_decode4:
  fixes a b c d :: nat
  assumes "0xF0 \<le> a" "a \<le> 0xF4" "second4 a b" "cont c" "cont d"
  shows "encodeRune ((a - 0xF0) * 262144 + (b - 0x80) * 4096 + (c - 0x80) * 64 + (d - 0x80))
         = [chr a, chr b, chr c, chr d]"
proof -
  define x y z u where "x = a - 0xF0" and "y = b - 0x80" and "z = c - 0x80" and "u = d - 0x80"
  have rng: "x < 5" "y < 64" "z < 64" "u < 64" "a = 0xF0 + x" "b = 0x80 + y" "c = 0x80 + z" "d = 0x80 + u"
    using assms by (auto simp: x_def y_def z_def u_def cont_def second4_def split: if_splits)
  let ?r = "x * 262144 + y * 4096 + z * 64 + u"
  have f: "?r = ((x * 64 + y) * 64 + z) * 64 + u" by simp
  have "?r div 64 = (x * 64 + y) * 64 + z" "?r mod 64 = u"
    unfolding f by (rule div_mod_64 [OF rng(4)])+
  moreover have "((x * 64 + y) * 64 + z) mod 64 = z" by (rule div_mod_64 [OF rng(3)])
  moreover have "?r div 4096 = x * 64 + y"
    using rng unfolding f by (simp add: div_mult2_eq [of _ 64 64, simplified])
  moreover have "?r div 262144 = x"
    using rng unfolding f
    by (simp add: div_mult2_eq [of _ 64 4096, simplified] div_mult2_eq [of _ 64 64, simplified])
  moreover have "scalar_rune ?r"
    using decodeBytes_scalar [of "[a, b, c, d]"] assms by (simp add: x_def y_def z_def u_def)
  moreover have "0x10000 \<le> ?r" using assms rng
    by (cases "x = 0") (auto simp: second4_def split: if_splits)
  ultimately have "encodeRune ?r = [chr a, chr b, chr c, chr d]"
    using rng by (simp add: encodeRune_def)
  then show ?thesis by (simp add: x_def y_def z_def u_def)
qed

lemma encode_decodeRune:
  assumes "decodeRune (e # es) = (r, w)" "\<not> (r = RuneError \<and> w = 1)"
  shows "encodeRune r @ drop (w - 1) es = e # es"
  using assms unfolding decodeRune_def
  by (cases es; cases "tl es"; cases "tl (tl es)"; simp)
     (auto simp: encode_decode2 encode_decode3 encode_decode4 encodeRune_ascii
        split: if_splits)

lemma encodeRunes_runes: "validUTF8 s \<Longrightarrow> encodeRunes (runes s) = s"
proof (induction s rule: runes.induct)
  case (2 c cs)
  obtain r w where d: "decodeRune (c # cs) = (r, w)" by force
  with 2 have "encodeRunes (runes (drop (w - 1) cs)) = drop (w - 1) cs" by simp
  with 2 d encode_decodeRune [OF d] show ?case by simp
qed simp

lemma runes_ascii: "\<forall>c \<in> set s. byte c < 128 \<Longrightarrow> runes s = map byte s"
  by (induction s) (simp_all add: decodeRune_def)

lemma validUTF8_ascii: "\<forall>c \<in> set s. byte c < 128 \<Longrightarrow> validUTF8 s"
  by (induction s) (simp_all add: decodeRune_def RuneError_def)

lemma validUTF8_encodeRunes:
  "\<forall>r \<in> set rs. scalar_rune r \<Longrightarrow> validUTF8 (encodeRunes rs)"
proof (induction rs)
  case (Cons r rs)
  obtain c cs where c: "encodeRune r = c # cs" using encodeRune_not_Nil by (meson neq_Nil_conv)
  have "decodeRune (encodeRune r @ encodeRunes rs) = (r, length (encodeRune r))"
    using Cons.prems by (intro decodeRune_encode) simp
  moreover have "\<not> (r = RuneError \<and> length (encodeRune r) = 1)"
    by (auto simp: encodeRune_def RuneError_def scalar_rune_def)
  ultimately show ?case using Cons c by simp
qed simp

section \<open>Decimal digit strings\<close>

definition isDigit :: "char \<Rightarrow> bool" where
  "isDigit c \<longleftrightarrow> 48 \<le> byte c \<and> byte c \<le> 57"

definition digitVal :: "char \<Rightarrow> nat" where
  "digitVal c = byte c - 48"

primrec decNat :: "string \<Rightarrow> nat" where
  "decNat [] = 0"
| "decNat (c # cs) = digitVal c * 10 ^ length cs + decNat cs"

abbreviation allDigits :: "string \<Rightarrow> bool" where
  "allDigits s \<equiv> list_all isDigit s"

definition noLeadingZero :: "string \<Rightarrow> bool" where
  "noLeadingZero s \<longleftrightarrow> s = [] \<or> hd s \<noteq> CHR ''0''"

definition noTrailingZero :: "string \<Rightarrow> bool" where
  "noTrailingZero s \<longleftrightarrow> s = [] \<or> last s \<noteq> CHR ''0''"

lemma isDigit_less_10: "isDigit c \<Longrightarrow> digitVal c \<le> 9"
  by (auto simp: isDigit_def digitVal_def)

lemma digitVal_0 [simp]: "digitVal (CHR ''0'') = 0"
  by (simp add: digitVal_def)

lemma digitVal_eq_0: "isDigit c \<Longrightarrow> digitVal c = 0 \<longleftrightarrow> c = CHR ''0''"
proof
  assume "isDigit c" "digitVal c = 0"
  then have "byte c = byte (CHR ''0'')" by (simp add: isDigit_def digitVal_def)
  then show "c = CHR ''0''" by (simp only: byte_inject)
qed simp

lemma digitVal_less:
  "isDigit c \<Longrightarrow> isDigit d \<Longrightarrow> digitVal c < digitVal d \<longleftrightarrow> byte c < byte d"
  by (auto simp: isDigit_def digitVal_def)

lemma decNat_bound: "allDigits s \<Longrightarrow> decNat s < 10 ^ length s"
proof (induction s)
  case (Cons c cs)
  then have "decNat cs < 10 ^ length cs" "digitVal c \<le> 9" by (simp_all add: isDigit_less_10)
  moreover have "digitVal c * 10 ^ length cs \<le> 9 * 10 ^ length cs"
    using calculation by (intro mult_le_mono1)
  moreover have "(10::nat) ^ length (c # cs) = 10 * 10 ^ length cs" by simp
  ultimately show ?case unfolding decNat.simps by linarith
qed simp

lemma decNat_append: "decNat (s @ t) = decNat s * 10 ^ length t + decNat t"
  by (induction s) (simp_all add: power_add algebra_simps)

lemma decNat_replicate_0 [simp]: "decNat (replicate n (CHR ''0'')) = 0"
  by (induction n) simp_all

lemma decNat_dropWhile_0: "decNat (dropWhile (\<lambda>c. c = CHR ''0'') s) = decNat s"
  by (induction s) simp_all

lemma decNat_leading:
  assumes "allDigits s" "noLeadingZero s" "s \<noteq> []"
  shows "10 ^ (length s - 1) \<le> decNat s"
proof (cases s)
  case (Cons c cs)
  with assms have "1 \<le> digitVal c"
    using digitVal_eq_0 [of c] by (simp add: noLeadingZero_def)
  then have "1 * 10 ^ length cs \<le> digitVal c * 10 ^ length cs" by (rule mult_le_mono1)
  then have "10 ^ length cs \<le> decNat (c # cs)" unfolding decNat.simps by linarith
  with Cons show ?thesis by simp
qed (use assms in simp)

text \<open>Two normalised digit strings of different lengths, and of equal length.\<close>

lemma decNat_shorter:
  assumes "allDigits s" "allDigits t" "noLeadingZero t" "length s < length t"
  shows "decNat s < decNat t"
proof -
  have "decNat s < 10 ^ length s" using assms by (intro decNat_bound)
  also have "\<dots> \<le> 10 ^ (length t - 1)" using assms by (intro power_increasing) auto
  also have "\<dots> \<le> decNat t" using assms by (intro decNat_leading) auto
  finally show ?thesis .
qed

lemma strCompare_decNat:
  assumes "length s = length t" "allDigits s" "allDigits t"
  shows "strCompare s t = cmp3 (decNat s) (decNat t)"
  using assms
proof (induction s t rule: list_induct2)
  case (Cons x xs y ys)
  then have d: "isDigit x" "isDigit y" and IH: "strCompare xs ys = cmp3 (decNat xs) (decNat ys)"
    and b: "decNat xs < 10 ^ length xs" "decNat ys < 10 ^ length xs"
    using decNat_bound [of xs] decNat_bound [of ys] by auto
  have lt: "digitVal u * 10 ^ length xs + p < digitVal v * 10 ^ length xs + q"
    if "digitVal u < digitVal v" "p < 10 ^ length xs" for u v p q
  proof -
    have "digitVal u * 10 ^ length xs + p < Suc (digitVal u) * 10 ^ length xs" using that by simp
    also have "\<dots> \<le> digitVal v * 10 ^ length xs" using that by (intro mult_le_mono1) simp
    finally show ?thesis by simp
  qed
  consider "byte x < byte y" | "byte y < byte x" | "x = y"
    using linorder_less_linear [of "byte x" "byte y"] by auto
  then show ?case
  proof cases
    case 1
    with d lt [of x y "decNat xs" "decNat ys"] b Cons.hyps show ?thesis
      by (simp add: cmp3_def digitVal_less)
  next
    case 2
    with d lt [of y x "decNat ys" "decNat xs"] b Cons.hyps show ?thesis
      by (simp add: cmp3_def digitVal_less)
  next
    case 3
    with IH Cons.hyps show ?thesis by (simp add: cmp3_def)
  qed
qed simp

text \<open>
  The shared fact of the integer, decimal and pass-number comparisons: comparing lengths first and
  bytes second compares the values of digit strings without leading zeros.
\<close>

definition compareDigits :: "string \<Rightarrow> string \<Rightarrow> int" where
  "compareDigits s t =
     (if length s < length t then -1 else if length t < length s then 1 else strCompare s t)"

lemma compareDigits_decNat:
  assumes "allDigits s" "allDigits t" "noLeadingZero s" "noLeadingZero t"
  shows "compareDigits s t = cmp3 (decNat s) (decNat t)"
  using assms decNat_shorter [of s t] decNat_shorter [of t s]
  by (auto simp: compareDigits_def cmp3_def strCompare_decNat)

text \<open>Decimal rendering: \<open>big.Int.String\<close> and the verb \<open>%d\<close>.\<close>

fun showNat :: "nat \<Rightarrow> string" where
  "showNat n = (if n < 10 then [chr (48 + n)] else showNat (n div 10) @ [chr (48 + n mod 10)])"

declare showNat.simps [simp del]

definition showInt :: "int \<Rightarrow> string" where
  "showInt z = (if z < 0 then ''-'' @ showNat (nat (- z)) else showNat (nat z))"

lemma digit_chr: "d < 10 \<Longrightarrow> isDigit (chr (48 + d)) \<and> digitVal (chr (48 + d)) = d"
  by (simp add: isDigit_def digitVal_def)

lemma showNat_digits: "allDigits (showNat n)"
proof (induction n rule: showNat.induct)
  case (1 n)
  then show ?case
    using digit_chr [of n] digit_chr [of "n mod 10"] by (simp add: showNat.simps [of n])
qed

lemma decNat_showNat: "decNat (showNat n) = n"
proof (induction n rule: showNat.induct)
  case (1 n)
  then show ?case
    using digit_chr [of n] digit_chr [of "n mod 10"]
    by (cases "n < 10") (simp_all add: showNat.simps [of n] decNat_append)
qed

lemma showNat_not_Nil [simp]: "showNat n \<noteq> []"
  by (subst showNat.simps) simp

lemma showNat_noLeadingZero: "0 < n \<Longrightarrow> noLeadingZero (showNat n)"
proof (induction n rule: showNat.induct)
  case (1 n)
  show ?case
  proof (cases "n < 10")
    case True
    then have "digitVal (chr (48 + n)) \<noteq> digitVal (CHR ''0'')" using 1 digit_chr [of n] by simp
    then show ?thesis using True by (auto simp: showNat.simps [of n] noLeadingZero_def)
  next
    case False
    with 1 have "noLeadingZero (showNat (n div 10))" by simp
    with False show ?thesis by (simp add: showNat.simps [of n] noLeadingZero_def)
  qed
qed

lemma showNat_bounds:
  assumes "0 < n"
  shows "10 ^ (length (showNat n) - 1) \<le> n" "n < 10 ^ length (showNat n)"
  using decNat_leading [OF showNat_digits showNat_noLeadingZero [OF assms] showNat_not_Nil]
    decNat_bound [OF showNat_digits [of n]] by (simp_all add: decNat_showNat)

lemma showNat_inject [simp]: "showNat m = showNat n \<longleftrightarrow> m = n"
  by (metis decNat_showNat)

end
