(* ===== verification/Budgets.thy ===== *)
theory Budgets
  imports Go_Strings
begin

text \<open>
  The resource accounts of \<open>validation/budgets.go\<close> and the error values of
  \<open>validation/errors.go\<close>.

  An \<open>Account\<close> is the mutex-protected record shared by an assessment and its children.  Every
  exported method locks it for its whole body, so a concurrent history is a sequence of whole
  method calls; \<open>account_step\<close> is one such call and \<open>account_reachable\<close> the states any history
  can produce.  A nil receiver and the zero \<open>Account\<close> take the same branch of every method
  (\<open>a == nil || !a.initialized\<close>), so the zero record stands for both.
\<close>

section \<open>Errors\<close>

datatype BudgetKind =
    BudgetInputBytes | BudgetExternalBytes | BudgetBufferedBytes | BudgetDepth | BudgetNodes
  | BudgetAttributes | BudgetEvents | BudgetScalarBytes | BudgetIDs | BudgetRuleSteps
  | BudgetContextFacts | BudgetLinkedDocuments | BudgetDiagnostics | BudgetDiagnosticBytes
  | OtherKind string

fun kindText :: "BudgetKind \<Rightarrow> string" where
  "kindText BudgetInputBytes = ''input-bytes''"
| "kindText BudgetExternalBytes = ''external-bytes''"
| "kindText BudgetBufferedBytes = ''buffered-bytes''"
| "kindText BudgetDepth = ''depth''"
| "kindText BudgetNodes = ''nodes''"
| "kindText BudgetAttributes = ''attributes''"
| "kindText BudgetEvents = ''events''"
| "kindText BudgetScalarBytes = ''scalar-bytes''"
| "kindText BudgetIDs = ''ids''"
| "kindText BudgetRuleSteps = ''rule-steps''"
| "kindText BudgetContextFacts = ''context-facts''"
| "kindText BudgetLinkedDocuments = ''linked-documents''"
| "kindText BudgetDiagnostics = ''diagnostics''"
| "kindText BudgetDiagnosticBytes = ''diagnostic-bytes''"
| "kindText (OtherKind s) = s"

text \<open>
  \<open>ContextError\<close> stands for the value \<open>ctx.Err()\<close> returns; the sentinels are the exported
  \<open>Err...\<close> variables that \<open>errors.Is\<close> looks for.
\<close>

datatype error =
    ErrIncompleteAssessment
  | ErrInvalidConfiguration
  | ErrResourceLimit
  | ContextError string
  | IncompleteError string "error option"
  | ConfigurationError string string
  | ResourceError BudgetKind int int int

definition joinErrorText :: "string list \<Rightarrow> string" where
  "joinErrorText parts =
     foldl (\<lambda>b part. if part = [] then b
                     else (if b \<noteq> [] then b @ '': '' else b) @ part) [] parts"

fun errorText :: "error \<Rightarrow> string" where
  "errorText ErrIncompleteAssessment = ''validation: incomplete assessment''"
| "errorText ErrInvalidConfiguration = ''validation: invalid configuration''"
| "errorText ErrResourceLimit = ''validation: resource limit exceeded''"
| "errorText (ContextError s) = s"
| "errorText (IncompleteError reason cause) =
     (let message = ''validation: incomplete assessment'';
          message = (if reason \<noteq> [] then message @ '': '' @ reason else message)
      in case cause of None \<Rightarrow> message | Some e \<Rightarrow> message @ '': '' @ errorText e)"
| "errorText (ConfigurationError field reason) =
     joinErrorText [''validation: invalid configuration'', field, reason]"
| "errorText (ResourceError kind limit used requested) =
     ''validation: resource limit exceeded: '' @ kindText kind @ '' (limit '' @ showInt limit
       @ '', used '' @ showInt used @ '', requested '' @ showInt requested @ '')''"

fun errorUnwrap :: "error \<Rightarrow> error list" where
  "errorUnwrap (IncompleteError reason cause) =
     (case cause of None \<Rightarrow> [ErrIncompleteAssessment] | Some e \<Rightarrow> [ErrIncompleteAssessment, e])"
| "errorUnwrap (ConfigurationError field reason) = [ErrInvalidConfiguration]"
| "errorUnwrap (ResourceError kind limit used requested) = [ErrResourceLimit, ErrIncompleteAssessment]"
| "errorUnwrap _ = []"

text \<open>\<open>errors.Is\<close> walks the unwrapped tree in depth-first order.\<close>

function errorIs :: "error \<Rightarrow> error \<Rightarrow> bool" where
  "errorIs err target \<longleftrightarrow> err = target \<or> (\<exists>e \<in> set (errorUnwrap err). errorIs e target)"
  by pat_completeness auto
termination
proof (relation "measure (\<lambda>(err, target). size err + (if errorUnwrap err = [] then 0 else 1))")
  fix err target e :: error
  assume "e \<in> set (errorUnwrap err)"
  then show "((e, target), (err, target)) \<in>
      measure (\<lambda>(err, target). size err + (if errorUnwrap err = [] then 0 else 1))"
    by (cases err) (auto split: option.splits)
qed simp

declare errorIs.simps [simp del]

section \<open>Limits\<close>

record Budgets =
  MaxInputBytes :: int
  MaxExternalBytes :: int
  MaxBufferedBytes :: int
  MaxDepth :: int
  MaxNodes :: int
  MaxAttributes :: int
  MaxEvents :: int
  MaxScalarBytes :: int
  MaxIDs :: int
  MaxRuleSteps :: int
  MaxContextFacts :: int
  MaxLinkedDocuments :: int
  MaxDiagnostics :: int
  MaxDiagnosticBytes :: int

definition DefaultRuleStepBase :: int where
  "DefaultRuleStepBase = 20000000"

definition DefaultRuleStepsPerNode :: int where
  "DefaultRuleStepsPerNode = 10000"

definition DefaultRuleStepsPerDocumentByte :: int where
  "DefaultRuleStepsPerDocumentByte = 1000"

definition DefaultBudgets :: Budgets where
  "DefaultBudgets =
     \<lparr> MaxInputBytes = 67108864, MaxExternalBytes = 67108864, MaxBufferedBytes = 67108864,
       MaxDepth = 1024, MaxNodes = 1000000, MaxAttributes = 4000000,
       MaxEvents = 8000000, MaxScalarBytes = 1048576, MaxIDs = 1000000, MaxRuleSteps = 0,
       MaxContextFacts = 1000000, MaxLinkedDocuments = 128,
       MaxDiagnostics = 1000, MaxDiagnosticBytes = 1048576 \<rparr>"

datatype budgetMode = budgetCumulative | budgetGauge | budgetItem

definition budgetKindCount :: nat where
  "budgetKindCount = 14"

definition budgetNodesIndex :: nat where
  "budgetNodesIndex = 4"

definition budgetRuleStepsIndex :: nat where
  "budgetRuleStepsIndex = 9"

lemmas budget_indices = budgetKindCount_def budgetNodesIndex_def budgetRuleStepsIndex_def

fun budgetInfo :: "BudgetKind \<Rightarrow> (nat \<times> budgetMode) option" where
  "budgetInfo BudgetInputBytes = Some (0, budgetCumulative)"
| "budgetInfo BudgetExternalBytes = Some (1, budgetCumulative)"
| "budgetInfo BudgetBufferedBytes = Some (2, budgetGauge)"
| "budgetInfo BudgetDepth = Some (3, budgetGauge)"
| "budgetInfo BudgetNodes = Some (budgetNodesIndex, budgetCumulative)"
| "budgetInfo BudgetAttributes = Some (5, budgetCumulative)"
| "budgetInfo BudgetEvents = Some (6, budgetCumulative)"
| "budgetInfo BudgetScalarBytes = Some (7, budgetItem)"
| "budgetInfo BudgetIDs = Some (8, budgetCumulative)"
| "budgetInfo BudgetRuleSteps = Some (budgetRuleStepsIndex, budgetCumulative)"
| "budgetInfo BudgetContextFacts = Some (10, budgetCumulative)"
| "budgetInfo BudgetLinkedDocuments = Some (11, budgetCumulative)"
| "budgetInfo BudgetDiagnostics = Some (12, budgetCumulative)"
| "budgetInfo BudgetDiagnosticBytes = Some (13, budgetCumulative)"
| "budgetInfo (OtherKind s) = None"

text \<open>\<open>budgetValues\<close> lists the fields in index order; \<open>budgetsOf\<close> writes such a list back.\<close>

definition budgetValues :: "Budgets \<Rightarrow> int list" where
  "budgetValues b =
     [MaxInputBytes b, MaxExternalBytes b, MaxBufferedBytes b, MaxDepth b, MaxNodes b,
      MaxAttributes b, MaxEvents b, MaxScalarBytes b, MaxIDs b, MaxRuleSteps b,
      MaxContextFacts b, MaxLinkedDocuments b, MaxDiagnostics b, MaxDiagnosticBytes b]"

definition budgetsOf :: "int list \<Rightarrow> Budgets" where
  "budgetsOf v =
     \<lparr> MaxInputBytes = v ! 0, MaxExternalBytes = v ! 1, MaxBufferedBytes = v ! 2,
       MaxDepth = v ! 3, MaxNodes = v ! 4, MaxAttributes = v ! 5,
       MaxEvents = v ! 6, MaxScalarBytes = v ! 7, MaxIDs = v ! 8, MaxRuleSteps = v ! 9,
       MaxContextFacts = v ! 10, MaxLinkedDocuments = v ! 11,
       MaxDiagnostics = v ! 12, MaxDiagnosticBytes = v ! 13 \<rparr>"

definition budgetNames :: "string list" where
  "budgetNames =
     [''MaxInputBytes'', ''MaxExternalBytes'', ''MaxBufferedBytes'', ''MaxDepth'', ''MaxNodes'',
      ''MaxAttributes'', ''MaxEvents'', ''MaxScalarBytes'', ''MaxIDs'', ''MaxRuleSteps'',
      ''MaxContextFacts'', ''MaxLinkedDocuments'', ''MaxDiagnostics'', ''MaxDiagnosticBytes'']"

section \<open>Accounts\<close>

record Account =
  initialized :: bool
  limits :: Budgets
  maxima :: "int list"
  usage :: "int list"
  stepsPerNode :: int
  documentBytes :: int
  stepPeak :: int

definition zeroAccount :: Account where
  "zeroAccount =
     \<lparr> initialized = False, limits = budgetsOf (replicate budgetKindCount 0),
       maxima = replicate budgetKindCount 0, usage = replicate budgetKindCount 0,
       stepsPerNode = 0, documentBytes = 0, stepPeak = 0 \<rparr>"

text \<open>The normalising loop of \<open>NewBudgetAccount\<close> over the fields, their defaults and names.\<close>

fun normalizeLimits :: "(int \<times> int \<times> string) list \<Rightarrow> error + int list" where
  "normalizeLimits [] = Inr []"
| "normalizeLimits ((field, fallback, name) # rest) =
     (if field < 0 then Inl (ConfigurationError name ''must not be negative'')
      else case normalizeLimits rest of
             Inl e \<Rightarrow> Inl e
           | Inr vs \<Rightarrow> Inr ((if field = 0 then fallback else field) # vs))"

definition NewBudgetAccount :: "Budgets \<Rightarrow> error + Account" where
  "NewBudgetAccount given =
     (case normalizeLimits (zip (budgetValues given) (zip (budgetValues DefaultBudgets) budgetNames)) of
        Inl e \<Rightarrow> Inl e
      | Inr values \<Rightarrow>
          let account = zeroAccount\<lparr> initialized := True, limits := budgetsOf values, maxima := values \<rparr>
          in if MaxRuleSteps (budgetsOf values) = 0
             then Inr (account\<lparr> maxima := values[budgetRuleStepsIndex := DefaultRuleStepBase],
                                stepsPerNode := DefaultRuleStepsPerNode \<rparr>)
             else Inr account)"

definition saturatingProduct :: "int \<Rightarrow> int \<Rightarrow> int" where
  "saturatingProduct a b = (if b \<noteq> 0 \<and> a > quo64 MaxInt64 b then MaxInt64 else mul64 a b)"

definition saturatingSum :: "int \<Rightarrow> int \<Rightarrow> int" where
  "saturatingSum a b = (if a > sub64 MaxInt64 b then MaxInt64 else add64 a b)"

definition Account_limit :: "Account \<Rightarrow> nat \<Rightarrow> int \<times> Account" where
  "Account_limit a index =
     (let maximum = maxima a ! index in
      if index \<noteq> budgetRuleStepsIndex \<or> stepsPerNode a = 0 then (maximum, a)
      else
        let allowance = saturatingProduct (usage a ! budgetNodesIndex) (stepsPerNode a);
            allowance = (if documentBytes a \<noteq> 0
                         then min allowance (saturatingProduct (documentBytes a) DefaultRuleStepsPerDocumentByte)
                         else allowance);
            peak = max (stepPeak a) (saturatingSum maximum allowance)
        in (peak, a\<lparr> stepPeak := peak \<rparr>))"

definition Account_Limits :: "Account \<Rightarrow> Budgets" where
  "Account_Limits a = (if \<not> initialized a then budgetsOf (replicate budgetKindCount 0) else limits a)"

definition Account_validate :: "Account \<Rightarrow> BudgetKind \<Rightarrow> int \<Rightarrow> error + (nat \<times> budgetMode)" where
  "Account_validate a kind amount =
     (if \<not> initialized a
      then Inl (ConfigurationError ''Account'' ''must be created by NewBudgetAccount'')
      else case budgetInfo kind of
             None \<Rightarrow> Inl (ConfigurationError ''BudgetKind'' ''unknown resource kind'')
           | Some (index, mode) \<Rightarrow>
               if amount < 0 then Inl (ConfigurationError ''amount'' ''must not be negative'')
               else Inr (index, mode))"

definition addUsage :: "Account \<Rightarrow> nat \<Rightarrow> int \<Rightarrow> Account" where
  "addUsage a index amount = a\<lparr> usage := (usage a)[index := add64 (usage a ! index) amount] \<rparr>"

definition Account_Charge :: "Account \<Rightarrow> BudgetKind \<Rightarrow> int \<Rightarrow> error option \<times> Account" where
  "Account_Charge a kind amount =
     (case Account_validate a kind amount of
        Inl e \<Rightarrow> (Some e, a)
      | Inr (index, mode) \<Rightarrow>
          if mode = budgetItem
          then (Some (ConfigurationError ''Charge'' ''per-item resources require Check''), a)
          else
            let (limit, a') = Account_limit a index in
            if amount > sub64 limit (usage a' ! index)
            then (Some (ResourceError kind limit (usage a' ! index) amount), a')
            else (None, addUsage a' index amount))"

definition Account_Release :: "Account \<Rightarrow> BudgetKind \<Rightarrow> int \<Rightarrow> error option \<times> Account" where
  "Account_Release a kind amount =
     (case Account_validate a kind amount of
        Inl e \<Rightarrow> (Some e, a)
      | Inr (index, mode) \<Rightarrow>
          if mode \<noteq> budgetGauge
          then (Some (ConfigurationError ''Release'' ''only live gauges can be released''), a)
          else if amount > usage a ! index
          then (Some (ConfigurationError ''Release'' ''amount exceeds live usage''), a)
          else (None, a\<lparr> usage := (usage a)[index := sub64 (usage a ! index) amount] \<rparr>))"

definition Account_Check :: "Account \<Rightarrow> BudgetKind \<Rightarrow> int \<Rightarrow> error option" where
  "Account_Check a kind amount =
     (case Account_validate a kind amount of
        Inl e \<Rightarrow> Some e
      | Inr (index, mode) \<Rightarrow>
          if mode \<noteq> budgetItem
          then Some (ConfigurationError ''Check'' ''only per-item resources can be checked'')
          else if amount > maxima a ! index
          then Some (ResourceError kind (maxima a ! index) 0 amount)
          else None)"

definition Account_Usage :: "Account \<Rightarrow> BudgetKind \<Rightarrow> error + int" where
  "Account_Usage a kind =
     (case Account_validate a kind 0 of
        Inl e \<Rightarrow> Inl e
      | Inr (index, mode) \<Rightarrow> Inr (usage a ! index))"

definition chargeDocumentBytes :: "Account \<Rightarrow> int \<Rightarrow> error option \<times> Account" where
  "chargeDocumentBytes a amount =
     (case Account_validate a BudgetInputBytes amount of
        Inl e \<Rightarrow> (Some e, a)
      | Inr _ \<Rightarrow>
          let (_, a') = Account_limit a budgetRuleStepsIndex
          in (None, a'\<lparr> documentBytes := saturatingSum (documentBytes a') amount \<rparr>))"

definition Account_Limit :: "Account \<Rightarrow> BudgetKind \<Rightarrow> (error + int) \<times> Account" where
  "Account_Limit a kind =
     (case Account_validate a kind 0 of
        Inl e \<Rightarrow> (Inl e, a)
      | Inr (index, mode) \<Rightarrow> let (limit, a') = Account_limit a index in (Inr limit, a'))"

text \<open>\<open>allocationSize\<close> on a 64-bit host, where \<open>int\<close> is \<open>int64\<close>.\<close>

definition allocationSize :: "int \<Rightarrow> error + int" where
  "allocationSize bytes =
     (if bytes < 0 then Inl (ConfigurationError ''allocation'' ''must not be negative'')
      else if bytes > MaxInt64 then Inl (ResourceError BudgetBufferedBytes MaxInt64 0 bytes)
      else Inr bytes)"

text \<open>
  \<open>chargeDiagnostic\<close>: both quotas are tested before either is consumed.
\<close>

fun diagnosticRefusal :: "Account \<Rightarrow> (BudgetKind \<times> nat \<times> int) list \<Rightarrow> error option" where
  "diagnosticRefusal a [] = None"
| "diagnosticRefusal a ((kind, index, amount) # items) =
     (if amount > sub64 (maxima a ! index) (usage a ! index)
      then Some (ResourceError kind (maxima a ! index) (usage a ! index) amount)
      else diagnosticRefusal a items)"

definition chargeDiagnostic :: "Account \<Rightarrow> int \<Rightarrow> error option \<times> Account" where
  "chargeDiagnostic a bytes =
     (case Account_validate a BudgetDiagnostics 1 of
        Inl e \<Rightarrow> (Some e, a)
      | Inr (countIndex, _) \<Rightarrow>
          (case Account_validate a BudgetDiagnosticBytes bytes of
             Inl e \<Rightarrow> (Some e, a)
           | Inr (byteIndex, _) \<Rightarrow>
               (case diagnosticRefusal a
                       [(BudgetDiagnostics, countIndex, 1), (BudgetDiagnosticBytes, byteIndex, bytes)] of
                  Some e \<Rightarrow> (Some e, a)
                | None \<Rightarrow> (None, addUsage (addUsage a countIndex 1) byteIndex bytes))))"

section \<open>Saturating arithmetic\<close>

lemma saturatingProduct_eq:
  assumes "0 \<le> a" "0 \<le> b"
  shows "saturatingProduct a b = min MaxInt64 (a * b)"
proof (cases "b = 0")
  case True
  then show ?thesis by (simp add: saturatingProduct_def mul64_def i64_def int64_limits)
next
  case False
  then have "quo64 MaxInt64 b = MaxInt64 div b"
    using assms by (intro quo64_nonneg) (simp_all add: int64_limits)
  then have "a > quo64 MaxInt64 b \<longleftrightarrow> \<not> a * b \<le> MaxInt64"
    using le_div_iff_mult_le [of b a MaxInt64] assms False by auto
  then show ?thesis using assms False by (auto simp: saturatingProduct_def i64_simps)
qed

lemma saturatingSum_eq:
  assumes "0 \<le> a" "a \<le> MaxInt64" "0 \<le> b" "b \<le> MaxInt64"
  shows "saturatingSum a b = min MaxInt64 (a + b)"
proof -
  have "sub64 MaxInt64 b = MaxInt64 - b" using assms by (intro sub64_nonneg) (simp_all add: int64_limits)
  then show ?thesis using assms by (auto simp: saturatingSum_def i64_simps)
qed

section \<open>The account invariant\<close>

definition account_inv :: "Account \<Rightarrow> bool" where
  "account_inv a \<longleftrightarrow>
     initialized a \<and> length (maxima a) = 14 \<and> length (usage a) = 14 \<and>
     (\<forall>i<14. 0 \<le> maxima a ! i \<and> maxima a ! i \<le> MaxInt64 \<and> 0 \<le> usage a ! i) \<and>
     (\<forall>i<14. usage a ! i \<le> fst (Account_limit a i)) \<and>
     0 \<le> stepsPerNode a \<and> stepsPerNode a \<le> MaxInt64 \<and>
     0 \<le> documentBytes a \<and> documentBytes a \<le> MaxInt64 \<and>
     0 \<le> stepPeak a \<and> stepPeak a \<le> MaxInt64 \<and>
     usage a ! 7 = 0"

definition stepAllowance :: "Account \<Rightarrow> int" where
  "stepAllowance a =
     (let nodes = min MaxInt64 (usage a ! 4 * stepsPerNode a)
      in if documentBytes a \<noteq> 0
         then min nodes (min MaxInt64 (documentBytes a * DefaultRuleStepsPerDocumentByte))
         else nodes)"

text \<open>The ranges the arithmetic of \<open>Account_limit\<close> needs, without the usage bound.\<close>

definition account_ranges :: "Account \<Rightarrow> bool" where
  "account_ranges a \<longleftrightarrow>
     length (maxima a) = 14 \<and> length (usage a) = 14 \<and>
     (\<forall>i<14. 0 \<le> maxima a ! i \<and> maxima a ! i \<le> MaxInt64 \<and> 0 \<le> usage a ! i) \<and>
     0 \<le> stepsPerNode a \<and> stepsPerNode a \<le> MaxInt64 \<and>
     0 \<le> documentBytes a \<and> documentBytes a \<le> MaxInt64 \<and>
     0 \<le> stepPeak a \<and> stepPeak a \<le> MaxInt64"

lemma account_inv_ranges: "account_inv a \<Longrightarrow> account_ranges a"
  by (simp add: account_inv_def account_ranges_def)

lemma stepAllowance_range:
  assumes "account_ranges a"
  shows "0 \<le> stepAllowance a" "stepAllowance a \<le> MaxInt64"
proof -
  have "0 \<le> usage a ! 4 * stepsPerNode a" "0 \<le> documentBytes a * DefaultRuleStepsPerDocumentByte"
    using assms by (simp_all add: account_ranges_def DefaultRuleStepsPerDocumentByte_def)
  then show "0 \<le> stepAllowance a" "stepAllowance a \<le> MaxInt64"
    by (auto simp: stepAllowance_def Let_def int64_limits)
qed

lemma Account_limit_eq:
  assumes "account_ranges a"
  shows "Account_limit a i =
     (if i = 9 \<and> stepsPerNode a \<noteq> 0
      then (let peak = max (stepPeak a) (min MaxInt64 (maxima a ! 9 + stepAllowance a))
            in (peak, a\<lparr> stepPeak := peak \<rparr>))
      else (maxima a ! i, a))"
proof -
  have u: "0 \<le> usage a ! 4" "0 \<le> stepsPerNode a" "0 \<le> documentBytes a"
    using assms by (simp_all add: account_ranges_def)
  have "saturatingProduct (documentBytes a) DefaultRuleStepsPerDocumentByte =
        min MaxInt64 (documentBytes a * DefaultRuleStepsPerDocumentByte)"
    using u by (intro saturatingProduct_eq) (simp_all add: DefaultRuleStepsPerDocumentByte_def)
  then have "(let allowance = saturatingProduct (usage a ! 4) (stepsPerNode a)
       in if documentBytes a \<noteq> 0
          then min allowance (saturatingProduct (documentBytes a) DefaultRuleStepsPerDocumentByte)
          else allowance) = stepAllowance a"
    using u by (simp add: stepAllowance_def saturatingProduct_eq Let_def)
  moreover have "saturatingSum (maxima a ! 9) (stepAllowance a) = min MaxInt64 (maxima a ! 9 + stepAllowance a)"
    using assms stepAllowance_range [OF assms] by (intro saturatingSum_eq) (simp_all add: account_ranges_def)
  ultimately show ?thesis
    by (simp add: Account_limit_def budget_indices Let_def)
qed

lemma Account_limit_frame [simp]:
  "usage (snd (Account_limit a i)) = usage a"
  "maxima (snd (Account_limit a i)) = maxima a"
  "documentBytes (snd (Account_limit a i)) = documentBytes a"
  "stepsPerNode (snd (Account_limit a i)) = stepsPerNode a"
  "initialized (snd (Account_limit a i)) = initialized a"
  "limits (snd (Account_limit a i)) = limits a"
  by (simp_all add: Account_limit_def Let_def)

lemma Account_limit_range:
  assumes "account_ranges a" "i < 14"
  shows "0 \<le> fst (Account_limit a i)" "fst (Account_limit a i) \<le> MaxInt64"
  using assms stepAllowance_range [OF assms(1)]
  by (auto simp: Account_limit_eq Let_def account_ranges_def int64_limits)

lemma Account_limit_ranges: "account_ranges a \<Longrightarrow> account_ranges (snd (Account_limit a i))"
  using Account_limit_range [of a 9]
  by (auto simp: Account_limit_eq Let_def account_ranges_def int64_limits)

lemma stepAllowance_stepPeak [simp]: "stepAllowance (a\<lparr> stepPeak := p \<rparr>) = stepAllowance a"
  by (simp add: stepAllowance_def Let_def)

lemma Account_limit_idem:
  assumes "account_ranges a"
  shows "fst (Account_limit (snd (Account_limit a i)) j) = fst (Account_limit a j)"
proof (cases "i = 9 \<and> stepsPerNode a \<noteq> 0")
  case True
  define p where "p = max (stepPeak a) (min MaxInt64 (maxima a ! 9 + stepAllowance a))"
  have b: "snd (Account_limit a i) = a\<lparr> stepPeak := p \<rparr>"
    using True by (simp add: Account_limit_eq [OF assms] Let_def p_def)
  have "account_ranges (a\<lparr> stepPeak := p \<rparr>)"
    using Account_limit_ranges [OF assms, of i] by (simp only: b)
  from Account_limit_eq [OF this, of j] Account_limit_eq [OF assms, of j] show ?thesis
    by (simp add: b Let_def p_def)
next
  case False
  then have "snd (Account_limit a i) = a" by (auto simp: Account_limit_eq [OF assms])
  then show ?thesis by simp
qed

lemma Account_limit_inv: "account_inv a \<Longrightarrow> account_inv (snd (Account_limit a i))"
  using Account_limit_ranges [of a i] Account_limit_idem [of a i]
  by (simp add: account_inv_def account_ranges_def)

section \<open>Every operation keeps the invariant and never lowers a limit\<close>

definition limits_grow :: "Account \<Rightarrow> Account \<Rightarrow> bool" where
  "limits_grow a b \<longleftrightarrow> (\<forall>i<14. fst (Account_limit a i) \<le> fst (Account_limit b i))"

lemma limits_growI:
  assumes "account_ranges a" "account_ranges b" "maxima b = maxima a" "stepsPerNode b = stepsPerNode a"
    and "fst (Account_limit a 9) \<le> max (stepPeak b) (min MaxInt64 (maxima a ! 9 + stepAllowance b))
         \<or> stepsPerNode a = 0"
  shows "limits_grow a b"
  using assms by (auto simp: limits_grow_def Account_limit_eq Let_def)

lemma stepAllowance_mono:
  assumes "account_ranges a" "usage a ! 4 \<le> usage b ! 4"
    and "documentBytes b = documentBytes a" "stepsPerNode b = stepsPerNode a"
  shows "stepAllowance a \<le> stepAllowance b"
proof -
  have "usage a ! 4 * stepsPerNode a \<le> usage b ! 4 * stepsPerNode a"
    using assms by (intro mult_right_mono) (simp_all add: account_ranges_def)
  then show ?thesis using assms by (auto simp: stepAllowance_def Let_def min_def)
qed

lemma addUsage_frame [simp]:
  "maxima (addUsage a i n) = maxima a" "documentBytes (addUsage a i n) = documentBytes a"
  "stepsPerNode (addUsage a i n) = stepsPerNode a" "stepPeak (addUsage a i n) = stepPeak a"
  "initialized (addUsage a i n) = initialized a" "limits (addUsage a i n) = limits a"
  "length (usage (addUsage a i n)) = length (usage a)"
  by (simp_all add: addUsage_def)

lemma addUsage_usage:
  assumes "account_inv a" "i < 14" "0 \<le> n" "usage a ! i + n \<le> fst (Account_limit a i)"
  shows "usage (addUsage a i n) = (usage a)[i := usage a ! i + n]"
proof -
  have "0 \<le> usage a ! i" "fst (Account_limit a i) \<le> MaxInt64"
    using assms Account_limit_range [OF account_inv_ranges] by (auto simp: account_inv_def)
  then have "add64 (usage a ! i) n = usage a ! i + n" using assms by (intro add64_nonneg) auto
  then show ?thesis by (simp add: addUsage_def)
qed

lemma addUsage_inv:
  assumes "account_inv a" "i < 14" "i \<noteq> 7" "0 \<le> n" "usage a ! i + n \<le> fst (Account_limit a i)"
  shows "account_inv (addUsage a i n) \<and> limits_grow a (addUsage a i n)"
proof -
  let ?b = "addUsage a i n"
  note u = addUsage_usage [OF assms(1,2,4,5)]
  have len: "length (usage a) = 14" using assms by (simp add: account_inv_def)
  have ra: "account_ranges a" by (rule account_inv_ranges [OF assms(1)])
  have nth: "usage ?b ! j = (if j = i then usage a ! i + n else usage a ! j)" if "j < 14" for j
    using that assms(2) len by (simp add: u)
  have rb: "account_ranges ?b"
    using ra nth assms(4) by (auto simp: account_ranges_def)
  have "stepAllowance a \<le> stepAllowance ?b"
    using ra nth [of 4] assms(4) by (intro stepAllowance_mono) auto
  then have grow: "limits_grow a ?b"
    using ra rb by (intro limits_growI) (auto simp: Account_limit_eq Let_def)
  have "usage ?b ! j \<le> fst (Account_limit ?b j)" if "j < 14" for j
  proof -
    have "usage ?b ! j \<le> fst (Account_limit a j)"
      using that nth [OF that] assms by (auto simp: account_inv_def)
    also have "\<dots> \<le> fst (Account_limit ?b j)" using grow that by (simp add: limits_grow_def)
    finally show ?thesis .
  qed
  moreover have "usage ?b ! 7 = 0" using nth [of 7] assms by (simp add: account_inv_def)
  ultimately have "account_inv ?b"
    using assms(1) rb by (simp add: account_inv_def account_ranges_def)
  with grow show ?thesis by simp
qed

lemma limits_grow_limit: "account_ranges a \<Longrightarrow> limits_grow a (snd (Account_limit a i))"
  by (simp add: limits_grow_def Account_limit_idem)

lemma limits_grow_trans: "limits_grow a b \<Longrightarrow> limits_grow b c \<Longrightarrow> limits_grow a c"
  unfolding limits_grow_def by (meson order_trans)

lemma limits_grow_refl [simp]: "limits_grow a a"
  by (simp add: limits_grow_def)

text \<open>The closed form of \<open>Charge\<close> on an account of the invariant: a refusal and a success.\<close>

lemma Account_Charge_eq:
  assumes "account_inv a" "budgetInfo kind = Some (i, mode)" "mode \<noteq> budgetItem" "0 \<le> n"
  shows "Account_Charge a kind n =
     (let limit = fst (Account_limit a i); a' = snd (Account_limit a i)
      in if usage a ! i + n \<le> limit then (None, addUsage a' i n)
         else (Some (ResourceError kind limit (usage a ! i) n), a'))"
proof -
  have i: "i < 14" using assms(2) by (cases kind) (auto simp: budget_indices)
  have r: "0 \<le> usage a ! i" "usage a ! i \<le> fst (Account_limit a i)" "fst (Account_limit a i) \<le> MaxInt64"
    using assms(1) i Account_limit_range [OF account_inv_ranges [OF assms(1)] i] by (auto simp: account_inv_def)
  then have "sub64 (fst (Account_limit a i)) (usage a ! i) = fst (Account_limit a i) - usage a ! i"
    by (intro sub64_nonneg) auto
  then show ?thesis
    using assms by (simp add: Account_Charge_def Account_validate_def account_inv_def Let_def
        case_prod_beta not_less algebra_simps)
qed

lemma budgetInfo_index: "budgetInfo kind = Some (i, mode) \<Longrightarrow> i < 14 \<and> (i = 7 \<longleftrightarrow> mode = budgetItem)"
  by (cases kind) (auto simp: budget_indices)

lemma Account_Charge_inv:
  assumes "account_inv a" "Account_Charge a kind n = (e, b)"
  shows "account_inv b \<and> limits_grow a b"
proof (cases "Account_validate a kind n")
  case (Inl x)
  then show ?thesis using assms by (simp add: Account_Charge_def)
next
  case (Inr im)
  obtain i mode where im: "im = (i, mode)" by force
  with Inr have v: "budgetInfo kind = Some (i, mode)" "0 \<le> n"
    by (auto simp: Account_validate_def split: if_splits option.splits)
  note i = budgetInfo_index [OF v(1)]
  let ?a' = "snd (Account_limit a i)"
  have inv': "account_inv ?a'" and g: "limits_grow a ?a'"
    using assms(1) account_inv_ranges by (auto intro: Account_limit_inv limits_grow_limit)
  show ?thesis
  proof (cases "mode = budgetItem")
    case True
    then show ?thesis using assms Inr im by (simp add: Account_Charge_def)
  next
    case False
    show ?thesis
    proof (cases "usage a ! i + n \<le> fst (Account_limit a i)")
      case True
      then have "account_inv (addUsage ?a' i n) \<and> limits_grow ?a' (addUsage ?a' i n)"
        using inv' v(2) i False Account_limit_idem [OF account_inv_ranges [OF assms(1)], of i i]
        by (intro addUsage_inv) auto
      then show ?thesis
        using assms Account_Charge_eq [OF assms(1) v(1) False v(2)] True g
        by (auto simp: Let_def intro: limits_grow_trans)
    next
      case f: False
      then show ?thesis
        using assms Account_Charge_eq [OF assms(1) v(1) False v(2)] g inv' by (auto simp: Let_def)
    qed
  qed
qed

lemma releaseUsage_inv:
  assumes "account_inv a" "i < 14" "i \<noteq> 4" "0 \<le> n" "n \<le> usage a ! i"
  shows "account_inv (a\<lparr> usage := (usage a)[i := usage a ! i - n] \<rparr>) \<and>
         limits_grow a (a\<lparr> usage := (usage a)[i := usage a ! i - n] \<rparr>)"
proof -
  let ?b = "a\<lparr> usage := (usage a)[i := usage a ! i - n] \<rparr>"
  have len: "length (usage a) = 14" using assms by (simp add: account_inv_def)
  have ra: "account_ranges a" by (rule account_inv_ranges [OF assms(1)])
  have nth: "usage ?b ! j = (if j = i then usage a ! i - n else usage a ! j)" if "j < 14" for j
    using that assms(2) len by simp
  have rb: "account_ranges ?b"
    using ra nth assms(4,5) by (auto simp: account_ranges_def)
  have "stepAllowance ?b = stepAllowance a"
    using nth [of 4] assms(3) by (simp add: stepAllowance_def Let_def)
  then have lim: "fst (Account_limit ?b j) = fst (Account_limit a j)" for j
    using ra rb by (auto simp: Account_limit_eq Let_def)
  have "usage ?b ! j \<le> fst (Account_limit ?b j)" if "j < 14" for j
    using that nth [OF that] lim [of j] assms by (auto simp: account_inv_def)
  moreover have "usage ?b ! 7 = 0" using nth [of 7] assms by (auto simp: account_inv_def)
  ultimately have "account_inv ?b"
    using assms(1) rb by (simp add: account_inv_def account_ranges_def)
  then show ?thesis using lim by (simp add: limits_grow_def)
qed

lemma Account_Release_eq:
  assumes "account_inv a" "budgetInfo kind = Some (i, budgetGauge)" "0 \<le> n"
  shows "Account_Release a kind n =
     (if n \<le> usage a ! i then (None, a\<lparr> usage := (usage a)[i := usage a ! i - n] \<rparr>)
      else (Some (ConfigurationError ''Release'' ''amount exceeds live usage''), a))"
proof -
  have i: "i < 14" using budgetInfo_index [OF assms(2)] by simp
  have "0 \<le> usage a ! i" "usage a ! i \<le> MaxInt64"
    using assms(1) i Account_limit_range [OF account_inv_ranges [OF assms(1)] i]
    by (auto simp: account_inv_def intro: order_trans)
  then have "sub64 (usage a ! i) n = usage a ! i - n" if "n \<le> usage a ! i"
    using assms(3) that by (intro sub64_nonneg) auto
  then show ?thesis
    using assms by (auto simp: Account_Release_def Account_validate_def account_inv_def not_less)
qed

lemma Account_Release_inv:
  assumes "account_inv a" "Account_Release a kind n = (e, b)"
  shows "account_inv b \<and> limits_grow a b"
proof (cases "\<exists>i. budgetInfo kind = Some (i, budgetGauge) \<and> 0 \<le> n")
  case True
  then obtain i where i: "budgetInfo kind = Some (i, budgetGauge)" "0 \<le> n" by blast
  then have "i \<noteq> 4" "i < 14" by (cases kind; auto simp: budget_indices)+
  then show ?thesis
    using assms i Account_Release_eq [OF assms(1) i] releaseUsage_inv [OF assms(1) _ _ i(2)]
    by (auto split: if_splits)
next
  case False
  then have "b = a"
    using assms by (auto simp: Account_Release_def Account_validate_def split: if_splits option.splits)
  with assms show ?thesis by simp
qed

lemma chargeDocumentBytes_inv:
  assumes "account_inv a" "chargeDocumentBytes a n = (e, b)" "n \<le> MaxInt64"
  shows "account_inv b \<and> limits_grow a b"
proof (cases "n < 0")
  case True
  with assms show ?thesis
    by (auto simp: chargeDocumentBytes_def Account_validate_def account_inv_def)
next
  case False
  let ?a' = "snd (Account_limit a 9)" and ?d = "saturatingSum (documentBytes a) n"
  have ra: "account_ranges a" by (rule account_inv_ranges [OF assms(1)])
  have b: "b = ?a'\<lparr> documentBytes := ?d \<rparr>"
    using assms False by (auto simp: chargeDocumentBytes_def Account_validate_def account_inv_def
        Let_def case_prod_beta budget_indices)
  have "?d = min MaxInt64 (documentBytes a + n)"
    using ra False assms(3) by (intro saturatingSum_eq) (auto simp: account_ranges_def)
  then have d: "0 \<le> ?d" "?d \<le> MaxInt64" using ra False by (auto simp: account_ranges_def int64_limits)
  have rb: "account_ranges b"
    using Account_limit_ranges [OF ra, of 9] d by (simp add: account_ranges_def b)
  have "fst (Account_limit a 9) \<le> stepPeak b \<or> stepsPerNode a = 0"
    using ra by (auto simp: b Account_limit_eq Let_def)
  then have g: "limits_grow a b"
    using ra rb by (intro limits_growI) (auto simp: b)
  have "usage b ! j \<le> fst (Account_limit b j)" if "j < 14" for j
  proof -
    have "usage a ! j \<le> fst (Account_limit a j)" using that assms(1) by (simp add: account_inv_def)
    also have "\<dots> \<le> fst (Account_limit b j)" using g that by (simp add: limits_grow_def)
    finally show ?thesis by (simp add: b)
  qed
  then have "account_inv b"
    using assms(1) rb by (simp add: account_inv_def account_ranges_def b)
  with g show ?thesis by simp
qed

text \<open>The diagnostic pair on an account of the invariant: both counters move, or neither.\<close>

lemma chargeDiagnostic_eq:
  assumes "account_inv a" "0 \<le> n"
  shows "chargeDiagnostic a n =
     (if maxima a ! 12 < usage a ! 12 + 1
      then (Some (ResourceError BudgetDiagnostics (maxima a ! 12) (usage a ! 12) 1), a)
      else if maxima a ! 13 < usage a ! 13 + n
      then (Some (ResourceError BudgetDiagnosticBytes (maxima a ! 13) (usage a ! 13) n), a)
      else (None, addUsage (addUsage a 12 1) 13 n))"
proof -
  have "sub64 (maxima a ! i) (usage a ! i) = maxima a ! i - usage a ! i" if "i = 12 \<or> i = 13" for i
  proof -
    have i: "i < 14" "i \<noteq> 9" using that by auto
    then have "usage a ! i \<le> maxima a ! i"
      using assms(1) Account_limit_eq [OF account_inv_ranges [OF assms(1)], of i] by (auto simp: account_inv_def)
    then show ?thesis using assms(1) i by (intro sub64_nonneg) (auto simp: account_inv_def)
  qed
  then show ?thesis using assms
    by (auto simp: chargeDiagnostic_def Account_validate_def account_inv_def)
qed

lemma chargeDiagnostic_inv:
  assumes "account_inv a" "chargeDiagnostic a n = (e, b)"
  shows "account_inv b \<and> limits_grow a b"
proof (cases "0 \<le> n \<and> usage a ! 12 + 1 \<le> maxima a ! 12 \<and> usage a ! 13 + n \<le> maxima a ! 13")
  case True
  let ?c = "addUsage a 12 1"
  have lim: "fst (Account_limit c i) = maxima c ! i" if "account_inv c" "i \<noteq> 9" for c i
    using Account_limit_eq [OF account_inv_ranges [OF that(1)], of i] that(2) by simp
  have c: "account_inv ?c \<and> limits_grow a ?c"
    using assms(1) True lim [OF assms(1), of 12] by (intro addUsage_inv) auto
  have "usage ?c ! 13 = usage a ! 13"
    by (simp add: addUsage_def)
  then have "account_inv (addUsage ?c 13 n) \<and> limits_grow ?c (addUsage ?c 13 n)"
    using True c lim [of ?c 13] by (intro addUsage_inv) auto
  moreover have "b = addUsage ?c 13 n" using assms True chargeDiagnostic_eq [OF assms(1)] by auto
  ultimately show ?thesis using c limits_grow_trans by blast
next
  case False
  then have "b = a"
  proof (cases "0 \<le> n")
    case True
    with False assms show ?thesis by (auto simp: chargeDiagnostic_eq split: if_splits)
  next
    case neg: False
    with assms show ?thesis by (auto simp: chargeDiagnostic_def Account_validate_def account_inv_def)
  qed
  with assms show ?thesis by simp
qed

section \<open>Construction\<close>

definition budgets64 :: "Budgets \<Rightarrow> bool" where
  "budgets64 b \<longleftrightarrow> list_all in64 (budgetValues b)"

lemma normalizeLimits_Inr:
  "\<forall>(field, fallback, name) \<in> set xs. 0 \<le> field \<Longrightarrow>
   normalizeLimits xs = Inr (map (\<lambda>(field, fallback, name). if field = 0 then fallback else field) xs)"
  by (induction xs rule: normalizeLimits.induct) auto

lemma normalizeLimits_Inl:
  "find (\<lambda>(f, d, n). f < 0) xs = Some (field, fallback, name) \<Longrightarrow>
   normalizeLimits xs = Inl (ConfigurationError name ''must not be negative'')"
  by (induction xs rule: normalizeLimits.induct) (auto split: if_splits)

lemma normalizeLimits_nonneg:
  "normalizeLimits xs = Inr vs \<Longrightarrow> x \<in> set xs \<Longrightarrow> 0 \<le> fst x"
  by (induction xs arbitrary: vs rule: normalizeLimits.induct) (auto split: if_splits sum.splits)

lemma NewBudgetAccount_ok:
  assumes "budgets64 b" "\<forall>f \<in> set (budgetValues b). 0 \<le> f"
  shows "\<exists>a. NewBudgetAccount b = Inr a \<and> account_inv a \<and> usage a = replicate 14 0 \<and>
     (MaxRuleSteps b = 0 \<longrightarrow> stepsPerNode a = 10000 \<and> fst (Account_limit a 9) = 20000000) \<and>
     (MaxRuleSteps b \<noteq> 0 \<longrightarrow> stepsPerNode a = 0) \<and>
     (\<forall>i<14. i \<noteq> 9 \<or> MaxRuleSteps b \<noteq> 0 \<longrightarrow>
        maxima a ! i = (if budgetValues b ! i = 0 then budgetValues DefaultBudgets ! i else budgetValues b ! i))"
proof -
  define vals where "vals = map2 (\<lambda>f d. if f = 0 then d else f) (budgetValues b) (budgetValues DefaultBudgets)"
  have len: "length vals = 14" "length (budgetValues b) = 14" "length (budgetValues DefaultBudgets) = 14"
    by (simp_all add: vals_def budgetValues_def)
  have nth: "vals ! i = (if budgetValues b ! i = 0 then budgetValues DefaultBudgets ! i else budgetValues b ! i)"
    if "i < 14" for i
    using that len by (simp add: vals_def)
  have "normalizeLimits (zip (budgetValues b) (zip (budgetValues DefaultBudgets) budgetNames)) = Inr vals"
    using assms(2) by (subst normalizeLimits_Inr) (auto simp: vals_def budgetValues_def budgetNames_def)
  then have N: "NewBudgetAccount b =
     (let account = zeroAccount\<lparr> initialized := True, limits := budgetsOf vals, maxima := vals \<rparr>
      in if vals ! 9 = 0
         then Inr (account\<lparr> maxima := vals[9 := 20000000], stepsPerNode := 10000 \<rparr>) else Inr account)"
    by (simp add: NewBudgetAccount_def budgetsOf_def budget_indices DefaultRuleStepBase_def
        DefaultRuleStepsPerNode_def Let_def)
  have "vals ! 9 = MaxRuleSteps b"
    by (simp add: nth budgetValues_def DefaultBudgets_def)
  have "\<forall>v \<in> set vals. 0 \<le> v \<and> v \<le> MaxInt64"
    using assms by (simp add: vals_def budgetValues_def DefaultBudgets_def budgets64_def in64_def int64_limits)
  then have rng: "0 \<le> vals ! i \<and> vals ! i \<le> MaxInt64" if "i < 14" for i
    using that len by (metis nth_mem)
  define base where "base = zeroAccount\<lparr> initialized := True, limits := budgetsOf vals, maxima := vals \<rparr>"
  define a where "a = (if MaxRuleSteps b = 0
    then base\<lparr> maxima := vals[9 := 20000000], stepsPerNode := 10000 \<rparr> else base)"
  have a: "NewBudgetAccount b = Inr a" "initialized a"
    "maxima a = (if MaxRuleSteps b = 0 then vals[9 := 20000000] else vals)"
    "stepsPerNode a = (if MaxRuleSteps b = 0 then 10000 else 0)"
    "usage a = replicate 14 0" "documentBytes a = 0" "stepPeak a = 0"
    using N \<open>vals ! 9 = MaxRuleSteps b\<close>
    by (simp_all add: a_def base_def zeroAccount_def budget_indices)
  have ra: "account_ranges a"
    using rng len by (auto simp: account_ranges_def a nth_list_update int64_limits)
  have "stepAllowance a = 0" by (simp add: stepAllowance_def a int64_limits)
  then have lim: "fst (Account_limit a i) = maxima a ! i" if "i < 14" for i
    using that ra rng [OF that] by (auto simp: Account_limit_eq Let_def a len int64_limits)
  have "account_inv a"
    using ra lim by (auto simp: account_inv_def account_ranges_def a)
  then show ?thesis
    using a lim [of 9] nth len by (auto simp: nth_list_update)
qed

section \<open>Histories\<close>

text \<open>
  One call of any method by any goroutine; the amounts are \<open>int64\<close> values, negative ones included.
  The read-only methods \<open>Check\<close>, \<open>Usage\<close> and \<open>Limits\<close> change nothing.
\<close>

inductive account_step :: "Account \<Rightarrow> Account \<Rightarrow> bool" where
  step_charge: "in64 n \<Longrightarrow> Account_Charge a kind n = (e, b) \<Longrightarrow> account_step a b"
| step_release: "in64 n \<Longrightarrow> Account_Release a kind n = (e, b) \<Longrightarrow> account_step a b"
| step_document: "in64 n \<Longrightarrow> chargeDocumentBytes a n = (e, b) \<Longrightarrow> account_step a b"
| step_diagnostic: "in64 n \<Longrightarrow> chargeDiagnostic a n = (e, b) \<Longrightarrow> account_step a b"
| step_limit: "Account_Limit a kind = (r, b) \<Longrightarrow> account_step a b"

inductive account_reachable :: "Account \<Rightarrow> bool" where
  reach_new: "budgets64 given \<Longrightarrow> NewBudgetAccount given = Inr a \<Longrightarrow> account_reachable a"
| reach_step: "account_reachable a \<Longrightarrow> account_step a b \<Longrightarrow> account_reachable b"

lemma Account_Limit_eq:
  "account_inv a \<Longrightarrow> budgetInfo kind = Some (i, mode) \<Longrightarrow>
   Account_Limit a kind = (Inr (fst (Account_limit a i)), snd (Account_limit a i))"
  by (simp add: Account_Limit_def Account_validate_def account_inv_def case_prod_beta)

lemma Account_Usage_eq:
  "account_inv a \<Longrightarrow> budgetInfo kind = Some (i, mode) \<Longrightarrow> Account_Usage a kind = Inr (usage a ! i)"
  by (simp add: Account_Usage_def Account_validate_def account_inv_def)

lemma account_step_inv:
  assumes "account_step a b" "account_inv a"
  shows "account_inv b \<and> limits_grow a b"
  using assms
proof (cases rule: account_step.cases)
  case (step_limit kind r)
  then have "b = a \<or> (\<exists>i. b = snd (Account_limit a i))"
    by (auto simp: Account_Limit_def case_prod_beta split: sum.splits)
  then show ?thesis
    using assms(2) account_inv_ranges by (auto intro: Account_limit_inv limits_grow_limit)
next
  case (step_document n e)
  then show ?thesis using chargeDocumentBytes_inv [of a n e b] assms(2) by (simp add: in64_def)
qed (auto dest: Account_Charge_inv Account_Release_inv chargeDiagnostic_inv)

lemma NewBudgetAccount_inv:
  assumes "budgets64 given" "NewBudgetAccount given = Inr a"
  shows "account_inv a"
proof -
  let ?xs = "zip (budgetValues given) (zip (budgetValues DefaultBudgets) budgetNames)"
  have len: "length (budgetValues given) = length (zip (budgetValues DefaultBudgets) budgetNames)"
    by (simp add: budgetValues_def budgetNames_def)
  obtain vs where vs: "normalizeLimits ?xs = Inr vs"
    using assms(2) by (cases "normalizeLimits ?xs") (auto simp: NewBudgetAccount_def)
  have "\<forall>f \<in> set (budgetValues given). 0 \<le> f"
  proof
    fix f assume "f \<in> set (budgetValues given)"
    with len obtain y where "(f, y) \<in> set ?xs" by (rule in_set_impl_in_set_zip1)
    with normalizeLimits_nonneg [OF vs] show "0 \<le> f" by fastforce
  qed
  with NewBudgetAccount_ok [OF assms(1)] assms(2) show ?thesis by auto
qed

lemma reachable_inv: "account_reachable a \<Longrightarrow> account_inv a"
  by (induction rule: account_reachable.induct) (auto dest: NewBudgetAccount_inv account_step_inv)

lemma account_steps_inv:
  "account_step\<^sup>*\<^sup>* a b \<Longrightarrow> account_inv a \<Longrightarrow> account_inv b \<and> limits_grow a b"
  by (induction rule: rtranclp_induct) (auto dest: account_step_inv intro: limits_grow_trans)

section \<open>The live-gauge interface\<close>

text \<open>
  What the clients of an account rely on when they borrow storage: a charge that succeeds adds its
  amount to the gauge, a refused one adds nothing, and an amount that is live can be released.
  \<open>bracket\<close> is the pattern \<open>charge; defer release; body\<close> of the source.
\<close>

locale live_gauge =
  fixes charge release :: "'s \<Rightarrow> int \<Rightarrow> error option \<times> 's"
    and used :: "'s \<Rightarrow> int" and inv :: "'s \<Rightarrow> bool"
  assumes charge_ok: "inv s \<Longrightarrow> charge s n = (None, t) \<Longrightarrow> inv t \<and> 0 \<le> n \<and> used t = used s + n"
    and charge_refused: "inv s \<Longrightarrow> charge s n = (Some e, t) \<Longrightarrow> inv t \<and> used t = used s"
    and release_live: "inv s \<Longrightarrow> 0 \<le> n \<Longrightarrow> n \<le> used s \<Longrightarrow>
      \<exists>t. release s n = (None, t) \<and> inv t \<and> used t = used s - n"
    and used_nonneg: "inv s \<Longrightarrow> 0 \<le> used s"
begin

lemma bracket:
  assumes "inv s" "charge s n = (None, t)" and "inv u" "used u = used t + k" "0 \<le> k"
  shows "\<exists>v. release u n = (None, v) \<and> inv v \<and> used v = used s + k"
proof -
  have t: "inv t" "0 \<le> n" "used t = used s + n" using charge_ok [OF assms(1,2)] by auto
  with assms used_nonneg [OF assms(1)] have "n \<le> used u" by simp
  with release_live [OF assms(3) t(2)] t assms(4) show ?thesis by auto
qed

lemma charge_release:
  assumes "inv s" "charge s n = (None, t)"
  shows "\<exists>v. release t n = (None, v) \<and> inv v \<and> used v = used s"
  using bracket [OF assms, of t 0] charge_ok [OF assms] by simp

end

lemma gauge_charge_ok:
  assumes "account_inv a" "budgetInfo kind = Some (i, budgetGauge)" "Account_Charge a kind n = (None, b)"
  shows "account_inv b \<and> 0 \<le> n \<and> usage b = (usage a)[i := usage a ! i + n]"
proof -
  have n: "0 \<le> n" using assms by (auto simp: Account_Charge_def Account_validate_def split: if_splits)
  have i: "i < 14" using budgetInfo_index [OF assms(2)] by simp
  let ?a' = "snd (Account_limit a i)"
  have "usage a ! i + n \<le> fst (Account_limit a i)" "b = addUsage ?a' i n"
    using assms n by (auto simp: Account_Charge_eq Let_def split: if_splits)
  then have "usage b = (usage a)[i := usage a ! i + n]"
    using addUsage_usage [OF Account_limit_inv [OF assms(1)] i n, of i]
      Account_limit_idem [OF account_inv_ranges [OF assms(1)], of i i] by simp
  with Account_Charge_inv [OF assms(1,3)] n show ?thesis by simp
qed

lemma charge_refused_usage:
  "Account_Charge a kind n = (Some e, b) \<Longrightarrow> usage b = usage a"
  by (auto simp: Account_Charge_def Let_def case_prod_beta split: sum.splits if_splits)

lemma gauge_interface:
  assumes "budgetInfo kind = Some (i, budgetGauge)"
  shows "live_gauge (\<lambda>a. Account_Charge a kind) (\<lambda>a. Account_Release a kind) (\<lambda>a. usage a ! i) account_inv"
proof
  fix s t :: Account and n :: int and e
  have i: "i < 14" using budgetInfo_index [OF assms] by simp
  { assume a: "account_inv s" "Account_Charge s kind n = (None, t)"
    from gauge_charge_ok [OF a(1) assms a(2)] i a(1)
    show "account_inv t \<and> 0 \<le> n \<and> usage t ! i = usage s ! i + n"
      by (simp add: account_inv_def [of s]) }
  { assume "account_inv s" "Account_Charge s kind n = (Some e, t)"
    then show "account_inv t \<and> usage t ! i = usage s ! i"
      using Account_Charge_inv charge_refused_usage by metis }
  { assume a: "account_inv s" "0 \<le> n" "n \<le> usage s ! i"
    then have "Account_Release s kind n = (None, s\<lparr> usage := (usage s)[i := usage s ! i - n] \<rparr>)"
      using Account_Release_eq [OF _ assms] by simp
    with a Account_Release_inv [OF a(1) this] i
    show "\<exists>t. Account_Release s kind n = (None, t) \<and> account_inv t \<and> usage t ! i = usage s ! i - n"
      by (simp add: account_inv_def [of s]) }
  { assume "account_inv s" then show "0 \<le> usage s ! i" using i by (simp add: account_inv_def) }
qed

interpretation buffered: live_gauge
  "\<lambda>a. Account_Charge a BudgetBufferedBytes" "\<lambda>a. Account_Release a BudgetBufferedBytes"
  "\<lambda>a. usage a ! 2" account_inv
  by (rule gauge_interface) simp

interpretation depth: live_gauge
  "\<lambda>a. Account_Charge a BudgetDepth" "\<lambda>a. Account_Release a BudgetDepth"
  "\<lambda>a. usage a ! 3" account_inv
  by (rule gauge_interface) simp

section \<open>Properties\<close>

text \<open>
  C16: after any history of method calls, every resource's recorded usage is nonnegative and at most
  its current limit, and the limit fits an int64, so no account operation ever overflows.
\<close>

theorem account_usage_within_limit:
  assumes "account_reachable a" "budgetInfo kind = Some (i, mode)"
  shows "\<exists>u l. Account_Usage a kind = Inr u \<and> fst (Account_Limit a kind) = Inr l \<and>
           0 \<le> u \<and> u \<le> l \<and> l \<le> MaxInt64"
proof -
  have inv: "account_inv a" by (rule reachable_inv [OF assms(1)])
  have "i < 14" using budgetInfo_index [OF assms(2)] by simp
  then show ?thesis
    using inv assms(2) Account_limit_range [OF account_inv_ranges [OF inv]]
    by (auto simp: Account_Usage_eq Account_Limit_eq account_inv_def)
qed

definition sampleBudgets :: Budgets where
  "sampleBudgets = budgetsOf (replicate 14 0)"

definition sampleAccount :: Account where
  "sampleAccount = (case NewBudgetAccount sampleBudgets of Inr a \<Rightarrow> a | Inl _ \<Rightarrow> zeroAccount)"

lemma sampleBudgets_64: "budgets64 sampleBudgets"
  by (simp add: sampleBudgets_def budgets64_def budgetsOf_def budgetValues_def in64_def int64_limits)

lemma sampleAccount_new: "NewBudgetAccount sampleBudgets = Inr sampleAccount"
proof -
  have "\<forall>f \<in> set (budgetValues sampleBudgets). 0 \<le> f"
    by (simp add: sampleBudgets_def budgetValues_def budgetsOf_def)
  from NewBudgetAccount_ok [OF sampleBudgets_64 this] show ?thesis
    by (auto simp: sampleAccount_def)
qed

lemma sampleAccount_reachable: "account_reachable sampleAccount"
  by (rule reach_new [OF sampleBudgets_64 sampleAccount_new])

theorem account_usage_within_limit_witness:
  "account_reachable sampleAccount \<and> (\<exists>u l. Account_Usage sampleAccount BudgetRuleSteps = Inr u \<and>
     fst (Account_Limit sampleAccount BudgetRuleSteps) = Inr l \<and> 0 \<le> u \<and> u \<le> l \<and> l \<le> MaxInt64)"
  using sampleAccount_reachable account_usage_within_limit [OF sampleAccount_reachable, of BudgetRuleSteps 9 budgetCumulative]
  by (simp add: budget_indices)

text \<open>
  No limit ever shrinks. Whatever calls follow, including document bytes arriving after nodes,
  the limit reported for a resource later is at least the one reported earlier.
\<close>

lemma account_limits_never_shrink:
  assumes "account_reachable a" "account_step\<^sup>*\<^sup>* a b" "budgetInfo kind = Some (i, mode)"
  shows "\<exists>l l'. fst (Account_Limit a kind) = Inr l \<and> fst (Account_Limit b kind) = Inr l' \<and> l \<le> l'"
proof -
  have inv: "account_inv a" by (rule reachable_inv [OF assms(1)])
  have b: "account_inv b" "limits_grow a b" using account_steps_inv [OF assms(2) inv] by auto
  have "i < 14" using budgetInfo_index [OF assms(3)] by simp
  with b assms(3) inv show ?thesis by (auto simp: Account_Limit_eq limits_grow_def)
qed

text \<open>
  C35: a charge succeeds exactly when usage plus amount stays within the current limit; it then adds
  exactly the amount to that one resource, and a refusal names the limit, the usage and the request and
  changes no usage.
\<close>

theorem account_charge_exact:
  assumes "account_reachable a" "budgetInfo kind = Some (i, mode)" "mode \<noteq> budgetItem" "0 \<le> n" "n \<le> MaxInt64"
  shows "\<exists>e b l. Account_Charge a kind n = (e, b) \<and> fst (Account_Limit a kind) = Inr l \<and>
    (if usage a ! i + n \<le> l
     then e = None \<and> usage b = (usage a)[i := usage a ! i + n]
     else e = Some (ResourceError kind l (usage a ! i) n) \<and> usage b = usage a)"
proof -
  have inv: "account_inv a" by (rule reachable_inv [OF assms(1)])
  have i: "i < 14" using budgetInfo_index [OF assms(2)] by simp
  let ?a' = "snd (Account_limit a i)" and ?l = "fst (Account_limit a i)"
  have "usage (addUsage ?a' i n) = (usage a)[i := usage a ! i + n]" if "usage a ! i + n \<le> ?l"
    using addUsage_usage [OF Account_limit_inv [OF inv] i assms(4), of i] that
      Account_limit_idem [OF account_inv_ranges [OF inv], of i i] by simp
  then show ?thesis
    using assms inv by (auto simp: Account_Charge_eq Account_Limit_eq Let_def)
qed

theorem account_charge_exact_witness:
  "\<exists>e b l. Account_Charge sampleAccount BudgetDepth 2000 = (e, b) \<and>
    fst (Account_Limit sampleAccount BudgetDepth) = Inr l \<and>
    (if usage sampleAccount ! 3 + 2000 \<le> l
     then e = None \<and> usage b = (usage sampleAccount)[3 := usage sampleAccount ! 3 + 2000]
     else e = Some (ResourceError BudgetDepth l (usage sampleAccount ! 3) 2000) \<and> usage b = usage sampleAccount)"
  by (rule account_charge_exact [OF sampleAccount_reachable, of BudgetDepth 3 budgetGauge 2000])
     (simp_all add: int64_limits)

text \<open>
  C23: storing a diagnostic is atomic. Either both the count and the byte quota move, by one and by the
  encoded size, or the call is refused and neither moves.
\<close>

theorem diagnostic_charge_atomic:
  assumes "account_reachable a" "in64 n"
  shows "\<exists>e b. chargeDiagnostic a n = (e, b) \<and>
    (if e = None then usage b = (usage a)[12 := usage a ! 12 + 1, 13 := usage a ! 13 + n] else b = a)"
proof (cases "0 \<le> n \<and> usage a ! 12 + 1 \<le> maxima a ! 12 \<and> usage a ! 13 + n \<le> maxima a ! 13")
  case True
  have inv: "account_inv a" by (rule reachable_inv [OF assms(1)])
  have b: "0 \<le> usage a ! 12" "0 \<le> usage a ! 13" "maxima a ! 12 \<le> MaxInt64" "maxima a ! 13 \<le> MaxInt64"
    using inv by (auto simp: account_inv_def)
  then have "add64 (usage a ! 12) 1 = usage a ! 12 + 1" "add64 (usage a ! 13) n = usage a ! 13 + n"
    using True by (auto intro!: add64_nonneg)
  then show ?thesis using True inv by (auto simp: chargeDiagnostic_eq addUsage_def)
next
  case False
  have inv: "account_inv a" by (rule reachable_inv [OF assms(1)])
  show ?thesis
  proof (cases "0 \<le> n")
    case True
    with False inv show ?thesis by (auto simp: chargeDiagnostic_eq)
  next
    case neg: False
    with inv show ?thesis by (auto simp: chargeDiagnostic_def Account_validate_def account_inv_def)
  qed
qed

theorem diagnostic_charge_atomic_witness:
  "\<exists>e b. chargeDiagnostic sampleAccount 100 = (e, b) \<and>
    (if e = None
     then usage b = (usage sampleAccount)[12 := usage sampleAccount ! 12 + 1, 13 := usage sampleAccount ! 13 + 100]
     else b = sampleAccount)"
  by (rule diagnostic_charge_atomic [OF sampleAccount_reachable]) (simp add: in64_def int64_limits)

text \<open>
  A new account accepts exactly the limit sets without a negative field, replaces every zero by its
  finite default, and a zero rule-step limit selects the growing default that starts at the documented base.
\<close>

theorem new_account_normalizes:
  assumes "budgets64 b"
  shows "(if \<forall>f \<in> set (budgetValues b). 0 \<le> f
     then \<exists>a. NewBudgetAccount b = Inr a \<and> account_inv a \<and> usage a = replicate 14 0 \<and>
       (\<forall>i<14. i \<noteq> 9 \<or> MaxRuleSteps b \<noteq> 0 \<longrightarrow>
          maxima a ! i = (if budgetValues b ! i = 0 then budgetValues DefaultBudgets ! i else budgetValues b ! i)) \<and>
       (MaxRuleSteps b = 0 \<longrightarrow> fst (Account_limit a 9) = DefaultRuleStepBase)
     else \<exists>name \<in> set budgetNames. NewBudgetAccount b = Inl (ConfigurationError name ''must not be negative''))"
proof (cases "\<forall>f \<in> set (budgetValues b). 0 \<le> f")
  case True
  with NewBudgetAccount_ok [OF assms] show ?thesis by (auto simp: DefaultRuleStepBase_def)
next
  case False
  let ?xs = "zip (budgetValues b) (zip (budgetValues DefaultBudgets) budgetNames)"
  obtain f where "f \<in> set (budgetValues b)" "f < 0" using False by (auto simp: not_le)
  moreover have "length (budgetValues b) = length (zip (budgetValues DefaultBudgets) budgetNames)"
    by (simp add: budgetValues_def budgetNames_def)
  ultimately obtain y where "(f, y) \<in> set ?xs" by (metis in_set_impl_in_set_zip1)
  with \<open>f < 0\<close> have "find (\<lambda>(f, d, n). f < 0) ?xs \<noteq> None"
    by (auto simp: find_None_all)
  then obtain g d n where fd: "find (\<lambda>(f, d, n). f < 0) ?xs = Some (g, d, n)" by auto
  then obtain k where "k < length ?xs" "?xs ! k = (g, d, n)" by (auto simp only: find_Some_iff)
  then have "(g, d, n) \<in> set ?xs" by (metis nth_mem)
  then have "n \<in> set budgetNames" by (auto dest!: set_zip_rightD)
  with normalizeLimits_Inl [OF fd] False show ?thesis
    by (auto simp: NewBudgetAccount_def)
qed

theorem new_account_normalizes_witness:
  "\<exists>a. NewBudgetAccount sampleBudgets = Inr a \<and> fst (Account_limit a 9) = 20000000"
proof -
  have "\<forall>f \<in> set (budgetValues sampleBudgets). 0 \<le> f" "MaxRuleSteps sampleBudgets = 0"
    by (simp_all add: sampleBudgets_def budgetValues_def budgetsOf_def)
  then show ?thesis
    using new_account_normalizes [OF sampleBudgets_64] by (auto simp: DefaultRuleStepBase_def)
qed

end
