(* ===== verification/Exact_Values.thy ===== *)
theory Exact_Values
  imports Budgets
begin

text \<open>
  The exact values of \<open>validation/values.go\<close> and the bounds of \<open>validation/rational.go\<close>.

  \<open>big.Int\<close> is \<open>int\<close> and \<open>big.Rat\<close> a pair of numerator and denominator; a pointer that may be nil
  is an option.  The three immutable value types of the source (\<open>Integer\<close>, \<open>Decimal\<close>, \<open>Rational\<close>)
  have the same struct (value, canonical text, byte size), here one record over the value.
  The digit estimates rest on bounds of \<open>log10 2\<close>, proved at the start by a chain of rounded
  squarings, so that the size prechecks can be compared with the text they guard.
\<close>

section \<open>Integers of the standard library\<close>

fun bitLenNat :: "nat \<Rightarrow> nat" where
  "bitLenNat n = (if n = 0 then 0 else Suc (bitLenNat (n div 2)))"

declare bitLenNat.simps [simp del]

lemma bitLenNat_0 [simp]: "bitLenNat 0 = 0"
  by (simp add: bitLenNat.simps)

lemma bitLenNat_eq_0 [simp]: "bitLenNat n = 0 \<longleftrightarrow> n = 0"
  by (subst bitLenNat.simps) simp

lemma bitLenNat_upper: "n < 2 ^ bitLenNat n"
proof (induction n rule: bitLenNat.induct)
  case (1 n)
  show ?case
  proof (cases "n = 0")
    case False
    with 1 have "n div 2 < 2 ^ bitLenNat (n div 2)" by simp
    then have "n < 2 * 2 ^ bitLenNat (n div 2)" by linarith
    with False show ?thesis by (simp add: bitLenNat.simps [of n])
  qed simp
qed

lemma bitLenNat_lower: "0 < n \<Longrightarrow> 2 ^ (bitLenNat n - 1) \<le> n"
proof (induction n rule: bitLenNat.induct)
  case (1 n)
  show ?case
  proof (cases "n div 2 = 0")
    case True
    with 1 have "n = 1" by auto
    then show ?thesis by (simp add: bitLenNat.simps)
  next
    case False
    then have "2 ^ (bitLenNat (n div 2) - 1) \<le> n div 2" using 1 by simp
    then have "2 * 2 ^ (bitLenNat (n div 2) - 1) \<le> n" by linarith
    moreover have "bitLenNat n = Suc (bitLenNat (n div 2))" using 1 by (simp add: bitLenNat.simps [of n])
    moreover have "bitLenNat (n div 2) \<noteq> 0" using False by simp
    ultimately show ?thesis by (simp add: power_Suc [symmetric])
  qed
qed

lemma bitLenNat_le_iff: "bitLenNat n \<le> k \<longleftrightarrow> n < 2 ^ k"
proof
  assume "bitLenNat n \<le> k"
  then have "(2::nat) ^ bitLenNat n \<le> 2 ^ k" by (simp add: power_increasing)
  with bitLenNat_upper [of n] show "n < 2 ^ k" by linarith
next
  assume n: "n < 2 ^ k"
  show "bitLenNat n \<le> k"
  proof (cases "n = 0")
    case False
    then have "(2::nat) ^ (bitLenNat n - 1) < 2 ^ k" using bitLenNat_lower [of n] n by linarith
    then have "bitLenNat n - 1 < k" by (simp add: power_less_imp_less_exp)
    then show ?thesis by simp
  qed simp
qed

text \<open>\<open>(*big.Int).BitLen\<close> of the magnitude.\<close>

definition BitLen :: "int \<Rightarrow> int" where
  "BitLen v = int (bitLenNat (nat \<bar>v\<bar>))"

lemma BitLen_nonneg [simp]: "0 \<le> BitLen v"
  by (simp add: BitLen_def)

lemma BitLen_eq_0 [simp]: "BitLen v = 0 \<longleftrightarrow> v = 0"
  by (simp add: BitLen_def)

lemma BitLen_le_iff: "BitLen v \<le> int k \<longleftrightarrow> \<bar>v\<bar> < 2 ^ k"
proof -
  have "BitLen v \<le> int k \<longleftrightarrow> nat \<bar>v\<bar> < 2 ^ k" by (simp add: BitLen_def bitLenNat_le_iff)
  also have "\<dots> \<longleftrightarrow> \<bar>v\<bar> < 2 ^ k" by (simp add: nat_less_iff)
  finally show ?thesis .
qed

lemma BitLen_le_nat: "0 \<le> k \<Longrightarrow> BitLen v \<le> k \<longleftrightarrow> \<bar>v\<bar> < 2 ^ nat k"
  using BitLen_le_iff [of v "nat k"] by simp

lemma BitLen_mono: "\<bar>v\<bar> \<le> \<bar>w\<bar> \<Longrightarrow> BitLen v \<le> BitLen w"
  using BitLen_le_nat [of "BitLen w" v] BitLen_le_nat [of "BitLen w" w] by simp

lemma BitLen_mult: "BitLen (v * w) \<le> BitLen v + BitLen w"
proof -
  have "\<bar>v\<bar> < 2 ^ nat (BitLen v)" "\<bar>w\<bar> < 2 ^ nat (BitLen w)"
    using BitLen_le_nat [of "BitLen v" v] BitLen_le_nat [of "BitLen w" w] by simp_all
  then have "\<bar>v\<bar> * \<bar>w\<bar> < 2 ^ nat (BitLen v) * 2 ^ nat (BitLen w)"
    by (intro mult_strict_mono') auto
  then have "\<bar>v * w\<bar> < 2 ^ nat (BitLen v + BitLen w)"
    by (simp add: abs_mult power_add [symmetric] nat_add_distrib)
  then show ?thesis by (simp add: BitLen_le_nat)
qed

lemma BitLen_add: "BitLen (v + w) \<le> max (BitLen v) (BitLen w) + 1"
proof -
  let ?m = "max (BitLen v) (BitLen w)"
  have "\<bar>v\<bar> < 2 ^ nat ?m" "\<bar>w\<bar> < 2 ^ nat ?m"
    using BitLen_le_nat [of ?m v] BitLen_le_nat [of ?m w] by (auto simp: le_max_iff_disj)
  then have "\<bar>v + w\<bar> < 2 * 2 ^ nat ?m" by linarith
  also have "(2::int) * 2 ^ nat ?m = 2 ^ Suc (nat ?m)" by simp
  also have "Suc (nat ?m) = nat (?m + 1)"
    by (rule Suc_nat_eq_nat_zadd1 [THEN trans]) (simp_all add: le_max_iff_disj add.commute)
  finally show ?thesis by (simp add: BitLen_le_nat le_max_iff_disj)
qed

section \<open>The digits of a binary number\<close>

text \<open>
  The source estimates decimal lengths with \<open>0.301029995 < log10 2 < 0.30103\<close>.  Over the integers
  these are \<open>10 ^ 8651 < 2 ^ 28738\<close> and \<open>2 ^ 13301 < 10 ^ 4004\<close>, two convergents.
\<close>

lemma pow5_upper_step:
  fixes m m' :: nat
  assumes "5 ^ k \<le> m * 2 ^ e" "5 ^ b * (m * m) \<le> m' * 2 ^ f" "j = 2 * k + b" "g = 2 * e + f"
  shows "5 ^ j \<le> m' * 2 ^ g"
proof -
  have "(5::nat) ^ k * 5 ^ k \<le> (m * 2 ^ e) * (m * 2 ^ e)" using assms(1) by (intro mult_le_mono)
  then have "5 ^ b * ((5::nat) ^ k * 5 ^ k) \<le> 5 ^ b * ((m * 2 ^ e) * (m * 2 ^ e))" by simp
  also have "\<dots> = 5 ^ b * (m * m) * 2 ^ (e + e)" by (simp add: power_add ac_simps)
  also have "\<dots> \<le> m' * 2 ^ f * 2 ^ (e + e)" using assms(2) by simp
  finally show ?thesis by (simp add: assms(3,4) mult_2_right power_add ac_simps)
qed

lemma pow5_lower_step:
  fixes m m' :: nat
  assumes "m * 2 ^ e \<le> 5 ^ k" "m' * 2 ^ f \<le> 5 ^ b * (m * m)" "j = 2 * k + b" "g = 2 * e + f"
  shows "m' * 2 ^ g \<le> 5 ^ j"
proof -
  have "m' * 2 ^ f * 2 ^ (e + e) \<le> 5 ^ b * (m * m) * 2 ^ (e + e)" using assms(2) by simp
  also have "\<dots> = 5 ^ b * ((m * 2 ^ e) * (m * 2 ^ e))" by (simp add: power_add ac_simps)
  also have "\<dots> \<le> 5 ^ b * ((5::nat) ^ k * 5 ^ k)" using assms(1) by (intro mult_le_mono) auto
  finally show ?thesis by (simp add: assms(3,4) mult_2_right power_add ac_simps)
qed

lemma mantissa_fits:
  fixes m :: nat
  shows "p \<le> m * 2 ^ e \<Longrightarrow> m \<le> 2 ^ d \<Longrightarrow> g = d + e \<Longrightarrow> p \<le> 2 ^ g"
    and "m * 2 ^ e \<le> p \<Longrightarrow> 2 ^ d \<le> m \<Longrightarrow> g = d + e \<Longrightarrow> 2 ^ g \<le> p"
  by (auto simp: power_add intro: order_trans mult_le_mono1)

lemma pow5_8651: "(5::nat) ^ 8651 \<le> 2 ^ 20087"
proof -
  have "(5::nat) ^ 1 \<le> 5 * 2 ^ 0" by simp
  then have "(5::nat) ^ 2 \<le> 25 * 2 ^ 0"
    by (rule pow5_upper_step [where b = 0 and f = 0]) simp_all
  then have "(5::nat) ^ 4 \<le> 625 * 2 ^ 0"
    by (rule pow5_upper_step [where b = 0 and f = 0]) simp_all
  then have "(5::nat) ^ 8 \<le> 390625 * 2 ^ 0"
    by (rule pow5_upper_step [where b = 0 and f = 0]) simp_all
  then have "(5::nat) ^ 16 \<le> 152587890625 * 2 ^ 0"
    by (rule pow5_upper_step [where b = 0 and f = 0]) simp_all
  then have "(5::nat) ^ 33 \<le> 14210854715202003718 * 2 ^ 13"
    by (rule pow5_upper_step [where b = 1 and f = 13]) simp_all
  then have "(5::nat) ^ 67 \<le> 13684555315672041710 * 2 ^ 92"
    by (rule pow5_upper_step [where b = 1 and f = 66]) simp_all
  then have "(5::nat) ^ 135 \<le> 12689709186578246120 * 2 ^ 250"
    by (rule pow5_upper_step [where b = 1 and f = 66]) simp_all
  then have "(5::nat) ^ 270 \<le> 17458768723248864474 * 2 ^ 563"
    by (rule pow5_upper_step [where b = 0 and f = 63]) simp_all
  then have "(5::nat) ^ 540 \<le> 16523707604655743407 * 2 ^ 1190"
    by (rule pow5_upper_step [where b = 0 and f = 64]) simp_all
  then have "(5::nat) ^ 1081 \<le> 9250714919973558995 * 2 ^ 2447"
    by (rule pow5_upper_step [where b = 1 and f = 67]) simp_all
  then have "(5::nat) ^ 2162 \<le> 9278138861652515191 * 2 ^ 4957"
    by (rule pow5_upper_step [where b = 0 and f = 63]) simp_all
  then have "(5::nat) ^ 4325 \<le> 11666538603253302952 * 2 ^ 9979"
    by (rule pow5_upper_step [where b = 1 and f = 65]) simp_all
  then have "(5::nat) ^ 8651 \<le> 18446090328642592708 * 2 ^ 20023"
    by (rule pow5_upper_step [where b = 1 and f = 65]) simp_all
  then show ?thesis by (rule mantissa_fits(1) [where d = 64]) simp_all
qed

lemma pow5_4004: "2 ^ 9297 \<le> (5::nat) ^ 4004"
proof -
  have "5 * 2 ^ 0 \<le> (5::nat) ^ 1" by simp
  then have "125 * 2 ^ 0 \<le> (5::nat) ^ 3"
    by (rule pow5_lower_step [where b = 1 and f = 0]) simp_all
  then have "78125 * 2 ^ 0 \<le> (5::nat) ^ 7"
    by (rule pow5_lower_step [where b = 1 and f = 0]) simp_all
  then have "30517578125 * 2 ^ 0 \<le> (5::nat) ^ 15"
    by (rule pow5_lower_step [where b = 1 and f = 0]) simp_all
  then have "18189894035458564758 * 2 ^ 8 \<le> (5::nat) ^ 31"
    by (rule pow5_lower_step [where b = 1 and f = 8]) simp_all
  then have "17936620343357658507 * 2 ^ 80 \<le> (5::nat) ^ 62"
    by (rule pow5_lower_step [where b = 0 and f = 64]) simp_all
  then have "10900377190420865841 * 2 ^ 227 \<le> (5::nat) ^ 125"
    by (rule pow5_lower_step [where b = 1 and f = 67]) simp_all
  then have "12882297539194266611 * 2 ^ 517 \<le> (5::nat) ^ 250"
    by (rule pow5_lower_step [where b = 0 and f = 63]) simp_all
  then have "17992724268869653960 * 2 ^ 1097 \<le> (5::nat) ^ 500"
    by (rule pow5_lower_step [where b = 0 and f = 63]) simp_all
  then have "10968674381030919024 * 2 ^ 2261 \<le> (5::nat) ^ 1001"
    by (rule pow5_lower_step [where b = 1 and f = 67]) simp_all
  then have "13044233410117440417 * 2 ^ 4585 \<le> (5::nat) ^ 2002"
    by (rule pow5_lower_step [where b = 0 and f = 63]) simp_all
  then have "9223959771856221868 * 2 ^ 9234 \<le> (5::nat) ^ 4004"
    by (rule pow5_lower_step [where b = 0 and f = 64]) simp_all
  then show ?thesis by (rule mantissa_fits(2) [where d = 63]) simp_all
qed

lemma pow10_5_2: "(10::nat) ^ n = 5 ^ n * 2 ^ n"
  by (simp flip: power_mult_distrib)

lemma log10_lower: "(10::nat) ^ 8651 \<le> 2 ^ 28738"
proof -
  have "(5::nat) ^ 8651 * 2 ^ 8651 \<le> 2 ^ 20087 * 2 ^ 8651" using pow5_8651 by (rule mult_le_mono1)
  moreover have "(28738::nat) = 20087 + 8651" by simp
  ultimately show ?thesis by (simp only: pow10_5_2 power_add)
qed

lemma log10_upper: "(2::nat) ^ 13301 \<le> 10 ^ 4004"
proof -
  have "(2::nat) ^ 9297 * 2 ^ 4004 \<le> 5 ^ 4004 * 2 ^ 4004" using pow5_4004 by (rule mult_le_mono1)
  moreover have "(13301::nat) = 9297 + 4004" by simp
  ultimately show ?thesis by (simp only: pow10_5_2 power_add)
qed

lemma power_transfer:
  fixes x y :: nat
  assumes "x ^ p \<le> y ^ q" "q * t \<le> p * b" "0 < q" "0 < x"
  shows "x ^ t \<le> y ^ b"
proof -
  have "(x ^ t) ^ q = x ^ (q * t)" by (simp add: power_mult [symmetric] mult.commute)
  also have "\<dots> \<le> x ^ (p * b)" using assms by (intro power_increasing) auto
  also have "\<dots> = (x ^ p) ^ b" by (simp add: power_mult)
  also have "\<dots> \<le> (y ^ q) ^ b" using assms(1) by (intro power_mono) auto
  also have "\<dots> = (y ^ b) ^ q" by (simp add: power_mult [symmetric] mult.commute)
  finally show ?thesis using assms(3) power_le_imp_le_base [of "x ^ t" "q - 1" "y ^ b"] by simp
qed

lemma digits_at_least:
  assumes "2 ^ b \<le> n" "t * 1000000000 \<le> b * 301029995"
  shows "t + 1 \<le> length (showNat n)"
proof -
  have "28738 * t \<le> 8651 * b" using assms(2) by linarith
  from power_transfer [OF log10_lower this] have "10 ^ t \<le> n" using assms(1) by simp
  moreover have "0 < n" using assms(1) by (simp add: order_less_le_trans [of 0 "2 ^ b" n])
  ultimately have "(10::nat) ^ t < 10 ^ length (showNat n)" using showNat_bounds(2) [of n] by linarith
  then show ?thesis by (simp add: power_less_imp_less_exp)
qed

lemma digits_at_most:
  assumes "n < 2 ^ b" "b * 30103 \<le> u * 100000" "0 < n"
  shows "length (showNat n) \<le> u"
proof -
  have "4004 * b \<le> 13301 * u" using assms(2) by linarith
  have "(2::nat) ^ b \<le> 10 ^ u"
  proof -
    have "((2::nat) ^ b) ^ 13301 = (2 ^ 13301) ^ b" by (simp only: power_mult [symmetric] mult.commute)
    also have "\<dots> \<le> (10 ^ 4004) ^ b" by (rule power_mono [OF log10_upper]) simp
    also have "\<dots> = 10 ^ (4004 * b)" by (simp only: power_mult)
    also have "\<dots> \<le> 10 ^ (13301 * u)" by (rule power_increasing) (use \<open>4004 * b \<le> 13301 * u\<close> in simp_all)
    also have "\<dots> = (10 ^ u) ^ Suc 13300" by (simp only: power_mult [symmetric] mult.commute Suc_numeral) simp
    finally show ?thesis using power_le_imp_le_base [of "2 ^ b" 13300 "10 ^ u"] by simp
  qed
  moreover have "10 ^ (length (showNat n) - 1) \<le> n" using assms(3) by (rule showNat_bounds(1))
  ultimately have "(10::nat) ^ (length (showNat n) - 1) < 10 ^ u" using assms(1) by linarith
  then have "length (showNat n) - 1 < u" by (rule power_less_imp_less_exp [rotated]) simp
  then show ?thesis by simp
qed


section \<open>The model of \<open>values.go\<close>\<close>

definition MaxExactValueBytes :: int where
  "MaxExactValueBytes = 1048576"

type_synonym bigRat = "int \<times> int"

record 'v exact =
  exValue :: "'v option"
  exText :: string
  exBytes :: int

type_synonym Integer = "int exact"
type_synonym Decimal = "bigRat exact"
type_synonym Rational = "bigRat exact"

definition zeroExact :: "'v exact" where
  "zeroExact = \<lparr> exValue = None, exText = [], exBytes = 0 \<rparr>"

definition magnitudeBytes :: "int \<Rightarrow> int" where
  "magnitudeBytes v = quo64 (add64 (BitLen v) 7) 8"

definition checkExactSize :: "int \<Rightarrow> error option" where
  "checkExactSize bytes =
     (if bytes > MaxExactValueBytes
      then Some (ResourceError BudgetScalarBytes MaxExactValueBytes 0 bytes) else None)"

definition boundedIntegerText :: "int \<Rightarrow> error + string" where
  "boundedIntegerText v =
     (let bits = BitLen v;
          rendered = (let text = showInt v in checkThen (checkExactSize (int (length text))) (Inr text))
      in if bits > 0 then
           let minimum = add64 (quo64 (mul64 (sub64 bits 1) 301029995) 1000000000) 1;
               minimum = (if v < 0 then add64 minimum 1 else minimum)
           in checkThen (checkExactSize minimum) rendered
         else rendered)"

definition NewInteger :: "int option \<Rightarrow> error + Integer" where
  "NewInteger value =
     (case value of
        None \<Rightarrow> Inl (ConfigurationError ''Integer'' ''nil exact value'')
      | Some v \<Rightarrow>
          (let magnitude = magnitudeBytes v in
           checkThen (checkExactSize magnitude)
             (tryThen (boundedIntegerText v) (\<lambda>text.
               Inr \<lparr> exValue = Some v, exText = text,
                     exBytes = add64 magnitude (int (length text)) \<rparr>))))"

text \<open>The methods the three value types share; each has its own field name in the error.\<close>

definition exactValid :: "'v exact \<Rightarrow> bool" where
  "exactValid n \<longleftrightarrow> exValue n \<noteq> None"

definition exactString :: "'v exact \<Rightarrow> string" where
  "exactString n = (if \<not> exactValid n then ''<uninitialized>'' else exText n)"

definition exactIsZero :: "'v exact \<Rightarrow> bool" where
  "exactIsZero n \<longleftrightarrow> exValue n = None \<and> exText n = [] \<and> exBytes n = 0"

definition Integer_Cmp :: "Integer \<Rightarrow> Integer \<Rightarrow> error + int" where
  "Integer_Cmp n m =
     (case (exValue n, exValue m) of
        (Some a, Some b) \<Rightarrow> Inr (if a < b then -1 else if a > b then 1 else 0)
      | _ \<Rightarrow> Inl (ConfigurationError ''Integer.Cmp'' ''uninitialized operand''))"

definition Integer_Equal :: "Integer \<Rightarrow> Integer \<Rightarrow> bool" where
  "Integer_Equal n m =
     (case (exValue n, exValue m) of
        (Some a, Some b) \<Rightarrow> a = b
      | _ \<Rightarrow> exactValid n = exactValid m)"

text \<open>
  \<open>big.Rat\<close>: \<open>norm\<close> moves the sign to the numerator and divides by the greatest common divisor;
  \<open>Cmp\<close> compares the cross products.
\<close>

definition ratNorm :: "int \<Rightarrow> int \<Rightarrow> bigRat" where
  "ratNorm n d =
     (let (n, d) = (if d < 0 then (- n, - d) else (n, d)); g = gcd n d in (n div g, d div g))"

definition ratIsInt :: "bigRat \<Rightarrow> bool" where
  "ratIsInt v \<longleftrightarrow> snd v = 1"

definition ratCmp :: "bigRat \<Rightarrow> bigRat \<Rightarrow> int" where
  "ratCmp a b =
     (let l = fst a * snd b; r = fst b * snd a in if l < r then -1 else if l > r then 1 else 0)"

text \<open>\<open>(*big.Rat).FloatString\<close>, rounding branch included.\<close>

definition FloatString :: "bigRat \<Rightarrow> nat \<Rightarrow> string" where
  "FloatString v prec =
     (if ratIsInt v then
        showInt (fst v) @ (if prec > 0 then CHR ''.'' # replicate prec (CHR ''0'') else [])
      else
        let n = nat \<bar>fst v\<bar>; d = nat (snd v);
            q = n div d; r = n mod d;
            p = (if prec > 0 then 10 ^ prec else 1);
            r1 = r * p; r = r1 div d; r2 = r1 mod d;
            (q, r) = (if d \<le> r2 + r2 then
                        (if r + 1 \<ge> p then (q + 1, r + 1 - p) else (q, r + 1))
                      else (q, r));
            rs = showNat r
        in (if fst v < 0 then ''-'' else []) @ showNat q @
           (if prec > 0 then CHR ''.'' # replicate (prec - length rs) (CHR ''0'') @ rs else []))"

text \<open>
  \<open>decimalScale\<close>: the powers \<open>5 ^ (2 ^ k)\<close> by squaring, then one greedy pass from the largest.
  The squaring loop starts at 5; the conjunct \<open>1 < p\<close> holds there and makes the recursion total.
\<close>

function fivePowers :: "nat \<Rightarrow> nat \<Rightarrow> nat list" where
  "fivePowers remainder p =
     (if 1 < p \<and> p \<le> remainder then
        let nxt = p * p in if nxt > remainder then [p] else p # fivePowers remainder nxt
      else [p])"
  by pat_completeness auto
termination
proof (relation "measure (\<lambda>(remainder, p). Suc remainder - p)")
  fix remainder p nxt :: nat
  assume "1 < p \<and> p \<le> remainder" "nxt = p * p" "\<not> remainder < nxt"
  moreover have "p < p * p" using calculation by simp
  ultimately show "((remainder, nxt), remainder, p) \<in> measure (\<lambda>(remainder, p). Suc remainder - p)"
    unfolding in_measure case_prod_conv by linarith
qed simp

declare fivePowers.simps [simp del]

fun removeFives :: "nat list \<Rightarrow> nat \<Rightarrow> nat \<Rightarrow> nat \<times> nat" where
  "removeFives [] remainder fives = (remainder, fives)"
| "removeFives (p # ps) remainder fives =
     (if remainder mod p = 0 then removeFives ps (remainder div p) (fives + 2 ^ length ps)
      else removeFives ps remainder fives)"

fun trailingZeroBits :: "nat \<Rightarrow> nat" where
  "trailingZeroBits n = (if n = 0 \<or> odd n then 0 else Suc (trailingZeroBits (n div 2)))"

declare trailingZeroBits.simps [simp del]

definition decimalScale :: "int \<Rightarrow> nat \<times> bool" where
  "decimalScale denominator =
     (let d = nat denominator; twos = trailingZeroBits d; remainder = d div 2 ^ twos in
      if remainder = 1 then (twos, True)
      else let (remainder, fives) = removeFives (rev (fivePowers remainder 5)) remainder 0 in
           if remainder \<noteq> 1 then (0, False)
           else if twos > fives then (twos, True) else (fives, True))"

definition NewDecimal :: "bigRat option \<Rightarrow> error + Decimal" where
  "NewDecimal value =
     (case value of
        None \<Rightarrow> Inl (ConfigurationError ''Decimal'' ''nil exact value'')
      | Some (numerator, denominator) \<Rightarrow>
          if denominator \<le> 0 then Inl (ConfigurationError ''Decimal'' ''denominator must be positive'')
          else
            checkThen (checkExactSize (add64 (magnitudeBytes numerator) (magnitudeBytes denominator)))
             (let normalized = ratNorm numerator denominator;
                  (scale, finite) = decimalScale (snd normalized)
              in if \<not> finite
                 then Inl (ConfigurationError ''Decimal'' ''value has no finite decimal expansion'')
                 else
                   checkThen (if scale > 0 then checkExactSize (add64 (int scale) 2) else None)
                    (let integerPart = sgn (fst normalized) * (\<bar>fst normalized\<bar> div snd normalized) in
                     tryThen (boundedIntegerText integerPart) (\<lambda>integerText.
                       let outputBytes = int (length integerText);
                           outputBytes = (if fst normalized < 0 \<and> integerPart = 0
                                          then add64 outputBytes 1 else outputBytes);
                           outputBytes = (if scale > 0 then add64 outputBytes (add64 (int scale) 1)
                                          else outputBytes)
                       in checkThen (checkExactSize outputBytes)
                            (let text = FloatString normalized scale;
                                 magnitude = add64 (magnitudeBytes (fst normalized))
                                                   (magnitudeBytes (snd normalized))
                             in Inr \<lparr> exValue = Some normalized, exText = text,
                                      exBytes = add64 magnitude (int (length text)) \<rparr>)))))"

definition Decimal_Cmp :: "Decimal \<Rightarrow> Decimal \<Rightarrow> error + int" where
  "Decimal_Cmp n m =
     (case (exValue n, exValue m) of
        (Some a, Some b) \<Rightarrow> Inr (ratCmp a b)
      | _ \<Rightarrow> Inl (ConfigurationError ''Decimal.Cmp'' ''uninitialized operand''))"

definition Decimal_Equal :: "Decimal \<Rightarrow> Decimal \<Rightarrow> bool" where
  "Decimal_Equal n m =
     (case (exValue n, exValue m) of
        (Some a, Some b) \<Rightarrow> ratCmp a b = 0
      | _ \<Rightarrow> exactValid n = exactValid m)"

section \<open>The model of the fractions of \<open>rational.go\<close>\<close>

definition rationalConfiguration :: "string \<Rightarrow> error" where
  "rationalConfiguration reason = ConfigurationError ''Rational'' reason"

definition rationalOwned :: "bigRat \<Rightarrow> string \<Rightarrow> Rational" where
  "rationalOwned v text =
     \<lparr> exValue = Some v, exText = text,
       exBytes = add64 (add64 (magnitudeBytes (fst v)) (magnitudeBytes (snd v))) (int (length text)) \<rparr>"

definition rationalMinimumDigits :: "int \<Rightarrow> int" where
  "rationalMinimumDigits v =
     (let bits = BitLen v in
      if bits = 0 then 1
      else let n = add64 (quo64 (mul64 (sub64 bits 1) 301029995) 1000000000) 1
           in if v < 0 then add64 n 1 else n)"

definition rationalTextPrecheck :: "bigRat \<Rightarrow> error option" where
  "rationalTextPrecheck v =
     (let minimum = rationalMinimumDigits (fst v);
          minimum = (if \<not> ratIsInt v then add64 minimum (add64 1 (rationalMinimumDigits (snd v)))
                     else minimum)
      in checkExactSize minimum)"

definition boundedRationalText :: "bigRat \<Rightarrow> error + string" where
  "boundedRationalText v =
     checkThen (rationalTextPrecheck v)
      (tryThen (boundedIntegerText (fst v)) (\<lambda>n.
        if ratIsInt v then Inr n
        else tryThen (boundedIntegerText (snd v)) (\<lambda>d.
          checkThen (checkExactSize (add64 (add64 (int (length n)) 1) (int (length d))))
            (Inr (n @ ''/'' @ d)))))"

definition rationalCheckedAdd :: "BudgetKind \<Rightarrow> int \<Rightarrow> int \<Rightarrow> error + int" where
  "rationalCheckedAdd kind a b =
     (if a < 0 \<or> b < 0 then Inl (rationalConfiguration ''negative size'')
      else if a > sub64 MaxInt64 b then Inl (ResourceError kind MaxInt64 a b)
      else Inr (add64 a b))"

definition rationalCheckedMul :: "BudgetKind \<Rightarrow> int \<Rightarrow> int \<Rightarrow> error + int" where
  "rationalCheckedMul kind a b =
     (if a < 0 \<or> b < 0 then Inl (rationalConfiguration ''negative size'')
      else if b \<noteq> 0 \<and> a > quo64 MaxInt64 b then Inl (ResourceError kind MaxInt64 a b)
      else Inr (mul64 a b))"

fun rationalSumFrom :: "BudgetKind \<Rightarrow> int \<Rightarrow> int list \<Rightarrow> error + int" where
  "rationalSumFrom kind acc [] = Inr acc"
| "rationalSumFrom kind acc (n # ns) =
     tryThen (rationalCheckedAdd kind acc n) (\<lambda>acc. rationalSumFrom kind acc ns)"

definition rationalSum :: "BudgetKind \<Rightarrow> int list \<Rightarrow> error + int" where
  "rationalSum kind values = rationalSumFrom kind 0 values"

definition NewRational :: "bigRat option \<Rightarrow> error + Rational" where
  "NewRational value =
     (case value of
        None \<Rightarrow> Inl (rationalConfiguration ''nil exact value'')
      | Some v \<Rightarrow>
          if snd v \<le> 0 then Inl (rationalConfiguration ''denominator must be positive'')
          else
            tryThen (rationalCheckedAdd BudgetScalarBytes (magnitudeBytes (fst v)) (magnitudeBytes (snd v)))
             (\<lambda>magnitude.
               checkThen (checkExactSize magnitude)
                (checkThen (rationalTextPrecheck v)
                  (let normalized = ratNorm (fst v) (snd v) in
                   tryThen (boundedRationalText normalized) (\<lambda>text.
                     Inr (rationalOwned normalized text))))))"

definition Rational_Cmp :: "Rational \<Rightarrow> Rational \<Rightarrow> error + int" where
  "Rational_Cmp n m =
     (case (exValue n, exValue m) of
        (Some a, Some b) \<Rightarrow> Inr (ratCmp a b)
      | _ \<Rightarrow> Inl (ConfigurationError ''Rational.Cmp'' ''uninitialized operand''))"

definition Rational_Equal :: "Rational \<Rightarrow> Rational \<Rightarrow> bool" where
  "Rational_Equal n m =
     (case (exValue n, exValue m) of
        (Some a, Some b) \<Rightarrow> ratCmp a b = 0
      | _ \<Rightarrow> exactValid n = exactValid m)"


section \<open>Sizes and digit estimates\<close>

text \<open>
  \<open>BitLen\<close> is an \<open>int\<close> of the host: no slice of words is long enough to make adding 7 overflow.
\<close>

definition hostInt :: "int \<Rightarrow> bool" where
  "hostInt v \<longleftrightarrow> BitLen v + 7 \<le> MaxInt64"

lemma magnitudeBytes_eq: "hostInt v \<Longrightarrow> magnitudeBytes v = (BitLen v + 7) div 8"
  by (simp add: magnitudeBytes_def hostInt_def i64_simps)

lemma magnitudeBytes_nonneg: "hostInt v \<Longrightarrow> 0 \<le> magnitudeBytes v"
  using BitLen_nonneg [of v] by (simp add: magnitudeBytes_eq pos_imp_zdiv_nonneg_iff)

lemma magnitude_bounds_bits: "hostInt v \<Longrightarrow> magnitudeBytes v \<le> k \<longleftrightarrow> BitLen v \<le> 8 * k"
  by (auto simp: magnitudeBytes_eq)

lemma checkExactSize_None [simp]: "checkExactSize b = None \<longleftrightarrow> b \<le> MaxExactValueBytes"
  by (simp add: checkExactSize_def)

lemma checkExactSize_Some [simp]:
  "checkExactSize b = Some e \<longleftrightarrow>
     MaxExactValueBytes < b \<and> e = ResourceError BudgetScalarBytes MaxExactValueBytes 0 b"
  by (auto simp: checkExactSize_def)

definition minDigits :: "int \<Rightarrow> int" where
  "minDigits v = (if v = 0 then 1
     else (BitLen v - 1) * 301029995 div 1000000000 + 1 + (if v < 0 then 1 else 0))"

lemma minDigits_le: "minDigits v \<le> int (length (showInt v))"
proof (cases "v = 0")
  case True
  then show ?thesis by (simp add: minDigits_def showInt_def showNat.simps [of 0])
next
  case False
  let ?b = "nat (BitLen v - 1)" and ?m = "nat \<bar>v\<bar>"
  let ?t = "nat ((BitLen v - 1) * 301029995 div 1000000000)"
  have pos: "1 \<le> BitLen v" using False BitLen_nonneg [of v] BitLen_eq_0 [of v] by linarith
  have "2 ^ ?b \<le> ?m"
    using bitLenNat_lower [of ?m] False by (simp add: BitLen_def nat_diff_distrib')
  moreover have "?t * 1000000000 \<le> ?b * 301029995"
  proof -
    have "0 \<le> (BitLen v - 1) * 301029995 div 1000000000" using pos by simp
    moreover have "(BitLen v - 1) * 301029995 div 1000000000 * 1000000000 \<le> (BitLen v - 1) * 301029995"
      by (rule le_div_iff_mult_le [THEN iffD1]) simp_all
    ultimately have "int (?t * 1000000000) \<le> int (?b * 301029995)" using pos by simp
    then show ?thesis by (simp only: of_nat_le_iff)
  qed
  ultimately have "?t + 1 \<le> length (showNat ?m)" by (rule digits_at_least)
  moreover have "0 \<le> (BitLen v - 1) * 301029995 div 1000000000" using pos by simp
  ultimately have "(BitLen v - 1) * 301029995 div 1000000000 + 1 \<le> int (length (showNat ?m))" by linarith
  then show ?thesis using False by (auto simp: minDigits_def showInt_def)
qed

text \<open>Below this width the estimate's product stays within an int64.\<close>

definition estimable :: "int \<Rightarrow> bool" where
  "estimable v \<longleftrightarrow> BitLen v \<le> 30000000000"

lemma estimable_host: "estimable v \<Longrightarrow> hostInt v"
  by (simp add: estimable_def hostInt_def int64_limits)

lemma estimate_eq:
  assumes "estimable v" "v \<noteq> 0"
  shows "add64 (quo64 (mul64 (sub64 (BitLen v) 1) 301029995) 1000000000) 1
         = (BitLen v - 1) * 301029995 div 1000000000 + 1"
    and "in64 ((BitLen v - 1) * 301029995 div 1000000000 + 2)"
    and "0 \<le> (BitLen v - 1) * 301029995 div 1000000000"
proof -
  have b: "1 \<le> BitLen v" "BitLen v \<le> 30000000000"
    using assms BitLen_nonneg [of v] BitLen_eq_0 [of v] unfolding estimable_def by linarith+
  have s: "sub64 (BitLen v) 1 = BitLen v - 1" using b by (intro sub64_nonneg) (simp_all add: int64_limits)
  have m: "mul64 (BitLen v - 1) 301029995 = (BitLen v - 1) * 301029995"
    using b by (intro mul64_nonneg) (simp_all add: int64_limits)
  have q: "quo64 ((BitLen v - 1) * 301029995) 1000000000 = (BitLen v - 1) * 301029995 div 1000000000"
    using b by (intro quo64_nonneg) (simp_all add: int64_limits)
  show z: "0 \<le> (BitLen v - 1) * 301029995 div 1000000000" using b by simp
  have "(BitLen v - 1) * 301029995 \<le> 30000000000 * 301029995" using b by simp
  then have u: "(BitLen v - 1) * 301029995 div 1000000000 \<le> 30000000000 * 301029995 div 1000000000"
    by (rule zdiv_mono1) simp
  then show "in64 ((BitLen v - 1) * 301029995 div 1000000000 + 2)" using z by (simp add: in64_def int64_limits)
  have "add64 ((BitLen v - 1) * 301029995 div 1000000000) 1 = (BitLen v - 1) * 301029995 div 1000000000 + 1"
    using z u by (intro add64_nonneg) (simp_all add: int64_limits)
  then show "add64 (quo64 (mul64 (sub64 (BitLen v) 1) 301029995) 1000000000) 1
      = (BitLen v - 1) * 301029995 div 1000000000 + 1"
    by (simp only: s m q)
qed

lemma rationalMinimumDigits_eq:
  assumes "estimable v"
  shows "rationalMinimumDigits v = minDigits v"
proof (cases "v = 0")
  case False
  note e = estimate_eq [OF assms False]
  have "add64 ((BitLen v - 1) * 301029995 div 1000000000 + 1) 1 = (BitLen v - 1) * 301029995 div 1000000000 + 2"
    using add64_id [of "(BitLen v - 1) * 301029995 div 1000000000 + 1" 1] e(2) by (simp only: add.assoc one_add_one)
  then show ?thesis using False e(1) by (simp add: rationalMinimumDigits_def minDigits_def Let_def)
qed (simp add: rationalMinimumDigits_def minDigits_def BitLen_def)

lemma boundedIntegerText_min:
  assumes "estimable v"
  shows "boundedIntegerText v = (if v = 0 then Inr (showInt v)
     else checkThen (checkExactSize (minDigits v))
            (checkThen (checkExactSize (int (length (showInt v)))) (Inr (showInt v))))"
proof (cases "v = 0")
  case True
  then show ?thesis
    by (simp add: boundedIntegerText_def BitLen_def showInt_def showNat.simps [of 0] checkExactSize_def
        MaxExactValueBytes_def)
next
  case False
  have "0 < BitLen v" using False BitLen_nonneg [of v] BitLen_eq_0 [of v] by linarith
  with False rationalMinimumDigits_eq [OF assms] show ?thesis
    by (simp add: boundedIntegerText_def rationalMinimumDigits_def Let_def)
qed

text \<open>The text is returned exactly when it fits; the estimate never refuses one that fits.\<close>

lemma boundedIntegerText_Inr:
  assumes "estimable v"
  shows "boundedIntegerText v = Inr t \<longleftrightarrow> t = showInt v \<and> int (length (showInt v)) \<le> MaxExactValueBytes"
proof -
  have "length (showInt 0) = 1" by (simp add: showInt_def showNat.simps [of 0])
  then show ?thesis
    using minDigits_le [of v] boundedIntegerText_min [OF assms]
    by (cases "v = 0") (auto simp: MaxExactValueBytes_def)
qed

lemma boundedIntegerText_Inl:
  assumes "estimable v" "boundedIntegerText v = Inl e"
  shows "\<exists>q > MaxExactValueBytes. e = ResourceError BudgetScalarBytes MaxExactValueBytes 0 q"
  using assms(2)
  by (auto simp: boundedIntegerText_min [OF assms(1)] checkThen_def split: if_splits option.splits)


section \<open>Fractions in lowest terms\<close>

definition ratVal :: "bigRat \<Rightarrow> rat" where
  "ratVal v = of_int (fst v) / of_int (snd v)"

definition lowest :: "bigRat \<Rightarrow> bool" where
  "lowest v \<longleftrightarrow> 0 < snd v \<and> coprime (fst v) (snd v)"

lemma ratNorm_lowest:
  assumes "d \<noteq> 0"
  shows "lowest (ratNorm n d)"
  using assms div_gcd_coprime [of n d] div_gcd_coprime [of "- n" "- d"]
  by (auto simp: ratNorm_def lowest_def Let_def pos_imp_zdiv_pos_iff zdvd_imp_le gcd_dvd2)

lemma ratNorm_val: "d \<noteq> 0 \<Longrightarrow> ratVal (ratNorm n d) = of_int n / of_int d"
proof -
  have red: "(of_int (a div gcd a b) :: rat) / of_int (b div gcd a b) = of_int a / of_int b"
    if "b \<noteq> 0" for a b :: int
  proof -
    have "(of_int a :: rat) = of_int (a div gcd a b) * of_int (gcd a b)"
      "(of_int b :: rat) = of_int (b div gcd a b) * of_int (gcd a b)"
      by (simp_all flip: of_int_mult)
    moreover have "(of_int (gcd a b) :: rat) \<noteq> 0" using that by simp
    ultimately show ?thesis by (metis mult_divide_mult_cancel_right)
  qed
  assume "d \<noteq> 0"
  then show ?thesis using red [of d n] red [of "- d" "- n"] by (auto simp: ratNorm_def ratVal_def Let_def)
qed

lemma ratNorm_pos: "0 < d \<Longrightarrow> ratNorm n d = (n div gcd n d, d div gcd n d)"
  by (simp add: ratNorm_def Let_def)

lemma ratNorm_id: "lowest v \<Longrightarrow> ratNorm (fst v) (snd v) = v"
  by (simp add: lowest_def ratNorm_pos coprime_iff_gcd_eq_1)

lemma abs_div_le:
  fixes n g :: int
  assumes "g dvd n" "0 < g"
  shows "\<bar>n div g\<bar> \<le> \<bar>n\<bar>"
proof -
  obtain k where "n = g * k" using assms(1) by blast
  with assms(2) show ?thesis by (simp add: abs_mult mult_le_cancel_right1)
qed

lemma ratNorm_shrinks:
  assumes "0 < d"
  shows "BitLen (fst (ratNorm n d)) \<le> BitLen n" "BitLen (snd (ratNorm n d)) \<le> BitLen d"
  using assms by (auto simp: ratNorm_pos intro!: BitLen_mono abs_div_le)

lemma ratVal_eq_iff:
  assumes "lowest a" "lowest b"
  shows "ratVal a = ratVal b \<longleftrightarrow> a = b"
proof
  assume "ratVal a = ratVal b"
  then have "(of_int (fst a * snd b) :: rat) = of_int (fst b * snd a)"
    using assms by (simp add: ratVal_def lowest_def frac_eq_eq)
  then have "fst a * snd b = fst b * snd a" by (simp only: of_int_eq_iff)
  moreover have "snd a dvd snd b" "snd b dvd snd a"
    using assms calculation by (metis lowest_def coprime_commute coprime_dvd_mult_right_iff dvd_triv_right)+
  then have "snd a = snd b" using assms by (simp add: lowest_def zdvd_antisym_nonneg)
  ultimately show "a = b" using assms by (auto simp: lowest_def prod_eq_iff)
qed simp

lemma ratCmp_val:
  assumes "0 < snd a" "0 < snd b"
  shows "ratCmp a b = cmp3 (ratVal a) (ratVal b)"
proof -
  have "ratVal a < ratVal b \<longleftrightarrow> (of_int (fst a * snd b) :: rat) < of_int (fst b * snd a)"
    "ratVal b < ratVal a \<longleftrightarrow> (of_int (fst b * snd a) :: rat) < of_int (fst a * snd b)"
    using assms by (simp_all add: ratVal_def divide_less_eq less_divide_eq field_simps)
  then show ?thesis by (simp only: of_int_less_iff) (simp add: ratCmp_def cmp3_def)
qed

section \<open>The decimal scale\<close>

lemma fivePowers_eq:
  "\<exists>m. fivePowers r (5 ^ 2 ^ k) = map (\<lambda>j. 5 ^ 2 ^ j) [k..<Suc (k + m)] \<and> r < 5 ^ 2 ^ Suc (k + m)"
proof (induction "r - 5 ^ 2 ^ k" arbitrary: k rule: less_induct)
  case less
  let ?p = "(5::nat) ^ 2 ^ k"
  have sq: "?p * ?p = 5 ^ 2 ^ Suc k" by (simp flip: power_add add: mult_2)
  have one: "1 < ?p" by (rule one_less_power) simp_all
  show ?case
  proof (cases "?p \<le> r \<and> ?p * ?p \<le> r")
    case True
    have "?p < ?p * ?p" using one by simp
    then have "r - 5 ^ 2 ^ Suc k < r - 5 ^ 2 ^ k" using True sq by linarith
    from less [OF this] obtain m where m: "fivePowers r (5 ^ 2 ^ Suc k) = map (\<lambda>j. 5 ^ 2 ^ j) [Suc k..<Suc (Suc k + m)]"
      "r < 5 ^ 2 ^ Suc (Suc k + m)" by blast
    have "fivePowers r ?p = ?p # fivePowers r (5 ^ 2 ^ Suc k)"
      using True one sq by (subst fivePowers.simps) (simp add: Let_def)
    also have "\<dots> = map (\<lambda>j. 5 ^ 2 ^ j) [k..<Suc (k + Suc m)]"
      unfolding m(1) by (subst upt_conv_Cons [of k]) simp_all
    finally show ?thesis using m(2) by (intro exI [of _ "Suc m"]) simp
  next
    case False
    have "?p \<le> ?p * ?p" by simp
    then have "r < ?p * ?p" using False by linarith
    then have "fivePowers r ?p = [?p]" by (subst fivePowers.simps) (simp add: Let_def)
    with \<open>r < ?p * ?p\<close> sq show ?thesis by (intro exI [of _ 0]) simp
  qed
qed

lemma coprime_5:
  assumes "\<not> 5 dvd (c::nat)"
  shows "coprime 5 c"
proof -
  have "c mod 5 \<noteq> 0" "c mod 5 < 5" using assms by (simp_all add: mod_eq_0_iff_dvd)
  then consider "c mod 5 = 1" | "c mod 5 = 2" | "c mod 5 = 3" | "c mod 5 = 4" by linarith
  then have "gcd (c mod 5) 5 = 1" by cases (simp_all add: gcd_non_0_nat)
  then show ?thesis by (simp add: coprime_iff_gcd_eq_1 gcd.commute gcd_non_0_nat)
qed

lemma five_dvd_power: "\<not> 5 dvd c \<Longrightarrow> (5::nat) ^ k dvd 5 ^ e * c \<longleftrightarrow> k \<le> e"
proof -
  assume c: "\<not> 5 dvd c"
  then have "coprime (5 ^ k) c" using coprime_5 [of c] by simp
  then show ?thesis by (simp add: coprime_dvd_mult_left_iff power_dvd_imp_le dvd_power_iff_le)
qed

lemma removeFives_eq:
  "\<not> 5 dvd c \<Longrightarrow> e < 2 ^ m \<Longrightarrow>
   removeFives (rev (map (\<lambda>j. 5 ^ 2 ^ j) [0..<m])) (5 ^ e * c) f = (c, f + e)"
proof (induction m arbitrary: e f)
  case (Suc m)
  show ?case
  proof (cases "2 ^ m \<le> e")
    case True
    then have "(5::nat) ^ e = 5 ^ 2 ^ m * 5 ^ (e - 2 ^ m)" by (simp flip: power_add)
    moreover have "e - 2 ^ m < 2 ^ m" using Suc.prems by simp
    ultimately show ?thesis using Suc True by simp
  next
    case False
    then have "\<not> 5 ^ 2 ^ m dvd 5 ^ e * c" using Suc.prems by (simp add: five_dvd_power)
    with Suc False show ?thesis by (simp add: mod_eq_0_iff_dvd)
  qed
qed simp

lemma trailingZeroBits_split: "0 < n \<Longrightarrow> \<exists>w. odd w \<and> n = 2 ^ trailingZeroBits n * w"
proof (induction n rule: trailingZeroBits.induct)
  case (1 n)
  show ?case
  proof (cases "odd n")
    case True
    then show ?thesis by (intro exI [of _ n]) (simp add: trailingZeroBits.simps [of n])
  next
    case False
    then have n: "n = 2 * (n div 2)" by simp
    then have "0 < n div 2" using 1(2) by linarith
    with 1 False obtain w where "odd w" "n div 2 = 2 ^ trailingZeroBits (n div 2) * w" by auto
    moreover note n
    ultimately show ?thesis using 1 False
      by (intro exI [of _ w]) (simp add: trailingZeroBits.simps [of n] mult.assoc)
  qed
qed

lemma power5_split: "0 < (n::nat) \<Longrightarrow> \<exists>e c. n = 5 ^ e * c \<and> \<not> 5 dvd c"
proof (induction n rule: less_induct)
  case (less n)
  show ?case
  proof (cases "5 dvd n")
    case True
    then obtain k where "n = 5 * k" by blast
    moreover from this less.prems have "k < n" "0 < k" by auto
    ultimately obtain e c where "k = 5 ^ e * c" "\<not> 5 dvd c" using less.IH by blast
    with \<open>n = 5 * k\<close> show ?thesis by (intro exI [of _ "Suc e"] exI [of _ c]) simp
  qed (intro exI [of _ 0] exI [of _ n], simp)
qed

lemma decimalScale_eq:
  assumes "0 < d"
  shows "\<exists>t e c. nat d = 2 ^ t * (5 ^ e * c) \<and> odd c \<and> \<not> 5 dvd c \<and>
    decimalScale d = (if c = 1 then (max t e, True) else (0, False))"
proof -
  obtain w where w: "odd w" "nat d = 2 ^ trailingZeroBits (nat d) * w"
    using trailingZeroBits_split [of "nat d"] assms by auto
  then have "0 < w" by (rule_tac ccontr) simp
  then obtain e c where ec: "w = 5 ^ e * c" "\<not> 5 dvd c" using power5_split by blast
  define t where "t = trailingZeroBits (nat d)"
  have rem: "nat d div 2 ^ t = w"
    using w(2) unfolding t_def by (metis nonzero_mult_div_cancel_left power_not_zero zero_neq_numeral)
  obtain m where m: "fivePowers w 5 = map (\<lambda>j. 5 ^ 2 ^ j) [0..<Suc m]" "w < 5 ^ 2 ^ Suc m"
    using fivePowers_eq [of w 0] by auto
  have "0 < c" using ec by (rule_tac ccontr) simp
  then have "5 ^ e \<le> w" using ec by simp
  with m(2) have "e < 2 ^ Suc m" using power_less_imp_less_exp [of "5::nat" e "2 ^ Suc m"] by linarith
  from removeFives_eq [OF ec(2) this, of 0] have rf: "removeFives (rev (fivePowers w 5)) w 0 = (c, e)"
    unfolding m(1) by (simp only: ec(1) [symmetric] add_0)
  have "w = 1 \<longleftrightarrow> c = 1 \<and> e = 0" using ec by auto
  then have "decimalScale d = (if c = 1 then (max t e, True) else (0, False))"
    using rf rem by (auto simp: decimalScale_def t_def [symmetric] Let_def max_def)
  moreover have "odd c" using w(1) ec by auto
  ultimately show ?thesis using w(2) ec t_def by blast
qed

lemma dvd_10_power:
  assumes "odd c" "\<not> 5 dvd c"
  shows "2 ^ t * (5 ^ e * c) dvd (10::nat) ^ s \<longleftrightarrow> c = 1 \<and> t \<le> s \<and> e \<le> s"
proof
  assume h: "2 ^ t * (5 ^ e * c) dvd (10::nat) ^ s"
  have "coprime c 2" "coprime c 5" using assms coprime_5 [of c] by (auto simp: coprime_commute)
  then have "coprime c (10 ^ s)"
    using coprime_mult_right_iff [of c 2 5] by simp
  moreover have "c dvd 10 ^ s" using h by (metis dvd_mult_right)
  ultimately have "c = 1" using coprime_common_divisor [of c "10 ^ s" c] by simp
  have "2 ^ t dvd (5::nat) ^ s * 2 ^ s" "5 ^ e dvd (2::nat) ^ s * 5 ^ s"
    using h by (metis dvd_mult_left dvd_mult_right pow10_5_2 mult.commute)+
  moreover have "coprime ((2::nat) ^ t) (5 ^ s)" "coprime ((5::nat) ^ e) (2 ^ s)" by simp_all
  ultimately have "(2::nat) ^ t dvd 2 ^ s" "(5::nat) ^ e dvd 5 ^ s"
    by (metis coprime_dvd_mult_right_iff)+
  then show "c = 1 \<and> t \<le> s \<and> e \<le> s" using \<open>c = 1\<close> by (auto dest: power_dvd_imp_le)
next
  assume "c = 1 \<and> t \<le> s \<and> e \<le> s"
  then show "2 ^ t * (5 ^ e * c) dvd (10::nat) ^ s"
    by (simp add: pow10_5_2 mult.commute mult_dvd_mono le_imp_power_dvd)
qed

lemma decimalScale_spec:
  assumes "0 < d"
  shows "snd (decimalScale d) \<longleftrightarrow> (\<exists>k. nat d dvd 10 ^ k)"
    and "snd (decimalScale d) \<Longrightarrow> nat d dvd 10 ^ k \<longleftrightarrow> fst (decimalScale d) \<le> k"
proof -
  obtain t e c where d: "nat d = 2 ^ t * (5 ^ e * c)" "odd c" "\<not> 5 dvd c"
    "decimalScale d = (if c = 1 then (max t e, True) else (0, False))"
    using decimalScale_eq [OF assms] by blast
  show "snd (decimalScale d) \<longleftrightarrow> (\<exists>k. nat d dvd 10 ^ k)"
    unfolding d(1,4) dvd_10_power [OF d(2,3)] by (auto intro: exI [of _ "max t e"])
  show "snd (decimalScale d) \<Longrightarrow> nat d dvd 10 ^ k \<longleftrightarrow> fst (decimalScale d) \<le> k"
    unfolding d(1,4) dvd_10_power [OF d(2,3)] by (auto split: if_splits)
qed


section \<open>Decimal text\<close>

definition padded :: "nat \<Rightarrow> nat \<Rightarrow> string" where
  "padded w k = replicate (w - length (showNat k)) (CHR ''0'') @ showNat k"

lemma showNat_length_le: "k < 10 ^ w \<Longrightarrow> 0 < w \<Longrightarrow> length (showNat k) \<le> w"
proof (cases "k = 0")
  case False
  assume k: "k < 10 ^ w"
  have "10 ^ (length (showNat k) - 1) \<le> k" using False by (intro showNat_bounds) simp
  with k have "(10::nat) ^ (length (showNat k) - 1) < 10 ^ w" by linarith
  then have "length (showNat k) - 1 < w" by (rule power_less_imp_less_exp [rotated]) simp
  then show ?thesis by simp
qed (simp add: showNat.simps [of 0])

lemma padded_props:
  assumes "k < 10 ^ w" "0 < w"
  shows "length (padded w k) = w" "decNat (padded w k) = k" "allDigits (padded w k)"
  using showNat_length_le [OF assms] showNat_digits [of k]
  by (auto simp: padded_def decNat_append decNat_showNat list_all_iff isDigit_def)

text \<open>The integer part \<open>q\<close> and the fractional digits \<open>k\<close> of a terminating fraction at scale \<open>s\<close>.\<close>

definition wholePart :: "bigRat \<Rightarrow> nat" where
  "wholePart v = nat \<bar>fst v\<bar> div nat (snd v)"

definition fracPart :: "bigRat \<Rightarrow> nat \<Rightarrow> nat" where
  "fracPart v s = nat \<bar>fst v\<bar> mod nat (snd v) * 10 ^ s div nat (snd v)"

lemma fracPart_exact:
  assumes "0 < snd v" "nat (snd v) dvd 10 ^ s"
  shows "fracPart v s * nat (snd v) = nat \<bar>fst v\<bar> mod nat (snd v) * 10 ^ s" "fracPart v s < 10 ^ s"
proof -
  let ?d = "nat (snd v)" and ?r = "nat \<bar>fst v\<bar> mod nat (snd v)"
  have "?d dvd ?r * 10 ^ s" using assms(2) by simp
  then show e: "fracPart v s * ?d = ?r * 10 ^ s" by (simp add: fracPart_def)
  have "?r < ?d" using assms(1) by simp
  then have "?r * 10 ^ s < ?d * 10 ^ s" by simp
  then have "fracPart v s * ?d < 10 ^ s * ?d" unfolding e by (simp only: mult.commute)
  then show "fracPart v s < 10 ^ s" by simp
qed

lemma FloatString_eq:
  assumes "lowest v" "nat (snd v) dvd 10 ^ s" "snd v \<noteq> 1"
  shows "FloatString v s =
    (if fst v < 0 then ''-'' else []) @ showNat (wholePart v) @ CHR ''.'' # padded s (fracPart v s)"
    and "0 < s"
proof -
  have d: "1 < snd v" using assms by (auto simp: lowest_def)
  show "0 < s" using assms(2) d by (cases s) auto
  moreover have "nat \<bar>fst v\<bar> mod nat (snd v) * 10 ^ s mod nat (snd v) = 0"
    using assms(2) by (simp add: mod_eq_0_iff_dvd)
  ultimately show "FloatString v s =
    (if fst v < 0 then ''-'' else []) @ showNat (wholePart v) @ CHR ''.'' # padded s (fracPart v s)"
    using d by (simp add: FloatString_def ratIsInt_def Let_def wholePart_def fracPart_def padded_def)
qed

lemma fracPart_last_nonzero:
  assumes "lowest v" "nat (snd v) dvd 10 ^ s" "\<not> nat (snd v) dvd 10 ^ (s - 1)" "0 < s"
  shows "fracPart v s mod 10 \<noteq> 0"
proof
  let ?d = "nat (snd v)" and ?n = "nat \<bar>fst v\<bar>"
  assume "fracPart v s mod 10 = 0"
  then obtain k where k: "fracPart v s = 10 * k" by (metis mod_eq_0_iff_dvd dvd_def)
  have "0 < snd v" using assms(1) by (simp add: lowest_def)
  from fracPart_exact(1) [OF this assms(2)] k
  have "10 * (k * ?d) = 10 * (?n mod ?d * 10 ^ (s - 1))" using assms(4) by (cases s) (simp_all add: ac_simps)
  then have "?d dvd ?n mod ?d * 10 ^ (s - 1)" by (metis mult_left_cancel zero_neq_numeral dvd_triv_right)
  moreover have "coprime ?n ?d" using assms(1) by (simp add: lowest_def flip: coprime_int_iff)
  then have "coprime ?d (?n mod ?d)"
    using \<open>0 < snd v\<close> by (simp add: coprime_commute coprime_mod_left_iff)
  ultimately have "?d dvd 10 ^ (s - 1)" by (metis coprime_dvd_mult_right_iff)
  with assms(3) show False by simp
qed

text \<open>Reading a decimal expansion back: an optional sign, digits, an optional point and digits.\<close>

definition readDecimal :: "string \<Rightarrow> rat" where
  "readDecimal s =
     (let neg = (s \<noteq> [] \<and> hd s = CHR ''-'');
          body = (if neg then tl s else s);
          whole = takeWhile (\<lambda>c. c \<noteq> CHR ''.'') body;
          frac = drop 1 (dropWhile (\<lambda>c. c \<noteq> CHR ''.'') body)
      in (if neg then -1 else 1) * of_nat (decNat (whole @ frac)) / 10 ^ length frac)"

lemma digits_no_point: "allDigits t \<Longrightarrow> c \<in> set t \<Longrightarrow> c \<noteq> CHR ''.'' \<and> c \<noteq> CHR ''-''"
  by (auto simp: list_all_iff isDigit_def)

lemma readDecimal_parts:
  assumes "allDigits w" "w \<noteq> []"
  shows "readDecimal ((if neg then ''-'' else []) @ w) = (if neg then -1 else 1) * of_nat (decNat w)"
    and "readDecimal ((if neg then ''-'' else []) @ w @ CHR ''.'' # f) =
           (if neg then -1 else 1) * of_nat (decNat (w @ f)) / 10 ^ length f"
proof -
  have nd: "\<forall>c \<in> set w. c \<noteq> CHR ''.''" "hd w \<noteq> CHR ''-''"
    using digits_no_point [OF assms(1)] assms(2) by auto
  then have t: "takeWhile (\<lambda>c. c \<noteq> CHR ''.'') w = w" "dropWhile (\<lambda>c. c \<noteq> CHR ''.'') w = []"
    "takeWhile (\<lambda>c. c \<noteq> CHR ''.'') (w @ CHR ''.'' # f) = w"
    "dropWhile (\<lambda>c. c \<noteq> CHR ''.'') (w @ CHR ''.'' # f) = CHR ''.'' # f"
    by (simp_all add: takeWhile_append2 dropWhile_append2)
  show "readDecimal ((if neg then ''-'' else []) @ w) = (if neg then -1 else 1) * of_nat (decNat w)"
    using nd(2) assms(2) by (simp add: readDecimal_def t)
  show "readDecimal ((if neg then ''-'' else []) @ w @ CHR ''.'' # f) =
           (if neg then -1 else 1) * of_nat (decNat (w @ f)) / 10 ^ length f"
    using nd(2) assms(2) by (simp add: readDecimal_def t)
qed

lemma lowest_int: "lowest v \<Longrightarrow> snd v = 1 \<Longrightarrow> ratVal v = of_int (fst v)"
  by (simp add: ratVal_def)

lemma FloatString_reads_back:
  assumes "lowest v" "nat (snd v) dvd 10 ^ s" "snd v = 1 \<Longrightarrow> s = 0"
  shows "readDecimal (FloatString v s) = ratVal v"
proof (cases "snd v = 1")
  case True
  have "FloatString v 0 = (if fst v < 0 then ''-'' else []) @ showNat (nat \<bar>fst v\<bar>)"
    using True by (simp add: FloatString_def ratIsInt_def showInt_def)
  then show ?thesis
    using assms(3) [OF True] readDecimal_parts(1) [OF showNat_digits showNat_not_Nil] True
    by (simp add: decNat_showNat ratVal_def)
next
  case False
  let ?d = "nat (snd v)" and ?n = "nat \<bar>fst v\<bar>"
  have pos: "0 < snd v" using assms(1) by (simp add: lowest_def)
  note F = FloatString_eq [OF assms(1,2) False]
  note k = fracPart_exact [OF pos assms(2)]
  have P: "length (padded s (fracPart v s)) = s" "decNat (padded s (fracPart v s)) = fracPart v s"
    using padded_props [OF k(2) F(2)] by auto
  have "(wholePart v * 10 ^ s + fracPart v s) * ?d = (wholePart v * ?d + ?n mod ?d) * 10 ^ s"
    by (simp add: algebra_simps k(1))
  also have "wholePart v * ?d + ?n mod ?d = ?n" by (simp add: wholePart_def)
  finally have "(of_nat (wholePart v * 10 ^ s + fracPart v s) :: rat) * of_nat ?d = of_nat ?n * 10 ^ s"
    by (metis of_nat_mult of_nat_numeral of_nat_power)
  then have "(of_nat (wholePart v * 10 ^ s + fracPart v s) :: rat) / 10 ^ s = of_nat ?n / of_nat ?d"
    using pos by (simp add: field_simps)
  moreover have "(of_nat ?d :: rat) = of_int (snd v)" using pos by simp
  moreover have "(if fst v < 0 then -1 else 1) * (of_nat ?n :: rat) = of_int (fst v)"
    by (simp add: abs_if)
  ultimately show ?thesis
    unfolding F(1) readDecimal_parts(2) [OF showNat_digits showNat_not_Nil] decNat_append decNat_showNat P ratVal_def
    by (metis times_divide_eq_right)
qed


section \<open>The constructors\<close>

lemma add_magnitudes:
  assumes "hostInt n" "hostInt d"
  shows "add64 (magnitudeBytes n) (magnitudeBytes d) = magnitudeBytes n + magnitudeBytes d"
  using assms magnitudeBytes_nonneg [OF assms(1)] magnitudeBytes_nonneg [OF assms(2)]
  by (intro add64_nonneg) (auto simp: magnitudeBytes_eq hostInt_def int64_limits)

lemma magnitude_cap_bits:
  assumes "hostInt n" "hostInt d" "magnitudeBytes n + magnitudeBytes d \<le> MaxExactValueBytes"
  shows "BitLen n \<le> 8388608" "BitLen d \<le> 8388608"
  using assms magnitudeBytes_nonneg [OF assms(1)] magnitudeBytes_nonneg [OF assms(2)]
    magnitude_bounds_bits [OF assms(1), of MaxExactValueBytes] magnitude_bounds_bits [OF assms(2), of MaxExactValueBytes]
  by (auto simp: MaxExactValueBytes_def)

lemma NewInteger_Inr:
  assumes "hostInt v"
  shows "NewInteger (Some v) = Inr w \<longleftrightarrow>
    magnitudeBytes v \<le> MaxExactValueBytes \<and> int (length (showInt v)) \<le> MaxExactValueBytes \<and>
    w = \<lparr> exValue = Some v, exText = showInt v, exBytes = magnitudeBytes v + int (length (showInt v)) \<rparr>"
proof (cases "magnitudeBytes v \<le> MaxExactValueBytes")
  case True
  then have "BitLen v \<le> 8388608"
    using magnitude_bounds_bits [OF assms, of MaxExactValueBytes] by (simp add: MaxExactValueBytes_def)
  then have e: "estimable v" by (simp add: estimable_def)
  have "add64 (magnitudeBytes v) (int (length (showInt v))) = magnitudeBytes v + int (length (showInt v))"
    if "int (length (showInt v)) \<le> MaxExactValueBytes"
    using that True magnitudeBytes_nonneg [OF assms]
    by (intro add64_nonneg) (auto simp: MaxExactValueBytes_def int64_limits)
  with True show ?thesis by (auto simp: NewInteger_def Let_def boundedIntegerText_Inr [OF e])
qed (auto simp: NewInteger_def Let_def)

lemma decimalScale_bound:
  assumes "0 < d"
  shows "int (fst (decimalScale d)) \<le> BitLen d"
proof -
  obtain t e c where d: "nat d = 2 ^ t * (5 ^ e * c)"
    "decimalScale d = (if c = 1 then (max t e, True) else (0, False))"
    using decimalScale_eq [OF assms] by blast
  have "0 < c" using d(1) assms by (cases c) auto
  have "(2::nat) ^ e \<le> 5 ^ e" by (rule power_mono) simp_all
  have "2 ^ t \<le> nat d" "5 ^ e \<le> nat d" unfolding d(1) using \<open>0 < c\<close> by simp_all
  have "2 ^ e \<le> nat d" by (rule order_trans [OF \<open>2 ^ e \<le> 5 ^ e\<close> \<open>5 ^ e \<le> nat d\<close>])
  with \<open>2 ^ t \<le> nat d\<close> have "2 ^ max t e \<le> nat d" by (cases "t \<le> e") (simp_all only: max_def if_True if_False)
  then have "\<not> nat d < 2 ^ max t e" by simp
  then have "max t e < bitLenNat (nat d)" by (simp only: bitLenNat_le_iff [symmetric] not_le)
  then show ?thesis using assms by (auto simp: BitLen_def d(2))
qed

lemma output_length:
  assumes "lowest v" "nat (snd v) dvd 10 ^ s" "snd v = 1 \<longleftrightarrow> s = 0"
  defines "ip \<equiv> sgn (fst v) * (\<bar>fst v\<bar> div snd v)"
  shows "int (length (FloatString v s)) =
    int (length (showInt ip)) + (if fst v < 0 \<and> ip = 0 then 1 else 0) + (if 0 < s then int s + 1 else 0)"
proof -
  have pos: "0 < snd v" using assms(1) by (simp add: lowest_def)
  have w: "int (wholePart v) = \<bar>fst v\<bar> div snd v" using pos by (simp add: wholePart_def zdiv_int)
  have ip: "length (showInt ip) = (if ip < 0 then 1 else 0) + length (showNat (wholePart v))"
    using w pos by (auto simp: showInt_def ip_def sgn_if mult_less_0_iff div_int_pos_iff wholePart_def simp flip: w)
  have neg: "fst v < 0 \<Longrightarrow> ip < 0 \<or> ip = 0" "\<not> fst v < 0 \<Longrightarrow> \<not> ip < 0"
    using pos pos_imp_zdiv_nonneg_iff [of "snd v" "- fst v"] pos_imp_zdiv_nonneg_iff [of "snd v" "fst v"]
    by (auto simp: ip_def sgn_if)
  show ?thesis
  proof (cases "s = 0")
    case True
    with assms(3) have "snd v = 1" by simp
    then show ?thesis using True by (auto simp: FloatString_def ratIsInt_def ip_def sgn_if)
  next
    case False
    with assms(3) have ne: "snd v \<noteq> 1" by simp
    note F = FloatString_eq [OF assms(1,2) ne]
    have "length (padded s (fracPart v s)) = s"
      using padded_props(1) [OF fracPart_exact(2) [OF pos assms(2)] F(2)] .
    then show ?thesis using False neg by (auto simp: F(1) ip)
  qed
qed

lemma scale_zero_iff:
  assumes "0 < d" "snd (decimalScale d)"
  shows "d = 1 \<longleftrightarrow> fst (decimalScale d) = 0"
  using decimalScale_spec(2) [OF assms, of 0] assms(1) by auto

lemma NewDecimal_Inr:
  assumes "0 < d" "hostInt n" "hostInt d"
  defines "v \<equiv> ratNorm n d"
  defines "s \<equiv> fst (decimalScale (snd v))"
  shows "NewDecimal (Some (n, d)) = Inr w \<longleftrightarrow>
    magnitudeBytes n + magnitudeBytes d \<le> MaxExactValueBytes \<and> snd (decimalScale (snd v)) \<and>
    int (length (FloatString v s)) \<le> MaxExactValueBytes \<and>
    w = \<lparr> exValue = Some v, exText = FloatString v s,
          exBytes = magnitudeBytes (fst v) + magnitudeBytes (snd v) + int (length (FloatString v s)) \<rparr>"
proof (cases "magnitudeBytes n + magnitudeBytes d \<le> MaxExactValueBytes \<and> snd (decimalScale (snd v))")
  case False
  then show ?thesis
    using assms(1) add_magnitudes [OF assms(2,3)]
    by (auto simp: NewDecimal_def v_def case_prod_beta)
next
  case True
  have low: "lowest v" using assms(1) by (simp add: v_def ratNorm_lowest)
  then have pos: "0 < snd v" by (simp add: lowest_def)
  define ip where "ip = sgn (fst v) * (\<bar>fst v\<bar> div snd v)"
  note bits = magnitude_cap_bits [OF assms(2,3) conjunct1 [OF True]]
  have vb: "BitLen (fst v) \<le> 8388608" "BitLen (snd v) \<le> 8388608"
    using ratNorm_shrinks [OF assms(1), of n] bits by (auto simp: v_def)
  have "\<bar>ip\<bar> \<le> \<bar>fst v\<bar>"
    using pos zdiv_mono2 [of "\<bar>fst v\<bar>" 1 "snd v"] by (auto simp: ip_def sgn_if abs_mult pos_imp_zdiv_nonneg_iff)
  from BitLen_mono [OF this] vb have e: "estimable ip" by (simp add: estimable_def)
  have host: "hostInt (fst v)" "hostInt (snd v)" using vb by (simp_all add: hostInt_def int64_limits)
  have sb: "int s \<le> 8388608" using decimalScale_bound [OF pos] vb by (simp add: s_def)
  have dvd: "nat (snd v) dvd 10 ^ s" using decimalScale_spec(2) [OF pos conjunct2 [OF True]] by (simp add: s_def)
  have s0: "snd v = 1 \<longleftrightarrow> s = 0" using scale_zero_iff [OF pos conjunct2 [OF True]] by (simp add: s_def)
  note len = output_length [OF low dvd s0, folded ip_def]
  have mag: "magnitudeBytes (fst v) \<le> MaxExactValueBytes" "magnitudeBytes (snd v) \<le> MaxExactValueBytes"
    "0 \<le> magnitudeBytes (fst v)" "0 \<le> magnitudeBytes (snd v)"
    using vb magnitude_bounds_bits [OF host(1), of MaxExactValueBytes]
      magnitude_bounds_bits [OF host(2), of MaxExactValueBytes] host
    by (simp_all add: MaxExactValueBytes_def magnitudeBytes_nonneg)
  have s2: "add64 (int s) 2 = int s + 2" "add64 (int s) 1 = int s + 1"
    using sb by (auto intro!: add64_nonneg simp: int64_limits)
  have out: "int (length (showInt ip)) \<le> MaxExactValueBytes \<Longrightarrow>
     (let outputBytes = int (length (showInt ip));
          outputBytes = (if fst v < 0 \<and> ip = 0 then add64 outputBytes 1 else outputBytes)
      in if s > 0 then add64 outputBytes (add64 (int s) 1) else outputBytes)
     = int (length (FloatString v s))"
    using sb by (auto simp: len s2 MaxExactValueBytes_def int64_limits i64_simps)
  have bytes: "int (length (FloatString v s)) \<le> MaxExactValueBytes \<Longrightarrow>
     add64 (add64 (magnitudeBytes (fst v)) (magnitudeBytes (snd v))) (int (length (FloatString v s)))
     = magnitudeBytes (fst v) + magnitudeBytes (snd v) + int (length (FloatString v s))"
    using mag by (auto simp: MaxExactValueBytes_def int64_limits i64_simps)
  have one: "1 \<le> length (showInt ip)" by (auto simp: showInt_def Suc_le_eq)
  have sf: "decimalScale (snd v) = (s, True)" using True by (simp add: s_def prod_eq_iff)
  have "NewDecimal (Some (n, d)) =
    checkThen (if s > 0 then checkExactSize (int s + 2) else None)
      (tryThen (boundedIntegerText ip) (\<lambda>integerText.
         checkThen (checkExactSize (int (length (FloatString v s))))
           (Inr \<lparr> exValue = Some v, exText = FloatString v s,
             exBytes = add64 (add64 (magnitudeBytes (fst v)) (magnitudeBytes (snd v)))
               (int (length (FloatString v s))) \<rparr>)))"
  proof -
    have c0: "checkExactSize (add64 (magnitudeBytes n) (magnitudeBytes d)) = None"
      using True add_magnitudes [OF assms(2,3)] by simp
    show ?thesis
    proof (cases "boundedIntegerText ip")
      case (Inl err)
      then show ?thesis
        using assms(1) by (simp add: NewDecimal_def c0 sf Let_def v_def [symmetric] ip_def [symmetric] s2)
    next
      case (Inr t)
      then have "t = showInt ip" "int (length (showInt ip)) \<le> MaxExactValueBytes"
        using boundedIntegerText_Inr [OF e] by auto
      then show ?thesis
        using assms(1) Inr out
        by (simp add: NewDecimal_def c0 sf Let_def v_def [symmetric] ip_def [symmetric] s2)
    qed
  qed
  then show ?thesis
    using True bytes len one by (auto simp: boundedIntegerText_Inr [OF e] split: if_splits)
qed


section \<open>Fraction text\<close>

definition ratText :: "bigRat \<Rightarrow> string" where
  "ratText v = showInt (fst v) @ (if snd v = 1 then [] else CHR ''/'' # showInt (snd v))"

lemma precheck_None:
  assumes "estimable (fst v)" "estimable (snd v)"
  shows "rationalTextPrecheck v = None \<longleftrightarrow>
    minDigits (fst v) + (if snd v = 1 then 0 else 1 + minDigits (snd v)) \<le> MaxExactValueBytes"
proof -
  have small: "minDigits x \<le> 30000000000 * 301029995 div 1000000000 + 2 \<and> 1 \<le> minDigits x"
    if "estimable x" for x
  proof (cases "x = 0")
    case False
    have b: "1 \<le> BitLen x" "BitLen x \<le> 30000000000"
      using False that BitLen_nonneg [of x] BitLen_eq_0 [of x] unfolding estimable_def by linarith+
    then have "(BitLen x - 1) * 301029995 \<le> 30000000000 * 301029995" by simp
    then have "(BitLen x - 1) * 301029995 div 1000000000 \<le> 30000000000 * 301029995 div 1000000000"
      by (rule zdiv_mono1) simp
    moreover have "0 \<le> (BitLen x - 1) * 301029995 div 1000000000" using b by simp
    ultimately show ?thesis by (simp add: minDigits_def)
  qed (simp add: minDigits_def)
  have "add64 1 (minDigits (snd v)) = 1 + minDigits (snd v)"
    using small [OF assms(2)] by (intro add64_nonneg) (auto simp: int64_limits)
  moreover have "add64 (minDigits (fst v)) (1 + minDigits (snd v)) = minDigits (fst v) + (1 + minDigits (snd v))"
    using small [OF assms(1)] small [OF assms(2)] by (intro add64_nonneg) (auto simp: int64_limits)
  ultimately show ?thesis
    by (simp add: rationalTextPrecheck_def ratIsInt_def rationalMinimumDigits_eq assms)
qed

lemma ratText_length:
  "int (length (ratText v)) =
     int (length (showInt (fst v))) + (if snd v = 1 then 0 else 1 + int (length (showInt (snd v))))"
  by (simp add: ratText_def)

lemma precheck_of_text:
  assumes "estimable (fst v)" "estimable (snd v)" "int (length (ratText v)) \<le> MaxExactValueBytes"
  shows "rationalTextPrecheck v = None"
  using assms(3) minDigits_le [of "fst v"] minDigits_le [of "snd v"]
  unfolding precheck_None [OF assms(1,2)] ratText_length by (auto split: if_splits)

text \<open>The rendering accepts exactly the fractions whose canonical text fits.\<close>

lemma boundedRationalText_Inr:
  assumes "estimable (fst v)" "estimable (snd v)"
  shows "boundedRationalText v = Inr t \<longleftrightarrow> t = ratText v \<and> int (length (ratText v)) \<le> MaxExactValueBytes"
proof -
  have "add64 (add64 (int a) 1) (int b) = int a + 1 + int b"
    if "int a \<le> MaxExactValueBytes" "int b \<le> MaxExactValueBytes" for a b
    using that by (simp add: MaxExactValueBytes_def int64_limits i64_simps)
  then show ?thesis
    using precheck_of_text [OF assms]
    by (auto simp: boundedRationalText_def ratIsInt_def boundedIntegerText_Inr assms ratText_def)
qed

lemma showNat_mono:
  assumes "m \<le> n"
  shows "length (showNat m) \<le> length (showNat n)"
proof (cases "m = 0")
  case True
  then show ?thesis by (simp add: showNat.simps [of 0] Suc_le_eq)
next
  case False
  then have "10 ^ (length (showNat m) - 1) \<le> m" "n < 10 ^ length (showNat n)"
    using showNat_bounds [of m] showNat_bounds [of n] assms by auto
  then have "(10::nat) ^ (length (showNat m) - 1) < 10 ^ length (showNat n)" using assms by linarith
  then have "length (showNat m) - 1 < length (showNat n)" by (rule power_less_imp_less_exp [rotated]) simp
  then show ?thesis by simp
qed

lemma showInt_mono: "\<bar>a\<bar> \<le> \<bar>b\<bar> \<Longrightarrow> a < 0 \<longrightarrow> b < 0 \<Longrightarrow> length (showInt a) \<le> length (showInt b)"
  using showNat_mono [of "nat \<bar>a\<bar>" "nat \<bar>b\<bar>"] by (auto simp: showInt_def nat_le_eq_zle)

lemma ratText_norm_shrinks:
  assumes "0 < d"
  shows "length (ratText (ratNorm n d)) \<le> length (ratText (n, d))"
proof -
  let ?g = "gcd n d"
  have g: "0 < ?g" using assms by (simp add: gcd_pos_int)
  have "length (showInt (n div ?g)) \<le> length (showInt n)"
    using g abs_div_le [of ?g n] by (intro showInt_mono) (auto simp: pos_imp_zdiv_neg_iff)
  moreover have "length (showInt (d div ?g)) \<le> length (showInt d)"
    using g assms abs_div_le [of ?g d] by (intro showInt_mono) (auto simp: pos_imp_zdiv_neg_iff)
  moreover have "d = 1 \<Longrightarrow> d div ?g = 1" by simp
  ultimately show ?thesis by (auto simp: ratNorm_pos [OF assms] ratText_def)
qed

lemma rationalCheckedAdd_eq:
  assumes "0 \<le> a" "0 \<le> b" "b \<le> MaxInt64"
  shows "rationalCheckedAdd kind a b =
    (if a + b \<le> MaxInt64 then Inr (a + b) else Inl (ResourceError kind MaxInt64 a b))"
proof -
  have "sub64 MaxInt64 b = MaxInt64 - b" using assms by (simp add: sub64_nonneg int64_limits)
  then show ?thesis using assms by (auto simp: rationalCheckedAdd_def add64_nonneg)
qed

lemma rationalCheckedMul_eq:
  assumes "0 \<le> a" "0 \<le> b"
  shows "rationalCheckedMul kind a b =
    (if a * b \<le> MaxInt64 then Inr (a * b) else Inl (ResourceError kind MaxInt64 a b))"
proof (cases "b = 0")
  case False
  then have b: "0 < b" using assms(2) by simp
  have "quo64 MaxInt64 b = MaxInt64 div b" using b by (intro quo64_nonneg) (simp_all add: int64_limits)
  moreover have "MaxInt64 div b < a \<longleftrightarrow> \<not> a * b \<le> MaxInt64"
    using le_div_iff_mult_le [OF b, of a MaxInt64] by linarith
  ultimately show ?thesis using assms False by (auto simp: rationalCheckedMul_def mul64_nonneg)
qed (use assms in \<open>simp add: rationalCheckedMul_def mul64_def in64_def int64_limits\<close>)

lemma rationalSumFrom_eq:
  "0 \<le> acc \<Longrightarrow> acc \<le> MaxInt64 \<Longrightarrow> \<forall>n \<in> set ns. 0 \<le> n \<and> n \<le> MaxInt64 \<Longrightarrow>
   rationalSumFrom kind acc ns = Inr t \<longleftrightarrow> t = acc + sum_list ns \<and> acc + sum_list ns \<le> MaxInt64"
proof (induction ns arbitrary: acc)
  case (Cons n ns)
  have "0 \<le> sum_list ns" using Cons.prems by (intro sum_list_nonneg) auto
  with Cons show ?case by (auto simp: rationalCheckedAdd_eq)
qed auto

lemma rationalSum_Inr:
  assumes "\<forall>n \<in> set ns. 0 \<le> n \<and> n \<le> MaxInt64"
  shows "rationalSum kind ns = Inr t \<longleftrightarrow> t = sum_list ns \<and> sum_list ns \<le> MaxInt64"
  using rationalSumFrom_eq [of 0 ns kind t] assms by (simp add: rationalSum_def int64_limits)

lemma rationalOwned_bytes:
  assumes "BitLen (fst v) \<le> 16777216" "BitLen (snd v) \<le> 16777216" "int (length t) \<le> MaxExactValueBytes"
  shows "exBytes (rationalOwned v t) = magnitudeBytes (fst v) + magnitudeBytes (snd v) + int (length t)"
proof -
  have h: "hostInt (fst v)" "hostInt (snd v)" using assms by (simp_all add: hostInt_def int64_limits)
  have "0 \<le> magnitudeBytes (fst v)" "0 \<le> magnitudeBytes (snd v)" "magnitudeBytes (fst v) \<le> 2097152"
    "magnitudeBytes (snd v) \<le> 2097152"
    using h assms by (simp_all add: magnitudeBytes_nonneg magnitude_bounds_bits)
  then show ?thesis using assms(3)
    by (simp add: rationalOwned_def add_magnitudes h MaxExactValueBytes_def int64_limits i64_simps)
qed

lemma NewRational_Inr:
  assumes "0 < d" "hostInt n" "hostInt d"
  defines "v \<equiv> ratNorm n d"
  shows "NewRational (Some (n, d)) = Inr w \<longleftrightarrow>
    magnitudeBytes n + magnitudeBytes d \<le> MaxExactValueBytes \<and> rationalTextPrecheck (n, d) = None \<and>
    int (length (ratText v)) \<le> MaxExactValueBytes \<and> w = rationalOwned v (ratText v)"
proof -
  have m: "0 \<le> magnitudeBytes n" "0 \<le> magnitudeBytes d" "magnitudeBytes n + magnitudeBytes d \<le> MaxInt64"
    using magnitudeBytes_nonneg [OF assms(2)] magnitudeBytes_nonneg [OF assms(3)] assms(2,3)
    by (simp_all add: magnitudeBytes_eq hostInt_def int64_limits)
  then have a: "rationalCheckedAdd BudgetScalarBytes (magnitudeBytes n) (magnitudeBytes d) =
     Inr (magnitudeBytes n + magnitudeBytes d)" by (simp add: rationalCheckedAdd_eq)
  show ?thesis
  proof (cases "magnitudeBytes n + magnitudeBytes d \<le> MaxExactValueBytes")
    case True
    from magnitude_cap_bits [OF assms(2,3) this] ratNorm_shrinks [OF assms(1), of n]
    have "estimable (fst v)" "estimable (snd v)" by (simp_all add: estimable_def v_def)
    with True assms(1) show ?thesis
      by (auto simp: NewRational_def a Let_def v_def [symmetric] boundedRationalText_Inr)
  qed (use assms(1) in \<open>auto simp: NewRational_def a\<close>)
qed


section \<open>Properties\<close>

text \<open>
  C19: the decimal scale found by dividing out squared powers of five is exact. A denominator divides
  some power of ten exactly when the search reports a finite scale, and the scale is then the least
  such exponent.
\<close>

theorem decimal_scale_minimal:
  assumes "0 < d"
  shows "(case decimalScale d of
      (s, True) \<Rightarrow> (\<forall>k. d dvd 10 ^ k \<longleftrightarrow> s \<le> k)
    | (s, False) \<Rightarrow> s = 0 \<and> (\<forall>k. \<not> d dvd 10 ^ k))"
proof -
  have dvd: "d dvd 10 ^ k \<longleftrightarrow> nat d dvd 10 ^ k" for k
    using assms by (simp add: nat_dvd_iff [of d] nat_power_eq)
  obtain t e c where c: "decimalScale d = (if c = (1::nat) then (max t e, True) else (0, False))"
    using decimalScale_eq [OF assms] by blast
  show ?thesis
    using decimalScale_spec [OF assms] unfolding dvd by (cases "c = 1") (auto simp: c)
qed

theorem decimal_scale_minimal_witness:
  "decimalScale 80 = (4, True) \<and> (\<forall>k. (80::int) dvd 10 ^ k \<longleftrightarrow> 4 \<le> k)"
proof -
  have "decimalScale 80 = (4, True)" by code_simp
  with decimal_scale_minimal [of 80] show ?thesis by simp
qed

lemma new_decimal_facts:
  assumes "0 < d" "hostInt n" "hostInt d"
  shows "(\<exists>w. NewDecimal (Some (n, d)) = Inr w) \<longleftrightarrow>
      magnitudeBytes n + magnitudeBytes d \<le> MaxExactValueBytes \<and> snd (decimalScale (snd (ratNorm n d))) \<and>
      int (length (FloatString (ratNorm n d) (fst (decimalScale (snd (ratNorm n d)))))) \<le> MaxExactValueBytes"
    and "NewDecimal (Some (n, d)) = Inr w \<Longrightarrow>
      \<exists>v. exValue w = Some v \<and> lowest v \<and> ratVal v = of_int n / of_int d \<and>
          readDecimal (exText w) = of_int n / of_int d \<and>
          (snd v \<noteq> 1 \<longrightarrow> last (exText w) \<noteq> CHR ''0'')"
proof -
  let ?v = "ratNorm n d"
  let ?s = "fst (decimalScale (snd ?v))"
  note new = NewDecimal_Inr [OF assms]
  show "(\<exists>w. NewDecimal (Some (n, d)) = Inr w) \<longleftrightarrow>
      magnitudeBytes n + magnitudeBytes d \<le> MaxExactValueBytes \<and> snd (decimalScale (snd ?v)) \<and>
      int (length (FloatString ?v ?s)) \<le> MaxExactValueBytes"
    by (auto simp: new)
  assume "NewDecimal (Some (n, d)) = Inr w"
  then have fin: "snd (decimalScale (snd ?v))" and w: "exValue w = Some ?v" "exText w = FloatString ?v ?s"
    by (auto simp: new)
  have low: "lowest ?v" and val: "ratVal ?v = of_int n / of_int d"
    using assms(1) by (simp_all add: ratNorm_lowest ratNorm_val)
  then have pos: "0 < snd ?v" by (simp add: lowest_def)
  have dvd: "nat (snd ?v) dvd 10 ^ k \<longleftrightarrow> ?s \<le> k" for k by (rule decimalScale_spec(2) [OF pos fin])
  have "last (FloatString ?v ?s) \<noteq> CHR ''0''" if ne: "snd ?v \<noteq> 1"
  proof -
    have sd: "nat (snd ?v) dvd 10 ^ ?s" by (simp add: dvd)
    note F = FloatString_eq [OF low sd ne]
    let ?k = "fracPart ?v ?s"
    have "?k mod 10 \<noteq> 0" using F(2) by (intro fracPart_last_nonzero [OF low sd]) (auto simp: dvd)
    moreover have "last (showNat ?k) = chr (48 + ?k mod 10)" by (subst showNat.simps) simp
    ultimately show ?thesis
      using digit_chr [of "?k mod 10"] digitVal_0 unfolding F(1) padded_def by (auto simp del: digitVal_0)
  qed
  with w low val FloatString_reads_back [OF low, of ?s] dvd [of ?s] scale_zero_iff [OF pos fin]
  show "\<exists>v. exValue w = Some v \<and> lowest v \<and> ratVal v = of_int n / of_int d \<and>
          readDecimal (exText w) = of_int n / of_int d \<and> (snd v \<noteq> 1 \<longrightarrow> last (exText w) \<noteq> CHR ''0'')"
    by auto
qed

text \<open>
  C26: NewDecimal accepts exactly the fractions with a positive denominator whose magnitude fits the cap,
  that terminate and whose expansion fits the cap, so neither the early scale check nor the digit estimate
  ever refuses a value that fits. The value is the same number in lowest terms, its text reads back as that
  number, has exactly the minimal scale of fractional digits, and no trailing zero.
\<close>

theorem new_decimal_exact:
  assumes "0 < d" "hostInt n" "hostInt d"
  shows "((\<exists>w. NewDecimal (Some (n, d)) = Inr w) \<longleftrightarrow>
      magnitudeBytes n + magnitudeBytes d \<le> MaxExactValueBytes \<and> snd (decimalScale (snd (ratNorm n d))) \<and>
      int (length (FloatString (ratNorm n d) (fst (decimalScale (snd (ratNorm n d)))))) \<le> MaxExactValueBytes) \<and>
    (\<forall>w. NewDecimal (Some (n, d)) = Inr w \<longrightarrow>
      (\<exists>v. exValue w = Some v \<and> lowest v \<and> ratVal v = of_int n / of_int d \<and>
          readDecimal (exText w) = of_int n / of_int d \<and>
          (snd v \<noteq> 1 \<longrightarrow> last (exText w) \<noteq> CHR ''0'')))"
  using new_decimal_facts [OF assms] by blast

definition sampleDecimal :: Decimal where
  "sampleDecimal = \<lparr> exValue = Some (-5, 4), exText = ''-1.25'', exBytes = 7 \<rparr>"

lemma sampleDecimal_new: "NewDecimal (Some (-15, 12)) = Inr sampleDecimal"
  by code_simp

theorem new_decimal_exact_witness:
  "NewDecimal (Some (-15, 12)) = Inr sampleDecimal \<and> readDecimal (exText sampleDecimal) = -15 / 12"
proof -
  have "hostInt (-15)" "hostInt 12" by code_simp+
  from new_decimal_exact [OF _ this] sampleDecimal_new
  have "readDecimal (exText sampleDecimal) = of_int (-15) / of_int 12" by fastforce
  then show ?thesis using sampleDecimal_new by simp
qed

text \<open>
  C37: NewRational accepts every fraction whose magnitude and raw fraction text fit the cap; what it
  returns is the same number in lowest terms with its canonical text, whatever common factor the
  input carried.
\<close>

theorem new_rational_exact:
  assumes "0 < d" "hostInt n" "hostInt d"
    and "magnitudeBytes n + magnitudeBytes d \<le> MaxExactValueBytes"
    and "int (length (ratText (n, d))) \<le> MaxExactValueBytes"
  shows "\<exists>w v. NewRational (Some (n, d)) = Inr w \<and> exValue w = Some v \<and> lowest v \<and>
    ratVal v = of_int n / of_int d \<and> exText w = ratText v \<and>
    exBytes w = magnitudeBytes (fst v) + magnitudeBytes (snd v) + int (length (ratText v))"
proof -
  let ?v = "ratNorm n d"
  note bits = magnitude_cap_bits [OF assms(2-4)]
  then have "rationalTextPrecheck (n, d) = None"
    using assms(5) by (intro precheck_of_text) (simp_all add: estimable_def)
  moreover have len: "int (length (ratText ?v)) \<le> MaxExactValueBytes"
    using ratText_norm_shrinks [OF assms(1), of n] assms(5) by simp
  ultimately have "NewRational (Some (n, d)) = Inr (rationalOwned ?v (ratText ?v))"
    using NewRational_Inr [OF assms(1-3)] assms(4) by simp
  moreover have "exBytes (rationalOwned ?v (ratText ?v)) =
      magnitudeBytes (fst ?v) + magnitudeBytes (snd ?v) + int (length (ratText ?v))"
    using bits ratNorm_shrinks [OF assms(1), of n] len by (intro rationalOwned_bytes) auto
  moreover have "lowest ?v" "ratVal ?v = of_int n / of_int d"
    using assms(1) by (simp_all add: ratNorm_lowest ratNorm_val)
  moreover have "exValue (rationalOwned ?v (ratText ?v)) = Some ?v" "exText (rationalOwned ?v (ratText ?v)) = ratText ?v"
    by (simp_all add: rationalOwned_def)
  ultimately show ?thesis by blast
qed

theorem new_rational_exact_witness:
  "\<exists>w v. NewRational (Some (-6, 4)) = Inr w \<and> exValue w = Some v \<and> lowest v \<and>
    ratVal v = of_int (-6) / of_int 4 \<and> exText w = ratText v \<and>
    exBytes w = magnitudeBytes (fst v) + magnitudeBytes (snd v) + int (length (ratText v))"
  by (rule new_rational_exact; code_simp)

lemma decimal_order_facts:
  assumes "NewDecimal (Some (n, d)) = Inr a" "NewDecimal (Some (n', d')) = Inr b"
  shows "Decimal_Cmp a b = Inr (cmp3 (of_int n / of_int d :: rat) (of_int n' / of_int d'))"
    and "Decimal_Equal a b \<longleftrightarrow> (of_int n / of_int d :: rat) = of_int n' / of_int d'"
    and "Decimal_Equal a b \<longleftrightarrow> a = b"
proof -
  define R where "R v = \<lparr> exValue = Some v, exText = FloatString v (fst (decimalScale (snd v))),
      exBytes = add64 (add64 (magnitudeBytes (fst v)) (magnitudeBytes (snd v)))
        (int (length (FloatString v (fst (decimalScale (snd v)))))) \<rparr>" for v
  have acc: "0 < p \<and> exValue w = Some (ratNorm m p) \<and> w = R (ratNorm m p)"
    if "NewDecimal (Some (m, p)) = Inr w" for m p w
    using that by (auto simp: NewDecimal_def R_def Let_def case_prod_beta split: if_splits)
  note A = acc [OF assms(1)] and B = acc [OF assms(2)]
  have low: "lowest (ratNorm n d)" "lowest (ratNorm n' d')" using A B by (simp_all add: ratNorm_lowest)
  have cmp: "ratCmp (ratNorm n d) (ratNorm n' d') = cmp3 (of_int n / of_int d :: rat) (of_int n' / of_int d')"
    using low A B by (subst ratCmp_val) (simp_all add: lowest_def ratNorm_val)
  then show "Decimal_Cmp a b = Inr (cmp3 (of_int n / of_int d :: rat) (of_int n' / of_int d'))"
    using A B by (simp add: Decimal_Cmp_def R_def)
  show eq: "Decimal_Equal a b \<longleftrightarrow> (of_int n / of_int d :: rat) = of_int n' / of_int d'"
    using A B cmp by (simp add: Decimal_Equal_def R_def)
  have "(of_int n / of_int d :: rat) = of_int n' / of_int d' \<longleftrightarrow> ratNorm n d = ratNorm n' d'"
    using ratVal_eq_iff [OF low] A B by (simp add: ratNorm_val)
  moreover have "a = b \<longleftrightarrow> ratNorm n d = ratNorm n' d'"
    using A B by (auto simp: R_def)
  ultimately show "Decimal_Equal a b \<longleftrightarrow> a = b" using eq by simp
qed

text \<open>
  C36: Cmp and Equal of two accepted decimals decide the order and equality of the numbers they denote,
  and equality of decimals is equality of the canonical representation.
\<close>

theorem decimal_order_exact:
  assumes "NewDecimal (Some (n, d)) = Inr a" "NewDecimal (Some (n', d')) = Inr b"
  shows "Decimal_Cmp a b = Inr (cmp3 (of_int n / of_int d :: rat) (of_int n' / of_int d')) \<and>
    (Decimal_Equal a b \<longleftrightarrow> (of_int n / of_int d :: rat) = of_int n' / of_int d') \<and>
    (Decimal_Equal a b \<longleftrightarrow> a = b)"
  using decimal_order_facts [OF assms] by blast

theorem decimal_order_exact_witness:
  "\<exists>b. NewDecimal (Some (5, 4)) = Inr b \<and> Decimal_Cmp sampleDecimal b = Inr (-1)"
proof -
  have "NewDecimal (Some (5, 4)) = Inr \<lparr> exValue = Some (5, 4), exText = ''1.25'', exBytes = 6 \<rparr>"
    by code_simp
  with decimal_order_exact [OF sampleDecimal_new this] show ?thesis by (auto simp: cmp3_def)
qed

end
