(* ===== verification/Rationals.thy ===== *)
theory Rationals
  imports Exact_Values
begin

text \<open>
  The exact-arithmetic service of \<open>validation/rational.go\<close> and the session operations it uses
  (\<open>step\<close>, \<open>retain\<close>, \<open>retainTransient\<close>, \<open>releaseTransient\<close> and \<open>transientScope\<close> of
  \<open>validation/session.go\<close>).

  A session is the part of the struct these functions touch: its account (\<open>None\<close> for a nil account;
  a nil session takes the same branch), the bytes it retains and the transient bytes.  A context is
  \<open>None\<close> for nil and otherwise gives the answer of each successive \<open>ctx.Err()\<close>: cancellation is
  asynchronous, so the answers are arbitrary, and the field \<open>sPolls\<close> counts the calls.  The slice
  capacities that \<open>rationalResult\<close> reads from \<open>math/big\<close> are a parameter \<open>caps\<close>.
\<close>

section \<open>The plan\<close>

datatype rationalOperation =
    rationalCopyOp | rationalAddOp | rationalSubOp | rationalMulOp | rationalQuoOp | rationalCmpOp
  | rationalOtherOp nat

record rationalWidths =
  wNum :: int
  wDen :: int

record rationalCost =
  cScalar :: int
  cScratch :: int
  cWork :: int

definition rationalWidthsOf :: "bigRat \<Rightarrow> rationalWidths" where
  "rationalWidthsOf v = \<lparr> wNum = BitLen (fst v), wDen = BitLen (snd v) \<rparr>"

definition rationalMagnitude :: "int \<Rightarrow> int" where
  "rationalMagnitude bits =
     (let n = quo64 bits 8 in if rem64 bits 8 \<noteq> 0 then add64 n 1 else n)"

definition rationalUnits :: "int \<Rightarrow> int \<Rightarrow> int" where
  "rationalUnits amount width =
     (let units = quo64 amount width in if rem64 amount width \<noteq> 0 then add64 units 1 else units)"

definition rationalUpperDigits :: "int \<Rightarrow> error + int" where
  "rationalUpperDigits bits =
     (if bits = 0 then Inr 1
      else tryThen (rationalCheckedMul BudgetScalarBytes bits 30103) (\<lambda>n.
           tryThen (rationalCheckedAdd BudgetScalarBytes n 99999) (\<lambda>n.
           Inr (quo64 n 100000))))"

text \<open>The \<open>switch\<close> of \<open>rationalPlan\<close>: the widths of the unreduced intermediates.\<close>

definition rationalPlanWidths :: "rationalOperation \<Rightarrow> rationalWidths \<Rightarrow> rationalWidths \<Rightarrow> error + int \<times> int" where
  "rationalPlanWidths op a b =
     (let crossed = (\<lambda>isCmp.
            tryThen (rationalCheckedAdd BudgetScalarBytes (wNum a) (wDen b)) (\<lambda>left.
            tryThen (rationalCheckedAdd BudgetScalarBytes (wNum b) (wDen a)) (\<lambda>right.
              let n = max left right in
              if isCmp then Inr (n, n)
              else tryThen (rationalCheckedAdd BudgetScalarBytes n 1) (\<lambda>n.
                   tryThen (rationalCheckedAdd BudgetScalarBytes (wDen a) (wDen b)) (\<lambda>d.
                   Inr (n, d))))))
      in case op of
           rationalCopyOp \<Rightarrow> Inr (wNum a, wDen a)
         | rationalAddOp \<Rightarrow> crossed False
         | rationalSubOp \<Rightarrow> crossed False
         | rationalCmpOp \<Rightarrow> crossed True
         | rationalMulOp \<Rightarrow>
             tryThen (rationalCheckedAdd BudgetScalarBytes (wNum a) (wNum b)) (\<lambda>n.
             tryThen (rationalCheckedAdd BudgetScalarBytes (wDen a) (wDen b)) (\<lambda>d. Inr (n, d)))
         | rationalQuoOp \<Rightarrow>
             if wNum b = 0 then Inl (rationalConfiguration ''division by zero'')
             else tryThen (rationalCheckedAdd BudgetScalarBytes (wNum a) (wDen b)) (\<lambda>n.
                  tryThen (rationalCheckedAdd BudgetScalarBytes (wDen a) (wNum b)) (\<lambda>d. Inr (n, d)))
         | rationalOtherOp _ \<Rightarrow> Inl (rationalConfiguration ''unknown arithmetic operation''))"

definition rationalPlan :: "rationalOperation \<Rightarrow> rationalWidths \<Rightarrow> rationalWidths \<Rightarrow> error + rationalCost" where
  "rationalPlan op a b =
     (if wNum a < 0 \<or> wDen a \<le> 0 \<or> wNum b < 0 \<or> wDen b < 0
      then Inl (rationalConfiguration ''invalid operand widths'')
      else if op \<noteq> rationalCopyOp \<and> wDen b = 0
      then Inl (rationalConfiguration ''invalid operand widths'')
      else
       tryThen (rationalPlanWidths op a b) (\<lambda>(n, d).
       tryThen (rationalSum BudgetScalarBytes [rationalMagnitude n, rationalMagnitude d]) (\<lambda>magnitude.
       checkThen (checkExactSize magnitude) (
       tryThen (rationalUpperDigits n) (\<lambda>nd.
       tryThen (rationalUpperDigits d) (\<lambda>dd.
       tryThen (if d > 1 then rationalSum BudgetScalarBytes [nd, dd, 2] else Inr (add64 nd 1)) (\<lambda>text.
       checkThen (checkExactSize text) (
       tryThen (rationalCheckedAdd BudgetScalarBytes magnitude text) (\<lambda>scalar.
       tryThen (rationalSum BudgetRuleSteps
                  [rationalUnits (wNum a) 32, rationalUnits (wDen a) 32,
                   rationalUnits (wNum b) 32, rationalUnits (wDen b) 32,
                   rationalUnits n 32, rationalUnits d 32, rationalUnits text 4, 1]) (\<lambda>totalUnits.
       tryThen (rationalCheckedMul BudgetRuleSteps totalUnits totalUnits) (\<lambda>work.
       tryThen (rationalCheckedMul BudgetRuleSteps work 4) (\<lambda>work.
       tryThen (rationalSum BudgetBufferedBytes
                  [rationalMagnitude (wNum a), rationalMagnitude (wDen a),
                   rationalMagnitude (wNum b), rationalMagnitude (wDen b), magnitude, text, 1]) (\<lambda>live.
       tryThen (rationalCheckedMul BudgetBufferedBytes live 64) (\<lambda>scratch.
       tryThen (rationalCheckedAdd BudgetBufferedBytes scratch 4096) (\<lambda>scratch.
       tryThen (allocationSize scratch) (\<lambda>_.
       Inr \<lparr> cScalar = scalar, cScratch = scratch, cWork = work \<rparr>))))))))))))))))"

section \<open>The session\<close>

record Session =
  sAccount :: "Account option"
  sRetained :: int
  sTransient :: int
  sPolls :: nat

type_synonym gocontext = "(nat \<Rightarrow> error option) option"

text \<open>A method of the account through the session's pointer; the zero account stands for nil.\<close>

definition accountCharge :: "BudgetKind \<Rightarrow> int \<Rightarrow> Session \<Rightarrow> error option \<times> Session" where
  "accountCharge kind amount s =
     (case sAccount s of
        None \<Rightarrow> (fst (Account_Charge zeroAccount kind amount), s)
      | Some a \<Rightarrow> (let (e, a') = Account_Charge a kind amount in (e, s\<lparr> sAccount := Some a' \<rparr>)))"

definition accountRelease :: "BudgetKind \<Rightarrow> int \<Rightarrow> Session \<Rightarrow> error option \<times> Session" where
  "accountRelease kind amount s =
     (case sAccount s of
        None \<Rightarrow> (fst (Account_Release zeroAccount kind amount), s)
      | Some a \<Rightarrow> (let (e, a') = Account_Release a kind amount in (e, s\<lparr> sAccount := Some a' \<rparr>)))"

definition accountCheck :: "BudgetKind \<Rightarrow> int \<Rightarrow> Session \<Rightarrow> error option" where
  "accountCheck kind amount s =
     Account_Check (case sAccount s of None \<Rightarrow> zeroAccount | Some a \<Rightarrow> a) kind amount"

definition ctxErr :: "(nat \<Rightarrow> error option) \<Rightarrow> Session \<Rightarrow> error option \<times> Session" where
  "ctxErr c s = (c (sPolls s), s\<lparr> sPolls := Suc (sPolls s) \<rparr>)"

definition Session_step :: "gocontext \<Rightarrow> int \<Rightarrow> Session \<Rightarrow> error option \<times> Session" where
  "Session_step ctx amount s =
     (case ctx of
        None \<Rightarrow> (Some (ConfigurationError ''context'' ''must not be nil''), s)
      | Some c \<Rightarrow>
          (case ctxErr c s of
             (Some e, s) \<Rightarrow> (Some e, s)
           | (None, s) \<Rightarrow> accountCharge BudgetRuleSteps amount s))"

definition Session_retain :: "int \<Rightarrow> Session \<Rightarrow> error option \<times> Session" where
  "Session_retain amount s =
     (case accountCharge BudgetBufferedBytes amount s of
        (Some e, s) \<Rightarrow> (Some e, s)
      | (None, s) \<Rightarrow> (None, s\<lparr> sRetained := add64 (sRetained s) amount \<rparr>))"

definition Session_retainTransient :: "int \<Rightarrow> Session \<Rightarrow> error option \<times> Session" where
  "Session_retainTransient amount s =
     (case accountCharge BudgetBufferedBytes amount s of
        (Some e, s) \<Rightarrow> (Some e, s)
      | (None, s) \<Rightarrow> (None, s\<lparr> sTransient := add64 (sTransient s) amount \<rparr>))"

definition Session_releaseTransient :: "int \<Rightarrow> Session \<Rightarrow> Session" where
  "Session_releaseTransient mark s =
     (let delta = sub64 (sTransient s) mark in
      if delta > 0 then (snd (accountRelease BudgetBufferedBytes delta s))\<lparr> sTransient := mark \<rparr> else s)"

definition Session_transientScope ::
    "(Session \<Rightarrow> error option \<times> Session) \<Rightarrow> Session \<Rightarrow> error option \<times> Session" where
  "Session_transientScope run s =
     (let mark = sTransient s; (err, s) = run s in (err, Session_releaseTransient mark s))"

section \<open>The arithmetic service\<close>

definition rationalPoll :: "gocontext \<Rightarrow> Session \<Rightarrow> error option \<times> Session" where
  "rationalPoll ctx s =
     (case ctx of
        None \<Rightarrow> (Some (rationalConfiguration ''nil context''), s)
      | Some c \<Rightarrow>
          (case ctxErr c s of
             (Some e, s) \<Rightarrow> (Some (IncompleteError ''exact-rational-arithmetic'' (Some e)), s)
           | (None, s) \<Rightarrow> (None, s)))"

fun firstError :: "error option list \<Rightarrow> error option" where
  "firstError [] = None"
| "firstError (Some e # es) = Some e"
| "firstError (None # es) = firstError es"

text \<open>On success \<open>rationalReserve\<close> returns the lent scratch, the amount its release closure returns.\<close>

definition rationalReserve ::
    "gocontext \<Rightarrow> rationalOperation \<Rightarrow> bigRat option \<Rightarrow> bigRat option \<Rightarrow> int \<Rightarrow> int \<Rightarrow> Session
      \<Rightarrow> (error + int) \<times> Session" where
  "rationalReserve ctx op a b aBytes bBytes s =
     (case rationalPoll ctx s of
        (Some e, s) \<Rightarrow> (Inl e, s)
      | (None, s) \<Rightarrow>
          if sAccount s = None then (Inl (rationalConfiguration ''uninitialized session account''), s)
          else case a of
            None \<Rightarrow> (Inl (rationalConfiguration ''uninitialized operand''), s)
          | Some av \<Rightarrow>
              if op \<noteq> rationalCopyOp \<and> b = None
              then (Inl (rationalConfiguration ''uninitialized operand''), s)
              else if op = rationalQuoOp \<and> (case b of Some bv \<Rightarrow> fst bv = 0 | None \<Rightarrow> False)
              then (Inl (rationalConfiguration ''division by zero''), s)
              else
                let aw = rationalWidthsOf av;
                    bw = (case b of None \<Rightarrow> \<lparr> wNum = 0, wDen = 0 \<rparr> | Some bv \<Rightarrow> rationalWidthsOf bv)
                in case rationalPlan op aw bw of
                     Inl e \<Rightarrow> (Inl e, s)
                   | Inr cost \<Rightarrow>
                       (case firstError (map (\<lambda>size. accountCheck BudgetScalarBytes size s)
                                          [aBytes, bBytes, cScalar cost]) of
                          Some e \<Rightarrow> (Inl e, s)
                        | None \<Rightarrow>
                            (case Session_step ctx (cWork cost) s of
                               (Some e, s) \<Rightarrow>
                                 (case ctx of
                                    None \<Rightarrow> (Inl e, s)
                                  | Some c \<Rightarrow>
                                      (case ctxErr c s of
                                         (Some _, s) \<Rightarrow>
                                           (Inl (IncompleteError ''exact-rational-arithmetic'' (Some e)), s)
                                       | (None, s) \<Rightarrow> (Inl e, s)))
                             | (None, s) \<Rightarrow>
                                 (case accountCharge BudgetBufferedBytes (cScratch cost) s of
                                    (Some e, s) \<Rightarrow> (Inl e, s)
                                  | (None, s) \<Rightarrow> (Inr (cScratch cost), s)))))"

definition rationalRelease :: "int \<Rightarrow> Session \<Rightarrow> Session" where
  "rationalRelease scratch s = snd (accountRelease BudgetBufferedBytes scratch s)"

definition rationalResult :: "int \<times> int \<Rightarrow> gocontext \<Rightarrow> bigRat \<Rightarrow> Session \<Rightarrow> (error + Rational) \<times> Session" where
  "rationalResult caps ctx v s =
     (case rationalPoll ctx s of
        (Some e, s) \<Rightarrow> (Inl e, s)
      | (None, s) \<Rightarrow>
          (case boundedRationalText v of
             Inl e \<Rightarrow> (Inl e, s)
           | Inr text \<Rightarrow>
               (case rationalPoll ctx s of
                  (Some e, s) \<Rightarrow> (Inl e, s)
                | (None, s) \<Rightarrow>
                    let result = rationalOwned v text in
                    (case accountCheck BudgetScalarBytes (exBytes result) s of
                       Some e \<Rightarrow> (Inl e, s)
                     | None \<Rightarrow>
                         (case tryThen (rationalSum BudgetBufferedBytes [fst caps, snd caps]) (\<lambda>capacity.
                                 tryThen (rationalCheckedMul BudgetBufferedBytes capacity 8) (\<lambda>capacity.
                                 tryThen (rationalSum BudgetBufferedBytes [capacity, int (length text), 128]) (\<lambda>retained.
                                 tryThen (allocationSize retained) (\<lambda>_. Inr retained)))) of
                            Inl e \<Rightarrow> (Inl e, s)
                          | Inr retained \<Rightarrow>
                              (case Session_retain retained s of
                                 (Some e, s) \<Rightarrow> (Inl e, s)
                               | (None, s) \<Rightarrow> (Inr result, s)))))))"

text \<open>\<open>release, err := reserve(...); defer release(); return body\<close>\<close>

definition deferRelease :: "(error + int) \<times> Session \<Rightarrow> (Session \<Rightarrow> (error + 'a) \<times> Session) \<Rightarrow> (error + 'a) \<times> Session" where
  "deferRelease reserved body =
     (case reserved of
        (Inl e, s) \<Rightarrow> (Inl e, s)
      | (Inr scratch, s) \<Rightarrow> (let (r, s) = body s in (r, rationalRelease scratch s)))"

text \<open>The operations of \<open>big.Rat\<close>.\<close>

definition ratAdd :: "bigRat \<Rightarrow> bigRat \<Rightarrow> bigRat" where
  "ratAdd a b = ratNorm (fst a * snd b + fst b * snd a) (snd a * snd b)"

definition ratSub :: "bigRat \<Rightarrow> bigRat \<Rightarrow> bigRat" where
  "ratSub a b = ratNorm (fst a * snd b - fst b * snd a) (snd a * snd b)"

definition ratMul :: "bigRat \<Rightarrow> bigRat \<Rightarrow> bigRat" where
  "ratMul a b = ratNorm (fst a * fst b) (snd a * snd b)"

definition ratQuo :: "bigRat \<Rightarrow> bigRat \<Rightarrow> bigRat" where
  "ratQuo a b = ratNorm (fst a * snd b) (snd a * fst b)"

definition rationalFromDecimal :: "int \<times> int \<Rightarrow> gocontext \<Rightarrow> Decimal \<Rightarrow> Session \<Rightarrow> (error + Rational) \<times> Session" where
  "rationalFromDecimal caps ctx value s =
     deferRelease (rationalReserve ctx rationalCopyOp (exValue value) None (exBytes value) 0 s)
       (rationalResult caps ctx (the (exValue value)))"

definition rationalQuoDecimals ::
    "int \<times> int \<Rightarrow> gocontext \<Rightarrow> Decimal \<Rightarrow> Decimal \<Rightarrow> Session \<Rightarrow> (error + Rational) \<times> Session" where
  "rationalQuoDecimals caps ctx a b s =
     deferRelease (rationalReserve ctx rationalQuoOp (exValue a) (exValue b) (exBytes a) (exBytes b) s)
       (rationalResult caps ctx (ratQuo (the (exValue a)) (the (exValue b))))"

definition rationalArithmetic ::
    "int \<times> int \<Rightarrow> gocontext \<Rightarrow> rationalOperation \<Rightarrow> Rational \<Rightarrow> Rational \<Rightarrow> Session
      \<Rightarrow> (error + Rational) \<times> Session" where
  "rationalArithmetic caps ctx op a b s =
     deferRelease (rationalReserve ctx op (exValue a) (exValue b) (exBytes a) (exBytes b) s)
       (let av = the (exValue a); bv = the (exValue b) in
        case op of
          rationalAddOp \<Rightarrow> rationalResult caps ctx (ratAdd av bv)
        | rationalSubOp \<Rightarrow> rationalResult caps ctx (ratSub av bv)
        | rationalMulOp \<Rightarrow> rationalResult caps ctx (ratMul av bv)
        | rationalQuoOp \<Rightarrow> rationalResult caps ctx (ratQuo av bv)
        | _ \<Rightarrow> (\<lambda>s. (Inl (rationalConfiguration ''unknown arithmetic operation''), s)))"

definition rationalAdd where "rationalAdd caps ctx a b = rationalArithmetic caps ctx rationalAddOp a b"
definition rationalSub where "rationalSub caps ctx a b = rationalArithmetic caps ctx rationalSubOp a b"
definition rationalMul where "rationalMul caps ctx a b = rationalArithmetic caps ctx rationalMulOp a b"
definition rationalQuo where "rationalQuo caps ctx a b = rationalArithmetic caps ctx rationalQuoOp a b"

definition rationalCmp :: "gocontext \<Rightarrow> Rational \<Rightarrow> Rational \<Rightarrow> Session \<Rightarrow> (error + int) \<times> Session" where
  "rationalCmp ctx a b s =
     deferRelease (rationalReserve ctx rationalCmpOp (exValue a) (exValue b) (exBytes a) (exBytes b) s)
       (\<lambda>s. let result = ratCmp (the (exValue a)) (the (exValue b)) in
            case rationalPoll ctx s of (Some e, s) \<Rightarrow> (Inl e, s) | (None, s) \<Rightarrow> (Inr result, s))"


section \<open>What the plan promises\<close>

text \<open>The unreduced widths and the text bound, over the integers.\<close>

definition planBits :: "rationalOperation \<Rightarrow> rationalWidths \<Rightarrow> rationalWidths \<Rightarrow> int \<times> int" where
  "planBits op a b =
     (let crossed = max (wNum a + wDen b) (wNum b + wDen a) in
      case op of
        rationalCopyOp \<Rightarrow> (wNum a, wDen a)
      | rationalAddOp \<Rightarrow> (crossed + 1, wDen a + wDen b)
      | rationalSubOp \<Rightarrow> (crossed + 1, wDen a + wDen b)
      | rationalCmpOp \<Rightarrow> (crossed, crossed)
      | rationalMulOp \<Rightarrow> (wNum a + wNum b, wDen a + wDen b)
      | _ \<Rightarrow> (wNum a + wDen b, wDen a + wNum b))"

definition upperDigits :: "int \<Rightarrow> int" where
  "upperDigits bits = (if bits = 0 then 1 else (bits * 30103 + 99999) div 100000)"

definition planText :: "int \<Rightarrow> int \<Rightarrow> int" where
  "planText n d = upperDigits n + (if d > 1 then upperDigits d + 2 else 1)"

definition widths_ok :: "rationalWidths \<Rightarrow> bool" where
  "widths_ok w \<longleftrightarrow> 0 \<le> wNum w \<and> wNum w \<le> MaxInt64 \<and> 0 \<le> wDen w \<and> wDen w \<le> MaxInt64"

lemma rationalMagnitude_eq:
  assumes "0 \<le> b" "b \<le> MaxInt64"
  shows "rationalMagnitude b = (b + 7) div 8"
proof -
  have "b div 8 + 1 \<le> MaxInt64" using assms by (simp add: int64_limits)
  then have "add64 (b div 8) 1 = b div 8 + 1" using assms by (simp add: i64_simps)
  moreover have "(b + 7) div 8 = (if b mod 8 = 0 then b div 8 else b div 8 + 1)"
  proof -
    define k r where "k = b div 8" and "r = b mod 8"
    have b: "b = 8 * k + r" "0 \<le> r" "r < 8" by (simp_all add: k_def r_def)
    have "(b + 7) div 8 = k + (r + 7) div 8" using div_mult_self4 [of 8 k "r + 7"] b(1) by (simp add: add.assoc)
    moreover have "(r + 7) div 8 = (if r = 0 then 0 else 1)" using b(2,3) by auto
    ultimately show ?thesis by (simp add: k_def r_def)
  qed
  ultimately show ?thesis using assms by (simp add: rationalMagnitude_def Let_def i64_simps)
qed

lemma rationalUnits_range:
  assumes "0 \<le> a" "a \<le> MaxInt64" "1 < w"
  shows "0 \<le> rationalUnits a w \<and> rationalUnits a w \<le> MaxInt64"
proof -
  have d: "0 \<le> a div w" using assms by (simp add: pos_imp_zdiv_nonneg_iff)
  have "a div w \<le> a div 2" using assms by (intro zdiv_mono2) auto
  then have "a div w + 1 \<le> MaxInt64" using assms by (simp add: int64_limits)
  then show ?thesis using assms d by (auto simp: rationalUnits_def Let_def i64_simps)
qed

lemma rationalUpperDigits_eq:
  assumes "0 \<le> b" "b \<le> 8388608"
  shows "rationalUpperDigits b = Inr (upperDigits b)" "1 \<le> upperDigits b" "upperDigits b \<le> 3000000"
proof -
  have "b * 30103 + 99999 \<le> MaxInt64" using assms by (simp add: int64_limits)
  then show "rationalUpperDigits b = Inr (upperDigits b)"
    using assms by (simp add: rationalUpperDigits_def upperDigits_def rationalCheckedMul_eq
        rationalCheckedAdd_eq quo64_nonneg int64_limits)
  show "1 \<le> upperDigits b" "upperDigits b \<le> 3000000" using assms by (auto simp: upperDigits_def)
qed

lemma planWidths_Inr:
  assumes "widths_ok a" "widths_ok b" "rationalPlanWidths op a b = Inr (n, d)"
  shows "(n, d) = planBits op a b \<and> 0 \<le> n \<and> n \<le> MaxInt64 \<and> 0 \<le> d \<and> d \<le> MaxInt64 \<and>
         (op = rationalQuoOp \<longrightarrow> wNum b \<noteq> 0)"
  using assms
  by (cases op) (auto simp: rationalPlanWidths_def planBits_def widths_ok_def rationalCheckedAdd_eq
      int64_limits max_def Let_def split: if_splits)

text \<open>The guarded sums and products of the plan, one elimination step each.\<close>

lemma rationalPlan_parts:
  assumes "rationalPlan op a b = Inr cost" "rationalPlanWidths op a b = Inr (n, d)"
    and "\<And>k. rationalSum BudgetScalarBytes [rationalMagnitude n, rationalMagnitude d] = Inr k \<longleftrightarrow> k = m \<and> P"
    and "rationalUpperDigits n = Inr nd" "rationalUpperDigits d = Inr dd"
    and "\<And>k. (if d > 1 then rationalSum BudgetScalarBytes [nd, dd, 2] else Inr (add64 nd 1)) = Inr k \<longleftrightarrow> k = t"
    and "rationalCheckedAdd BudgetScalarBytes m t = Inr c"
  shows "t \<le> MaxExactValueBytes \<and> cScalar cost = c \<and>
    (\<exists>x. rationalCheckedMul BudgetRuleSteps x 4 = Inr (cWork cost)) \<and>
    (\<exists>y. rationalCheckedAdd BudgetBufferedBytes y 4096 = Inr (cScratch cost))"
proof -
  have valid: "\<not> (wNum a < 0 \<or> wDen a \<le> 0 \<or> wNum b < 0 \<or> wDen b < 0)" "\<not> (op \<noteq> rationalCopyOp \<and> wDen b = 0)"
    using assms(1) by (auto simp: rationalPlan_def split: if_splits)
  note plan = assms(1) [unfolded rationalPlan_def if_not_P [OF valid(1)] if_not_P [OF valid(2)]
      tryThen_Inr_iff checkThen_Inr_iff assms(2,4,5,6)]
  from plan show ?thesis
    by (elim exE conjE) (auto simp: assms(3-7))
qed

lemma rationalPlan_Inr:
  assumes "widths_ok a" "widths_ok b" "rationalPlan op a b = Inr cost" "planBits op a b = (n, d)"
  shows "0 \<le> n" "0 \<le> d" "(n + 7) div 8 + (d + 7) div 8 \<le> MaxExactValueBytes"
    "planText n d \<le> MaxExactValueBytes"
    "cScalar cost = (n + 7) div 8 + (d + 7) div 8 + planText n d"
    "0 \<le> cScratch cost" "cScratch cost \<le> MaxInt64" "0 \<le> cWork cost" "cWork cost \<le> MaxInt64"
proof -
  obtain m where w: "rationalPlanWidths op a b = Inr m"
    using assms(3) by (auto simp: rationalPlan_def split: if_splits)
  then have "m = (n, d)" using planWidths_Inr [OF assms(1,2), of op "fst m" "snd m"] assms(4) by auto
  with w have w: "rationalPlanWidths op a b = Inr (n, d)" by simp
  from planWidths_Inr [OF assms(1,2) w]
  have r: "0 \<le> n" "n \<le> MaxInt64" "0 \<le> d" "d \<le> MaxInt64" by auto
  then show "0 \<le> n" "0 \<le> d" by auto
  have mag: "rationalMagnitude n = (n + 7) div 8" "rationalMagnitude d = (d + 7) div 8"
    "0 \<le> rationalMagnitude n" "rationalMagnitude n \<le> MaxInt64" "0 \<le> rationalMagnitude d" "rationalMagnitude d \<le> MaxInt64"
    using r by (auto simp: rationalMagnitude_eq int64_limits)
  have s: "rationalSum BudgetScalarBytes [rationalMagnitude n, rationalMagnitude d] = Inr k \<longleftrightarrow>
      k = (n + 7) div 8 + (d + 7) div 8 \<and> (n + 7) div 8 + (d + 7) div 8 \<le> MaxInt64" for k
    using mag(3-6) by (subst rationalSum_Inr) (auto simp: mag(1,2))
  show le: "(n + 7) div 8 + (d + 7) div 8 \<le> MaxExactValueBytes"
    using assms(3) by (auto simp: rationalPlan_def w s split: if_splits)
  then have bits: "n \<le> 8388608" "d \<le> 8388608" using r by (auto simp: MaxExactValueBytes_def)
  note up = rationalUpperDigits_eq [OF r(1) bits(1)] rationalUpperDigits_eq [OF r(3) bits(2)]
  have tx: "(if d > 1 then rationalSum BudgetScalarBytes [upperDigits n, upperDigits d, 2]
        else Inr (add64 (upperDigits n) 1)) = Inr k \<longleftrightarrow> k = planText n d" for k
  proof (cases "d > 1")
    case True
    have "rationalSum BudgetScalarBytes [upperDigits n, upperDigits d, 2] = Inr k \<longleftrightarrow> k = planText n d"
      using up True by (subst rationalSum_Inr) (auto simp: planText_def int64_limits)
    with True show ?thesis by simp
  next
    case False
    then show ?thesis using up by (auto simp: planText_def int64_limits i64_simps)
  qed
  have tr: "0 \<le> planText n d" "planText n d \<le> 6000002" using up by (auto simp: planText_def)
  have sc: "rationalCheckedAdd BudgetScalarBytes ((n + 7) div 8 + (d + 7) div 8) (planText n d) =
      Inr ((n + 7) div 8 + (d + 7) div 8 + planText n d)"
    using le tr r by (subst rationalCheckedAdd_eq) (auto simp: MaxExactValueBytes_def int64_limits)
  have "planText n d \<le> MaxExactValueBytes \<and>
    cScalar cost = (n + 7) div 8 + (d + 7) div 8 + planText n d \<and>
    (\<exists>x. rationalCheckedMul BudgetRuleSteps x 4 = Inr (cWork cost)) \<and>
    (\<exists>y. rationalCheckedAdd BudgetBufferedBytes y 4096 = Inr (cScratch cost))"
    using assms(3) by (rule rationalPlan_parts [OF _ w s up(1) up(4) tx sc])
  then obtain x y where c: "rationalCheckedMul BudgetRuleSteps x 4 = Inr (cWork cost)"
      "rationalCheckedAdd BudgetBufferedBytes y 4096 = Inr (cScratch cost)"
    and "planText n d \<le> MaxExactValueBytes" "cScalar cost = (n + 7) div 8 + (d + 7) div 8 + planText n d"
    by blast
  then show "planText n d \<le> MaxExactValueBytes"
    "cScalar cost = (n + 7) div 8 + (d + 7) div 8 + planText n d" by auto
  have x: "0 \<le> x" "0 \<le> y" using c by (auto simp: rationalCheckedMul_def rationalCheckedAdd_def split: if_splits)
  with c show "0 \<le> cScratch cost" "cScratch cost \<le> MaxInt64" "0 \<le> cWork cost" "cWork cost \<le> MaxInt64"
    by (auto simp: rationalCheckedMul_eq rationalCheckedAdd_eq int64_limits split: if_splits)
qed

section \<open>The values of the operations\<close>

fun resultOf :: "rationalOperation \<Rightarrow> bigRat \<Rightarrow> bigRat \<Rightarrow> bigRat" where
  "resultOf rationalAddOp a b = ratAdd a b"
| "resultOf rationalSubOp a b = ratSub a b"
| "resultOf rationalMulOp a b = ratMul a b"
| "resultOf rationalQuoOp a b = ratQuo a b"
| "resultOf _ a b = a"

fun exactOp :: "rationalOperation \<Rightarrow> rat \<Rightarrow> rat \<Rightarrow> rat" where
  "exactOp rationalAddOp x y = x + y"
| "exactOp rationalSubOp x y = x - y"
| "exactOp rationalMulOp x y = x * y"
| "exactOp rationalQuoOp x y = x / y"
| "exactOp _ x y = x"

lemma resultOf_exact:
  assumes "lowest a" "lowest b" "op = rationalQuoOp \<Longrightarrow> fst b \<noteq> 0"
  shows "ratVal (resultOf op a b) = exactOp op (ratVal a) (ratVal b)" "lowest (resultOf op a b)"
proof -
  have p: "0 < snd a" "0 < snd b" using assms by (auto simp: lowest_def)
  then show "lowest (resultOf op a b)"
    using assms by (cases op) (auto simp: ratAdd_def ratSub_def ratMul_def ratQuo_def intro!: ratNorm_lowest)
  show "ratVal (resultOf op a b) = exactOp op (ratVal a) (ratVal b)"
    using p assms(3)
    by (cases op) (simp_all add: ratAdd_def ratSub_def ratMul_def ratQuo_def ratNorm_val, simp_all add: ratVal_def field_simps)
qed

lemma ratNorm_bits:
  assumes "d \<noteq> 0"
  shows "BitLen (fst (ratNorm n d)) \<le> BitLen n" "BitLen (snd (ratNorm n d)) \<le> BitLen d"
proof -
  have neg: "BitLen (- x) = BitLen x" for x by (simp add: BitLen_def)
  have "ratNorm n d = ratNorm (- n) (- d)" if "d < 0" using that by (auto simp: ratNorm_def)
  then show "BitLen (fst (ratNorm n d)) \<le> BitLen n" "BitLen (snd (ratNorm n d)) \<le> BitLen d"
    using ratNorm_shrinks [of d n] ratNorm_shrinks [of "- d" "- n"] assms neg [of n] neg [of d]
    by (cases "0 < d"; auto)+
qed

lemma resultOf_bits:
  assumes "lowest a" "lowest b" "op = rationalQuoOp \<Longrightarrow> fst b \<noteq> 0"
    and "op \<in> {rationalCopyOp, rationalAddOp, rationalSubOp, rationalMulOp, rationalQuoOp}"
    and "planBits op (rationalWidthsOf a) (rationalWidthsOf b) = (n, d)"
  shows "BitLen (fst (resultOf op a b)) \<le> n" "BitLen (snd (resultOf op a b)) \<le> d"
proof -
  have p: "snd a \<noteq> 0" "snd b \<noteq> 0" using assms by (auto simp: lowest_def)
  have sum: "BitLen (fst a * snd b + x) \<le> max (BitLen (fst a) + BitLen (snd b)) (BitLen (fst b) + BitLen (snd a)) + 1"
    if "BitLen x \<le> BitLen (fst b) + BitLen (snd a)" for x
    using BitLen_add [of "fst a * snd b" x] BitLen_mult [of "fst a" "snd b"] that by linarith
  have neg: "BitLen (- (fst b * snd a)) \<le> BitLen (fst b) + BitLen (snd a)"
    using BitLen_mult [of "fst b" "snd a"] by (simp add: BitLen_def)
  have num: "BitLen (fst (ratNorm x y)) \<le> k" if "y \<noteq> 0" "BitLen x \<le> k" for x y k
    using ratNorm_bits(1) [OF that(1), of x] that(2) by simp
  have den: "BitLen (snd (ratNorm x (y * z))) \<le> BitLen y + BitLen z" if "y * z \<noteq> 0" for x y z
    using ratNorm_bits(2) [OF that, of x] BitLen_mult [of y z] by simp
  note defs = planBits_def rationalWidthsOf_def ratAdd_def ratSub_def ratMul_def ratQuo_def
  show "BitLen (fst (resultOf op a b)) \<le> n"
    using assms(3,4,5) p sum [OF BitLen_mult] sum [OF neg]
    by (auto simp: defs Let_def BitLen_mult intro!: num)
  show "BitLen (snd (resultOf op a b)) \<le> d"
    using assms(3,4,5) p by (auto simp: defs Let_def intro!: den)
qed

lemma showInt_upper:
  assumes "BitLen v \<le> b" "0 \<le> b"
  shows "int (length (showInt v)) \<le> upperDigits b + (if v < 0 then 1 else 0)"
proof (cases "v = 0")
  case True
  then show ?thesis using assms by (auto simp: showInt_def showNat.simps [of 0] upperDigits_def)
next
  case False
  then have "0 < BitLen v" using BitLen_nonneg [of v] BitLen_eq_0 [of v] by linarith
  then have b: "0 < b" using assms by simp
  let ?u = "nat (upperDigits b)"
  have "nat \<bar>v\<bar> < 2 ^ nat b"
    using assms BitLen_le_nat [OF assms(2), of v] by (simp add: nat_less_iff)
  moreover have "nat b * 30103 \<le> ?u * 100000"
  proof -
    have "b * 30103 \<le> upperDigits b * 100000" using b by (simp add: upperDigits_def)
    then have "int (nat b * 30103) \<le> int (?u * 100000)" using b by simp
    then show ?thesis by (simp only: of_nat_le_iff)
  qed
  ultimately have "length (showNat (nat \<bar>v\<bar>)) \<le> ?u" using False by (intro digits_at_most) auto
  moreover have "0 \<le> upperDigits b" using b by (simp add: upperDigits_def)
  ultimately show ?thesis by (auto simp: showInt_def)
qed

lemma upperDigits_pos: "0 \<le> b \<Longrightarrow> 1 \<le> upperDigits b"
  by (auto simp: upperDigits_def)

lemma ratText_upper:
  assumes "lowest v" "BitLen (fst v) \<le> n" "BitLen (snd v) \<le> d" "0 \<le> n" "0 \<le> d"
  shows "int (length (ratText v)) \<le> planText n d"
proof -
  have p: "0 < snd v" using assms(1) by (simp add: lowest_def)
  have "snd v = 1" if "d \<le> 1"
  proof -
    have "BitLen (snd v) \<le> 1" using that assms by simp
    then have "\<bar>snd v\<bar> < 2" using BitLen_le_nat [of 1 "snd v"] by simp
    with p show ?thesis by simp
  qed
  moreover have "int (length (showInt (fst v))) \<le> upperDigits n + 1"
    using showInt_upper [OF assms(2,4)] by (auto split: if_splits)
  moreover have "int (length (showInt (snd v))) \<le> upperDigits d"
    using showInt_upper [OF assms(3,5)] p by (auto split: if_splits)
  ultimately show ?thesis using upperDigits_pos [OF assms(5)]
    unfolding ratText_length planText_def by (cases "d > 1") auto
qed


section \<open>Borrowed storage\<close>

definition liveBytes :: "Session \<Rightarrow> int" where
  "liveBytes s = (case sAccount s of None \<Rightarrow> 0 | Some a \<Rightarrow> usage a ! 2)"

definition session_ok :: "Session \<Rightarrow> bool" where
  "session_ok s \<longleftrightarrow> (case sAccount s of None \<Rightarrow> False | Some a \<Rightarrow> account_inv a)"

definition session_inv :: "Session \<Rightarrow> bool" where
  "session_inv s \<longleftrightarrow> session_ok s \<and> 0 \<le> sRetained s \<and> 0 \<le> sTransient s \<and>
     sRetained s + sTransient s \<le> liveBytes s"

lemma session_okE:
  assumes "session_ok s"
  obtains a where "sAccount s = Some a" "account_inv a"
  using assms by (auto simp: session_ok_def split: option.splits)

lemma liveBytes_max: "session_ok s \<Longrightarrow> 0 \<le> liveBytes s \<and> liveBytes s \<le> MaxInt64"
proof -
  assume "session_ok s"
  then obtain a where a: "sAccount s = Some a" "account_inv a" by (rule session_okE)
  have "0 \<le> usage a ! 2" "usage a ! 2 \<le> fst (Account_limit a 2)" using a(2) by (simp_all add: account_inv_def)
  with Account_limit_range [OF account_inv_ranges [OF a(2)], of 2] a(1) show ?thesis
    by (simp add: liveBytes_def)
qed

text \<open>The session inherits the live-gauge contract of its account.\<close>

interpretation scratch: live_gauge
  "\<lambda>s n. accountCharge BudgetBufferedBytes n s" "\<lambda>s n. accountRelease BudgetBufferedBytes n s"
  liveBytes session_ok
proof
  fix s t :: Session and n :: int and e
  { assume h: "session_ok s" "accountCharge BudgetBufferedBytes n s = (None, t)"
    from h(1) obtain a where a: "sAccount s = Some a" "account_inv a" by (rule session_okE)
    obtain a' where c: "Account_Charge a BudgetBufferedBytes n = (None, a')" "t = s\<lparr> sAccount := Some a' \<rparr>"
      using h(2) a by (auto simp: accountCharge_def split: prod.splits)
    from buffered.charge_ok [OF a(2) c(1)] a c
    show "session_ok t \<and> 0 \<le> n \<and> liveBytes t = liveBytes s + n" by (simp add: session_ok_def liveBytes_def) }
  { assume h: "session_ok s" "accountCharge BudgetBufferedBytes n s = (Some e, t)"
    from h(1) obtain a where a: "sAccount s = Some a" "account_inv a" by (rule session_okE)
    obtain a' where c: "Account_Charge a BudgetBufferedBytes n = (Some e, a')" "t = s\<lparr> sAccount := Some a' \<rparr>"
      using h(2) a by (auto simp: accountCharge_def split: prod.splits)
    from buffered.charge_refused [OF a(2) c(1)] a c
    show "session_ok t \<and> liveBytes t = liveBytes s" by (simp add: session_ok_def liveBytes_def) }
  { assume h: "session_ok s" "0 \<le> n" "n \<le> liveBytes s"
    from h(1) obtain a where a: "sAccount s = Some a" "account_inv a" by (rule session_okE)
    with h have "n \<le> usage a ! 2" by (simp add: liveBytes_def)
    from buffered.release_live [OF a(2) h(2) this] a
    show "\<exists>t. accountRelease BudgetBufferedBytes n s = (None, t) \<and> session_ok t \<and> liveBytes t = liveBytes s - n"
      by (auto simp: accountRelease_def session_ok_def liveBytes_def) }
  { assume "session_ok s" then show "0 \<le> liveBytes s" by (simp add: liveBytes_max) }
qed

lemma accountCharge_frame:
  "accountCharge kind n s = (e, t) \<Longrightarrow> sRetained t = sRetained s \<and> sTransient t = sTransient s"
  by (auto simp: accountCharge_def split: option.splits prod.splits)

lemma accountRelease_frame:
  "sRetained (snd (accountRelease kind n s)) = sRetained s \<and> sTransient (snd (accountRelease kind n s)) = sTransient s"
  by (auto simp: accountRelease_def split: option.splits prod.splits)

definition kept :: "Session \<Rightarrow> Session \<Rightarrow> bool" where
  "kept s t \<longleftrightarrow> session_ok t \<and> liveBytes t = liveBytes s \<and> sRetained t = sRetained s \<and> sTransient t = sTransient s"

lemma kept_trans: "kept s t \<Longrightarrow> kept t u \<Longrightarrow> kept s u"
  by (simp add: kept_def)

lemma kept_ok: "kept s t \<Longrightarrow> session_ok t"
  by (simp add: kept_def)

lemma ctxErr_kept: "session_ok s \<Longrightarrow> ctxErr c s = (e, t) \<Longrightarrow> kept s t"
  by (auto simp: ctxErr_def kept_def session_ok_def liveBytes_def)

lemma rationalPoll_kept:
  assumes "session_ok s" "rationalPoll ctx s = (e, t)"
  shows "kept s t"
proof (cases ctx)
  case None
  with assms show ?thesis by (simp add: rationalPoll_def kept_def)
next
  case (Some c)
  obtain e' u where "ctxErr c s = (e', u)" by force
  with assms Some ctxErr_kept [of s c e' u] show ?thesis
    by (auto simp: rationalPoll_def split: option.splits)
qed

lemma charge_steps_live:
  assumes "account_inv a" "Account_Charge a BudgetRuleSteps n = (e, b)"
  shows "usage b ! 2 = usage a ! 2"
  using assms by (auto simp: Account_Charge_def Account_validate_def addUsage_def Let_def case_prod_beta
      budget_indices split: if_splits)

lemma Session_step_kept:
  assumes "session_ok s" "Session_step ctx n s = (e, t)"
  shows "kept s t"
proof (cases ctx)
  case None
  with assms show ?thesis by (simp add: Session_step_def kept_def)
next
  case (Some c)
  obtain e' u where u: "ctxErr c s = (e', u)" by force
  have ku: "kept s u" by (rule ctxErr_kept [OF assms(1) u])
  then obtain a where a: "sAccount u = Some a" "account_inv a" by (auto elim: session_okE simp: kept_def)
  show ?thesis
  proof (cases e')
    case None
    then have ch: "accountCharge BudgetRuleSteps n u = (e, t)" using assms(2) Some u by (simp add: Session_step_def)
    then obtain b where b: "Account_Charge a BudgetRuleSteps n = (e, b)" "t = u\<lparr> sAccount := Some b \<rparr>"
      using a by (auto simp: accountCharge_def split: prod.splits)
    have "kept u t"
      using a b Account_Charge_inv [OF a(2) b(1)] charge_steps_live [OF a(2) b(1)]
      by (simp add: kept_def session_ok_def liveBytes_def)
    with ku show ?thesis by (rule kept_trans)
  qed (use assms(2) Some u ku in \<open>simp add: Session_step_def\<close>)
qed

text \<open>A successful reservation lends exactly the scratch it returns; a refused one lends nothing.\<close>

definition lent :: "int \<Rightarrow> Session \<Rightarrow> Session \<Rightarrow> bool" where
  "lent k s t \<longleftrightarrow> session_ok t \<and> liveBytes t = liveBytes s + k \<and> 0 \<le> k \<and>
     sRetained t = sRetained s \<and> sTransient t = sTransient s"

lemma charge_kept_lent:
  assumes "session_ok s" "accountCharge BudgetBufferedBytes n s = (e, t)"
  shows "case e of None \<Rightarrow> lent n s t | Some _ \<Rightarrow> kept s t"
  using assms accountCharge_frame [OF assms(2)] scratch.charge_ok [OF assms(1)] scratch.charge_refused [OF assms(1)]
  by (cases e) (auto simp: lent_def kept_def)

lemma rationalReserve_lends:
  assumes "session_ok s" "rationalReserve ctx op a b m n s = (r, t)"
  shows "case r of Inr k \<Rightarrow> lent k s t | Inl e \<Rightarrow> kept s t"
proof -
  obtain e1 s1 where p1: "rationalPoll ctx s = (e1, s1)" by force
  note k1 = rationalPoll_kept [OF assms(1) p1]
  show ?thesis
  proof (cases "\<exists>cost. e1 = None \<and> a \<noteq> None \<and> rationalPlan op (rationalWidthsOf (the a))
      (case b of None \<Rightarrow> \<lparr> wNum = 0, wDen = 0 \<rparr> | Some bv \<Rightarrow> rationalWidthsOf bv) = Inr cost")
    case False
    then show ?thesis using assms(2) k1
      by (auto simp: rationalReserve_def p1 Let_def split: option.splits if_splits sum.splits)
  next
    case True
    then obtain cost where plan: "e1 = None" "a \<noteq> None"
      "rationalPlan op (rationalWidthsOf (the a))
        (case b of None \<Rightarrow> \<lparr> wNum = 0, wDen = 0 \<rparr> | Some bv \<Rightarrow> rationalWidthsOf bv) = Inr cost" by blast
    obtain e2 s2 where p2: "Session_step ctx (cWork cost) s1 = (e2, s2)" by force
    obtain e3 s3 where p3: "accountCharge BudgetBufferedBytes (cScratch cost) s2 = (e3, s3)" by force
    note k2 = kept_trans [OF k1 Session_step_kept [OF kept_ok [OF k1] p2]]
    have k3: "case e3 of None \<Rightarrow> lent (cScratch cost) s s3 | Some _ \<Rightarrow> kept s s3"
      using charge_kept_lent [OF kept_ok [OF k2] p3] k2 by (cases e3) (auto simp: lent_def kept_def)
    have k4: "kept s s4" if "ctxErr c s2 = (e4, s4)" for c e4 s4
      using k2 ctxErr_kept [OF kept_ok [OF k2] that] by (rule kept_trans)
    show ?thesis
      using assms(2) k1 k2 k3 plan
      by (auto simp: rationalReserve_def p1 p2 p3 Let_def split: option.splits if_splits sum.splits prod.splits dest: k4)
  qed
qed

definition owned :: "Session \<Rightarrow> Session \<Rightarrow> bool" where
  "owned s t \<longleftrightarrow> session_ok t \<and> liveBytes t - liveBytes s = sRetained t - sRetained s \<and>
     sRetained s \<le> sRetained t \<and> sTransient t = sTransient s"

lemma kept_owned: "kept s t \<Longrightarrow> owned s t"
  by (simp add: kept_def owned_def)

lemma Session_retain_owned:
  assumes "session_ok s" "0 \<le> sRetained s" "sRetained s \<le> liveBytes s" "Session_retain n s = (e, t)"
  shows "case e of None \<Rightarrow> owned s t | Some _ \<Rightarrow> kept s t"
proof -
  obtain e1 s1 where c: "accountCharge BudgetBufferedBytes n s = (e1, s1)" by force
  note k = charge_kept_lent [OF assms(1) c]
  show ?thesis
  proof (cases e1)
    case None
    then have l: "lent n s s1" using k by simp
    then have "sRetained s + n \<le> MaxInt64" "0 \<le> n"
      using liveBytes_max [of s1] assms(3) by (auto simp: lent_def)
    then have "add64 (sRetained s1) n = sRetained s + n" using l assms(2) by (simp add: lent_def i64_simps)
    with None assms(4) c l show ?thesis
      by (auto simp: Session_retain_def owned_def lent_def session_ok_def liveBytes_def)
  qed (use assms(4) c k in \<open>auto simp: Session_retain_def\<close>)
qed

lemma rationalResult_owned:
  assumes "session_ok s" "0 \<le> sRetained s" "sRetained s \<le> liveBytes s" "rationalResult caps ctx v s = (r, t)"
  shows "case r of Inr _ \<Rightarrow> owned s t | Inl _ \<Rightarrow> kept s t"
proof -
  obtain e1 s1 where p1: "rationalPoll ctx s = (e1, s1)" by force
  obtain e2 s2 where p2: "rationalPoll ctx s1 = (e2, s2)" by force
  note k1 = rationalPoll_kept [OF assms(1) p1]
  note k2 = kept_trans [OF k1 rationalPoll_kept [OF kept_ok [OF k1] p2]]
  have k3: "case e3 of None \<Rightarrow> owned s s3 | Some _ \<Rightarrow> kept s s3" if "Session_retain n s2 = (e3, s3)" for n e3 s3
  proof -
    have "case e3 of None \<Rightarrow> owned s2 s3 | Some _ \<Rightarrow> kept s2 s3"
      using k2 assms(2,3) that by (intro Session_retain_owned [of s2 n]) (auto simp: kept_def)
    then show ?thesis using k2 by (cases e3) (auto simp: owned_def kept_def)
  qed
  show ?thesis
    using assms(4) k1 k2
    by (auto simp: rationalResult_def p1 p2 Let_def split: option.splits sum.splits prod.splits dest!: k3)
qed

text \<open>The deferred release pairs with its reservation whatever the body does.\<close>

lemma deferRelease_owned:
  assumes "session_ok s" "0 \<le> sRetained s" "sRetained s \<le> liveBytes s"
    and reserved: "case reserved of (Inr k, u) \<Rightarrow> lent k s u | (Inl e, u) \<Rightarrow> kept s u"
    and body: "\<And>u r t. session_ok u \<Longrightarrow> 0 \<le> sRetained u \<Longrightarrow> sRetained u \<le> liveBytes u \<Longrightarrow> body u = (r, t) \<Longrightarrow>
      (case r of Inr _ \<Rightarrow> owned u t | Inl _ \<Rightarrow> kept u t)"
    and "deferRelease reserved body = (r, t)"
  shows "case r of Inr _ \<Rightarrow> owned s t | Inl _ \<Rightarrow> kept s t"
proof -
  obtain r1 u where ru: "reserved = (r1, u)" by force
  show ?thesis
  proof (cases r1)
    case (Inl e)
    with assms(4,6) ru show ?thesis by (auto simp: deferRelease_def)
  next
    case (Inr k)
    then have l: "lent k s u" using reserved ru by simp
    obtain r2 w where w: "body u = (r2, w)" by force
    then have res: "r = r2" "t = rationalRelease k w" using assms(6) ru Inr by (simp_all add: deferRelease_def)
    have uw: "case r2 of Inr _ \<Rightarrow> owned u w | Inl _ \<Rightarrow> kept u w"
      using l assms(2,3) w by (intro body) (auto simp: lent_def)
    then have "owned u w" by (cases r2) (auto simp: kept_owned)
    then have lw: "session_ok w" "liveBytes w = liveBytes u + (sRetained w - sRetained u)" "k \<le> liveBytes w"
      using l scratch.used_nonneg [OF assms(1)] by (auto simp: owned_def lent_def)
    from scratch.release_live [OF lw(1) _ lw(3)] l
    have "session_ok t" "liveBytes t = liveBytes w - k" by (auto simp: res rationalRelease_def lent_def)
    moreover have "sRetained t = sRetained w" "sTransient t = sTransient w"
      using accountRelease_frame by (simp_all add: res rationalRelease_def)
    ultimately show ?thesis using uw l lw(2) res(1) by (cases r2) (auto simp: owned_def kept_def lent_def)
  qed
qed

lemma session_inv_parts:
  assumes "session_inv s"
  shows "session_ok s" "0 \<le> sRetained s" "sRetained s \<le> liveBytes s"
  using assms by (auto simp: session_inv_def)

lemma owned_inv: "session_inv s \<Longrightarrow> owned s t \<Longrightarrow> session_inv t"
  by (auto simp: session_inv_def owned_def)

lemma rationalArithmetic_owned:
  assumes "session_inv s" "rationalArithmetic caps ctx op a b s = (r, t)"
  shows "case r of Inr _ \<Rightarrow> owned s t | Inl _ \<Rightarrow> kept s t"
proof (rule deferRelease_owned [OF session_inv_parts [OF assms(1)] _ _ assms(2) [unfolded rationalArithmetic_def]])
  show "case rationalReserve ctx op (exValue a) (exValue b) (exBytes a) (exBytes b) s of
      (Inr k, u) \<Rightarrow> lent k s u | (Inl e, u) \<Rightarrow> kept s u"
    using rationalReserve_lends [OF session_inv_parts(1) [OF assms(1)]] by (auto split: prod.splits sum.splits)
next
  fix u r t
  assume "session_ok u" "0 \<le> sRetained u" "sRetained u \<le> liveBytes u"
    and "(let av = the (exValue a); bv = the (exValue b) in
        case op of
          rationalAddOp \<Rightarrow> rationalResult caps ctx (ratAdd av bv)
        | rationalSubOp \<Rightarrow> rationalResult caps ctx (ratSub av bv)
        | rationalMulOp \<Rightarrow> rationalResult caps ctx (ratMul av bv)
        | rationalQuoOp \<Rightarrow> rationalResult caps ctx (ratQuo av bv)
        | _ \<Rightarrow> (\<lambda>s. (Inl (rationalConfiguration ''unknown arithmetic operation''), s))) u = (r, t)"
  then show "case r of Inr _ \<Rightarrow> owned u t | Inl _ \<Rightarrow> kept u t"
    using rationalResult_owned [of u caps ctx _ r t] by (cases op) (auto simp: Let_def kept_def)
qed


section \<open>What a successful operation returns\<close>

lemma rationalReserve_planned:
  assumes "rationalReserve ctx op (Some a) (Some b) m n s = (Inr k, t)"
  shows "\<exists>cost. rationalPlan op (rationalWidthsOf a) (rationalWidthsOf b) = Inr cost"
    and "op = rationalQuoOp \<Longrightarrow> fst b \<noteq> 0"
  using assms
  by (auto simp: rationalReserve_def Let_def split: option.splits if_splits sum.splits prod.splits)

lemma rationalResult_Inr:
  assumes "rationalResult caps ctx v s = (Inr w, t)"
  shows "\<exists>tx. boundedRationalText v = Inr tx \<and> w = rationalOwned v tx"
  using assms by (auto simp: rationalResult_def Let_def split: option.splits sum.splits prod.splits)

lemma widths_ok_of:
  "BitLen (fst v) \<le> MaxInt64 \<Longrightarrow> BitLen (snd v) \<le> MaxInt64 \<Longrightarrow> widths_ok (rationalWidthsOf v)"
  by (simp add: widths_ok_def rationalWidthsOf_def)

lemma plan_covers:
  assumes "lowest a" "lowest b" "op = rationalQuoOp \<Longrightarrow> fst b \<noteq> 0"
    and "op \<in> {rationalCopyOp, rationalAddOp, rationalSubOp, rationalMulOp, rationalQuoOp}"
    and "widths_ok (rationalWidthsOf a)" "widths_ok (rationalWidthsOf b)"
    and "rationalPlan op (rationalWidthsOf a) (rationalWidthsOf b) = Inr cost"
  defines "v \<equiv> resultOf op a b"
  shows "boundedRationalText v = Inr (ratText v)" "exBytes (rationalOwned v (ratText v)) \<le> cScalar cost"
proof -
  obtain n d where nd: "planBits op (rationalWidthsOf a) (rationalWidthsOf b) = (n, d)" by force
  note p = rationalPlan_Inr [OF assms(5-7) nd]
  note bits = resultOf_bits [OF assms(1-4) nd, folded v_def]
  have low: "lowest v" using resultOf_exact(2) [OF assms(1-3)] by (simp add: v_def)
  have small: "n \<le> 8388608" "d \<le> 8388608" using p(1-3) by (auto simp: MaxExactValueBytes_def)
  have tx: "int (length (ratText v)) \<le> planText n d" by (rule ratText_upper [OF low bits p(1,2)])
  have e: "estimable (fst v)" "estimable (snd v)" using bits small by (auto simp: estimable_def)
  show "boundedRationalText v = Inr (ratText v)" using boundedRationalText_Inr [OF e] tx p(4) by simp
  have "magnitudeBytes (fst v) \<le> (n + 7) div 8" "magnitudeBytes (snd v) \<le> (d + 7) div 8"
    using bits e by (auto simp: magnitudeBytes_eq estimable_host intro: zdiv_mono1)
  moreover have "exBytes (rationalOwned v (ratText v)) =
      magnitudeBytes (fst v) + magnitudeBytes (snd v) + int (length (ratText v))"
    using bits small tx p(4) by (intro rationalOwned_bytes) auto
  ultimately show "exBytes (rationalOwned v (ratText v)) \<le> cScalar cost" using tx p(5) by simp
qed

lemma rationalArithmetic_value:
  assumes "exValue a = Some av" "exValue b = Some bv"
    and "op \<in> {rationalAddOp, rationalSubOp, rationalMulOp, rationalQuoOp}"
    and "rationalArithmetic caps ctx op a b s = (Inr w, t)"
  shows "\<exists>cost tx. rationalPlan op (rationalWidthsOf av) (rationalWidthsOf bv) = Inr cost \<and>
    (op = rationalQuoOp \<longrightarrow> fst bv \<noteq> 0) \<and>
    boundedRationalText (resultOf op av bv) = Inr tx \<and> w = rationalOwned (resultOf op av bv) tx"
proof -
  obtain r1 u where r: "rationalReserve ctx op (Some av) (Some bv) (exBytes a) (exBytes b) s = (r1, u)" by force
  with assms(4) obtain k where k: "r1 = Inr k"
    by (cases r1) (simp_all add: rationalArithmetic_def deferRelease_def assms(1,2))
  obtain r2 u2 where b: "rationalResult caps ctx (resultOf op av bv) u = (r2, u2)" by force
  have "r2 = Inr w"
    using assms(3,4) r k b by (auto simp: rationalArithmetic_def deferRelease_def assms(1,2))
  with b rationalResult_Inr rationalReserve_planned [OF r [unfolded k]] show ?thesis by blast
qed

section \<open>When an operation succeeds\<close>

text \<open>A session whose account has the limits \<open>m\<close> and holds \<open>k\<close> live bytes.\<close>

definition holds_account :: "int list \<Rightarrow> int \<Rightarrow> Session \<Rightarrow> bool" where
  "holds_account m k s \<longleftrightarrow>
     (case sAccount s of None \<Rightarrow> False | Some a \<Rightarrow> account_inv a \<and> maxima a = m \<and> usage a ! 2 = k)"

lemma Account_limit_other: "i \<noteq> 9 \<Longrightarrow> Account_limit a i = (maxima a ! i, a)"
  by (simp add: Account_limit_def budget_indices)

lemma charge_room:
  assumes "holds_account m k s" "k + n \<le> m ! 2" "0 \<le> n"
  shows "\<exists>t. accountCharge BudgetBufferedBytes n s = (None, t) \<and> holds_account m (k + n) t \<and>
     sRetained t = sRetained s \<and> sPolls t = sPolls s"
proof -
  obtain a where a: "sAccount s = Some a" "account_inv a" "maxima a = m" "usage a ! 2 = k"
    using assms(1) by (auto simp: holds_account_def split: option.splits)
  obtain e b where b: "Account_Charge a BudgetBufferedBytes n = (e, b)" by force
  have "e = None" "b = addUsage a 2 n"
    using b a assms Account_Charge_eq [OF a(2), of BudgetBufferedBytes 2 budgetGauge n]
    by (auto simp: Account_limit_other)
  moreover from this b have "usage b = (usage a)[2 := usage a ! 2 + n]"
    using gauge_charge_ok [OF a(2), of BudgetBufferedBytes 2 n b] by simp
  moreover have "account_inv b" using Account_Charge_inv [OF a(2) b] by simp
  moreover have "length (usage a) = 14" using a(2) by (simp add: account_inv_def)
  ultimately show ?thesis using a b by (auto simp: accountCharge_def holds_account_def)
qed

lemma steps_room:
  assumes "holds_account m k s" "sAccount s = Some a" "usage a ! 9 + n \<le> fst (Account_limit a 9)" "0 \<le> n"
  shows "\<exists>t. Session_step (Some (\<lambda>_. None)) n s = (None, t) \<and> holds_account m k t \<and> sRetained t = sRetained s"
proof -
  have a: "account_inv a" "maxima a = m" "usage a ! 2 = k" using assms(1,2) by (auto simp: holds_account_def)
  obtain e b where b: "Account_Charge a BudgetRuleSteps n = (e, b)" by force
  have "e = None" "b = addUsage (snd (Account_limit a 9)) 9 n"
    using b assms(3,4) Account_Charge_eq [OF a(1), of BudgetRuleSteps 9 budgetCumulative n]
    by (auto simp: budget_indices)
  moreover have "usage b ! 2 = k" "account_inv b"
    using charge_steps_live [OF a(1) b] a(3) Account_Charge_inv [OF a(1) b] by auto
  ultimately show ?thesis
    using a b assms(2) by (auto simp: Session_step_def ctxErr_def accountCharge_def holds_account_def)
qed

lemma check_room:
  assumes "holds_account m k s" "0 \<le> n" "n \<le> m ! 7"
  shows "accountCheck BudgetScalarBytes n s = None"
  using assms by (auto simp: accountCheck_def Account_Check_def Account_validate_def holds_account_def
      account_inv_def split: option.splits)

lemma rationalResult_succeeds:
  assumes "holds_account m k s" "boundedRationalText v = Inr tx" "0 \<le> exBytes (rationalOwned v tx)"
    "exBytes (rationalOwned v tx) \<le> m ! 7" "0 \<le> p" "0 \<le> q"
    "k + ((p + q) * 8 + int (length tx) + 128) \<le> m ! 2"
  shows "\<exists>t. rationalResult (p, q) (Some (\<lambda>_. None)) v s = (Inr (rationalOwned v tx), t)"
proof -
  have max: "m ! 2 \<le> MaxInt64" "0 \<le> k" using assms(1) by (auto simp: holds_account_def account_inv_def split: option.splits)
  define s2 where "s2 = s\<lparr> sPolls := Suc (Suc (sPolls s)) \<rparr>"
  have h2: "holds_account m k s2" using assms(1) by (simp add: s2_def holds_account_def)
  define retained where "retained = (p + q) * 8 + int (length tx) + 128"
  have le: "p + q \<le> MaxInt64" "p \<le> MaxInt64" "q \<le> MaxInt64" "(p + q) * 8 \<le> MaxInt64" "retained \<le> MaxInt64"
    "int (length tx) \<le> MaxInt64"
    using assms(5-7) max by (auto simp: retained_def)
  have "rationalSum BudgetBufferedBytes [p, q] = Inr (p + q)" using le assms(5,6) by (subst rationalSum_Inr) auto
  moreover have "rationalCheckedMul BudgetBufferedBytes (p + q) 8 = Inr ((p + q) * 8)"
    using le assms(5,6) by (simp add: rationalCheckedMul_eq)
  moreover have "rationalSum BudgetBufferedBytes [(p + q) * 8, int (length tx), 128] = Inr retained"
    using le assms(5,6) by (subst rationalSum_Inr) (auto simp: retained_def int64_limits)
  moreover have "allocationSize retained = Inr retained"
    using le assms(5,6) by (simp add: allocationSize_def retained_def)
  moreover obtain t where "accountCharge BudgetBufferedBytes retained s2 = (None, t)"
    using charge_room [OF h2, of retained] assms(5-7) by (auto simp: retained_def)
  ultimately show ?thesis
    using assms(2) check_room [OF h2 assms(3,4)]
    by (simp add: rationalResult_def rationalPoll_def ctxErr_def s2_def [symmetric] Session_retain_def Let_def)
qed

section \<open>Properties\<close>

text \<open>
  C18: an addition, subtraction, multiplication or division that returns a value returns the exact result
  of its two operands, in lowest terms with its canonical text, and the retained size is within the
  scalar bound the plan checked before any arithmetic.
\<close>

theorem rational_arithmetic_exact:
  assumes "exValue a = Some av" "exValue b = Some bv" "lowest av" "lowest bv"
    and "widths_ok (rationalWidthsOf av)" "widths_ok (rationalWidthsOf bv)"
    and "op \<in> {rationalAddOp, rationalSubOp, rationalMulOp, rationalQuoOp}"
    and "rationalArithmetic caps ctx op a b s = (Inr w, t)"
  shows "\<exists>v cost. exValue w = Some v \<and> lowest v \<and> ratVal v = exactOp op (ratVal av) (ratVal bv) \<and>
    exText w = ratText v \<and> rationalPlan op (rationalWidthsOf av) (rationalWidthsOf bv) = Inr cost \<and>
    exBytes w \<le> cScalar cost \<and> (op = rationalQuoOp \<longrightarrow> ratVal bv \<noteq> 0)"
proof -
  obtain cost tx where c: "rationalPlan op (rationalWidthsOf av) (rationalWidthsOf bv) = Inr cost"
    "op = rationalQuoOp \<longrightarrow> fst bv \<noteq> 0" "boundedRationalText (resultOf op av bv) = Inr tx"
    "w = rationalOwned (resultOf op av bv) tx"
    using rationalArithmetic_value [OF assms(1,2,7,8)] by blast
  have q: "op = rationalQuoOp \<Longrightarrow> fst bv \<noteq> 0" using c(2) by blast
  have "op \<in> {rationalCopyOp, rationalAddOp, rationalSubOp, rationalMulOp, rationalQuoOp}" using assms(7) by auto
  note cov = plan_covers [OF assms(3,4) q this assms(5,6) c(1)]
  have "tx = ratText (resultOf op av bv)" using cov(1) c(3) by simp
  moreover have "op = rationalQuoOp \<longrightarrow> ratVal bv \<noteq> 0" using q assms(4) by (auto simp: ratVal_def lowest_def)
  ultimately show ?thesis
    using cov(2) c resultOf_exact [OF assms(3,4) q] by (auto simp: rationalOwned_def)
qed

text \<open>
  C17: whatever happens during an operation (cancellation at any poll, an exhausted budget, a refused
  size), the borrowed scratch is returned. The buffered bytes of the account change by exactly what the
  session newly retains, a failed operation retains nothing, and the session invariant survives.
\<close>

theorem rational_scratch_released:
  assumes "session_inv s" "rationalArithmetic caps ctx op a b s = (r, t)"
  shows "session_inv t \<and> liveBytes t - liveBytes s = sRetained t - sRetained s \<and>
    sTransient t = sTransient s \<and> (\<forall>e. r = Inl e \<longrightarrow> sRetained t = sRetained s \<and> liveBytes t = liveBytes s)"
proof -
  have "case r of Inr _ \<Rightarrow> owned s t | Inl _ \<Rightarrow> kept s t" by (rule rationalArithmetic_owned [OF assms])
  then show ?thesis
    using owned_inv [OF assms(1), of t] kept_owned [of s t]
    by (cases r) (auto simp: owned_def kept_def)
qed


text \<open>
  C24: an operation with a live context succeeds whenever the resources are there. Once the plan exists and
  the account has room for its scalar size, its work and its scratch plus the retained result, the call
  returns a value: rendering and the size check after the arithmetic can no longer refuse.
\<close>

theorem rational_arithmetic_succeeds:
  assumes "exValue a = Some av" "exValue b = Some bv" "lowest av" "lowest bv"
    and "widths_ok (rationalWidthsOf av)" "widths_ok (rationalWidthsOf bv)"
    and "op \<in> {rationalAddOp, rationalSubOp, rationalMulOp, rationalQuoOp}" "op = rationalQuoOp \<Longrightarrow> fst bv \<noteq> 0"
    and "rationalPlan op (rationalWidthsOf av) (rationalWidthsOf bv) = Inr cost"
    and "sAccount s = Some acc" "account_inv acc"
    and "0 \<le> exBytes a" "0 \<le> exBytes b" "max (exBytes a) (max (exBytes b) (cScalar cost)) \<le> maxima acc ! 7"
    and "usage acc ! 9 + cWork cost \<le> fst (Account_limit acc 9)"
    and "0 \<le> p" "0 \<le> q"
    and "usage acc ! 2 + cScratch cost + ((p + q) * 8 + int (length (ratText (resultOf op av bv))) + 128) \<le> maxima acc ! 2"
  shows "\<exists>t. rationalArithmetic (p, q) (Some (\<lambda>_. None)) op a b s =
    (Inr (rationalOwned (resultOf op av bv) (ratText (resultOf op av bv))), t)"
proof -
  let ?v = "resultOf op av bv" and ?ctx = "Some (\<lambda>_. None) :: gocontext" and ?m = "maxima acc"
  have op: "op \<in> {rationalCopyOp, rationalAddOp, rationalSubOp, rationalMulOp, rationalQuoOp}" using assms(7) by auto
  note cov = plan_covers [OF assms(3,4,8) op assms(5,6,9)]
  obtain n d where nd: "planBits op (rationalWidthsOf av) (rationalWidthsOf bv) = (n, d)" by force
  note pl = rationalPlan_Inr [OF assms(5,6,9) nd]
  have sc: "0 \<le> cScalar cost"
    using pl(1,2,5) upperDigits_pos [OF pl(1)] upperDigits_pos [OF pl(2)] by (simp add: planText_def)
  define s1 where "s1 = s\<lparr> sPolls := Suc (sPolls s) \<rparr>"
  have h1: "holds_account ?m (usage acc ! 2) s1" "sAccount s1 = Some acc"
    using assms(10,11) by (simp_all add: s1_def holds_account_def)
  obtain s2 where s2: "Session_step ?ctx (cWork cost) s1 = (None, s2)" "holds_account ?m (usage acc ! 2) s2"
    using steps_room [OF h1 assms(15) pl(8)] by blast
  obtain s3 where s3: "accountCharge BudgetBufferedBytes (cScratch cost) s2 = (None, s3)"
    "holds_account ?m (usage acc ! 2 + cScratch cost) s3"
    using charge_room [OF s2(2), of "cScratch cost"] pl(6) assms(16-18) by auto
  have "accountCheck BudgetScalarBytes k s1 = None" if "k \<in> {exBytes a, exBytes b, cScalar cost}" for k
    using that assms(12-14) sc by (intro check_room [OF h1(1)]) auto
  then have reserve: "rationalReserve ?ctx op (Some av) (Some bv) (exBytes a) (exBytes b) s = (Inr (cScratch cost), s3)"
    using assms(7,8,9) h1 s2 s3
    by (auto simp: rationalReserve_def rationalPoll_def ctxErr_def s1_def [symmetric] Let_def)
  have "0 \<le> exBytes (rationalOwned ?v (ratText ?v))"
  proof -
    note bits = resultOf_bits [OF assms(3,4,8) op nd]
    have small: "n \<le> 8388608" "d \<le> 8388608" using pl(1-3) by (auto simp: MaxExactValueBytes_def)
    have "exBytes (rationalOwned ?v (ratText ?v)) = magnitudeBytes (fst ?v) + magnitudeBytes (snd ?v) + int (length (ratText ?v))"
      using bits small ratText_upper [OF resultOf_exact(2) [OF assms(3,4,8)] bits pl(1,2)] pl(4)
      by (intro rationalOwned_bytes) auto
    moreover have "hostInt (fst ?v)" "hostInt (snd ?v)" using bits small by (auto simp: hostInt_def int64_limits)
    ultimately show ?thesis by (simp add: magnitudeBytes_nonneg)
  qed
  then obtain t where "rationalResult (p, q) ?ctx ?v s3 = (Inr (rationalOwned ?v (ratText ?v)), t)"
    using rationalResult_succeeds [OF s3(2) cov(1) _ _ assms(16,17)] cov(2) assms(14,18) by auto
  with reserve assms(7) show ?thesis
    by (auto simp: rationalArithmetic_def deferRelease_def assms(1,2))
qed

definition sampleRational :: "int \<Rightarrow> int \<Rightarrow> Rational" where
  "sampleRational n d = rationalOwned (n, d) (ratText (n, d))"

definition sampleSession :: Session where
  "sampleSession = \<lparr> sAccount = Some sampleAccount, sRetained = 0, sTransient = 0, sPolls = 0 \<rparr>"


lemma sampleAccount_facts:
  "account_inv sampleAccount" "usage sampleAccount = replicate 14 0" "maxima sampleAccount ! 2 = 67108864"
  "maxima sampleAccount ! 7 = 1048576" "fst (Account_limit sampleAccount 9) = 20000000"
proof -
  have b: "\<forall>f \<in> set (budgetValues sampleBudgets). 0 \<le> f" "MaxRuleSteps sampleBudgets = 0"
    "budgetValues sampleBudgets = replicate 14 0"
    by (simp_all add: sampleBudgets_def budgetValues_def budgetsOf_def numeral_eq_Suc)
  from NewBudgetAccount_ok [OF sampleBudgets_64 b(1)] b(2,3)
  show "account_inv sampleAccount" "usage sampleAccount = replicate 14 0" "maxima sampleAccount ! 2 = 67108864"
  "maxima sampleAccount ! 7 = 1048576" "fst (Account_limit sampleAccount 9) = 20000000"
    by (auto simp: sampleAccount_new DefaultRuleStepBase_def budgetValues_def DefaultBudgets_def)
qed

lemma sampleSession_inv: "session_inv sampleSession"
  by (simp add: session_inv_def session_ok_def liveBytes_def sampleSession_def sampleAccount_facts)

lemma sample_operands:
  "exValue (sampleRational n d) = Some (n, d)"
  "lowest (1, 2)" "lowest (1, 3)" "widths_ok (rationalWidthsOf (1, 2))" "widths_ok (rationalWidthsOf (1, 3))"
  "exBytes (sampleRational 1 2) = 5" "exBytes (sampleRational 1 3) = 5"
  "resultOf rationalAddOp (1, 2) (1, 3) = (5, 6)" "ratText (5, 6) = ''5/6''"
  "rationalPlan rationalAddOp (rationalWidthsOf (1, 2)) (rationalWidthsOf (1, 3)) =
      Inr \<lparr> cScalar = 8, cScratch = 4928, cWork = 324 \<rparr>"
  by (simp add: sampleRational_def rationalOwned_def, code_simp+)

lemma sampleSession_account: "sAccount sampleSession = Some sampleAccount"
  by (simp add: sampleSession_def)

theorem rational_arithmetic_succeeds_witness:
  "\<exists>t. rationalArithmetic (1, 1) (Some (\<lambda>_. None)) rationalAddOp (sampleRational 1 2) (sampleRational 1 3) sampleSession =
    (Inr (rationalOwned (5, 6) ''5/6''), t)"
proof -
  have "\<exists>t. rationalArithmetic (1, 1) (Some (\<lambda>_. None)) rationalAddOp (sampleRational 1 2) (sampleRational 1 3) sampleSession =
    (Inr (rationalOwned (resultOf rationalAddOp (1, 2) (1, 3)) (ratText (resultOf rationalAddOp (1, 2) (1, 3)))), t)"
    by (rule rational_arithmetic_succeeds [OF sample_operands(1,1,2-5) _ _ sample_operands(10)
          sampleSession_account sampleAccount_facts(1)])
       (simp_all only: sample_operands, simp_all add: sampleAccount_facts)
  then show ?thesis by (simp only: sample_operands)
qed


theorem rational_arithmetic_exact_witness:
  "\<exists>w t v. rationalArithmetic (1, 1) (Some (\<lambda>_. None)) rationalAddOp (sampleRational 1 2) (sampleRational 1 3) sampleSession = (Inr w, t) \<and>
    exValue w = Some v \<and> ratVal v = 1 / 2 + 1 / 3"
proof -
  have "fst (rationalArithmetic (1, 1) (Some (\<lambda>_. None)) rationalAddOp (sampleRational 1 2) (sampleRational 1 3) sampleSession)
      = Inr (rationalOwned (5, 6) ''5/6'')" by code_simp
  then obtain t where t: "rationalArithmetic (1, 1) (Some (\<lambda>_. None)) rationalAddOp (sampleRational 1 2) (sampleRational 1 3) sampleSession
      = (Inr (rationalOwned (5, 6) ''5/6''), t)" by (metis prod.collapse)
  from rational_arithmetic_exact [OF sample_operands(1,1,2-5) _ t]
  obtain v where "exValue (rationalOwned (5, 6) ''5/6'') = Some v" "ratVal v = ratVal (1, 2) + ratVal (1, 3)" by auto
  moreover have "ratVal (1, 2) = 1 / 2" "ratVal (1, 3) = 1 / 3" by (simp_all add: ratVal_def)
  ultimately show ?thesis using t by metis
qed

theorem rational_scratch_released_witness:
  "session_inv (snd (rationalArithmetic (1, 1) (Some (\<lambda>n. if n = 1 then Some (ContextError ''cancelled'') else None))
      rationalMulOp (sampleRational 1 2) (sampleRational 1 3) sampleSession))"
  using rational_scratch_released [OF sampleSession_inv surjective_pairing] by blast

end
