(* ===== verification/Xsd_Numbers.thy ===== *)
theory Xsd_Numbers
  imports Exact_Values
begin

text \<open>
  The numeric lexical spaces of \<open>internal/xsd\<close>: \<open>integer.go\<close>, \<open>decimal.go\<close>, \<open>trimXMLWhitespace\<close> of
  \<open>whitespace.go\<close> and the bound and digit facets of \<open>kernel.go\<close>.

  The functions are modelled at the nil \<open>Context\<close> of their exported entry points (\<open>ParseInteger\<close>,
  \<open>ValidInteger\<close>, ...), where the metering calls \<open>c.step\<close>, \<open>c.scalar\<close>, \<open>c.bytes\<close> and \<open>c.scratch\<close>
  return at once and \<open>compareText\<close> is \<open>strings.Compare\<close>.  Numbers are never converted: the code
  compares digit strings, and the theorems relate those comparisons to the integers and rationals the
  strings denote.  A diagnostic message is kept as its format pattern and arguments; the quoting of
  \<open>fmt\<close> is not modelled.
\<close>

section \<open>Shared pieces\<close>

datatype fmtArg = FmtText string | FmtNat nat | FmtTexts "string list" | FmtMessage string "fmtArg list"

record SimpleFailure =
  fConstraint :: string
  fMessage :: "string \<times> fmtArg list"

definition failure :: "string \<Rightarrow> string \<Rightarrow> fmtArg list \<Rightarrow> SimpleFailure" where
  "failure c p args = \<lparr> fConstraint = c, fMessage = (p, args) \<rparr>"

text \<open>The facets of \<open>SimpleSchema\<close>.\<close>

record SimpleFacets =
  Patterns :: "string list"
  MinInclusive :: string
  MaxInclusive :: string
  MinExclusive :: string
  MaxExclusive :: string
  Length :: nat
  MinLength :: nat
  MaxLength :: nat
  TotalDigits :: nat
  FractionDigits :: nat
  HasMinInclusive :: bool
  HasMaxInclusive :: bool
  HasMinExclusive :: bool
  HasMaxExclusive :: bool
  HasLength :: bool
  HasMinLength :: bool
  HasMaxLength :: bool
  HasTotalDigits :: bool
  HasFractionDigits :: bool

definition noFacets :: SimpleFacets where
  "noFacets = \<lparr> Patterns = [], MinInclusive = [], MaxInclusive = [], MinExclusive = [], MaxExclusive = [],
     Length = 0, MinLength = 0, MaxLength = 0, TotalDigits = 0, FractionDigits = 0,
     HasMinInclusive = False, HasMaxInclusive = False, HasMinExclusive = False, HasMaxExclusive = False,
     HasLength = False, HasMinLength = False, HasMaxLength = False, HasTotalDigits = False, HasFractionDigits = False \<rparr>"

definition XMLWhitespace :: string where
  "XMLWhitespace = [CHR '' '', CHR 0x09, CHR 0x0D, CHR 0x0A]"

definition isXMLSpace :: "char \<Rightarrow> bool" where
  "isXMLSpace c \<longleftrightarrow> c \<in> set XMLWhitespace"

text \<open>The two index loops: \<open>start\<close> moves right over whitespace, then \<open>end\<close> moves left.\<close>

definition trimXMLWhitespace :: "string \<Rightarrow> string" where
  "trimXMLWhitespace value = rev (dropWhile isXMLSpace (rev (dropWhile isXMLSpace value)))"

section \<open>Integers (\<open>integer.go\<close>)\<close>

record XInteger =
  iDigits :: string
  iNegative :: bool

text \<open>The optional sign both parsers take off first.\<close>

definition takeSign :: "string \<Rightarrow> bool \<times> string" where
  "takeSign value =
     (case value of
        [] \<Rightarrow> (False, value)
      | ch # rest \<Rightarrow> if ch = CHR ''+'' \<or> ch = CHR ''-'' then (ch = CHR ''-'', rest) else (False, value))"

text \<open>The digit loop of \<open>parseInteger\<close>: \<open>None\<close> at a byte that is no digit, else the final \<open>first\<close>.\<close>

fun scanDigits :: "string \<Rightarrow> nat \<Rightarrow> nat \<Rightarrow> nat option" where
  "scanDigits [] index first = Some first"
| "scanDigits (ch # rest) index first =
     (if byte ch < 48 \<or> byte ch > 57 then None
      else scanDigits rest (index + 1) (if ch \<noteq> CHR ''0'' \<and> index < first then index else first))"

definition parseInteger :: "string \<Rightarrow> XInteger option" where
  "parseInteger value =
     (let (negative, value) = takeSign (trimXMLWhitespace value) in
      if value = [] then None
      else case scanDigits value 0 (length value - 1) of
             None \<Rightarrow> None
           | Some first \<Rightarrow>
               let value = drop first value
               in Some \<lparr> iDigits = value, iNegative = negative \<and> value \<noteq> ''0'' \<rparr>)"

definition Integer_compare :: "XInteger \<Rightarrow> XInteger \<Rightarrow> int" where
  "Integer_compare value other =
     (if iNegative value \<noteq> iNegative other then (if iNegative value then -1 else 1)
      else
        let result = (if length (iDigits value) < length (iDigits other) then -1
                      else if length (iDigits value) > length (iDigits other) then 1
                      else strCompare (iDigits value) (iDigits other))
        in if iNegative value then - result else result)"

definition IntegerLimits :: "string \<Rightarrow> (string \<times> string) option" where
  "IntegerLimits name =
     (if name = ''integer'' then Some ('''', '''')
      else if name = ''nonPositiveInteger'' then Some ('''', ''0'')
      else if name = ''negativeInteger'' then Some ('''', ''-1'')
      else if name = ''nonNegativeInteger'' then Some (''0'', '''')
      else if name = ''positiveInteger'' then Some (''1'', '''')
      else if name = ''long'' then Some (''-9223372036854775808'', ''9223372036854775807'')
      else if name = ''int'' then Some (''-2147483648'', ''2147483647'')
      else if name = ''short'' then Some (''-32768'', ''32767'')
      else if name = ''byte'' then Some (''-128'', ''127'')
      else if name = ''unsignedLong'' then Some (''0'', ''18446744073709551615'')
      else if name = ''unsignedInt'' then Some (''0'', ''4294967295'')
      else if name = ''unsignedShort'' then Some (''0'', ''65535'')
      else if name = ''unsignedByte'' then Some (''0'', ''255'')
      else None)"

text \<open>
  The source ignores the second result of parsing a limit; the zero value \<open>Integer{}\<close> it would then
  compare with has an empty digit string.
\<close>

definition limitInteger :: "string \<Rightarrow> XInteger" where
  "limitInteger text = (case parseInteger text of Some n \<Rightarrow> n | None \<Rightarrow> \<lparr> iDigits = [], iNegative = False \<rparr>)"

definition validInteger :: "string \<Rightarrow> string \<Rightarrow> bool" where
  "validInteger name value =
     (case parseInteger value of
        None \<Rightarrow> False
      | Some number \<Rightarrow>
          (case IntegerLimits name of
             None \<Rightarrow> False
           | Some (minimum, maximum) \<Rightarrow>
               \<not> (minimum \<noteq> [] \<and> Integer_compare number (limitInteger minimum) < 0) \<and>
               \<not> (maximum \<noteq> [] \<and> Integer_compare number (limitInteger maximum) > 0)))"

definition integerValuesEqual :: "string \<Rightarrow> string \<Rightarrow> bool" where
  "integerValuesEqual left right =
     (case (parseInteger left, parseInteger right) of
        (Some first, Some second) \<Rightarrow> Integer_compare first second = 0
      | _ \<Rightarrow> False)"

section \<open>Decimals (\<open>decimal.go\<close>)\<close>

record XDecimal =
  dWhole :: string
  dFraction :: string
  dNegative :: bool

text \<open>
  The scan of \<open>parseDecimal\<close>: the position of the first point and the number of digits, or \<open>None\<close>
  at any other byte.
\<close>

fun scanDecimal :: "string \<Rightarrow> nat \<Rightarrow> nat option \<Rightarrow> nat \<Rightarrow> (nat option \<times> nat) option" where
  "scanDecimal [] index point digits = Some (point, digits)"
| "scanDecimal (ch # rest) index point digits =
     (if ch = CHR ''.'' \<and> point = None then scanDecimal rest (index + 1) (Some index) digits
      else if byte ch < 48 \<or> byte ch > 57 then None
      else scanDecimal rest (index + 1) point (digits + 1))"

definition parseDecimal :: "string \<Rightarrow> XDecimal option" where
  "parseDecimal value =
     (let (negative, value) = takeSign (trimXMLWhitespace value) in
      case scanDecimal value 0 None 0 of
        None \<Rightarrow> None
      | Some (point, digits) \<Rightarrow>
          if digits = 0 then None
          else
            let (whole, fraction) = (case point of
                    None \<Rightarrow> (value, [])
                  | Some p \<Rightarrow> (take p value, drop (p + 1) value));
                whole = dropWhile (\<lambda>ch. ch = CHR ''0'') whole;
                fraction = rev (dropWhile (\<lambda>ch. ch = CHR ''0'') (rev fraction))
            in Some \<lparr> dWhole = whole, dFraction = fraction,
                      dNegative = negative \<and> (whole \<noteq> [] \<or> fraction \<noteq> []) \<rparr>)"

definition Decimal_compare :: "XDecimal \<Rightarrow> XDecimal \<Rightarrow> int" where
  "Decimal_compare value other =
     (if dNegative value \<noteq> dNegative other then (if dNegative value then -1 else 1)
      else
        let result = (if length (dWhole value) < length (dWhole other) then -1
                      else if length (dWhole value) > length (dWhole other) then 1
                      else let r = strCompare (dWhole value) (dWhole other) in
                           if r = 0 then strCompare (dFraction value) (dFraction other) else r)
        in if dNegative value then - result else result)"

definition decimalValuesEqual :: "string \<Rightarrow> string \<Rightarrow> bool" where
  "decimalValuesEqual left right =
     (case (parseDecimal left, parseDecimal right) of
        (Some first, Some second) \<Rightarrow> Decimal_compare first second = 0
      | _ \<Rightarrow> False)"

section \<open>Bound and digit facets\<close>

text \<open>
  The table of tests both bound checks run in order, and the loop over it with the domain's parser
  and comparison.
\<close>

type_synonym boundTest = "bool \<times> string \<times> string \<times> bool \<times> bool"

definition boundTests :: "SimpleFacets \<Rightarrow> boundTest list" where
  "boundTests schema =
     [(HasMinInclusive schema, ''minInclusive'', MinInclusive schema, True, False),
      (HasMaxInclusive schema, ''maxInclusive'', MaxInclusive schema, False, False),
      (HasMinExclusive schema, ''minExclusive'', MinExclusive schema, True, True),
      (HasMaxExclusive schema, ''maxExclusive'', MaxExclusive schema, False, True)]"

fun runBounds :: "(string \<Rightarrow> 'n option) \<Rightarrow> ('n \<Rightarrow> 'n \<Rightarrow> int) \<Rightarrow> 'n \<Rightarrow> string \<Rightarrow> boundTest list
    \<Rightarrow> SimpleFailure option" where
  "runBounds parse cmp number display [] = None"
| "runBounds parse cmp number display ((enabled, constraint, limitText, minimum, exclusive) # tests) =
     (if \<not> enabled then runBounds parse cmp number display tests
      else case parse limitText of
        None \<Rightarrow> Some (failure ''schema'' ''invalid %s value %q'' [FmtText constraint, FmtText limitText])
      | Some limit \<Rightarrow>
          let comparison = cmp number limit in
          if (minimum \<and> comparison < 0) \<or> (\<not> minimum \<and> comparison > 0) \<or> (exclusive \<and> comparison = 0)
          then Some (failure constraint ''value %q violates %s=%q''
                       [FmtText display, FmtText constraint, FmtText limitText])
          else runBounds parse cmp number display tests)"

definition validateIntegerBounds :: "SimpleFacets \<Rightarrow> string \<Rightarrow> string \<Rightarrow> SimpleFailure option" where
  "validateIntegerBounds schema value display =
     (case parseInteger value of
        None \<Rightarrow> Some (failure ''datatype'' ''value %q is not numeric'' [FmtText display])
      | Some number \<Rightarrow> runBounds parseInteger Integer_compare number display (boundTests schema))"

definition validateDecimalBounds :: "SimpleFacets \<Rightarrow> string \<Rightarrow> string \<Rightarrow> SimpleFailure option" where
  "validateDecimalBounds schema value display =
     (case parseDecimal value of
        None \<Rightarrow> Some (failure ''datatype'' ''value %q is not numeric'' [FmtText display])
      | Some number \<Rightarrow> runBounds parseDecimal Decimal_compare number display (boundTests schema))"

text \<open>
  \<open>validateDigitFacets\<close>.  For a builtin that is neither decimal nor integer the count uses
  \<open>unicode.IsDigit\<close> on the runes; that table is the parameter \<open>isUnicodeDigit\<close>.
\<close>

definition trimPrefix1 :: "char \<Rightarrow> string \<Rightarrow> string" where
  "trimPrefix1 p s = (case s of [] \<Rightarrow> [] | ch # rest \<Rightarrow> if ch = p then rest else s)"

definition digitCounts :: "(nat \<Rightarrow> bool) \<Rightarrow> string \<Rightarrow> string \<Rightarrow> SimpleFailure + (nat \<times> nat)" where
  "digitCounts isUnicodeDigit value builtin =
     (if builtin = ''decimal'' then
        (case parseDecimal value of
           None \<Rightarrow> Inl (failure ''datatype'' ''value %q is not numeric'' [FmtText value])
         | Some number \<Rightarrow>
             let fraction = length (dFraction number)
             in Inr (max 1 (length (dWhole number) + fraction), fraction))
      else
        let value = (if IntegerLimits builtin \<noteq> None
                     then (case parseInteger value of Some number \<Rightarrow> iDigits number | None \<Rightarrow> value)
                     else value);
            normalized = trimPrefix1 (CHR ''-'') (trimPrefix1 (CHR ''+'') value);
            fractionText = dropWhile (\<lambda>ch. ch \<noteq> CHR ''.'') normalized
        in Inr (length (filter isUnicodeDigit (runes normalized)),
                if fractionText = [] then 0 else length (runes (tl fractionText))))"

definition validateDigitFacets :: "(nat \<Rightarrow> bool) \<Rightarrow> SimpleFacets \<Rightarrow> string \<Rightarrow> string \<Rightarrow> SimpleFailure option" where
  "validateDigitFacets isUnicodeDigit schema value builtin =
     (if \<not> HasTotalDigits schema \<and> \<not> HasFractionDigits schema then None
      else case digitCounts isUnicodeDigit value builtin of
        Inl f \<Rightarrow> Some f
      | Inr (total_digits, fraction) \<Rightarrow>
          if HasTotalDigits schema \<and> total_digits > TotalDigits schema
          then Some (failure ''totalDigits'' ''value has %d digits; maximum is %d''
                       [FmtNat total_digits, FmtNat (TotalDigits schema)])
          else if HasFractionDigits schema \<and> fraction > FractionDigits schema
          then Some (failure ''fractionDigits'' ''value has %d fraction digits; maximum is %d''
                       [FmtNat fraction, FmtNat (FractionDigits schema)])
          else None)"


section \<open>The ordered-lexeme interface\<close>

text \<open>
  What the facet checks rely on in a numeric domain: parsing gives a number, and the comparison of two
  parsed numbers is the order of the values they denote.
\<close>

locale ordered_lexemes =
  fixes parse :: "string \<Rightarrow> 'n option"
    and cmp :: "'n \<Rightarrow> 'n \<Rightarrow> int"
    and val :: "'n \<Rightarrow> 'v::linorder"
  assumes cmp_val: "parse s = Some a \<Longrightarrow> parse t = Some b \<Longrightarrow> cmp a b = cmp3 (val a) (val b)"
begin

definition limitOK :: "'n \<Rightarrow> boundTest \<Rightarrow> bool" where
  "limitOK number test =
     (case test of (enabled, constraint, limitText, minimum, exclusive) \<Rightarrow>
        enabled \<longrightarrow> (\<exists>limit. parse limitText = Some limit \<and>
          (if minimum then val limit \<le> val number else val number \<le> val limit) \<and>
          (exclusive \<longrightarrow> val number \<noteq> val limit)))"

lemma limitOK_simps:
  "limitOK n (e, c, t, True, False) \<longleftrightarrow> (e \<longrightarrow> (\<exists>l. parse t = Some l \<and> val l \<le> val n))"
  "limitOK n (e, c, t, False, False) \<longleftrightarrow> (e \<longrightarrow> (\<exists>l. parse t = Some l \<and> val n \<le> val l))"
  "limitOK n (e, c, t, True, True) \<longleftrightarrow> (e \<longrightarrow> (\<exists>l. parse t = Some l \<and> val l < val n))"
  "limitOK n (e, c, t, False, True) \<longleftrightarrow> (e \<longrightarrow> (\<exists>l. parse t = Some l \<and> val n < val l))"
  by (auto simp: limitOK_def order_less_le)

lemma runBounds_None:
  assumes "parse s = Some number"
  shows "runBounds parse cmp number display tests = None \<longleftrightarrow> (\<forall>test \<in> set tests. limitOK number test)"
proof (induction tests)
  case (Cons test tests)
  obtain enabled constraint limitText minimum exclusive
    where t: "test = (enabled, constraint, limitText, minimum, exclusive)" by (cases test) auto
  have c: "parse limitText = Some limit \<Longrightarrow> cmp number limit = cmp3 (val number) (val limit)" for limit
    by (rule cmp_val [OF assms])
  show ?case
  proof (cases "enabled \<and> parse limitText \<noteq> None")
    case True
    then obtain limit where l: "parse limitText = Some limit" by blast
    have "limitOK number test \<longleftrightarrow>
        \<not> ((minimum \<and> cmp number limit < 0) \<or> (\<not> minimum \<and> cmp number limit > 0) \<or> (exclusive \<and> cmp number limit = 0))"
      using True by (auto simp: limitOK_def t l c [OF l])
    with True Cons show ?thesis by (simp add: t l Let_def)
  next
    case False
    then show ?thesis using Cons by (auto simp: t limitOK_def)
  qed
qed simp

lemma equal_val:
  "(case (parse s, parse t) of (Some a, Some b) \<Rightarrow> cmp a b = 0 | _ \<Rightarrow> False) \<longleftrightarrow>
   (\<exists>a b. parse s = Some a \<and> parse t = Some b \<and> val a = val b)"
  by (auto simp: cmp_val split: option.splits)

end

section \<open>Integer lexemes\<close>

abbreviation isZero :: "char \<Rightarrow> bool" where
  "isZero \<equiv> (\<lambda>ch. ch = CHR ''0'')"

lemma digit_test [simp]: "\<not> (byte ch < 48 \<or> byte ch > 57) \<longleftrightarrow> isDigit ch"
  by (auto simp: isDigit_def)

lemma scanDigits_None: "\<not> allDigits v \<Longrightarrow> scanDigits v i f = None"
  by (induction v arbitrary: i f) (auto simp: isDigit_def)

lemma scanDigits_Some:
  "allDigits v \<Longrightarrow> scanDigits v i f =
     Some (if dropWhile isZero v = [] then f else min f (i + length (takeWhile isZero v)))"
proof (induction v arbitrary: i f)
  case (Cons ch v)
  have ch: "\<not> (byte ch < 48 \<or> byte ch > 57)" "allDigits v" using Cons.prems by (simp_all add: isDigit_def [of ch])
  show ?case
  proof (cases "ch = CHR ''0''")
    case True
    then show ?thesis using Cons.IH [OF ch(2), of "i + 1" f] by simp
  next
    case False
    have "scanDigits v (i + 1) (min i f) = Some (min i f)"
      using Cons.IH [OF ch(2), of "i + 1" "min i f"] by (simp add: min_def)
    moreover have "(if i < f then i else f) = min i f" by (simp add: min_def)
    ultimately show ?thesis using False ch(1) by (auto simp: min.commute)
  qed
qed simp

definition integerDigits :: "string \<Rightarrow> string" where
  "integerDigits v = (if dropWhile isZero v = [] then ''0'' else dropWhile isZero v)"

lemma integerDigits_cases:
  "dropWhile isZero v = [] \<Longrightarrow> integerDigits v = ''0''"
  "dropWhile isZero v \<noteq> [] \<Longrightarrow> integerDigits v = dropWhile isZero v"
  unfolding integerDigits_def by (rule if_P if_not_P, assumption)+

lemma drop_scan:
  assumes "allDigits v" "v \<noteq> []"
  shows "\<exists>k. scanDigits v 0 (length v - 1) = Some k \<and> drop k v = integerDigits v"
proof (cases "dropWhile isZero v = []")
  case True
  then have "last v = CHR ''0''" using assms(2) by (auto simp: dropWhile_eq_Nil_conv)
  moreover have "drop (length v - 1) v = [last v]"
    using assms(2) by (metis append_butlast_last_id append_eq_conv_conj length_butlast)
  ultimately show ?thesis using True by (simp add: scanDigits_Some [OF assms(1)] integerDigits_def)
next
  case False
  have "length v = length (takeWhile isZero v) + length (dropWhile isZero v)"
    by (metis length_append takeWhile_dropWhile_id)
  moreover have "0 < length (dropWhile isZero v)" using False by simp
  ultimately have "length (takeWhile isZero v) \<le> length v - 1" by linarith
  moreover have "drop (length (takeWhile isZero v)) v = dropWhile isZero v"
    by (simp add: dropWhile_eq_drop)
  ultimately show ?thesis
    by (simp only: scanDigits_Some [OF assms(1)] integerDigits_cases(2) [OF False] if_not_P [OF False]
        min_absorb2 add_0 option.inject) simp
qed

text \<open>The reading of a signed digit string, and the canonical numbers.\<close>

definition intVal :: "XInteger \<Rightarrow> int" where
  "intVal n = (if iNegative n then - int (decNat (iDigits n)) else int (decNat (iDigits n)))"

definition canonInteger :: "XInteger \<Rightarrow> bool" where
  "canonInteger n \<longleftrightarrow> iDigits n \<noteq> [] \<and> allDigits (iDigits n) \<and>
     (iDigits n = ''0'' \<or> noLeadingZero (iDigits n)) \<and> (iNegative n \<longrightarrow> iDigits n \<noteq> ''0'')"

lemma allDigits_dropWhile: "allDigits s \<Longrightarrow> allDigits (dropWhile P s)"
  using set_dropWhileD by (fastforce simp: list_all_iff)

lemma noLeadingZero_dropWhile: "noLeadingZero (dropWhile isZero s)"
  using dropWhile_hd [of isZero s] by (auto simp: noLeadingZero_def)

lemma decNat_zero_string: "decNat ''0'' = 0"
  by simp

lemma integerDigits_props:
  assumes "allDigits v"
  shows "allDigits (integerDigits v)" "decNat (integerDigits v) = decNat v" "integerDigits v \<noteq> []"
    "integerDigits v = ''0'' \<or> noLeadingZero (integerDigits v)"
proof -
  have z: "allDigits ''0''" by (simp add: isDigit_def)
  note c = integerDigits_cases [of v] and nz = noLeadingZero_dropWhile [of v]
    and d = allDigits_dropWhile [OF assms, of isZero] and n = decNat_dropWhile_0 [of v]
  show "integerDigits v \<noteq> []" using c by (cases "dropWhile isZero v = []") (simp_all only: list.discI not_False_eq_True)
  show "integerDigits v = ''0'' \<or> noLeadingZero (integerDigits v)"
    using c nz by (cases "dropWhile isZero v = []") (simp_all only: simp_thms)
  show "allDigits (integerDigits v)"
    using c d z by (cases "dropWhile isZero v = []") (simp_all only: simp_thms)
  show "decNat (integerDigits v) = decNat v"
    using c n by (cases "dropWhile isZero v = []") (simp_all only: simp_thms decNat_zero_string decNat.simps(1))
qed

lemma canon_zero: "allDigits s \<Longrightarrow> s \<noteq> [] \<Longrightarrow> s = ''0'' \<or> noLeadingZero s \<Longrightarrow> decNat s = 0 \<longleftrightarrow> s = ''0''"
  using decNat_leading [of s] by (auto simp: Suc_le_eq)

lemma parseInteger_Some:
  "parseInteger s = Some n \<longleftrightarrow>
    (\<exists>neg v. takeSign (trimXMLWhitespace s) = (neg, v) \<and> v \<noteq> [] \<and> allDigits v \<and>
       n = \<lparr> iDigits = integerDigits v, iNegative = neg \<and> integerDigits v \<noteq> ''0'' \<rparr>)"
proof -
  obtain neg v where t: "takeSign (trimXMLWhitespace s) = (neg, v)" by force
  show ?thesis
  proof (cases "v \<noteq> [] \<and> allDigits v")
    case True
    then obtain k where "scanDigits v 0 (length v - 1) = Some k" "drop k v = integerDigits v"
      using drop_scan by blast
    with True t show ?thesis by (auto simp: parseInteger_def Let_def)
  next
    case False
    then show ?thesis using t by (auto simp: parseInteger_def Let_def scanDigits_None split: option.splits)
  qed
qed

lemma parseInteger_canon:
  assumes "parseInteger s = Some n"
  shows "canonInteger n"
proof -
  obtain neg v where "allDigits v" and n: "n = \<lparr> iDigits = integerDigits v, iNegative = neg \<and> integerDigits v \<noteq> ''0'' \<rparr>"
    using assms by (auto simp: parseInteger_Some)
  from integerDigits_props [OF this(1)] show ?thesis by (auto simp: n canonInteger_def)
qed

text \<open>Canonical digit strings order like their values.\<close>

lemma compareDigits_canon:
  assumes "s \<noteq> []" "t \<noteq> []" "allDigits s" "allDigits t" "s = ''0'' \<or> noLeadingZero s" "t = ''0'' \<or> noLeadingZero t"
  shows "compareDigits s t = cmp3 (decNat s) (decNat t)"
proof -
  have longer: "compareDigits ''0'' u = cmp3 0 (decNat u) \<and> compareDigits u ''0'' = cmp3 (decNat u) 0"
    if u: "u \<noteq> []" "allDigits u" "noLeadingZero u" for u
  proof (cases "length u = 1")
    case True
    then show ?thesis using u strCompare_decNat [of "''0''" u] strCompare_decNat [of u "''0''"]
      by (simp add: compareDigits_def isDigit_def)
  next
    case False
    then have "1 < length u" using u(1) by (cases u) auto
    moreover have "0 < decNat u" using decNat_leading [OF u(2,3,1)] by (rule order_less_le_trans [rotated]) simp
    ultimately show ?thesis by (auto simp: compareDigits_def cmp3_def)
  qed
  show ?thesis
  proof (cases "s = ''0'' \<or> t = ''0''")
    case True
    then show ?thesis using longer [of s] longer [of t] assms
      by (cases "s = ''0''"; cases "t = ''0''") (auto simp: compareDigits_def cmp3_def)
  next
    case False
    then show ?thesis using assms by (intro compareDigits_decNat) auto
  qed
qed

lemma Integer_compare_digits:
  "Integer_compare a b =
     (if iNegative a \<noteq> iNegative b then (if iNegative a then -1 else 1)
      else if iNegative a then - compareDigits (iDigits a) (iDigits b) else compareDigits (iDigits a) (iDigits b))"
  by (simp add: Integer_compare_def compareDigits_def Let_def)

lemma cmp3_int: "cmp3 (int a) (int b) = cmp3 a b"
  by (simp add: cmp3_def)

lemma Integer_compare_val:
  assumes "canonInteger a" "canonInteger b"
  shows "Integer_compare a b = cmp3 (intVal a) (intVal b)"
proof (cases "iNegative a = iNegative b")
  case True
  have "compareDigits (iDigits a) (iDigits b) = cmp3 (decNat (iDigits a)) (decNat (iDigits b))"
    using assms by (intro compareDigits_canon) (auto simp: canonInteger_def)
  with True show ?thesis
    by (auto simp: Integer_compare_digits intVal_def cmp3_swap cmp3_minus cmp3_int)
next
  case False
  have "0 < decNat (iDigits n)" if "canonInteger n" "iNegative n" for n
    using that canon_zero [of "iDigits n"] by (auto simp: canonInteger_def)
  from this [OF assms(1)] this [OF assms(2)] False show ?thesis
    by (cases "iNegative a"; cases "iNegative b") (auto simp: Integer_compare_digits intVal_def cmp3_def)
qed

interpretation ints: ordered_lexemes parseInteger Integer_compare intVal
  by unfold_locales (auto intro: Integer_compare_val parseInteger_canon)

section \<open>Decimal lexemes\<close>

lemma scanDecimal_point:
  "scanDecimal v i (Some p) d = (if allDigits v then Some (Some p, d + length v) else None)"
proof (induction v arbitrary: i d)
  case (Cons ch v)
  have "isDigit ch \<longleftrightarrow> \<not> (byte ch < 48 \<or> 57 < byte ch)" by (auto simp: isDigit_def)
  then show ?case using Cons [of "i + 1" "d + 1"] by simp
qed simp

text \<open>A decimal lexeme: digits with at most one point.\<close>

definition wholeText :: "string \<Rightarrow> string" where
  "wholeText v = takeWhile (\<lambda>ch. ch \<noteq> CHR ''.'') v"

definition fractionText :: "string \<Rightarrow> string" where
  "fractionText v = drop 1 (dropWhile (\<lambda>ch. ch \<noteq> CHR ''.'') v)"

lemma scanDecimal_None:
  "scanDecimal v i None d =
     (if allDigits (wholeText v) \<and> allDigits (fractionText v)
      then Some (if CHR ''.'' \<in> set v then Some (i + length (wholeText v)) else None,
                 d + length (wholeText v) + length (fractionText v))
      else None)"
proof (induction v arbitrary: i d)
  case (Cons ch v)
  show ?case
  proof (cases "ch = CHR ''.''")
    case True
    then show ?thesis by (simp add: scanDecimal_point wholeText_def fractionText_def)
  next
    case False
    then have w: "wholeText (ch # v) = ch # wholeText v" "fractionText (ch # v) = fractionText v"
      by (simp_all add: wholeText_def fractionText_def)
    show ?thesis
    proof (cases "isDigit ch")
      case True
      then have "\<not> (byte ch < 48 \<or> 57 < byte ch)" by (auto simp: isDigit_def)
      with True False Cons [of "i + 1" "d + 1"] w show ?thesis by simp
    next
      case nd: False
      then have "byte ch < 48 \<or> 57 < byte ch" by (auto simp: isDigit_def)
      with nd False w show ?thesis by simp
    qed
  qed
qed (simp add: wholeText_def fractionText_def)

lemma point_split: "CHR ''.'' \<in> set v \<Longrightarrow> take (length (wholeText v)) v = wholeText v \<and> drop (length (wholeText v) + 1) v = fractionText v"
  by (induction v) (auto simp: wholeText_def fractionText_def)

lemma no_point_split: "CHR ''.'' \<notin> set v \<Longrightarrow> wholeText v = v \<and> fractionText v = []"
  by (induction v) (auto simp: wholeText_def fractionText_def)

definition stripTrailing :: "string \<Rightarrow> string" where
  "stripTrailing f = rev (dropWhile isZero (rev f))"

definition makeDecimal :: "bool \<Rightarrow> string \<Rightarrow> string \<Rightarrow> XDecimal" where
  "makeDecimal neg whole fraction =
     \<lparr> dWhole = dropWhile isZero whole, dFraction = stripTrailing fraction,
       dNegative = neg \<and> (dropWhile isZero whole \<noteq> [] \<or> stripTrailing fraction \<noteq> []) \<rparr>"

lemma parseDecimal_Some:
  "parseDecimal s = Some n \<longleftrightarrow>
    (\<exists>neg v. takeSign (trimXMLWhitespace s) = (neg, v) \<and> allDigits (wholeText v) \<and> allDigits (fractionText v) \<and>
       wholeText v @ fractionText v \<noteq> [] \<and> n = makeDecimal neg (wholeText v) (fractionText v))"
proof -
  obtain neg v where t: "takeSign (trimXMLWhitespace s) = (neg, v)" by force
  define p where "p = (if CHR ''.'' \<in> set v then Some (length (wholeText v)) else None)"
  have parts: "(case p of None \<Rightarrow> (v, []) | Some p \<Rightarrow> (take p v, drop (p + 1) v)) = (wholeText v, fractionText v)"
    using point_split [of v] no_point_split [of v] by (simp add: p_def)
  have scan: "scanDecimal v 0 None 0 =
      (if allDigits (wholeText v) \<and> allDigits (fractionText v)
       then Some (p, length (wholeText v @ fractionText v)) else None)"
    by (simp add: scanDecimal_None p_def)
  have "parseDecimal s = (case scanDecimal v 0 None 0 of None \<Rightarrow> None | Some (point, digits) \<Rightarrow>
      if digits = 0 then None
      else (case (case point of None \<Rightarrow> (v, []) | Some p \<Rightarrow> (take p v, drop (p + 1) v)) of
        (whole, fraction) \<Rightarrow> Some (makeDecimal neg whole fraction)))"
    by (simp only: parseDecimal_def t Let_def prod.case makeDecimal_def stripTrailing_def)
  also have "\<dots> = (if allDigits (wholeText v) \<and> allDigits (fractionText v) \<and> wholeText v @ fractionText v \<noteq> []
      then Some (makeDecimal neg (wholeText v) (fractionText v)) else None)"
    unfolding scan using parts by simp
  finally show ?thesis using t by auto
qed

text \<open>The value of the digits after the point.\<close>

primrec fracVal :: "string \<Rightarrow> rat" where
  "fracVal [] = 0"
| "fracVal (ch # rest) = (of_nat (digitVal ch) + fracVal rest) / 10"

lemma fracVal_decNat: "fracVal s = of_nat (decNat s) / 10 ^ length s"
  by (induction s) (simp_all add: field_simps)

lemma fracVal_range: "allDigits s \<Longrightarrow> 0 \<le> fracVal s \<and> fracVal s < 1"
proof (induction s)
  case (Cons ch s)
  then have "digitVal ch \<le> 9" by (simp add: isDigit_less_10)
  then have "(of_nat (digitVal ch) :: rat) \<le> 9" by (metis of_nat_le_iff of_nat_numeral)
  with Cons show ?case by (simp add: field_simps)
qed simp

lemma fracVal_pos:
  assumes "allDigits s" "noTrailingZero s" "s \<noteq> []"
  shows "0 < fracVal s"
  using assms
proof (induction s)
  case (Cons ch s)
  show ?case
  proof (cases "s = []")
    case True
    with Cons.prems digitVal_eq_0 [of ch] show ?thesis by (simp add: noTrailingZero_def)
  next
    case False
    with Cons have "0 < fracVal s" by (simp add: noTrailingZero_def)
    then show ?thesis by (simp add: add_nonneg_pos)
  qed
qed simp

lemma noTrailingZero_tl: "noTrailingZero (ch # s) \<Longrightarrow> noTrailingZero s"
  by (simp add: noTrailingZero_def split: if_splits)

text \<open>Fractions without trailing zeros order lexicographically.\<close>

lemma strCompare_fracVal:
  "allDigits s \<Longrightarrow> allDigits t \<Longrightarrow> noTrailingZero s \<Longrightarrow> noTrailingZero t \<Longrightarrow>
   strCompare s t = cmp3 (fracVal s) (fracVal t)"
proof (induction s t rule: strCompare.induct)
  case (2 y ys)
  then show ?case using fracVal_pos [of "y # ys"] by (simp add: cmp3_def)
next
  case (3 x xs)
  then show ?case using fracVal_pos [of "x # xs"] by (simp add: cmp3_def not_less)
next
  case (4 x xs y ys)
  have r: "0 \<le> fracVal xs" "fracVal xs < 1" "0 \<le> fracVal ys" "fracVal ys < 1"
    using fracVal_range [of xs] fracVal_range [of ys] 4 by auto
  have lt: "fracVal (a # as) < fracVal (b # bs)"
    if "digitVal a < digitVal b" "fracVal as < 1" "0 \<le> fracVal bs" for a b as bs
  proof -
    have "(of_nat (digitVal a) :: rat) + 1 \<le> of_nat (digitVal b)"
      using that(1) by (metis Suc_leI of_nat_Suc add.commute of_nat_le_iff)
    with that show ?thesis by simp
  qed
  have d: "isDigit x" "isDigit y" using 4 by auto
  consider "byte x < byte y" | "byte y < byte x" | "x = y"
    using linorder_less_linear [of "byte x" "byte y"] by auto
  then show ?case
  proof cases
    case 1
    with lt [of x y xs ys] r d show ?thesis by (simp add: cmp3_def digitVal_less)
  next
    case 2
    with lt [of y x ys xs] r d show ?thesis by (simp add: cmp3_def digitVal_less)
  next
    case 3
    have "strCompare xs ys = cmp3 (fracVal xs) (fracVal ys)"
      using 4 3 by (auto dest: noTrailingZero_tl)
    with 3 show ?thesis by (simp add: cmp3_def)
  qed
qed simp

definition decVal :: "XDecimal \<Rightarrow> rat" where
  "decVal n = (if dNegative n then -1 else 1) * (of_nat (decNat (dWhole n)) + fracVal (dFraction n))"

definition canonDecimal :: "XDecimal \<Rightarrow> bool" where
  "canonDecimal n \<longleftrightarrow> allDigits (dWhole n) \<and> allDigits (dFraction n) \<and> noLeadingZero (dWhole n) \<and>
     noTrailingZero (dFraction n) \<and> (dNegative n \<longrightarrow> dWhole n \<noteq> [] \<or> dFraction n \<noteq> [])"

lemma stripTrailing_props:
  assumes "allDigits f"
  shows "allDigits (stripTrailing f)" "noTrailingZero (stripTrailing f)" "fracVal (stripTrailing f) = fracVal f"
proof -
  have "allDigits (rev f)" using assms by (simp add: list_all_iff)
  from allDigits_dropWhile [OF this, of isZero] show "allDigits (stripTrailing f)"
    by (simp add: stripTrailing_def list_all_iff)
  show "noTrailingZero (stripTrailing f)"
    using dropWhile_hd [of isZero "rev f"] by (auto simp: noTrailingZero_def stripTrailing_def last_rev)
  have "fracVal (a @ replicate k (CHR ''0'')) = fracVal a" for a k
  proof (induction a)
    case Nil
    show ?case by (induction k) simp_all
  qed simp
  moreover have "\<exists>k. f = stripTrailing f @ replicate k (CHR ''0'')"
  proof -
    have "rev f = takeWhile isZero (rev f) @ dropWhile isZero (rev f)" by simp
    moreover have "takeWhile isZero (rev f) = replicate (length (takeWhile isZero (rev f))) (CHR ''0'')"
      by (rule replicate_eqI [symmetric, THEN sym]) (auto dest: set_takeWhileD)
    ultimately have "f = rev (dropWhile isZero (rev f)) @ rev (replicate (length (takeWhile isZero (rev f))) (CHR ''0''))"
      by (metis rev_append rev_rev_ident)
    then show ?thesis unfolding stripTrailing_def rev_replicate by blast
  qed
  ultimately show "fracVal (stripTrailing f) = fracVal f" by metis
qed

lemma parseDecimal_canon:
  assumes "parseDecimal s = Some n"
  shows "canonDecimal n"
proof -
  obtain neg v where v: "allDigits (wholeText v)" "allDigits (fractionText v)" and
    n: "n = makeDecimal neg (wholeText v) (fractionText v)"
    using assms unfolding parseDecimal_Some by blast
  show ?thesis
    unfolding canonDecimal_def n makeDecimal_def XDecimal.simps
    using allDigits_dropWhile [OF v(1), of isZero] noLeadingZero_dropWhile [of "wholeText v"] stripTrailing_props [OF v(2)]
    by blast
qed

lemma cmp3_add_whole:
  fixes w w' :: nat and f f' :: rat
  assumes "0 \<le> f" "f < 1" "0 \<le> f'" "f' < 1"
  shows "cmp3 (of_nat w + f) (of_nat w' + f') = (if cmp3 w w' = 0 then cmp3 f f' else cmp3 w w')"
proof -
  have "(of_nat a :: rat) + 1 \<le> of_nat b" if "a < b" for a b :: nat
    using that by (metis Suc_leI of_nat_Suc add.commute of_nat_le_iff)
  from this [of w w'] this [of w' w] assms show ?thesis
    by (cases w w' rule: linorder_cases) (auto simp: cmp3_def)
qed

lemma Decimal_compare_val:
  assumes "canonDecimal a" "canonDecimal b"
  shows "Decimal_compare a b = cmp3 (decVal a) (decVal b)"
proof -
  let ?va = "of_nat (decNat (dWhole a)) + fracVal (dFraction a)" and ?vb = "of_nat (decNat (dWhole b)) + fracVal (dFraction b)"
  have r: "0 \<le> fracVal (dFraction a)" "fracVal (dFraction a) < 1" "0 \<le> fracVal (dFraction b)" "fracVal (dFraction b) < 1"
    using assms fracVal_range by (auto simp: canonDecimal_def)
  have whole: "compareDigits (dWhole a) (dWhole b) = cmp3 (decNat (dWhole a)) (decNat (dWhole b))"
    using assms by (intro compareDigits_decNat) (auto simp: canonDecimal_def)
  have frac: "strCompare (dFraction a) (dFraction b) = cmp3 (fracVal (dFraction a)) (fracVal (dFraction b))"
    using assms by (intro strCompare_fracVal) (auto simp: canonDecimal_def)
  have mag: "(if length (dWhole a) < length (dWhole b) then -1
       else if length (dWhole a) > length (dWhole b) then 1
       else let r = strCompare (dWhole a) (dWhole b) in
            if r = 0 then strCompare (dFraction a) (dFraction b) else r) = cmp3 ?va ?vb"
    unfolding cmp3_add_whole [OF r] whole [symmetric] frac [symmetric] by (simp add: compareDigits_def Let_def)
  have pos: "0 < of_nat (decNat (dWhole n)) + fracVal (dFraction n)" if "canonDecimal n" "dNegative n" for n
  proof (cases "dWhole n = []")
    case True
    then show ?thesis using that fracVal_pos [of "dFraction n"] by (auto simp: canonDecimal_def)
  next
    case False
    then have "0 < decNat (dWhole n)"
      using that decNat_leading [of "dWhole n"] by (auto simp: canonDecimal_def intro: order_less_le_trans [rotated])
    then show ?thesis using that fracVal_range [of "dFraction n"] by (auto simp: canonDecimal_def intro: add_pos_nonneg)
  qed
  have nn: "0 \<le> ?va" "0 \<le> ?vb" using r by simp_all
  show ?thesis
  proof (cases "dNegative a = dNegative b")
    case True
    have "Decimal_compare a b = (if dNegative a then - cmp3 ?va ?vb else cmp3 ?va ?vb)"
      using True unfolding Decimal_compare_def mag by (simp add: Let_def)
    also have "\<dots> = cmp3 (decVal a) (decVal b)"
      using True cmp3_minus [of ?va ?vb] by (simp add: decVal_def cmp3_swap)
    finally show ?thesis .
  next
    case False
    then show ?thesis using pos [OF assms(1)] pos [OF assms(2)] nn
      by (cases "dNegative a"; cases "dNegative b") (auto simp: Decimal_compare_def decVal_def cmp3_def)
  qed
qed

interpretation decs: ordered_lexemes parseDecimal Decimal_compare decVal
  by unfold_locales (auto intro: Decimal_compare_val parseDecimal_canon)


section \<open>Reading lexemes\<close>

lemma makeDecimal_val:
  assumes "allDigits whole" "allDigits fraction"
  shows "decVal (makeDecimal neg whole fraction) =
    (if neg then -1 else 1) * of_nat (decNat (whole @ fraction)) / 10 ^ length fraction"
proof -
  have v: "of_nat (decNat (dropWhile isZero whole)) + fracVal (stripTrailing fraction) =
      (of_nat (decNat (whole @ fraction)) / 10 ^ length fraction :: rat)"
    using stripTrailing_props(3) [OF assms(2)]
    by (simp add: decNat_dropWhile_0 fracVal_decNat [of fraction] decNat_append field_simps)
  have zero: "of_nat (decNat (dropWhile isZero whole)) + fracVal (stripTrailing fraction) = (0::rat)"
    if "\<not> dropWhile isZero whole \<noteq> []" "\<not> stripTrailing fraction \<noteq> []"
    using that by (simp only: not_not decNat.simps fracVal.simps of_nat_0 add_0)
  have gen: "(if neg \<and> (P \<or> Q) then -1 else 1) * x = (if neg then -1 else 1) * (x::rat)"
    if "\<not> P \<Longrightarrow> \<not> Q \<Longrightarrow> x = 0" for P Q x
    using that by (cases P; cases Q) simp_all
  show ?thesis
    unfolding decVal_def makeDecimal_def XDecimal.simps times_divide_eq_right [symmetric] v [symmetric]
    by (rule gen [OF zero])
qed

lemma trim_no_space:
  assumes "\<forall>ch \<in> set s. \<not> isXMLSpace ch"
  shows "trimXMLWhitespace s = s"
proof -
  have "dropWhile isXMLSpace u = u" if "\<forall>ch \<in> set u. \<not> isXMLSpace ch" for u
    using that by (cases u) auto
  from this [of s] this [of "rev s"] assms show ?thesis by (simp add: trimXMLWhitespace_def)
qed

lemma digit_not_space: "isDigit ch \<Longrightarrow> \<not> isXMLSpace ch \<and> ch \<noteq> CHR ''+'' \<and> ch \<noteq> CHR ''-'' \<and> ch \<noteq> CHR ''.''"
  by (auto simp: isXMLSpace_def XMLWhitespace_def isDigit_def)

lemma parseInteger_val:
  assumes "takeSign (trimXMLWhitespace s) = (neg, v)" "parseInteger s = Some n"
  shows "intVal n = (if neg then - int (decNat v) else int (decNat v))"
proof -
  from assms have v: "allDigits v" "v \<noteq> []"
    and n': "n = \<lparr> iDigits = integerDigits v, iNegative = neg \<and> integerDigits v \<noteq> ''0'' \<rparr>"
    by (auto simp: parseInteger_Some)
  show ?thesis
  proof (cases "integerDigits v = ''0''")
    case True
    then have "decNat v = 0" using integerDigits_props(2) [OF v(1)] decNat_zero_string by simp
    with True show ?thesis by (simp add: intVal_def n')
  next
    case False
    then show ?thesis using integerDigits_props(2) [OF v(1)] by (simp add: intVal_def n')
  qed
qed

lemma parseInteger_accepts:
  assumes "takeSign (trimXMLWhitespace s) = (neg, v)"
  shows "parseInteger s \<noteq> None \<longleftrightarrow> v \<noteq> [] \<and> allDigits v"
  using assms parseInteger_Some [of s] by (cases "parseInteger s") auto

lemma signed_digits:
  assumes "allDigits w" "w \<noteq> []"
  shows "takeSign (trimXMLWhitespace ((if neg then ''-'' else []) @ w)) = (neg, w)"
proof -
  have "\<forall>ch \<in> set w. \<not> isXMLSpace ch" using assms digit_not_space by (auto simp: list_all_iff)
  then have "trimXMLWhitespace ((if neg then ''-'' else []) @ w) = (if neg then ''-'' else []) @ w"
    by (intro trim_no_space) (auto simp: isXMLSpace_def XMLWhitespace_def)
  then show ?thesis using assms digit_not_space by (cases w) (auto simp: takeSign_def)
qed

lemma limitInteger_val:
  assumes "allDigits w" "w \<noteq> []" "t = (if neg then ''-'' else []) @ w"
  shows "parseInteger t = Some (limitInteger t)" "intVal (limitInteger t) = (if neg then - int (decNat w) else int (decNat w))"
proof -
  note sg = signed_digits [OF assms(1,2), of neg, folded assms(3)]
  then show p: "parseInteger t = Some (limitInteger t)"
    using parseInteger_accepts [OF sg] assms(1,2) by (auto simp: limitInteger_def)
  show "intVal (limitInteger t) = (if neg then - int (decNat w) else int (decNat w))"
    by (rule parseInteger_val [OF sg p])
qed

text \<open>Parsing the canonical spelling of a decimal: sign, digits, and a point with digits.\<close>

lemma parseDecimal_spelled:
  assumes "allDigits w" "w \<noteq> []" "allDigits f"
  defines "body \<equiv> w @ (if f = [] then [] else CHR ''.'' # f)"
  shows "parseDecimal ((if neg then ''-'' else []) @ body) = Some (makeDecimal neg w f)"
proof -
  have w: "\<forall>ch \<in> set w. \<not> isXMLSpace ch \<and> ch \<noteq> CHR ''.''" and f: "\<forall>ch \<in> set f. \<not> isXMLSpace ch"
    using assms digit_not_space by (auto simp: list_all_iff)
  have nosp: "\<not> isXMLSpace (CHR ''.'')" "\<not> isXMLSpace (CHR ''-'')" by (auto simp: isXMLSpace_def XMLWhitespace_def)
  have trim: "trimXMLWhitespace ((if neg then ''-'' else []) @ body) = (if neg then ''-'' else []) @ body"
    using w f nosp by (intro trim_no_space) (auto simp: body_def split: if_splits)
  have hd: "hd w \<noteq> CHR ''+''" "hd w \<noteq> CHR ''-''"
    using assms(1,2) digit_not_space [of "hd w"] by (cases w; auto)+
  have sign: "takeSign ((if neg then ''-'' else []) @ body) = (neg, body)"
    using hd assms(2) by (cases w) (auto simp: takeSign_def body_def)
  have "wholeText body = w" "fractionText body = f"
    using w by (auto simp: wholeText_def fractionText_def body_def takeWhile_append2 dropWhile_append2)
  with trim sign assms(1-3) show ?thesis by (simp add: parseDecimal_Some)
qed

section \<open>Properties\<close>

text \<open>
  C30: an integer lexeme is accepted exactly when, after XML whitespace and one optional sign are taken off,
  a nonempty run of ASCII digits remains; the parsed number denotes that signed digit string, is canonical,
  and comparing two parsed integers orders their values without ever converting them.
\<close>

theorem integer_lexemes_exact:
  assumes "takeSign (trimXMLWhitespace s) = (neg, v)"
  shows "(parseInteger s \<noteq> None \<longleftrightarrow> v \<noteq> [] \<and> allDigits v) \<and>
    (\<forall>n. parseInteger s = Some n \<longrightarrow> canonInteger n \<and> intVal n = (if neg then - int (decNat v) else int (decNat v)) \<and>
      (\<forall>t m. parseInteger t = Some m \<longrightarrow> Integer_compare n m = cmp3 (intVal n) (intVal m)))"
  using parseInteger_val [OF assms] parseInteger_accepts [OF assms] parseInteger_canon ints.cmp_val by blast

theorem integer_lexemes_exact_witness:
  "parseInteger '' -007'' = Some \<lparr> iDigits = ''7'', iNegative = True \<rparr> \<and>
   intVal \<lparr> iDigits = ''7'', iNegative = True \<rparr> = - 7"
proof -
  have t: "takeSign (trimXMLWhitespace '' -007'') = (True, ''007'')" by code_simp
  have p: "parseInteger '' -007'' = Some \<lparr> iDigits = ''7'', iNegative = True \<rparr>" by code_simp
  show ?thesis using integer_lexemes_exact [OF t] p by (simp add: digitVal_def)
qed

text \<open>The ranges of the named integer types, as numbers.\<close>

definition typeRange :: "string \<Rightarrow> (int option \<times> int option) option" where
  "typeRange name =
     (if name = ''integer'' then Some (None, None)
      else if name = ''nonPositiveInteger'' then Some (None, Some 0)
      else if name = ''negativeInteger'' then Some (None, Some (-1))
      else if name = ''nonNegativeInteger'' then Some (Some 0, None)
      else if name = ''positiveInteger'' then Some (Some 1, None)
      else if name = ''long'' then Some (Some (- (2 ^ 63)), Some (2 ^ 63 - 1))
      else if name = ''int'' then Some (Some (- (2 ^ 31)), Some (2 ^ 31 - 1))
      else if name = ''short'' then Some (Some (- (2 ^ 15)), Some (2 ^ 15 - 1))
      else if name = ''byte'' then Some (Some (- (2 ^ 7)), Some (2 ^ 7 - 1))
      else if name = ''unsignedLong'' then Some (Some 0, Some (2 ^ 64 - 1))
      else if name = ''unsignedInt'' then Some (Some 0, Some (2 ^ 32 - 1))
      else if name = ''unsignedShort'' then Some (Some 0, Some (2 ^ 16 - 1))
      else if name = ''unsignedByte'' then Some (Some 0, Some (2 ^ 8 - 1))
      else None)"


definition limitText :: "int \<Rightarrow> string" where
  "limitText z = (if z < 0 then ''-'' else []) @ showNat (nat \<bar>z\<bar>)"

lemma limitText_val:
  "parseInteger (limitText z) = Some (limitInteger (limitText z))" "intVal (limitInteger (limitText z)) = z"
  "limitText z \<noteq> []"
  using limitInteger_val [OF showNat_digits showNat_not_Nil limitText_def [of z]]
  by (auto simp: decNat_showNat limitText_def)

lemma limitText_table:
  "''0'' = limitText 0" "''1'' = limitText 1" "''-1'' = limitText (-1)"
  "''-9223372036854775808'' = limitText (- (2 ^ 63))" "''9223372036854775807'' = limitText (2 ^ 63 - 1)"
  "''-2147483648'' = limitText (- (2 ^ 31))" "''2147483647'' = limitText (2 ^ 31 - 1)"
  "''-32768'' = limitText (- (2 ^ 15))" "''32767'' = limitText (2 ^ 15 - 1)"
  "''-128'' = limitText (- (2 ^ 7))" "''127'' = limitText (2 ^ 7 - 1)"
  "''18446744073709551615'' = limitText (2 ^ 64 - 1)" "''4294967295'' = limitText (2 ^ 32 - 1)"
  "''65535'' = limitText (2 ^ 16 - 1)" "''255'' = limitText (2 ^ 8 - 1)"
  by (simp_all add: limitText_def showNat.simps char_of_def bit_0)

lemma IntegerLimits_range:
  "IntegerLimits name =
     map_option (\<lambda>(lo, hi). (case lo of None \<Rightarrow> [] | Some z \<Rightarrow> limitText z, case hi of None \<Rightarrow> [] | Some z \<Rightarrow> limitText z))
       (typeRange name)"
  unfolding IntegerLimits_def typeRange_def
  by (simp only: if_distrib [of "map_option f" for f] option.map prod.case option.case limitText_table [symmetric])

text \<open>
  C29: a value is valid for a named integer type exactly when it is an integer lexeme whose number lies in
  the type's range, with the bounds as powers of two, however many digits the lexeme has; an unknown name
  accepts nothing.
\<close>

theorem integer_type_ranges:
  "validInteger name s \<longleftrightarrow>
     (\<exists>n lo hi. parseInteger s = Some n \<and> typeRange name = Some (lo, hi) \<and>
        (case lo of None \<Rightarrow> True | Some z \<Rightarrow> z \<le> intVal n) \<and> (case hi of None \<Rightarrow> True | Some z \<Rightarrow> intVal n \<le> z))"
proof (cases "parseInteger s")
  case (Some n)
  have "Integer_compare n (limitInteger (limitText z)) = cmp3 (intVal n) z" for z
    using ints.cmp_val [OF Some limitText_val(1)] by (simp add: limitText_val)
  moreover obtain lo hi where "typeRange name = None \<or> typeRange name = Some (lo, hi)" by (cases "typeRange name") auto
  ultimately show ?thesis
    by (cases lo; cases hi) (auto simp: validInteger_def Some IntegerLimits_range limitText_val)
qed (simp add: validInteger_def)

text \<open>
  C21: a decimal lexeme denotes the rational its digits spell, the comparison of two parsed decimals is the
  order of those rationals, and two texts are reported equal exactly when both are decimals with the same
  value, whatever zeros, signs of zero or scales they are written with.
\<close>

theorem decimal_lexemes_exact:
  "(parseDecimal s = Some n \<longrightarrow> parseDecimal t = Some m \<longrightarrow> Decimal_compare n m = cmp3 (decVal n) (decVal m)) \<and>
   (decimalValuesEqual s t \<longleftrightarrow> (\<exists>a b. parseDecimal s = Some a \<and> parseDecimal t = Some b \<and> decVal a = decVal b)) \<and>
   (parseDecimal s = Some n \<longrightarrow> (\<exists>neg v. takeSign (trimXMLWhitespace s) = (neg, v) \<and>
      decVal n = (if neg then -1 else 1) * of_nat (decNat (wholeText v @ fractionText v)) / 10 ^ length (fractionText v)))"
proof (intro conjI impI)
  show "Decimal_compare n m = cmp3 (decVal n) (decVal m)" if "parseDecimal s = Some n" "parseDecimal t = Some m"
    using that by (rule decs.cmp_val)
  show "decimalValuesEqual s t \<longleftrightarrow> (\<exists>a b. parseDecimal s = Some a \<and> parseDecimal t = Some b \<and> decVal a = decVal b)"
    unfolding decimalValuesEqual_def by (rule decs.equal_val)
  assume "parseDecimal s = Some n"
  then show "\<exists>neg v. takeSign (trimXMLWhitespace s) = (neg, v) \<and>
      decVal n = (if neg then -1 else 1) * of_nat (decNat (wholeText v @ fractionText v)) / 10 ^ length (fractionText v)"
    by (auto simp: parseDecimal_Some makeDecimal_val)
qed

theorem decimal_lexemes_exact_witness:
  "decimalValuesEqual ''-0.0'' '' +00.000 '' \<and> decimalValuesEqual ''1.50'' ''+01.5''"
proof -
  have p: "parseDecimal ''-0.0'' = Some \<lparr> dWhole = [], dFraction = [], dNegative = False \<rparr>"
    "parseDecimal '' +00.000 '' = Some \<lparr> dWhole = [], dFraction = [], dNegative = False \<rparr>"
    "parseDecimal ''1.50'' = Some \<lparr> dWhole = ''1'', dFraction = ''5'', dNegative = False \<rparr>"
    "parseDecimal ''+01.5'' = Some \<lparr> dWhole = ''1'', dFraction = ''5'', dNegative = False \<rparr>" by code_simp+
  show ?thesis
    using decimal_lexemes_exact [of "''-0.0''" _ "'' +00.000 ''"] decimal_lexemes_exact [of "''1.50''" _ "''+01.5''"]
    by (simp add: p)
qed

text \<open>
  C25: the text of every decimal the exact constructor builds is a decimal lexeme of the schema layer and
  denotes the same number, so a value survives rendering and re-reading.
\<close>

theorem decimal_text_round_trip:
  assumes "0 < d" "hostInt n" "hostInt d" "NewDecimal (Some (n, d)) = Inr w"
  shows "\<exists>x. parseDecimal (exText w) = Some x \<and> decVal x = of_int n / of_int d"
proof -
  let ?v = "ratNorm n d"
  let ?s = "fst (decimalScale (snd ?v))"
  from assms(4) have fin: "snd (decimalScale (snd ?v))" and tx: "exText w = FloatString ?v ?s"
    by (auto simp: NewDecimal_Inr [OF assms(1-3)])
  have low: "lowest ?v" and val: "ratVal ?v = of_int n / of_int d"
    using assms(1) by (simp_all add: ratNorm_lowest ratNorm_val)
  then have pos: "0 < snd ?v" by (simp add: lowest_def)
  have dvd: "nat (snd ?v) dvd 10 ^ ?s" using decimalScale_spec(2) [OF pos fin] by simp
  let ?neg = "fst ?v < 0"
  obtain wh f where spell: "exText w = (if ?neg then ''-'' else []) @ wh @ (if f = [] then [] else CHR ''.'' # f)"
    and dig: "allDigits wh" "wh \<noteq> []" "allDigits f"
  proof (cases "snd ?v = 1")
    case True
    have "?s = 0" using scale_zero_iff [OF pos fin] True by simp
    then have "exText w = (if ?neg then ''-'' else []) @ showNat (nat \<bar>fst ?v\<bar>) @ []"
      using True tx by (simp add: FloatString_def ratIsInt_def showInt_def)
    then show thesis using that [of "showNat (nat \<bar>fst ?v\<bar>)" "[]"] showNat_digits by simp
  next
    case False
    note F = FloatString_eq [OF low dvd False]
    note P = padded_props [OF fracPart_exact(2) [OF pos dvd] F(2)]
    have "padded ?s (fracPart ?v ?s) \<noteq> []" using P(1) F(2) by auto
    then show thesis using that [OF _ showNat_digits showNat_not_Nil P(3)] F(1) tx by simp
  qed
  have p: "parseDecimal (exText w) = Some (makeDecimal ?neg wh f)"
    unfolding spell by (rule parseDecimal_spelled [OF dig])
  have "readDecimal (exText w) = decVal (makeDecimal ?neg wh f)"
    unfolding spell makeDecimal_val [OF dig(1,3)]
    using readDecimal_parts [OF dig(1,2)] by (cases "f = []") simp_all
  moreover have "readDecimal (exText w) = ratVal ?v"
    unfolding tx using scale_zero_iff [OF pos fin] by (intro FloatString_reads_back [OF low dvd]) auto
  ultimately show ?thesis using p val by simp
qed

theorem decimal_text_round_trip_witness:
  "NewDecimal (Some (-15, 12)) = Inr sampleDecimal \<and>
   (\<exists>x. parseDecimal (exText sampleDecimal) = Some x \<and> decVal x = of_int (-15) / of_int 12)"
proof -
  have "hostInt (-15)" "hostInt 12" by code_simp+
  then show ?thesis by (intro conjI sampleDecimal_new decimal_text_round_trip [OF _ _ _ sampleDecimal_new]) simp_all
qed


text \<open>
  C27: a decimal satisfies the bound facets exactly when it parses, every enabled limit parses, and its
  rational value lies within each of them, strictly for the exclusive ones; comparison is exact at any length.
\<close>

theorem decimal_bounds_exact:
  "validateDecimalBounds schema s display = None \<longleftrightarrow>
    (\<exists>n. parseDecimal s = Some n \<and>
      (HasMinInclusive schema \<longrightarrow> (\<exists>l. parseDecimal (MinInclusive schema) = Some l \<and> decVal l \<le> decVal n)) \<and>
      (HasMaxInclusive schema \<longrightarrow> (\<exists>l. parseDecimal (MaxInclusive schema) = Some l \<and> decVal n \<le> decVal l)) \<and>
      (HasMinExclusive schema \<longrightarrow> (\<exists>l. parseDecimal (MinExclusive schema) = Some l \<and> decVal l < decVal n)) \<and>
      (HasMaxExclusive schema \<longrightarrow> (\<exists>l. parseDecimal (MaxExclusive schema) = Some l \<and> decVal n < decVal l)))"
proof (cases "parseDecimal s")
  case (Some n)
  have "validateDecimalBounds schema s display = None \<longleftrightarrow> (\<forall>test \<in> set (boundTests schema). decs.limitOK n test)"
    using decs.runBounds_None [OF Some] by (simp add: validateDecimalBounds_def Some)
  then show ?thesis by (simp add: boundTests_def decs.limitOK_simps Some)
qed (simp add: validateDecimalBounds_def)

theorem decimal_bounds_exact_witness:
  "validateDecimalBounds (noFacets\<lparr> HasMinExclusive := True, MinExclusive := ''0'' \<rparr>) ''0.5'' ''0.5'' = None"
proof -
  have p: "parseDecimal ''0.5'' = Some \<lparr> dWhole = [], dFraction = ''5'', dNegative = False \<rparr>"
    "parseDecimal ''0'' = Some \<lparr> dWhole = [], dFraction = [], dNegative = False \<rparr>" by code_simp+
  show ?thesis
    using decimal_bounds_exact [of "noFacets\<lparr> HasMinExclusive := True, MinExclusive := ''0'' \<rparr>" "''0.5''" "''0.5''"]
    by (simp add: p noFacets_def decVal_def digitVal_def)
qed

text \<open>
  C28: the integer bound facets decide the same question over the integers: the value parses, every enabled
  limit parses, and the number respects each of them.
\<close>

theorem integer_bounds_exact:
  "validateIntegerBounds schema s display = None \<longleftrightarrow>
    (\<exists>n. parseInteger s = Some n \<and>
      (HasMinInclusive schema \<longrightarrow> (\<exists>l. parseInteger (MinInclusive schema) = Some l \<and> intVal l \<le> intVal n)) \<and>
      (HasMaxInclusive schema \<longrightarrow> (\<exists>l. parseInteger (MaxInclusive schema) = Some l \<and> intVal n \<le> intVal l)) \<and>
      (HasMinExclusive schema \<longrightarrow> (\<exists>l. parseInteger (MinExclusive schema) = Some l \<and> intVal l < intVal n)) \<and>
      (HasMaxExclusive schema \<longrightarrow> (\<exists>l. parseInteger (MaxExclusive schema) = Some l \<and> intVal n < intVal l)))"
proof (cases "parseInteger s")
  case (Some n)
  have "validateIntegerBounds schema s display = None \<longleftrightarrow> (\<forall>test \<in> set (boundTests schema). ints.limitOK n test)"
    using ints.runBounds_None [OF Some] by (simp add: validateIntegerBounds_def Some)
  then show ?thesis by (simp add: boundTests_def ints.limitOK_simps Some)
qed (simp add: validateIntegerBounds_def)

theorem integer_bounds_exact_witness:
  "validateIntegerBounds (noFacets\<lparr> HasMaxInclusive := True, MaxInclusive := ''9'' \<rparr>) ''+09'' ''+09'' = None"
proof -
  have p: "parseInteger ''+09'' = Some \<lparr> iDigits = ''9'', iNegative = False \<rparr>"
    "parseInteger ''9'' = Some \<lparr> iDigits = ''9'', iNegative = False \<rparr>" by code_simp+
  show ?thesis
    using integer_bounds_exact [of "noFacets\<lparr> HasMaxInclusive := True, MaxInclusive := ''9'' \<rparr>" "''+09''" "''+09''"]
    by (simp add: p noFacets_def)
qed

section \<open>Total digits\<close>

lemma frac_digits_minimal:
  assumes "allDigits f" "noTrailingZero f" "fracVal f * 10 ^ k = of_int z"
  shows "length f \<le> k"
proof (rule ccontr)
  assume "\<not> length f \<le> k"
  then obtain m where m: "length f = Suc (k + m)" by (metis not_le less_iff_Suc_add)
  then have ne: "f \<noteq> []" by auto
  have "of_nat (decNat f) = fracVal f * 10 ^ length f" by (simp add: fracVal_decNat)
  also have "\<dots> = (fracVal f * 10 ^ k) * 10 ^ Suc m" unfolding m by (simp add: power_add)
  also have "\<dots> = of_int z * 10 ^ Suc m" unfolding assms(3) ..
  finally have "(of_int (int (decNat f)) :: rat) = of_int (z * 10 ^ Suc m)" by simp
  then have z: "int (decNat f) = z * 10 ^ Suc m" by (simp only: of_int_eq_iff)
  have "decNat f = decNat (butlast f @ [last f])" using ne by simp
  also have "\<dots> = decNat (butlast f) * 10 + digitVal (last f)" by (simp only: decNat_append) simp
  finally have "int (decNat f) = int (decNat (butlast f)) * 10 + int (digitVal (last f))" by simp
  then have "int (decNat f) mod 10 = int (digitVal (last f)) mod 10" by simp
  moreover have "int (decNat f) mod 10 = 0" unfolding z by simp
  moreover have d: "isDigit (last f)" using assms(1) ne by (simp add: list_all_iff)
  ultimately have "digitVal (last f) = 0" using isDigit_less_10 [OF d] by simp
  with digitVal_eq_0 [OF d] assms(2) ne show False by (simp add: noTrailingZero_def)
qed

text \<open>
  C22: for decimals the totalDigits facet is the definition of the schema standard: a value is accepted for
  a positive k exactly when it equals i / 10^n for some integer i with fewer than k+1 digits and some scale
  n of at most k, so leading fractional zeros count and trailing ones do not.
\<close>

theorem total_digits_exact:
  assumes "HasTotalDigits schema" "\<not> HasFractionDigits schema" "0 < TotalDigits schema" "parseDecimal s = Some x"
  shows "validateDigitFacets u schema s ''decimal'' = None \<longleftrightarrow>
    (\<exists>i n. decVal x = of_int i / 10 ^ n \<and> \<bar>i\<bar> < 10 ^ TotalDigits schema \<and> n \<le> TotalDigits schema)"
proof -
  let ?k = "TotalDigits schema" and ?w = "dWhole x" and ?f = "dFraction x"
  let ?m = "of_nat (decNat ?w) + fracVal ?f"
  have can: "canonDecimal x" by (rule parseDecimal_canon [OF assms(4)])
  then have c: "allDigits ?w" "allDigits ?f" "noLeadingZero ?w" "noTrailingZero ?f" by (auto simp: canonDecimal_def)
  have "validateDigitFacets u schema s ''decimal'' = None \<longleftrightarrow> length ?w + length ?f \<le> ?k"
    using assms by (auto simp: validateDigitFacets_def digitCounts_def Let_def)
  moreover have "length ?w + length ?f \<le> ?k" if "decVal x = of_int i / 10 ^ n" "\<bar>i\<bar> < 10 ^ ?k" "n \<le> ?k" for i n
  proof -
    have mag: "?m * 10 ^ n = of_int \<bar>i\<bar>"
    proof -
      have "\<bar>decVal x\<bar> = ?m" using fracVal_range [OF c(2)] by (auto simp: decVal_def abs_mult)
      moreover have "\<bar>of_int i / 10 ^ n :: rat\<bar> = of_int \<bar>i\<bar> / 10 ^ n" by simp
      ultimately show ?thesis using that(1) by (simp add: field_simps)
    qed
    then have "fracVal ?f * 10 ^ n = of_int (\<bar>i\<bar> - int (decNat ?w) * 10 ^ n)" by (simp add: algebra_simps)
    from frac_digits_minimal [OF c(2,4) this] have fn: "length ?f \<le> n" .
    have "length ?w \<le> ?k - n"
    proof (cases "?w = []")
      case False
      have "(10::nat) ^ (length ?w - 1) * 10 ^ n \<le> decNat ?w * 10 ^ n"
        using decNat_leading [OF c(1,3) False] by simp
      moreover have "int (decNat ?w * 10 ^ n) \<le> \<bar>i\<bar>"
      proof -
        have "0 \<le> fracVal ?f * 10 ^ n" using fracVal_range [OF c(2)] by simp
        then have "(of_int (int (decNat ?w * 10 ^ n)) :: rat) \<le> ?m * 10 ^ n" by (simp add: algebra_simps)
        then have "(of_int (int (decNat ?w * 10 ^ n)) :: rat) \<le> of_int \<bar>i\<bar>" unfolding mag .
        then show ?thesis by (simp only: of_int_le_iff)
      qed
      moreover have "\<bar>i\<bar> < int (10 ^ ?k)" using that(2) by simp
      ultimately have "int ((10::nat) ^ (length ?w - 1) * 10 ^ n) < int (10 ^ ?k)" by linarith
      then have "(10::nat) ^ (length ?w - 1 + n) < 10 ^ ?k" by (simp only: of_nat_less_iff power_add)
      then have "length ?w - 1 + n < ?k" by (rule power_less_imp_less_exp [rotated]) simp
      then show ?thesis by linarith
    qed simp
    with fn that(3) show ?thesis by linarith
  qed
  moreover have "\<exists>i n. decVal x = of_int i / 10 ^ n \<and> \<bar>i\<bar> < 10 ^ ?k \<and> n \<le> ?k" if "length ?w + length ?f \<le> ?k"
  proof -
    let ?d = "decNat (?w @ ?f)" and ?n = "length ?f"
    have "?m = of_nat ?d / 10 ^ ?n" by (simp add: decNat_append fracVal_decNat field_simps)
    then have val: "decVal x = of_int (if dNegative x then - int ?d else int ?d) / 10 ^ ?n" by (simp add: decVal_def)
    have "?d < 10 ^ length (?w @ ?f)" using c by (intro decNat_bound) simp
    then have "int ?d < 10 ^ length (?w @ ?f)" by (metis of_nat_less_iff of_nat_numeral of_nat_power)
    moreover have "(10::int) ^ length (?w @ ?f) \<le> 10 ^ ?k" using that by (intro power_increasing) auto
    ultimately have "int ?d < 10 ^ ?k" by linarith
    then have "\<bar>if dNegative x then - int ?d else int ?d\<bar> < 10 ^ ?k" by (cases "dNegative x") (simp_all only: abs_minus_cancel abs_of_nat if_True if_False)
    moreover have "?n \<le> ?k" using that by simp
    ultimately show ?thesis using val by blast
  qed
  ultimately show ?thesis by blast
qed

theorem total_digits_exact_witness:
  "validateDigitFacets (\<lambda>_. False) (noFacets\<lparr> HasTotalDigits := True, TotalDigits := 3 \<rparr>) ''.0010'' ''decimal'' = None \<and>
   (\<exists>i n. decVal \<lparr> dWhole = [], dFraction = ''001'', dNegative = False \<rparr> = of_int i / 10 ^ n \<and> \<bar>i\<bar> < 10 ^ 3 \<and> n \<le> 3)"
proof -
  let ?schema = "noFacets\<lparr> HasTotalDigits := True, TotalDigits := 3 \<rparr>"
  have p: "parseDecimal ''.0010'' = Some \<lparr> dWhole = [], dFraction = ''001'', dNegative = False \<rparr>" by code_simp
  have "validateDigitFacets (\<lambda>_. False) ?schema ''.0010'' ''decimal'' = None"
    by (simp add: validateDigitFacets_def digitCounts_def p noFacets_def)
  with total_digits_exact [of ?schema, OF _ _ _ p, of "\<lambda>_. False"] show ?thesis by (simp add: noFacets_def)
qed

end
