(* ===== verification/Xsd_Lexical.thy ===== *)
theory Xsd_Lexical
  imports Xsd_Numbers
begin

text \<open>
  The lexical spaces of \<open>internal/xsd\<close> that are not numbers: whitespace normalisation, list splitting and
  booleans of \<open>kernel.go\<close> and \<open>whitespace.go\<close>, the binary types of \<open>binary_lexical.go\<close>, the temporal
  types of \<open>datetime.go\<close>, the names of \<open>xml_name.go\<close> over the character tables of \<open>pattern.go\<close>, the
  length facets of \<open>kernel.go\<close>, and the values of \<open>value.go\<close> with their equality.

  As in \<open>Xsd_Numbers\<close> the functions are the nil-\<open>Context\<close> ones.  A regular expression of the source is
  modelled by the function that decides its (anchored) language and returns its submatches.
\<close>

section \<open>Whitespace\<close>

definition IsWhitespace :: "nat \<Rightarrow> bool" where
  "IsWhitespace r \<longleftrightarrow> r \<in> set (map byte XMLWhitespace)"

text \<open>The loop of \<open>collapseWhitespace\<close> over the runes, with its two flags.\<close>

fun collapseLoop :: "nat list \<Rightarrow> bool \<Rightarrow> bool \<Rightarrow> string" where
  "collapseLoop [] wroteValue pendingSpace = []"
| "collapseLoop (r # rs) wroteValue pendingSpace =
     (if IsWhitespace r then collapseLoop rs wroteValue wroteValue
      else (if pendingSpace then '' '' else []) @ encodeRune r @ collapseLoop rs True False)"

definition collapseWhitespace :: "string \<Rightarrow> string" where
  "collapseWhitespace value = collapseLoop (runes value) False False"

definition replaceWhitespace :: "string \<Rightarrow> string" where
  "replaceWhitespace value =
     map (\<lambda>ch. if ch = CHR 0x09 \<or> ch = CHR 0x0A \<or> ch = CHR 0x0D then CHR '' '' else ch) value"

definition normalizeWhitespace :: "string \<Rightarrow> string \<Rightarrow> string" where
  "normalizeWhitespace name value =
     (if name = ''string'' \<or> name = ''anySimpleType'' then value
      else if name = ''normalizedString'' then replaceWhitespace value
      else collapseWhitespace value)"

definition splitList :: "string \<Rightarrow> string list" where
  "splitList value =
     (let normalized = collapseWhitespace value in
      if normalized = [] then [] else split_on (CHR '' '') normalized)"

definition parseBoolean :: "string \<Rightarrow> bool \<times> SimpleFailure option" where
  "parseBoolean value =
     (let text = normalizeWhitespace ''boolean'' value in
      if text = ''true'' \<or> text = ''1'' then (True, None)
      else if text = ''false'' \<or> text = ''0'' then (False, None)
      else (False, Some (failure ''datatype'' ''value %q is not valid for xs:boolean'' [FmtText value])))"

datatype WhitespacePolicy = WhitespaceMember | WhitespacePreserve | WhitespaceReplace | WhitespaceCollapse

text \<open>\<open>SimpleSemantics\<close> without its two schema pointers, which only aggregate types set.\<close>

record SimpleSemantics =
  Whitespace :: WhitespacePolicy
  Builtin :: string
  StringValue :: bool

definition SimpleSemantics_normalize :: "SimpleSemantics \<Rightarrow> string \<Rightarrow> string" where
  "SimpleSemantics_normalize s value =
     (case Whitespace s of
        WhitespaceReplace \<Rightarrow> normalizeWhitespace ''normalizedString'' value
      | WhitespaceCollapse \<Rightarrow> collapseWhitespace value
      | _ \<Rightarrow> value)"

definition builtinSemanticsValue :: "string \<Rightarrow> SimpleSemantics option" where
  "builtinSemanticsValue name =
     (let result = \<lparr> Whitespace = WhitespaceCollapse, Builtin = name, StringValue = False \<rparr> in
      if name = ''string'' then Some (result\<lparr> Whitespace := WhitespacePreserve, StringValue := True \<rparr>)
      else if name = ''anySimpleType'' then Some (result\<lparr> Whitespace := WhitespacePreserve \<rparr>)
      else if name = ''normalizedString'' then Some (result\<lparr> Whitespace := WhitespaceReplace, StringValue := True \<rparr>)
      else if name \<in> {''token'', ''language'', ''Name'', ''NCName'', ''NMTOKEN'', ''ID'', ''IDREF'', ''ENTITY''}
      then Some (result\<lparr> StringValue := True \<rparr>)
      else if name \<in> {''NMTOKENS'', ''IDREFS'', ''ENTITIES'', ''boolean'', ''decimal'', ''float'', ''double'',
                       ''integer'', ''long'', ''int'', ''short'', ''byte'',
                       ''nonPositiveInteger'', ''negativeInteger'', ''nonNegativeInteger'', ''positiveInteger'',
                       ''unsignedLong'', ''unsignedInt'', ''unsignedShort'', ''unsignedByte'', ''base64Binary'',
                       ''hexBinary'', ''anyURI'', ''QName'', ''NOTATION'', ''date'', ''dateTime'', ''duration'',
                       ''gDay'', ''gMonth'', ''gMonthDay'', ''gYear'', ''gYearMonth'', ''time'', ''anyType''}
      then Some result
      else None)"

section \<open>Binary types\<close>

definition isHexByte :: "char \<Rightarrow> bool" where
  "isHexByte ch \<longleftrightarrow>
     (48 \<le> byte ch \<and> byte ch \<le> 57) \<or> (97 \<le> byte ch \<and> byte ch \<le> 102) \<or> (65 \<le> byte ch \<and> byte ch \<le> 70)"

definition base64Digit :: "char \<Rightarrow> nat option" where
  "base64Digit ch =
     (if 65 \<le> byte ch \<and> byte ch \<le> 90 then Some (byte ch - 65)
      else if 97 \<le> byte ch \<and> byte ch \<le> 122 then Some (byte ch - 97 + 26)
      else if 48 \<le> byte ch \<and> byte ch \<le> 57 then Some (byte ch - 48 + 52)
      else if ch = CHR ''+'' then Some 62
      else if ch = CHR ''/'' then Some 63
      else if ch = CHR ''='' then Some 64
      else None)"

text \<open>The base64 loop: the quartet read so far, the octets counted and whether padding has ended the text.\<close>

fun base64Loop :: "string \<Rightarrow> nat list \<Rightarrow> nat \<Rightarrow> bool \<Rightarrow> nat \<times> bool" where
  "base64Loop [] quartet len ended = (len, quartet = [])"
| "base64Loop (ch # rest) quartet len ended =
     (if isXMLSpace ch then base64Loop rest quartet len ended
      else if ended then (0, False)
      else case base64Digit ch of
        None \<Rightarrow> (0, False)
      | Some digit \<Rightarrow>
          let quartet = quartet @ [digit] in
          if length quartet \<noteq> 4 then base64Loop rest quartet len ended
          else if quartet ! 0 = 64 \<or> quartet ! 1 = 64 then (0, False)
          else if quartet ! 2 = 64 then
            (if quartet ! 3 \<noteq> 64 \<or> quartet ! 1 mod 16 \<noteq> 0 then (0, False)
             else base64Loop rest [] (len + 1) True)
          else if quartet ! 3 = 64 then
            (if quartet ! 2 mod 4 \<noteq> 0 then (0, False) else base64Loop rest [] (len + 2) True)
          else base64Loop rest [] (len + 3) ended)"

definition binaryLexicalLength :: "string \<Rightarrow> string \<Rightarrow> nat \<times> bool" where
  "binaryLexicalLength builtin value =
     (if builtin = ''hexBinary'' then
        (if list_all isHexByte value then (length value div 2, length value mod 2 = 0) else (0, False))
      else base64Loop value [] 0 False)"

section \<open>Length facets\<close>

definition validateLengthFacets :: "SimpleFacets \<Rightarrow> string \<Rightarrow> bool \<Rightarrow> string \<Rightarrow> SimpleFailure option" where
  "validateLengthFacets schema value isList builtin =
     (if \<not> HasLength schema \<and> \<not> HasMinLength schema \<and> \<not> HasMaxLength schema then None
      else
        let measured =
              (if isList then Some (length (splitList value))
               else if builtin = ''hexBinary'' \<or> builtin = ''base64Binary'' then
                 (case binaryLexicalLength builtin value of (n, valid) \<Rightarrow> if valid then Some n else None)
               else Some (length (runes value)))
        in case measured of
             None \<Rightarrow> Some (failure ''datatype'' ''invalid binary lexical value'' [])
           | Some len \<Rightarrow>
               if HasLength schema \<and> len \<noteq> Length schema
               then Some (failure ''length'' ''value length %d does not equal %d'' [FmtNat len, FmtNat (Length schema)])
               else if HasMinLength schema \<and> len < MinLength schema
               then Some (failure ''minLength'' ''value length %d is less than %d'' [FmtNat len, FmtNat (MinLength schema)])
               else if HasMaxLength schema \<and> len > MaxLength schema
               then Some (failure ''maxLength'' ''value length %d is greater than %d'' [FmtNat len, FmtNat (MaxLength schema)])
               else None)"

section \<open>Temporal types\<close>

text \<open>Two digits within bounds, the shape of every month, day, hour, minute and second fragment.\<close>

fun twoDigits :: "nat \<Rightarrow> nat \<Rightarrow> string \<Rightarrow> (nat \<times> string) option" where
  "twoDigits lo hi (a # b # rest) =
     (if isDigit a \<and> isDigit b \<and> lo \<le> decNat [a, b] \<and> decNat [a, b] \<le> hi then Some (decNat [a, b], rest) else None)"
| "twoDigits lo hi _ = None"

definition literal :: "char \<Rightarrow> string \<Rightarrow> string option" where
  "literal ch s = (case s of [] \<Rightarrow> None | x # rest \<Rightarrow> if x = ch then Some rest else None)"

text \<open>\<open>XsdYearFragment\<close>: the captured digits and the rest.  The next fragment never starts with a digit.\<close>

definition matchYear :: "string \<Rightarrow> (string \<times> string) option" where
  "matchYear s =
     (let s = trimPrefix1 (CHR ''-'') s; year = takeWhile isDigit s; rest = dropWhile isDigit s in
      if length year = 4 \<or> (length year > 4 \<and> hd year \<noteq> CHR ''0'') then Some (year, rest) else None)"

definition matchTimezone :: "string \<Rightarrow> bool" where
  "matchTimezone s =
     (s = [] \<or> s = ''Z'' \<or>
      (case s of [] \<Rightarrow> False
       | sg # rest \<Rightarrow> (sg = CHR ''+'' \<or> sg = CHR ''-'') \<and>
           (rest = ''14:00'' \<or>
            (case twoDigits 0 13 rest of None \<Rightarrow> False
             | Some (_, rest) \<Rightarrow>
                 (case literal (CHR '':'') rest of None \<Rightarrow> False
                  | Some rest \<Rightarrow> (case twoDigits 0 59 rest of None \<Rightarrow> False | Some (_, rest) \<Rightarrow> rest = []))))))"

text \<open>An optional fraction of one or more digits that satisfy \<open>P\<close>; the rest after it.\<close>

definition optionalFraction :: "(char \<Rightarrow> bool) \<Rightarrow> string \<Rightarrow> string option" where
  "optionalFraction P s =
     (case literal (CHR ''.'') s of
        None \<Rightarrow> Some s
      | Some rest \<Rightarrow> if takeWhile P rest = [] then None else Some (dropWhile P rest))"

definition matchTime :: "string \<Rightarrow> string option" where
  "matchTime s =
     (if take 8 s = ''24:00:00'' then optionalFraction (\<lambda>ch. ch = CHR ''0'') (drop 8 s)
      else case twoDigits 0 23 s of None \<Rightarrow> None
      | Some (_, s) \<Rightarrow> (case literal (CHR '':'') s of None \<Rightarrow> None
      | Some s \<Rightarrow> (case twoDigits 0 59 s of None \<Rightarrow> None
      | Some (_, s) \<Rightarrow> (case literal (CHR '':'') s of None \<Rightarrow> None
      | Some s \<Rightarrow> (case twoDigits 0 59 s of None \<Rightarrow> None
      | Some (_, s) \<Rightarrow> optionalFraction isDigit s)))))"

definition matchYearMonth :: "string \<Rightarrow> (string \<times> nat \<times> string) option" where
  "matchYearMonth s =
     (case matchYear s of None \<Rightarrow> None
      | Some (year, s) \<Rightarrow> (case literal (CHR ''-'') s of None \<Rightarrow> None
      | Some s \<Rightarrow> (case twoDigits 1 12 s of None \<Rightarrow> None | Some (month, s) \<Rightarrow> Some (year, month, s))))"

definition matchYearMonthDay :: "string \<Rightarrow> (string \<times> nat \<times> nat \<times> string) option" where
  "matchYearMonthDay s =
     (case matchYearMonth s of None \<Rightarrow> None
      | Some (year, month, s) \<Rightarrow> (case literal (CHR ''-'') s of None \<Rightarrow> None
      | Some s \<Rightarrow> (case twoDigits 1 31 s of None \<Rightarrow> None | Some (day, s) \<Rightarrow> Some (year, month, day, s))))"

definition validXSDYear :: "string \<Rightarrow> bool" where
  "validXSDYear value = list_ex (\<lambda>ch. ch \<noteq> CHR ''0'') value"

definition xsdYearModulo :: "string \<Rightarrow> nat \<Rightarrow> nat" where
  "xsdYearModulo value modulus = foldl (\<lambda>result ch. (result * 10 + digitVal ch) mod modulus) 0 value"

definition XsdDaysInMonth :: "nat \<Rightarrow> bool \<Rightarrow> nat" where
  "XsdDaysInMonth month leap =
     (if month = 2 then (if leap then 29 else 28)
      else if month = 4 \<or> month = 6 \<or> month = 9 \<or> month = 11 then 30 else 31)"

definition validXSDDateMatch :: "string \<Rightarrow> nat \<Rightarrow> nat \<Rightarrow> bool" where
  "validXSDDateMatch year month day \<longleftrightarrow>
     validXSDYear year \<and>
     day \<le> XsdDaysInMonth month
             (xsdYearModulo year 400 mod 400 = 0 \<or>
              xsdYearModulo year 4 mod 4 = 0 \<and> xsdYearModulo year 100 mod 100 \<noteq> 0)"

text \<open>One optional component of a duration: digits and its letter.\<close>

definition durationPart :: "char \<Rightarrow> string \<Rightarrow> string \<times> string" where
  "durationPart letter s =
     (let run = takeWhile isDigit s; rest = dropWhile isDigit s in
      if run \<noteq> [] \<and> rest \<noteq> [] \<and> hd rest = letter then (run, tl rest) else ([], s))"

definition durationSeconds :: "string \<Rightarrow> string \<times> string" where
  "durationSeconds s =
     (let run = takeWhile isDigit s; rest = dropWhile isDigit s in
      if run = [] then ([], s)
      else if rest \<noteq> [] \<and> hd rest = CHR ''S'' then (run, tl rest)
      else if rest \<noteq> [] \<and> hd rest = CHR ''.'' then
        (let frac = takeWhile isDigit (tl rest); rest2 = dropWhile isDigit (tl rest) in
         if frac \<noteq> [] \<and> rest2 \<noteq> [] \<and> hd rest2 = CHR ''S'' then (run @ ''.'' @ frac, tl rest2) else ([], s))
      else ([], s))"

definition matchDuration :: "string \<Rightarrow> string list option" where
  "matchDuration s =
     (case literal (CHR ''P'') (trimPrefix1 (CHR ''-'') s) of None \<Rightarrow> None
      | Some s \<Rightarrow>
          (let (y, s) = durationPart (CHR ''Y'') s; (mo, s) = durationPart (CHR ''M'') s;
               (d, s) = durationPart (CHR ''D'') s
           in if s = [] then Some [y, mo, d, [], [], []]
              else case literal (CHR ''T'') s of None \<Rightarrow> None
              | Some s \<Rightarrow>
                  (let (h, s) = durationPart (CHR ''H'') s; (mi, s) = durationPart (CHR ''M'') s;
                       (sec, s) = durationSeconds s
                   in if s = [] then Some [y, mo, d, h, mi, sec] else None)))"

definition validXSDDuration :: "string \<Rightarrow> bool" where
  "validXSDDuration value =
     (case matchDuration value of
        None \<Rightarrow> False
      | Some parts \<Rightarrow>
          if \<not> list_ex (\<lambda>p. p \<noteq> []) parts then False
          else if CHR ''T'' \<in> set value then parts ! 3 \<noteq> [] \<or> parts ! 4 \<noteq> [] \<or> parts ! 5 \<noteq> []
          else True)"

definition validXSDDateTime :: "string \<Rightarrow> string \<Rightarrow> bool" where
  "validXSDDateTime name value =
     (if name = ''date'' then
        (case matchYearMonthDay value of None \<Rightarrow> False
         | Some (year, month, day, rest) \<Rightarrow> matchTimezone rest \<and> validXSDDateMatch year month day)
      else if name = ''dateTime'' then
        (case matchYearMonthDay value of None \<Rightarrow> False
         | Some (year, month, day, rest) \<Rightarrow>
             (case literal (CHR ''T'') rest of None \<Rightarrow> False
              | Some rest \<Rightarrow> (case matchTime rest of None \<Rightarrow> False
                 | Some rest \<Rightarrow> matchTimezone rest \<and> validXSDDateMatch year month day)))
      else if name = ''duration'' then validXSDDuration value
      else if name = ''time'' then (case matchTime value of None \<Rightarrow> False | Some rest \<Rightarrow> matchTimezone rest)
      else if name = ''gYearMonth'' then
        (case matchYearMonth value of None \<Rightarrow> False
         | Some (year, month, rest) \<Rightarrow> matchTimezone rest \<and> validXSDYear year)
      else if name = ''gYear'' then
        (case matchYear value of None \<Rightarrow> False | Some (year, rest) \<Rightarrow> matchTimezone rest \<and> validXSDYear year)
      else if name = ''gMonthDay'' then
        (if take 2 value \<noteq> ''--'' then False
         else case twoDigits 1 12 (drop 2 value) of None \<Rightarrow> False
         | Some (month, s) \<Rightarrow> (case literal (CHR ''-'') s of None \<Rightarrow> False
         | Some s \<Rightarrow> (case twoDigits 1 31 s of None \<Rightarrow> False
         | Some (day, rest) \<Rightarrow> matchTimezone rest \<and> day \<le> XsdDaysInMonth month True)))
      else if name = ''gDay'' then
        (if take 3 value \<noteq> ''---'' then False
         else case twoDigits 1 31 (drop 3 value) of None \<Rightarrow> False | Some (_, rest) \<Rightarrow> matchTimezone rest)
      else if name = ''gMonth'' then
        (if take 2 value \<noteq> ''--'' then False
         else case twoDigits 1 12 (drop 2 value) of None \<Rightarrow> False | Some (_, rest) \<Rightarrow> matchTimezone rest)
      else False)"

section \<open>Names\<close>

text \<open>The character classes of \<open>pattern.go\<close> as ranges of code points.\<close>

definition XSDBaseCharCharacters :: "(nat \<times> nat) list" where
  "XSDBaseCharCharacters =
    [(0x0041, 0x005A), (0x0061, 0x007A), (0x00C0, 0x00D6), (0x00D8, 0x00F6), (0x00F8, 0x00FF),
     (0x0100, 0x0131), (0x0134, 0x013E), (0x0141, 0x0148), (0x014A, 0x017E), (0x0180, 0x01C3),
     (0x01CD, 0x01F0), (0x01F4, 0x01F5), (0x01FA, 0x0217), (0x0250, 0x02A8), (0x02BB, 0x02C1),
     (0x0386, 0x0386), (0x0388, 0x038A), (0x038C, 0x038C), (0x038E, 0x03A1), (0x03A3, 0x03CE),
     (0x03D0, 0x03D6), (0x03DA, 0x03DA), (0x03DC, 0x03DC), (0x03DE, 0x03DE), (0x03E0, 0x03E0),
     (0x03E2, 0x03F3), (0x0401, 0x040C), (0x040E, 0x044F), (0x0451, 0x045C), (0x045E, 0x0481),
     (0x0490, 0x04C4), (0x04C7, 0x04C8), (0x04CB, 0x04CC), (0x04D0, 0x04EB), (0x04EE, 0x04F5),
     (0x04F8, 0x04F9), (0x0531, 0x0556), (0x0559, 0x0559), (0x0561, 0x0586), (0x05D0, 0x05EA),
     (0x05F0, 0x05F2), (0x0621, 0x063A), (0x0641, 0x064A), (0x0671, 0x06B7), (0x06BA, 0x06BE),
     (0x06C0, 0x06CE), (0x06D0, 0x06D3), (0x06D5, 0x06D5), (0x06E5, 0x06E6), (0x0905, 0x0939),
     (0x093D, 0x093D), (0x0958, 0x0961), (0x0985, 0x098C), (0x098F, 0x0990), (0x0993, 0x09A8),
     (0x09AA, 0x09B0), (0x09B2, 0x09B2), (0x09B6, 0x09B9), (0x09DC, 0x09DD), (0x09DF, 0x09E1),
     (0x09F0, 0x09F1), (0x0A05, 0x0A0A), (0x0A0F, 0x0A10), (0x0A13, 0x0A28), (0x0A2A, 0x0A30),
     (0x0A32, 0x0A33), (0x0A35, 0x0A36), (0x0A38, 0x0A39), (0x0A59, 0x0A5C), (0x0A5E, 0x0A5E),
     (0x0A72, 0x0A74), (0x0A85, 0x0A8B), (0x0A8D, 0x0A8D), (0x0A8F, 0x0A91), (0x0A93, 0x0AA8),
     (0x0AAA, 0x0AB0), (0x0AB2, 0x0AB3), (0x0AB5, 0x0AB9), (0x0ABD, 0x0ABD), (0x0AE0, 0x0AE0),
     (0x0B05, 0x0B0C), (0x0B0F, 0x0B10), (0x0B13, 0x0B28), (0x0B2A, 0x0B30), (0x0B32, 0x0B33),
     (0x0B36, 0x0B39), (0x0B3D, 0x0B3D), (0x0B5C, 0x0B5D), (0x0B5F, 0x0B61), (0x0B85, 0x0B8A),
     (0x0B8E, 0x0B90), (0x0B92, 0x0B95), (0x0B99, 0x0B9A), (0x0B9C, 0x0B9C), (0x0B9E, 0x0B9F),
     (0x0BA3, 0x0BA4), (0x0BA8, 0x0BAA), (0x0BAE, 0x0BB5), (0x0BB7, 0x0BB9), (0x0C05, 0x0C0C),
     (0x0C0E, 0x0C10), (0x0C12, 0x0C28), (0x0C2A, 0x0C33), (0x0C35, 0x0C39), (0x0C60, 0x0C61),
     (0x0C85, 0x0C8C), (0x0C8E, 0x0C90), (0x0C92, 0x0CA8), (0x0CAA, 0x0CB3), (0x0CB5, 0x0CB9),
     (0x0CDE, 0x0CDE), (0x0CE0, 0x0CE1), (0x0D05, 0x0D0C), (0x0D0E, 0x0D10), (0x0D12, 0x0D28),
     (0x0D2A, 0x0D39), (0x0D60, 0x0D61), (0x0E01, 0x0E2E), (0x0E30, 0x0E30), (0x0E32, 0x0E33),
     (0x0E40, 0x0E45), (0x0E81, 0x0E82), (0x0E84, 0x0E84), (0x0E87, 0x0E88), (0x0E8A, 0x0E8A),
     (0x0E8D, 0x0E8D), (0x0E94, 0x0E97), (0x0E99, 0x0E9F), (0x0EA1, 0x0EA3), (0x0EA5, 0x0EA5),
     (0x0EA7, 0x0EA7), (0x0EAA, 0x0EAB), (0x0EAD, 0x0EAE), (0x0EB0, 0x0EB0), (0x0EB2, 0x0EB3),
     (0x0EBD, 0x0EBD), (0x0EC0, 0x0EC4), (0x0F40, 0x0F47), (0x0F49, 0x0F69), (0x10A0, 0x10C5),
     (0x10D0, 0x10F6), (0x1100, 0x1100), (0x1102, 0x1103), (0x1105, 0x1107), (0x1109, 0x1109),
     (0x110B, 0x110C), (0x110E, 0x1112), (0x113C, 0x113C), (0x113E, 0x113E), (0x1140, 0x1140),
     (0x114C, 0x114C), (0x114E, 0x114E), (0x1150, 0x1150), (0x1154, 0x1155), (0x1159, 0x1159),
     (0x115F, 0x1161), (0x1163, 0x1163), (0x1165, 0x1165), (0x1167, 0x1167), (0x1169, 0x1169),
     (0x116D, 0x116E), (0x1172, 0x1173), (0x1175, 0x1175), (0x119E, 0x119E), (0x11A8, 0x11A8),
     (0x11AB, 0x11AB), (0x11AE, 0x11AF), (0x11B7, 0x11B8), (0x11BA, 0x11BA), (0x11BC, 0x11C2),
     (0x11EB, 0x11EB), (0x11F0, 0x11F0), (0x11F9, 0x11F9), (0x1E00, 0x1E9B), (0x1EA0, 0x1EF9),
     (0x1F00, 0x1F15), (0x1F18, 0x1F1D), (0x1F20, 0x1F45), (0x1F48, 0x1F4D), (0x1F50, 0x1F57),
     (0x1F59, 0x1F59), (0x1F5B, 0x1F5B), (0x1F5D, 0x1F5D), (0x1F5F, 0x1F7D), (0x1F80, 0x1FB4),
     (0x1FB6, 0x1FBC), (0x1FBE, 0x1FBE), (0x1FC2, 0x1FC4), (0x1FC6, 0x1FCC), (0x1FD0, 0x1FD3),
     (0x1FD6, 0x1FDB), (0x1FE0, 0x1FEC), (0x1FF2, 0x1FF4), (0x1FF6, 0x1FFC), (0x2126, 0x2126),
     (0x212A, 0x212B), (0x212E, 0x212E), (0x2180, 0x2182), (0x3041, 0x3094), (0x30A1, 0x30FA),
     (0x3105, 0x312C), (0xAC00, 0xD7A3)]"

definition XSDIdeographicCharacters :: "(nat \<times> nat) list" where
  "XSDIdeographicCharacters =
    [(0x4E00, 0x9FA5), (0x3007, 0x3007), (0x3021, 0x3029)]"

definition XSDCombiningCharCharacters :: "(nat \<times> nat) list" where
  "XSDCombiningCharCharacters =
    [(0x0300, 0x0345), (0x0360, 0x0361), (0x0483, 0x0486), (0x0591, 0x05A1), (0x05A3, 0x05B9),
     (0x05BB, 0x05BD), (0x05BF, 0x05BF), (0x05C1, 0x05C2), (0x05C4, 0x05C4), (0x064B, 0x0652),
     (0x0670, 0x0670), (0x06D6, 0x06DC), (0x06DD, 0x06DF), (0x06E0, 0x06E4), (0x06E7, 0x06E8),
     (0x06EA, 0x06ED), (0x0901, 0x0903), (0x093C, 0x093C), (0x093E, 0x094C), (0x094D, 0x094D),
     (0x0951, 0x0954), (0x0962, 0x0963), (0x0981, 0x0983), (0x09BC, 0x09BC), (0x09BE, 0x09BE),
     (0x09BF, 0x09BF), (0x09C0, 0x09C4), (0x09C7, 0x09C8), (0x09CB, 0x09CD), (0x09D7, 0x09D7),
     (0x09E2, 0x09E3), (0x0A02, 0x0A02), (0x0A3C, 0x0A3C), (0x0A3E, 0x0A3E), (0x0A3F, 0x0A3F),
     (0x0A40, 0x0A42), (0x0A47, 0x0A48), (0x0A4B, 0x0A4D), (0x0A70, 0x0A71), (0x0A81, 0x0A83),
     (0x0ABC, 0x0ABC), (0x0ABE, 0x0AC5), (0x0AC7, 0x0AC9), (0x0ACB, 0x0ACD), (0x0B01, 0x0B03),
     (0x0B3C, 0x0B3C), (0x0B3E, 0x0B43), (0x0B47, 0x0B48), (0x0B4B, 0x0B4D), (0x0B56, 0x0B57),
     (0x0B82, 0x0B83), (0x0BBE, 0x0BC2), (0x0BC6, 0x0BC8), (0x0BCA, 0x0BCD), (0x0BD7, 0x0BD7),
     (0x0C01, 0x0C03), (0x0C3E, 0x0C44), (0x0C46, 0x0C48), (0x0C4A, 0x0C4D), (0x0C55, 0x0C56),
     (0x0C82, 0x0C83), (0x0CBE, 0x0CC4), (0x0CC6, 0x0CC8), (0x0CCA, 0x0CCD), (0x0CD5, 0x0CD6),
     (0x0D02, 0x0D03), (0x0D3E, 0x0D43), (0x0D46, 0x0D48), (0x0D4A, 0x0D4D), (0x0D57, 0x0D57),
     (0x0E31, 0x0E31), (0x0E34, 0x0E3A), (0x0E47, 0x0E4E), (0x0EB1, 0x0EB1), (0x0EB4, 0x0EB9),
     (0x0EBB, 0x0EBC), (0x0EC8, 0x0ECD), (0x0F18, 0x0F19), (0x0F35, 0x0F35), (0x0F37, 0x0F37),
     (0x0F39, 0x0F39), (0x0F3E, 0x0F3E), (0x0F3F, 0x0F3F), (0x0F71, 0x0F84), (0x0F86, 0x0F8B),
     (0x0F90, 0x0F95), (0x0F97, 0x0F97), (0x0F99, 0x0FAD), (0x0FB1, 0x0FB7), (0x0FB9, 0x0FB9),
     (0x20D0, 0x20DC), (0x20E1, 0x20E1), (0x302A, 0x302F), (0x3099, 0x3099), (0x309A, 0x309A)]"

definition XSDDigitCharacters :: "(nat \<times> nat) list" where
  "XSDDigitCharacters =
    [(0x0030, 0x0039), (0x0660, 0x0669), (0x06F0, 0x06F9), (0x0966, 0x096F), (0x09E6, 0x09EF),
     (0x0A66, 0x0A6F), (0x0AE6, 0x0AEF), (0x0B66, 0x0B6F), (0x0BE7, 0x0BEF), (0x0C66, 0x0C6F),
     (0x0CE6, 0x0CEF), (0x0D66, 0x0D6F), (0x0E50, 0x0E59), (0x0ED0, 0x0ED9), (0x0F20, 0x0F29)]"

definition XSDExtenderCharacters :: "(nat \<times> nat) list" where
  "XSDExtenderCharacters =
    [(0x00B7, 0x00B7), (0x02D0, 0x02D0), (0x02D1, 0x02D1), (0x0387, 0x0387), (0x0640, 0x0640),
     (0x0E46, 0x0E46), (0x0EC6, 0x0EC6), (0x3005, 0x3005), (0x3031, 0x3035), (0x309D, 0x309E),
     (0x30FC, 0x30FE)]"

definition inRanges :: "(nat \<times> nat) list \<Rightarrow> nat \<Rightarrow> bool" where
  "inRanges rs r = list_ex (\<lambda>(lo, hi). lo \<le> r \<and> r \<le> hi) rs"

definition XMLNameStartCharacters :: "nat \<Rightarrow> bool" where
  "XMLNameStartCharacters r \<longleftrightarrow>
     r = byte (CHR '':'') \<or> r = byte (CHR ''_'') \<or> inRanges XSDBaseCharCharacters r \<or> inRanges XSDIdeographicCharacters r"

definition XMLNameCharacters :: "nat \<Rightarrow> bool" where
  "XMLNameCharacters r \<longleftrightarrow>
     XMLNameStartCharacters r \<or> r = byte (CHR ''-'') \<or> r = byte (CHR ''.'') \<or>
     inRanges XSDCombiningCharCharacters r \<or> inRanges XSDDigitCharacters r \<or> inRanges XSDExtenderCharacters r"

definition validXSDName :: "string \<Rightarrow> bool" where
  "validXSDName value \<longleftrightarrow>
     validUTF8 value \<and>
     (case runes value of [] \<Rightarrow> False | r # rs \<Rightarrow> XMLNameStartCharacters r \<and> list_all XMLNameCharacters rs)"

definition validXSDNCName :: "string \<Rightarrow> bool" where
  "validXSDNCName value \<longleftrightarrow> CHR '':'' \<notin> set value \<and> validXSDName value"

definition validXSDNMTOKEN :: "string \<Rightarrow> bool" where
  "validXSDNMTOKEN value \<longleftrightarrow> validUTF8 value \<and> runes value \<noteq> [] \<and> list_all XMLNameCharacters (runes value)"

definition validXSDQName :: "string \<Rightarrow> bool" where
  "validXSDQName value \<longleftrightarrow>
     (if CHR '':'' \<notin> set value then validXSDNCName value
      else validXSDNCName (takeWhile (\<lambda>ch. ch \<noteq> CHR '':'') value) \<and>
           validXSDNCName (tl (dropWhile (\<lambda>ch. ch \<noteq> CHR '':'') value)))"

section \<open>Values\<close>

datatype ValueDomain = LexicalDomain | StringDomain | NumberDomain | BooleanDomain | ListDomain

datatype SimpleValue =
  SimpleValue (svDomain: ValueDomain) (svPrimitive: string) (svBoolean: bool) (svText: string)
    (svNumber: XDecimal) (svItems: "SimpleValue list")

definition zeroDecimal :: XDecimal where
  "zeroDecimal = \<lparr> dWhole = [], dFraction = [], dNegative = False \<rparr>"

fun SimpleValue_equal :: "SimpleValue \<Rightarrow> SimpleValue \<Rightarrow> bool"
and SimpleValues_equal :: "SimpleValue list \<Rightarrow> SimpleValue list \<Rightarrow> bool" where
  "SimpleValue_equal (SimpleValue d p b t n xs) other =
     (if d \<noteq> svDomain other then False
      else case d of
        BooleanDomain \<Rightarrow> b = svBoolean other
      | NumberDomain \<Rightarrow> Decimal_compare n (svNumber other) = 0
      | ListDomain \<Rightarrow> length xs = length (svItems other) \<and> SimpleValues_equal xs (svItems other)
      | _ \<Rightarrow> strCompare p (svPrimitive other) = 0 \<and> strCompare t (svText other) = 0)"
| "SimpleValues_equal (x # xs) (y # ys) = (SimpleValue_equal x y \<and> SimpleValues_equal xs ys)"
| "SimpleValues_equal _ _ = True"

definition BuiltinListItem :: "string \<Rightarrow> string" where
  "BuiltinListItem name =
     (if name = ''NMTOKENS'' then ''NMTOKEN'' else if name = ''IDREFS'' then ''IDREF''
      else if name = ''ENTITIES'' then ''ENTITY'' else [])"

definition atomicValue :: "SimpleSemantics \<Rightarrow> string \<Rightarrow> SimpleValue" where
  "atomicValue semantics lexical =
     (if StringValue semantics then SimpleValue StringDomain [] False lexical zeroDecimal []
      else if Builtin semantics = ''boolean''
      then SimpleValue BooleanDomain [] (fst (parseBoolean lexical)) lexical zeroDecimal []
      else if IntegerLimits (Builtin semantics) \<noteq> None \<or> Builtin semantics = ''decimal''
      then SimpleValue NumberDomain [] False lexical
             (case parseDecimal lexical of Some n \<Rightarrow> n | None \<Rightarrow> zeroDecimal) []
      else SimpleValue LexicalDomain (Builtin semantics) False lexical zeroDecimal [])"


section \<open>The words of a text\<close>

text \<open>The specification of collapsing: the maximal runs without whitespace, joined by single spaces.\<close>

abbreviation wordRune :: "nat \<Rightarrow> bool" where
  "wordRune r \<equiv> \<not> IsWhitespace r"

function wordsOf :: "nat list \<Rightarrow> nat list list" where
  "wordsOf [] = []"
| "wordsOf (r # rs) =
     (if IsWhitespace r then wordsOf rs
      else (r # takeWhile wordRune rs) # wordsOf (dropWhile wordRune rs))"
  by pat_completeness auto
termination by (relation "measure length") (auto simp: less_Suc_eq_le length_dropWhile_le)

definition joinWords :: "nat list list \<Rightarrow> string" where
  "joinWords ws = join_on '' '' (map encodeRunes ws)"

definition spaced :: "nat list list \<Rightarrow> string" where
  "spaced ws = (if ws = [] then [] else CHR '' '' # joinWords ws)"

lemma joinWords_simps [simp]:
  "joinWords [] = []" "joinWords (w # ws) = encodeRunes w @ spaced ws"
  by (cases ws; simp add: joinWords_def spaced_def)+

lemma collapseLoop_words:
  "collapseLoop rs False False = joinWords (wordsOf rs) \<and>
   collapseLoop rs True True = spaced (wordsOf rs) \<and>
   collapseLoop rs True False = encodeRunes (takeWhile wordRune rs) @ spaced (wordsOf (dropWhile wordRune rs))"
  by (induction rs) (auto simp: spaced_def)

lemma collapse_words: "collapseWhitespace s = joinWords (wordsOf (runes s))"
  by (simp add: collapseWhitespace_def collapseLoop_words)

lemma wordsOf_word: "w \<in> set (wordsOf rs) \<Longrightarrow> w \<noteq> [] \<and> (\<forall>r \<in> set w. wordRune r \<and> r \<in> set rs)"
proof (induction rs rule: wordsOf.induct)
  case (2 r rs)
  show ?case
  proof (cases "IsWhitespace r")
    case True
    with 2 show ?thesis by auto
  next
    case False
    then consider "w = r # takeWhile wordRune rs" | "w \<in> set (wordsOf (dropWhile wordRune rs))" using 2(3) by auto
    then show ?thesis
    proof cases
      case 1
      then show ?thesis using False by (auto dest: set_takeWhileD)
    next
      case w: 2
      from 2(2) [OF False w] show ?thesis by (auto dest: set_dropWhileD)
    qed
  qed
qed simp

lemma encodeRune_no_space:
  assumes "r \<noteq> 32"
  shows "CHR '' '' \<notin> set (encodeRune r)"
proof -
  let ?r = "if scalar_rune r then r else RuneError"
  have r: "?r \<noteq> 32" "scalar_rune ?r" using assms scalar_RuneError by (auto simp: RuneError_def)
  have "byte ch \<noteq> 32" if "ch \<in> set (encodeRune r)" for ch
  proof -
    have hi: "r' < 256 \<Longrightarrow> 128 \<le> r' \<Longrightarrow> byte (chr r') \<noteq> 32" for r' by simp
    have le: "?r \<le> 0x10FFFF" using r(2) by (simp add: scalar_rune_def)
    have "?r < 0x800 \<Longrightarrow> ?r div 64 < 32" "?r < 0x10000 \<Longrightarrow> ?r div 4096 < 16" "?r div 262144 < 5"
      using le by auto
    with that r(1) show ?thesis
      unfolding encodeRune_def Let_def by (auto simp del: of_char_of simp: byte_chr split: if_splits)
  qed
  then show ?thesis by fastforce
qed

lemma word_no_space: "w \<in> set (wordsOf rs) \<Longrightarrow> CHR '' '' \<notin> set (encodeRunes w) \<and> encodeRunes w \<noteq> []"
proof -
  assume "w \<in> set (wordsOf rs)"
  then have w: "w \<noteq> []" "\<forall>r \<in> set w. r \<noteq> 32"
    using wordsOf_word [of w rs] by (auto simp: IsWhitespace_def XMLWhitespace_def)
  then show ?thesis
    using encodeRune_no_space encodeRune_not_Nil by (cases w) (auto simp: encodeRunes_def)
qed

lemma splitList_words: "splitList s = map encodeRunes (wordsOf (runes s))"
proof -
  let ?ws = "wordsOf (runes s)"
  show ?thesis
  proof (cases "?ws = []")
    case True
    then show ?thesis by (simp add: splitList_def collapse_words)
  next
    case False
    then obtain w ws where "?ws = w # ws" by (cases ?ws) auto
    then have "joinWords ?ws \<noteq> []" using word_no_space [of w "runes s"] by simp
    then have "splitList s = split_on (CHR '' '') (join_on '' '' (map encodeRunes ?ws))"
      by (simp add: splitList_def collapse_words joinWords_def)
    also have "\<dots> = map encodeRunes ?ws"
      using False word_no_space by (intro split_join) auto
    finally show ?thesis .
  qed
qed

text \<open>Collapsing again finds the same words.\<close>

fun spacedRunes :: "nat list list \<Rightarrow> nat list" where
  "spacedRunes [] = []"
| "spacedRunes (w # ws) = w @ (if ws = [] then [] else 32 # spacedRunes ws)"

lemma encode_spacedRunes: "encodeRunes (spacedRunes ws) = joinWords ws"
proof (induction ws)
  case (Cons w ws)
  have "encodeRune 32 = '' ''" by (simp add: encodeRune_ascii char_of_def bit_0)
  with Cons show ?case by (simp add: spaced_def)
qed simp

lemma wordsOf_spacedRunes:
  "\<forall>w \<in> set ws. w \<noteq> [] \<and> (\<forall>r \<in> set w. wordRune r) \<Longrightarrow> wordsOf (spacedRunes ws) = ws"
proof (induction ws)
  case (Cons w ws)
  then obtain r v where w: "w = r # v" "wordRune r" "\<forall>x \<in> set v. wordRune x" by (cases w) auto
  have sp: "IsWhitespace 32" by (simp add: IsWhitespace_def XMLWhitespace_def)
  have t: "takeWhile wordRune (v @ 32 # x) = v" "dropWhile wordRune (v @ 32 # x) = 32 # x"
    "takeWhile wordRune v = v" "dropWhile wordRune v = []" for x
    using w sp by (simp_all add: takeWhile_append2 dropWhile_append2)
  have "wordsOf (spacedRunes ws) = ws" using Cons by simp
  with w t sp show ?case by (cases "ws = []") (simp_all del: dropWhile_eq_Nil_conv takeWhile_eq_all_conv)
qed simp

lemma runes_joinWords:
  assumes "ws = wordsOf (runes s)"
  shows "runes (joinWords ws) = spacedRunes ws"
proof -
  have "\<forall>r \<in> set (spacedRunes ws). scalar_rune r"
  proof -
    have "\<forall>w \<in> set ws. \<forall>r \<in> set w. scalar_rune r" using wordsOf_word runes_scalar unfolding assms by blast
    then show ?thesis by (induction ws) (auto simp: scalar_rune_def)
  qed
  from runes_encodeRunes [OF this] show ?thesis by (simp add: encode_spacedRunes)
qed

lemma words_collapse: "wordsOf (runes (collapseWhitespace s)) = wordsOf (runes s)"
  unfolding collapse_words runes_joinWords [OF refl]
  using wordsOf_word by (intro wordsOf_spacedRunes) blast


section \<open>Base64\<close>

text \<open>The reference encoder: the digits of each three octets, padded at the end.\<close>

definition base64Char :: "nat \<Rightarrow> char" where
  "base64Char n =
     (if n < 26 then chr (65 + n) else if n < 52 then chr (71 + n) else if n < 62 then chr (n - 4)
      else if n = 62 then CHR ''+'' else CHR ''/'')"

fun base64Encode :: "nat list \<Rightarrow> string" where
  "base64Encode [] = []"
| "base64Encode [a] = [base64Char (a div 4), base64Char (a mod 4 * 16), CHR ''='', CHR ''='']"
| "base64Encode [a, b] =
     [base64Char (a div 4), base64Char (a mod 4 * 16 + b div 16), base64Char (b mod 16 * 4), CHR ''='']"
| "base64Encode (a # b # c # rest) =
     [base64Char (a div 4), base64Char (a mod 4 * 16 + b div 16), base64Char (b mod 16 * 4 + c div 64),
      base64Char (c mod 64)] @ base64Encode rest"

lemma base64Digit_Char: "n < 64 \<Longrightarrow> base64Digit (base64Char n) = Some n"
proof -
  assume n: "n < 64"
  consider "n < 26" | "26 \<le> n" "n < 52" | "52 \<le> n" "n < 62" | "n = 62" | "n = 63" using n by linarith
  then show ?thesis by cases (auto simp: base64Digit_def base64Char_def)
qed

lemma chr_byte: "chr (byte ch) = ch"
  by simp

lemma base64Char_Digit: "base64Digit ch = Some n \<Longrightarrow> n \<noteq> 64 \<Longrightarrow> n < 64 \<and> base64Char n = ch"
  by (auto simp: base64Digit_def base64Char_def split: if_splits)

lemma base64Digit_pad: "base64Digit ch = Some 64 \<longleftrightarrow> ch = CHR ''=''"
  by (auto simp: base64Digit_def split: if_splits)

lemma base64Digit_space: "base64Digit ch = Some n \<Longrightarrow> \<not> isXMLSpace ch"
  by (auto simp: base64Digit_def isXMLSpace_def XMLWhitespace_def)

lemma base64Char_space: "n < 64 \<Longrightarrow> \<not> isXMLSpace (base64Char n)"
  using base64Digit_Char base64Digit_space by blast

text \<open>Whitespace anywhere is skipped.\<close>

abbreviation dense :: "string \<Rightarrow> string" where
  "dense s \<equiv> filter (\<lambda>ch. \<not> isXMLSpace ch) s"

lemma base64Loop_dense: "base64Loop s q n e = base64Loop (dense s) q n e"
  by (induction s q n e rule: base64Loop.induct) (auto simp: Let_def split: option.splits)

lemma base64Loop_ended: "base64Loop (dense s) [] n True = (m, True) \<longleftrightarrow> dense s = [] \<and> m = n"
  by (cases "dense s") (auto, metis filter_eq_Cons_iff)

text \<open>One whole quartet of digits.\<close>

lemma base64Loop_quartet:
  assumes "\<forall>ch \<in> set [a, b, c, d]. \<not> isXMLSpace ch"
  shows "base64Loop (a # b # c # d # s) [] n False =
    (case (base64Digit a, base64Digit b, base64Digit c, base64Digit d) of
       (Some w, Some x, Some y, Some z) \<Rightarrow>
         if w = 64 \<or> x = 64 then (0, False)
         else if y = 64 then (if z \<noteq> 64 \<or> x mod 16 \<noteq> 0 then (0, False) else base64Loop s [] (n + 1) True)
         else if z = 64 then (if y mod 4 \<noteq> 0 then (0, False) else base64Loop s [] (n + 2) True)
         else base64Loop s [] (n + 3) False
     | _ \<Rightarrow> (0, False))"
  using assms by (auto simp: Let_def split: option.splits)

lemma base64Loop_short:
  assumes "0 < length s" "length s < 4" "\<forall>ch \<in> set s. \<not> isXMLSpace ch"
  shows "snd (base64Loop s [] n False) = False"
proof -
  obtain a t where s: "s = a # t" using assms(1) by (cases s) auto
  show ?thesis
  proof (cases t)
    case Nil
    then show ?thesis using assms(3) s by (auto simp: Let_def split: option.splits)
  next
    case t: (Cons b u)
    show ?thesis
    proof (cases u)
      case Nil
      then show ?thesis using assms(3) s t by (auto simp: Let_def split: option.splits)
    next
      case (Cons c v)
      then have "v = []" using assms(2) s t by simp
      with Cons show ?thesis using assms(3) s t by (auto simp: Let_def split: option.splits)
    qed
  qed
qed

text \<open>The octets a quartet stands for.\<close>

lemma split_octets:
  fixes w x y z :: nat
  assumes "w < 64" "x < 64" "y < 64" "z < 64"
  defines "a \<equiv> w * 4 + x div 16" and "b \<equiv> x mod 16 * 16 + y div 4" and "c \<equiv> y mod 4 * 64 + z"
  shows "a < 256" "b < 256" "c < 256" "a div 4 = w" "a mod 4 * 16 + b div 16 = x" "b mod 16 * 4 + c div 64 = y" "c mod 64 = z"
proof -
  have "x div 16 < 4" "x mod 16 < 16" "y div 4 < 16" "y mod 4 < 4" using assms by auto
  then show "a < 256" "b < 256" "c < 256" "a div 4 = w" "c mod 64 = z" using assms by (auto simp: a_def b_def c_def)
  have "a mod 4 = x div 16" "b div 16 = x mod 16" using \<open>x div 16 < 4\<close> \<open>y div 4 < 16\<close> by (auto simp: a_def b_def)
  then show "a mod 4 * 16 + b div 16 = x" by simp
  have "b mod 16 = y div 4" "c div 64 = y mod 4" using \<open>y div 4 < 16\<close> assms by (auto simp: b_def c_def)
  then show "b mod 16 * 4 + c div 64 = y" by simp
qed

lemma octet_digits:
  fixes a b c :: nat
  assumes "a < 256" "b < 256" "c < 256"
  shows "a div 4 < 64" "a mod 4 * 16 + b div 16 < 64" "b mod 16 * 4 + c div 64 < 64" "c mod 64 < 64"
    "a mod 4 * 16 < 64" "b mod 16 * 4 < 64" "a mod 4 * 16 mod 16 = 0" "b mod 16 * 4 mod 4 = 0"
proof -
  have "a mod 4 < 4" "b div 16 < 16" "b mod 16 < 16" "c div 64 < 4" using assms by auto
  then show "a div 4 < 64" "a mod 4 * 16 + b div 16 < 64" "b mod 16 * 4 + c div 64 < 64" "c mod 64 < 64"
    "a mod 4 * 16 < 64" "b mod 16 * 4 < 64" using assms by linarith+
qed simp_all

abbreviation octets :: "nat list \<Rightarrow> bool" where
  "octets bs \<equiv> \<forall>b \<in> set bs. b < 256"

lemma pad_not_space: "\<not> isXMLSpace (CHR ''='')"
  by (simp add: isXMLSpace_def XMLWhitespace_def)

lemma base64Encode_dense: "octets bs \<Longrightarrow> dense (base64Encode bs) = base64Encode bs"
proof (induction bs rule: base64Encode.induct)
  case (2 a)
  then show ?case using octet_digits [of a 0 0] by (simp add: base64Char_space pad_not_space)
next
  case (3 a b)
  then show ?case using octet_digits [of a b 0] by (simp add: base64Char_space pad_not_space)
next
  case (4 a b c rest)
  then show ?case using octet_digits [of a b c] by (simp add: base64Char_space)
qed simp

text \<open>Every encoding is read, with the right number of octets.\<close>

lemma base64Loop_encode:
  "octets bs \<Longrightarrow> base64Loop (base64Encode bs) [] n False = (n + length bs, True)"
proof (induction bs arbitrary: n rule: base64Encode.induct)
  case (2 a)
  note d = octet_digits [of a 0 0]
  note sp = pad_not_space
  show ?case using 2 d sp
    unfolding base64Encode.simps
    by (subst base64Loop_quartet) (auto simp: base64Char_space base64Digit_Char base64Digit_pad [THEN iffD2])
next
  case (3 a b)
  note d = octet_digits [of a b 0]
  note sp = pad_not_space
  show ?case using 3 d sp
    unfolding base64Encode.simps
    by (subst base64Loop_quartet) (auto simp: base64Char_space base64Digit_Char base64Digit_pad [THEN iffD2])
next
  case (4 a b c rest)
  note d = octet_digits [of a b c]
  show ?case using 4 d unfolding base64Encode.simps append.simps
    by (subst base64Loop_quartet) (auto simp: base64Char_space base64Digit_Char)
qed simp

text \<open>Everything that is read is an encoding.\<close>

lemma base64Loop_sound:
  "base64Loop s [] n False = (m, True) \<Longrightarrow> \<forall>ch \<in> set s. \<not> isXMLSpace ch \<Longrightarrow>
   \<exists>bs. octets bs \<and> m = n + length bs \<and> base64Encode bs = s"
proof (induction "length s" arbitrary: s n rule: less_induct)
  case less
  consider "s = []" | "0 < length s" "length s < 4" | "4 \<le> length s" by fastforce
  then show ?case
  proof cases
    case 1
    with less show ?thesis by (intro exI [of _ "[]"]) simp
  next
    case 2
    with less base64Loop_short [of s n] show ?thesis by simp
  next
    case 3
    then obtain a b c d t where s: "s = a # b # c # d # t"
      by (cases s; cases "tl s"; cases "tl (tl s)"; cases "tl (tl (tl s))") auto
    have t: "dense t = t" using less.prems(2) s by (simp add: filter_id_conv)
    have q: "\<forall>ch \<in> set [a, b, c, d]. \<not> isXMLSpace ch" using less.prems(2) s by simp
    from less.prems(1) obtain w x y z where D: "base64Digit a = Some w" "base64Digit b = Some x"
      "base64Digit c = Some y" "base64Digit d = Some z"
      and L: "w \<noteq> 64" "x \<noteq> 64"
      "(if y = 64 then (if z \<noteq> 64 \<or> x mod 16 \<noteq> 0 then (0, False) else base64Loop t [] (n + 1) True)
        else if z = 64 then (if y mod 4 \<noteq> 0 then (0, False) else base64Loop t [] (n + 2) True)
        else base64Loop t [] (n + 3) False) = (m, True)"
      unfolding s base64Loop_quartet [OF q] by (auto split: option.splits if_splits)
    note cw = base64Char_Digit [OF D(1) L(1)] and cx = base64Char_Digit [OF D(2) L(2)]
    consider "y = 64" "z = 64" "x mod 16 = 0" "base64Loop t [] (n + 1) True = (m, True)"
      | "y \<noteq> 64" "z = 64" "y mod 4 = 0" "base64Loop t [] (n + 2) True = (m, True)"
      | "y \<noteq> 64" "z \<noteq> 64" "base64Loop t [] (n + 3) False = (m, True)"
      using L(3) by (auto split: if_splits)
    then show ?thesis
    proof cases
      case 1
      have "t = []" "m = n + 1" using base64Loop_ended [of t "n + 1" m] 1(4) t by auto
      moreover have "c = CHR ''=''" "d = CHR ''=''" using D(3,4) 1 base64Digit_pad by auto
      moreover have "(w * 4 + x div 16) div 4 = w" "(w * 4 + x div 16) mod 4 * 16 = x" "w * 4 + x div 16 < 256"
        using split_octets [of w x 0 0] cw cx 1(3) by auto
      moreover have "x div 16 * 16 = x" using 1(3) div_mult_mod_eq [of x 16] by simp
      ultimately show ?thesis using cw cx s by (intro exI [of _ "[w * 4 + x div 16]"]) simp
    next
      case 2
      note cy = base64Char_Digit [OF D(3) 2(1)]
      have "t = []" "m = n + 2" using base64Loop_ended [of t "n + 2" m] 2(4) t by auto
      moreover have "d = CHR ''=''" using D(4) 2 base64Digit_pad by auto
      moreover note split_octets [of w x y 0]
      ultimately show ?thesis using cw cx cy s 2(3)
        by (intro exI [of _ "[w * 4 + x div 16, x mod 16 * 16 + y div 4]"]) auto
    next
      case 3
      note cy = base64Char_Digit [OF D(3) 3(1)] and cz = base64Char_Digit [OF D(4) 3(2)]
      obtain bs where bs: "octets bs" "m = n + 3 + length bs" "base64Encode bs = t"
        using less.hyps [of t "n + 3"] 3(3) less.prems(2) s by auto
      note split_octets [of w x y z]
      with cw cx cy cz bs s show ?thesis
        by (intro exI [of _ "(w * 4 + x div 16) # (x mod 16 * 16 + y div 4) # (y mod 4 * 64 + z) # bs"]) auto
    qed
  qed
qed


section \<open>Dates\<close>

lemma yearModulo_foldl:
  "foldl (\<lambda>result ch. (result * 10 + digitVal ch) mod k) r s mod k = (r * 10 ^ length s + decNat s) mod k"
proof (induction s arbitrary: r)
  case (Cons ch s)
  have "((r * 10 + digitVal ch) mod k * 10 ^ length s + decNat s) mod k =
      ((r * 10 + digitVal ch) * 10 ^ length s + decNat s) mod k"
    by (metis mod_add_left_eq mod_mult_left_eq)
  moreover have "(r * 10 + digitVal ch) * 10 ^ length s + decNat s = r * 10 ^ length (ch # s) + decNat (ch # s)"
    by (simp add: algebra_simps)
  ultimately show ?case unfolding foldl.simps Cons by (simp only:)
qed simp

lemma xsdYearModulo_mod: "xsdYearModulo s k mod k = decNat s mod k"
  by (simp add: xsdYearModulo_def yearModulo_foldl)

definition gregorianLeap :: "nat \<Rightarrow> bool" where
  "gregorianLeap y \<longleftrightarrow> 4 dvd y \<and> (\<not> 100 dvd y \<or> 400 dvd y)"

text \<open>The lengths of the months of a year, and the days of the proleptic Gregorian calendar, which has no year zero.\<close>

definition monthLengths :: "bool \<Rightarrow> nat list" where
  "monthLengths leap = [31, if leap then 29 else 28, 31, 30, 31, 30, 31, 31, 30, 31, 30, 31]"

definition calendarDay :: "nat \<Rightarrow> nat \<Rightarrow> nat \<Rightarrow> bool" where
  "calendarDay y m d \<longleftrightarrow> 0 < y \<and> 1 \<le> m \<and> m \<le> length (monthLengths (gregorianLeap y)) \<and>
     1 \<le> d \<and> d \<le> monthLengths (gregorianLeap y) ! (m - 1)"

lemma days_of_month: "1 \<le> m \<Longrightarrow> m \<le> 12 \<Longrightarrow> XsdDaysInMonth m leap = monthLengths leap ! (m - 1)"
proof -
  assume "1 \<le> m" "m \<le> 12"
  then have "m = 1 \<or> m = 2 \<or> m = 3 \<or> m = 4 \<or> m = 5 \<or> m = 6 \<or> m = 7 \<or> m = 8 \<or> m = 9 \<or> m = 10 \<or> m = 11 \<or> m = 12"
    by arith
  then show ?thesis by (elim disjE) (simp_all add: XsdDaysInMonth_def monthLengths_def)
qed

lemma year_leap:
  "(xsdYearModulo s 400 mod 400 = 0 \<or> xsdYearModulo s 4 mod 4 = 0 \<and> xsdYearModulo s 100 mod 100 \<noteq> 0) \<longleftrightarrow>
   gregorianLeap (decNat s)"
proof -
  have "400 dvd y \<Longrightarrow> 4 dvd (y::nat)" for y by (rule dvd_trans [of 4 400]) simp_all
  then show ?thesis by (auto simp: xsdYearModulo_mod gregorianLeap_def mod_eq_0_iff_dvd)
qed

lemma validXSDYear_pos: "allDigits s \<Longrightarrow> validXSDYear s \<longleftrightarrow> 0 < decNat s"
proof (induction s)
  case (Cons ch s)
  then show ?case using digitVal_eq_0 [of ch] by (auto simp: validXSDYear_def)
qed (simp add: validXSDYear_def)

lemma validXSDDateMatch_gregorian:
  "allDigits y \<Longrightarrow> validXSDDateMatch y m d \<longleftrightarrow> 0 < decNat y \<and> d \<le> XsdDaysInMonth m (gregorianLeap (decNat y))"
  unfolding validXSDDateMatch_def year_leap by (simp add: validXSDYear_pos)

lemma padded_digits: "allDigits (padded w k)" "decNat (padded w k) = k" "padded w k \<noteq> []"
  using showNat_digits [of k]
  by (auto simp: padded_def decNat_append decNat_showNat list_all_iff isDigit_def)

lemma padded_two:
  assumes "k < 100"
  shows "twoDigits lo hi (padded 2 k @ rest) = (if lo \<le> k \<and> k \<le> hi then Some (k, rest) else None)"
proof -
  have "length (padded 2 k) = 2" using padded_props(1) [of k 2] assms by simp
  then obtain a b where ab: "padded 2 k = [a, b]" by (metis One_nat_def Suc_1 length_0_conv length_Suc_conv)
  have "isDigit a" "isDigit b" "decNat [a, b] = k" using padded_digits [of 2 k] unfolding ab by auto
  then show ?thesis unfolding ab by (simp only: append.simps twoDigits.simps) auto
qed

lemma matchYear_padded:
  assumes "rest = [] \<or> \<not> isDigit (hd rest)"
  shows "matchYear (padded 4 y @ rest) = Some (padded 4 y, rest)"
proof -
  have dig: "\<forall>ch \<in> set (padded 4 y). isDigit ch" using padded_digits(1) [of 4 y] by (simp add: list_all_iff)
  have "hd (padded 4 y) \<noteq> CHR ''-''" using dig padded_digits(3) [of 4 y] digit_not_space by (metis list.set_sel(1))
  then have "trimPrefix1 (CHR ''-'') (padded 4 y @ rest) = padded 4 y @ rest"
    using padded_digits(3) [of 4 y] by (cases "padded 4 y") (auto simp: trimPrefix1_def)
  moreover have "takeWhile isDigit (padded 4 y @ rest) = padded 4 y" "dropWhile isDigit (padded 4 y @ rest) = rest"
    using dig assms by (cases rest; simp add: takeWhile_append2 dropWhile_append2)+
  moreover have "length (padded 4 y) = 4 \<or> (length (padded 4 y) > 4 \<and> hd (padded 4 y) \<noteq> CHR ''0'')"
  proof (cases "length (showNat y) \<le> 4")
    case True
    then show ?thesis by (simp add: padded_def)
  next
    case False
    then have "padded 4 y = showNat y" by (simp add: padded_def)
    moreover have "0 < y" using False by (cases y) (auto simp: showNat.simps [of 0])
    then have "noLeadingZero (showNat y)" by (rule showNat_noLeadingZero)
    ultimately show ?thesis using False by (simp add: noLeadingZero_def)
  qed
  ultimately show ?thesis by (simp add: matchYear_def Let_def)
qed

definition spellDate :: "nat \<Rightarrow> nat \<Rightarrow> nat \<Rightarrow> string" where
  "spellDate y m d = padded 4 y @ ''-'' @ padded 2 m @ ''-'' @ padded 2 d"

section \<open>Abstract values\<close>

text \<open>What a value means, whatever unused fields it carries.\<close>

datatype absValue = AbsBoolean bool | AbsNumber XDecimal | AbsList "absValue list" | AbsText ValueDomain string string

fun valueOf :: "SimpleValue \<Rightarrow> absValue" where
  "valueOf (SimpleValue d p b t n xs) =
     (case d of
        BooleanDomain \<Rightarrow> AbsBoolean b
      | NumberDomain \<Rightarrow> AbsNumber n
      | ListDomain \<Rightarrow> AbsList (map valueOf xs)
      | _ \<Rightarrow> AbsText d p t)"

lemma Decimal_compare_0: "Decimal_compare a b = 0 \<longleftrightarrow> a = b"
proof
  assume h: "Decimal_compare a b = 0"
  then have n: "dNegative a = dNegative b" by (auto simp: Decimal_compare_def split: if_splits)
  with h have "dWhole a = dWhole b" "dFraction a = dFraction b"
    by (auto simp: Decimal_compare_def Let_def split: if_splits)
  with n show "a = b" by simp
qed (simp add: Decimal_compare_def Let_def)

section \<open>Properties\<close>

text \<open>
  C34: collapsing whitespace and splitting a list agree. The items are exactly the maximal whitespace-free
  runs of the text, collapsing joins those same items with single spaces, and collapsing a second time
  changes nothing.
\<close>

theorem whitespace_collapse_exact:
  "splitList s = map encodeRunes (wordsOf (runes s)) \<and>
   collapseWhitespace s = join_on '' '' (splitList s) \<and>
   collapseWhitespace (collapseWhitespace s) = collapseWhitespace s \<and>
   list_all (\<lambda>item. item \<noteq> [] \<and> CHR '' '' \<notin> set item) (splitList s)"
proof -
  have "collapseWhitespace (collapseWhitespace s) = collapseWhitespace s"
    by (metis collapse_words words_collapse)
  then show ?thesis
    using word_no_space by (auto simp: splitList_words collapse_words joinWords_def list_all_iff)
qed

text \<open>
  C20: base64 text is accepted, with an octet count n, exactly when the text without its XML whitespace is
  the canonical encoding of some n octets; non-zero padding bits, stray padding and short groups are refused.
\<close>

theorem base64_lexical_exact:
  assumes "builtin \<noteq> ''hexBinary''"
  shows "binaryLexicalLength builtin s = (n, True) \<longleftrightarrow>
    (\<exists>bs. octets bs \<and> length bs = n \<and> base64Encode bs = dense s)"
proof
  assume "binaryLexicalLength builtin s = (n, True)"
  then have "base64Loop (dense s) [] 0 False = (n, True)"
    using assms base64Loop_dense by (simp add: binaryLexicalLength_def)
  from base64Loop_sound [OF this] show "\<exists>bs. octets bs \<and> length bs = n \<and> base64Encode bs = dense s" by auto
next
  assume "\<exists>bs. octets bs \<and> length bs = n \<and> base64Encode bs = dense s"
  then show "binaryLexicalLength builtin s = (n, True)"
    using assms base64Loop_dense base64Loop_encode [of _ 0] by (auto simp: binaryLexicalLength_def) metis
qed

theorem base64_lexical_exact_witness:
  "binaryLexicalLength ''base64Binary'' ''TQ =='' = (1, True) \<and>
   (\<exists>bs. octets bs \<and> length bs = 1 \<and> base64Encode bs = dense ''TQ =='')"
proof -
  have "binaryLexicalLength ''base64Binary'' ''TQ =='' = (1, True)" by code_simp
  with base64_lexical_exact [of "''base64Binary''" "''TQ ==''" 1] show ?thesis by simp
qed

text \<open>
  C31: a spelled date is valid exactly when it is a day of the proleptic Gregorian calendar: the year is not zero,
  the month is one of the twelve and the day is at most the length of that month, 28 or 29 days for February by the
  leap rule, computed correctly on years of any number of digits.
\<close>

theorem gregorian_dates:
  assumes "m < 100" "d < 100"
  shows "validXSDDateTime ''date'' (spellDate y m d) \<longleftrightarrow> calendarDay y m d"
proof -
  have "matchYear (spellDate y m d) = Some (padded 4 y, ''-'' @ padded 2 m @ ''-'' @ padded 2 d)"
    unfolding spellDate_def by (rule matchYear_padded) (simp add: isDigit_def)
  then have "matchYearMonthDay (spellDate y m d) =
      (if 1 \<le> m \<and> m \<le> 12 \<and> 1 \<le> d \<and> d \<le> 31 then Some (padded 4 y, m, d, []) else None)"
    using padded_two [OF assms(1), of 1 12] padded_two [OF assms(2), of 1 31 "[]"]
    by (auto simp: matchYearMonthDay_def matchYearMonth_def literal_def)
  moreover have "XsdDaysInMonth m l \<le> 31" for l by (simp add: XsdDaysInMonth_def)
  moreover have "calendarDay y m d \<longleftrightarrow> 0 < y \<and> 1 \<le> m \<and> m \<le> 12 \<and> 1 \<le> d \<and> d \<le> XsdDaysInMonth m (gregorianLeap y)"
    using days_of_month [of m "gregorianLeap y"] by (auto simp: calendarDay_def monthLengths_def)
  ultimately show ?thesis
    using validXSDDateMatch_gregorian [OF padded_digits(1)] padded_digits(2) [of 4 y]
    by (auto simp: validXSDDateTime_def matchTimezone_def intro: order_trans)
qed

theorem gregorian_dates_witness:
  "validXSDDateTime ''date'' (spellDate 2000 2 29) \<and> \<not> validXSDDateTime ''date'' (spellDate 1900 2 29) \<and>
   \<not> validXSDDateTime ''date'' (spellDate 2024 4 31)"
  using gregorian_dates [of 2 29 2000] gregorian_dates [of 2 29 1900] gregorian_dates [of 4 31 2024]
  by (simp add: calendarDay_def monthLengths_def gregorianLeap_def)

text \<open>
  C33: value equality is equality of what the values mean. Numbers compare by their exact value even across
  integer and decimal spellings, booleans by truth, lists item by item, and the remaining types by primitive
  and text, so the relation is an equivalence.
\<close>

theorem value_equality_exact:
  "(SimpleValue_equal x y \<longleftrightarrow> valueOf x = valueOf y) \<and>
   (parseDecimal s = Some a \<longrightarrow> parseDecimal t = Some b \<longrightarrow> (a = b \<longleftrightarrow> decVal a = decVal b))"
proof -
  have lists: "length xs = length ys \<and> SimpleValues_equal xs ys \<longleftrightarrow> map valueOf xs = map valueOf ys"
    if "\<And>u v. u \<in> set xs \<Longrightarrow> SimpleValue_equal u v \<longleftrightarrow> valueOf u = valueOf v" for xs ys
    using that
  proof (induction xs arbitrary: ys)
    case (Cons u xs)
    then show ?case by (cases ys) auto
  qed (cases "ys"; simp)+
  have "SimpleValue_equal x y \<longleftrightarrow> valueOf x = valueOf y" for x y
  proof (induction x arbitrary: y)
    case (SimpleValue d p b t n xs)
    obtain d' p' b' t' n' xs' where y: "y = SimpleValue d' p' b' t' n' xs'" by (cases y)
    show ?case using lists [of xs xs', OF SimpleValue.IH]
      by (cases d; cases d') (auto simp: y Decimal_compare_0)
  qed
  moreover have "a = b \<longleftrightarrow> decVal a = decVal b" if "parseDecimal s = Some a" "parseDecimal t = Some b"
    using decs.cmp_val [OF that] Decimal_compare_0 [of a b] by simp
  ultimately show ?thesis by blast
qed

theorem value_equality_exact_witness:
  "SimpleValue_equal
     (atomicValue \<lparr> Whitespace = WhitespaceCollapse, Builtin = ''integer'', StringValue = False \<rparr> ''+5'')
     (atomicValue \<lparr> Whitespace = WhitespaceCollapse, Builtin = ''decimal'', StringValue = False \<rparr> ''5.0'')"
proof -
  have "valueOf (atomicValue \<lparr> Whitespace = WhitespaceCollapse, Builtin = ''integer'', StringValue = False \<rparr> ''+5'') =
        valueOf (atomicValue \<lparr> Whitespace = WhitespaceCollapse, Builtin = ''decimal'', StringValue = False \<rparr> ''5.0'')"
    by code_simp
  then show ?thesis using value_equality_exact by blast
qed

end
