(* ===== verification/Xsd_Names.thy ===== *)
theory Xsd_Names
  imports Xsd_Lexical
begin

text \<open>
  Expanded names and what the kernel builds from them (\<^verbatim>\<open>internal/xsd/kernel.go\<close>): display
  text, diagnostic paths of children and attributes, the sorted sets of expected names and the choice
  between two content failures, the override of attribute declarations, and the recognition of the
  standard schema-instance attributes. Everything is modelled for the uncontrolled context, where
  metering does nothing.
\<close>

section \<open>Names and their text\<close>

record QName =
  Space :: string
  Local :: string

definition XSINamespace :: string where
  "XSINamespace = ''http://www.w3.org/2001/XMLSchema-instance''"

definition displayQName :: "QName \<Rightarrow> string" where
  "displayQName name =
     (if Space name = [] then ''<'' @ Local name @ ''>''
      else ''<{'' @ Space name @ ''}'' @ Local name @ ''>'')"

definition controlledPath :: "string \<Rightarrow> string \<Rightarrow> int \<Rightarrow> string" where
  "controlledPath parent local index =
     (if parent = [] then ''/'' @ local
      else if index \<le> 1 then parent @ ''/'' @ local
      else parent @ ''/'' @ local @ ''['' @ showInt index @ '']'')"

definition controlledChildPath :: "string \<Rightarrow> QName \<Rightarrow> int \<Rightarrow> string" where
  "controlledChildPath parent child index = controlledPath parent (Local child) index"

text \<open>The children enter as their names; the counter map starts at zero everywhere.\<close>

fun childPathsLoop :: "string \<Rightarrow> QName list \<Rightarrow> (QName \<Rightarrow> int) \<Rightarrow> string list" where
  "childPathsLoop parent [] counts = []"
| "childPathsLoop parent (child # rest) counts =
     (let counts' = counts(child := add64 (counts child) 1)
      in controlledChildPath parent child (counts' child) # childPathsLoop parent rest counts')"

definition childPaths :: "string \<Rightarrow> QName list \<Rightarrow> string list" where
  "childPaths parent children = childPathsLoop parent children (\<lambda>_. 0)"

fun countName :: "QName list \<Rightarrow> QName \<Rightarrow> int \<Rightarrow> int" where
  "countName [] name count = count"
| "countName (child # rest) name count =
     countName rest name (if child = name then add64 count 1 else count)"

definition indexedChildPath :: "string \<Rightarrow> QName list \<Rightarrow> int \<Rightarrow> string" where
  "indexedChildPath parent children index =
     (if index < 0 \<or> int (length children) \<le> index then parent
      else (let child = children ! nat index
            in controlledChildPath parent child (countName (take (Suc (nat index)) children) child 0)))"

definition attributePath :: "string \<Rightarrow> QName \<Rightarrow> string" where
  "attributePath parent name =
     (if Space name = [] then parent @ ''/@'' @ Local name
      else parent @ ''/@'' @ ''{'' @ Space name @ ''}'' @ Local name)"

section \<open>Expected names and content failures\<close>

definition compareNames :: "QName \<Rightarrow> QName \<Rightarrow> int" where
  "compareNames left right =
     (let comparison = strCompare (Space left) (Space right)
      in if comparison \<noteq> 0 then comparison else strCompare (Local left) (Local right))"

fun uniqueLoop :: "QName list \<Rightarrow> QName set \<Rightarrow> QName list" where
  "uniqueLoop [] seen = []"
| "uniqueLoop (v # rest) seen =
     (if Local v = [] \<or> v \<in> seen then uniqueLoop rest seen
      else v # uniqueLoop rest (insert v seen))"

text \<open>
  The standard library sort is determined by its result here: the values are pairwise different and the
  comparison is a total order, so any correct sort yields the list insertion sort yields.
\<close>

fun insertName :: "QName \<Rightarrow> QName list \<Rightarrow> QName list" where
  "insertName v [] = [v]"
| "insertName v (w # rest) = (if compareNames v w \<le> 0 then v # w # rest else w # insertName v rest)"

definition sortNames :: "QName list \<Rightarrow> QName list" where
  "sortNames names = foldr insertName names []"

definition uniqueNames :: "QName list \<Rightarrow> QName list" where
  "uniqueNames values = sortNames (uniqueLoop values {})"

record MatchFailure =
  mfSchema :: string
  mfPosition :: nat
  mfExpected :: "QName list"

definition betterFailure :: "MatchFailure \<Rightarrow> MatchFailure \<Rightarrow> MatchFailure" where
  "betterFailure left right =
     (if mfPosition left < mfPosition right then right
      else if mfPosition right < mfPosition left then left
      else left\<lparr>mfExpected := uniqueNames (mfExpected left @ mfExpected right)\<rparr>)"

definition expectedNames :: "QName list \<Rightarrow> string" where
  "expectedNames names = (if names = [] then [] else join_on '' or '' (map displayQName names))"

section \<open>Attribute declarations and schema-instance names\<close>

text \<open>
  The merge reads the name of a declaration and copies the rest, so the other fields of an attribute
  declaration are a type parameter of the record extension.
\<close>

record AttributeSchema =
  aName :: QName

fun indexNames :: "'x AttributeSchema_scheme list \<Rightarrow> nat \<Rightarrow> (QName \<rightharpoonup> nat) \<Rightarrow> (QName \<rightharpoonup> nat)" where
  "indexNames [] i indexes = indexes"
| "indexNames (a # rest) i indexes = indexNames rest (Suc i) (indexes(aName a \<mapsto> i))"

fun mergeLoop :: "'x AttributeSchema_scheme list \<Rightarrow> 'x AttributeSchema_scheme list \<Rightarrow> (QName \<rightharpoonup> nat)
    \<Rightarrow> 'x AttributeSchema_scheme list" where
  "mergeLoop [] result indexes = result"
| "mergeLoop (a # rest) result indexes =
     (case indexes (aName a) of
        Some i \<Rightarrow> mergeLoop rest (result[i := a]) indexes
      | None \<Rightarrow> mergeLoop rest (result @ [a]) (indexes(aName a \<mapsto> length result)))"

definition mergeAttributes :: "'x AttributeSchema_scheme list \<Rightarrow> 'x AttributeSchema_scheme list
    \<Rightarrow> 'x AttributeSchema_scheme list" where
  "mergeAttributes base derived = mergeLoop derived base (indexNames base 0 Map.empty)"

definition StandardXSIName :: "QName \<Rightarrow> bool \<Rightarrow> bool" where
  "StandardXSIName name allowType =
     (if Space name \<noteq> XSINamespace then False
      else if Local name = ''nil'' \<or> Local name = ''schemaLocation'' \<or> Local name = ''noNamespaceSchemaLocation'' then True
      else if Local name = ''type'' then allowType
      else False)"

text \<open>Attributes as name and value, in document order.\<close>

fun nilAttribute :: "(QName \<times> string) list \<Rightarrow> string \<times> bool" where
  "nilAttribute [] = ([], False)"
| "nilAttribute ((name, v) # rest) =
     (if Space name \<noteq> XSINamespace \<or> Local name \<noteq> ''nil'' then nilAttribute rest else (v, True))"


section \<open>Paths of children\<close>

definition occurrence :: "QName list \<Rightarrow> nat \<Rightarrow> nat" where
  "occurrence children i = length (filter (\<lambda>c. c = children ! i) (take (Suc i) children))"

abbreviation hostList :: "'a list \<Rightarrow> bool" where
  "hostList xs \<equiv> int (length xs) \<le> MaxInt64"

lemma countName_eq:
  "0 \<le> k \<Longrightarrow> k + int (length children) \<le> MaxInt64 \<Longrightarrow>
   countName children name k = k + int (length (filter (\<lambda>c. c = name) children))"
  by (induction children arbitrary: k) (simp_all add: add64_nonneg)

lemma childPathsLoop_nth:
  "\<forall>c. 0 \<le> counts c \<and> counts c + int (length children) \<le> MaxInt64 \<Longrightarrow> i < length children \<Longrightarrow>
   childPathsLoop parent children counts ! i =
     controlledChildPath parent (children ! i) (counts (children ! i) + int (occurrence children i))"
proof (induction children arbitrary: counts i)
  case (Cons child rest)
  have new: "add64 (counts child) 1 = counts child + 1"
    using Cons.prems(1) [THEN spec, of child] by (intro add64_nonneg) auto
  show ?case
  proof (cases i)
    case 0
    then show ?thesis by (simp add: Let_def new occurrence_def)
  next
    case (Suc j)
    have room: "\<forall>c. 0 \<le> (counts(child := counts child + 1)) c \<and>
        (counts(child := counts child + 1)) c + int (length rest) \<le> MaxInt64"
    proof
      fix c
      show "0 \<le> (counts(child := counts child + 1)) c \<and>
          (counts(child := counts child + 1)) c + int (length rest) \<le> MaxInt64"
        using Cons.prems(1) [THEN spec, of c] by auto
    qed
    have "childPathsLoop parent rest (counts(child := counts child + 1)) ! j =
        controlledChildPath parent (rest ! j) ((counts(child := counts child + 1)) (rest ! j) + int (occurrence rest j))"
      using Suc Cons.prems(2) by (intro Cons.IH [OF room]) simp
    then show ?thesis using Suc by (simp add: Let_def new occurrence_def add.assoc)
  qed
qed simp

lemma childPathsLoop_length [simp]: "length (childPathsLoop parent children counts) = length children"
  by (induction children arbitrary: counts) (simp_all add: Let_def)

lemma childPaths_nth:
  "hostList children \<Longrightarrow> i < length children \<Longrightarrow>
   childPaths parent children ! i = controlledChildPath parent (children ! i) (int (occurrence children i))"
  by (simp add: childPaths_def childPathsLoop_nth)

lemma occurrence_pos: "i < length children \<Longrightarrow> 0 < occurrence children i"
  by (auto simp: occurrence_def filter_empty_conv take_Suc_conv_app_nth)

lemma occurrence_less:
  assumes "i < j" "j < length children" "children ! i = children ! j"
  shows "occurrence children i < occurrence children j"
proof -
  have "take (Suc j) children = take (Suc i) children @ take (j - i) (drop (Suc i) children)"
    using take_add [of "Suc i" "j - i" children] assms(1) by simp
  moreover have "children ! j \<in> set (take (j - i) (drop (Suc i) children))"
    using assms(1,2) by (auto simp: in_set_conv_nth intro!: exI [of _ "j - Suc i"])
  then have "filter (\<lambda>c. c = children ! j) (take (j - i) (drop (Suc i) children)) \<noteq> []"
    by (auto simp: filter_empty_conv)
  ultimately show ?thesis using assms(3) by (simp add: occurrence_def)
qed

lemma showInt_nat_inject: "showInt (int a) = showInt (int b) \<Longrightarrow> a = b"
  by (simp add: showInt_def showNat_inject)

lemma controlledPath_inject:
  assumes "parent \<noteq> []" "0 < a" "0 < b" "controlledPath parent l (int a) = controlledPath parent l (int b)"
  shows "a = b"
  using assms by (auto simp: controlledPath_def dest: showInt_nat_inject split: if_splits)

section \<open>Order of names\<close>

lemma strCompare_trans: "strCompare a b < 0 \<Longrightarrow> strCompare b c < 0 \<Longrightarrow> strCompare a c < 0"
proof (induction a b arbitrary: c rule: strCompare.induct)
  case (2 y ys)
  then show ?case by (cases c) auto
next
  case (4 x xs y ys)
  show ?case
  proof (cases c)
    case Nil
    then show ?thesis using 4(3) by simp
  next
    case (Cons z zs)
    define p q t where "p = byte x" and "q = byte y" and "t = byte z"
    have a: "p < q \<or> p = q \<and> strCompare xs ys < 0"
      using 4(2) by (simp add: p_def q_def split: if_splits)
    have b: "q < t \<or> q = t \<and> strCompare ys zs < 0"
      using 4(3) Cons by (simp add: q_def t_def split: if_splits)
    have ih: "p = q \<Longrightarrow> strCompare xs ys < 0 \<Longrightarrow> strCompare ys zs < 0 \<Longrightarrow> strCompare xs zs < 0"
      using 4(1) by (simp add: p_def q_def)
    have "p < t \<or> p = t \<and> strCompare xs zs < 0" using a b ih by linarith
    then show ?thesis using Cons by (auto simp: p_def t_def)
  qed
qed auto

lemma strCompare_self [simp]: "strCompare s s = 0"
  by simp

lemma compareNames_eq_0 [simp]: "compareNames a b = 0 \<longleftrightarrow> a = b"
  by (cases a; cases b) (simp add: compareNames_def Let_def)

lemma compareNames_swap: "compareNames b a = - compareNames a b"
proof -
  have "strCompare (Space b) (Space a) = - strCompare (Space a) (Space b)"
    "strCompare (Local b) (Local a) = - strCompare (Local a) (Local b)" by (rule strCompare_swap)+
  then show ?thesis unfolding compareNames_def Let_def by presburger
qed

lemma compareNames_trans: "compareNames a b < 0 \<Longrightarrow> compareNames b c < 0 \<Longrightarrow> compareNames a c < 0"
  using strCompare_trans [of "Space a" "Space b" "Space c"] strCompare_trans [of "Local a" "Local b" "Local c"]
    strCompare_eq_0 [of "Space a" "Space c"]
  by (auto simp: compareNames_def Let_def split: if_splits)

abbreviation ascendingNames :: "QName list \<Rightarrow> bool" where
  "ascendingNames \<equiv> sorted_wrt (\<lambda>a b. compareNames a b < 0)"

lemma set_insertName [simp]: "set (insertName v xs) = insert v (set xs)"
  by (induction xs) auto

lemma insertName_ascending: "ascendingNames xs \<Longrightarrow> v \<notin> set xs \<Longrightarrow> ascendingNames (insertName v xs)"
proof (induction xs)
  case (Cons w xs)
  show ?case
  proof (cases "compareNames v w \<le> 0")
    case True
    then have lt: "compareNames v w < 0" using Cons.prems(2) compareNames_eq_0 [of v w] by (simp add: order_less_le del: compareNames_eq_0)
    with Cons.prems show ?thesis by (auto intro: compareNames_trans)
  next
    case False
    then have "compareNames w v < 0" by (simp add: compareNames_swap [of w v])
    with False Cons show ?thesis by auto
  qed
qed simp

lemma sortNames_props:
  "set (sortNames xs) = set xs \<and> (distinct xs \<longrightarrow> ascendingNames (sortNames xs))"
  by (induction xs) (auto simp: sortNames_def insertName_ascending)

lemma uniqueLoop_props:
  "set (uniqueLoop xs seen) = {v \<in> set xs. Local v \<noteq> [] \<and> v \<notin> seen} \<and> distinct (uniqueLoop xs seen)"
  by (induction xs arbitrary: seen) auto

lemma uniqueNames_props:
  "set (uniqueNames xs) = {v \<in> set xs. Local v \<noteq> []}" "ascendingNames (uniqueNames xs)"
  using sortNames_props [of "uniqueLoop xs {}"] uniqueLoop_props [of xs "{}"] by (simp_all add: uniqueNames_def)

lemma ascending_unique:
  "ascendingNames xs \<Longrightarrow> ascendingNames ys \<Longrightarrow> set xs = set ys \<Longrightarrow> xs = ys"
proof (induction xs arbitrary: ys)
  case (Cons x xs)
  then obtain y ys' where ys: "ys = y # ys'" by (cases ys) auto
  have irr: "\<not> compareNames a a < 0" for a by (metis compareNames_eq_0 less_irrefl)
  have asym: "compareNames a b < 0 \<Longrightarrow> \<not> compareNames b a < 0" for a b
    by (simp add: compareNames_swap [of b a])
  have "x = y"
  proof (rule ccontr)
    assume "x \<noteq> y"
    then have "x \<in> set ys'" "y \<in> set xs" using Cons.prems(3) unfolding ys by auto
    then show False using Cons.prems(1,2) asym [of x y] unfolding ys by auto
  qed
  moreover have "x \<notin> set xs" "y \<notin> set ys'" using Cons.prems(1,2) irr unfolding ys by auto
  then have "set xs = set ys'" using Cons.prems(3) \<open>x = y\<close> unfolding ys by auto
  ultimately show ?case using Cons unfolding ys by auto
qed simp

section \<open>Override of attribute declarations\<close>

definition declared :: "'x AttributeSchema_scheme list \<Rightarrow> QName \<Rightarrow> 'x AttributeSchema_scheme option" where
  "declared xs name = find (\<lambda>a. aName a = name) xs"

definition indexed :: "'x AttributeSchema_scheme list \<Rightarrow> (QName \<rightharpoonup> nat) \<Rightarrow> bool" where
  "indexed xs indexes \<longleftrightarrow> distinct (map aName xs) \<and>
     (\<forall>n i. indexes n = Some i \<longleftrightarrow> i < length xs \<and> aName (xs ! i) = n)"

lemma indexed_None:
  assumes "indexed xs indexes" "indexes n = None"
  shows "n \<notin> aName ` set xs"
proof
  assume "n \<in> aName ` set xs"
  then obtain i where "i < length xs" "aName (xs ! i) = n" by (auto simp: in_set_conv_nth)
  then have "indexes n = Some i" using assms(1) by (simp add: indexed_def)
  with assms(2) show False by simp
qed

lemma indexed_append:
  assumes "indexed xs indexes" "indexes (aName a) = None"
  shows "indexed (xs @ [a]) (indexes(aName a \<mapsto> length xs))"
proof -
  have new: "i < length xs \<Longrightarrow> aName (xs ! i) \<noteq> aName a" for i
    using assms unfolding indexed_def by (metis option.distinct(1))
  then have "aName a \<notin> aName ` set xs" by (metis imageE in_set_conv_nth)
  with assms new show ?thesis by (auto simp: indexed_def nth_append less_Suc_eq)
qed

lemma indexNames_indexed:
  "indexed pre m \<Longrightarrow> distinct (map aName (pre @ xs)) \<Longrightarrow> indexed (pre @ xs) (indexNames xs (length pre) m)"
proof (induction xs arbitrary: pre m)
  case (Cons a xs)
  have "m (aName a) = None"
  proof (cases "m (aName a)")
    case (Some i)
    then have "i < length pre" "aName (pre ! i) = aName a" using Cons.prems(1) by (auto simp: indexed_def)
    then have "aName a \<in> aName ` set pre" by (metis image_eqI nth_mem)
    then show ?thesis using Cons.prems(2) by auto
  qed simp
  from indexed_append [OF Cons.prems(1) this] Cons.IH [of "pre @ [a]"] Cons.prems(2) show ?case by simp
qed simp

lemma declared_append: "declared (xs @ ys) n = (case declared xs n of None \<Rightarrow> declared ys n | Some a \<Rightarrow> Some a)"
  by (induction xs) (simp_all add: declared_def)

lemma declared_one: "declared [a] n = (if aName a = n then Some a else None)"
  by (simp add: declared_def)

lemma declared_Some_iff:
  "distinct (map aName xs) \<Longrightarrow> declared xs n = Some a \<longleftrightarrow> a \<in> set xs \<and> aName a = n"
  by (induction xs) (auto simp: declared_def)

lemma declared_None_iff: "declared xs n = None \<longleftrightarrow> n \<notin> aName ` set xs"
  by (auto simp: declared_def find_None_iff)

lemma indexed_update:
  assumes "indexed xs indexes" "indexes (aName a) = Some i"
  shows "indexed (xs[i := a]) indexes \<and> map aName (xs[i := a]) = map aName xs"
proof -
  have i: "i < length xs" "aName (xs ! i) = aName a" using assms by (auto simp: indexed_def)
  then have "map aName (xs[i := a]) = map aName xs" by (metis list_update_id map_update nth_map)
  with assms i show ?thesis by (auto simp: indexed_def nth_list_update)
qed

lemma declared_update:
  assumes "distinct (map aName xs)" "i < length xs" "aName (xs ! i) = aName a"
  shows "declared (xs[i := a]) n = (if n = aName a then Some a else declared xs n)"
proof -
  have names: "map aName (xs[i := a]) = map aName xs" using assms by (metis list_update_id map_update nth_map)
  have keep: "b \<in> set (xs[i := a]) \<longleftrightarrow> b \<in> set xs" if "aName b \<noteq> aName a" for b
    using that assms by (metis in_set_conv_nth length_list_update nth_list_update_eq nth_list_update_neq)
  have d: "distinct (map aName (xs[i := a]))" using names assms(1) by simp
  show ?thesis
  proof (cases "n = aName a")
    case True
    with d assms(2) show ?thesis by (simp add: declared_Some_iff set_update_memI)
  next
    case False
    have "declared (xs[i := a]) n = Some b \<longleftrightarrow> declared xs n = Some b" for b
      using False keep [of b] by (auto simp: declared_Some_iff [OF d] declared_Some_iff [OF assms(1)])
    with False show ?thesis by (metis not_Some_eq)
  qed
qed

lemma mergeLoop_props:
  "indexed result indexes \<Longrightarrow>
   distinct (map aName (mergeLoop derived result indexes)) \<and>
   (\<forall>n. declared (mergeLoop derived result indexes) n =
      (case declared (rev derived) n of Some a \<Rightarrow> Some a | None \<Rightarrow> declared result n)) \<and>
   (\<exists>fresh. map aName (mergeLoop derived result indexes) = map aName result @ fresh)"
proof (induction derived arbitrary: result indexes)
  case Nil
  then show ?case by (simp add: indexed_def declared_def)
next
  case (Cons a derived)
  show ?case
  proof (cases "indexes (aName a)")
    case None
    have n: "aName a \<notin> aName ` set result" by (rule indexed_None [OF Cons.prems None])
    have d: "declared (result @ [a]) n = (if n = aName a then Some a else declared result n)" for n
      using n declared_None_iff [of result "aName a"]
      by (auto simp: declared_append declared_def [of "[a]"] split: option.split)
    define R where "R = mergeLoop derived (result @ [a]) (indexes(aName a \<mapsto> length result))"
    have R: "mergeLoop (a # derived) result indexes = R" using None by (simp add: R_def)
    from Cons.IH [OF indexed_append [OF Cons.prems None], folded R_def] obtain fresh
      where ih: "distinct (map aName R)" "map aName R = map aName (result @ [a]) @ fresh"
        "\<And>n. declared R n = (case declared (rev derived) n of Some a \<Rightarrow> Some a | None \<Rightarrow> declared (result @ [a]) n)"
      by blast
    have "declared R n = (case declared (rev (a # derived)) n of Some a \<Rightarrow> Some a | None \<Rightarrow> declared result n)" for n
      by (auto simp: ih(3) [unfolded d] declared_append declared_one split: option.split)
    with ih(1,2) show ?thesis unfolding R by (auto intro!: exI [of _ "aName a # fresh"])
  next
    case (Some i)
    note u = indexed_update [OF Cons.prems Some]
    have "i < length result" "aName (result ! i) = aName a" "distinct (map aName result)"
      using Cons.prems Some by (auto simp: indexed_def)
    note d = declared_update [OF this(3,1,2)]
    from Some Cons.IH [of "result[i := a]" indexes] u show ?thesis
      by (auto simp: d declared_append declared_one split: option.split)
  qed
qed

section \<open>Properties\<close>

text \<open>
  The paths computed for all children at once are the paths computed one child at a time, and below
  a nonempty parent path two siblings with the same expanded name never share a path.
\<close>

theorem child_paths_exact:
  assumes "hostList children" "i < length children"
  shows "length (childPaths parent children) = length children \<and>
    childPaths parent children ! i = indexedChildPath parent children (int i) \<and>
    (\<forall>j < length children. parent \<noteq> [] \<and> children ! i = children ! j \<and>
       childPaths parent children ! i = childPaths parent children ! j \<longrightarrow> i = j)"
proof -
  have "countName (take (Suc i) children) (children ! i) 0 = int (occurrence children i)"
    using assms by (simp add: countName_eq occurrence_def)
  then have one: "childPaths parent children ! i = indexedChildPath parent children (int i)"
    using assms by (simp add: childPaths_nth indexedChildPath_def Let_def)
  have "i = j" if "j < length children" "parent \<noteq> []" "children ! i = children ! j"
    "childPaths parent children ! i = childPaths parent children ! j" for j
  proof -
    have "occurrence children i = occurrence children j"
      using that assms occurrence_pos [of i children] occurrence_pos [of j children]
      by (auto simp: childPaths_nth controlledChildPath_def intro: controlledPath_inject)
    then show ?thesis
      using that assms occurrence_less [of i j children] occurrence_less [of j i children]
      by (metis less_irrefl linorder_neqE_nat)
  qed
  with one show ?thesis by (auto simp: childPaths_def)
qed

theorem child_paths_exact_witness:
  "childPaths ''/a'' [\<lparr>Space = [], Local = ''b''\<rparr>, \<lparr>Space = [], Local = ''c''\<rparr>, \<lparr>Space = [], Local = ''b''\<rparr>] ! 2 = ''/a/b[2]'' \<and>
   indexedChildPath ''/a'' [\<lparr>Space = [], Local = ''b''\<rparr>, \<lparr>Space = [], Local = ''c''\<rparr>, \<lparr>Space = [], Local = ''b''\<rparr>] 2 = ''/a/b[2]''"
proof -
  let ?c = "[\<lparr>Space = [], Local = ''b''\<rparr>, \<lparr>Space = [], Local = ''c''\<rparr>, \<lparr>Space = [], Local = ''b''\<rparr>]"
  have "childPaths ''/a'' ?c ! 2 = ''/a/b[2]''" by code_simp
  moreover have "hostList ?c" by (simp add: int64_limits)
  from child_paths_exact [OF this, of 2 "''/a''"]
  have "childPaths ''/a'' ?c ! 2 = indexedChildPath ''/a'' ?c 2" by simp
  ultimately show ?thesis by simp
qed

text \<open>
  C38: the names reported with a content failure are canonical. Of two failures the one further into the
  children wins; at the same position the expected names are the nonempty names of both, without
  duplicates and in ascending order of namespace and local name, so they depend neither on the order nor
  on the multiplicity in which alternatives were tried.
\<close>

theorem better_failure_canonical:
  "mfPosition (betterFailure l r) = max (mfPosition l) (mfPosition r) \<and>
   (mfPosition l < mfPosition r \<longrightarrow> betterFailure l r = r) \<and>
   (mfPosition r < mfPosition l \<longrightarrow> betterFailure l r = l) \<and>
   (mfPosition l = mfPosition r \<longrightarrow>
      ascendingNames (mfExpected (betterFailure l r)) \<and>
      set (mfExpected (betterFailure l r)) = {n \<in> set (mfExpected l) \<union> set (mfExpected r). Local n \<noteq> []} \<and>
      mfExpected (betterFailure r l) = mfExpected (betterFailure l r))"
  using uniqueNames_props [of "mfExpected l @ mfExpected r"] uniqueNames_props [of "mfExpected r @ mfExpected l"]
  by (auto simp: betterFailure_def intro!: ascending_unique)

theorem better_failure_canonical_witness:
  "mfExpected (betterFailure
      \<lparr>mfSchema = [], mfPosition = 1, mfExpected = [\<lparr>Space = [], Local = ''b''\<rparr>, \<lparr>Space = [], Local = ''a''\<rparr>]\<rparr>
      \<lparr>mfSchema = [], mfPosition = 1, mfExpected = [\<lparr>Space = [], Local = ''b''\<rparr>]\<rparr>) =
     [\<lparr>Space = [], Local = ''a''\<rparr>, \<lparr>Space = [], Local = ''b''\<rparr>]"
proof -
  let ?l = "\<lparr>mfSchema = [], mfPosition = 1, mfExpected = [\<lparr>Space = [], Local = ''b''\<rparr>, \<lparr>Space = [], Local = ''a''\<rparr>]\<rparr>"
  let ?r = "\<lparr>mfSchema = [], mfPosition = 1, mfExpected = [\<lparr>Space = [], Local = ''b''\<rparr>]\<rparr>"
  have "mfExpected (betterFailure ?r ?l) = [\<lparr>Space = [], Local = ''a''\<rparr>, \<lparr>Space = [], Local = ''b''\<rparr>]" by code_simp
  moreover have "mfExpected (betterFailure ?r ?l) = mfExpected (betterFailure ?l ?r)"
    using better_failure_canonical [of ?l ?r] by simp
  ultimately show ?thesis by simp
qed

text \<open>
  C39: merging attribute declarations is override by name. With a base that declares no name twice, the
  merged list declares no name twice, a name resolves to its last derived declaration if there is one
  and to the base declaration otherwise, and the base names keep their places in front.
\<close>

theorem merge_attributes_override:
  assumes "distinct (map aName base)"
  shows "distinct (map aName (mergeAttributes base derived)) \<and>
    (\<forall>n. declared (mergeAttributes base derived) n =
       (case declared (rev derived) n of Some a \<Rightarrow> Some a | None \<Rightarrow> declared base n)) \<and>
    take (length base) (map aName (mergeAttributes base derived)) = map aName base"
proof -
  have "indexed base (indexNames base 0 Map.empty)"
    using indexNames_indexed [of "[]" Map.empty base] assms by (simp add: indexed_def)
  from mergeLoop_props [OF this, of derived] show ?thesis
    unfolding mergeAttributes_def by (metis append_eq_conv_conj length_map)
qed

theorem merge_attributes_override_witness:
  "\<exists>x y. x = \<lparr>aName = \<lparr>Space = [], Local = ''x''\<rparr>\<rparr> \<and> y = \<lparr>aName = \<lparr>Space = [], Local = ''y''\<rparr>\<rparr> \<and>
     mergeAttributes [x] [y, x] = [x, y] \<and> declared (mergeAttributes [x] [y, x]) (aName y) = Some y"
proof -
  let ?x = "\<lparr>aName = \<lparr>Space = [], Local = ''x''\<rparr>\<rparr>"
  let ?y = "\<lparr>aName = \<lparr>Space = [], Local = ''y''\<rparr>\<rparr>"
  have "distinct (map aName [?x])" by simp
  from merge_attributes_override [OF this, of "[?y, ?x]"]
  have "declared (mergeAttributes [?x] [?y, ?x]) (aName ?y) =
      (case declared (rev [?y, ?x]) (aName ?y) of Some a \<Rightarrow> Some a | None \<Rightarrow> declared [?x] (aName ?y))" by blast
  then have "declared (mergeAttributes [?x] [?y, ?x]) (aName ?y) = Some ?y" by (simp add: declared_def)
  moreover have "mergeAttributes [?x] [?y, ?x] = [?x, ?y]" by (simp add: mergeAttributes_def)
  ultimately show ?thesis by blast
qed

end
