(* ===== verification/Xsd_Wildcards.thy ===== *)
theory Xsd_Wildcards
  imports Xsd_Names
begin

text \<open>
  Wildcard namespaces (\<^verbatim>\<open>internal/xsd/wildcard_namespace.go\<close>), the union of attribute wildcards
  (\<^verbatim>\<open>internal/xsd/attribute_wildcard_union.go\<close>) and the admission of an attribute by a wildcard
  (\<^verbatim>\<open>kernel.go\<close>). The lexical check of namespace names, \<^verbatim>\<open>validXSDAnyURI\<close>, is the argument \<open>uri\<close>
  of these definitions; every statement below holds for all such checks.
\<close>

section \<open>Namespace tokens and admission\<close>

record AnySchema =
  wNamespace :: string
  wProcess :: string

record wildcardAdmission =
  allowed :: bool
  known :: bool
  valid :: bool

abbreviation spaceByte :: "char \<Rightarrow> bool" where
  "spaceByte ch \<equiv> IsWhitespace (byte ch)"

text \<open>
  The scan: skip whitespace bytes, cut the longest run of other bytes, classify it. The result carries
  the tokens collected so far and the last special token; \<open>None\<close> is the early exit on a bad namespace name.
\<close>

lemma dropWord_shorter:
  "\<not> spaceByte ch \<Longrightarrow> length (dropWhile (\<lambda>b. \<not> spaceByte b) (ch # rest)) < length (ch # rest)"
  by (simp add: le_imp_less_Suc length_dropWhile_le)

function tokenLoop :: "(string \<Rightarrow> bool) \<Rightarrow> string \<Rightarrow> string list \<Rightarrow> string \<Rightarrow> (string list \<times> string) option" where
  "tokenLoop uri [] tokens special = Some (tokens, special)"
| "tokenLoop uri (ch # rest) tokens special =
     (if spaceByte ch then tokenLoop uri rest tokens special
      else (let token = takeWhile (\<lambda>b. \<not> spaceByte b) (ch # rest);
                next = dropWhile (\<lambda>b. \<not> spaceByte b) (ch # rest)
            in if token = ''##any'' then tokenLoop uri next (tokens @ [token]) ''any''
               else if token = ''##other'' then tokenLoop uri next (tokens @ [token]) ''other''
               else if token = ''##local'' \<or> token = ''##targetNamespace'' \<or> uri token
               then tokenLoop uri next (tokens @ [token]) special
               else None))"
  by pat_completeness auto
termination
  by (relation "measure (\<lambda>(uri, s, tokens, special). length s)")
    (simp_all only: wf_measure in_measure prod.case dropWord_shorter not_False_eq_True, simp_all)

definition wildcardNamespaceTokens :: "(string \<Rightarrow> bool) \<Rightarrow> string \<Rightarrow> string list \<times> string \<times> bool" where
  "wildcardNamespaceTokens uri namespace =
     (if namespace = [] then ([], ''any'', True)
      else (case tokenLoop uri namespace [] [] of
          None \<Rightarrow> ([], [], False)
        | Some (tokens, special) \<Rightarrow>
            if special \<noteq> [] then (if length tokens \<noteq> 1 then ([], [], False) else ([], special, True))
            else (tokens, [], True)))"

fun admitTokens :: "string list \<Rightarrow> string \<Rightarrow> bool \<Rightarrow> bool \<Rightarrow> bool \<times> bool" where
  "admitTokens [] name allow needsTarget = (allow, needsTarget)"
| "admitTokens (token # rest) name allow needsTarget =
     (if token = ''##local'' then admitTokens rest name (allow \<or> name = []) needsTarget
      else if token = ''##targetNamespace'' then admitTokens rest name allow True
      else admitTokens rest name (allow \<or> strCompare token name = 0) needsTarget)"

definition wildcardNamespace :: "(string \<Rightarrow> bool) \<Rightarrow> string \<Rightarrow> string \<Rightarrow> wildcardAdmission" where
  "wildcardNamespace uri namespace name =
     (case wildcardNamespaceTokens uri namespace of (tokens, special, ok) \<Rightarrow>
        if \<not> ok then \<lparr>allowed = False, known = False, valid = False\<rparr>
        else if special = ''any'' then \<lparr>allowed = True, known = True, valid = True\<rparr>
        else if special = ''other'' then
          (if name = [] then \<lparr>allowed = False, known = True, valid = True\<rparr>
           else \<lparr>allowed = True, known = False, valid = True\<rparr>)
        else (case admitTokens tokens name False False of (allow, needsTarget) \<Rightarrow>
          \<lparr>allowed = allow \<or> needsTarget, known = allow \<or> \<not> needsTarget, valid = True\<rparr>))"

definition wildcardProcessValid :: "string \<Rightarrow> bool" where
  "wildcardProcessValid mode \<longleftrightarrow> mode = [] \<or> mode = ''skip'' \<or> mode = ''lax'' \<or> mode = ''strict''"

text \<open>
  Recording an incomplete assessment appends its message to the context's messages, in the order of
  \<^verbatim>\<open>errors.Join\<close>.
\<close>

definition noteWildcardAdmission :: "wildcardAdmission \<Rightarrow> string \<Rightarrow> string list \<Rightarrow> string list" where
  "noteWildcardAdmission admission mode notes =
     (if \<not> valid admission \<or> \<not> wildcardProcessValid mode
      then notes @ [''wildcard namespace or processContents metadata is invalid'']
      else if \<not> known admission then notes @ [''wildcard defining target namespace is unavailable'']
      else notes)"

text \<open>Admission of an attribute name, outside and inside a controlled run (the flag \<open>local\<close>).\<close>

definition anyAttributeAllows :: "(string \<Rightarrow> bool) \<Rightarrow> bool \<Rightarrow> AnySchema option \<Rightarrow> QName \<Rightarrow> string list \<Rightarrow> bool \<times> string list" where
  "anyAttributeAllows uri local schema name notes =
     (case schema of
        None \<Rightarrow> (False, notes)
      | Some w \<Rightarrow>
          if local then
            (let admission = wildcardNamespace uri (wNamespace w) (Space name)
             in (allowed admission \<or> \<not> known admission \<or> \<not> valid admission \<or> \<not> wildcardProcessValid (wProcess w),
                 noteWildcardAdmission admission (wProcess w) notes))
          else if wNamespace w = [] \<or> wNamespace w = ''##any'' then (True, notes)
          else if wNamespace w = ''##other'' then (Space name \<noteq> [], notes)
          else if wNamespace w = ''##local'' then (Space name = [], notes)
          else (let admission = wildcardNamespace uri (wNamespace w) (Space name)
                in (valid admission \<and> known admission \<and> allowed admission, notes)))"

section \<open>The union of attribute wildcards\<close>

definition wildcardUnionTokens :: "(string \<Rightarrow> bool) \<Rightarrow> string \<Rightarrow> string list \<times> string" where
  "wildcardUnionTokens uri namespace =
     (case wildcardNamespaceTokens uri namespace of (tokens, special, ok) \<Rightarrow>
        if \<not> ok then ([], ''invalid'')
        else if special \<noteq> [] then ([], special)
        else (tokens, ''set''))"

fun uniqueTokens :: "string list \<Rightarrow> string set \<Rightarrow> string list" where
  "uniqueTokens [] seen = []"
| "uniqueTokens (token # rest) seen =
     (if token \<in> seen then uniqueTokens rest seen else token # uniqueTokens rest (insert token seen))"

text \<open>The wildcard pointers are options; the second result is the unavailable flag.\<close>

definition mergeAnyAttribute :: "(string \<Rightarrow> bool) \<Rightarrow> AnySchema option \<Rightarrow> AnySchema option \<Rightarrow> AnySchema option \<times> bool" where
  "mergeAnyAttribute uri base derived =
     (case base of None \<Rightarrow> (derived, False)
      | Some b \<Rightarrow> (case derived of None \<Rightarrow> (base, False)
        | Some d \<Rightarrow>
          (case (wildcardUnionTokens uri (wNamespace b), wildcardUnionTokens uri (wNamespace d)) of
             ((left, leftKind), (right, rightKind)) \<Rightarrow>
               if leftKind = ''invalid'' \<or> rightKind = ''invalid'' \<or>
                  \<not> wildcardProcessValid (wProcess b) \<or> \<not> wildcardProcessValid (wProcess d)
               then (derived, True)
               else if leftKind = ''any'' \<or> rightKind = ''any''
               then (Some \<lparr>wNamespace = ''##any'', wProcess = wProcess d\<rparr>, False)
               else if leftKind = ''other'' \<or> rightKind = ''other'' then (derived, True)
               else (let tokens = uniqueTokens (left @ right) {}
                     in if tokens = [] then (Some \<lparr>wNamespace = '' '', wProcess = wProcess d\<rparr>, False)
                        else (Some \<lparr>wNamespace = join_on '' '' tokens, wProcess = wProcess d\<rparr>, False)))))"

section \<open>Token lists\<close>

definition plainToken :: "(string \<Rightarrow> bool) \<Rightarrow> string \<Rightarrow> bool" where
  "plainToken uri t \<longleftrightarrow> t \<noteq> [] \<and> (\<forall>ch \<in> set t. \<not> spaceByte ch) \<and> t \<noteq> ''##any'' \<and> t \<noteq> ''##other'' \<and>
     (t = ''##local'' \<or> t = ''##targetNamespace'' \<or> uri t)"

text \<open>One turn of the scan on a word.\<close>

abbreviation wordHead :: "string \<Rightarrow> string" where
  "wordHead s \<equiv> takeWhile (\<lambda>b. \<not> spaceByte b) s"

abbreviation wordRest :: "string \<Rightarrow> string" where
  "wordRest s \<equiv> dropWhile (\<lambda>b. \<not> spaceByte b) s"

lemma tokenLoop_turn:
  assumes "\<not> spaceByte ch" "wordHead (ch # rest) = t" "wordRest (ch # rest) = n"
  shows "tokenLoop uri (ch # rest) tokens special =
    (if t = ''##any'' then tokenLoop uri n (tokens @ [t]) ''any''
     else if t = ''##other'' then tokenLoop uri n (tokens @ [t]) ''other''
     else if t = ''##local'' \<or> t = ''##targetNamespace'' \<or> uri t then tokenLoop uri n (tokens @ [t]) special
     else None)"
  unfolding tokenLoop.simps assms Let_def using assms(1) by (simp only: if_False not_False_eq_True)

lemma tokenLoop_grows:
  "tokenLoop uri s tokens special = Some (ts, sp) \<Longrightarrow> sp = special \<or> sp = ''any'' \<or> sp = ''other''"
proof (induction uri s tokens special rule: tokenLoop.induct)
  case (2 uri ch rest tokens special)
  show ?case
  proof (cases "spaceByte ch")
    case False
    note turn = tokenLoop_turn [OF False refl refl, where uri = uri and tokens = tokens and special = special]
    show ?thesis
      using 2(2-4) [OF False refl refl] 2(5) unfolding turn by (auto split: if_splits)
  qed (use 2 in simp)
qed simp

text \<open>Without a special token every collected token is plain.\<close>

lemma tokenLoop_plain:
  "tokenLoop uri s tokens special = Some (ts, []) \<Longrightarrow> list_all (plainToken uri) tokens \<Longrightarrow>
   list_all (plainToken uri) ts"
proof (induction uri s tokens special rule: tokenLoop.induct)
  case (2 uri ch rest tokens special)
  show ?case
  proof (cases "spaceByte ch")
    case False
    note turn = tokenLoop_turn [OF False refl refl, where uri = uri and tokens = tokens and special = special]
    have "wordHead (ch # rest) \<noteq> []" using False by simp
    moreover have "\<forall>b \<in> set (wordHead (ch # rest)). \<not> spaceByte b"
      using set_takeWhileD [of _ "\<lambda>b. \<not> spaceByte b" "ch # rest"] by blast
    ultimately have word: "wordHead (ch # rest) \<noteq> []" "\<forall>b \<in> set (wordHead (ch # rest)). \<not> spaceByte b" .
    define t n where "t = wordHead (ch # rest)" and "n = wordRest (ch # rest)"
    have no: "tokenLoop uri n (tokens @ [t]) ''any'' \<noteq> Some (ts, [])" "tokenLoop uri n (tokens @ [t]) ''other'' \<noteq> Some (ts, [])"
      by (auto dest: tokenLoop_grows)
    have "t \<noteq> ''##any''" "t \<noteq> ''##other''" "t = ''##local'' \<or> t = ''##targetNamespace'' \<or> uri t"
      "tokenLoop uri n (tokens @ [t]) special = Some (ts, [])"
      using 2(5) no unfolding turn t_def [symmetric] n_def [symmetric] by (simp_all split: if_splits)
    then show ?thesis
      using 2(4) [OF False refl refl, folded t_def n_def] 2(6) word
      unfolding t_def [symmetric] by (simp add: plainToken_def)
  qed (use 2 in simp)
qed simp

lemma tokenLoop_word:
  assumes "plainToken uri t" "rest = [] \<or> spaceByte (hd rest)"
  shows "tokenLoop uri (t @ rest) tokens special = tokenLoop uri rest (tokens @ [t]) special"
proof -
  obtain ch t' where t: "t = ch # t'" using assms(1) by (cases t) (auto simp: plainToken_def)
  have n: "\<forall>b \<in> set t. \<not> spaceByte b" using assms(1) by (simp add: plainToken_def)
  have "wordHead (t @ rest) = t" "wordRest (t @ rest) = rest"
    using n assms(2) by (cases rest; simp)+
  moreover have "\<not> spaceByte ch" using n t by simp
  ultimately show ?thesis
    using tokenLoop_turn [of ch "t' @ rest" t rest uri tokens special] assms(1) unfolding t by (auto simp: plainToken_def)
qed

lemma space_is_space: "spaceByte (CHR '' '')"
  by (simp add: IsWhitespace_def XMLWhitespace_def)

lemma tokenLoop_join:
  "list_all (plainToken uri) ts \<Longrightarrow> tokenLoop uri (join_on '' '' ts) tokens special = Some (tokens @ ts, special)"
proof (induction ts arbitrary: tokens)
  case (Cons t ts)
  show ?case
  proof (cases ts)
    case Nil
    then show ?thesis using Cons.prems tokenLoop_word [of uri t "[]"] by simp
  next
    case (Cons u us)
    have "tokenLoop uri (join_on '' '' (t # ts)) tokens special =
        tokenLoop uri ('' '' @ join_on '' '' ts) (tokens @ [t]) special"
      using Cons Cons.prems tokenLoop_word [of uri t "'' '' @ join_on '' '' ts" tokens special] space_is_space by simp
    then show ?thesis using Cons.IH [of "tokens @ [t]"] Cons.prems space_is_space by simp
  qed
qed simp

section \<open>Admission\<close>

definition names_it :: "string list \<Rightarrow> string \<Rightarrow> bool" where
  "names_it ts name \<longleftrightarrow> (''##local'' \<in> set ts \<and> name = []) \<or> (name \<in> set ts \<and> name \<noteq> ''##local'' \<and> name \<noteq> ''##targetNamespace'')"

lemma admitTokens_eq:
  "admitTokens ts name allow dep = (allow \<or> names_it ts name, dep \<or> ''##targetNamespace'' \<in> set ts)"
  by (induction ts arbitrary: allow dep) (auto simp: names_it_def)

lemma uniqueTokens_props: "set (uniqueTokens ts seen) = set ts - seen"
  by (induction ts arbitrary: seen) auto

text \<open>The three ways a namespace text is read.\<close>

lemma unionTokens_cases:
  assumes "wildcardUnionTokens uri ns = (ts, kind)" "kind \<noteq> ''invalid''"
  obtains "kind = ''any''" "\<And>name. wildcardNamespace uri ns name = \<lparr>allowed = True, known = True, valid = True\<rparr>"
    | "kind = ''other''"
    | "kind = ''set''" "list_all (plainToken uri) ts"
      "\<And>name. wildcardNamespace uri ns name =
        \<lparr>allowed = names_it ts name \<or> ''##targetNamespace'' \<in> set ts,
         known = names_it ts name \<or> ''##targetNamespace'' \<notin> set ts, valid = True\<rparr>"
proof -
  obtain tokens sp ok where w: "wildcardNamespaceTokens uri ns = (tokens, sp, ok)" by (rule prod_cases3)
  have tok: "wildcardNamespaceTokens uri ns = (tokens, sp, True)" "sp = [] \<longrightarrow> tokens = ts"
    "kind = (if sp = [] then ''set'' else sp)"
    using assms w by (auto simp: wildcardUnionTokens_def split: if_splits)
  consider "ns = []" | ts' where "tokenLoop uri ns [] [] = Some (ts', sp)" "sp = [] \<longrightarrow> ts' = ts" "ns \<noteq> []"
    using tok(1,2) by (auto simp: wildcardNamespaceTokens_def split: if_splits option.splits prod.splits)
  then show thesis
  proof cases
    case 1
    then show ?thesis using tok that(1) by (simp add: wildcardNamespaceTokens_def wildcardNamespace_def split: if_splits)
  next
    case 2
    then consider "sp = ''any''" | "sp = ''other''" | "sp = []" using tokenLoop_grows by blast
    then show ?thesis
    proof cases
      case 3
      have "list_all (plainToken uri) ts" using 2 3 tokenLoop_plain [of uri ns "[]" "[]" ts] by simp
      then show ?thesis using 3 tok that(3) by (simp add: wildcardNamespace_def admitTokens_eq)
    qed (use tok that in \<open>simp_all add: wildcardNamespace_def\<close>)
  qed
qed

lemma unionTokens_kind:
  "wildcardUnionTokens uri ns = (ts, kind) \<Longrightarrow> kind \<noteq> ''invalid'' \<Longrightarrow> kind = ''any'' \<or> kind = ''other'' \<or> kind = ''set''"
  by (erule unionTokens_cases) simp_all

lemma unionTokens_any:
  "wildcardUnionTokens uri ns = (ts, ''any'') \<Longrightarrow>
   wildcardNamespace uri ns name = \<lparr>allowed = True, known = True, valid = True\<rparr>"
  by (erule unionTokens_cases) simp_all

lemma unionTokens_set:
  "wildcardUnionTokens uri ns = (ts, ''set'') \<Longrightarrow> list_all (plainToken uri) ts \<and>
   wildcardNamespace uri ns name =
     \<lparr>allowed = names_it ts name \<or> ''##targetNamespace'' \<in> set ts,
      known = names_it ts name \<or> ''##targetNamespace'' \<notin> set ts, valid = True\<rparr>"
  by (erule unionTokens_cases) simp_all

lemma any_admits: "wildcardNamespace uri ''##any'' name = \<lparr>allowed = True, known = True, valid = True\<rparr>"
  by (simp add: wildcardNamespace_def wildcardNamespaceTokens_def IsWhitespace_def XMLWhitespace_def)

text \<open>A plain token list survives printing, also as the empty list printed as one space.\<close>

lemma printed_tokens:
  assumes "list_all (plainToken uri) ts"
  shows "wildcardUnionTokens uri (if ts = [] then '' '' else join_on '' '' ts) = (ts, ''set'')"
proof (cases ts)
  case Nil
  then show ?thesis using space_is_space by (simp add: wildcardUnionTokens_def wildcardNamespaceTokens_def)
next
  case (Cons t us)
  then have "join_on '' '' ts \<noteq> []" using assms by (cases us) (auto simp: plainToken_def)
  then show ?thesis
    using Cons tokenLoop_join [OF assms, of "[]" "[]"] by (simp add: wildcardUnionTokens_def wildcardNamespaceTokens_def)
qed

lemma merge_sets:
  assumes "wildcardUnionTokens uri (wNamespace b) = (l, ''set'')" "wildcardUnionTokens uri (wNamespace d) = (r, ''set'')"
    and "mergeAnyAttribute uri (Some b) (Some d) = (m, False)"
  shows "\<exists>w ts. m = Some w \<and> wProcess w = wProcess d \<and> wildcardUnionTokens uri (wNamespace w) = (ts, ''set'') \<and>
    set ts = set l \<union> set r"
proof -
  define ts where "ts = uniqueTokens (l @ r) {}"
  have plain: "list_all (plainToken uri) ts"
    using unionTokens_set [OF assms(1)] unionTokens_set [OF assms(2)]
    by (auto simp: ts_def list_all_iff uniqueTokens_props)
  have "m = Some \<lparr>wNamespace = (if ts = [] then '' '' else join_on '' '' ts), wProcess = wProcess d\<rparr>"
    using assms by (auto simp: mergeAnyAttribute_def Let_def ts_def split: if_splits)
  with printed_tokens [OF plain] show ?thesis by (auto simp: ts_def uniqueTokens_props)
qed

section \<open>Properties\<close>

text \<open>
  C40: the attribute wildcard of an extension is the union. When the merge of two present wildcards is
  available, the result keeps the derived processing mode, its printed namespace text reads back as a
  valid constraint, and it admits exactly the namespaces the base or the derived wildcard admits.
\<close>

theorem wildcard_union_exact:
  assumes "mergeAnyAttribute uri (Some b) (Some d) = (m, False)"
  shows "\<exists>w. m = Some w \<and> wProcess w = wProcess d \<and>
    valid (wildcardNamespace uri (wNamespace w) name) \<and>
    (allowed (wildcardNamespace uri (wNamespace w) name) \<longleftrightarrow>
       allowed (wildcardNamespace uri (wNamespace b) name) \<or> allowed (wildcardNamespace uri (wNamespace d) name))"
proof -
  obtain l lk r rk where t: "wildcardUnionTokens uri (wNamespace b) = (l, lk)" "wildcardUnionTokens uri (wNamespace d) = (r, rk)"
    by fastforce
  have ok: "lk \<noteq> ''invalid''" "rk \<noteq> ''invalid''" and cases:
    "(lk = ''any'' \<or> rk = ''any'') \<and> m = Some \<lparr>wNamespace = ''##any'', wProcess = wProcess d\<rparr> \<or>
     lk \<noteq> ''any'' \<and> rk \<noteq> ''any'' \<and> lk \<noteq> ''other'' \<and> rk \<noteq> ''other''"
    using assms t by (auto simp: mergeAnyAttribute_def split: if_splits)
  from cases show ?thesis
  proof
    assume a: "(lk = ''any'' \<or> rk = ''any'') \<and> m = Some \<lparr>wNamespace = ''##any'', wProcess = wProcess d\<rparr>"
    then have "allowed (wildcardNamespace uri (wNamespace b) name) \<or> allowed (wildcardNamespace uri (wNamespace d) name)"
      using t unionTokens_any by auto
    with a any_admits show ?thesis by simp
  next
    assume "lk \<noteq> ''any'' \<and> rk \<noteq> ''any'' \<and> lk \<noteq> ''other'' \<and> rk \<noteq> ''other''"
    then have k: "lk = ''set''" "rk = ''set''" using unionTokens_kind [OF t(1) ok(1)] unionTokens_kind [OF t(2) ok(2)] by simp_all
    note L = t(1) [unfolded k] and R = t(2) [unfolded k]
    from merge_sets [OF L R assms] obtain w ts where w: "m = Some w" "wProcess w = wProcess d"
      "wildcardUnionTokens uri (wNamespace w) = (ts, ''set'')" "set ts = set l \<union> set r" by blast
    then show ?thesis
      using unionTokens_set [OF L] unionTokens_set [OF R] unionTokens_set [OF w(3)] by (auto simp: names_it_def)
  qed
qed

theorem wildcard_union_exact_witness:
  "mergeAnyAttribute (\<lambda>_. True) (Some \<lparr>wNamespace = ''urn:a  ##local'', wProcess = ''lax''\<rparr>)
      (Some \<lparr>wNamespace = ''urn:b urn:a'', wProcess = ''skip''\<rparr>) =
    (Some \<lparr>wNamespace = ''urn:a ##local urn:b'', wProcess = ''skip''\<rparr>, False) \<and>
   allowed (wildcardNamespace (\<lambda>_. True) ''urn:a ##local urn:b'' ''urn:b'')"
proof -
  have m: "mergeAnyAttribute (\<lambda>_. True) (Some \<lparr>wNamespace = ''urn:a  ##local'', wProcess = ''lax''\<rparr>)
      (Some \<lparr>wNamespace = ''urn:b urn:a'', wProcess = ''skip''\<rparr>) =
    (Some \<lparr>wNamespace = ''urn:a ##local urn:b'', wProcess = ''skip''\<rparr>, False)" by code_simp
  have "allowed (wildcardNamespace (\<lambda>_. True) ''urn:b urn:a'' ''urn:b'')" by code_simp
  with wildcard_union_exact [OF m, of "''urn:b''"] m show ?thesis by simp
qed

end
