(* ===== verification/Go_Actions.thy ===== *)
theory Go_Actions
  imports Go_Base
begin

text \<open>
  Operations that change an explicit state and may panic: a result with the next state, or \<open>None\<close> for a
  nil dereference, a slice out of range or a recursion that runs out of depth. Triples of total correctness
  state what an operation does from every state with an invariant.
\<close>

section \<open>Actions\<close>

type_synonym ('s, 'a) action = "'s \<Rightarrow> ('a \<times> 's) option"

definition ret :: "'a \<Rightarrow> ('s, 'a) action" where "ret a m = Some (a, m)"
definition panic :: "('s, 'a) action" where "panic m = None"
definition bnd :: "('s, 'a) action \<Rightarrow> ('a \<Rightarrow> ('s, 'b) action) \<Rightarrow> ('s, 'b) action" where
  "bnd x f m = (case x m of None \<Rightarrow> None | Some (a, m') \<Rightarrow> f a m')"
definition get :: "('s \<Rightarrow> 'a) \<Rightarrow> ('s, 'a) action" where "get f m = Some (f m, m)"
definition upd :: "('s \<Rightarrow> 's) \<Rightarrow> ('s, unit) action" where "upd f m = Some ((), f m)"

text \<open>A loop that threads a value.\<close>

primrec each :: "('a \<Rightarrow> 'b \<Rightarrow> ('s, 'b) action) \<Rightarrow> 'a list \<Rightarrow> 'b \<Rightarrow> ('s, 'b) action" where
  "each f [] b = ret b"
| "each f (x # xs) b = bnd (f x b) (each f xs)"

lemmas act_simps = bnd_def ret_def get_def upd_def

section \<open>Total correctness of actions\<close>

text \<open>From a state with the invariant the action returns, restores the invariant and meets the postcondition.\<close>

definition runs :: "('s \<Rightarrow> bool) \<Rightarrow> ('s, 'a) action \<Rightarrow> ('a \<Rightarrow> bool) \<Rightarrow> bool" where
  "runs I x Q \<longleftrightarrow> (\<forall>m. I m \<longrightarrow> (\<exists>a m'. x m = Some (a, m') \<and> I m' \<and> Q a))"

lemma runsD: "runs I x Q \<Longrightarrow> I m \<Longrightarrow> \<exists>a m'. x m = Some (a, m') \<and> I m' \<and> Q a"
  by (simp add: runs_def)

lemma runs_ret: "Q a \<Longrightarrow> runs I (ret a) Q"
  by (simp add: runs_def ret_def)

lemma runs_bnd: "runs I x P \<Longrightarrow> (\<And>a. P a \<Longrightarrow> runs I (f a) Q) \<Longrightarrow> runs I (bnd x f) Q"
  unfolding runs_def bnd_def by fastforce

lemma runs_get: "(\<And>m. I m \<Longrightarrow> runs I (f (g m)) Q) \<Longrightarrow> runs I (bnd (get g) f) Q"
  unfolding runs_def bnd_def get_def by auto

lemma runs_upd: "(\<And>m. I m \<Longrightarrow> I (u m)) \<Longrightarrow> Q () \<Longrightarrow> runs I (upd u) Q"
  by (simp add: runs_def upd_def)

lemma runs_weaken: "runs I x P \<Longrightarrow> (\<And>a. P a \<Longrightarrow> Q a) \<Longrightarrow> runs I x Q"
  unfolding runs_def by blast

lemma runs_each:
  assumes "\<And>ys x b. set ys \<subseteq> set xs \<Longrightarrow> x \<in> set xs \<Longrightarrow> P ys b \<Longrightarrow> runs I (f x b) (P (ys @ [x]))" "P [] b"
  shows "runs I (each f xs b) (P xs)"
proof -
  have "runs I (each f zs b) (P (ys @ zs))" if "P ys b" "set ys \<subseteq> set xs" "set zs \<subseteq> set xs" for ys zs b
    using that
  proof (induction zs arbitrary: ys b)
    case (Cons z zs)
    then have "runs I (f z b) (P (ys @ [z]))" using assms(1) by simp
    then show ?case using Cons.IH [of "ys @ [z]"] Cons.prems by (auto intro: runs_bnd)
  qed (simp add: runs_ret)
  from this [of "[]" b xs] assms(2) show ?thesis by simp
qed

end
