(* ===== verification/Xsd_Particles.thy ===== *)
theory Xsd_Particles
  imports Xsd_Wildcards Go_Actions
begin

text \<open>
  The content-model matcher (\<^verbatim>\<open>internal/xsd/particle.go\<close>): the structural guard \<open>Prepare\<close>, the memoized
  endpoint search \<open>Match\<close> and \<open>Body\<close>, all groups, and the reconstruction of a witness. Particles are
  shared and may be cyclic in the program, so they live in a heap here: a pointer is an index into
  \<open>heap\<close>, and an index outside it is the nil pointer. The matcher object is explicit state. An operation
  returns \<open>None\<close> where the program would dereference nil or slice out of range; the recursion over the
  particle graph takes its depth as fuel, and running out of it is \<open>None\<close> as well, so that a result
  \<open>Some\<close> shows both the absence of panics and termination. Metering and the optional work counters,
  which do not influence results, are left out.
\<close>

section \<open>Schema data and the matcher's state\<close>

datatype ParticleKind = ParticleElement | ParticleAll | ParticleChoice | ParticleSequence | ParticleAny
  | ParticleOther string

record Occurrence =
  oMin :: nat
  oMax :: nat
  oUnbounded :: bool

text \<open>The fields of a declaration that no content model reads are elsewhere, at its index.\<close>

record ElementSchema =
  eName :: QName
  eReference :: QName
  eDeclaration :: nat

record ParticleSchema =
  pKind :: ParticleKind
  pOccurrence :: Occurrence
  pElement :: "ElementSchema option"
  pChildren :: "nat list"
  pAny :: "AnySchema option"

text \<open>What a match borrows from its context: schema, controlled flag, and the names of the children.\<close>

record matchEnv =
  heap :: "ParticleSchema list"
  elements :: "QName \<rightharpoonup> ElementSchema"
  uriOK :: "string \<Rightarrow> bool"
  localRun :: bool
  nodes :: "QName option list"

record ElementMatch =
  emParticle :: nat
  emIndex :: nat
  emSchema :: "ElementSchema option"

record MatchResult =
  mrNext :: int
  mrElements :: "ElementMatch list"

record ParticleEndpoints =
  Ends :: "nat list"
  EFailure :: "MatchFailure option"

record ParticleMatcher =
  mParticles :: "nat \<times> nat \<Rightarrow> ParticleEndpoints option"
  mBodies :: "nat \<times> nat \<Rightarrow> ParticleEndpoints option"
  mNullable :: "nat \<Rightarrow> bool option"
  mSingletons :: "nat list option"
  mDiagnostics :: bool
  mNotes :: "string list"

type_synonym 'a act = "(ParticleMatcher, 'a) action"

definition particleAt :: "matchEnv \<Rightarrow> nat \<Rightarrow> ParticleSchema option" where
  "particleAt E p = (if p < length (heap E) then Some (heap E ! p) else None)"

abbreviation size_of :: "matchEnv \<Rightarrow> nat" where
  "size_of E \<equiv> length (nodes E)"

abbreviation minOf :: "ParticleSchema \<Rightarrow> nat" where "minOf q \<equiv> oMin (pOccurrence q)"
abbreviation maxOf :: "ParticleSchema \<Rightarrow> nat" where "maxOf q \<equiv> oMax (pOccurrence q)"
abbreviation unboundedOf :: "ParticleSchema \<Rightarrow> bool" where "unboundedOf q \<equiv> oUnbounded (pOccurrence q)"

definition NewParticleMatcher :: ParticleMatcher where
  "NewParticleMatcher = \<lparr> mParticles = \<lambda>_. None, mBodies = \<lambda>_. None, mNullable = \<lambda>_. None,
     mSingletons = None, mDiagnostics = False, mNotes = [] \<rparr>"

definition ResolveElement :: "matchEnv \<Rightarrow> ElementSchema option \<Rightarrow> ElementSchema option" where
  "ResolveElement E schema =
     (case schema of None \<Rightarrow> None
      | Some e \<Rightarrow> if Local (eReference e) = [] then Some e else elements E (eReference e))"

section \<open>The structural guard\<close>

fun prepareChildren :: "matchEnv \<Rightarrow> (nat \<Rightarrow> bool act) \<Rightarrow> ParticleKind \<Rightarrow> nat list \<Rightarrow> QName set \<Rightarrow> bool \<Rightarrow> bool option act" where
  "prepareChildren E prep k [] names nullable = ret (Some nullable)"
| "prepareChildren E prep k (c # cs) names nullable =
     bnd (prep c) (\<lambda>ok. if \<not> ok then ret None else
       (case particleAt E c of None \<Rightarrow> panic
        | Some child \<Rightarrow>
          if k = ParticleAll \<and> (pKind child \<noteq> ParticleElement \<or> unboundedOf child \<or> 1 < maxOf child) then ret None
          else bnd (get mNullable) (\<lambda>N.
            let empty = (minOf child = 0 \<or> N c = Some True);
                nullable' = (if k = ParticleChoice then nullable \<or> empty else nullable \<and> empty)
            in if k = ParticleAll \<and> maxOf child \<noteq> 0
               then (case ResolveElement E (pElement child) of None \<Rightarrow> panic
                     | Some e \<Rightarrow> if eName e \<in> names then ret None
                                 else prepareChildren E prep k cs (insert (eName e) names) nullable')
               else prepareChildren E prep k cs names nullable')))"

definition setNullable :: "nat \<Rightarrow> bool \<Rightarrow> bool act" where
  "setNullable p nullable = bnd (upd (mNullable_update (\<lambda>N. N(p := Some nullable)))) (\<lambda>_. ret True)"

definition prepareNode :: "matchEnv \<Rightarrow> (nat \<Rightarrow> bool act) \<Rightarrow> nat \<Rightarrow> ParticleSchema \<Rightarrow> bool act" where
  "prepareNode E prep p q =
     (if \<not> unboundedOf q \<and> maxOf q < minOf q then ret False
      else if pKind q = ParticleElement then
        (if pElement q = None \<or> pAny q \<noteq> None \<or> pChildren q \<noteq> [] then ret False
         else (case ResolveElement E (pElement q) of None \<Rightarrow> ret False
               | Some e \<Rightarrow> if Local (eName e) = [] then ret False else setNullable p False))
      else if pKind q = ParticleAny then
        (case pAny q of None \<Rightarrow> ret False
         | Some w \<Rightarrow> if pElement q \<noteq> None \<or> pChildren q \<noteq> [] then ret False
             else if localRun E \<and> (\<not> valid (wildcardNamespace (uriOK E) (wNamespace w) []) \<or> \<not> wildcardProcessValid (wProcess w))
             then ret False else setNullable p False)
      else if pKind q = ParticleSequence \<or> pKind q = ParticleChoice \<or> pKind q = ParticleAll then
        (if pElement q \<noteq> None \<or> pAny q \<noteq> None then ret False
         else bnd (prepareChildren E prep (pKind q) (pChildren q) {} (pKind q \<noteq> ParticleChoice)) (\<lambda>r.
           case r of None \<Rightarrow> ret False
           | Some nullable \<Rightarrow>
               if pKind q = ParticleAll \<and> (unboundedOf q \<or> 1 < maxOf q) then ret False else setNullable p nullable))
      else ret False)"

primrec Prepare :: "nat \<Rightarrow> matchEnv \<Rightarrow> nat \<Rightarrow> nat list \<Rightarrow> bool act" where
  "Prepare 0 E p active = panic"
| "Prepare (Suc n) E p active =
     (case particleAt E p of None \<Rightarrow> ret False
      | Some q \<Rightarrow>
        if p \<in> set active then ret False
        else bnd (get mNullable) (\<lambda>N.
          if N p \<noteq> None then ret True
          else prepareNode E (\<lambda>c. Prepare n E c (p # active)) p q))"

section \<open>Positions, failures and limits\<close>

definition singletonArray :: "matchEnv \<Rightarrow> nat list" where
  "singletonArray E = map (\<lambda>index. size_of E - index) [0..<Suc (size_of E)]"

definition viewSingletons :: "nat \<Rightarrow> nat \<Rightarrow> nat list act" where
  "viewSingletons index width m =
     (case mSingletons m of None \<Rightarrow> None
      | Some xs \<Rightarrow> if index + width \<le> length xs then Some (take width (drop index xs), m) else None)"

definition Singleton :: "matchEnv \<Rightarrow> nat \<Rightarrow> nat list act" where
  "Singleton E position =
     bnd (upd (\<lambda>m. if mSingletons m = None then m\<lparr>mSingletons := Some (singletonArray E)\<rparr> else m)) (\<lambda>_.
       if size_of E < position then panic else viewSingletons (size_of E - position) 1)"

text \<open>Map iteration order is irrelevant: the positions are unique and sorted descending afterwards.\<close>

definition orderedPositions :: "nat set \<Rightarrow> nat list" where
  "orderedPositions seen = rev (sorted_list_of_set seen)"

record ParticlePositionSet =
  psFirst :: nat
  psHasFirst :: bool
  psMany :: "nat set option"

definition noPositions :: ParticlePositionSet where
  "noPositions = \<lparr> psFirst = 0, psHasFirst = False, psMany = None \<rparr>"

definition ParticlePositionSet_add :: "nat \<Rightarrow> ParticlePositionSet \<Rightarrow> ParticlePositionSet" where
  "ParticlePositionSet_add position s =
     (if \<not> psHasFirst s then s\<lparr>psFirst := position, psHasFirst := True\<rparr>
      else (case psMany s of
          Some many \<Rightarrow> s\<lparr>psMany := Some (insert position many)\<rparr>
        | None \<Rightarrow> if position \<noteq> psFirst s then s\<lparr>psMany := Some {psFirst s, position}\<rparr> else s))"

definition ParticlePositionSet_Ordered :: "matchEnv \<Rightarrow> ParticlePositionSet \<Rightarrow> nat list act" where
  "ParticlePositionSet_Ordered E s =
     (case psMany s of
        Some many \<Rightarrow> ret (orderedPositions many)
      | None \<Rightarrow> if psHasFirst s then Singleton E (psFirst s) else ret [])"

definition InitialFailure :: "nat \<Rightarrow> MatchFailure option act" where
  "InitialFailure start = bnd (get mDiagnostics) (\<lambda>d.
     ret (if d then Some \<lparr> mfSchema = [], mfPosition = start, mfExpected = [] \<rparr> else None))"

definition Failure :: "MatchFailure option \<Rightarrow> MatchFailure option \<Rightarrow> MatchFailure option act" where
  "Failure left right = bnd (get mDiagnostics) (\<lambda>d.
     if \<not> d then ret None
     else (case (left, right) of
         (Some l, Some r) \<Rightarrow> ret (Some (betterFailure l r))
       | _ \<Rightarrow> panic))"

definition particleLimit :: "matchEnv \<Rightarrow> ParticleSchema \<Rightarrow> nat \<Rightarrow> nat" where
  "particleLimit E q start =
     (let limit = size_of E - start in if \<not> unboundedOf q \<and> maxOf q < limit then maxOf q else limit)"

section \<open>Repetition\<close>

text \<open>The endpoints of one body: zero progress is skipped, the others reach the next layer.\<close>

fun repeatEnds :: "nat \<Rightarrow> bool \<Rightarrow> nat list \<Rightarrow> ParticlePositionSet \<times> ParticlePositionSet \<Rightarrow> ParticlePositionSet \<times> ParticlePositionSet" where
  "repeatEnds position enough [] acc = acc"
| "repeatEnds position enough (e # es) (next, accepted) =
     (if e = position then repeatEnds position enough es (next, accepted)
      else repeatEnds position enough es
        (ParticlePositionSet_add e next, if enough then ParticlePositionSet_add e accepted else accepted))"

definition repeatLayer :: "(nat \<Rightarrow> ParticleEndpoints act) \<Rightarrow> bool \<Rightarrow> nat list \<Rightarrow> ParticlePositionSet \<Rightarrow> MatchFailure option
    \<Rightarrow> (ParticlePositionSet \<times> ParticlePositionSet \<times> MatchFailure option) act" where
  "repeatLayer body enough current accepted fl =
     each (\<lambda>position (next, accepted, fl).
         bnd (body position) (\<lambda>r.
         bnd (Failure fl (EFailure r)) (\<lambda>fl'.
           case repeatEnds position enough (Ends r) (next, accepted) of
             (next', accepted') \<Rightarrow> ret (next', accepted', fl'))))
       current (noPositions, accepted, fl)"

text \<open>
  The loop over \<open>count\<close>; its first argument is how many more counts the limit admits.
\<close>

primrec repeatLoop :: "nat \<Rightarrow> matchEnv \<Rightarrow> (nat \<Rightarrow> ParticleEndpoints act) \<Rightarrow> bool \<Rightarrow> nat \<Rightarrow> nat \<Rightarrow> nat list
    \<Rightarrow> ParticlePositionSet \<Rightarrow> MatchFailure option \<Rightarrow> (nat list \<times> ParticlePositionSet \<times> MatchFailure option) act" where
  "repeatLoop 0 E body nullable least count current accepted fl = ret (current, accepted, fl)"
| "repeatLoop (Suc k) E body nullable least count current accepted fl =
     (if current = [] then ret (current, accepted, fl)
      else bnd (repeatLayer body (nullable \<or> least \<le> count) current accepted fl) (\<lambda>(next, accepted', fl').
        bnd (ParticlePositionSet_Ordered E next) (\<lambda>current'.
          repeatLoop k E body nullable least (Suc count) current' accepted' fl')))"

definition matchRepeated :: "(nat \<Rightarrow> ParticleEndpoints act) \<Rightarrow> matchEnv \<Rightarrow> nat \<Rightarrow> ParticleSchema \<Rightarrow> nat \<Rightarrow> ParticleEndpoints act" where
  "matchRepeated body E p q start =
     bnd (InitialFailure start) (\<lambda>fl.
     bnd (get mNullable) (\<lambda>N.
       let nullable = (N p = Some True);
           accepted = (if minOf q = 0 \<or> nullable then ParticlePositionSet_add start noPositions else noPositions)
       in bnd (repeatLoop (particleLimit E q start) E body nullable (minOf q) 1 [start] accepted fl)
            (\<lambda>(current, accepted, fl).
          bnd (if \<not> psHasFirst accepted \<and> (unboundedOf q \<or> 0 < maxOf q)
               then bnd (body start) (\<lambda>r. bnd (Failure fl (EFailure r)) (\<lambda>fl.
                 each (\<lambda>position fl. bnd (body position) (\<lambda>r. Failure fl (EFailure r))) current fl))
               else ret fl) (\<lambda>fl.
          bnd (ParticlePositionSet_Ordered E accepted) (\<lambda>ends.
          let result = \<lparr> Ends = ends, EFailure = fl \<rparr>
          in bnd (upd (mParticles_update (\<lambda>t. t((p, start) := Some result)))) (\<lambda>_. ret result))))))"

definition Match :: "(nat \<Rightarrow> nat \<Rightarrow> ParticleEndpoints act) \<Rightarrow> matchEnv \<Rightarrow> nat \<Rightarrow> nat \<Rightarrow> ParticleEndpoints act" where
  "Match body E p start =
     (case particleAt E p of None \<Rightarrow> panic
      | Some q \<Rightarrow> bnd (get mDiagnostics) (\<lambda>d.
          if \<not> d \<and> \<not> unboundedOf q \<and> minOf q = 1 \<and> maxOf q = 1 then body p start
          else if \<not> d \<and> \<not> unboundedOf q \<and> maxOf q \<le> 1 \<and> (pKind q = ParticleElement \<or> pKind q = ParticleAny) then
            (if maxOf q = 0 then bnd (Singleton E start) (\<lambda>ends. ret \<lparr> Ends = ends, EFailure = None \<rparr>)
             else bnd (body p start) (\<lambda>result.
               if Ends result = [] then bnd (Singleton E start) (\<lambda>ends. ret (result\<lparr>Ends := ends\<rparr>))
               else if size_of E \<le> start then panic
               else bnd (viewSingletons (size_of E - start - 1) 2) (\<lambda>ends. ret (result\<lparr>Ends := ends\<rparr>))))
          else bnd (get mParticles) (\<lambda>t. case t (p, start) of
              Some cached \<Rightarrow> ret cached
            | None \<Rightarrow> matchRepeated (body p) E p q start)))"

section \<open>All groups\<close>

fun allFind :: "matchEnv \<Rightarrow> nat list \<Rightarrow> bool list \<Rightarrow> nat \<Rightarrow> QName \<Rightarrow> (nat \<times> ElementSchema) option option" where
  "allFind E [] used i name = Some None"
| "allFind E (c # cs) used i name =
     (case particleAt E c of None \<Rightarrow> None
      | Some child \<Rightarrow>
        if used ! i \<or> maxOf child = 0 then allFind E cs used (Suc i) name
        else (case ResolveElement E (pElement child) of None \<Rightarrow> None
              | Some e \<Rightarrow> if name \<noteq> eName e then allFind E cs used (Suc i) name else Some (Some (i, e))))"

text \<open>The outer loop; its first argument is the number of children left.\<close>

primrec allLoop :: "nat \<Rightarrow> matchEnv \<Rightarrow> nat list \<Rightarrow> bool list \<Rightarrow> nat \<Rightarrow> ElementMatch list
    \<Rightarrow> (bool list \<times> nat \<times> ElementMatch list) option" where
  "allLoop 0 E cs used end els = Some (used, end, els)"
| "allLoop (Suc k) E cs used end els =
     (case nodes E ! end of None \<Rightarrow> None
      | Some name \<Rightarrow>
        (case allFind E cs used 0 name of None \<Rightarrow> None
         | Some None \<Rightarrow> Some (used, end, els)
         | Some (Some (i, e)) \<Rightarrow>
             allLoop k E cs (used[i := True]) (Suc end)
               (els @ [\<lparr> emParticle = cs ! i, emIndex = end, emSchema = Some e \<rparr>])))"

fun allMissing :: "matchEnv \<Rightarrow> bool \<Rightarrow> nat list \<Rightarrow> bool list \<Rightarrow> nat \<Rightarrow> bool \<times> QName list \<Rightarrow> (bool \<times> QName list) option" where
  "allMissing E diagnostics [] used i acc = Some acc"
| "allMissing E diagnostics (c # cs) used i (missing, expected) =
     (case particleAt E c of None \<Rightarrow> None
      | Some child \<Rightarrow>
        if \<not> used ! i \<and> 0 < minOf child
        then (if diagnostics then
                (case ResolveElement E (pElement child) of None \<Rightarrow> None
                 | Some e \<Rightarrow> allMissing E diagnostics cs used (Suc i) (True, expected @ [eName e]))
              else allMissing E diagnostics cs used (Suc i) (True, expected))
        else allMissing E diagnostics cs used (Suc i) (missing, expected))"

definition allMatch :: "matchEnv \<Rightarrow> ParticleSchema \<Rightarrow> nat \<Rightarrow> ElementMatch list \<Rightarrow> (nat \<times> MatchFailure \<times> bool \<times> ElementMatch list) act" where
  "allMatch E q start els =
     bnd (get mDiagnostics) (\<lambda>d.
       case allLoop (size_of E - start) E (pChildren q) (replicate (length (pChildren q)) False) start els of
         None \<Rightarrow> panic
       | Some (used, end, els') \<Rightarrow>
           (case allMissing E d (pChildren q) used 0 (False, []) of
              None \<Rightarrow> panic
            | Some (missing, expected) \<Rightarrow>
                ret (end, \<lparr> mfSchema = [], mfPosition = end, mfExpected = expected \<rparr>, \<not> missing, els')))"

section \<open>Bodies\<close>

definition addAll :: "nat list \<Rightarrow> ParticlePositionSet \<Rightarrow> ParticlePositionSet" where
  "addAll es s = fold ParticlePositionSet_add es s"

definition bodyElement :: "matchEnv \<Rightarrow> ParticleSchema \<Rightarrow> nat \<Rightarrow> bool \<Rightarrow> MatchFailure option \<Rightarrow> ParticleEndpoints act" where
  "bodyElement E q start d fl =
     (case ResolveElement E (pElement q) of
        None \<Rightarrow> if start < size_of E \<or> d then panic else ret \<lparr> Ends = [], EFailure = fl \<rparr>
      | Some e \<Rightarrow>
        if start < size_of E \<and> nodes E ! start = None then panic
        else if start < size_of E \<and> nodes E ! start = Some (eName e)
        then bnd (Singleton E (Suc start)) (\<lambda>ends. ret \<lparr> Ends = ends, EFailure = fl \<rparr>)
        else ret \<lparr> Ends = [], EFailure = (if d then map_option (mfExpected_update (\<lambda>_. [eName e])) fl else fl) \<rparr>)"

definition bodyAny :: "matchEnv \<Rightarrow> ParticleSchema \<Rightarrow> nat \<Rightarrow> MatchFailure option \<Rightarrow> ParticleEndpoints act" where
  "bodyAny E q start fl =
     (if start < size_of E then
        (case (pAny q, nodes E ! start) of
           (Some w, Some name) \<Rightarrow>
             if \<not> localRun E \<or> allowed (wildcardNamespace (uriOK E) (wNamespace w) (Space name))
             then bnd (Singleton E (Suc start)) (\<lambda>ends. ret \<lparr> Ends = ends, EFailure = fl \<rparr>)
             else ret \<lparr> Ends = [], EFailure = fl \<rparr>
         | (None, _) \<Rightarrow> if localRun E then panic
             else bnd (Singleton E (Suc start)) (\<lambda>ends. ret \<lparr> Ends = ends, EFailure = fl \<rparr>)
         | (_, None) \<Rightarrow> if localRun E then panic
             else bnd (Singleton E (Suc start)) (\<lambda>ends. ret \<lparr> Ends = ends, EFailure = fl \<rparr>))
      else ret \<lparr> Ends = [], EFailure = fl \<rparr>)"

definition bodyChoice :: "(nat \<Rightarrow> nat \<Rightarrow> ParticleEndpoints act) \<Rightarrow> matchEnv \<Rightarrow> nat list \<Rightarrow> nat \<Rightarrow> MatchFailure option \<Rightarrow> ParticleEndpoints act" where
  "bodyChoice match E cs start fl =
     bnd (each (\<lambda>child (ends, fl).
            bnd (match child start) (\<lambda>branch.
            bnd (Failure fl (EFailure branch)) (\<lambda>fl'.
              ret (addAll (Ends branch) ends, fl'))))
          cs (noPositions, fl)) (\<lambda>(ends, fl).
     bnd (ParticlePositionSet_Ordered E ends) (\<lambda>ends. ret \<lparr> Ends = ends, EFailure = fl \<rparr>))"

text \<open>One child of a sequence from every current position, then the next child unless none is left.\<close>

definition sequenceLayer :: "(nat \<Rightarrow> ParticleEndpoints act) \<Rightarrow> nat list \<Rightarrow> MatchFailure option \<Rightarrow> (ParticlePositionSet \<times> MatchFailure option) act" where
  "sequenceLayer match current fl =
     each (\<lambda>position (ends, fl).
         bnd (match position) (\<lambda>branch.
         bnd (Failure fl (EFailure branch)) (\<lambda>fl'.
           ret (addAll (Ends branch) ends, fl'))))
       current (noPositions, fl)"

primrec bodySequence :: "(nat \<Rightarrow> nat \<Rightarrow> ParticleEndpoints act) \<Rightarrow> matchEnv \<Rightarrow> nat list \<Rightarrow> nat list \<Rightarrow> MatchFailure option \<Rightarrow> ParticleEndpoints act" where
  "bodySequence match E [] current fl = ret \<lparr> Ends = current, EFailure = fl \<rparr>"
| "bodySequence match E (c # cs) current fl =
     bnd (sequenceLayer (match c) current fl) (\<lambda>(ends, fl').
     bnd (ParticlePositionSet_Ordered E ends) (\<lambda>current'.
       if current' = [] then ret \<lparr> Ends = current', EFailure = fl' \<rparr>
       else bodySequence match E cs current' fl'))"

definition bodyKind :: "(nat \<Rightarrow> nat \<Rightarrow> ParticleEndpoints act) \<Rightarrow> matchEnv \<Rightarrow> ParticleSchema \<Rightarrow> nat \<Rightarrow> bool \<Rightarrow> MatchFailure option \<Rightarrow> ParticleEndpoints act" where
  "bodyKind match E q start d fl =
     (case pKind q of
        ParticleElement \<Rightarrow> bodyElement E q start d fl
      | ParticleAny \<Rightarrow> bodyAny E q start fl
      | ParticleChoice \<Rightarrow> bodyChoice match E (pChildren q) start fl
      | ParticleSequence \<Rightarrow> bodySequence match E (pChildren q) [start] fl
      | ParticleAll \<Rightarrow> bnd (allMatch E q start []) (\<lambda>(end, f, ok, els).
          let fl' = (if d then Some f else fl)
          in if ok then bnd (Singleton E end) (\<lambda>ends. ret \<lparr> Ends = ends, EFailure = fl' \<rparr>)
             else ret \<lparr> Ends = [], EFailure = fl' \<rparr>)
      | ParticleOther k \<Rightarrow> ret \<lparr> Ends = [], EFailure = fl \<rparr>)"

definition Body :: "(nat \<Rightarrow> nat \<Rightarrow> ParticleEndpoints act) \<Rightarrow> matchEnv \<Rightarrow> nat \<Rightarrow> nat \<Rightarrow> ParticleEndpoints act" where
  "Body match E p start =
     (case particleAt E p of None \<Rightarrow> panic
      | Some q \<Rightarrow> bnd (get mDiagnostics) (\<lambda>d.
          let terminal = (\<not> d \<and> (pKind q = ParticleElement \<or> pKind q = ParticleAny))
          in bnd (get mBodies) (\<lambda>t. case (if terminal then None else t (p, start)) of
              Some cached \<Rightarrow> ret cached
            | None \<Rightarrow>
                bnd (InitialFailure start) (\<lambda>fl.
                bnd (bodyKind match E q start d fl) (\<lambda>result.
                  if terminal then ret result
                  else bnd (upd (mBodies_update (\<lambda>t. t((p, start) := Some result)))) (\<lambda>_. ret result))))))"

text \<open>The two procedures call each other one level down the particle graph.\<close>

primrec bodyAt :: "nat \<Rightarrow> matchEnv \<Rightarrow> nat \<Rightarrow> nat \<Rightarrow> ParticleEndpoints act" where
  "bodyAt 0 E p start = panic"
| "bodyAt (Suc n) E p start = Body (Match (bodyAt n E) E) E p start"

definition matchAt :: "nat \<Rightarrow> matchEnv \<Rightarrow> nat \<Rightarrow> nat \<Rightarrow> ParticleEndpoints act" where
  "matchAt n E = Match (bodyAt n E) E"

section \<open>Witnesses\<close>

record ParticlePredecessors =
  prEnd :: nat
  prStart :: nat
  prHasFirst :: bool
  prMany :: "(nat \<times> nat) list option"

definition noPredecessors :: ParticlePredecessors where
  "noPredecessors = \<lparr> prEnd = 0, prStart = 0, prHasFirst = False, prMany = None \<rparr>"

definition ParticlePredecessors_add :: "nat \<Rightarrow> nat \<Rightarrow> ParticlePredecessors \<Rightarrow> ParticlePredecessors" where
  "ParticlePredecessors_add end start p =
     (if \<not> prHasFirst p then p\<lparr>prEnd := end, prStart := start, prHasFirst := True\<rparr>
      else (case prMany p of
          None \<Rightarrow> if prEnd p = end then p else p\<lparr>prMany := Some [(prEnd p, prStart p), (end, start)]\<rparr>
        | Some many \<Rightarrow> if map_of many end \<noteq> None then p else p\<lparr>prMany := Some (many @ [(end, start)])\<rparr>))"

definition ParticlePredecessors_Previous :: "nat \<Rightarrow> ParticlePredecessors \<Rightarrow> nat \<times> bool" where
  "ParticlePredecessors_Previous end p =
     (case prMany p of
        Some many \<Rightarrow> (case map_of many end of Some start \<Rightarrow> (start, True) | None \<Rightarrow> (0, False))
      | None \<Rightarrow> (prStart p, prHasFirst p \<and> end = prEnd p))"

definition ParticlePredecessors_Ordered :: "matchEnv \<Rightarrow> ParticlePredecessors \<Rightarrow> nat list act" where
  "ParticlePredecessors_Ordered E p =
     (case prMany p of
        Some many \<Rightarrow> ret (orderedPositions (set (map fst many)))
      | None \<Rightarrow> if prHasFirst p then Singleton E (prEnd p) else ret [])"

text \<open>Reading the selected split off the layers, the last layer first.\<close>

fun backtrack :: "ParticlePredecessors list \<Rightarrow> nat \<Rightarrow> nat list \<Rightarrow> nat list" where
  "backtrack [] position acc = position # acc"
| "backtrack (layer # layers) position acc =
     backtrack layers (fst (ParticlePredecessors_Previous position layer)) (position # acc)"

fun walk :: "(nat \<Rightarrow> nat \<Rightarrow> ElementMatch list \<Rightarrow> (bool \<times> ElementMatch list) act) \<Rightarrow> nat list \<Rightarrow> ElementMatch list
    \<Rightarrow> (bool \<times> ElementMatch list) act" where
  "walk f (a # b # ps) els = bnd (f a b els) (\<lambda>(ok, els'). if \<not> ok then ret (False, els') else walk f (b # ps) els')"
| "walk f ps els = ret (True, els)"

definition predecessorLayer :: "(nat \<Rightarrow> ParticleEndpoints act) \<Rightarrow> (nat \<Rightarrow> nat \<Rightarrow> bool) \<Rightarrow> nat list \<Rightarrow> ParticlePredecessors act" where
  "predecessorLayer ends admit current =
     each (\<lambda>position previous. bnd (ends position) (\<lambda>r.
         ret (fold (\<lambda>next. ParticlePredecessors_add next position) (filter (admit position) (Ends r)) previous)))
       current noPredecessors"

primrec witnessLoop :: "nat \<Rightarrow> matchEnv \<Rightarrow> (nat \<Rightarrow> ParticleEndpoints act)
    \<Rightarrow> (nat \<Rightarrow> nat \<Rightarrow> ElementMatch list \<Rightarrow> (bool \<times> ElementMatch list) act)
    \<Rightarrow> bool \<Rightarrow> nat \<Rightarrow> nat \<Rightarrow> nat \<Rightarrow> nat list \<Rightarrow> ParticlePredecessors list \<Rightarrow> ElementMatch list \<Rightarrow> (bool \<times> ElementMatch list) act" where
  "witnessLoop 0 E body descend nullable least end count current layers els = ret (False, els)"
| "witnessLoop (Suc k) E body descend nullable least end count current layers els =
     (if current = [] then ret (False, els)
      else bnd (predecessorLayer body (\<lambda>position next. position < next \<and> next \<le> end) current) (\<lambda>previous.
        if snd (ParticlePredecessors_Previous end previous) \<and> (nullable \<or> least \<le> count)
        then walk descend (backtrack (previous # layers) end []) els
        else bnd (ParticlePredecessors_Ordered E previous) (\<lambda>current'.
          witnessLoop k E body descend nullable least end (Suc count) current' (previous # layers) els)))"

definition Witness :: "(nat \<Rightarrow> nat \<Rightarrow> nat \<Rightarrow> ElementMatch list \<Rightarrow> (bool \<times> ElementMatch list) act) \<Rightarrow> (nat \<Rightarrow> nat \<Rightarrow> ParticleEndpoints act)
    \<Rightarrow> matchEnv \<Rightarrow> nat \<Rightarrow> nat \<Rightarrow> nat \<Rightarrow> ElementMatch list \<Rightarrow> (bool \<times> ElementMatch list) act" where
  "Witness bodyWitness body E p start end els =
     (case particleAt E p of None \<Rightarrow> panic
      | Some q \<Rightarrow> bnd (get mNullable) (\<lambda>N.
          if start = end then ret (minOf q = 0 \<or> N p = Some True, els)
          else if \<not> unboundedOf q \<and> maxOf q = 1 then bodyWitness p start end els
          else witnessLoop (particleLimit E q start) E (body p) (bodyWitness p) (N p = Some True) (minOf q) end 1 [start] [] els))"

primrec choiceWitness :: "(nat \<Rightarrow> ParticleEndpoints act) \<Rightarrow> (nat \<Rightarrow> ElementMatch list \<Rightarrow> (bool \<times> ElementMatch list) act)
    \<Rightarrow> nat list \<Rightarrow> nat \<Rightarrow> ElementMatch list \<Rightarrow> (bool \<times> ElementMatch list) act" where
  "choiceWitness match witness [] end els = ret (False, els)"
| "choiceWitness match witness (c # cs) end els =
     bnd (match c) (\<lambda>r. if end \<in> set (Ends r) then witness c els else choiceWitness match witness cs end els)"

primrec sequenceLayers :: "matchEnv \<Rightarrow> (nat \<Rightarrow> nat \<Rightarrow> ParticleEndpoints act) \<Rightarrow> nat \<Rightarrow> nat list \<Rightarrow> nat list \<Rightarrow> ParticlePredecessors list
    \<Rightarrow> (nat list \<times> ParticlePredecessors list) act" where
  "sequenceLayers E match end [] current layers = ret (current, layers)"
| "sequenceLayers E match end (c # cs) current layers =
     bnd (predecessorLayer (match c) (\<lambda>position next. next \<le> end) current) (\<lambda>previous.
     bnd (ParticlePredecessors_Ordered E previous) (\<lambda>current'.
       sequenceLayers E match end cs current' (previous # layers)))"

fun walkChildren :: "(nat \<Rightarrow> nat \<Rightarrow> nat \<Rightarrow> ElementMatch list \<Rightarrow> (bool \<times> ElementMatch list) act) \<Rightarrow> nat list \<Rightarrow> nat list
    \<Rightarrow> ElementMatch list \<Rightarrow> (bool \<times> ElementMatch list) act" where
  "walkChildren f (c # cs) (a # b # ps) els =
     bnd (f c a b els) (\<lambda>(ok, els'). if \<not> ok then ret (False, els') else walkChildren f cs (b # ps) els')"
| "walkChildren f cs ps els = ret (True, els)"

definition BodyWitness :: "(nat \<Rightarrow> nat \<Rightarrow> nat \<Rightarrow> ElementMatch list \<Rightarrow> (bool \<times> ElementMatch list) act) \<Rightarrow> (nat \<Rightarrow> nat \<Rightarrow> ParticleEndpoints act)
    \<Rightarrow> matchEnv \<Rightarrow> nat \<Rightarrow> nat \<Rightarrow> nat \<Rightarrow> ElementMatch list \<Rightarrow> (bool \<times> ElementMatch list) act" where
  "BodyWitness witness match E p start end els =
     (case particleAt E p of None \<Rightarrow> panic
      | Some q \<Rightarrow>
        (case pKind q of
           ParticleElement \<Rightarrow>
             ret (end = Suc start, els @ [\<lparr> emParticle = p, emIndex = start, emSchema = ResolveElement E (pElement q) \<rparr>])
         | ParticleAny \<Rightarrow>
             if localRun E then
               (case (pAny q, start < size_of E, nodes E ! start) of
                  (Some w, True, Some name) \<Rightarrow>
                    bnd (upd (mNotes_update (noteWildcardAdmission (wildcardNamespace (uriOK E) (wNamespace w) (Space name)) (wProcess w))))
                      (\<lambda>_. ret (end = Suc start, els @ [\<lparr> emParticle = p, emIndex = start, emSchema = None \<rparr>]))
                | _ \<Rightarrow> panic)
             else ret (end = Suc start, els)
         | ParticleChoice \<Rightarrow>
             choiceWitness (\<lambda>c. match c start) (\<lambda>c els. witness c start end els) (pChildren q) end els
         | ParticleSequence \<Rightarrow>
             bnd (sequenceLayers E match end (pChildren q) [start] []) (\<lambda>(current, layers).
               if end \<notin> set current then ret (False, els)
               else walkChildren witness (pChildren q) (backtrack layers end []) els)
         | ParticleAll \<Rightarrow> bnd (allMatch E q start els) (\<lambda>(next, f, ok, els'). ret (ok \<and> next = end, els'))
         | ParticleOther k \<Rightarrow> ret (False, els)))"

primrec bodyWitnessAt :: "nat \<Rightarrow> matchEnv \<Rightarrow> nat \<Rightarrow> nat \<Rightarrow> nat \<Rightarrow> ElementMatch list \<Rightarrow> (bool \<times> ElementMatch list) act" where
  "bodyWitnessAt 0 E p start end els = panic"
| "bodyWitnessAt (Suc n) E p start end els =
     BodyWitness (Witness (bodyWitnessAt n E) (bodyAt n E) E) (matchAt n E) E p start end els"

definition witnessAt :: "nat \<Rightarrow> matchEnv \<Rightarrow> nat \<Rightarrow> nat \<Rightarrow> nat \<Rightarrow> ElementMatch list \<Rightarrow> (bool \<times> ElementMatch list) act" where
  "witnessAt n E = Witness (bodyWitnessAt n E) (bodyAt n E) E"

section \<open>A whole match\<close>

definition noResult :: MatchResult where "noResult = \<lparr> mrNext = 0, mrElements = [] \<rparr>"
definition schemaFailure :: "string \<Rightarrow> MatchFailure" where
  "schemaFailure s = \<lparr> mfSchema = s, mfPosition = 0, mfExpected = [] \<rparr>"

definition Run :: "matchEnv \<Rightarrow> nat \<Rightarrow> int \<Rightarrow> (MatchResult \<times> MatchFailure \<times> bool) act" where
  "Run E p position =
     (if position < 0 \<or> int (size_of E) < position then ret (noResult, schemaFailure ''invalid content-model position'', False)
      else if particleAt E p = None then ret (\<lparr> mrNext = position, mrElements = [] \<rparr>, schemaFailure [], True)
      else if None \<in> set (nodes E) then ret (noResult, schemaFailure ''missing content-model child'', False)
      else let start = nat position; depth = length (heap E) in
        bnd (Prepare (Suc depth) E p []) (\<lambda>ok.
          if \<not> ok then ret (noResult, schemaFailure ''invalid or cyclic content-model metadata'', False)
          else bnd (matchAt depth E p start) (\<lambda>endpoints.
            (case Ends endpoints of
               [] \<Rightarrow> bnd (upd (\<lambda>m. m\<lparr>mParticles := \<lambda>_. None, mBodies := \<lambda>_. None, mDiagnostics := True\<rparr>)) (\<lambda>_.
                     bnd (matchAt depth E p start) (\<lambda>endpoints.
                       case EFailure endpoints of None \<Rightarrow> panic | Some f \<Rightarrow> ret (noResult, f, False)))
             | e # _ \<Rightarrow> bnd (witnessAt depth E p start e []) (\<lambda>(ok, els).
                     if \<not> ok then ret (noResult, schemaFailure ''content-model witness cannot be reconstructed'', False)
                     else ret (\<lparr> mrNext = int e, mrElements = els \<rparr>, schemaFailure [], True))))))"

text \<open>
  One match of a validation: a fresh matcher on the nullability cache and the messages of the context,
  both handed back.
\<close>

definition MatchParticle :: "matchEnv \<Rightarrow> (nat \<Rightarrow> bool option) \<Rightarrow> string list \<Rightarrow> nat \<Rightarrow> int
    \<Rightarrow> ((MatchResult \<times> MatchFailure \<times> bool) \<times> (nat \<Rightarrow> bool option) \<times> string list) option" where
  "MatchParticle E cache notes p position =
     map_option (\<lambda>(r, m). (r, mNullable m, mNotes m))
       (Run E p position (NewParticleMatcher\<lparr>mNullable := cache, mNotes := notes\<rparr>))"

end
