(* ===== verification/Xsd_Content.thy ===== *)
theory Xsd_Content
  imports Xsd_Particles
begin

text \<open>
  Content models, independent of how they are matched: which child sequences a particle accepts, as
  derivations that also name the declaration each child is matched with; repetition without empty
  rounds; well-formed particle graphs and what their nullability marks mean.
\<close>

section \<open>Content models\<close>

definition isActive :: "matchEnv \<Rightarrow> nat \<Rightarrow> bool" where
  "isActive E c \<longleftrightarrow> (\<exists>child. particleAt E c = Some child \<and> maxOf child \<noteq> 0)"

definition isRequired :: "matchEnv \<Rightarrow> nat \<Rightarrow> bool" where
  "isRequired E c \<longleftrightarrow> (\<exists>child. particleAt E c = Some child \<and> 0 < minOf child)"

definition declOf :: "matchEnv \<Rightarrow> nat \<Rightarrow> ElementSchema option" where
  "declOf E c = Option.bind (particleAt E c) (\<lambda>child. ResolveElement E (pElement child))"

definition fits :: "matchEnv \<Rightarrow> nat \<Rightarrow> nat \<Rightarrow> bool" where
  "fits E c i \<longleftrightarrow> isActive E c \<and> (\<exists>e. declOf E c = Some e \<and> nodes E ! i = Some (eName e))"

text \<open>
  An all group takes each of its active members at most once, in any order, every required member, and
  goes on as long as the next child fits an unused member.
\<close>

definition allTakes :: "matchEnv \<Rightarrow> nat list \<Rightarrow> nat \<Rightarrow> nat list \<Rightarrow> bool" where
  "allTakes E cs s ks \<longleftrightarrow> distinct ks \<and> s + length ks \<le> size_of E \<and>
     (\<forall>j < length ks. ks ! j < length cs \<and> fits E (cs ! (ks ! j)) (s + j))"

definition allStops :: "matchEnv \<Rightarrow> nat list \<Rightarrow> nat \<Rightarrow> nat list \<Rightarrow> bool" where
  "allStops E cs s ks \<longleftrightarrow> s + length ks = size_of E \<or>
     (\<forall>k < length cs. k \<in> set ks \<or> \<not> fits E (cs ! k) (s + length ks))"

definition allMatches :: "matchEnv \<Rightarrow> nat list \<Rightarrow> nat \<Rightarrow> nat list \<Rightarrow> ElementMatch list" where
  "allMatches E cs s ks =
     map (\<lambda>j. \<lparr> emParticle = cs ! (ks ! j), emIndex = s + j, emSchema = declOf E (cs ! (ks ! j)) \<rparr>) [0..<length ks]"

inductive derives :: "matchEnv \<Rightarrow> nat \<Rightarrow> nat \<Rightarrow> nat \<Rightarrow> ElementMatch list \<Rightarrow> bool"
  and repeats :: "matchEnv \<Rightarrow> nat \<Rightarrow> nat \<Rightarrow> nat \<Rightarrow> nat \<Rightarrow> ElementMatch list \<Rightarrow> bool"
  and occurs :: "matchEnv \<Rightarrow> nat \<Rightarrow> nat \<Rightarrow> nat \<Rightarrow> ElementMatch list \<Rightarrow> bool"
  and follows :: "matchEnv \<Rightarrow> nat list \<Rightarrow> nat \<Rightarrow> nat \<Rightarrow> ElementMatch list \<Rightarrow> bool"
  for E :: matchEnv where
  d_element: "particleAt E p = Some q \<Longrightarrow> pKind q = ParticleElement \<Longrightarrow> ResolveElement E (pElement q) = Some e \<Longrightarrow>
    s < size_of E \<Longrightarrow> nodes E ! s = Some (eName e) \<Longrightarrow>
    derives E p s (Suc s) [\<lparr> emParticle = p, emIndex = s, emSchema = Some e \<rparr>]"
| d_any: "particleAt E p = Some q \<Longrightarrow> pKind q = ParticleAny \<Longrightarrow> pAny q = Some w \<Longrightarrow>
    s < size_of E \<Longrightarrow> nodes E ! s = Some name \<Longrightarrow>
    (localRun E \<longrightarrow> allowed (wildcardNamespace (uriOK E) (wNamespace w) (Space name))) \<Longrightarrow>
    derives E p s (Suc s) (if localRun E then [\<lparr> emParticle = p, emIndex = s, emSchema = None \<rparr>] else [])"
| d_choice: "particleAt E p = Some q \<Longrightarrow> pKind q = ParticleChoice \<Longrightarrow> c \<in> set (pChildren q) \<Longrightarrow>
    occurs E c s e w \<Longrightarrow> derives E p s e w"
| d_sequence: "particleAt E p = Some q \<Longrightarrow> pKind q = ParticleSequence \<Longrightarrow> follows E (pChildren q) s e w \<Longrightarrow>
    derives E p s e w"
| d_all: "particleAt E p = Some q \<Longrightarrow> pKind q = ParticleAll \<Longrightarrow> allTakes E (pChildren q) s ks \<Longrightarrow>
    allStops E (pChildren q) s ks \<Longrightarrow> (\<forall>k < length (pChildren q). isRequired E (pChildren q ! k) \<longrightarrow> k \<in> set ks) \<Longrightarrow>
    derives E p s (s + length ks) (allMatches E (pChildren q) s ks)"
| r_none: "repeats E p 0 s s []"
| r_more: "derives E p s m v \<Longrightarrow> repeats E p k m e w \<Longrightarrow> repeats E p (Suc k) s e (v @ w)"
| o_times: "particleAt E p = Some q \<Longrightarrow> minOf q \<le> k \<Longrightarrow> unboundedOf q \<or> k \<le> maxOf q \<Longrightarrow> repeats E p k s e w \<Longrightarrow>
    occurs E p s e w"
| f_nil: "follows E [] s s []"
| f_cons: "occurs E c s m v \<Longrightarrow> follows E cs m e w \<Longrightarrow> follows E (c # cs) s e (v @ w)"

inductive_cases derivesE: "derives E p s e w"
inductive_cases repeats_0E: "repeats E p 0 s e w"
inductive_cases repeats_SucE: "repeats E p (Suc k) s e w"
inductive_cases occursE: "occurs E p s e w"
inductive_cases follows_NilE: "follows E [] s e w"
inductive_cases follows_ConsE: "follows E (c # cs) s e w"

definition bodyEnds :: "matchEnv \<Rightarrow> nat \<Rightarrow> nat \<Rightarrow> nat set" where
  "bodyEnds E p s = {e. \<exists>w. derives E p s e w}"

definition occEnds :: "matchEnv \<Rightarrow> nat \<Rightarrow> nat \<Rightarrow> nat set" where
  "occEnds E p s = {e. \<exists>w. occurs E p s e w}"

text \<open>Derivations move forward, inside the children, and report only children they consume.\<close>

definition spans :: "matchEnv \<Rightarrow> nat \<Rightarrow> nat \<Rightarrow> ElementMatch list \<Rightarrow> bool" where
  "spans E s e w \<longleftrightarrow> s \<le> e \<and> (e = s \<or> e \<le> size_of E) \<and> (\<forall>m \<in> set w. s \<le> emIndex m \<and> emIndex m < e)"

lemma spans_trans: "spans E s m v \<Longrightarrow> spans E m e w \<Longrightarrow> spans E s e (v @ w)"
  by (fastforce simp: spans_def)

lemma derivations_span:
  "derives E p s e w \<Longrightarrow> spans E s e w"
  "repeats E p k s e w \<Longrightarrow> spans E s e w"
  "occurs E p s e w \<Longrightarrow> spans E s e w"
  "follows E cs s e w \<Longrightarrow> spans E s e w"
proof (induction rule: derives_repeats_occurs_follows.inducts)
  case (d_all p q s ks)
  then show ?case by (auto simp: spans_def allTakes_def allMatches_def)
qed (auto simp: spans_def intro: spans_trans)

lemmas derives_span = derivations_span(1) and repeats_span = derivations_span(2)
  and occurs_span = derivations_span(3) and follows_span = derivations_span(4)

lemma bodyEnds_range: "e \<in> bodyEnds E p s \<Longrightarrow> s \<le> e \<and> (e = s \<or> e \<le> size_of E)"
  by (auto simp: bodyEnds_def spans_def dest: derives_span)

lemma occEnds_range: "e \<in> occEnds E p s \<Longrightarrow> s \<le> e \<and> (e = s \<or> e \<le> size_of E)"
  by (auto simp: occEnds_def spans_def dest: occurs_span)

lemma bodyEnds_finite [simp]: "finite (bodyEnds E p s)"
  by (rule finite_subset [of _ "{..max s (size_of E)}"]) (use bodyEnds_range in force)+

lemma occEnds_finite [simp]: "finite (occEnds E p s)"
  by (rule finite_subset [of _ "{..max s (size_of E)}"]) (use occEnds_range in force)+

text \<open>The body of each kind of particle.\<close>

lemma derives_choice:
  "particleAt E p = Some q \<Longrightarrow> pKind q = ParticleChoice \<Longrightarrow>
   derives E p s e w \<longleftrightarrow> (\<exists>c \<in> set (pChildren q). occurs E c s e w)"
  by (auto elim!: derivesE intro: d_choice)

lemma derives_sequence:
  "particleAt E p = Some q \<Longrightarrow> pKind q = ParticleSequence \<Longrightarrow> derives E p s e w \<longleftrightarrow> follows E (pChildren q) s e w"
  by (auto elim!: derivesE intro: d_sequence)

lemma derives_element:
  "particleAt E p = Some q \<Longrightarrow> pKind q = ParticleElement \<Longrightarrow>
   derives E p s e w \<longleftrightarrow> (\<exists>d. ResolveElement E (pElement q) = Some d \<and> s < size_of E \<and> nodes E ! s = Some (eName d) \<and>
     e = Suc s \<and> w = [\<lparr> emParticle = p, emIndex = s, emSchema = Some d \<rparr>])"
  by (auto elim!: derivesE intro: d_element)

lemma derives_any:
  "particleAt E p = Some q \<Longrightarrow> pKind q = ParticleAny \<Longrightarrow>
   derives E p s e w \<longleftrightarrow> (\<exists>a name. pAny q = Some a \<and> s < size_of E \<and> nodes E ! s = Some name \<and>
     (localRun E \<longrightarrow> allowed (wildcardNamespace (uriOK E) (wNamespace a) (Space name))) \<and>
     e = Suc s \<and> w = (if localRun E then [\<lparr> emParticle = p, emIndex = s, emSchema = None \<rparr>] else []))"
  using d_any [of E p q] by (auto elim!: derivesE)

lemma derives_all:
  "particleAt E p = Some q \<Longrightarrow> pKind q = ParticleAll \<Longrightarrow>
   derives E p s e w \<longleftrightarrow> (\<exists>ks. allTakes E (pChildren q) s ks \<and> allStops E (pChildren q) s ks \<and>
     (\<forall>k < length (pChildren q). isRequired E (pChildren q ! k) \<longrightarrow> k \<in> set ks) \<and>
     e = s + length ks \<and> w = allMatches E (pChildren q) s ks)"
  by (auto elim!: derivesE intro: d_all)

section \<open>Repetition\<close>

text \<open>Positions reached by exactly \<open>j\<close> bodies, each of them consuming something.\<close>

primrec layer :: "matchEnv \<Rightarrow> nat \<Rightarrow> nat \<Rightarrow> nat \<Rightarrow> nat set" where
  "layer E p s 0 = {s}"
| "layer E p s (Suc j) = {e. \<exists>m \<in> layer E p s j. e \<in> bodyEnds E p m \<and> e \<noteq> m}"

lemma layer_range: "e \<in> layer E p s j \<Longrightarrow> s + j \<le> e \<and> (j = 0 \<or> e \<le> size_of E)"
proof (induction j arbitrary: e)
  case (Suc j)
  then obtain m where m: "m \<in> layer E p s j" "e \<in> bodyEnds E p m" "e \<noteq> m" by auto
  with Suc.IH [OF m(1)] bodyEnds_range [OF m(2)] show ?case by auto
qed simp

lemma layer_finite [simp]: "finite (layer E p s j)"
  by (rule finite_subset [of _ "{..max s (size_of E)}"]) (use layer_range in force)+

lemma layer_empty: "layer E p s j = {} \<Longrightarrow> j \<le> k \<Longrightarrow> layer E p s k = {}"
  by (induction k) (auto simp: le_Suc_eq)

lemma repeats_snoc: "repeats E p k s m v \<Longrightarrow> derives E p m e u \<Longrightarrow> repeats E p (Suc k) s e (v @ u)"
proof (induction k arbitrary: s v)
  case 0
  then have "m = s" "v = []" by (auto elim: repeats_0E)
  with 0 show ?case using r_more [OF 0(2) r_none] by simp
next
  case (Suc k)
  from Suc.prems(1) obtain m' v1 v2 where d: "derives E p s m' v1" "repeats E p k m' m v2" "v = v1 @ v2"
    by (rule repeats_SucE) auto
  from r_more [OF d(1) Suc.IH [OF d(2) Suc.prems(2)]] d(3) show ?case by simp
qed

lemma repeats_last:
  "repeats E p (Suc k) s e w \<Longrightarrow> \<exists>m v u. repeats E p k s m v \<and> derives E p m e u \<and> w = v @ u"
proof (induction k arbitrary: s w)
  case 0
  then obtain v where "derives E p s e v" "w = v" by (auto elim!: repeats_SucE repeats_0E)
  then show ?case using r_none by fastforce
next
  case (Suc k)
  from Suc.prems obtain m v w' where d: "derives E p s m v" "repeats E p (Suc k) m e w'" "w = v @ w'"
    by (rule repeats_SucE) auto
  from Suc.IH [OF d(2)] obtain m' v' u where "repeats E p k m m' v'" "derives E p m' e u" "w' = v' @ u" by blast
  with r_more [OF d(1)] d(3) show ?case by fastforce
qed

lemma layer_repeats: "e \<in> layer E p s j \<Longrightarrow> \<exists>w. repeats E p j s e w"
  by (induction j arbitrary: e) (auto simp: bodyEnds_def intro: r_none repeats_snoc)

text \<open>Removing the repetitions that consume nothing.\<close>

lemma repeats_layer:
  "repeats E p k s e w \<Longrightarrow> \<exists>j \<le> k. e \<in> layer E p s j \<and> (j < k \<longrightarrow> (\<exists>x. x \<in> bodyEnds E p x))"
proof (induction k arbitrary: e w)
  case 0
  then show ?case by (auto elim: repeats_0E)
next
  case (Suc k)
  from repeats_last [OF Suc.prems] obtain m v u where d: "repeats E p k s m v" "derives E p m e u" by blast
  from Suc.IH [OF d(1)] obtain j where j: "j \<le> k" "m \<in> layer E p s j" "j < k \<longrightarrow> (\<exists>x. x \<in> bodyEnds E p x)" by blast
  have b: "e \<in> bodyEnds E p m" using d(2) by (auto simp: bodyEnds_def)
  show ?case
  proof (cases "e = m")
    case True
    with j b show ?thesis by (intro exI [of _ j]) auto
  next
    case False
    with j b show ?thesis by (intro exI [of _ "Suc j"]) auto
  qed
qed

lemma repeats_pad: "repeats E p k s e w \<Longrightarrow> derives E p e e [] \<Longrightarrow> repeats E p (k + i) s e w"
  by (induction i) (use repeats_snoc [of E p _ s e w e "[]"] in auto)

lemma empty_derivation: "e \<in> bodyEnds E p e \<Longrightarrow> derives E p e e []"
proof -
  assume "e \<in> bodyEnds E p e"
  then obtain w where w: "derives E p e e w" by (auto simp: bodyEnds_def)
  with derives_span [OF w] have "w = []" by (cases w) (auto simp: spans_def)
  with w show ?thesis by simp
qed

definition acceptedEnds :: "matchEnv \<Rightarrow> nat \<Rightarrow> ParticleSchema \<Rightarrow> bool \<Rightarrow> nat \<Rightarrow> nat \<Rightarrow> nat set" where
  "acceptedEnds E p q null s l = {e. e = s \<and> (minOf q = 0 \<or> null)} \<union>
     {e. \<exists>j. 1 \<le> j \<and> j \<le> l \<and> (null \<or> minOf q \<le> j) \<and> e \<in> layer E p s j}"

lemma layer_occurs:
  assumes "particleAt E p = Some q" "unboundedOf q \<or> minOf q \<le> maxOf q"
    and "repeats E p j s e w" "unboundedOf q \<or> j \<le> maxOf q" "null \<or> minOf q \<le> j"
    and "null \<Longrightarrow> j < minOf q \<Longrightarrow> e \<in> bodyEnds E p e"
  shows "occurs E p s e w"
proof (cases "minOf q \<le> j")
  case True
  with assms show ?thesis by (blast intro: o_times)
next
  case False
  then have "repeats E p (j + (minOf q - j)) s e w"
    using assms by (intro repeats_pad empty_derivation) auto
  with False have "repeats E p (minOf q) s e w" by simp
  with assms(1,2) show ?thesis by (blast intro: o_times)
qed

lemma occEnds_accepted:
  assumes q: "particleAt E p = Some q" and occ: "unboundedOf q \<or> minOf q \<le> maxOf q" and s: "s \<le> size_of E"
    and null1: "\<And>x. x \<in> bodyEnds E p x \<Longrightarrow> null"
    and null2: "\<And>x. null \<Longrightarrow> 0 < minOf q \<Longrightarrow> x \<le> size_of E \<Longrightarrow> x \<in> bodyEnds E p x"
  shows "occEnds E p s = acceptedEnds E p q null s (particleLimit E q s)"
proof (intro equalityI subsetI)
  fix e
  assume "e \<in> occEnds E p s"
  then obtain w k where k: "minOf q \<le> k" "unboundedOf q \<or> k \<le> maxOf q" "repeats E p k s e w"
    using q by (auto simp: occEnds_def elim!: occursE)
  from repeats_layer [OF k(3)] null1 obtain j where j: "j \<le> k" "e \<in> layer E p s j" "j < k \<longrightarrow> null" by blast
  have "null \<or> minOf q \<le> j" using j k(1) by (cases "j < k") auto
  moreover have "j \<le> particleLimit E q s"
    using layer_range [OF j(2)] j(1) k(2) s by (auto simp: particleLimit_def Let_def)
  ultimately show "e \<in> acceptedEnds E p q null s (particleLimit E q s)"
    using j(2) by (cases "j = 0") (auto simp: acceptedEnds_def simp del: layer.simps(2) intro!: exI [of _ j])
next
  fix e
  assume "e \<in> acceptedEnds E p q null s (particleLimit E q s)"
  then obtain j where j: "e \<in> layer E p s j" "null \<or> minOf q \<le> j" "j \<le> particleLimit E q s"
    by (force simp: acceptedEnds_def)
  have e: "e \<le> size_of E" using layer_range [OF j(1)] j(1) s by (cases j) auto
  obtain w where w: "repeats E p j s e w" using layer_repeats [OF j(1)] by blast
  have "unboundedOf q \<or> j \<le> maxOf q" using j(3) by (auto simp: particleLimit_def Let_def split: if_splits)
  then have "occurs E p s e w" using null2 e j(2) by (intro layer_occurs [OF q occ w]) auto
  then show "e \<in> occEnds E p s" by (auto simp: occEnds_def)
qed

section \<open>Well-formed particles and nullability\<close>

definition activeNames :: "matchEnv \<Rightarrow> nat list \<Rightarrow> QName list" where
  "activeNames E cs = map (\<lambda>c. eName (the (declOf E c))) (filter (isActive E) cs)"

definition allMember :: "matchEnv \<Rightarrow> nat \<Rightarrow> bool" where
  "allMember E c \<longleftrightarrow> (\<exists>child. particleAt E c = Some child \<and> pKind child = ParticleElement \<and>
     \<not> unboundedOf child \<and> maxOf child \<le> 1)"

definition nodeOK :: "matchEnv \<Rightarrow> ParticleSchema \<Rightarrow> bool" where
  "nodeOK E q \<longleftrightarrow> (unboundedOf q \<or> minOf q \<le> maxOf q) \<and>
     (case pKind q of
        ParticleElement \<Rightarrow> pAny q = None \<and> pChildren q = [] \<and>
          (\<exists>e. ResolveElement E (pElement q) = Some e \<and> Local (eName e) \<noteq> [])
      | ParticleAny \<Rightarrow> pElement q = None \<and> pChildren q = [] \<and>
          (\<exists>w. pAny q = Some w \<and> (localRun E \<longrightarrow>
             valid (wildcardNamespace (uriOK E) (wNamespace w) []) \<and> wildcardProcessValid (wProcess w)))
      | ParticleAll \<Rightarrow> pElement q = None \<and> pAny q = None \<and> \<not> unboundedOf q \<and> maxOf q \<le> 1 \<and>
          (\<forall>c \<in> set (pChildren q). allMember E c) \<and> distinct (activeNames E (pChildren q))
      | ParticleOther k \<Rightarrow> False
      | _ \<Rightarrow> pElement q = None \<and> pAny q = None)"

inductive wellFormed :: "matchEnv \<Rightarrow> nat \<Rightarrow> bool" for E :: matchEnv where
  wf_node: "particleAt E p = Some q \<Longrightarrow> nodeOK E q \<Longrightarrow> (\<forall>c \<in> set (pChildren q). wellFormed E c) \<Longrightarrow> wellFormed E p"

inductive_cases wellFormedE: "wellFormed E p"

definition mayBeEmpty :: "matchEnv \<Rightarrow> (nat \<Rightarrow> bool option) \<Rightarrow> nat \<Rightarrow> bool" where
  "mayBeEmpty E N c \<longleftrightarrow> (\<exists>child. particleAt E c = Some child \<and> (minOf child = 0 \<or> N c = Some True))"

definition nullableOf :: "matchEnv \<Rightarrow> (nat \<Rightarrow> bool option) \<Rightarrow> ParticleSchema \<Rightarrow> bool" where
  "nullableOf E N q \<longleftrightarrow>
     (case pKind q of
        ParticleChoice \<Rightarrow> (\<exists>c \<in> set (pChildren q). mayBeEmpty E N c)
      | ParticleSequence \<Rightarrow> (\<forall>c \<in> set (pChildren q). mayBeEmpty E N c)
      | ParticleAll \<Rightarrow> (\<forall>c \<in> set (pChildren q). mayBeEmpty E N c)
      | _ \<Rightarrow> False)"

text \<open>What the nullability cache always satisfies.\<close>

definition cacheOK :: "matchEnv \<Rightarrow> (nat \<Rightarrow> bool option) \<Rightarrow> bool" where
  "cacheOK E N \<longleftrightarrow> (\<forall>p b. N p = Some b \<longrightarrow> wellFormed E p \<and>
     (\<exists>q. particleAt E p = Some q \<and> b = nullableOf E N q \<and> (\<forall>c \<in> set (pChildren q). N c \<noteq> None)))"

text \<open>An all group is a whole content model: it is no member of another group.\<close>

definition allOutermost :: "matchEnv \<Rightarrow> bool" where
  "allOutermost E \<longleftrightarrow> (\<forall>p q c r. particleAt E p = Some q \<and> c \<in> set (pChildren q) \<and> particleAt E c = Some r \<longrightarrow> pKind r \<noteq> ParticleAll)"

lemma cacheOK_node:
  assumes "cacheOK E N" "N p = Some b" "particleAt E p = Some q"
  shows "nodeOK E q" "b = nullableOf E N q" "\<And>c. c \<in> set (pChildren q) \<Longrightarrow> N c \<noteq> None \<and> wellFormed E c"
proof -
  have w: "wellFormed E p" and rest: "b = nullableOf E N q" "\<forall>c \<in> set (pChildren q). N c \<noteq> None"
    using assms(1) [unfolded cacheOK_def, rule_format, OF assms(2)] assms(3) by auto
  from w assms(3) show "nodeOK E q" by (auto elim: wellFormedE)
  from rest show "b = nullableOf E N q" by simp
  from w assms(3) rest show "\<And>c. c \<in> set (pChildren q) \<Longrightarrow> N c \<noteq> None \<and> wellFormed E c" by (auto elim: wellFormedE)
qed

lemma occurs_empty:
  assumes q: "particleAt E p = Some q" and "unboundedOf q \<or> minOf q \<le> maxOf q" "x \<le> size_of E"
    and null: "\<And>y. y \<le> size_of E \<Longrightarrow> null \<longleftrightarrow> y \<in> bodyEnds E p y"
    and "\<And>y. y \<in> bodyEnds E p y \<Longrightarrow> null"
  shows "x \<in> occEnds E p x \<longleftrightarrow> minOf q = 0 \<or> null"
proof -
  have "occEnds E p x = acceptedEnds E p q null x (particleLimit E q x)"
    using assms by (intro occEnds_accepted) auto
  then show ?thesis by (auto simp: acceptedEnds_def dest: layer_range)
qed

lemma follows_empty: "(\<exists>w. follows E cs x x w) \<longleftrightarrow> (\<forall>c \<in> set cs. x \<in> occEnds E c x)"
proof (induction cs)
  case Nil
  then show ?case using f_nil by auto
next
  case (Cons c cs)
  have "(\<exists>w. follows E (c # cs) x x w) \<longleftrightarrow> x \<in> occEnds E c x \<and> (\<exists>w. follows E cs x x w)"
  proof
    assume "\<exists>w. follows E (c # cs) x x w"
    then obtain m v w where "occurs E c x m v" "follows E cs m x w" by (auto elim: follows_ConsE)
    moreover from this have "m = x" using occurs_span follows_span by (fastforce simp: spans_def)
    ultimately show "x \<in> occEnds E c x \<and> (\<exists>w. follows E cs x x w)" by (auto simp: occEnds_def)
  qed (auto simp: occEnds_def intro: f_cons)
  with Cons show ?case by auto
qed

text \<open>
  Nullability: a particle whose body derives nothing is marked nullable, and for every group but an all
  group the mark means that the body derives nothing at every position.
\<close>

lemma all_empty_nullable:
  assumes "cacheOK E N" "N p = Some b" "particleAt E p = Some q" "pKind q = ParticleAll" "x \<in> bodyEnds E p x"
  shows b
proof -
  note node = cacheOK_node [OF assms(1-3)]
  from assms(3-5) have req: "\<forall>k < length (pChildren q). \<not> isRequired E (pChildren q ! k)"
    by (auto simp: bodyEnds_def derives_all)
  have "mayBeEmpty E N c" if c: "c \<in> set (pChildren q)" for c
  proof -
    from c obtain k where "k < length (pChildren q)" "c = pChildren q ! k" by (auto simp: in_set_conv_nth)
    moreover obtain child where "particleAt E c = Some child" using node(3) [OF c] by (auto elim: wellFormedE)
    ultimately show ?thesis using req by (auto simp: isRequired_def mayBeEmpty_def)
  qed
  then show ?thesis using node(2) assms(4) by (simp add: nullableOf_def)
qed

lemma nullable_exact:
  assumes "cacheOK E N" "allOutermost E"
  shows "wellFormed E p \<Longrightarrow> N p = Some b \<Longrightarrow> particleAt E p = Some q \<Longrightarrow> pKind q \<noteq> ParticleAll \<Longrightarrow>
    (\<forall>x. x \<in> bodyEnds E p x \<longrightarrow> b) \<and> (\<forall>x \<le> size_of E. b \<longrightarrow> x \<in> bodyEnds E p x)"
proof (induction arbitrary: b q rule: wellFormed.induct)
  case (wf_node p q')
  then have q: "q' = q" by simp
  note node = cacheOK_node [OF assms(1) wf_node.prems(1,2)]
  have child: "(x \<in> occEnds E c x \<longrightarrow> mayBeEmpty E N c) \<and> (x \<le> size_of E \<longrightarrow> mayBeEmpty E N c \<longrightarrow> x \<in> occEnds E c x)"
    if c: "c \<in> set (pChildren q)" for c x
  proof -
    obtain r bc where r: "particleAt E c = Some r" "N c = Some bc" using node(3) [OF c] by (auto elim: wellFormedE)
    have "pKind r \<noteq> ParticleAll" using assms(2) wf_node.prems(2) c r(1) by (auto simp: allOutermost_def)
    with wf_node.IH c q r have ih: "\<forall>x. x \<in> bodyEnds E c x \<longrightarrow> bc" "\<forall>x \<le> size_of E. bc \<longrightarrow> x \<in> bodyEnds E c x" by auto
    have occ: "unboundedOf r \<or> minOf r \<le> maxOf r" using cacheOK_node(1) [OF assms(1) r(2,1)] by (simp add: nodeOK_def)
    have "minOf r = 0 \<or> bc" if "x \<in> occEnds E c x"
    proof -
      from that r(1) obtain w k where k: "minOf r \<le> k" "repeats E c k x x w" by (auto simp: occEnds_def elim!: occursE)
      show ?thesis
      proof (cases k)
        case 0
        with k show ?thesis by simp
      next
        case (Suc k')
        with k obtain m v w' where d: "derives E c x m v" "repeats E c k' m x w'" by (auto elim!: repeats_SucE)
        then have "m = x" using derives_span [OF d(1)] repeats_span [OF d(2)] by (simp add: spans_def)
        with d(1) show ?thesis using ih(1) by (auto simp: bodyEnds_def)
      qed
    qed
    moreover have "x \<in> occEnds E c x \<longleftrightarrow> minOf r = 0 \<or> bc" if "x \<le> size_of E"
      by (rule occurs_empty [OF r(1) occ that]) (use ih in blast)+
    moreover have "mayBeEmpty E N c \<longleftrightarrow> minOf r = 0 \<or> bc" using r by (simp add: mayBeEmpty_def)
    ultimately show ?thesis by blast
  qed
  show ?case
  proof (cases "pKind q")
    case ParticleChoice
    then have alt: "x \<in> bodyEnds E p x \<longleftrightarrow> (\<exists>c \<in> set (pChildren q). x \<in> occEnds E c x)" for x
      using wf_node.prems(2) by (auto simp: bodyEnds_def occEnds_def derives_choice)
    have b: "b \<longleftrightarrow> (\<exists>c \<in> set (pChildren q). mayBeEmpty E N c)" using ParticleChoice node(2) by (simp add: nullableOf_def)
    show ?thesis unfolding alt b using child by blast
  next
    case ParticleSequence
    then have seq: "x \<in> bodyEnds E p x \<longleftrightarrow> (\<exists>w. follows E (pChildren q) x x w)" for x
      using wf_node.prems(2) by (auto simp: bodyEnds_def derives_sequence)
    have b: "b \<longleftrightarrow> (\<forall>c \<in> set (pChildren q). mayBeEmpty E N c)" using ParticleSequence node(2) by (simp add: nullableOf_def)
    show ?thesis unfolding seq follows_empty b using child by blast
  qed (use wf_node.prems node in \<open>auto simp: bodyEnds_def nullableOf_def nodeOK_def derives_element derives_any\<close>)
qed

end
