(* ===== verification/Go_Graphs.thy ===== *)
theory Go_Graphs
  imports Main
begin

text \<open>
  Graphs of pointers. Schema components refer to each other, and a check that accepts a component only after
  everything below it makes the part it accepts acyclic and of bounded depth. The interface is what such a
  check establishes; the lemmas are what the recursions over the accepted part need.
\<close>

inductive deepIn :: "('n \<times> 'n) set \<Rightarrow> nat \<Rightarrow> 'n \<Rightarrow> bool" for R :: "('n \<times> 'n) set" where
  deepIn_node: "(\<And>u. (v, u) \<in> R \<Longrightarrow> deepIn R k u) \<Longrightarrow> deepIn R (Suc k) v"

inductive_cases deepInE: "deepIn R k v"

lemma deepIn_mono: "deepIn R k v \<Longrightarrow> k \<le> l \<Longrightarrow> deepIn R l v"
proof (induction arbitrary: l rule: deepIn.induct)
  case (deepIn_node v k)
  then obtain l' where "l = Suc l'" "k \<le> l'" by (cases l) auto
  with deepIn_node.IH show ?case by (auto intro: deepIn.deepIn_node)
qed

lemma deepIn_step: "deepIn R (Suc k) v \<Longrightarrow> (v, u) \<in> R \<Longrightarrow> deepIn R k u"
  by (auto elim: deepInE)

definition height :: "('n \<times> 'n) set \<Rightarrow> 'n \<Rightarrow> nat" where
  "height R v = (LEAST k. deepIn R k v)"

lemma height_deep: "deepIn R k v \<Longrightarrow> deepIn R (height R v) v"
  unfolding height_def by (rule LeastI)

lemma height_le: "deepIn R k v \<Longrightarrow> height R v \<le> k"
  unfolding height_def by (rule Least_le)

lemma height_pos: "deepIn R k v \<Longrightarrow> 0 < height R v"
  using height_deep [of R k v] by (cases "height R v") (auto elim: deepInE)

lemma height_step:
  assumes "deepIn R k v" "(v, u) \<in> R"
  shows "height R u < height R v"
proof -
  obtain l where l: "height R v = Suc l" using height_pos [OF assms(1)] by (cases "height R v") auto
  with height_deep [OF assms(1)] have "deepIn R (Suc l) v" by simp
  from height_le [OF deepIn_step [OF this assms(2)]] l show ?thesis by simp
qed

lemma height_trancl: "(v, u) \<in> R\<^sup>+ \<Longrightarrow> deepIn R k v \<Longrightarrow> height R u < height R v"
proof (induction arbitrary: k rule: converse_trancl_induct)
  case (step v w)
  then obtain l where "k = Suc l" by (cases k) (auto elim: deepInE)
  with step have "deepIn R l w" by (auto intro: deepIn_step)
  with step height_step show ?case by (meson less_trans)
qed (rule height_step)

locale descent =
  fixes edge :: "('n \<times> 'n) set" and good :: "'n \<Rightarrow> bool"
  assumes good_acc: "good v \<Longrightarrow> v \<in> Wellfounded.acc (edge\<inverse>)"
    and good_step: "good v \<Longrightarrow> (v, u) \<in> edge \<Longrightarrow> good u"
begin

lemma acyclic_at: "good v \<Longrightarrow> (v, v) \<notin> edge\<^sup>+"
proof -
  assume "good v"
  then have "v \<in> Wellfounded.acc (edge\<inverse>)" by (rule good_acc)
  then show ?thesis
  proof (induction rule: acc.induct)
    case (accI x)
    show ?case
    proof
      assume "(x, x) \<in> edge\<^sup>+"
      then obtain u where u: "(x, u) \<in> edge" "(u, x) \<in> edge\<^sup>*" by (blast dest: tranclD)
      then have "(u, u) \<in> edge\<^sup>+" by (blast intro: rtrancl_into_trancl1)
      with accI.IH u(1) show False by auto
    qed
  qed
qed

lemma good_reach: "(v, u) \<in> edge\<^sup>* \<Longrightarrow> good v \<Longrightarrow> good u"
  by (induction rule: rtrancl_induct) (auto intro: good_step)

text \<open>Below an acyclic node the recursion is no deeper than the number of nodes it can reach.\<close>

lemma reach_smaller: "good v \<Longrightarrow> (v, u) \<in> edge \<Longrightarrow> edge\<^sup>* `` {u} \<subseteq> edge\<^sup>* `` {v} - {v}"
  using acyclic_at by (auto intro: converse_rtrancl_into_rtrancl rtrancl_into_trancl2)

lemma deep_card: "good v \<Longrightarrow> finite A \<Longrightarrow> edge\<^sup>* `` {v} \<subseteq> A \<Longrightarrow> deepIn edge (card A) v"
proof (induction "card A" arbitrary: v A rule: less_induct)
  case less
  have v: "v \<in> A" using less.prems(3) by auto
  have c: "card A = Suc (card (A - {v}))" using card_Suc_Diff1 [OF less.prems(2) v] by simp
  have "deepIn edge (card (A - {v})) u" if "(v, u) \<in> edge" for u
  proof (rule less.hyps)
    show "edge\<^sup>* `` {u} \<subseteq> A - {v}" using reach_smaller [OF less.prems(1) that] less.prems(3) by blast
  qed (use c that less.prems good_step in auto)
  then show ?case unfolding c by (rule deepIn_node)
qed

end

end
