(* ===== verification/Xsd_Guard.thy ===== *)
theory Xsd_Guard
  imports Xsd_Content Go_Graphs
begin

text \<open>
  The structural guard of the matcher: \<open>Prepare\<close> ends on every particle graph, cyclic ones included,
  accepts exactly the well-formed acyclic ones, and keeps the nullability cache right.
\<close>

section \<open>Acyclic graphs\<close>

definition childRel :: "matchEnv \<Rightarrow> (nat \<times> nat) set" where
  "childRel E = {(p, c). \<exists>q. particleAt E p = Some q \<and> c \<in> set (pChildren q)}"

lemma wellFormed_child: "wellFormed E p \<Longrightarrow> (p, c) \<in> childRel E \<Longrightarrow> wellFormed E c"
  by (auto simp: childRel_def elim: wellFormedE)

lemma wellFormed_acc: "wellFormed E p \<Longrightarrow> p \<in> Wellfounded.acc ((childRel E)\<inverse>)"
proof (induction rule: wellFormed.induct)
  case (wf_node p q)
  show ?case by (rule accI) (use wf_node in \<open>auto simp: childRel_def\<close>)
qed

interpretation particle_graph: descent "childRel E" "wellFormed E" for E
  by unfold_locales (auto intro: wellFormed_acc wellFormed_child)

lemmas wellFormed_acyclic = particle_graph.acyclic_at and wellFormed_reach = particle_graph.good_reach

lemma wellFormed_at: "wellFormed E p \<Longrightarrow> p < length (heap E)"
  by (auto elim!: wellFormedE simp: particleAt_def split: if_splits)

text \<open>The depth of a particle: how deep the recursion of the matcher goes below it.\<close>

inductive deep :: "matchEnv \<Rightarrow> nat \<Rightarrow> nat \<Rightarrow> bool" for E :: matchEnv where
  deep_node: "particleAt E p = Some q \<Longrightarrow> (\<forall>c \<in> set (pChildren q). deep E k c) \<Longrightarrow> deep E (Suc k) p"

inductive_cases deepE: "deep E k p"

lemma deepIn_deep: "deepIn (childRel E) k p \<Longrightarrow> wellFormed E p \<Longrightarrow> deep E k p"
proof (induction rule: deepIn.induct)
  case (deepIn_node p k)
  from deepIn_node.prems obtain q where q: "particleAt E p = Some q" by (auto elim: wellFormedE)
  have "deep E k c" if c: "c \<in> set (pChildren q)" for c
  proof -
    have "(p, c) \<in> childRel E" using q c by (auto simp: childRel_def)
    then show ?thesis using deepIn_node wellFormed_child by blast
  qed
  with q show ?case by (auto intro: deep_node)
qed

lemma wellFormed_deep: "wellFormed E p \<Longrightarrow> deep E (length (heap E)) p"
proof -
  assume wf: "wellFormed E p"
  have "(childRel E)\<^sup>* `` {p} \<subseteq> {..<length (heap E)}"
    using wellFormed_reach [OF _ wf] wellFormed_at by auto
  from particle_graph.deep_card [OF wf _ this] have "deepIn (childRel E) (length (heap E)) p" by simp
  then show ?thesis using wf by (rule deepIn_deep)
qed

section \<open>The guard\<close>

definition grows :: "matchEnv \<Rightarrow> ParticleMatcher \<Rightarrow> ParticleMatcher \<Rightarrow> bool" where
  "grows E m m' \<longleftrightarrow> cacheOK E (mNullable m') \<and> mNullable m \<subseteq>\<^sub>m mNullable m' \<and> m' = m\<lparr>mNullable := mNullable m'\<rparr>"

lemma grows_refl: "cacheOK E (mNullable m) \<Longrightarrow> grows E m m"
  by (simp add: grows_def)

lemma grows_trans: "grows E a b \<Longrightarrow> grows E b c \<Longrightarrow> grows E a c"
  unfolding grows_def by (metis map_le_trans ParticleMatcher.update_convs(3) ParticleMatcher.surjective ParticleMatcher.select_convs(3))

lemma grows_known: "grows E m m' \<Longrightarrow> mNullable m c = Some b \<Longrightarrow> mNullable m' c = Some b"
  by (auto simp: grows_def map_le_def dom_def)

definition membersOK :: "matchEnv \<Rightarrow> QName set \<Rightarrow> nat list \<Rightarrow> bool" where
  "membersOK E names cs \<longleftrightarrow> (\<forall>c \<in> set cs. allMember E c) \<and> distinct (activeNames E cs) \<and> set (activeNames E cs) \<inter> names = {}"

definition guards :: "matchEnv \<Rightarrow> (nat \<Rightarrow> bool act) \<Rightarrow> nat \<Rightarrow> bool" where
  "guards E prep c \<longleftrightarrow> (\<forall>m. cacheOK E (mNullable m) \<longrightarrow>
     (\<exists>ok m'. prep c m = Some (ok, m') \<and> grows E m m' \<and> (ok \<longleftrightarrow> wellFormed E c) \<and> (ok \<longrightarrow> mNullable m' c \<noteq> None)))"

lemma membersOK_Cons:
  assumes "particleAt E c = Some child"
  shows "membersOK E names (c # cs) \<longleftrightarrow> pKind child = ParticleElement \<and> \<not> unboundedOf child \<and> maxOf child \<le> 1 \<and>
    (if maxOf child = 0 then membersOK E names cs
     else eName (the (declOf E c)) \<notin> names \<and> membersOK E (insert (eName (the (declOf E c))) names) cs)"
  using assms by (auto simp: membersOK_def allMember_def activeNames_def isActive_def)

lemma prepareChildren_exact:
  "\<forall>c \<in> set cs. guards E prep c \<Longrightarrow> cacheOK E (mNullable m) \<Longrightarrow>
   \<exists>r m'. prepareChildren E prep k cs names nl m = Some (r, m') \<and> grows E m m' \<and>
     (r \<noteq> None \<longleftrightarrow> (\<forall>c \<in> set cs. wellFormed E c) \<and> (k = ParticleAll \<longrightarrow> membersOK E names cs)) \<and>
     (\<forall>b. r = Some b \<longrightarrow> (\<forall>c \<in> set cs. mNullable m' c \<noteq> None) \<and>
        b = (if k = ParticleChoice then nl \<or> (\<exists>c \<in> set cs. mayBeEmpty E (mNullable m') c)
             else nl \<and> (\<forall>c \<in> set cs. mayBeEmpty E (mNullable m') c)))"
proof (induction cs arbitrary: names nl m)
  case Nil
  then show ?case by (simp add: ret_def grows_refl membersOK_def activeNames_def)
next
  case (Cons c cs)
  obtain ok m1 where prep: "prep c m = Some (ok, m1)" "grows E m m1" "ok \<longleftrightarrow> wellFormed E c" "ok \<longrightarrow> mNullable m1 c \<noteq> None"
    using Cons.prems by (auto simp: guards_def)
  show ?case
  proof (cases ok)
    case False
    with prep show ?thesis by (auto simp: bnd_def ret_def)
  next
    case True
    with prep obtain child b where c: "particleAt E c = Some child" "mNullable m1 c = Some b" "wellFormed E c"
      by (auto elim: wellFormedE)
    have cache: "cacheOK E (mNullable m1)" using prep(2) by (simp add: grows_def)
    show ?thesis
    proof (cases "k = ParticleAll \<and> (pKind child \<noteq> ParticleElement \<or> unboundedOf child \<or> 1 < maxOf child)")
      case bad: True
      with prep True c show ?thesis by (auto simp: bnd_def ret_def membersOK_def allMember_def)
    next
      case good: False
      define empty where "empty = (minOf child = 0 \<or> mNullable m1 c = Some True)"
      define nl' where "nl' = (if k = ParticleChoice then nl \<or> empty else nl \<and> empty)"
      have later: "mayBeEmpty E (mNullable m') c \<longleftrightarrow> empty" if "grows E m1 m'" for m'
        using grows_known [OF that c(2)] c by (simp add: mayBeEmpty_def empty_def)
      have decl: "\<exists>e. ResolveElement E (pElement child) = Some e \<and> declOf E c = Some e" if "k = ParticleAll"
        using that good c by (auto simp: nodeOK_def declOf_def elim!: wellFormedE)
      define names' where "names' = (if k = ParticleAll \<and> maxOf child \<noteq> 0 then insert (eName (the (declOf E c))) names else names)"
      show ?thesis
      proof (cases "k = ParticleAll \<and> maxOf child \<noteq> 0 \<and> eName (the (declOf E c)) \<in> names")
        case True
        with prep \<open>ok\<close> c good decl show ?thesis
          by (auto simp: bnd_def ret_def get_def Let_def membersOK_Cons [OF c(1)])
      next
        case False
        then have run: "prepareChildren E prep k (c # cs) names nl m = prepareChildren E prep k cs names' nl' m1"
          using prep \<open>ok\<close> c good decl by (auto simp: bnd_def get_def Let_def names'_def nl'_def empty_def)
        have mem: "k = ParticleAll \<Longrightarrow> membersOK E names (c # cs) \<longleftrightarrow> membersOK E names' cs"
          using good False by (auto simp: membersOK_Cons [OF c(1)] names'_def)
        obtain r m' where ih: "prepareChildren E prep k cs names' nl' m1 = Some (r, m')" "grows E m1 m'"
          "r \<noteq> None \<longleftrightarrow> (\<forall>c \<in> set cs. wellFormed E c) \<and> (k = ParticleAll \<longrightarrow> membersOK E names' cs)"
          "\<And>b. r = Some b \<Longrightarrow> (\<forall>c \<in> set cs. mNullable m' c \<noteq> None) \<and>
             b = (if k = ParticleChoice then nl' \<or> (\<exists>c \<in> set cs. mayBeEmpty E (mNullable m') c)
                  else nl' \<and> (\<forall>c \<in> set cs. mayBeEmpty E (mNullable m') c))"
          using Cons.IH [of m1 names' nl'] Cons.prems(1) cache by auto
        have "mNullable m' c = Some b" by (rule grows_known [OF ih(2) c(2)])
        then have "b' = (if k = ParticleChoice then nl \<or> (\<exists>c \<in> set (c # cs). mayBeEmpty E (mNullable m') c)
            else nl \<and> (\<forall>c \<in> set (c # cs). mayBeEmpty E (mNullable m') c)) \<and> (\<forall>c \<in> set (c # cs). mNullable m' c \<noteq> None)"
          if "r = Some b'" for b' using ih(4) [OF that] later [OF ih(2)] by (simp add: nl'_def)
        moreover have "r \<noteq> None \<longleftrightarrow> (\<forall>c \<in> set (c # cs). wellFormed E c) \<and> (k = ParticleAll \<longrightarrow> membersOK E names (c # cs))"
          using ih(3) c(3) mem by simp
        ultimately show ?thesis unfolding run using ih(1) grows_trans [OF prep(2) ih(2)] by blast
      qed
    qed
  qed
qed


lemma cacheOK_insert:
  assumes "cacheOK E N" "N p = None" "wellFormed E p" "particleAt E p = Some q"
    and "b = nullableOf E N q" "\<forall>c \<in> set (pChildren q). N c \<noteq> None"
  shows "cacheOK E (N(p := Some b))"
proof -
  let ?N' = "N(p := Some b)"
  have same: "nullableOf E ?N' r = nullableOf E N r" if known: "\<forall>c \<in> set (pChildren r). N c \<noteq> None" for r
  proof -
    have "mayBeEmpty E ?N' c = mayBeEmpty E N c" if "c \<in> set (pChildren r)" for c
      using known that assms(2) by (auto simp: mayBeEmpty_def)
    then show ?thesis by (simp add: nullableOf_def split: ParticleKind.split)
  qed
  show ?thesis
    unfolding cacheOK_def
  proof (intro allI impI)
    fix p' b'
    assume N': "?N' p' = Some b'"
    show "wellFormed E p' \<and> (\<exists>q. particleAt E p' = Some q \<and> b' = nullableOf E ?N' q \<and> (\<forall>c \<in> set (pChildren q). ?N' c \<noteq> None))"
    proof (cases "p' = p")
      case True
      with N' assms same show ?thesis by auto
    next
      case False
      with N' assms(1) obtain q' where "wellFormed E p'" "particleAt E p' = Some q'" "b' = nullableOf E N q'"
        "\<forall>c \<in> set (pChildren q'). N c \<noteq> None" unfolding cacheOK_def by fastforce
      with same show ?thesis by auto
    qed
  qed
qed

lemma setNullable_grows:
  assumes "cacheOK E (mNullable m)" "wellFormed E p" "particleAt E p = Some q"
    and "b = nullableOf E (mNullable m) q" "\<forall>c \<in> set (pChildren q). mNullable m c \<noteq> None"
  shows "\<exists>m'. setNullable p b m = Some (True, m') \<and> grows E m m' \<and> mNullable m' p \<noteq> None"
proof -
  have "cacheOK E ((mNullable m)(p := Some b)) \<and> mNullable m \<subseteq>\<^sub>m (mNullable m)(p := Some b)"
  proof (cases "mNullable m p")
    case None
    then show ?thesis using cacheOK_insert [OF assms(1) None assms(2-5)] by (auto simp: map_le_def)
  next
    case (Some b')
    then have "b' = b" using cacheOK_node(2) [OF assms(1) Some assms(3)] assms(4) by simp
    with Some have "(mNullable m)(p := Some b) = mNullable m" by auto
    with assms(1) show ?thesis by simp
  qed
  then show ?thesis by (simp add: setNullable_def bnd_def upd_def ret_def grows_def)
qed

lemma wellFormed_iff: "particleAt E p = Some q \<Longrightarrow> wellFormed E p \<longleftrightarrow> nodeOK E q \<and> (\<forall>c \<in> set (pChildren q). wellFormed E c)"
  by (auto elim: wellFormedE intro: wf_node)

lemma prepareNode_exact:
  assumes kids: "\<forall>c \<in> set (pChildren q). guards E prep c" and cache: "cacheOK E (mNullable m)" and q: "particleAt E p = Some q"
  shows "\<exists>ok m'. prepareNode E prep p q m = Some (ok, m') \<and> grows E m m' \<and> (ok \<longleftrightarrow> wellFormed E p) \<and>
    (ok \<longrightarrow> mNullable m' p \<noteq> None)"
proof (cases "\<not> unboundedOf q \<and> maxOf q < minOf q")
  case True
  then have "\<not> wellFormed E p" by (simp add: wellFormed_iff [OF q] nodeOK_def)
  with True grows_refl [OF cache] show ?thesis by (auto simp: prepareNode_def ret_def)
next
  case occ: False
  note refl = grows_refl [OF cache]
  show ?thesis
  proof (cases "pKind q = ParticleElement \<or> pKind q = ParticleAny")
    case True
    show ?thesis
    proof (cases "nodeOK E q")
      case node: True
      then have kids0: "pChildren q = []" "\<not> nullableOf E (mNullable m) q"
        using True by (auto simp: nodeOK_def nullableOf_def)
      then have wf: "wellFormed E p" using node by (simp add: wellFormed_iff [OF q])
      have el: "pElement q \<noteq> None" if "ResolveElement E (pElement q) = Some e" for e
        using that by (auto simp: ResolveElement_def split: option.splits)
      from True have "prepareNode E prep p q m = setNullable p False m"
      proof
        assume "pKind q = ParticleElement"
        with node occ el show ?thesis by (auto simp: prepareNode_def nodeOK_def)
      next
        assume "pKind q = ParticleAny"
        with node occ show ?thesis by (auto simp: prepareNode_def nodeOK_def)
      qed
      then show ?thesis using setNullable_grows [OF cache wf q, of False] kids0 wf by auto
    next
      case bad: False
      then have "prepareNode E prep p q m = Some (False, m)"
        using True occ by (auto simp: prepareNode_def nodeOK_def ret_def split: option.splits)
      with bad refl show ?thesis by (auto simp: wellFormed_iff [OF q])
    qed
  next
    case leaf: False
    show ?thesis
    proof (cases "pKind q \<in> {ParticleSequence, ParticleChoice, ParticleAll} \<and> pElement q = None \<and> pAny q = None")
      case False
      then have "prepareNode E prep p q m = Some (False, m)" "\<not> nodeOK E q"
        using leaf occ by (auto simp: prepareNode_def nodeOK_def ret_def split: ParticleKind.splits)
      with refl show ?thesis by (auto simp: wellFormed_iff [OF q])
    next
      case group: True
      obtain r m1 where pc: "prepareChildren E prep (pKind q) (pChildren q) {} (pKind q \<noteq> ParticleChoice) m = Some (r, m1)"
        "grows E m m1" "r \<noteq> None \<longleftrightarrow> (\<forall>c \<in> set (pChildren q). wellFormed E c) \<and> (pKind q = ParticleAll \<longrightarrow> membersOK E {} (pChildren q))"
        "\<And>b. r = Some b \<Longrightarrow> (\<forall>c \<in> set (pChildren q). mNullable m1 c \<noteq> None) \<and> b = nullableOf E (mNullable m1) q"
        using prepareChildren_exact [OF kids cache, of "pKind q" "{}" "pKind q \<noteq> ParticleChoice"] group
        by (auto simp: nullableOf_def)
      have run: "prepareNode E prep p q m = (case r of None \<Rightarrow> Some (False, m1)
          | Some b \<Rightarrow> if pKind q = ParticleAll \<and> (unboundedOf q \<or> 1 < maxOf q) then Some (False, m1) else setNullable p b m1)"
        using pc(1) group occ by (auto simp: prepareNode_def bnd_def ret_def split: option.split)
      have wf: "wellFormed E p \<longleftrightarrow> r \<noteq> None \<and> \<not> (pKind q = ParticleAll \<and> (unboundedOf q \<or> 1 < maxOf q))"
        using group occ pc(3) by (auto simp: wellFormed_iff [OF q] nodeOK_def membersOK_def)
      have cache1: "cacheOK E (mNullable m1)" using pc(2) by (simp add: grows_def)
      show ?thesis
      proof (cases "wellFormed E p")
        case False
        with wf run pc(2) show ?thesis by (auto split: option.splits)
      next
        case True
        with wf obtain b where b: "r = Some b" by auto
        from setNullable_grows [OF cache1 True q] pc(4) [OF b] obtain m'
          where "setNullable p b m1 = Some (True, m')" "grows E m1 m'" "mNullable m' p \<noteq> None" by auto
        moreover have "prepareNode E prep p q m = setNullable p b m1" using True wf b run by auto
        ultimately show ?thesis using grows_trans [OF pc(2)] True by auto
      qed
    qed
  qed
qed

text \<open>Active particles are proper ancestors, so a well-formed particle is never active.\<close>

lemma Prepare_exact:
  "card ({..<length (heap E)} - set active) < n \<Longrightarrow> \<forall>a \<in> set active. (a, p) \<in> (childRel E)\<^sup>+ \<Longrightarrow> guards E (\<lambda>p. Prepare n E p active) p"
proof (induction n arbitrary: p active)
  case (Suc n)
  show ?case
    unfolding guards_def
  proof (intro allI impI)
    fix m :: ParticleMatcher
    assume cache: "cacheOK E (mNullable m)"
    show "\<exists>ok m'. Prepare (Suc n) E p active m = Some (ok, m') \<and> grows E m m' \<and> (ok \<longleftrightarrow> wellFormed E p) \<and> (ok \<longrightarrow> mNullable m' p \<noteq> None)"
    proof (cases "particleAt E p")
      case None
      then have "\<not> wellFormed E p" by (auto elim: wellFormedE)
      with None grows_refl [OF cache] show ?thesis by (auto simp: ret_def)
    next
      case (Some q)
      then have p: "p < length (heap E)" by (simp add: particleAt_def split: if_splits)
      show ?thesis
      proof (cases "p \<in> set active \<or> mNullable m p \<noteq> None")
        case True
        moreover have "p \<in> set active \<Longrightarrow> \<not> wellFormed E p" using Suc.prems(2) wellFormed_acyclic by blast
        moreover have "mNullable m p \<noteq> None \<Longrightarrow> wellFormed E p" using cache by (auto simp: cacheOK_def)
        ultimately show ?thesis using Some cache by (auto simp: bnd_def get_def ret_def grows_refl)
      next
        case False
        have "{..<length (heap E)} - set (p # active) = ({..<length (heap E)} - set active) - {p}" by auto
        moreover have "Suc (card (({..<length (heap E)} - set active) - {p})) = card ({..<length (heap E)} - set active)"
          using p False by (intro card_Suc_Diff1) auto
        ultimately have "card ({..<length (heap E)} - set (p # active)) < n" using Suc.prems(1) by simp
        then have "\<forall>c \<in> set (pChildren q). guards E (\<lambda>c. Prepare n E c (p # active)) c"
          using Suc.IH [of "p # active"] Suc.prems(2) Some by (auto simp: childRel_def intro: trancl_into_trancl)
        from prepareNode_exact [OF this cache Some] False Some show ?thesis by (auto simp: bnd_def get_def)
      qed
    qed
  qed
qed simp

section \<open>Property\<close>

text \<open>
  C3: the structural guard ends on every particle graph, cyclic or shared, without a nil dereference. It
  accepts exactly the particles from which every path ends and every node satisfies the structural
  conditions; it changes nothing but the nullability cache, keeps every entry of the cache, and every
  entry afterwards describes a well-formed particle.
\<close>

theorem guard_exact:
  assumes "cacheOK E (mNullable m)"
  shows "\<exists>ok m'. Prepare (Suc (length (heap E))) E p [] m = Some (ok, m') \<and> (ok \<longleftrightarrow> wellFormed E p) \<and>
    cacheOK E (mNullable m') \<and> mNullable m \<subseteq>\<^sub>m mNullable m' \<and> m' = m\<lparr>mNullable := mNullable m'\<rparr>"
proof -
  have "card ({..<length (heap E)} - set []) < Suc (length (heap E))" by simp
  then have "guards E (\<lambda>p. Prepare (Suc (length (heap E))) E p []) p" by (rule Prepare_exact) simp
  with assms show ?thesis unfolding guards_def grows_def by blast
qed

text \<open>A small model: any number of \<open>a\<close> or \<open>b\<close>, then an optional \<open>c\<close>.\<close>

definition sampleElement :: "string \<Rightarrow> nat \<Rightarrow> nat \<Rightarrow> ParticleSchema" where
  "sampleElement s lo hi = \<lparr> pKind = ParticleElement, pOccurrence = \<lparr> oMin = lo, oMax = hi, oUnbounded = False \<rparr>,
     pElement = Some \<lparr> eName = \<lparr>Space = [], Local = s\<rparr>, eReference = \<lparr>Space = [], Local = []\<rparr>, eDeclaration = 0 \<rparr>,
     pChildren = [], pAny = None \<rparr>"

definition sampleGroup :: "ParticleKind \<Rightarrow> nat list \<Rightarrow> bool \<Rightarrow> ParticleSchema" where
  "sampleGroup k cs many = \<lparr> pKind = k, pOccurrence = \<lparr> oMin = (if many then 0 else 1), oMax = 1, oUnbounded = many \<rparr>,
     pElement = None, pChildren = cs, pAny = None \<rparr>"

definition sampleEnv :: "string list \<Rightarrow> matchEnv" where
  "sampleEnv names = \<lparr> heap = [sampleGroup ParticleSequence [1, 2] False, sampleGroup ParticleChoice [3, 4] True,
       sampleElement ''c'' 0 1, sampleElement ''a'' 1 1, sampleElement ''b'' 1 1],
     elements = \<lambda>_. None, uriOK = \<lambda>_. True, localRun = False,
     nodes = map (\<lambda>s. Some \<lparr>Space = [], Local = s\<rparr>) names \<rparr>"

lemma empty_cacheOK: "cacheOK E (mNullable NewParticleMatcher)"
  by (simp add: cacheOK_def NewParticleMatcher_def)

theorem guard_exact_witness:
  "wellFormed (sampleEnv []) 0 \<and> \<not> wellFormed (sampleEnv []\<lparr>heap := [sampleGroup ParticleSequence [0] True]\<rparr>) 0"
proof -
  have "map_option fst (Prepare (Suc (length (heap (sampleEnv [])))) (sampleEnv []) 0 [] NewParticleMatcher) = Some True"
    by code_simp
  moreover have "map_option fst (Prepare (Suc (length [sampleGroup ParticleSequence [0] True]))
      (sampleEnv []\<lparr>heap := [sampleGroup ParticleSequence [0] True]\<rparr>) 0 [] NewParticleMatcher) = Some False"
    by code_simp
  ultimately show ?thesis
    using guard_exact [OF empty_cacheOK, of "sampleEnv []" 0]
      guard_exact [OF empty_cacheOK, of "sampleEnv []\<lparr>heap := [sampleGroup ParticleSequence [0] True]\<rparr>" 0]
    by auto
qed

end
