(* ===== verification/Xsd_Matching.thy ===== *)
theory Xsd_Matching
  imports Xsd_Guard
begin

text \<open>
  The endpoint search: the collections of positions behind one interface, the memo invariant, and the proof that \<open>Match\<close> and \<open>Body\<close> return exactly the
  endpoints of derivations, in descending order, in the first pass and in the diagnostic replay.
\<close>

declare layer.simps(2) [simp del]

section \<open>Collections of positions\<close>

locale collector =
  fixes none :: 's
    and add :: "nat \<Rightarrow> 's \<Rightarrow> 's"
    and content :: "'s \<Rightarrow> nat set"
    and inv :: "'s \<Rightarrow> bool"
  assumes inv_none: "inv none" and content_none: "content none = {}"
    and inv_add: "inv s \<Longrightarrow> inv (add x s)"
    and content_add: "inv s \<Longrightarrow> content (add x s) = insert x (content s)"
begin

lemma fold_add: "inv s \<Longrightarrow> inv (fold add xs s) \<and> content (fold add xs s) = content s \<union> set xs"
  by (induction xs arbitrary: s) (auto simp: inv_add content_add)

end

definition posSet :: "ParticlePositionSet \<Rightarrow> nat set" where
  "posSet s = (case psMany s of Some many \<Rightarrow> many | None \<Rightarrow> if psHasFirst s then {psFirst s} else {})"

definition posInv :: "ParticlePositionSet \<Rightarrow> bool" where
  "posInv s \<longleftrightarrow> (\<forall>many. psMany s = Some many \<longrightarrow> psHasFirst s \<and> many \<noteq> {})"

interpretation positions: collector noPositions ParticlePositionSet_add posSet posInv
  by unfold_locales (auto simp: noPositions_def ParticlePositionSet_add_def posSet_def posInv_def split: option.splits)

definition predSet :: "ParticlePredecessors \<Rightarrow> nat set" where
  "predSet p = (case prMany p of Some many \<Rightarrow> fst ` set many | None \<Rightarrow> if prHasFirst p then {prEnd p} else {})"

definition predInv :: "ParticlePredecessors \<Rightarrow> bool" where
  "predInv p \<longleftrightarrow> (\<forall>many. prMany p = Some many \<longrightarrow> prHasFirst p)"

interpretation predecessors: collector noPredecessors "\<lambda>e. ParticlePredecessors_add e start" predSet predInv for start
  by unfold_locales
    (auto simp: noPredecessors_def ParticlePredecessors_add_def predSet_def predInv_def map_of_eq_None_iff split: option.splits)

lemma posSet_empty: "posInv s \<Longrightarrow> posSet s = {} \<longleftrightarrow> \<not> psHasFirst s"
  by (auto simp: posSet_def posInv_def split: option.splits)

lemma orderedPositions_set [simp]: "finite S \<Longrightarrow> set (orderedPositions S) = S"
  by (simp add: orderedPositions_def)

lemma orderedPositions_simps [simp]:
  "orderedPositions {} = []" "orderedPositions {x} = [x]" "orderedPositions {s, Suc s} = [Suc s, s]"
  by (simp_all add: orderedPositions_def sorted_list_of_set_insert_remove)

lemma orderedPositions_Nil [simp]: "finite S \<Longrightarrow> orderedPositions S = [] \<longleftrightarrow> S = {}"
  using orderedPositions_set [of S] by (metis empty_set orderedPositions_simps(1) set_empty)

section \<open>The memo invariant\<close>

definition goodFailure :: "matchEnv \<Rightarrow> bool \<Rightarrow> nat \<Rightarrow> MatchFailure option \<Rightarrow> bool" where
  "goodFailure E d s f \<longleftrightarrow> (d \<longrightarrow> (\<exists>x. f = Some x \<and> s \<le> mfPosition x \<and> mfPosition x \<le> size_of E \<and> mfSchema x = []))"

definition goodBody :: "matchEnv \<Rightarrow> bool \<Rightarrow> nat \<Rightarrow> nat \<Rightarrow> ParticleEndpoints \<Rightarrow> bool" where
  "goodBody E d p s r \<longleftrightarrow> Ends r = orderedPositions (bodyEnds E p s) \<and> goodFailure E d s (EFailure r)"

text \<open>
  In the diagnostic replay a required all group goes through the general loop, which also admits its
  start when nothing in it is required; its endpoints are not used there.
\<close>

definition goodMatch :: "matchEnv \<Rightarrow> bool \<Rightarrow> nat \<Rightarrow> nat \<Rightarrow> ParticleEndpoints \<Rightarrow> bool" where
  "goodMatch E d p s r \<longleftrightarrow> goodFailure E d s (EFailure r) \<and>
     (\<forall>q. particleAt E p = Some q \<longrightarrow> \<not> (d \<and> pKind q = ParticleAll) \<longrightarrow> Ends r = orderedPositions (occEnds E p s))"

definition memo :: "matchEnv \<Rightarrow> (nat \<Rightarrow> bool option) \<Rightarrow> bool \<Rightarrow> ParticleMatcher \<Rightarrow> bool" where
  "memo E N d m \<longleftrightarrow> mNullable m = N \<and> mDiagnostics m = d \<and>
     (\<forall>xs. mSingletons m = Some xs \<longrightarrow> xs = singletonArray E) \<and>
     (\<forall>p s r. mBodies m (p, s) = Some r \<longrightarrow> goodBody E d p s r) \<and>
     (\<forall>p s r. mParticles m (p, s) = Some r \<longrightarrow> goodMatch E d p s r)"

lemma runs_get_known: "runs (memo E N d) (f d) Q \<Longrightarrow> runs (memo E N d) (bnd (get mDiagnostics) f) Q"
  "runs (memo E N d) (g N) Q \<Longrightarrow> runs (memo E N d) (bnd (get mNullable) g) Q"
  by (auto simp: memo_def intro!: runs_get)

lemma singletonArray_nth: "i \<le> size_of E \<Longrightarrow> drop i (singletonArray E) = (size_of E - i) # drop (Suc i) (singletonArray E)"
  by (subst Cons_nth_drop_Suc [symmetric]) (simp_all add: singletonArray_def del: upt_Suc)

lemma runs_Singleton:
  assumes "position \<le> size_of E"
  shows "runs (memo E N d) (Singleton E position) (\<lambda>xs. xs = [position])"
proof -
  have "take 1 (drop (size_of E - position) (singletonArray E)) = [position]"
    using assms by (simp add: singletonArray_nth)
  moreover have "size_of E - position + 1 \<le> length (singletonArray E)" by (simp add: singletonArray_def)
  ultimately show ?thesis
    using assms by (auto simp: runs_def memo_def Singleton_def bnd_def upd_def viewSingletons_def)
qed

lemma runs_Ordered:
  assumes "posInv s" "posSet s \<subseteq> {..size_of E}"
  shows "runs (memo E N d) (ParticlePositionSet_Ordered E s) (\<lambda>xs. xs = orderedPositions (posSet s))"
  using assms runs_Singleton [of "psFirst s" E N d]
  by (auto simp: ParticlePositionSet_Ordered_def posSet_def intro!: runs_ret split: option.splits)

lemma goodFailure_later: "goodFailure E d y f \<Longrightarrow> s \<le> y \<Longrightarrow> goodFailure E d s f"
  by (auto simp: goodFailure_def)

lemma runs_Failure:
  assumes "goodFailure E d s a" "goodFailure E d s b"
  shows "runs (memo E N d) (Failure a b) (goodFailure E d s)"
  unfolding Failure_def
  by (rule runs_get_known) (use assms in \<open>auto simp: goodFailure_def betterFailure_def intro!: runs_ret\<close>)

lemma runs_InitialFailure: "s \<le> size_of E \<Longrightarrow> runs (memo E N d) (InitialFailure s) (goodFailure E d s)"
  unfolding InitialFailure_def by (rule runs_get_known) (auto simp: goodFailure_def intro!: runs_ret)

section \<open>Repetition\<close>

definition progress :: "matchEnv \<Rightarrow> nat \<Rightarrow> nat \<Rightarrow> nat set" where
  "progress E p y = {e \<in> bodyEnds E p y. e \<noteq> y}"

lemma repeatEnds_sets:
  "posInv nx \<Longrightarrow> posInv ac \<Longrightarrow> repeatEnds y enough es (nx, ac) = (nx', ac') \<Longrightarrow>
   posInv nx' \<and> posInv ac' \<and> posSet nx' = posSet nx \<union> (set es - {y}) \<and>
   posSet ac' = posSet ac \<union> (if enough then set es - {y} else {})"
proof (induction es arbitrary: nx ac)
  case (Cons e es)
  show ?case
  proof (cases "e = y")
    case True
    with Cons show ?thesis by auto
  next
    case False
    define nx1 ac1 where "nx1 = ParticlePositionSet_add e nx" and "ac1 = (if enough then ParticlePositionSet_add e ac else ac)"
    have inv: "posInv nx1" "posInv ac1" using Cons.prems by (simp_all add: nx1_def ac1_def positions.inv_add)
    have "posSet nx1 = insert e (posSet nx)" "posSet ac1 = (if enough then insert e (posSet ac) else posSet ac)"
      using Cons.prems by (simp_all add: nx1_def ac1_def positions.content_add)
    moreover have "repeatEnds y enough es (nx1, ac1) = (nx', ac')" using Cons.prems False by (simp add: nx1_def ac1_def)
    ultimately show ?thesis using Cons.IH [OF inv] False by auto
  qed
qed simp

definition bodyOK :: "matchEnv \<Rightarrow> (nat \<Rightarrow> bool option) \<Rightarrow> bool \<Rightarrow> nat \<Rightarrow> (nat \<Rightarrow> ParticleEndpoints act) \<Rightarrow> bool" where
  "bodyOK E N d p body \<longleftrightarrow> (\<forall>y \<le> size_of E. runs (memo E N d) (body y) (goodBody E d p y))"

lemma runs_repeatLayer:
  assumes body: "bodyOK E N d p body" and cur: "\<forall>y \<in> set current. s \<le> y \<and> y \<le> size_of E"
    and "posInv ac" "goodFailure E d s fl"
  shows "runs (memo E N d) (repeatLayer body enough current ac fl) (\<lambda>(nx, ac', fl').
    posInv nx \<and> posInv ac' \<and> posSet nx = (\<Union>y \<in> set current. progress E p y) \<and>
    posSet ac' = posSet ac \<union> (if enough then (\<Union>y \<in> set current. progress E p y) else {}) \<and> goodFailure E d s fl')"
  unfolding repeatLayer_def
proof (rule runs_each [where P = "\<lambda>ys (nx, ac', fl'). posInv nx \<and> posInv ac' \<and> posSet nx = (\<Union>y \<in> set ys. progress E p y) \<and>
    posSet ac' = posSet ac \<union> (if enough then (\<Union>y \<in> set ys. progress E p y) else {}) \<and> goodFailure E d s fl'"], goal_cases)
  case (1 ys y b)
  obtain nx ac1 fl1 where b: "b = (nx, ac1, fl1)" by (rule prod_cases3)
  have y: "s \<le> y" "y \<le> size_of E" using cur 1(2) by auto
  show ?case
    unfolding b prod.case
  proof (rule runs_bnd [where P = "goodBody E d p y"])
    show "runs (memo E N d) (body y) (goodBody E d p y)" using body y by (simp add: bodyOK_def)
  next
    fix r
    assume r: "goodBody E d p y r"
    then have ends: "set (Ends r) - {y} = progress E p y" by (auto simp: goodBody_def progress_def)
    have "goodFailure E d s (EFailure r)" using r y by (auto simp: goodBody_def intro: goodFailure_later)
    then have f: "runs (memo E N d) (Failure fl1 (EFailure r)) (goodFailure E d s)" using 1(3) b by (intro runs_Failure) auto
    obtain nx' ac' where e: "repeatEnds y enough (Ends r) (nx, ac1) = (nx', ac')" by fastforce
    show "runs (memo E N d) (bnd (Failure fl1 (EFailure r)) (\<lambda>fl'. case repeatEnds y enough (Ends r) (nx, ac1) of
        (nx', ac') \<Rightarrow> ret (nx', ac', fl'))) (\<lambda>(nx, ac', fl'). posInv nx \<and> posInv ac' \<and> posSet nx = (\<Union>y \<in> set (ys @ [y]). progress E p y) \<and>
        posSet ac' = posSet ac \<union> (if enough then (\<Union>y \<in> set (ys @ [y]). progress E p y) else {}) \<and> goodFailure E d s fl')"
      using 1(3) repeatEnds_sets [OF _ _ e] unfolding e b ends by (intro runs_bnd [OF f]) (auto intro!: runs_ret)
  qed
qed (use assms in \<open>auto simp: positions.inv_none positions.content_none\<close>)

lemma acceptedEnds_Suc:
  "acceptedEnds E p q null s (Suc l) =
   acceptedEnds E p q null s l \<union> (if null \<or> minOf q \<le> Suc l then layer E p s (Suc l) else {})"
  by (auto simp: acceptedEnds_def le_Suc_eq simp del: layer.simps(2))

lemma acceptedEnds_stop: "layer E p s l = {} \<Longrightarrow> acceptedEnds E p q null s (l + k) = acceptedEnds E p q null s l"
proof (induction k)
  case (Suc k)
  have "layer E p s (Suc (l + k)) = {}" by (rule layer_empty [OF Suc.prems]) simp
  with Suc show ?case by (simp add: acceptedEnds_Suc del: layer.simps(2))
qed simp

lemma layer_progress: "layer E p s (Suc l) = (\<Union>y \<in> layer E p s l. progress E p y)"
  by (auto simp: progress_def layer.simps(2))

lemma layer_inside: "s \<le> size_of E \<Longrightarrow> y \<in> layer E p s l \<Longrightarrow> s \<le> y \<and> y \<le> size_of E"
  using layer_range [of y E p s l] by (cases "l = 0") auto

lemma runs_repeatLoop:
  assumes body: "bodyOK E N d p body" and s: "s \<le> size_of E"
  shows "posInv ac \<Longrightarrow> posSet ac = acceptedEnds E p q null s l \<Longrightarrow> goodFailure E d s fl \<Longrightarrow>
    runs (memo E N d) (repeatLoop k E body null (minOf q) (Suc l) (orderedPositions (layer E p s l)) ac fl)
     (\<lambda>(current, ac', fl'). posInv ac' \<and> posSet ac' = acceptedEnds E p q null s (l + k) \<and> goodFailure E d s fl' \<and>
        (\<forall>y \<in> set current. s \<le> y \<and> y \<le> size_of E))"
proof (induction k arbitrary: l ac fl)
  case 0
  then show ?case using layer_inside [OF s] by (auto intro!: runs_ret)
next
  case (Suc k)
  show ?case
  proof (cases "layer E p s l = {}")
    case True
    then show ?thesis using Suc.prems acceptedEnds_stop [OF True, of q null "Suc k"] by (auto intro!: runs_ret)
  next
    case False
    let ?L = "\<Union>y \<in> set (orderedPositions (layer E p s l)). progress E p y"
    have L: "?L = layer E p s (Suc l)" by (simp add: layer_progress del: layer.simps(2))
    have lay: "runs (memo E N d) (repeatLayer body (null \<or> minOf q \<le> Suc l) (orderedPositions (layer E p s l)) ac fl)
       (\<lambda>(nx, ac', fl'). posInv nx \<and> posInv ac' \<and> posSet nx = ?L \<and>
          posSet ac' = posSet ac \<union> (if null \<or> minOf q \<le> Suc l then ?L else {}) \<and> goodFailure E d s fl')"
      using Suc.prems layer_inside [OF s] by (intro runs_repeatLayer [OF body]) auto
    have "runs (memo E N d) (bnd (ParticlePositionSet_Ordered E nx) (\<lambda>current'.
          repeatLoop k E body null (minOf q) (Suc (Suc l)) current' ac' fl'))
        (\<lambda>(current, ac', fl'). posInv ac' \<and> posSet ac' = acceptedEnds E p q null s (l + Suc k) \<and> goodFailure E d s fl' \<and>
        (\<forall>y \<in> set current. s \<le> y \<and> y \<le> size_of E))"
      if h: "posInv nx" "posInv ac'" "posSet nx = ?L" "posSet ac' = posSet ac \<union> (if null \<or> minOf q \<le> Suc l then ?L else {})"
        "goodFailure E d s fl'" for nx ac' fl'
    proof (rule runs_bnd [OF runs_Ordered])
      show "posSet nx \<subseteq> {..size_of E}" unfolding h(3) L using layer_inside [OF s] by blast
    next
      fix current'
      assume "current' = orderedPositions (posSet nx)"
      then have c: "current' = orderedPositions (layer E p s (Suc l))" using h(3) L by simp
      have "posSet ac' = acceptedEnds E p q null s (Suc l)" using h(4) [unfolded L] Suc.prems(2) by (simp add: acceptedEnds_Suc)
      from Suc.IH [OF h(2) this h(5)] show "runs (memo E N d) (repeatLoop k E body null (minOf q) (Suc (Suc l)) current' ac' fl')
        (\<lambda>(current, ac', fl'). posInv ac' \<and> posSet ac' = acceptedEnds E p q null s (l + Suc k) \<and> goodFailure E d s fl' \<and>
        (\<forall>y \<in> set current. s \<le> y \<and> y \<le> size_of E))" unfolding c by simp
    qed (rule h(1))
    then show ?thesis using False by (auto intro!: runs_bnd [OF lay])
  qed
qed

section \<open>Particles\<close>

definition ready :: "matchEnv \<Rightarrow> (nat \<Rightarrow> bool option) \<Rightarrow> bool" where
  "ready E N \<longleftrightarrow> cacheOK E N \<and> allOutermost E \<and> None \<notin> set (nodes E)"

lemma occEnds_loop:
  assumes "ready E N" "N p = Some b" "particleAt E p = Some q" "s \<le> size_of E"
    and "pKind q = ParticleAll \<longrightarrow> minOf q = 0"
  shows "occEnds E p s = acceptedEnds E p q b s (particleLimit E q s)"
proof -
  have cache: "cacheOK E N" "allOutermost E" using assms(1) by (simp_all add: ready_def)
  note node = cacheOK_node [OF cache(1) assms(2,3)]
  have wf: "wellFormed E p" using cache(1) assms(2) by (auto simp: cacheOK_def)
  have occ: "unboundedOf q \<or> minOf q \<le> maxOf q" using node(1) by (simp add: nodeOK_def)
  show ?thesis
  proof (cases "pKind q = ParticleAll")
    case True
    with assms(5) all_empty_nullable [OF cache(1) assms(2,3) True] show ?thesis
      by (intro occEnds_accepted [OF assms(3) occ assms(4)]) auto
  next
    case False
    from nullable_exact [OF cache wf assms(2,3) False] show ?thesis
      by (intro occEnds_accepted [OF assms(3) occ assms(4)]) blast+
  qed
qed

lemma start_accepted:
  "acceptedEnds E p q null s 0 = (if minOf q = 0 \<or> null then {s} else {})"
  by (auto simp: acceptedEnds_def)

lemma runs_failures:
  assumes body: "bodyOK E N d p body" and "\<forall>y \<in> set current. s \<le> y \<and> y \<le> size_of E" "goodFailure E d s fl"
  shows "runs (memo E N d) (each (\<lambda>position fl. bnd (body position) (\<lambda>r. Failure fl (EFailure r))) current fl) (goodFailure E d s)"
proof (rule runs_each [where P = "\<lambda>ys. goodFailure E d s"])
  fix ys y b
  assume "y \<in> set current" and b: "goodFailure E d s b"
  then have y: "s \<le> y" "y \<le> size_of E" using assms(2) by auto
  show "runs (memo E N d) (bnd (body y) (\<lambda>r. Failure b (EFailure r))) (goodFailure E d s)"
  proof (rule runs_bnd [where P = "goodBody E d p y"])
    show "runs (memo E N d) (body y) (goodBody E d p y)" using body y by (simp add: bodyOK_def)
    show "runs (memo E N d) (Failure b (EFailure r)) (goodFailure E d s)" if "goodBody E d p y r" for r
      using that b y by (intro runs_Failure) (auto simp: goodBody_def intro: goodFailure_later)
  qed
qed (rule assms(3))

lemma acceptedEnds_inside: "s \<le> size_of E \<Longrightarrow> acceptedEnds E p q null s l \<subseteq> {..size_of E}"
  by (auto simp: acceptedEnds_def dest: layer_inside [rotated])

lemma memo_particles: "memo E N d m \<Longrightarrow> goodMatch E d p s r \<Longrightarrow> memo E N d (mParticles_update (\<lambda>t. t((p, s) := Some r)) m)"
  by (auto simp: memo_def)

lemma memo_bodies: "memo E N d m \<Longrightarrow> goodBody E d p s r \<Longrightarrow> memo E N d (mBodies_update (\<lambda>t. t((p, s) := Some r)) m)"
  by (auto simp: memo_def)

lemma runs_matchRepeated:
  assumes ok: "ready E N" "N p = Some b" "particleAt E p = Some q" and s: "s \<le> size_of E"
    and body: "bodyOK E N d p body" and exact: "\<not> d \<longrightarrow> pKind q = ParticleAll \<longrightarrow> minOf q = 0"
  shows "runs (memo E N d) (matchRepeated body E p q s) (goodMatch E d p s)"
proof -
  let ?I = "memo E N d"
  define ac where "ac = (if minOf q = 0 \<or> b then ParticlePositionSet_add s noPositions else noPositions)"
  define A where "A = acceptedEnds E p q b s (particleLimit E q s)"
  have ac: "posInv ac" "posSet ac = acceptedEnds E p q b s 0"
    by (auto simp: ac_def start_accepted positions.inv_add positions.inv_none positions.content_add positions.content_none)
  have loop: "runs ?I (repeatLoop (particleLimit E q s) E body b (minOf q) 1 [s] ac fl)
      (\<lambda>(current, ac', fl'). posInv ac' \<and> posSet ac' = A \<and> goodFailure E d s fl' \<and> (\<forall>y \<in> set current. s \<le> y \<and> y \<le> size_of E))"
    if "goodFailure E d s fl" for fl
    using runs_repeatLoop [OF body s ac that, of "particleLimit E q s"] by (simp add: A_def)
  have extra: "runs ?I (if \<not> psHasFirst ac' \<and> (unboundedOf q \<or> 0 < maxOf q)
      then bnd (body s) (\<lambda>r. bnd (Failure fl (EFailure r)) (\<lambda>fl.
         each (\<lambda>position fl. bnd (body position) (\<lambda>r. Failure fl (EFailure r))) current fl)) else ret fl) (goodFailure E d s)"
    if "goodFailure E d s fl" "\<forall>y \<in> set current. s \<le> y \<and> y \<le> size_of E" for ac' fl current
  proof -
    have b: "runs ?I (body s) (goodBody E d p s)" using body s by (simp add: bodyOK_def)
    have f: "runs ?I (Failure fl (EFailure r)) (goodFailure E d s)" if "goodBody E d p s r" for r
      using that \<open>goodFailure E d s fl\<close> by (intro runs_Failure) (auto simp: goodBody_def)
    show ?thesis using that by (auto intro!: runs_ret runs_bnd [OF b] runs_bnd [OF f] runs_failures [OF body])
  qed
  have good: "goodMatch E d p s \<lparr> Ends = orderedPositions A, EFailure = fl \<rparr>" if "goodFailure E d s fl" for fl
  proof -
    have "occEnds E p s = A" if "\<not> (d \<and> pKind q = ParticleAll)"
      unfolding A_def by (rule occEnds_loop [OF ok s]) (use that exact in blast)
    with that ok(3) show ?thesis by (auto simp: goodMatch_def)
  qed
  have final: "runs ?I (bnd (ParticlePositionSet_Ordered E ac') (\<lambda>ends. let result = \<lparr> Ends = ends, EFailure = fl \<rparr>
       in bnd (upd (mParticles_update (\<lambda>t. t((p, s) := Some result)))) (\<lambda>_. ret result))) (goodMatch E d p s)"
    if "posInv ac'" "posSet ac' = A" "goodFailure E d s fl" for ac' fl
  proof (rule runs_bnd [OF runs_Ordered [OF that(1)]])
    show "posSet ac' \<subseteq> {..size_of E}" unfolding that(2) A_def by (rule acceptedEnds_inside [OF s])
    fix ends
    assume "ends = orderedPositions (posSet ac')"
    then have g: "goodMatch E d p s \<lparr> Ends = ends, EFailure = fl \<rparr>" using good [OF that(3)] that(2) by simp
    show "runs ?I (let result = \<lparr> Ends = ends, EFailure = fl \<rparr>
       in bnd (upd (mParticles_update (\<lambda>t. t((p, s) := Some result)))) (\<lambda>_. ret result)) (goodMatch E d p s)"
      unfolding Let_def using g memo_particles [OF _ g]
      by (intro runs_bnd [where P = "\<lambda>_. True"] runs_upd runs_ret) auto
  qed
  show ?thesis
    unfolding matchRepeated_def
  proof (rule runs_bnd [OF runs_InitialFailure [OF s]])
    fix fl
    assume fl: "goodFailure E d s fl"
    show "runs ?I (bnd (get mNullable) (\<lambda>N. let nullable = (N p = Some True);
           accepted = (if minOf q = 0 \<or> nullable then ParticlePositionSet_add s noPositions else noPositions)
       in bnd (repeatLoop (particleLimit E q s) E body nullable (minOf q) 1 [s] accepted fl)
            (\<lambda>(current, accepted, fl).
          bnd (if \<not> psHasFirst accepted \<and> (unboundedOf q \<or> 0 < maxOf q)
               then bnd (body s) (\<lambda>r. bnd (Failure fl (EFailure r)) (\<lambda>fl.
                 each (\<lambda>position fl. bnd (body position) (\<lambda>r. Failure fl (EFailure r))) current fl))
               else ret fl) (\<lambda>fl.
          bnd (ParticlePositionSet_Ordered E accepted) (\<lambda>ends.
          let result = \<lparr> Ends = ends, EFailure = fl \<rparr>
          in bnd (upd (mParticles_update (\<lambda>t. t((p, s) := Some result)))) (\<lambda>_. ret result)))))) (goodMatch E d p s)"
      by (rule runs_get_known, simp only: ok(2) Let_def option.inject eq_True ac_def [symmetric],
          rule runs_bnd [OF loop [OF fl]], auto intro!: runs_bnd [OF extra] final [unfolded Let_def])
  qed
qed

text \<open>At most one occurrence.\<close>

lemma repeats_one: "repeats E p (Suc 0) s e w \<longleftrightarrow> derives E p s e w"
  using r_more [OF _ r_none, of E p s e w] by (auto elim!: repeats_SucE repeats_0E)

lemma repeats_zero: "repeats E p 0 s e w \<longleftrightarrow> e = s \<and> w = []"
  by (auto elim: repeats_0E intro: r_none)

lemma occurs_bounded:
  assumes "particleAt E p = Some q" "\<not> unboundedOf q"
  shows "occurs E p s e w \<longleftrightarrow> (\<exists>k. minOf q \<le> k \<and> k \<le> maxOf q \<and> repeats E p k s e w)"
  using assms by (auto elim!: occursE intro: o_times)

lemma occEnds_few:
  assumes "particleAt E p = Some q" "\<not> unboundedOf q"
  shows "minOf q = 1 \<Longrightarrow> maxOf q = 1 \<Longrightarrow> occEnds E p s = bodyEnds E p s"
    and "minOf q = 0 \<Longrightarrow> maxOf q = 0 \<Longrightarrow> occEnds E p s = {s}"
    and "minOf q = 0 \<Longrightarrow> maxOf q = 1 \<Longrightarrow> occEnds E p s = insert s (bodyEnds E p s)"
proof -
  have two: "k \<le> Suc 0 \<longleftrightarrow> k = 0 \<or> k = Suc 0" for k by auto
  show "minOf q = 1 \<Longrightarrow> maxOf q = 1 \<Longrightarrow> occEnds E p s = bodyEnds E p s"
    using le_antisym [of "Suc 0"]
    by (auto simp: occEnds_def bodyEnds_def occurs_bounded [OF assms] simp flip: repeats_one)
  show "minOf q = 0 \<Longrightarrow> maxOf q = 0 \<Longrightarrow> occEnds E p s = {s}"
    by (auto simp: occEnds_def occurs_bounded [OF assms] repeats_zero)
  show "minOf q = 0 \<Longrightarrow> maxOf q = 1 \<Longrightarrow> occEnds E p s = insert s (bodyEnds E p s)"
    by (auto simp: occEnds_def bodyEnds_def occurs_bounded [OF assms] two repeats_zero repeats_one conj_disj_distribR ex_disj_distrib)
qed

lemma terminal_ends:
  assumes "particleAt E p = Some q" "pKind q = ParticleElement \<or> pKind q = ParticleAny"
  shows "bodyEnds E p s = {} \<or> bodyEnds E p s = {Suc s} \<and> s < size_of E"
  using assms(2) by (auto simp: bodyEnds_def derives_element [OF assms(1)] derives_any [OF assms(1)])

definition sharesArray :: "(nat \<Rightarrow> ParticleEndpoints act) \<Rightarrow> bool" where
  "sharesArray body \<longleftrightarrow> (\<forall>s m r m'. body s m = Some (r, m') \<longrightarrow> \<not> mDiagnostics m \<longrightarrow> Ends r \<noteq> [] \<longrightarrow> mSingletons m' \<noteq> None)"

lemma goodMatchI:
  "particleAt E p = Some q \<Longrightarrow> Ends r = orderedPositions (occEnds E p s) \<Longrightarrow> goodFailure E d s (EFailure r) \<Longrightarrow> goodMatch E d p s r"
  by (simp add: goodMatch_def)

lemma runs_optional:
  assumes q: "particleAt E p = Some q" "pKind q = ParticleElement \<or> pKind q = ParticleAny"
    and occ: "\<not> unboundedOf q" "minOf q = 0" "maxOf q = 1" and s: "s \<le> size_of E"
    and body: "bodyOK E N False p body" and share: "sharesArray body"
  shows "runs (memo E N False) (bnd (body s) (\<lambda>result.
      if Ends result = [] then bnd (Singleton E s) (\<lambda>ends. ret (result\<lparr>Ends := ends\<rparr>))
      else if size_of E \<le> s then panic
      else bnd (viewSingletons (size_of E - s - 1) 2) (\<lambda>ends. ret (result\<lparr>Ends := ends\<rparr>)))) (goodMatch E False p s)"
    (is "runs ?I ?x ?Q")
  unfolding runs_def
proof (intro allI impI)
  fix m
  assume m: "?I m"
  obtain r m' where r: "body s m = Some (r, m')" "?I m'" "goodBody E False p s r"
    using body s m by (auto simp: bodyOK_def dest!: spec [of _ s] runsD)
  have occs: "occEnds E p s = insert s (bodyEnds E p s)" using occEnds_few(3) [OF q(1) occ] .
  show "\<exists>a m''. ?x m = Some (a, m'') \<and> ?I m'' \<and> ?Q a"
  proof (cases "Ends r = []")
    case True
    with r(3) have "bodyEnds E p s = {}" by (simp add: goodBody_def eq_commute [of "[]"])
    with occs have "goodMatch E False p s (r\<lparr>Ends := [s]\<rparr>)" by (intro goodMatchI [OF q(1)]) (simp_all add: goodFailure_def)
    with runsD [OF runs_Singleton [OF s] r(2)] True r(1) show ?thesis by (auto simp: bnd_def ret_def)
  next
    case False
    with r(3) terminal_ends [OF q, of s] have e: "bodyEnds E p s = {Suc s}" "s < size_of E" by (auto simp: goodBody_def)
    have "mSingletons m' \<noteq> None" using share r(1) m False unfolding sharesArray_def memo_def by blast
    with r(2) have "mSingletons m' = Some (singletonArray E)" by (auto simp: memo_def)
    moreover have "take 2 (drop (size_of E - s - 1) (singletonArray E)) = [Suc s, s]"
      using e(2) by (simp add: singletonArray_nth numeral_2_eq_2 Suc_diff_Suc)
    moreover have "size_of E - s - 1 + 2 \<le> length (singletonArray E)" using e(2) by (simp add: singletonArray_def)
    moreover have "goodMatch E False p s (r\<lparr>Ends := [Suc s, s]\<rparr>)"
      using occs e(1) by (intro goodMatchI [OF q(1)]) (simp_all add: goodFailure_def)
    ultimately show ?thesis using False e(2) r(1,2) by (simp add: bnd_def ret_def viewSingletons_def)
  qed
qed

lemma runs_Match:
  assumes ok: "ready E N" "N p = Some b" "particleAt E p = Some q" and s: "s \<le> size_of E"
    and body: "bodyOK E N d p (B p)"
    and share: "pKind q = ParticleElement \<or> pKind q = ParticleAny \<Longrightarrow> sharesArray (B p)"
  shows "runs (memo E N d) (Match B E p s) (goodMatch E d p s)"
proof -
  have cache: "cacheOK E N" using ok(1) by (simp add: ready_def)
  have node: "nodeOK E q" by (rule cacheOK_node(1) [OF cache ok(2,3)])
  then have occ: "unboundedOf q \<or> minOf q \<le> maxOf q" by (simp add: nodeOK_def)
  have run: "runs (memo E N d) (B p s) (goodBody E d p s)" using body s by (simp add: bodyOK_def)
  show ?thesis
    unfolding Match_def ok(3) option.case
  proof (rule runs_get_known)
    consider (once) "\<not> d \<and> \<not> unboundedOf q \<and> minOf q = 1 \<and> maxOf q = 1"
      | (opt) "\<not> d \<and> \<not> unboundedOf q \<and> maxOf q \<le> 1 \<and> minOf q = 0" "pKind q = ParticleElement \<or> pKind q = ParticleAny"
      | (loop) "\<not> (\<not> d \<and> \<not> unboundedOf q \<and> minOf q = 1 \<and> maxOf q = 1)"
        "\<not> (\<not> d \<and> \<not> unboundedOf q \<and> maxOf q \<le> 1 \<and> (pKind q = ParticleElement \<or> pKind q = ParticleAny))"
      using occ by linarith
    then show "runs (memo E N d)
       (if \<not> d \<and> \<not> unboundedOf q \<and> minOf q = 1 \<and> maxOf q = 1 then B p s
        else if \<not> d \<and> \<not> unboundedOf q \<and> maxOf q \<le> 1 \<and> (pKind q = ParticleElement \<or> pKind q = ParticleAny) then
            (if maxOf q = 0 then bnd (Singleton E s) (\<lambda>ends. ret \<lparr> Ends = ends, EFailure = None \<rparr>)
             else bnd (B p s) (\<lambda>result.
               if Ends result = [] then bnd (Singleton E s) (\<lambda>ends. ret (result\<lparr>Ends := ends\<rparr>))
               else if size_of E \<le> s then panic
               else bnd (viewSingletons (size_of E - s - 1) 2) (\<lambda>ends. ret (result\<lparr>Ends := ends\<rparr>))))
        else bnd (get mParticles) (\<lambda>t. case t (p, s) of Some cached \<Rightarrow> ret cached
            | None \<Rightarrow> matchRepeated (B p) E p q s)) (goodMatch E d p s)"
    proof cases
      case once
      then show ?thesis
        using runs_weaken [OF run] occEnds_few(1) [OF ok(3)] by (auto simp: goodBody_def goodMatch_def)
    next
      case opt
      show ?thesis
      proof (cases "maxOf q = 0")
        case True
        with opt occEnds_few(2) [OF ok(3)] have "goodMatch E d p s \<lparr> Ends = [s], EFailure = None \<rparr>"
          by (intro goodMatchI [OF ok(3)]) (simp_all add: goodFailure_def)
        with True opt show ?thesis by (auto intro!: runs_bnd [OF runs_Singleton [OF s]] runs_ret)
      next
        case False
        then have "maxOf q = 1" using opt by simp
        with opt runs_optional [OF ok(3) opt(2) _ _ _ s, of N "B p"] body share show ?thesis by simp
      qed
    next
      case loop
      have "\<not> d \<longrightarrow> pKind q = ParticleAll \<longrightarrow> minOf q = 0"
        using loop(1) node by (auto simp: nodeOK_def)
      note rep = runs_matchRepeated [OF ok s body this]
      show ?thesis
        unfolding if_not_P [OF loop(1)] if_not_P [OF loop(2)]
      proof (rule runs_get)
        fix m
        assume "memo E N d m"
        then show "runs (memo E N d) (case mParticles m (p, s) of Some cached \<Rightarrow> ret cached
            | None \<Rightarrow> matchRepeated (B p) E p q s) (goodMatch E d p s)"
          using rep by (auto simp: memo_def intro: runs_ret split: option.split)
      qed
    qed
  qed
qed

section \<open>All groups\<close>

definition membersResolve :: "matchEnv \<Rightarrow> nat list \<Rightarrow> bool" where
  "membersResolve E cs \<longleftrightarrow> (\<forall>c \<in> set cs. particleAt E c \<noteq> None \<and> declOf E c \<noteq> None)"

definition marks :: "nat list \<Rightarrow> nat list \<Rightarrow> bool list" where
  "marks cs ks = map (\<lambda>i. i \<in> set ks) [0..<length cs]"

lemma marks_nth [simp]: "i < length cs \<Longrightarrow> marks cs ks ! i \<longleftrightarrow> i \<in> set ks"
  by (simp add: marks_def)

lemma marks_snoc: "i < length cs \<Longrightarrow> (marks cs ks)[i := True] = marks cs (ks @ [i])"
  by (rule nth_equalityI) (auto simp: marks_def nth_list_update split: if_splits)

lemma allFind_exact:
  assumes "membersResolve E cs" "nodes E ! j = Some name"
  shows "i \<le> length cs \<Longrightarrow>
    (case allFind E (drop i cs) (marks cs ks) i name of
       None \<Rightarrow> False
     | Some None \<Rightarrow> (\<forall>k. i \<le> k \<longrightarrow> k < length cs \<longrightarrow> k \<in> set ks \<or> \<not> fits E (cs ! k) j)
     | Some (Some (k, e)) \<Rightarrow> k < length cs \<and> k \<notin> set ks \<and> fits E (cs ! k) j \<and> declOf E (cs ! k) = Some e)"
proof (induction "length cs - i" arbitrary: i)
  case 0
  then show ?case by simp
next
  case (Suc n)
  then have i: "i < length cs" by simp
  obtain child e where c: "particleAt E (cs ! i) = Some child" "declOf E (cs ! i) = Some e" "ResolveElement E (pElement child) = Some e"
    using assms(1) i by (auto simp: membersResolve_def declOf_def dest!: bspec [of _ _ "cs ! i"])
  have fit: "fits E (cs ! i) j \<longleftrightarrow> maxOf child \<noteq> 0 \<and> name = eName e"
    using c assms(2) by (auto simp: fits_def isActive_def)
  have ih: "case allFind E (drop (Suc i) cs) (marks cs ks) (Suc i) name of
       None \<Rightarrow> False
     | Some None \<Rightarrow> (\<forall>k. Suc i \<le> k \<longrightarrow> k < length cs \<longrightarrow> k \<in> set ks \<or> \<not> fits E (cs ! k) j)
     | Some (Some (k, e)) \<Rightarrow> k < length cs \<and> k \<notin> set ks \<and> fits E (cs ! k) j \<and> declOf E (cs ! k) = Some e"
    using Suc.hyps i by (intro Suc.hyps(1)) auto
  have step: "allFind E (drop i cs) (marks cs ks) i name =
      (if i \<notin> set ks \<and> fits E (cs ! i) j then Some (Some (i, e)) else allFind E (drop (Suc i) cs) (marks cs ks) (Suc i) name)"
    using i c fit by (auto simp: Cons_nth_drop_Suc [symmetric])
  show ?case
  proof (cases "i \<notin> set ks \<and> fits E (cs ! i) j")
    case True
    then show ?thesis unfolding step using i c by simp
  next
    case False
    have "k \<in> set ks \<or> \<not> fits E (cs ! k) j" if "i \<le> k" "k < length cs"
      "\<forall>k. Suc i \<le> k \<longrightarrow> k < length cs \<longrightarrow> k \<in> set ks \<or> \<not> fits E (cs ! k) j" for k
      using that False by (cases "k = i") auto
    then show ?thesis unfolding step if_not_P [OF False] using ih
      by (cases "allFind E (drop (Suc i) cs) (marks cs ks) (Suc i) name") (auto split: option.splits)
  qed
qed

lemma allTakes_snoc:
  assumes "allTakes E cs s ks" "s + length ks < size_of E" "k < length cs" "k \<notin> set ks" "fits E (cs ! k) (s + length ks)"
  shows "allTakes E cs s (ks @ [k])"
  using assms by (auto simp: allTakes_def nth_append less_Suc_eq)

lemma allMatches_snoc:
  "allMatches E cs s (ks @ [k]) =
   allMatches E cs s ks @ [\<lparr> emParticle = cs ! k, emIndex = s + length ks, emSchema = declOf E (cs ! k) \<rparr>]"
  by (auto simp: allMatches_def nth_append intro!: map_cong)

lemma allLoop_exact:
  assumes res: "membersResolve E cs" and present: "None \<notin> set (nodes E)"
  shows "allTakes E cs s ks \<Longrightarrow> k = size_of E - (s + length ks) \<Longrightarrow>
    \<exists>ks'. allLoop k E cs (marks cs ks) (s + length ks) (els @ allMatches E cs s ks) =
        Some (marks cs ks', s + length ks', els @ allMatches E cs s ks') \<and> allTakes E cs s ks' \<and> allStops E cs s ks'"
proof (induction k arbitrary: ks)
  case 0
  then have "s + length ks = size_of E" by (simp add: allTakes_def)
  with 0 show ?case by (auto simp: allStops_def)
next
  case (Suc k)
  let ?j = "s + length ks"
  have j: "?j < size_of E" using Suc.prems(2) by linarith
  then obtain name where name: "nodes E ! ?j = Some name" using present by (metis not_None_eq nth_mem)
  note found = allFind_exact [OF res name, of 0 ks]
  show ?case
  proof (cases "allFind E cs (marks cs ks) 0 name")
    case None
    with found show ?thesis by simp
  next
    case (Some r)
    show ?thesis
    proof (cases r)
      case None
      with Some found Suc.prems(1) name show ?thesis by (auto simp: allStops_def)
    next
      case (Some ke)
      then obtain i e where ke: "r = Some (i, e)" by (cases ke) auto
      with \<open>allFind E cs (marks cs ks) 0 name = Some r\<close> found
      have i: "i < length cs" "i \<notin> set ks" "fits E (cs ! i) ?j" "declOf E (cs ! i) = Some e" by auto
      have t: "allTakes E cs s (ks @ [i])" using allTakes_snoc [OF Suc.prems(1) j i(1-3)] .
      have "k = size_of E - (s + length (ks @ [i]))" using Suc.prems(2) by simp
      from Suc.IH [OF t this] obtain ks' where
        "allLoop k E cs (marks cs (ks @ [i])) (s + length (ks @ [i])) (els @ allMatches E cs s (ks @ [i])) =
           Some (marks cs ks', s + length ks', els @ allMatches E cs s ks') \<and> allTakes E cs s ks' \<and> allStops E cs s ks'" by auto
      with name \<open>allFind E cs (marks cs ks) 0 name = Some r\<close> ke i show ?thesis
        by (auto simp: marks_snoc allMatches_snoc)
    qed
  qed
qed

lemma allMissing_exact:
  assumes "membersResolve E cs"
  shows "i \<le> length cs \<Longrightarrow> \<exists>names. allMissing E d (drop i cs) (marks cs ks) i (missing, expected) =
    Some (missing \<or> (\<exists>k. i \<le> k \<and> k < length cs \<and> k \<notin> set ks \<and> isRequired E (cs ! k)), names)"
proof (induction "length cs - i" arbitrary: i missing expected)
  case (Suc n)
  then have i: "i < length cs" by simp
  obtain child e where c: "particleAt E (cs ! i) = Some child" "ResolveElement E (pElement child) = Some e"
    using assms i by (auto simp: membersResolve_def declOf_def dest!: bspec [of _ _ "cs ! i"])
  have req: "isRequired E (cs ! i) \<longleftrightarrow> 0 < minOf child" using c by (simp add: isRequired_def)
  have split: "(\<exists>k. i \<le> k \<and> k < length cs \<and> k \<notin> set ks \<and> isRequired E (cs ! k)) \<longleftrightarrow>
      (i \<notin> set ks \<and> isRequired E (cs ! i)) \<or> (\<exists>k. Suc i \<le> k \<and> k < length cs \<and> k \<notin> set ks \<and> isRequired E (cs ! k))"
    using i by (metis Suc_leD Suc_leI le_neq_implies_less order_refl)
  define later where "later = (\<exists>k. Suc i \<le> k \<and> k < length cs \<and> k \<notin> set ks \<and> isRequired E (cs ! k))"
  have ih: "\<exists>names. allMissing E d (drop (Suc i) cs) (marks cs ks) (Suc i) (mi, ex) = Some (mi \<or> later, names)" for mi ex
    unfolding later_def using Suc.hyps(1) [of "Suc i" mi ex] Suc.hyps(2) i by simp
  show ?case
    unfolding split later_def [symmetric] req
    using i c req ih [of True "expected @ [eName e]"] ih [of True expected] ih [of missing expected]
    by (cases "i \<notin> set ks \<and> 0 < minOf child") (auto simp: Cons_nth_drop_Suc [symmetric])
qed auto

lemma distinct_filter_index:
  "distinct (filter P xs) \<Longrightarrow> a < length xs \<Longrightarrow> b < length xs \<Longrightarrow> P (xs ! a) \<Longrightarrow> xs ! a = xs ! b \<Longrightarrow> a = b"
proof (induction xs arbitrary: a b)
  case (Cons x xs)
  have no: False if "P x" "c < length xs" "xs ! c = x" for c
  proof -
    have "x \<in> set (filter P xs)" using that nth_mem [of c xs] by auto
    with Cons.prems(1) that(1) show False by simp
  qed
  have d: "distinct (filter P xs)" using Cons.prems(1) by (auto split: if_splits)
  show ?case
  proof (cases a; cases b)
    fix a' b' assume "a = Suc a'" "b = Suc b'"
    with Cons.IH [OF d, of a' b'] Cons.prems show ?thesis by auto
  qed (use no Cons.prems in auto)
qed simp

lemma fits_unique:
  assumes "distinct (activeNames E cs)" "a < length cs" "b < length cs" "fits E (cs ! a) j" "fits E (cs ! b) j"
  shows "a = b"
proof -
  have dis: "distinct (filter (isActive E) cs)" "inj_on (\<lambda>c. eName (the (declOf E c))) (set (filter (isActive E) cs))"
    using assms(1) by (simp_all add: activeNames_def distinct_map)
  have "cs ! a \<in> set (filter (isActive E) cs)" "cs ! b \<in> set (filter (isActive E) cs)"
    "eName (the (declOf E (cs ! a))) = eName (the (declOf E (cs ! b)))"
    using assms(2-5) by (auto simp: fits_def)
  then have "cs ! a = cs ! b" using dis(2) by (auto dest: inj_onD)
  with distinct_filter_index [OF dis(1) assms(2,3)] assms(4) show ?thesis by (simp add: fits_def)
qed

text \<open>With distinct names the run through an all group is determined.\<close>

lemma all_prefix:
  assumes "distinct (activeNames E cs)" "allTakes E cs s ks" "allTakes E cs s ks'" "allStops E cs s ks'"
  shows "length ks \<le> length ks' \<and> ks = take (length ks) ks'"
proof -
  have same: "ks ! j = ks' ! j" if "j < length ks" "j < length ks'" for j
    using that assms(2,3) fits_unique [OF assms(1), of "ks ! j" "ks' ! j" "s + j"] by (auto simp: allTakes_def)
  have "length ks \<le> length ks'"
  proof (rule ccontr)
    assume "\<not> length ks \<le> length ks'"
    then have l: "length ks' < length ks" by simp
    with assms(2) have k: "ks ! length ks' < length cs" "fits E (cs ! (ks ! length ks')) (s + length ks')"
      and n: "s + length ks' < size_of E" by (auto simp: allTakes_def)
    have pre: "ks' = take (length ks') ks" using same l by (auto intro!: nth_equalityI)
    have "ks ! length ks' \<in> set ks'" using assms(4) k n by (auto simp: allStops_def)
    then obtain i where "i < length ks'" "ks ! length ks' = ks ! i" using pre by (metis in_set_conv_nth nth_take)
    with l assms(2) show False by (auto simp: allTakes_def nth_eq_iff_index_eq)
  qed
  with same show ?thesis by (auto intro!: nth_equalityI)
qed

lemma all_unique:
  assumes "distinct (activeNames E cs)" "allTakes E cs s ks" "allStops E cs s ks" "allTakes E cs s ks'" "allStops E cs s ks'"
  shows "ks = ks'"
  using all_prefix [OF assms(1,2,4,5)] all_prefix [OF assms(1,4,2,3)] by (metis le_antisym take_all_iff)

lemma allMatch_exact:
  assumes q: "particleAt E p = Some q" "pKind q = ParticleAll" "nodeOK E q" and res: "membersResolve E (pChildren q)"
    and present: "None \<notin> set (nodes E)" and s: "s \<le> size_of E"
  shows "\<exists>ks names. allMatch E q s els m = Some ((s + length ks, \<lparr> mfSchema = [], mfPosition = s + length ks, mfExpected = names \<rparr>,
      (\<exists>e w. derives E p s e w), els @ allMatches E (pChildren q) s ks), m) \<and> s + length ks \<le> size_of E \<and>
    (\<forall>e w. derives E p s e w \<longrightarrow> e = s + length ks \<and> w = allMatches E (pChildren q) s ks)"
proof -
  let ?cs = "pChildren q"
  have nil: "allTakes E ?cs s []" using s by (simp add: allTakes_def)
  have "marks ?cs [] = replicate (length ?cs) False" by (simp add: marks_def map_replicate_const)
  with allLoop_exact [OF res present nil, of "size_of E - s" els] obtain ks where
    loop: "allLoop (size_of E - s) E ?cs (replicate (length ?cs) False) s els = Some (marks ?cs ks, s + length ks, els @ allMatches E ?cs s ks)"
    and ks: "allTakes E ?cs s ks" "allStops E ?cs s ks" by (auto simp: allMatches_def)
  obtain names where miss: "allMissing E (mDiagnostics m) ?cs (marks ?cs ks) 0 (False, []) =
      Some ((\<exists>k < length ?cs. k \<notin> set ks \<and> isRequired E (?cs ! k)), names)"
    using allMissing_exact [OF res, of 0 "mDiagnostics m" ks False "[]"] by auto
  have dis: "distinct (activeNames E ?cs)" using q(2,3) by (simp add: nodeOK_def)
  have der: "derives E p s e w \<longleftrightarrow> e = s + length ks \<and> w = allMatches E ?cs s ks \<and>
      \<not> (\<exists>k < length ?cs. k \<notin> set ks \<and> isRequired E (?cs ! k))" for e w
    unfolding derives_all [OF q(1,2)] using all_unique [OF dis _ _ ks] ks by blast
  then have "(\<exists>e w. derives E p s e w) \<longleftrightarrow> \<not> (\<exists>k < length ?cs. k \<notin> set ks \<and> isRequired E (?cs ! k))" by simp
  with loop miss der ks(1) show ?thesis
    by (auto simp: allMatch_def bnd_def get_def ret_def allTakes_def intro!: exI [of _ ks])
qed

section \<open>Bodies\<close>

definition matchOK :: "matchEnv \<Rightarrow> (nat \<Rightarrow> bool option) \<Rightarrow> bool \<Rightarrow> nat \<Rightarrow> (nat \<Rightarrow> ParticleEndpoints act) \<Rightarrow> bool" where
  "matchOK E N d c f \<longleftrightarrow> (\<forall>y \<le> size_of E. runs (memo E N d) (f y)
     (\<lambda>r. Ends r = orderedPositions (occEnds E c y) \<and> goodFailure E d y (EFailure r)))"

lemma goodBodyI: "Ends r = orderedPositions (bodyEnds E p s) \<Longrightarrow> goodFailure E d s (EFailure r) \<Longrightarrow> goodBody E d p s r"
  by (simp add: goodBody_def)

lemma runs_view: "s < size_of E \<Longrightarrow> goodBody E d p s \<lparr> Ends = [Suc s], EFailure = fl \<rparr> \<Longrightarrow>
    runs (memo E N d) (bnd (Singleton E (Suc s)) (\<lambda>ends. ret \<lparr> Ends = ends, EFailure = fl \<rparr>)) (goodBody E d p s)"
  by (rule runs_bnd [OF runs_Singleton]) (auto intro: runs_ret)

lemma runs_bodyElement:
  assumes q: "particleAt E p = Some q" "pKind q = ParticleElement" "nodeOK E q" and present: "None \<notin> set (nodes E)"
    and fl: "goodFailure E d s fl"
  shows "runs (memo E N d) (bodyElement E q s d fl) (goodBody E d p s)"
proof -
  obtain e where e: "ResolveElement E (pElement q) = Some e" using q by (auto simp: nodeOK_def)
  have ends: "bodyEnds E p s = (if s < size_of E \<and> nodes E ! s = Some (eName e) then {Suc s} else {})"
    by (auto simp: bodyEnds_def derives_element [OF q(1,2)] e)
  have here: "s < size_of E \<Longrightarrow> nodes E ! s \<noteq> None" using present by (metis nth_mem)
  have "goodFailure E d s (if d then map_option (mfExpected_update (\<lambda>_. [eName e])) fl else fl)"
    using fl by (auto simp: goodFailure_def)
  then show ?thesis
    unfolding bodyElement_def e option.case using here fl
    by (auto simp: ends intro!: runs_view runs_ret goodBodyI)
qed

lemma runs_bodyAny:
  assumes q: "particleAt E p = Some q" "pKind q = ParticleAny" "nodeOK E q" and present: "None \<notin> set (nodes E)"
    and fl: "goodFailure E d s fl"
  shows "runs (memo E N d) (bodyAny E q s fl) (goodBody E d p s)"
proof -
  obtain w where w: "pAny q = Some w" using q by (auto simp: nodeOK_def)
  show ?thesis
  proof (cases "s < size_of E")
    case True
    then obtain name where name: "nodes E ! s = Some name" using present by (metis not_None_eq nth_mem)
    have "bodyEnds E p s = (if \<not> localRun E \<or> allowed (wildcardNamespace (uriOK E) (wNamespace w) (Space name)) then {Suc s} else {})"
      using True by (auto simp: bodyEnds_def derives_any [OF q(1,2)] w name)
    then show ?thesis
      unfolding bodyAny_def w name using True fl by (auto intro!: runs_view runs_ret goodBodyI)
  next
    case False
    then have "bodyEnds E p s = {}" by (auto simp: bodyEnds_def derives_any [OF q(1,2)])
    with False fl show ?thesis by (auto simp: bodyAny_def intro!: runs_ret goodBodyI)
  qed
qed

lemma runs_collect:
  assumes "runs (memo E N d) x (\<lambda>r. Ends r = orderedPositions S \<and> goodFailure E d y (EFailure r))" "finite S" "s \<le> y"
    and "posInv ends" "goodFailure E d s fl"
  shows "runs (memo E N d) (bnd x (\<lambda>branch. bnd (Failure fl (EFailure branch)) (\<lambda>fl'. ret (addAll (Ends branch) ends, fl'))))
    (\<lambda>(ends', fl'). posInv ends' \<and> posSet ends' = posSet ends \<union> S \<and> goodFailure E d s fl')"
proof (rule runs_bnd [OF assms(1)])
  fix branch
  assume b: "Ends branch = orderedPositions S \<and> goodFailure E d y (EFailure branch)"
  then have "goodFailure E d s (EFailure branch)" using assms(3) goodFailure_later by blast
  then show "runs (memo E N d) (bnd (Failure fl (EFailure branch)) (\<lambda>fl'. ret (addAll (Ends branch) ends, fl')))
      (\<lambda>(ends', fl'). posInv ends' \<and> posSet ends' = posSet ends \<union> S \<and> goodFailure E d s fl')"
    using positions.fold_add [OF assms(4), of "Ends branch"] b assms(2)
    by (intro runs_bnd [OF runs_Failure [OF assms(5)]]) (auto simp: addAll_def intro!: runs_ret)
qed

lemma runs_bodyChoice:
  assumes q: "particleAt E p = Some q" "pKind q = ParticleChoice" and s: "s \<le> size_of E"
    and kids: "\<forall>c \<in> set (pChildren q). matchOK E N d c (M c)" and fl: "goodFailure E d s fl"
  shows "runs (memo E N d) (bodyChoice M E (pChildren q) s fl) (goodBody E d p s)"
proof -
  let ?U = "\<lambda>cs. \<Union>c \<in> set cs. occEnds E c s"
  have loop: "runs (memo E N d) (each (\<lambda>child (ends, fl). bnd (M child s) (\<lambda>branch. bnd (Failure fl (EFailure branch)) (\<lambda>fl'.
        ret (addAll (Ends branch) ends, fl')))) (pChildren q) (noPositions, fl))
      (\<lambda>(ends, fl'). posInv ends \<and> posSet ends = ?U (pChildren q) \<and> goodFailure E d s fl')"
  proof (rule runs_each [where P = "\<lambda>ys (ends, fl'). posInv ends \<and> posSet ends = ?U ys \<and> goodFailure E d s fl'"], goal_cases)
    case (1 ys c b)
    obtain ends fl1 where b: "b = (ends, fl1)" by (rule prod.exhaust)
    have m: "runs (memo E N d) (M c s) (\<lambda>r. Ends r = orderedPositions (occEnds E c s) \<and> goodFailure E d s (EFailure r))"
      using kids 1(2) s by (simp add: matchOK_def)
    from 1(3) b show ?case
      by (auto intro!: runs_weaken [OF runs_collect [OF m occEnds_finite order_refl]])
  qed (use fl in \<open>auto simp: positions.inv_none positions.content_none\<close>)
  have ends: "?U (pChildren q) = bodyEnds E p s" by (auto simp: bodyEnds_def occEnds_def derives_choice [OF q])
  have inside: "x \<le> size_of E" if "x \<in> bodyEnds E p s" for x using bodyEnds_range [OF that] s by auto
  show ?thesis
    unfolding bodyChoice_def
    by (rule runs_bnd [OF loop]) (auto simp: ends dest: inside intro!: runs_bnd [OF runs_Ordered] runs_ret goodBodyI)
qed

definition followEnds :: "matchEnv \<Rightarrow> nat list \<Rightarrow> nat \<Rightarrow> nat set" where
  "followEnds E cs s = {e. \<exists>w. follows E cs s e w}"

lemma followEnds_Nil: "followEnds E [] s = {s}"
  by (auto simp: followEnds_def elim: follows_NilE intro: f_nil)

lemma followEnds_Cons: "followEnds E (c # cs) s = (\<Union>m \<in> occEnds E c s. followEnds E cs m)"
  by (auto simp: followEnds_def occEnds_def elim!: follows_ConsE intro: f_cons)

lemma runs_sequenceLayer:
  assumes kid: "matchOK E N d c f" and cur: "\<forall>y \<in> set current. s \<le> y \<and> y \<le> size_of E" and fl: "goodFailure E d s fl"
  shows "runs (memo E N d) (sequenceLayer f current fl)
    (\<lambda>(ends, fl'). posInv ends \<and> posSet ends = (\<Union>y \<in> set current. occEnds E c y) \<and> goodFailure E d s fl')"
  unfolding sequenceLayer_def
proof (rule runs_each [where P = "\<lambda>ys (ends, fl'). posInv ends \<and> posSet ends = (\<Union>y \<in> set ys. occEnds E c y) \<and> goodFailure E d s fl'"], goal_cases)
  case (1 ys y b)
  obtain ends fl1 where b: "b = (ends, fl1)" by (rule prod.exhaust)
  have y: "s \<le> y" "y \<le> size_of E" using cur 1(2) by auto
  have m: "runs (memo E N d) (f y) (\<lambda>r. Ends r = orderedPositions (occEnds E c y) \<and> goodFailure E d y (EFailure r))"
    using kid y by (simp add: matchOK_def)
  from 1(3) b show ?case
    by (auto intro!: runs_weaken [OF runs_collect [OF m occEnds_finite y(1)]])
qed (use fl in \<open>auto simp: positions.inv_none positions.content_none\<close>)

lemma runs_bodySequence:
  assumes "\<forall>c \<in> set cs. matchOK E N d c (M c)" "finite S" "S \<subseteq> {s..size_of E}" "goodFailure E d s fl"
  shows "runs (memo E N d) (bodySequence M E cs (orderedPositions S) fl)
    (\<lambda>r. Ends r = orderedPositions (\<Union>y \<in> S. followEnds E cs y) \<and> goodFailure E d s (EFailure r))"
  using assms
proof (induction cs arbitrary: S fl)
  case Nil
  then show ?case by (auto simp: followEnds_Nil intro!: runs_ret)
next
  case (Cons c cs)
  define T where "T = (\<Union>y \<in> S. occEnds E c y)"
  have T: "finite T" "T \<subseteq> {s..size_of E}" using Cons.prems(2,3) occEnds_range by (fastforce simp: T_def)+
  have U: "(\<Union>y \<in> S. followEnds E (c # cs) y) = (\<Union>y \<in> T. followEnds E cs y)" by (simp add: followEnds_Cons T_def)
  have cur: "\<forall>y \<in> S. s \<le> y \<and> y \<le> size_of E" using Cons.prems(3) by auto
  have lay: "runs (memo E N d) (sequenceLayer (M c) (orderedPositions S) fl)
      (\<lambda>(ends, fl'). posInv ends \<and> posSet ends = T \<and> goodFailure E d s fl')"
    using runs_sequenceLayer [of E N d c "M c" "orderedPositions S" s fl] Cons.prems cur by (simp add: T_def)
  have "runs (memo E N d) (bnd (ParticlePositionSet_Ordered E ends) (\<lambda>current'.
       if current' = [] then ret \<lparr> Ends = current', EFailure = fl' \<rparr> else bodySequence M E cs current' fl'))
      (\<lambda>r. Ends r = orderedPositions (\<Union>y \<in> T. followEnds E cs y) \<and> goodFailure E d s (EFailure r))"
    if h: "posInv ends" "posSet ends = T" "goodFailure E d s fl'" for ends fl'
  proof (rule runs_bnd [OF runs_Ordered [OF h(1)]])
    show "posSet ends \<subseteq> {..size_of E}" using h(2) T(2) by auto
    fix current'
    assume "current' = orderedPositions (posSet ends)"
    with h Cons.IH [of T fl'] Cons.prems(1) T show "runs (memo E N d)
        (if current' = [] then ret \<lparr> Ends = current', EFailure = fl' \<rparr> else bodySequence M E cs current' fl')
        (\<lambda>r. Ends r = orderedPositions (\<Union>y \<in> T. followEnds E cs y) \<and> goodFailure E d s (EFailure r))"
      by (auto intro!: runs_ret)
  qed
  then show ?case unfolding U bodySequence.simps by (auto intro!: runs_bnd [OF lay])
qed

lemma runs_bodyAll:
  assumes q: "particleAt E p = Some q" "pKind q = ParticleAll" "nodeOK E q" and res: "membersResolve E (pChildren q)"
    and present: "None \<notin> set (nodes E)" and s: "s \<le> size_of E" and fl: "goodFailure E d s fl"
  shows "runs (memo E N d) (bnd (allMatch E q s []) (\<lambda>(end, f, ok, els).
          let failure' = (if d then Some f else fl)
          in if ok then bnd (Singleton E end) (\<lambda>ends. ret \<lparr> Ends = ends, EFailure = failure' \<rparr>)
             else ret \<lparr> Ends = [], EFailure = failure' \<rparr>)) (goodBody E d p s)"
proof (rule runs_bnd)
  let ?P = "\<lambda>(end, f, ok, els). s \<le> end \<and> end \<le> size_of E \<and> mfSchema f = [] \<and> mfPosition f = end \<and>
      bodyEnds E p s = (if ok then {end} else {})"
  show "runs (memo E N d) (allMatch E q s []) ?P"
    unfolding runs_def
  proof (intro allI impI)
    fix m
    assume "memo E N d m"
    with allMatch_exact [OF q res present s, of "[]" m]
    show "\<exists>a m'. allMatch E q s [] m = Some (a, m') \<and> memo E N d m' \<and> ?P a" by (fastforce simp: bodyEnds_def)
  qed
  show "runs (memo E N d) (case a of (end, f, ok, els) \<Rightarrow> let failure' = (if d then Some f else fl)
          in if ok then bnd (Singleton E end) (\<lambda>ends. ret \<lparr> Ends = ends, EFailure = failure' \<rparr>)
             else ret \<lparr> Ends = [], EFailure = failure' \<rparr>) (goodBody E d p s)" if "?P a" for a
    using that fl by (auto simp: Let_def goodFailure_def intro!: runs_bnd [OF runs_Singleton] runs_ret goodBodyI)
qed

lemma all_members_resolve:
  assumes "cacheOK E N" "N p = Some b" "particleAt E p = Some q" "pKind q = ParticleAll"
  shows "membersResolve E (pChildren q)"
  unfolding membersResolve_def
proof
  fix c
  assume c: "c \<in> set (pChildren q)"
  then have "allMember E c" "wellFormed E c"
    using cacheOK_node [OF assms(1-3)] assms(4) by (auto simp: nodeOK_def)
  then show "particleAt E c \<noteq> None \<and> declOf E c \<noteq> None"
    by (auto simp: allMember_def declOf_def wellFormed_iff nodeOK_def)
qed

lemma runs_bodyKind:
  assumes ok: "ready E N" "N p = Some b" "particleAt E p = Some q" and s: "s \<le> size_of E" and fl: "goodFailure E d s fl"
    and kids: "\<forall>c \<in> set (pChildren q). pKind q \<noteq> ParticleAll \<longrightarrow> matchOK E N d c (M c)"
  shows "runs (memo E N d) (bodyKind M E q s d fl) (goodBody E d p s)"
proof -
  have cache: "cacheOK E N" and present: "None \<notin> set (nodes E)" using ok(1) by (simp_all add: ready_def)
  note node = cacheOK_node [OF cache ok(2,3)]
  show ?thesis
  proof (cases "pKind q")
    case ParticleElement
    then show ?thesis using runs_bodyElement [OF ok(3) _ node(1) present fl] by (simp add: bodyKind_def)
  next
    case ParticleAny
    then show ?thesis using runs_bodyAny [OF ok(3) _ node(1) present fl] by (simp add: bodyKind_def)
  next
    case ParticleChoice
    then show ?thesis using runs_bodyChoice [OF ok(3) _ s _ fl] kids by (simp add: bodyKind_def)
  next
    case ParticleSequence
    have ends: "(\<Union>y \<in> {s}. followEnds E (pChildren q) y) = bodyEnds E p s"
      by (simp add: followEnds_def bodyEnds_def derives_sequence [OF ok(3) ParticleSequence])
    have "runs (memo E N d) (bodySequence M E (pChildren q) (orderedPositions {s}) fl)
        (\<lambda>r. Ends r = orderedPositions (bodyEnds E p s) \<and> goodFailure E d s (EFailure r))"
      unfolding ends [symmetric] using kids ParticleSequence s fl by (intro runs_bodySequence) auto
    then show ?thesis using ParticleSequence by (auto simp: bodyKind_def goodBody_def intro: runs_weaken)
  next
    case ParticleAll
    have "membersResolve E (pChildren q)" using all_members_resolve [OF cache ok(2,3) ParticleAll] .
    then show ?thesis using runs_bodyAll [OF ok(3) ParticleAll node(1) _ present s fl] ParticleAll by (simp add: bodyKind_def)
  next
    case (ParticleOther k)
    then show ?thesis using node(1) by (simp add: nodeOK_def)
  qed
qed

lemma runs_Body:
  assumes ok: "ready E N" "N p = Some b" "particleAt E p = Some q" and s: "s \<le> size_of E"
    and kids: "\<forall>c \<in> set (pChildren q). pKind q \<noteq> ParticleAll \<longrightarrow> matchOK E N d c (M c)"
  shows "runs (memo E N d) (Body M E p s) (goodBody E d p s)"
proof -
  have compute: "runs (memo E N d) (bnd (InitialFailure s) (\<lambda>fl. bnd (bodyKind M E q s d fl) (\<lambda>result.
        if t then ret result
        else bnd (upd (mBodies_update (\<lambda>t. t((p, s) := Some result)))) (\<lambda>_. ret result)))) (goodBody E d p s)" for t
  proof (rule runs_bnd [OF runs_InitialFailure [OF s]], rule runs_bnd [OF runs_bodyKind [OF ok s _ kids]])
    fix r
    assume r: "goodBody E d p s r"
    then show "runs (memo E N d) (if t then ret r
        else bnd (upd (mBodies_update (\<lambda>t. t((p, s) := Some r)))) (\<lambda>_. ret r)) (goodBody E d p s)"
      using memo_bodies [OF _ r] by (auto intro!: runs_ret runs_bnd [OF runs_upd, where P = "\<lambda>_. True"])
  qed
  show ?thesis
    unfolding Body_def ok(3) option.case Let_def
  proof (rule runs_get_known, rule runs_get)
    fix m
    assume "memo E N d m"
    then have hit: "goodBody E d p s r"
      if "(if \<not> d \<and> (pKind q = ParticleElement \<or> pKind q = ParticleAny) then None else mBodies m (p, s)) = Some r" for r
      using that by (simp add: memo_def split: if_splits)
    show "runs (memo E N d) (case if \<not> d \<and> (pKind q = ParticleElement \<or> pKind q = ParticleAny) then None else mBodies m (p, s) of
         Some cached \<Rightarrow> ret cached
       | None \<Rightarrow> bnd (InitialFailure s) (\<lambda>fl. bnd (bodyKind M E q s d fl) (\<lambda>result.
           if \<not> d \<and> (pKind q = ParticleElement \<or> pKind q = ParticleAny) then ret result
           else bnd (upd (mBodies_update (\<lambda>t. t((p, s) := Some result)))) (\<lambda>_. ret result)))) (goodBody E d p s)"
    proof (cases "if \<not> d \<and> (pKind q = ParticleElement \<or> pKind q = ParticleAny) then None else mBodies m (p, s)")
      case None
      then show ?thesis by (simp only: option.case compute)
    next
      case (Some r)
      then show ?thesis by (simp only: option.case runs_ret hit)
    qed
  qed
qed

text \<open>A consumed terminal leaves the shared position array behind.\<close>

lemma Singleton_shares: "Singleton E y m = Some (xs, m') \<Longrightarrow> mSingletons m' \<noteq> None"
  by (auto simp: Singleton_def bnd_def upd_def viewSingletons_def panic_def split: if_splits option.splits)

lemma Body_shares:
  assumes "particleAt E p = Some q" "pKind q = ParticleElement \<or> pKind q = ParticleAny"
  shows "sharesArray (Body M E p)"
  unfolding sharesArray_def
proof (intro allI impI)
  fix s m r m'
  assume run: "Body M E p s m = Some (r, m')" and d: "\<not> mDiagnostics m" and ne: "Ends r \<noteq> []"
  have view: "mSingletons m' \<noteq> None"
    if "bnd (Singleton E y) (\<lambda>ends. ret \<lparr> Ends = ends, EFailure = fl \<rparr>) m = Some (r, m')" for y fl
    using that Singleton_shares by (auto simp: bnd_def ret_def split: option.splits)
  from run assms d have "bodyKind M E q s False None m = Some (r, m')"
    by (auto simp: Body_def bnd_def get_def ret_def InitialFailure_def split: option.splits)
  with assms(2) ne view show "mSingletons m' \<noteq> None"
    by (auto simp: bodyKind_def bodyElement_def bodyAny_def panic_def ret_def split: option.splits if_splits)
qed

lemma runs_bodyAt:
  assumes "ready E N"
  shows "deep E k p \<Longrightarrow> N p = Some b \<Longrightarrow> s \<le> size_of E \<Longrightarrow> runs (memo E N d) (bodyAt k E p s) (goodBody E d p s)"
proof (induction k arbitrary: p b s)
  case 0
  then show ?case by (auto elim: deepE)
next
  case (Suc k)
  from Suc.prems(1) obtain q where q: "particleAt E p = Some q" "\<forall>c \<in> set (pChildren q). deep E k c" by (auto elim: deepE)
  have cache: "cacheOK E N" "allOutermost E" using assms by (simp_all add: ready_def)
  have "matchOK E N d c (Match (bodyAt k E) E c)" if c: "c \<in> set (pChildren q)" "pKind q \<noteq> ParticleAll" for c
    unfolding matchOK_def
  proof (intro allI impI)
    fix y
    assume y: "y \<le> size_of E"
    obtain bc r where n: "N c = Some bc" "particleAt E c = Some r"
      using cacheOK_node(3) [OF cache(1) Suc.prems(2) q(1) c(1)] by (auto elim: wellFormedE)
    have notall: "pKind r \<noteq> ParticleAll" using cache(2) q(1) c(1) n(2) by (auto simp: allOutermost_def)
    have dc: "deep E k c" using q(2) c(1) by simp
    have share: "sharesArray (bodyAt k E c)" if "pKind r = ParticleElement \<or> pKind r = ParticleAny"
    proof -
      obtain k' where "k = Suc k'" using dc by (auto elim: deepE)
      then have "bodyAt k E c = Body (Match (bodyAt k' E) E) E c" by auto
      with Body_shares [OF n(2) that] show ?thesis by simp
    qed
    have "bodyOK E N d c (bodyAt k E c)" unfolding bodyOK_def using Suc.IH [OF dc n(1)] by blast
    from runs_Match [where B = "bodyAt k E", OF assms n y this share] notall n(2)
    show "runs (memo E N d) (Match (bodyAt k E) E c y) (\<lambda>r. Ends r = orderedPositions (occEnds E c y) \<and> goodFailure E d y (EFailure r))"
      by (auto simp: goodMatch_def intro: runs_weaken)
  qed
  then show ?case using runs_Body [OF assms Suc.prems(2) q(1) Suc.prems(3)] by simp
qed

lemma runs_matchAt:
  assumes "ready E N" "deep E k p" "N p = Some b" "s \<le> size_of E"
  shows "runs (memo E N d) (matchAt k E p s) (goodMatch E d p s)"
proof -
  obtain q k' where q: "particleAt E p = Some q" "k = Suc k'" using assms(2) by (auto elim: deepE)
  have "bodyAt k E p = Body (Match (bodyAt k' E) E) E p" using q(2) by auto
  then have share: "pKind q = ParticleElement \<or> pKind q = ParticleAny \<Longrightarrow> sharesArray (bodyAt k E p)"
    using Body_shares [OF q(1)] by simp
  have "bodyOK E N d p (bodyAt k E p)" unfolding bodyOK_def using runs_bodyAt [OF assms(1-3)] by blast
  from runs_Match [where B = "bodyAt k E", OF assms(1,3) q(1) assms(4) this share] show ?thesis by (simp add: matchAt_def)
qed

end
