(* ===== verification/Xsd_Witness.thy ===== *)
theory Xsd_Witness
  imports Xsd_Matching
begin

text \<open>
  Witness reconstruction and the whole match: the predecessor layers lead back to a split whose pieces are
  derivations, so the elements returned with the longest endpoint are a derivation of the particle.
\<close>

section \<open>Predecessor layers\<close>

lemma Previous_found: "predInv l \<Longrightarrow> snd (ParticlePredecessors_Previous x l) \<longleftrightarrow> x \<in> predSet l"
proof (cases "prMany l")
  case (Some many)
  then show ?thesis using map_of_eq_None_iff [of many x]
    by (auto simp: ParticlePredecessors_Previous_def predSet_def simp del: map_of_eq_None_iff split: option.splits)
qed (auto simp: ParticlePredecessors_Previous_def predSet_def)

lemma Previous_add:
  assumes "predInv l" "x \<in> predSet (ParticlePredecessors_add e s l)"
  shows "fst (ParticlePredecessors_Previous x (ParticlePredecessors_add e s l)) =
    (if x \<in> predSet l then fst (ParticlePredecessors_Previous x l) else s)"
proof (cases "prMany l")
  case None
  then show ?thesis using assms
    by (auto simp: ParticlePredecessors_add_def ParticlePredecessors_Previous_def predSet_def predInv_def split: if_splits)
next
  case (Some many)
  have keys: "map_of many y \<noteq> None \<longleftrightarrow> y \<in> fst ` set many" for y by (simp add: map_of_eq_None_iff)
  from Some show ?thesis using assms keys [of x] keys [of e]
    by (auto simp: ParticlePredecessors_add_def ParticlePredecessors_Previous_def predSet_def predInv_def map_add_def
        split: if_splits option.splits)
qed

definition explains :: "(nat \<Rightarrow> nat \<Rightarrow> bool) \<Rightarrow> ParticlePredecessors \<Rightarrow> bool" where
  "explains R l \<longleftrightarrow> predInv l \<and> (\<forall>x \<in> predSet l. R (fst (ParticlePredecessors_Previous x l)) x)"

lemma explains_mono: "explains R l \<Longrightarrow> (\<And>y x. R y x \<Longrightarrow> R' y x) \<Longrightarrow> explains R' l"
  by (simp add: explains_def)

lemma explains_none: "explains R noPredecessors"
  by (simp add: explains_def predecessors.inv_none predecessors.content_none)

lemma explains_fold:
  "explains R l \<Longrightarrow> \<forall>x \<in> set xs. R s x \<Longrightarrow> explains R (fold (\<lambda>x. ParticlePredecessors_add x s) xs l)"
proof (induction xs arbitrary: l)
  case (Cons x xs)
  have "explains R (ParticlePredecessors_add x s l)"
    using Cons.prems by (auto simp: explains_def predecessors.inv_add Previous_add predecessors.content_add)
  with Cons show ?case by simp
qed simp

lemma runs_predecessorLayer:
  assumes "\<forall>y \<in> set current. runs I (ends y) (\<lambda>r. set (Ends r) = F y)"
  shows "runs I (predecessorLayer ends admit current) (\<lambda>l. predSet l = (\<Union>y \<in> set current. {x \<in> F y. admit y x}) \<and>
    explains (\<lambda>y x. y \<in> set current \<and> x \<in> F y \<and> admit y x) l)"
  unfolding predecessorLayer_def
proof (rule runs_each [where P = "\<lambda>ys l. predSet l = (\<Union>y \<in> set ys. {x \<in> F y. admit y x}) \<and>
    explains (\<lambda>y x. y \<in> set current \<and> x \<in> F y \<and> admit y x) l"], goal_cases)
  case (1 ys y l)
  have y: "runs I (ends y) (\<lambda>r. set (Ends r) = F y)" using assms 1(2) by blast
  show ?case
  proof (rule runs_bnd [OF y], rule runs_ret)
    fix r
    assume r: "set (Ends r) = F y"
    let ?xs = "filter (admit y) (Ends r)"
    have "predInv l" using 1(3) by (simp add: explains_def)
    from predecessors.fold_add [OF this, of y ?xs] 1(3) r
    have "predSet (fold (\<lambda>next. ParticlePredecessors_add next y) ?xs l) = (\<Union>y \<in> set (ys @ [y]). {x \<in> F y. admit y x})" by auto
    moreover have "explains (\<lambda>y x. y \<in> set current \<and> x \<in> F y \<and> admit y x) (fold (\<lambda>next. ParticlePredecessors_add next y) ?xs l)"
      using 1(2,3) r by (intro explains_fold) auto
    ultimately show "predSet (fold (\<lambda>next. ParticlePredecessors_add next y) ?xs l) = (\<Union>y \<in> set (ys @ [y]). {x \<in> F y. admit y x}) \<and>
        explains (\<lambda>y x. y \<in> set current \<and> x \<in> F y \<and> admit y x) (fold (\<lambda>next. ParticlePredecessors_add next y) ?xs l)" ..
  qed
qed (simp add: explains_none predecessors.content_none)

lemma runs_predOrdered:
  assumes "predSet l \<subseteq> {..size_of E}"
  shows "runs (memo E N d) (ParticlePredecessors_Ordered E l) (\<lambda>xs. xs = orderedPositions (predSet l))"
  using assms runs_Singleton [of "prEnd l" E N d]
  by (auto simp: ParticlePredecessors_Ordered_def predSet_def intro!: runs_ret split: option.splits)

text \<open>Layers, newest first, each explained by the one before, and the path read off them.\<close>

fun chained :: "(nat \<Rightarrow> nat \<Rightarrow> bool) list \<Rightarrow> ParticlePredecessors list \<Rightarrow> nat \<Rightarrow> nat set \<Rightarrow> bool" where
  "chained [] [] s X \<longleftrightarrow> X = {s}"
| "chained (G # Gs) (l # ls) s X \<longleftrightarrow> X = predSet l \<and> (\<exists>Y. chained Gs ls s Y \<and> explains (\<lambda>y x. y \<in> Y \<and> G y x) l)"
| "chained _ _ s X \<longleftrightarrow> False"

fun path_ok :: "(nat \<Rightarrow> nat \<Rightarrow> bool) list \<Rightarrow> nat list \<Rightarrow> bool" where
  "path_ok [] ps \<longleftrightarrow> length ps = 1"
| "path_ok (G # Gs) (a # b # ps) \<longleftrightarrow> G a b \<and> path_ok Gs (b # ps)"
| "path_ok (G # Gs) ps \<longleftrightarrow> False"

lemma backtrack_path:
  "chained Gs ls s X \<Longrightarrow> x \<in> X \<Longrightarrow> path_ok Hs (x # acc) \<Longrightarrow>
   \<exists>ps. backtrack ls x acc = s # ps \<and> path_ok (rev Gs @ Hs) (s # ps) \<and> last (s # ps) = last (x # acc)"
proof (induction Gs ls s X arbitrary: x acc Hs rule: chained.induct)
  case (2 G Gs l ls s X)
  then obtain Y where Y: "chained Gs ls s Y" "explains (\<lambda>y x. y \<in> Y \<and> G y x) l" by auto
  let ?y = "fst (ParticlePredecessors_Previous x l)"
  have y: "?y \<in> Y" "G ?y x" using 2(2,3) Y(2) by (auto simp: explains_def)
  from 2(1) [OF Y(1) y(1), of "G # Hs" "x # acc"] y(2) 2(4) show ?case by simp
qed simp_all

lemma runs_walk:
  assumes "\<And>a b els. G a b \<Longrightarrow> runs I (f a b els) (\<lambda>(ok, els'). ok \<and> (\<exists>w. els' = els @ w \<and> derives E p a b w))"
  shows "path_ok (replicate k G) ps \<Longrightarrow> runs I (walk f ps els)
    (\<lambda>(ok, els'). ok \<and> (\<exists>w. els' = els @ w \<and> repeats E p k (hd ps) (last ps) w))"
proof (induction k arbitrary: ps els)
  case 0
  then obtain a where "ps = [a]" by (cases ps) auto
  then show ?case by (auto intro!: runs_ret r_none)
next
  case (Suc k)
  then obtain a b ps' where ps: "ps = a # b # ps'" "G a b" "path_ok (replicate k G) (b # ps')"
    by (cases ps rule: remdups_adj.cases) auto
  show ?case
    unfolding ps walk.simps
  proof (rule runs_bnd [OF assms [OF ps(2)]])
    fix r
    assume "case r of (ok, els') \<Rightarrow> ok \<and> (\<exists>w. els' = els @ w \<and> derives E p a b w)"
    then obtain v where r: "r = (True, els @ v)" "derives E p a b v" by auto
    show "runs I (case r of (ok, els') \<Rightarrow> if \<not> ok then ret (False, els') else walk f (b # ps') els')
       (\<lambda>(ok, els'). ok \<and> (\<exists>w. els' = els @ w \<and> repeats E p (Suc k) (hd (a # b # ps')) (last (a # b # ps')) w))"
      unfolding r(1) prod.case not_True_eq_False if_False
    proof (rule runs_weaken [OF Suc.IH [OF ps(3), of "els @ v"]])
      fix x
      assume "case x of (ok, els') \<Rightarrow> ok \<and> (\<exists>w. els' = (els @ v) @ w \<and> repeats E p k (hd (b # ps')) (last (b # ps')) w)"
      then obtain w where x: "x = (True, els @ v @ w)" and w: "repeats E p k b (last (b # ps')) w" by (cases x) auto
      from r_more [OF r(2) w] x show "case x of (ok, els') \<Rightarrow> ok \<and> (\<exists>w. els' = els @ w \<and>
          repeats E p (Suc k) (hd (a # b # ps')) (last (a # b # ps')) w)" by auto
    qed
  qed
qed

lemma runs_walkChildren:
  assumes "\<And>c a b els. c \<in> set cs \<Longrightarrow> G c a b \<Longrightarrow> runs I (f c a b els) (\<lambda>(ok, els'). ok \<and> (\<exists>w. els' = els @ w \<and> occurs E c a b w))"
  shows "path_ok (map G cs) ps \<Longrightarrow> runs I (walkChildren f cs ps els)
    (\<lambda>(ok, els'). ok \<and> (\<exists>w. els' = els @ w \<and> follows E cs (hd ps) (last ps) w))"
  using assms
proof (induction cs arbitrary: ps els)
  case Nil
  then obtain a where "ps = [a]" by (cases ps) auto
  then show ?case by (auto intro!: runs_ret f_nil)
next
  case (Cons c cs)
  then obtain a b ps' where ps: "ps = a # b # ps'" "G c a b" "path_ok (map G cs) (b # ps')"
    by (cases ps rule: remdups_adj.cases) auto
  have first: "runs I (f c a b els) (\<lambda>(ok, els'). ok \<and> (\<exists>w. els' = els @ w \<and> occurs E c a b w))" for els
    using Cons.prems(2) [of c a b] ps(2) by simp
  show ?case
    unfolding ps walkChildren.simps
  proof (rule runs_bnd [OF first])
    fix r
    assume "case r of (ok, els') \<Rightarrow> ok \<and> (\<exists>w. els' = els @ w \<and> occurs E c a b w)"
    then obtain v where r: "r = (True, els @ v)" "occurs E c a b v" by auto
    have rest: "runs I (walkChildren f cs (b # ps') (els @ v))
        (\<lambda>(ok, els'). ok \<and> (\<exists>w. els' = (els @ v) @ w \<and> follows E cs (hd (b # ps')) (last (b # ps')) w))"
      by (rule Cons.IH [OF ps(3)]) (rule Cons.prems(2), simp_all)
    show "runs I (case r of (ok, els') \<Rightarrow> if \<not> ok then ret (False, els') else walkChildren f cs (b # ps') els')
       (\<lambda>(ok, els'). ok \<and> (\<exists>w. els' = els @ w \<and> follows E (c # cs) (hd (a # b # ps')) (last (a # b # ps')) w))"
      unfolding r(1) prod.case not_True_eq_False if_False
    proof (rule runs_weaken [OF rest])
      fix x
      assume "case x of (ok, els') \<Rightarrow> ok \<and> (\<exists>w. els' = (els @ v) @ w \<and> follows E cs (hd (b # ps')) (last (b # ps')) w)"
      then obtain w where x: "x = (True, els @ v @ w)" and w: "follows E cs b (last (b # ps')) w" by (cases x) auto
      from f_cons [OF r(2) w] x show "case x of (ok, els') \<Rightarrow> ok \<and> (\<exists>w. els' = els @ w \<and>
          follows E (c # cs) (hd (a # b # ps')) (last (a # b # ps')) w)" by auto
    qed
  qed
qed

section \<open>Repeated particles\<close>

definition advance :: "matchEnv \<Rightarrow> nat \<Rightarrow> nat \<Rightarrow> nat \<Rightarrow> nat \<Rightarrow> bool" where
  "advance E p e a b \<longleftrightarrow> b \<in> bodyEnds E p a \<and> a < b \<and> b \<le> e"

definition layerUpTo :: "matchEnv \<Rightarrow> nat \<Rightarrow> nat \<Rightarrow> nat \<Rightarrow> nat \<Rightarrow> nat set" where
  "layerUpTo E p s e l = {x \<in> layer E p s l. x \<le> e}"

lemma layerUpTo_Suc: "layerUpTo E p s e (Suc l) = (\<Union>y \<in> layerUpTo E p s e l. {x \<in> bodyEnds E p y. y < x \<and> x \<le> e})"
proof -
  have "x \<in> bodyEnds E p y \<Longrightarrow> x \<noteq> y \<longleftrightarrow> y < x" for x y using bodyEnds_range [of x E p y] by auto
  then show ?thesis by (fastforce simp: layerUpTo_def layer.simps(2))
qed

lemma layer_reaches: "x \<in> layer E p s j \<Longrightarrow> l \<le> j \<Longrightarrow> \<exists>y \<in> layer E p s l. y \<le> x"
proof (induction j arbitrary: x)
  case (Suc j)
  show ?case
  proof (cases "l = Suc j")
    case False
    from Suc.prems(1) obtain m where m: "m \<in> layer E p s j" "x \<in> bodyEnds E p m" by (auto simp: layer.simps(2))
    have "l \<le> j" using False Suc.prems(2) by simp
    with Suc.IH [OF m(1)] obtain y where y: "y \<in> layer E p s l" "y \<le> m" by blast
    then have "y \<le> x" using bodyEnds_range [OF m(2)] by simp
    with y(1) show ?thesis by blast
  qed (use Suc.prems in auto)
qed simp

definition witnesses :: "matchEnv \<Rightarrow> (nat \<Rightarrow> bool option) \<Rightarrow> (ElementMatch list \<Rightarrow> bool) \<Rightarrow> ElementMatch list \<Rightarrow> (bool \<times> ElementMatch list) act \<Rightarrow> bool" where
  "witnesses E N D els x \<longleftrightarrow> runs (memo E N False) x (\<lambda>(ok, els'). ok \<and> (\<exists>w. els' = els @ w \<and> D w))"

lemma witnesses_weaken: "witnesses E N D els x \<Longrightarrow> (\<And>w. D w \<Longrightarrow> D' w) \<Longrightarrow> witnesses E N D' els x"
  unfolding witnesses_def by (erule runs_weaken) auto

lemma runs_witnessLoop:
  assumes body: "bodyOK E N False p body" and s: "s \<le> size_of E"
    and descend: "\<And>a b els. b \<in> bodyEnds E p a \<Longrightarrow> a \<le> size_of E \<Longrightarrow> witnesses E N (derives E p a b) els (descend a b els)"
    and goal: "\<And>k w. least \<le> k \<or> null \<Longrightarrow> k \<le> l0 \<Longrightarrow> repeats E p k s e w \<Longrightarrow> D w"
  shows "chained (replicate l (advance E p e)) layers s (layerUpTo E p s e l) \<Longrightarrow> l < j \<Longrightarrow> j \<le> l + k \<Longrightarrow> l + k \<le> l0 \<Longrightarrow>
    e \<in> layer E p s j \<Longrightarrow> null \<or> least \<le> j \<Longrightarrow>
    witnesses E N D els (witnessLoop k E body descend null least e (Suc l) (orderedPositions (layerUpTo E p s e l)) layers els)"
proof (induction k arbitrary: l layers)
  case (Suc k)
  let ?X = "layerUpTo E p s e l" and ?X' = "layerUpTo E p s e (Suc l)"
  have fin: "finite ?X" "finite ?X'" by (simp_all add: layerUpTo_def)
  have inside: "y \<le> size_of E" if "y \<in> layerUpTo E p s e i" for y i
    using layer_inside [OF s] that by (auto simp: layerUpTo_def)
  have ne: "orderedPositions ?X \<noteq> []"
    using layer_reaches [OF Suc.prems(5), of l] Suc.prems(2) fin by (auto simp: layerUpTo_def)
  have ends: "\<forall>y \<in> set (orderedPositions ?X). runs (memo E N False) (body y) (\<lambda>r. set (Ends r) = bodyEnds E p y)"
  proof
    fix y
    assume "y \<in> set (orderedPositions ?X)"
    then have "y \<le> size_of E" using inside fin by simp
    then have "runs (memo E N False) (body y) (goodBody E False p y)" using body by (simp add: bodyOK_def)
    then show "runs (memo E N False) (body y) (\<lambda>r. set (Ends r) = bodyEnds E p y)"
      by (rule runs_weaken) (simp add: goodBody_def)
  qed
  have lay: "runs (memo E N False) (predecessorLayer body (\<lambda>position next. position < next \<and> next \<le> e) (orderedPositions ?X))
      (\<lambda>previous. predSet previous = ?X' \<and> chained (replicate (Suc l) (advance E p e)) (previous # layers) s ?X')"
  proof (rule runs_weaken [OF runs_predecessorLayer [OF ends]])
    fix l'
    assume l': "predSet l' = (\<Union>y \<in> set (orderedPositions ?X). {x \<in> bodyEnds E p y. y < x \<and> x \<le> e}) \<and>
        explains (\<lambda>y x. y \<in> set (orderedPositions ?X) \<and> x \<in> bodyEnds E p y \<and> y < x \<and> x \<le> e) l'"
    then have "predSet l' = ?X'" using fin(1) by (simp add: layerUpTo_Suc)
    moreover have "explains (\<lambda>y x. y \<in> ?X \<and> advance E p e y x) l'" using l' fin(1) by (simp add: advance_def)
    ultimately show "predSet l' = ?X' \<and> chained (replicate (Suc l) (advance E p e)) (l' # layers) s ?X'"
      using Suc.prems(1) unfolding replicate_Suc chained.simps by blast
  qed
  show ?case
    unfolding witnesses_def witnessLoop.simps if_not_P [OF ne]
  proof (rule runs_bnd [OF lay])
    fix previous
    assume prev: "predSet previous = ?X' \<and> chained (replicate (Suc l) (advance E p e)) (previous # layers) s ?X'"
    then have inv: "predInv previous" by (auto simp: explains_def)
    have found: "snd (ParticlePredecessors_Previous e previous) \<longleftrightarrow> e \<in> ?X'"
      using Previous_found [OF inv, of e] conjunct1 [OF prev] by simp
    show "runs (memo E N False)
        (if snd (ParticlePredecessors_Previous e previous) \<and> (null \<or> least \<le> Suc l) then walk descend (backtrack (previous # layers) e []) els
         else bnd (ParticlePredecessors_Ordered E previous) (\<lambda>current'.
           witnessLoop k E body descend null least e (Suc (Suc l)) current' (previous # layers) els))
        (\<lambda>(ok, els'). ok \<and> (\<exists>w. els' = els @ w \<and> D w))"
    proof (cases "e \<in> ?X' \<and> (null \<or> least \<le> Suc l)")
      case True
      obtain ps where ps: "backtrack (previous # layers) e [] = s # ps" "path_ok (rev (replicate (Suc l) (advance E p e)) @ []) (s # ps)"
        "last (s # ps) = e"
        using backtrack_path [OF conjunct2 [OF prev] conjunct1 [OF True], of "[]" "[]"]
        by (auto simp del: backtrack.simps replicate_Suc)
      have step: "runs (memo E N False) (descend a b els) (\<lambda>(ok, els'). ok \<and> (\<exists>w. els' = els @ w \<and> derives E p a b w))"
        if "advance E p e a b" for a b els
        using descend [of b a els] that bodyEnds_range [of b E p a] by (auto simp: advance_def witnesses_def)
      have "path_ok (replicate (Suc l) (advance E p e)) (s # ps)" using ps(2) by (simp only: rev_replicate append_Nil2)
      from runs_walk [of "advance E p e", OF step this, of els] ps(1,3)
      have "runs (memo E N False) (walk descend (backtrack (previous # layers) e []) els)
          (\<lambda>(ok, els'). ok \<and> (\<exists>w. els' = els @ w \<and> repeats E p (Suc l) s e w))" by simp
      moreover have "D w" if "repeats E p (Suc l) s e w" for w using goal [OF _ _ that] True Suc.prems(2-4) by auto
      ultimately have done_here: "runs (memo E N False) (walk descend (backtrack (previous # layers) e []) els)
          (\<lambda>(ok, els'). ok \<and> (\<exists>w. els' = els @ w \<and> D w))" by (auto intro: runs_weaken)
      have cond: "snd (ParticlePredecessors_Previous e previous) \<and> (null \<or> least \<le> Suc l)" using True found by simp
      show ?thesis unfolding if_P [OF cond] by (rule done_here)
    next
      case False
      have j: "Suc l < j" using False Suc.prems(2,5,6) by (cases "j = Suc l") (auto simp: layerUpTo_def)
      from Suc.IH [OF conjunct2 [OF prev] j] Suc.prems(3-6) have
        "witnesses E N D els (witnessLoop k E body descend null least e (Suc (Suc l)) (orderedPositions ?X') (previous # layers) els)" by simp
      then have next_round: "runs (memo E N False) (witnessLoop k E body descend null least e (Suc (Suc l)) current' (previous # layers) els)
          (\<lambda>(ok, els'). ok \<and> (\<exists>w. els' = els @ w \<and> D w))" if "current' = orderedPositions (predSet previous)" for current'
        unfolding that conjunct1 [OF prev] witnesses_def .
      have "predSet previous \<subseteq> {..size_of E}" using conjunct1 [OF prev] inside by auto
      from runs_bnd [OF runs_predOrdered [OF this] next_round]
      have go_on: "runs (memo E N False) (bnd (ParticlePredecessors_Ordered E previous) (\<lambda>current'.
           witnessLoop k E body descend null least e (Suc (Suc l)) current' (previous # layers) els))
        (\<lambda>(ok, els'). ok \<and> (\<exists>w. els' = els @ w \<and> D w))" .
      have cond: "\<not> (snd (ParticlePredecessors_Previous e previous) \<and> (null \<or> least \<le> Suc l))" using False found by simp
      show ?thesis unfolding if_not_P [OF cond] by (rule go_on)
    qed
  qed
qed simp

lemma occurs_at_start:
  assumes "ready E N" "N p = Some b" "particleAt E p = Some q" "s \<in> occEnds E p s"
  shows "minOf q = 0 \<or> b" "occurs E p s s []"
proof -
  have cache: "cacheOK E N" "allOutermost E" using assms(1) by (simp_all add: ready_def)
  have wf: "wellFormed E p" using cache(1) assms(2) by (auto simp: cacheOK_def)
  have null: "b" if "x \<in> bodyEnds E p x" for x
    using that nullable_exact [OF cache wf assms(2,3)] all_empty_nullable [OF cache(1) assms(2,3)]
    by (cases "pKind q = ParticleAll") blast+
  from assms(4) obtain w where w: "occurs E p s s w" by (auto simp: occEnds_def)
  with assms(3) obtain k where k: "occurs E p s s w" "minOf q \<le> k" "repeats E p k s s w" by (auto elim!: occursE)
  from repeats_layer [OF k(3)] obtain j where j: "j \<le> k" "s \<in> layer E p s j" "j < k \<longrightarrow> (\<exists>x. x \<in> bodyEnds E p x)" by blast
  have "j = 0" using layer_range [OF j(2)] by simp
  with j(3) k(2) null show "minOf q = 0 \<or> b" by (cases k) auto
  have "w = []" using occurs_span [OF k(1)] by (cases w) (auto simp: spans_def)
  with k(1) show "occurs E p s s []" by simp
qed

lemma runs_Witness:
  assumes ok: "ready E N" "N p = Some b" "particleAt E p = Some q" and s: "s \<le> size_of E" and e: "e \<in> occEnds E p s"
    and body: "bodyOK E N False p (B p)"
    and bw: "\<And>a c els. c \<in> bodyEnds E p a \<Longrightarrow> a \<le> size_of E \<Longrightarrow> witnesses E N (derives E p a c) els (BW p a c els)"
  shows "witnesses E N (occurs E p s e) els (Witness BW B E p s e els)"
proof -
  have cache: "cacheOK E N" "allOutermost E" using ok(1) by (simp_all add: ready_def)
  have wf: "wellFormed E p" using cache(1) ok(2) by (auto simp: cacheOK_def)
  have node: "nodeOK E q" by (rule cacheOK_node(1) [OF cache(1) ok(2,3)])
  then have occ: "unboundedOf q \<or> minOf q \<le> maxOf q" by (simp add: nodeOK_def)
  have "runs (memo E N False) (if s = e then ret (minOf q = 0 \<or> N p = Some True, els)
      else if \<not> unboundedOf q \<and> maxOf q = 1 then BW p s e els
      else witnessLoop (particleLimit E q s) E (B p) (BW p) (N p = Some True) (minOf q) e 1 [s] [] els)
      (\<lambda>(ok, els'). ok \<and> (\<exists>w. els' = els @ w \<and> occurs E p s e w))"
  proof -
    consider "s = e" | "s \<noteq> e" "\<not> unboundedOf q \<and> maxOf q = 1" | "s \<noteq> e" "\<not> (\<not> unboundedOf q \<and> maxOf q = 1)" by blast
    then show ?thesis
    proof cases
      case 1
      with occurs_at_start [OF ok] e ok(2) show ?thesis by (auto intro!: runs_ret)
    next
      case 2
      from e ok(3) 2 obtain w k where k: "k \<le> 1" "minOf q \<le> k" "repeats E p k s e w" by (auto simp: occEnds_def elim!: occursE)
      with 2(1) have "k = Suc 0" by (cases k) (auto simp: repeats_zero)
      with k(3) have "e \<in> bodyEnds E p s" by (auto simp: repeats_one bodyEnds_def)
      from bw [OF this s, of els] have "witnesses E N (occurs E p s e) els (BW p s e els)"
      proof (rule witnesses_weaken)
        fix v
        assume "derives E p s e v"
        then have "repeats E p 1 s e v" by (simp add: repeats_one)
        with ok(3) 2(2) occ show "occurs E p s e v" by (auto intro: o_times)
      qed
      with 2 show ?thesis by (simp add: witnesses_def)
    next
      case 3
      have notall: "pKind q \<noteq> ParticleAll"
      proof
        assume "pKind q = ParticleAll"
        with node 3(2) have "\<not> unboundedOf q" "maxOf q = 0" "minOf q = 0" by (auto simp: nodeOK_def)
        with occEnds_few(2) [OF ok(3)] e 3(1) show False by simp
      qed
      have "occEnds E p s = acceptedEnds E p q b s (particleLimit E q s)" by (rule occEnds_loop [OF ok s]) (use notall in simp)
      with e obtain j where j: "1 \<le> j" "j \<le> particleLimit E q s" "b \<or> minOf q \<le> j" "e \<in> layer E p s j"
        using 3(1) by (auto simp: acceptedEnds_def)
      have pad: "e \<in> bodyEnds E p e" if b
        using nullable_exact [OF cache wf ok(2,3) notall] that layer_inside [OF s j(4)] by blast
      have fin: "occurs E p s e w" if "minOf q \<le> k \<or> b" "k \<le> particleLimit E q s" "repeats E p k s e w" for k w
        using that pad by (intro layer_occurs [OF ok(3) occ that(3), of b])
          (auto simp: particleLimit_def Let_def split: if_splits)
      have start: "layerUpTo E p s e 0 = {s}" using layer_range [OF j(4)] by (auto simp: layerUpTo_def)
      have "witnesses E N (occurs E p s e) els
          (witnessLoop (particleLimit E q s) E (B p) (BW p) b (minOf q) e (Suc 0) (orderedPositions (layerUpTo E p s e 0)) [] els)"
        by (rule runs_witnessLoop [OF body s bw fin, where l = 0 and j = j]) (use j start in auto)
      with 3 ok(2) start show ?thesis by (auto simp: witnesses_def)
    qed
  qed
  then show ?thesis unfolding witnesses_def Witness_def ok(3) option.case by (rule runs_get_known)
qed

section \<open>Bodies\<close>

lemma runs_choiceWitness:
  assumes "\<forall>c \<in> set cs. runs (memo E N False) (m c) (\<lambda>r. set (Ends r) = occEnds E c s)"
    and "\<And>c els. c \<in> set cs \<Longrightarrow> e \<in> occEnds E c s \<Longrightarrow> witnesses E N (occurs E c s e) els (wit c els)"
    and "\<exists>c \<in> set cs. e \<in> occEnds E c s"
  shows "witnesses E N (\<lambda>w. \<exists>c \<in> set cs. occurs E c s e w) els (choiceWitness m wit cs e els)"
  using assms
proof (induction cs)
  case (Cons c cs)
  have m: "runs (memo E N False) (m c) (\<lambda>r. set (Ends r) = occEnds E c s)" using Cons.prems(1) by simp
  show ?case
    unfolding witnesses_def choiceWitness.simps
  proof (rule runs_bnd [OF m])
    fix r
    assume r: "set (Ends r) = occEnds E c s"
    show "runs (memo E N False) (if e \<in> set (Ends r) then wit c els else choiceWitness m wit cs e els)
        (\<lambda>(ok, els'). ok \<and> (\<exists>w. els' = els @ w \<and> (\<exists>c \<in> set (c # cs). occurs E c s e w)))"
    proof (cases "e \<in> occEnds E c s")
      case True
      then have "witnesses E N (occurs E c s e) els (wit c els)" using Cons.prems(2) [of c els] by simp
      then have "witnesses E N (\<lambda>w. \<exists>c \<in> set (c # cs). occurs E c s e w) els (wit c els)" by (rule witnesses_weaken) simp
      with True r show ?thesis by (simp add: witnesses_def)
    next
      case False
      have "witnesses E N (\<lambda>w. \<exists>c \<in> set cs. occurs E c s e w) els (choiceWitness m wit cs e els)"
        using Cons.prems False by (intro Cons.IH) auto
      then have "witnesses E N (\<lambda>w. \<exists>c \<in> set (c # cs). occurs E c s e w) els (choiceWitness m wit cs e els)"
        by (rule witnesses_weaken) auto
      with False r show ?thesis by (simp add: witnesses_def)
    qed
  qed
qed simp

definition follow :: "matchEnv \<Rightarrow> nat \<Rightarrow> nat \<Rightarrow> nat \<Rightarrow> nat \<Rightarrow> bool" where
  "follow E e c a b \<longleftrightarrow> b \<in> occEnds E c a \<and> b \<le> e \<and> a \<le> size_of E"

lemma followEnds_range: "x \<in> followEnds E cs s \<Longrightarrow> s \<le> x \<and> (x = s \<or> x \<le> size_of E)"
  by (auto simp: followEnds_def spans_def dest: follows_span)

lemma runs_sequenceLayers:
  assumes "\<forall>c \<in> set cs. matchOK E N False c (M c)" "finite X" "X \<subseteq> {..size_of E}" "chained Gs layers s X"
  shows "runs (memo E N False) (sequenceLayers E M e cs (orderedPositions X) layers) (\<lambda>(current, layers').
    set current = (if cs = [] then X else {x. x \<le> e \<and> (\<exists>y \<in> X. x \<in> followEnds E cs y)}) \<and>
    chained (rev (map (follow E e) cs) @ Gs) layers' s (set current))"
  using assms
proof (induction cs arbitrary: X layers Gs)
  case Nil
  then show ?case by (auto intro!: runs_ret)
next
  case (Cons c cs)
  define Y where "Y = {x. x \<le> e \<and> (\<exists>y \<in> X. x \<in> occEnds E c y)}"
  have kid: "matchOK E N False c (M c)" using Cons.prems(1) by simp
  have inY: "x \<le> size_of E" if "x \<in> Y" for x using that Cons.prems(3) occEnds_range by (fastforce simp: Y_def)
  have fin: "finite Y" by (rule finite_subset [of _ "{..e}"]) (auto simp: Y_def)
  have ends: "\<forall>y \<in> set (orderedPositions X). runs (memo E N False) (M c y) (\<lambda>r. set (Ends r) = occEnds E c y)"
  proof
    fix y
    assume "y \<in> set (orderedPositions X)"
    then have "y \<le> size_of E" using Cons.prems(2,3) by auto
    with kid have "runs (memo E N False) (M c y) (\<lambda>r. Ends r = orderedPositions (occEnds E c y) \<and> goodFailure E False y (EFailure r))"
      by (simp add: matchOK_def)
    then show "runs (memo E N False) (M c y) (\<lambda>r. set (Ends r) = occEnds E c y)" by (rule runs_weaken) simp
  qed
  have lay: "runs (memo E N False) (predecessorLayer (M c) (\<lambda>position next. next \<le> e) (orderedPositions X))
      (\<lambda>previous. predSet previous = Y \<and> chained (follow E e c # Gs) (previous # layers) s Y)"
  proof (rule runs_weaken [OF runs_predecessorLayer [OF ends]])
    fix l
    assume l: "predSet l = (\<Union>y \<in> set (orderedPositions X). {x \<in> occEnds E c y. x \<le> e}) \<and>
        explains (\<lambda>y x. y \<in> set (orderedPositions X) \<and> x \<in> occEnds E c y \<and> x \<le> e) l"
    then have "predSet l = Y" using Cons.prems(2) by (auto simp: Y_def)
    moreover have "explains (\<lambda>y x. y \<in> X \<and> follow E e c y x) l"
      by (rule explains_mono [OF conjunct2 [OF l]]) (use Cons.prems(2,3) in \<open>auto simp: follow_def\<close>)
    ultimately show "predSet l = Y \<and> chained (follow E e c # Gs) (l # layers) s Y"
      using Cons.prems(4) unfolding chained.simps by blast
  qed
  have sets: "{x. x \<le> e \<and> (\<exists>y \<in> X. x \<in> followEnds E (c # cs) y)} =
      (if cs = [] then Y else {x. x \<le> e \<and> (\<exists>y \<in> Y. x \<in> followEnds E cs y)})"
  proof -
    have "m \<le> e" if "x \<in> followEnds E cs m" "x \<le> e" for x m using followEnds_range [OF that(1)] that(2) by simp
    then have "{x. x \<le> e \<and> (\<exists>y \<in> X. x \<in> followEnds E (c # cs) y)} = {x. x \<le> e \<and> (\<exists>y \<in> Y. x \<in> followEnds E cs y)}"
      unfolding followEnds_Cons Y_def by blast
    moreover have "{x. x \<le> e \<and> (\<exists>y \<in> Y. x \<in> {y})} = Y" by (auto simp: Y_def)
    ultimately show ?thesis by (simp add: followEnds_Nil)
  qed
  show ?case
    unfolding sequenceLayers.simps
  proof (rule runs_bnd [OF lay])
    fix previous
    assume prev: "predSet previous = Y \<and> chained (follow E e c # Gs) (previous # layers) s Y"
    have step: "runs (memo E N False) (sequenceLayers E M e cs current' (previous # layers)) (\<lambda>(current, layers').
        set current = (if c # cs = [] then X else {x. x \<le> e \<and> (\<exists>y \<in> X. x \<in> followEnds E (c # cs) y)}) \<and>
        chained (rev (map (follow E e) (c # cs)) @ Gs) layers' s (set current))"
      if "current' = orderedPositions (predSet previous)" for current'
    proof -
      have "runs (memo E N False) (sequenceLayers E M e cs (orderedPositions Y) (previous # layers)) (\<lambda>(current, layers').
          set current = (if cs = [] then Y else {x. x \<le> e \<and> (\<exists>y \<in> Y. x \<in> followEnds E cs y)}) \<and>
          chained (rev (map (follow E e) cs) @ (follow E e c # Gs)) layers' s (set current))"
      proof (rule Cons.IH)
        show "\<forall>c \<in> set cs. matchOK E N False c (M c)" using Cons.prems(1) by simp
        show "finite Y" by (rule fin)
        show "Y \<subseteq> {..size_of E}" using inY by blast
        show "chained (follow E e c # Gs) (previous # layers) s Y" by (rule conjunct2 [OF prev])
      qed
      moreover have "current' = orderedPositions Y" using that conjunct1 [OF prev] by simp
      ultimately show ?thesis by (simp only: sets list.map rev.simps append_assoc append.simps list.distinct if_False)
    qed
    show "runs (memo E N False) (bnd (ParticlePredecessors_Ordered E previous) (\<lambda>current'. sequenceLayers E M e cs current' (previous # layers)))
       (\<lambda>(current, layers'). set current = (if c # cs = [] then X else {x. x \<le> e \<and> (\<exists>y \<in> X. x \<in> followEnds E (c # cs) y)}) \<and>
          chained (rev (map (follow E e) (c # cs)) @ Gs) layers' s (set current))"
    proof (rule runs_bnd [OF runs_predOrdered step])
      show "predSet previous \<subseteq> {..size_of E}" unfolding conjunct1 [OF prev] using inY by blast
    qed
  qed
qed

end
