(* ===== verification/Xsd_Search.thy ===== *)
theory Xsd_Search
  imports Xsd_Witness
begin

text \<open>
  A whole match: the witness of a body for every kind of particle, the witness of an occurrence at every
  depth of the particle graph, and the two properties of \<open>MatchParticle\<close>: it accepts exactly the
  content model with its longest endpoint and a derivation of it, and a rejection is located inside the
  children.
\<close>

section \<open>Witnesses of bodies\<close>

lemma matchOK_ends:
  assumes "matchOK E N d c f" "s \<le> size_of E"
  shows "runs (memo E N d) (f s) (\<lambda>r. set (Ends r) = occEnds E c s)"
proof (rule runs_weaken)
  show "runs (memo E N d) (f s) (\<lambda>r. Ends r = orderedPositions (occEnds E c s) \<and> goodFailure E d s (EFailure r))"
    using assms by (simp add: matchOK_def)
qed simp

lemma runs_sequenceWitness:
  assumes q: "particleAt E p = Some q" "pKind q = ParticleSequence" and s: "s \<le> size_of E" and e: "e \<in> bodyEnds E p s"
    and kids: "\<forall>c \<in> set (pChildren q). matchOK E N False c (M c)"
    and wits: "\<And>c a x els. c \<in> set (pChildren q) \<Longrightarrow> x \<in> occEnds E c a \<Longrightarrow> a \<le> size_of E \<Longrightarrow>
      witnesses E N (occurs E c a x) els (W c a x els)"
  shows "witnesses E N (derives E p s e) els (bnd (sequenceLayers E M e (pChildren q) [s] []) (\<lambda>(current, layers).
    if e \<notin> set current then ret (False, els) else walkChildren W (pChildren q) (backtrack layers e []) els))"
  unfolding witnesses_def
proof (rule runs_bnd)
  let ?cs = "pChildren q"
  have reach: "e \<in> followEnds E ?cs s" using e by (simp add: bodyEnds_def followEnds_def derives_sequence [OF q])
  have "runs (memo E N False) (sequenceLayers E M e ?cs (orderedPositions {s}) []) (\<lambda>(current, layers').
      set current = (if ?cs = [] then {s} else {x. x \<le> e \<and> (\<exists>y \<in> {s}. x \<in> followEnds E ?cs y)}) \<and>
      chained (rev (map (follow E e) ?cs) @ []) layers' s (set current))"
    by (rule runs_sequenceLayers [OF kids]) (use s in simp_all)
  then have "runs (memo E N False) (sequenceLayers E M e ?cs [s] []) (\<lambda>(current, layers').
      set current = (if ?cs = [] then {s} else {x. x \<le> e \<and> (\<exists>y \<in> {s}. x \<in> followEnds E ?cs y)}) \<and>
      chained (rev (map (follow E e) ?cs)) layers' s (set current))"
    by (simp only: orderedPositions_simps append_Nil2)
  moreover have "e \<in> (if ?cs = [] then {s} else {x. x \<le> e \<and> (\<exists>y \<in> {s}. x \<in> followEnds E ?cs y)})"
    using reach by (auto simp: followEnds_Nil)
  ultimately show "runs (memo E N False) (sequenceLayers E M e ?cs [s] [])
      (\<lambda>(current, layers). e \<in> set current \<and> chained (rev (map (follow E e) ?cs)) layers s (set current))"
    by (elim runs_weaken) blast
  fix r
  assume "case r of (current, layers) \<Rightarrow> e \<in> set current \<and> chained (rev (map (follow E e) ?cs)) layers s (set current)"
  then obtain current layers where r: "r = (current, layers)" "e \<in> set current"
    "chained (rev (map (follow E e) ?cs)) layers s (set current)" by (cases r) auto
  from backtrack_path [OF r(3,2), of "[]" "[]"] obtain ps where
    ps: "backtrack layers e [] = s # ps" "path_ok (map (follow E e) ?cs) (s # ps)" "last (s # ps) = e" by auto
  have step: "runs (memo E N False) (W c a b els) (\<lambda>(ok, els'). ok \<and> (\<exists>w. els' = els @ w \<and> occurs E c a b w))"
    if "c \<in> set ?cs" "follow E e c a b" for c a b els
    using wits [OF that(1)] that(2) by (simp add: follow_def witnesses_def)
  have "runs (memo E N False) (walkChildren W ?cs (s # ps) els)
      (\<lambda>(ok, els'). ok \<and> (\<exists>w. els' = els @ w \<and> follows E ?cs (hd (s # ps)) (last (s # ps)) w))"
    by (rule runs_walkChildren [OF step ps(2)])
  then show "runs (memo E N False) (case r of (current, layers) \<Rightarrow>
      if e \<notin> set current then ret (False, els) else walkChildren W ?cs (backtrack layers e []) els)
      (\<lambda>(ok, els'). ok \<and> (\<exists>w. els' = els @ w \<and> derives E p s e w))"
    using r(1,2) ps(1,3) by (simp add: derives_sequence [OF q])
qed

lemma runs_allWitness:
  assumes q: "particleAt E p = Some q" "pKind q = ParticleAll" "nodeOK E q" and res: "membersResolve E (pChildren q)"
    and present: "None \<notin> set (nodes E)" and s: "s \<le> size_of E" and e: "e \<in> bodyEnds E p s"
  shows "witnesses E N (derives E p s e) els (bnd (allMatch E q s els) (\<lambda>(next, f, ok, els'). ret (ok \<and> next = e, els')))"
  unfolding witnesses_def runs_def
proof (intro allI impI)
  fix m
  assume m: "memo E N False m"
  obtain w where w: "derives E p s e w" using e by (auto simp: bodyEnds_def)
  from allMatch_exact [OF q res present s, of els m] w m
  show "\<exists>a m'. bnd (allMatch E q s els) (\<lambda>(next, f, ok, els'). ret (ok \<and> next = e, els')) m = Some (a, m') \<and>
      memo E N False m' \<and> (case a of (ok, els') \<Rightarrow> ok \<and> (\<exists>w. els' = els @ w \<and> derives E p s e w))"
    by (fastforce simp: bnd_def ret_def)
qed

lemma memo_notes: "memo E N d m \<Longrightarrow> memo E N d (mNotes_update f m)"
  by (simp add: memo_def)

lemma runs_anyWitness:
  assumes q: "particleAt E p = Some q" "pKind q = ParticleAny" and e: "e \<in> bodyEnds E p s"
  shows "witnesses E N (derives E p s e) els (BodyWitness W M E p s e els)"
proof -
  obtain w name where w: "pAny q = Some w" "s < size_of E" "nodes E ! s = Some name" "e = Suc s"
    and d: "derives E p s e (if localRun E then [\<lparr> emParticle = p, emIndex = s, emSchema = None \<rparr>] else [])"
    using e by (auto simp: bodyEnds_def derives_any [OF q])
  show ?thesis
    unfolding witnesses_def BodyWitness_def using q w d
    by (auto intro!: runs_ret runs_bnd [OF runs_upd, where P = "\<lambda>_. True"] memo_notes)
qed

lemma runs_BodyWitness:
  assumes ok: "ready E N" "N p = Some b" "particleAt E p = Some q" and s: "s \<le> size_of E" and e: "e \<in> bodyEnds E p s"
    and kids: "\<forall>c \<in> set (pChildren q). pKind q \<noteq> ParticleAll \<longrightarrow> matchOK E N False c (M c)"
    and wits: "\<And>c a x els. c \<in> set (pChildren q) \<Longrightarrow> pKind q \<noteq> ParticleAll \<Longrightarrow> x \<in> occEnds E c a \<Longrightarrow> a \<le> size_of E \<Longrightarrow>
      witnesses E N (occurs E c a x) els (W c a x els)"
  shows "witnesses E N (derives E p s e) els (BodyWitness W M E p s e els)"
proof (cases "pKind q")
  case ParticleElement
  then show ?thesis using e ok(3)
    by (auto simp: witnesses_def BodyWitness_def bodyEnds_def derives_element intro!: runs_ret)
next
  case ParticleAny
  then show ?thesis by (rule runs_anyWitness [OF ok(3) _ e])
next
  case ParticleChoice
  have "\<forall>c \<in> set (pChildren q). runs (memo E N False) (M c s) (\<lambda>r. set (Ends r) = occEnds E c s)"
    using kids ParticleChoice by (intro ballI matchOK_ends [OF _ s]) simp
  moreover have "\<exists>c \<in> set (pChildren q). e \<in> occEnds E c s"
    using e by (auto simp: bodyEnds_def occEnds_def derives_choice [OF ok(3) ParticleChoice])
  ultimately have "witnesses E N (\<lambda>w. \<exists>c \<in> set (pChildren q). occurs E c s e w) els
      (choiceWitness (\<lambda>c. M c s) (\<lambda>c els. W c s e els) (pChildren q) e els)"
    using wits ParticleChoice s by (intro runs_choiceWitness) auto
  then have "witnesses E N (derives E p s e) els (choiceWitness (\<lambda>c. M c s) (\<lambda>c els. W c s e els) (pChildren q) e els)"
    by (rule witnesses_weaken) (simp add: derives_choice [OF ok(3) ParticleChoice])
  then show ?thesis using ParticleChoice ok(3) by (simp add: BodyWitness_def)
next
  case ParticleSequence
  then show ?thesis using runs_sequenceWitness [OF ok(3) ParticleSequence s e, of N M W els] kids wits ok(3)
    by (simp add: BodyWitness_def)
next
  case ParticleAll
  have cache: "cacheOK E N" and present: "None \<notin> set (nodes E)" using ok(1) by (simp_all add: ready_def)
  from runs_allWitness [OF ok(3) ParticleAll cacheOK_node(1) [OF cache ok(2,3)] all_members_resolve [OF cache ok(2,3) ParticleAll] present s e]
  show ?thesis using ParticleAll ok(3) by (simp add: BodyWitness_def)
next
  case (ParticleOther k)
  have "cacheOK E N" using ok(1) by (simp add: ready_def)
  from cacheOK_node(1) [OF this ok(2,3)] have "nodeOK E q" .
  then show ?thesis using ParticleOther by (simp add: nodeOK_def)
qed

section \<open>Witnesses at every depth\<close>

lemma group_child:
  assumes "ready E N" "N p = Some b" "particleAt E p = Some q" "c \<in> set (pChildren q)"
  shows "\<exists>bc r. N c = Some bc \<and> particleAt E c = Some r \<and> pKind r \<noteq> ParticleAll"
proof -
  have cache: "cacheOK E N" "allOutermost E" using assms(1) by (simp_all add: ready_def)
  from cacheOK_node(3) [OF cache(1) assms(2-4)] obtain bc r where "N c = Some bc" "particleAt E c = Some r"
    by (auto elim: wellFormedE)
  with cache(2) assms(3,4) show ?thesis by (auto simp: allOutermost_def)
qed

lemma child_matchOK:
  assumes "ready E N" "deep E k c" "N c = Some b" "particleAt E c = Some r" "pKind r \<noteq> ParticleAll"
  shows "matchOK E N d c (matchAt k E c)"
  unfolding matchOK_def
proof (intro allI impI, rule runs_weaken [OF runs_matchAt [OF assms(1-3)]])
  fix y x
  assume "goodMatch E d c y x"
  with assms(4,5) show "Ends x = orderedPositions (occEnds E c y) \<and> goodFailure E d y (EFailure x)"
    by (simp add: goodMatch_def)
qed

lemma runs_bodyWitnessAt:
  assumes "ready E N"
  shows "deep E k p \<Longrightarrow> N p = Some b \<Longrightarrow> s \<le> size_of E \<Longrightarrow> e \<in> bodyEnds E p s \<Longrightarrow>
    witnesses E N (derives E p s e) els (bodyWitnessAt k E p s e els)"
proof (induction k arbitrary: p b s e els)
  case 0
  then show ?case by (auto elim: deepE)
next
  case (Suc k)
  from Suc.prems(1) obtain q where q: "particleAt E p = Some q" "\<forall>c \<in> set (pChildren q). deep E k c" by (auto elim: deepE)
  note child = group_child [OF assms Suc.prems(2) q(1)]
  have kids: "matchOK E N False c (matchAt k E c)" if "c \<in> set (pChildren q)" for c
    using child [OF that] child_matchOK [OF assms] q(2) that by blast
  have wits: "witnesses E N (occurs E c a x) els (Witness (bodyWitnessAt k E) (bodyAt k E) E c a x els)"
    if c: "c \<in> set (pChildren q)" and x: "x \<in> occEnds E c a" "a \<le> size_of E" for c a x els
  proof -
    obtain bc r where r: "N c = Some bc" "particleAt E c = Some r" using child [OF c] by blast
    have dc: "deep E k c" using q(2) c by simp
    have "bodyOK E N False c (bodyAt k E c)" unfolding bodyOK_def using runs_bodyAt [OF assms dc r(1)] by blast
    then show ?thesis by (rule runs_Witness [OF assms r x(2,1)]) (rule Suc.IH [OF dc r(1)])
  qed
  show ?case
    unfolding bodyWitnessAt.simps
    by (rule runs_BodyWitness [OF assms Suc.prems(2) q(1) Suc.prems(3,4)]) (use kids wits in blast)+
qed

lemma runs_witnessAt:
  assumes "ready E N" "deep E k p" "N p = Some b" "s \<le> size_of E" "e \<in> occEnds E p s"
  shows "witnesses E N (occurs E p s e) els (witnessAt k E p s e els)"
proof -
  obtain q where q: "particleAt E p = Some q" using assms(2) by (auto elim: deepE)
  have "bodyOK E N False p (bodyAt k E p)" unfolding bodyOK_def using runs_bodyAt [OF assms(1-3)] by blast
  then show ?thesis unfolding witnessAt_def
    by (rule runs_Witness [OF assms(1,3) q assms(4,5)]) (rule runs_bodyWitnessAt [OF assms(1-3)])
qed

section \<open>A whole match\<close>

lemma prepared:
  assumes "cacheOK E cache" "m = NewParticleMatcher\<lparr>mNullable := cache, mNotes := msgs\<rparr>"
  obtains ok m' where "Prepare (Suc (length (heap E))) E p [] m = Some (ok, m')" "ok \<longleftrightarrow> wellFormed E p"
    "cacheOK E (mNullable m')" "ok \<longrightarrow> mNullable m' p \<noteq> None" "memo E (mNullable m') False m'"
proof -
  have "guards E (\<lambda>p. Prepare (Suc (length (heap E))) E p []) p" by (rule Prepare_exact) simp_all
  moreover have "cacheOK E (mNullable m)" using assms by simp
  ultimately obtain ok m' where r: "Prepare (Suc (length (heap E))) E p [] m = Some (ok, m')" "grows E m m'"
    "ok \<longleftrightarrow> wellFormed E p" "ok \<longrightarrow> mNullable m' p \<noteq> None" unfolding guards_def by blast
  have same: "m' = m\<lparr>mNullable := mNullable m'\<rparr>" and cache: "cacheOK E (mNullable m')"
    using r(2) unfolding grows_def by blast+
  have "memo E (mNullable m') False m'"
    by (subst same) (simp add: assms(2) memo_def NewParticleMatcher_def)
  with r cache that show ?thesis by blast
qed

text \<open>The search after the guard has accepted the particle.\<close>

definition search :: "matchEnv \<Rightarrow> nat \<Rightarrow> nat \<Rightarrow> (MatchResult \<times> MatchFailure \<times> bool) act" where
  "search E p start = bnd (matchAt (length (heap E)) E p start) (\<lambda>endpoints.
     (case Ends endpoints of
        [] \<Rightarrow> bnd (upd (\<lambda>m. m\<lparr>mParticles := \<lambda>_. None, mBodies := \<lambda>_. None, mDiagnostics := True\<rparr>)) (\<lambda>_.
              bnd (matchAt (length (heap E)) E p start) (\<lambda>endpoints.
                case EFailure endpoints of None \<Rightarrow> panic | Some f \<Rightarrow> ret (noResult, f, False)))
      | e # _ \<Rightarrow> bnd (witnessAt (length (heap E)) E p start e []) (\<lambda>(ok, els).
              if \<not> ok then ret (noResult, schemaFailure ''content-model witness cannot be reconstructed'', False)
              else ret (\<lparr> mrNext = int e, mrElements = els \<rparr>, schemaFailure [], True))))"

definition searched :: "matchEnv \<Rightarrow> nat \<Rightarrow> nat \<Rightarrow> MatchResult \<times> MatchFailure \<times> bool \<Rightarrow> bool" where
  "searched E p s = (\<lambda>(r, f, ok).
     if occEnds E p s = {} then \<not> ok \<and> r = noResult \<and> mfSchema f = [] \<and> s \<le> mfPosition f \<and> mfPosition f \<le> size_of E
     else ok \<and> mrNext r = int (Max (occEnds E p s)) \<and> occurs E p s (Max (occEnds E p s)) (mrElements r))"

lemma orderedPositions_hd: "finite S \<Longrightarrow> orderedPositions S = e # es \<Longrightarrow> e = Max S"
proof -
  assume S: "finite S" "orderedPositions S = e # es"
  then have "set (e # es) = S" using orderedPositions_set [OF S(1)] by simp
  moreover have "sorted_list_of_set S = rev (e # es)" using S(2) by (simp add: orderedPositions_def rev_swap)
  then have "sorted (rev (e # es))" by (metis sorted_sorted_list_of_set)
  ultimately show "e = Max S" using S(1) by (intro Max_eqI [symmetric]) (auto simp: sorted_append)
qed

lemma search_exact:
  assumes ok: "ready E N" "wellFormed E p" "N p = Some b" "s \<le> size_of E" and m: "memo E N False m"
    and top: "particleAt E p = Some q"
  shows "\<exists>r m'. search E p s m = Some (r, m') \<and> mNullable m' = N \<and> searched E p s r"
proof -
  have deep: "deep E (length (heap E)) p" by (rule wellFormed_deep [OF ok(2)])
  obtain r1 m1 where first: "matchAt (length (heap E)) E p s m = Some (r1, m1)" "memo E N False m1" "goodMatch E False p s r1"
    using runsD [OF runs_matchAt [OF ok(1) deep ok(3,4)] m] by blast
  have ends: "Ends r1 = orderedPositions (occEnds E p s)" using first(3) top by (simp add: goodMatch_def)
  show ?thesis
  proof (cases "occEnds E p s = {}")
    case True
    have "memo E N True (m1\<lparr>mParticles := \<lambda>_. None, mBodies := \<lambda>_. None, mDiagnostics := True\<rparr>)"
      using first(2) by (simp add: memo_def)
    from runsD [OF runs_matchAt [OF ok(1) deep ok(3,4)] this] obtain r2 m2 where
      second: "matchAt (length (heap E)) E p s (m1\<lparr>mParticles := \<lambda>_. None, mBodies := \<lambda>_. None, mDiagnostics := True\<rparr>) = Some (r2, m2)"
      "memo E N True m2" "goodMatch E True p s r2" by blast
    from second(3) obtain f where f: "EFailure r2 = Some f" "s \<le> mfPosition f" "mfPosition f \<le> size_of E" "mfSchema f = []"
      by (auto simp: goodMatch_def goodFailure_def)
    have "mNullable m2 = N" using second(2) by (simp add: memo_def)
    with True ends first(1) second(1) f show ?thesis
      by (simp add: search_def searched_def bnd_def upd_def ret_def)
  next
    case False
    then have "Ends r1 \<noteq> []" unfolding ends by simp
    then obtain e es where e: "Ends r1 = e # es" by (cases "Ends r1") simp_all
    then have top_end: "e = Max (occEnds E p s)" using ends by (intro orderedPositions_hd) auto
    have "e \<in> occEnds E p s" unfolding top_end by (rule Max_in [OF occEnds_finite False])
    from runsD [OF runs_witnessAt [OF ok(1) deep ok(3,4) this, of "[]", unfolded witnesses_def] first(2)] obtain w m2 where
      "witnessAt (length (heap E)) E p s e [] m1 = Some ((True, w), m2)" "memo E N False m2" "occurs E p s e w" by fastforce
    with False e first(1) top_end show ?thesis
      by (auto simp: search_def searched_def bnd_def ret_def memo_def)
  qed
qed

lemma Run_cases:
  assumes "0 \<le> position" "position \<le> int (size_of E)" "particleAt E p \<noteq> None" "None \<notin> set (nodes E)"
  shows "Run E p position = bnd (Prepare (Suc (length (heap E))) E p []) (\<lambda>ok.
    if \<not> ok then ret (noResult, schemaFailure ''invalid or cyclic content-model metadata'', False) else search E p (nat position))"
proof -
  have c: "\<not> (position < 0 \<or> int (size_of E) < position)" using assms(1,2) by simp
  show ?thesis
    unfolding Run_def search_def Let_def if_not_P [OF c] if_not_P [OF assms(3)] if_not_P [OF assms(4)] ..
qed

lemma MatchParticle_searched:
  assumes "cacheOK E cache" "allOutermost E" "0 \<le> position" "position \<le> int (size_of E)" "None \<notin> set (nodes E)" "wellFormed E p"
  shows "\<exists>r cache' msgs'. MatchParticle E cache msgs p position = Some (r, cache', msgs') \<and> cacheOK E cache' \<and>
    searched E p (nat position) r"
proof -
  obtain q where q: "particleAt E p = Some q" using assms(6) by (auto elim: wellFormedE)
  define m where "m = NewParticleMatcher\<lparr>mNullable := cache, mNotes := msgs\<rparr>"
  obtain ok m' where prep: "Prepare (Suc (length (heap E))) E p [] m = Some (ok, m')" "ok \<longleftrightarrow> wellFormed E p"
    "cacheOK E (mNullable m')" "ok \<longrightarrow> mNullable m' p \<noteq> None" "memo E (mNullable m') False m'"
    by (rule prepared [OF assms(1) m_def])
  from prep(2,4) assms(6) obtain b where b: "ok" "mNullable m' p = Some b" by auto
  have "ready E (mNullable m')" using prep(3) assms(2,5) by (simp add: ready_def)
  moreover have "nat position \<le> size_of E" using assms(4) by linarith
  ultimately obtain r m'' where
    r: "search E p (nat position) m' = Some (r, m'')" "mNullable m'' = mNullable m'" "searched E p (nat position) r"
    using search_exact [OF _ assms(6) b(2) _ prep(5) q] by blast
  have "Run E p position m = Some (r, m'')"
    using Run_cases [OF assms(3,4) _ assms(5), of p] q prep(1) b(1) r(1) by (simp add: bnd_def)
  with r prep(3) show ?thesis by (simp add: MatchParticle_def m_def)
qed

lemma MatchParticle_refused:
  assumes "cacheOK E cache" "\<not> (0 \<le> position \<and> position \<le> int (size_of E) \<and>
    (particleAt E p = None \<or> None \<notin> set (nodes E) \<and> wellFormed E p))"
  shows "\<exists>f cache' msgs'. MatchParticle E cache msgs p position = Some ((noResult, f, False), cache', msgs') \<and> cacheOK E cache'"
proof (cases "0 \<le> position \<and> position \<le> int (size_of E) \<and> particleAt E p \<noteq> None \<and> None \<notin> set (nodes E)")
  case True
  define m where "m = NewParticleMatcher\<lparr>mNullable := cache, mNotes := msgs\<rparr>"
  obtain ok m' where prep: "Prepare (Suc (length (heap E))) E p [] m = Some (ok, m')" "ok \<longleftrightarrow> wellFormed E p" "cacheOK E (mNullable m')"
    by (rule prepared [OF assms(1) m_def])
  with True assms(2) Run_cases [of position E p] have
    "Run E p position m = Some ((noResult, schemaFailure ''invalid or cyclic content-model metadata'', False), m')"
    by (simp add: bnd_def ret_def)
  with prep(3) show ?thesis by (simp add: MatchParticle_def m_def)
next
  case False
  then show ?thesis using assms by (auto simp: MatchParticle_def Run_def ret_def)
qed

text \<open>
  C1: MatchParticle decides the content model. Given a nullability cache that is right, it always returns,
  without dereferencing a nil pointer or slicing out of range, and leaves the cache right. It accepts exactly
  when the position lies within the children and either there is no particle or all children are present,
  the particle graph is well formed and some occurrence of the particle starts at the position. An accepted
  match ends at the greatest endpoint of any occurrence, and the reported assignments of children to
  declarations are a derivation of that occurrence, although the search itself only ever keeps sets of
  endpoints.
\<close>
theorem content_match_exact:
  assumes "cacheOK E cache" "allOutermost E"
  shows "\<exists>r f ok cache' msgs'. MatchParticle E cache msgs p position = Some ((r, f, ok), cache', msgs') \<and> cacheOK E cache' \<and>
    (ok \<longleftrightarrow> 0 \<le> position \<and> position \<le> int (size_of E) \<and>
       (particleAt E p = None \<or> None \<notin> set (nodes E) \<and> wellFormed E p \<and> (\<exists>e w. occurs E p (nat position) e w))) \<and>
    (ok \<and> particleAt E p = None \<longrightarrow> mrNext r = position \<and> mrElements r = []) \<and>
    (ok \<and> particleAt E p \<noteq> None \<longrightarrow> (\<exists>e. mrNext r = int e \<and> occurs E p (nat position) e (mrElements r) \<and>
       (\<forall>e' w. occurs E p (nat position) e' w \<longrightarrow> e' \<le> e)))"
proof -
  consider (refused) "\<not> (0 \<le> position \<and> position \<le> int (size_of E) \<and> (particleAt E p = None \<or> None \<notin> set (nodes E) \<and> wellFormed E p))"
    | (nil) "0 \<le> position" "position \<le> int (size_of E)" "particleAt E p = None"
    | (search) "0 \<le> position" "position \<le> int (size_of E)" "None \<notin> set (nodes E)" "wellFormed E p"
    by blast
  then show ?thesis
  proof cases
    case refused
    obtain f cache' msgs' where "MatchParticle E cache msgs p position = Some ((noResult, f, False), cache', msgs')" "cacheOK E cache'"
      using MatchParticle_refused [OF assms(1) refused, of msgs] by blast
    then show ?thesis using refused by (intro exI conjI) auto
  next
    case nil
    then show ?thesis using assms(1) by (auto simp: MatchParticle_def Run_def ret_def)
  next
    case search
    have some: "particleAt E p \<noteq> None" using search(4) by (auto elim: wellFormedE)
    from MatchParticle_searched [OF assms search(1,2,3,4), of msgs] obtain r f ok cache' msgs' where
      r: "MatchParticle E cache msgs p position = Some ((r, f, ok), cache', msgs')" "cacheOK E cache'"
      "searched E p (nat position) (r, f, ok)" by (metis prod_cases3)
    have acc: "ok \<longleftrightarrow> (\<exists>e w. occurs E p (nat position) e w)" using r(3) by (auto simp: searched_def occEnds_def split: if_splits)
    have best: "\<exists>e. mrNext r = int e \<and> occurs E p (nat position) e (mrElements r) \<and> (\<forall>e' w. occurs E p (nat position) e' w \<longrightarrow> e' \<le> e)" if ok
      using r(3) that Max_ge [OF occEnds_finite, of _ E p "nat position"]
      by (intro exI [of _ "Max (occEnds E p (nat position))"]) (auto simp: searched_def occEnds_def split: if_splits)
    show ?thesis
    proof (intro exI conjI)
      show "MatchParticle E cache msgs p position = Some ((r, f, ok), cache', msgs')" by (rule r(1))
      show "cacheOK E cache'" by (rule r(2))
      show "ok \<longleftrightarrow> 0 \<le> position \<and> position \<le> int (size_of E) \<and>
          (particleAt E p = None \<or> None \<notin> set (nodes E) \<and> wellFormed E p \<and> (\<exists>e w. occurs E p (nat position) e w))"
        using acc some search by blast
    qed (use some best in blast)+
  qed
qed

lemma sample_outermost: "allOutermost (sampleEnv names)"
proof -
  have "\<forall>q \<in> set (heap (sampleEnv names)). pKind q \<noteq> ParticleAll" by (simp add: sampleEnv_def sampleElement_def sampleGroup_def)
  then show ?thesis unfolding allOutermost_def particleAt_def by (auto split: if_splits)
qed

text \<open>The children \<open>a b c\<close> are accepted whole; of \<open>a c a\<close> only the first two are.\<close>

theorem content_match_exact_witness:
  "(\<exists>w. occurs (sampleEnv [''a'', ''b'', ''c'']) 0 0 3 w) \<and> \<not> (\<exists>w. occurs (sampleEnv [''a'', ''c'', ''a'']) 0 0 3 w)"
proof -
  note exact = content_match_exact [OF empty_cacheOK sample_outermost, where msgs = "[]" and p = 0 and position = 0]
  have some: "particleAt (sampleEnv names) 0 \<noteq> None" for names by (simp add: particleAt_def sampleEnv_def)
  have "map_option (\<lambda>((r, f, ok), _). (mrNext r, ok)) (MatchParticle (sampleEnv [''a'', ''b'', ''c'']) (mNullable NewParticleMatcher) [] 0 0)
      = Some (3, True)" by code_simp
  moreover have "map_option (\<lambda>((r, f, ok), _). (mrNext r, ok)) (MatchParticle (sampleEnv [''a'', ''c'', ''a'']) (mNullable NewParticleMatcher) [] 0 0)
      = Some (2, True)" by code_simp
  ultimately show ?thesis
    using exact [of "[''a'', ''b'', ''c'']"] exact [of "[''a'', ''c'', ''a'']"] some by force
qed

text \<open>
  C2: A rejection is located. When the particle graph is well formed and all children are present but no
  occurrence starts at the position, MatchParticle replays the search with diagnostics; the replay always
  yields a failure (so that the program's dereference of it is safe), which is not a schema error, and its
  position lies between the start and the number of children.
\<close>
theorem content_failure_located:
  assumes "cacheOK E cache" "allOutermost E" "0 \<le> position" "position \<le> int (size_of E)" "None \<notin> set (nodes E)" "wellFormed E p"
    and "\<forall>e w. \<not> occurs E p (nat position) e w"
  shows "\<exists>f cache' msgs'. MatchParticle E cache msgs p position = Some ((noResult, f, False), cache', msgs') \<and>
    mfSchema f = [] \<and> nat position \<le> mfPosition f \<and> mfPosition f \<le> size_of E"
proof -
  have "occEnds E p (nat position) = {}" using assms(7) by (auto simp: occEnds_def)
  with MatchParticle_searched [OF assms(1-6), of msgs] show ?thesis by (fastforce simp: searched_def)
qed

text \<open>A required \<open>c\<close> alone, with no children at all.\<close>

definition bareEnv :: matchEnv where
  "bareEnv = (sampleEnv [])\<lparr>heap := [sampleElement ''c'' 1 1]\<rparr>"

theorem content_failure_located_witness:
  "\<exists>f cache' msgs'. MatchParticle bareEnv (mNullable NewParticleMatcher) [] 0 0 = Some ((noResult, f, False), cache', msgs') \<and>
    mfSchema f = [] \<and> mfPosition f = 0"
proof -
  have at: "particleAt bareEnv 0 = Some (sampleElement ''c'' 1 1)" by (simp add: particleAt_def bareEnv_def)
  have "wellFormed bareEnv 0" using at by (auto simp: wellFormed_iff nodeOK_def sampleElement_def ResolveElement_def)
  moreover have "\<forall>e w. \<not> occurs bareEnv 0 (nat 0) e w"
    using at by (auto elim!: occursE simp: sampleElement_def repeats_one le_Suc_eq derives_element bareEnv_def sampleEnv_def)
  moreover have "allOutermost bareEnv" using at by (auto simp: allOutermost_def particleAt_def bareEnv_def sampleElement_def split: if_splits)
  ultimately show ?thesis
    using content_failure_located [OF empty_cacheOK, of bareEnv 0 0 "[]"] by (fastforce simp: bareEnv_def sampleEnv_def)
qed

end
