(* ===== verification/Xsd_Prefix.thy ===== *)
theory Xsd_Prefix
  imports Xsd_Particles
begin

text \<open>
  Prefix binding (\<^verbatim>\<open>internal/xsd/prefix.go\<close>): a push matcher that consumes the children of an element one by one
  and binds each to the leaf particle its prefix determines. A configuration is the path of open particles
  from the leaf that consumed the latest child up to the root, here the list of its frames, the leaf first;
  the nodes of the program are immutable, so sharing is not observable. The search of one child and the
  matcher are explicit state. The recursion of the search takes a depth as fuel; running out of it, a nil
  dereference and an index out of range are \<open>None\<close>. Counts are natural numbers: a count only grows below
  \<open>Max\<close> or \<open>Min\<close>, which fit in 64 bits.
\<close>

section \<open>Configurations and the state of a search\<close>

record prefixFrame =
  fParticle :: nat
  fCount :: nat
  fIndex :: nat
  fUsed :: "bool list"
  fConsumed :: bool

type_synonym prefixNode = "prefixFrame list"

definition prefixStateLimit :: nat where "prefixStateLimit = 64"
definition prefixVisitLimit :: nat where "prefixVisitLimit = 4096"

record prefixSearch =
  sOut :: "prefixNode list"
  sKeys :: "nat list list"
  sVisited :: "nat list list"
  sOverflow :: bool

type_synonym 'a sact = "(prefixSearch, 'a) action"

definition NewPrefixSearch :: prefixSearch where
  "NewPrefixSearch = \<lparr> sOut = [], sKeys = [], sVisited = [], sOverflow = False \<rparr>"

definition newFrame :: "nat \<Rightarrow> prefixFrame" where
  "newFrame p = \<lparr> fParticle = p, fCount = 0, fIndex = 0, fUsed = [], fConsumed = False \<rparr>"

text \<open>
  The key of a configuration, one number for each field the program writes: the kind of the entry point, then
  for every frame the identity of its particle, its count and index, its flag and its marks.
\<close>

definition frameKey :: "prefixFrame \<Rightarrow> nat list" where
  "frameKey f = [fParticle f, fCount f, fIndex f, if fConsumed f then 1 else 0] @ map (\<lambda>used. if used then 1 else 0) (fUsed f)"

definition configKey :: "char \<Rightarrow> prefixNode \<Rightarrow> nat list" where
  "configKey kind node = byte kind # concat (map frameKey node)"

definition prefixSeen :: "char \<Rightarrow> prefixNode \<Rightarrow> bool sact" where
  "prefixSeen kind node = bnd (get id) (\<lambda>s.
     if sOverflow s \<or> configKey kind node \<in> set (sVisited s) then ret True
     else bnd (upd (\<lambda>s. s\<lparr>sVisited := configKey kind node # sVisited s\<rparr>)) (\<lambda>_.
       if prefixVisitLimit < Suc (length (sVisited s)) then bnd (upd (\<lambda>s. s\<lparr>sOverflow := True\<rparr>)) (\<lambda>_. ret True)
       else ret False))"

definition prefixAccepts :: "matchEnv \<Rightarrow> QName \<Rightarrow> nat \<Rightarrow> bool option" where
  "prefixAccepts E child p =
     (case particleAt E p of None \<Rightarrow> None
      | Some q \<Rightarrow>
        (case pKind q of
           ParticleElement \<Rightarrow> Some (case ResolveElement E (pElement q) of None \<Rightarrow> False | Some e \<Rightarrow> child = eName e)
         | ParticleAny \<Rightarrow>
             if \<not> localRun E then Some True
             else map_option (\<lambda>w. allowed (wildcardNamespace (uriOK E) (wNamespace w) (Space child))) (pAny q)
         | _ \<Rightarrow> Some False))"

definition acceptThen :: "bool option \<Rightarrow> unit sact \<Rightarrow> unit sact" where
  "acceptThen accepts act = (case accepts of None \<Rightarrow> panic | Some True \<Rightarrow> act | Some False \<Rightarrow> ret ())"

definition prefixEmit :: "prefixNode \<Rightarrow> unit sact" where
  "prefixEmit node = bnd (get id) (\<lambda>s.
     if sOverflow s then ret ()
     else let out = map (\<lambda>f. f\<lparr>fConsumed := True\<rparr>) node in
       if configKey CHR ''e'' out \<in> set (sKeys s) then ret ()
       else bnd (upd (\<lambda>s. s\<lparr>sKeys := configKey CHR ''e'' out # sKeys s\<rparr>)) (\<lambda>_.
         if length (sOut s) = prefixStateLimit then upd (\<lambda>s. s\<lparr>sOverflow := True\<rparr>)
         else upd (\<lambda>s. s\<lparr>sOut := sOut s @ [out]\<rparr>)))"

section \<open>The search\<close>

definition allMembersStep :: "matchEnv \<Rightarrow> QName \<Rightarrow> prefixFrame \<Rightarrow> prefixNode \<Rightarrow> nat \<times> nat \<Rightarrow> unit sact" where
  "allMembersStep E child f rest = (\<lambda>(i, m).
     (case particleAt E m of None \<Rightarrow> panic
      | Some member \<Rightarrow>
        if length (fUsed f) \<le> i then panic
        else if fUsed f ! i \<or> maxOf member = 0 then ret ()
        else acceptThen (prefixAccepts E child m) (prefixEmit (newFrame m # f\<lparr>fIndex := i\<rparr> # rest))))"

definition allMembers :: "matchEnv \<Rightarrow> QName \<Rightarrow> ParticleSchema \<Rightarrow> prefixFrame \<Rightarrow> prefixNode \<Rightarrow> unit sact" where
  "allMembers E child q f rest = each (\<lambda>im _. allMembersStep E child f rest im) (enumerate 0 (pChildren q)) ()"

definition allMissingMember :: "matchEnv \<Rightarrow> bool list \<Rightarrow> nat \<times> nat \<Rightarrow> bool" where
  "allMissingMember E used = (\<lambda>(i, m).
     (case particleAt E m of None \<Rightarrow> False | Some member \<Rightarrow> \<not> used ! i \<and> 0 < minOf member \<and> 0 < maxOf member))"

text \<open>
  Another occurrence of the particle of the node frame, with the search below it as an argument; then the
  search after a particle has left; then completing an occurrence that consumed a child.
\<close>

definition startBody :: "(prefixNode \<Rightarrow> unit sact) \<Rightarrow> matchEnv \<Rightarrow> QName \<Rightarrow> ParticleSchema \<Rightarrow> prefixFrame \<Rightarrow> prefixNode \<Rightarrow> unit sact" where
  "startBody start E child q f rest =
     (let fresh = (newFrame (fParticle f))\<lparr>fCount := fCount f\<rparr> in
      case pKind q of
        ParticleElement \<Rightarrow> acceptThen (prefixAccepts E child (fParticle f)) (prefixEmit (fresh # rest))
      | ParticleAny \<Rightarrow> acceptThen (prefixAccepts E child (fParticle f)) (prefixEmit (fresh # rest))
      | ParticleSequence \<Rightarrow> (case pChildren q of [] \<Rightarrow> ret () | c # cs \<Rightarrow> start (newFrame c # fresh # rest))
      | ParticleChoice \<Rightarrow>
          each (\<lambda>(i, c) _. start (newFrame c # fresh\<lparr>fIndex := i\<rparr> # rest)) (enumerate 0 (pChildren q)) ()
      | ParticleAll \<Rightarrow> allMembers E child q (fresh\<lparr>fUsed := replicate (length (pChildren q)) False\<rparr>) rest
      | ParticleOther k \<Rightarrow> ret ())"

definition finished :: "ParticleSchema \<Rightarrow> prefixFrame \<Rightarrow> prefixFrame" where
  "finished q f = (if \<not> unboundedOf q \<or> fCount f < minOf q then f\<lparr>fCount := Suc (fCount f)\<rparr> else f)"

definition prefixFinish :: "(prefixNode \<Rightarrow> unit sact) \<Rightarrow> matchEnv \<Rightarrow> prefixNode \<Rightarrow> unit sact" where
  "prefixFinish start E node =
     (case node of [] \<Rightarrow> panic
      | f # rest \<Rightarrow> (case particleAt E (fParticle f) of None \<Rightarrow> panic | Some q \<Rightarrow> start (finished q f # rest)))"

definition leaveBody :: "(prefixNode \<Rightarrow> unit sact) \<Rightarrow> matchEnv \<Rightarrow> QName \<Rightarrow> ParticleSchema \<Rightarrow> prefixFrame \<Rightarrow> prefixNode \<Rightarrow> unit sact" where
  "leaveBody start E child q f rest =
     (let complete = (\<lambda>f. if fConsumed f then prefixFinish start E (f # rest) else ret ()) in
      case pKind q of
        ParticleSequence \<Rightarrow>
          if Suc (fIndex f) < length (pChildren q)
          then start (newFrame (pChildren q ! Suc (fIndex f)) # f\<lparr>fIndex := Suc (fIndex f)\<rparr> # rest)
          else complete f
      | ParticleAll \<Rightarrow>
          if length (fUsed f) \<le> fIndex f then panic
          else let f' = f\<lparr>fUsed := (fUsed f)[fIndex f := True]\<rparr> in
            bnd (allMembers E child q f' rest) (\<lambda>_.
              if list_ex (allMissingMember E (fUsed f')) (enumerate 0 (pChildren q)) then ret () else complete f')
      | _ \<Rightarrow> complete f)"

fun start :: "nat \<Rightarrow> matchEnv \<Rightarrow> (nat \<Rightarrow> bool option) \<Rightarrow> QName \<Rightarrow> prefixNode \<Rightarrow> unit sact"
  and leave :: "nat \<Rightarrow> matchEnv \<Rightarrow> (nat \<Rightarrow> bool option) \<Rightarrow> QName \<Rightarrow> prefixNode \<Rightarrow> unit sact" where
  "start 0 E N child node = panic"
| "start (Suc n) E N child node =
     bnd (prefixSeen CHR ''s'' node) (\<lambda>seen. if seen then ret () else
       (case node of [] \<Rightarrow> panic
        | f # rest \<Rightarrow> (case particleAt E (fParticle f) of None \<Rightarrow> panic
            | Some q \<Rightarrow>
              bnd (if unboundedOf q \<or> fCount f < maxOf q then startBody (start n E N child) E child q f rest else ret ()) (\<lambda>_.
                if minOf q \<le> fCount f \<or> N (fParticle f) = Some True then leave n E N child rest else ret ()))))"
| "leave 0 E N child node = panic"
| "leave (Suc n) E N child node =
     (case node of [] \<Rightarrow> ret ()
      | f # rest \<Rightarrow>
        bnd (prefixSeen CHR ''l'' node) (\<lambda>seen. if seen then ret () else
          (case particleAt E (fParticle f) of None \<Rightarrow> panic
           | Some q \<Rightarrow> leaveBody (start n E N child) E child q f rest)))"

definition prefixDepth :: nat where "prefixDepth = prefixVisitLimit + 2"

section \<open>The push matcher\<close>

record prefixMatcher =
  pmParticle :: nat
  pmNullable :: "nat \<Rightarrow> bool option"
  pmStates :: "prefixNode list"
  pmNext :: nat
  pmStopped :: bool
  pmAmbiguous :: bool

text \<open>The matcher over a prepared particle, with the nullability cache the guard leaves behind.\<close>

definition newPrefixMatcher :: "matchEnv \<Rightarrow> (nat \<Rightarrow> bool option) \<Rightarrow> nat \<Rightarrow> (prefixMatcher option \<times> (nat \<Rightarrow> bool option)) option" where
  "newPrefixMatcher E cache p =
     (if particleAt E p = None then Some (None, cache)
      else map_option (\<lambda>(ok, m).
          (if ok then Some \<lparr> pmParticle = p, pmNullable = mNullable m, pmStates = [], pmNext = 0, pmStopped = False, pmAmbiguous = False \<rparr>
           else None, mNullable m))
        (Prepare (Suc (length (heap E))) E p [] (NewParticleMatcher\<lparr>mNullable := cache\<rparr>)))"

definition pushSearch :: "nat \<Rightarrow> matchEnv \<Rightarrow> QName \<Rightarrow> prefixMatcher \<Rightarrow> unit sact" where
  "pushSearch n E child m =
     bnd (if pmNext m = 0 then start n E (pmNullable m) child [newFrame (pmParticle m)] else ret ()) (\<lambda>_.
       each (\<lambda>state _. prefixFinish (start n E (pmNullable m) child) E state) (pmStates m) ())"

definition leafOf :: "prefixNode \<Rightarrow> nat" where
  "leafOf node = fParticle (hd node)"

text \<open>The match of a bound child, with the messages of the context that a wildcard adds to.\<close>

definition leafMatch :: "matchEnv \<Rightarrow> QName \<Rightarrow> nat \<Rightarrow> nat \<Rightarrow> string list \<Rightarrow> (ElementMatch \<times> string list) option" where
  "leafMatch E child leaf index msgs =
     (case particleAt E leaf of None \<Rightarrow> None
      | Some q \<Rightarrow>
        if pKind q = ParticleElement then
          Some (\<lparr> emParticle = leaf, emIndex = index, emSchema = ResolveElement E (pElement q) \<rparr>, msgs)
        else if localRun E then
          (case pAny q of None \<Rightarrow> None
           | Some w \<Rightarrow> Some (\<lparr> emParticle = leaf, emIndex = index, emSchema = None \<rparr>,
               noteWildcardAdmission (wildcardNamespace (uriOK E) (wNamespace w) (Space child)) (wProcess w) msgs))
        else Some (\<lparr> emParticle = leaf, emIndex = index, emSchema = None \<rparr>, msgs))"

definition push :: "nat \<Rightarrow> matchEnv \<Rightarrow> QName option \<Rightarrow> prefixMatcher \<Rightarrow> string list \<Rightarrow> (ElementMatch option \<times> prefixMatcher \<times> string list) option" where
  "push n E child m msgs =
     (case child of
        None \<Rightarrow> Some (None, m\<lparr>pmStopped := True\<rparr>, msgs)
      | Some name \<Rightarrow>
        if pmStopped m then Some (None, m, msgs)
        else (case pushSearch n E name m NewPrefixSearch of
            None \<Rightarrow> None
          | Some (_, s) \<Rightarrow>
              let out = sOut s; stop = (sOverflow s \<or> out = []); leaf = leafOf (hd out);
                  mixed = (\<not> stop \<and> list_ex (\<lambda>state. leafOf state \<noteq> leaf) (tl out))
              in if stop \<or> mixed
                 then Some (None, m\<lparr>pmStates := [], pmStopped := True, pmAmbiguous := sOverflow s \<or> mixed\<rparr>, msgs)
                 else map_option (\<lambda>(match, msgs'). (Some match, m\<lparr>pmStates := out, pmNext := Suc (pmNext m)\<rparr>, msgs'))
                   (leafMatch E name leaf (pmNext m) msgs)))"

primrec pushAll :: "nat \<Rightarrow> matchEnv \<Rightarrow> QName option list \<Rightarrow> prefixMatcher \<Rightarrow> string list \<Rightarrow> (ElementMatch list \<times> prefixMatcher \<times> string list) option" where
  "pushAll n E [] m msgs = Some ([], m, msgs)"
| "pushAll n E (child # children) m msgs =
     (case push n E child m msgs of
        None \<Rightarrow> None
      | Some (None, m', msgs') \<Rightarrow> Some ([], m', msgs')
      | Some (Some match, m', msgs') \<Rightarrow> map_option (\<lambda>(els, r). (match # els, r)) (pushAll n E children m' msgs'))"

definition prefixMatches :: "matchEnv \<Rightarrow> (nat \<Rightarrow> bool option) \<Rightarrow> string list \<Rightarrow> nat \<Rightarrow> (ElementMatch list \<times> (nat \<Rightarrow> bool option) \<times> string list) option" where
  "prefixMatches E cache msgs p =
     (case newPrefixMatcher E cache p of
        None \<Rightarrow> None
      | Some (None, cache') \<Rightarrow> Some ([], cache', msgs)
      | Some (Some m, cache') \<Rightarrow> map_option (\<lambda>(els, m', msgs'). (els, cache', msgs')) (pushAll prefixDepth E (nodes E) m msgs))"

end
