(* ===== verification/Xsd_Exploration.thy ===== *)
theory Xsd_Exploration
  imports Xsd_Prefix Xsd_Content
begin

text \<open>
  The search of the push matcher as a graph exploration. Its points are the two entry points with their
  configurations; the edges and the configurations a point emits are stated here without keys, limits or
  fuel. The depth-first search ends on every input, because the number of points it may record is bounded,
  and unless it overflows it records every point it can reach and keeps every configuration they emit.
\<close>

section \<open>Points, edges and emitted configurations\<close>

datatype point = StartP prefixNode | LeaveP prefixNode

abbreviation consumedFrame :: "prefixFrame \<Rightarrow> prefixFrame" where
  "consumedFrame f \<equiv> f\<lparr>fConsumed := True\<rparr>"

abbreviation consumedAll :: "prefixNode \<Rightarrow> prefixNode" where
  "consumedAll \<equiv> map consumedFrame"

definition freshFrame :: "prefixFrame \<Rightarrow> prefixFrame" where
  "freshFrame f = (newFrame (fParticle f))\<lparr>fCount := fCount f\<rparr>"

definition leafAccepts :: "matchEnv \<Rightarrow> QName \<Rightarrow> nat \<Rightarrow> bool" where
  "leafAccepts E x p \<longleftrightarrow> prefixAccepts E x p = Some True"

definition memberNodes :: "matchEnv \<Rightarrow> QName \<Rightarrow> ParticleSchema \<Rightarrow> prefixFrame \<Rightarrow> prefixNode \<Rightarrow> prefixNode set" where
  "memberNodes E x q f r = {consumedAll (newFrame (pChildren q ! i) # f\<lparr>fIndex := i\<rparr> # r) | i.
     i < length (pChildren q) \<and> \<not> fUsed f ! i \<and> isActive E (pChildren q ! i) \<and> leafAccepts E x (pChildren q ! i)}"

definition roomFor :: "ParticleSchema \<Rightarrow> prefixFrame \<Rightarrow> bool" where
  "roomFor q f \<longleftrightarrow> unboundedOf q \<or> fCount f < maxOf q"

definition startSuccs :: "ParticleSchema \<Rightarrow> prefixFrame \<Rightarrow> prefixNode \<Rightarrow> point set" where
  "startSuccs q f r =
     (case pKind q of
        ParticleSequence \<Rightarrow> if pChildren q = [] then {} else {StartP (newFrame (hd (pChildren q)) # freshFrame f # r)}
      | ParticleChoice \<Rightarrow> {StartP (newFrame (pChildren q ! i) # (freshFrame f)\<lparr>fIndex := i\<rparr> # r) | i. i < length (pChildren q)}
      | _ \<Rightarrow> {})"

definition startEmits :: "matchEnv \<Rightarrow> QName \<Rightarrow> ParticleSchema \<Rightarrow> prefixFrame \<Rightarrow> prefixNode \<Rightarrow> prefixNode set" where
  "startEmits E x q f r =
     (case pKind q of
        ParticleElement \<Rightarrow> if leafAccepts E x (fParticle f) then {consumedAll (freshFrame f # r)} else {}
      | ParticleAny \<Rightarrow> if leafAccepts E x (fParticle f) then {consumedAll (freshFrame f # r)} else {}
      | ParticleAll \<Rightarrow> memberNodes E x q ((freshFrame f)\<lparr>fUsed := replicate (length (pChildren q)) False\<rparr>) r
      | _ \<Rightarrow> {})"

definition usedFrame :: "prefixFrame \<Rightarrow> prefixFrame" where
  "usedFrame f = f\<lparr>fUsed := (fUsed f)[fIndex f := True]\<rparr>"

definition completed :: "ParticleSchema \<Rightarrow> prefixFrame \<Rightarrow> prefixNode \<Rightarrow> point set" where
  "completed q f r = (if fConsumed f then {StartP (finished q f # r)} else {})"

definition memberMissing :: "matchEnv \<Rightarrow> ParticleSchema \<Rightarrow> bool list \<Rightarrow> bool" where
  "memberMissing E q used \<longleftrightarrow> (\<exists>i < length (pChildren q). \<not> used ! i \<and> isRequired E (pChildren q ! i) \<and> isActive E (pChildren q ! i))"

definition leaveSuccs :: "matchEnv \<Rightarrow> ParticleSchema \<Rightarrow> prefixFrame \<Rightarrow> prefixNode \<Rightarrow> point set" where
  "leaveSuccs E q f r =
     (case pKind q of
        ParticleSequence \<Rightarrow>
          if Suc (fIndex f) < length (pChildren q)
          then {StartP (newFrame (pChildren q ! Suc (fIndex f)) # f\<lparr>fIndex := Suc (fIndex f)\<rparr> # r)}
          else completed q f r
      | ParticleAll \<Rightarrow> if memberMissing E q (fUsed (usedFrame f)) then {} else completed q (usedFrame f) r
      | _ \<Rightarrow> completed q f r)"

fun succs :: "matchEnv \<Rightarrow> (nat \<Rightarrow> bool option) \<Rightarrow> point \<Rightarrow> point set" where
  "succs E N (StartP (f # r)) =
     (case particleAt E (fParticle f) of None \<Rightarrow> {}
      | Some q \<Rightarrow> (if roomFor q f then startSuccs q f r else {}) \<union>
          (if minOf q \<le> fCount f \<or> N (fParticle f) = Some True then {LeaveP r} else {}))"
| "succs E N (LeaveP (f # r)) = (case particleAt E (fParticle f) of None \<Rightarrow> {} | Some q \<Rightarrow> leaveSuccs E q f r)"
| "succs E N _ = {}"

fun emitted :: "matchEnv \<Rightarrow> QName \<Rightarrow> point \<Rightarrow> prefixNode set" where
  "emitted E x (StartP (f # r)) =
     (case particleAt E (fParticle f) of None \<Rightarrow> {} | Some q \<Rightarrow> if roomFor q f then startEmits E x q f r else {})"
| "emitted E x (LeaveP (f # r)) =
     (case particleAt E (fParticle f) of None \<Rightarrow> {}
      | Some q \<Rightarrow> if pKind q = ParticleAll then memberNodes E x q (usedFrame f) r else {})"
| "emitted E x _ = {}"

text \<open>
  Frames of prepared particles. The marks of an all group have one entry for each member, except in a frame
  that was just opened.
\<close>

definition innerOK :: "matchEnv \<Rightarrow> (nat \<Rightarrow> bool option) \<Rightarrow> prefixFrame \<Rightarrow> bool" where
  "innerOK E N f \<longleftrightarrow> N (fParticle f) \<noteq> None \<and> (\<exists>q. particleAt E (fParticle f) = Some q \<and>
     (if pKind q = ParticleAll then length (fUsed f) = length (pChildren q) \<and> fIndex f < length (pChildren q) else fUsed f = []))"

definition topOK :: "matchEnv \<Rightarrow> (nat \<Rightarrow> bool option) \<Rightarrow> prefixFrame \<Rightarrow> bool" where
  "topOK E N f \<longleftrightarrow> N (fParticle f) \<noteq> None \<and> (\<exists>q. particleAt E (fParticle f) = Some q \<and>
     (if pKind q = ParticleAll \<and> fConsumed f then length (fUsed f) = length (pChildren q) else fUsed f = []))"

fun pointOK :: "matchEnv \<Rightarrow> (nat \<Rightarrow> bool option) \<Rightarrow> point \<Rightarrow> bool" where
  "pointOK E N (StartP (f # r)) \<longleftrightarrow> topOK E N f \<and> (\<forall>g \<in> set r. innerOK E N g)"
| "pointOK E N (StartP []) \<longleftrightarrow> False"
| "pointOK E N (LeaveP r) \<longleftrightarrow> (\<forall>g \<in> set r. innerOK E N g)"

definition stateOK :: "matchEnv \<Rightarrow> (nat \<Rightarrow> bool option) \<Rightarrow> prefixNode \<Rightarrow> bool" where
  "stateOK E N c \<longleftrightarrow> c \<noteq> [] \<and> (\<forall>g \<in> set c. innerOK E N g) \<and>
     (\<exists>q. particleAt E (fParticle (hd c)) = Some q \<and> pKind q \<in> {ParticleElement, ParticleAny})"

lemma innerOK_at: "particleAt E (fParticle f) = Some q \<Longrightarrow> innerOK E N f \<longleftrightarrow> N (fParticle f) \<noteq> None \<and>
    (if pKind q = ParticleAll then length (fUsed f) = length (pChildren q) \<and> fIndex f < length (pChildren q) else fUsed f = [])"
  by (simp add: innerOK_def)

lemma topOK_at: "particleAt E (fParticle f) = Some q \<Longrightarrow> topOK E N f \<longleftrightarrow> N (fParticle f) \<noteq> None \<and>
    (if pKind q = ParticleAll \<and> fConsumed f then length (fUsed f) = length (pChildren q) else fUsed f = [])"
  by (simp add: topOK_def)

lemma innerOK_consumed [simp]: "innerOK E N (consumedFrame f) \<longleftrightarrow> innerOK E N f"
  by (simp add: innerOK_def)

lemma innerOK_consumed_all [simp]: "(\<forall>g \<in> consumedFrame ` set r. innerOK E N g) \<longleftrightarrow> (\<forall>g \<in> set r. innerOK E N g)"
  by auto

lemma newFrame_sel [simp]:
  "fParticle (newFrame p) = p" "fCount (newFrame p) = 0" "fIndex (newFrame p) = 0" "fUsed (newFrame p) = []" "\<not> fConsumed (newFrame p)"
  by (simp_all add: newFrame_def)

lemma freshFrame_sel [simp]:
  "fParticle (freshFrame f) = fParticle f" "fCount (freshFrame f) = fCount f" "fIndex (freshFrame f) = 0" "fUsed (freshFrame f) = []"
  "\<not> fConsumed (freshFrame f)"
  by (simp_all add: freshFrame_def)

lemma finished_sel [simp]:
  "fParticle (finished q f) = fParticle f" "fUsed (finished q f) = fUsed f" "fConsumed (finished q f) = fConsumed f" "fIndex (finished q f) = fIndex f"
  by (simp_all add: finished_def)

lemma usedFrame_sel [simp]:
  "fParticle (usedFrame f) = fParticle f" "fCount (usedFrame f) = fCount f" "fIndex (usedFrame f) = fIndex f"
  "fConsumed (usedFrame f) = fConsumed f" "fUsed (usedFrame f) = (fUsed f)[fIndex f := True]"
  by (simp_all add: usedFrame_def)

lemma topOK_new: "N p \<noteq> None \<Longrightarrow> particleAt E p \<noteq> None \<Longrightarrow> topOK E N (newFrame p)"
  by (auto simp: topOK_def)

text \<open>What a prepared group guarantees of its members.\<close>

lemma prepared_child:
  assumes "cacheOK E N" "N p \<noteq> None" "particleAt E p = Some q" "c \<in> set (pChildren q)"
  shows "N c \<noteq> None" "particleAt E c \<noteq> None"
proof -
  obtain b where "N p = Some b" using assms(2) by blast
  from cacheOK_node(3) [OF assms(1) this assms(3) assms(4)] have c: "N c \<noteq> None" "wellFormed E c" by simp_all
  show "N c \<noteq> None" by (rule c(1))
  from c(2) show "particleAt E c \<noteq> None" by (rule wellFormedE) simp
qed

lemma member_element:
  assumes "cacheOK E N" "N p \<noteq> None" "particleAt E p = Some q" "pKind q = ParticleAll" "c \<in> set (pChildren q)"
  obtains m where "particleAt E c = Some m" "pKind m = ParticleElement" "\<not> unboundedOf m" "maxOf m \<le> 1" "minOf m \<le> maxOf m"
proof -
  have "allMember E c" using cacheOK_node(1) [OF assms(1) _ assms(3)] assms(2,4,5) by (auto simp: nodeOK_def)
  then obtain m where m: "particleAt E c = Some m" "pKind m = ParticleElement" "\<not> unboundedOf m" "maxOf m \<le> 1"
    by (auto simp: allMember_def)
  obtain b where "N c = Some b" using prepared_child(1) [OF assms(1-3,5)] by blast
  then have "minOf m \<le> maxOf m" using cacheOK_node(1) [OF assms(1) _ m(1)] m(3) by (auto simp: nodeOK_def)
  with m that show ?thesis by blast
qed

lemma memberNodes_ok:
  assumes "cacheOK E N" "N (fParticle f) \<noteq> None" "particleAt E (fParticle f) = Some q" "pKind q = ParticleAll"
    "length (fUsed f) = length (pChildren q)" "\<forall>g \<in> set r. innerOK E N g" "c \<in> memberNodes E x q f r"
  shows "stateOK E N c"
proof -
  obtain i where i: "i < length (pChildren q)" "c = consumedAll (newFrame (pChildren q ! i) # f\<lparr>fIndex := i\<rparr> # r)"
    using assms(7) by (auto simp: memberNodes_def)
  then have "pChildren q ! i \<in> set (pChildren q)" by simp
  moreover from this obtain m where "particleAt E (pChildren q ! i) = Some m" "pKind m = ParticleElement"
    by (rule member_element [OF assms(1-4)])
  ultimately have "innerOK E N (newFrame (pChildren q ! i))" "innerOK E N (f\<lparr>fIndex := i\<rparr>)"
    "\<exists>m. particleAt E (pChildren q ! i) = Some m \<and> pKind m = ParticleElement"
    using i(1) assms(2-5) prepared_child(1) [OF assms(1-3)] by (simp_all add: innerOK_def)
  then show ?thesis using i(2) assms(6) by (auto simp: stateOK_def)
qed

lemma emitted_ok: "cacheOK E N \<Longrightarrow> pointOK E N pt \<Longrightarrow> c \<in> emitted E x pt \<Longrightarrow> stateOK E N c"
proof (induction pt rule: succs.induct [of _ E N])
  case (1 E N f r)
  then obtain q where q: "particleAt E (fParticle f) = Some q" "N (fParticle f) \<noteq> None" by (auto simp: topOK_def)
  show ?case
  proof (cases "pKind q = ParticleAll")
    case True
    then show ?thesis
      using 1 q memberNodes_ok [of E N "(freshFrame f)\<lparr>fUsed := replicate (length (pChildren q)) False\<rparr>" q r c x]
      by (auto simp: startEmits_def split: if_splits)
  next
    case False
    then show ?thesis
      using 1 q by (auto simp: startEmits_def stateOK_def innerOK_at split: ParticleKind.splits if_splits)
  qed
next
  case (2 E N f r)
  then obtain q where q: "particleAt E (fParticle f) = Some q" "N (fParticle f) \<noteq> None" by (auto simp: innerOK_def)
  with 2 show ?case
    using memberNodes_ok [of E N "usedFrame f" q r c x] by (auto simp: innerOK_def split: if_splits)
qed simp_all

lemma succs_ok: "cacheOK E N \<Longrightarrow> pointOK E N pt \<Longrightarrow> pt' \<in> succs E N pt \<Longrightarrow> pointOK E N pt'"
proof (induction pt rule: succs.induct [of _ E N])
  case (1 E N f r)
  then obtain q where q: "particleAt E (fParticle f) = Some q" "N (fParticle f) \<noteq> None" by (auto simp: topOK_def)
  have child: "topOK E N (newFrame c)" if "c \<in> set (pChildren q)" for c
    by (rule topOK_new) (use prepared_child [OF 1(1) q(2,1) that] in simp_all)
  from 1 q show ?case
    by (auto simp: startSuccs_def innerOK_at intro!: child split: ParticleKind.splits if_splits)
next
  case (2 E N f r)
  then obtain q where q: "particleAt E (fParticle f) = Some q" "N (fParticle f) \<noteq> None" by (auto simp: innerOK_def)
  have child: "topOK E N (newFrame c)" if "c \<in> set (pChildren q)" for c
    by (rule topOK_new) (use prepared_child [OF 2(1) q(2,1) that] in simp_all)
  from 2 q show ?case
    by (auto simp: leaveSuccs_def completed_def innerOK_at topOK_at intro!: child split: ParticleKind.splits if_splits)
qed simp_all

section \<open>Keys\<close>

fun pointKey :: "point \<Rightarrow> nat list" where
  "pointKey (StartP c) = configKey CHR ''s'' c"
| "pointKey (LeaveP c) = configKey CHR ''l'' c"

lemma frameKey_inject:
  assumes "frameKey f @ a = frameKey g @ b"
    and "fParticle f = fParticle g \<Longrightarrow> fConsumed f = fConsumed g \<Longrightarrow> length (fUsed f) = length (fUsed g)"
  shows "f = g \<and> a = b"
proof -
  have "fParticle f = fParticle g" "fCount f = fCount g" "fIndex f = fIndex g" "fConsumed f = fConsumed g"
    using assms(1) by (auto simp: frameKey_def split: if_splits)
  moreover from this assms have "map (\<lambda>u. if u then 1 else 0 :: nat) (fUsed f) = map (\<lambda>u. if u then 1 else 0) (fUsed g)" "a = b"
    by (auto simp: frameKey_def)
  moreover have "inj (\<lambda>u. if u then 1 else 0 :: nat)" by (rule injI) (simp split: if_splits)
  ultimately show ?thesis by (auto dest: map_injective)
qed

lemma frameKey_not_Nil [simp]: "frameKey f @ a \<noteq> []"
  by (simp add: frameKey_def)

lemma inner_width: "innerOK E N f \<Longrightarrow> innerOK E N g \<Longrightarrow> fParticle f = fParticle g \<Longrightarrow> length (fUsed f) = length (fUsed g)"
  by (auto simp: innerOK_def split: if_splits)

lemma top_width: "topOK E N f \<Longrightarrow> topOK E N g \<Longrightarrow> fParticle f = fParticle g \<Longrightarrow> fConsumed f = fConsumed g \<Longrightarrow>
    length (fUsed f) = length (fUsed g)"
  by (auto simp: topOK_def split: if_splits)

lemma inner_keys: "\<forall>f \<in> set c. innerOK E N f \<Longrightarrow> \<forall>f \<in> set d. innerOK E N f \<Longrightarrow>
    concat (map frameKey c) = concat (map frameKey d) \<Longrightarrow> c = d"
proof (induction c arbitrary: d)
  case Nil
  then show ?case by (cases d) (auto simp: frameKey_def)
next
  case (Cons f c)
  then obtain g d' where d: "d = g # d'" by (cases d) (auto simp: frameKey_def)
  have "f = g \<and> concat (map frameKey c) = concat (map frameKey d')"
  proof (rule frameKey_inject)
    show "frameKey f @ concat (map frameKey c) = frameKey g @ concat (map frameKey d')" using Cons.prems(3) d by simp
  qed (use Cons.prems(1,2) d in \<open>auto intro: inner_width\<close>)
  with Cons.IH [of d'] Cons.prems d show ?case by simp
qed

lemma state_keys: "stateOK E N c \<Longrightarrow> stateOK E N d \<Longrightarrow> configKey k c = configKey k d \<Longrightarrow> c = d"
  by (auto simp: stateOK_def configKey_def intro: inner_keys)

lemma point_keys:
  assumes "pointOK E N pt" "pointOK E N pt'" "pointKey pt = pointKey pt'"
  shows "pt = pt'"
proof (cases pt)
  case (StartP c)
  with assms obtain d where d: "pt' = StartP d" by (cases pt') (auto simp: configKey_def)
  with assms StartP obtain f c' g d' where cd: "c = f # c'" "d = g # d'" by (cases c; cases d) auto
  have "f = g \<and> concat (map frameKey c') = concat (map frameKey d')"
  proof (rule frameKey_inject)
    show "frameKey f @ concat (map frameKey c') = frameKey g @ concat (map frameKey d')"
      using assms(3) d cd StartP by (simp add: configKey_def)
  qed (use assms(1,2) d cd StartP in \<open>auto intro: top_width\<close>)
  moreover from this have "c' = d'" using assms d cd StartP by (auto intro: inner_keys)
  ultimately show ?thesis using d cd StartP by simp
next
  case (LeaveP c)
  with assms obtain d where d: "pt' = LeaveP d" by (cases pt') (auto simp: configKey_def)
  with assms LeaveP show ?thesis by (auto simp: configKey_def intro: inner_keys)
qed

section \<open>The depth-first search\<close>

definition covered :: "prefixSearch \<Rightarrow> point \<Rightarrow> bool" where
  "covered s pt \<longleftrightarrow> pt = LeaveP [] \<or> pointKey pt \<in> set (sVisited s)"

text \<open>A recorded point that is not open any more has been expanded.\<close>

definition expanded :: "matchEnv \<Rightarrow> (nat \<Rightarrow> bool option) \<Rightarrow> QName \<Rightarrow> point set \<Rightarrow> prefixSearch \<Rightarrow> bool" where
  "expanded E N x A s \<longleftrightarrow> (\<forall>pt. pointOK E N pt \<and> pt \<noteq> LeaveP [] \<and> pointKey pt \<in> set (sVisited s) \<and> pt \<notin> A \<longrightarrow>
     (\<forall>pt' \<in> succs E N pt. covered s pt') \<and> emitted E x pt \<subseteq> set (sOut s))"

definition searchInv :: "matchEnv \<Rightarrow> (nat \<Rightarrow> bool option) \<Rightarrow> QName \<Rightarrow> point set \<Rightarrow> prefixSearch \<Rightarrow> bool" where
  "searchInv E N x A s \<longleftrightarrow> (\<forall>c \<in> set (sOut s). stateOK E N c) \<and>
     (sOverflow s \<or> set (sKeys s) = configKey CHR ''e'' ` set (sOut s) \<and> length (sVisited s) \<le> prefixVisitLimit \<and> expanded E N x A s)"

definition later :: "prefixSearch \<Rightarrow> prefixSearch \<Rightarrow> bool" where
  "later s s' \<longleftrightarrow> set (sVisited s) \<subseteq> set (sVisited s') \<and> length (sVisited s) \<le> length (sVisited s') \<and>
     set (sOut s) \<subseteq> set (sOut s') \<and> (sOverflow s \<longrightarrow> sOverflow s')"

lemma later_refl [simp]: "later s s"
  by (simp add: later_def)

lemma later_trans: "later s t \<Longrightarrow> later t u \<Longrightarrow> later s u"
  by (auto simp: later_def)

lemma covered_later: "covered s pt \<Longrightarrow> later s s' \<Longrightarrow> covered s' pt"
  by (auto simp: covered_def later_def)

text \<open>
  An action that, from a search with at least \<open>k\<close> recorded points, returns and then has recorded the points
  \<open>G\<close> and kept the configurations \<open>C\<close>, unless the search has overflowed.
\<close>

definition explores :: "matchEnv \<Rightarrow> (nat \<Rightarrow> bool option) \<Rightarrow> QName \<Rightarrow> point set \<Rightarrow> nat \<Rightarrow> unit sact \<Rightarrow> point set \<Rightarrow> prefixNode set \<Rightarrow> bool" where
  "explores E N x A k act G C \<longleftrightarrow> (\<forall>s. searchInv E N x A s \<and> k \<le> length (sVisited s) \<longrightarrow>
     (\<exists>s'. act s = Some ((), s') \<and> searchInv E N x A s' \<and> later s s' \<and>
        (sOverflow s' \<or> (\<forall>g \<in> G. covered s' g) \<and> C \<subseteq> set (sOut s'))))"

lemma explores_ret: "explores E N x A k (ret ()) {} {}"
  by (simp add: explores_def ret_def)

lemma explores_bnd:
  assumes "explores E N x A k a G C" "explores E N x A k b G' C'"
  shows "explores E N x A k (bnd a (\<lambda>_. b)) (G \<union> G') (C \<union> C')"
  unfolding explores_def
proof (intro allI impI)
  fix s
  assume s: "searchInv E N x A s \<and> k \<le> length (sVisited s)"
  then obtain t where t: "a s = Some ((), t)" "searchInv E N x A t" "later s t"
    "sOverflow t \<or> (\<forall>g \<in> G. covered t g) \<and> C \<subseteq> set (sOut t)" using assms(1) unfolding explores_def by blast
  have "k \<le> length (sVisited t)" using s t(3) by (auto simp: later_def)
  then obtain u where u: "b t = Some ((), u)" "searchInv E N x A u" "later t u"
    "sOverflow u \<or> (\<forall>g \<in> G'. covered u g) \<and> C' \<subseteq> set (sOut u)" using assms(2) t(2) unfolding explores_def by blast
  have "sOverflow u \<or> (\<forall>g \<in> G \<union> G'. covered u g) \<and> C \<union> C' \<subseteq> set (sOut u)"
    using t(4) u(3,4) covered_later [OF _ u(3)] unfolding later_def by blast
  then show "\<exists>s'. bnd a (\<lambda>_. b) s = Some ((), s') \<and> searchInv E N x A s' \<and> later s s' \<and>
      (sOverflow s' \<or> (\<forall>g \<in> G \<union> G'. covered s' g) \<and> C \<union> C' \<subseteq> set (sOut s'))"
    using t(1) u(1,2) later_trans [OF t(3) u(3)] by (simp add: bnd_def)
qed

lemma explores_each:
  assumes "\<And>y. y \<in> set ys \<Longrightarrow> explores E N x A k (f y ()) (G y) (C y)"
  shows "explores E N x A k (each f ys ()) (\<Union>y \<in> set ys. G y) (\<Union>y \<in> set ys. C y)"
  using assms
proof (induction ys)
  case (Cons y ys)
  have "each f (y # ys) () = bnd (f y ()) (\<lambda>_. each f ys ())" by (simp add: bnd_def fun_eq_iff)
  then show ?case using explores_bnd [OF Cons.prems [of y] Cons.IH] Cons.prems by simp
qed (simp add: explores_ret)

lemma explores_weaken:
  assumes "explores E N x A k act G C" "G' \<subseteq> G" "C' \<subseteq> C" "k \<le> l"
  shows "explores E N x A l act G' C'"
  unfolding explores_def
proof (intro allI impI)
  fix s
  assume "searchInv E N x A s \<and> l \<le> length (sVisited s)"
  with assms(1,4) obtain s' where "act s = Some ((), s')" "searchInv E N x A s'" "later s s'"
    "sOverflow s' \<or> (\<forall>g \<in> G. covered s' g) \<and> C \<subseteq> set (sOut s')" unfolding explores_def by fastforce
  with assms(2,3) show "\<exists>s'. act s = Some ((), s') \<and> searchInv E N x A s' \<and> later s s' \<and>
      (sOverflow s' \<or> (\<forall>g \<in> G'. covered s' g) \<and> C' \<subseteq> set (sOut s'))" by blast
qed

lemma explores_emit:
  assumes "stateOK E N (consumedAll c)"
  shows "explores E N x A k (prefixEmit c) {} {consumedAll c}"
  unfolding explores_def
proof (intro allI impI)
  fix s
  assume s: "searchInv E N x A s \<and> k \<le> length (sVisited s)"
  let ?k = "configKey CHR ''e'' (consumedAll c)"
  consider "sOverflow s" | (known) "\<not> sOverflow s" "?k \<in> set (sKeys s)"
    | (full) "\<not> sOverflow s" "?k \<notin> set (sKeys s)" "length (sOut s) = prefixStateLimit"
    | (new) "\<not> sOverflow s" "?k \<notin> set (sKeys s)" "length (sOut s) \<noteq> prefixStateLimit" by blast
  then show "\<exists>s'. prefixEmit c s = Some ((), s') \<and> searchInv E N x A s' \<and> later s s' \<and>
      (sOverflow s' \<or> (\<forall>g \<in> {}. covered s' g) \<and> {consumedAll c} \<subseteq> set (sOut s'))"
  proof cases
    case 1
    then show ?thesis using s by (simp add: prefixEmit_def bnd_def get_def ret_def)
  next
    case known
    then obtain d where "d \<in> set (sOut s)" "?k = configKey CHR ''e'' d" using s by (auto simp: searchInv_def)
    then have "consumedAll c \<in> set (sOut s)" using state_keys [OF assms, of d "CHR ''e''"] s by (auto simp: searchInv_def)
    with known s show ?thesis by (simp add: prefixEmit_def bnd_def get_def ret_def)
  next
    case full
    then show ?thesis using s by (auto simp: prefixEmit_def bnd_def get_def upd_def searchInv_def later_def)
  next
    case new
    then have "expanded E N x A s" using s by (simp add: searchInv_def)
    then have "expanded E N x A (s\<lparr>sKeys := ?k # sKeys s, sOut := sOut s @ [consumedAll c]\<rparr>)"
      unfolding expanded_def covered_def by (simp add: subset_insertI2)
    with new s assms show ?thesis
      by (auto simp: prefixEmit_def Let_def bnd_def get_def upd_def searchInv_def later_def)
  qed
qed

lemma explores_accept:
  assumes "a \<noteq> None" "a = Some True \<Longrightarrow> explores E N x A k act {} C"
  shows "explores E N x A k (acceptThen a act) {} (if a = Some True then C else {})"
  using assms by (cases a) (auto simp: acceptThen_def explores_ret split: bool.splits)

text \<open>Opening a point: recorded before, or recorded now and expanded.\<close>

lemma explores_point:
  assumes ok: "pointOK E N pt" "pt \<noteq> LeaveP []" "pointKey pt = configKey kind c"
    and body: "k < prefixVisitLimit \<Longrightarrow> explores E N x (insert pt A) (Suc k) body (succs E N pt) (emitted E x pt)"
  shows "explores E N x A k (bnd (prefixSeen kind c) (\<lambda>seen. if seen then ret () else body)) {pt} {}"
  unfolding explores_def
proof (intro allI impI)
  fix s
  assume s: "searchInv E N x A s \<and> k \<le> length (sVisited s)"
  let ?t = "s\<lparr>sVisited := configKey kind c # sVisited s\<rparr>"
  consider (known) "sOverflow s \<or> pointKey pt \<in> set (sVisited s)"
    | (full) "\<not> sOverflow s" "pointKey pt \<notin> set (sVisited s)" "prefixVisitLimit < Suc (length (sVisited s))"
    | (new) "\<not> sOverflow s" "pointKey pt \<notin> set (sVisited s)" "Suc (length (sVisited s)) \<le> prefixVisitLimit" by linarith
  then show "\<exists>s'. bnd (prefixSeen kind c) (\<lambda>seen. if seen then ret () else body) s = Some ((), s') \<and> searchInv E N x A s' \<and>
      later s s' \<and> (sOverflow s' \<or> (\<forall>g \<in> {pt}. covered s' g) \<and> {} \<subseteq> set (sOut s'))"
  proof cases
    case known
    then show ?thesis using s ok(3) by (auto simp: prefixSeen_def bnd_def get_def ret_def covered_def)
  next
    case full
    then show ?thesis using s ok(3) by (auto simp: prefixSeen_def bnd_def get_def upd_def ret_def searchInv_def later_def)
  next
    case new
    have "expanded E N x (insert pt A) ?t"
      unfolding expanded_def
    proof (intro allI impI)
      fix u
      assume u: "pointOK E N u \<and> u \<noteq> LeaveP [] \<and> pointKey u \<in> set (sVisited ?t) \<and> u \<notin> insert pt A"
      then have "pointKey u \<noteq> pointKey pt" using point_keys [OF _ ok(1)] by blast
      with u ok(3) have "pointKey u \<in> set (sVisited s)" by auto
      with u new s have "(\<forall>u' \<in> succs E N u. covered s u') \<and> emitted E x u \<subseteq> set (sOut s)"
        unfolding searchInv_def expanded_def by blast
      then show "(\<forall>u' \<in> succs E N u. covered ?t u') \<and> emitted E x u \<subseteq> set (sOut ?t)" by (auto simp: covered_def)
    qed
    then have t: "searchInv E N x (insert pt A) ?t" using new s by (simp add: searchInv_def)
    have "explores E N x (insert pt A) (Suc k) body (succs E N pt) (emitted E x pt)" using body new(3) s by simp
    with t s obtain u where u: "body ?t = Some ((), u)" "searchInv E N x (insert pt A) u" "later ?t u"
      "sOverflow u \<or> (\<forall>g \<in> succs E N pt. covered u g) \<and> emitted E x pt \<subseteq> set (sOut u)" unfolding explores_def by fastforce
    have "sOverflow u \<or> expanded E N x A u" using u(2,4) unfolding searchInv_def expanded_def by blast
    then have "searchInv E N x A u" using u(2) by (auto simp: searchInv_def)
    moreover have "covered u pt" using u(3) ok(3) by (auto simp: covered_def later_def)
    moreover have "later s u" using u(3) by (auto simp: later_def)
    ultimately show ?thesis using new ok(3) u(1) by (simp add: prefixSeen_def bnd_def get_def upd_def ret_def)
  qed
qed

section \<open>The search explores\<close>

lemma enumerate_image: "set (enumerate 0 xs) = (\<lambda>i. (i, xs ! i)) ` {..<length xs}"
  by (auto simp: in_set_enumerate_eq)

lemma explores_members:
  assumes cache: "cacheOK E N" and q: "N (fParticle f) \<noteq> None" "particleAt E (fParticle f) = Some q" "pKind q = ParticleAll"
    and len: "length (fUsed f) = length (pChildren q)" and r: "\<forall>g \<in> set r. innerOK E N g"
  shows "explores E N x A k (allMembers E x q f r) {} (memberNodes E x q f r)"
proof -
  let ?C = "\<lambda>(i, m). if \<not> fUsed f ! i \<and> isActive E m \<and> leafAccepts E x m then {consumedAll (newFrame m # f\<lparr>fIndex := i\<rparr> # r)} else {}"
  have step: "explores E N x A k (allMembersStep E x f r im) {} (?C im)" if member: "im \<in> set (enumerate 0 (pChildren q))" for im
  proof -
    obtain i m where im: "im = (i, m)" "i < length (pChildren q)" "m = pChildren q ! i"
      using member by (auto simp: enumerate_image)
    then have "m \<in> set (pChildren q)" by simp
    then obtain p where p: "particleAt E m = Some p" "pKind p = ParticleElement" by (rule member_element [OF cache q])
    have active: "isActive E m \<longleftrightarrow> maxOf p \<noteq> 0" using p by (simp add: isActive_def)
    show ?thesis
    proof (cases "fUsed f ! i \<or> maxOf p = 0")
      case True
      then show ?thesis using im p active len by (auto simp: allMembersStep_def explores_ret)
    next
      case False
      have accepts: "prefixAccepts E x m \<noteq> None" using p by (simp add: prefixAccepts_def)
      have ok: "stateOK E N (consumedAll (newFrame m # f\<lparr>fIndex := i\<rparr> # r))" if "prefixAccepts E x m = Some True"
        by (rule memberNodes_ok [OF cache q len r]) (use that im False active in \<open>auto simp: memberNodes_def leafAccepts_def\<close>)
      have "allMembersStep E x f r im = acceptThen (prefixAccepts E x m) (prefixEmit (newFrame m # f\<lparr>fIndex := i\<rparr> # r))"
        using im p False len by (simp add: allMembersStep_def)
      moreover have "?C im = (if prefixAccepts E x m = Some True then {consumedAll (newFrame m # f\<lparr>fIndex := i\<rparr> # r)} else {})"
        using im(1) active False by (simp add: leafAccepts_def)
      ultimately show ?thesis using explores_accept [OF accepts explores_emit [OF ok]] by (simp only:)
    qed
  qed
  have "explores E N x A k (allMembers E x q f r) {} (\<Union>im \<in> set (enumerate 0 (pChildren q)). ?C im)"
    unfolding allMembers_def using explores_each [where f = "\<lambda>im _. allMembersStep E x f r im", OF step] by simp
  moreover have "(\<Union>im \<in> set (enumerate 0 (pChildren q)). ?C im) = memberNodes E x q f r"
    unfolding enumerate_image memberNodes_def by (auto split: if_splits)
  ultimately show ?thesis by simp
qed

lemma explores_startBody:
  assumes cache: "cacheOK E N" and ok: "pointOK E N (StartP (f # r))" and q: "particleAt E (fParticle f) = Some q"
    and deeper: "\<And>c. pointOK E N (StartP c) \<Longrightarrow> explores E N x A k (go c) {StartP c} {}"
  shows "explores E N x A k (startBody go E x q f r) (startSuccs q f r) (startEmits E x q f r)"
proof -
  have N: "N (fParticle f) \<noteq> None" and r: "\<forall>g \<in> set r. innerOK E N g" using ok by (auto simp: topOK_def)
  have child: "topOK E N (newFrame c)" if "c \<in> set (pChildren q)" for c
    by (rule topOK_new) (use prepared_child [OF cache N q that] in simp_all)
  have inner: "pKind q \<noteq> ParticleAll \<Longrightarrow> innerOK E N ((freshFrame f)\<lparr>fIndex := i\<rparr>)" "pKind q \<noteq> ParticleAll \<Longrightarrow> innerOK E N (freshFrame f)" for i
    using N q by (simp_all add: innerOK_at)
  have node: "nodeOK E q" using cacheOK_node(1) [OF cache _ q] N by auto
  have leaf: "explores E N x A k (acceptThen (prefixAccepts E x (fParticle f)) (prefixEmit (freshFrame f # r))) {}
      (if leafAccepts E x (fParticle f) then {consumedAll (freshFrame f # r)} else {})" if "pKind q \<in> {ParticleElement, ParticleAny}"
  proof -
    have "stateOK E N (consumedAll (freshFrame f # r))" using that inner(2) r q by (auto simp: stateOK_def)
    moreover have "prefixAccepts E x (fParticle f) \<noteq> None" using that q node by (auto simp: prefixAccepts_def nodeOK_def)
    ultimately show ?thesis using explores_accept [OF _ explores_emit] by (simp add: leafAccepts_def)
  qed
  show ?thesis
  proof (cases "pKind q")
    case ParticleSequence
    then show ?thesis
      using deeper child inner r by (cases "pChildren q") (auto simp: startBody_def startSuccs_def startEmits_def explores_ret freshFrame_def)
  next
    case ParticleChoice
    have "explores E N x A k (each (\<lambda>(i, c) _. go (newFrame c # (freshFrame f)\<lparr>fIndex := i\<rparr> # r)) (enumerate 0 (pChildren q)) ())
        (\<Union>ic \<in> set (enumerate 0 (pChildren q)). {StartP (newFrame (snd ic) # (freshFrame f)\<lparr>fIndex := fst ic\<rparr> # r)})
        (\<Union>ic \<in> set (enumerate 0 (pChildren q)). {})"
      by (rule explores_each) (use ParticleChoice deeper child inner r in \<open>auto simp: in_set_enumerate_eq\<close>)
    moreover have "(\<Union>ic \<in> set (enumerate 0 (pChildren q)). {StartP (newFrame (snd ic) # (freshFrame f)\<lparr>fIndex := fst ic\<rparr> # r)}) = startSuccs q f r"
      unfolding enumerate_image startSuccs_def using ParticleChoice by auto
    ultimately show ?thesis using ParticleChoice by (simp add: startBody_def startEmits_def Let_def flip: freshFrame_def)
  next
    case ParticleAll
    let ?f = "(freshFrame f)\<lparr>fUsed := replicate (length (pChildren q)) False\<rparr>"
    have "explores E N x A k (allMembers E x q ?f r) {} (memberNodes E x q ?f r)"
      by (rule explores_members [OF cache]) (use N q r ParticleAll in simp_all)
    then show ?thesis using ParticleAll by (simp add: startBody_def startSuccs_def startEmits_def Let_def flip: freshFrame_def)
  qed (use leaf in \<open>simp_all add: startBody_def startSuccs_def startEmits_def Let_def explores_ret flip: freshFrame_def\<close>)
qed

lemma explores_leaveBody:
  assumes cache: "cacheOK E N" and ok: "pointOK E N (LeaveP (f # r))" and q: "particleAt E (fParticle f) = Some q"
    and deeper: "\<And>c. pointOK E N (StartP c) \<Longrightarrow> explores E N x A k (go c) {StartP c} {}"
  shows "explores E N x A k (leaveBody go E x q f r) (leaveSuccs E q f r)
    (if pKind q = ParticleAll then memberNodes E x q (usedFrame f) r else {})"
proof -
  have f: "innerOK E N f" and r: "\<forall>g \<in> set r. innerOK E N g" using ok by auto
  then have N: "N (fParticle f) \<noteq> None" by (simp add: innerOK_def)
  have child: "topOK E N (newFrame c)" if "c \<in> set (pChildren q)" for c
    by (rule topOK_new) (use prepared_child [OF cache N q that] in simp_all)
  have complete: "explores E N x A k (if fConsumed g then prefixFinish go E (g # r) else ret ()) (completed q g r) {}"
    if "innerOK E N g" "fParticle g = fParticle f" for g
    using deeper [of "finished q g # r"] that q r by (auto simp: completed_def prefixFinish_def explores_ret innerOK_at topOK_at split: if_splits)
  show ?thesis
  proof (cases "pKind q")
    case ParticleSequence
    have "pointOK E N (StartP (newFrame (pChildren q ! Suc (fIndex f)) # f\<lparr>fIndex := Suc (fIndex f)\<rparr> # r))" if "Suc (fIndex f) < length (pChildren q)"
      using that child f r q ParticleSequence by (simp add: innerOK_at)
    then show ?thesis
      using ParticleSequence complete [OF f] deeper by (simp add: leaveBody_def leaveSuccs_def Let_def)
  next
    case ParticleAll
    have len: "length (fUsed f) = length (pChildren q)" "fIndex f < length (pChildren q)" using f q ParticleAll by (auto simp: innerOK_at)
    have used: "innerOK E N (usedFrame f)" using len N q ParticleAll by (simp add: innerOK_at)
    have members: "explores E N x A k (allMembers E x q (usedFrame f) r) {} (memberNodes E x q (usedFrame f) r)"
      by (rule explores_members [OF cache]) (use N q r ParticleAll len in simp_all)
    have missing: "list_ex (allMissingMember E (fUsed (usedFrame f))) (enumerate 0 (pChildren q)) \<longleftrightarrow> memberMissing E q (fUsed (usedFrame f))"
    proof -
      have "allMissingMember E u (i, pChildren q ! i) \<longleftrightarrow> \<not> u ! i \<and> isRequired E (pChildren q ! i) \<and> isActive E (pChildren q ! i)" for u i
        by (auto simp: allMissingMember_def isRequired_def isActive_def split: option.splits)
      then show ?thesis by (auto simp: memberMissing_def list_ex_iff in_set_enumerate_eq Bex_def)
    qed
    have "explores E N x A k (if memberMissing E q (fUsed (usedFrame f)) then ret () else if fConsumed (usedFrame f) then prefixFinish go E (usedFrame f # r) else ret ())
        (if memberMissing E q (fUsed (usedFrame f)) then {} else completed q (usedFrame f) r) {}"
      using complete [OF used] by (simp add: explores_ret)
    from explores_bnd [OF members this] have "explores E N x A k (leaveBody go E x q f r)
        (if memberMissing E q (fUsed (usedFrame f)) then {} else completed q (usedFrame f) r) (memberNodes E x q (usedFrame f) r)"
      using ParticleAll len missing by (simp add: leaveBody_def Let_def split del: if_split flip: usedFrame_def)
    then show ?thesis using ParticleAll by (simp add: leaveSuccs_def)
  qed (use complete [OF f] in \<open>simp_all add: leaveBody_def leaveSuccs_def Let_def\<close>)
qed

lemma search_explores:
  assumes "cacheOK E N"
  shows "1 \<le> n \<Longrightarrow> (pointOK E N (StartP c) \<longrightarrow> explores E N x A (prefixVisitLimit + 2 - n) (start n E N x c) {StartP c} {}) \<and>
    (pointOK E N (LeaveP c) \<longrightarrow> explores E N x A (prefixVisitLimit + 2 - n) (leave n E N x c) {LeaveP c} {})"
proof (induction n arbitrary: A c)
  case (Suc n)
  let ?k = "prefixVisitLimit + 2 - Suc n"
  have deeper: "explores E N x B (Suc ?k) (start n E N x d) {StartP d} {}" if "?k < prefixVisitLimit" "pointOK E N (StartP d)" for B d
    by (rule explores_weaken [of E N x B "prefixVisitLimit + 2 - n" _ "{StartP d}" "{}"]) (use Suc.IH [of d B] that in auto)
  have deeperL: "explores E N x B (Suc ?k) (leave n E N x d) {LeaveP d} {}" if "?k < prefixVisitLimit" "pointOK E N (LeaveP d)" for B d
    by (rule explores_weaken [of E N x B "prefixVisitLimit + 2 - n" _ "{LeaveP d}" "{}"]) (use Suc.IH [of d B] that in auto)
  have "explores E N x A ?k (start (Suc n) E N x c) {StartP c} {}" if ok: "pointOK E N (StartP c)"
  proof -
    from ok obtain f r where c: "c = f # r" by (cases c) auto
    from ok c obtain q where q: "particleAt E (fParticle f) = Some q" by (auto simp: topOK_def)
    have "explores E N x A ?k (bnd (prefixSeen CHR ''s'' c) (\<lambda>seen. if seen then ret () else
        bnd (if roomFor q f then startBody (start n E N x) E x q f r else ret ())
          (\<lambda>_. if minOf q \<le> fCount f \<or> N (fParticle f) = Some True then leave n E N x r else ret ()))) {StartP c} {}"
    proof (rule explores_point [OF ok])
      assume k: "?k < prefixVisitLimit"
      have "explores E N x (insert (StartP c) A) (Suc ?k) (if roomFor q f then startBody (start n E N x) E x q f r else ret ())
          (if roomFor q f then startSuccs q f r else {}) (if roomFor q f then startEmits E x q f r else {})"
        using explores_startBody [OF assms _ q deeper [OF k]] ok c by (simp add: explores_ret)
      moreover have "explores E N x (insert (StartP c) A) (Suc ?k) (if minOf q \<le> fCount f \<or> N (fParticle f) = Some True then leave n E N x r else ret ())
          (if minOf q \<le> fCount f \<or> N (fParticle f) = Some True then {LeaveP r} else {}) {}"
        using deeperL [OF k, of r] ok c by (simp add: explores_ret)
      ultimately show "explores E N x (insert (StartP c) A) (Suc ?k) (bnd (if roomFor q f then startBody (start n E N x) E x q f r else ret ())
          (\<lambda>_. if minOf q \<le> fCount f \<or> N (fParticle f) = Some True then leave n E N x r else ret ())) (succs E N (StartP c)) (emitted E x (StartP c))"
        using explores_bnd c q by fastforce
    qed simp_all
    then show ?thesis using c q by (simp add: roomFor_def cong: if_cong)
  qed
  moreover have "explores E N x A ?k (leave (Suc n) E N x c) {LeaveP c} {}" if ok: "pointOK E N (LeaveP c)"
  proof (cases c)
    case Nil
    then show ?thesis by (simp add: explores_def ret_def covered_def)
  next
    case (Cons f r)
    from ok Cons obtain q where q: "particleAt E (fParticle f) = Some q" by (auto simp: innerOK_def)
    have "explores E N x A ?k (bnd (prefixSeen CHR ''l'' c) (\<lambda>seen. if seen then ret () else leaveBody (start n E N x) E x q f r)) {LeaveP c} {}"
      by (rule explores_point [OF ok]) (use explores_leaveBody [OF assms _ q deeper] ok Cons q in auto)
    then show ?thesis using Cons q by (simp cong: if_cong)
  qed
  ultimately show ?case by blast
qed simp

end
