(* ===== verification/Xsd_Binding.thy ===== *)
theory Xsd_Binding
  imports Xsd_Exploration Xsd_Guard
begin

text \<open>
  What prefix binding promises. Every derivation of a content model can be followed through the points of the
  push matcher, one silent step or one consumed child at a time. So a child the matcher binds has the same
  particle in every derivation of every continuation, and when the matcher stops without ambiguity no
  continuation is derivable.
\<close>

section \<open>Runs of the matcher\<close>

definition leafEl :: "matchEnv \<Rightarrow> nat \<Rightarrow> nat \<Rightarrow> ElementMatch" where
  "leafEl E p i = \<lparr> emParticle = p, emIndex = i, emSchema =
     (case particleAt E p of None \<Rightarrow> None | Some q \<Rightarrow> if pKind q = ParticleElement then ResolveElement E (pElement q) else None) \<rparr>"

primrec leafEls :: "matchEnv \<Rightarrow> nat \<Rightarrow> nat list \<Rightarrow> ElementMatch list" where
  "leafEls E s [] = []"
| "leafEls E s (p # ps) = leafEl E p s # leafEls E (Suc s) ps"

lemma leafEls_append: "leafEls E s (a @ b) = leafEls E s a @ leafEls E (s + length a) b"
  by (induction a arbitrary: s) simp_all

lemma length_leafEls [simp]: "length (leafEls E s ls) = length ls"
  by (induction ls arbitrary: s) simp_all

lemma take_leafEls: "take j (leafEls E s ls) = leafEls E s (take j ls)"
  by (induction ls arbitrary: s j) (simp_all add: take_Cons split: nat.splits)

definition after :: "matchEnv \<Rightarrow> prefixNode \<Rightarrow> point" where
  "after E c = StartP (finished (the (particleAt E (fParticle (hd c)))) (hd c) # tl c)"

inductive trace :: "matchEnv \<Rightarrow> (nat \<Rightarrow> bool option) \<Rightarrow> nat \<Rightarrow> point \<Rightarrow> nat \<Rightarrow> point \<Rightarrow> nat list \<Rightarrow> bool"
  for E :: matchEnv and N :: "nat \<Rightarrow> bool option" where
  t_done: "trace E N s pt s pt []"
| t_silent: "pt' \<in> succs E N pt \<Longrightarrow> trace E N s pt' e pt'' ls \<Longrightarrow> trace E N s pt e pt'' ls"
| t_take: "s < size_of E \<Longrightarrow> nodes E ! s = Some x \<Longrightarrow> c \<in> emitted E x pt \<Longrightarrow> trace E N (Suc s) (after E c) e pt'' ls \<Longrightarrow>
    trace E N s pt e pt'' (leafOf c # ls)"

lemma trace_trans: "trace E N s pt m pt' ls \<Longrightarrow> trace E N m pt' e pt'' ls' \<Longrightarrow> trace E N s pt e pt'' (ls @ ls')"
  by (induction rule: trace.induct) (auto intro: t_silent t_take)

lemma trace_last: "trace E N s pt e pt' ls \<Longrightarrow> pt'' \<in> succs E N pt' \<Longrightarrow> trace E N s pt e pt'' ls"
  using trace_trans [of E N s pt e pt' ls e pt'' "[]"] by (auto intro: t_silent t_done)

lemma trace_length: "trace E N s pt e pt' ls \<Longrightarrow> e = s + length ls"
  by (induction rule: trace.induct) simp_all

lemma trace_first:
  "trace E N s pt e pt'' ls \<Longrightarrow> ls \<noteq> [] \<Longrightarrow>
   \<exists>pt' x c. (pt, pt') \<in> {(a, b). b \<in> succs E N a}\<^sup>* \<and> s < size_of E \<and> nodes E ! s = Some x \<and> c \<in> emitted E x pt' \<and>
     hd ls = leafOf c \<and> trace E N (Suc s) (after E c) e pt'' (tl ls)"
proof (induction rule: trace.induct)
  case (t_silent pt' pt s e pt'' ls)
  then show ?case by (auto intro: converse_rtrancl_into_rtrancl)
qed auto

section \<open>All groups\<close>

lemma consumed_twice [simp]: "map (consumedFrame \<circ> consumedFrame) r = consumedAll r"
  by simp

lemma leafOf_Cons [simp]: "leafOf (f # r) = fParticle f"
  by (simp add: leafOf_def)

lemma after_Cons: "particleAt E (fParticle f) = Some q \<Longrightarrow> after E (f # r) = StartP (finished q f # r)"
  by (simp add: after_def)

lemma member_step:
  assumes cache: "cacheOK E N" and q: "N (fParticle f) \<noteq> None" "particleAt E (fParticle f) = Some q" "pKind q = ParticleAll"
    and k: "k < length (pChildren q)" "\<not> fUsed f ! k" and s: "s < size_of E" "fits E (pChildren q ! k) s"
    and pt: "\<And>x. memberNodes E x q f r \<subseteq> emitted E x pt"
  shows "trace E N s pt (Suc s) (LeaveP (consumedAll (f\<lparr>fIndex := k\<rparr> # r))) [pChildren q ! k]"
proof -
  let ?c = "pChildren q ! k"
  obtain m where m: "particleAt E ?c = Some m" "pKind m = ParticleElement" "\<not> unboundedOf m" "maxOf m \<le> 1" "minOf m \<le> maxOf m"
    using k(1) by (rule member_element [OF cache q, OF nth_mem])
  obtain e where e: "declOf E ?c = Some e" "nodes E ! s = Some (eName e)" "isActive E ?c" using s(2) by (auto simp: fits_def)
  then have "leafAccepts E (eName e) ?c" using m by (simp add: leafAccepts_def prefixAccepts_def declOf_def)
  with k e(3) have "consumedAll (newFrame ?c # f\<lparr>fIndex := k\<rparr> # r) \<in> memberNodes E (eName e) q f r" by (auto simp: memberNodes_def)
  with pt have c: "consumedAll (newFrame ?c # f\<lparr>fIndex := k\<rparr> # r) \<in> emitted E (eName e) pt" by blast
  have "LeaveP (consumedAll (f\<lparr>fIndex := k\<rparr> # r)) \<in> succs E N (after E (consumedAll (newFrame ?c # f\<lparr>fIndex := k\<rparr> # r)))"
    using m by (simp add: after_Cons finished_def)
  then have "trace E N (Suc s) (after E (consumedAll (newFrame ?c # f\<lparr>fIndex := k\<rparr> # r))) (Suc s) (LeaveP (consumedAll (f\<lparr>fIndex := k\<rparr> # r))) []"
    by (blast intro: t_silent t_done)
  from t_take [OF s(1) e(2) c this] show ?thesis by simp
qed

definition takenBy :: "prefixFrame \<Rightarrow> nat \<Rightarrow> nat set \<Rightarrow> bool" where
  "takenBy g n T \<longleftrightarrow> length (fUsed g) = n \<and> fIndex g < n \<and> (\<forall>i < n. fUsed (usedFrame g) ! i \<longleftrightarrow> i \<in> T)"

lemma members_trace:
  assumes cache: "cacheOK E N" and q: "N p \<noteq> None" "particleAt E p = Some q" "pKind q = ParticleAll"
  shows "fParticle g = p \<Longrightarrow> fConsumed g \<Longrightarrow> takenBy g (length (pChildren q)) T \<Longrightarrow> set ks \<inter> T = {} \<Longrightarrow> allTakes E (pChildren q) s ks \<Longrightarrow>
    \<exists>g'. trace E N s (LeaveP (g # consumedAll r)) (s + length ks) (LeaveP (g' # consumedAll r)) (map ((!) (pChildren q)) ks) \<and>
      fParticle g' = p \<and> fCount g' = fCount g \<and> fConsumed g' \<and> takenBy g' (length (pChildren q)) (T \<union> set ks)"
proof (induction ks arbitrary: g T s)
  case Nil
  then show ?case using t_done [of E N s "LeaveP (g # consumedAll r)"] by auto
next
  case (Cons k ks)
  let ?g = "consumedFrame ((usedFrame g)\<lparr>fIndex := k\<rparr>)"
  have k: "k < length (pChildren q)" "k \<notin> T" "k \<notin> set ks" "s < size_of E" "fits E (pChildren q ! k) s"
    using Cons.prems(4,5) by (auto simp: allTakes_def dest: spec [of _ 0])
  have rest: "allTakes E (pChildren q) (Suc s) ks" using Cons.prems(5) by (fastforce simp: allTakes_def dest: spec [of _ "Suc _"])
  have unused: "\<not> fUsed (usedFrame g) ! k" using Cons.prems(3) k by (simp add: takenBy_def del: usedFrame_sel(5))
  have step: "trace E N s (LeaveP (g # consumedAll r)) (Suc s) (LeaveP (consumedAll ((usedFrame g)\<lparr>fIndex := k\<rparr> # consumedAll r))) [pChildren q ! k]"
    by (rule member_step [OF cache]) (use Cons.prems q k unused in simp_all)
  have "takenBy ?g (length (pChildren q)) (insert k T)"
    using Cons.prems(3) k by (auto simp: takenBy_def nth_list_update)
  moreover have "set ks \<inter> insert k T = {}" using Cons.prems(4) k by auto
  ultimately obtain g' where g': "trace E N (Suc s) (LeaveP (?g # consumedAll r)) (Suc s + length ks) (LeaveP (g' # consumedAll r)) (map ((!) (pChildren q)) ks)"
    "fParticle g' = p" "fCount g' = fCount ?g" "fConsumed g'" "takenBy g' (length (pChildren q)) (insert k T \<union> set ks)"
    using Cons.IH [of ?g "insert k T" "Suc s"] Cons.prems(1) rest by auto
  with trace_trans [OF step] show ?case by (intro exI [of _ g']) simp
qed

lemma all_trace:
  assumes cache: "cacheOK E N" and q: "N (fParticle f) \<noteq> None" "particleAt E (fParticle f) = Some q" "pKind q = ParticleAll" "roomFor q f"
    and ks: "allTakes E (pChildren q) s ks" "\<forall>k < length (pChildren q). isRequired E (pChildren q ! k) \<longrightarrow> k \<in> set ks" "ks \<noteq> []"
  shows "\<exists>f'. trace E N s (StartP (f # r)) (s + length ks) (StartP (finished q f' # consumedAll r)) (map ((!) (pChildren q)) ks) \<and>
    fParticle f' = fParticle f \<and> fCount f' = fCount f"
proof -
  let ?f = "(freshFrame f)\<lparr>fUsed := replicate (length (pChildren q)) False\<rparr>"
  obtain k ks' where k: "ks = k # ks'" using ks(3) by (cases ks) auto
  have first: "k < length (pChildren q)" "k \<notin> set ks'" "s < size_of E" "fits E (pChildren q ! k) s"
    using ks(1) k by (auto simp: allTakes_def dest: spec [of _ 0])
  have rest: "allTakes E (pChildren q) (Suc s) ks'" using ks(1) k by (fastforce simp: allTakes_def dest: spec [of _ "Suc _"])
  have one: "trace E N s (StartP (f # r)) (Suc s) (LeaveP (consumedAll (?f\<lparr>fIndex := k\<rparr> # r))) [pChildren q ! k]"
    by (rule member_step [OF cache]) (use q first in \<open>simp_all add: startEmits_def\<close>)
  have "takenBy (consumedFrame (?f\<lparr>fIndex := k\<rparr>)) (length (pChildren q)) {k}"
    using first(1) by (auto simp: takenBy_def nth_list_update)
  from members_trace [OF cache q(1-3) _ _ this _ rest, of r] first(2) obtain g where
    g: "trace E N (Suc s) (LeaveP (consumedFrame (?f\<lparr>fIndex := k\<rparr>) # consumedAll r)) (Suc s + length ks') (LeaveP (g # consumedAll r)) (map ((!) (pChildren q)) ks')"
    "fParticle g = fParticle f" "fCount g = fCount f" "fConsumed g" "takenBy g (length (pChildren q)) ({k} \<union> set ks')" by auto
  have "\<not> memberMissing E q (fUsed (usedFrame g))"
    using ks(2) g(5) k unfolding memberMissing_def takenBy_def by auto
  then have "StartP (finished q (usedFrame g) # consumedAll r) \<in> succs E N (LeaveP (g # consumedAll r))"
    using g(2,4) q by (simp add: leaveSuccs_def completed_def)
  with trace_last [OF trace_trans [OF one]] g(1) have "trace E N s (StartP (f # r)) (s + length ks) (StartP (finished q (usedFrame g) # consumedAll r))
      (map ((!) (pChildren q)) ks)" using k by simp
  with g(2,3) show ?thesis by (intro exI [of _ "usedFrame g"]) simp
qed

lemma all_leaves:
  assumes "cacheOK E N" "N p \<noteq> None" "particleAt E p = Some q" "pKind q = ParticleAll" "\<forall>j < length ks. ks ! j < length (pChildren q)"
  shows "allMatches E (pChildren q) s ks = leafEls E s (map ((!) (pChildren q)) ks)"
proof -
  have "leafEls E s ls = map (\<lambda>j. leafEl E (ls ! j) (s + j)) [0..<length ls]" for ls
    by (induction ls arbitrary: s) (simp_all add: upt_conv_Cons map_Suc_upt [symmetric] del: upt_Suc)
  moreover have "declOf E c = emSchema (leafEl E c j)" if c: "c \<in> set (pChildren q)" for c j
  proof -
    obtain m where "particleAt E c = Some m" "pKind m = ParticleElement" using c by (rule member_element [OF assms(1-4)])
    then show ?thesis by (simp add: leafEl_def declOf_def)
  qed
  ultimately show ?thesis using assms(5) by (auto simp: allMatches_def leafEl_def)
qed

section \<open>Following a derivation\<close>

definition marked :: "bool \<Rightarrow> prefixNode \<Rightarrow> prefixNode" where
  "marked b r = (if b then consumedAll r else r)"

lemma marked_simps [simp]: "marked True r = consumedAll r" "marked False r = r" "marked b (consumedAll r) = consumedAll r"
  "marked b (marked b' r) = marked (b \<or> b') r"
  by (simp_all add: marked_def)

definition spelled :: "matchEnv \<Rightarrow> nat \<Rightarrow> nat \<Rightarrow> ElementMatch list \<Rightarrow> nat list \<Rightarrow> bool" where
  "spelled E s e w ls \<longleftrightarrow> w = leafEls E s ls \<and> e = s + length ls"

lemma spelled_append: "spelled E s m v ls \<Longrightarrow> spelled E m e w ls' \<Longrightarrow> spelled E s e (v @ w) (ls @ ls')"
  by (simp add: spelled_def leafEls_append)

lemma spelled_le: "spelled E s e w ls \<Longrightarrow> s \<le> e"
  by (simp add: spelled_def)

lemma empty_nullable:
  assumes "cacheOK E N" "allOutermost E" "N p \<noteq> None" "derives E p s s w"
  shows "N p = Some True"
proof -
  obtain b where b: "N p = Some b" using assms(3) by blast
  obtain q where q: "particleAt E p = Some q" using assms(4) by (auto elim: derivesE)
  have wf: "wellFormed E p" using assms(1) b by (auto simp: cacheOK_def)
  have s: "s \<in> bodyEnds E p s" using assms(4) by (auto simp: bodyEnds_def)
  have b
    using all_empty_nullable [OF assms(1) b q _ s] nullable_exact [OF assms(1,2) wf b q] s by (cases "pKind q = ParticleAll") auto
  with b show ?thesis by simp
qed

text \<open>What the matcher does along each part of a derivation.\<close>

definition bodyRun :: "matchEnv \<Rightarrow> (nat \<Rightarrow> bool option) \<Rightarrow> nat \<Rightarrow> nat \<Rightarrow> nat \<Rightarrow> ElementMatch list \<Rightarrow> bool" where
  "bodyRun E N p s e w \<longleftrightarrow> (\<forall>q f r. N p \<noteq> None \<and> s < e \<and> particleAt E p = Some q \<and> fParticle f = p \<and> roomFor q f \<longrightarrow>
     (\<exists>f' ls. trace E N s (StartP (f # r)) e (StartP (finished q f' # consumedAll r)) ls \<and>
        fParticle f' = p \<and> fCount f' = fCount f \<and> spelled E s e w ls))"

definition repeatRun :: "matchEnv \<Rightarrow> (nat \<Rightarrow> bool option) \<Rightarrow> nat \<Rightarrow> nat \<Rightarrow> nat \<Rightarrow> nat \<Rightarrow> ElementMatch list \<Rightarrow> bool" where
  "repeatRun E N p k s e w \<longleftrightarrow> (\<forall>q f r. N p \<noteq> None \<and> particleAt E p = Some q \<and> fParticle f = p \<and> (unboundedOf q \<or> fCount f + k \<le> maxOf q) \<longrightarrow>
     (\<exists>f' ls. trace E N s (StartP (f # r)) e (StartP (f' # marked (s < e) r)) ls \<and> fParticle f' = p \<and>
        (minOf q \<le> fCount f + k \<longrightarrow> minOf q \<le> fCount f' \<or> N p = Some True) \<and> spelled E s e w ls))"

definition occursRun :: "matchEnv \<Rightarrow> (nat \<Rightarrow> bool option) \<Rightarrow> nat \<Rightarrow> nat \<Rightarrow> nat \<Rightarrow> ElementMatch list \<Rightarrow> bool" where
  "occursRun E N p s e w \<longleftrightarrow> (\<forall>r. N p \<noteq> None \<longrightarrow>
     (\<exists>ls. trace E N s (StartP (newFrame p # r)) e (LeaveP (marked (s < e) r)) ls \<and> spelled E s e w ls))"

definition sequenceRun :: "matchEnv \<Rightarrow> (nat \<Rightarrow> bool option) \<Rightarrow> nat list \<Rightarrow> nat \<Rightarrow> nat \<Rightarrow> ElementMatch list \<Rightarrow> bool" where
  "sequenceRun E N cs s e w \<longleftrightarrow> (\<forall>q f r. N (fParticle f) \<noteq> None \<and> particleAt E (fParticle f) = Some q \<and> pKind q = ParticleSequence \<and>
       cs \<noteq> [] \<and> cs = drop (fIndex f) (pChildren q) \<longrightarrow>
     (\<exists>f' ls. trace E N s (StartP (newFrame (hd cs) # f # r)) e (LeaveP (f' # marked (s < e) r)) ls \<and> fParticle f' = fParticle f \<and>
        fCount f' = fCount f \<and> Suc (fIndex f') = length (pChildren q) \<and> (fConsumed f' \<longleftrightarrow> fConsumed f \<or> s < e) \<and> spelled E s e w ls))"

lemma leaf_run:
  assumes q: "particleAt E p = Some q" "pKind q \<in> {ParticleElement, ParticleAny}" and s: "s < size_of E" "nodes E ! s = Some x"
    and accepts: "leafAccepts E x p"
  shows "bodyRun E N p s (Suc s) [leafEl E p s]"
  unfolding bodyRun_def
proof (intro allI impI)
  fix q' f r
  assume f: "N p \<noteq> None \<and> s < Suc s \<and> particleAt E p = Some q' \<and> fParticle f = p \<and> roomFor q' f"
  let ?c = "consumedAll (freshFrame f # r)"
  have c: "?c \<in> emitted E x (StartP (f # r))" using q f accepts by (auto simp: startEmits_def)
  have "after E ?c = StartP (finished q' (consumedFrame (freshFrame f)) # consumedAll r)" using f by (simp add: after_Cons)
  from t_take [OF s c t_done, of N] this f show "\<exists>f' ls. trace E N s (StartP (f # r)) (Suc s) (StartP (finished q' f' # consumedAll r)) ls \<and>
      fParticle f' = p \<and> fCount f' = fCount f \<and> spelled E s (Suc s) [leafEl E p s] ls"
    by (intro exI [of _ "consumedFrame (freshFrame f)"] exI [of _ "[p]"]) (simp add: spelled_def)
qed

lemma choice_run:
  assumes cache: "cacheOK E N" and q: "particleAt E p = Some q" "pKind q = ParticleChoice" "c \<in> set (pChildren q)" and c: "occursRun E N c s e w"
  shows "bodyRun E N p s e w"
  unfolding bodyRun_def
proof (intro allI impI)
  fix q' f r
  assume f: "N p \<noteq> None \<and> s < e \<and> particleAt E p = Some q' \<and> fParticle f = p \<and> roomFor q' f"
  obtain i where i: "i < length (pChildren q)" "c = pChildren q ! i" using q(3) by (auto simp: in_set_conv_nth)
  let ?f = "(freshFrame f)\<lparr>fIndex := i\<rparr>"
  have "N c \<noteq> None" using prepared_child(1) [OF cache _ q(1,3)] f by blast
  with c f obtain ls where ls: "trace E N s (StartP (newFrame c # ?f # r)) e (LeaveP (consumedFrame ?f # consumedAll r)) ls" "spelled E s e w ls"
    unfolding occursRun_def by (force dest: spec [of _ "?f # r"])
  have "StartP (newFrame c # ?f # r) \<in> succs E N (StartP (f # r))" using q f i by (auto simp: startSuccs_def)
  moreover have "StartP (finished q (consumedFrame ?f) # consumedAll r) \<in> succs E N (LeaveP (consumedFrame ?f # consumedAll r))"
    using q f by (simp add: leaveSuccs_def completed_def)
  ultimately have "trace E N s (StartP (f # r)) e (StartP (finished q (consumedFrame ?f) # consumedAll r)) ls"
    using ls(1) by (blast intro: t_silent trace_last)
  with ls(2) q f show "\<exists>f' ls. trace E N s (StartP (f # r)) e (StartP (finished q' f' # consumedAll r)) ls \<and>
      fParticle f' = p \<and> fCount f' = fCount f \<and> spelled E s e w ls"
    by (intro exI [of _ "consumedFrame ?f"] exI [of _ ls]) simp
qed

lemma sequence_run:
  assumes q: "particleAt E p = Some q" "pKind q = ParticleSequence" and follows: "sequenceRun E N (pChildren q) s e w" "pChildren q = [] \<Longrightarrow> s = e"
  shows "bodyRun E N p s e w"
  unfolding bodyRun_def
proof (intro allI impI)
  fix q' f r
  assume f: "N p \<noteq> None \<and> s < e \<and> particleAt E p = Some q' \<and> fParticle f = p \<and> roomFor q' f"
  then have cs: "pChildren q \<noteq> []" using follows(2) by auto
  with follows(1) f q obtain f' ls where
    ls: "trace E N s (StartP (newFrame (hd (pChildren q)) # freshFrame f # r)) e (LeaveP (f' # consumedAll r)) ls" "fParticle f' = p" "fCount f' = fCount f"
    "Suc (fIndex f') = length (pChildren q)" "fConsumed f'" "spelled E s e w ls"
    unfolding sequenceRun_def by (auto dest!: spec [of _ "freshFrame f"] spec [of _ q] spec [of _ r])
  have "StartP (newFrame (hd (pChildren q)) # freshFrame f # r) \<in> succs E N (StartP (f # r))" using q f cs by (simp add: startSuccs_def)
  moreover have "StartP (finished q f' # consumedAll r) \<in> succs E N (LeaveP (f' # consumedAll r))"
    using q ls(2,4,5) by (simp add: leaveSuccs_def completed_def)
  ultimately have "trace E N s (StartP (f # r)) e (StartP (finished q f' # consumedAll r)) ls"
    using ls(1) by (blast intro: t_silent trace_last)
  with ls q f show "\<exists>f' ls. trace E N s (StartP (f # r)) e (StartP (finished q' f' # consumedAll r)) ls \<and>
      fParticle f' = p \<and> fCount f' = fCount f \<and> spelled E s e w ls"
    by (intro exI [of _ f'] exI [of _ ls]) simp
qed

lemma all_run:
  assumes cache: "cacheOK E N" and q: "particleAt E p = Some q" "pKind q = ParticleAll"
    and ks: "allTakes E (pChildren q) s ks" "\<forall>k < length (pChildren q). isRequired E (pChildren q ! k) \<longrightarrow> k \<in> set ks"
  shows "bodyRun E N p s (s + length ks) (allMatches E (pChildren q) s ks)"
  unfolding bodyRun_def
proof (intro allI impI)
  fix q' f r
  assume f: "N p \<noteq> None \<and> s < s + length ks \<and> particleAt E p = Some q' \<and> fParticle f = p \<and> roomFor q' f"
  then have ne: "ks \<noteq> []" by auto
  have w: "allMatches E (pChildren q) s ks = leafEls E s (map ((!) (pChildren q)) ks)"
    by (rule all_leaves [OF cache _ q]) (use f ks(1) in \<open>auto simp: allTakes_def\<close>)
  show "\<exists>f' ls. trace E N s (StartP (f # r)) (s + length ks) (StartP (finished q' f' # consumedAll r)) ls \<and>
      fParticle f' = p \<and> fCount f' = fCount f \<and> spelled E s (s + length ks) (allMatches E (pChildren q) s ks) ls"
    using all_trace [OF cache, of f q s ks r] f q ks ne w by (fastforce simp: spelled_def)
qed

lemma repeat_run:
  assumes null: "derives E p s m v \<Longrightarrow> s = m \<Longrightarrow> N p \<noteq> None \<Longrightarrow> N p = Some True" and span: "derives E p s m v" "s \<le> m" "m \<le> e"
    and body: "bodyRun E N p s m v" and rest: "repeatRun E N p k m e w" and empty: "s = m \<Longrightarrow> v = []"
  shows "repeatRun E N p (Suc k) s e (v @ w)"
  unfolding repeatRun_def
proof (intro allI impI)
  fix q and f :: prefixFrame and r
  assume f: "N p \<noteq> None \<and> particleAt E p = Some q \<and> fParticle f = p \<and> (unboundedOf q \<or> fCount f + Suc k \<le> maxOf q)"
  show "\<exists>f' ls. trace E N s (StartP (f # r)) e (StartP (f' # marked (s < e) r)) ls \<and> fParticle f' = p \<and>
      (minOf q \<le> fCount f + Suc k \<longrightarrow> minOf q \<le> fCount f' \<or> N p = Some True) \<and> spelled E s e (v @ w) ls"
  proof (cases "s < m")
    case True
    with body f obtain g ls where g: "trace E N s (StartP (f # r)) m (StartP (finished q g # consumedAll r)) ls" "fParticle g = p"
      "fCount g = fCount f" "spelled E s m v ls" unfolding bodyRun_def roomFor_def by fastforce
    have "unboundedOf q \<or> fCount (finished q g) + k \<le> maxOf q" using f g(3) by (auto simp: finished_def)
    with rest f g(2) obtain f' ls' where f': "trace E N m (StartP (finished q g # consumedAll r)) e (StartP (f' # consumedAll r)) ls'"
      "fParticle f' = p" "minOf q \<le> fCount (finished q g) + k \<longrightarrow> minOf q \<le> fCount f' \<or> N p = Some True" "spelled E m e w ls'"
      unfolding repeatRun_def by (auto dest!: spec [of _ q] spec [of _ "finished q g"] spec [of _ "consumedAll r"])
    have "minOf q \<le> fCount f + Suc k \<longrightarrow> minOf q \<le> fCount (finished q g) + k" using g(3) by (auto simp: finished_def)
    with f' trace_trans [OF g(1) f'(1)] spelled_append [OF g(4) f'(4)] True span(3) show ?thesis
      by (intro exI [of _ f'] exI [of _ "ls @ ls'"]) simp
  next
    case False
    then have s: "s = m" "v = []" "N p = Some True" using span null empty f by auto
    with rest f show ?thesis unfolding repeatRun_def by (auto dest!: spec [of _ q] spec [of _ f] spec [of _ r])
  qed
qed

lemma occurs_run:
  assumes q: "particleAt E p = Some q" "minOf q \<le> k" "unboundedOf q \<or> k \<le> maxOf q" and rest: "repeatRun E N p k s e w"
  shows "occursRun E N p s e w"
  unfolding occursRun_def
proof (intro allI impI)
  fix r
  assume N: "N p \<noteq> None"
  from rest N q obtain f ls where f: "trace E N s (StartP (newFrame p # r)) e (StartP (f # marked (s < e) r)) ls" "fParticle f = p"
    "minOf q \<le> fCount f \<or> N p = Some True" "spelled E s e w ls"
    unfolding repeatRun_def by (auto dest!: spec [of _ q] spec [of _ "newFrame p"] spec [of _ r])
  have "LeaveP (marked (s < e) r) \<in> succs E N (StartP (f # marked (s < e) r))" using f(2,3) q(1) by auto
  with trace_last [OF f(1)] f(4) show "\<exists>ls. trace E N s (StartP (newFrame p # r)) e (LeaveP (marked (s < e) r)) ls \<and> spelled E s e w ls" by blast
qed

lemma follows_run:
  assumes cache: "cacheOK E N" and first: "occursRun E N c s m v" and rest: "sequenceRun E N cs m e w" "cs = [] \<Longrightarrow> m = e \<and> w = []"
    and le: "s \<le> m" "m \<le> e"
  shows "sequenceRun E N (c # cs) s e (v @ w)"
  unfolding sequenceRun_def
proof (intro allI impI)
  fix q and f :: prefixFrame and r
  assume f: "N (fParticle f) \<noteq> None \<and> particleAt E (fParticle f) = Some q \<and> pKind q = ParticleSequence \<and>
    c # cs \<noteq> [] \<and> c # cs = drop (fIndex f) (pChildren q)"
  then have "c \<in> set (pChildren q)" by (metis in_set_dropD list.set_intros(1))
  then have "N c \<noteq> None" using prepared_child(1) [OF cache, of "fParticle f" q c] f by blast
  let ?f = "if s < m then consumedFrame f else f"
  obtain ls where ls: "trace E N s (StartP (newFrame c # f # r)) m (LeaveP (?f # marked (s < m) r)) ls" "spelled E s m v ls"
    using first \<open>N c \<noteq> None\<close> unfolding occursRun_def by (force simp: marked_def dest: spec [of _ "f # r"] split: if_splits)
  have len: "length (pChildren q) = Suc (fIndex f + length cs)"
  proof -
    have "length (c # cs) = length (pChildren q) - fIndex f" using f by (metis length_drop)
    then show ?thesis by simp
  qed
  have tl: "cs = drop (Suc (fIndex f)) (pChildren q)" using f by (metis drop_Suc list.sel(3) tl_drop)
  show "\<exists>f' ls. trace E N s (StartP (newFrame (hd (c # cs)) # f # r)) e (LeaveP (f' # marked (s < e) r)) ls \<and> fParticle f' = fParticle f \<and>
      fCount f' = fCount f \<and> Suc (fIndex f') = length (pChildren q) \<and> (fConsumed f' \<longleftrightarrow> fConsumed f \<or> s < e) \<and> spelled E s e (v @ w) ls"
  proof (cases cs)
    case Nil
    then have "m = e" "w = []" using rest(2) by auto
    with ls Nil len show ?thesis by (intro exI [of _ ?f] exI [of _ ls]) simp
  next
    case (Cons c' cs')
    let ?g = "?f\<lparr>fIndex := Suc (fIndex f)\<rparr>"
    have "pChildren q ! Suc (fIndex f) = c'" using tl Cons len by (metis Cons_nth_drop_Suc drop_eq_Nil leI list.distinct(1) list.inject)
    then have step: "StartP (newFrame (hd cs) # ?g # marked (s < m) r) \<in> succs E N (LeaveP (?f # marked (s < m) r))"
      using f len Cons by (simp add: leaveSuccs_def)
    have sel: "fIndex ?g = Suc (fIndex f)" "fParticle ?g = fParticle f" and ne: "cs \<noteq> []" using Cons by simp_all
    have pre: "N (fParticle ?g) \<noteq> None \<and> particleAt E (fParticle ?g) = Some q \<and> pKind q = ParticleSequence \<and> cs \<noteq> [] \<and> cs = drop (fIndex ?g) (pChildren q)"
      unfolding sel using f tl ne by blast
    from rest(1) [unfolded sequenceRun_def, rule_format, OF pre, of "marked (s < m) r"] obtain f' ls' where
      f': "trace E N m (StartP (newFrame (hd cs) # ?g # marked (s < m) r)) e (LeaveP (f' # marked (m < e) (marked (s < m) r))) ls'"
      "fParticle f' = fParticle ?g" "fCount f' = fCount ?g" "Suc (fIndex f') = length (pChildren q)" "fConsumed f' \<longleftrightarrow> fConsumed ?g \<or> m < e" "spelled E m e w ls'"
      by blast
    have "(m < e \<or> s < m) = (s < e)" using le by auto
    with f' trace_trans [OF trace_last [OF ls(1) step] f'(1)] spelled_append [OF ls(2) f'(6)] show ?thesis
      by (intro exI [of _ f'] exI [of _ "ls @ ls'"]) (auto simp: disj_commute)
  qed
qed

lemma derivation_runs:
  assumes "cacheOK E N" "allOutermost E" "localRun E"
  shows "derives E p s e w \<Longrightarrow> bodyRun E N p s e w"
    "repeats E p k s e w \<Longrightarrow> repeatRun E N p k s e w"
    "occurs E p s e w \<Longrightarrow> occursRun E N p s e w"
    "follows E cs s e w \<Longrightarrow> sequenceRun E N cs s e w \<and> (cs = [] \<longrightarrow> s = e \<and> w = [])"
proof (induction rule: derives_repeats_occurs_follows.inducts)
  case (d_element p q e s)
  moreover have "leafAccepts E (eName e) p" using d_element by (simp add: leafAccepts_def prefixAccepts_def)
  ultimately show ?case using leaf_run [of E p q s "eName e" N] by (simp add: leafEl_def)
next
  case (d_any p q w s name)
  moreover have "leafAccepts E name p" using d_any assms(3) by (simp add: leafAccepts_def prefixAccepts_def)
  ultimately show ?case using leaf_run [of E p q s name N] assms(3) by (simp add: leafEl_def)
next
  case (d_choice p q c s e w)
  then show ?case by (blast intro: choice_run [OF assms(1)])
next
  case (d_sequence p q s e w)
  then show ?case by (intro sequence_run) auto
next
  case (d_all p q s ks)
  then show ?case by (blast intro: all_run [OF assms(1)])
next
  case (r_none p s)
  have "trace E N s (StartP (f # r)) s (StartP (f # r)) []" for f r by (rule t_done)
  then show ?case by (auto simp: repeatRun_def spelled_def)
next
  case (r_more p s m v k e w)
  note span = derives_span [OF r_more(1)] repeats_span [OF r_more(3)]
  show ?case
  proof (rule repeat_run [OF _ r_more(1) _ _ r_more(2,4)])
    show "s = m \<Longrightarrow> v = []" using span(1) by (cases v) (auto simp: spans_def)
  qed (use span empty_nullable [OF assms(1,2)] in \<open>auto simp: spans_def\<close>)
next
  case (o_times p q k s e w)
  then show ?case by (blast intro: occurs_run)
next
  case (f_nil s)
  then show ?case by (simp add: sequenceRun_def)
next
  case (f_cons c s m v cs e w)
  note span = occurs_span [OF f_cons(1)] follows_span [OF f_cons(3)]
  show ?case using follows_run [OF assms(1) f_cons(2)] f_cons(4) span by (auto simp: spans_def)
qed

section \<open>Continuations of a prefix\<close>

text \<open>The matcher does not look at children it has not been given.\<close>

abbreviation withNodes :: "matchEnv \<Rightarrow> QName option list \<Rightarrow> matchEnv" where
  "withNodes E ns \<equiv> E\<lparr>nodes := ns\<rparr>"

lemma withNodes_particleAt [simp]: "particleAt (withNodes E ns) = particleAt E"
  by (simp add: particleAt_def fun_eq_iff)

lemma withNodes_ResolveElement [simp]: "ResolveElement (withNodes E ns) = ResolveElement E"
  by (simp add: ResolveElement_def fun_eq_iff split: option.splits)

lemma withNodes_members [simp]: "isActive (withNodes E ns) = isActive E" "isRequired (withNodes E ns) = isRequired E" "declOf (withNodes E ns) = declOf E"
  "leafAccepts (withNodes E ns) = leafAccepts E" "leafEl (withNodes E ns) = leafEl E" "after (withNodes E ns) = after E"
  by (simp_all add: isActive_def isRequired_def declOf_def leafAccepts_def prefixAccepts_def leafEl_def after_def fun_eq_iff
      cong: option.case_cong ParticleKind.case_cong if_cong)

lemma withNodes_leafEls [simp]: "leafEls (withNodes E ns) s ls = leafEls E s ls"
  by (induction ls arbitrary: s) simp_all

lemma withNodes_succs [simp]: "succs (withNodes E ns) N pt = succs E N pt"
  by (induction pt rule: succs.induct [of _ E N]) (simp_all add: leaveSuccs_def memberMissing_def cong: option.case_cong ParticleKind.case_cong if_cong)

lemma withNodes_emitted [simp]: "emitted (withNodes E ns) x pt = emitted E x pt"
  by (induction pt rule: emitted.induct [of _ E x]) (simp_all add: startEmits_def memberNodes_def cong: option.case_cong ParticleKind.case_cong if_cong)

lemma withNodes_nodeOK [simp]: "nodeOK (withNodes E ns) q = nodeOK E q"
  by (simp add: nodeOK_def allMember_def activeNames_def cong: ParticleKind.case_cong)

lemma withNodes_wellFormed [simp]: "wellFormed (withNodes E ns) p = wellFormed E p"
proof
  show "wellFormed (withNodes E ns) p \<Longrightarrow> wellFormed E p"
    by (induction rule: wellFormed.induct) (auto intro: wf_node)
  show "wellFormed E p \<Longrightarrow> wellFormed (withNodes E ns) p"
    by (induction rule: wellFormed.induct) (auto intro: wf_node)
qed

lemma withNodes_nullable [simp]: "nullableOf (withNodes E ns) N = nullableOf E N"
proof -
  have same: "mayBeEmpty (withNodes E ns) N = mayBeEmpty E N" by (simp add: mayBeEmpty_def fun_eq_iff)
  show ?thesis by (rule ext) (simp add: nullableOf_def same cong: ParticleKind.case_cong)
qed

lemma withNodes_cacheOK: "cacheOK E N \<Longrightarrow> cacheOK (withNodes E ns) N"
  by (simp add: cacheOK_def)

lemma withNodes_allOutermost: "allOutermost E \<Longrightarrow> allOutermost (withNodes E ns)"
  by (simp add: allOutermost_def)

lemma occurs_trace:
  assumes "cacheOK E N" "allOutermost E" "localRun E" "N p \<noteq> None" "occurs (withNodes E ns) p 0 e w"
  obtains ls where "trace (withNodes E ns) N 0 (StartP [newFrame p]) e (LeaveP []) ls" "w = leafEls E 0 ls" "e = length ls"
proof -
  have "occursRun (withNodes E ns) N p 0 e w"
    by (rule derivation_runs(3) [OF withNodes_cacheOK [OF assms(1)] withNodes_allOutermost [OF assms(2)] _ assms(5)]) (simp add: assms(3))
  with assms(4) that show ?thesis unfolding occursRun_def by (force simp: spelled_def marked_def dest: spec [of _ "[]"] split: if_splits)
qed

section \<open>Pushing children\<close>

definition openPoints :: "matchEnv \<Rightarrow> prefixMatcher \<Rightarrow> point set" where
  "openPoints E m = (if pmNext m = 0 then {StartP [newFrame (pmParticle m)]} else {}) \<union> after E ` set (pmStates m)"

text \<open>The matcher after \<open>j\<close> bound children: every run over these children goes on from one of its open points.\<close>

definition bindsTo :: "matchEnv \<Rightarrow> (nat \<Rightarrow> bool option) \<Rightarrow> nat \<Rightarrow> prefixMatcher \<Rightarrow> nat \<Rightarrow> ElementMatch list \<Rightarrow> bool" where
  "bindsTo E N p m j els \<longleftrightarrow> pmParticle m = p \<and> pmNullable m = N \<and> pmNext m = j \<and> \<not> pmStopped m \<and>
     (\<forall>c \<in> set (pmStates m). stateOK E N c) \<and> length els = j \<and>
     (\<forall>ns e pt ls. trace (withNodes E (take j (nodes E) @ ns)) N 0 (StartP [newFrame p]) e pt ls \<and> j \<le> e \<longrightarrow>
        els = leafEls E 0 (take j ls) \<and>
        (\<exists>o' \<in> openPoints E m. trace (withNodes E (take j (nodes E) @ ns)) N j o' e pt (drop j ls)))"

lemma after_ok: "stateOK E N c \<Longrightarrow> pointOK E N (after E c)"
  by (cases c) (auto simp: stateOK_def after_def innerOK_at topOK_at split: if_splits)

lemma pushSearch_explores:
  assumes "cacheOK E N" "N p \<noteq> None" "particleAt E p \<noteq> None" "pmParticle m = p" "pmNullable m = N" "\<forall>c \<in> set (pmStates m). stateOK E N c"
  shows "explores E N x {} 0 (pushSearch prefixDepth E x m) (openPoints E m) {}"
proof -
  have go: "explores E N x {} 0 (start prefixDepth E N x c) {StartP c} {}" if "pointOK E N (StartP c)" for c
    using search_explores [OF assms(1), of prefixDepth c x "{}"] that by (simp add: prefixDepth_def)
  have "explores E N x {} 0 (if pmNext m = 0 then start prefixDepth E N x [newFrame p] else ret ()) (if pmNext m = 0 then {StartP [newFrame p]} else {}) {}"
    using go [of "[newFrame p]"] assms(2,3) by (auto simp: explores_ret topOK_new)
  moreover have "explores E N x {} 0 (each (\<lambda>state _. prefixFinish (start prefixDepth E N x) E state) (pmStates m) ())
      (\<Union>c \<in> set (pmStates m). {after E c}) (\<Union>c \<in> set (pmStates m). {})"
  proof (rule explores_each)
    fix c
    assume "c \<in> set (pmStates m)"
    then have ok: "stateOK E N c" using assms(6) by blast
    then obtain f r q where c: "c = f # r" "particleAt E (fParticle f) = Some q" by (cases c) (auto simp: stateOK_def)
    then show "explores E N x {} 0 (prefixFinish (start prefixDepth E N x) E c) {after E c} {}"
      using go [of "finished q f # r"] after_ok [OF ok] by (simp add: prefixFinish_def after_Cons)
  qed
  ultimately have "explores E N x {} 0 (pushSearch prefixDepth E x m)
      ((if pmNext m = 0 then {StartP [newFrame p]} else {}) \<union> (\<Union>c \<in> set (pmStates m). {after E c})) ({} \<union> (\<Union>c \<in> set (pmStates m). {}))"
    unfolding pushSearch_def assms(4,5) by (rule explores_bnd)
  then show ?thesis using assms(4) by (cases "pmNext m = 0") (simp_all add: openPoints_def UNION_singleton_eq_range)
qed

lemma reach_covered:
  assumes "cacheOK E N" "expanded E N x {} s" "(pt, pt') \<in> {(a, b). b \<in> succs E N a}\<^sup>*" "covered s pt" "pointOK E N pt"
  shows "covered s pt' \<and> pointOK E N pt'"
  using assms(3-5)
proof (induction rule: rtrancl_induct)
  case (step y z)
  then have y: "covered s y" "pointOK E N y" "z \<in> succs E N y" by auto
  then have "y \<noteq> LeaveP []" by auto
  then show ?case using y assms(1,2) succs_ok [OF assms(1) y(2,3)] unfolding expanded_def covered_def by blast
qed simp

lemma search_finds:
  assumes cache: "cacheOK E N" and start: "pushSearch prefixDepth E x m NewPrefixSearch = Some ((), s)" "searchInv E N x {} s" "\<not> sOverflow s"
    "\<forall>g \<in> openPoints E m. covered s g" and o': "o' \<in> openPoints E m" "pointOK E N o'"
    and reach: "(o', pt) \<in> {(a, b). b \<in> succs E N a}\<^sup>*" and c: "c \<in> emitted E x pt"
  shows "c \<in> set (sOut s)"
proof -
  have ex: "expanded E N x {} s" using start(2,3) by (simp add: searchInv_def)
  from reach_covered [OF cache ex reach] start(4) o' have "covered s pt" "pointOK E N pt" by auto
  moreover have "pt \<noteq> LeaveP []" using c by auto
  ultimately show ?thesis using ex c unfolding expanded_def covered_def by blast
qed

lemma openPoints_ok:
  "N p \<noteq> None \<Longrightarrow> particleAt E p \<noteq> None \<Longrightarrow> bindsTo E N p m j els \<Longrightarrow> o' \<in> openPoints E m \<Longrightarrow> pointOK E N o'"
  by (auto simp: openPoints_def bindsTo_def topOK_new intro: after_ok split: if_splits)

lemma push_leads:
  assumes cache: "cacheOK E N" and p: "N p \<noteq> None" "particleAt E p \<noteq> None" and m: "bindsTo E N p m j els"
    and s: "pushSearch prefixDepth E x m NewPrefixSearch = Some ((), s)" "searchInv E N x {} s" "\<not> sOverflow s" "\<forall>g \<in> openPoints E m. covered s g"
    and j: "j < size_of E" "nodes E ! j = Some x"
    and ls: "trace (withNodes E (take (Suc j) (nodes E) @ ns)) N 0 (StartP [newFrame p]) e pt ls" "Suc j \<le> e"
  shows "els = leafEls E 0 (take j ls) \<and> (\<exists>c \<in> set (sOut s). ls ! j = leafOf c \<and>
    trace (withNodes E (take (Suc j) (nodes E) @ ns)) N (Suc j) (after E c) e pt (drop (Suc j) ls))"
proof -
  let ?E = "withNodes E (take (Suc j) (nodes E) @ ns)"
  have split: "take (Suc j) (nodes E) @ ns = take j (nodes E) @ (Some x # ns)" using j by (simp add: take_Suc_conv_app_nth)
  have len: "length ls = e" using trace_length [OF ls(1)] by simp
  from m [unfolded bindsTo_def] ls have "els = leafEls E 0 (take j ls) \<and> (\<exists>o' \<in> openPoints E m. trace ?E N j o' e pt (drop j ls))"
    unfolding split by (meson Suc_leD)
  then obtain o' where o': "els = leafEls E 0 (take j ls)" "o' \<in> openPoints E m" "trace ?E N j o' e pt (drop j ls)" by blast
  have ne: "drop j ls \<noteq> []" using len ls(2) by simp
  from trace_first [OF o'(3) ne] obtain pt' y c where c: "(o', pt') \<in> {(a, b). b \<in> succs E N a}\<^sup>*" "nodes ?E ! j = Some y" "c \<in> emitted E y pt'"
    "hd (drop j ls) = leafOf c" "trace ?E N (Suc j) (after E c) e pt (tl (drop j ls))" by auto
  have "y = x" using c(2) j by (simp add: nth_append)
  with c(3) have "c \<in> set (sOut s)" using search_finds [OF cache s o'(2) openPoints_ok [OF p m o'(2)] c(1)] by simp
  moreover have "ls ! j = leafOf c" using c(4) ne by (simp add: hd_drop_conv_nth)
  moreover have "tl (drop j ls) = drop (Suc j) ls" by (simp add: drop_Suc tl_drop)
  ultimately show ?thesis using o'(1) c(5) by auto
qed

text \<open>One child: bound with the invariant, refused for good reason, or given up as ambiguous.\<close>

definition refuses :: "matchEnv \<Rightarrow> (nat \<Rightarrow> bool option) \<Rightarrow> nat \<Rightarrow> nat \<Rightarrow> bool" where
  "refuses E N p j \<longleftrightarrow> (\<forall>ns e pt ls. \<not> (trace (withNodes E (take (Suc j) (nodes E) @ ns)) N 0 (StartP [newFrame p]) e pt ls \<and> Suc j \<le> e))"

lemma push_step:
  assumes cache: "cacheOK E N" and p: "N p \<noteq> None" "particleAt E p \<noteq> None" and m: "bindsTo E N p m j els" and j: "j < size_of E"
  shows "(\<exists>el m' msgs'. push prefixDepth E (nodes E ! j) m msgs = Some (Some el, m', msgs') \<and> bindsTo E N p m' (Suc j) (els @ [el])) \<or>
    (\<exists>m'. push prefixDepth E (nodes E ! j) m msgs = Some (None, m', msgs) \<and> (nodes E ! j \<noteq> None \<and> \<not> pmAmbiguous m' \<longrightarrow> refuses E N p j))"
proof (cases "nodes E ! j")
  case None
  then show ?thesis by (simp add: push_def)
next
  case (Some x)
  have mm: "pmParticle m = p" "pmNullable m = N" "pmNext m = j" "\<not> pmStopped m" "\<forall>c \<in> set (pmStates m). stateOK E N c" "length els = j"
    using m by (auto simp: bindsTo_def)
  have "searchInv E N x {} NewPrefixSearch" by (simp add: searchInv_def NewPrefixSearch_def expanded_def)
  with pushSearch_explores [OF cache p mm(1,2,5), of x] obtain s where
    s: "pushSearch prefixDepth E x m NewPrefixSearch = Some ((), s)" "searchInv E N x {} s" "sOverflow s \<or> (\<forall>g \<in> openPoints E m. covered s g)"
    unfolding explores_def by fastforce
  have leads: "els = leafEls E 0 (take j ls) \<and> (\<exists>c \<in> set (sOut s). ls ! j = leafOf c \<and>
      trace (withNodes E (take (Suc j) (nodes E) @ ns)) N (Suc j) (after E c) e pt (drop (Suc j) ls))"
    if "\<not> sOverflow s" "trace (withNodes E (take (Suc j) (nodes E) @ ns)) N 0 (StartP [newFrame p]) e pt ls" "Suc j \<le> e" for ns e pt ls
    using push_leads [OF cache p m s(1,2) that(1) _ j Some that(2,3)] s(3) that(1) by blast
  show ?thesis
  proof (cases "sOverflow s \<or> sOut s = [] \<or> list_ex (\<lambda>c. leafOf c \<noteq> leafOf (hd (sOut s))) (tl (sOut s))")
    case True
    have "refuses E N p j" if "\<not> sOverflow s" "sOut s = []" using leads [OF that(1)] that(2) by (auto simp: refuses_def)
    with True Some mm(4) s(1) show ?thesis by (auto simp: push_def Let_def)
  next
    case False
    then obtain c0 cs where out: "sOut s = c0 # cs" by (cases "sOut s") auto
    have same: "leafOf c = leafOf c0" if "c \<in> set (sOut s)" for c using False out that by (auto simp: list_ex_iff)
    have states: "\<forall>c \<in> set (sOut s). stateOK E N c" using s(2) by (simp add: searchInv_def)
    then obtain q where q: "particleAt E (leafOf c0) = Some q" "pKind q \<in> {ParticleElement, ParticleAny}" "innerOK E N (hd c0)"
      using out by (cases c0) (auto simp: stateOK_def leafOf_def)
    then have "nodeOK E q" using cacheOK_node(1) [OF cache _ q(1)] by (auto simp: innerOK_def leafOf_def)
    then have "\<exists>msgs'. leafMatch E x (leafOf c0) j msgs = Some (leafEl E (leafOf c0) j, msgs')"
      using q by (auto simp: leafMatch_def leafEl_def nodeOK_def)
    then obtain msgs' where el: "leafMatch E x (leafOf c0) j msgs = Some (leafEl E (leafOf c0) j, msgs')" by blast
    let ?m = "m\<lparr>pmStates := sOut s, pmNext := Suc j\<rparr>"
    have "bindsTo E N p ?m (Suc j) (els @ [leafEl E (leafOf c0) j])"
      unfolding bindsTo_def
    proof (intro conjI allI impI)
      fix ns e pt ls
      assume "trace (withNodes E (take (Suc j) (nodes E) @ ns)) N 0 (StartP [newFrame p]) e pt ls \<and> Suc j \<le> e"
      then have t: "trace (withNodes E (take (Suc j) (nodes E) @ ns)) N 0 (StartP [newFrame p]) e pt ls" "Suc j \<le> e" by auto
      with leads [OF _ t] False obtain c where c: "els = leafEls E 0 (take j ls)" "c \<in> set (sOut s)" "ls ! j = leafOf c"
        "trace (withNodes E (take (Suc j) (nodes E) @ ns)) N (Suc j) (after E c) e pt (drop (Suc j) ls)" by blast
      have "j < length ls" using trace_length [OF t(1)] t(2) by simp
      then have "take (Suc j) ls = take j ls @ [leafOf c0]" using c(3) same [OF c(2)] by (simp add: take_Suc_conv_app_nth)
      then show "els @ [leafEl E (leafOf c0) j] = leafEls E 0 (take (Suc j) ls)" using c(1) mm(6) by (simp add: leafEls_append)
      show "\<exists>o' \<in> openPoints E ?m. trace (withNodes E (take (Suc j) (nodes E) @ ns)) N (Suc j) o' e pt (drop (Suc j) ls)"
        using c(2,4) by (auto simp: openPoints_def)
    qed (use mm states in simp_all)
    moreover have "push prefixDepth E (nodes E ! j) m msgs = Some (Some (leafEl E (leafOf c0) j), ?m, msgs')"
      using Some mm(3,4) s(1) False out el by (auto simp: push_def Let_def)
    ultimately show ?thesis by blast
  qed
qed

lemma pushAll_binds:
  assumes cache: "cacheOK E N" and p: "N p \<noteq> None" "particleAt E p \<noteq> None"
  shows "j \<le> size_of E \<Longrightarrow> bindsTo E N p m j els0 \<Longrightarrow>
    \<exists>els m' msgs'. pushAll prefixDepth E (drop j (nodes E)) m msgs = Some (els, m', msgs') \<and> j + length els \<le> size_of E \<and>
      (\<forall>i. j \<le> i \<and> i \<le> j + length els \<longrightarrow> (\<exists>m. bindsTo E N p m i (take i (els0 @ els)))) \<and>
      (j + length els < size_of E \<and> nodes E ! (j + length els) \<noteq> None \<and> \<not> pmAmbiguous m' \<longrightarrow> refuses E N p (j + length els))"
proof (induction "size_of E - j" arbitrary: j m els0 msgs)
  case 0
  then have l: "length els0 = j" and "drop j (nodes E) = []" by (auto simp: bindsTo_def)
  with 0 show ?case by (auto intro!: exI [of _ m])
next
  case (Suc n)
  then have j: "j < size_of E" and l: "length els0 = j" by (auto simp: bindsTo_def)
  have d: "drop j (nodes E) = nodes E ! j # drop (Suc j) (nodes E)" using j by (simp add: Cons_nth_drop_Suc)
  from push_step [OF cache p Suc.prems(2) j, of msgs] show ?case
  proof
    assume "\<exists>el m' msgs'. push prefixDepth E (nodes E ! j) m msgs = Some (Some el, m', msgs') \<and> bindsTo E N p m' (Suc j) (els0 @ [el])"
    then obtain el m1 msgs1 where one: "push prefixDepth E (nodes E ! j) m msgs = Some (Some el, m1, msgs1)" "bindsTo E N p m1 (Suc j) (els0 @ [el])" by blast
    from Suc.hyps(1) [of "Suc j" m1 "els0 @ [el]" msgs1] Suc.hyps(2) j one(2) obtain els m' msgs' where
      r: "pushAll prefixDepth E (drop (Suc j) (nodes E)) m1 msgs1 = Some (els, m', msgs')" "Suc j + length els \<le> size_of E"
      "\<forall>i. Suc j \<le> i \<and> i \<le> Suc j + length els \<longrightarrow> (\<exists>m. bindsTo E N p m i (take i ((els0 @ [el]) @ els)))"
      "Suc j + length els < size_of E \<and> nodes E ! (Suc j + length els) \<noteq> None \<and> \<not> pmAmbiguous m' \<longrightarrow> refuses E N p (Suc j + length els)" by force
    have "\<exists>m. bindsTo E N p m i (take i (els0 @ el # els))" if "j \<le> i" "i \<le> Suc j + length els" for i
    proof (cases "i = j")
      case True
      with Suc.prems(2) l show ?thesis by auto
    next
      case False
      with r(3) that show ?thesis by simp
    qed
    with one(1) r d show ?thesis by (intro exI [of _ "el # els"] exI [of _ m'] exI [of _ msgs']) simp
  next
    assume "\<exists>m'. push prefixDepth E (nodes E ! j) m msgs = Some (None, m', msgs) \<and> (nodes E ! j \<noteq> None \<and> \<not> pmAmbiguous m' \<longrightarrow> refuses E N p j)"
    then obtain m' where "push prefixDepth E (nodes E ! j) m msgs = Some (None, m', msgs)" "nodes E ! j \<noteq> None \<and> \<not> pmAmbiguous m' \<longrightarrow> refuses E N p j" by blast
    with Suc.prems d j l show ?thesis by (intro exI [of _ "[]"] exI [of _ m'] exI [of _ msgs]) auto
  qed
qed

lemma bindsTo_start: "bindsTo E N p \<lparr> pmParticle = p, pmNullable = N, pmStates = [], pmNext = 0, pmStopped = False, pmAmbiguous = False \<rparr> 0 []"
  by (auto simp: bindsTo_def openPoints_def)

lemma newPrefixMatcher_exact:
  assumes "cacheOK E cache" "wellFormed E p"
  obtains N where "cacheOK E N" "N p \<noteq> None" "newPrefixMatcher E cache p =
    Some (Some \<lparr> pmParticle = p, pmNullable = N, pmStates = [], pmNext = 0, pmStopped = False, pmAmbiguous = False \<rparr>, N)"
proof -
  have at: "particleAt E p \<noteq> None" using assms(2) by (auto elim: wellFormedE)
  have "guards E (\<lambda>p. Prepare (Suc (length (heap E))) E p []) p" by (rule Prepare_exact) simp_all
  moreover have "cacheOK E (mNullable (NewParticleMatcher\<lparr>mNullable := cache\<rparr>))" using assms(1) by simp
  ultimately obtain ok m' where "Prepare (Suc (length (heap E))) E p [] (NewParticleMatcher\<lparr>mNullable := cache\<rparr>) = Some (ok, m')"
    "grows E (NewParticleMatcher\<lparr>mNullable := cache\<rparr>) m'" "ok = wellFormed E p" "ok \<longrightarrow> mNullable m' p \<noteq> None" unfolding guards_def by blast
  moreover from this assms(2) have ok by simp
  ultimately have "Prepare (Suc (length (heap E))) E p [] (NewParticleMatcher\<lparr>mNullable := cache\<rparr>) = Some (True, m')"
    "grows E (NewParticleMatcher\<lparr>mNullable := cache\<rparr>) m'" "mNullable m' p \<noteq> None" by simp_all
  then show ?thesis using that [of "mNullable m'"] at by (simp add: newPrefixMatcher_def grows_def)
qed

section \<open>Property\<close>

text \<open>
  C4: prefix binding on a well-formed content model. The push matcher always returns, whatever the limits
  of its search cut off, and keeps the nullability cache right. The matches are those of the first children,
  and they are determined: for every number of bound children and every way the child list may go on after
  them, each derivation that consumes these children assigns them the declarations the matcher bound. When
  the matcher stops at a child without calling it ambiguous, no continuation of the children up to it has a
  derivation that consumes it.
\<close>
theorem prefix_binding_determined:
  assumes "cacheOK E cache" "allOutermost E" "localRun E" "wellFormed E p"
  shows "\<exists>m N els m' msgs'. newPrefixMatcher E cache p = Some (Some m, N) \<and> cacheOK E N \<and>
    pushAll prefixDepth E (nodes E) m msgs = Some (els, m', msgs') \<and> prefixMatches E cache msgs p = Some (els, N, msgs') \<and>
    length els \<le> size_of E \<and>
    (\<forall>i \<le> length els. \<forall>ns e w. occurs (E\<lparr>nodes := take i (nodes E) @ ns\<rparr>) p 0 e w \<and> i \<le> e \<longrightarrow> take i w = take i els) \<and>
    (length els < size_of E \<and> nodes E ! length els \<noteq> None \<and> \<not> pmAmbiguous m' \<longrightarrow>
       (\<forall>ns e w. \<not> (occurs (E\<lparr>nodes := take (Suc (length els)) (nodes E) @ ns\<rparr>) p 0 e w \<and> Suc (length els) \<le> e)))"
proof -
  obtain N where N: "cacheOK E N" "N p \<noteq> None" "newPrefixMatcher E cache p =
      Some (Some \<lparr> pmParticle = p, pmNullable = N, pmStates = [], pmNext = 0, pmStopped = False, pmAmbiguous = False \<rparr>, N)"
    by (rule newPrefixMatcher_exact [OF assms(1,4)])
  have at: "particleAt E p \<noteq> None" using assms(4) by (auto elim: wellFormedE)
  let ?m = "\<lparr> pmParticle = p, pmNullable = N, pmStates = [], pmNext = 0, pmStopped = False, pmAmbiguous = False \<rparr>"
  from pushAll_binds [OF N(1,2) at _ bindsTo_start, of msgs] obtain els m' msgs' where
    r: "pushAll prefixDepth E (nodes E) ?m msgs = Some (els, m', msgs')" "length els \<le> size_of E"
    "\<forall>i \<le> length els. \<exists>m. bindsTo E N p m i (take i els)"
    "length els < size_of E \<and> nodes E ! length els \<noteq> None \<and> \<not> pmAmbiguous m' \<longrightarrow> refuses E N p (length els)" by auto
  have determined: "take i w = take i els" if i: "i \<le> length els" "occurs (E\<lparr>nodes := take i (nodes E) @ ns\<rparr>) p 0 e w" "i \<le> e" for i ns e w
  proof -
    obtain ls where ls: "trace (withNodes E (take i (nodes E) @ ns)) N 0 (StartP [newFrame p]) e (LeaveP []) ls" "w = leafEls E 0 ls"
      by (rule occurs_trace [OF N(1) assms(2,3) N(2) i(2)])
    obtain m where "bindsTo E N p m i (take i els)" using r(3) i(1) by blast
    with ls(1) i(3) have "take i els = leafEls E 0 (take i ls)" unfolding bindsTo_def by blast
    with ls(2) show ?thesis by (simp add: take_leafEls)
  qed
  have stopped: "\<not> (occurs (E\<lparr>nodes := take (Suc (length els)) (nodes E) @ ns\<rparr>) p 0 e w \<and> Suc (length els) \<le> e)"
    if "refuses E N p (length els)" for ns e w
  proof
    assume o: "occurs (E\<lparr>nodes := take (Suc (length els)) (nodes E) @ ns\<rparr>) p 0 e w \<and> Suc (length els) \<le> e"
    then obtain ls where "trace (withNodes E (take (Suc (length els)) (nodes E) @ ns)) N 0 (StartP [newFrame p]) e (LeaveP []) ls"
      using occurs_trace [OF N(1) assms(2,3) N(2)] by blast
    with o that show False unfolding refuses_def by blast
  qed
  have "prefixMatches E cache msgs p = Some (els, N, msgs')" using N(3) r(1) by (simp add: prefixMatches_def)
  with N r(1,2,4) determined stopped show ?thesis by blast
qed

text \<open>In the content model \<open>(a | b)*, c?\<close> the child \<open>c\<close> is bound to its declaration, and no \<open>a\<close> can follow it.\<close>

definition bindEnv :: "string list \<Rightarrow> matchEnv" where
  "bindEnv names = (sampleEnv names)\<lparr>localRun := True\<rparr>"

lemma bindEnv_outermost: "allOutermost (bindEnv names)"
proof -
  have "\<forall>q \<in> set (heap (bindEnv names)). pKind q \<noteq> ParticleAll" by (simp add: bindEnv_def sampleEnv_def sampleElement_def sampleGroup_def)
  then show ?thesis unfolding allOutermost_def particleAt_def by (auto split: if_splits)
qed

lemma bindEnv_wellFormed: "wellFormed (bindEnv [''c'', ''a'']) 0"
proof -
  have "map_option fst (Prepare (Suc (length (heap (bindEnv [''c'', ''a''])))) (bindEnv [''c'', ''a'']) 0 [] NewParticleMatcher) = Some True"
    by code_simp
  moreover have "guards (bindEnv [''c'', ''a'']) (\<lambda>p. Prepare (Suc (length (heap (bindEnv [''c'', ''a''])))) (bindEnv [''c'', ''a'']) p []) 0"
    by (rule Prepare_exact) simp_all
  ultimately show ?thesis using empty_cacheOK unfolding guards_def by fastforce
qed

theorem prefix_binding_determined_witness:
  "(\<nexists>ns e w. occurs (bindEnv [''c'', ''a'']\<lparr>nodes := Some \<lparr>Space = [], Local = ''c''\<rparr> # ns\<rparr>) 0 0 e w \<and> 1 \<le> e \<and>
      map emParticle (take 1 w) \<noteq> [2]) \<and>
   (\<nexists>ns e w. occurs (bindEnv [''c'', ''a'']\<lparr>nodes := Some \<lparr>Space = [], Local = ''c''\<rparr> # Some \<lparr>Space = [], Local = ''a''\<rparr> # ns\<rparr>) 0 0 e w \<and> 2 \<le> e)"
proof -
  let ?E = "bindEnv [''c'', ''a'']"
  have "localRun ?E" by (simp add: bindEnv_def)
  from prefix_binding_determined [OF empty_cacheOK bindEnv_outermost this bindEnv_wellFormed, of "[]"]
  obtain m N els m' msgs' where r: "newPrefixMatcher ?E (mNullable NewParticleMatcher) 0 = Some (Some m, N)"
    "pushAll prefixDepth ?E (nodes ?E) m [] = Some (els, m', msgs')"
    "\<forall>i \<le> length els. \<forall>ns e w. occurs (?E\<lparr>nodes := take i (nodes ?E) @ ns\<rparr>) 0 0 e w \<and> i \<le> e \<longrightarrow> take i w = take i els"
    "length els < size_of ?E \<and> nodes ?E ! length els \<noteq> None \<and> \<not> pmAmbiguous m' \<longrightarrow>
       (\<forall>ns e w. \<not> (occurs (?E\<lparr>nodes := take (Suc (length els)) (nodes ?E) @ ns\<rparr>) 0 0 e w \<and> Suc (length els) \<le> e))"
    by blast
  have "(case newPrefixMatcher ?E (mNullable NewParticleMatcher) 0 of
      Some (Some m, N) \<Rightarrow> map_option (\<lambda>(els, m', _). (map emParticle els, pmAmbiguous m')) (pushAll prefixDepth ?E (nodes ?E) m [])
    | _ \<Rightarrow> None) = Some ([2], False)" by code_simp
  with r(1,2) have els: "map emParticle els = [2]" "\<not> pmAmbiguous m'" by simp_all
  then have len: "length els = Suc 0" using map_eq_imp_length_eq [of emParticle els id "[2]"] by auto
  have ns: "nodes ?E = [Some \<lparr>Space = [], Local = ''c''\<rparr>, Some \<lparr>Space = [], Local = ''a''\<rparr>]"
    by (simp add: bindEnv_def sampleEnv_def)
  have "map emParticle (take 1 w) = [2]"
    if "occurs (?E\<lparr>nodes := Some \<lparr>Space = [], Local = ''c''\<rparr> # ns\<rparr>) 0 0 e w" "1 \<le> e" for ns e w
  proof -
    have "take 1 w = take 1 els" using r(3) [rule_format, of 1 ns e w] that len by (simp add: ns)
    with len els(1) show ?thesis by simp
  qed
  moreover have "\<not> (occurs (?E\<lparr>nodes := Some \<lparr>Space = [], Local = ''c''\<rparr> # Some \<lparr>Space = [], Local = ''a''\<rparr> # ns\<rparr>) 0 0 e w \<and> 2 \<le> e)"
    for ns e w using r(4) els(2) len by (auto simp: ns numeral_2_eq_2)
  ultimately show ?thesis by blast
qed

end
