(* ===== verification/Xsd_Types.thy ===== *)
theory Xsd_Types
  imports Xsd_Lexical Xsd_Names Go_Actions
begin

text \<open>
  Type definitions and their derivation (\<^verbatim>\<open>internal/xsd/xsi_type.go\<close>, the semantics lookup of
  \<^verbatim>\<open>whitespace.go\<close>, \<^verbatim>\<open>assessment.go\<close>, \<open>ResolveType\<close> and \<open>AddIssue\<close> of \<^verbatim>\<open>kernel.go\<close>). Simple and complex
  definitions refer to each other by pointers and may be cyclic, so they live in two heaps: a pointer is an
  optional index, and an index beyond its heap reads as the zero struct, whose form is unsupported. The
  caches of the context are explicit state. The three recursions over the graph take a depth as fuel.
\<close>

unbundle bit_operations_syntax

section \<open>Schema data\<close>

type_synonym Derivation = "8 word"

definition DerivationExtension :: Derivation where "DerivationExtension = 1"
definition DerivationRestriction :: Derivation where "DerivationRestriction = 2"
definition DerivationList :: Derivation where "DerivationList = 4"
definition DerivationUnion :: Derivation where "DerivationUnion = 8"

datatype SimpleForm = SimpleRestriction | SimpleUnion | SimpleList | SimpleOther string

datatype ComplexForm = ComplexDirect | ComplexSimpleContentExtension | ComplexSimpleContentRestriction
  | ComplexComplexContentExtension | ComplexComplexContentRestriction | ComplexOther string

record SimpleMember =
  smName :: QName
  smInline :: "nat option"

record TypeRef =
  trName :: QName
  InlineSimple :: "nat option"
  InlineComplex :: "nat option"

record SimpleSchema =
  sFinal :: Derivation
  sForm :: SimpleForm
  sBase :: "SimpleMember option"
  sEnumerations :: "string list"
  sMembers :: "SimpleMember option list"
  sItem :: "SimpleMember option"
  sFacets :: SimpleFacets
  sWhiteSpace :: string

record ComplexSchema =
  cBlock :: Derivation
  cFinal :: Derivation
  cForm :: ComplexForm
  cBase :: "TypeRef option"

record TypeSchema =
  tSimple :: "nat option"
  tComplex :: "nat option"

record schemaData =
  simples :: "SimpleSchema list"
  complexes :: "ComplexSchema list"
  Types :: "QName \<rightharpoonup> TypeSchema option"

definition simpleOf :: "schemaData \<Rightarrow> nat \<Rightarrow> SimpleSchema" where
  "simpleOf S i = (if i < length (simples S) then simples S ! i
     else \<lparr> sFinal = 0, sForm = SimpleOther [], sBase = None, sEnumerations = [], sMembers = [], sItem = None, sFacets = noFacets, sWhiteSpace = [] \<rparr>)"

definition complexOf :: "schemaData \<Rightarrow> nat \<Rightarrow> ComplexSchema" where
  "complexOf S i = (if i < length (complexes S) then complexes S ! i
     else \<lparr> cBlock = 0, cFinal = 0, cForm = ComplexOther [], cBase = None \<rparr>)"

definition XSDNamespace :: string where
  "XSDNamespace = ''http://www.w3.org/2001/XMLSchema''"

section \<open>Type identities and their bases\<close>

record TypeIdentity =
  tiSimple :: "nat option"
  tiComplex :: "nat option"
  tiBuiltin :: string

definition BuiltinType :: "string \<Rightarrow> TypeIdentity" where
  "BuiltinType name = \<lparr> tiSimple = None, tiComplex = None, tiBuiltin = name \<rparr>"

definition ResolveType :: "schemaData \<Rightarrow> TypeRef option \<Rightarrow> nat option \<times> nat option \<times> string \<times> bool" where
  "ResolveType S reference =
     (case reference of
        None \<Rightarrow> (None, None, [], False)
      | Some r \<Rightarrow>
          if InlineSimple r \<noteq> None \<and> InlineComplex r \<noteq> None then (None, None, [], False)
          else if InlineSimple r \<noteq> None then (InlineSimple r, None, [], True)
          else if InlineComplex r \<noteq> None then (None, InlineComplex r, [], True)
          else if Local (trName r) = [] then (None, None, [], False)
          else if Space (trName r) = XSDNamespace
          then (None, None, Local (trName r), builtinSemanticsValue (Local (trName r)) \<noteq> None)
          else (case Types S (trName r) of
              Some (Some resolved) \<Rightarrow> (tSimple resolved, tComplex resolved, [], True)
            | _ \<Rightarrow> (None, None, [], False)))"

definition TypeIdentity_of :: "schemaData \<Rightarrow> TypeRef option \<Rightarrow> TypeIdentity \<times> bool" where
  "TypeIdentity_of S ref =
     (case ResolveType S ref of (simple, complex, builtin, ok) \<Rightarrow>
        (\<lparr> tiSimple = simple, tiComplex = complex, tiBuiltin = builtin \<rparr>,
         ok \<and> (simple \<noteq> None \<or> complex \<noteq> None \<or> builtin \<noteq> [])))"

definition Final :: "schemaData \<Rightarrow> TypeIdentity \<Rightarrow> Derivation" where
  "Final S v =
     (case tiSimple v of
        Some i \<Rightarrow> sFinal (simpleOf S i)
      | None \<Rightarrow> (case tiComplex v of Some j \<Rightarrow> cFinal (complexOf S j) | None \<Rightarrow> 0))"

definition builtinBases :: "(string \<times> string) list" where
  "builtinBases =
     [(''anyType'', []), (''anySimpleType'', ''anyType''), (''normalizedString'', ''string''), (''token'', ''normalizedString''),
      (''language'', ''token''), (''Name'', ''token''), (''NMTOKEN'', ''token''), (''NCName'', ''Name''),
      (''ID'', ''NCName''), (''IDREF'', ''NCName''), (''ENTITY'', ''NCName''), (''integer'', ''decimal''),
      (''nonPositiveInteger'', ''integer''), (''nonNegativeInteger'', ''integer''), (''long'', ''integer''),
      (''negativeInteger'', ''nonPositiveInteger''), (''positiveInteger'', ''nonNegativeInteger''),
      (''unsignedLong'', ''nonNegativeInteger''), (''int'', ''long''), (''short'', ''int''), (''byte'', ''short''),
      (''unsignedInt'', ''unsignedLong''), (''unsignedShort'', ''unsignedInt''), (''unsignedByte'', ''unsignedShort'')]"

definition BuiltinBase :: "string \<Rightarrow> string" where
  "BuiltinBase name = (case map_of builtinBases name of Some base \<Rightarrow> base | None \<Rightarrow> ''anySimpleType'')"

definition MemberType :: "schemaData \<Rightarrow> SimpleMember option \<Rightarrow> TypeIdentity \<times> bool" where
  "MemberType S member =
     (case member of
        None \<Rightarrow> (BuiltinType [], False)
      | Some m \<Rightarrow> TypeIdentity_of S (Some \<lparr> trName = smName m, InlineSimple = smInline m, InlineComplex = None \<rparr>))"

definition TypeBase :: "schemaData \<Rightarrow> TypeIdentity \<Rightarrow> TypeIdentity \<times> Derivation \<times> bool" where
  "TypeBase S v =
     (if tiBuiltin v \<noteq> [] then
        (if BuiltinBase (tiBuiltin v) = [] then (BuiltinType [], 0, True)
         else (BuiltinType (BuiltinBase (tiBuiltin v)), DerivationRestriction, True))
      else case tiSimple v of
        Some i \<Rightarrow>
          (case sForm (simpleOf S i) of
             SimpleRestriction \<Rightarrow> (case MemberType S (sBase (simpleOf S i)) of (base, ok) \<Rightarrow> (base, DerivationRestriction, ok))
           | SimpleOther _ \<Rightarrow> (BuiltinType [], 0, False)
           | _ \<Rightarrow> (BuiltinType ''anySimpleType'', DerivationRestriction, True))
      | None \<Rightarrow>
          (case tiComplex v of
             None \<Rightarrow> (BuiltinType [], 0, False)
           | Some j \<Rightarrow>
               (case TypeIdentity_of S (cBase (complexOf S j)) of (base, ok) \<Rightarrow>
                  case cForm (complexOf S j) of
                    ComplexDirect \<Rightarrow> (BuiltinType ''anyType'', DerivationRestriction, True)
                  | ComplexSimpleContentExtension \<Rightarrow> (base, DerivationExtension, ok)
                  | ComplexComplexContentExtension \<Rightarrow> (base, DerivationExtension, ok)
                  | ComplexSimpleContentRestriction \<Rightarrow> (base, DerivationRestriction, ok)
                  | ComplexComplexContentRestriction \<Rightarrow> (base, DerivationRestriction, ok)
                  | ComplexOther _ \<Rightarrow> (BuiltinType [], 0, False))))"

section \<open>The context\<close>

datatype message = Plain string | Formatted string "fmtArg list" | AtPath string message

record Issue =
  isPath :: string
  isConstraint :: string
  isMessage :: message

record TypeSemantics = SimpleSemantics +
  semUnion :: "nat option"
  semList :: "nat option"

record TypeContext =
  AssessmentErr :: "message list"
  AssessmentVersion :: nat
  TypeMetadata :: "TypeIdentity \<rightharpoonup> nat"
  Derivations :: "TypeIdentity \<times> TypeIdentity \<times> Derivation \<rightharpoonup> bool"
  SemanticsCache :: "nat \<rightharpoonup> TypeSemantics option"
  Issues :: "Issue list"

type_synonym 'a tact = "(TypeContext, 'a) action"

definition NewTypeContext :: TypeContext where
  "NewTypeContext = \<lparr> AssessmentErr = [], AssessmentVersion = 0, TypeMetadata = \<lambda>_. None,
     Derivations = \<lambda>_. None, SemanticsCache = \<lambda>_. None, Issues = [] \<rparr>"

definition Incomplete :: "message \<Rightarrow> unit tact" where
  "Incomplete msg = upd (\<lambda>c. c\<lparr> AssessmentErr := AssessmentErr c @ [msg], AssessmentVersion := Suc (AssessmentVersion c) \<rparr>)"

definition IncompleteAgain :: "message \<Rightarrow> unit tact" where
  "IncompleteAgain msg = bnd (get AssessmentErr) (\<lambda>err.
     if err = [] then Incomplete msg else upd (\<lambda>c. c\<lparr> AssessmentVersion := Suc (AssessmentVersion c) \<rparr>))"

definition AddIssue :: "string \<Rightarrow> string \<Rightarrow> message \<Rightarrow> unit tact" where
  "AddIssue path constraint msg =
     (if constraint = ''model-capability'' then ret ()
      else if constraint = ''schema'' \<or> constraint = ''assessment'' then
        bnd (get AssessmentErr) (\<lambda>err.
          if constraint = ''schema'' \<or> err = [] then Incomplete (AtPath path msg) else ret ())
      else upd (\<lambda>c. c\<lparr> Issues := Issues c @ [\<lparr> isPath = path, isConstraint = constraint, isMessage = msg \<rparr>] \<rparr>))"

definition refuse :: "string \<Rightarrow> bool tact" where
  "refuse msg = bnd (Incomplete (Plain msg)) (\<lambda>_. ret False)"

section \<open>Type metadata\<close>

definition metadataItem :: "schemaData \<Rightarrow> (TypeIdentity \<Rightarrow> bool tact) \<Rightarrow> SimpleMember option \<Rightarrow> Derivation \<Rightarrow> string \<Rightarrow> string \<Rightarrow> bool tact" where
  "metadataItem S valid member flag missing forbidden =
     (case MemberType S member of (item, found) \<Rightarrow>
        if \<not> found then refuse missing
        else bnd (valid item) (\<lambda>ok.
          if \<not> ok then refuse missing
          else if Final S item AND flag \<noteq> 0 then refuse forbidden else ret True))"

primrec metadataMembers :: "schemaData \<Rightarrow> (TypeIdentity \<Rightarrow> bool tact) \<Rightarrow> SimpleMember option list \<Rightarrow> bool tact" where
  "metadataMembers S valid [] = ret True"
| "metadataMembers S valid (m # ms) =
     bnd (metadataItem S valid m DerivationUnion ''union member type metadata cannot be resolved''
            ''union member final forbids union construction'')
       (\<lambda>ok. if \<not> ok then ret False else metadataMembers S valid ms)"

definition metadataSimple :: "schemaData \<Rightarrow> (TypeIdentity \<Rightarrow> bool tact) \<Rightarrow> SimpleSchema \<Rightarrow> TypeIdentity \<Rightarrow> bool tact" where
  "metadataSimple S valid s base =
     (case sForm s of
        SimpleRestriction \<Rightarrow>
          if tiComplex base \<noteq> None \<or> tiBuiltin base = ''anyType'' then refuse ''simple restriction has a non-simple base'' else ret True
      | SimpleList \<Rightarrow>
          metadataItem S valid (sItem s) DerivationList ''list item type metadata cannot be resolved''
            ''list item type final forbids list construction''
      | SimpleUnion \<Rightarrow>
          if sMembers s = [] then refuse ''union has no member type metadata'' else metadataMembers S valid (sMembers s)
      | SimpleOther _ \<Rightarrow> ret True)"

definition metadataComplex :: "ComplexSchema \<Rightarrow> TypeIdentity \<Rightarrow> bool tact" where
  "metadataComplex s base =
     (if cForm s \<in> {ComplexComplexContentExtension, ComplexComplexContentRestriction, ComplexSimpleContentRestriction} \<and>
         tiComplex base = None \<and> tiBuiltin base \<noteq> ''anyType''
      then refuse ''complex derivation has a non-complex base'' else ret True)"

definition metadataBody :: "schemaData \<Rightarrow> (TypeIdentity \<Rightarrow> bool tact) \<Rightarrow> TypeIdentity \<Rightarrow> bool tact" where
  "metadataBody S valid v =
     (if tiSimple v \<noteq> None \<and> tiComplex v \<noteq> None then refuse ''type metadata has both simple and complex definitions''
      else case TypeBase S v of (base, method, found) \<Rightarrow>
        if \<not> found then refuse ''missing or unsupported type derivation metadata''
        else bnd (if method = 0 then ret True
                  else bnd (valid base) (\<lambda>ok.
                    if \<not> ok then ret False
                    else if Final S base AND method \<noteq> 0 then refuse ''type derivation violates base final metadata'' else ret True))
          (\<lambda>ok. if \<not> ok then ret False
            else bnd (case tiSimple v of None \<Rightarrow> ret True | Some i \<Rightarrow> metadataSimple S valid (simpleOf S i) base)
              (\<lambda>ok. if \<not> ok then ret False
                else (case tiComplex v of None \<Rightarrow> ret True | Some j \<Rightarrow> metadataComplex (complexOf S j) base))))"

text \<open>The states of the cache: 1 while a type is being checked, 2 for a valid one, 3 for any other.\<close>

primrec ValidTypeMetadata :: "nat \<Rightarrow> schemaData \<Rightarrow> TypeIdentity \<Rightarrow> bool tact" where
  "ValidTypeMetadata 0 S v = panic"
| "ValidTypeMetadata (Suc n) S v =
     bnd (get TypeMetadata) (\<lambda>T. case T v of
        Some state \<Rightarrow>
          bnd (if state = 1 then Incomplete (Plain ''cyclic type derivation metadata'')
               else if state = 3 then IncompleteAgain (Plain ''cached type metadata assessment is incomplete'') else ret ())
            (\<lambda>_. ret (state = 2))
      | None \<Rightarrow>
          bnd (upd (TypeMetadata_update (\<lambda>T. T(v \<mapsto> 1)))) (\<lambda>_.
          bnd (metadataBody S (ValidTypeMetadata n S) v) (\<lambda>ok.
          bnd (upd (TypeMetadata_update (\<lambda>T. T(v \<mapsto> (if ok then 2 else 3))))) (\<lambda>_. ret ok))))"

definition metadataDepth :: "schemaData \<Rightarrow> nat" where
  "metadataDepth S = length (simples S) + length (complexes S) + 12"

section \<open>Simple semantics\<close>

definition builtinSemantics :: "string \<Rightarrow> TypeSemantics option" where
  "builtinSemantics name =
     map_option (\<lambda>s. SimpleSemantics.extend s \<lparr> semUnion = None, semList = None \<rparr>) (builtinSemanticsValue name)"

definition MemberSemantics :: "schemaData \<Rightarrow> (nat \<Rightarrow> TypeSemantics option tact) \<Rightarrow> SimpleMember option \<Rightarrow> TypeSemantics option tact" where
  "MemberSemantics S resolve member =
     (case member of
        None \<Rightarrow> ret None
      | Some m \<Rightarrow>
          (case smInline m of
             Some i \<Rightarrow> resolve i
           | None \<Rightarrow>
               if Space (smName m) = XSDNamespace then ret (builtinSemantics (Local (smName m)))
               else (case Types S (smName m) of
                   Some (Some resolved) \<Rightarrow> (case tSimple resolved of None \<Rightarrow> ret None | Some i \<Rightarrow> resolve i)
                 | _ \<Rightarrow> ret None)))"

definition applyWhiteSpace :: "string \<Rightarrow> TypeSemantics \<Rightarrow> TypeSemantics option" where
  "applyWhiteSpace w s =
     (if w = [] then Some s
      else if Whitespace s = WhitespaceMember then None
      else if w = ''preserve'' then Some (s\<lparr> Whitespace := WhitespacePreserve \<rparr>)
      else if w = ''replace'' then Some (s\<lparr> Whitespace := WhitespaceReplace \<rparr>)
      else if w = ''collapse'' then Some (s\<lparr> Whitespace := WhitespaceCollapse \<rparr>)
      else None)"

primrec membersResolved :: "schemaData \<Rightarrow> (nat \<Rightarrow> TypeSemantics option tact) \<Rightarrow> SimpleMember option list \<Rightarrow> bool tact" where
  "membersResolved S resolve [] = ret True"
| "membersResolved S resolve (m # ms) =
     bnd (MemberSemantics S resolve m) (\<lambda>r. if r = None then ret False else membersResolved S resolve ms)"

definition semanticsBody :: "schemaData \<Rightarrow> (nat \<Rightarrow> TypeSemantics option tact) \<Rightarrow> nat \<Rightarrow> TypeSemantics option tact" where
  "semanticsBody S resolve i =
     (let s = simpleOf S i in
      case sForm s of
        SimpleRestriction \<Rightarrow>
          bnd (MemberSemantics S resolve (sBase s)) (\<lambda>base. ret (Option.bind base (applyWhiteSpace (sWhiteSpace s))))
      | SimpleList \<Rightarrow>
          bnd (MemberSemantics S resolve (sItem s)) (\<lambda>item. ret (if item = None then None else
            Some \<lparr> Whitespace = WhitespaceCollapse, Builtin = [], StringValue = False, semUnion = None, semList = Some i \<rparr>))
      | SimpleUnion \<Rightarrow>
          if sMembers s = [] then ret None
          else bnd (membersResolved S resolve (sMembers s)) (\<lambda>ok. ret (if ok then
            Some \<lparr> Whitespace = WhitespaceMember, Builtin = [], StringValue = False, semUnion = Some i, semList = None \<rparr> else None))
      | SimpleOther _ \<Rightarrow> ret None)"

primrec ResolveSimpleSemantics :: "nat \<Rightarrow> schemaData \<Rightarrow> nat \<Rightarrow> TypeSemantics option tact" where
  "ResolveSimpleSemantics 0 S i = panic"
| "ResolveSimpleSemantics (Suc n) S i =
     bnd (bnd (get SemanticsCache) (\<lambda>K. case K i of
            Some known \<Rightarrow> ret known
          | None \<Rightarrow>
              bnd (upd (SemanticsCache_update (\<lambda>K. K(i \<mapsto> None)))) (\<lambda>_.
              bnd (semanticsBody S (ResolveSimpleSemantics n S) i) (\<lambda>r. case r of
                  None \<Rightarrow> ret None
                | Some s \<Rightarrow> bnd (upd (SemanticsCache_update (\<lambda>K. K(i \<mapsto> Some s)))) (\<lambda>_. ret (Some s))))))
       (\<lambda>r. if r = None then bnd (Incomplete (Plain ''simple type metadata is missing, cyclic or unsupported'')) (\<lambda>_. ret None)
            else ret r)"

definition semanticsDepth :: "schemaData \<Rightarrow> nat" where
  "semanticsDepth S = Suc (Suc (length (simples S)))"

section \<open>Derivation\<close>

primrec unionDerived :: "schemaData \<Rightarrow> (TypeIdentity \<Rightarrow> bool tact) \<Rightarrow> SimpleMember option list \<Rightarrow> bool tact" where
  "unionDerived S derived [] = ret False"
| "unionDerived S derived (m # ms) =
     bnd (derived (fst (MemberType S m))) (\<lambda>ok. if ok then ret True else unionDerived S derived ms)"

definition setDerivation :: "TypeIdentity \<times> TypeIdentity \<times> Derivation \<Rightarrow> bool \<Rightarrow> bool tact" where
  "setDerivation key result = bnd (upd (Derivations_update (\<lambda>D. D(key \<mapsto> result)))) (\<lambda>_. ret result)"

definition derivedBody :: "schemaData \<Rightarrow> (TypeIdentity \<Rightarrow> TypeIdentity \<Rightarrow> bool tact) \<Rightarrow> TypeIdentity \<Rightarrow> TypeIdentity \<Rightarrow> Derivation \<Rightarrow> bool tact" where
  "derivedBody S derives d b blocked =
     (case TypeBase S d of (parent, method, found) \<Rightarrow>
        if method = 0 \<or> blocked AND method \<noteq> 0 then ret False
        else
          let finish = bnd (if parent = b then ret True else derives parent b) (setDerivation (d, b, blocked)) in
          case (tiSimple b, tiComplex d) of
            (Some i, None) \<Rightarrow>
              bnd (ResolveSimpleSemantics (semanticsDepth S) S i) (\<lambda>r. case r of
                  None \<Rightarrow> ret False
                | Some semantics \<Rightarrow>
                    (case semUnion semantics of
                       None \<Rightarrow> finish
                     | Some u \<Rightarrow>
                         bnd (unionDerived S (derives d) (sMembers (simpleOf S u))) (\<lambda>ok.
                           if ok then setDerivation (d, b, blocked) True else finish)))
          | _ \<Rightarrow> finish)"

primrec TypeDerived :: "nat \<Rightarrow> schemaData \<Rightarrow> Derivation \<Rightarrow> TypeIdentity \<Rightarrow> TypeIdentity \<Rightarrow> bool tact" where
  "TypeDerived 0 S blocked d b = panic"
| "TypeDerived (Suc n) S blocked d b =
     (if d = b then ret True
      else bnd (get Derivations) (\<lambda>D. case D (d, b, blocked) of
          Some known \<Rightarrow> ret known
        | None \<Rightarrow>
            bnd (upd (Derivations_update (\<lambda>D. D((d, b, blocked) \<mapsto> False)))) (\<lambda>_.
            bnd (get AssessmentVersion) (\<lambda>before.
            bnd (derivedBody S (TypeDerived n S blocked) d b blocked) (\<lambda>result.
            bnd (get AssessmentVersion) (\<lambda>after.
            bnd (if after \<noteq> before then upd (Derivations_update (\<lambda>D. D((d, b, blocked) := None))) else ret ())
              (\<lambda>_. ret result)))))))"

section \<open>The type of an element\<close>

record Attribute =
  aName :: QName
  aValue :: string
  aNamespaceDeclaration :: bool

record Node =
  nNamespaces :: "string \<rightharpoonup> string"
  nAttrs :: "Attribute list"

definition instanceQName :: "Node \<Rightarrow> string \<Rightarrow> QName \<times> bool" where
  "instanceQName node text =
     (let lexical = collapseWhitespace text in
      if \<not> validXSDQName (normalizeWhitespace ''QName'' lexical) then (\<lparr> Space = [], Local = [] \<rparr>, False)
      else if CHR '':'' \<notin> set lexical
      then (\<lparr> Space = (case nNamespaces node [] of Some ns \<Rightarrow> ns | None \<Rightarrow> []), Local = lexical \<rparr>, True)
      else
        let prefix = takeWhile (\<lambda>ch. ch \<noteq> CHR '':'') lexical; local = tl (dropWhile (\<lambda>ch. ch \<noteq> CHR '':'') lexical) in
        (case nNamespaces node prefix of
           None \<Rightarrow> (\<lparr> Space = [], Local = local \<rparr>, False)
         | Some ns \<Rightarrow> (\<lparr> Space = ns, Local = local \<rparr>, ns \<noteq> [])))"

definition xsiType :: "Attribute list \<Rightarrow> string option" where
  "xsiType attrs = map_option aValue
     (find (\<lambda>a. \<not> aNamespaceDeclaration a \<and> aName a = \<lparr> Space = XSINamespace, Local = ''type'' \<rparr>) attrs)"

text \<open>
  The check of a nominated type that has been resolved. \<open>decl\<close> and \<open>block\<close> are the fields \<open>Type\<close> and \<open>Block\<close> of
  the element declaration.
\<close>

definition blockedBy :: "schemaData \<Rightarrow> Derivation \<Rightarrow> TypeIdentity \<Rightarrow> TypeIdentity \<Rightarrow> Derivation" where
  "blockedBy S block actual base =
     (case (tiComplex actual, tiComplex base) of
        (Some _, Some j) \<Rightarrow> block OR cBlock (complexOf S j)
      | _ \<Rightarrow> block)"

definition nominate :: "schemaData \<Rightarrow> TypeRef \<Rightarrow> TypeIdentity \<Rightarrow> TypeRef \<Rightarrow> TypeIdentity \<Rightarrow> Derivation \<Rightarrow> string \<Rightarrow> (TypeRef \<times> bool) tact" where
  "nominate S nominated actual decl base block issuePath =
     bnd (ValidTypeMetadata (metadataDepth S) S actual) (\<lambda>ok.
       if \<not> ok then ret (decl, False)
       else bnd (ValidTypeMetadata (metadataDepth S) S base) (\<lambda>ok.
         if \<not> ok then ret (decl, False)
         else
           bnd (get AssessmentVersion) (\<lambda>before.
           bnd (TypeDerived (2 * metadataDepth S) S (blockedBy S block actual base) actual base) (\<lambda>derived.
           bnd (get AssessmentVersion) (\<lambda>after.
             if after \<noteq> before then ret (decl, False)
             else if \<not> derived
             then bnd (AddIssue issuePath ''xsi:type'' (Plain ''nominated type is not an allowed derivation of the declared type''))
                    (\<lambda>_. ret (decl, False))
             else ret (nominated, True))))))"

definition ActualElementType :: "schemaData \<Rightarrow> Node \<Rightarrow> TypeRef \<Rightarrow> Derivation \<Rightarrow> string \<Rightarrow> (TypeRef \<times> bool) tact" where
  "ActualElementType S node decl block path =
     (case xsiType (nAttrs node) of
        None \<Rightarrow> ret (decl, True)
      | Some value \<Rightarrow>
          let issuePath = attributePath path \<lparr> Space = XSINamespace, Local = ''type'' \<rparr> in
          (case instanceQName node value of (name, ok) \<Rightarrow>
             if \<not> ok
             then bnd (AddIssue issuePath ''xsi:type'' (Formatted ''value %q is not a bound QName'' [FmtText value]))
                    (\<lambda>_. ret (decl, False))
             else
               let nominated = \<lparr> trName = name, InlineSimple = None, InlineComplex = None \<rparr> in
               (case TypeIdentity_of S (Some nominated) of (actual, found) \<Rightarrow>
                  if \<not> found then
                    (if Types S name \<noteq> None
                     then bnd (Incomplete (Plain ''nominated type component metadata is missing'')) (\<lambda>_. ret (decl, False))
                     else bnd (AddIssue issuePath ''xsi:type''
                                (Formatted ''type %s cannot be resolved in the selected schema'' [FmtText (displayQName name)]))
                            (\<lambda>_. ret (decl, False)))
                  else (case TypeIdentity_of S (Some decl) of (base, found) \<Rightarrow>
                    if \<not> found
                    then bnd (Incomplete (Plain ''declared type metadata cannot be resolved for xsi:type'')) (\<lambda>_. ret (decl, False))
                    else nominate S nominated actual decl base block issuePath))))"

end
