(* ===== verification/Xsd_Metadata.thy ===== *)
theory Xsd_Metadata
  imports Xsd_Types Go_Graphs
begin

text \<open>
  What \<open>ValidTypeMetadata\<close> decides: a type is sound when every derivation and construction below it ends,
  resolves and respects the final flags. The cached depth-first check returns exactly that for every schema,
  cyclic ones included, and it records a technical error exactly when the type is not sound.
\<close>

section \<open>Sound types\<close>

definition memberUse :: "schemaData \<Rightarrow> Derivation \<Rightarrow> SimpleMember option \<Rightarrow> TypeIdentity \<times> bool \<times> Derivation" where
  "memberUse S flag m = (fst (MemberType S m), snd (MemberType S m), flag)"

definition itemsOf :: "schemaData \<Rightarrow> SimpleSchema \<Rightarrow> (TypeIdentity \<times> bool \<times> Derivation) list" where
  "itemsOf S s = (case sForm s of SimpleList \<Rightarrow> [memberUse S DerivationList (sItem s)]
     | SimpleUnion \<Rightarrow> map (memberUse S DerivationUnion) (sMembers s) | _ \<Rightarrow> [])"

text \<open>The types a type refers to: whether the reference resolves, and the final flag that forbids it.\<close>

definition usesOf :: "schemaData \<Rightarrow> TypeIdentity \<Rightarrow> (TypeIdentity \<times> bool \<times> Derivation) list" where
  "usesOf S v =
     (if tiSimple v \<noteq> None \<and> tiComplex v \<noteq> None then []
      else (case TypeBase S v of (base, flag, found) \<Rightarrow> if found \<and> flag \<noteq> 0 then [(base, True, flag)] else []) @
        (case tiSimple v of None \<Rightarrow> [] | Some i \<Rightarrow> itemsOf S (simpleOf S i)))"

definition permitted :: "schemaData \<Rightarrow> TypeIdentity \<times> bool \<times> Derivation \<Rightarrow> bool" where
  "permitted S = (\<lambda>(u, found, flag). found \<and> Final S u AND flag = 0)"

definition simpleFits :: "SimpleSchema \<Rightarrow> TypeIdentity \<Rightarrow> bool" where
  "simpleFits s base \<longleftrightarrow>
     (case sForm s of
        SimpleRestriction \<Rightarrow> tiComplex base = None \<and> tiBuiltin base \<noteq> ''anyType''
      | SimpleUnion \<Rightarrow> sMembers s \<noteq> []
      | _ \<Rightarrow> True)"

definition complexFits :: "ComplexSchema \<Rightarrow> TypeIdentity \<Rightarrow> bool" where
  "complexFits s base \<longleftrightarrow>
     cForm s \<in> {ComplexComplexContentExtension, ComplexComplexContentRestriction, ComplexSimpleContentRestriction} \<longrightarrow>
     tiComplex base \<noteq> None \<or> tiBuiltin base = ''anyType''"

definition nodeFine :: "schemaData \<Rightarrow> TypeIdentity \<Rightarrow> bool" where
  "nodeFine S v \<longleftrightarrow> \<not> (tiSimple v \<noteq> None \<and> tiComplex v \<noteq> None) \<and>
     (case TypeBase S v of (base, flag, found) \<Rightarrow> found \<and>
        (\<forall>i. tiSimple v = Some i \<longrightarrow> simpleFits (simpleOf S i) base) \<and>
        (\<forall>j. tiComplex v = Some j \<longrightarrow> complexFits (complexOf S j) base)) \<and>
     (\<forall>u \<in> set (usesOf S v). permitted S u)"

inductive soundType :: "schemaData \<Rightarrow> TypeIdentity \<Rightarrow> bool" for S :: schemaData where
  sound_node: "nodeFine S v \<Longrightarrow> (\<forall>u \<in> set (usesOf S v). soundType S (fst u)) \<Longrightarrow> soundType S v"

lemma soundType_iff: "soundType S v \<longleftrightarrow> nodeFine S v \<and> (\<forall>u \<in> set (usesOf S v). soundType S (fst u))"
  by (metis soundType.simps)

definition usesRel :: "schemaData \<Rightarrow> (TypeIdentity \<times> TypeIdentity) set" where
  "usesRel S = {(v, u). u \<in> fst ` set (usesOf S v)}"

lemma usesRelI: "u \<in> set (usesOf S v) \<Longrightarrow> (v, fst u) \<in> usesRel S"
  by (auto simp: usesRel_def)

lemma sound_used: "soundType S v \<Longrightarrow> (v, u) \<in> usesRel S \<Longrightarrow> soundType S u"
  using soundType_iff [of S v] by (auto simp: usesRel_def)

lemma sound_acc: "soundType S v \<Longrightarrow> v \<in> Wellfounded.acc ((usesRel S)\<inverse>)"
proof (induction rule: soundType.induct)
  case (sound_node v)
  show ?case by (rule accI) (use sound_node in \<open>auto simp: usesRel_def\<close>)
qed

interpretation type_graph: descent "usesRel S" "soundType S" for S
  by unfold_locales (auto intro: sound_acc sound_used)

text \<open>Identities as the program builds them: a built-in name, or pointers.\<close>

definition plain :: "TypeIdentity \<Rightarrow> bool" where
  "plain v \<longleftrightarrow> tiBuiltin v = [] \<or> tiSimple v = None \<and> tiComplex v = None"

lemma plain_builtin [simp]: "plain (BuiltinType name)"
  by (simp add: plain_def BuiltinType_def)

lemma plain_identity: "plain (fst (TypeIdentity_of S ref))"
  by (auto simp: plain_def TypeIdentity_of_def ResolveType_def split: option.splits)

lemma plain_member: "plain (fst (MemberType S m))"
  using plain_identity by (auto simp: MemberType_def split: option.splits)

lemma plain_base: "plain (fst (TypeBase S v))"
proof -
  have "plain a" if "MemberType S m = (a, b)" for a b m using plain_member [of S m] that by simp
  moreover have "plain a" if "TypeIdentity_of S r = (a, b)" for a b r using plain_identity [of S r] that by simp
  ultimately show ?thesis
    unfolding TypeBase_def by (auto split: option.splits SimpleForm.splits ComplexForm.splits prod.splits)
qed

lemma plain_used:
  assumes "u \<in> set (usesOf S v)"
  shows "plain (fst u)"
proof -
  obtain base flag found where b: "TypeBase S v = (base, flag, found)" by (rule prod_cases3)
  then have "plain base" using plain_base [of S v] by simp
  then show ?thesis
    using assms plain_member b
    by (cases "tiSimple v"; cases "sForm (simpleOf S (the (tiSimple v)))") (auto simp: usesOf_def itemsOf_def memberUse_def split: if_splits)
qed

section \<open>The cache\<close>

definition metaInv :: "schemaData \<Rightarrow> TypeIdentity set \<Rightarrow> (TypeIdentity \<rightharpoonup> nat) \<Rightarrow> bool" where
  "metaInv S A T \<longleftrightarrow> (\<forall>v \<in> A. T v = Some 1) \<and>
     (\<forall>v st. T v = Some st \<longrightarrow> v \<in> A \<or> st = (if soundType S v then 2 else 3))"

text \<open>
  A step of the check: new entries only, a success leaves no trace of error, a failure leaves one.
\<close>

definition settled :: "schemaData \<Rightarrow> TypeIdentity set \<Rightarrow> TypeContext \<Rightarrow> bool \<Rightarrow> TypeContext \<Rightarrow> bool" where
  "settled S A c ok c' \<longleftrightarrow> metaInv S A (TypeMetadata c') \<and>
     c' = c\<lparr> TypeMetadata := TypeMetadata c', AssessmentErr := AssessmentErr c', AssessmentVersion := AssessmentVersion c' \<rparr> \<and>
     (if ok then AssessmentErr c' = AssessmentErr c \<and> AssessmentVersion c' = AssessmentVersion c
      else AssessmentErr c' \<noteq> [] \<and> AssessmentVersion c < AssessmentVersion c')"

definition decides :: "schemaData \<Rightarrow> TypeIdentity set \<Rightarrow> bool tact \<Rightarrow> bool \<Rightarrow> bool" where
  "decides S A x P \<longleftrightarrow> (\<forall>c. metaInv S A (TypeMetadata c) \<longrightarrow> (\<exists>c'. x c = Some (P, c') \<and> settled S A c P c'))"

lemma settled_trans: "settled S A c True c1 \<Longrightarrow> settled S A c1 ok c2 \<Longrightarrow> settled S A c ok c2"
  unfolding settled_def by (cases c, cases c1, cases c2) (auto split: if_splits)

lemma decides_true: "decides S A (ret True) True"
  by (simp add: decides_def ret_def settled_def)

lemma decides_refuse: "decides S A (refuse msg) False"
  by (auto simp: decides_def refuse_def Incomplete_def bnd_def upd_def ret_def settled_def)

lemma settled_refuse:
  assumes "settled S A c False c1"
  shows "\<exists>c'. refuse msg c1 = Some (False, c') \<and> settled S A c False c'"
  using assms
  by (cases c, cases c1) (auto simp: refuse_def Incomplete_def bnd_def upd_def ret_def settled_def)

lemma decides_and:
  assumes "decides S A x P" "P \<Longrightarrow> decides S A y Q"
  shows "decides S A (bnd x (\<lambda>ok. if \<not> ok then ret False else y)) (P \<and> Q)"
  unfolding decides_def
proof (intro allI impI)
  fix c :: TypeContext
  assume "metaInv S A (TypeMetadata c)"
  with assms(1) obtain c1 where c1: "x c = Some (P, c1)" "settled S A c P c1" unfolding decides_def by blast
  show "\<exists>c'. bnd x (\<lambda>ok. if \<not> ok then ret False else y) c = Some (P \<and> Q, c') \<and> settled S A c (P \<and> Q) c'"
  proof (cases P)
    case True
    with assms(2) c1 obtain c2 where "y c1 = Some (Q, c2)" "settled S A c1 Q c2" unfolding decides_def settled_def by blast
    with c1 True settled_trans [of S A c c1 Q c2] show ?thesis by (simp add: bnd_def)
  qed (use c1 in \<open>simp add: bnd_def ret_def\<close>)
qed

lemma decides_report:
  assumes "decides S A x P" "P \<Longrightarrow> decides S A y Q"
  shows "decides S A (bnd x (\<lambda>ok. if \<not> ok then refuse msg else y)) (P \<and> Q)"
  unfolding decides_def
proof (intro allI impI)
  fix c :: TypeContext
  assume "metaInv S A (TypeMetadata c)"
  with assms(1) obtain c1 where c1: "x c = Some (P, c1)" "settled S A c P c1" unfolding decides_def by blast
  show "\<exists>c'. bnd x (\<lambda>ok. if \<not> ok then refuse msg else y) c = Some (P \<and> Q, c') \<and> settled S A c (P \<and> Q) c'"
  proof (cases P)
    case True
    with assms(2) c1 obtain c2 where "y c1 = Some (Q, c2)" "settled S A c1 Q c2" unfolding decides_def settled_def by blast
    with c1 True settled_trans [of S A c c1 Q c2] show ?thesis by (simp add: bnd_def)
  next
    case False
    with c1 settled_refuse [of S A c c1 msg] show ?thesis by (auto simp: bnd_def)
  qed
qed

lemma decides_if: "decides S A (if b then refuse msg else ret True) (\<not> b)"
  using decides_true decides_refuse by (cases b) simp_all

section \<open>The check\<close>

lemma metadataItem_exact:
  assumes "snd (MemberType S m) \<Longrightarrow> decides S A (valid (fst (MemberType S m))) (soundType S (fst (MemberType S m)))"
  shows "decides S A (metadataItem S valid m flag missing forbidden)
    (permitted S (memberUse S flag m) \<and> soundType S (fst (memberUse S flag m)))"
proof (cases "MemberType S m")
  case (Pair item found)
  show ?thesis
  proof (cases found)
    case True
    have "decides S A (bnd (valid item) (\<lambda>ok. if \<not> ok then refuse missing
        else if Final S item AND flag \<noteq> 0 then refuse forbidden else ret True)) (soundType S item \<and> \<not> Final S item AND flag \<noteq> 0)"
      by (rule decides_report [OF _ decides_if]) (use assms Pair True in simp)
    then show ?thesis
      using Pair True by (simp add: metadataItem_def permitted_def memberUse_def conj_commute)
  qed (use Pair decides_refuse in \<open>simp add: metadataItem_def permitted_def memberUse_def\<close>)
qed

lemma metadataMembers_exact:
  assumes "\<forall>m \<in> set ms. snd (MemberType S m) \<longrightarrow> decides S A (valid (fst (MemberType S m))) (soundType S (fst (MemberType S m)))"
  shows "decides S A (metadataMembers S valid ms)
    (\<forall>m \<in> set ms. permitted S (memberUse S DerivationUnion m) \<and> soundType S (fst (memberUse S DerivationUnion m)))"
  using assms
proof (induction ms)
  case (Cons m ms)
  have "decides S A (metadataItem S valid m DerivationUnion ''union member type metadata cannot be resolved''
      ''union member final forbids union construction'')
      (permitted S (memberUse S DerivationUnion m) \<and> soundType S (fst (memberUse S DerivationUnion m)))"
    by (rule metadataItem_exact) (use Cons.prems in simp)
  from decides_and [OF this Cons.IH] Cons.prems show ?case by (simp add: conj_assoc)
qed (simp add: decides_true)

lemma usesOf_parts:
  "\<not> (tiSimple v \<noteq> None \<and> tiComplex v \<noteq> None) \<Longrightarrow> TypeBase S v = (base, flag, found) \<Longrightarrow>
   usesOf S v = (if found \<and> flag \<noteq> 0 then [(base, True, flag)] else []) @
     (case tiSimple v of None \<Rightarrow> [] | Some i \<Rightarrow> itemsOf S (simpleOf S i))"
  by (auto simp: usesOf_def)

lemma metadataSimple_exact:
  assumes "\<forall>u \<in> set (itemsOf S s). fst (snd u) \<longrightarrow> decides S A (valid (fst u)) (soundType S (fst u))"
  shows "decides S A (metadataSimple S valid s base)
    (simpleFits s base \<and> (\<forall>u \<in> set (itemsOf S s). permitted S u \<and> soundType S (fst u)))"
proof (cases "sForm s")
  case SimpleRestriction
  then show ?thesis using decides_if [of S A "tiComplex base \<noteq> None \<or> tiBuiltin base = ''anyType''"]
    by (simp add: metadataSimple_def simpleFits_def itemsOf_def)
next
  case SimpleUnion
  have "decides S A (metadataMembers S valid (sMembers s))
      (\<forall>m \<in> set (sMembers s). permitted S (memberUse S DerivationUnion m) \<and> soundType S (fst (memberUse S DerivationUnion m)))"
    using assms SimpleUnion by (intro metadataMembers_exact) (auto simp: itemsOf_def memberUse_def)
  then show ?thesis using SimpleUnion decides_refuse by (simp add: metadataSimple_def simpleFits_def itemsOf_def)
next
  case SimpleList
  then have "decides S A (metadataItem S valid (sItem s) DerivationList ''list item type metadata cannot be resolved''
      ''list item type final forbids list construction'')
      (permitted S (memberUse S DerivationList (sItem s)) \<and> soundType S (fst (memberUse S DerivationList (sItem s))))"
    using assms by (intro metadataItem_exact) (auto simp: itemsOf_def memberUse_def)
  then show ?thesis using SimpleList by (simp add: metadataSimple_def simpleFits_def itemsOf_def)
next
  case (SimpleOther x)
  then show ?thesis using decides_true by (simp add: metadataSimple_def simpleFits_def itemsOf_def)
qed

lemma metadataComplex_exact: "decides S A (metadataComplex s base) (complexFits s base)"
proof -
  have "complexFits s base \<longleftrightarrow> \<not> (cForm s \<in> {ComplexComplexContentExtension, ComplexComplexContentRestriction, ComplexSimpleContentRestriction} \<and>
      tiComplex base = None \<and> tiBuiltin base \<noteq> ''anyType'')" by (auto simp: complexFits_def)
  then show ?thesis unfolding metadataComplex_def by (simp only: decides_if)
qed

lemma metadataBody_exact:
  assumes "\<forall>u \<in> set (usesOf S v). fst (snd u) \<longrightarrow> decides S A (valid (fst u)) (soundType S (fst u))"
  shows "decides S A (metadataBody S valid v) (soundType S v)"
proof -
  obtain base flag found where b: "TypeBase S v = (base, flag, found)" by (rule prod_cases3)
  show ?thesis
  proof (cases "\<not> (tiSimple v \<noteq> None \<and> tiComplex v \<noteq> None) \<and> found")
    case True
    note uses = usesOf_parts [OF conjunct1 [OF True] b]
    let ?B = "flag \<noteq> 0 \<longrightarrow> permitted S (base, True, flag) \<and> soundType S base"
    let ?I = "\<forall>i. tiSimple v = Some i \<longrightarrow> simpleFits (simpleOf S i) base \<and> (\<forall>u \<in> set (itemsOf S (simpleOf S i)). permitted S u \<and> soundType S (fst u))"
    let ?C = "\<forall>j. tiComplex v = Some j \<longrightarrow> complexFits (complexOf S j) base"
    have one: "decides S A (if flag = 0 then ret True else bnd (valid base) (\<lambda>ok. if \<not> ok then ret False
        else if Final S base AND flag \<noteq> 0 then refuse ''type derivation violates base final metadata'' else ret True)) ?B"
    proof (cases "flag = 0")
      case False
      then have base: "decides S A (valid base) (soundType S base)" using assms True uses by simp
      have eq: "?B \<longleftrightarrow> soundType S base \<and> \<not> Final S base AND flag \<noteq> 0" using False by (auto simp: permitted_def)
      show ?thesis unfolding eq if_not_P [OF False] by (rule decides_and [OF base decides_if])
    qed (simp add: decides_true)
    have two: "decides S A (case tiSimple v of None \<Rightarrow> ret True | Some i \<Rightarrow> metadataSimple S valid (simpleOf S i) base) ?I"
    proof (cases "tiSimple v")
      case (Some i)
      then show ?thesis using metadataSimple_exact [of S "simpleOf S i" A valid base] assms uses by simp
    qed (simp add: decides_true)
    have three: "decides S A (case tiComplex v of None \<Rightarrow> ret True | Some j \<Rightarrow> metadataComplex (complexOf S j) base) ?C"
      using metadataComplex_exact by (cases "tiComplex v") (simp_all add: decides_true)
    have "soundType S v \<longleftrightarrow> ?B \<and> ?I \<and> ?C"
      unfolding soundType_iff [of S v] nodeFine_def b uses using True by (cases "tiSimple v") (auto simp: ball_Un)
    moreover have "decides S A (metadataBody S valid v) (?B \<and> ?I \<and> ?C)"
      unfolding metadataBody_def b prod.case if_not_P [OF conjunct1 [OF True]] using conjunct2 [OF True]
      by (simp only: not_True_eq_False if_False) (rule decides_and [OF one decides_and [OF two three]])
    ultimately show ?thesis by simp
  next
    case False
    then have "\<not> soundType S v" unfolding soundType_iff [of S v] nodeFine_def b by auto
    with False show ?thesis using decides_refuse by (auto simp: metadataBody_def b)
  qed
qed

section \<open>Depth\<close>

text \<open>How many derivation steps lie between a built-in type and the ur-type, the ur-type included.\<close>

definition builtinRanks :: "(string \<times> nat) list" where
  "builtinRanks = zip (map fst builtinBases) [1, 2, 4, 5, 6, 6, 6, 7, 8, 8, 8, 4, 5, 5, 5, 6, 6, 6, 6, 7, 8, 7, 8, 9]"

definition builtinRank :: "string \<Rightarrow> nat" where
  "builtinRank name = (case map_of builtinRanks name of Some r \<Rightarrow> r | None \<Rightarrow> 3)"

lemma builtinRank_table:
  "list_all (\<lambda>(name, base). base \<noteq> [] \<longrightarrow> builtinRank base < builtinRank name) builtinBases"
  "list_all (\<lambda>(name, r). r \<le> 9) builtinRanks"
  "map fst builtinRanks = map fst builtinBases"
  by code_simp+

lemma builtinRank_base: "BuiltinBase name \<noteq> [] \<Longrightarrow> builtinRank (BuiltinBase name) < builtinRank name"
proof (cases "map_of builtinBases name")
  case None
  then have "map_of builtinRanks name = None"
    using builtinRank_table(3) unfolding map_of_eq_None_iff by (metis list.set_map)
  moreover have "builtinRank ''anySimpleType'' = 2" by code_simp
  ultimately show ?thesis using None by (simp add: BuiltinBase_def builtinRank_def)
next
  case (Some base)
  assume "BuiltinBase name \<noteq> []"
  with Some builtinRank_table(1) show ?thesis
    by (auto simp: BuiltinBase_def list_all_iff dest!: map_of_SomeD)
qed

lemma builtinRank_bound: "builtinRank name \<le> 9"
  using builtinRank_table(2) by (auto simp: builtinRank_def list_all_iff split: option.splits dest!: map_of_SomeD)

definition internal :: "schemaData \<Rightarrow> TypeIdentity set" where
  "internal S = (\<lambda>i. \<lparr> tiSimple = Some i, tiComplex = None, tiBuiltin = [] \<rparr>) ` {..<length (simples S)} \<union>
     (\<lambda>j. \<lparr> tiSimple = None, tiComplex = Some j, tiBuiltin = [] \<rparr>) ` {..<length (complexes S)}"

lemma internal_finite [simp]: "finite (internal S)"
  by (simp add: internal_def)

lemma internal_card: "card (internal S) \<le> length (simples S) + length (complexes S)"
  unfolding internal_def
  by (rule order_trans [OF card_Un_le add_mono]) (use card_image_le [of "{..<_}"] in \<open>fastforce simp: order_trans\<close>)+

lemma builtin_uses:
  assumes "plain v" "tiBuiltin v \<noteq> []" "u \<in> set (usesOf S v)"
  shows "fst u = BuiltinType (BuiltinBase (tiBuiltin v)) \<and> BuiltinBase (tiBuiltin v) \<noteq> []"
  using assms by (auto simp: plain_def usesOf_def TypeBase_def split: if_splits)

lemma internal_uses:
  assumes "tiBuiltin v = []" "u \<in> set (usesOf S v)"
  shows "v \<in> internal S"
proof (cases v)
  case (fields s c b)
  from assms obtain "\<not> (s \<noteq> None \<and> c \<noteq> None)" "b = []" using fields by (auto simp: usesOf_def split: if_splits)
  then show ?thesis
    using assms(2) fields
    by (cases s; cases c) (auto simp: usesOf_def itemsOf_def TypeBase_def internal_def simpleOf_def complexOf_def split: if_splits prod.splits)
qed

text \<open>The fuel a check below the active types \<open>A\<close> needs.\<close>

definition room :: "schemaData \<Rightarrow> TypeIdentity set \<Rightarrow> TypeIdentity \<Rightarrow> nat" where
  "room S A v = (if tiBuiltin v \<noteq> [] then builtinRank (tiBuiltin v) else card (internal S - A) + 10)"

lemma room_step:
  assumes "plain v" "v \<notin> A" "u \<in> set (usesOf S v)"
  shows "room S (insert v A) (fst u) < room S A v"
proof (cases "tiBuiltin v = []")
  case True
  have v: "v \<in> internal S - A" using internal_uses [OF True assms(3)] assms(2) by simp
  have "internal S - insert v A = (internal S - A) - {v}" by auto
  then have "Suc (card (internal S - insert v A)) = card (internal S - A)"
    using card_Suc_Diff1 [of "internal S - A" v] v by simp
  then show ?thesis using True builtinRank_bound [of "tiBuiltin (fst u)"] by (simp add: room_def)
next
  case False
  with builtin_uses [OF assms(1) False assms(3)] builtinRank_base show ?thesis by (simp add: room_def BuiltinType_def)
qed

lemma room_bound: "room S A v < metadataDepth S"
proof -
  have "card (internal S - A) \<le> card (internal S)" by (simp add: card_mono)
  with internal_card [of S] builtinRank_bound [of "tiBuiltin v"] show ?thesis by (simp add: room_def metadataDepth_def)
qed

lemma metaInv_done:
  assumes "metaInv S (insert v A) T" "v \<notin> A"
  shows "metaInv S A (T(v \<mapsto> (if soundType S v then 2 else 3)))"
  unfolding metaInv_def
proof (intro conjI ballI allI impI)
  fix w st
  assume w: "(T(v \<mapsto> (if soundType S v then 2 else 3))) w = Some st"
  show "w \<in> A \<or> st = (if soundType S w then 2 else 3)"
  proof (cases "w = v")
    case False
    then have "T w = Some st" using w by simp
    with False assms(1) show ?thesis unfolding metaInv_def by blast
  qed (use w in auto)
qed (use assms in \<open>auto simp: metaInv_def\<close>)

lemma ValidTypeMetadata_exact:
  "room S A v < n \<Longrightarrow> plain v \<Longrightarrow> (\<forall>a \<in> A. (a, v) \<in> (usesRel S)\<^sup>+) \<Longrightarrow> decides S A (ValidTypeMetadata n S v) (soundType S v)"
proof (induction n arbitrary: A v)
  case (Suc n)
  show ?case
    unfolding decides_def
  proof (intro allI impI)
    fix c :: TypeContext
    assume inv: "metaInv S A (TypeMetadata c)"
    show "\<exists>c'. ValidTypeMetadata (Suc n) S v c = Some (soundType S v, c') \<and> settled S A c (soundType S v) c'"
    proof (cases "TypeMetadata c v")
      case (Some st)
      show ?thesis
      proof (cases "v \<in> A")
        case True
        then have "st = 1" using inv Some by (simp add: metaInv_def)
        moreover have "\<not> soundType S v" using type_graph.acyclic_at [of S v] Suc.prems(3) True by blast
        ultimately show ?thesis using Some inv
          by (simp add: bnd_def get_def Incomplete_def upd_def ret_def settled_def)
      next
        case False
        then have "st = (if soundType S v then 2 else 3)" using inv Some unfolding metaInv_def by blast
        then show ?thesis using Some inv
          by (auto simp: bnd_def get_def Incomplete_def IncompleteAgain_def upd_def ret_def settled_def)
      qed
    next
      case None
      then have new: "v \<notin> A" using inv by (auto simp: metaInv_def)
      have "decides S (insert v A) (ValidTypeMetadata n S (fst u)) (soundType S (fst u))" if u: "u \<in> set (usesOf S v)" for u
      proof (rule Suc.IH)
        show "room S (insert v A) (fst u) < n" using room_step [OF Suc.prems(2) new u] Suc.prems(1) by simp
        show "plain (fst u)" by (rule plain_used [OF u])
        show "\<forall>a \<in> insert v A. (a, fst u) \<in> (usesRel S)\<^sup>+" using usesRelI [OF u] Suc.prems(3) by (auto intro: trancl_into_trancl)
      qed
      then have body: "decides S (insert v A) (metadataBody S (ValidTypeMetadata n S) v) (soundType S v)"
        by (intro metadataBody_exact) blast
      let ?c = "TypeMetadata_update (\<lambda>T. T(v \<mapsto> 1)) c"
      have "metaInv S (insert v A) (TypeMetadata ?c)" using inv by (auto simp: metaInv_def)
      with body obtain c1 where c1: "metadataBody S (ValidTypeMetadata n S) v ?c = Some (soundType S v, c1)"
        "settled S (insert v A) ?c (soundType S v) c1" unfolding decides_def by blast
      let ?c' = "TypeMetadata_update (\<lambda>T. T(v \<mapsto> (if soundType S v then 2 else 3))) c1"
      have "metaInv S A (TypeMetadata ?c')" using metaInv_done [OF _ new] c1(2) by (simp add: settled_def)
      then have "settled S A c (soundType S v) ?c'" using c1(2) by (cases c, cases c1) (auto simp: settled_def split: if_splits)
      moreover have "ValidTypeMetadata (Suc n) S v c = Some (soundType S v, ?c')"
        using None c1(1) by (simp add: bnd_def get_def upd_def ret_def)
      ultimately show ?thesis by blast
    qed
  qed
qed simp

section \<open>Property\<close>

text \<open>
  C14: the cached check of a type's metadata returns on every schema, cyclic or dangling ones included, and
  answers exactly whether the type is sound. It records a technical error and advances the assessment
  epoch exactly when the type is not sound, also when the answer comes from the cache; the cache stays
  right and nothing else of the context changes.
\<close>
theorem type_metadata_exact:
  assumes "metaInv S {} (TypeMetadata c)" "TypeIdentity_of S reference = (v, found)"
  shows "\<exists>ok c'. ValidTypeMetadata (metadataDepth S) S v c = Some (ok, c') \<and> (ok \<longleftrightarrow> soundType S v) \<and>
    metaInv S {} (TypeMetadata c') \<and>
    c' = c\<lparr> TypeMetadata := TypeMetadata c', AssessmentErr := AssessmentErr c', AssessmentVersion := AssessmentVersion c' \<rparr> \<and>
    (if ok then AssessmentErr c' = AssessmentErr c \<and> AssessmentVersion c' = AssessmentVersion c
     else AssessmentErr c' \<noteq> [] \<and> AssessmentVersion c < AssessmentVersion c')"
proof -
  have "plain v" using plain_identity [of S reference] assms(2) by simp
  from ValidTypeMetadata_exact [OF room_bound this, of "{}"] assms(1) show ?thesis
    unfolding decides_def settled_def by blast
qed

text \<open>
  A schema with a list of tokens, a union of it with \<open>xs:integer\<close>, a restriction of the union, and a type
  that restricts itself.
\<close>

definition xsdName :: "string \<Rightarrow> SimpleMember option" where
  "xsdName name = Some \<lparr> smName = \<lparr> Space = XSDNamespace, Local = name \<rparr>, smInline = None \<rparr>"

definition sampleSimple :: "SimpleForm \<Rightarrow> SimpleMember option \<Rightarrow> SimpleMember option list \<Rightarrow> SimpleMember option \<Rightarrow> SimpleSchema" where
  "sampleSimple form base members item = \<lparr> sFinal = 0, sForm = form, sBase = base, sEnumerations = [], sMembers = members, sItem = item, sFacets = noFacets, sWhiteSpace = [] \<rparr>"

definition inlineRef :: "nat \<Rightarrow> SimpleMember option" where
  "inlineRef i = Some \<lparr> smName = \<lparr> Space = [], Local = [] \<rparr>, smInline = Some i \<rparr>"

definition sampleSchema :: schemaData where
  "sampleSchema = \<lparr> simples = [sampleSimple SimpleList None [] (xsdName ''token''),
       sampleSimple SimpleUnion None [inlineRef 0, xsdName ''integer''] None,
       sampleSimple SimpleRestriction (inlineRef 1) [] None,
       sampleSimple SimpleRestriction (inlineRef 3) [] None],
     complexes = [], Types = \<lambda>_. None \<rparr>"

definition simpleRef :: "nat \<Rightarrow> TypeRef option" where
  "simpleRef i = Some \<lparr> trName = \<lparr> Space = [], Local = [] \<rparr>, InlineSimple = Some i, InlineComplex = None \<rparr>"

definition simpleType :: "nat \<Rightarrow> TypeIdentity" where
  "simpleType i = \<lparr> tiSimple = Some i, tiComplex = None, tiBuiltin = [] \<rparr>"

lemma empty_metaInv: "metaInv S {} (TypeMetadata NewTypeContext)"
  by (simp add: metaInv_def NewTypeContext_def)

lemma simpleRef_identity: "TypeIdentity_of S (simpleRef i) = (simpleType i, True)"
  by (simp add: TypeIdentity_of_def ResolveType_def simpleRef_def simpleType_def)

theorem type_metadata_exact_witness:
  "soundType sampleSchema (simpleType 2) \<and> \<not> soundType sampleSchema (simpleType 3)"
proof -
  have "map_option fst (ValidTypeMetadata (metadataDepth sampleSchema) sampleSchema (simpleType 2) NewTypeContext) = Some True"
    "map_option fst (ValidTypeMetadata (metadataDepth sampleSchema) sampleSchema (simpleType 3) NewTypeContext) = Some False"
    by code_simp+
  then show ?thesis
    using type_metadata_exact [OF empty_metaInv simpleRef_identity, of sampleSchema 2]
      type_metadata_exact [OF empty_metaInv simpleRef_identity, of sampleSchema 3] by auto
qed

end
