(* ===== verification/Xsd_Semantics.thy ===== *)
theory Xsd_Semantics
  imports Xsd_Metadata
begin

text \<open>
  What \<open>ResolveSimpleSemantics\<close> computes: the meaning of a simple type is inherited along restrictions, with
  the whitespace facet applied at each of them, and exists only when every item and member type has one. The
  cached resolution returns exactly that meaning and fails closed on missing or cyclic definitions.
\<close>

section \<open>Meanings\<close>

text \<open>The whitespace facet of a restriction: absent, or a policy for a type that has one of its own.\<close>

inductive restrictsTo :: "string \<Rightarrow> TypeSemantics \<Rightarrow> TypeSemantics \<Rightarrow> bool" where
  no_facet: "restrictsTo [] s s"
| facet: "Whitespace s \<noteq> WhitespaceMember \<Longrightarrow>
    (w, policy) \<in> {(''preserve'', WhitespacePreserve), (''replace'', WhitespaceReplace), (''collapse'', WhitespaceCollapse)} \<Longrightarrow>
    restrictsTo w s (s\<lparr> Whitespace := policy \<rparr>)"

inductive_simps restrictsTo_iff: "restrictsTo w s s'"

lemma applyWhiteSpace_exact: "applyWhiteSpace w s = Some s' \<longleftrightarrow> restrictsTo w s s'"
  by (auto simp: applyWhiteSpace_def restrictsTo_iff)

inductive means :: "schemaData \<Rightarrow> nat \<Rightarrow> TypeSemantics \<Rightarrow> bool"
  and memberMeans :: "schemaData \<Rightarrow> SimpleMember \<Rightarrow> TypeSemantics \<Rightarrow> bool"
  for S :: schemaData where
  m_restriction: "sForm (simpleOf S i) = SimpleRestriction \<Longrightarrow> sBase (simpleOf S i) = Some m \<Longrightarrow> memberMeans S m s \<Longrightarrow>
    restrictsTo (sWhiteSpace (simpleOf S i)) s s' \<Longrightarrow> means S i s'"
| m_list: "sForm (simpleOf S i) = SimpleList \<Longrightarrow> sItem (simpleOf S i) = Some m \<Longrightarrow> memberMeans S m s \<Longrightarrow>
    means S i \<lparr> Whitespace = WhitespaceCollapse, Builtin = [], StringValue = False, semUnion = None, semList = Some i \<rparr>"
| m_union: "sForm (simpleOf S i) = SimpleUnion \<Longrightarrow> sMembers (simpleOf S i) \<noteq> [] \<Longrightarrow>
    (\<forall>m \<in> set (sMembers (simpleOf S i)). \<exists>m' s. m = Some m' \<and> memberMeans S m' s) \<Longrightarrow>
    means S i \<lparr> Whitespace = WhitespaceMember, Builtin = [], StringValue = False, semUnion = Some i, semList = None \<rparr>"
| mm_inline: "smInline m = Some i \<Longrightarrow> means S i s \<Longrightarrow> memberMeans S m s"
| mm_builtin: "smInline m = None \<Longrightarrow> Space (smName m) = XSDNamespace \<Longrightarrow> builtinSemantics (Local (smName m)) = Some s \<Longrightarrow>
    memberMeans S m s"
| mm_named: "smInline m = None \<Longrightarrow> Space (smName m) \<noteq> XSDNamespace \<Longrightarrow> Types S (smName m) = Some (Some t) \<Longrightarrow>
    tSimple t = Some i \<Longrightarrow> means S i s \<Longrightarrow> memberMeans S m s"

inductive_cases meansE: "means S i s"
inductive_cases memberMeansE: "memberMeans S m s"

text \<open>The definition a member refers to, unless it is a built-in type or missing.\<close>

definition memberTarget :: "schemaData \<Rightarrow> SimpleMember \<Rightarrow> nat option" where
  "memberTarget S m =
     (case smInline m of
        Some i \<Rightarrow> Some i
      | None \<Rightarrow>
          if Space (smName m) = XSDNamespace then None
          else (case Types S (smName m) of Some (Some t) \<Rightarrow> tSimple t | _ \<Rightarrow> None))"

definition memberBuiltin :: "SimpleMember \<Rightarrow> TypeSemantics option" where
  "memberBuiltin m = (if smInline m = None \<and> Space (smName m) = XSDNamespace then builtinSemantics (Local (smName m)) else None)"

lemma memberMeans_iff:
  "memberMeans S m s \<longleftrightarrow> (case memberTarget S m of Some i \<Rightarrow> means S i s | None \<Rightarrow> memberBuiltin m = Some s)"
  by (auto simp: memberTarget_def memberBuiltin_def elim!: memberMeansE intro: mm_inline mm_builtin mm_named split: option.splits if_splits)

lemma MemberSemantics_target:
  "MemberSemantics S resolve (Some m) = (case memberTarget S m of Some i \<Rightarrow> resolve i | None \<Rightarrow> ret (memberBuiltin m))"
  by (auto simp: MemberSemantics_def memberTarget_def memberBuiltin_def split: option.splits)

definition needs :: "schemaData \<Rightarrow> nat \<Rightarrow> SimpleMember option set" where
  "needs S i =
     (case sForm (simpleOf S i) of
        SimpleRestriction \<Rightarrow> {sBase (simpleOf S i)}
      | SimpleList \<Rightarrow> {sItem (simpleOf S i)}
      | SimpleUnion \<Rightarrow> set (sMembers (simpleOf S i))
      | SimpleOther _ \<Rightarrow> {})"

definition needRel :: "schemaData \<Rightarrow> (nat \<times> nat) set" where
  "needRel S = {(i, j). \<exists>m. Some m \<in> needs S i \<and> memberTarget S m = Some j}"

lemma means_needs:
  assumes "means S i s" "m \<in> needs S i"
  shows "\<exists>m' s. m = Some m' \<and> memberMeans S m' s"
  using assms by (auto elim!: meansE simp: needs_def)

lemma means_step:
  assumes "means S i s" "(i, j) \<in> needRel S"
  shows "\<exists>s. means S j s"
proof -
  from assms(2) obtain m where m: "Some m \<in> needs S i" "memberTarget S m = Some j" by (auto simp: needRel_def)
  from means_needs [OF assms(1) m(1)] obtain s' where "memberMeans S m s'" by blast
  with m(2) show ?thesis by (auto simp: memberMeans_iff)
qed

lemma means_acc:
  "means S i s \<Longrightarrow> i \<in> Wellfounded.acc ((needRel S)\<inverse>)"
  "memberMeans S m s \<Longrightarrow> (\<forall>j. memberTarget S m = Some j \<longrightarrow> j \<in> Wellfounded.acc ((needRel S)\<inverse>))"
proof (induction rule: means_memberMeans.inducts)
  case (m_restriction i m s s')
  show ?case by (rule accI) (use m_restriction in \<open>auto simp: needRel_def needs_def\<close>)
next
  case (m_list i m s)
  show ?case by (rule accI) (use m_list in \<open>auto simp: needRel_def needs_def\<close>)
next
  case (m_union i)
  show ?case by (rule accI) (use m_union in \<open>fastforce simp: needRel_def needs_def\<close>)
qed (simp_all add: memberTarget_def)

interpretation meaning_graph: descent "needRel S" "\<lambda>i. \<exists>s. means S i s" for S
proof unfold_locales
  show "i \<in> Wellfounded.acc ((needRel S)\<inverse>)" if "\<exists>s. means S i s" for i using that means_acc(1) by blast
  show "\<exists>s. means S j s" if "\<exists>s. means S i s" "(i, j) \<in> needRel S" for i j using that means_step by blast
qed

section \<open>The cache\<close>

definition semInv :: "schemaData \<Rightarrow> nat set \<Rightarrow> (nat \<rightharpoonup> TypeSemantics option) \<Rightarrow> bool" where
  "semInv S A K \<longleftrightarrow> (\<forall>i \<in> A. K i = Some None) \<and>
     (\<forall>i r. K i = Some r \<longrightarrow> i \<in> A \<or> (\<forall>s. r = Some s \<longleftrightarrow> means S i s))"

definition semStep :: "schemaData \<Rightarrow> nat set \<Rightarrow> TypeContext \<Rightarrow> bool \<Rightarrow> TypeContext \<Rightarrow> bool" where
  "semStep S A c ok c' \<longleftrightarrow> semInv S A (SemanticsCache c') \<and>
     c' = c\<lparr> SemanticsCache := SemanticsCache c', AssessmentErr := AssessmentErr c', AssessmentVersion := AssessmentVersion c' \<rparr> \<and>
     AssessmentVersion c \<le> AssessmentVersion c' \<and>
     (ok \<longrightarrow> AssessmentErr c' = AssessmentErr c \<and> AssessmentVersion c' = AssessmentVersion c)"

lemma semStep_refl: "semInv S A (SemanticsCache c) \<Longrightarrow> semStep S A c ok c"
  by (simp add: semStep_def)

lemma semStep_trans: "semStep S A c True c1 \<Longrightarrow> semStep S A c1 ok c2 \<Longrightarrow> semStep S A c ok c2"
  unfolding semStep_def by (cases c, cases c1, cases c2) auto

lemma semStep_fail: "semStep S A c ok c1 \<Longrightarrow> semStep S A c False c1"
  by (simp add: semStep_def)

text \<open>An action that finds the one value with a property, if there is one.\<close>

definition finds :: "schemaData \<Rightarrow> nat set \<Rightarrow> TypeSemantics option tact \<Rightarrow> (TypeSemantics \<Rightarrow> bool) \<Rightarrow> bool" where
  "finds S A x P \<longleftrightarrow> (\<forall>c. semInv S A (SemanticsCache c) \<longrightarrow>
     (\<exists>r c'. x c = Some (r, c') \<and> semStep S A c (r \<noteq> None) c' \<and> (\<forall>s. r = Some s \<longleftrightarrow> P s)))"

lemma finds_ret: "(\<forall>s. r = Some s \<longleftrightarrow> P s) \<Longrightarrow> finds S A (ret r) P"
  by (auto simp: finds_def ret_def semStep_refl)

lemma findsD:
  assumes "finds S A x P" "semInv S A (SemanticsCache c)"
  obtains r c' where "x c = Some (r, c')" "semStep S A c (r \<noteq> None) c'" "\<forall>s. r = Some s \<longleftrightarrow> P s"
  using assms unfolding finds_def by blast

lemma MemberSemantics_finds:
  assumes "\<And>m' i. m = Some m' \<Longrightarrow> memberTarget S m' = Some i \<Longrightarrow> finds S A (resolve i) (means S i)"
  shows "finds S A (MemberSemantics S resolve m) (\<lambda>s. \<exists>m'. m = Some m' \<and> memberMeans S m' s)"
proof (cases m)
  case None
  then show ?thesis by (auto simp: MemberSemantics_def intro: finds_ret)
next
  case (Some m')
  show ?thesis
  proof (cases "memberTarget S m'")
    case None
    then show ?thesis using Some by (auto simp: MemberSemantics_target memberMeans_iff intro!: finds_ret)
  next
    case (Some i)
    with \<open>m = Some m'\<close> assms have "finds S A (resolve i) (means S i)" by simp
    moreover have "(\<lambda>s. \<exists>m'. m = Some m' \<and> memberMeans S m' s) = means S i" using Some \<open>m = Some m'\<close> by (auto simp: memberMeans_iff)
    ultimately show ?thesis using Some \<open>m = Some m'\<close> by (simp add: MemberSemantics_target)
  qed
qed

lemma finds_map:
  assumes "finds S A x P" "\<And>r s. (\<forall>s. r = Some s \<longleftrightarrow> P s) \<Longrightarrow> f r = Some s \<longleftrightarrow> Q s" "f None = None"
  shows "finds S A (bnd x (\<lambda>r. ret (f r))) Q"
  unfolding finds_def
proof (intro allI impI)
  fix c :: TypeContext
  assume "semInv S A (SemanticsCache c)"
  from findsD [OF assms(1) this] obtain r c' where r: "x c = Some (r, c')" "semStep S A c (r \<noteq> None) c'" "\<forall>s. r = Some s \<longleftrightarrow> P s" .
  have "semStep S A c (f r \<noteq> None) c'" using r(2) assms(3) semStep_fail by (cases "f r"; cases r) auto
  with r assms(2) show "\<exists>r c'. bnd x (\<lambda>r. ret (f r)) c = Some (r, c') \<and> semStep S A c (r \<noteq> None) c' \<and> (\<forall>s. r = Some s \<longleftrightarrow> Q s)"
    by (auto simp: bnd_def ret_def)
qed

lemma membersResolved_finds:
  assumes "\<forall>m i. Some m \<in> set ms \<and> memberTarget S m = Some i \<longrightarrow> finds S A (resolve i) (means S i)"
  shows "semInv S A (SemanticsCache c) \<Longrightarrow> \<exists>ok c'. membersResolved S resolve ms c = Some (ok, c') \<and> semStep S A c ok c' \<and>
    (ok \<longleftrightarrow> (\<forall>m \<in> set ms. \<exists>m' s. m = Some m' \<and> memberMeans S m' s))"
  using assms
proof (induction ms arbitrary: c)
  case Nil
  then show ?case by (auto simp: ret_def semStep_refl)
next
  case (Cons m ms)
  have "finds S A (MemberSemantics S resolve m) (\<lambda>s. \<exists>m'. m = Some m' \<and> memberMeans S m' s)"
    by (rule MemberSemantics_finds) (use Cons.prems(2) in auto)
  from findsD [OF this Cons.prems(1)] obtain r c1 where
    r: "MemberSemantics S resolve m c = Some (r, c1)" "semStep S A c (r \<noteq> None) c1" "\<forall>s. r = Some s \<longleftrightarrow> (\<exists>m'. m = Some m' \<and> memberMeans S m' s)" .
  show ?case
  proof (cases r)
    case None
    then have "\<not> (\<forall>m' \<in> set (m # ms). \<exists>m'' s. m' = Some m'' \<and> memberMeans S m'' s)" using r(3) by auto
    then show ?thesis using None r(1,2)
      by (intro exI [of _ False] exI [of _ c1] conjI) (simp_all add: bnd_def ret_def)
  next
    case (Some s)
    then have "semInv S A (SemanticsCache c1)" using r(2) by (simp add: semStep_def)
    from Cons.IH [OF this] Cons.prems(2) obtain ok c2 where c2: "membersResolved S resolve ms c1 = Some (ok, c2)" "semStep S A c1 ok c2"
      "ok \<longleftrightarrow> (\<forall>m \<in> set ms. \<exists>m' s. m = Some m' \<and> memberMeans S m' s)" by auto
    have "semStep S A c ok c2" using semStep_trans r(2) c2(2) Some by simp
    moreover have "\<exists>m' s. m = Some m' \<and> memberMeans S m' s" using r(3) Some by blast
    moreover have "membersResolved S resolve (m # ms) c = Some (ok, c2)" using r(1) Some c2(1) by (simp add: bnd_def)
    ultimately show ?thesis using c2(3) by (intro exI [of _ ok] exI [of _ c2]) simp
  qed
qed

lemma semanticsBody_finds:
  assumes "\<And>j. (i, j) \<in> needRel S \<Longrightarrow> finds S A (resolve j) (means S j)"
  shows "finds S A (semanticsBody S resolve i) (means S i)"
proof -
  have member: "finds S A (MemberSemantics S resolve m) (\<lambda>s. \<exists>m'. m = Some m' \<and> memberMeans S m' s)" if "m \<in> needs S i" for m
    by (rule MemberSemantics_finds) (use assms that in \<open>auto simp: needRel_def\<close>)
  show ?thesis
  proof (cases "sForm (simpleOf S i)")
    case SimpleRestriction
    then have "finds S A (MemberSemantics S resolve (sBase (simpleOf S i))) (\<lambda>s. \<exists>m'. sBase (simpleOf S i) = Some m' \<and> memberMeans S m' s)"
      by (intro member) (simp add: needs_def)
    then have "finds S A (bnd (MemberSemantics S resolve (sBase (simpleOf S i))) (\<lambda>base. ret (Option.bind base (applyWhiteSpace (sWhiteSpace (simpleOf S i)))))) (means S i)"
      by (rule finds_map) (use SimpleRestriction in \<open>auto simp: bind_eq_Some_conv applyWhiteSpace_exact elim!: meansE intro: m_restriction\<close>)
    then show ?thesis using SimpleRestriction by (simp add: semanticsBody_def Let_def)
  next
    case SimpleList
    then have "finds S A (MemberSemantics S resolve (sItem (simpleOf S i))) (\<lambda>s. \<exists>m'. sItem (simpleOf S i) = Some m' \<and> memberMeans S m' s)"
      by (intro member) (simp add: needs_def)
    then have "finds S A (bnd (MemberSemantics S resolve (sItem (simpleOf S i))) (\<lambda>item. ret (if item = None then None else
        Some \<lparr> Whitespace = WhitespaceCollapse, Builtin = [], StringValue = False, semUnion = None, semList = Some i \<rparr>))) (means S i)"
      by (rule finds_map) (use SimpleList in \<open>auto elim!: meansE intro: m_list\<close>)
    then show ?thesis using SimpleList by (simp add: semanticsBody_def Let_def)
  next
    case SimpleUnion
    show ?thesis
    proof (cases "sMembers (simpleOf S i) = []")
      case True
      then show ?thesis using SimpleUnion by (auto simp: semanticsBody_def Let_def intro!: finds_ret elim!: meansE)
    next
      case False
      show ?thesis
        unfolding finds_def
      proof (intro allI impI)
        fix c :: TypeContext
        assume inv: "semInv S A (SemanticsCache c)"
        have "\<forall>m j. Some m \<in> set (sMembers (simpleOf S i)) \<and> memberTarget S m = Some j \<longrightarrow> finds S A (resolve j) (means S j)"
          using assms SimpleUnion by (auto simp: needRel_def needs_def)
        from membersResolved_finds [OF this inv] obtain ok c' where
          ok: "membersResolved S resolve (sMembers (simpleOf S i)) c = Some (ok, c')" "semStep S A c ok c'"
          "ok \<longleftrightarrow> (\<forall>m \<in> set (sMembers (simpleOf S i)). \<exists>m' s. m = Some m' \<and> memberMeans S m' s)" by blast
        let ?u = "\<lparr> Whitespace = WhitespaceMember, Builtin = [], StringValue = False, semUnion = Some i, semList = None \<rparr> :: TypeSemantics"
        have meaning: "means S i s \<longleftrightarrow> ok \<and> s = ?u" for s
          unfolding ok(3) using SimpleUnion False by (auto elim!: meansE intro: m_union)
        have "semanticsBody S resolve i c = Some (if ok then Some ?u else None, c')"
          using ok(1) SimpleUnion False by (simp add: semanticsBody_def Let_def bnd_def ret_def)
        moreover have "semStep S A c ((if ok then Some ?u else None) \<noteq> None) c'" using ok(2) by (cases ok) simp_all
        moreover have "\<forall>s. (if ok then Some ?u else None) = Some s \<longleftrightarrow> means S i s" unfolding meaning by auto
        ultimately show "\<exists>r c'. semanticsBody S resolve i c = Some (r, c') \<and> semStep S A c (r \<noteq> None) c' \<and> (\<forall>s. r = Some s \<longleftrightarrow> means S i s)"
          by blast
      qed
    qed
  next
    case (SimpleOther x)
    then show ?thesis by (auto simp: semanticsBody_def Let_def intro!: finds_ret elim!: meansE)
  qed
qed

section \<open>Resolution\<close>

text \<open>After a resolution, a failure has advanced the assessment epoch.\<close>

definition resolvesTo :: "schemaData \<Rightarrow> nat set \<Rightarrow> TypeSemantics option tact \<Rightarrow> nat \<Rightarrow> bool" where
  "resolvesTo S A x i \<longleftrightarrow> (\<forall>c. semInv S A (SemanticsCache c) \<longrightarrow>
     (\<exists>r c'. x c = Some (r, c') \<and> semStep S A c (r \<noteq> None) c' \<and> (\<forall>s. r = Some s \<longleftrightarrow> means S i s) \<and>
       (r = None \<longrightarrow> AssessmentVersion c < AssessmentVersion c' \<and> AssessmentErr c' \<noteq> [])))"

lemma resolvesTo_finds: "resolvesTo S A x i \<Longrightarrow> finds S A x (means S i)"
  unfolding resolvesTo_def finds_def by blast

lemma semInv_start: "semInv S A K \<Longrightarrow> K i = None \<Longrightarrow> semInv S (insert i A) (K(i \<mapsto> None))"
  by (auto simp: semInv_def)

lemma semInv_done:
  assumes "semInv S (insert i A) K" "i \<notin> A" "\<forall>s. r = Some s \<longleftrightarrow> means S i s"
  shows "semInv S A (K(i \<mapsto> r))"
  unfolding semInv_def
proof (intro conjI ballI allI impI)
  fix j t
  assume j: "(K(i \<mapsto> r)) j = Some t"
  show "j \<in> A \<or> (\<forall>s. t = Some s \<longleftrightarrow> means S j s)"
  proof (cases "j = i")
    case False
    then have "K j = Some t" using j by simp
    with False assms(1) show ?thesis unfolding semInv_def by blast
  qed (use j assms(3) in auto)
qed (use assms in \<open>auto simp: semInv_def\<close>)

lemma semInv_failed: "semInv S (insert i A) K \<Longrightarrow> i \<notin> A \<Longrightarrow> \<forall>s. \<not> means S i s \<Longrightarrow> semInv S A K"
  using semInv_done [of S i A K None] by (auto simp: semInv_def fun_upd_idem)

lemma need_internal: "(i, j) \<in> needRel S \<Longrightarrow> i < length (simples S)"
  by (auto simp: needRel_def needs_def simpleOf_def split: if_splits)

lemma ResolveSimpleSemantics_exact:
  "card ({..<length (simples S)} - A) + 1 < n \<Longrightarrow> (\<forall>a \<in> A. (a, i) \<in> (needRel S)\<^sup>+) \<Longrightarrow> resolvesTo S A (ResolveSimpleSemantics n S i) i"
proof (induction n arbitrary: A i)
  case (Suc n)
  show ?case
    unfolding resolvesTo_def
  proof (intro allI impI)
    fix c :: TypeContext
    assume inv: "semInv S A (SemanticsCache c)"
    let ?x = "bnd (get SemanticsCache) (\<lambda>K. case K i of
            Some known \<Rightarrow> ret known
          | None \<Rightarrow>
              bnd (upd (SemanticsCache_update (\<lambda>K. K(i \<mapsto> None)))) (\<lambda>_.
              bnd (semanticsBody S (ResolveSimpleSemantics n S) i) (\<lambda>r. case r of
                  None \<Rightarrow> ret None
                | Some s \<Rightarrow> bnd (upd (SemanticsCache_update (\<lambda>K. K(i \<mapsto> Some s)))) (\<lambda>_. ret (Some s)))))"
    have "\<exists>r c'. ?x c = Some (r, c') \<and> semStep S A c (r \<noteq> None) c' \<and> (\<forall>s. r = Some s \<longleftrightarrow> means S i s)"
    proof (cases "SemanticsCache c i")
      case (Some r)
      have "\<forall>s. r = Some s \<longleftrightarrow> means S i s"
      proof (cases "i \<in> A")
        case True
        then have "\<nexists>s. means S i s" using meaning_graph.acyclic_at [of S i] Suc.prems(2) by blast
        moreover have "r = None" using True inv Some by (simp add: semInv_def)
        ultimately show ?thesis by simp
      qed (use inv Some in \<open>auto simp: semInv_def\<close>)
      with Some inv show ?thesis by (simp add: bnd_def get_def ret_def semStep_refl)
    next
      case None
      then have new: "i \<notin> A" using inv by (auto simp: semInv_def)
      have "finds S (insert i A) (ResolveSimpleSemantics n S j) (means S j)" if j: "(i, j) \<in> needRel S" for j
      proof (rule resolvesTo_finds, rule Suc.IH)
        have i: "i \<in> {..<length (simples S)} - A" using need_internal [OF j] new by simp
        have "{..<length (simples S)} - insert i A = ({..<length (simples S)} - A) - {i}" by auto
        then have "Suc (card ({..<length (simples S)} - insert i A)) = card ({..<length (simples S)} - A)"
          using card_Suc_Diff1 [OF _ i] by simp
        then show "card ({..<length (simples S)} - insert i A) + 1 < n" using Suc.prems(1) by simp
        show "\<forall>a \<in> insert i A. (a, j) \<in> (needRel S)\<^sup>+" using j Suc.prems(2) by (auto intro: trancl_into_trancl)
      qed
      then have body: "finds S (insert i A) (semanticsBody S (ResolveSimpleSemantics n S) i) (means S i)"
        by (rule semanticsBody_finds)
      let ?c = "SemanticsCache_update (\<lambda>K. K(i \<mapsto> None)) c"
      have "semInv S (insert i A) (SemanticsCache ?c)" using semInv_start [OF inv None] by simp
      from findsD [OF body this] obtain r c1 where r: "semanticsBody S (ResolveSimpleSemantics n S) i ?c = Some (r, c1)"
        "semStep S (insert i A) ?c (r \<noteq> None) c1" "\<forall>s. r = Some s \<longleftrightarrow> means S i s" .
      have inv1: "semInv S (insert i A) (SemanticsCache c1)" using r(2) by (simp add: semStep_def)
      show ?thesis
      proof (cases r)
        case None
        then have "semInv S A (SemanticsCache c1)" using semInv_failed [OF inv1 new] r(3) by simp
        then have "semStep S A c False c1" using r(2) by (cases c, cases c1) (auto simp: semStep_def)
        moreover have "?x c = Some (None, c1)" using None \<open>SemanticsCache c i = None\<close> r(1) by (simp add: bnd_def get_def upd_def ret_def)
        ultimately show ?thesis using r(3) None by (intro exI [of _ None] exI [of _ c1]) simp
      next
        case (Some s)
        let ?c1 = "SemanticsCache_update (\<lambda>K. K(i \<mapsto> Some s)) c1"
        have "semInv S A (SemanticsCache ?c1)" using semInv_done [OF inv1 new] r(3) Some by simp
        then have "semStep S A c True ?c1" using r(2) Some by (cases c, cases c1) (auto simp: semStep_def)
        moreover have "?x c = Some (Some s, ?c1)" using Some None r(1) by (simp add: bnd_def get_def upd_def ret_def)
        ultimately show ?thesis using r(3) Some by (intro exI [of _ "Some s"] exI [of _ ?c1]) simp
      qed
    qed
    then obtain r c1 where r: "?x c = Some (r, c1)" "semStep S A c (r \<noteq> None) c1" "\<forall>s. r = Some s \<longleftrightarrow> means S i s" by blast
    show "\<exists>r c'. ResolveSimpleSemantics (Suc n) S i c = Some (r, c') \<and> semStep S A c (r \<noteq> None) c' \<and> (\<forall>s. r = Some s \<longleftrightarrow> means S i s) \<and>
        (r = None \<longrightarrow> AssessmentVersion c < AssessmentVersion c' \<and> AssessmentErr c' \<noteq> [])"
    proof (cases r)
      case None
      define c2 where "c2 = c1\<lparr> AssessmentErr := AssessmentErr c1 @ [Plain ''simple type metadata is missing, cyclic or unsupported''],
          AssessmentVersion := Suc (AssessmentVersion c1) \<rparr>"
      have "ResolveSimpleSemantics (Suc n) S i c = Some (None, c2)"
        unfolding ResolveSimpleSemantics.simps bnd_def [of ?x] r(1)
        using None by (simp add: bnd_def Incomplete_def upd_def ret_def c2_def)
      moreover have "semStep S A c False c2" using r(2) None by (cases c, cases c1) (auto simp: semStep_def c2_def)
      moreover have "AssessmentVersion c < AssessmentVersion c2 \<and> AssessmentErr c2 \<noteq> []" using r(2) by (simp add: semStep_def c2_def)
      ultimately show ?thesis using None r(3) by (intro exI [of _ None] exI [of _ c2]) simp
    next
      case (Some s)
      have "ResolveSimpleSemantics (Suc n) S i c = Some (Some s, c1)"
        unfolding ResolveSimpleSemantics.simps bnd_def [of ?x] r(1) using Some by (simp add: ret_def)
      moreover have "semStep S A c True c1" "\<forall>s'. Some s = Some s' \<longleftrightarrow> means S i s'" using r(2,3) unfolding Some by simp_all
      ultimately show ?thesis by (intro exI [of _ "Some s"] exI [of _ c1]) simp
    qed
  qed
qed simp

lemma resolve_ready: "resolvesTo S {} (ResolveSimpleSemantics (semanticsDepth S) S i) i"
  by (rule ResolveSimpleSemantics_exact) (simp_all add: semanticsDepth_def)

section \<open>Property\<close>

text \<open>
  C15: the cached lookup of a simple type's semantics returns on every schema and yields exactly the meaning
  the type has by its derivation: the built-in type and whitespace policy inherited along restrictions, the
  list or the union it is built from. It fails closed: a type without a meaning (missing, cyclic or
  unsupported metadata, a whitespace facet on a union) yields nothing, records a technical error and advances
  the assessment epoch each time it is asked, and a type with one leaves no such trace.
\<close>
theorem simple_semantics_exact:
  assumes "semInv S {} (SemanticsCache c)"
  shows "\<exists>r c'. ResolveSimpleSemantics (semanticsDepth S) S i c = Some (r, c') \<and> (\<forall>s. r = Some s \<longleftrightarrow> means S i s) \<and>
    semInv S {} (SemanticsCache c') \<and>
    (if r = None then AssessmentVersion c < AssessmentVersion c' \<and> AssessmentErr c' \<noteq> []
     else AssessmentVersion c' = AssessmentVersion c \<and> AssessmentErr c' = AssessmentErr c)"
proof -
  from resolve_ready [of S i] assms obtain r c' where
    r: "ResolveSimpleSemantics (semanticsDepth S) S i c = Some (r, c')" "semStep S {} c (r \<noteq> None) c'" "\<forall>s. r = Some s \<longleftrightarrow> means S i s"
    "r = None \<longrightarrow> AssessmentVersion c < AssessmentVersion c' \<and> AssessmentErr c' \<noteq> []" unfolding resolvesTo_def by blast
  show ?thesis
    by (intro exI [of _ r] exI [of _ c'] conjI) (use r in \<open>auto simp: semStep_def\<close>)
qed

lemma empty_semInv: "semInv S {} (SemanticsCache NewTypeContext)"
  by (simp add: semInv_def NewTypeContext_def)

theorem simple_semantics_exact_witness:
  "(\<exists>s. means sampleSchema 2 s \<and> semUnion s = Some 1) \<and> \<not> (\<exists>s. means sampleSchema 3 s)"
proof -
  have "map_option (\<lambda>r. map_option semUnion (fst r)) (ResolveSimpleSemantics (semanticsDepth sampleSchema) sampleSchema 2 NewTypeContext) = Some (Some (Some 1))"
    "map_option (\<lambda>r. map_option semUnion (fst r)) (ResolveSimpleSemantics (semanticsDepth sampleSchema) sampleSchema 3 NewTypeContext) = Some None"
    by code_simp+
  then show ?thesis
    using simple_semantics_exact [OF empty_semInv, of sampleSchema 2] simple_semantics_exact [OF empty_semInv, of sampleSchema 3] by auto
qed

end
