(* ===== verification/Xsd_Derivation.thy ===== *)
theory Xsd_Derivation
  imports Xsd_Semantics
begin

text \<open>
  What \<open>TypeDerived\<close> decides, and the type an element is assessed with when it carries \<open>xsi:type\<close>: the memoized
  search along bases and union members agrees with derivation in the sense of XML Schema, and a nomination is
  accepted exactly when it resolves to a sound type that derives from the declared one by methods that are not
  blocked.
\<close>

section \<open>Derivation\<close>

inductive derivedFrom :: "schemaData \<Rightarrow> Derivation \<Rightarrow> TypeIdentity \<Rightarrow> TypeIdentity \<Rightarrow> bool"
  for S :: schemaData and blocked :: Derivation where
  df_self: "derivedFrom S blocked d d"
| df_base: "TypeBase S d = (parent, flag, found) \<Longrightarrow> flag \<noteq> 0 \<Longrightarrow> blocked AND flag = 0 \<Longrightarrow>
    derivedFrom S blocked parent b \<Longrightarrow> derivedFrom S blocked d b"
| df_member: "TypeBase S d = (parent, flag, found) \<Longrightarrow> flag \<noteq> 0 \<Longrightarrow> blocked AND flag = 0 \<Longrightarrow>
    tiSimple b = Some i \<Longrightarrow> tiComplex d = None \<Longrightarrow> means S i s \<Longrightarrow> semUnion s = Some u \<Longrightarrow>
    m \<in> set (sMembers (simpleOf S u)) \<Longrightarrow> derivedFrom S blocked d (fst (MemberType S m)) \<Longrightarrow> derivedFrom S blocked d b"

inductive_cases derivedFromE: "derivedFrom S blocked d b"

lemma derivedFrom_iff:
  assumes "d \<noteq> b" "TypeBase S d = (parent, flag, found)"
  shows "derivedFrom S blocked d b \<longleftrightarrow> flag \<noteq> 0 \<and> blocked AND flag = 0 \<and>
    ((\<exists>i s u m. tiSimple b = Some i \<and> tiComplex d = None \<and> means S i s \<and> semUnion s = Some u \<and> m \<in> set (sMembers (simpleOf S u)) \<and>
        derivedFrom S blocked d (fst (MemberType S m))) \<or> derivedFrom S blocked parent b)"
proof
  assume "derivedFrom S blocked d b"
  then show "flag \<noteq> 0 \<and> blocked AND flag = 0 \<and>
    ((\<exists>i s u m. tiSimple b = Some i \<and> tiComplex d = None \<and> means S i s \<and> semUnion s = Some u \<and> m \<in> set (sMembers (simpleOf S u)) \<and>
        derivedFrom S blocked d (fst (MemberType S m))) \<or> derivedFrom S blocked parent b)"
    by (cases rule: derivedFrom.cases) (use assms in \<open>simp, simp, auto\<close>)
qed (use assms(2) in \<open>blast intro: df_base df_member\<close>)

section \<open>Heights of sound types\<close>

lemma sound_deep_room:
  "soundType S v \<Longrightarrow> plain v \<Longrightarrow> (\<forall>a \<in> A. (a, v) \<in> (usesRel S)\<^sup>+) \<Longrightarrow> deepIn (usesRel S) (Suc (room S A v)) v"
proof (induction arbitrary: A rule: soundType.induct)
  case (sound_node v)
  have "soundType S v" using sound_node by (auto intro: soundType.sound_node)
  then have new: "v \<notin> A" using type_graph.acyclic_at [of S v] sound_node.prems(2) by blast
  show ?case
  proof (rule deepIn_node)
    fix w
    assume "(v, w) \<in> usesRel S"
    then obtain u where u: "u \<in> set (usesOf S v)" "w = fst u" by (auto simp: usesRel_def)
    have "\<forall>a \<in> insert v A. (a, fst u) \<in> (usesRel S)\<^sup>+" using usesRelI [OF u(1)] sound_node.prems(2) by (auto intro: trancl_into_trancl)
    then have "deepIn (usesRel S) (Suc (room S (insert v A) (fst u))) (fst u)"
      using sound_node.IH u(1) plain_used [OF u(1)] by blast
    then show "deepIn (usesRel S) (room S A v) w"
      unfolding u(2) by (rule deepIn_mono) (use room_step [OF sound_node.prems(1) new u(1)] in simp)
  qed
qed

lemma sound_deep: "soundType S v \<Longrightarrow> plain v \<Longrightarrow> deepIn (usesRel S) (metadataDepth S) v"
  using sound_deep_room [of S v "{}"] room_bound [of S "{}" v] by (auto intro: deepIn_mono)

lemma sound_base:
  assumes "soundType S d" "TypeBase S d = (parent, flag, found)" "flag \<noteq> 0"
  shows "(d, parent) \<in> usesRel S" "soundType S parent" "plain parent"
proof -
  have "\<not> (tiSimple d \<noteq> None \<and> tiComplex d \<noteq> None)" "found"
    using assms(1,2) by (auto simp: soundType_iff [of S d] nodeFine_def)
  then show edge: "(d, parent) \<in> usesRel S" using assms(2,3) by (auto simp: usesRel_def usesOf_def)
  with assms(1) show "soundType S parent" by (rule sound_used)
  show "plain parent" using plain_base [of S d] assms(2) by simp
qed

lemma sound_simple: "soundType S v \<Longrightarrow> plain v \<Longrightarrow> tiSimple v = Some i \<Longrightarrow> v = simpleType i"
  by (cases v) (auto simp: nodeFine_def plain_def simpleType_def dest!: iffD1 [OF soundType_iff])

lemma member_target:
  assumes "MemberType S (Some m) = (t, True)" "soundType S t" "memberTarget S m = Some i"
  shows "t = simpleType i"
proof -
  have "plain t" using plain_member [of S "Some m"] assms(1) by simp
  moreover have "tiSimple t = Some i"
    using assms(1,3) by (auto simp: MemberType_def TypeIdentity_of_def ResolveType_def memberTarget_def split: option.splits if_splits)
  ultimately show ?thesis using sound_simple assms(2) by blast
qed

lemma restrictsTo_union: "restrictsTo w s s' \<Longrightarrow> semUnion s' = semUnion s"
  by (auto simp: restrictsTo_iff)

lemma union_below:
  "means S i s \<Longrightarrow> soundType S (simpleType i) \<longrightarrow> semUnion s = Some u \<longrightarrow>
     (simpleType i, simpleType u) \<in> (usesRel S)\<^sup>* \<and> sForm (simpleOf S u) = SimpleUnion"
  "memberMeans S m s \<Longrightarrow> \<forall>t. MemberType S (Some m) = (t, True) \<longrightarrow> soundType S t \<longrightarrow> semUnion s = Some u \<longrightarrow>
     (t, simpleType u) \<in> (usesRel S)\<^sup>* \<and> sForm (simpleOf S u) = SimpleUnion"
proof (induction rule: means_memberMeans.inducts)
  case (m_restriction i m s s')
  show ?case
  proof (intro impI)
    assume sound: "soundType S (simpleType i)" and u: "semUnion s' = Some u"
    obtain t found where t: "MemberType S (Some m) = (t, found)" by (cases "MemberType S (Some m)")
    then have base: "TypeBase S (simpleType i) = (t, DerivationRestriction, found)"
      using m_restriction by (simp add: TypeBase_def simpleType_def)
    have "found" using sound base by (auto simp: soundType_iff [of S "simpleType i"] nodeFine_def)
    have "DerivationRestriction \<noteq> 0" by (simp add: DerivationRestriction_def)
    note up = sound_base [OF sound base this]
    have "semUnion s = Some u" using u restrictsTo_union [OF m_restriction(5)] by simp
    then have "(t, simpleType u) \<in> (usesRel S)\<^sup>* \<and> sForm (simpleOf S u) = SimpleUnion"
      using m_restriction(4) t \<open>found\<close> up(2) by simp
    with up(1) show "(simpleType i, simpleType u) \<in> (usesRel S)\<^sup>* \<and> sForm (simpleOf S u) = SimpleUnion"
      by (blast intro: converse_rtrancl_into_rtrancl)
  qed
next
  case (mm_inline m i s)
  then show ?case using member_target [of S m _ i] by (auto simp: memberTarget_def)
next
  case (mm_builtin m s)
  then show ?case by (auto simp: builtinSemantics_def SimpleSemantics.extend_def)
next
  case (mm_named m t i s)
  then show ?case using member_target [of S m _ i] by (auto simp: memberTarget_def)
qed auto

lemma union_member:
  assumes "soundType S (simpleType i)" "means S i s" "semUnion s = Some u" "m \<in> set (sMembers (simpleOf S u))"
  shows "(simpleType i, fst (MemberType S m)) \<in> (usesRel S)\<^sup>+" "soundType S (fst (MemberType S m))"
proof -
  have below: "(simpleType i, simpleType u) \<in> (usesRel S)\<^sup>*" "sForm (simpleOf S u) = SimpleUnion"
    using union_below(1) [OF assms(2)] assms(1,3) by blast+
  have "memberUse S DerivationUnion m \<in> set (usesOf S (simpleType u))"
    using below(2) assms(4) by (auto simp: usesOf_def itemsOf_def simpleType_def)
  from usesRelI [OF this] have edge: "(simpleType u, fst (MemberType S m)) \<in> usesRel S" by (simp add: memberUse_def)
  with below(1) show "(simpleType i, fst (MemberType S m)) \<in> (usesRel S)\<^sup>+" by (rule rtrancl_into_trancl1)
  show "soundType S (fst (MemberType S m))" using type_graph.good_reach [OF below(1) assms(1)] edge by (rule sound_used)
qed

section \<open>The memoized search\<close>

type_synonym derivationKey = "TypeIdentity \<times> TypeIdentity \<times> Derivation"

text \<open>Every cached answer is right, except under the keys whose answer is being computed.\<close>

definition derInv :: "schemaData \<Rightarrow> derivationKey set \<Rightarrow> (derivationKey \<rightharpoonup> bool) \<Rightarrow> bool" where
  "derInv S A D \<longleftrightarrow> (\<forall>d b bl r. D (d, b, bl) = Some r \<longrightarrow> (d, b, bl) \<in> A \<or> (r \<longleftrightarrow> derivedFrom S bl d b))"

definition cachesOK :: "schemaData \<Rightarrow> derivationKey set \<Rightarrow> TypeContext \<Rightarrow> bool" where
  "cachesOK S A c \<longleftrightarrow> semInv S {} (SemanticsCache c) \<and> derInv S A (Derivations c)"

text \<open>Every sound simple type has a meaning: whitespace facets are legal and items and members are simple.\<close>

definition meaningful :: "schemaData \<Rightarrow> bool" where
  "meaningful S \<longleftrightarrow> (\<forall>i. soundType S (simpleType i) \<longrightarrow> (\<exists>s. means S i s))"

definition derStep :: "schemaData \<Rightarrow> derivationKey set \<Rightarrow> TypeContext \<Rightarrow> TypeContext \<Rightarrow> bool" where
  "derStep S A c c' \<longleftrightarrow> cachesOK S A c' \<and> AssessmentVersion c \<le> AssessmentVersion c' \<and>
     c' = c\<lparr> Derivations := Derivations c', SemanticsCache := SemanticsCache c',
            AssessmentErr := AssessmentErr c', AssessmentVersion := AssessmentVersion c' \<rparr> \<and>
     (AssessmentVersion c' = AssessmentVersion c \<longrightarrow> AssessmentErr c' = AssessmentErr c) \<and>
     (meaningful S \<longrightarrow> AssessmentVersion c' = AssessmentVersion c)"

text \<open>An action that answers a question, unless it meets incomplete metadata and advances the epoch.\<close>

definition answers :: "schemaData \<Rightarrow> derivationKey set \<Rightarrow> bool tact \<Rightarrow> bool \<Rightarrow> bool" where
  "answers S A x P \<longleftrightarrow> (\<forall>c. cachesOK S A c \<longrightarrow>
     (\<exists>r c'. x c = Some (r, c') \<and> derStep S A c c' \<and> (AssessmentVersion c' = AssessmentVersion c \<longrightarrow> (r \<longleftrightarrow> P))))"

lemma answersD:
  assumes "answers S A x P" "cachesOK S A c"
  obtains r c' where "x c = Some (r, c')" "derStep S A c c'" "AssessmentVersion c' = AssessmentVersion c \<longrightarrow> (r \<longleftrightarrow> P)"
  using assms unfolding answers_def by blast

lemma derStep_refl: "cachesOK S A c \<Longrightarrow> derStep S A c c"
  by (simp add: derStep_def)

lemma derStep_trans: "derStep S A c c1 \<Longrightarrow> derStep S A c1 c2 \<Longrightarrow> derStep S A c c2"
  unfolding derStep_def by (cases c, cases c1, cases c2) auto

lemma derStep_version: "derStep S A c c' \<Longrightarrow> AssessmentVersion c \<le> AssessmentVersion c'"
  by (simp add: derStep_def)

lemma derStep_caches: "derStep S A c c' \<Longrightarrow> cachesOK S A c'"
  by (simp add: derStep_def)

lemma answers_ret: "answers S A (ret r) r"
  by (simp add: answers_def ret_def derStep_refl)

lemma answers_or:
  assumes "answers S A x P" "answers S A y Q"
  shows "answers S A (bnd x (\<lambda>ok. if ok then ret True else y)) (P \<or> Q)"
  unfolding answers_def
proof (intro allI impI)
  fix c :: TypeContext
  assume "cachesOK S A c"
  from answersD [OF assms(1) this] obtain r c1 where r: "x c = Some (r, c1)" "derStep S A c c1" "AssessmentVersion c1 = AssessmentVersion c \<longrightarrow> (r \<longleftrightarrow> P)" .
  show "\<exists>r c'. bnd x (\<lambda>ok. if ok then ret True else y) c = Some (r, c') \<and> derStep S A c c' \<and> (AssessmentVersion c' = AssessmentVersion c \<longrightarrow> (r \<longleftrightarrow> P \<or> Q))"
  proof (cases r)
    case True
    with r show ?thesis by (auto simp: bnd_def ret_def)
  next
    case False
    from answersD [OF assms(2) derStep_caches [OF r(2)]] obtain t c2 where
      t: "y c1 = Some (t, c2)" "derStep S A c1 c2" "AssessmentVersion c2 = AssessmentVersion c1 \<longrightarrow> (t \<longleftrightarrow> Q)" .
    have "AssessmentVersion c1 = AssessmentVersion c \<and> AssessmentVersion c2 = AssessmentVersion c1" if "AssessmentVersion c2 = AssessmentVersion c"
      using derStep_version [OF r(2)] derStep_version [OF t(2)] that by simp
    with False r t derStep_trans [OF r(2) t(2)] show ?thesis by (auto simp: bnd_def)
  qed
qed

lemma unionDerived_answers:
  assumes "\<forall>m \<in> set ms. answers S A (f (fst (MemberType S m))) (P m)"
  shows "answers S A (unionDerived S f ms) (\<exists>m \<in> set ms. P m)"
  using assms
proof (induction ms)
  case (Cons m ms)
  from answers_or [of S A "f (fst (MemberType S m))" "P m", OF _ Cons.IH] Cons.prems show ?case by simp
qed (simp add: answers_ret)

text \<open>Storing an answer under a key that is being computed.\<close>

definition stores :: "schemaData \<Rightarrow> derivationKey set \<Rightarrow> derivationKey \<Rightarrow> bool tact \<Rightarrow> bool \<Rightarrow> TypeContext \<Rightarrow> bool" where
  "stores S A key x P c \<longleftrightarrow> (\<exists>r c'. x c = Some (r, c') \<and> derStep S A c c' \<and>
     (AssessmentVersion c' = AssessmentVersion c \<longrightarrow> (r \<longleftrightarrow> P) \<and> Derivations c' key = Some r))"

lemma derStep_set: "derStep S A c c' \<Longrightarrow> key \<in> A \<Longrightarrow> derStep S A c (Derivations_update (\<lambda>D. D(key := r)) c')"
  by (cases c, cases c', cases key) (auto simp: derStep_def cachesOK_def derInv_def)

lemma answers_stores:
  assumes "answers S A x P" "key \<in> A" "cachesOK S A c"
  shows "stores S A key (bnd x (setDerivation key)) P c"
proof -
  from answersD [OF assms(1,3)] obtain r c1 where r: "x c = Some (r, c1)" "derStep S A c c1" "AssessmentVersion c1 = AssessmentVersion c \<longrightarrow> (r \<longleftrightarrow> P)" .
  with derStep_set [OF r(2) assms(2), of "Some r"] show ?thesis by (auto simp: stores_def bnd_def setDerivation_def upd_def ret_def)
qed

lemma stores_after:
  assumes "x c = Some (r, c1)" "derStep S A c c1" "stores S A key (f r) P c1"
    and "AssessmentVersion c1 = AssessmentVersion c \<Longrightarrow> P \<longleftrightarrow> Q"
  shows "stores S A key (bnd x f) Q c"
proof -
  from assms(3) obtain t c2 where t: "f r c1 = Some (t, c2)" "derStep S A c1 c2"
    "AssessmentVersion c2 = AssessmentVersion c1 \<longrightarrow> (t \<longleftrightarrow> P) \<and> Derivations c2 key = Some t" unfolding stores_def by blast
  have "AssessmentVersion c1 = AssessmentVersion c \<and> AssessmentVersion c2 = AssessmentVersion c1" if "AssessmentVersion c2 = AssessmentVersion c"
    using derStep_version [OF assms(2)] derStep_version [OF t(2)] that by simp
  then have "AssessmentVersion c2 = AssessmentVersion c \<longrightarrow> (t \<longleftrightarrow> Q) \<and> Derivations c2 key = Some t" using t(3) assms(4) by blast
  moreover have "bnd x f c = Some (t, c2)" using assms(1) t(1) by (simp add: bnd_def)
  ultimately show ?thesis using derStep_trans [OF assms(2) t(2)] unfolding stores_def by blast
qed

lemma orelse_stores:
  assumes "answers S A x P" "answers S A y Q" "key \<in> A" "cachesOK S A c"
  shows "stores S A key (bnd x (\<lambda>ok. if ok then setDerivation key True else bnd y (setDerivation key))) (P \<or> Q) c"
proof -
  from answersD [OF assms(1,4)] obtain r c1 where r: "x c = Some (r, c1)" "derStep S A c c1" "AssessmentVersion c1 = AssessmentVersion c \<longrightarrow> (r \<longleftrightarrow> P)" .
  note ok = derStep_caches [OF r(2)]
  show ?thesis
  proof (rule stores_after [where x = x and c = c and r = r and ?c1.0 = c1, OF r(1) r(2)])
    have "stores S A key (bnd (ret True) (setDerivation key)) True c1" by (rule answers_stores [OF answers_ret assms(3) ok])
    then have "stores S A key (setDerivation key True) True c1" by (simp add: stores_def bnd_def ret_def)
    then show "stores S A key (if r then setDerivation key True else bnd y (setDerivation key)) (r \<or> Q) c1"
      using answers_stores [OF assms(2,3) ok] by (cases r) simp_all
    show "r \<or> Q \<longleftrightarrow> P \<or> Q" if "AssessmentVersion c1 = AssessmentVersion c" using r(3) that by simp
  qed
qed

lemma derivedBody_stores:
  assumes ne: "d \<noteq> b" and base: "TypeBase S d = (parent, flag, found)" and key: "(d, b, bl) \<in> A"
    and up: "flag \<noteq> 0 \<Longrightarrow> answers S A (f parent b) (derivedFrom S bl parent b)"
    and members: "\<And>i s u m. tiSimple b = Some i \<Longrightarrow> tiComplex d = None \<Longrightarrow> means S i s \<Longrightarrow> semUnion s = Some u \<Longrightarrow>
      m \<in> set (sMembers (simpleOf S u)) \<Longrightarrow> answers S A (f d (fst (MemberType S m))) (derivedFrom S bl d (fst (MemberType S m)))"
    and sound: "\<And>i. tiSimple b = Some i \<Longrightarrow> soundType S (simpleType i)"
    and c: "cachesOK S A c" "Derivations c (d, b, bl) = Some False"
  shows "stores S A (d, b, bl) (derivedBody S f d b bl) (derivedFrom S bl d b) c"
proof -
  let ?up = "if parent = b then ret True else f parent b"
  let ?finish = "bnd ?up (setDerivation (d, b, bl))"
  note iff = derivedFrom_iff [OF ne base, of bl]
  show ?thesis
  proof (cases "flag = 0 \<or> bl AND flag \<noteq> 0")
    case True
    then have "\<not> derivedFrom S bl d b" unfolding iff by blast
    with True c show ?thesis by (auto simp: stores_def derivedBody_def base ret_def derStep_refl)
  next
    case False
    then have free: "flag \<noteq> 0" "bl AND flag = 0" by auto
    have up': "answers S A ?up (derivedFrom S bl parent b)"
      using answers_ret [of S A True] up [OF free(1)] df_self [of S bl b] by (cases "parent = b") auto
    show ?thesis
    proof (cases "\<exists>i. tiSimple b = Some i \<and> tiComplex d = None")
      case False
      then have "derivedFrom S bl d b \<longleftrightarrow> derivedFrom S bl parent b" unfolding iff using free by blast
      moreover have "derivedBody S f d b bl = ?finish"
        using False free by (auto simp: derivedBody_def base Let_def split: option.splits)
      ultimately show ?thesis using answers_stores [OF up' key c(1)] by simp
    next
      case True
      then obtain i where i: "tiSimple b = Some i" "tiComplex d = None" by blast
      let ?next = "\<lambda>r. case r of None \<Rightarrow> ret False | Some semantics \<Rightarrow>
          (case semUnion semantics of None \<Rightarrow> ?finish
           | Some u \<Rightarrow> bnd (unionDerived S (f d) (sMembers (simpleOf S u))) (\<lambda>ok. if ok then setDerivation (d, b, bl) True else ?finish))"
      have body: "derivedBody S f d b bl = bnd (ResolveSimpleSemantics (semanticsDepth S) S i) ?next"
        using free i by (simp add: derivedBody_def base Let_def)
      from resolve_ready [of S i] c(1) obtain r c1 where
        r: "ResolveSimpleSemantics (semanticsDepth S) S i c = Some (r, c1)" "semStep S {} c (r \<noteq> None) c1" "\<forall>s. r = Some s \<longleftrightarrow> means S i s"
        "r = None \<longrightarrow> AssessmentVersion c < AssessmentVersion c1 \<and> AssessmentErr c1 \<noteq> []"
        unfolding resolvesTo_def cachesOK_def by blast
      have "\<not> meaningful S" if "r = None" using that r(3) sound [OF i(1)] by (auto simp: meaningful_def)
      then have step: "derStep S A c c1"
        using r(2,4) c(1) by (cases c, cases c1, cases r) (auto simp: semStep_def derStep_def cachesOK_def)
      show ?thesis
      proof (cases r)
        case None
        with r(1,4) step body show ?thesis by (auto simp: stores_def bnd_def ret_def)
      next
        case (Some s)
        let ?members = "\<exists>u m. semUnion s = Some u \<and> m \<in> set (sMembers (simpleOf S u)) \<and> derivedFrom S bl d (fst (MemberType S m))"
        have s: "means S i s" using r(3) Some by blast
        have only: "s' = s" if "means S i s'" for s' using that r(3) Some by auto
        have "(\<exists>j s' u m. tiSimple b = Some j \<and> tiComplex d = None \<and> means S j s' \<and> semUnion s' = Some u \<and> m \<in> set (sMembers (simpleOf S u)) \<and>
            derivedFrom S bl d (fst (MemberType S m))) \<longleftrightarrow> ?members"
        proof
          assume ?members
          with i s show "\<exists>j s' u m. tiSimple b = Some j \<and> tiComplex d = None \<and> means S j s' \<and> semUnion s' = Some u \<and> m \<in> set (sMembers (simpleOf S u)) \<and>
            derivedFrom S bl d (fst (MemberType S m))" by blast
        qed (use i in \<open>auto dest!: only\<close>)
        then have iff': "derivedFrom S bl d b \<longleftrightarrow> ?members \<or> derivedFrom S bl parent b" unfolding iff using free by simp
        have "stores S A (d, b, bl) (?next (Some s)) (?members \<or> derivedFrom S bl parent b) c1"
        proof (cases "semUnion s")
          case None
          then show ?thesis using answers_stores [OF up' key derStep_caches [OF step]] by simp
        next
          case (Some u)
          have "answers S A (unionDerived S (f d) (sMembers (simpleOf S u))) (\<exists>m \<in> set (sMembers (simpleOf S u)). derivedFrom S bl d (fst (MemberType S m)))"
            by (rule unionDerived_answers) (use members i s Some in blast)
          from orelse_stores [OF this up' key derStep_caches [OF step]] show ?thesis using Some by (simp add: Bex_def)
        qed
        with Some show ?thesis unfolding body iff' by (intro stores_after [where x = "ResolveSimpleSemantics (semanticsDepth S) S i" and c = c and r = r and ?c1.0 = c1, OF r(1) step]) simp_all
      qed
    qed
  qed
qed

lemma derInv_settle:
  assumes "derInv S (insert (d, b, bl) A) D" "\<And>r. D (d, b, bl) = Some r \<Longrightarrow> r \<longleftrightarrow> derivedFrom S bl d b"
  shows "derInv S A D"
  unfolding derInv_def
proof (intro allI impI)
  fix d' b' bl' r
  assume r: "D (d', b', bl') = Some r"
  show "(d', b', bl') \<in> A \<or> (r \<longleftrightarrow> derivedFrom S bl' d' b')"
  proof (cases "(d', b', bl') = (d, b, bl)")
    case False
    with assms(1) r show ?thesis unfolding derInv_def by blast
  qed (use assms(2) r in auto)
qed

abbreviation tall :: "schemaData \<Rightarrow> TypeIdentity \<Rightarrow> nat" where
  "tall S v \<equiv> height (usesRel S) v"

lemma TypeDerived_answers:
  assumes "soundType S d" "plain d" "soundType S b" "plain b" "tall S d + tall S b \<le> n"
    and "\<forall>(d', b', bl') \<in> A. tall S d + tall S b < tall S d' + tall S b'"
  shows "answers S A (TypeDerived n S bl d b) (derivedFrom S bl d b)"
  using assms
proof (induction n arbitrary: d b A)
  case 0
  then show ?case using height_pos [OF sound_deep, of S d] by simp
next
  case (Suc n)
  have new: "(d, b, bl) \<notin> A" using Suc.prems(6) by auto
  obtain parent flag found where base: "TypeBase S d = (parent, flag, found)" by (rule prod_cases3)
  have lower: "answers S (insert (d, b, bl) A) (TypeDerived n S bl d' b') (derivedFrom S bl d' b')"
    if "soundType S d'" "plain d'" "soundType S b'" "plain b'" "tall S d' + tall S b' < tall S d + tall S b" for d' b'
    using that Suc.prems(5,6) by (intro Suc.IH) force+
  show ?case
    unfolding answers_def
  proof (intro allI impI)
    fix c :: TypeContext
    assume c: "cachesOK S A c"
    show "\<exists>r c'. TypeDerived (Suc n) S bl d b c = Some (r, c') \<and> derStep S A c c' \<and>
        (AssessmentVersion c' = AssessmentVersion c \<longrightarrow> (r \<longleftrightarrow> derivedFrom S bl d b))"
    proof (cases "d = b \<or> Derivations c (d, b, bl) \<noteq> None")
      case True
      then consider "d = b" | known where "d \<noteq> b" "Derivations c (d, b, bl) = Some known" by auto
      then show ?thesis
      proof cases
        case 1
        then show ?thesis using c df_self by (auto simp: ret_def derStep_refl)
      next
        case 2
        then have "known \<longleftrightarrow> derivedFrom S bl d b" using c new unfolding cachesOK_def derInv_def by blast
        with 2 c show ?thesis by (simp add: bnd_def get_def ret_def derStep_refl)
      qed
    next
      case False
      then have ne: "d \<noteq> b" and none: "Derivations c (d, b, bl) = None" by auto
      let ?A = "insert (d, b, bl) A" and ?c = "Derivations_update (\<lambda>D. D((d, b, bl) \<mapsto> False)) c"
      have ok: "cachesOK S ?A ?c" using c by (auto simp: cachesOK_def derInv_def)
      have "stores S ?A (d, b, bl) (derivedBody S (TypeDerived n S bl) d b bl) (derivedFrom S bl d b) ?c"
      proof (rule derivedBody_stores [OF ne base _ _ _ _ ok])
        assume "flag \<noteq> 0"
        note up = sound_base [OF Suc.prems(1) base this]
        show "answers S ?A (TypeDerived n S bl parent b) (derivedFrom S bl parent b)"
          using up Suc.prems height_step [OF sound_deep up(1)] by (intro lower) simp_all
      next
        fix i s u m
        assume i: "tiSimple b = Some i" "means S i s" "semUnion s = Some u" "m \<in> set (sMembers (simpleOf S u))"
        have b: "b = simpleType i" using sound_simple Suc.prems(3,4) i(1) by blast
        note below = union_member [OF _ i(2-4)]
        have "soundType S (fst (MemberType S m))" "tall S (fst (MemberType S m)) < tall S b"
          using below Suc.prems(3,4) height_trancl [OF _ sound_deep, of b] unfolding b by blast+
        then show "answers S ?A (TypeDerived n S bl d (fst (MemberType S m))) (derivedFrom S bl d (fst (MemberType S m)))"
          using Suc.prems plain_member by (intro lower) simp_all
      next
        fix i
        assume "tiSimple b = Some i"
        then show "soundType S (simpleType i)" using sound_simple Suc.prems(3,4) by metis
      qed simp_all
      then obtain r c1 where r: "derivedBody S (TypeDerived n S bl) d b bl ?c = Some (r, c1)" "derStep S ?A ?c c1"
        "AssessmentVersion c1 = AssessmentVersion ?c \<longrightarrow> (r \<longleftrightarrow> derivedFrom S bl d b) \<and> Derivations c1 (d, b, bl) = Some r"
        unfolding stores_def by blast
      define c2 where "c2 = (if AssessmentVersion c1 \<noteq> AssessmentVersion c then Derivations_update (\<lambda>D. D((d, b, bl) := None)) c1 else c1)"
      have "TypeDerived (Suc n) S bl d b c = Some (r, c2)"
        using ne none r(1) by (simp add: bnd_def get_def upd_def ret_def c2_def)
      moreover have "derInv S A (Derivations c2)"
      proof (rule derInv_settle)
        show "derInv S ?A (Derivations c2)"
          using derStep_caches [OF r(2)] by (auto simp: cachesOK_def derInv_def c2_def)
        show "t \<longleftrightarrow> derivedFrom S bl d b" if "Derivations c2 (d, b, bl) = Some t" for t
          using that r(3) by (auto simp: c2_def split: if_splits)
      qed
      then have "cachesOK S A c2" using derStep_caches [OF r(2)] by (auto simp: cachesOK_def c2_def)
      then have "derStep S A c c2" using r(2) by (cases c, cases c1) (auto simp: derStep_def c2_def)
      moreover have "AssessmentVersion c2 = AssessmentVersion c1" by (simp add: c2_def)
      ultimately show ?thesis using r(3) by (intro exI [of _ r] exI [of _ c2]) simp
    qed
  qed
qed

lemma derivation_ready:
  assumes "soundType S d" "plain d" "soundType S b" "plain b"
  shows "answers S {} (TypeDerived (2 * metadataDepth S) S bl d b) (derivedFrom S bl d b)"
  using assms height_le [OF sound_deep, of S d] height_le [OF sound_deep, of S b] by (intro TypeDerived_answers) simp_all

section \<open>The type of an element\<close>

definition contextOK :: "schemaData \<Rightarrow> TypeContext \<Rightarrow> bool" where
  "contextOK S c \<longleftrightarrow> metaInv S {} (TypeMetadata c) \<and> cachesOK S {} c"

lemma metadata_run:
  assumes "contextOK S c" "plain v"
  obtains c' where "ValidTypeMetadata (metadataDepth S) S v c = Some (soundType S v, c')" "contextOK S c'" "Issues c' = Issues c"
    "if soundType S v then AssessmentVersion c' = AssessmentVersion c else AssessmentVersion c < AssessmentVersion c'"
proof -
  from ValidTypeMetadata_exact [OF room_bound assms(2), of "{}" S] assms(1) obtain c' where
    c': "ValidTypeMetadata (metadataDepth S) S v c = Some (soundType S v, c')" "settled S {} c (soundType S v) c'"
    unfolding decides_def contextOK_def by blast
  moreover have "contextOK S c'" "Issues c' = Issues c"
    using c'(2) assms(1) by (cases c, cases c', auto simp: settled_def contextOK_def cachesOK_def)+
  moreover have "if soundType S v then AssessmentVersion c' = AssessmentVersion c else AssessmentVersion c < AssessmentVersion c'"
    using c'(2) by (auto simp: settled_def split: if_splits)
  ultimately show thesis using that by blast
qed

lemma derivation_run:
  assumes "contextOK S c" "soundType S d" "plain d" "soundType S b" "plain b"
  obtains r c' where "TypeDerived (2 * metadataDepth S) S bl d b c = Some (r, c')" "contextOK S c'" "Issues c' = Issues c"
    "AssessmentVersion c \<le> AssessmentVersion c'" "AssessmentVersion c' = AssessmentVersion c \<longrightarrow> (r \<longleftrightarrow> derivedFrom S bl d b)"
    "meaningful S \<longrightarrow> AssessmentVersion c' = AssessmentVersion c"
proof -
  have "cachesOK S {} c" using assms(1) by (simp add: contextOK_def)
  from answersD [OF derivation_ready [OF assms(2-5)] this] obtain r c' where
    r: "TypeDerived (2 * metadataDepth S) S bl d b c = Some (r, c')" "derStep S {} c c'" "AssessmentVersion c' = AssessmentVersion c \<longrightarrow> (r \<longleftrightarrow> derivedFrom S bl d b)" .
  moreover have "contextOK S c'" "Issues c' = Issues c"
    using r(2) assms(1) by (cases c, cases c', auto simp: derStep_def contextOK_def)+
  moreover have "AssessmentVersion c \<le> AssessmentVersion c'" "meaningful S \<longrightarrow> AssessmentVersion c' = AssessmentVersion c"
    using r(2) by (simp_all add: derStep_def)
  ultimately show thesis using that by blast
qed

text \<open>The type reference an element nominates, and when a nomination is allowed.\<close>

definition nomination :: "Node \<Rightarrow> TypeRef option" where
  "nomination node = Option.bind (xsiType (nAttrs node)) (\<lambda>value.
     if snd (instanceQName node value)
     then Some \<lparr> trName = fst (instanceQName node value), InlineSimple = None, InlineComplex = None \<rparr> else None)"

definition allowedType :: "schemaData \<Rightarrow> Derivation \<Rightarrow> TypeRef \<Rightarrow> TypeRef \<Rightarrow> bool" where
  "allowedType S block t decl \<longleftrightarrow> (\<exists>a b. TypeIdentity_of S (Some t) = (a, True) \<and> TypeIdentity_of S (Some decl) = (b, True) \<and>
     soundType S a \<and> soundType S b \<and> derivedFrom S (blockedBy S block a b) a b)"

definition typeIssue :: "string \<Rightarrow> message \<Rightarrow> Issue" where
  "typeIssue path msg = \<lparr> isPath = attributePath path \<lparr> Space = XSINamespace, Local = ''type'' \<rparr>, isConstraint = ''xsi:type'', isMessage = msg \<rparr>"

text \<open>
  The outcome of an element with a nomination: accepted and allowed, or refused with a recorded reason, and
  never refused without need when the schema is meaningful.
\<close>

definition judged :: "schemaData \<Rightarrow> Derivation \<Rightarrow> string \<Rightarrow> TypeRef \<Rightarrow> TypeRef option \<Rightarrow> TypeContext \<Rightarrow> (TypeRef \<times> bool) \<times> TypeContext \<Rightarrow> bool" where
  "judged S block path decl nominee c = (\<lambda>((t, ok), c'). contextOK S c' \<and> AssessmentVersion c \<le> AssessmentVersion c' \<and> (\<exists>new. Issues c' = Issues c @ new) \<and>
     (if ok then nominee = Some t \<and> allowedType S block t decl \<and> Issues c' = Issues c
      else t = decl \<and> (AssessmentVersion c < AssessmentVersion c' \<or> (\<exists>msg. Issues c' = Issues c @ [typeIssue path msg])) \<and>
        \<not> (meaningful S \<and> (\<exists>t. nominee = Some t \<and> allowedType S block t decl))))"

lemma AddIssue_xsi:
  "AddIssue (attributePath path \<lparr> Space = XSINamespace, Local = ''type'' \<rparr>) ''xsi:type'' msg c = Some ((), c\<lparr> Issues := Issues c @ [typeIssue path msg] \<rparr>)"
  by (simp add: AddIssue_def upd_def typeIssue_def)

lemma contextOK_issues: "contextOK S c \<Longrightarrow> contextOK S (c\<lparr> Issues := is \<rparr>)"
  by (simp add: contextOK_def cachesOK_def)

lemma contextOK_incomplete: "contextOK S c \<Longrightarrow> contextOK S (c\<lparr> AssessmentErr := e, AssessmentVersion := n \<rparr>)"
  by (simp add: contextOK_def cachesOK_def)

lemma judged_nominee:
  assumes c: "contextOK S c" and a: "TypeIdentity_of S (Some t) = (a, True)" and b: "TypeIdentity_of S (Some decl) = (b, True)"
  shows "\<exists>r. nominate S t a decl b block (attributePath path \<lparr> Space = XSINamespace, Local = ''type'' \<rparr>) c = Some r \<and>
    judged S block path decl (Some t) c r"
proof -
  have plain: "plain a" "plain b" using plain_identity [of S "Some t"] plain_identity [of S "Some decl"] a b by simp_all
  have allowed: "allowedType S block t decl \<longleftrightarrow> soundType S a \<and> soundType S b \<and> derivedFrom S (blockedBy S block a b) a b"
    using a b by (simp add: allowedType_def)
  obtain c1 where c1: "ValidTypeMetadata (metadataDepth S) S a c = Some (soundType S a, c1)" "contextOK S c1" "Issues c1 = Issues c"
    "if soundType S a then AssessmentVersion c1 = AssessmentVersion c else AssessmentVersion c < AssessmentVersion c1"
    by (rule metadata_run [OF c plain(1)])
  obtain c2 where c2: "ValidTypeMetadata (metadataDepth S) S b c1 = Some (soundType S b, c2)" "contextOK S c2" "Issues c2 = Issues c1"
    "if soundType S b then AssessmentVersion c2 = AssessmentVersion c1 else AssessmentVersion c1 < AssessmentVersion c2"
    by (rule metadata_run [OF c1(2) plain(2)])
  consider "\<not> soundType S a" | "soundType S a" "\<not> soundType S b" | (sound) "soundType S a" "soundType S b" by blast
  then show ?thesis
  proof cases
    case sound
    obtain r c3 where c3: "TypeDerived (2 * metadataDepth S) S (blockedBy S block a b) a b c2 = Some (r, c3)" "contextOK S c3" "Issues c3 = Issues c2"
      "AssessmentVersion c2 \<le> AssessmentVersion c3" "AssessmentVersion c3 = AssessmentVersion c2 \<longrightarrow> (r \<longleftrightarrow> derivedFrom S (blockedBy S block a b) a b)"
      "meaningful S \<longrightarrow> AssessmentVersion c3 = AssessmentVersion c2"
      by (rule derivation_run [OF c2(2) sound(1) plain(1) sound(2) plain(2)])
    show ?thesis
    proof (cases "AssessmentVersion c3 = AssessmentVersion c2 \<and> \<not> r")
      case True
      with sound c1 c2 c3 show ?thesis
        by (auto simp: nominate_def bnd_def get_def ret_def AddIssue_xsi judged_def allowed contextOK_issues)
    next
      case False
      with sound c1 c2 c3 show ?thesis by (auto simp: nominate_def bnd_def get_def ret_def judged_def allowed)
    qed
  qed (use c1 c2 in \<open>auto simp: nominate_def bnd_def ret_def judged_def allowed\<close>)
qed

lemma ActualElementType_judged:
  assumes c: "contextOK S c" and given: "xsiType (nAttrs node) = Some v"
  shows "\<exists>r. ActualElementType S node decl block path c = Some r \<and> judged S block path decl (nomination node) c r"
proof -
  obtain name ok where n: "instanceQName node v = (name, ok)" by (cases "instanceQName node v")
  let ?t = "\<lparr> trName = name, InlineSimple = None, InlineComplex = None \<rparr>"
  have nom: "nomination node = (if ok then Some ?t else None)" using given n by (simp add: nomination_def)
  obtain a fa where a: "TypeIdentity_of S (Some ?t) = (a, fa)" by (cases "TypeIdentity_of S (Some ?t)")
  obtain b fb where b: "TypeIdentity_of S (Some decl) = (b, fb)" by (cases "TypeIdentity_of S (Some decl)")
  have unmatched: "\<not> allowedType S block ?t decl" if "\<not> (fa \<and> fb)" using that a b by (auto simp: allowedType_def)
  consider (unbound) "\<not> ok" | (missing) "ok" "\<not> fa" | (undeclared) "ok" "fa" "\<not> fb" | (both) "ok" "fa" "fb" by blast
  then show ?thesis
  proof cases
    case unbound
    then show ?thesis using c given n nom
      by (auto simp: ActualElementType_def Let_def bnd_def ret_def AddIssue_xsi judged_def contextOK_issues)
  next
    case missing
    then show ?thesis using c given n nom a unmatched
      by (auto simp: ActualElementType_def Let_def bnd_def ret_def upd_def Incomplete_def AddIssue_xsi judged_def contextOK_issues contextOK_incomplete)
  next
    case undeclared
    then show ?thesis using c given n nom a b unmatched
      by (auto simp: ActualElementType_def Let_def bnd_def ret_def upd_def Incomplete_def judged_def contextOK_incomplete)
  next
    case both
    then have "ActualElementType S node decl block path = nominate S ?t a decl b block (attributePath path \<lparr> Space = XSINamespace, Local = ''type'' \<rparr>)"
      using given n a b by (simp add: ActualElementType_def Let_def)
    with judged_nominee [OF c, of ?t a decl b block path] a b both nom show ?thesis by simp
  qed
qed

text \<open>
  What the attribute and the schema say: the first \<open>xsi:type\<close> attribute nominates the type its words name, a name
  without a prefix in the default namespace and one with a prefix in the namespace the prefix is bound to; and a
  nominee is permitted when it is derived by methods that are blocked neither by the declaration of the element nor,
  between complex types, by the declared type.
\<close>

definition typeAttribute :: "Attribute \<Rightarrow> bool" where
  "typeAttribute a \<longleftrightarrow> \<not> aNamespaceDeclaration a \<and>
     aName a = \<lparr> Space = ''http://www.w3.org/2001/XMLSchema-instance'', Local = ''type'' \<rparr>"

definition xsiTyped :: "Node \<Rightarrow> bool" where
  "xsiTyped node \<longleftrightarrow> (\<exists>a \<in> set (nAttrs node). typeAttribute a)"

definition noColonName :: "string \<Rightarrow> bool" where
  "noColonName w \<longleftrightarrow> CHR '':'' \<notin> set w \<and> validXSDName w"

definition boundName :: "Node \<Rightarrow> string \<Rightarrow> QName \<Rightarrow> bool" where
  "boundName node w name \<longleftrightarrow> noColonName (Local name) \<and>
     (w = Local name \<and> Space name = (case nNamespaces node [] of None \<Rightarrow> [] | Some ns \<Rightarrow> ns) \<or>
      (\<exists>p. noColonName p \<and> w = p @ '':'' @ Local name \<and> Space name \<noteq> [] \<and> nNamespaces node p = Some (Space name)))"

definition nominates :: "Node \<Rightarrow> TypeRef \<Rightarrow> bool" where
  "nominates node t \<longleftrightarrow> InlineSimple t = None \<and> InlineComplex t = None \<and>
     (\<exists>us a ws. nAttrs node = us @ a # ws \<and> typeAttribute a \<and> (\<forall>u \<in> set us. \<not> typeAttribute u) \<and>
       boundName node (joinWords (wordsOf (runes (aValue a)))) (trName t))"

definition permitted :: "schemaData \<Rightarrow> Derivation \<Rightarrow> TypeRef \<Rightarrow> TypeRef \<Rightarrow> bool" where
  "permitted S block t decl \<longleftrightarrow> (\<exists>a b methods. TypeIdentity_of S (Some t) = (a, True) \<and> TypeIdentity_of S (Some decl) = (b, True) \<and>
     soundType S a \<and> soundType S b \<and>
     (\<forall>i. bit methods i \<longleftrightarrow> bit block i \<or> (\<exists>j k. tiComplex a = Some j \<and> tiComplex b = Some k \<and> bit (cBlock (complexOf S k)) i)) \<and>
     derivedFrom S methods a b)"

lemma blocked_bits:
  "bit (blockedBy S block a b) i \<longleftrightarrow> bit block i \<or> (\<exists>j k. tiComplex a = Some j \<and> tiComplex b = Some k \<and> bit (cBlock (complexOf S k)) i)"
  by (auto simp: blockedBy_def bit_or_iff split: option.splits)

lemma permitted_iff: "permitted S block t decl \<longleftrightarrow> allowedType S block t decl"
proof -
  have "(\<forall>i. bit methods i \<longleftrightarrow> bit (blockedBy S block a b) i) \<longleftrightarrow> methods = blockedBy S block a b" for methods a b
    by (rule iffI, rule bit_eqI) simp_all
  then show ?thesis unfolding permitted_def allowedType_def blocked_bits [symmetric] by simp
qed

lemma find_first: "find f xs = Some a \<longleftrightarrow> (\<exists>us ws. xs = us @ a # ws \<and> f a \<and> (\<forall>u \<in> set us. \<not> f u))"
proof
  show "find f xs = Some a \<Longrightarrow> \<exists>us ws. xs = us @ a # ws \<and> f a \<and> (\<forall>u \<in> set us. \<not> f u)"
  proof (induction xs)
    case (Cons x xs)
    show ?case
    proof (cases "f x")
      case True
      with Cons.prems have "x # xs = [] @ a # xs \<and> f a \<and> (\<forall>u \<in> set []. \<not> f u)" by simp
      then show ?thesis by blast
    next
      case False
      then obtain us ws where "xs = us @ a # ws \<and> f a \<and> (\<forall>u \<in> set us. \<not> f u)" using Cons by auto
      with False have "x # xs = (x # us) @ a # ws \<and> f a \<and> (\<forall>u \<in> set (x # us). \<not> f u)" by simp
      then show ?thesis by blast
    qed
  qed simp
  have "f a \<Longrightarrow> \<forall>u \<in> set us. \<not> f u \<Longrightarrow> find f (us @ a # ws) = Some a" for us ws by (induction us) auto
  then show "\<exists>us ws. xs = us @ a # ws \<and> f a \<and> (\<forall>u \<in> set us. \<not> f u) \<Longrightarrow> find f xs = Some a" by auto
qed

lemma xsiType_first: "xsiType attrs = map_option aValue (find typeAttribute attrs)"
proof -
  have "typeAttribute = (\<lambda>a. \<not> aNamespaceDeclaration a \<and> aName a = \<lparr> Space = XSINamespace, Local = ''type'' \<rparr>)"
    by (simp add: fun_eq_iff typeAttribute_def XSINamespace_def)
  then show ?thesis by (simp add: xsiType_def)
qed

lemma xsiTyped_iff: "xsiTyped node \<longleftrightarrow> xsiType (nAttrs node) \<noteq> None"
  by (auto simp: xsiTyped_def xsiType_first find_None_iff)

lemma split_colon:
  assumes "CHR '':'' \<in> set w"
  shows "w = takeWhile (\<lambda>ch. ch \<noteq> CHR '':'') w @ '':'' @ tl (dropWhile (\<lambda>ch. ch \<noteq> CHR '':'') w)"
    "w = p @ '':'' @ l \<Longrightarrow> CHR '':'' \<notin> set p \<Longrightarrow> takeWhile (\<lambda>ch. ch \<noteq> CHR '':'') w = p \<and> tl (dropWhile (\<lambda>ch. ch \<noteq> CHR '':'') w) = l"
proof -
  have "dropWhile (\<lambda>ch. ch \<noteq> CHR '':'') w = CHR '':'' # tl (dropWhile (\<lambda>ch. ch \<noteq> CHR '':'') w)"
    using assms by (induction w) auto
  then show "w = takeWhile (\<lambda>ch. ch \<noteq> CHR '':'') w @ '':'' @ tl (dropWhile (\<lambda>ch. ch \<noteq> CHR '':'') w)"
    by (metis append_Cons append_Nil takeWhile_dropWhile_id)
qed (induction p arbitrary: w; auto)+

lemma instanceQName_exact: "instanceQName node v = (name, True) \<longleftrightarrow> boundName node (joinWords (wordsOf (runes v))) name"
proof -
  define w where "w = joinWords (wordsOf (runes v))"
  have "collapseWhitespace v = w" "normalizeWhitespace ''QName'' w = w"
    using words_collapse [of v] by (simp_all add: w_def collapse_words [symmetric] normalizeWhitespace_def) (metis collapse_words)
  note collapsed = this
  show ?thesis unfolding w_def [symmetric]
  proof (cases "CHR '':'' \<in> set w")
    case False
    then have "\<not> w = p @ '':'' @ Local name" for p by (metis append_Cons in_set_conv_decomp)
    with False show "instanceQName node v = (name, True) \<longleftrightarrow> boundName node w name"
      by (cases name) (auto simp: instanceQName_def collapsed Let_def validXSDQName_def validXSDNCName_def boundName_def noColonName_def)
  next
    case True
    obtain p l where pl: "takeWhile (\<lambda>ch. ch \<noteq> CHR '':'') w = p" "tl (dropWhile (\<lambda>ch. ch \<noteq> CHR '':'') w) = l" by blast
    then have w: "w = p @ '':'' @ l" using split_colon(1) [OF True] by simp
    have unique: "p' = p \<and> l' = l" if "w = p' @ '':'' @ l'" "CHR '':'' \<notin> set p'" for p' l'
      using split_colon(2) [OF True that] pl by simp
    have "boundName node w name \<longleftrightarrow> noColonName l \<and> noColonName p \<and> Local name = l \<and> Space name \<noteq> [] \<and> nNamespaces node p = Some (Space name)"
    proof
      assume "boundName node w name"
      then obtain p' where "noColonName (Local name)" "noColonName p'" "w = p' @ '':'' @ Local name" "Space name \<noteq> []" "nNamespaces node p' = Some (Space name)"
        using True by (auto simp: boundName_def noColonName_def)
      with unique [of p' "Local name"] show "noColonName l \<and> noColonName p \<and> Local name = l \<and> Space name \<noteq> [] \<and> nNamespaces node p = Some (Space name)"
        by (auto simp: noColonName_def)
    next
      assume "noColonName l \<and> noColonName p \<and> Local name = l \<and> Space name \<noteq> [] \<and> nNamespaces node p = Some (Space name)"
      then show "boundName node w name" unfolding boundName_def using w by blast
    qed
    with True pl show "instanceQName node v = (name, True) \<longleftrightarrow> boundName node w name"
      by (cases name) (auto simp: instanceQName_def collapsed Let_def validXSDQName_def validXSDNCName_def noColonName_def split: option.splits)
  qed
qed

lemma nominates_iff: "nominates node t \<longleftrightarrow> nomination node = Some t"
proof -
  have "nomination node = Some t \<longleftrightarrow> (\<exists>a. find typeAttribute (nAttrs node) = Some a \<and> instanceQName node (aValue a) = (trName t, True) \<and>
      InlineSimple t = None \<and> InlineComplex t = None)"
    by (cases t) (auto simp: nomination_def xsiType_first bind_eq_Some_conv prod_eq_iff split: if_splits)
  then show ?thesis by (auto simp: nominates_def find_first instanceQName_exact)
qed

section \<open>Properties\<close>

text \<open>
  C13: on sound types the memoized derivation test always returns and agrees with derivation: by bases whose
  methods are not blocked, and into a union through any of its member types, also when the union has been
  restricted. It may instead meet a simple type without a meaning; then it advances the assessment epoch and
  caches nothing, and when every sound simple type of the schema has a meaning it never does. The caches stay
  right.
\<close>
theorem type_derivation_exact:
  assumes "cachesOK S {} c" "TypeIdentity_of S r = (d, f)" "TypeIdentity_of S r' = (b, f')" "soundType S d" "soundType S b"
  shows "\<exists>result c'. TypeDerived (2 * metadataDepth S) S blocked d b c = Some (result, c') \<and> cachesOK S {} c' \<and>
    (AssessmentVersion c' = AssessmentVersion c \<longrightarrow> (result \<longleftrightarrow> derivedFrom S blocked d b)) \<and>
    (meaningful S \<longrightarrow> AssessmentVersion c' = AssessmentVersion c)"
proof -
  have "plain d" "plain b" using plain_identity [of S r] plain_identity [of S r'] assms(2,3) by simp_all
  from answersD [OF derivation_ready [OF assms(4) this(1) assms(5) this(2)] assms(1)]
  obtain result c' where "TypeDerived (2 * metadataDepth S) S blocked d b c = Some (result, c')" "derStep S {} c c'"
    "AssessmentVersion c' = AssessmentVersion c \<longrightarrow> (result \<longleftrightarrow> derivedFrom S blocked d b)" .
  then show ?thesis by (auto simp: derStep_def)
qed

lemma empty_cachesOK: "cachesOK S {} NewTypeContext"
  by (simp add: cachesOK_def derInv_def NewTypeContext_def semInv_def)

lemma sample_sound: "soundType sampleSchema (simpleType i)" if "i \<in> {0, 1, 2}"
proof -
  have "map_option fst (ValidTypeMetadata (metadataDepth sampleSchema) sampleSchema (simpleType 0) NewTypeContext) = Some True"
    "map_option fst (ValidTypeMetadata (metadataDepth sampleSchema) sampleSchema (simpleType 1) NewTypeContext) = Some True"
    "map_option fst (ValidTypeMetadata (metadataDepth sampleSchema) sampleSchema (simpleType 2) NewTypeContext) = Some True"
    by code_simp+
  moreover have "plain (simpleType i)" for i by (simp add: plain_def simpleType_def)
  ultimately show ?thesis
    using that ValidTypeMetadata_exact [OF room_bound, of "simpleType i" "{}" sampleSchema] empty_metaInv [of sampleSchema]
    unfolding decides_def by fastforce
qed

text \<open>The list derives from the restricted union it is a member of.\<close>

theorem type_derivation_exact_witness:
  "derivedFrom sampleSchema 0 (simpleType 0) (simpleType 2)"
proof -
  have "map_option (\<lambda>(r, c). (r, AssessmentVersion c)) (TypeDerived (2 * metadataDepth sampleSchema) sampleSchema 0 (simpleType 0) (simpleType 2) NewTypeContext) = Some (True, 0)"
    by code_simp
  then show ?thesis
    using type_derivation_exact [OF empty_cachesOK simpleRef_identity simpleRef_identity sample_sound sample_sound, of 0 2 0]
    by (auto simp: NewTypeContext_def)
qed

text \<open>
  C12: the type an element is assessed with. Without an xsi:type attribute it is the declared type and nothing is
  recorded. With it, the type the first such attribute names is used only when its name is bound, both types resolve and
  are sound, and the nominated one derives from the declared one by methods that neither the element declaration nor,
  between complex types, the declared type blocks. Otherwise the declared type is used, with either one issue at the
  attribute or an incomplete assessment on record; this happens to a permitted nomination only in a schema with a sound
  simple type that has no meaning. The caches stay right.
\<close>
theorem xsi_type_exact:
  assumes "contextOK S c"
  shows "\<exists>t ok c'. ActualElementType S node decl block path c = Some ((t, ok), c') \<and> contextOK S c' \<and>
    (\<not> xsiTyped node \<longrightarrow> t = decl \<and> ok \<and> c' = c) \<and>
    (ok \<and> xsiTyped node \<longrightarrow> nominates node t \<and> permitted S block t decl \<and> Issues c' = Issues c) \<and>
    (\<not> ok \<longrightarrow> t = decl \<and> (AssessmentVersion c < AssessmentVersion c' \<or> (\<exists>msg. Issues c' = Issues c @ [typeIssue path msg])) \<and>
       \<not> (meaningful S \<and> (\<exists>t. nominates node t \<and> permitted S block t decl)))"
proof (cases "xsiType (nAttrs node)")
  case None
  then show ?thesis using assms by (auto simp: ActualElementType_def ret_def xsiTyped_iff)
next
  case (Some v)
  from ActualElementType_judged [OF assms this, of decl block path] obtain t ok c' where
    r: "ActualElementType S node decl block path c = Some ((t, ok), c')" "judged S block path decl (nomination node) c ((t, ok), c')"
    by (metis prod_cases3 prod.collapse)
  then show ?thesis
    by (intro exI [of _ t] exI [of _ ok] exI [of _ c'])
      (use Some in \<open>auto simp: judged_def xsiTyped_iff nominates_iff permitted_iff split: if_splits\<close>)
qed

text \<open>An element declared as \<open>xs:token\<close> that nominates \<open>xs:ID\<close>, and one that nominates a type \<open>xs:i\<close>.\<close>

definition sampleNode :: "string \<Rightarrow> Node" where
  "sampleNode value = \<lparr> nNamespaces = [''x'' \<mapsto> XSDNamespace],
     nAttrs = [\<lparr> aName = \<lparr> Space = XSINamespace, Local = ''type'' \<rparr>, aValue = value, aNamespaceDeclaration = False \<rparr>] \<rparr>"

definition builtinRef :: "string \<Rightarrow> TypeRef" where
  "builtinRef name = \<lparr> trName = \<lparr> Space = XSDNamespace, Local = name \<rparr>, InlineSimple = None, InlineComplex = None \<rparr>"

lemma empty_contextOK: "contextOK S NewTypeContext"
  by (simp add: contextOK_def empty_metaInv empty_cachesOK)

lemma collapse_ascii:
  assumes "\<forall>c \<in> set s. byte c < 128 \<and> \<not> IsWhitespace (byte c)"
  shows "collapseWhitespace s = s"
proof -
  have "collapseLoop (map byte s) b False = s" for b
    using assms by (induction s arbitrary: b) (auto simp: encodeRune_def scalar_rune_def)
  then show ?thesis using assms by (simp add: collapseWhitespace_def runes_ascii)
qed

lemma sample_nomination:
  "instanceQName (sampleNode value) ''x:ID'' = (\<lparr> Space = XSDNamespace, Local = ''ID'' \<rparr>, True)"
  "instanceQName (sampleNode value) ''x:i'' = (\<lparr> Space = XSDNamespace, Local = ''i'' \<rparr>, True)"
proof -
  have collapse: "collapseWhitespace ''x:ID'' = ''x:ID''" "collapseWhitespace ''x:i'' = ''x:i''"
    by (simp_all add: collapse_ascii IsWhitespace_def XMLWhitespace_def)
  have valid: "validXSDQName ''x:ID''" "validXSDQName ''x:i''"
    by (simp_all add: validXSDQName_def validXSDNCName_def validXSDName_def validUTF8_ascii runes_ascii XMLNameStartCharacters_def XMLNameCharacters_def
        inRanges_def XSDBaseCharCharacters_def Let_def del: runes.simps validUTF8.simps)
  show "instanceQName (sampleNode value) ''x:ID'' = (\<lparr> Space = XSDNamespace, Local = ''ID'' \<rparr>, True)"
    "instanceQName (sampleNode value) ''x:i'' = (\<lparr> Space = XSDNamespace, Local = ''i'' \<rparr>, True)"
    using valid by (simp_all add: instanceQName_def normalizeWhitespace_def collapse sampleNode_def XSDNamespace_def)
qed

theorem xsi_type_exact_witness:
  "permitted sampleSchema 0 (builtinRef ''ID'') (builtinRef ''token'') \<and>
   (\<exists>c' msg. ActualElementType sampleSchema (sampleNode ''x:i'') (builtinRef ''token'') 0 ''/a'' NewTypeContext = Some ((builtinRef ''token'', False), c') \<and>
     Issues c' = [typeIssue ''/a'' msg])"
proof -
  note exact = xsi_type_exact [OF empty_contextOK, where S = sampleSchema and decl = "builtinRef ''token''" and block = 0 and path = "''/a''"]
  have xsi: "xsiType (nAttrs (sampleNode v)) = Some v" for v by (simp add: sampleNode_def xsiType_def)
  have "map_option fst (nominate sampleSchema (builtinRef ''ID'') (BuiltinType ''ID'') (builtinRef ''token'') (BuiltinType ''token'') 0 p NewTypeContext) =
      Some (builtinRef ''ID'', True)" for p by code_simp
  moreover have "TypeIdentity_of sampleSchema (Some (builtinRef ''ID'')) = (BuiltinType ''ID'', True)"
    "TypeIdentity_of sampleSchema (Some (builtinRef ''token'')) = (BuiltinType ''token'', True)"
    "TypeIdentity_of sampleSchema (Some (builtinRef ''i'')) = (BuiltinType ''i'', False)" by code_simp+
  ultimately have "map_option fst (ActualElementType sampleSchema (sampleNode ''x:ID'') (builtinRef ''token'') 0 ''/a'' NewTypeContext) = Some (builtinRef ''ID'', True)"
    "map_option (\<lambda>(r, c). (r, AssessmentVersion c)) (ActualElementType sampleSchema (sampleNode ''x:i'') (builtinRef ''token'') 0 ''/a'' NewTypeContext) = Some ((builtinRef ''token'', False), 0)"
    using sample_nomination xsi
    by (simp_all add: ActualElementType_def Let_def builtinRef_def AddIssue_def sampleSchema_def bnd_def upd_def ret_def NewTypeContext_def)
  then show ?thesis
    using exact [of "sampleNode ''x:ID''"] exact [of "sampleNode ''x:i''"] xsi by (auto simp: NewTypeContext_def xsiTyped_iff)
qed

end
