(* ===== verification/Xsd_Effective.thy ===== *)
theory Xsd_Effective
  imports Xsd_Types Xsd_Particles
begin

text \<open>
  Effective complex types (\<open>EffectiveComplex\<close> and \<open>sequence\<close> of \<^verbatim>\<open>internal/xsd/kernel.go\<close>): what a complex type has
  after everything it inherits along its derivation is composed. The composition allocates a particle for the
  content of an extension and a copy of a restricted scalar layer, so the two heaps are part of the state,
  with the cache in which nil marks a pending or failed type. The fields of a complex definition that
  \<open>ComplexSchema\<close> leaves out are a second record at the same index. A pointer to an inline simple definition is
  dereferenced through the scalar heap of the state.
\<close>

section \<open>Data\<close>

record ValueConstraint =
  vcKind :: string
  vcValue :: string

datatype AttributeUse = AttributeOptional | AttributeRequired | AttributeProhibited | AttributeUseOther string

record AttributeDeclaration = AttributeSchema +
  adType :: TypeRef
  adUse :: AttributeUse
  adConstraint :: "ValueConstraint option"

record ComplexContent =
  ccAbstract :: bool
  ccSimpleContent :: "nat option"
  ccParticle :: "nat option"
  ccAttributes :: "AttributeDeclaration list"
  ccAnyAttribute :: "AnySchema option"
  ccMixed :: bool

record EffectiveComplex =
  ecParticle :: "nat option"
  ecAttributes :: "AttributeDeclaration list"
  ecAnyAttribute :: "AnySchema option"
  ecSimple :: "TypeRef option"
  ecMixed :: bool
  ecAnyAttributeUnavailable :: bool

text \<open>The schema with the content of its complex types, and the URI check of wildcard tokens.\<close>

record contentData =
  cdSchema :: schemaData
  cdContents :: "ComplexContent list"
  cdUri :: "string \<Rightarrow> bool"

record EffectiveContext =
  xSimples :: "SimpleSchema list"
  xParticles :: "ParticleSchema list"
  xEffective :: "nat \<rightharpoonup> EffectiveComplex option"

type_synonym 'a eact = "(EffectiveContext, 'a) action"

definition contentOf :: "contentData \<Rightarrow> nat \<Rightarrow> ComplexContent" where
  "contentOf D j = (if j < length (cdContents D) then cdContents D ! j
     else \<lparr> ccAbstract = False, ccSimpleContent = None, ccParticle = None, ccAttributes = [], ccAnyAttribute = None, ccMixed = False \<rparr>)"

section \<open>Operations\<close>

definition newParticle :: "ParticleSchema \<Rightarrow> nat eact" where
  "newParticle q = bnd (get (\<lambda>x. length (xParticles x))) (\<lambda>n. bnd (upd (xParticles_update (\<lambda>h. h @ [q]))) (\<lambda>_. ret n))"

definition newSimple :: "SimpleSchema \<Rightarrow> nat eact" where
  "newSimple s = bnd (get (\<lambda>x. length (xSimples x))) (\<lambda>n. bnd (upd (xSimples_update (\<lambda>h. h @ [s]))) (\<lambda>_. ret n))"

definition sequenceParticle :: "nat \<Rightarrow> nat \<Rightarrow> ParticleSchema" where
  "sequenceParticle l r = \<lparr> pKind = ParticleSequence, pOccurrence = \<lparr> oMin = 1, oMax = 1, oUnbounded = False \<rparr>,
     pElement = None, pChildren = [l, r], pAny = None \<rparr>"

definition sequence :: "nat option \<Rightarrow> nat option \<Rightarrow> nat option eact" where
  "sequence left right =
     (case left of
        None \<Rightarrow> ret right
      | Some l \<Rightarrow>
          (case right of
             None \<Rightarrow> ret left
           | Some r \<Rightarrow>
               bnd (newParticle (sequenceParticle l r)) (\<lambda>p. ret (Some p))))"

text \<open>The restriction layer over the inherited scalar; a layer without a base is bound in a copy.\<close>

definition boundLayer :: "SimpleSchema \<Rightarrow> TypeRef \<Rightarrow> SimpleSchema" where
  "boundLayer own scalar =
     (if sBase own = None then own\<lparr>sBase := Some \<lparr> smName = trName scalar, smInline = InlineSimple scalar \<rparr>\<rparr> else own)"

definition layerRef :: "nat \<Rightarrow> TypeRef" where
  "layerRef l = \<lparr> trName = \<lparr> Space = [], Local = [] \<rparr>, InlineSimple = Some l, InlineComplex = None \<rparr>"

definition scalarLayer :: "contentData \<Rightarrow> nat \<Rightarrow> TypeRef \<Rightarrow> TypeRef eact" where
  "scalarLayer D i scalar =
     bnd (get (\<lambda>x. simpleOf ((cdSchema D)\<lparr>simples := xSimples x\<rparr>) i)) (\<lambda>own.
     bnd (newSimple (boundLayer own scalar)) (\<lambda>l. ret (layerRef l)))"

definition startEffective :: "ComplexContent \<Rightarrow> EffectiveComplex" where
  "startEffective c = \<lparr> ecParticle = ccParticle c, ecAttributes = ccAttributes c, ecAnyAttribute = ccAnyAttribute c,
     ecSimple = None, ecMixed = ccMixed c, ecAnyAttributeUnavailable = False \<rparr>"

definition inheritAttributes :: "EffectiveComplex \<Rightarrow> EffectiveComplex \<Rightarrow> EffectiveComplex" where
  "inheritAttributes base result = result\<lparr>ecAttributes := mergeAttributes (ecAttributes base) (ecAttributes result)\<rparr>"

definition inheritAnyAttribute :: "contentData \<Rightarrow> EffectiveComplex \<Rightarrow> EffectiveComplex \<Rightarrow> EffectiveComplex" where
  "inheritAnyAttribute D base result =
     (case mergeAnyAttribute (cdUri D) (ecAnyAttribute base) (ecAnyAttribute result) of (any, unavailable) \<Rightarrow>
        result\<lparr>ecAnyAttribute := any, ecAnyAttributeUnavailable := unavailable \<or> ecAnyAttributeUnavailable base\<rparr>)"

definition inheritMixed :: "EffectiveComplex \<Rightarrow> EffectiveComplex \<Rightarrow> EffectiveComplex" where
  "inheritMixed base result = result\<lparr>ecMixed := ecMixed result \<or> ecMixed base\<rparr>"

definition simpleContentBase :: "contentData \<Rightarrow> (nat \<Rightarrow> EffectiveComplex option eact) \<Rightarrow> ComplexSchema \<Rightarrow> EffectiveComplex \<Rightarrow> EffectiveComplex option eact" where
  "simpleContentBase D effective s result =
     (if cBase s = None then ret None
      else case ResolveType (cdSchema D) (cBase s) of (simple, baseComplex, builtin, found) \<Rightarrow>
        if \<not> found then ret None
        else if simple \<noteq> None \<or> builtin \<noteq> [] then ret (Some (result\<lparr>ecSimple := cBase s\<rparr>))
        else (case baseComplex of
            None \<Rightarrow> ret None
          | Some k \<Rightarrow>
              bnd (effective k) (\<lambda>r. case r of
                  None \<Rightarrow> ret None
                | Some base \<Rightarrow>
                    if ecSimple base = None then ret None
                    else let inherited = inheritAttributes base (result\<lparr>ecSimple := ecSimple base\<rparr>);
                      extended = (if cForm s = ComplexSimpleContentExtension then inheritAnyAttribute D base inherited else inherited)
                      in ret (Some (inheritMixed base extended)))))"

definition finishScalar :: "contentData \<Rightarrow> ComplexSchema \<Rightarrow> ComplexContent \<Rightarrow> EffectiveComplex \<Rightarrow> EffectiveComplex option eact" where
  "finishScalar D s c result =
     (case (cForm s, ccSimpleContent c, ecSimple result) of
        (ComplexSimpleContentRestriction, Some i, Some scalar) \<Rightarrow>
          bnd (scalarLayer D i scalar) (\<lambda>ref. ret (Some (result\<lparr>ecSimple := Some ref\<rparr>)))
      | _ \<Rightarrow> ret (Some result))"

definition simpleContent :: "contentData \<Rightarrow> (nat \<Rightarrow> EffectiveComplex option eact) \<Rightarrow> ComplexSchema \<Rightarrow> ComplexContent \<Rightarrow> EffectiveComplex option eact" where
  "simpleContent D effective s c =
     bnd (simpleContentBase D effective s (startEffective c)) (\<lambda>r. case r of
         None \<Rightarrow> ret None
       | Some result \<Rightarrow> finishScalar D s c result)"

definition complexExtension :: "contentData \<Rightarrow> (nat \<Rightarrow> EffectiveComplex option eact) \<Rightarrow> ComplexSchema \<Rightarrow> ComplexContent \<Rightarrow> EffectiveComplex option eact" where
  "complexExtension D effective s c =
     (if cBase s = None then ret None
      else case ResolveType (cdSchema D) (cBase s) of
        (_, Some k, _, True) \<Rightarrow>
          bnd (effective k) (\<lambda>r. case r of
              None \<Rightarrow> ret None
            | Some base \<Rightarrow>
                if ecSimple base \<noteq> None then ret None
                else bnd (sequence (ecParticle base) (ccParticle c)) (\<lambda>p.
                  ret (Some (inheritMixed base (inheritAnyAttribute D base
                    (inheritAttributes base ((startEffective c)\<lparr>ecParticle := p\<rparr>)))))))
      | _ \<Rightarrow> ret None)"

definition complexRestriction :: "contentData \<Rightarrow> (nat \<Rightarrow> EffectiveComplex option eact) \<Rightarrow> ComplexSchema \<Rightarrow> ComplexContent \<Rightarrow> EffectiveComplex option eact" where
  "complexRestriction D effective s c =
     (case ResolveType (cdSchema D) (cBase s) of (_, baseComplex, builtin, found) \<Rightarrow>
        if \<not> found then ret None
        else if builtin = ''anyType'' then ret (Some (startEffective c))
        else (case baseComplex of
            None \<Rightarrow> ret None
          | Some k \<Rightarrow> bnd (effective k) (\<lambda>r. ret (map_option (\<lambda>base. inheritAttributes base (startEffective c)) r))))"

definition effectiveBody :: "contentData \<Rightarrow> (nat \<Rightarrow> EffectiveComplex option eact) \<Rightarrow> nat \<Rightarrow> EffectiveComplex option eact" where
  "effectiveBody D effective j =
     (let s = complexOf (cdSchema D) j; c = contentOf D j in
      case cForm s of
        ComplexDirect \<Rightarrow> ret (Some (startEffective c))
      | ComplexSimpleContentExtension \<Rightarrow> simpleContent D effective s c
      | ComplexSimpleContentRestriction \<Rightarrow> simpleContent D effective s c
      | ComplexComplexContentExtension \<Rightarrow> complexExtension D effective s c
      | ComplexComplexContentRestriction \<Rightarrow> complexRestriction D effective s c
      | ComplexOther _ \<Rightarrow> ret None)"

primrec EffectiveComplex_of :: "nat \<Rightarrow> contentData \<Rightarrow> nat \<Rightarrow> EffectiveComplex option eact" where
  "EffectiveComplex_of 0 D j = panic"
| "EffectiveComplex_of (Suc n) D j =
     bnd (get xEffective) (\<lambda>M. case M j of
         Some cached \<Rightarrow> ret cached
       | None \<Rightarrow>
           bnd (upd (xEffective_update (\<lambda>M. M(j \<mapsto> None)))) (\<lambda>_.
           bnd (effectiveBody D (EffectiveComplex_of n D) j) (\<lambda>r.
           bnd (if r = None then ret () else upd (xEffective_update (\<lambda>M. M(j \<mapsto> r)))) (\<lambda>_. ret r))))"

definition effectiveDepth :: "contentData \<Rightarrow> nat" where
  "effectiveDepth D = length (complexes (cdSchema D)) + 2"

definition NewEffectiveContext :: "schemaData \<Rightarrow> ParticleSchema list \<Rightarrow> EffectiveContext" where
  "NewEffectiveContext S particles = \<lparr> xSimples = simples S, xParticles = particles, xEffective = \<lambda>_. None \<rparr>"

end
