(* ===== verification/Xsd_Composition.thy ===== *)
theory Xsd_Composition
  imports Xsd_Effective Xsd_Content Go_Graphs
begin

text \<open>
  The composition of effective complex types is exact: what a type has along its derivation, how the heaps
  represent it, that the cached recursion ends on every schema and finds it, and which contents the composed
  particle accepts.
\<close>

section \<open>What a complex type has\<close>

text \<open>
  The composition on its own terms: attribute declarations by name, the particles of the content in order,
  and the scalar as its simple base with the restriction layers over it.
\<close>

record effectiveSpec =
  spAttributes :: "QName \<rightharpoonup> AttributeDeclaration"
  spAny :: "AnySchema option"
  spUnavailable :: bool
  spMixed :: bool
  spContent :: "nat list"
  spScalar :: "(TypeRef \<times> nat list) option"

definition ownSpec :: "ComplexContent \<Rightarrow> effectiveSpec" where
  "ownSpec c = \<lparr> spAttributes = declared (ccAttributes c), spAny = ccAnyAttribute c, spUnavailable = False, spMixed = ccMixed c,
     spContent = (case ccParticle c of None \<Rightarrow> [] | Some p \<Rightarrow> [p]), spScalar = None \<rparr>"

definition layersOf :: "ComplexSchema \<Rightarrow> ComplexContent \<Rightarrow> nat list" where
  "layersOf s c = (if cForm s = ComplexSimpleContentRestriction then (case ccSimpleContent c of None \<Rightarrow> [] | Some i \<Rightarrow> [i]) else [])"

text \<open>The complex type a definition composes with, if any.\<close>

definition complexBase :: "contentData \<Rightarrow> nat \<Rightarrow> nat option" where
  "complexBase D j =
     (case ResolveType (cdSchema D) (cBase (complexOf (cdSchema D) j)) of (simple, baseComplex, builtin, found) \<Rightarrow>
        case cForm (complexOf (cdSchema D) j) of
          ComplexSimpleContentExtension \<Rightarrow> if found \<and> simple = None \<and> builtin = [] then baseComplex else None
        | ComplexSimpleContentRestriction \<Rightarrow> if found \<and> simple = None \<and> builtin = [] then baseComplex else None
        | ComplexComplexContentExtension \<Rightarrow> if found then baseComplex else None
        | ComplexComplexContentRestriction \<Rightarrow> if found \<and> builtin \<noteq> ''anyType'' then baseComplex else None
        | _ \<Rightarrow> None)"

definition rootSpec :: "contentData \<Rightarrow> nat \<Rightarrow> effectiveSpec option" where
  "rootSpec D j =
     (let s = complexOf (cdSchema D) j; c = contentOf D j in
      case ResolveType (cdSchema D) (cBase s) of (simple, baseComplex, builtin, found) \<Rightarrow>
        if cForm s = ComplexDirect \<or> cForm s = ComplexComplexContentRestriction \<and> found \<and> builtin = ''anyType'' then Some (ownSpec c)
        else if cForm s \<in> {ComplexSimpleContentExtension, ComplexSimpleContentRestriction} \<and> found \<and> (simple \<noteq> None \<or> builtin \<noteq> [])
        then Some ((ownSpec c)\<lparr>spScalar := Some (the (cBase s), layersOf s c)\<rparr>)
        else None)"

definition overrides :: "effectiveSpec \<Rightarrow> effectiveSpec \<Rightarrow> effectiveSpec" where
  "overrides b sp = sp\<lparr>spAttributes := spAttributes b ++ spAttributes sp\<rparr>"

definition widens :: "contentData \<Rightarrow> effectiveSpec \<Rightarrow> effectiveSpec \<Rightarrow> effectiveSpec" where
  "widens D b sp = (case mergeAnyAttribute (cdUri D) (spAny b) (spAny sp) of (any, unavailable) \<Rightarrow>
     sp\<lparr>spAny := any, spUnavailable := unavailable \<or> spUnavailable b\<rparr>)"

definition mixes :: "effectiveSpec \<Rightarrow> effectiveSpec \<Rightarrow> effectiveSpec" where
  "mixes b sp = sp\<lparr>spMixed := spMixed sp \<or> spMixed b\<rparr>"

definition derivedSpec :: "contentData \<Rightarrow> nat \<Rightarrow> effectiveSpec \<Rightarrow> effectiveSpec option" where
  "derivedSpec D j b =
     (let s = complexOf (cdSchema D) j; c = contentOf D j; own = ownSpec c in
      case cForm s of
        ComplexSimpleContentExtension \<Rightarrow>
          map_option (\<lambda>scalar. mixes b (widens D b (overrides b (own\<lparr>spScalar := Some scalar\<rparr>)))) (spScalar b)
      | ComplexSimpleContentRestriction \<Rightarrow>
          map_option (\<lambda>(ref, layers). mixes b (overrides b (own\<lparr>spScalar := Some (ref, layers @ layersOf s c)\<rparr>))) (spScalar b)
      | ComplexComplexContentExtension \<Rightarrow>
          if spScalar b \<noteq> None then None
          else Some (mixes b (widens D b (overrides b (own\<lparr>spContent := spContent b @ spContent own\<rparr>))))
      | ComplexComplexContentRestriction \<Rightarrow> Some (overrides b own)
      | _ \<Rightarrow> None)"

inductive effective :: "contentData \<Rightarrow> nat \<Rightarrow> effectiveSpec \<Rightarrow> bool" for D where
  e_root: "complexBase D j = None \<Longrightarrow> rootSpec D j = Some sp \<Longrightarrow> effective D j sp"
| e_derived: "complexBase D j = Some k \<Longrightarrow> effective D k b \<Longrightarrow> derivedSpec D j b = Some sp \<Longrightarrow> effective D j sp"

inductive_cases effectiveE: "effective D j sp"

lemma effective_root: "complexBase D j = None \<Longrightarrow> effective D j sp \<longleftrightarrow> rootSpec D j = Some sp"
  by (auto elim: effectiveE intro: e_root)

lemma effective_derived:
  "complexBase D j = Some k \<Longrightarrow> effective D j sp \<longleftrightarrow> (\<exists>b. effective D k b \<and> derivedSpec D j b = Some sp)"
  by (rule iffI, erule effectiveE) (auto intro: e_derived)

lemma effective_unique: "effective D j sp \<Longrightarrow> effective D j sp' \<Longrightarrow> sp = sp'"
proof (induction arbitrary: sp' rule: effective.induct)
  case (e_derived j k b sp)
  from e_derived.prems obtain b' where "effective D k b'" "derivedSpec D j b' = Some sp'"
    using effective_derived [OF e_derived.hyps(1)] by blast
  with e_derived.IH e_derived.hyps(3) show ?case by force
qed (simp add: effective_root)

lemma no_effective:
  "complexBase D j = Some k \<Longrightarrow> effective D k b \<Longrightarrow> derivedSpec D j b = None \<Longrightarrow> \<not> effective D j sp"
  by (metis effective_derived effective_unique option.distinct(1))

definition baseEdges :: "contentData \<Rightarrow> (nat \<times> nat) set" where
  "baseEdges D = {(j, k). complexBase D j = Some k}"

definition composed :: "contentData \<Rightarrow> nat \<Rightarrow> bool" where
  "composed D j \<longleftrightarrow> (\<exists>sp. effective D j sp)"

text \<open>A type that has an effective type derives from a root in finitely many steps.\<close>

interpretation bases: descent "baseEdges D" "composed D" for D
proof
  show "v \<in> Wellfounded.acc ((baseEdges D)\<inverse>)" if v: "composed D v" for v
  proof -
    obtain sp where "effective D v sp" using v by (auto simp: composed_def)
    then show ?thesis
    proof (induction rule: effective.induct)
      case (e_root j sp)
      then show ?case by (intro accI [of j]) (simp add: baseEdges_def)
    next
      case (e_derived j k b sp)
      show ?case by (rule accI) (use e_derived in \<open>auto simp: baseEdges_def\<close>)
    qed
  qed
  show "composed D u" if "composed D v" "(v, u) \<in> baseEdges D" for v u
    using that by (auto simp: composed_def baseEdges_def effective_derived)
qed

section \<open>Representation\<close>

text \<open>How a composed type stands in the heaps: a chain of sequences, and a chain of bound layers.\<close>

inductive contentRep :: "ParticleSchema list \<Rightarrow> nat option \<Rightarrow> nat list \<Rightarrow> bool" for h where
  c_none: "contentRep h None []"
| c_one: "contentRep h (Some p) [p]"
| c_more: "contentRep h (Some l) ps \<Longrightarrow> p < length h \<Longrightarrow> h ! p = sequenceParticle l r \<Longrightarrow> contentRep h (Some p) (ps @ [r])"

inductive scalarRep :: "schemaData \<Rightarrow> SimpleSchema list \<Rightarrow> TypeRef \<Rightarrow> TypeRef \<times> nat list \<Rightarrow> bool" for S h where
  s_base: "scalarRep S h ref (ref, [])"
| s_layer: "scalarRep S h scalar (ref, layers) \<Longrightarrow> l < length h \<Longrightarrow> h ! l = boundLayer (simpleOf S i) scalar \<Longrightarrow>
    scalarRep S h (layerRef l) (ref, layers @ [i])"

definition represents :: "contentData \<Rightarrow> EffectiveContext \<Rightarrow> EffectiveComplex \<Rightarrow> effectiveSpec \<Rightarrow> bool" where
  "represents D x r sp \<longleftrightarrow> distinct (map AttributeSchema.aName (ecAttributes r)) \<and> declared (ecAttributes r) = spAttributes sp \<and>
     ecAnyAttribute r = spAny sp \<and> ecAnyAttributeUnavailable r = spUnavailable sp \<and> ecMixed r = spMixed sp \<and>
     contentRep (xParticles x) (ecParticle r) (spContent sp) \<and>
     (case spScalar sp of None \<Rightarrow> ecSimple r = None
      | Some chain \<Rightarrow> \<exists>ref. ecSimple r = Some ref \<and> scalarRep (cdSchema D) (xSimples x) ref chain)"

definition grownFrom :: "EffectiveContext \<Rightarrow> EffectiveContext \<Rightarrow> bool" where
  "grownFrom x x' \<longleftrightarrow> (\<exists>z. xParticles x' = xParticles x @ z) \<and> (\<exists>z. xSimples x' = xSimples x @ z)"

lemma grownFrom_refl [simp]: "grownFrom x x" by (simp add: grownFrom_def)

lemma grownFrom_trans: "grownFrom x y \<Longrightarrow> grownFrom y z \<Longrightarrow> grownFrom x z"
  by (auto simp: grownFrom_def)

lemma contentRep_grown: "contentRep h p ps \<Longrightarrow> contentRep (h @ z) p ps"
  by (induction rule: contentRep.induct) (auto intro: contentRep.intros simp: nth_append)

lemma scalarRep_grown: "scalarRep S h ref c \<Longrightarrow> scalarRep S (h @ z) ref c"
  by (induction rule: scalarRep.induct) (auto intro: scalarRep.intros simp: nth_append)

lemma represents_grown: "represents D x r sp \<Longrightarrow> grownFrom x x' \<Longrightarrow> represents D x' r sp"
  by (auto simp: represents_def grownFrom_def contentRep_grown split: option.splits intro: scalarRep_grown)

text \<open>The well-formedness of the definitions and the invariant of the cache, with the pending types.\<close>

definition definitionsOK :: "contentData \<Rightarrow> bool" where
  "definitionsOK D \<longleftrightarrow> (\<forall>c \<in> set (cdContents D). distinct (map AttributeSchema.aName (ccAttributes c)) \<and>
     (\<forall>i. ccSimpleContent c = Some i \<longrightarrow> i < length (simples (cdSchema D))))"

definition outcome :: "contentData \<Rightarrow> EffectiveContext \<Rightarrow> nat \<Rightarrow> EffectiveComplex option \<Rightarrow> bool" where
  "outcome D x j r \<longleftrightarrow> (case r of None \<Rightarrow> \<not> composed D j | Some e \<Rightarrow> \<exists>sp. effective D j sp \<and> represents D x e sp)"

definition effectsOK :: "contentData \<Rightarrow> ParticleSchema list \<Rightarrow> nat set \<Rightarrow> EffectiveContext \<Rightarrow> bool" where
  "effectsOK D P A x \<longleftrightarrow> grownFrom (NewEffectiveContext (cdSchema D) P) x \<and>
     (\<forall>j r. xEffective x j = Some r \<longrightarrow> (r = None \<and> j \<in> A) \<or> outcome D x j r)"

lemma outcome_grown: "outcome D x j r \<Longrightarrow> grownFrom x x' \<Longrightarrow> outcome D x' j r"
  by (auto simp: outcome_def intro: represents_grown split: option.splits)

lemma effectsOK_grown:
  "effectsOK D P A x \<Longrightarrow> grownFrom x x' \<Longrightarrow> xEffective x' = xEffective x \<Longrightarrow> effectsOK D P A x'"
  unfolding effectsOK_def by (metis grownFrom_trans outcome_grown)

lemma content_distinct: "definitionsOK D \<Longrightarrow> distinct (map AttributeSchema.aName (ccAttributes (contentOf D j)))"
  by (auto simp: definitionsOK_def contentOf_def)

lemma content_scalar: "definitionsOK D \<Longrightarrow> ccSimpleContent (contentOf D j) = Some i \<Longrightarrow> i < length (simples (cdSchema D))"
  by (auto simp: definitionsOK_def contentOf_def split: if_splits)

lemma declared_rev: "distinct (map AttributeSchema.aName xs) \<Longrightarrow> declared (rev xs) = declared xs"
proof
  fix n
  assume d: "distinct (map AttributeSchema.aName xs)"
  then have r: "distinct (map AttributeSchema.aName (rev xs))" by (simp add: rev_map [symmetric])
  have "declared (rev xs) n = Some a \<longleftrightarrow> declared xs n = Some a" for a
    by (simp add: declared_Some_iff [OF d] declared_Some_iff [OF r])
  then show "declared (rev xs) n = declared xs n" by (metis not_None_eq)
qed

lemma merge_override:
  assumes "distinct (map AttributeSchema.aName base)" "distinct (map AttributeSchema.aName derived)"
  shows "distinct (map AttributeSchema.aName (mergeAttributes base derived))"
    and "declared (mergeAttributes base derived) = declared base ++ declared derived"
proof -
  have "indexed base (indexNames base 0 Map.empty)"
    using indexNames_indexed [of "[]" Map.empty base] assms(1) by (simp add: indexed_def)
  from mergeLoop_props [OF this, of derived] declared_rev [OF assms(2)]
  show "distinct (map AttributeSchema.aName (mergeAttributes base derived))"
    and "declared (mergeAttributes base derived) = declared base ++ declared derived"
    unfolding mergeAttributes_def map_add_def by auto
qed

section \<open>The composition is exact\<close>

definition delivers :: "contentData \<Rightarrow> ParticleSchema list \<Rightarrow> nat set \<Rightarrow> EffectiveContext \<Rightarrow> nat \<Rightarrow> EffectiveComplex option eact \<Rightarrow> bool" where
  "delivers D P A x j act \<longleftrightarrow>
     (\<exists>r x'. act x = Some (r, x') \<and> effectsOK D P A x' \<and> grownFrom x x' \<and> outcome D x' j r)"

lemma delivers_ret: "effectsOK D P A x \<Longrightarrow> outcome D x j r \<Longrightarrow> delivers D P A x j (ret r)"
  by (simp add: delivers_def ret_def)

lemma delivers_none: "effectsOK D P A x \<Longrightarrow> \<not> composed D j \<Longrightarrow> delivers D P A x j (ret None)"
  by (simp add: delivers_ret outcome_def)

lemma delivers_some: "effectsOK D P A x \<Longrightarrow> effective D j sp \<Longrightarrow> represents D x e sp \<Longrightarrow> delivers D P A x j (ret (Some e))"
  by (rule delivers_ret) (auto simp: outcome_def)

text \<open>A call for the base, then the rest of the composition on its result.\<close>

lemma delivers_base:
  assumes "delivers D P A x k (f k)" "complexBase D j = Some k"
    and "\<And>x' e b. effectsOK D P A x' \<Longrightarrow> effective D k b \<Longrightarrow> represents D x' e b \<Longrightarrow> delivers D P A x' j (g (Some e))"
    and "g None = ret None"
  shows "delivers D P A x j (bnd (f k) g)"
proof -
  obtain r x' where r: "f k x = Some (r, x')" "effectsOK D P A x'" "grownFrom x x'" "outcome D x' k r"
    using assms(1) by (auto simp: delivers_def)
  have "delivers D P A x' j (g r)"
  proof (cases r)
    case None
    have "\<not> composed D j" using r(4) None assms(2) by (auto simp: outcome_def composed_def effective_derived)
    then show ?thesis unfolding None assms(4) by (rule delivers_none [OF r(2)])
  qed (use r assms(3) in \<open>auto simp: outcome_def\<close>)
  then show ?thesis using r(1,3) by (auto simp: delivers_def bnd_def intro: grownFrom_trans)
qed

lemma represents_start: "definitionsOK D \<Longrightarrow> represents D x (startEffective (contentOf D j)) (ownSpec (contentOf D j))"
  by (auto simp: represents_def startEffective_def ownSpec_def content_distinct intro: contentRep.intros split: option.split)

lemma represents_override:
  "represents D x e b \<Longrightarrow> represents D x r sp \<Longrightarrow> represents D x (inheritAttributes e r) (overrides b sp)"
  by (simp add: represents_def inheritAttributes_def overrides_def merge_override cong: option.case_cong)

lemma represents_widen:
  "represents D x e b \<Longrightarrow> represents D x r sp \<Longrightarrow> represents D x (inheritAnyAttribute D e r) (widens D b sp)"
  by (simp add: represents_def inheritAnyAttribute_def widens_def split: prod.split cong: option.case_cong)

lemma represents_mix: "represents D x e b \<Longrightarrow> represents D x r sp \<Longrightarrow> represents D x (inheritMixed e r) (mixes b sp)"
  by (simp add: represents_def inheritMixed_def mixes_def cong: option.case_cong)

lemma represents_scalar:
  "represents D x r sp \<Longrightarrow> scalarRep (cdSchema D) (xSimples x) ref chain \<Longrightarrow>
   represents D x (r\<lparr>ecSimple := Some ref\<rparr>) (sp\<lparr>spScalar := Some chain\<rparr>)"
  by (simp add: represents_def)

lemmas represents_intros = represents_start represents_override represents_widen represents_mix represents_scalar

text \<open>Allocation of a sequence and of a bound layer.\<close>

inductive_cases contentRep_NoneE: "contentRep h None ps"

lemma sequence_rep:
  assumes "contentRep (xParticles x) left ps"
  shows "\<exists>p x'. sequence left right x = Some (p, x') \<and> grownFrom x x' \<and> xEffective x' = xEffective x \<and>
    contentRep (xParticles x') p (ps @ (case right of None \<Rightarrow> [] | Some r \<Rightarrow> [r]))"
proof (cases left)
  case None
  with assms have "ps = []" by (auto elim: contentRep_NoneE)
  with None show ?thesis by (auto simp: sequence_def ret_def intro: contentRep.intros split: option.split)
next
  case (Some l)
  show ?thesis
  proof (cases right)
    case (Some r)
    let ?h = "xParticles x @ [sequenceParticle l r]"
    have "contentRep ?h (Some (length (xParticles x))) (ps @ [r])"
      by (rule c_more [where l = l]) (use assms \<open>left = Some l\<close> contentRep_grown in auto)
    with Some \<open>left = Some l\<close> show ?thesis by (simp add: sequence_def newParticle_def act_simps grownFrom_def)
  qed (use Some assms in \<open>simp add: sequence_def ret_def\<close>)
qed

lemma scalarLayer_rep:
  assumes "scalarRep (cdSchema D) (xSimples x) scalar (ref, layers)" "i < length (simples (cdSchema D))"
    and "grownFrom (NewEffectiveContext (cdSchema D) P) x"
  shows "\<exists>l x'. scalarLayer D i scalar x = Some (layerRef l, x') \<and> grownFrom x x' \<and> xEffective x' = xEffective x \<and>
    scalarRep (cdSchema D) (xSimples x') (layerRef l) (ref, layers @ [i])"
proof -
  have same: "simpleOf ((cdSchema D)\<lparr>simples := xSimples x\<rparr>) i = simpleOf (cdSchema D) i"
    using assms(2,3) by (auto simp: simpleOf_def grownFrom_def NewEffectiveContext_def nth_append)
  let ?h = "xSimples x @ [boundLayer (simpleOf (cdSchema D) i) scalar]"
  have "scalarRep (cdSchema D) ?h (layerRef (length (xSimples x))) (ref, layers @ [i])"
    by (rule s_layer [where scalar = scalar]) (use assms(1) scalarRep_grown in auto)
  with same show ?thesis by (auto simp: scalarLayer_def newSimple_def act_simps grownFrom_def)
qed

lemma complexExtension_exact:
  assumes "definitionsOK D" "effectsOK D P A x" "cForm (complexOf (cdSchema D) j) = ComplexComplexContentExtension"
    and "\<And>k. complexBase D j = Some k \<Longrightarrow> delivers D P A x k (f k)"
  shows "delivers D P A x j (complexExtension D f (complexOf (cdSchema D) j) (contentOf D j))"
proof -
  let ?s = "complexOf (cdSchema D) j" and ?c = "contentOf D j"
  obtain simple baseComplex builtin found where R: "ResolveType (cdSchema D) (cBase ?s) = (simple, baseComplex, builtin, found)"
    by (metis prod_cases4)
  show ?thesis
  proof (cases "complexBase D j")
    case None
    have "\<not> composed D j" using None by (simp add: composed_def effective_root rootSpec_def R assms(3) Let_def)
    with None show ?thesis using delivers_none [OF assms(2)]
      by (auto simp: complexExtension_def R complexBase_def assms(3) split: option.splits if_splits bool.splits)
  next
    case (Some k)
    then have f: "found" "baseComplex = Some k" "cBase ?s \<noteq> None"
      using R by (auto simp: complexBase_def assms(3) ResolveType_def split: if_splits option.splits)
    let ?g = "\<lambda>r. case r of None \<Rightarrow> ret None | Some base \<Rightarrow> if ecSimple base \<noteq> None then ret None
      else bnd (sequence (ecParticle base) (ccParticle ?c)) (\<lambda>p. ret (Some (inheritMixed base (inheritAnyAttribute D base
        (inheritAttributes base ((startEffective ?c)\<lparr>ecParticle := p\<rparr>))))))"
    have "delivers D P A x j (bnd (f k) ?g)"
    proof (rule delivers_base [where f = f, OF assms(4) [OF Some] Some])
      fix x' e b
      assume a: "effectsOK D P A x'" "effective D k b" "represents D x' e b"
      show "delivers D P A x' j (?g (Some e))"
      proof (cases "ecSimple e")
        case None
        with a(3) have none: "spScalar b = None" by (auto simp: represents_def split: option.splits)
        let ?own = "(ownSpec ?c)\<lparr>spContent := spContent b @ spContent (ownSpec ?c)\<rparr>"
        obtain p x2 where q: "sequence (ecParticle e) (ccParticle ?c) x' = Some (p, x2)" "grownFrom x' x2" "xEffective x2 = xEffective x'"
          "contentRep (xParticles x2) p (spContent b @ spContent (ownSpec ?c))"
          using sequence_rep [of x' "ecParticle e" "spContent b" "ccParticle ?c"] a(3) by (auto simp: represents_def ownSpec_def)
        have e: "effective D j (mixes b (widens D b (overrides b ?own)))"
          by (rule e_derived [OF Some a(2)]) (simp add: derivedSpec_def Let_def none assms(3))
        have "represents D x2 ((startEffective ?c)\<lparr>ecParticle := p\<rparr>) ?own"
          using represents_start [OF assms(1), of x2 j] q(4) by (simp add: represents_def cong: option.case_cong)
        then have "represents D x2 (inheritMixed e (inheritAnyAttribute D e (inheritAttributes e ((startEffective ?c)\<lparr>ecParticle := p\<rparr>))))
            (mixes b (widens D b (overrides b ?own)))"
          using represents_grown [OF a(3) q(2)] by (intro represents_intros)
        with e q None effectsOK_grown [OF a(1) q(2,3)] show ?thesis by (auto simp: delivers_def outcome_def bnd_def ret_def)
      next
        case (Some scalar)
        with a(3) have "spScalar b \<noteq> None" by (auto simp: represents_def split: option.splits)
        then have "\<not> composed D j"
          using no_effective [OF \<open>complexBase D j = Some k\<close> a(2)] assms(3) by (simp add: composed_def derivedSpec_def Let_def)
        with Some delivers_none [OF a(1)] show ?thesis by simp
      qed
    qed simp
    moreover have "complexExtension D f ?s ?c = bnd (f k) ?g" using f by (auto simp: complexExtension_def R)
    ultimately show ?thesis by (simp only:)
  qed
qed

lemma complexRestriction_exact:
  assumes "definitionsOK D" "effectsOK D P A x" "cForm (complexOf (cdSchema D) j) = ComplexComplexContentRestriction"
    and "\<And>k. complexBase D j = Some k \<Longrightarrow> delivers D P A x k (f k)"
  shows "delivers D P A x j (complexRestriction D f (complexOf (cdSchema D) j) (contentOf D j))"
proof -
  obtain simple baseComplex builtin found where R: "ResolveType (cdSchema D) (cBase (complexOf (cdSchema D) j)) = (simple, baseComplex, builtin, found)"
    by (metis prod_cases4)
  note d = complexBase_def R assms(3)
  show ?thesis
  proof (cases "complexBase D j")
    case None
    have "composed D j \<longleftrightarrow> found \<and> builtin = ''anyType''"
      using None by (simp add: composed_def effective_root rootSpec_def R assms(3) Let_def)
    moreover have "effective D j (ownSpec (contentOf D j))" if "found" "builtin = ''anyType''"
      using None that by (simp add: effective_root rootSpec_def R assms(3) Let_def)
    ultimately show ?thesis using None assms(1,2)
      by (auto simp: complexRestriction_def R d delivers_none intro!: delivers_some represents_start split: option.splits if_splits)
  next
    case (Some k)
    then have f: "found" "builtin \<noteq> ''anyType''" "baseComplex = Some k" by (auto simp: d split: if_splits)
    have "delivers D P A x j (bnd (f k) (\<lambda>r. ret (map_option (\<lambda>base. inheritAttributes base (startEffective (contentOf D j))) r)))"
    proof (rule delivers_base [where f = f, OF assms(4) [OF Some] Some])
      fix x' e b
      assume a: "effectsOK D P A x'" "effective D k b" "represents D x' e b"
      then have "effective D j (overrides b (ownSpec (contentOf D j)))" using Some assms(3) by (auto simp: effective_derived derivedSpec_def Let_def)
      from delivers_some [OF a(1) this represents_override [OF a(3) represents_start [OF assms(1)]]]
      show "delivers D P A x' j (ret (map_option (\<lambda>base. inheritAttributes base (startEffective (contentOf D j))) (Some e)))" by simp
    qed simp
    then show ?thesis using f by (simp add: complexRestriction_def R)
  qed
qed

text \<open>The scalar part: the base first, then the layer of a restriction.\<close>

lemma finishScalar_rep:
  assumes "definitionsOK D" "effectsOK D P A x" "represents D x r sp" "spScalar sp = Some (ref, layers)"
    and "effective D j (sp\<lparr>spScalar := Some (ref, layers @ layersOf (complexOf (cdSchema D) j) (contentOf D j))\<rparr>)"
  shows "delivers D P A x j (finishScalar D (complexOf (cdSchema D) j) (contentOf D j) r)"
proof -
  obtain scalar where s: "ecSimple r = Some scalar" "scalarRep (cdSchema D) (xSimples x) scalar (ref, layers)"
    using assms(3,4) by (auto simp: represents_def)
  show ?thesis
  proof (cases "layersOf (complexOf (cdSchema D) j) (contentOf D j)")
    case Nil
    then have "finishScalar D (complexOf (cdSchema D) j) (contentOf D j) r = ret (Some r)"
      by (auto simp: finishScalar_def layersOf_def split: ComplexForm.splits option.splits if_splits)
    with assms(2-5) Nil show ?thesis by (auto intro!: delivers_ret simp: outcome_def) (metis (no_types, lifting) effectiveSpec.surjective effectiveSpec.update_convs(6))
  next
    case (Cons i rest)
    then have i: "ccSimpleContent (contentOf D j) = Some i" "rest = []" "cForm (complexOf (cdSchema D) j) = ComplexSimpleContentRestriction"
      by (auto simp: layersOf_def split: option.splits if_splits)
    obtain l x' where l: "scalarLayer D i scalar x = Some (layerRef l, x')" "grownFrom x x'" "xEffective x' = xEffective x"
      "scalarRep (cdSchema D) (xSimples x') (layerRef l) (ref, layers @ [i])"
      using scalarLayer_rep [OF s(2) content_scalar [OF assms(1) i(1)], of P] assms(2) unfolding effectsOK_def by blast
    from represents_scalar [OF represents_grown [OF assms(3) l(2)] l(4)]
    have "represents D x' (r\<lparr>ecSimple := Some (layerRef l)\<rparr>) (sp\<lparr>spScalar := Some (ref, layers @ [i])\<rparr>)" .
    with assms(5) Cons i s(1) l effectsOK_grown [OF assms(2) l(2,3)] show ?thesis
      by (auto simp: delivers_def outcome_def finishScalar_def bnd_def ret_def)
  qed
qed

lemma simpleContent_exact:
  assumes "definitionsOK D" "effectsOK D P A x"
    and form: "cForm (complexOf (cdSchema D) j) \<in> {ComplexSimpleContentExtension, ComplexSimpleContentRestriction}"
    and "\<And>k. complexBase D j = Some k \<Longrightarrow> delivers D P A x k (f k)"
  shows "delivers D P A x j (simpleContent D f (complexOf (cdSchema D) j) (contentOf D j))"
proof -
  let ?s = "complexOf (cdSchema D) j" and ?c = "contentOf D j"
  obtain simple baseComplex builtin found where R: "ResolveType (cdSchema D) (cBase ?s) = (simple, baseComplex, builtin, found)"
    by (metis prod_cases4)
  have b: "cBase ?s \<noteq> None" if "found" using R that by (auto simp: ResolveType_def split: option.splits)
  show ?thesis
  proof (cases "complexBase D j")
    case None
    show ?thesis
    proof (cases "found \<and> (simple \<noteq> None \<or> builtin \<noteq> [])")
      case True
      then obtain ref where ref: "cBase ?s = Some ref" using b by auto
      let ?sp = "(ownSpec ?c)\<lparr>spScalar := Some (ref, [])\<rparr>"
      have "effective D j (?sp\<lparr>spScalar := Some (ref, [] @ layersOf ?s ?c)\<rparr>)"
        using None True form by (auto simp: effective_root rootSpec_def R [unfolded ref] Let_def ref)
      moreover have "represents D x ((startEffective ?c)\<lparr>ecSimple := Some ref\<rparr>) ?sp"
        by (intro represents_intros s_base assms(1))
      ultimately have "delivers D P A x j (finishScalar D ?s ?c ((startEffective ?c)\<lparr>ecSimple := Some ref\<rparr>))"
        using finishScalar_rep [OF assms(1,2)] by force
      with True ref show ?thesis by (simp add: simpleContent_def simpleContentBase_def R [unfolded ref] bnd_def ret_def delivers_def)
    next
      case False
      then have "\<not> composed D j" using None form by (auto simp: composed_def effective_root rootSpec_def R Let_def)
      with delivers_none [OF assms(2) this] None False form show ?thesis
        by (auto simp: simpleContent_def simpleContentBase_def R complexBase_def bnd_def ret_def delivers_def split: option.splits)
    qed
  next
    case (Some k)
    then have f: "found" "simple = None" "builtin = []" "baseComplex = Some k" "cBase ?s \<noteq> None"
      using R form b by (auto simp: complexBase_def split: if_splits)
    let ?inherit = "\<lambda>base. let inherited = inheritAttributes base ((startEffective ?c)\<lparr>ecSimple := ecSimple base\<rparr>) in
      inheritMixed base (if cForm ?s = ComplexSimpleContentExtension then inheritAnyAttribute D base inherited else inherited)"
    let ?g = "\<lambda>r. case r of None \<Rightarrow> ret None | Some base \<Rightarrow> if ecSimple base = None then ret None else finishScalar D ?s ?c (?inherit base)"
    have "delivers D P A x j (bnd (f k) ?g)"
    proof (rule delivers_base [where f = f, OF assms(4) [OF Some] Some])
      fix x' e b
      assume a: "effectsOK D P A x'" "effective D k b" "represents D x' e b"
      show "delivers D P A x' j (?g (Some e))"
      proof (cases "spScalar b")
        case None
        then have "\<not> composed D j" "ecSimple e = None"
          using no_effective [OF \<open>complexBase D j = Some k\<close> a(2)] form a(3)
          by (auto simp: composed_def derivedSpec_def Let_def represents_def)
        with delivers_none [OF a(1)] show ?thesis by simp
      next
        case (Some chain)
        obtain ref layers where chain: "chain = (ref, layers)" by (cases chain)
        obtain scalar where s: "ecSimple e = Some scalar" "scalarRep (cdSchema D) (xSimples x') scalar (ref, layers)"
          using a(3) Some chain by (auto simp: represents_def)
        let ?own = "overrides b ((ownSpec ?c)\<lparr>spScalar := Some (ref, layers)\<rparr>)"
        let ?sp = "mixes b (if cForm ?s = ComplexSimpleContentExtension then widens D b ?own else ?own)"
        have r: "represents D x' (inheritAttributes e ((startEffective ?c)\<lparr>ecSimple := ecSimple e\<rparr>)) ?own"
          unfolding s(1) by (intro represents_intros a(3) s(2) assms(1))
        then have "represents D x' (?inherit e) ?sp"
          unfolding Let_def by (intro represents_mix a(3)) (simp add: represents_widen [OF a(3)])
        moreover have "spScalar ?sp = Some (ref, layers)" by (auto simp: mixes_def widens_def overrides_def split: prod.splits)
        moreover have "effective D j (?sp\<lparr>spScalar := Some (ref, layers @ layersOf ?s ?c)\<rparr>)"
          using form by (intro e_derived [OF \<open>complexBase D j = Some k\<close> a(2)])
            (auto simp: Some chain derivedSpec_def Let_def mixes_def widens_def overrides_def layersOf_def split: prod.splits)
        ultimately have "delivers D P A x' j (finishScalar D ?s ?c (?inherit e))" by (rule finishScalar_rep [OF assms(1) a(1)])
        with s(1) show ?thesis by simp
      qed
    qed simp
    moreover have "simpleContent D f ?s ?c = bnd (f k) ?g"
      using f by (auto simp: simpleContent_def simpleContentBase_def R bnd_def ret_def Let_def fun_eq_iff split: option.split prod.split)
    ultimately show ?thesis by simp
  qed
qed

lemma effectiveBody_exact:
  assumes "definitionsOK D" "effectsOK D P A x" "\<And>k. complexBase D j = Some k \<Longrightarrow> delivers D P A x k (f k)"
  shows "delivers D P A x j (effectiveBody D f j)"
proof -
  have "represents D x (startEffective (contentOf D j)) (ownSpec (contentOf D j))" using assms(1) by (rule represents_start)
  moreover have "effective D j (ownSpec (contentOf D j))" if "cForm (complexOf (cdSchema D) j) = ComplexDirect"
    using that by (auto intro!: e_root simp: complexBase_def rootSpec_def Let_def split: prod.split)
  moreover have "\<not> composed D j" if "cForm (complexOf (cdSchema D) j) = ComplexOther z" for z
  proof -
    have "complexBase D j = None" "rootSpec D j = None" using that by (auto simp: complexBase_def rootSpec_def Let_def split: prod.split)
    then show ?thesis by (simp add: composed_def effective_root)
  qed
  ultimately show ?thesis
    using assms complexExtension_exact [OF assms(1,2), of j f] complexRestriction_exact [OF assms(1,2), of j f]
      simpleContent_exact [OF assms(1,2), of j f]
    by (auto simp: effectiveBody_def Let_def outcome_def intro!: delivers_ret delivers_none split: ComplexForm.split)
qed

section \<open>The recursion ends\<close>

definition unmarked :: "contentData \<Rightarrow> EffectiveContext \<Rightarrow> nat" where
  "unmarked D x = card {k. k < length (complexes (cdSchema D)) \<and> xEffective x k = None}"

lemma complexBase_range: "complexBase D j = Some k \<Longrightarrow> j < length (complexes (cdSchema D))"
  by (rule ccontr) (auto simp: complexBase_def complexOf_def split: prod.splits)

lemma unmarked_mark:
  assumes "xEffective x j = None" "j < length (complexes (cdSchema D))"
  shows "Suc (unmarked D (x\<lparr>xEffective := (xEffective x)(j \<mapsto> r)\<rparr>)) = unmarked D x"
proof -
  let ?A = "{k. k < length (complexes (cdSchema D)) \<and> xEffective x k = None}"
  have "{k. k < length (complexes (cdSchema D)) \<and> ((xEffective x)(j \<mapsto> r)) k = None} = ?A - {j}" by auto
  moreover have "Suc (card (?A - {j})) = card ?A" using assms by (intro card_Suc_Diff1) auto
  ultimately show ?thesis by (simp add: unmarked_def)
qed

lemma represents_cache [simp]: "represents D (x\<lparr>xEffective := M\<rparr>) r sp = represents D x r sp"
  by (simp add: represents_def cong: option.case_cong)

lemma outcome_cache [simp]: "outcome D (x\<lparr>xEffective := M\<rparr>) j r = outcome D x j r"
  by (simp add: outcome_def cong: option.case_cong)

lemma effectsOK_pending: "effectsOK D P A x \<Longrightarrow> effectsOK D P (insert j A) (x\<lparr>xEffective := (xEffective x)(j \<mapsto> None)\<rparr>)"
  by (auto simp: effectsOK_def grownFrom_def)

lemma effectsOK_settle:
  assumes "effectsOK D P (insert j A) x" "outcome D x j r"
  shows "effectsOK D P A (if r = None then x else x\<lparr>xEffective := (xEffective x)(j \<mapsto> r)\<rparr>)"
proof (cases r)
  case None
  with assms show ?thesis by (auto simp: effectsOK_def)
next
  case (Some e)
  with assms show ?thesis by (auto simp: effectsOK_def grownFrom_def)
qed

lemma cache_update: "xEffective_update (\<lambda>M. M(j \<mapsto> r)) x = x\<lparr>xEffective := (xEffective x)(j \<mapsto> r)\<rparr>"
  by (cases x) simp

lemma EffectiveComplex_delivers:
  "definitionsOK D \<Longrightarrow> effectsOK D P A x \<Longrightarrow> \<forall>a \<in> A. (a, j) \<in> (baseEdges D)\<^sup>+ \<Longrightarrow> unmarked D x + 2 \<le> n \<Longrightarrow>
   delivers D P A x j (EffectiveComplex_of n D j)"
proof (induction n arbitrary: A x j)
  case (Suc n)
  show ?case
  proof (cases "xEffective x j")
    case (Some cached)
    have "\<not> composed D j" if "j \<in> A" using that Suc.prems(3) bases.acyclic_at by blast
    moreover have "cached = None \<and> j \<in> A \<or> outcome D x j cached" using Suc.prems(2) Some unfolding effectsOK_def by blast
    ultimately have "outcome D x j cached" by (auto simp: outcome_def)
    with Suc.prems(2) Some show ?thesis by (simp add: delivers_def act_simps)
  next
    case None
    let ?x = "x\<lparr>xEffective := (xEffective x)(j \<mapsto> None)\<rparr>"
    have ok: "effectsOK D P (insert j A) ?x" by (rule effectsOK_pending) (rule Suc.prems(2))
    have call: "delivers D P (insert j A) ?x k (EffectiveComplex_of n D k)" if b: "complexBase D j = Some k" for k
    proof (rule Suc.IH [OF Suc.prems(1) ok])
      have "(j, k) \<in> baseEdges D" using b by (simp add: baseEdges_def)
      then show "\<forall>a \<in> insert j A. (a, k) \<in> (baseEdges D)\<^sup>+" using Suc.prems(3) by (auto intro: trancl_into_trancl)
      show "unmarked D ?x + 2 \<le> n" using unmarked_mark [OF None complexBase_range [OF b], of "None"] Suc.prems(4) by simp
    qed
    have "delivers D P (insert j A) ?x j (effectiveBody D (EffectiveComplex_of n D) j)"
      by (rule effectiveBody_exact [OF Suc.prems(1) ok call])
    then obtain r x2 where r:
      "effectiveBody D (EffectiveComplex_of n D) j ?x = Some (r, x2)" "effectsOK D P (insert j A) x2" "grownFrom ?x x2" "outcome D x2 j r"
      by (auto simp: delivers_def)
    have "outcome D (if r = None then x2 else x2\<lparr>xEffective := (xEffective x2)(j \<mapsto> r)\<rparr>) j r"
      using r(4) by auto
    moreover have "EffectiveComplex_of (Suc n) D j x = Some (r, if r = None then x2 else x2\<lparr>xEffective := (xEffective x2)(j \<mapsto> r)\<rparr>)"
      using r(1) None by (simp add: act_simps cache_update)
    moreover have "grownFrom x (if r = None then x2 else x2\<lparr>xEffective := (xEffective x2)(j \<mapsto> r)\<rparr>)"
      using r(3) by (simp add: grownFrom_def)
    ultimately show ?thesis using effectsOK_settle [OF r(2,4)] unfolding delivers_def by blast
  qed
qed simp

section \<open>The content of an extension\<close>

lemma follows_append:
  "follows E (cs @ ds) s e w \<longleftrightarrow> (\<exists>m u v. follows E cs s m u \<and> follows E ds m e v \<and> w = u @ v)"
proof (induction cs arbitrary: s w)
  case Nil
  show ?case by (auto elim: follows_NilE intro: f_nil)
next
  case (Cons c cs)
  show ?case (is "?l \<longleftrightarrow> ?r")
  proof
    assume ?l
    then obtain m v w' where "occurs E c s m v" "follows E (cs @ ds) m e w'" "w = v @ w'" by (auto elim: follows_ConsE)
    then show ?r using Cons.IH [of m w'] by (metis append.assoc f_cons)
  next
    assume ?r
    then obtain m u v where "follows E (c # cs) s m u" "follows E ds m e v" "w = u @ v" by blast
    moreover from this(1) obtain m' u1 u2 where "occurs E c s m' u1" "follows E cs m' m u2" "u = u1 @ u2" by (auto elim: follows_ConsE)
    ultimately show ?l using Cons.IH [of m' "u2 @ v"] f_cons [of E c s m' u1] by fastforce
  qed
qed

lemma follows_one: "follows E [p] s e w \<longleftrightarrow> occurs E p s e w"
  using f_cons [of E p s e w "[]" e "[]"] f_nil [of E e] by (auto elim!: follows_ConsE follows_NilE)

lemma occurs_sequence:
  assumes "particleAt E p = Some (sequenceParticle l r)"
  shows "occurs E p s e w \<longleftrightarrow> follows E [l, r] s e w"
proof -
  have "occurs E p s e w \<longleftrightarrow> derives E p s e w"
    using assms o_times [of E p "sequenceParticle l r" 1 s e w] r_more [of E p s e w 0 e "[]"] r_none [of E p e]
    by (auto simp: sequenceParticle_def le_Suc_eq elim!: occursE repeats_SucE repeats_0E)
  also have "\<dots> \<longleftrightarrow> follows E [l, r] s e w" using derives_sequence [OF assms] by (simp add: sequenceParticle_def)
  finally show ?thesis .
qed

lemma contentRep_accepts:
  "contentRep h p ps \<Longrightarrow> h = heap E \<Longrightarrow> (p = None \<longleftrightarrow> ps = []) \<and> (\<forall>q s e w. p = Some q \<longrightarrow> occurs E q s e w \<longleftrightarrow> follows E ps s e w)"
proof (induction rule: contentRep.induct)
  case (c_more l ps p r)
  then have "particleAt E p = Some (sequenceParticle l r)" by (simp add: particleAt_def)
  from occurs_sequence [OF this] have "occurs E p s e w \<longleftrightarrow> (\<exists>m u v. occurs E l s m u \<and> occurs E r m e v \<and> w = u @ v)" for s e w
    using follows_append [of E "[l]" "[r]" s e w] by (simp add: follows_one)
  with c_more show ?case by (simp add: follows_append follows_one)
qed (simp_all add: follows_one)

text \<open>Derivations over particles of a closed part of the heap do not see the rest of it.\<close>

definition closedParticles :: "ParticleSchema list \<Rightarrow> bool" where
  "closedParticles P \<longleftrightarrow> (\<forall>q \<in> set P. \<forall>c \<in> set (pChildren q). c < length P)"

definition agreeBelow :: "nat \<Rightarrow> matchEnv \<Rightarrow> matchEnv \<Rightarrow> bool" where
  "agreeBelow n E E' \<longleftrightarrow> elements E' = elements E \<and> uriOK E' = uriOK E \<and> localRun E' = localRun E \<and> nodes E' = nodes E \<and>
     (\<forall>p < n. particleAt E' p = particleAt E p \<and> (\<forall>q. particleAt E p = Some q \<longrightarrow> (\<forall>c \<in> set (pChildren q). c < n)))"

lemma agreeBelow_sym: "agreeBelow n E E' \<Longrightarrow> agreeBelow n E' E"
  by (simp add: agreeBelow_def)

lemma agree_child: "agreeBelow n E E' \<Longrightarrow> p < n \<Longrightarrow> particleAt E p = Some q \<Longrightarrow> c \<in> set (pChildren q) \<Longrightarrow> c < n"
  by (auto simp: agreeBelow_def)

lemma agree_at: "agreeBelow n E E' \<Longrightarrow> p < n \<Longrightarrow> particleAt E' p = particleAt E p"
  by (auto simp: agreeBelow_def)

lemma agree_decl: "agreeBelow n E E' \<Longrightarrow> ResolveElement E' = ResolveElement E"
  by (simp add: agreeBelow_def ResolveElement_def fun_eq_iff split: option.split)

lemma agree_member:
  assumes "agreeBelow n E E'" "c < n"
  shows "fits E' c i = fits E c i" and "isRequired E' c = isRequired E c" and "declOf E' c = declOf E c"
  using agree_at [OF assms] agree_decl [OF assms(1)] assms(1)
  by (simp_all add: fits_def isActive_def isRequired_def declOf_def agreeBelow_def)

lemma derivations_agree:
  "derives E p s e w \<Longrightarrow> agreeBelow n E E' \<Longrightarrow> p < n \<Longrightarrow> derives E' p s e w"
  "repeats E p k s e w \<Longrightarrow> agreeBelow n E E' \<Longrightarrow> p < n \<Longrightarrow> repeats E' p k s e w"
  "occurs E p s e w \<Longrightarrow> agreeBelow n E E' \<Longrightarrow> p < n \<Longrightarrow> occurs E' p s e w"
  "follows E cs s e w \<Longrightarrow> agreeBelow n E E' \<Longrightarrow> \<forall>c \<in> set cs. c < n \<Longrightarrow> follows E' cs s e w"
proof (induction rule: derives_repeats_occurs_follows.inducts)
  case (d_element p q e s)
  moreover have "particleAt E' p = Some q" "nodes E' = nodes E"
    using d_element by (simp_all add: agree_at) (simp add: agreeBelow_def)
  moreover have "ResolveElement E' (pElement q) = Some e" using d_element agree_decl [OF d_element.prems(1)] by simp
  ultimately show ?case by (intro derives_repeats_occurs_follows.d_element [of E' p q e s]) simp_all
next
  case (d_any p q a s name)
  then have "derives E' p s (Suc s) (if localRun E' then [\<lparr>emParticle = p, emIndex = s, emSchema = None\<rparr>] else [])"
    by (intro derives_repeats_occurs_follows.d_any [of E' p q a s name]) (auto simp: agreeBelow_def)
  with d_any show ?case by (simp add: agreeBelow_def)
next
  case (d_all p q s ks)
  have at: "particleAt E p = Some q" "allTakes E (pChildren q) s ks" "allStops E (pChildren q) s ks"
    "\<forall>k < length (pChildren q). isRequired E (pChildren q ! k) \<longrightarrow> k \<in> set ks" "pKind q = ParticleAll" using d_all by simp_all
  have c: "\<forall>c \<in> set (pChildren q). c < n" using agree_child [OF d_all.prems at(1)] by blast
  then have m: "pChildren q ! k < n" if "k < length (pChildren q)" for k using that by simp
  note same = agree_member [OF d_all.prems(1) m]
  have nodes: "nodes E' = nodes E" using d_all.prems(1) by (simp add: agreeBelow_def)
  have t: "\<forall>j < length ks. ks ! j < length (pChildren q)" using at(2) by (simp add: allTakes_def)
  then have "allMatches E' (pChildren q) s ks = allMatches E (pChildren q) s ks" by (simp add: allMatches_def same)
  moreover have "derives E' p s (s + length ks) (allMatches E' (pChildren q) s ks)"
    using at by (intro derives_repeats_occurs_follows.d_all [of E' p q])
      (auto simp: agree_at [OF d_all.prems] allTakes_def allStops_def same nodes)
  ultimately show ?case by simp
next
  case (d_choice p q c s e w)
  then have "particleAt E' p = Some q" "\<forall>c \<in> set (pChildren q). c < n"
    using agree_child [of n E E' p q] by (auto simp: agree_at)
  with d_choice show ?case by (intro derives_repeats_occurs_follows.d_choice [of E' p q c]) simp_all
next
  case (d_sequence p q s e w)
  then have "particleAt E' p = Some q" "\<forall>c \<in> set (pChildren q). c < n"
    using agree_child [of n E E' p q] by (auto simp: agree_at)
  with d_sequence show ?case by (intro derives_repeats_occurs_follows.d_sequence [of E' p q]) simp_all
next
  case (o_times p q k s e w)
  then have "particleAt E' p = Some q" by (simp add: agree_at)
  with o_times show ?case by (intro derives_repeats_occurs_follows.o_times [of E' p q k]) simp_all
qed (auto intro: derives_repeats_occurs_follows.r_none derives_repeats_occurs_follows.r_more
      derives_repeats_occurs_follows.f_nil derives_repeats_occurs_follows.f_cons)

lemma follows_heap:
  assumes "closedParticles P" "\<forall>c \<in> set cs. c < length P"
  shows "follows (E\<lparr>heap := P @ z\<rparr>) cs s e w \<longleftrightarrow> follows (E\<lparr>heap := P\<rparr>) cs s e w"
proof -
  have "agreeBelow (length P) (E\<lparr>heap := P\<rparr>) (E\<lparr>heap := P @ z\<rparr>)"
    using assms(1) by (auto simp: agreeBelow_def particleAt_def closedParticles_def nth_append)
  then show ?thesis using derivations_agree(4) agreeBelow_sym assms(2) by blast
qed

definition particlesIn :: "contentData \<Rightarrow> ParticleSchema list \<Rightarrow> bool" where
  "particlesIn D P \<longleftrightarrow> closedParticles P \<and> (\<forall>c \<in> set (cdContents D). \<forall>p. ccParticle c = Some p \<longrightarrow> p < length P)"

lemma content_simps [simp]: "spContent (mixes b sp) = spContent sp" "spContent (widens D b sp) = spContent sp" "spContent (overrides b sp) = spContent sp"
  by (simp_all add: mixes_def widens_def overrides_def split: prod.split)

lemma effective_content: "effective D j sp \<Longrightarrow> particlesIn D P \<Longrightarrow> \<forall>p \<in> set (spContent sp). p < length P"
proof -
  have own: "\<forall>p \<in> set (spContent (ownSpec (contentOf D j))). p < length P" if "particlesIn D P" for j
    using that by (auto simp: particlesIn_def ownSpec_def contentOf_def split: option.splits) (metis nth_mem)
  show "effective D j sp \<Longrightarrow> particlesIn D P \<Longrightarrow> \<forall>p \<in> set (spContent sp). p < length P"
  proof (induction rule: effective.induct)
    case (e_root j sp)
    with own [of j] show ?case by (auto simp: rootSpec_def Let_def split: prod.splits if_splits)
  next
    case (e_derived j k b sp)
    with own [of j] show ?case
      by (auto simp: derivedSpec_def Let_def split: ComplexForm.splits if_splits)
  qed
qed

lemma composed_accepts:
  assumes "particlesIn D P" "grownFrom (NewEffectiveContext (cdSchema D) P) x" "effective D j sp" "represents D x t sp"
  shows "ecParticle t = None \<longleftrightarrow> spContent sp = []"
    and "ecParticle t = Some p \<Longrightarrow> occurs (E\<lparr>heap := xParticles x\<rparr>) p s e w = follows (E\<lparr>heap := P\<rparr>) (spContent sp) s e w"
proof -
  have rep: "contentRep (xParticles x) (ecParticle t) (spContent sp)" using assms(4) by (simp add: represents_def)
  obtain z where z: "xParticles x = P @ z" using assms(2) by (auto simp: grownFrom_def NewEffectiveContext_def)
  have heap: "follows (E\<lparr>heap := xParticles x\<rparr>) (spContent sp) s e w = follows (E\<lparr>heap := P\<rparr>) (spContent sp) s e w" for E s e w
    unfolding z using assms(1) effective_content [OF assms(3,1)] by (intro follows_heap) (auto simp: particlesIn_def)
  have "(ecParticle t = None \<longleftrightarrow> spContent sp = []) \<and> (\<forall>q s e w. ecParticle t = Some q \<longrightarrow>
      occurs (E\<lparr>heap := xParticles x\<rparr>) q s e w \<longleftrightarrow> follows (E\<lparr>heap := xParticles x\<rparr>) (spContent sp) s e w)" for E
    by (rule contentRep_accepts [OF rep]) simp
  with heap show "ecParticle t = None \<longleftrightarrow> spContent sp = []"
    and "ecParticle t = Some p \<Longrightarrow> occurs (E\<lparr>heap := xParticles x\<rparr>) p s e w = follows (E\<lparr>heap := P\<rparr>) (spContent sp) s e w"
    by auto
qed

lemma EffectiveComplex_outcome:
  assumes "definitionsOK D" "effectsOK D P {} x"
  obtains r x' where "EffectiveComplex_of (effectiveDepth D) D j x = Some (r, x')" "effectsOK D P {} x'" "grownFrom x x'" "outcome D x' j r"
proof -
  have "unmarked D x \<le> card {..<length (complexes (cdSchema D))}" unfolding unmarked_def by (intro card_mono) auto
  then have "delivers D P {} x j (EffectiveComplex_of (effectiveDepth D) D j)"
    by (intro EffectiveComplex_delivers [OF assms]) (simp_all add: effectiveDepth_def)
  with that show thesis by (auto simp: delivers_def)
qed

section \<open>Property\<close>

text \<open>
  C5: effective complex types. On every schema, cyclic derivations included, the cached composition returns and
  keeps the cache right; it fails exactly when the derivation does not lead to a root that XML Schema allows,
  and otherwise yields the composed type: each inherited attribute unless overridden, the wildcard, the mixed
  flag and the scalar with its restriction layers. The particle of the result accepts exactly the contents of
  the types along the derivation one after the other, although it is built from particles allocated on the way.
  The definitions are well formed as the XML Schema rules demand, which the composition itself does not check: the
  attribute names of one definition are distinct, simple types are in range (definitionsOK), and the particles of
  definitions and groups are in the heap (particlesIn).
\<close>

theorem effective_complex_exact:
  assumes "definitionsOK D" "particlesIn D P" "effectsOK D P {} x"
  shows "\<exists>r x'. EffectiveComplex_of (effectiveDepth D) D j x = Some (r, x') \<and> effectsOK D P {} x' \<and>
    (case r of None \<Rightarrow> \<nexists>sp. effective D j sp
     | Some t \<Rightarrow> \<exists>sp. effective D j sp \<and> represents D x' t sp \<and> (ecParticle t = None \<longleftrightarrow> spContent sp = []) \<and>
         (\<forall>p E s e w. ecParticle t = Some p \<longrightarrow>
            occurs (E\<lparr>heap := xParticles x'\<rparr>) p s e w = follows (E\<lparr>heap := P\<rparr>) (spContent sp) s e w))"
proof -
  obtain r x' where r: "EffectiveComplex_of (effectiveDepth D) D j x = Some (r, x')" "effectsOK D P {} x'" "outcome D x' j r"
    by (rule EffectiveComplex_outcome [OF assms(1,3)])
  then have new: "grownFrom (NewEffectiveContext (cdSchema D) P) x'" by (simp add: effectsOK_def)
  show ?thesis
  proof (cases r)
    case None
    with r show ?thesis by (auto simp: outcome_def composed_def)
  next
    case (Some t)
    then obtain sp where sp: "effective D j sp" "represents D x' t sp" using r(3) by (auto simp: outcome_def)
    with r(1,2) Some composed_accepts [OF assms(2) new sp] show ?thesis by auto
  qed
qed

text \<open>A type with content \<open>a\<close>, its extension by \<open>b\<close>, and a type that extends itself.\<close>

definition elementParticle :: "string \<Rightarrow> ParticleSchema" where
  "elementParticle name = \<lparr> pKind = ParticleElement, pOccurrence = \<lparr> oMin = 1, oMax = 1, oUnbounded = False \<rparr>,
     pElement = Some \<lparr> eName = \<lparr> Space = [], Local = name \<rparr>, eReference = \<lparr> Space = [], Local = [] \<rparr>, eDeclaration = 0 \<rparr>, pChildren = [], pAny = None \<rparr>"

definition extensionOf :: "nat \<Rightarrow> ComplexSchema" where
  "extensionOf k = \<lparr> cBlock = 0, cFinal = 0, cForm = ComplexComplexContentExtension,
     cBase = Some \<lparr> trName = \<lparr> Space = [], Local = [] \<rparr>, InlineSimple = None, InlineComplex = Some k \<rparr> \<rparr>"

definition sampleContent :: "nat \<Rightarrow> ComplexContent" where
  "sampleContent p = \<lparr> ccAbstract = False, ccSimpleContent = None, ccParticle = Some p, ccAttributes = [], ccAnyAttribute = None, ccMixed = False \<rparr>"

definition sampleTypes :: contentData where
  "sampleTypes = \<lparr> cdSchema = \<lparr> simples = [], complexes = [\<lparr> cBlock = 0, cFinal = 0, cForm = ComplexDirect, cBase = None \<rparr>, extensionOf 0, extensionOf 2],
       Types = \<lambda>_. None \<rparr>,
     cdContents = [sampleContent 0, sampleContent 1, sampleContent 0], cdUri = \<lambda>_. True \<rparr>"

definition sampleHeap :: "ParticleSchema list" where
  "sampleHeap = [elementParticle ''a'', elementParticle ''b'']"

lemma sample_content:
  assumes "effective sampleTypes 1 sp"
  shows "spContent sp = [0, 1]"
proof -
  have "complexBase sampleTypes 0 = None" "complexBase sampleTypes 1 = Some 0" by code_simp+
  moreover have "map_option spContent (rootSpec sampleTypes 0) = Some [0]" by code_simp
  moreover have "map_option spContent (Option.bind (rootSpec sampleTypes 0) (derivedSpec sampleTypes 1)) = Some [0, 1]" by code_simp
  ultimately show ?thesis using assms by (auto simp: effective_derived effective_root)
qed

theorem effective_complex_exact_witness:
  "(\<exists>x' :: EffectiveContext. \<forall>E s e w. occurs (E\<lparr>heap := xParticles x'\<rparr>) 2 s e w = follows (E\<lparr>heap := sampleHeap\<rparr>) [0, 1] s e w) \<and>
   \<not> composed sampleTypes 2"
proof -
  let ?x = "NewEffectiveContext (cdSchema sampleTypes) sampleHeap"
  have ok: "definitionsOK sampleTypes" by (auto simp: definitionsOK_def sampleTypes_def sampleContent_def)
  have part: "particlesIn sampleTypes sampleHeap"
    by (auto simp: particlesIn_def closedParticles_def sampleTypes_def sampleContent_def sampleHeap_def elementParticle_def)
  have new: "effectsOK sampleTypes sampleHeap {} ?x" by (simp add: effectsOK_def NewEffectiveContext_def)
  note exact = effective_complex_exact [OF ok part new]
  have "map_option (\<lambda>(r, _). r = None) (EffectiveComplex_of (effectiveDepth sampleTypes) sampleTypes 2 ?x) = Some True"
    by code_simp
  then have "\<not> composed sampleTypes 2" using exact [of 2] by (auto simp: composed_def)
  moreover have "map_option (\<lambda>(r, _). map_option ecParticle r) (EffectiveComplex_of (effectiveDepth sampleTypes) sampleTypes 1 ?x) = Some (Some (Some 2))"
    by code_simp
  with exact [of 1] obtain t :: EffectiveComplex and x' :: EffectiveContext and sp where t: "effective sampleTypes 1 sp" "ecParticle t = Some 2"
    "\<forall>p E s e w. ecParticle t = Some p \<longrightarrow> occurs (E\<lparr>heap := xParticles x'\<rparr>) p s e w = follows (E\<lparr>heap := sampleHeap\<rparr>) (spContent sp) s e w"
    by (auto split: option.splits)
  ultimately show ?thesis using sample_content [OF t(1)] by auto
qed

end
