(* ===== verification/Xsd_Identity.thy ===== *)
theory Xsd_Identity
  imports Xsd_Types
begin

text \<open>
  Identity constraints (\<^verbatim>\<open>internal/xsd/identity.go\<close>, \<open>Identity\<close>, \<open>Finalize\<close>, \<open>Close\<close> and \<open>identityDetail\<close> of \<^verbatim>\<open>run.go\<close>): the
  tables of \<open>ID\<close> and \<open>IDREF\<close> values an assessment keeps, the diagnostics over them and the resolution of one
  value. The tables are fields of the context, the run is an optional part of it, and the subject being assessed
  is present as the origin of new entries. A node is its pointer with its subject number. Whether a constructed
  type takes part in identity (\<open>constructedIdentity\<close> of \<^verbatim>\<open>capability.go\<close>) is an argument of the operations; without
  a run the answer is always no. The walk along bases takes a depth as fuel.
\<close>

section \<open>Tables\<close>

record identityOrigin =
  ioSubject :: nat
  ioAttribute :: QName

definition noOrigin :: identityOrigin where
  "noOrigin = \<lparr> ioSubject = 0, ioAttribute = \<lparr> Space = [], Local = [] \<rparr> \<rparr>"

record IdentityEntry =
  ieOrigin :: identityOrigin
  ieValue :: string
  iePath :: string
  ieConstraint :: string

record IdentityReference =
  irOrigin :: identityOrigin
  irValue :: string
  irPath :: string

record OwnerNode =
  onPointer :: nat
  onID :: nat

record IdentityBindings =
  ibFirstOrigin :: identityOrigin
  ibSecondOrigin :: identityOrigin
  ibFirstOwner :: nat
  ibSecondOwner :: nat
  ibOwners :: "nat set"
  ibFirstPath :: string
  ibSecondPath :: string

record Detail =
  dIssue :: Issue
  dSubject :: nat
  dAttribute :: QName

record Result =
  rsApplicable :: bool
  rsValid :: bool
  rsComplete :: bool
  rsIssues :: "Detail list"

record IdentityResults =
  orIssues :: "Detail list"
  orValid :: bool
  orComplete :: bool

type_synonym identityDiagnostic = "nat \<times> nat"

record identityRun =
  rnClosed :: bool
  rnFinalized :: bool
  rnInputComplete :: bool
  rnResults :: "nat \<rightharpoonup> Result"
  rnIssues :: "Detail list"
  rnSeen :: "identityDiagnostic set"
  rnValid :: bool
  rnOutput :: "IdentityResults option"

record IdentityContext =
  icTypes :: TypeContext
  icOrigin :: identityOrigin
  icIdentifiers :: "string \<rightharpoonup> string"
  icReferences :: "IdentityReference list"
  icEntries :: "IdentityEntry list"
  icEntrySeen :: "string set"
  icIncomplete :: bool
  icBindings :: "string \<rightharpoonup> IdentityBindings"
  icSource :: identityOrigin
  icDiagnostic :: identityDiagnostic
  icRun :: "identityRun option"

type_synonym 'a iact = "(IdentityContext, 'a) action"

definition onTypes :: "'a tact \<Rightarrow> 'a iact" where
  "onTypes act c = map_option (\<lambda>(a, t). (a, c\<lparr>icTypes := t\<rparr>)) (act (icTypes c))"

section \<open>Recording\<close>

primrec builtinLoop :: "nat \<Rightarrow> schemaData \<Rightarrow> TypeIdentity \<Rightarrow> string option" where
  "builtinLoop 0 S v = None"
| "builtinLoop (Suc n) S v =
     (if tiBuiltin v = ''ID'' \<or> tiBuiltin v = ''IDREF'' \<or> tiBuiltin v = ''IDREFS'' then Some (tiBuiltin v)
      else case TypeBase S v of (base, flag, ok) \<Rightarrow> if \<not> ok \<or> flag = 0 then Some [] else builtinLoop n S base)"

definition IdentityBuiltin :: "schemaData \<Rightarrow> TypeRef option \<Rightarrow> string tact" where
  "IdentityBuiltin S reference =
     (case TypeIdentity_of S reference of (v, found) \<Rightarrow>
        if \<not> found then ret []
        else bnd (ValidTypeMetadata (metadataDepth S) S v) (\<lambda>ok.
          if \<not> ok then ret []
          else (case builtinLoop (metadataDepth S) S v of None \<Rightarrow> panic | Some name \<Rightarrow> ret name)))"

definition noteConstructedIdentity :: "(TypeRef option \<Rightarrow> bool) \<Rightarrow> TypeRef option \<Rightarrow> unit iact" where
  "noteConstructedIdentity constructed reference =
     (if constructed reference then upd (\<lambda>c. c\<lparr>icIncomplete := True\<rparr>) else ret ())"

definition SeedIdentity :: "string \<Rightarrow> string \<Rightarrow> string \<Rightarrow> unit iact" where
  "SeedIdentity val path constraint = bnd (get id) (\<lambda>c.
     if val \<in> icEntrySeen c then ret ()
     else upd (\<lambda>c. c\<lparr> icEntrySeen := insert val (icEntrySeen c),
       icEntries := icEntries c @ [\<lparr> ieOrigin = icOrigin c, ieValue = val, iePath = path, ieConstraint = constraint \<rparr>] \<rparr>))"

definition addReference :: "string \<Rightarrow> string \<Rightarrow> unit iact" where
  "addReference val path =
     bnd (upd (\<lambda>c. c\<lparr>icReferences := icReferences c @ [\<lparr> irOrigin = icOrigin c, irValue = val, irPath = path \<rparr>]\<rparr>))
       (\<lambda>_. SeedIdentity val path ''IDREF'')"

definition RecordIdentity :: "schemaData \<Rightarrow> (TypeRef option \<Rightarrow> bool) \<Rightarrow> TypeRef option \<Rightarrow> string \<Rightarrow> string \<Rightarrow> unit iact" where
  "RecordIdentity S constructed reference val path =
     bnd (noteConstructedIdentity constructed reference) (\<lambda>_.
     bnd (onTypes (IdentityBuiltin S reference)) (\<lambda>builtin.
       let normalized = normalizeWhitespace builtin val in
       if builtin = ''ID'' then
         bnd (SeedIdentity normalized path ''ID'') (\<lambda>_.
           upd (\<lambda>c. if icIdentifiers c normalized = None then c\<lparr>icIdentifiers := (icIdentifiers c)(normalized \<mapsto> path)\<rparr> else c))
       else if builtin = ''IDREF'' then addReference normalized path
       else if builtin = ''IDREFS'' then each (\<lambda>item _. addReference item path) (splitList normalized) ()
       else ret ()))"

definition newBindings :: "string \<Rightarrow> identityOrigin \<Rightarrow> OwnerNode \<Rightarrow> IdentityBindings" where
  "newBindings path origin owner = \<lparr> ibFirstOrigin = origin, ibSecondOrigin = noOrigin, ibFirstOwner = onID owner, ibSecondOwner = 0,
     ibOwners = {}, ibFirstPath = path, ibSecondPath = [] \<rparr>"

definition addOwner :: "string \<Rightarrow> identityOrigin \<Rightarrow> OwnerNode \<Rightarrow> IdentityBindings \<Rightarrow> IdentityBindings" where
  "addOwner path origin owner b =
     (let b' = (if card (ibOwners b) = 1 then b\<lparr> ibSecondPath := path, ibSecondOrigin := origin, ibSecondOwner := onID owner \<rparr> else b)
      in b'\<lparr>ibOwners := insert (onPointer owner) (ibOwners b')\<rparr>)"

definition RecordIdentityBinding :: "schemaData \<Rightarrow> (TypeRef option \<Rightarrow> bool) \<Rightarrow> TypeRef option \<Rightarrow> string \<Rightarrow> string \<Rightarrow> OwnerNode option \<Rightarrow> unit iact" where
  "RecordIdentityBinding S constructed reference val path owner =
     bnd (noteConstructedIdentity constructed reference) (\<lambda>_.
       (case owner of
          None \<Rightarrow> ret ()
        | Some node \<Rightarrow>
            bnd (onTypes (IdentityBuiltin S reference)) (\<lambda>builtin.
              if builtin \<noteq> ''ID'' then ret ()
              else let v = collapseWhitespace val in
                upd (\<lambda>c. case icBindings c v of
                    None \<Rightarrow> c\<lparr>icBindings := (icBindings c)(v \<mapsto> addOwner path (icOrigin c) node (newBindings path (icOrigin c) node))\<rparr>
                  | Some b \<Rightarrow> if onPointer node \<in> ibOwners b then c
                      else c\<lparr>icBindings := (icBindings c)(v \<mapsto> addOwner path (icOrigin c) node b)\<rparr>))))"

definition RecordElementIdentity :: "schemaData \<Rightarrow> (TypeRef option \<Rightarrow> bool) \<Rightarrow> TypeRef option \<Rightarrow> TypeRef option \<Rightarrow> string \<Rightarrow> string
    \<Rightarrow> OwnerNode option \<Rightarrow> bool \<Rightarrow> unit iact" where
  "RecordElementIdentity S constructed decl actual val path owner declarationValid =
     bnd (if declarationValid then RecordIdentity S constructed decl val path else ret ())
       (\<lambda>_. RecordIdentityBinding S constructed actual val path owner)"

definition SkipIdentityChildren :: "OwnerNode list \<Rightarrow> unit iact" where
  "SkipIdentityChildren children = (if children \<noteq> [] then upd (\<lambda>c. c\<lparr>icIncomplete := True\<rparr>) else ret ())"

section \<open>Diagnostics\<close>

definition proveIdentityFailure :: "unit iact" where
  "proveIdentityFailure = upd (\<lambda>c. c\<lparr>icRun := map_option (\<lambda>r.
     case rnOutput r of None \<Rightarrow> r | Some out \<Rightarrow> r\<lparr> rnValid := False, rnOutput := Some (out\<lparr>orValid := False\<rparr>) \<rparr>) (icRun c)\<rparr>)"

definition freshResult :: Result where
  "freshResult = \<lparr> rsApplicable = True, rsValid = True, rsComplete = True, rsIssues = [] \<rparr>"

definition identityDetail :: "identityOrigin \<Rightarrow> identityDiagnostic \<Rightarrow> Issue \<Rightarrow> identityRun \<Rightarrow> IdentityResults \<Rightarrow> identityRun" where
  "identityDetail source diagnostic issue r out =
     (let r' = r\<lparr> rnValid := False, rnOutput := Some (out\<lparr>orValid := False\<rparr>) \<rparr> in
      if diagnostic \<in> rnSeen r then r'
      else
        let detail = \<lparr> dIssue = issue, dSubject = ioSubject source, dAttribute = ioAttribute source \<rparr>;
            v = (case rnResults r (ioSubject source) of None \<Rightarrow> freshResult | Some v \<Rightarrow> v)
        in r'\<lparr> rnResults := (rnResults r)(ioSubject source \<mapsto> v\<lparr> rsValid := False, rsIssues := rsIssues v @ [detail] \<rparr>),
               rnIssues := rnIssues r @ [detail], rnSeen := insert diagnostic (rnSeen r),
               rnOutput := Some (out\<lparr> orValid := False, orIssues := rnIssues r @ [detail] \<rparr>) \<rparr>)"

text \<open>\<open>AddIssue\<close> between subjects, for a constraint that is neither \<open>schema\<close> nor \<open>assessment\<close>.\<close>

definition addIdentityIssue :: "string \<Rightarrow> string \<Rightarrow> message \<Rightarrow> unit iact" where
  "addIdentityIssue path constraint msg = bnd (get id) (\<lambda>c.
     (case icRun c of
        Some r \<Rightarrow>
          (case rnOutput r of
             Some out \<Rightarrow> upd (\<lambda>c. c\<lparr>icRun := Some (identityDetail (icSource c) (icDiagnostic c)
                 \<lparr> isPath = path, isConstraint = constraint, isMessage = msg \<rparr> r out)\<rparr>)
           | None \<Rightarrow> onTypes (AddIssue path constraint msg))
      | None \<Rightarrow> onTypes (AddIssue path constraint msg)))"

definition reportIdentity :: "identityOrigin \<Rightarrow> string \<Rightarrow> string \<Rightarrow> message \<Rightarrow> unit iact" where
  "reportIdentity source path constraint msg =
     bnd (upd (\<lambda>c. c\<lparr>icSource := source\<rparr>)) (\<lambda>_. bnd proveIdentityFailure (\<lambda>_. addIdentityIssue path constraint msg))"

definition checkEntry :: "nat \<times> IdentityEntry \<Rightarrow> unit iact" where
  "checkEntry = (\<lambda>(index, entry).
     bnd (upd (\<lambda>c. c\<lparr>icDiagnostic := (1, index)\<rparr>)) (\<lambda>_. bnd (get id) (\<lambda>c.
       (case icBindings c (ieValue entry) of
          Some b \<Rightarrow>
            if card (ibOwners b) > 1 then
              reportIdentity (ibSecondOrigin b) (ibSecondPath b) ''ID''
                (Formatted ''duplicate ID %q; first bound at %s'' [FmtText (ieValue entry), FmtText (ibFirstPath b)])
            else ret ()
        | None \<Rightarrow>
            if AssessmentErr (icTypes c) = [] \<and> \<not> icIncomplete c \<and> ieConstraint entry = ''ID'' then
              reportIdentity (ieOrigin entry) (iePath entry) ''ID''
                (Formatted ''ID %q has no containing element binding in the document'' [FmtText (ieValue entry)])
            else ret ()))))"

definition checkReference :: "nat \<times> IdentityReference \<Rightarrow> unit iact" where
  "checkReference = (\<lambda>(index, reference).
     bnd (upd (\<lambda>c. c\<lparr>icDiagnostic := (2, index)\<rparr>)) (\<lambda>_. bnd (get id) (\<lambda>c.
       if icBindings c (irValue reference) \<noteq> None then ret ()
       else reportIdentity (irOrigin reference) (irPath reference) ''IDREF''
         (Formatted ''IDREF %q does not identify an element in the document'' [FmtText (irValue reference)]))))"

definition ValidateIdentityReferences :: "unit iact" where
  "ValidateIdentityReferences = bnd (get id) (\<lambda>c.
     bnd (each (\<lambda>entry _. checkEntry entry) (enumerate 0 (icEntries c)) ()) (\<lambda>_. bnd (get id) (\<lambda>c.
       if AssessmentErr (icTypes c) \<noteq> [] \<or> icIncomplete c then ret ()
       else each (\<lambda>reference _. checkReference reference) (enumerate 0 (icReferences c)) ())))"

section \<open>The run\<close>

text \<open>
  A new run has an empty context. \<open>ctxErr\<close> is the error of the caller's context, \<open>None\<close> while it is live; a nil context
  is the error \<open>xsd: nil context\<close>. \<open>released\<close> is the error of giving the retained bytes back to the meter.
\<close>

definition newRun :: identityRun where
  "newRun = \<lparr> rnClosed = False, rnFinalized = False, rnInputComplete = False, rnResults = Map.empty, rnIssues = [], rnSeen = {},
     rnValid = True, rnOutput = None \<rparr>"

definition emptyContext :: "identityRun option \<Rightarrow> IdentityContext" where
  "emptyContext run = \<lparr> icTypes = NewTypeContext, icOrigin = noOrigin, icIdentifiers = Map.empty, icReferences = [], icEntries = [],
     icEntrySeen = {}, icIncomplete = False, icBindings = Map.empty, icSource = noOrigin, icDiagnostic = (0, 0), icRun = run \<rparr>"

definition runCheck :: "identityRun \<Rightarrow> string option \<Rightarrow> string option" where
  "runCheck r ctxErr = (if rnClosed r \<or> rnFinalized r then Some ''xsd: run is closed or finalized'' else ctxErr)"

definition identityComplete :: "bool \<Rightarrow> IdentityContext \<Rightarrow> bool" where
  "identityComplete inputComplete c \<longleftrightarrow> inputComplete \<and> \<not> icIncomplete c \<and> AssessmentErr (icTypes c) = []"

definition beginIdentity :: "bool \<Rightarrow> identityRun \<Rightarrow> IdentityContext \<Rightarrow> IdentityContext" where
  "beginIdentity inputComplete r c = c\<lparr>
     icRun := Some (r\<lparr> rnInputComplete := inputComplete,
       rnOutput := Some \<lparr> orIssues = rnIssues r, orValid = rnValid r, orComplete = identityComplete inputComplete c \<rparr> \<rparr>),
     icIncomplete := icIncomplete c \<or> \<not> inputComplete \<rparr>"

definition Identity :: "string option \<Rightarrow> bool \<Rightarrow> (IdentityResults \<times> string option) iact" where
  "Identity ctxErr inputComplete c =
     (case icRun c of
        None \<Rightarrow> Some ((\<lparr> orIssues = [], orValid = True, orComplete = False \<rparr>, Some ''xsd: run is closed or finalized''), c)
      | Some r \<Rightarrow>
          (case runCheck r ctxErr of
             Some err \<Rightarrow> Some ((\<lparr> orIssues = rnIssues r, orValid = rnValid r, orComplete = False \<rparr>, Some err), c)
           | None \<Rightarrow>
               (case ValidateIdentityReferences (beginIdentity inputComplete r c) of
                  None \<Rightarrow> None
                | Some (_, c') \<Rightarrow>
                    (case icRun c' of
                       None \<Rightarrow> None
                     | Some r' \<Rightarrow>
                         (case rnOutput r' of
                            None \<Rightarrow> None
                          | Some out \<Rightarrow> Some ((out, None),
                              c'\<lparr> icIncomplete := icIncomplete c, icRun := Some (r'\<lparr>rnOutput := None\<rparr>) \<rparr>))))))"

definition IdentityPreview :: "string option \<Rightarrow> (IdentityResults \<times> string option) iact" where
  "IdentityPreview ctxErr = Identity ctxErr False"

definition Finalize :: "string option \<Rightarrow> bool \<Rightarrow> (IdentityResults \<times> string option) iact" where
  "Finalize ctxErr inputComplete =
     bnd (Identity ctxErr inputComplete) (\<lambda>out.
     bnd (upd (\<lambda>c. c\<lparr>icRun := map_option (\<lambda>r. r\<lparr>rnFinalized := True\<rparr>) (icRun c)\<rparr>)) (\<lambda>_. ret out))"

text \<open>Closing clears the context and the findings, but not the verdict.\<close>

definition Close :: "string option \<Rightarrow> string option iact" where
  "Close released c =
     (case icRun c of
        None \<Rightarrow> Some (Some ''xsd: repeated or nil close'', c)
      | Some r \<Rightarrow>
          if rnClosed r then Some (Some ''xsd: repeated or nil close'', c)
          else Some (released, emptyContext (Some (r\<lparr> rnClosed := True, rnResults := Map.empty, rnIssues := [], rnSeen := {} \<rparr>))))"

datatype IdentityResolutionStatus = IdentityMissing | IdentityUnique | IdentityAmbiguous | IdentityIncomplete

record IdentityResolution =
  rvStatus :: IdentityResolutionStatus
  rvOwner :: nat
  rvFirstOwner :: nat
  rvSecondOwner :: nat
  rvScopeComplete :: bool
  rvReason :: string

definition ResolveIdentity :: "string option \<Rightarrow> string \<Rightarrow> IdentityContext \<Rightarrow> string + IdentityResolution" where
  "ResolveIdentity ctxErr val c =
     (case icRun c of
        None \<Rightarrow> Inl ''xsd: run is closed or nil''
      | Some r \<Rightarrow>
          if rnClosed r then Inl ''xsd: run is closed or nil''
          else (case ctxErr of
              Some err \<Rightarrow> Inl err
            | None \<Rightarrow>
                let scope = identityComplete (rnInputComplete r) c;
                    out = \<lparr> rvStatus = IdentityIncomplete, rvOwner = 0, rvFirstOwner = 0, rvSecondOwner = 0,
                      rvScopeComplete = scope, rvReason = (if scope then [] else ''identity-scope-incomplete'') \<rparr>
                in
                (case icBindings c val of
                   Some b \<Rightarrow>
                     let out = out\<lparr> rvFirstOwner := ibFirstOwner b, rvSecondOwner := ibSecondOwner b \<rparr> in
                     if card (ibOwners b) > 1 then Inr (out\<lparr>rvStatus := IdentityAmbiguous\<rparr>)
                     else if card (ibOwners b) = 1
                     then Inr (let out = out\<lparr>rvOwner := ibFirstOwner b\<rparr> in if scope then out\<lparr>rvStatus := IdentityUnique\<rparr> else out)
                     else Inr (if scope then out\<lparr>rvStatus := IdentityMissing\<rparr> else out)
                 | None \<Rightarrow> Inr (if scope then out\<lparr>rvStatus := IdentityMissing\<rparr> else out))))"

end
