(* ===== verification/Xsd_Uniqueness.thy ===== *)
theory Xsd_Uniqueness
  imports Xsd_Identity Xsd_Derivation
begin

text \<open>
  What the identity tables hold after any sequence of recordings, and what is reported over them. A recording
  is a list of events, decided by the kind of its type; the tables are functions of the events, and so are the
  diagnostics and the resolution of a value.
\<close>

section \<open>The identity kind of a type\<close>

definition baseRel :: "schemaData \<Rightarrow> (TypeIdentity \<times> TypeIdentity) set" where
  "baseRel S = {(d, p). \<exists>flag. TypeBase S d = (p, flag, True) \<and> flag \<noteq> 0}"

definition identityNames :: "string set" where
  "identityNames = {''ID'', ''IDREF'', ''IDREFS''}"

definition hasKind :: "schemaData \<Rightarrow> TypeIdentity \<Rightarrow> string \<Rightarrow> bool" where
  "hasKind S v name \<longleftrightarrow> name \<in> identityNames \<and> (v, BuiltinType name) \<in> (baseRel S)\<^sup>*"

text \<open>The kind of a reference: the identity type a sound type derives from.\<close>

definition kindOf :: "schemaData \<Rightarrow> TypeRef option \<Rightarrow> string" where
  "kindOf S reference = (case TypeIdentity_of S reference of (v, found) \<Rightarrow>
     if \<not> found \<or> \<not> soundType S v then []
     else if hasKind S v ''ID'' then ''ID'' else if hasKind S v ''IDREF'' then ''IDREF'' else if hasKind S v ''IDREFS'' then ''IDREFS'' else [])"

lemma baseRel_builtin:
  "name \<noteq> [] \<Longrightarrow> (BuiltinType name, u) \<in> (baseRel S)\<^sup>* \<longleftrightarrow>
     u = BuiltinType name \<or> BuiltinBase name \<noteq> [] \<and> (BuiltinType (BuiltinBase name), u) \<in> (baseRel S)\<^sup>*"
proof -
  assume n: "name \<noteq> []"
  have "DerivationRestriction \<noteq> 0" by (simp add: DerivationRestriction_def)
  then have step: "(BuiltinType name, w) \<in> baseRel S \<longleftrightarrow> BuiltinBase name \<noteq> [] \<and> w = BuiltinType (BuiltinBase name)" for w
    using n by (auto simp: baseRel_def TypeBase_def BuiltinType_def)
  show ?thesis
  proof
    assume "(BuiltinType name, u) \<in> (baseRel S)\<^sup>*"
    then show "u = BuiltinType name \<or> BuiltinBase name \<noteq> [] \<and> (BuiltinType (BuiltinBase name), u) \<in> (baseRel S)\<^sup>*"
      by (rule converse_rtranclE) (auto simp: step)
  qed (use step in \<open>auto intro: converse_rtrancl_into_rtrancl\<close>)
qed

lemma identity_tops:
  "BuiltinBase ''ID'' = ''NCName''" "BuiltinBase ''IDREF'' = ''NCName''" "BuiltinBase ''IDREFS'' = ''anySimpleType''"
  "BuiltinBase ''NCName'' = ''Name''" "BuiltinBase ''Name'' = ''token''" "BuiltinBase ''token'' = ''normalizedString''"
  "BuiltinBase ''normalizedString'' = ''string''" "BuiltinBase ''string'' = ''anySimpleType''"
  "BuiltinBase ''anySimpleType'' = ''anyType''" "BuiltinBase ''anyType'' = []"
  by code_simp+

lemma kind_self:
  assumes "k \<in> identityNames"
  shows "hasKind S (BuiltinType k) name \<longleftrightarrow> name = k"
proof -
  have inj: "BuiltinType a = BuiltinType b \<longleftrightarrow> a = b" for a b by (simp add: BuiltinType_def)
  show ?thesis using assms by (auto simp: hasKind_def identityNames_def baseRel_builtin identity_tops inj)
qed

lemma builtinLoop_exact:
  assumes "deepIn (usesRel S) n v" "soundType S v" "plain v"
  shows "\<exists>k. builtinLoop n S v = Some k \<and> (if \<exists>name. hasKind S v name then hasKind S v k \<and> (\<forall>name. hasKind S v name \<longrightarrow> name = k) else k = [])"
  using assms
proof (induction n arbitrary: v)
  case 0
  then show ?case by (auto elim: deepInE)
next
  case (Suc n)
  show ?case
  proof (cases "tiBuiltin v \<in> identityNames")
    case True
    then have "v = BuiltinType (tiBuiltin v)" using Suc.prems(3) by (cases v) (auto simp: plain_def BuiltinType_def identityNames_def)
    with kind_self [OF True, of S] have "hasKind S v name \<longleftrightarrow> name = tiBuiltin v" for name by metis
    with True show ?thesis by (auto simp: identityNames_def)
  next
    case False
    obtain base flag ok where b: "TypeBase S v = (base, flag, ok)" by (rule prod_cases3)
    have edge: "(v, w) \<in> baseRel S \<longleftrightarrow> ok \<and> flag \<noteq> 0 \<and> w = base" for w using b by (auto simp: baseRel_def)
    have "v \<noteq> BuiltinType name" if "name \<in> identityNames" for name using False that by (auto simp: BuiltinType_def)
    then have up: "hasKind S v name \<longleftrightarrow> ok \<and> flag \<noteq> 0 \<and> hasKind S base name" for name
      using edge unfolding hasKind_def by (metis converse_rtranclE converse_rtrancl_into_rtrancl)
    show ?thesis
    proof (cases "\<not> ok \<or> flag = 0")
      case True
      with False b up show ?thesis by (auto simp: identityNames_def)
    next
      case stepped: False
      note s = sound_base [OF Suc.prems(2) b]
      have "deepIn (usesRel S) n base" using deepIn_step [OF Suc.prems(1) s(1)] stepped by simp
      note ih = Suc.IH [OF this s(2,3)]
      have "builtinLoop (Suc n) S v = builtinLoop n S base" using stepped False b by (simp add: identityNames_def)
      moreover have "hasKind S v = hasKind S base" using up stepped by (simp add: fun_eq_iff)
      ultimately show ?thesis using ih stepped by presburger
    qed
  qed
qed

lemma IdentityBuiltin_exact:
  assumes "metaInv S {} (TypeMetadata t)"
  shows "\<exists>t'. IdentityBuiltin S reference t = Some (kindOf S reference, t') \<and> metaInv S {} (TypeMetadata t') \<and> Issues t' = Issues t"
proof -
  obtain v found where v: "TypeIdentity_of S reference = (v, found)" by (rule prod.exhaust)
  have p: "plain v" using plain_identity [of S reference] v by simp
  obtain t' where t: "ValidTypeMetadata (metadataDepth S) S v t = Some (soundType S v, t')" "settled S {} t (soundType S v) t'"
    using ValidTypeMetadata_exact [OF room_bound p, of "{}"] assms unfolding decides_def by blast
  have i: "metaInv S {} (TypeMetadata t')" "Issues t' = Issues t" using t(2) unfolding settled_def by (simp, metis TypeContext.select_convs(6) TypeContext.surjective TypeContext.update_convs(1-3))
  show ?thesis
  proof (cases "found \<and> soundType S v")
    case True
    then obtain k where k: "builtinLoop (metadataDepth S) S v = Some k"
      "if \<exists>name. hasKind S v name then hasKind S v k \<and> (\<forall>name. hasKind S v name \<longrightarrow> name = k) else k = []"
      using builtinLoop_exact [OF sound_deep _ p] p by blast
    then have "kindOf S reference = k" using True v by (auto simp: kindOf_def hasKind_def identityNames_def split: if_splits)
    with True k(1) v t(1) i show ?thesis by (simp add: IdentityBuiltin_def bnd_def ret_def)
  next
    case False
    with v t(1) i assms show ?thesis by (auto simp: IdentityBuiltin_def kindOf_def bnd_def ret_def)
  qed
qed

section \<open>Events\<close>

datatype identityEvent = Seeds IdentityEntry | Refers IdentityReference | Binds string string OwnerNode identityOrigin

definition seedsOf :: "identityEvent list \<Rightarrow> IdentityEntry list" where
  "seedsOf es = concat (map (\<lambda>e. case e of Seeds x \<Rightarrow> [x] | _ \<Rightarrow> []) es)"

definition refsOf :: "identityEvent list \<Rightarrow> IdentityReference list" where
  "refsOf es = concat (map (\<lambda>e. case e of Refers x \<Rightarrow> [x] | _ \<Rightarrow> []) es)"

definition bindsOf :: "string \<Rightarrow> identityEvent list \<Rightarrow> (string \<times> OwnerNode \<times> identityOrigin) list" where
  "bindsOf v es = concat (map (\<lambda>e. case e of Binds val path node origin \<Rightarrow> if val = v then [(path, node, origin)] else [] | _ \<Rightarrow> []) es)"

lemma events_append [simp]:
  "seedsOf (es @ es') = seedsOf es @ seedsOf es'" "refsOf (es @ es') = refsOf es @ refsOf es'"
  "bindsOf v (es @ es') = bindsOf v es @ bindsOf v es'"
  by (simp_all add: seedsOf_def refsOf_def bindsOf_def)

lemma events_one [simp]:
  "seedsOf [] = []" "refsOf [] = []" "bindsOf v [] = []"
  "seedsOf (Seeds x # es) = x # seedsOf es" "refsOf (Seeds x # es) = refsOf es" "bindsOf v (Seeds x # es) = bindsOf v es"
  "seedsOf (Refers r # es) = seedsOf es" "refsOf (Refers r # es) = r # refsOf es" "bindsOf v (Refers r # es) = bindsOf v es"
  "seedsOf (Binds a b c d # es) = seedsOf es" "refsOf (Binds a b c d # es) = refsOf es"
  "bindsOf v (Binds a b c d # es) = (if a = v then [(b, c, d)] else []) @ bindsOf v es"
  by (simp_all add: seedsOf_def refsOf_def bindsOf_def)

text \<open>The elements with a new key, in order.\<close>

primrec keepFirst :: "('a \<Rightarrow> 'b) \<Rightarrow> 'b set \<Rightarrow> 'a list \<Rightarrow> 'a list" where
  "keepFirst f seen [] = []"
| "keepFirst f seen (x # xs) = (if f x \<in> seen then keepFirst f seen xs else x # keepFirst f (insert (f x) seen) xs)"

lemma keepFirst_snoc [simp]:
  "keepFirst f seen (xs @ [y]) = keepFirst f seen xs @ (if f y \<in> seen \<union> f ` set xs then [] else [y])"
  by (induction xs arbitrary: seen) auto

lemma keepFirst_keys: "f ` set (keepFirst f seen xs) = f ` set xs - seen"
  by (induction xs arbitrary: seen) auto

lemma keepFirst_subset: "set (keepFirst f seen xs) \<subseteq> set xs"
  by (induction xs arbitrary: seen) auto

lemma keepFirst_distinct: "distinct (map f (keepFirst f seen xs))"
proof -
  have "distinct (map f (keepFirst f seen xs)) \<and> f ` set (keepFirst f seen xs) \<inter> seen = {}"
    by (induction xs arbitrary: seen) auto
  then show ?thesis ..
qed

abbreviation pointerOf :: "string \<times> OwnerNode \<times> identityOrigin \<Rightarrow> nat" where
  "pointerOf b \<equiv> onPointer (fst (snd b))"

definition ownersOf :: "string \<Rightarrow> identityEvent list \<Rightarrow> (string \<times> OwnerNode \<times> identityOrigin) list" where
  "ownersOf v es = keepFirst pointerOf {} (bindsOf v es)"

definition entriesOf :: "identityEvent list \<Rightarrow> IdentityEntry list" where
  "entriesOf es = keepFirst ieValue {} (seedsOf es)"

text \<open>The bindings of a value, from its owners in the order they were first recorded.\<close>

definition bindingOf :: "(string \<times> OwnerNode \<times> identityOrigin) list \<Rightarrow> IdentityBindings option" where
  "bindingOf ks = (case ks of [] \<Rightarrow> None
     | (path, node, origin) # rest \<Rightarrow>
         Some \<lparr> ibFirstOrigin = origin, ibSecondOrigin = (case rest of [] \<Rightarrow> noOrigin | (_, _, second) # _ \<Rightarrow> second),
           ibFirstOwner = onID node, ibSecondOwner = (case rest of [] \<Rightarrow> 0 | (_, second, _) # _ \<Rightarrow> onID second),
           ibOwners = pointerOf ` set ks, ibFirstPath = path, ibSecondPath = (case rest of [] \<Rightarrow> [] | (second, _) # _ \<Rightarrow> second) \<rparr>)"

definition tables :: "IdentityContext \<Rightarrow> identityEvent list \<Rightarrow> bool" where
  "tables c es \<longleftrightarrow> icEntries c = entriesOf es \<and> icEntrySeen c = ieValue ` set (seedsOf es) \<and> icReferences c = refsOf es \<and>
     (\<forall>v. icBindings c v = bindingOf (ownersOf v es))"

lemma binding_owners: "bindingOf ks = Some b \<Longrightarrow> ibOwners b = pointerOf ` set ks \<and> ks \<noteq> []"
proof (cases ks)
  case (Cons k rest)
  assume b: "bindingOf ks = Some b"
  obtain path node origin where "k = (path, node, origin)" by (rule prod_cases3)
  with Cons b show ?thesis by (clarsimp simp: bindingOf_def simp del: set_simps)
qed (simp add: bindingOf_def)

lemma owners_card:
  assumes "bindingOf (ownersOf v es) = Some b"
  shows "card (ibOwners b) = length (ownersOf v es)" "ownersOf v es \<noteq> []"
proof -
  have d: "distinct (map pointerOf (ownersOf v es))" by (simp add: ownersOf_def keepFirst_distinct)
  have "ibOwners b = set (map pointerOf (ownersOf v es))" "ownersOf v es \<noteq> []" using binding_owners [OF assms] by simp_all
  with distinct_card [OF d] show "card (ibOwners b) = length (ownersOf v es)" "ownersOf v es \<noteq> []" by simp_all
qed

lemma bindingOf_none: "bindingOf ks = None \<longleftrightarrow> ks = []"
  by (auto simp: bindingOf_def split: list.splits)

lemma owners_seen: "bindingOf (ownersOf v es) = Some b \<Longrightarrow> ibOwners b = pointerOf ` set (bindsOf v es)"
  using keepFirst_keys [of pointerOf "{}" "bindsOf v es"] binding_owners [of "ownersOf v es" b] unfolding ownersOf_def by simp

lemma bindingOf_snoc:
  assumes "bindingOf ks = Some b" "card (ibOwners b) = length ks"
  shows "bindingOf (ks @ [(path, node, origin)]) = Some (addOwner path origin node b)"
  using assms by (auto simp: bindingOf_def addOwner_def Let_def split: list.splits)

lemma bindingOf_first: "bindingOf [(path, node, origin)] = Some (addOwner path origin node (newBindings path origin node))"
  by (simp add: bindingOf_def addOwner_def newBindings_def noOrigin_def)

section \<open>Recording\<close>

definition refEvents :: "identityOrigin \<Rightarrow> string \<Rightarrow> string \<Rightarrow> identityEvent list" where
  "refEvents origin path v = [Refers \<lparr> irOrigin = origin, irValue = v, irPath = path \<rparr>,
     Seeds \<lparr> ieOrigin = origin, ieValue = v, iePath = path, ieConstraint = ''IDREF'' \<rparr>]"

definition recordEvents :: "schemaData \<Rightarrow> identityOrigin \<Rightarrow> TypeRef option \<Rightarrow> string \<Rightarrow> string \<Rightarrow> identityEvent list" where
  "recordEvents S origin reference val path =
     (let kind = kindOf S reference; v = normalizeWhitespace kind val in
      if kind = ''ID'' then [Seeds \<lparr> ieOrigin = origin, ieValue = v, iePath = path, ieConstraint = ''ID'' \<rparr>]
      else if kind = ''IDREF'' then refEvents origin path v
      else if kind = ''IDREFS'' then concat (map (refEvents origin path) (splitList v)) else [])"

definition bindEvents :: "schemaData \<Rightarrow> identityOrigin \<Rightarrow> TypeRef option \<Rightarrow> string \<Rightarrow> string \<Rightarrow> OwnerNode option \<Rightarrow> identityEvent list" where
  "bindEvents S origin reference val path owner =
     (case owner of None \<Rightarrow> []
      | Some node \<Rightarrow> if kindOf S reference = ''ID'' then [Binds (collapseWhitespace val) path node origin] else [])"

definition elementEvents :: "schemaData \<Rightarrow> identityOrigin \<Rightarrow> TypeRef option \<Rightarrow> TypeRef option \<Rightarrow> string \<Rightarrow> string \<Rightarrow> OwnerNode option \<Rightarrow> bool \<Rightarrow> identityEvent list" where
  "elementEvents S origin decl actual val path owner declarationValid =
     (if declarationValid then recordEvents S origin decl val path else []) @ bindEvents S origin actual val path owner"

text \<open>An operation that always returns, adds the events to the tables and keeps what it does not record.\<close>

definition kept :: "IdentityContext \<Rightarrow> IdentityContext \<Rightarrow> bool" where
  "kept c c' \<longleftrightarrow> icOrigin c' = icOrigin c \<and> icRun c' = icRun c \<and> Issues (icTypes c') = Issues (icTypes c) \<and> (icIncomplete c \<longrightarrow> icIncomplete c')"

definition logs :: "schemaData \<Rightarrow> identityOrigin \<Rightarrow> unit iact \<Rightarrow> identityEvent list \<Rightarrow> bool" where
  "logs S origin x new \<longleftrightarrow> (\<forall>c es. tables c es \<and> metaInv S {} (TypeMetadata (icTypes c)) \<and> icOrigin c = origin \<longrightarrow>
     (\<exists>c'. x c = Some ((), c') \<and> tables c' (es @ new) \<and> metaInv S {} (TypeMetadata (icTypes c')) \<and> kept c c'))"

lemma logs_ret: "logs S origin (ret ()) []"
  by (simp add: logs_def ret_def kept_def)

lemma logs_bnd: "logs S origin x new \<Longrightarrow> logs S origin (f ()) rest \<Longrightarrow> logs S origin (bnd x f) (new @ rest)"
  unfolding logs_def bnd_def kept_def by (fastforce simp: append_assoc [symmetric] simp del: append_assoc)

lemma logs_then: "logs S origin x new \<Longrightarrow> logs S origin y rest \<Longrightarrow> logs S origin (bnd x (\<lambda>_. y)) (new @ rest)"
  by (rule logs_bnd)

lemma logs_each: "(\<And>x. logs S origin (f x ()) (g x)) \<Longrightarrow> logs S origin (each f xs ()) (concat (map g xs))"
  by (induction xs) (auto intro: logs_ret logs_bnd)

lemma logs_note: "logs S origin (noteConstructedIdentity con reference) []"
  by (auto simp: logs_def noteConstructedIdentity_def upd_def ret_def tables_def kept_def)

lemma logs_seed: "logs S origin (SeedIdentity v path k) [Seeds \<lparr> ieOrigin = origin, ieValue = v, iePath = path, ieConstraint = k \<rparr>]"
  by (auto simp: logs_def SeedIdentity_def act_simps tables_def kept_def entriesOf_def ownersOf_def)

lemma logs_reference: "logs S origin (addReference v path) (refEvents origin path v)"
proof -
  let ?r = "\<lparr> irOrigin = origin, irValue = v, irPath = path \<rparr>"
  have "logs S origin (upd (\<lambda>c. c\<lparr>icReferences := icReferences c @ [\<lparr> irOrigin = icOrigin c, irValue = v, irPath = path \<rparr>]\<rparr>)) [Refers ?r]"
    by (auto simp: logs_def upd_def tables_def kept_def entriesOf_def ownersOf_def)
  from logs_then [OF this logs_seed] show ?thesis unfolding addReference_def refEvents_def by simp
qed

lemma logs_kind:
  assumes "logs S origin (f (kindOf S reference)) new"
  shows "logs S origin (bnd (onTypes (IdentityBuiltin S reference)) f) new"
  unfolding logs_def
proof (intro allI impI, elim conjE)
  fix c es
  assume a: "tables c es" "metaInv S {} (TypeMetadata (icTypes c))" "icOrigin c = origin"
  from IdentityBuiltin_exact [OF a(2)] obtain t' where t: "IdentityBuiltin S reference (icTypes c) = Some (kindOf S reference, t')"
    "metaInv S {} (TypeMetadata t')" "Issues t' = Issues (icTypes c)" by blast
  let ?c = "c\<lparr>icTypes := t'\<rparr>"
  have "tables ?c es" "icOrigin ?c = origin" "metaInv S {} (TypeMetadata (icTypes ?c))" using a t by (simp_all add: tables_def)
  then obtain c' where "f (kindOf S reference) ?c = Some ((), c')" "tables c' (es @ new)" "metaInv S {} (TypeMetadata (icTypes c'))" "kept ?c c'"
    using assms unfolding logs_def by blast
  then show "\<exists>c'. bnd (onTypes (IdentityBuiltin S reference)) f c = Some ((), c') \<and> tables c' (es @ new) \<and> metaInv S {} (TypeMetadata (icTypes c')) \<and> kept c c'"
    using t by (simp add: bnd_def onTypes_def kept_def)
qed

lemma logs_record: "logs S origin (RecordIdentity S con reference val path) (recordEvents S origin reference val path)"
proof -
  have ident: "logs S origin (upd (\<lambda>c. if icIdentifiers c v = None then c\<lparr>icIdentifiers := (icIdentifiers c)(v \<mapsto> path)\<rparr> else c)) []" for v
    by (auto simp: logs_def upd_def tables_def kept_def)
  let ?k = "kindOf S reference" and ?v = "normalizeWhitespace (kindOf S reference) val"
  let ?f = "\<lambda>k. let v = normalizeWhitespace k val in if k = ''ID'' then bnd (SeedIdentity v path ''ID'')
        (\<lambda>_. upd (\<lambda>c. if icIdentifiers c v = None then c\<lparr>icIdentifiers := (icIdentifiers c)(v \<mapsto> path)\<rparr> else c))
      else if k = ''IDREF'' then addReference v path
      else if k = ''IDREFS'' then each (\<lambda>item _. addReference item path) (splitList v) () else ret ()"
  have "logs S origin (?f ?k) (recordEvents S origin reference val path)"
    using logs_then [OF logs_seed ident] logs_reference logs_each [of S origin "\<lambda>item _. addReference item path" "refEvents origin path"] logs_ret
    by (simp add: recordEvents_def Let_def cong: if_cong)
  from logs_then [OF logs_note [of S origin con reference] logs_kind [where f = ?f, OF this]] show ?thesis unfolding RecordIdentity_def by simp
qed

lemma logs_owner:
  "logs S origin (upd (\<lambda>c. case icBindings c v of
      None \<Rightarrow> c\<lparr>icBindings := (icBindings c)(v \<mapsto> addOwner path (icOrigin c) node (newBindings path (icOrigin c) node))\<rparr>
    | Some b \<Rightarrow> if onPointer node \<in> ibOwners b then c
        else c\<lparr>icBindings := (icBindings c)(v \<mapsto> addOwner path (icOrigin c) node b)\<rparr>)) [Binds v path node origin]"
  unfolding logs_def
proof (intro allI impI, elim conjE)
  fix c es
  assume a: "tables c es" "metaInv S {} (TypeMetadata (icTypes c))" "icOrigin c = origin"
  let ?es = "es @ [Binds v path node origin]"
  have rest: "entriesOf ?es = entriesOf es" "refsOf ?es = refsOf es" "seedsOf ?es = seedsOf es"
    "u \<noteq> v \<Longrightarrow> ownersOf u ?es = ownersOf u es" for u by (simp_all add: entriesOf_def ownersOf_def)
  have own: "ownersOf v ?es = ownersOf v es @ (if onPointer node \<in> pointerOf ` set (bindsOf v es) then [] else [(path, node, origin)])"
    by (simp add: ownersOf_def)
  let ?f = "\<lambda>c. case icBindings c v of
      None \<Rightarrow> c\<lparr>icBindings := (icBindings c)(v \<mapsto> addOwner path (icOrigin c) node (newBindings path (icOrigin c) node))\<rparr>
    | Some b \<Rightarrow> if onPointer node \<in> ibOwners b then c
        else c\<lparr>icBindings := (icBindings c)(v \<mapsto> addOwner path (icOrigin c) node b)\<rparr>"
  have "tables (?f c) ?es"
  proof (cases "icBindings c v")
    case None
    then have "ownersOf v es = []" using a(1) by (simp add: tables_def bindingOf_none)
    then have "bindsOf v es = []" unfolding ownersOf_def by (cases "bindsOf v es") auto
    with \<open>ownersOf v es = []\<close> None a own rest show ?thesis by (simp add: tables_def bindingOf_first)
  next
    case (Some b)
    then have b: "bindingOf (ownersOf v es) = Some b" using a(1) by (simp add: tables_def)
    show ?thesis
    proof (cases "onPointer node \<in> ibOwners b")
      case True
      then have "ownersOf u ?es = ownersOf u es" for u using own rest(4) [of u] owners_seen [OF b] by (cases "u = v") auto
      with True Some a rest(1-3) show ?thesis by (simp add: tables_def)
    next
      case False
      then have "ownersOf v ?es = ownersOf v es @ [(path, node, origin)]" using own owners_seen [OF b] by simp
      with bindingOf_snoc [OF b owners_card(1) [OF b]] have "bindingOf (ownersOf v ?es) = Some (addOwner path origin node b)" by simp
      with False Some a rest show ?thesis by (simp add: tables_def)
    qed
  qed
  moreover have "kept c (?f c)" "icTypes (?f c) = icTypes c" by (auto simp: kept_def split: option.split)
  ultimately show "\<exists>c'. upd ?f c = Some ((), c') \<and> tables c' ?es \<and> metaInv S {} (TypeMetadata (icTypes c')) \<and> kept c c'"
    using a(2) by (simp add: upd_def)
qed

lemma logs_bind: "logs S origin (RecordIdentityBinding S con reference val path owner) (bindEvents S origin reference val path owner)"
proof (cases owner)
  case None
  then show ?thesis using logs_then [OF logs_note logs_ret] by (simp add: RecordIdentityBinding_def bindEvents_def)
next
  case (Some node)
  let ?v = "collapseWhitespace val"
  let ?f = "\<lambda>builtin. if builtin \<noteq> ''ID'' then ret () else upd (\<lambda>c. case icBindings c ?v of
      None \<Rightarrow> c\<lparr>icBindings := (icBindings c)(?v \<mapsto> addOwner path (icOrigin c) node (newBindings path (icOrigin c) node))\<rparr>
    | Some b \<Rightarrow> if onPointer node \<in> ibOwners b then c
        else c\<lparr>icBindings := (icBindings c)(?v \<mapsto> addOwner path (icOrigin c) node b)\<rparr>)"
  have "logs S origin (?f (kindOf S reference)) (bindEvents S origin reference val path owner)"
    using logs_owner [of S origin ?v path node] logs_ret [of S origin] by (simp add: bindEvents_def Some)
  from logs_then [OF logs_note [of S origin con reference] logs_kind [where f = ?f, OF this]] show ?thesis
    unfolding RecordIdentityBinding_def Let_def by (simp add: Some)
qed

lemma logs_element:
  "logs S origin (RecordElementIdentity S con decl actual val path owner valid) (elementEvents S origin decl actual val path owner valid)"
  using logs_then [OF logs_record logs_bind] logs_then [OF logs_ret logs_bind]
  unfolding RecordElementIdentity_def elementEvents_def by (cases valid) auto

lemma logs_skip: "logs S origin (SkipIdentityChildren children) []"
  by (auto simp: logs_def SkipIdentityChildren_def upd_def ret_def tables_def kept_def)

text \<open>
  The contexts an assessment reaches, with the events recorded so far. Between two recordings the rest of the
  assessment may change everything but the tables.
\<close>

inductive recorded :: "schemaData \<Rightarrow> identityEvent list \<Rightarrow> IdentityContext \<Rightarrow> bool" for S where
  rec_new: "icEntries c = [] \<Longrightarrow> icEntrySeen c = {} \<Longrightarrow> icReferences c = [] \<Longrightarrow> icBindings c = Map.empty \<Longrightarrow>
    metaInv S {} (TypeMetadata (icTypes c)) \<Longrightarrow> recorded S [] c"
| rec_record: "recorded S es c \<Longrightarrow> RecordIdentity S con reference val path c = Some ((), c') \<Longrightarrow>
    recorded S (es @ recordEvents S (icOrigin c) reference val path) c'"
| rec_bind: "recorded S es c \<Longrightarrow> RecordIdentityBinding S con reference val path owner c = Some ((), c') \<Longrightarrow>
    recorded S (es @ bindEvents S (icOrigin c) reference val path owner) c'"
| rec_element: "recorded S es c \<Longrightarrow> RecordElementIdentity S con decl actual val path owner valid c = Some ((), c') \<Longrightarrow>
    recorded S (es @ elementEvents S (icOrigin c) decl actual val path owner valid) c'"
| rec_skip: "recorded S es c \<Longrightarrow> SkipIdentityChildren children c = Some ((), c') \<Longrightarrow> recorded S es c'"
| rec_other: "recorded S es c \<Longrightarrow> icEntries c' = icEntries c \<Longrightarrow> icEntrySeen c' = icEntrySeen c \<Longrightarrow> icReferences c' = icReferences c \<Longrightarrow>
    icBindings c' = icBindings c \<Longrightarrow> metaInv S {} (TypeMetadata (icTypes c')) \<Longrightarrow> recorded S es c'"

definition paired :: "identityEvent list \<Rightarrow> bool" where
  "paired es \<longleftrightarrow> irValue ` set (refsOf es) \<subseteq> ieValue ` set (seedsOf es) \<and>
     (\<forall>x \<in> set (seedsOf es). ieConstraint x \<noteq> ''ID'' \<longrightarrow> ieValue x \<in> irValue ` set (refsOf es))"

lemma paired_append: "paired es \<Longrightarrow> paired es' \<Longrightarrow> paired (es @ es')"
  by (auto simp: paired_def)

lemma paired_refs: "paired (concat (map (refEvents origin path) vs))"
  by (induction vs) (auto simp: paired_def refEvents_def)

lemma paired_record: "paired (recordEvents S origin reference val path)"
  using paired_refs [of origin path "[normalizeWhitespace (kindOf S reference) val]"]
    paired_refs [of origin path "splitList (normalizeWhitespace (kindOf S reference) val)"]
  by (auto simp: recordEvents_def Let_def) (auto simp: paired_def)

lemma paired_bind: "paired (bindEvents S origin reference val path owner)"
  by (simp add: bindEvents_def paired_def split: option.split)

lemma paired_element: "paired (elementEvents S origin decl actual val path owner valid)"
  using paired_append [OF paired_record paired_bind] paired_bind by (simp add: elementEvents_def)

lemma logsD:
  "logs S (icOrigin c) x new \<Longrightarrow> tables c es \<Longrightarrow> metaInv S {} (TypeMetadata (icTypes c)) \<Longrightarrow>
   \<exists>c'. x c = Some ((), c') \<and> tables c' (es @ new) \<and> metaInv S {} (TypeMetadata (icTypes c')) \<and> kept c c'"
  unfolding logs_def by blast

lemma recorded_tables: "recorded S es c \<Longrightarrow> tables c es \<and> metaInv S {} (TypeMetadata (icTypes c)) \<and> paired es"
proof (induction rule: recorded.induct)
  case (rec_new c)
  then show ?case by (simp add: tables_def entriesOf_def ownersOf_def bindingOf_def paired_def)
next
  case (rec_record es c con reference val path c')
  then show ?case using logsD [OF logs_record [of S _ con reference val path], of c es] paired_record paired_append by fastforce
next
  case (rec_bind es c con reference val path owner c')
  then show ?case using logsD [OF logs_bind [of S _ con reference val path owner], of c es] paired_bind paired_append by fastforce
next
  case (rec_element es c con decl actual val path owner valid c')
  then show ?case using logsD [OF logs_element [of S _ con decl actual val path owner valid], of c es] paired_element paired_append by fastforce
next
  case (rec_skip es c children c')
  then show ?case using logsD [OF logs_skip [of S _ children], of c es] by fastforce
next
  case (rec_other es c c')
  then show ?case by (simp add: tables_def)
qed

end
