(* ===== verification/Xsd_Reports.thy ===== *)
theory Xsd_Reports
  imports Xsd_Uniqueness
begin

text \<open>
  The diagnostics over the identity tables: which ones there are for a sequence of events, that the check
  delivers exactly these to the context or to the run, that a run reports each of them once however often it
  is asked until it is closed, over all sessions of its clients, and what the resolution of one value answers.
\<close>

section \<open>Expected diagnostics\<close>

type_synonym identityReport = "identityDiagnostic \<times> identityOrigin \<times> Issue"

abbreviation issueOf :: "identityReport \<Rightarrow> Issue" where
  "issueOf r \<equiv> snd (snd r)"

definition duplicateReport :: "nat \<Rightarrow> string \<Rightarrow> string \<times> OwnerNode \<times> identityOrigin \<Rightarrow> string \<times> OwnerNode \<times> identityOrigin \<Rightarrow> identityReport" where
  "duplicateReport i v = (\<lambda>(first, _, _) (second, _, origin). ((1, i), origin, \<lparr> isPath = second, isConstraint = ''ID'',
     isMessage = Formatted ''duplicate ID %q; first bound at %s'' [FmtText v, FmtText first] \<rparr>))"

definition unboundReport :: "nat \<Rightarrow> IdentityEntry \<Rightarrow> identityReport" where
  "unboundReport i e = ((1, i), ieOrigin e, \<lparr> isPath = iePath e, isConstraint = ''ID'',
     isMessage = Formatted ''ID %q has no containing element binding in the document'' [FmtText (ieValue e)] \<rparr>)"

definition danglingReport :: "nat \<Rightarrow> IdentityReference \<Rightarrow> identityReport" where
  "danglingReport i r = ((2, i), irOrigin r, \<lparr> isPath = irPath r, isConstraint = ''IDREF'',
     isMessage = Formatted ''IDREF %q does not identify an element in the document'' [FmtText (irValue r)] \<rparr>)"

definition entryReports :: "bool \<Rightarrow> identityEvent list \<Rightarrow> nat \<times> IdentityEntry \<Rightarrow> identityReport list" where
  "entryReports whole es = (\<lambda>(i, e).
     case ownersOf (ieValue e) es of
       first # second # _ \<Rightarrow> [duplicateReport i (ieValue e) first second]
     | [_] \<Rightarrow> []
     | [] \<Rightarrow> if whole \<and> ieConstraint e = ''ID'' then [unboundReport i e] else [])"

definition referenceReports :: "identityEvent list \<Rightarrow> nat \<times> IdentityReference \<Rightarrow> identityReport list" where
  "referenceReports es = (\<lambda>(i, r). if ownersOf (irValue r) es = [] then [danglingReport i r] else [])"

definition expectedReports :: "bool \<Rightarrow> identityEvent list \<Rightarrow> identityReport list" where
  "expectedReports whole es = concat (map (entryReports whole es) (enumerate 0 (entriesOf es))) @
     (if whole then concat (map (referenceReports es) (enumerate 0 (refsOf es))) else [])"

text \<open>In a complete document nothing is reported exactly when every value names one element.\<close>

lemma no_reports:
  assumes "paired es"
  shows "expectedReports True es = [] \<longleftrightarrow> (\<forall>x \<in> set (seedsOf es). length (ownersOf (ieValue x) es) = 1)"
proof
  assume none: "expectedReports True es = []"
  have e: "entryReports True es (i, x) = []" if "(i, x) \<in> set (enumerate 0 (entriesOf es))" for i x
    using none that by (auto simp: expectedReports_def)
  have r: "ownersOf (irValue r) es \<noteq> []" if r: "r \<in> set (refsOf es)" for r
  proof -
    obtain i where "i < length (refsOf es)" "refsOf es ! i = r" using r by (auto simp: in_set_conv_nth)
    then have "(i, r) \<in> set (enumerate 0 (refsOf es))" by (auto simp: in_set_enumerate_eq)
    then show ?thesis using none by (auto simp: expectedReports_def referenceReports_def split: if_splits)
  qed
  show "\<forall>x \<in> set (seedsOf es). length (ownersOf (ieValue x) es) = 1"
  proof
    fix x
    assume "x \<in> set (seedsOf es)"
    then have "ieValue x \<in> ieValue ` set (entriesOf es)" using keepFirst_keys [of ieValue "{}" "seedsOf es"] by (auto simp: entriesOf_def)
    then obtain y where y: "y \<in> set (entriesOf es)" "ieValue y = ieValue x" by auto
    then obtain i where "i < length (entriesOf es)" "entriesOf es ! i = y" by (auto simp: in_set_conv_nth)
    then have "(i, y) \<in> set (enumerate 0 (entriesOf es))" by (auto simp: in_set_enumerate_eq)
    from e [OF this] have one: "length (ownersOf (ieValue x) es) = 1 \<or> ownersOf (ieValue x) es = [] \<and> ieConstraint y \<noteq> ''ID''"
      by (auto simp: entryReports_def y(2) split: list.splits if_splits)
    have "ownersOf (ieValue x) es \<noteq> []" if c: "ieConstraint y \<noteq> ''ID''"
    proof -
      have "y \<in> set (seedsOf es)" using y(1) keepFirst_subset [of ieValue "{}" "seedsOf es"] by (auto simp: entriesOf_def)
      with assms c y(2) obtain q where "q \<in> set (refsOf es)" "irValue q = ieValue x" by (fastforce simp: paired_def)
      with r show ?thesis by metis
    qed
    with one show "length (ownersOf (ieValue x) es) = 1" by blast
  qed
next
  assume one: "\<forall>x \<in> set (seedsOf es). length (ownersOf (ieValue x) es) = 1"
  have "entryReports True es (i, x) = []" if "(i, x) \<in> set (enumerate 0 (entriesOf es))" for i x
  proof -
    have "x \<in> set (entriesOf es)" using that by (auto simp: in_set_enumerate_eq)
    then have "x \<in> set (seedsOf es)" using keepFirst_subset [of ieValue "{}" "seedsOf es"] by (auto simp: entriesOf_def)
    with one have "length (ownersOf (ieValue x) es) = 1" by blast
    then obtain k where "ownersOf (ieValue x) es = [k]" by (auto simp: length_Suc_conv)
    then show ?thesis by (simp add: entryReports_def)
  qed
  moreover have "referenceReports es (i, r) = []" if "(i, r) \<in> set (enumerate 0 (refsOf es))" for i r
  proof -
    have "r \<in> set (refsOf es)" using that by (auto simp: in_set_enumerate_eq)
    then have "irValue r \<in> ieValue ` set (seedsOf es)" using assms unfolding paired_def by blast
    then obtain x where "x \<in> set (seedsOf es)" "ieValue x = irValue r" by auto
    with one have "length (ownersOf (irValue r) es) = 1" by metis
    then have "ownersOf (irValue r) es \<noteq> []" by (cases "ownersOf (irValue r) es") simp_all
    then show ?thesis by (simp add: referenceReports_def)
  qed
  ultimately show "expectedReports True es = []" by (auto simp: expectedReports_def)
qed

section \<open>Delivery\<close>

definition applyReport :: "identityReport \<Rightarrow> identityRun \<Rightarrow> identityRun" where
  "applyReport = (\<lambda>(diagnostic, source, issue) r.
     case rnOutput r of None \<Rightarrow> r | Some out \<Rightarrow> identityDetail source diagnostic issue r out)"

definition reporting :: "IdentityContext \<Rightarrow> bool" where
  "reporting c \<longleftrightarrow> (\<exists>r. icRun c = Some r \<and> rnOutput r \<noteq> None)"

text \<open>The reports reach the run that asks for them, or the issues of the context; nothing else changes.\<close>

definition delivered :: "identityReport list \<Rightarrow> IdentityContext \<Rightarrow> IdentityContext \<Rightarrow> bool" where
  "delivered rs c c' \<longleftrightarrow> icEntries c' = icEntries c \<and> icEntrySeen c' = icEntrySeen c \<and> icReferences c' = icReferences c \<and>
     icBindings c' = icBindings c \<and> icIncomplete c' = icIncomplete c \<and> icOrigin c' = icOrigin c \<and> icIdentifiers c' = icIdentifiers c \<and>
     icRun c' = (if reporting c then map_option (fold applyReport rs) (icRun c) else icRun c) \<and>
     icTypes c' = (icTypes c)\<lparr>Issues := Issues (icTypes c) @ (if reporting c then [] else map issueOf rs)\<rparr>"

definition reports :: "(IdentityContext \<Rightarrow> bool) \<Rightarrow> unit iact \<Rightarrow> identityReport list \<Rightarrow> bool" where
  "reports K x rs \<longleftrightarrow> (\<forall>c. K c \<longrightarrow> (\<exists>c'. x c = Some ((), c') \<and> delivered rs c c'))"

lemma applyReport_output: "rnOutput r \<noteq> None \<Longrightarrow> rnOutput (applyReport rp r) \<noteq> None"
  by (auto simp: applyReport_def identityDetail_def Let_def split: prod.split option.split)

lemma fold_output: "rnOutput r \<noteq> None \<Longrightarrow> rnOutput (fold applyReport rs r) \<noteq> None"
proof (induction rs arbitrary: r)
  case (Cons rp rs)
  show ?case using Cons.IH [OF applyReport_output [OF Cons.prems]] by simp
qed simp

lemma delivered_reporting: "delivered rs c c' \<Longrightarrow> reporting c' = reporting c"
  using fold_output [of "the (icRun c)" rs] by (auto simp: delivered_def reporting_def)

lemma delivered_trans:
  assumes "delivered rs c c'" "delivered rs' c' c''"
  shows "delivered (rs @ rs') c c''"
  using assms delivered_reporting [OF assms(1)] by (auto simp: delivered_def option.map_comp comp_def)

definition unchanged :: "identityEvent list \<Rightarrow> bool \<Rightarrow> IdentityContext \<Rightarrow> bool" where
  "unchanged es whole c \<longleftrightarrow> tables c es \<and> whole = (AssessmentErr (icTypes c) = [] \<and> \<not> icIncomplete c)"

lemma unchanged_delivered: "delivered rs c c' \<Longrightarrow> unchanged es whole c \<Longrightarrow> unchanged es whole c'"
  by (simp add: delivered_def unchanged_def tables_def)

lemma reports_ret: "reports K (ret ()) []"
  by (simp add: reports_def ret_def delivered_def reporting_def option.map_id cong: if_cong)

lemma reports_then:
  "reports (unchanged es whole) x rs \<Longrightarrow> reports (unchanged es whole) y rs' \<Longrightarrow> reports (unchanged es whole) (bnd x (\<lambda>_. y)) (rs @ rs')"
  unfolding reports_def bnd_def
proof (intro allI impI)
  fix c
  assume x: "\<forall>c. unchanged es whole c \<longrightarrow> (\<exists>c'. x c = Some ((), c') \<and> delivered rs c c')"
    and y: "\<forall>c. unchanged es whole c \<longrightarrow> (\<exists>c'. y c = Some ((), c') \<and> delivered rs' c c')" and c: "unchanged es whole c"
  from x c obtain c1 where c1: "x c = Some ((), c1)" "delivered rs c c1" by blast
  from y unchanged_delivered [OF c1(2) c] obtain c2 where c2: "y c1 = Some ((), c2)" "delivered rs' c1 c2" by blast
  from c1(1) c2(1) delivered_trans [OF c1(2) c2(2)]
  show "\<exists>c'. (case x c of None \<Rightarrow> None | Some (a, m) \<Rightarrow> y m) = Some ((), c') \<and> delivered (rs @ rs') c c'" by simp
qed

lemma reports_each:
  assumes "\<And>x. x \<in> set xs \<Longrightarrow> reports (unchanged es whole) (f x) (g x)"
  shows "reports (unchanged es whole) (each (\<lambda>x _. f x) xs ()) (concat (map g xs))"
  using assms
proof (induction xs)
  case (Cons x xs)
  have "each (\<lambda>x _. f x) (x # xs) () = bnd (f x) (\<lambda>_. each (\<lambda>x _. f x) xs ())" by (simp add: bnd_def fun_eq_iff split: option.split)
  moreover have "reports (unchanged es whole) (bnd (f x) (\<lambda>_. each (\<lambda>x _. f x) xs ())) (g x @ concat (map g xs))"
    by (rule reports_then) (use Cons in auto)
  ultimately show ?case by simp
qed (simp add: reports_ret)

lemma proved_detail:
  "identityDetail source d issue (r\<lparr> rnValid := False, rnOutput := Some (out\<lparr>orValid := False\<rparr>) \<rparr>) (out\<lparr>orValid := False\<rparr>) =
   identityDetail source d issue r out"
  by (simp add: identityDetail_def Let_def)

lemma reportIdentity_delivers:
  assumes "k = ''ID'' \<or> k = ''IDREF''"
  shows "\<exists>c'. reportIdentity source path k msg c = Some ((), c') \<and>
    delivered [(icDiagnostic c, source, \<lparr> isPath = path, isConstraint = k, isMessage = msg \<rparr>)] c c'"
proof (cases "reporting c")
  case True
  then obtain r out where r: "icRun c = Some r" "rnOutput r = Some out" by (auto simp: reporting_def)
  with True show ?thesis
    by (simp add: reportIdentity_def proveIdentityFailure_def addIdentityIssue_def act_simps delivered_def applyReport_def proved_detail)
next
  case False
  then have "icRun c = None \<or> (\<exists>r. icRun c = Some r \<and> rnOutput r = None)" by (auto simp: reporting_def)
  then show ?thesis using assms False
    by (auto simp: reportIdentity_def proveIdentityFailure_def addIdentityIssue_def act_simps delivered_def onTypes_def AddIssue_def)
qed

lemma delivered_diagnostic: "delivered rs (c\<lparr>icDiagnostic := d\<rparr>) c' \<longleftrightarrow> delivered rs c c'"
proof -
  have "reporting (c\<lparr>icDiagnostic := d\<rparr>) = reporting c" by (simp add: reporting_def)
  then show ?thesis by (simp add: delivered_def)
qed

lemma checkEntry_reports: "reports (unchanged es whole) (checkEntry (i, e)) (entryReports whole es (i, e))"
  unfolding reports_def
proof (intro allI impI)
  fix c
  assume u: "unchanged es whole c"
  let ?c = "c\<lparr>icDiagnostic := (1, i)\<rparr>" and ?ks = "ownersOf (ieValue e) es"
  have b: "icBindings c (ieValue e) = bindingOf ?ks" and w: "whole = (AssessmentErr (icTypes c) = [] \<and> \<not> icIncomplete c)"
    using u by (simp_all add: unchanged_def tables_def)
  have none: "\<exists>c'. Some ((), ?c) = Some ((), c') \<and> delivered [] c c'"
    by (simp add: delivered_def reporting_def option.map_id cong: if_cong)
  show "\<exists>c'. checkEntry (i, e) c = Some ((), c') \<and> delivered (entryReports whole es (i, e)) c c'"
  proof (cases "bindingOf ?ks")
    case None
    then have "?ks = []" by (simp add: bindingOf_none)
    with None b w none reportIdentity_delivers [of "''ID''" "ieOrigin e" "iePath e" "Formatted ''ID %q has no containing element binding in the document'' [FmtText (ieValue e)]" ?c]
    show ?thesis by (auto simp: checkEntry_def act_simps entryReports_def unboundReport_def delivered_diagnostic)
  next
    case (Some bs)
    note ks = owners_card [OF Some]
    show ?thesis
    proof (cases ?ks rule: remdups_adj.cases)
      case (2 k)
      with Some b ks none show ?thesis by (simp add: checkEntry_def act_simps entryReports_def)
    next
      case (3 k k' rest)
      obtain p1 n1 o1 p2 n2 o2 where k: "k = (p1, n1, o1)" "k' = (p2, n2, o2)" by (metis prod_cases3)
      then have "ibFirstPath bs = p1" "ibSecondPath bs = p2" "ibSecondOrigin bs = o2" using Some 3 by (auto simp: bindingOf_def)
      with Some b ks 3 k reportIdentity_delivers [of "''ID''" o2 p2 "Formatted ''duplicate ID %q; first bound at %s'' [FmtText (ieValue e), FmtText p1]" ?c]
      show ?thesis by (auto simp: checkEntry_def act_simps entryReports_def duplicateReport_def delivered_diagnostic)
    qed (use ks in simp)
  qed
qed

lemma checkReference_reports: "reports (unchanged es whole) (checkReference (i, r)) (referenceReports es (i, r))"
  unfolding reports_def
proof (intro allI impI)
  fix c
  assume u: "unchanged es whole c"
  let ?c = "c\<lparr>icDiagnostic := (2, i)\<rparr>"
  have b: "icBindings c (irValue r) = None \<longleftrightarrow> ownersOf (irValue r) es = []" using u by (simp add: unchanged_def tables_def bindingOf_none)
  have none: "\<exists>c'. Some ((), ?c) = Some ((), c') \<and> delivered [] c c'"
    by (simp add: delivered_def reporting_def option.map_id cong: if_cong)
  with b reportIdentity_delivers [of "''IDREF''" "irOrigin r" "irPath r" "Formatted ''IDREF %q does not identify an element in the document'' [FmtText (irValue r)]" ?c]
  show "\<exists>c'. checkReference (i, r) c = Some ((), c') \<and> delivered (referenceReports es (i, r)) c c'"
    by (auto simp: checkReference_def act_simps referenceReports_def danglingReport_def delivered_diagnostic)
qed

lemma Validate_reports:
  assumes "unchanged es whole c"
  shows "\<exists>c'. ValidateIdentityReferences c = Some ((), c') \<and> delivered (expectedReports whole es) c c'"
proof -
  have t: "icEntries c = entriesOf es" using assms by (simp add: unchanged_def tables_def)
  have "reports (unchanged es whole) (each (\<lambda>entry _. checkEntry entry) (enumerate 0 (entriesOf es)) ())
      (concat (map (entryReports whole es) (enumerate 0 (entriesOf es))))"
    by (rule reports_each) (metis checkEntry_reports surj_pair)
  then obtain c1 where c1: "each (\<lambda>entry _. checkEntry entry) (enumerate 0 (entriesOf es)) () c = Some ((), c1)"
    "delivered (concat (map (entryReports whole es) (enumerate 0 (entriesOf es)))) c c1"
    using assms unfolding reports_def by blast
  have u: "unchanged es whole c1" by (rule unchanged_delivered [OF c1(2) assms])
  then have w: "(AssessmentErr (icTypes c1) \<noteq> [] \<or> icIncomplete c1) \<longleftrightarrow> \<not> whole" and r: "icReferences c1 = refsOf es"
    by (auto simp: unchanged_def tables_def)
  have "reports (unchanged es whole) (each (\<lambda>reference _. checkReference reference) (enumerate 0 (refsOf es)) ())
      (concat (map (referenceReports es) (enumerate 0 (refsOf es))))"
    by (rule reports_each) (metis checkReference_reports surj_pair)
  then obtain c2 where c2: "each (\<lambda>reference _. checkReference reference) (enumerate 0 (refsOf es)) () c1 = Some ((), c2)"
    "delivered (concat (map (referenceReports es) (enumerate 0 (refsOf es)))) c1 c2"
    using u unfolding reports_def by blast
  show ?thesis
  proof (cases whole)
    case True
    with c1 c2 t w r delivered_trans [OF c1(2) c2(2)] show ?thesis
      by (simp add: ValidateIdentityReferences_def act_simps expectedReports_def)
  next
    case False
    with c1 t w show ?thesis by (simp add: ValidateIdentityReferences_def act_simps expectedReports_def)
  qed
qed

lemma recorded_delivered: "recorded S es c \<Longrightarrow> delivered rs c c' \<Longrightarrow> recorded S es c'"
proof -
  assume r: "recorded S es c" and d: "delivered rs c c'"
  have "metaInv S {} (TypeMetadata (icTypes c'))" using recorded_tables [OF r] d by (simp add: delivered_def)
  with d show ?thesis by (intro rec_other [OF r]) (simp_all add: delivered_def)
qed

section \<open>A run\<close>

text \<open>The findings of a run: kept in order, grouped by subject, valid exactly as long as there are none.\<close>

definition runOK :: "identityRun \<Rightarrow> bool" where
  "runOK r \<longleftrightarrow> (rnValid r \<longleftrightarrow> rnIssues r = []) \<and> (rnSeen r = {} \<longleftrightarrow> rnIssues r = []) \<and>
     (\<forall>id. case rnResults r id of None \<Rightarrow> \<forall>d \<in> set (rnIssues r). dSubject d \<noteq> id
       | Some v \<Rightarrow> \<not> rsValid v \<and> rsIssues v = filter (\<lambda>d. dSubject d = id) (rnIssues r) \<and> rsIssues v \<noteq> [])"

lemma runOK_update [simp]: "runOK (r\<lparr>rnOutput := w\<rparr>) = runOK r" "runOK (r\<lparr>rnInputComplete := b\<rparr>) = runOK r"
  by (simp_all add: runOK_def cong: option.case_cong)

definition detailOf :: "identityReport \<Rightarrow> Detail" where
  "detailOf = (\<lambda>(_, source, issue). \<lparr> dIssue = issue, dSubject = ioSubject source, dAttribute = ioAttribute source \<rparr>)"

definition outputOK :: "identityRun \<Rightarrow> bool \<Rightarrow> bool" where
  "outputOK r whole \<longleftrightarrow> rnOutput r = Some \<lparr> orIssues = rnIssues r, orValid = rnValid r, orComplete = whole \<rparr>"

definition reported :: "identityReport list \<Rightarrow> bool \<Rightarrow> identityRun \<Rightarrow> identityRun \<Rightarrow> bool" where
  "reported rs whole r r' \<longleftrightarrow> outputOK r' whole \<and> runOK r' \<and> rnSeen r' = rnSeen r \<union> fst ` set rs \<and>
     rnIssues r' = rnIssues r @ map detailOf (filter (\<lambda>rp. fst rp \<notin> rnSeen r) rs) \<and> rnValid r' = (rnValid r \<and> rs = []) \<and>
     rnClosed r' = rnClosed r \<and> rnFinalized r' = rnFinalized r \<and> rnInputComplete r' = rnInputComplete r"

lemma applyReport_reported:
  assumes "runOK r" "outputOK r whole"
  shows "reported [rp] whole r (applyReport rp r)"
proof -
  obtain d source issue where rp: "rp = (d, source, issue)" by (rule prod_cases3)
  have out: "rnOutput r = Some \<lparr> orIssues = rnIssues r, orValid = rnValid r, orComplete = whole \<rparr>" using assms(2) by (simp add: outputOK_def)
  show ?thesis
  proof (cases "d \<in> rnSeen r")
    case True
    then have "\<not> rnValid r" using assms(1) by (auto simp: runOK_def)
    then have "runOK (r\<lparr>rnValid := False, rnOutput := w\<rparr>)" for w using assms(1) by (simp add: runOK_def cong: option.case_cong)
    with True \<open>\<not> rnValid r\<close> show ?thesis by (auto simp: rp applyReport_def out identityDetail_def reported_def outputOK_def)
  next
    case False
    let ?r = "applyReport rp r"
    have eq: "rnIssues ?r = rnIssues r @ [detailOf rp]" "rnSeen ?r = insert d (rnSeen r)" "\<not> rnValid ?r"
      "rnClosed ?r = rnClosed r" "rnFinalized ?r = rnFinalized r" "rnInputComplete ?r = rnInputComplete r" "outputOK ?r whole"
      "rnResults ?r = (rnResults r)(ioSubject source \<mapsto> (let v = (case rnResults r (ioSubject source) of None \<Rightarrow> freshResult | Some v \<Rightarrow> v) in
         v\<lparr> rsValid := False, rsIssues := rsIssues v @ [detailOf rp] \<rparr>))"
      using False by (simp_all add: rp applyReport_def out identityDetail_def Let_def detailOf_def outputOK_def)
    have s: "dSubject (detailOf rp) = ioSubject source" by (simp add: detailOf_def rp)
    have "runOK ?r" unfolding runOK_def
    proof (intro conjI allI)
      fix id
      from assms(1) have old: "case rnResults r id of None \<Rightarrow> \<forall>d \<in> set (rnIssues r). dSubject d \<noteq> id
        | Some v \<Rightarrow> \<not> rsValid v \<and> rsIssues v = filter (\<lambda>d. dSubject d = id) (rnIssues r) \<and> rsIssues v \<noteq> []" by (simp add: runOK_def)
      have "filter (\<lambda>d. dSubject d = id) (rnIssues r) = []" if "\<forall>d \<in> set (rnIssues r). dSubject d \<noteq> id"
        using that by (simp add: filter_empty_conv)
      with old show "case rnResults ?r id of None \<Rightarrow> \<forall>d \<in> set (rnIssues ?r). dSubject d \<noteq> id
        | Some v \<Rightarrow> \<not> rsValid v \<and> rsIssues v = filter (\<lambda>d. dSubject d = id) (rnIssues ?r) \<and> rsIssues v \<noteq> []"
        by (cases "id = ioSubject source"; cases "rnResults r id") (simp_all add: eq s Let_def freshResult_def)
    qed (simp_all add: eq)
    with False eq show ?thesis by (simp add: reported_def rp)
  qed
qed

lemma reported_fold:
  "runOK r \<Longrightarrow> outputOK r whole \<Longrightarrow> distinct (map fst rs) \<Longrightarrow> reported rs whole r (fold applyReport rs r)"
proof (induction rs arbitrary: r)
  case (Cons rp rs)
  note one = applyReport_reported [OF Cons.prems(1,2), of rp]
  then have ih: "reported rs whole (applyReport rp r) (fold applyReport rs (applyReport rp r))"
    using Cons by (simp add: reported_def)
  have new: "filter (\<lambda>x. fst x \<notin> rnSeen (applyReport rp r)) rs = filter (\<lambda>x. fst x \<notin> rnSeen r) rs"
  proof (rule filter_cong)
    fix x
    assume "x \<in> set rs"
    then have "fst x \<noteq> fst rp" using Cons.prems(3) by (metis distinct.simps(2) image_eqI list.set_map list.simps(9))
    then show "fst x \<notin> rnSeen (applyReport rp r) \<longleftrightarrow> fst x \<notin> rnSeen r" using one by (simp add: reported_def)
  qed simp
  from ih one new show ?case by (auto simp: reported_def)
qed (simp add: reported_def)

lemma expected_distinct: "distinct (map fst (expectedReports whole es))"
proof -
  have d: "distinct (map fst (concat (map f (enumerate n xs)))) \<and> fst ` set (concat (map f (enumerate n xs))) \<subseteq> {k} \<times> {n..}"
    if "\<And>i x. map fst (f (i, x)) = [] \<or> map fst (f (i, x)) = [(k, i)]" for f :: "nat \<times> 'x \<Rightarrow> identityReport list" and k n xs
  proof (induction xs arbitrary: n)
    case (Cons x xs)
    have sub: "fst ` set (f (n, x)) \<subseteq> {(k, n)}" "distinct (map fst (f (n, x)))"
      using that [of n x] by (auto simp flip: set_map)
    define R where "R = concat (map f (enumerate (Suc n) xs))"
    have rest: "distinct (map fst R)" "fst ` set R \<subseteq> {k} \<times> {Suc n..}" using Cons.IH [of "Suc n"] by (simp_all add: R_def)
    have "concat (map f (enumerate n (x # xs))) = f (n, x) @ R" by (simp add: R_def)
    moreover have "fst ` set (f (n, x)) \<inter> fst ` set R = {}" using sub(1) rest(2) by fastforce
    moreover have "fst ` set (f (n, x) @ R) \<subseteq> {k} \<times> {n..}" using sub(1) rest(2) by (fastforce simp: image_Un)
    ultimately show ?case using sub(2) rest(1) by simp
  qed simp
  have e: "map fst (entryReports whole es (i, x)) = [] \<or> map fst (entryReports whole es (i, x)) = [(1, i)]" for i x
    by (auto simp: entryReports_def duplicateReport_def unboundReport_def split: list.split prod.split)
  have r: "map fst (referenceReports es (i, x)) = [] \<or> map fst (referenceReports es (i, x)) = [(2, i)]" for i x
    by (simp add: referenceReports_def danglingReport_def)
  note de = d [of "entryReports whole es" 1 0 "entriesOf es", OF e] and dr = d [of "referenceReports es" 2 0 "refsOf es", OF r]
  then have "fst ` set (concat (map (entryReports whole es) (enumerate 0 (entriesOf es)))) \<inter>
      fst ` set (concat (map (referenceReports es) (enumerate 0 (refsOf es)))) = {}" by fastforce
  with de dr show ?thesis unfolding expectedReports_def by (cases whole) simp_all
qed

section \<open>Sessions\<close>

text \<open>
  What the clients of one run do: record while it is open, ask for the findings, finalize and close. The other work of an
  assessment leaves the tables and the run alone.
\<close>

definition openRun :: "IdentityContext \<Rightarrow> bool" where
  "openRun c \<longleftrightarrow> (\<exists>r. icRun c = Some r \<and> \<not> rnClosed r \<and> \<not> rnFinalized r)"

inductive session :: "schemaData \<Rightarrow> identityEvent list \<Rightarrow> IdentityContext \<Rightarrow> bool" for S where
  ses_new: "session S [] (emptyContext (Some newRun))"
| ses_record: "session S es c \<Longrightarrow> openRun c \<Longrightarrow> RecordIdentity S con reference val path c = Some ((), c') \<Longrightarrow>
    session S (es @ recordEvents S (icOrigin c) reference val path) c'"
| ses_bind: "session S es c \<Longrightarrow> openRun c \<Longrightarrow> RecordIdentityBinding S con reference val path owner c = Some ((), c') \<Longrightarrow>
    session S (es @ bindEvents S (icOrigin c) reference val path owner) c'"
| ses_element: "session S es c \<Longrightarrow> openRun c \<Longrightarrow> RecordElementIdentity S con decl actual val path owner valid c = Some ((), c') \<Longrightarrow>
    session S (es @ elementEvents S (icOrigin c) decl actual val path owner valid) c'"
| ses_skip: "session S es c \<Longrightarrow> openRun c \<Longrightarrow> SkipIdentityChildren children c = Some ((), c') \<Longrightarrow> session S es c'"
| ses_other: "session S es c \<Longrightarrow> openRun c \<Longrightarrow> icRun c' = icRun c \<Longrightarrow> icEntries c' = icEntries c \<Longrightarrow> icEntrySeen c' = icEntrySeen c \<Longrightarrow>
    icReferences c' = icReferences c \<Longrightarrow> icBindings c' = icBindings c \<Longrightarrow> metaInv S {} (TypeMetadata (icTypes c')) \<Longrightarrow> session S es c'"
| ses_identity: "session S es c \<Longrightarrow> Identity ctxErr inputComplete c = Some (answer, c') \<Longrightarrow> session S es c'"
| ses_finalize: "session S es c \<Longrightarrow> Finalize ctxErr inputComplete c = Some (answer, c') \<Longrightarrow> session S es c'"
| ses_close: "session S es c \<Longrightarrow> Close released c = Some (answer, c') \<Longrightarrow> session S [] c'"

text \<open>A closed run holds nothing but its verdict.\<close>

definition runState :: "identityEvent list \<Rightarrow> identityRun \<Rightarrow> bool" where
  "runState es r \<longleftrightarrow> rnOutput r = None \<and>
     (if rnClosed r then es = [] \<and> rnIssues r = [] \<and> rnResults r = Map.empty \<and> rnSeen r = {} else runOK r)"

lemma Identity_reports:
  assumes "recorded S es c" "icRun c = Some r" "runState es r" "runCheck r ctxErr = None"
  shows "\<exists>out c' r'. Identity ctxErr inputComplete c = Some ((out, None), c') \<and> recorded S es c' \<and> icIncomplete c' = icIncomplete c \<and>
    icRun c' = Some r' \<and> runState es r' \<and> rnClosed r' = rnClosed r \<and> rnFinalized r' = rnFinalized r \<and> rnInputComplete r' = inputComplete \<and>
    rnIssues r' = rnIssues r @ map detailOf (filter (\<lambda>rp. fst rp \<notin> rnSeen r) (expectedReports (identityComplete inputComplete c) es)) \<and>
    rnSeen r' = rnSeen r \<union> fst ` set (expectedReports (identityComplete inputComplete c) es) \<and>
    out = \<lparr> orIssues = rnIssues r', orValid = (rnValid r \<and> expectedReports (identityComplete inputComplete c) es = []),
      orComplete = identityComplete inputComplete c \<rparr>"
proof -
  let ?w = "identityComplete inputComplete c" and ?b = "beginIdentity inputComplete r c"
  let ?r = "r\<lparr> rnInputComplete := inputComplete, rnOutput := Some \<lparr> orIssues = rnIssues r, orValid = rnValid r, orComplete = ?w \<rparr> \<rparr>"
  have open_run: "\<not> rnClosed r" using assms(4) by (auto simp: runCheck_def split: if_splits)
  then have ok: "runOK r" using assms(3) by (simp add: runState_def)
  have t: "tables c es" using recorded_tables [OF assms(1)] by simp
  have b: "icRun ?b = Some ?r" "reporting ?b" "icTypes ?b = icTypes c" by (simp_all add: beginIdentity_def reporting_def)
  have "unchanged es ?w ?b" using t by (auto simp: unchanged_def beginIdentity_def tables_def identityComplete_def)
  from Validate_reports [OF this] obtain c' where c': "ValidateIdentityReferences ?b = Some ((), c')" "delivered (expectedReports ?w es) ?b c'"
    by blast
  let ?r' = "fold applyReport (expectedReports ?w es) ?r"
  have r': "icRun c' = Some ?r'" using c'(2) b by (simp add: delivered_def)
  have "runOK ?r" using ok by simp
  moreover have "outputOK ?r ?w" by (simp add: outputOK_def)
  ultimately have rep: "reported (expectedReports ?w es) ?w ?r ?r'" by (rule reported_fold [OF _ _ expected_distinct])
  then have out: "rnOutput ?r' = Some \<lparr> orIssues = rnIssues ?r', orValid = rnValid ?r', orComplete = ?w \<rparr>"
    by (simp add: reported_def outputOK_def)
  let ?last = "c'\<lparr> icIncomplete := icIncomplete c, icRun := Some (?r'\<lparr>rnOutput := None\<rparr>) \<rparr>"
  have "Identity ctxErr inputComplete c =
      Some ((\<lparr> orIssues = rnIssues ?r', orValid = rnValid ?r', orComplete = ?w \<rparr>, None), ?last)"
    using assms(2,4) c'(1) r' out by (simp add: Identity_def)
  moreover have "recorded S es ?last"
    by (rule rec_other [OF assms(1)]) (use c'(2) b recorded_tables [OF assms(1)] in \<open>simp_all add: delivered_def beginIdentity_def\<close>)
  moreover have "runState es (?r'\<lparr>rnOutput := None\<rparr>)" using rep open_run by (simp add: reported_def runState_def)
  ultimately show ?thesis using rep by (auto simp: reported_def)
qed

lemma Identity_refused:
  "icRun c = Some r \<Longrightarrow> runCheck r ctxErr = Some err \<Longrightarrow>
   Identity ctxErr inputComplete c = Some ((\<lparr> orIssues = rnIssues r, orValid = rnValid r, orComplete = False \<rparr>, Some err), c)"
  by (simp add: Identity_def)

lemma Identity_state:
  assumes "recorded S es c" "icRun c = Some r" "runState es r" "Identity ctxErr inputComplete c = Some (answer, c')"
  shows "recorded S es c' \<and> (\<exists>r'. icRun c' = Some r' \<and> runState es r')"
proof (cases "runCheck r ctxErr")
  case None
  from Identity_reports [OF assms(1-3) None, of inputComplete] assms(4) show ?thesis by auto
next
  case (Some err)
  from Identity_refused [OF assms(2) this, of inputComplete] assms show ?thesis by simp
qed

lemma logs_session:
  assumes "logs S origin act new" "recorded S es c" "icOrigin c = origin" "act c = Some ((), c')"
  shows "icRun c' = icRun c"
  using assms recorded_tables [OF assms(2)] unfolding logs_def kept_def by force

lemma session_step:
  assumes "\<exists>r. icRun c = Some r \<and> runState es r" "openRun c" "icRun c' = icRun c" "recorded S es' c'"
  shows "recorded S es' c' \<and> (\<exists>r. icRun c' = Some r \<and> runState es' r)"
proof -
  obtain r where r: "icRun c = Some r" "runState es r" using assms(1) by blast
  then have "runState es' r" using assms(2) by (simp add: openRun_def runState_def)
  with r assms(3,4) show ?thesis by simp
qed

lemma session_state: "session S es c \<Longrightarrow> recorded S es c \<and> (\<exists>r. icRun c = Some r \<and> runState es r)"
proof (induction rule: session.induct)
  case ses_new
  then show ?case by (auto intro!: rec_new simp: emptyContext_def empty_metaInv newRun_def runState_def runOK_def)
next
  case (ses_record es c con reference val path c')
  then have r: "recorded S es c" and s: "\<exists>r. icRun c = Some r \<and> runState es r" by simp_all
  show ?case by (rule session_step [OF s ses_record.hyps(2) logs_session [OF logs_record r refl ses_record.hyps(3)] rec_record [OF r ses_record.hyps(3)]])
next
  case (ses_bind es c con reference val path owner c')
  then have r: "recorded S es c" and s: "\<exists>r. icRun c = Some r \<and> runState es r" by simp_all
  show ?case by (rule session_step [OF s ses_bind.hyps(2) logs_session [OF logs_bind r refl ses_bind.hyps(3)] rec_bind [OF r ses_bind.hyps(3)]])
next
  case (ses_element es c con decl actual val path owner valid c')
  then have r: "recorded S es c" and s: "\<exists>r. icRun c = Some r \<and> runState es r" by simp_all
  show ?case by (rule session_step [OF s ses_element.hyps(2) logs_session [OF logs_element r refl ses_element.hyps(3)] rec_element [OF r ses_element.hyps(3)]])
next
  case (ses_skip es c children c')
  then have r: "recorded S es c" and s: "\<exists>r. icRun c = Some r \<and> runState es r" by simp_all
  show ?case by (rule session_step [OF s ses_skip.hyps(2) logs_session [OF logs_skip r refl ses_skip.hyps(3)] rec_skip [OF r ses_skip.hyps(3)]])
next
  case (ses_other es c c')
  then have r: "recorded S es c" and s: "\<exists>r. icRun c = Some r \<and> runState es r" by simp_all
  show ?case by (rule session_step [OF s ses_other.hyps(2,3) rec_other [OF r ses_other.hyps(4-8)]])
next
  case (ses_identity es c ctxErr inputComplete answer c')
  then show ?case using Identity_state by blast
next
  case (ses_finalize es c ctxErr inputComplete answer c')
  then obtain c1 where c1: "Identity ctxErr inputComplete c = Some (answer, c1)" "c' = c1\<lparr>icRun := map_option (\<lambda>r. r\<lparr>rnFinalized := True\<rparr>) (icRun c1)\<rparr>"
    by (auto simp: Finalize_def bnd_def upd_def ret_def split: option.splits)
  then obtain r where r: "recorded S es c1" "icRun c1 = Some r" "runState es r" using ses_finalize Identity_state by blast
  then have "recorded S es c'" by (intro rec_other [OF r(1)]) (use c1(2) recorded_tables [OF r(1)] in simp_all)
  moreover have "runOK (r\<lparr>rnFinalized := True\<rparr>) = runOK r" by (simp add: runOK_def cong: option.case_cong)
  then have "runState es (r\<lparr>rnFinalized := True\<rparr>)" using r(3) by (simp add: runState_def)
  ultimately show ?case using c1(2) r(2) by simp
next
  case (ses_close es c released answer c')
  then obtain r where r: "icRun c = Some r" "runState es r" "recorded S es c" by blast
  show ?case
  proof (cases "rnClosed r")
    case True
    then show ?thesis using r ses_close.hyps(2) by (auto simp: Close_def runState_def)
  next
    case False
    then have c': "c' = emptyContext (Some (r\<lparr> rnClosed := True, rnResults := Map.empty, rnIssues := [], rnSeen := {} \<rparr>))"
      using r(1) ses_close.hyps(2) by (simp add: Close_def)
    have "recorded S [] c'" unfolding c' by (rule rec_new) (simp_all add: emptyContext_def empty_metaInv)
    then show ?thesis using r(2) by (simp add: c' emptyContext_def runState_def)
  qed
qed

section \<open>A sample document\<close>

text \<open>Two elements with the same \<open>xs:ID\<close> value.\<close>

definition emptySchema :: schemaData where
  "emptySchema = \<lparr> simples = [], complexes = [], Types = \<lambda>_. None \<rparr>"

definition idRef :: "TypeRef option" where
  "idRef = Some \<lparr> trName = \<lparr> Space = XSDNamespace, Local = ''ID'' \<rparr>, InlineSimple = None, InlineComplex = None \<rparr>"

definition recordID :: "string \<Rightarrow> nat \<Rightarrow> IdentityContext \<Rightarrow> IdentityContext" where
  "recordID path n c = snd (the (RecordElementIdentity emptySchema (\<lambda>_. False) idRef idRef ''a'' path (Some \<lparr> onPointer = n, onID = n \<rparr>) True c))"

definition twoOwners :: "identityRun option \<Rightarrow> IdentityContext" where
  "twoOwners run = recordID ''/r/y'' 2 (recordID ''/r/x'' 1 (emptyContext run))"

definition idEvents :: "string \<Rightarrow> nat \<Rightarrow> identityEvent list" where
  "idEvents path n = [Seeds \<lparr> ieOrigin = noOrigin, ieValue = ''a'', iePath = path, ieConstraint = ''ID'' \<rparr>,
     Binds ''a'' path \<lparr> onPointer = n, onID = n \<rparr> noOrigin]"

lemma kind_idRef: "kindOf emptySchema idRef = ''ID''"
proof -
  have "map_option fst (IdentityBuiltin emptySchema idRef NewTypeContext) = Some ''ID''" by code_simp
  then show ?thesis using IdentityBuiltin_exact [OF empty_metaInv, of emptySchema idRef] by auto
qed

lemma recordID_recorded:
  assumes "recorded emptySchema es c" "icOrigin c = noOrigin"
  shows "recorded emptySchema (es @ idEvents path n) (recordID path n c) \<and> icOrigin (recordID path n c) = noOrigin \<and>
    RecordElementIdentity emptySchema (\<lambda>_. False) idRef idRef ''a'' path (Some \<lparr> onPointer = n, onID = n \<rparr>) True c = Some ((), recordID path n c) \<and>
    elementEvents emptySchema (icOrigin c) idRef idRef ''a'' path (Some \<lparr> onPointer = n, onID = n \<rparr>) True = idEvents path n \<and>
    icRun (recordID path n c) = icRun c \<and> Issues (icTypes (recordID path n c)) = Issues (icTypes c)"
proof -
  let ?x = "RecordElementIdentity emptySchema (\<lambda>_. False) idRef idRef ''a'' path (Some \<lparr> onPointer = n, onID = n \<rparr>) True"
  let ?new = "elementEvents emptySchema (icOrigin c) idRef idRef ''a'' path (Some \<lparr> onPointer = n, onID = n \<rparr>) True"
  have "collapseWhitespace ''a'' = ''a''" by (simp add: collapse_ascii IsWhitespace_def XMLWhitespace_def)
  then have "normalizeWhitespace ''ID'' ''a'' = ''a''" "collapseWhitespace ''a'' = ''a''" by (simp_all add: normalizeWhitespace_def)
  then have new: "?new = idEvents path n"
    using assms(2) by (simp add: elementEvents_def recordEvents_def bindEvents_def kind_idRef idEvents_def)
  have "\<exists>c'. ?x c = Some ((), c') \<and> tables c' (es @ ?new) \<and> metaInv emptySchema {} (TypeMetadata (icTypes c')) \<and> kept c c'"
    using recorded_tables [OF assms(1)] by (intro logsD [OF logs_element]) simp_all
  then obtain c' where c': "?x c = Some ((), c')" "kept c c'" by blast
  have "recorded emptySchema (es @ ?new) c'" by (rule rec_element [OF assms(1) c'(1)])
  then show ?thesis using c' new assms(2) by (simp add: recordID_def kept_def)
qed

lemma twoOwners_recorded:
  "recorded emptySchema (idEvents ''/r/x'' 1 @ idEvents ''/r/y'' 2) (twoOwners run) \<and> icRun (twoOwners run) = run \<and> Issues (icTypes (twoOwners run)) = []"
proof -
  have "recorded emptySchema [] (emptyContext run)" "icOrigin (emptyContext run) = noOrigin"
    by (auto intro!: rec_new simp: emptyContext_def empty_metaInv)
  note x = recordID_recorded [OF this, of "''/r/x''" 1]
  then show ?thesis using recordID_recorded [of "idEvents ''/r/x'' 1" "recordID ''/r/x'' 1 (emptyContext run)" "''/r/y''" 2]
    by (simp add: twoOwners_def emptyContext_def NewTypeContext_def)
qed

lemma recordID_session:
  assumes "session emptySchema es c" "openRun c" "icOrigin c = noOrigin"
  shows "session emptySchema (es @ idEvents path n) (recordID path n c) \<and> openRun (recordID path n c) \<and> icOrigin (recordID path n c) = noOrigin"
proof -
  have "recorded emptySchema es c" using session_state [OF assms(1)] by auto
  note r = recordID_recorded [OF this assms(3), of path n]
  from r have "session emptySchema (es @ idEvents path n) (recordID path n c)" using ses_element [OF assms(1,2)] by metis
  with r assms(2) show ?thesis by (auto simp: openRun_def)
qed

lemma twoOwners_session: "session emptySchema (idEvents ''/r/x'' 1 @ idEvents ''/r/y'' 2) (twoOwners (Some newRun))"
proof -
  have "openRun (emptyContext (Some newRun))" "icOrigin (emptyContext (Some newRun)) = noOrigin" by (simp_all add: openRun_def newRun_def emptyContext_def)
  from recordID_session [OF ses_new this, of "''/r/x''" 1] recordID_session [of "idEvents ''/r/x'' 1"] show ?thesis by (simp add: twoOwners_def)
qed

section \<open>Properties\<close>

text \<open>
  C9: identity constraints. From every context an assessment reaches, a recording returns on every schema and
  adds exactly the events its types decide: the value of a type derived from xs:ID, xs:IDREF or
  xs:IDREFS, whitespace normalized. The check of the tables adds exactly the expected diagnostics in order:
  a duplicate for a value bound by two elements, an unbound ID and a dangling reference only when the
  assessment is complete. In a complete document nothing is reported exactly when every recorded value is
  bound by one element.
\<close>

theorem identity_issues_exact:
  assumes "recorded S es c" "icRun c = None" "whole = (AssessmentErr (icTypes c) = [] \<and> \<not> icIncomplete c)"
  shows "(\<exists>c'. ValidateIdentityReferences c = Some ((), c') \<and> recorded S es c' \<and>
        Issues (icTypes c') = Issues (icTypes c) @ map issueOf (expectedReports whole es)) \<and>
    (expectedReports True es = [] \<longleftrightarrow> (\<forall>x \<in> set (seedsOf es). length (ownersOf (ieValue x) es) = 1)) \<and>
    (\<exists>c'. RecordElementIdentity S con decl actual val path owner valid c = Some ((), c') \<and>
        recorded S (es @ elementEvents S (icOrigin c) decl actual val path owner valid) c' \<and> Issues (icTypes c') = Issues (icTypes c))"
proof -
  note t = recorded_tables [OF assms(1)]
  have "unchanged es whole c" using t assms(3) by (simp add: unchanged_def)
  from Validate_reports [OF this] obtain c' where c': "ValidateIdentityReferences c = Some ((), c')" "delivered (expectedReports whole es) c c'"
    by blast
  with assms(2) recorded_delivered [OF assms(1) c'(2)]
  have check: "\<exists>c'. ValidateIdentityReferences c = Some ((), c') \<and> recorded S es c' \<and>
      Issues (icTypes c') = Issues (icTypes c) @ map issueOf (expectedReports whole es)"
    by (auto simp: delivered_def reporting_def)
  have none: "expectedReports True es = [] \<longleftrightarrow> (\<forall>x \<in> set (seedsOf es). length (ownersOf (ieValue x) es) = 1)"
    by (rule no_reports) (use t in simp)
  have "\<exists>c'. RecordElementIdentity S con decl actual val path owner valid c = Some ((), c') \<and>
      recorded S (es @ elementEvents S (icOrigin c) decl actual val path owner valid) c' \<and> Issues (icTypes c') = Issues (icTypes c)"
    using logsD [OF logs_element [of S _ con decl actual val path owner valid], of c es] t rec_element [OF assms(1)]
    unfolding kept_def by blast
  with check none show ?thesis by blast
qed

theorem identity_issues_exact_witness:
  "\<exists>c'. ValidateIdentityReferences (twoOwners None) = Some ((), c') \<and> map isPath (Issues (icTypes c')) = [''/r/y'']"
proof -
  let ?es = "idEvents ''/r/x'' 1 @ idEvents ''/r/y'' 2" and ?w = "AssessmentErr (icTypes (twoOwners None)) = [] \<and> \<not> icIncomplete (twoOwners None)"
  have two: "recorded emptySchema ?es (twoOwners None)" "icRun (twoOwners None) = None" "Issues (icTypes (twoOwners None)) = []"
    using twoOwners_recorded [of None] by auto
  from conjunct1 [OF identity_issues_exact [OF two(1,2) refl]] obtain c' where c': "ValidateIdentityReferences (twoOwners None) = Some ((), c')"
    "Issues (icTypes c') = map issueOf (expectedReports ?w ?es)" using two(3) by auto
  have "map (isPath \<circ> issueOf) (expectedReports w ?es) = [''/r/y'']" for w by (cases w) (simp, code_simp)+
  with c' show ?thesis by simp
qed

text \<open>
  C10: the findings of a run are cumulative until it is closed. In every state a session reaches, Identity on an open run
  with a live context returns and appends exactly the diagnostics that were not reported before to the issues it already
  gave out, each once however often it is asked; an open run has its findings grouped by subject and is valid exactly as long
  as nothing was ever found, and absence is reported only when the input and the assessment are complete. With a dead context
  or on a finalized run Identity returns the earlier findings with the error and changes nothing. Finalize gives the answer of
  Identity and seals the run. Close discards the
  findings: from then on every answer is an error without issues that keeps only the verdict, and a second Close is an error.
\<close>

theorem identity_reports_cumulative:
  assumes "session S es c" "icRun c = Some r" "whole = (inputComplete \<and> \<not> icIncomplete c \<and> AssessmentErr (icTypes c) = [])"
  shows "(case (if rnClosed r \<or> rnFinalized r then Some ''xsd: run is closed or finalized'' else ctxErr) of
      Some err \<Rightarrow> Identity ctxErr inputComplete c = Some ((\<lparr> orIssues = rnIssues r, orValid = rnValid r, orComplete = False \<rparr>, Some err), c)
    | None \<Rightarrow> \<exists>out c' r'. Identity ctxErr inputComplete c = Some ((out, None), c') \<and> session S es c' \<and> icIncomplete c' = icIncomplete c \<and>
        icRun c' = Some r' \<and> rnInputComplete r' = inputComplete \<and>
        rnIssues r' = rnIssues r @ map detailOf (filter (\<lambda>rp. fst rp \<notin> rnSeen r) (expectedReports whole es)) \<and>
        rnSeen r' = rnSeen r \<union> fst ` set (expectedReports whole es) \<and>
        out = \<lparr> orIssues = rnIssues r', orValid = (rnValid r \<and> expectedReports whole es = []), orComplete = whole \<rparr>) \<and>
    (if rnClosed r then rnIssues r = [] \<and> rnResults r = Map.empty else runOK r) \<and>
    (\<exists>answer c1 c' r'. Identity ctxErr inputComplete c = Some (answer, c1) \<and> Finalize ctxErr inputComplete c = Some (answer, c') \<and>
      icRun c' = Some r' \<and> rnFinalized r') \<and>
    (\<exists>c'. Close released c = Some (if rnClosed r then Some ''xsd: repeated or nil close'' else released, c') \<and>
      (\<forall>e b. Identity e b c' = Some ((\<lparr> orIssues = [], orValid = rnValid r, orComplete = False \<rparr>, Some ''xsd: run is closed or finalized''), c')))"
    (is "?answer \<and> ?held \<and> ?sealing \<and> ?closing")
proof (intro conjI)
  have s: "recorded S es c" "runState es r" using session_state [OF assms(1)] assms(2) by auto
  have check: "(if rnClosed r \<or> rnFinalized r then Some ''xsd: run is closed or finalized'' else ctxErr) = runCheck r ctxErr"
    by (simp add: runCheck_def)
  have whole: "identityComplete inputComplete c = whole" using assms(3) by (simp add: identityComplete_def)
  note reports = Identity_reports [OF s(1) assms(2) s(2), of ctxErr inputComplete, unfolded whole]
  show ?answer unfolding check
  proof (cases "runCheck r ctxErr")
    case None
    from reports [OF this] obtain out c' r' where
      x: "Identity ctxErr inputComplete c = Some ((out, None), c')" "icIncomplete c' = icIncomplete c" "icRun c' = Some r'"
        "rnInputComplete r' = inputComplete"
        "rnIssues r' = rnIssues r @ map detailOf (filter (\<lambda>rp. fst rp \<notin> rnSeen r) (expectedReports whole es))"
        "rnSeen r' = rnSeen r \<union> fst ` set (expectedReports whole es)"
        "out = \<lparr> orIssues = rnIssues r', orValid = (rnValid r \<and> expectedReports whole es = []), orComplete = whole \<rparr>" by blast
    then show "case runCheck r ctxErr of
      Some err \<Rightarrow> Identity ctxErr inputComplete c = Some ((\<lparr> orIssues = rnIssues r, orValid = rnValid r, orComplete = False \<rparr>, Some err), c)
    | None \<Rightarrow> \<exists>out c' r'. Identity ctxErr inputComplete c = Some ((out, None), c') \<and> session S es c' \<and> icIncomplete c' = icIncomplete c \<and>
        icRun c' = Some r' \<and> rnInputComplete r' = inputComplete \<and>
        rnIssues r' = rnIssues r @ map detailOf (filter (\<lambda>rp. fst rp \<notin> rnSeen r) (expectedReports whole es)) \<and>
        rnSeen r' = rnSeen r \<union> fst ` set (expectedReports whole es) \<and>
        out = \<lparr> orIssues = rnIssues r', orValid = (rnValid r \<and> expectedReports whole es = []), orComplete = whole \<rparr>" unfolding None option.case
      by (intro exI [of _ out] exI [of _ c'] exI [of _ r'] conjI ses_identity [OF assms(1) x(1)])
  qed (simp add: Identity_refused [OF assms(2)])
  show ?held using s(2) by (simp add: runState_def)
  obtain answer c1 where i: "Identity ctxErr inputComplete c = Some (answer, c1)"
    using reports Identity_refused [OF assms(2)] by (cases "runCheck r ctxErr") blast+
  then obtain r1 where "icRun c1 = Some r1" using Identity_state [OF s(1) assms(2) s(2)] by blast
  with i show ?sealing by (simp add: Finalize_def bnd_def upd_def ret_def)
  show ?closing
    using assms(2) s(2) by (cases "rnClosed r") (auto simp: Close_def Identity_def runCheck_def runState_def emptyContext_def)
qed

theorem identity_reports_cumulative_witness:
  "\<exists>out c' c''. Identity None False (twoOwners (Some newRun)) = Some ((out, None), c') \<and>
    map (\<lambda>d. isPath (dIssue d)) (orIssues out) = [''/r/y''] \<and> \<not> orValid out \<and> Close None c' = Some (None, c'') \<and>
    Identity None False c'' = Some ((\<lparr> orIssues = [], orValid = False, orComplete = False \<rparr>, Some ''xsd: run is closed or finalized''), c'')"
proof -
  let ?es = "idEvents ''/r/x'' 1 @ idEvents ''/r/y'' 2" and ?c = "twoOwners (Some newRun)"
  have run: "icRun ?c = Some newRun" "(if rnClosed newRun \<or> rnFinalized newRun then Some ''xsd: run is closed or finalized'' else None) = None"
    using twoOwners_recorded by (simp_all add: newRun_def)
  from conjunct1 [OF identity_reports_cumulative [OF twoOwners_session run(1) refl, where ctxErr = None and inputComplete = False and released = None]] obtain out c' r' where
    r: "Identity None False ?c = Some ((out, None), c')" "session emptySchema ?es c'" "icRun c' = Some r'" "orIssues out = rnIssues r'"
      "orIssues out = map detailOf (expectedReports False ?es)" "orValid out = (expectedReports False ?es = [])"
    unfolding run(2) option.case by (auto simp: newRun_def)
  have paths: "map (\<lambda>rp. isPath (dIssue (detailOf rp))) (expectedReports w ?es) = [''/r/y'']" for w by (cases w) (simp, code_simp)+
  then have found: "expectedReports w ?es \<noteq> []" for w by (metis list.map_disc_iff list.distinct(1))
  have out: "map (\<lambda>d. isPath (dIssue d)) (orIssues out) = [''/r/y'']" "\<not> orValid out" "rnIssues r' \<noteq> []"
  proof -
    show first: "map (\<lambda>d. isPath (dIssue d)) (orIssues out) = [''/r/y'']" unfolding r(5) map_map comp_def by (rule paths)
    show "\<not> orValid out" using r(6) found by simp
    show "rnIssues r' \<noteq> []" using first r(4) by auto
  qed
  note then_closed = conjunct2 [OF identity_reports_cumulative [OF r(2,3) refl, where ctxErr = None and inputComplete = False and released = None]]
  then have "\<not> rnClosed r'" "\<not> rnValid r'" using out(3) by (auto simp: runOK_def split: if_splits)
  with then_closed r(1) out(1,2) show ?thesis by auto
qed

text \<open>
  C11: the resolution of one value. On an open run with a live context ResolveIdentity answers by the elements
  that bind the value: two of them make it ambiguous whatever else is missing, one is the unique owner and none
  is a proved absence only in a complete scope, and otherwise the answer is incomplete with the candidate that
  is known. The owners are given in the order they were recorded.
\<close>

theorem identity_resolution_exact:
  assumes "recorded S es c" "icRun c = Some r" "\<not> rnClosed r"
    "scope = (rnInputComplete r \<and> \<not> icIncomplete c \<and> AssessmentErr (icTypes c) = [])"
  shows "\<exists>v. ResolveIdentity None val c = Inr v \<and> rvScopeComplete v = scope \<and>
    (case map (\<lambda>k. onID (fst (snd k))) (ownersOf val es) of
       [] \<Rightarrow> rvStatus v = (if scope then IdentityMissing else IdentityIncomplete) \<and> rvOwner v = 0 \<and> rvFirstOwner v = 0 \<and> rvSecondOwner v = 0
     | [only] \<Rightarrow> rvStatus v = (if scope then IdentityUnique else IdentityIncomplete) \<and> rvOwner v = only \<and> rvFirstOwner v = only \<and> rvSecondOwner v = 0
     | first # second # rest \<Rightarrow> rvStatus v = IdentityAmbiguous \<and> rvOwner v = 0 \<and> rvFirstOwner v = first \<and> rvSecondOwner v = second)"
proof -
  have b: "icBindings c val = bindingOf (ownersOf val es)" using recorded_tables [OF assms(1)] by (simp add: tables_def)
  have scope: "scope = identityComplete (rnInputComplete r) c" using assms(4) by (simp add: identityComplete_def)
  show ?thesis
  proof (cases "bindingOf (ownersOf val es)")
    case None
    then have "ownersOf val es = []" by (simp add: bindingOf_none)
    with None b assms(2,3) scope show ?thesis by (auto simp: ResolveIdentity_def Let_def)
  next
    case (Some bs)
    note ks = owners_card [OF Some]
    show ?thesis
    proof (cases "ownersOf val es" rule: remdups_adj.cases)
      case (2 k)
      then have "ibFirstOwner bs = onID (fst (snd k))" "ibSecondOwner bs = 0" using Some by (cases k, auto simp: bindingOf_def)+
      with Some b ks 2 assms(2,3) scope show ?thesis by (auto simp: ResolveIdentity_def Let_def)
    next
      case (3 k k' rest)
      then have "ibFirstOwner bs = onID (fst (snd k))" "ibSecondOwner bs = onID (fst (snd k'))"
        using Some by (cases k, cases k', auto simp: bindingOf_def)+
      with Some b ks 3 assms(2,3) scope show ?thesis by (auto simp: ResolveIdentity_def Let_def)
    qed (use ks in simp)
  qed
qed

theorem identity_resolution_exact_witness:
  "\<exists>v. ResolveIdentity None ''a'' (twoOwners (Some newRun)) = Inr v \<and> rvStatus v = IdentityAmbiguous \<and> rvFirstOwner v = 1 \<and> rvSecondOwner v = 2"
proof -
  let ?es = "idEvents ''/r/x'' 1 @ idEvents ''/r/y'' 2" and ?c = "twoOwners (Some newRun)"
  have two: "recorded emptySchema ?es ?c" "icRun ?c = Some newRun" using twoOwners_recorded by blast+
  have "\<not> rnClosed newRun" by (simp add: newRun_def)
  note exact = identity_resolution_exact [OF two this refl, of "''a''"]
  have "map (\<lambda>k. onID (fst (snd k))) (ownersOf ''a'' ?es) = [1, 2]" by code_simp
  with exact show ?thesis by auto
qed

end
