(* ===== verification/Xsd_Canonical.thy ===== *)
theory Xsd_Canonical
  imports Xsd_Lexical
begin

text \<open>
  Canonical lexical forms (\<open>canonicalBuiltin\<close> of \<^verbatim>\<open>internal/xsd/xsi_values.go\<close>) and the chunked text comparison of a
  metered run (\<open>compareText\<close> of \<^verbatim>\<open>value.go\<close>). A missing canonical form is \<open>None\<close>.
\<close>

section \<open>Operations\<close>

definition integerText :: "XInteger \<Rightarrow> string" where
  "integerText n = (if iNegative n then ''-'' else []) @ iDigits n"

definition decimalText :: "XDecimal \<Rightarrow> string" where
  "decimalText d =
     (let whole = (if dWhole d = [] then ''0'' else dWhole d); fraction = (if dFraction d = [] then ''0'' else dFraction d);
          whole = (if dNegative d then ''-'' @ whole else whole)
      in whole @ ''.'' @ fraction)"

definition canonicalBuiltin :: "string \<Rightarrow> string \<Rightarrow> string option" where
  "canonicalBuiltin name lexical =
     (if IntegerLimits name \<noteq> None then map_option integerText (parseInteger lexical)
      else if name = ''decimal'' then map_option decimalText (parseDecimal lexical)
      else if name = ''boolean'' then
        (case parseBoolean lexical of (val, fail) \<Rightarrow> if fail \<noteq> None then None else Some (if val then ''true'' else ''false''))
      else if name \<in> {''string'', ''normalizedString'', ''token'', ''language'', ''Name'', ''NCName'', ''NMTOKEN'', ''ID'', ''IDREF'', ''ENTITY'', ''anyURI''}
      then Some lexical
      else None)"

function compareTextLoop :: "string \<Rightarrow> string \<Rightarrow> nat \<Rightarrow> nat \<Rightarrow> int" where
  "compareTextLoop left right index stop =
     (if index < stop then
        let after = index + min 256 (stop - index);
            result = strCompare (drop index (take after left)) (drop index (take after right))
        in if result \<noteq> 0 then result else compareTextLoop left right after stop
      else if length left < length right then -1 else if length left > length right then 1 else 0)"
  by auto
termination by (relation "measure (\<lambda>(left, right, index, stop). stop - index)") auto

declare compareTextLoop.simps [simp del]

text \<open>The comparison with a run; without one it is \<open>strings.Compare\<close>.\<close>

definition compareText :: "bool \<Rightarrow> string \<Rightarrow> string \<Rightarrow> int" where
  "compareText metered left right =
     (if \<not> metered then strCompare left right else compareTextLoop left right 0 (min (length left) (length right)))"

section \<open>Chunked comparison\<close>

lemma strCompare_append:
  "length a = length c \<Longrightarrow> strCompare (a @ b) (c @ d) = (if strCompare a c \<noteq> 0 then strCompare a c else strCompare b d)"
  by (induction a c rule: list_induct2) auto

lemma strCompare_lengths: "strCompare left [] = (if left = [] then 0 else 1)" "strCompare [] right = (if right = [] then 0 else -1)"
  by (cases left; simp) (cases right; simp)

lemma compareTextLoop_exact:
  assumes "index \<le> stop" "stop = min (length left) (length right)"
  shows "compareTextLoop left right index stop = strCompare (drop index left) (drop index right)"
  using assms
proof (induction left right index stop rule: compareTextLoop.induct)
  case (1 left right index stop)
  show ?case
  proof (cases "index < stop")
    case True
    define after where "after = index + min 256 (stop - index)"
    have a: "index < after" "after \<le> stop" using True by (simp_all add: after_def)
    then have l: "after \<le> length left" "after \<le> length right" using "1.prems" by simp_all
    have split: "drop index s = drop index (take after s) @ drop after s" if "after \<le> length s" for s :: string
      using a(1) that drop_append [of index "take after s" "drop after s"] by simp
    have "strCompare (drop index left) (drop index right) =
        (let r = strCompare (drop index (take after left)) (drop index (take after right)) in if r \<noteq> 0 then r else strCompare (drop after left) (drop after right))"
      unfolding split [OF l(1)] split [OF l(2)] Let_def using l a by (intro strCompare_append) simp
    moreover have "compareTextLoop left right after stop = strCompare (drop after left) (drop after right)"
      if "strCompare (drop index (take after left)) (drop index (take after right)) = 0"
      using "1.IH" [OF True after_def refl] that a "1.prems" by simp
    ultimately show ?thesis using True by (subst compareTextLoop.simps) (simp add: after_def [symmetric] Let_def)
  next
    case False
    then have i: "index = min (length left) (length right)" using "1.prems" by linarith
    show ?thesis using False i by (subst compareTextLoop.simps) (auto simp: strCompare_lengths min_def)
  qed
qed

lemma compareText_exact: "compareText metered left right = strCompare left right"
  by (simp add: compareText_def compareTextLoop_exact)

section \<open>Canonical numbers\<close>

lemma parseInteger_text:
  assumes "canonInteger n"
  shows "parseInteger (integerText n) = Some n"
proof -
  have w: "allDigits (iDigits n)" "iDigits n \<noteq> []" "iDigits n = ''0'' \<or> noLeadingZero (iDigits n)" "iNegative n \<longrightarrow> iDigits n \<noteq> ''0''"
    using assms by (auto simp: canonInteger_def)
  have d: "integerDigits (iDigits n) = iDigits n"
    using w(2,3) by (cases "iDigits n") (auto simp: integerDigits_def noLeadingZero_def)
  have n: "n = \<lparr> iDigits = iDigits n, iNegative = iNegative n \<and> iDigits n \<noteq> ''0'' \<rparr>" using w(4) by (cases n) auto
  show ?thesis unfolding integerText_def parseInteger_Some
    using signed_digits [OF w(1,2), of "iNegative n"] w d by (intro exI [of _ "iNegative n"] exI [of _ "iDigits n"]) (use n in simp)
qed

lemma parseDecimal_text:
  assumes "canonDecimal d"
  shows "parseDecimal (decimalText d) = Some d"
proof -
  define w f where "w = (if dWhole d = [] then ''0'' else dWhole d)" and "f = (if dFraction d = [] then ''0'' else dFraction d)"
  have c: "allDigits (dWhole d)" "allDigits (dFraction d)" "noLeadingZero (dWhole d)" "noTrailingZero (dFraction d)"
    "dNegative d \<longrightarrow> dWhole d \<noteq> [] \<or> dFraction d \<noteq> []" using assms by (auto simp: canonDecimal_def)
  have wf: "allDigits w" "w \<noteq> []" "allDigits f" "f \<noteq> []" using c by (auto simp: w_def f_def isDigit_def)
  have "dropWhile isZero w = dWhole d" using c(3) by (cases "dWhole d") (auto simp: w_def noLeadingZero_def)
  moreover have "stripTrailing f = dFraction d"
    using c(4) by (cases "dFraction d" rule: rev_cases) (auto simp: f_def stripTrailing_def noTrailingZero_def)
  ultimately have "makeDecimal (dNegative d) w f = d" using c(5) by (cases d) (auto simp: makeDecimal_def)
  moreover have "decimalText d = (if dNegative d then ''-'' else []) @ w @ (if f = [] then [] else CHR ''.'' # f)"
    using wf(4) by (simp add: decimalText_def Let_def w_def f_def)
  ultimately show ?thesis using parseDecimal_spelled [OF wf(1-3), of "dNegative d"] by simp
qed

text \<open>An integer lexeme read as a decimal.\<close>

definition integerAsDecimal :: "XInteger \<Rightarrow> XDecimal" where
  "integerAsDecimal n = \<lparr> dWhole = (if iDigits n = ''0'' then [] else iDigits n), dFraction = [], dNegative = iNegative n \<rparr>"

lemma integer_as_decimal:
  assumes "parseInteger s = Some n"
  shows "parseDecimal s = Some (integerAsDecimal n)"
proof -
  obtain neg v where v: "takeSign (trimXMLWhitespace s) = (neg, v)" "v \<noteq> []" "allDigits v"
    "n = \<lparr> iDigits = integerDigits v, iNegative = neg \<and> integerDigits v \<noteq> ''0'' \<rparr>" using assms by (auto simp: parseInteger_Some)
  have "CHR ''.'' \<notin> set v" using v(3) digit_not_space by (auto simp: list_all_iff)
  note parts = no_point_split [OF this]
  have "dropWhile isZero v \<noteq> ''0''" using dropWhile_hd [of isZero v] by (metis list.discI list.sel(1))
  then have "makeDecimal neg v [] = integerAsDecimal n"
    by (auto simp: makeDecimal_def integerAsDecimal_def v(4) integerDigits_def stripTrailing_def)
  with v parts show ?thesis by (auto simp: parseDecimal_Some)
qed

lemma integerAsDecimal_inject:
  "canonInteger n \<Longrightarrow> canonInteger m \<Longrightarrow> integerAsDecimal n = integerAsDecimal m \<longleftrightarrow> n = m"
  by (cases n; cases m) (auto simp: integerAsDecimal_def canonInteger_def split: if_splits)

lemma collapse_word:
  assumes "\<forall>c \<in> set s. byte c < 128 \<and> \<not> IsWhitespace (byte c)"
  shows "collapseWhitespace s = s"
proof -
  have "collapseLoop (map byte s) b False = s" for b
    using assms by (induction s arbitrary: b) (auto simp: encodeRune_def scalar_rune_def)
  then show ?thesis using assms by (simp add: collapseWhitespace_def runes_ascii)
qed

lemma parseBoolean_text: "parseBoolean ''true'' = (True, None)" "parseBoolean ''false'' = (False, None)"
proof -
  have "collapseWhitespace ''true'' = ''true''" "collapseWhitespace ''false'' = ''false''"
    by (simp_all add: collapse_word IsWhitespace_def XMLWhitespace_def)
  then show "parseBoolean ''true'' = (True, None)" "parseBoolean ''false'' = (False, None)"
    by (simp_all add: parseBoolean_def normalizeWhitespace_def)
qed

lemma plain_limits: "IntegerLimits ''boolean'' = None" "IntegerLimits ''decimal'' = None"
  by code_simp+

lemma string_names:
  assumes "name \<in> {''token'', ''language'', ''Name'', ''NCName'', ''NMTOKEN'', ''ID'', ''IDREF'', ''ENTITY'', ''string'', ''normalizedString''}"
  shows "IntegerLimits name = None \<and> name \<noteq> ''decimal'' \<and> name \<noteq> ''boolean''"
proof -
  have "\<forall>name \<in> {''token'', ''language'', ''Name'', ''NCName'', ''NMTOKEN'', ''ID'', ''IDREF'', ''ENTITY'', ''string'', ''normalizedString''}.
    IntegerLimits name = None \<and> name \<noteq> ''decimal'' \<and> name \<noteq> ''boolean''" by code_simp
  from bspec [OF this assms] show ?thesis .
qed

lemma builtin_semantics:
  assumes "builtinSemanticsValue name = Some s"
  shows "Builtin s = name" "StringValue s \<Longrightarrow> IntegerLimits name = None \<and> name \<noteq> ''decimal'' \<and> name \<noteq> ''boolean''"
proof -
  have *: "Builtin s = name \<and> (StringValue s \<longrightarrow> name \<in> {''token'', ''language'', ''Name'', ''NCName'', ''NMTOKEN'', ''ID'', ''IDREF'', ''ENTITY'', ''string'', ''normalizedString''})"
  proof -
    have split: "(if a then x else y) = z \<Longrightarrow> (a \<Longrightarrow> x = z \<Longrightarrow> P) \<Longrightarrow> (\<not> a \<Longrightarrow> y = z \<Longrightarrow> P) \<Longrightarrow> P" for a P and x y z :: "SimpleSemantics option"
      by (cases a) auto
    from assms show ?thesis unfolding builtinSemanticsValue_def Let_def
      by (elim split) (simp_all only: option.inject option.distinct, (hypsubst, simp)+)
  qed
  from * show "Builtin s = name" by blast
  assume "StringValue s"
  with * show "IntegerLimits name = None \<and> name \<noteq> ''decimal'' \<and> name \<noteq> ''boolean''" by (intro string_names) blast
qed

lemma canonical_text:
  assumes "IntegerLimits name = None" "name \<noteq> ''decimal''" "name \<noteq> ''boolean''" "canonicalBuiltin name l = Some t"
  shows "t = l \<and> canonicalBuiltin name u = Some u"
proof -
  define M where "M = {''string'', ''normalizedString'', ''token'', ''language'', ''Name'', ''NCName'', ''NMTOKEN'', ''ID'', ''IDREF'', ''ENTITY'', ''anyURI''}"
  have "canonicalBuiltin name v = (if name \<in> M then Some v else None)" for v
    using assms(1-3) by (simp only: canonicalBuiltin_def M_def [symmetric] if_False simp_thms)
  with assms(4) show ?thesis by (simp split: if_splits)
qed

section \<open>Property\<close>

text \<open>
  C32: canonical lexical forms are normal forms of the values. A canonical form is its own canonical form, and
  two literals of a built-in type have the same canonical form exactly when the values assessed from them are
  equal, for the integer types, decimal, boolean, the string types and anyURI.
\<close>

theorem canonical_literal_round_trip:
  assumes "builtinSemanticsValue name = Some s" "canonicalBuiltin name l = Some t" "canonicalBuiltin name l' = Some t'"
  shows "canonicalBuiltin name t = Some t \<and> (t = t' \<longleftrightarrow> SimpleValue_equal (atomicValue s l) (atomicValue s l'))"
proof -
  note b = builtin_semantics [OF assms(1)]
  consider (int) "IntegerLimits name \<noteq> None" | (dec) "IntegerLimits name = None" "name = ''decimal''" | (bool) "name = ''boolean''"
    | (plain) "IntegerLimits name = None" "name \<noteq> ''decimal''" "name \<noteq> ''boolean''" by blast
  then show ?thesis
  proof cases
    case int
    then have str: "\<not> StringValue s" "name \<noteq> ''boolean''" using b(2) plain_limits by metis+
    obtain n n' where n: "parseInteger l = Some n" "t = integerText n" "parseInteger l' = Some n'" "t' = integerText n'"
      using assms(2,3) int by (auto simp: canonicalBuiltin_def)
    note c = parseInteger_canon [OF n(1)] parseInteger_canon [OF n(3)]
    have "t = t' \<longleftrightarrow> n = n'" using parseInteger_text [OF c(1)] parseInteger_text [OF c(2)] n(2,4) by (metis option.inject)
    moreover have "SimpleValue_equal (atomicValue s l) (atomicValue s l') \<longleftrightarrow> n = n'"
      using int str b(1) integer_as_decimal [OF n(1)] integer_as_decimal [OF n(3)] integerAsDecimal_inject [OF c]
      by (simp add: atomicValue_def Decimal_compare_0)
    ultimately show ?thesis using int parseInteger_text [OF c(1)] n(2) by (simp add: canonicalBuiltin_def)
  next
    case dec
    then have str: "\<not> StringValue s" using b(2) by blast
    obtain d d' where d: "parseDecimal l = Some d" "t = decimalText d" "parseDecimal l' = Some d'" "t' = decimalText d'"
      using assms(2,3) dec by (auto simp: canonicalBuiltin_def)
    note c = parseDecimal_canon [OF d(1)] parseDecimal_canon [OF d(3)]
    have "t = t' \<longleftrightarrow> d = d'" using parseDecimal_text [OF c(1)] parseDecimal_text [OF c(2)] d(2,4) by (metis option.inject)
    moreover have "SimpleValue_equal (atomicValue s l) (atomicValue s l') \<longleftrightarrow> d = d'"
      using dec str b(1) d by (simp add: atomicValue_def Decimal_compare_0)
    ultimately show ?thesis using dec parseDecimal_text [OF c(1)] d(2) by (simp add: canonicalBuiltin_def)
  next
    case bool
    then have str: "\<not> StringValue s" "IntegerLimits name = None" using b(2) plain_limits by metis+
    with bool b(1) assms(2,3) show ?thesis
      by (auto simp: canonicalBuiltin_def atomicValue_def parseBoolean_text split: prod.splits if_splits)
  next
    case plain
    have "t = l" "t' = l'" "canonicalBuiltin name l = Some l" using canonical_text [OF plain] assms(2,3) by blast+
    then show ?thesis using plain b(1) by (auto simp: atomicValue_def)
  qed
qed

theorem canonical_literal_round_trip_witness:
  "canonicalBuiltin ''decimal'' ''+05.50'' = Some ''5.5'' \<and> canonicalBuiltin ''decimal'' ''5.5'' = Some ''5.5'' \<and>
   SimpleValue_equal (atomicValue \<lparr> Whitespace = WhitespaceCollapse, Builtin = ''decimal'', StringValue = False \<rparr> ''+05.50'')
     (atomicValue \<lparr> Whitespace = WhitespaceCollapse, Builtin = ''decimal'', StringValue = False \<rparr> ''5.5'')"
proof -
  have s: "builtinSemanticsValue ''decimal'' = Some \<lparr> Whitespace = WhitespaceCollapse, Builtin = ''decimal'', StringValue = False \<rparr>"
    by code_simp
  have c: "canonicalBuiltin ''decimal'' ''+05.50'' = Some ''5.5''" "canonicalBuiltin ''decimal'' ''5.5'' = Some ''5.5''" by code_simp+
  from canonical_literal_round_trip [OF s c] c show ?thesis by simp
qed

end
