(* ===== verification/Xsd_Assess.thy ===== *)
theory Xsd_Assess
  imports Xsd_Types
begin

text \<open>
  Assessment of simple values (\<open>AssessSimpleValue\<close> and what it calls in \<^verbatim>\<open>internal/xsd/kernel.go\<close>, \<^verbatim>\<open>value.go\<close>
  and \<^verbatim>\<open>whitespace.go\<close>) in the compatibility context: without a run, without a bound subject and without
  source declarations, so the guards of a controlled assessment are inactive and an entity value is always
  unavailable. The regular expression engine, \<open>strconv.ParseFloat\<close> and \<open>unicode.IsDigit\<close> of the standard library
  and the URI check are arguments.
\<close>

section \<open>The library\<close>

datatype float64 = NaN | NegInf | Finite rat | PosInf

fun floatLess :: "float64 \<Rightarrow> float64 \<Rightarrow> bool" where
  "floatLess (Finite a) (Finite b) = (a < b)"
| "floatLess NegInf (Finite b) = True"
| "floatLess NegInf PosInf = True"
| "floatLess (Finite a) PosInf = True"
| "floatLess _ _ = False"

definition floatEqual :: "float64 \<Rightarrow> float64 \<Rightarrow> bool" where
  "floatEqual a b \<longleftrightarrow> a = b \<and> a \<noteq> NaN"

text \<open>
  \<open>libRegexp\<close> is \<open>regexp.Compile\<close> (the text of the error, or the matcher), \<open>libParseFloat\<close> is \<open>strconv.ParseFloat\<close> with
  \<open>None\<close> for an error, \<open>libIsDigit\<close> is \<open>unicode.IsDigit\<close> and \<open>libUri\<close> is \<open>validXSDAnyURI\<close>.
\<close>

record goLibrary =
  libRegexp :: "string \<Rightarrow> string + (string \<Rightarrow> bool)"
  libParseFloat :: "string \<Rightarrow> float64 option"
  libIsDigit :: "nat \<Rightarrow> bool"
  libUri :: "string \<Rightarrow> bool"

section \<open>Patterns\<close>

definition hexDigits :: string where
  "hexDigits = ''0123456789ABCDEF''"

definition runeEscape :: "nat \<Rightarrow> string" where
  "runeEscape r = [CHR 0x5C, CHR ''x'', CHR 0x7B] @
     [hexDigits ! (r div 4096 mod 16), hexDigits ! (r div 256 mod 16), hexDigits ! (r div 16 mod 16), hexDigits ! (r mod 16)] @ [CHR 0x7D]"

definition classText :: "(nat \<times> nat) list \<Rightarrow> string" where
  "classText ranges = concat (map (\<lambda>(lo, hi). if lo = hi then runeEscape lo else runeEscape lo @ ''-'' @ runeEscape hi) ranges)"

definition nameStartText :: string where
  "nameStartText = '':_'' @ classText XSDBaseCharCharacters @ classText XSDIdeographicCharacters"

definition nameText :: string where
  "nameText = nameStartText @ [CHR 0x5C, CHR ''-'', CHR ''.''] @ classText XSDCombiningCharCharacters @
     classText XSDDigitCharacters @ classText XSDExtenderCharacters"

text \<open>\<open>strings.ReplaceAll\<close> of a two-byte escape.\<close>

fun replaceEscape :: "char \<Rightarrow> string \<Rightarrow> string \<Rightarrow> string" where
  "replaceEscape e new (x # y # s) =
     (if x = CHR 0x5C \<and> y = e then new @ replaceEscape e new s else x # replaceEscape e new (y # s))"
| "replaceEscape e new s = s"

definition matchPattern :: "goLibrary \<Rightarrow> string \<Rightarrow> string \<Rightarrow> string + bool" where
  "matchPattern L pattern value =
     (let translated = replaceEscape (CHR ''c'') (''['' @ nameText @ '']'') pattern;
          translated = replaceEscape (CHR ''i'') (''['' @ nameStartText @ '']'') translated;
          translated = replaceEscape (CHR ''d'') (CHR 0x5C # ''p'' @ [CHR 0x7B] @ ''Nd'' @ [CHR 0x7D]) translated
      in (case libRegexp L (''^(?:'' @ translated @ '')$'') of
            Inl err \<Rightarrow> Inl err
          | Inr matcher \<Rightarrow> Inr (matcher value)))"

primrec patternLoop :: "goLibrary \<Rightarrow> string \<Rightarrow> string list \<Rightarrow> bool \<Rightarrow> SimpleFailure + bool" where
  "patternLoop L normalized [] matched = Inr matched"
| "patternLoop L normalized (p # ps) matched =
     (case matchPattern L p normalized of
        Inl err \<Rightarrow> Inl (failure ''schema'' ''invalid generated XSD pattern %q: %v'' [FmtText p, FmtText err])
      | Inr m \<Rightarrow> patternLoop L normalized ps (matched \<or> m))"

definition validatePatternFacets :: "goLibrary \<Rightarrow> SimpleFacets \<Rightarrow> string \<Rightarrow> string \<Rightarrow> SimpleFailure option" where
  "validatePatternFacets L schema normalized display =
     (case patternLoop L normalized (Patterns schema) (Patterns schema = []) of
        Inl f \<Rightarrow> Some f
      | Inr matched \<Rightarrow>
          if \<not> matched then
            Some (if length (Patterns schema) = 1
              then failure ''pattern'' ''value %q does not match XSD pattern %q'' [FmtText display, FmtText (Patterns schema ! 0)]
              else failure ''pattern'' ''value %q does not match any XSD pattern in %q'' [FmtText display, FmtTexts (Patterns schema)])
          else None)"

section \<open>Bounds\<close>

definition floatTests :: "SimpleFacets \<Rightarrow> (bool \<times> string \<times> string \<times> (float64 \<Rightarrow> float64 \<Rightarrow> bool)) list" where
  "floatTests schema =
     [(HasMinInclusive schema, ''minInclusive'', MinInclusive schema, \<lambda>v l. floatLess l v \<or> floatEqual v l),
      (HasMaxInclusive schema, ''maxInclusive'', MaxInclusive schema, \<lambda>v l. floatLess v l \<or> floatEqual v l),
      (HasMinExclusive schema, ''minExclusive'', MinExclusive schema, \<lambda>v l. floatLess l v),
      (HasMaxExclusive schema, ''maxExclusive'', MaxExclusive schema, \<lambda>v l. floatLess v l)]"

fun runFloatBounds :: "goLibrary \<Rightarrow> float64 \<Rightarrow> string \<Rightarrow> (bool \<times> string \<times> string \<times> (float64 \<Rightarrow> float64 \<Rightarrow> bool)) list \<Rightarrow> SimpleFailure option" where
  "runFloatBounds L number display [] = None"
| "runFloatBounds L number display ((enabled, constraint, lexeme, valid) # tests) =
     (if \<not> enabled then runFloatBounds L number display tests
      else (case libParseFloat L lexeme of
          None \<Rightarrow> Some (failure ''schema'' ''invalid %s value %q'' [FmtText constraint, FmtText lexeme])
        | Some limit \<Rightarrow>
            if \<not> valid number limit
            then Some (failure constraint ''value %q violates %s=%q'' [FmtText display, FmtText constraint, FmtText lexeme])
            else runFloatBounds L number display tests))"

definition validateBoundsValue :: "goLibrary \<Rightarrow> SimpleFacets \<Rightarrow> string \<Rightarrow> string \<Rightarrow> string \<Rightarrow> SimpleFailure option" where
  "validateBoundsValue L schema value builtin display =
     (if \<not> HasMinInclusive schema \<and> \<not> HasMaxInclusive schema \<and> \<not> HasMinExclusive schema \<and> \<not> HasMaxExclusive schema then None
      else if IntegerLimits builtin \<noteq> None then validateIntegerBounds schema value display
      else if builtin = ''decimal'' then validateDecimalBounds schema value display
      else (case libParseFloat L value of
          None \<Rightarrow> Some (failure ''datatype'' ''value %q is not numeric'' [FmtText display])
        | Some number \<Rightarrow>
            if number = NaN then Some (failure ''datatype'' ''value %q is not numeric'' [FmtText display])
            else runFloatBounds L number display (floatTests schema)))"

section \<open>Built-in types\<close>

definition isLetter :: "char \<Rightarrow> bool" where
  "isLetter c \<longleftrightarrow> (65 \<le> byte c \<and> byte c \<le> 90) \<or> (97 \<le> byte c \<and> byte c \<le> 122)"

definition LanguagePattern :: "string \<Rightarrow> bool" where
  "LanguagePattern s =
     (case split_on (CHR ''-'') s of
        [] \<Rightarrow> False
      | p # ps \<Rightarrow> list_all isLetter p \<and> 1 \<le> length p \<and> length p \<le> 8 \<and>
          list_all (\<lambda>q. list_all (\<lambda>c. isLetter c \<or> isDigit c) q \<and> 1 \<le> length q \<and> length q \<le> 8) ps)"

definition dropSign :: "string \<Rightarrow> string" where
  "dropSign s = (case s of c # t \<Rightarrow> if c = CHR ''+'' \<or> c = CHR ''-'' then t else s | [] \<Rightarrow> [])"

text \<open>The rest after the number of the patterns: digits with an optional point and digits, or a point and digits.\<close>

definition afterNumber :: "string \<Rightarrow> string option" where
  "afterNumber s =
     (let whole = takeWhile isDigit s; rest = dropWhile isDigit s in
      if whole \<noteq> [] then
        (case rest of c # t \<Rightarrow> if c = CHR ''.'' then Some (dropWhile isDigit t) else Some rest | [] \<Rightarrow> Some [])
      else (case rest of
          c # t \<Rightarrow> if c = CHR ''.'' \<and> takeWhile isDigit t \<noteq> [] then Some (dropWhile isDigit t) else None
        | [] \<Rightarrow> None))"

definition DecimalPattern :: "string \<Rightarrow> bool" where
  "DecimalPattern s \<longleftrightarrow> afterNumber (dropSign s) = Some []"

definition floatPattern :: "string \<Rightarrow> bool" where
  "floatPattern s =
     (case afterNumber (dropSign s) of
        None \<Rightarrow> False
      | Some [] \<Rightarrow> True
      | Some (c # t) \<Rightarrow> (c = CHR ''e'' \<or> c = CHR ''E'') \<and> dropSign t \<noteq> [] \<and> list_all isDigit (dropSign t))"

definition HexPattern :: "string \<Rightarrow> bool" where
  "HexPattern s = list_all isHexByte s"

definition builtinLexical :: "goLibrary \<Rightarrow> string \<Rightarrow> string \<Rightarrow> bool option" where
  "builtinLexical L name normalized =
     (if name \<in> {''anySimpleType'', ''string'', ''normalizedString'', ''token''} then Some True
      else if name = ''anyURI'' then Some (libUri L normalized)
      else if name = ''language'' then Some (LanguagePattern normalized)
      else if name = ''Name'' then Some (validXSDName normalized)
      else if name \<in> {''NCName'', ''ID'', ''IDREF'', ''ENTITY''} then Some (validXSDNCName normalized)
      else if name = ''NMTOKEN'' then Some (validXSDNMTOKEN normalized)
      else if name = ''NMTOKENS'' then Some (splitList normalized \<noteq> [] \<and> list_all validXSDNMTOKEN (splitList normalized))
      else if name \<in> {''IDREFS'', ''ENTITIES''} then Some (splitList normalized \<noteq> [] \<and> list_all validXSDNCName (splitList normalized))
      else if name = ''decimal'' then Some (DecimalPattern normalized)
      else if name \<in> {''float'', ''double''} then Some (normalized \<in> {''INF'', ''-INF'', ''NaN''} \<or> floatPattern normalized)
      else if name \<in> {''integer'', ''long'', ''int'', ''short'', ''byte'', ''nonPositiveInteger'', ''negativeInteger'', ''nonNegativeInteger'',
          ''positiveInteger'', ''unsignedLong'', ''unsignedInt'', ''unsignedShort'', ''unsignedByte''} then Some (validInteger name normalized)
      else if name = ''base64Binary'' then Some (snd (binaryLexicalLength name normalized))
      else if name = ''hexBinary'' then Some (length normalized mod 2 = 0 \<and> HexPattern normalized)
      else if name \<in> {''QName'', ''NOTATION''} then Some (validXSDQName normalized)
      else if name \<in> {''date'', ''dateTime'', ''duration'', ''gDay'', ''gMonth'', ''gMonthDay'', ''gYear'', ''gYearMonth'', ''time''}
      then Some (validXSDDateTime name normalized)
      else if name = ''anyType'' then Some True
      else None)"

definition validateBuiltinValue :: "goLibrary \<Rightarrow> string \<Rightarrow> string \<Rightarrow> string \<Rightarrow> SimpleFailure option" where
  "validateBuiltinValue L name value display =
     (if name = ''boolean'' then
        (if snd (parseBoolean value) \<noteq> None
         then Some (failure ''datatype'' ''value %q is not valid for xs:boolean'' [FmtText display]) else None)
      else (case builtinLexical L name (normalizeWhitespace name value) of
          None \<Rightarrow> Some (failure ''schema'' ''unsupported XSD built-in type %q'' [FmtText name])
        | Some valid \<Rightarrow>
            if valid then None
            else Some (failure ''datatype'' ''value %q is not valid for xs:%s'' [FmtText display, FmtText name])))"

section \<open>The context\<close>

text \<open>An assessed value; Go's zero value stands beside a failure.\<close>

record SimpleAssessment =
  asBuiltin :: string
  asLexical :: string
  asValue :: SimpleValue
  asAtomic :: bool

definition zeroValue :: SimpleValue where
  "zeroValue = SimpleValue LexicalDomain [] False [] zeroDecimal []"

definition listValue :: "SimpleValue list \<Rightarrow> SimpleValue" where
  "listValue xs = SimpleValue ListDomain [] False [] zeroDecimal xs"

record EnumerationValue =
  evValue :: string
  evActual :: SimpleValue
  evValid :: bool
  evIncomplete :: bool

record ValueContext =
  vcTypes :: TypeContext
  EnumerationValues :: "nat \<times> nat \<rightharpoonup> EnumerationValue"

type_synonym 'a vact = "(ValueContext, 'a) action"
type_synonym outcome = "SimpleFailure + SimpleAssessment"
type_synonym assessor = "nat \<Rightarrow> string \<Rightarrow> string \<Rightarrow> outcome vact"

definition inTypes :: "'a tact \<Rightarrow> 'a vact" where
  "inTypes act c = map_option (\<lambda>(a, t). (a, c\<lparr>vcTypes := t\<rparr>)) (act (vcTypes c))"

definition version :: "ValueContext \<Rightarrow> nat" where
  "version c = AssessmentVersion (vcTypes c)"

definition failureText :: "SimpleFailure \<Rightarrow> message" where
  "failureText f = (case fMessage f of (p, args) \<Rightarrow> Formatted p args)"

definition AssessmentFailure :: "string \<Rightarrow> fmtArg list \<Rightarrow> SimpleFailure vact" where
  "AssessmentFailure p args =
     bnd (get (\<lambda>c. AssessmentErr (vcTypes c))) (\<lambda>err.
     bnd (if err = [] then inTypes (Incomplete (Formatted p args)) else ret ()) (\<lambda>_. ret (failure ''assessment'' p args)))"

definition IncompleteFailure :: "string \<Rightarrow> fmtArg list \<Rightarrow> SimpleFailure vact" where
  "IncompleteFailure p args = bnd (inTypes (Incomplete (Formatted p args))) (\<lambda>_. AssessmentFailure p args)"

definition TechnicalFailure :: "SimpleFailure \<Rightarrow> bool" where
  "TechnicalFailure f \<longleftrightarrow> fConstraint f \<in> {''assessment'', ''schema'', ''model-capability''}"

definition fails :: "SimpleFailure vact \<Rightarrow> outcome vact" where
  "fails x = bnd x (\<lambda>f. ret (Inl f))"

record valueData =
  vdSchema :: schemaData
  vdLibrary :: goLibrary

definition resolveSemantics :: "valueData \<Rightarrow> nat \<Rightarrow> TypeSemantics option tact" where
  "resolveSemantics D = ResolveSimpleSemantics (semanticsDepth (vdSchema D)) (vdSchema D)"

definition memberSemantics :: "valueData \<Rightarrow> SimpleMember option \<Rightarrow> TypeSemantics option vact" where
  "memberSemantics D member = inTypes (MemberSemantics (vdSchema D) (resolveSemantics D) member)"

section \<open>Built-in values\<close>

definition entityBuiltin :: "string \<Rightarrow> bool" where
  "entityBuiltin name \<longleftrightarrow> name = ''ENTITY'' \<or> name = ''ENTITIES''"

definition builtinAssessment :: "string \<Rightarrow> string \<Rightarrow> SimpleAssessment option" where
  "builtinAssessment name value =
     (case builtinSemanticsValue name of
        None \<Rightarrow> None
      | Some semantics \<Rightarrow>
          let lexical = SimpleSemantics_normalize semantics value in
          if BuiltinListItem name = [] then
            Some \<lparr> asBuiltin = name, asLexical = lexical, asValue = atomicValue semantics lexical, asAtomic = True \<rparr>
          else
            map_option (\<lambda>item. \<lparr> asBuiltin = name, asLexical = lexical,
                asValue = listValue (map (atomicValue item) (splitList lexical)), asAtomic = False \<rparr>)
              (builtinSemanticsValue (BuiltinListItem name)))"

definition AssessBuiltinValue :: "valueData \<Rightarrow> string \<Rightarrow> string \<Rightarrow> string \<Rightarrow> outcome vact" where
  "AssessBuiltinValue D name value display =
     (case validateBuiltinValue (vdLibrary D) name value display of
        Some f \<Rightarrow> bnd (if fConstraint f = ''schema'' then inTypes (Incomplete (failureText f)) else ret ()) (\<lambda>_. ret (Inl f))
      | None \<Rightarrow>
          if entityBuiltin name then fails (IncompleteFailure ''unparsed entity declarations are unavailable for xs:%s'' [FmtText name])
          else (case builtinAssessment name value of None \<Rightarrow> panic | Some a \<Rightarrow> ret (Inr a)))"

section \<open>Members\<close>

definition AssessSimpleMemberValue :: "valueData \<Rightarrow> assessor \<Rightarrow> SimpleMember option \<Rightarrow> string \<Rightarrow> string \<Rightarrow> outcome vact" where
  "AssessSimpleMemberValue D assess member value display =
     bnd (memberSemantics D member) (\<lambda>semantics.
       if semantics = None then fails (IncompleteFailure ''simple type member cannot be resolved'' [])
       else (case member of
           None \<Rightarrow> panic
         | Some m \<Rightarrow>
             (case smInline m of
                Some i \<Rightarrow> assess i value display
              | None \<Rightarrow>
                  if Space (smName m) = XSDNamespace then AssessBuiltinValue D (Local (smName m)) value display
                  else (case Types (vdSchema D) (smName m) of
                      Some (Some t) \<Rightarrow> (case tSimple t of Some i \<Rightarrow> assess i value display | None \<Rightarrow> panic)
                    | _ \<Rightarrow> panic))))"

definition AssessUnionMemberValue :: "valueData \<Rightarrow> assessor \<Rightarrow> SimpleMember option \<Rightarrow> string \<Rightarrow> string \<Rightarrow> outcome vact" where
  "AssessUnionMemberValue D assess member value display =
     bnd (memberSemantics D member) (\<lambda>semantics.
       case Option.bind semantics semUnion of
         Some u \<Rightarrow> assess u value display
       | None \<Rightarrow> AssessSimpleMemberValue D assess member value display)"

primrec assessUnion :: "valueData \<Rightarrow> assessor \<Rightarrow> SimpleMember option list \<Rightarrow> string \<Rightarrow> string \<Rightarrow> outcome vact" where
  "assessUnion D assess [] value display =
     ret (Inl (failure ''union'' ''value %q does not match any union member'' [FmtText display]))"
| "assessUnion D assess (m # ms) value display =
     bnd (AssessUnionMemberValue D assess m value display) (\<lambda>r. case r of
         Inr a \<Rightarrow> ret (Inr (a\<lparr>asAtomic := False\<rparr>))
       | Inl f \<Rightarrow> if TechnicalFailure f then ret (Inl f) else assessUnion D assess ms value display)"

definition itemFailure :: "nat \<Rightarrow> SimpleFailure \<Rightarrow> SimpleFailure" where
  "itemFailure index f = failure (fConstraint f) ''list item %d: %s'' [FmtNat (index + 1), (case fMessage f of (p, args) \<Rightarrow> FmtMessage p args)]"

primrec assessItems :: "valueData \<Rightarrow> assessor \<Rightarrow> SimpleMember option \<Rightarrow> nat \<Rightarrow> SimpleValue list \<Rightarrow> string list \<Rightarrow> (SimpleFailure + SimpleValue list) vact" where
  "assessItems D assess item index values [] = ret (Inr values)"
| "assessItems D assess item index values (w # ws) =
     bnd (AssessSimpleMemberValue D assess item w w) (\<lambda>r. case r of
         Inl f \<Rightarrow> ret (Inl (itemFailure index f))
       | Inr a \<Rightarrow> assessItems D assess item (index + 1) (values @ [asValue a]) ws)"

section \<open>Enumerations\<close>

text \<open>A literal in its declared value space; \<open>None\<close> is the zero assessment with the answer false.\<close>

primrec literalItems :: "(string \<Rightarrow> SimpleAssessment option vact) \<Rightarrow> SimpleValue list \<Rightarrow> string list \<Rightarrow> SimpleValue list option vact" where
  "literalItems convert values [] = ret (Some values)"
| "literalItems convert values (w # ws) =
     bnd (convert w) (\<lambda>r. case r of None \<Rightarrow> ret None | Some a \<Rightarrow> literalItems convert (values @ [asValue a]) ws)"

definition accepted :: "outcome \<Rightarrow> SimpleAssessment option" where
  "accepted r = (case r of Inl _ \<Rightarrow> None | Inr a \<Rightarrow> Some a)"

primrec SimpleLiteralValue :: "nat \<Rightarrow> valueData \<Rightarrow> assessor \<Rightarrow> TypeSemantics option \<Rightarrow> string \<Rightarrow> SimpleAssessment option vact" where
  "SimpleLiteralValue 0 D assess semantics lit = panic"
| "SimpleLiteralValue (Suc n) D assess semantics lit =
     (case semantics of
        None \<Rightarrow> bnd (inTypes (Incomplete (Plain ''literal type metadata cannot be resolved''))) (\<lambda>_. ret None)
      | Some s \<Rightarrow>
          let lit = SimpleSemantics_normalize (SimpleSemantics.truncate s) lit in
          (case semUnion s of
             Some u \<Rightarrow> bnd (assess u lit lit) (\<lambda>r. ret (accepted r))
           | None \<Rightarrow>
               (case semList s of
                  Some l \<Rightarrow>
                    bnd (literalItems (\<lambda>w. bnd (memberSemantics D (sItem (simpleOf (vdSchema D) l)))
                        (\<lambda>item. SimpleLiteralValue n D assess item w)) [] (splitList lit)) (\<lambda>items.
                      ret (map_option (\<lambda>xs. \<lparr> asBuiltin = [], asLexical = lit, asValue = listValue xs, asAtomic = False \<rparr>) items))
                | None \<Rightarrow> bnd (AssessBuiltinValue D (Builtin s) lit lit) (\<lambda>r. ret (accepted r)))))"

definition enumerationEntry :: "SimpleAssessment option \<Rightarrow> bool \<Rightarrow> EnumerationValue" where
  "enumerationEntry r incomplete =
     (case r of
        None \<Rightarrow> \<lparr> evValue = [], evActual = zeroValue, evValid = False, evIncomplete = incomplete \<rparr>
      | Some a \<Rightarrow> \<lparr> evValue = asLexical a, evActual = asValue a, evValid = True, evIncomplete = incomplete \<rparr>)"

definition enumerationValue :: "nat \<Rightarrow> valueData \<Rightarrow> assessor \<Rightarrow> nat \<Rightarrow> nat \<Rightarrow> EnumerationValue vact" where
  "enumerationValue n D assess i k =
     bnd (get (\<lambda>c. EnumerationValues c (i, k))) (\<lambda>found. case found of
         Some known \<Rightarrow>
           bnd (if evIncomplete known then inTypes (Incomplete (Plain ''cached enumeration literal assessment is incomplete'')) else ret ())
             (\<lambda>_. ret known)
       | None \<Rightarrow>
           bnd (upd (EnumerationValues_update (\<lambda>E. E((i, k) \<mapsto> enumerationEntry None False)))) (\<lambda>_.
           bnd (get version) (\<lambda>before.
           bnd (memberSemantics D (sBase (simpleOf (vdSchema D) i))) (\<lambda>semantics.
           bnd (SimpleLiteralValue n D assess semantics (sEnumerations (simpleOf (vdSchema D) i) ! k)) (\<lambda>r.
           bnd (get version) (\<lambda>after.
             let result = enumerationEntry r (after \<noteq> before) in
             bnd (upd (EnumerationValues_update (\<lambda>E. E((i, k) \<mapsto> result)))) (\<lambda>_. ret result)))))))"

primrec matchesEnumeration :: "(nat \<Rightarrow> EnumerationValue vact) \<Rightarrow> SimpleValue \<Rightarrow> nat list \<Rightarrow> bool vact" where
  "matchesEnumeration candidate value [] = ret False"
| "matchesEnumeration candidate value (k # ks) =
     bnd (candidate k) (\<lambda>e. if evValid e \<and> SimpleValue_equal (evActual e) value then ret True
       else matchesEnumeration candidate value ks)"

definition MatchesSimpleEnumeration :: "nat \<Rightarrow> valueData \<Rightarrow> assessor \<Rightarrow> nat \<Rightarrow> SimpleAssessment \<Rightarrow> bool vact" where
  "MatchesSimpleEnumeration n D assess i a =
     matchesEnumeration (enumerationValue n D assess i) (asValue a) [0..<length (sEnumerations (simpleOf (vdSchema D) i))]"

section \<open>Restrictions\<close>

primrec SimpleMemberList :: "nat \<Rightarrow> schemaData \<Rightarrow> SimpleMember option \<Rightarrow> bool option" where
  "SimpleMemberList 0 S member = None"
| "SimpleMemberList (Suc n) S member =
     (let schemaList = (\<lambda>i. case sForm (simpleOf S i) of
            SimpleList \<Rightarrow> Some True | SimpleRestriction \<Rightarrow> SimpleMemberList n S (sBase (simpleOf S i)) | _ \<Rightarrow> Some False) in
      case member of
        None \<Rightarrow> Some False
      | Some m \<Rightarrow>
          (case smInline m of
             Some i \<Rightarrow> schemaList i
           | None \<Rightarrow>
               if Space (smName m) = XSDNamespace then Some (BuiltinListItem (Local (smName m)) \<noteq> [])
               else (case Types S (smName m) of
                   Some (Some t) \<Rightarrow> (case tSimple t of Some i \<Rightarrow> schemaList i | None \<Rightarrow> Some False)
                 | _ \<Rightarrow> Some False)))"

text \<open>The facets after the enumeration, in the order of the code.\<close>

definition firstFailure :: "SimpleFailure option list \<Rightarrow> SimpleFailure option" where
  "firstFailure fs = Option.bind (find (\<lambda>f. f \<noteq> None) fs) id"

definition facetFailure :: "goLibrary \<Rightarrow> SimpleFacets \<Rightarrow> string \<Rightarrow> string \<Rightarrow> bool \<Rightarrow> string \<Rightarrow> SimpleFailure option" where
  "facetFailure L facets builtin normalized isList display =
     firstFailure [validatePatternFacets L facets normalized display, validateBoundsValue L facets normalized builtin display,
       validateLengthFacets facets normalized isList builtin, validateDigitFacets (libIsDigit L) facets normalized builtin]"

definition assessRestriction :: "nat \<Rightarrow> valueData \<Rightarrow> assessor \<Rightarrow> nat \<Rightarrow> string \<Rightarrow> string \<Rightarrow> string \<Rightarrow> outcome vact" where
  "assessRestriction n D assess i builtin value display =
     (let s = simpleOf (vdSchema D) i in
      bnd (AssessSimpleMemberValue D assess (sBase s) value display) (\<lambda>r. case r of
          Inl f \<Rightarrow> ret (Inl f)
        | Inr a \<Rightarrow>
            bnd (get version) (\<lambda>before.
            bnd (if sEnumerations s = [] then ret True else MatchesSimpleEnumeration n D assess i a) (\<lambda>matched.
            bnd (get version) (\<lambda>after.
              if after \<noteq> before then fails (AssessmentFailure ''enumeration literal assessment incomplete'' [])
              else if \<not> matched
              then ret (Inl (failure ''enumeration'' ''value %q is not one of the allowed values'' [FmtText display]))
              else (case SimpleMemberList n (vdSchema D) (sBase s) of
                  None \<Rightarrow> panic
                | Some isList \<Rightarrow>
                    (case facetFailure (vdLibrary D) (sFacets s) builtin (asLexical a) isList display of
                       Some f \<Rightarrow> ret (Inl f)
                     | None \<Rightarrow> ret (Inr a))))))))"

section \<open>Assessment\<close>

definition simpleIdentity :: "nat \<Rightarrow> TypeIdentity" where
  "simpleIdentity i = \<lparr> tiSimple = Some i, tiComplex = None, tiBuiltin = [] \<rparr>"

definition assessForm :: "nat \<Rightarrow> valueData \<Rightarrow> assessor \<Rightarrow> nat \<Rightarrow> TypeSemantics \<Rightarrow> string \<Rightarrow> string \<Rightarrow> outcome vact" where
  "assessForm n D assess i semantics value display =
     (let s = simpleOf (vdSchema D) i in
      case sForm s of
        SimpleRestriction \<Rightarrow> assessRestriction n D assess i (Builtin semantics) value display
      | SimpleUnion \<Rightarrow> assessUnion D assess (sMembers s) value display
      | SimpleList \<Rightarrow>
          bnd (assessItems D assess (sItem s) 0 [] (splitList value)) (\<lambda>r. ret (case r of
              Inl f \<Rightarrow> Inl f
            | Inr xs \<Rightarrow> Inr \<lparr> asBuiltin = [], asLexical = value, asValue = listValue xs, asAtomic = False \<rparr>))
      | SimpleOther _ \<Rightarrow> ret (Inl (failure ''schema'' ''unsupported simple type form'' [])))"

text \<open>The deferred recording of a schema failure.\<close>

definition recorded :: "outcome vact \<Rightarrow> outcome vact" where
  "recorded x = bnd x (\<lambda>r. case r of
       Inl f \<Rightarrow> bnd (if fConstraint f = ''schema'' then inTypes (Incomplete (failureText f)) else ret ()) (\<lambda>_. ret r)
     | Inr _ \<Rightarrow> ret r)"

primrec AssessSimpleValue :: "nat \<Rightarrow> valueData \<Rightarrow> nat \<Rightarrow> string \<Rightarrow> string \<Rightarrow> outcome vact" where
  "AssessSimpleValue 0 D i value display = panic"
| "AssessSimpleValue (Suc n) D i value display =
     recorded
       (bnd (inTypes (ValidTypeMetadata (metadataDepth (vdSchema D)) (vdSchema D) (simpleIdentity i))) (\<lambda>ok.
          if \<not> ok then fails (AssessmentFailure ''simple derivation metadata incomplete'' [])
          else bnd (inTypes (resolveSemantics D i)) (\<lambda>semantics. case semantics of
              None \<Rightarrow> ret (Inl (failure ''schema'' ''simple type cannot be resolved'' []))
            | Some s \<Rightarrow> assessForm n D (AssessSimpleValue n D) i s (SimpleSemantics_normalize (SimpleSemantics.truncate s) value) display)))"

definition valueDepth :: "schemaData \<Rightarrow> nat" where
  "valueDepth S = Suc (Suc (length (simples S)))"

definition ValidateSimpleType :: "valueData \<Rightarrow> TypeRef option \<Rightarrow> string \<Rightarrow> SimpleFailure option vact" where
  "ValidateSimpleType D reference value =
     (case ResolveType (vdSchema D) reference of (simple, complex, builtin, found) \<Rightarrow>
        if \<not> found \<or> complex \<noteq> None then bnd (IncompleteFailure ''simple type cannot be resolved'' []) (\<lambda>f. ret (Some f))
        else bnd (inTypes (ValidTypeMetadata (metadataDepth (vdSchema D)) (vdSchema D) \<lparr> tiSimple = simple, tiComplex = None, tiBuiltin = builtin \<rparr>)) (\<lambda>ok.
          if \<not> ok then bnd (AssessmentFailure ''simple type metadata incomplete'' []) (\<lambda>f. ret (Some f))
          else bnd (case simple of
              Some i \<Rightarrow> AssessSimpleValue (valueDepth (vdSchema D)) D i value value
            | None \<Rightarrow> AssessBuiltinValue D builtin value value)
            (\<lambda>r. ret (case r of Inl f \<Rightarrow> Some f | Inr _ \<Rightarrow> None))))"

end
