(* ===== verification/Xsd_Attributes.thy ===== *)
theory Xsd_Attributes
  imports Xsd_Assess Xsd_Effective Xsd_Identity
begin

text \<open>
  The attributes of an element (\<open>validateAttributes\<close>, \<open>ValidateSimpleElementAttributes\<close> and the comparison of fixed
  values in \<^verbatim>\<open>internal/xsd/kernel.go\<close>, \<open>SimpleTypeSemantics\<close> of \<^verbatim>\<open>whitespace.go\<close>, \<open>AggregateValuesEqual\<close> of
  \<^verbatim>\<open>value.go\<close>, \<^verbatim>\<open>schema_hints.go\<close>) in the compatibility context. The context joins the states of the parts it
  calls: the tables of identity constraints with the type caches, the cache of enumeration literals, the
  composed types with their heaps, and the nullability marks of particles. The element an attribute belongs to
  is its pointer.
\<close>

section \<open>The context\<close>

record Context =
  dcIdentity :: IdentityContext
  dcEnumerations :: "nat \<times> nat \<rightharpoonup> EnumerationValue"
  dcContent :: EffectiveContext
  dcNullable :: "nat \<Rightarrow> bool option"

type_synonym 'a dact = "(Context, 'a) action"

definition valuesOf :: "Context \<Rightarrow> ValueContext" where
  "valuesOf c = \<lparr> vcTypes = icTypes (dcIdentity c), EnumerationValues = dcEnumerations c \<rparr>"

definition inValues :: "'a vact \<Rightarrow> 'a dact" where
  "inValues act c = map_option (\<lambda>(a, v). (a, c\<lparr> dcIdentity := (dcIdentity c)\<lparr>icTypes := vcTypes v\<rparr>,
     dcEnumerations := EnumerationValues v \<rparr>)) (act (valuesOf c))"

definition inIdentity :: "'a iact \<Rightarrow> 'a dact" where
  "inIdentity act c = map_option (\<lambda>(a, i). (a, c\<lparr>dcIdentity := i\<rparr>)) (act (dcIdentity c))"

definition epoch :: "Context \<Rightarrow> nat" where
  "epoch c = AssessmentVersion (icTypes (dcIdentity c))"

definition addIssue :: "string \<Rightarrow> string \<Rightarrow> message \<Rightarrow> unit dact" where
  "addIssue path constraint msg = inValues (inTypes (AddIssue path constraint msg))"

definition unconstructed :: "TypeRef option \<Rightarrow> bool" where
  "unconstructed reference = False"

section \<open>Comparison of values\<close>

definition Aggregate :: "TypeSemantics \<Rightarrow> bool" where
  "Aggregate s \<longleftrightarrow> semList s \<noteq> None \<or> semUnion s \<noteq> None \<or> BuiltinListItem (Builtin s) \<noteq> []"

definition SimpleTypeSemantics :: "valueData \<Rightarrow> TypeRef option \<Rightarrow> TypeSemantics option vact" where
  "SimpleTypeSemantics D reference =
     bnd (case ResolveType (vdSchema D) reference of (simple, complex, builtin, found) \<Rightarrow>
         if \<not> found \<or> complex \<noteq> None then ret None
         else (case simple of Some i \<Rightarrow> inTypes (resolveSemantics D i) | None \<Rightarrow> ret (builtinSemantics builtin)))
       (\<lambda>r. if r = None then bnd (inTypes (Incomplete (Plain ''simple type metadata cannot be resolved''))) (\<lambda>_. ret None) else ret r)"

definition literalValue :: "valueData \<Rightarrow> TypeSemantics option \<Rightarrow> string \<Rightarrow> SimpleAssessment option vact" where
  "literalValue D = SimpleLiteralValue (valueDepth (vdSchema D)) D (AssessSimpleValue (valueDepth (vdSchema D)) D)"

definition AggregateValuesEqual :: "valueData \<Rightarrow> TypeSemantics \<Rightarrow> string \<Rightarrow> string \<Rightarrow> bool vact" where
  "AggregateValuesEqual D s left right =
     bnd (literalValue D (Some s) left) (\<lambda>first. bnd (literalValue D (Some s) right) (\<lambda>second.
       ret (case (first, second) of (Some a, Some b) \<Rightarrow> SimpleValue_equal (asValue a) (asValue b) | _ \<Rightarrow> False)))"

definition textsEqual :: "TypeSemantics \<Rightarrow> string \<Rightarrow> string \<Rightarrow> bool" where
  "textsEqual s left right =
     (if IntegerLimits (Builtin s) \<noteq> None then integerValuesEqual left right
      else if Builtin s = ''decimal'' then decimalValuesEqual left right
      else if StringValue s
      then strCompare (SimpleSemantics_normalize (SimpleSemantics.truncate s) left) (SimpleSemantics_normalize (SimpleSemantics.truncate s) right) = 0
      else
        let builtin = (if Builtin s = [] then ''string'' else Builtin s)
        in strCompare (normalizeWhitespace builtin left) (normalizeWhitespace builtin right) = 0)"

definition SimpleValuesEqual :: "valueData \<Rightarrow> TypeRef option \<Rightarrow> string \<Rightarrow> string \<Rightarrow> bool vact" where
  "SimpleValuesEqual D reference left right =
     bnd (SimpleTypeSemantics D reference) (\<lambda>semantics. case semantics of
         None \<Rightarrow> ret False
       | Some s \<Rightarrow>
           if Aggregate s \<or> Builtin s = ''boolean'' \<or> Builtin s = ''anyURI'' then AggregateValuesEqual D s left right
           else if Builtin s = ''ENTITY'' then AggregateValuesEqual D s left right
           else ret (textsEqual s left right))"

section \<open>Attributes of elements with a simple type\<close>

definition ValidateSimpleElementAttributes :: "Attribute list \<Rightarrow> string \<Rightarrow> bool dact" where
  "ValidateSimpleElementAttributes attrs path =
     each (\<lambda>a valid.
       if aNamespaceDeclaration a then ret valid
       else if StandardXSIName (aName a) True then ret valid
       else bnd (addIssue (attributePath path (aName a)) ''attribute'' (Plain ''attribute is not allowed'')) (\<lambda>_. ret False)) attrs True"

definition checkHint :: "(string \<Rightarrow> bool) \<Rightarrow> string \<Rightarrow> Attribute \<Rightarrow> unit dact" where
  "checkHint uri path a =
     (if aNamespaceDeclaration a \<or> Space (aName a) \<noteq> XSINamespace then ret ()
      else if Local (aName a) = ''schemaLocation'' then
        (if list_all uri (splitList (aValue a)) then ret ()
         else addIssue (attributePath path (aName a)) ''datatype'' (Plain ''schemaLocation must be a list of anyURI values''))
      else if Local (aName a) = ''noNamespaceSchemaLocation'' then
        (if uri (collapseWhitespace (aValue a)) then ret ()
         else addIssue (attributePath path (aName a)) ''datatype'' (Plain ''noNamespaceSchemaLocation must be an anyURI value''))
      else ret ())"

definition ValidateSchemaLocationHints :: "(string \<Rightarrow> bool) \<Rightarrow> Attribute list \<Rightarrow> string \<Rightarrow> unit dact" where
  "ValidateSchemaLocationHints uri attrs path = each (\<lambda>a _. checkHint uri path a) attrs ()"

section \<open>Attributes of elements with a complex type\<close>

definition knownAttributes :: "AttributeDeclaration list \<Rightarrow> (QName \<rightharpoonup> AttributeDeclaration)" where
  "knownAttributes schemas = foldl (\<lambda>known s. known(AttributeSchema.aName s \<mapsto> s)) Map.empty schemas"

text \<open>Whether the declaration of the attribute is met as far as a fixed value is concerned.\<close>

definition checkFixed :: "valueData \<Rightarrow> AttributeDeclaration \<Rightarrow> string \<Rightarrow> string \<Rightarrow> bool dact" where
  "checkFixed D decl val path =
     bnd (get epoch) (\<lambda>before.
     bnd (case adConstraint decl of
            None \<Rightarrow> ret True
          | Some k \<Rightarrow>
              if vcKind k = ''fixed'' then
                bnd (inValues (SimpleValuesEqual D (Some (adType decl)) val (vcValue k))) (\<lambda>equal.
                bnd (get epoch) (\<lambda>after.
                  if \<not> equal \<and> after = before
                  then bnd (addIssue path ''fixed'' (Formatted ''value %q does not equal fixed value %q'' [FmtText val, FmtText (vcValue k)])) (\<lambda>_. ret False)
                  else ret True))
              else ret True) (\<lambda>ok.
     bnd (get epoch) (\<lambda>after. ret (ok \<and> after = before))))"

definition assessAttribute :: "valueData \<Rightarrow> AttributeDeclaration \<Rightarrow> string \<Rightarrow> string \<Rightarrow> OwnerNode \<Rightarrow> bool \<Rightarrow> bool dact" where
  "assessAttribute D decl val path owner declarationValid =
     bnd (inValues (ValidateSimpleType D (Some (adType decl)) val)) (\<lambda>r. case r of
         Some f \<Rightarrow> bnd (addIssue path (fConstraint f) (failureText f)) (\<lambda>_. ret False)
       | None \<Rightarrow>
           bnd (if declarationValid then inIdentity (RecordIdentity (vdSchema D) unconstructed (Some (adType decl)) val path) else ret ()) (\<lambda>_.
           bnd (inIdentity (RecordIdentityBinding (vdSchema D) unconstructed (Some (adType decl)) val path (Some owner))) (\<lambda>_. ret True)))"

definition checkAttribute :: "valueData \<Rightarrow> (QName \<rightharpoonup> AttributeDeclaration) \<Rightarrow> AnySchema option \<Rightarrow> bool \<Rightarrow> string \<Rightarrow> OwnerNode
    \<Rightarrow> Attribute \<Rightarrow> bool \<times> QName set \<Rightarrow> (bool \<times> QName set) dact" where
  "checkAttribute D decls anyAttribute unavailable path owner a = (\<lambda>(valid, present).
     if aNamespaceDeclaration a then ret (valid, present)
     else if StandardXSIName (aName a) True then ret (valid, present)
     else (case decls (aName a) of
         None \<Rightarrow>
           if unavailable then
             bnd (inValues (inTypes (Incomplete (Plain ''attribute wildcard union cannot be established from available schema metadata'')))) (\<lambda>_.
             bnd (inIdentity (upd (\<lambda>c. c\<lparr>icIncomplete := True\<rparr>))) (\<lambda>_. ret (valid, present)))
           else if fst (anyAttributeAllows (libUri (vdLibrary D)) False anyAttribute (aName a) []) then ret (valid, present)
           else bnd (addIssue (attributePath path (aName a)) ''attribute'' (Plain ''attribute is not allowed'')) (\<lambda>_. ret (False, present))
       | Some decl \<Rightarrow>
           if adUse decl = AttributeProhibited then
             bnd (addIssue (attributePath path (aName a)) ''prohibited'' (Plain ''attribute is prohibited'')) (\<lambda>_. ret (False, insert (aName a) present))
           else
             bnd (checkFixed D decl (aValue a) (attributePath path (aName a))) (\<lambda>declarationValid.
             bnd (assessAttribute D decl (aValue a) (attributePath path (aName a)) owner declarationValid) (\<lambda>accepted.
               ret (valid \<and> declarationValid \<and> accepted, insert (aName a) present)))))"

definition checkRequired :: "string \<Rightarrow> QName set \<Rightarrow> AttributeDeclaration \<Rightarrow> bool \<Rightarrow> bool dact" where
  "checkRequired path present decl ok =
     (if adUse decl \<noteq> AttributeRequired then ret ok
      else if AttributeSchema.aName decl \<in> present then ret ok
      else bnd (addIssue (attributePath path (AttributeSchema.aName decl)) ''required'' (Plain ''required attribute is missing'')) (\<lambda>_. ret False))"

definition validateAttributes :: "valueData \<Rightarrow> Attribute list \<Rightarrow> AttributeDeclaration list \<Rightarrow> AnySchema option \<Rightarrow> bool \<Rightarrow> string
    \<Rightarrow> OwnerNode \<Rightarrow> bool dact" where
  "validateAttributes D attrs schemas anyAttribute unavailable path owner =
     bnd (each (checkAttribute D (knownAttributes schemas) anyAttribute unavailable path owner) attrs (True, {})) (\<lambda>(valid, present).
     each (checkRequired path present) schemas valid)"

end
