(* ===== verification/Xsd_Verdicts.thy ===== *)
theory Xsd_Verdicts
  imports Xsd_Assess Xsd_Semantics
begin

text \<open>
  What a simple type says of a literal, without caches, epochs or a state: the literal is admitted with a value
  or rejected. Neither holds where the assessment is unavailable (an entity, a pattern that does not compile, a
  malformed limit). The two verdicts exclude each other and an admitted literal has one value.
\<close>

section \<open>Verdicts\<close>

definition normal :: "TypeSemantics \<Rightarrow> string \<Rightarrow> string" where
  "normal s = SimpleSemantics_normalize (SimpleSemantics.truncate s)"

definition builtinAdmits :: "goLibrary \<Rightarrow> string \<Rightarrow> string \<Rightarrow> SimpleAssessment \<Rightarrow> bool" where
  "builtinAdmits L name v a \<longleftrightarrow> validateBuiltinValue L name v v = None \<and> \<not> entityBuiltin name \<and> builtinAssessment name v = Some a"

definition builtinRejects :: "goLibrary \<Rightarrow> string \<Rightarrow> string \<Rightarrow> bool" where
  "builtinRejects L name v \<longleftrightarrow> (\<exists>f. validateBuiltinValue L name v v = Some f \<and> fConstraint f = ''datatype'')"

definition patternsHold :: "goLibrary \<Rightarrow> SimpleFacets \<Rightarrow> string \<Rightarrow> bool" where
  "patternsHold L f w \<longleftrightarrow> Patterns f = [] \<or> (\<exists>p \<in> set (Patterns f). matchPattern L p w = Inr True)"

definition facetsHold :: "goLibrary \<Rightarrow> SimpleFacets \<Rightarrow> string \<Rightarrow> bool \<Rightarrow> string \<Rightarrow> bool" where
  "facetsHold L f builtin isList w \<longleftrightarrow> patternsHold L f w \<and> validateBoundsValue L f w builtin w = None \<and>
     validateLengthFacets f w isList builtin = None \<and> validateDigitFacets (libIsDigit L) f w builtin = None"

definition listVariety :: "TypeSemantics \<Rightarrow> bool" where
  "listVariety s \<longleftrightarrow> semList s \<noteq> None \<or> BuiltinListItem (Builtin s) \<noteq> []"

definition listAssessment :: "string \<Rightarrow> SimpleValue list \<Rightarrow> SimpleAssessment" where
  "listAssessment w xs = \<lparr> asBuiltin = [], asLexical = w, asValue = listValue xs, asAtomic = False \<rparr>"

text \<open>
  \<open>admits\<close> and \<open>rejects\<close> speak of a definition, \<open>mAdmits\<close> and \<open>mRejects\<close> of a member as it is written, \<open>uAdmits\<close> and
  \<open>uRejects\<close> of a member of a union, whose own union restrictions are dropped, \<open>denotes\<close> and \<open>noValue\<close> of a literal
  in the value space of a type, without the facets of the type.
\<close>

inductive admits :: "valueData \<Rightarrow> nat \<Rightarrow> string \<Rightarrow> SimpleAssessment \<Rightarrow> bool"
  and rejects :: "valueData \<Rightarrow> nat \<Rightarrow> string \<Rightarrow> bool"
  and mAdmits :: "valueData \<Rightarrow> SimpleMember \<Rightarrow> string \<Rightarrow> SimpleAssessment \<Rightarrow> bool"
  and mRejects :: "valueData \<Rightarrow> SimpleMember \<Rightarrow> string \<Rightarrow> bool"
  and uAdmits :: "valueData \<Rightarrow> SimpleMember \<Rightarrow> string \<Rightarrow> SimpleAssessment \<Rightarrow> bool"
  and uRejects :: "valueData \<Rightarrow> SimpleMember \<Rightarrow> string \<Rightarrow> bool"
  and denotes :: "valueData \<Rightarrow> TypeSemantics \<Rightarrow> string \<Rightarrow> SimpleAssessment \<Rightarrow> bool"
  and noValue :: "valueData \<Rightarrow> TypeSemantics \<Rightarrow> string \<Rightarrow> bool"
  for D :: valueData where
  a_restriction: "means (vdSchema D) i s \<Longrightarrow> sForm (simpleOf (vdSchema D) i) = SimpleRestriction \<Longrightarrow>
    sBase (simpleOf (vdSchema D) i) = Some m \<Longrightarrow> memberMeans (vdSchema D) m b \<Longrightarrow> mAdmits D m (normal s v) a \<Longrightarrow>
    sEnumerations (simpleOf (vdSchema D) i) = [] \<or>
      (\<exists>lit \<in> set (sEnumerations (simpleOf (vdSchema D) i)). \<exists>e. denotes D b lit e \<and> SimpleValue_equal (asValue e) (asValue a)) \<Longrightarrow>
    facetsHold (vdLibrary D) (sFacets (simpleOf (vdSchema D) i)) (Builtin s) (listVariety b) (asLexical a) \<Longrightarrow> admits D i v a"
| a_list: "means (vdSchema D) i s \<Longrightarrow> sForm (simpleOf (vdSchema D) i) = SimpleList \<Longrightarrow> sItem (simpleOf (vdSchema D) i) = Some m \<Longrightarrow>
    list_all2 (\<lambda>w x. \<exists>a. mAdmits D m w a \<and> x = asValue a) (splitList (normal s v)) xs \<Longrightarrow>
    admits D i v (listAssessment (normal s v) xs)"
| a_union: "means (vdSchema D) i s \<Longrightarrow> sForm (simpleOf (vdSchema D) i) = SimpleUnion \<Longrightarrow>
    sMembers (simpleOf (vdSchema D) i) = ms @ Some m # ms' \<Longrightarrow> \<forall>m' \<in> set ms. \<exists>n. m' = Some n \<and> uRejects D n (normal s v) \<Longrightarrow>
    uAdmits D m (normal s v) a \<Longrightarrow> admits D i v (a\<lparr>asAtomic := False\<rparr>)"
| r_base: "means (vdSchema D) i s \<Longrightarrow> sForm (simpleOf (vdSchema D) i) = SimpleRestriction \<Longrightarrow>
    sBase (simpleOf (vdSchema D) i) = Some m \<Longrightarrow> mRejects D m (normal s v) \<Longrightarrow> rejects D i v"
| r_enumeration: "means (vdSchema D) i s \<Longrightarrow> sForm (simpleOf (vdSchema D) i) = SimpleRestriction \<Longrightarrow>
    sBase (simpleOf (vdSchema D) i) = Some m \<Longrightarrow> memberMeans (vdSchema D) m b \<Longrightarrow> mAdmits D m (normal s v) a \<Longrightarrow>
    sEnumerations (simpleOf (vdSchema D) i) \<noteq> [] \<Longrightarrow>
    \<forall>lit \<in> set (sEnumerations (simpleOf (vdSchema D) i)). noValue D b lit \<or>
      (\<exists>e. denotes D b lit e \<and> \<not> SimpleValue_equal (asValue e) (asValue a)) \<Longrightarrow> rejects D i v"
| r_facet: "means (vdSchema D) i s \<Longrightarrow> sForm (simpleOf (vdSchema D) i) = SimpleRestriction \<Longrightarrow>
    sBase (simpleOf (vdSchema D) i) = Some m \<Longrightarrow> memberMeans (vdSchema D) m b \<Longrightarrow> mAdmits D m (normal s v) a \<Longrightarrow>
    \<not> facetsHold (vdLibrary D) (sFacets (simpleOf (vdSchema D) i)) (Builtin s) (listVariety b) (asLexical a) \<Longrightarrow> rejects D i v"
| r_list: "means (vdSchema D) i s \<Longrightarrow> sForm (simpleOf (vdSchema D) i) = SimpleList \<Longrightarrow> sItem (simpleOf (vdSchema D) i) = Some m \<Longrightarrow>
    w \<in> set (splitList (normal s v)) \<Longrightarrow> mRejects D m w \<Longrightarrow> rejects D i v"
| r_union: "means (vdSchema D) i s \<Longrightarrow> sForm (simpleOf (vdSchema D) i) = SimpleUnion \<Longrightarrow>
    \<forall>m' \<in> set (sMembers (simpleOf (vdSchema D) i)). \<exists>n. m' = Some n \<and> uRejects D n (normal s v) \<Longrightarrow> rejects D i v"
| ma_type: "memberTarget (vdSchema D) m = Some i \<Longrightarrow> admits D i v a \<Longrightarrow> mAdmits D m v a"
| ma_builtin: "memberBuiltin m \<noteq> None \<Longrightarrow> builtinAdmits (vdLibrary D) (Local (smName m)) v a \<Longrightarrow> mAdmits D m v a"
| mr_type: "memberTarget (vdSchema D) m = Some i \<Longrightarrow> rejects D i v \<Longrightarrow> mRejects D m v"
| mr_builtin: "memberBuiltin m \<noteq> None \<Longrightarrow> builtinRejects (vdLibrary D) (Local (smName m)) v \<Longrightarrow> mRejects D m v"
| ua_union: "memberMeans (vdSchema D) m b \<Longrightarrow> semUnion b = Some u \<Longrightarrow> admits D u v a \<Longrightarrow> uAdmits D m v a"
| ua_own: "memberMeans (vdSchema D) m b \<Longrightarrow> semUnion b = None \<Longrightarrow> mAdmits D m v a \<Longrightarrow> uAdmits D m v a"
| ur_union: "memberMeans (vdSchema D) m b \<Longrightarrow> semUnion b = Some u \<Longrightarrow> rejects D u v \<Longrightarrow> uRejects D m v"
| ur_own: "memberMeans (vdSchema D) m b \<Longrightarrow> semUnion b = None \<Longrightarrow> mRejects D m v \<Longrightarrow> uRejects D m v"
| d_union: "semUnion s = Some u \<Longrightarrow> admits D u (normal s lit) a \<Longrightarrow> denotes D s lit a"
| d_list: "semUnion s = None \<Longrightarrow> semList s = Some l \<Longrightarrow> sItem (simpleOf (vdSchema D) l) = Some m \<Longrightarrow> memberMeans (vdSchema D) m b \<Longrightarrow>
    list_all2 (\<lambda>w x. \<exists>a. denotes D b w a \<and> x = asValue a) (splitList (normal s lit)) xs \<Longrightarrow>
    denotes D s lit (listAssessment (normal s lit) xs)"
| d_builtin: "semUnion s = None \<Longrightarrow> semList s = None \<Longrightarrow> builtinAdmits (vdLibrary D) (Builtin s) (normal s lit) a \<Longrightarrow> denotes D s lit a"
| n_union: "semUnion s = Some u \<Longrightarrow> rejects D u (normal s lit) \<Longrightarrow> noValue D s lit"
| n_list: "semUnion s = None \<Longrightarrow> semList s = Some l \<Longrightarrow> sItem (simpleOf (vdSchema D) l) = Some m \<Longrightarrow> memberMeans (vdSchema D) m b \<Longrightarrow>
    w \<in> set (splitList (normal s lit)) \<Longrightarrow> noValue D b w \<Longrightarrow> noValue D s lit"
| n_builtin: "semUnion s = None \<Longrightarrow> semList s = None \<Longrightarrow> builtinRejects (vdLibrary D) (Builtin s) (normal s lit) \<Longrightarrow> noValue D s lit"

inductive_cases admitsE: "admits D i v a"
inductive_cases rejectsE: "rejects D i v"
inductive_cases mAdmitsE: "mAdmits D m v a"
inductive_cases mRejectsE: "mRejects D m v"
inductive_cases uAdmitsE: "uAdmits D m v a"
inductive_cases uRejectsE: "uRejects D m v"
inductive_cases denotesE: "denotes D s lit a"
inductive_cases noValueE: "noValue D s lit"

section \<open>Verdicts are consistent\<close>

lemma means_unique: "means S i s \<Longrightarrow> means S i s' \<Longrightarrow> s = s'"
proof -
  have "semInv S {} (SemanticsCache NewTypeContext)" by (simp add: semInv_def NewTypeContext_def)
  with resolve_ready [of S i] obtain r where "\<forall>s. r = Some s \<longleftrightarrow> means S i s" unfolding resolvesTo_def by blast
  then show "means S i s \<Longrightarrow> means S i s' \<Longrightarrow> s = s'" by (metis option.inject)
qed

lemma memberMeans_unique: "memberMeans S m s \<Longrightarrow> memberMeans S m s' \<Longrightarrow> s = s'"
  by (auto simp: memberMeans_iff dest: means_unique split: option.splits)

lemma builtin_exclusive: "builtinAdmits L name v a \<Longrightarrow> \<not> builtinRejects L name v"
  by (auto simp: builtinAdmits_def builtinRejects_def)

lemma builtin_unique: "builtinAdmits L name v a \<Longrightarrow> builtinAdmits L name v a' \<Longrightarrow> a' = a"
  by (auto simp: builtinAdmits_def)

lemma target_builtin: "memberTarget S m = Some i \<Longrightarrow> memberBuiltin m = None"
  by (auto simp: memberTarget_def memberBuiltin_def split: if_splits option.splits)

lemma mAdmits_iff:
  "mAdmits D m v a \<longleftrightarrow> (case memberTarget (vdSchema D) m of Some i \<Rightarrow> admits D i v a
     | None \<Rightarrow> memberBuiltin m \<noteq> None \<and> builtinAdmits (vdLibrary D) (Local (smName m)) v a)"
  using target_builtin [of "vdSchema D" m] by (auto elim!: mAdmitsE intro: ma_type ma_builtin split: option.splits)

lemma mRejects_iff:
  "mRejects D m v \<longleftrightarrow> (case memberTarget (vdSchema D) m of Some i \<Rightarrow> rejects D i v
     | None \<Rightarrow> memberBuiltin m \<noteq> None \<and> builtinRejects (vdLibrary D) (Local (smName m)) v)"
  using target_builtin [of "vdSchema D" m] by (auto elim!: mRejectsE intro: mr_type mr_builtin split: option.splits)

lemma uAdmits_iff:
  assumes "memberMeans (vdSchema D) m b"
  shows "uAdmits D m v a \<longleftrightarrow> (case semUnion b of Some u \<Rightarrow> admits D u v a | None \<Rightarrow> mAdmits D m v a)"
proof
  assume "uAdmits D m v a"
  then show "case semUnion b of Some u \<Rightarrow> admits D u v a | None \<Rightarrow> mAdmits D m v a"
    by (rule uAdmitsE) (use memberMeans_unique [OF assms] in force)+
qed (use assms in \<open>auto intro: ua_union ua_own split: option.splits\<close>)

lemma uRejects_iff:
  assumes "memberMeans (vdSchema D) m b"
  shows "uRejects D m v \<longleftrightarrow> (case semUnion b of Some u \<Rightarrow> rejects D u v | None \<Rightarrow> mRejects D m v)"
proof
  assume "uRejects D m v"
  then show "case semUnion b of Some u \<Rightarrow> rejects D u v | None \<Rightarrow> mRejects D m v"
    by (rule uRejectsE) (use memberMeans_unique [OF assms] in force)+
qed (use assms in \<open>auto intro: ur_union ur_own split: option.splits\<close>)

lemma denotes_union: "semUnion s = Some u \<Longrightarrow> denotes D s lit a \<longleftrightarrow> admits D u (normal s lit) a"
  by (auto elim: denotesE intro: d_union)

lemma noValue_union: "semUnion s = Some u \<Longrightarrow> noValue D s lit \<longleftrightarrow> rejects D u (normal s lit)"
  by (auto elim: noValueE intro: n_union)

lemma denotes_builtin: "semUnion s = None \<Longrightarrow> semList s = None \<Longrightarrow>
    denotes D s lit a \<longleftrightarrow> builtinAdmits (vdLibrary D) (Builtin s) (normal s lit) a"
  by (auto elim: denotesE intro: d_builtin)

lemma noValue_builtin: "semUnion s = None \<Longrightarrow> semList s = None \<Longrightarrow>
    noValue D s lit \<longleftrightarrow> builtinRejects (vdLibrary D) (Builtin s) (normal s lit)"
  by (auto elim: noValueE intro: n_builtin)

lemma list_all2_unique: "list_all2 P xs ys \<Longrightarrow> list_all2 Q xs zs \<Longrightarrow> (\<And>x y z. P x y \<Longrightarrow> Q x z \<Longrightarrow> y = z) \<Longrightarrow> ys = zs"
  by (induction xs ys arbitrary: zs rule: list_all2_induct) (auto simp: list_all2_Cons1)

lemma first_unique:
  assumes "ms @ Some m # ms' = ns @ Some n # ns'" "\<forall>x \<in> set ms. x \<noteq> Some n" "\<forall>x \<in> set ns. x \<noteq> Some m"
  shows "m = n"
  using assms by (auto simp: append_eq_append_conv2 append_eq_Cons_conv Cons_eq_append_conv)


lemma verdicts:
  "admits D i v a \<Longrightarrow> (\<forall>a'. admits D i v a' \<longrightarrow> a' = a) \<and> \<not> rejects D i v"
  "rejects D i v \<Longrightarrow> \<forall>a. \<not> admits D i v a"
  "mAdmits D m v a \<Longrightarrow> (\<forall>a'. mAdmits D m v a' \<longrightarrow> a' = a) \<and> \<not> mRejects D m v"
  "mRejects D m v \<Longrightarrow> \<forall>a. \<not> mAdmits D m v a"
  "uAdmits D m v a \<Longrightarrow> (\<forall>a'. uAdmits D m v a' \<longrightarrow> a' = a) \<and> \<not> uRejects D m v"
  "uRejects D m v \<Longrightarrow> \<forall>a. \<not> uAdmits D m v a"
  "denotes D t v a \<Longrightarrow> (\<forall>a'. denotes D t v a' \<longrightarrow> a' = a) \<and> \<not> noValue D t v"
  "noValue D t v \<Longrightarrow> \<forall>a. \<not> denotes D t v a"
proof (induction rule: admits_rejects_mAdmits_mRejects_uAdmits_uRejects_denotes_noValue.inducts)
  case (a_restriction i s m b v a)
  note base = a_restriction(1-4) conjunct1 [OF a_restriction(6), rule_format] conjunct2 [OF a_restriction(6)]
  show ?case
  proof (intro conjI allI impI notI)
    fix a' assume "admits D i v a'"
    then show "a' = a" using base by (elim admitsE) (auto dest: means_unique)
  next
    assume "rejects D i v"
    then show False
    proof (rule rejectsE)
      fix s' m' b' a'
      assume r: "means (vdSchema D) i s'" "sBase (simpleOf (vdSchema D) i) = Some m'" "memberMeans (vdSchema D) m' b'" "mAdmits D m' (normal s' v) a'"
        "sEnumerations (simpleOf (vdSchema D) i) \<noteq> []"
        "\<forall>lit \<in> set (sEnumerations (simpleOf (vdSchema D) i)). noValue D b' lit \<or> (\<exists>e. denotes D b' lit e \<and> \<not> SimpleValue_equal (asValue e) (asValue a'))"
      have eq: "s' = s" "m' = m" using means_unique [OF r(1) base(1)] r(2) base(3) by simp_all
      with memberMeans_unique [OF r(3)] base(4,5) r(4) have "b' = b" "a' = a" by simp_all
      then show False using r(5,6) a_restriction(7) by metis
    next
      fix s' m' b' a'
      assume r: "means (vdSchema D) i s'" "sBase (simpleOf (vdSchema D) i) = Some m'" "memberMeans (vdSchema D) m' b'" "mAdmits D m' (normal s' v) a'"
        "\<not> facetsHold (vdLibrary D) (sFacets (simpleOf (vdSchema D) i)) (Builtin s') (listVariety b') (asLexical a')"
      have eq: "s' = s" "m' = m" using means_unique [OF r(1) base(1)] r(2) base(3) by simp_all
      with memberMeans_unique [OF r(3)] base(4,5) r(4) have "b' = b" "a' = a" by simp_all
      then show False using r(5) a_restriction(8) eq by simp
    qed (use base in \<open>auto dest: means_unique\<close>)
  qed
next
  case (a_list i s m v xs)
  note base = a_list(1-3)
  show ?case
  proof (intro conjI allI impI notI)
    fix a' assume "admits D i v a'"
    then show "a' = listAssessment (normal s v) xs"
    proof (rule admitsE)
      fix s' m' ys
      assume r: "a' = listAssessment (normal s' v) ys" "means (vdSchema D) i s'" "sItem (simpleOf (vdSchema D) i) = Some m'"
        "list_all2 (\<lambda>w x. \<exists>a. mAdmits D m' w a \<and> x = asValue a) (splitList (normal s' v)) ys"
      have "s' = s" "m' = m" using means_unique [OF r(2) base(1)] r(3) base(3) by simp_all
      moreover from this have "xs = ys" using list_all2_unique [OF a_list(4), of _ ys] r(4) by blast
      ultimately show ?thesis using r(1) by simp
    qed (use base in auto)
  next
    assume "rejects D i v"
    then show False
    proof (rule rejectsE)
      fix s' m' w
      assume r: "means (vdSchema D) i s'" "sItem (simpleOf (vdSchema D) i) = Some m'" "w \<in> set (splitList (normal s' v))" "mRejects D m' w"
      have "s' = s" "m' = m" using means_unique [OF r(1) base(1)] r(2) base(3) by simp_all
      then show False using r(3,4) a_list(4) by (auto simp: list_all2_conv_all_nth in_set_conv_nth)
    qed (use base in auto)
  qed
next
  case (a_union i s ms m ms' v a)
  note base = a_union(1-3)
  show ?case
  proof (intro conjI allI impI notI)
    fix a' assume "admits D i v a'"
    then show "a' = a\<lparr>asAtomic := False\<rparr>"
    proof (rule admitsE)
      fix s' ns n ns' a0
      assume r: "a' = a0\<lparr>asAtomic := False\<rparr>" "means (vdSchema D) i s'" "sMembers (simpleOf (vdSchema D) i) = ns @ Some n # ns'"
        "\<forall>m' \<in> set ns. \<exists>n. m' = Some n \<and> uRejects D n (normal s' v)" "uAdmits D n (normal s' v) a0"
      have s: "s' = s" using means_unique [OF r(2) base(1)] .
      have "m = n"
        by (rule first_unique [of ms m ms' ns n ns']) (use base(3) r(3-5) s a_union(4,6) in auto)
      then show ?thesis using r(1,5) s a_union(6) by simp
    qed (use base in auto)
  next
    assume "rejects D i v"
    then show False
    proof (rule rejectsE)
      fix s'
      assume r: "means (vdSchema D) i s'" "\<forall>m' \<in> set (sMembers (simpleOf (vdSchema D) i)). \<exists>n. m' = Some n \<and> uRejects D n (normal s' v)"
      have "s' = s" using means_unique [OF r(1) base(1)] .
      then show False using r(2) base(3) a_union(6) by auto
    qed (use base in auto)
  qed
next
  case (r_base i s m v)
  then show ?case by (auto elim!: admitsE dest: means_unique)
next
  case (r_enumeration i s m b v a)
  show ?case
  proof (intro allI notI)
    fix a' assume "admits D i v a'"
    then show False
    proof (rule admitsE)
      fix s' m' b'
      assume r: "means (vdSchema D) i s'" "sBase (simpleOf (vdSchema D) i) = Some m'" "memberMeans (vdSchema D) m' b'" "mAdmits D m' (normal s' v) a'"
        "sEnumerations (simpleOf (vdSchema D) i) = [] \<or>
          (\<exists>lit \<in> set (sEnumerations (simpleOf (vdSchema D) i)). \<exists>e. denotes D b' lit e \<and> SimpleValue_equal (asValue e) (asValue a'))"
      have eq: "s' = s" "m' = m" using means_unique [OF r(1) r_enumeration(1)] r(2) r_enumeration(3) by simp_all
      then have "b' = b" "a' = a" using memberMeans_unique [OF r(3)] r_enumeration(4,6) r(4) by simp_all
      then show False using r(5) r_enumeration(7,8) by metis
    qed (use r_enumeration(2) in auto)
  qed
next
  case (r_facet i s m b v a)
  show ?case
  proof (intro allI notI)
    fix a' assume "admits D i v a'"
    then show False
    proof (rule admitsE)
      fix s' m' b'
      assume r: "means (vdSchema D) i s'" "sBase (simpleOf (vdSchema D) i) = Some m'" "memberMeans (vdSchema D) m' b'" "mAdmits D m' (normal s' v) a'"
        "facetsHold (vdLibrary D) (sFacets (simpleOf (vdSchema D) i)) (Builtin s') (listVariety b') (asLexical a')"
      have eq: "s' = s" "m' = m" using means_unique [OF r(1) r_facet(1)] r(2) r_facet(3) by simp_all
      then have "b' = b" "a' = a" using memberMeans_unique [OF r(3)] r_facet(4,6) r(4) by simp_all
      then show False using r(5) r_facet(7) eq by simp
    qed (use r_facet(2) in auto)
  qed
next
  case (r_list i s m w v)
  show ?case
  proof (intro allI notI)
    fix a' assume "admits D i v a'"
    then show False
    proof (rule admitsE)
      fix s' m' xs
      assume r: "means (vdSchema D) i s'" "sItem (simpleOf (vdSchema D) i) = Some m'"
        "list_all2 (\<lambda>w x. \<exists>a. mAdmits D m' w a \<and> x = asValue a) (splitList (normal s' v)) xs"
      have "s' = s" "m' = m" using means_unique [OF r(1) r_list(1)] r(2) r_list(3) by simp_all
      then show False using r(3) r_list(4-) by (auto simp: list_all2_conv_all_nth in_set_conv_nth)
    qed (use r_list(2) in auto)
  qed
next
  case (r_union i s v)
  then show ?case by (fastforce elim!: admitsE dest: means_unique)
next
  case (d_list s l m b lit xs)
  note base = d_list(1-4)
  show ?case
  proof (intro conjI allI impI notI)
    fix a' assume "denotes D s lit a'"
    then show "a' = listAssessment (normal s lit) xs"
    proof (rule denotesE)
      fix l' m' b' ys
      assume r: "a' = listAssessment (normal s lit) ys" "semList s = Some l'" "sItem (simpleOf (vdSchema D) l') = Some m'" "memberMeans (vdSchema D) m' b'"
        "list_all2 (\<lambda>w x. \<exists>a. denotes D b' w a \<and> x = asValue a) (splitList (normal s lit)) ys"
      have "l' = l" "m' = m" using r(2,3) base(2,3) by simp_all
      moreover from this have "b' = b" using memberMeans_unique [OF r(4)] base(4) by simp
      ultimately have "xs = ys" using list_all2_unique [OF d_list(5), of _ ys] r(5) by blast
      then show ?thesis using r(1) by simp
    qed (use base in auto)
  next
    assume "noValue D s lit"
    then show False
    proof (rule noValueE)
      fix l' m' b' w
      assume r: "semList s = Some l'" "sItem (simpleOf (vdSchema D) l') = Some m'" "memberMeans (vdSchema D) m' b'" "w \<in> set (splitList (normal s lit))" "noValue D b' w"
      have "l' = l" "m' = m" using r(1,2) base(2,3) by simp_all
      moreover from this have "b' = b" using memberMeans_unique [OF r(3)] base(4) by simp
      ultimately show False using r(4,5) d_list(5) by (auto simp: list_all2_conv_all_nth in_set_conv_nth)
    qed (use base in auto)
  qed
next
  case (n_list s l m b w lit)
  show ?case
  proof (intro allI notI)
    fix a' assume "denotes D s lit a'"
    then show False
    proof (rule denotesE)
      fix l' m' b' ys
      assume r: "semList s = Some l'" "sItem (simpleOf (vdSchema D) l') = Some m'" "memberMeans (vdSchema D) m' b'"
        "list_all2 (\<lambda>w x. \<exists>a. denotes D b' w a \<and> x = asValue a) (splitList (normal s lit)) ys"
      have "l' = l" "m' = m" using r(1,2) n_list by (metis option.inject)+
      moreover from this have "b' = b" using memberMeans_unique [OF r(3)] n_list by metis
      ultimately show False using r(4) n_list by (auto simp: list_all2_conv_all_nth in_set_conv_nth)
    qed (use n_list in auto)
  qed
qed (auto simp: mAdmits_iff mRejects_iff uAdmits_iff uRejects_iff denotes_union noValue_union denotes_builtin noValue_builtin
    memberBuiltin_def memberTarget_def builtin_exclusive dest: builtin_exclusive builtin_unique split: option.splits)

end
