(* ===== verification/Xsd_Values.thy ===== *)
theory Xsd_Values
  imports Xsd_Verdicts Xsd_Metadata Xsd_Canonical
begin

text \<open>
  \<open>AssessSimpleValue\<close> with its caches of type metadata, semantics and enumeration literals computes the verdicts of
  \<open>Xsd_Verdicts\<close>. Every rule below speaks of an operation started in a context whose caches are right; \<open>moved\<close> is
  whether the assessment epoch advanced.
\<close>

section \<open>Where an assessment is available\<close>

definition boundsReady :: "goLibrary \<Rightarrow> SimpleFacets \<Rightarrow> string \<Rightarrow> bool" where
  "boundsReady L f builtin \<longleftrightarrow>
     (\<forall>(enabled, constraint, lexeme, _) \<in> set (boundTests f). enabled \<longrightarrow>
        (if IntegerLimits builtin \<noteq> None then parseInteger lexeme \<noteq> None
         else if builtin = ''decimal'' then parseDecimal lexeme \<noteq> None else libParseFloat L lexeme \<noteq> None))"

definition facetsReady :: "goLibrary \<Rightarrow> SimpleFacets \<Rightarrow> string \<Rightarrow> bool" where
  "facetsReady L f builtin \<longleftrightarrow> (\<forall>p \<in> set (Patterns f). \<forall>w. \<exists>ok. matchPattern L p w = Inr ok) \<and> boundsReady L f builtin"

definition nodeReady :: "valueData \<Rightarrow> nat \<Rightarrow> bool" where
  "nodeReady D i \<longleftrightarrow>
     (\<forall>s. means (vdSchema D) i s \<and> sForm (simpleOf (vdSchema D) i) = SimpleRestriction \<longrightarrow>
        facetsReady (vdLibrary D) (sFacets (simpleOf (vdSchema D) i)) (Builtin s)) \<and>
     (\<forall>m. Some m \<in> needs (vdSchema D) i \<and> memberTarget (vdSchema D) m = None \<longrightarrow> \<not> entityBuiltin (Local (smName m)))"

text \<open>
  A definition whose values can be assessed: sound metadata, a meaning, and no entity type, malformed pattern or
  malformed limit in it or below it.
\<close>

definition ready :: "valueData \<Rightarrow> nat \<Rightarrow> bool" where
  "ready D i \<longleftrightarrow> soundType (vdSchema D) (simpleIdentity i) \<and> (\<exists>s. means (vdSchema D) i s) \<and>
     (\<forall>j. (i, j) \<in> (needRel (vdSchema D))\<^sup>* \<longrightarrow> nodeReady D j)"

lemma MemberType_target:
  assumes "memberTarget S m = Some j" "MemberType S (Some m) = (u, True)" "soundType S u"
  shows "u = simpleIdentity j"
proof -
  have "\<not> (tiSimple u \<noteq> None \<and> tiComplex u \<noteq> None)" using assms(3) unfolding soundType_iff [of S u] nodeFine_def by blast
  with assms(1,2) show ?thesis
    by (auto simp: memberTarget_def MemberType_def TypeIdentity_of_def ResolveType_def simpleIdentity_def split: option.splits if_splits)
qed

lemma sound_needs:
  assumes "soundType S (simpleIdentity i)" "(i, j) \<in> needRel S"
  shows "soundType S (simpleIdentity j)"
proof -
  from assms(2) obtain m where m: "Some m \<in> needs S i" "memberTarget S m = Some j" by (auto simp: needRel_def)
  have used: "\<exists>flag. (fst (MemberType S (Some m)), snd (MemberType S (Some m)), flag) \<in> set (usesOf S (simpleIdentity i))"
  proof (cases "sForm (simpleOf S i)")
    case SimpleRestriction
    then have "sBase (simpleOf S i) = Some m" using m(1) by (simp add: needs_def)
    moreover have "snd (MemberType S (sBase (simpleOf S i)))"
      using assms(1) SimpleRestriction unfolding soundType_iff [of S "simpleIdentity i"] nodeFine_def
      by (auto simp: TypeBase_def simpleIdentity_def split: prod.splits)
    ultimately show ?thesis using SimpleRestriction
      by (auto simp: usesOf_def TypeBase_def simpleIdentity_def DerivationRestriction_def split: prod.splits)
  qed (use m(1) in \<open>auto simp: needs_def usesOf_def simpleIdentity_def itemsOf_def memberUse_def split: prod.splits\<close>)
  then obtain flag where u: "(fst (MemberType S (Some m)), snd (MemberType S (Some m)), flag) \<in> set (usesOf S (simpleIdentity i))" by blast
  have "permitted S (fst (MemberType S (Some m)), snd (MemberType S (Some m)), flag)" "soundType S (fst (MemberType S (Some m)))"
    using assms(1) u unfolding soundType_iff [of S "simpleIdentity i"] nodeFine_def by (blast, fastforce)
  then show ?thesis using MemberType_target [OF m(2), of "fst (MemberType S (Some m))"]
    by (cases "MemberType S (Some m)") (auto simp: permitted_def)
qed

lemma ready_step: "ready D i \<Longrightarrow> (i, j) \<in> needRel (vdSchema D) \<Longrightarrow> ready D j"
  using sound_needs [of "vdSchema D" i j] means_step [of "vdSchema D" i] unfolding ready_def
  by (blast intro: converse_rtrancl_into_rtrancl)

lemma ready_below: "(i, j) \<in> (needRel (vdSchema D))\<^sup>+ \<Longrightarrow> ready D i \<Longrightarrow> ready D j"
  by (induction rule: trancl_induct) (auto intro: ready_step)

text \<open>The union, the list or the built-in type a meaning refers to lies below the definition.\<close>

lemma semantics_target:
  "means S i s \<Longrightarrow> (\<forall>u. semUnion s = Some u \<longrightarrow> (i, u) \<in> (needRel S)\<^sup>* \<and> sForm (simpleOf S u) = SimpleUnion) \<and>
     (\<forall>l. semList s = Some l \<longrightarrow> (i, l) \<in> (needRel S)\<^sup>* \<and> sForm (simpleOf S l) = SimpleList) \<and>
     (semUnion s = None \<longrightarrow> semList s = None \<longrightarrow>
       (\<exists>j m. (i, j) \<in> (needRel S)\<^sup>* \<and> Some m \<in> needs S j \<and> memberTarget S m = None \<and> Local (smName m) = Builtin s \<and> memberBuiltin m \<noteq> None))"
  "memberMeans S m s \<Longrightarrow> (case memberTarget S m of
       Some i \<Rightarrow> (\<forall>u. semUnion s = Some u \<longrightarrow> (i, u) \<in> (needRel S)\<^sup>* \<and> sForm (simpleOf S u) = SimpleUnion) \<and>
         (\<forall>l. semList s = Some l \<longrightarrow> (i, l) \<in> (needRel S)\<^sup>* \<and> sForm (simpleOf S l) = SimpleList) \<and>
         (semUnion s = None \<longrightarrow> semList s = None \<longrightarrow>
           (\<exists>j n. (i, j) \<in> (needRel S)\<^sup>* \<and> Some n \<in> needs S j \<and> memberTarget S n = None \<and> Local (smName n) = Builtin s \<and> memberBuiltin n \<noteq> None))
     | None \<Rightarrow> semUnion s = None \<and> semList s = None \<and> Local (smName m) = Builtin s \<and> memberBuiltin m \<noteq> None)"
proof (induction rule: means_memberMeans.inducts)
  case (m_restriction i m s s')
  have same: "semUnion s' = semUnion s" "semList s' = semList s" "Builtin s' = Builtin s" using m_restriction by (auto simp: restrictsTo_iff)
  have need: "Some m \<in> needs S i" using m_restriction by (simp add: needs_def)
  show ?case
  proof (cases "memberTarget S m")
    case None
    then show ?thesis using m_restriction same need by auto
  next
    case (Some j)
    then have "(i, j) \<in> needRel S" using need by (auto simp: needRel_def)
    then show ?thesis using m_restriction Some same by (auto intro: converse_rtrancl_into_rtrancl)
  qed
next
  case (mm_builtin m s)
  then have "Builtin s = Local (smName m)" "semUnion s = None" "semList s = None"
    using builtin_semantics(1) by (auto simp: builtinSemantics_def SimpleSemantics.extend_def)
  with mm_builtin show ?case by (simp add: memberTarget_def memberBuiltin_def)
qed (simp_all add: memberTarget_def)


section \<open>Operations on the caches\<close>

definition trace :: "bool \<Rightarrow> ValueContext \<Rightarrow> ValueContext \<Rightarrow> bool" where
  "trace moved c c' \<longleftrightarrow> Derivations (vcTypes c') = Derivations (vcTypes c) \<and> Issues (vcTypes c') = Issues (vcTypes c) \<and>
     (if moved then version c < version c' \<and> AssessmentErr (vcTypes c') \<noteq> []
      else version c' = version c \<and> AssessmentErr (vcTypes c') = AssessmentErr (vcTypes c))"

lemma trace_refl [simp]: "trace False c c"
  by (simp add: trace_def)

lemma epochs_trans: "trace b c c1 \<Longrightarrow> trace b' c1 c2 \<Longrightarrow> trace (b \<or> b') c c2"
  by (auto simp: trace_def split: if_splits)

text \<open>A cached literal: right, or known to be incomplete and then never used for a verdict.\<close>

definition entryOK :: "valueData \<Rightarrow> nat \<Rightarrow> nat \<Rightarrow> EnumerationValue \<Rightarrow> bool" where
  "entryOK D i k e \<longleftrightarrow>
     (if evIncomplete e then \<not> ready D i
      else \<exists>m b. sBase (simpleOf (vdSchema D) i) = Some m \<and> memberMeans (vdSchema D) m b \<and>
        (if evValid e then \<exists>a. denotes D b (sEnumerations (simpleOf (vdSchema D) i) ! k) a \<and> evActual e = asValue a
         else noValue D b (sEnumerations (simpleOf (vdSchema D) i) ! k)))"

definition enumInv :: "valueData \<Rightarrow> (nat \<times> nat) set \<Rightarrow> (nat \<times> nat \<rightharpoonup> EnumerationValue) \<Rightarrow> bool" where
  "enumInv D K E \<longleftrightarrow> (\<forall>i k e. E (i, k) = Some e \<longrightarrow> (i, k) \<in> K \<or> entryOK D i k e)"

text \<open>The caches of a context, with the enumeration literals in \<open>K\<close> still being converted.\<close>

definition cachesOK :: "valueData \<Rightarrow> (nat \<times> nat) set \<Rightarrow> ValueContext \<Rightarrow> bool" where
  "cachesOK D K c \<longleftrightarrow> metaInv (vdSchema D) {} (TypeMetadata (vcTypes c)) \<and> semInv (vdSchema D) {} (SemanticsCache (vcTypes c)) \<and>
     enumInv D K (EnumerationValues c)"

definition yields :: "valueData \<Rightarrow> (nat \<times> nat) set \<Rightarrow> 'a vact \<Rightarrow> ('a \<Rightarrow> bool \<Rightarrow> bool) \<Rightarrow> bool" where
  "yields D K x P \<longleftrightarrow> (\<forall>c. cachesOK D K c \<longrightarrow>
     (\<exists>r c' moved. x c = Some (r, c') \<and> cachesOK D K c' \<and> trace moved c c' \<and> P r moved))"

lemma yieldsD:
  assumes "yields D K x P" "cachesOK D K c"
  obtains r c' moved where "x c = Some (r, c')" "cachesOK D K c'" "trace moved c c'" "P r moved"
  using assms unfolding yields_def by blast

lemma yields_ret: "P r False \<Longrightarrow> yields D K (ret r) P"
  unfolding yields_def ret_def using trace_refl by blast

lemma bnd_ret [simp]: "bnd (ret a) f = f a"
  by (simp add: bnd_def ret_def fun_eq_iff)

lemma yields_weaken: "yields D K x P \<Longrightarrow> (\<And>r moved. P r moved \<Longrightarrow> Q r moved) \<Longrightarrow> yields D K x Q"
  unfolding yields_def by blast

lemma yields_bnd:
  assumes "yields D K x P" "\<And>r moved. P r moved \<Longrightarrow> yields D K (f r) (\<lambda>s moved'. Q s (moved \<or> moved'))"
  shows "yields D K (bnd x f) Q"
  unfolding yields_def
proof (intro allI impI)
  fix c assume "cachesOK D K c"
  with assms(1) obtain r c1 b where 1: "x c = Some (r, c1)" "cachesOK D K c1" "trace b c c1" "P r b" by (rule yieldsD)
  from assms(2) [OF 1(4)] 1(2) obtain s c2 b' where 2: "f r c1 = Some (s, c2)" "cachesOK D K c2" "trace b' c1 c2" "Q s (b \<or> b')"
    by (rule yieldsD)
  show "\<exists>s c' moved. bnd x f c = Some (s, c') \<and> cachesOK D K c' \<and> trace moved c c' \<and> Q s moved"
    using 1(1) 2 epochs_trans [OF 1(3) 2(3)] by (auto simp: bnd_def)
qed

text \<open>An operation between two readings of the epoch.\<close>

lemma trace_version: "trace moved c c' \<Longrightarrow> version c' \<noteq> version c \<longleftrightarrow> moved"
  by (auto simp: trace_def split: if_splits)

lemma yields_watched:
  assumes "yields D K x P" "\<And>r moved before after. P r moved \<Longrightarrow> (after \<noteq> before \<longleftrightarrow> moved) \<Longrightarrow>
    yields D K (f before r after) (\<lambda>s moved'. Q s (moved \<or> moved'))"
  shows "yields D K (bnd (get version) (\<lambda>before. bnd x (\<lambda>r. bnd (get version) (f before r)))) Q"
  unfolding yields_def
proof (intro allI impI)
  fix c assume "cachesOK D K c"
  with assms(1) obtain r c1 b where 1: "x c = Some (r, c1)" "cachesOK D K c1" "trace b c c1" "P r b" by (rule yieldsD)
  from assms(2) [OF 1(4) trace_version [OF 1(3)]] 1(2) obtain s c2 b' where
    2: "f (version c) r (version c1) c1 = Some (s, c2)" "cachesOK D K c2" "trace b' c1 c2" "Q s (b \<or> b')"
    by (rule yieldsD)
  show "\<exists>s c' moved. bnd (get version) (\<lambda>before. bnd x (\<lambda>r. bnd (get version) (f before r))) c = Some (s, c') \<and>
      cachesOK D K c' \<and> trace moved c c' \<and> Q s moved"
    using 1(1) 2 epochs_trans [OF 1(3) 2(3)] by (auto simp: bnd_def get_def)
qed

lemma yields_Incomplete: "yields D K (inTypes (Incomplete msg)) (\<lambda>_ moved. moved)"
  by (auto simp: yields_def inTypes_def Incomplete_def upd_def cachesOK_def trace_def version_def)

lemma yields_AssessmentFailure: "yields D K (AssessmentFailure p args) (\<lambda>f moved. f = failure ''assessment'' p args)"
proof -
  have "yields D K (bnd (if err = [] then inTypes (Incomplete (Formatted p args)) else ret ()) (\<lambda>_. ret (failure ''assessment'' p args)))
      (\<lambda>f moved. f = failure ''assessment'' p args)" for err :: "message list"
    by (rule yields_bnd [of _ _ _ "\<lambda>_ _. True"]) (auto intro!: yields_ret intro: yields_weaken [OF yields_Incomplete])
  then show ?thesis unfolding AssessmentFailure_def yields_def bnd_def [of "get _"] get_def by auto
qed

lemma yields_IncompleteFailure: "yields D K (IncompleteFailure p args) (\<lambda>f moved. moved \<and> f = failure ''assessment'' p args)"
  unfolding IncompleteFailure_def
  by (rule yields_bnd [OF yields_Incomplete]) (auto intro: yields_weaken [OF yields_AssessmentFailure])

lemma yields_metadata_of:
  assumes "plain u"
  shows "yields D K (inTypes (ValidTypeMetadata (metadataDepth (vdSchema D)) (vdSchema D) u))
     (\<lambda>ok moved. (ok \<longleftrightarrow> soundType (vdSchema D) u) \<and> (moved \<longleftrightarrow> \<not> ok))"
  unfolding yields_def
proof (intro allI impI)
  fix c assume c: "cachesOK D K c"
  from ValidTypeMetadata_exact [OF room_bound assms, of "{}" "vdSchema D"] c obtain t where
    t: "ValidTypeMetadata (metadataDepth (vdSchema D)) (vdSchema D) u (vcTypes c) = Some (soundType (vdSchema D) u, t)"
    "settled (vdSchema D) {} (vcTypes c) (soundType (vdSchema D) u) t"
    unfolding decides_def cachesOK_def by blast
  let ?ok = "soundType (vdSchema D) u"
  have same: "SemanticsCache t = SemanticsCache (vcTypes c)" "Derivations t = Derivations (vcTypes c)" "Issues t = Issues (vcTypes c)"
    using t(2) unfolding settled_def by (metis TypeContext.ext_inject TypeContext.surjective TypeContext.update_convs)+
  show "\<exists>r c' moved. inTypes (ValidTypeMetadata (metadataDepth (vdSchema D)) (vdSchema D) u) c = Some (r, c') \<and>
      cachesOK D K c' \<and> trace moved c c' \<and> (r \<longleftrightarrow> ?ok) \<and> (moved \<longleftrightarrow> \<not> r)"
    using t c same by (auto simp: inTypes_def cachesOK_def trace_def version_def settled_def split: if_splits)
qed

lemma yields_metadata:
  "yields D K (inTypes (ValidTypeMetadata (metadataDepth (vdSchema D)) (vdSchema D) (simpleIdentity i)))
     (\<lambda>ok moved. (ok \<longleftrightarrow> soundType (vdSchema D) (simpleIdentity i)) \<and> (moved \<longleftrightarrow> \<not> ok))"
  by (rule yields_metadata_of) (simp add: plain_def simpleIdentity_def)

lemma yields_resolve:
  "yields D K (inTypes (resolveSemantics D i)) (\<lambda>r moved. (\<forall>s. r = Some s \<longleftrightarrow> means (vdSchema D) i s) \<and> (moved \<longleftrightarrow> r = None))"
  unfolding yields_def
proof (intro allI impI)
  fix c assume c: "cachesOK D K c"
  then obtain r t where r: "resolveSemantics D i (vcTypes c) = Some (r, t)" "semStep (vdSchema D) {} (vcTypes c) (r \<noteq> None) t"
    "\<forall>s. r = Some s \<longleftrightarrow> means (vdSchema D) i s" "r = None \<longrightarrow> AssessmentVersion (vcTypes c) < AssessmentVersion t \<and> AssessmentErr t \<noteq> []"
    using resolve_ready [of "vdSchema D" i] unfolding resolvesTo_def resolveSemantics_def cachesOK_def by blast
  have same: "TypeMetadata t = TypeMetadata (vcTypes c)" "Derivations t = Derivations (vcTypes c)" "Issues t = Issues (vcTypes c)"
    using r(2) unfolding semStep_def by (metis TypeContext.ext_inject TypeContext.surjective TypeContext.update_convs)+
  show "\<exists>r c' moved. inTypes (resolveSemantics D i) c = Some (r, c') \<and> cachesOK D K c' \<and> trace moved c c' \<and>
      (\<forall>s. r = Some s \<longleftrightarrow> means (vdSchema D) i s) \<and> (moved \<longleftrightarrow> r = None)"
    by (rule exI [of _ r], rule exI [of _ "c\<lparr>vcTypes := t\<rparr>"], rule exI [of _ "r = None"])
      (use r c same in \<open>auto simp: inTypes_def cachesOK_def trace_def version_def semStep_def\<close>)
qed

lemma yields_memberSemantics:
  "yields D K (memberSemantics D (Some m)) (\<lambda>r moved. (\<forall>s. r = Some s \<longleftrightarrow> memberMeans (vdSchema D) m s) \<and> (r \<noteq> None \<longrightarrow> \<not> moved))"
proof (cases "memberTarget (vdSchema D) m")
  case None
  then have "memberSemantics D (Some m) = ret (memberBuiltin m)"
    by (auto simp: memberSemantics_def MemberSemantics_target inTypes_def ret_def)
  then show ?thesis using None by (auto simp: memberMeans_iff intro: yields_ret)
next
  case (Some i)
  then have "memberSemantics D (Some m) = inTypes (resolveSemantics D i)" by (simp add: memberSemantics_def MemberSemantics_target)
  with Some show ?thesis by (auto simp: memberMeans_iff intro: yields_weaken [OF yields_resolve])
qed

text \<open>The verdict of an assessment that is available when \<open>R\<close> holds.\<close>

definition verdict :: "bool \<Rightarrow> (SimpleAssessment \<Rightarrow> bool) \<Rightarrow> bool \<Rightarrow> outcome \<Rightarrow> bool \<Rightarrow> bool" where
  "verdict R A J r moved \<longleftrightarrow>
     (case r of
        Inr a \<Rightarrow> \<not> moved \<and> A a
      | Inl f \<Rightarrow> if TechnicalFailure f then moved \<and> \<not> R else \<not> moved \<and> J)"

lemma verdict_weaken: "verdict R' A J r moved \<Longrightarrow> (R \<Longrightarrow> R') \<Longrightarrow> (\<And>a. A a \<Longrightarrow> A' a) \<Longrightarrow> (J \<Longrightarrow> J') \<Longrightarrow> verdict R A' J' r moved"
  by (auto simp: verdict_def split: sum.splits if_splits)

lemma technical [simp]: "TechnicalFailure (failure ''assessment'' p args)" "TechnicalFailure (failure ''schema'' p args)"
  by (simp_all add: TechnicalFailure_def failure_def)


section \<open>Built-in types\<close>

definition builtinNames :: "string list" where
  "builtinNames = [''string'', ''anySimpleType'', ''normalizedString'', ''token'', ''language'', ''Name'', ''NCName'', ''NMTOKEN'', ''ID'', ''IDREF'',
     ''ENTITY'', ''NMTOKENS'', ''IDREFS'', ''ENTITIES'', ''boolean'', ''decimal'', ''float'', ''double'', ''integer'', ''long'', ''int'', ''short'',
     ''byte'', ''nonPositiveInteger'', ''negativeInteger'', ''nonNegativeInteger'', ''positiveInteger'', ''unsignedLong'', ''unsignedInt'',
     ''unsignedShort'', ''unsignedByte'', ''base64Binary'', ''hexBinary'', ''anyURI'', ''QName'', ''NOTATION'', ''date'', ''dateTime'', ''duration'',
     ''gDay'', ''gMonth'', ''gMonthDay'', ''gYear'', ''gYearMonth'', ''time'', ''anyType'']"

lemma known_builtin:
  assumes "builtinSemanticsValue name \<noteq> None"
  shows "name \<in> set builtinNames"
proof -
  have split: "(if a then x else y) \<noteq> None \<Longrightarrow> (a \<Longrightarrow> P) \<Longrightarrow> (\<not> a \<Longrightarrow> y \<noteq> None \<Longrightarrow> P) \<Longrightarrow> P" for a P and x y :: "SimpleSemantics option"
    by (cases a) auto
  have "set builtinNames = insert ''string'' (insert ''anySimpleType'' (insert ''normalizedString''
    ({''token'', ''language'', ''Name'', ''NCName'', ''NMTOKEN'', ''ID'', ''IDREF'', ''ENTITY''} \<union>
     {''NMTOKENS'', ''IDREFS'', ''ENTITIES'', ''boolean'', ''decimal'', ''float'', ''double'',
      ''integer'', ''long'', ''int'', ''short'', ''byte'',
      ''nonPositiveInteger'', ''negativeInteger'', ''nonNegativeInteger'', ''positiveInteger'',
      ''unsignedLong'', ''unsignedInt'', ''unsignedShort'', ''unsignedByte'', ''base64Binary'',
      ''hexBinary'', ''anyURI'', ''QName'', ''NOTATION'', ''date'', ''dateTime'', ''duration'',
      ''gDay'', ''gMonth'', ''gMonthDay'', ''gYear'', ''gYearMonth'', ''time'', ''anyType''})))"
    unfolding builtinNames_def list.set Un_insert_left Un_empty_left ..
  then show ?thesis using assms unfolding builtinSemanticsValue_def Let_def
    by (elim split) (simp_all only: insert_iff Un_iff simp_thms)
qed

lemma lexical_table: "list_all (\<lambda>name. name = ''boolean'' \<or> builtinLexical L name w \<noteq> None) builtinNames"
  by code_simp

lemma item_table: "list_all (\<lambda>name. BuiltinListItem name = [] \<or> builtinSemanticsValue (BuiltinListItem name) \<noteq> None) builtinNames"
  by code_simp

lemma validate_display: "map_option fConstraint (validateBuiltinValue L name v d) = map_option fConstraint (validateBuiltinValue L name v d')"
  by (simp add: validateBuiltinValue_def failure_def split: option.splits)

lemma builtin_failure:
  assumes "builtinSemanticsValue name \<noteq> None" "validateBuiltinValue L name v d = Some f"
  shows "fConstraint f = ''datatype'' \<and> builtinRejects L name v"
proof -
  have "name = ''boolean'' \<or> builtinLexical L name (normalizeWhitespace name v) \<noteq> None"
    using known_builtin [OF assms(1)] lexical_table by (auto simp: list_all_iff)
  then have f: "fConstraint f = ''datatype''"
    using assms(2) by (auto simp: validateBuiltinValue_def failure_def split: if_splits option.splits)
  with assms(2) validate_display [of L name v v d] show ?thesis by (auto simp: builtinRejects_def)
qed

lemma builtinAssessment_known: "builtinSemanticsValue name \<noteq> None \<Longrightarrow> builtinAssessment name v \<noteq> None"
  using known_builtin [of name] item_table by (auto simp: builtinAssessment_def Let_def list_all_iff split: option.splits)

lemma AssessBuiltinValue_yields:
  assumes "builtinSemanticsValue name \<noteq> None"
  shows "yields D K (AssessBuiltinValue D name v d) (verdict (\<not> entityBuiltin name) (builtinAdmits (vdLibrary D) name v) (builtinRejects (vdLibrary D) name v))"
proof (cases "validateBuiltinValue (vdLibrary D) name v d")
  case None
  then have v: "validateBuiltinValue (vdLibrary D) name v v = None" using validate_display [of "vdLibrary D" name v v d] by simp
  obtain a where a: "builtinAssessment name v = Some a" using builtinAssessment_known [OF assms] by blast
  show ?thesis
  proof (cases "entityBuiltin name")
    case True
    then show ?thesis using None unfolding AssessBuiltinValue_def fails_def
      by (simp) (rule yields_bnd [OF yields_IncompleteFailure], auto simp: verdict_def intro: yields_ret)
  qed (use None v a in \<open>auto simp: AssessBuiltinValue_def verdict_def builtinAdmits_def intro: yields_ret\<close>)
next
  case (Some f)
  with builtin_failure [OF assms Some] show ?thesis
    by (auto simp: AssessBuiltinValue_def verdict_def TechnicalFailure_def intro!: yields_ret)
qed

section \<open>Facets\<close>

lemma runBounds_display: "runBounds parse cmp n d ts = None \<longleftrightarrow> runBounds parse cmp n d' ts = None"
  by (induction ts) (auto simp: Let_def split: option.splits if_splits)

lemma runFloatBounds_display: "runFloatBounds L n d ts = None \<longleftrightarrow> runFloatBounds L n d' ts = None"
  by (induction ts) (auto split: option.splits if_splits)

lemma bounds_display: "validateBoundsValue L f w b d = None \<longleftrightarrow> validateBoundsValue L f w b d' = None"
  by (simp add: validateBoundsValue_def validateIntegerBounds_def validateDecimalBounds_def runBounds_display [of _ _ _ d _ d']
      runFloatBounds_display [of _ _ d _ d'] split: option.split)

lemma runBounds_technical:
  assumes "runBounds parse cmp n d ts = Some f" "TechnicalFailure f" "\<forall>(enabled, c, lexeme, _) \<in> set ts. c \<notin> {''assessment'', ''schema'', ''model-capability''}"
  shows "fConstraint f = ''schema'' \<and> (\<exists>(enabled, c, lexeme, _) \<in> set ts. enabled \<and> parse lexeme = None)"
  using assms by (induction ts) (auto simp: Let_def TechnicalFailure_def failure_def split: option.splits if_splits)

lemma runFloatBounds_technical:
  assumes "runFloatBounds L n d ts = Some f" "TechnicalFailure f" "\<forall>(enabled, c, lexeme, _) \<in> set ts. c \<notin> {''assessment'', ''schema'', ''model-capability''}"
  shows "fConstraint f = ''schema'' \<and> (\<exists>(enabled, c, lexeme, _) \<in> set ts. enabled \<and> libParseFloat L lexeme = None)"
  using assms by (induction ts) (auto simp: TechnicalFailure_def failure_def split: option.splits if_splits)

lemma bounds_technical:
  assumes "validateBoundsValue L f w b d = Some e" "TechnicalFailure e"
  shows "fConstraint e = ''schema'' \<and> \<not> boundsReady L f b"
proof -
  have names: "\<forall>(enabled, c, lexeme, _) \<in> set (boundTests f). c \<notin> {''assessment'', ''schema'', ''model-capability''}"
    "\<forall>(enabled, c, lexeme, _) \<in> set (floatTests f). c \<notin> {''assessment'', ''schema'', ''model-capability''}"
    by (simp_all add: boundTests_def floatTests_def)
  have plain: "\<not> TechnicalFailure (failure ''datatype'' p args)" for p args by (simp add: TechnicalFailure_def failure_def)
  consider (int) "IntegerLimits b \<noteq> None" | (dec) "IntegerLimits b = None" "b = ''decimal''" | (other) "IntegerLimits b = None" "b \<noteq> ''decimal''" by blast
  then show ?thesis
  proof cases
    case int
    then obtain n where "runBounds parseInteger Integer_compare n d (boundTests f) = Some e"
      using assms plain by (auto simp: validateBoundsValue_def validateIntegerBounds_def split: if_splits option.splits)
    from runBounds_technical [OF this assms(2) names(1)] int show ?thesis unfolding boundsReady_def by fastforce
  next
    case dec
    then obtain n where "runBounds parseDecimal Decimal_compare n d (boundTests f) = Some e"
      using assms plain by (auto simp: validateBoundsValue_def validateDecimalBounds_def split: if_splits option.splits)
    from runBounds_technical [OF this assms(2) names(1)] dec show ?thesis unfolding boundsReady_def by fastforce
  next
    case other
    then obtain n where "runFloatBounds L n d (floatTests f) = Some e"
      using assms plain by (auto simp: validateBoundsValue_def split: if_splits option.splits)
    from runFloatBounds_technical [OF this assms(2) names(2)] show ?thesis
      using other by (auto simp: boundsReady_def boundTests_def floatTests_def)
  qed
qed

lemma patternLoop_exact:
  "patternLoop L w ps m = Inr ok \<Longrightarrow> ok \<longleftrightarrow> m \<or> (\<exists>p \<in> set ps. matchPattern L p w = Inr True)"
  by (induction ps arbitrary: m) (auto split: sum.splits)

lemma patternLoop_technical: "patternLoop L w ps m = Inl f \<Longrightarrow> fConstraint f = ''schema'' \<and> (\<exists>p \<in> set ps. \<exists>err. matchPattern L p w = Inl err)"
  by (induction ps arbitrary: m) (auto simp: failure_def split: sum.splits)

lemma patterns_exact: "validatePatternFacets L f w d = None \<Longrightarrow> patternsHold L f w"
  by (auto simp: validatePatternFacets_def patternsHold_def dest!: patternLoop_exact split: sum.splits if_splits)

lemma patterns_failure:
  assumes "validatePatternFacets L f w d = Some e"
  shows "if TechnicalFailure e then fConstraint e = ''schema'' \<and> (\<exists>p \<in> set (Patterns f). \<exists>err. matchPattern L p w = Inl err) else \<not> patternsHold L f w"
proof (cases "patternLoop L w (Patterns f) (Patterns f = [])")
  case (Inl g)
  then show ?thesis using assms patternLoop_technical [OF Inl] by (auto simp: validatePatternFacets_def TechnicalFailure_def)
next
  case (Inr ok)
  then have "\<not> ok" "\<not> TechnicalFailure e"
    using assms by (auto simp: validatePatternFacets_def TechnicalFailure_def failure_def split: if_splits)
  with patternLoop_exact [OF Inr] show ?thesis by (auto simp: patternsHold_def)
qed

lemma length_plain: "validateLengthFacets f w l b = Some e \<Longrightarrow> \<not> TechnicalFailure e"
  by (auto simp: validateLengthFacets_def TechnicalFailure_def failure_def Let_def split: if_splits option.splits)

lemma digits_plain: "validateDigitFacets u f w b = Some e \<Longrightarrow> \<not> TechnicalFailure e"
  by (auto simp: validateDigitFacets_def digitCounts_def TechnicalFailure_def failure_def Let_def split: if_splits option.splits sum.splits)

lemma facets_exact:
  "facetFailure L f b w l d = None \<Longrightarrow> facetsHold L f b l w"
  "facetFailure L f b w l d = Some e \<Longrightarrow> if TechnicalFailure e then fConstraint e = ''schema'' \<and> \<not> facetsReady L f b else \<not> facetsHold L f b l w"
proof -
  let ?p = "validatePatternFacets L f w d" and ?b = "validateBoundsValue L f w b d" and ?l = "validateLengthFacets f w l b"
    and ?t = "validateDigitFacets (libIsDigit L) f w b"
  have eq: "facetFailure L f b w l d = (case ?p of Some e \<Rightarrow> Some e | None \<Rightarrow> (case ?b of Some e \<Rightarrow> Some e | None \<Rightarrow>
      (case ?l of Some e \<Rightarrow> Some e | None \<Rightarrow> ?t)))"
    by (simp add: facetFailure_def firstFailure_def split: option.splits)
  show "facetFailure L f b w l d = None \<Longrightarrow> facetsHold L f b l w"
    using patterns_exact [of L f w d] bounds_display [of L f w b d w] by (auto simp: eq facetsHold_def split: option.splits)
  assume "facetFailure L f b w l d = Some e"
  then consider "?p = Some e" | "?b = Some e" | "?l = Some e" | "?t = Some e" by (auto simp: eq split: option.splits)
  then show "if TechnicalFailure e then fConstraint e = ''schema'' \<and> \<not> facetsReady L f b else \<not> facetsHold L f b l w"
  proof cases
    case 1
    have "\<not> facetsReady L f b" if "\<exists>p \<in> set (Patterns f). \<exists>err. matchPattern L p w = Inl err"
      using that unfolding facetsReady_def by (metis sum.distinct(1))
    with patterns_failure [OF 1] show ?thesis by (cases "TechnicalFailure e") (simp_all add: facetsHold_def)
  next
    case 2
    with bounds_technical [OF 2] bounds_display [of L f w b d w] show ?thesis by (auto simp: facetsReady_def facetsHold_def)
  next
    case 3
    with length_plain [OF 3] show ?thesis by (auto simp: facetsHold_def)
  next
    case 4
    with digits_plain [OF 4] show ?thesis by (auto simp: facetsHold_def)
  qed
qed


section \<open>Members\<close>

text \<open>The recursion below a definition is right.\<close>

definition soundBelow :: "valueData \<Rightarrow> (nat \<times> nat) set \<Rightarrow> nat \<Rightarrow> assessor \<Rightarrow> bool" where
  "soundBelow D K i assess \<longleftrightarrow> (\<forall>j v d. (i, j) \<in> (needRel (vdSchema D))\<^sup>+ \<longrightarrow>
     yields D K (assess j v d) (verdict (ready D j) (admits D j v) (rejects D j v)))"

lemma soundBelowD:
  assumes "soundBelow D K i assess" "(i, j) \<in> (needRel (vdSchema D))\<^sup>+"
  shows "yields D K (assess j v d) (verdict (ready D i) (admits D j v) (rejects D j v))"
proof (rule yields_weaken)
  show "yields D K (assess j v d) (verdict (ready D j) (admits D j v) (rejects D j v))" using assms unfolding soundBelow_def by blast
  show "verdict (ready D j) (admits D j v) (rejects D j v) r moved \<Longrightarrow> verdict (ready D i) (admits D j v) (rejects D j v) r moved" for r moved
    by (erule verdict_weaken) (use ready_below assms(2) in blast)+
qed

lemma member_below: "Some m \<in> needs S i \<Longrightarrow> memberTarget S m = Some j \<Longrightarrow> (i, j) \<in> (needRel S)\<^sup>+"
  by (auto simp: needRel_def)

lemma member_known: "memberMeans S m b \<Longrightarrow> memberTarget S m = None \<Longrightarrow> builtinSemanticsValue (Local (smName m)) \<noteq> None \<and> memberBuiltin m \<noteq> None"
  by (auto simp: memberMeans_iff memberBuiltin_def builtinSemantics_def split: if_splits)

lemma AssessSimpleMemberValue_target:
  assumes "memberTarget (vdSchema D) m = None \<Longrightarrow> memberBuiltin m \<noteq> None"
  shows "AssessSimpleMemberValue D assess (Some m) v d =
    bnd (memberSemantics D (Some m)) (\<lambda>semantics. if semantics = None then fails (IncompleteFailure ''simple type member cannot be resolved'' [])
      else (case memberTarget (vdSchema D) m of Some j \<Rightarrow> assess j v d | None \<Rightarrow> AssessBuiltinValue D (Local (smName m)) v d))"
  using assms unfolding AssessSimpleMemberValue_def memberTarget_def memberBuiltin_def
  by (intro arg_cong [of _ _ "bnd _"] ext) (auto split: option.splits if_splits)

lemma yields_member:
  assumes "memberMeans (vdSchema D) m b" "yields D K (f (Some b)) Q"
  shows "yields D K (bnd (memberSemantics D (Some m)) f) Q"
proof (rule yields_bnd [OF yields_memberSemantics])
  fix r moved
  assume "(\<forall>s. r = Some s \<longleftrightarrow> memberMeans (vdSchema D) m s) \<and> (r \<noteq> None \<longrightarrow> \<not> moved)"
  with assms(1) have "r = Some b" "\<not> moved" by auto
  with assms(2) show "yields D K (f r) (\<lambda>s moved'. Q s (moved \<or> moved'))" by simp
qed

lemma member_yields:
  assumes "soundBelow D K i assess" "Some m \<in> needs (vdSchema D) i" "memberMeans (vdSchema D) m b"
  shows "yields D K (AssessSimpleMemberValue D assess (Some m) v d) (verdict (ready D i) (mAdmits D m v) (mRejects D m v))"
proof -
  have known: "memberTarget (vdSchema D) m = None \<Longrightarrow> memberBuiltin m \<noteq> None" using member_known [OF assms(3)] by blast
  have inner: "yields D K (case memberTarget (vdSchema D) m of Some j \<Rightarrow> assess j v d | None \<Rightarrow> AssessBuiltinValue D (Local (smName m)) v d)
      (verdict (ready D i) (mAdmits D m v) (mRejects D m v))"
  proof (cases "memberTarget (vdSchema D) m")
    case None
    have "\<not> entityBuiltin (Local (smName m))" if "ready D i"
      using that assms(2) None unfolding ready_def nodeReady_def by blast
    with AssessBuiltinValue_yields [of "Local (smName m)" D K v d] member_known [OF assms(3) None] None show ?thesis
      by (auto simp: mAdmits_iff mRejects_iff elim!: yields_weaken verdict_weaken)
  next
    case (Some j)
    then have "mAdmits D m v = admits D j v" "mRejects D m v = rejects D j v" by (auto simp: fun_eq_iff mAdmits_iff mRejects_iff)
    with Some soundBelowD [OF assms(1) member_below [OF assms(2) Some], of v d] show ?thesis by simp
  qed
  have "AssessSimpleMemberValue D assess (Some m) v d = bnd (memberSemantics D (Some m)) (\<lambda>semantics. if semantics = None
      then fails (IncompleteFailure ''simple type member cannot be resolved'' [])
      else (case memberTarget (vdSchema D) m of Some j \<Rightarrow> assess j v d | None \<Rightarrow> AssessBuiltinValue D (Local (smName m)) v d))"
    by (rule AssessSimpleMemberValue_target) (use known in simp)
  then show ?thesis by (simp only:) (rule yields_member [OF assms(3)], use inner in simp)
qed

lemma semUnion_below:
  assumes "Some m \<in> needs S i" "memberMeans S m b" "semUnion b = Some u"
  shows "(i, u) \<in> (needRel S)\<^sup>+"
proof (cases "memberTarget S m")
  case None
  then show ?thesis using semantics_target(2) [OF assms(2)] assms(3) by simp
next
  case (Some j)
  then show ?thesis using semantics_target(2) [OF assms(2)] assms(1,3) member_below [OF assms(1) Some] by (auto intro: trancl_rtrancl_trancl)
qed

lemma union_member_yields:
  assumes "soundBelow D K i assess" "Some m \<in> needs (vdSchema D) i" "memberMeans (vdSchema D) m b"
  shows "yields D K (AssessUnionMemberValue D assess (Some m) v d) (verdict (ready D i) (uAdmits D m v) (uRejects D m v))"
proof -
  have inner: "yields D K (case Option.bind (Some b) semUnion of Some u \<Rightarrow> assess u v d | None \<Rightarrow> AssessSimpleMemberValue D assess (Some m) v d)
      (verdict (ready D i) (uAdmits D m v) (uRejects D m v))"
  proof (cases "semUnion b")
    case None
    then have "uAdmits D m v = mAdmits D m v" "uRejects D m v = mRejects D m v"
      by (auto simp: fun_eq_iff uAdmits_iff [OF assms(3)] uRejects_iff [OF assms(3)])
    then show ?thesis using member_yields [OF assms] None by simp
  next
    case (Some u)
    then have "uAdmits D m v = admits D u v" "uRejects D m v = rejects D u v"
      by (auto simp: fun_eq_iff uAdmits_iff [OF assms(3)] uRejects_iff [OF assms(3)])
    then show ?thesis using soundBelowD [OF assms(1) semUnion_below [OF assms(2,3) Some]] Some by simp
  qed
  show ?thesis unfolding AssessUnionMemberValue_def
    by (rule yields_member [OF assms(3)]) (rule inner)
qed

text \<open>The first member of a union that does not reject.\<close>

definition firstAdmits :: "valueData \<Rightarrow> string \<Rightarrow> SimpleMember option list \<Rightarrow> SimpleAssessment \<Rightarrow> bool" where
  "firstAdmits D v ms a \<longleftrightarrow> (\<exists>pre m post a0. ms = pre @ Some m # post \<and> (\<forall>m' \<in> set pre. \<exists>n. m' = Some n \<and> uRejects D n v) \<and>
     uAdmits D m v a0 \<and> a = a0\<lparr>asAtomic := False\<rparr>)"

lemma firstAdmits_first: "uAdmits D n v a \<Longrightarrow> firstAdmits D v (Some n # ms) (a\<lparr>asAtomic := False\<rparr>)"
  unfolding firstAdmits_def by (intro exI [of _ "[]"] exI [of _ n] exI [of _ ms] exI [of _ a]) simp

lemma firstAdmits_later:
  assumes "firstAdmits D v ms a" "uRejects D n v"
  shows "firstAdmits D v (Some n # ms) a"
proof -
  from assms(1) obtain pre k post a0 where "ms = pre @ Some k # post" "\<forall>m' \<in> set pre. \<exists>n. m' = Some n \<and> uRejects D n v" "uAdmits D k v a0"
    "a = a0\<lparr>asAtomic := False\<rparr>" unfolding firstAdmits_def by blast
  with assms(2) show ?thesis unfolding firstAdmits_def
    by (intro exI [of _ "Some n # pre"] exI [of _ k] exI [of _ post] exI [of _ a0]) simp
qed

definition allReject :: "valueData \<Rightarrow> string \<Rightarrow> SimpleMember option list \<Rightarrow> bool" where
  "allReject D v ms \<longleftrightarrow> (\<forall>m' \<in> set ms. \<exists>n. m' = Some n \<and> uRejects D n v)"

lemma assessUnion_yields:
  assumes "soundBelow D K i assess" "\<forall>m \<in> set ms. \<exists>n b. m = Some n \<and> Some n \<in> needs (vdSchema D) i \<and> memberMeans (vdSchema D) n b"
  shows "yields D K (assessUnion D assess ms v d) (verdict (ready D i) (firstAdmits D v ms) (allReject D v ms))"
  using assms(2)
proof (induction ms)
  case Nil
  then show ?case by (auto simp: verdict_def TechnicalFailure_def failure_def allReject_def intro!: yields_ret)
next
  case (Cons m ms)
  then obtain n b where m: "m = Some n" "Some n \<in> needs (vdSchema D) i" "memberMeans (vdSchema D) n b" by auto
  have IH: "yields D K (assessUnion D assess ms v d) (verdict (ready D i) (firstAdmits D v ms) (allReject D v ms))"
    using Cons by simp
  show ?case unfolding assessUnion.simps m(1)
  proof (rule yields_bnd [OF union_member_yields [OF assms(1) m(2,3)]])
    fix r moved
    assume r: "verdict (ready D i) (uAdmits D n v) (uRejects D n v) r moved"
    show "yields D K (case r of Inr a \<Rightarrow> ret (Inr (a\<lparr>asAtomic := False\<rparr>)) | Inl f \<Rightarrow> if TechnicalFailure f then ret (Inl f) else assessUnion D assess ms v d)
      (\<lambda>s moved'. verdict (ready D i) (firstAdmits D v (Some n # ms)) (allReject D v (Some n # ms)) s (moved \<or> moved'))"
    proof (cases r)
      case (Inr a)
      then show ?thesis using r firstAdmits_first [of D n v a ms] by (auto simp: verdict_def intro!: yields_ret)
    next
      case (Inl f)
      show ?thesis
      proof (cases "TechnicalFailure f")
        case False
        then have "\<not> moved" "uRejects D n v" using r Inl by (auto simp: verdict_def)
        with IH show ?thesis unfolding Inl using False
          by (auto simp: allReject_def elim!: yields_weaken verdict_weaken intro: firstAdmits_later)
      qed (use r Inl in \<open>auto simp: verdict_def intro!: yields_ret\<close>)
    qed
  qed
qed

section \<open>Lists\<close>

definition listVerdict :: "bool \<Rightarrow> ('a \<Rightarrow> bool) \<Rightarrow> bool \<Rightarrow> SimpleFailure + 'a \<Rightarrow> bool \<Rightarrow> bool" where
  "listVerdict R A J r moved \<longleftrightarrow>
     (case r of Inr a \<Rightarrow> \<not> moved \<and> A a | Inl f \<Rightarrow> if TechnicalFailure f then moved \<and> \<not> R else \<not> moved \<and> J)"

lemma itemFailure_technical [simp]: "TechnicalFailure (itemFailure k f) \<longleftrightarrow> TechnicalFailure f" "fConstraint (itemFailure k f) = fConstraint f"
  by (simp_all add: itemFailure_def failure_def TechnicalFailure_def)

lemma assessItems_yields:
  assumes "soundBelow D K i assess" "Some m \<in> needs (vdSchema D) i" "memberMeans (vdSchema D) m b"
  shows "yields D K (assessItems D assess (Some m) k xs ws) (listVerdict (ready D i)
    (\<lambda>ys. \<exists>zs. ys = xs @ zs \<and> list_all2 (\<lambda>w x. \<exists>a. mAdmits D m w a \<and> x = asValue a) ws zs) (\<exists>w \<in> set ws. mRejects D m w))"
proof (induction ws arbitrary: k xs)
  case Nil
  then show ?case by (auto simp: listVerdict_def intro!: yields_ret)
next
  case (Cons w ws)
  show ?case unfolding assessItems.simps
  proof (rule yields_bnd [OF member_yields [OF assms]])
    fix r moved
    assume r: "verdict (ready D i) (mAdmits D m w) (mRejects D m w) r moved"
    show "yields D K (case r of Inl f \<Rightarrow> ret (Inl (itemFailure k f)) | Inr a \<Rightarrow> assessItems D assess (Some m) (k + 1) (xs @ [asValue a]) ws)
      (\<lambda>s moved'. listVerdict (ready D i) (\<lambda>ys. \<exists>zs. ys = xs @ zs \<and> list_all2 (\<lambda>w x. \<exists>a. mAdmits D m w a \<and> x = asValue a) (w # ws) zs)
        (\<exists>w \<in> set (w # ws). mRejects D m w) s (moved \<or> moved'))"
    proof (cases r)
      case (Inl f)
      then show ?thesis using r by (auto simp: verdict_def listVerdict_def split: if_splits intro!: yields_ret)
    next
      case (Inr a)
      then have "\<not> moved" "mAdmits D m w a" using r by (auto simp: verdict_def)
      then show ?thesis unfolding Inr sum.case
        by (intro yields_weaken [OF Cons.IH]) (auto simp: listVerdict_def list_all2_Cons1 split: sum.splits if_splits)
    qed
  qed
qed


section \<open>Literals\<close>

text \<open>The meaning of a type at or below \<open>i\<close>: the union, list or built-in type it refers to lies below \<open>i\<close>.\<close>

definition locatedBelow :: "valueData \<Rightarrow> nat \<Rightarrow> TypeSemantics \<Rightarrow> bool" where
  "locatedBelow D i s \<longleftrightarrow>
     (\<forall>u. semUnion s = Some u \<longrightarrow> (i, u) \<in> (needRel (vdSchema D))\<^sup>+) \<and>
     (\<forall>l. semList s = Some l \<longrightarrow> (i, l) \<in> (needRel (vdSchema D))\<^sup>+ \<and> sForm (simpleOf (vdSchema D) l) = SimpleList) \<and>
     (semUnion s = None \<longrightarrow> semList s = None \<longrightarrow>
       builtinSemanticsValue (Builtin s) \<noteq> None \<and> (ready D i \<longrightarrow> \<not> entityBuiltin (Builtin s)))"

lemma member_located:
  assumes "(i, j) \<in> (needRel (vdSchema D))\<^sup>*" "Some m \<in> needs (vdSchema D) j" "memberMeans (vdSchema D) m b"
  shows "locatedBelow D i b"
proof -
  let ?R = "needRel (vdSchema D)"
  have leaf: "builtinSemanticsValue (Local (smName n)) \<noteq> None \<and> (ready D i \<longrightarrow> \<not> entityBuiltin (Local (smName n)))"
    if "(i, k) \<in> ?R\<^sup>*" "Some n \<in> needs (vdSchema D) k" "memberTarget (vdSchema D) n = None" "memberBuiltin n \<noteq> None" for k n
    using that unfolding ready_def nodeReady_def by (auto simp: memberBuiltin_def builtinSemantics_def split: if_splits)
  note t = semantics_target(2) [OF assms(3)]
  show ?thesis
  proof (cases "memberTarget (vdSchema D) m")
    case None
    then have m: "semUnion b = None" "semList b = None" "Local (smName m) = Builtin b" "memberBuiltin m \<noteq> None" using t by simp_all
    from leaf [OF assms(1,2) None m(4)] m(1-3) show ?thesis by (simp add: locatedBelow_def)
  next
    case (Some k)
    have ik: "(i, k) \<in> ?R\<^sup>+" using assms(1) member_below [OF assms(2) Some] by (rule rtrancl_trancl_trancl)
    have down: "(i, l) \<in> ?R\<^sup>+" if "(k, l) \<in> ?R\<^sup>*" for l using ik that by (rule trancl_rtrancl_trancl)
    have "builtinSemanticsValue (Builtin b) \<noteq> None \<and> (ready D i \<longrightarrow> \<not> entityBuiltin (Builtin b))"
      if "semUnion b = None" "semList b = None"
    proof -
      from t that Some obtain j' n where n: "(k, j') \<in> ?R\<^sup>*" "Some n \<in> needs (vdSchema D) j'" "memberTarget (vdSchema D) n = None"
        "Local (smName n) = Builtin b" "memberBuiltin n \<noteq> None" by auto
      from leaf [OF trancl_into_rtrancl [OF down [OF n(1)]] n(2,3,5)] n(4) show ?thesis by simp
    qed
    with t Some down show ?thesis unfolding locatedBelow_def by auto
  qed
qed

definition literalVerdict :: "bool \<Rightarrow> ('a \<Rightarrow> bool) \<Rightarrow> bool \<Rightarrow> 'a option \<Rightarrow> bool \<Rightarrow> bool" where
  "literalVerdict R A J r moved \<longleftrightarrow> (if moved then r = None \<and> \<not> R else case r of Some a \<Rightarrow> A a | None \<Rightarrow> J)"

lemma accepted_verdict: "verdict R A J r moved \<Longrightarrow> literalVerdict R A J (accepted r) moved"
  by (auto simp: verdict_def literalVerdict_def accepted_def split: sum.splits if_splits)

lemma literalItems_yields:
  assumes "\<And>w. yields D K (convert w) (literalVerdict R (A w) (J w))"
  shows "yields D K (literalItems convert xs ws) (literalVerdict R (\<lambda>ys. \<exists>zs. ys = xs @ zs \<and> list_all2 (\<lambda>w x. \<exists>a. A w a \<and> x = asValue a) ws zs)
    (\<exists>w \<in> set ws. J w))"
proof (induction ws arbitrary: xs)
  case Nil
  then show ?case by (auto simp: literalVerdict_def intro!: yields_ret)
next
  case (Cons w ws)
  show ?case unfolding literalItems.simps
  proof (rule yields_bnd [OF assms])
    fix r moved
    assume r: "literalVerdict R (A w) (J w) r moved"
    show "yields D K (case r of None \<Rightarrow> ret None | Some a \<Rightarrow> literalItems convert (xs @ [asValue a]) ws)
      (\<lambda>s moved'. literalVerdict R (\<lambda>ys. \<exists>zs. ys = xs @ zs \<and> list_all2 (\<lambda>w x. \<exists>a. A w a \<and> x = asValue a) (w # ws) zs)
        (\<exists>w \<in> set (w # ws). J w) s (moved \<or> moved'))"
    proof (cases r)
      case None
      then show ?thesis using r by (auto simp: literalVerdict_def split: if_splits intro!: yields_ret)
    next
      case (Some a)
      then have "\<not> moved" "A w a" using r by (auto simp: literalVerdict_def split: if_splits)
      then show ?thesis unfolding Some option.case
        by (intro yields_weaken [OF Cons.IH]) (auto simp: literalVerdict_def list_all2_Cons1 split: option.splits if_splits)
    qed
  qed
qed

lemma means_internal: "means S i s \<Longrightarrow> i < length (simples S)"
  by (auto simp: simpleOf_def elim!: meansE split: if_splits)

lemma meaning_deep: "means S i s \<Longrightarrow> deepIn (needRel S) (length (simples S)) i"
proof -
  assume m: "means S i s"
  have "(needRel S)\<^sup>* `` {i} \<subseteq> {..<length (simples S)}"
    using meaning_graph.good_reach [of i _ S] m means_internal by blast
  with meaning_graph.deep_card [of S i "{..<length (simples S)}"] m show ?thesis by auto
qed

lemma height_below: "means S i s \<Longrightarrow> (i, j) \<in> (needRel S)\<^sup>+ \<Longrightarrow> height (needRel S) j < height (needRel S) i"
  by (rule height_trancl [OF _ meaning_deep])

lemma means_below: "means S i s \<Longrightarrow> (i, j) \<in> (needRel S)\<^sup>* \<Longrightarrow> \<exists>t. means S j t"
  using meaning_graph.good_reach [of i j S] by blast

text \<open>The item type of a list below a definition.\<close>

lemma list_item:
  assumes "means S l t" "sForm (simpleOf S l) = SimpleList"
  obtains m b where "sItem (simpleOf S l) = Some m" "memberMeans S m b" "Some m \<in> needs S l"
  using assms by (auto elim!: meansE simp: needs_def)

text \<open>One level of the conversion of a literal, from what it does below.\<close>

lemma literal_step:
  assumes union: "\<And>u. semUnion s = Some u \<Longrightarrow>
      yields D K (assess u (normal s lit) (normal s lit)) (verdict R (admits D u (normal s lit)) (rejects D u (normal s lit)))"
    and list: "\<And>l. semUnion s = None \<Longrightarrow> semList s = Some l \<Longrightarrow> \<exists>m b. sItem (simpleOf (vdSchema D) l) = Some m \<and>
      memberMeans (vdSchema D) m b \<and> (\<forall>w. yields D K (SimpleLiteralValue n D assess (Some b) w) (literalVerdict R (denotes D b w) (noValue D b w)))"
    and builtin: "semUnion s = None \<Longrightarrow> semList s = None \<Longrightarrow> builtinSemanticsValue (Builtin s) \<noteq> None \<and> (R \<longrightarrow> \<not> entityBuiltin (Builtin s))"
  shows "yields D K (SimpleLiteralValue (Suc n) D assess (Some s) lit) (literalVerdict R (denotes D s lit) (noValue D s lit))"
proof -
  have normal: "SimpleSemantics_normalize (SimpleSemantics.truncate s) lit = normal s lit" by (simp add: normal_def)
  show ?thesis
  proof (cases "semUnion s")
    case (Some u)
    have eq: "denotes D s lit = admits D u (normal s lit)" "noValue D s lit = rejects D u (normal s lit)"
      using denotes_union [OF Some] noValue_union [OF Some] by (auto simp: fun_eq_iff)
    show ?thesis using Some union [OF Some]
      by (simp add: eq normal Let_def) (erule yields_bnd, auto intro!: yields_ret accepted_verdict)
  next
    case None
    show ?thesis
    proof (cases "semList s")
      case (Some l)
      from list [OF None Some] obtain m b where m: "sItem (simpleOf (vdSchema D) l) = Some m" "memberMeans (vdSchema D) m b"
        "\<And>w. yields D K (SimpleLiteralValue n D assess (Some b) w) (literalVerdict R (denotes D b w) (noValue D b w))" by blast
      have item: "yields D K (bnd (memberSemantics D (Some m)) (\<lambda>item. SimpleLiteralValue n D assess item w))
          (literalVerdict R (denotes D b w) (noValue D b w))" for w
        by (rule yields_member [OF m(2)]) (rule m(3))
      note items = literalItems_yields [of D K _ R "denotes D b" "noValue D b", OF item, of "[]" "splitList (normal s lit)"]
      have good: "denotes D s lit (listAssessment (normal s lit) xs)"
        if "list_all2 (\<lambda>w x. \<exists>a. denotes D b w a \<and> x = asValue a) (splitList (normal s lit)) xs" for xs
        using d_list [OF None Some m(1,2) that] .
      have bad: "noValue D s lit" if "\<exists>w \<in> set (splitList (normal s lit)). noValue D b w"
        using that n_list [OF None Some m(1,2)] by blast
      show ?thesis
        unfolding SimpleLiteralValue.simps option.case Let_def None Some normal m(1)
        by (rule yields_bnd [OF items], rule yields_ret)
          (auto simp: literalVerdict_def good bad listAssessment_def [symmetric] split: option.splits if_splits)
    next
      case no_list: None
      note k = builtin [OF None no_list]
      have eq: "denotes D s lit = builtinAdmits (vdLibrary D) (Builtin s) (normal s lit)" "noValue D s lit = builtinRejects (vdLibrary D) (Builtin s) (normal s lit)"
        using denotes_builtin [OF None no_list] noValue_builtin [OF None no_list] by (auto simp: fun_eq_iff)
      have "yields D K (AssessBuiltinValue D (Builtin s) (normal s lit) (normal s lit)) (verdict R (denotes D s lit) (noValue D s lit))"
        unfolding eq by (rule yields_weaken [OF AssessBuiltinValue_yields]) (use k in \<open>auto elim: verdict_weaken\<close>)
      then show ?thesis using None no_list
        by (simp add: normal Let_def) (erule yields_bnd, auto intro!: yields_ret accepted_verdict)
    qed
  qed
qed

text \<open>The item type of a list lies below the list, and its own list deeper still.\<close>

lemma item_deeper:
  assumes "means S l t" "Some m \<in> needs S l" "memberMeans S m b" "semList b = Some l'"
  shows "height (needRel S) l' < height (needRel S) l"
proof -
  obtain k where k: "memberTarget S m = Some k" "(k, l') \<in> (needRel S)\<^sup>*"
    using semantics_target(2) [OF assms(3)] assms(4) by (cases "memberTarget S m") auto
  have "(l, l') \<in> (needRel S)\<^sup>+" using member_below [OF assms(2) k(1)] k(2) by (rule trancl_rtrancl_trancl)
  then show ?thesis by (rule height_below [OF assms(1)])
qed

lemma SimpleLiteralValue_yields:
  assumes "soundBelow D K i assess" "\<exists>t. means (vdSchema D) i t"
  shows "0 < n \<Longrightarrow> locatedBelow D i s \<Longrightarrow> (\<forall>l. semList s = Some l \<longrightarrow> height (needRel (vdSchema D)) l < n) \<Longrightarrow>
    yields D K (SimpleLiteralValue n D assess (Some s) lit) (literalVerdict (ready D i) (denotes D s lit) (noValue D s lit))"
proof (induction n arbitrary: s lit)
  case (Suc n)
  let ?R = "needRel (vdSchema D)"
  show ?case
  proof (rule literal_step)
    fix u
    assume "semUnion s = Some u"
    then have "(i, u) \<in> ?R\<^sup>+" using Suc.prems(2) by (simp add: locatedBelow_def)
    then show "yields D K (assess u (normal s lit) (normal s lit)) (verdict (ready D i) (admits D u (normal s lit)) (rejects D u (normal s lit)))"
      by (rule soundBelowD [OF assms(1)])
  next
    fix l
    assume "semUnion s = None" "semList s = Some l"
    then have l: "(i, l) \<in> ?R\<^sup>+" "sForm (simpleOf (vdSchema D) l) = SimpleList" "height ?R l < Suc n"
      using Suc.prems by (simp_all add: locatedBelow_def)
    from means_below assms(2) l(1) obtain t where t: "means (vdSchema D) l t" by (meson trancl_into_rtrancl)
    from list_item [OF t l(2)] obtain m b where m: "sItem (simpleOf (vdSchema D) l) = Some m" "memberMeans (vdSchema D) m b" "Some m \<in> needs (vdSchema D) l" .
    have loc: "locatedBelow D i b" using member_located [OF trancl_into_rtrancl [OF l(1)] m(3,2)] .
    have n: "0 < n" using height_pos [OF meaning_deep [OF t]] l(3) by simp
    have "\<forall>l'. semList b = Some l' \<longrightarrow> height ?R l' < n" using item_deeper [OF t m(3,2)] l(3) by fastforce
    with Suc.IH [OF n loc] m(1,2) show "\<exists>m b. sItem (simpleOf (vdSchema D) l) = Some m \<and> memberMeans (vdSchema D) m b \<and>
        (\<forall>w. yields D K (SimpleLiteralValue n D assess (Some b) w) (literalVerdict (ready D i) (denotes D b w) (noValue D b w)))" by blast
  next
    assume "semUnion s = None" "semList s = None"
    then show "builtinSemanticsValue (Builtin s) \<noteq> None \<and> (ready D i \<longrightarrow> \<not> entityBuiltin (Builtin s))"
      using Suc.prems(2) by (simp add: locatedBelow_def)
  qed
qed simp

section \<open>Enumerations\<close>

lemma bnd_assoc: "bnd (bnd x f) g = bnd x (\<lambda>r. bnd (f r) g)"
  by (auto simp: bnd_def fun_eq_iff split: option.splits)

lemma enumerationValue_yields:
  assumes below: "soundBelow D (insert (i, k) K) i assess" and i: "\<exists>t. means (vdSchema D) i t"
    and m: "sBase (simpleOf (vdSchema D) i) = Some m" "memberMeans (vdSchema D) m b" "Some m \<in> needs (vdSchema D) i"
    and n: "height (needRel (vdSchema D)) i \<le> n" and K: "(i, k) \<notin> K"
  shows "yields D K (enumerationValue n D assess i k) (\<lambda>e moved. if moved then \<not> ready D i else \<not> evIncomplete e \<and> entryOK D i k e)"
  unfolding yields_def
proof (intro allI impI)
  fix c assume c: "cachesOK D K c"
  let ?lit = "sEnumerations (simpleOf (vdSchema D) i) ! k"
  show "\<exists>r c' moved. enumerationValue n D assess i k c = Some (r, c') \<and> cachesOK D K c' \<and> trace moved c c' \<and>
      (if moved then \<not> ready D i else \<not> evIncomplete r \<and> entryOK D i k r)"
  proof (cases "EnumerationValues c (i, k)")
    case (Some e)
    then have e: "entryOK D i k e" using c K unfolding cachesOK_def enumInv_def by blast
    have "yields D K (bnd (if evIncomplete e then inTypes (Incomplete (Plain ''cached enumeration literal assessment is incomplete'')) else ret ()) (\<lambda>_. ret e))
        (\<lambda>r moved. r = e \<and> moved = evIncomplete e)"
      by (rule yields_bnd [of _ _ _ "\<lambda>_ moved. moved = evIncomplete e"])
        (auto intro!: yields_ret intro: yields_weaken [OF yields_Incomplete])
    from yieldsD [OF this c] obtain r c' moved where "bnd (if evIncomplete e then inTypes (Incomplete (Plain ''cached enumeration literal assessment is incomplete'')) else ret ()) (\<lambda>_. ret e) c = Some (r, c')"
      "cachesOK D K c'" "trace moved c c'" "r = e \<and> moved = evIncomplete e" by blast
    moreover have "evIncomplete e \<Longrightarrow> \<not> ready D i" using e by (simp add: entryOK_def)
    ultimately show ?thesis using Some e
      by (intro exI [of _ e] exI [of _ c'] exI [of _ moved]) (auto simp: enumerationValue_def bnd_def [of "get _"] get_def)
  next
    case None
    let ?c = "EnumerationValues_update (\<lambda>E. E((i, k) \<mapsto> enumerationEntry None False)) c"
    have c0: "cachesOK D (insert (i, k) K) ?c" using c by (auto simp: cachesOK_def enumInv_def)
    have loc: "locatedBelow D i b" using member_located [OF rtrancl_refl m(3,2)] .
    obtain t where t: "means (vdSchema D) i t" using i by blast
    have deep: "height (needRel (vdSchema D)) l < n" if "semList b = Some l" for l
      using height_below [OF t] that loc n unfolding locatedBelow_def by (meson less_le_trans)
    have pos: "0 < n" using height_pos [OF meaning_deep [OF t]] n by simp
    let ?x = "bnd (memberSemantics D (Some m)) (\<lambda>semantics. SimpleLiteralValue n D assess semantics ?lit)"
    have "yields D (insert (i, k) K) ?x (literalVerdict (ready D i) (denotes D b ?lit) (noValue D b ?lit))"
      by (rule yields_member [OF m(2)]) (use SimpleLiteralValue_yields [OF below i pos loc] deep in blast)
    from yieldsD [OF this c0] obtain r c1 moved where r: "?x ?c = Some (r, c1)" "cachesOK D (insert (i, k) K) c1" "trace moved ?c c1"
      "literalVerdict (ready D i) (denotes D b ?lit) (noValue D b ?lit) r moved" .
    define e where "e = enumerationEntry r moved"
    let ?c1 = "EnumerationValues_update (\<lambda>E. E((i, k) \<mapsto> e)) c1"
    have "version c1 \<noteq> version ?c \<longleftrightarrow> moved" using trace_version [OF r(3)] .
    then have run: "enumerationValue n D assess i k c = Some (e, ?c1)"
      using None r(1) unfolding enumerationValue_def bnd_def [of "get _"] bnd_def [of "upd _"] get_def upd_def m(1) e_def
      by (auto simp: bnd_def version_def Let_def ret_def split: option.splits prod.splits)
    have entry: "entryOK D i k e" using r(4) m unfolding e_def
      by (auto simp: entryOK_def enumerationEntry_def literalVerdict_def split: option.splits if_splits)
    have "cachesOK D K ?c1" using r(2) entry by (auto simp: cachesOK_def enumInv_def)
    moreover have "trace moved c ?c1" using r(3) by (auto simp: trace_def version_def split: if_splits)
    moreover have "if moved then \<not> ready D i else \<not> evIncomplete e \<and> entryOK D i k e"
      using entry r(4) by (auto simp: e_def enumerationEntry_def literalVerdict_def split: option.splits)
    ultimately show ?thesis using run by blast
  qed
qed


lemma matchesEnumeration_yields:
  assumes "\<And>k. k \<in> set ks \<Longrightarrow> yields D K (candidate k) (\<lambda>e moved. if moved then \<not> R else \<not> evIncomplete e \<and> good k e)"
  shows "yields D K (matchesEnumeration candidate x ks) (\<lambda>ok moved. if moved then \<not> R
    else if ok then \<exists>k \<in> set ks. \<exists>e. \<not> evIncomplete e \<and> good k e \<and> evValid e \<and> SimpleValue_equal (evActual e) x
    else \<forall>k \<in> set ks. \<exists>e. \<not> evIncomplete e \<and> good k e \<and> \<not> (evValid e \<and> SimpleValue_equal (evActual e) x))"
  using assms
proof (induction ks)
  case Nil
  then show ?case by (auto intro!: yields_ret)
next
  case (Cons k ks)
  note IH = Cons.IH [OF Cons.prems]
  show ?case unfolding matchesEnumeration.simps
  proof (rule yields_bnd)
    show "yields D K (candidate k) (\<lambda>e moved. if moved then \<not> R else \<not> evIncomplete e \<and> good k e)" using Cons.prems by simp
  next
    fix e moved
    assume e: "if moved then \<not> R else \<not> evIncomplete e \<and> good k e"
    show "yields D K (if evValid e \<and> SimpleValue_equal (evActual e) x then ret True else matchesEnumeration candidate x ks)
      (\<lambda>ok moved'. if moved \<or> moved' then \<not> R
        else if ok then \<exists>k \<in> set (k # ks). \<exists>e. \<not> evIncomplete e \<and> good k e \<and> evValid e \<and> SimpleValue_equal (evActual e) x
        else \<forall>k \<in> set (k # ks). \<exists>e. \<not> evIncomplete e \<and> good k e \<and> \<not> (evValid e \<and> SimpleValue_equal (evActual e) x))"
    proof (cases "evValid e \<and> SimpleValue_equal (evActual e) x")
      case True
      then show ?thesis using e by (auto intro!: yields_ret)
    next
      case False
      then show ?thesis unfolding if_not_P [OF False]
        by (intro yields_weaken [OF IH]) (use e False in \<open>auto split: if_splits\<close>)
    qed
  qed
qed

lemma MatchesSimpleEnumeration_yields:
  assumes "\<And>k. soundBelow D (insert (i, k) K) i assess" "\<exists>t. means (vdSchema D) i t" "sBase (simpleOf (vdSchema D) i) = Some m"
    "memberMeans (vdSchema D) m b" "Some m \<in> needs (vdSchema D) i" "height (needRel (vdSchema D)) i \<le> n" "\<forall>k. (i, k) \<notin> K"
  shows "yields D K (MatchesSimpleEnumeration n D assess i a) (\<lambda>ok moved. if moved then \<not> ready D i
    else if ok then \<exists>lit \<in> set (sEnumerations (simpleOf (vdSchema D) i)). \<exists>e. denotes D b lit e \<and> SimpleValue_equal (asValue e) (asValue a)
    else \<forall>lit \<in> set (sEnumerations (simpleOf (vdSchema D) i)). noValue D b lit \<or> (\<exists>e. denotes D b lit e \<and> \<not> SimpleValue_equal (asValue e) (asValue a)))"
proof -
  let ?E = "sEnumerations (simpleOf (vdSchema D) i)"
  have one: "yields D K (enumerationValue n D assess i k) (\<lambda>e moved. if moved then \<not> ready D i else \<not> evIncomplete e \<and> entryOK D i k e)" for k
    by (rule enumerationValue_yields [OF assms(1-6)]) (use assms(7) in blast)
  have entry: "if evValid e then \<exists>x. denotes D b (?E ! k) x \<and> evActual e = asValue x else noValue D b (?E ! k)"
    if "entryOK D i k e" "\<not> evIncomplete e" for k e
  proof -
    from that obtain m' b' where "sBase (simpleOf (vdSchema D) i) = Some m'" "memberMeans (vdSchema D) m' b'"
      "if evValid e then \<exists>x. denotes D b' (?E ! k) x \<and> evActual e = asValue x else noValue D b' (?E ! k)" unfolding entryOK_def by auto
    moreover from this have "b' = b" using assms(3,4) memberMeans_unique by (metis option.inject)
    ultimately show ?thesis by (cases "evValid e") simp_all
  qed
  show ?thesis unfolding MatchesSimpleEnumeration_def
  proof (rule yields_weaken [OF matchesEnumeration_yields [of "[0..<length ?E]" D K "enumerationValue n D assess i" "ready D i" "entryOK D i", OF one]])
    fix ok moved
    assume post: "if moved then \<not> ready D i
      else if ok then \<exists>k \<in> set [0..<length ?E]. \<exists>e. \<not> evIncomplete e \<and> entryOK D i k e \<and> evValid e \<and> SimpleValue_equal (evActual e) (asValue a)
      else \<forall>k \<in> set [0..<length ?E]. \<exists>e. \<not> evIncomplete e \<and> entryOK D i k e \<and> \<not> (evValid e \<and> SimpleValue_equal (evActual e) (asValue a))"
    show "if moved then \<not> ready D i
      else if ok then \<exists>lit \<in> set ?E. \<exists>e. denotes D b lit e \<and> SimpleValue_equal (asValue e) (asValue a)
      else \<forall>lit \<in> set ?E. noValue D b lit \<or> (\<exists>e. denotes D b lit e \<and> \<not> SimpleValue_equal (asValue e) (asValue a))"
    proof (cases moved)
      case False
      show ?thesis
      proof (cases ok)
        case True
        with post False obtain k e where k: "k < length ?E" "\<not> evIncomplete e" "entryOK D i k e" "evValid e" "SimpleValue_equal (evActual e) (asValue a)" by auto
        from entry [OF k(3,2)] k(4,5) obtain x where "denotes D b (?E ! k) x" "SimpleValue_equal (asValue x) (asValue a)" by auto
        with k(1) True False show ?thesis using nth_mem [of k ?E] by auto
      next
        case bad: False
        have "noValue D b (?E ! k) \<or> (\<exists>e. denotes D b (?E ! k) e \<and> \<not> SimpleValue_equal (asValue e) (asValue a))" if k: "k < length ?E" for k
        proof -
          have "k \<in> set [0..<length ?E]" using k by simp
          with post False bad obtain e where e: "\<not> evIncomplete e" "entryOK D i k e" "\<not> (evValid e \<and> SimpleValue_equal (evActual e) (asValue a))"
            unfolding if_not_P [OF False] if_not_P [OF bad] by blast
          from entry [OF e(2,1)] e(3) show ?thesis by (auto split: if_splits)
        qed
        then show ?thesis unfolding if_not_P [OF False] if_not_P [OF bad] by (metis in_set_conv_nth)
      qed
    qed (use post in simp)
  qed
qed

section \<open>Restrictions\<close>

lemma SimpleMemberList_exact:
  "memberMeans S m b \<Longrightarrow> 0 < n \<Longrightarrow> (\<forall>j. memberTarget S m = Some j \<longrightarrow> height (needRel S) j < n) \<Longrightarrow>
    SimpleMemberList n S (Some m) = Some (listVariety b)"
proof (induction n arbitrary: m b)
  case (Suc n)
  have step: "SimpleMemberList (Suc n) S (Some m) = (case memberTarget S m of
      Some j \<Rightarrow> (case sForm (simpleOf S j) of SimpleList \<Rightarrow> Some True | SimpleRestriction \<Rightarrow> SimpleMemberList n S (sBase (simpleOf S j)) | _ \<Rightarrow> Some False)
    | None \<Rightarrow> Some (BuiltinListItem (Local (smName m)) \<noteq> []))"
    using member_known [OF Suc.prems(1)] by (auto simp: memberTarget_def memberBuiltin_def split: option.splits if_splits)
  show ?case
  proof (cases "memberTarget S m")
    case None
    then show ?thesis using step semantics_target(2) [OF Suc.prems(1)] by (simp add: listVariety_def)
  next
    case (Some j)
    then have j: "means S j b" "height (needRel S) j < Suc n" using Suc.prems by (simp_all add: memberMeans_iff)
    from j(1) show ?thesis
    proof (rule meansE)
      fix m' b'
      assume r: "sForm (simpleOf S j) = SimpleRestriction" "sBase (simpleOf S j) = Some m'" "memberMeans S m' b'" "restrictsTo (sWhiteSpace (simpleOf S j)) b' b"
      have need: "Some m' \<in> needs S j" using r(1,2) by (simp add: needs_def)
      have "0 < n" using height_pos [OF meaning_deep [OF j(1)]] j(2) by simp
      moreover have "\<forall>k. memberTarget S m' = Some k \<longrightarrow> height (needRel S) k < n"
        using height_below [OF j(1) member_below [OF need]] j(2) by fastforce
      ultimately have "SimpleMemberList n S (Some m') = Some (listVariety b')" using Suc.IH [OF r(3)] by blast
      moreover have "listVariety b = listVariety b'" using r(4) by (auto simp: restrictsTo_iff listVariety_def)
      ultimately show ?thesis using step Some r(1,2) by simp
    qed (use step Some in \<open>simp_all add: listVariety_def BuiltinListItem_def\<close>)
  qed
qed simp

text \<open>The verdict before a schema failure is recorded.\<close>

definition innerVerdict :: "bool \<Rightarrow> (SimpleAssessment \<Rightarrow> bool) \<Rightarrow> bool \<Rightarrow> outcome \<Rightarrow> bool \<Rightarrow> bool" where
  "innerVerdict R A J r moved \<longleftrightarrow>
     (case r of
        Inr a \<Rightarrow> \<not> moved \<and> A a
      | Inl f \<Rightarrow> if TechnicalFailure f then (moved \<or> fConstraint f = ''schema'') \<and> \<not> R else \<not> moved \<and> J)"

lemma inner_verdict: "verdict R A J r moved \<Longrightarrow> (\<And>a. A a \<Longrightarrow> A' a) \<Longrightarrow> (J \<Longrightarrow> J') \<Longrightarrow> innerVerdict R A' J' r moved"
  by (auto simp: verdict_def innerVerdict_def split: sum.splits if_splits)

lemma recorded_yields:
  assumes "yields D K x (innerVerdict R A J)"
  shows "yields D K (recorded x) (verdict R A J)"
  unfolding recorded_def
proof (rule yields_bnd [OF assms])
  fix r moved
  assume r: "innerVerdict R A J r moved"
  show "yields D K (case r of Inl f \<Rightarrow> bnd (if fConstraint f = ''schema'' then inTypes (Incomplete (failureText f)) else ret ()) (\<lambda>_. ret r) | Inr _ \<Rightarrow> ret r)
    (\<lambda>s moved'. verdict R A J s (moved \<or> moved'))"
  proof (cases r)
    case (Inl f)
    show ?thesis
    proof (cases "fConstraint f = ''schema''")
      case True
      then have "TechnicalFailure f" by (simp add: TechnicalFailure_def)
      with True Inl r show ?thesis
        by simp (rule yields_bnd [OF yields_Incomplete], auto simp: innerVerdict_def verdict_def intro!: yields_ret)
    qed (use Inl r in \<open>auto simp: innerVerdict_def verdict_def intro!: yields_ret\<close>)
  qed (use r in \<open>auto simp: innerVerdict_def verdict_def intro!: yields_ret\<close>)
qed

lemma assessRestriction_yields:
  assumes below: "soundBelow D K i assess" "\<And>k. soundBelow D (insert (i, k) K) i assess"
    and i: "means (vdSchema D) i s" "sForm (simpleOf (vdSchema D) i) = SimpleRestriction"
    and n: "height (needRel (vdSchema D)) i \<le> n" and K: "\<forall>k. (i, k) \<notin> K"
  shows "yields D K (assessRestriction n D assess i (Builtin s) (normal s v) d) (innerVerdict (ready D i) (admits D i v) (rejects D i v))"
proof -
  let ?s = "simpleOf (vdSchema D) i"
  from i obtain m b where m: "sBase ?s = Some m" "memberMeans (vdSchema D) m b" by (auto elim!: meansE)
  have need: "Some m \<in> needs (vdSchema D) i" using i(2) m(1) by (simp add: needs_def)
  have pos: "0 < n" using height_pos [OF meaning_deep [OF i(1)]] n by simp
  have isList: "SimpleMemberList n (vdSchema D) (Some m) = Some (listVariety b)"
    using SimpleMemberList_exact [OF m(2) pos] height_below [OF i(1) member_below [OF need]] n by fastforce
  have facets: "facetsReady (vdLibrary D) (sFacets ?s) (Builtin s)" if "ready D i"
    using that i unfolding ready_def nodeReady_def by blast
  show ?thesis unfolding assessRestriction_def Let_def m(1)
  proof (rule yields_bnd [OF member_yields [OF below(1) need m(2)]])
    fix r moved
    assume r: "verdict (ready D i) (mAdmits D m (normal s v)) (mRejects D m (normal s v)) r moved"
    show "yields D K (case r of Inl f \<Rightarrow> ret (Inl f) | Inr a \<Rightarrow> bnd (get version) (\<lambda>before.
            bnd (if sEnumerations ?s = [] then ret True else MatchesSimpleEnumeration n D assess i a) (\<lambda>matched.
            bnd (get version) (\<lambda>after.
              if after \<noteq> before then fails (AssessmentFailure ''enumeration literal assessment incomplete'' [])
              else if \<not> matched
              then ret (Inl (failure ''enumeration'' ''value %q is not one of the allowed values'' [FmtText d]))
              else (case SimpleMemberList n (vdSchema D) (Some m) of
                  None \<Rightarrow> panic
                | Some isList \<Rightarrow>
                    (case facetFailure (vdLibrary D) (sFacets ?s) (Builtin s) (asLexical a) isList d of
                       Some f \<Rightarrow> ret (Inl f)
                     | None \<Rightarrow> ret (Inr a)))))))
      (\<lambda>s moved'. innerVerdict (ready D i) (admits D i v) (rejects D i v) s (moved \<or> moved'))"
    proof (cases r)
      case (Inl f)
      then show ?thesis using r r_base [OF i m(1)] by (auto simp: verdict_def innerVerdict_def split: if_splits intro!: yields_ret)
    next
      case (Inr a)
      then have a: "\<not> moved" "mAdmits D m (normal s v) a" using r by (auto simp: verdict_def)
      let ?in = "\<exists>lit \<in> set (sEnumerations ?s). \<exists>e. denotes D b lit e \<and> SimpleValue_equal (asValue e) (asValue a)"
      let ?out = "\<forall>lit \<in> set (sEnumerations ?s). noValue D b lit \<or> (\<exists>e. denotes D b lit e \<and> \<not> SimpleValue_equal (asValue e) (asValue a))"
      have enum: "yields D K (if sEnumerations ?s = [] then ret True else MatchesSimpleEnumeration n D assess i a)
        (\<lambda>ok moved. if moved then \<not> ready D i else if ok then sEnumerations ?s = [] \<or> ?in else sEnumerations ?s \<noteq> [] \<and> ?out)"
      proof (cases "sEnumerations ?s = []")
        case False
        have "\<exists>t. means (vdSchema D) i t" using i(1) by blast
        from MatchesSimpleEnumeration_yields [OF below(2) this m need n K, of a] False show ?thesis
          by (auto elim!: yields_weaken)
      qed (auto intro!: yields_ret)
      show ?thesis unfolding Inr sum.case isList
      proof (rule yields_watched [OF enum])
        fix ok moved' before after
        assume ok: "if moved' then \<not> ready D i else if ok then sEnumerations ?s = [] \<or> ?in else sEnumerations ?s \<noteq> [] \<and> ?out"
          and w: "after \<noteq> before \<longleftrightarrow> moved'"
        show "yields D K (if after \<noteq> before then fails (AssessmentFailure ''enumeration literal assessment incomplete'' [])
              else if \<not> ok then ret (Inl (failure ''enumeration'' ''value %q is not one of the allowed values'' [FmtText d]))
              else (case Some (listVariety b) of None \<Rightarrow> panic
                | Some isList \<Rightarrow> (case facetFailure (vdLibrary D) (sFacets ?s) (Builtin s) (asLexical a) isList d of Some f \<Rightarrow> ret (Inl f) | None \<Rightarrow> ret (Inr a))))
            (\<lambda>s moved''. innerVerdict (ready D i) (admits D i v) (rejects D i v) s (moved \<or> moved' \<or> moved''))"
        proof (cases moved')
          case True
          then show ?thesis using ok w unfolding fails_def
            by simp (rule yields_bnd [OF yields_AssessmentFailure], auto simp: innerVerdict_def intro!: yields_ret)
        next
          case False
          show ?thesis
          proof (cases ok)
            case bad: False
            then have "rejects D i v" using ok False r_enumeration [OF i m a(2)] by simp
            then show ?thesis using False bad w a(1)
              by (auto simp: innerVerdict_def TechnicalFailure_def failure_def intro!: yields_ret)
          next
            case True
            then have enumerated: "sEnumerations ?s = [] \<or> ?in" using ok False by simp
            show ?thesis
            proof (cases "facetFailure (vdLibrary D) (sFacets ?s) (Builtin s) (asLexical a) (listVariety b) d")
              case None
              from a_restriction [OF i m a(2) enumerated facets_exact(1) [OF None]] None True False w a(1) show ?thesis
                by (auto simp: innerVerdict_def intro!: yields_ret)
            next
              case (Some f)
              from facets_exact(2) [OF Some] r_facet [OF i m a(2)] facets Some True False w a(1) show ?thesis
                by (auto simp: innerVerdict_def split: if_splits intro!: yields_ret)
            qed
          qed
        qed
      qed
    qed
  qed
qed


section \<open>Assessment\<close>

lemma assessForm_yields:
  assumes below: "soundBelow D K i assess" "\<And>k. soundBelow D (insert (i, k) K) i assess"
    and i: "means (vdSchema D) i s" and n: "height (needRel (vdSchema D)) i \<le> n" and K: "\<forall>k. (i, k) \<notin> K"
  shows "yields D K (assessForm n D assess i s (normal s v) d) (innerVerdict (ready D i) (admits D i v) (rejects D i v))"
proof (cases "sForm (simpleOf (vdSchema D) i)")
  case SimpleRestriction
  then show ?thesis using assessRestriction_yields [OF below i _ n K] by (simp add: assessForm_def Let_def)
next
  case SimpleList
  from list_item [OF i SimpleList] obtain m b where m: "sItem (simpleOf (vdSchema D) i) = Some m" "memberMeans (vdSchema D) m b" "Some m \<in> needs (vdSchema D) i" .
  have "yields D K (bnd (assessItems D assess (Some m) 0 [] (splitList (normal s v))) (\<lambda>r. ret (case r of
      Inl f \<Rightarrow> Inl f | Inr xs \<Rightarrow> Inr (listAssessment (normal s v) xs)))) (innerVerdict (ready D i) (admits D i v) (rejects D i v))"
  proof (rule yields_bnd [OF assessItems_yields [OF below(1) m(3,2)]], rule yields_ret)
    fix r moved
    assume "listVerdict (ready D i) (\<lambda>ys. \<exists>zs. ys = [] @ zs \<and> list_all2 (\<lambda>w x. \<exists>a. mAdmits D m w a \<and> x = asValue a) (splitList (normal s v)) zs)
      (\<exists>w \<in> set (splitList (normal s v)). mRejects D m w) r moved"
    then show "innerVerdict (ready D i) (admits D i v) (rejects D i v)
      (case r of Inl f \<Rightarrow> Inl f | Inr xs \<Rightarrow> Inr (listAssessment (normal s v) xs)) (moved \<or> False)"
      using a_list [OF i SimpleList m(1)] r_list [OF i SimpleList m(1)]
      by (auto simp: listVerdict_def innerVerdict_def split: sum.splits if_splits)
  qed
  then show ?thesis using SimpleList m(1) by (simp add: assessForm_def Let_def listAssessment_def cong: sum.case_cong)
next
  case SimpleUnion
  have "\<exists>n b. m = Some n \<and> Some n \<in> needs (vdSchema D) i \<and> memberMeans (vdSchema D) n b" if "m \<in> set (sMembers (simpleOf (vdSchema D) i))" for m
    using means_needs [OF i, of m] that SimpleUnion by (auto simp: needs_def)
  then have "yields D K (assessUnion D assess (sMembers (simpleOf (vdSchema D) i)) (normal s v) d)
      (verdict (ready D i) (firstAdmits D (normal s v) (sMembers (simpleOf (vdSchema D) i))) (allReject D (normal s v) (sMembers (simpleOf (vdSchema D) i))))"
    by (intro assessUnion_yields [OF below(1)]) blast
  moreover have "admits D i v a" if "firstAdmits D (normal s v) (sMembers (simpleOf (vdSchema D) i)) a" for a
    using that a_union [OF i SimpleUnion] unfolding firstAdmits_def by blast
  moreover have "rejects D i v" if "allReject D (normal s v) (sMembers (simpleOf (vdSchema D) i))"
    using that r_union [OF i SimpleUnion] unfolding allReject_def by blast
  ultimately show ?thesis using SimpleUnion by (auto simp: assessForm_def Let_def elim!: yields_weaken inner_verdict)
next
  case (SimpleOther x)
  with i show ?thesis by (auto elim!: meansE)
qed

lemma AssessSimpleValue_yields:
  "0 < n \<Longrightarrow> (\<forall>s. means (vdSchema D) i s \<longrightarrow> height (needRel (vdSchema D)) i < n) \<Longrightarrow>
    (\<forall>(a, k) \<in> K. (a, i) \<in> (needRel (vdSchema D))\<^sup>+) \<Longrightarrow>
    yields D K (AssessSimpleValue n D i v d) (verdict (ready D i) (admits D i v) (rejects D i v))"
proof (induction n arbitrary: i K v d)
  case (Suc n)
  let ?S = "vdSchema D"
  have form: "yields D K (assessForm n D (AssessSimpleValue n D) i s (normal s v) d) (innerVerdict (ready D i) (admits D i v) (rejects D i v))"
    if s: "means ?S i s" for s
  proof (rule assessForm_yields [OF _ _ s])
    have h: "height (needRel ?S) i \<le> n" using Suc.prems(2) s by auto
    then have pos: "0 < n" using height_pos [OF meaning_deep [OF s]] by simp
    have rec: "soundBelow D K' i (AssessSimpleValue n D)" if K': "K' \<subseteq> insert (i, k) K" for K' k
      unfolding soundBelow_def
    proof (intro allI impI)
      fix j v d
      assume j: "(i, j) \<in> (needRel ?S)\<^sup>+"
      have "(a, j) \<in> (needRel ?S)\<^sup>+" if "(a, l) \<in> K'" for a l
      proof (cases "a = i")
        case False
        then have "(a, l) \<in> K" using that K' by blast
        with Suc.prems(3) have "(a, i) \<in> (needRel ?S)\<^sup>+" by blast
        then show ?thesis using j by (rule trancl_trans)
      qed (use j in simp)
      then have "\<forall>(a, k) \<in> K'. (a, j) \<in> (needRel ?S)\<^sup>+" by blast
      moreover have "\<forall>t. means ?S j t \<longrightarrow> height (needRel ?S) j < n" using height_below [OF s j] h by simp
      ultimately show "yields D K' (AssessSimpleValue n D j v d) (verdict (ready D j) (admits D j v) (rejects D j v))"
        using Suc.IH [OF pos] by blast
    qed
    show "soundBelow D K i (AssessSimpleValue n D)" by (rule rec) blast
    show "soundBelow D (insert (i, k) K) i (AssessSimpleValue n D)" for k by (rule rec) blast
    show "height (needRel ?S) i \<le> n" by (rule h)
    show "\<forall>k. (i, k) \<notin> K" using Suc.prems(3) meaning_graph.acyclic_at [of ?S i] s by blast
  qed
  show ?case unfolding AssessSimpleValue.simps
  proof (rule recorded_yields, rule yields_bnd [OF yields_metadata])
    fix ok moved
    assume ok: "(ok \<longleftrightarrow> soundType ?S (simpleIdentity i)) \<and> (moved \<longleftrightarrow> \<not> ok)"
    show "yields D K (if \<not> ok then fails (AssessmentFailure ''simple derivation metadata incomplete'' [])
        else bnd (inTypes (resolveSemantics D i)) (\<lambda>semantics. case semantics of
            None \<Rightarrow> ret (Inl (failure ''schema'' ''simple type cannot be resolved'' []))
          | Some s \<Rightarrow> assessForm n D (AssessSimpleValue n D) i s (SimpleSemantics_normalize (SimpleSemantics.truncate s) v) d))
      (\<lambda>s moved'. innerVerdict (ready D i) (admits D i v) (rejects D i v) s (moved \<or> moved'))"
    proof (cases ok)
      case True
      then have "\<not> moved" using ok by simp
      moreover have "yields D K (bnd (inTypes (resolveSemantics D i)) (\<lambda>semantics. case semantics of
            None \<Rightarrow> ret (Inl (failure ''schema'' ''simple type cannot be resolved'' []))
          | Some s \<Rightarrow> assessForm n D (AssessSimpleValue n D) i s (normal s v) d)) (innerVerdict (ready D i) (admits D i v) (rejects D i v))"
      proof (rule yields_bnd [OF yields_resolve])
        fix r moved
        assume r: "(\<forall>s. r = Some s \<longleftrightarrow> means ?S i s) \<and> (moved \<longleftrightarrow> r = None)"
        show "yields D K (case r of None \<Rightarrow> ret (Inl (failure ''schema'' ''simple type cannot be resolved'' []))
            | Some s \<Rightarrow> assessForm n D (AssessSimpleValue n D) i s (normal s v) d)
          (\<lambda>s moved'. innerVerdict (ready D i) (admits D i v) (rejects D i v) s (moved \<or> moved'))"
        proof (cases r)
          case None
          then have "\<not> ready D i" "moved" using r by (auto simp: ready_def)
          then show ?thesis using None by (auto simp: innerVerdict_def intro!: yields_ret)
        next
          case (Some s)
          then have "means ?S i s" "\<not> moved" using r by auto
          with form [of s] Some show ?thesis by simp
        qed
      qed
      ultimately show ?thesis using True unfolding normal_def by simp
    next
      case False
      then have "moved" "\<not> ready D i" using ok by (auto simp: ready_def)
      then show ?thesis using False unfolding fails_def
        by simp (rule yields_bnd [OF yields_AssessmentFailure], auto simp: innerVerdict_def intro!: yields_ret)
    qed
  qed
qed simp

lemma AssessSimpleValue_ready: "yields D {} (AssessSimpleValue (valueDepth (vdSchema D)) D i v d) (verdict (ready D i) (admits D i v) (rejects D i v))"
proof (rule AssessSimpleValue_yields)
  show "\<forall>s. means (vdSchema D) i s \<longrightarrow> height (needRel (vdSchema D)) i < valueDepth (vdSchema D)"
    using height_le meaning_deep by (fastforce simp: valueDepth_def)
qed (simp_all add: valueDepth_def)

section \<open>Property\<close>

text \<open>
  C6: the assessment of a literal against a simple type returns on every schema and in every context whose caches
  are right, and it keeps them right. It accepts only a literal the type admits, with the value it admits it with;
  it refuses with a facet, datatype or union failure only a literal the type rejects, and both leave the
  assessment epoch and its errors alone. Any other failure is technical: it is recorded, advances the epoch and
  occurs only where the type is not ready, that is when its metadata is unsound or it has an entity type, a
  malformed pattern or a malformed limit below it. For a ready type the answer is therefore exact.
\<close>

theorem simple_values_exact:
  assumes "cachesOK D {} c"
  shows "\<exists>r c'. AssessSimpleValue (valueDepth (vdSchema D)) D i v d c = Some (r, c') \<and> cachesOK D {} c' \<and>
    (case r of Inr a \<Rightarrow> admits D i v a | Inl f \<Rightarrow> if TechnicalFailure f then \<not> ready D i else rejects D i v) \<and>
    (if \<exists>f. r = Inl f \<and> TechnicalFailure f then version c < version c' \<and> AssessmentErr (vcTypes c') \<noteq> []
     else version c' = version c \<and> AssessmentErr (vcTypes c') = AssessmentErr (vcTypes c)) \<and>
    (ready D i \<longrightarrow> (\<forall>a. admits D i v a \<longleftrightarrow> r = Inr a) \<and> (rejects D i v \<longleftrightarrow> (\<exists>f. r = Inl f)))"
proof -
  from yieldsD [OF AssessSimpleValue_ready assms] obtain r c' moved where
    r: "AssessSimpleValue (valueDepth (vdSchema D)) D i v d c = Some (r, c')" "cachesOK D {} c'" "trace moved c c'"
    "verdict (ready D i) (admits D i v) (rejects D i v) r moved" .
  have excl: "admits D i v a \<Longrightarrow> admits D i v a' \<Longrightarrow> a' = a" "admits D i v a \<Longrightarrow> rejects D i v \<Longrightarrow> False" for a a'
    using verdicts(1) [of D i v a] by blast+
  have "case r of Inr a \<Rightarrow> admits D i v a | Inl f \<Rightarrow> if TechnicalFailure f then \<not> ready D i else rejects D i v"
    using r(4) by (auto simp: verdict_def split: sum.splits if_splits)
  moreover have "moved \<longleftrightarrow> (\<exists>f. r = Inl f \<and> TechnicalFailure f)"
    using r(4) by (auto simp: verdict_def split: sum.splits if_splits)
  then have "if \<exists>f. r = Inl f \<and> TechnicalFailure f then version c < version c' \<and> AssessmentErr (vcTypes c') \<noteq> []
     else version c' = version c \<and> AssessmentErr (vcTypes c') = AssessmentErr (vcTypes c)" using r(3) by (simp add: trace_def)
  moreover have "(\<forall>a. admits D i v a \<longleftrightarrow> r = Inr a) \<and> (rejects D i v \<longleftrightarrow> (\<exists>f. r = Inl f))" if "ready D i"
    using r(4) that excl by (cases r) (auto simp: verdict_def split: if_splits)
  ultimately show ?thesis using r(1,2) by blast
qed

text \<open>A union of two enumerations of strings.\<close>

definition sampleEnumeration :: "string list \<Rightarrow> SimpleSchema" where
  "sampleEnumeration xs = (sampleSimple SimpleRestriction (xsdName ''string'') [] None)\<lparr>sEnumerations := xs\<rparr>"

definition sampleLibrary :: goLibrary where
  "sampleLibrary = \<lparr> libRegexp = \<lambda>_. Inl [], libParseFloat = \<lambda>_. None, libIsDigit = \<lambda>_. False, libUri = \<lambda>_. True \<rparr>"

definition sampleData :: valueData where
  "sampleData = \<lparr> vdSchema = \<lparr> simples = [sampleEnumeration [''major'', ''minor''], sampleEnumeration [''dorian''],
       sampleSimple SimpleUnion None [inlineRef 0, inlineRef 1] None], complexes = [], Types = \<lambda>_. None \<rparr>,
     vdLibrary = sampleLibrary \<rparr>"

definition NewValueContext :: ValueContext where
  "NewValueContext = \<lparr> vcTypes = NewTypeContext, EnumerationValues = \<lambda>_. None \<rparr>"

lemma empty_valueCaches: "cachesOK D {} NewValueContext"
  using empty_metaInv empty_semInv by (simp add: cachesOK_def enumInv_def NewValueContext_def)

theorem simple_values_exact_witness:
  "(\<exists>a. admits sampleData 2 ''dorian'' a \<and> asLexical a = ''dorian'') \<and> rejects sampleData 2 ''lydian''"
proof -
  let ?run = "\<lambda>v. AssessSimpleValue (valueDepth (vdSchema sampleData)) sampleData 2 v [] NewValueContext"
  have "(case ?run ''dorian'' of Some (Inr a, _) \<Rightarrow> asLexical a = ''dorian'' | _ \<Rightarrow> False)"
    "(case ?run ''lydian'' of Some (Inl f, _) \<Rightarrow> \<not> TechnicalFailure f | _ \<Rightarrow> False)"
    by code_simp+
  then obtain a c f c' where run: "?run ''dorian'' = Some (Inr a, c)" "asLexical a = ''dorian''" "?run ''lydian'' = Some (Inl f, c')" "\<not> TechnicalFailure f"
    by (auto split: option.splits sum.splits prod.splits)
  have "admits sampleData 2 ''dorian'' a"
    using simple_values_exact [OF empty_valueCaches, of sampleData 2 "''dorian''" "[]"] run(1) by auto
  moreover have "rejects sampleData 2 ''lydian''"
    using simple_values_exact [OF empty_valueCaches, of sampleData 2 "''lydian''" "[]"] run(3,4) by auto
  ultimately show ?thesis using run(2) by blast
qed

end
