(* ===== verification/Xsd_Assignments.thy ===== *)
theory Xsd_Assignments
  imports Xsd_Attributes Xsd_Values Xsd_Reports
begin

text \<open>
  The assessment of attributes is exact: the issues it records, the identity events and the answer are functions
  of the declarations and the attributes, as long as the assessment epoch stands still.
\<close>

section \<open>Values of a type reference\<close>

definition simpleTarget :: "schemaData \<Rightarrow> TypeRef option \<Rightarrow> (nat option \<times> string) option" where
  "simpleTarget S reference =
     (case ResolveType S reference of (simple, complex, builtin, found) \<Rightarrow> if \<not> found \<or> complex \<noteq> None then None else Some (simple, builtin))"

definition refMeans :: "valueData \<Rightarrow> TypeRef option \<Rightarrow> TypeSemantics \<Rightarrow> bool" where
  "refMeans D reference s \<longleftrightarrow> (case simpleTarget (vdSchema D) reference of
       None \<Rightarrow> False
     | Some (Some i, _) \<Rightarrow> means (vdSchema D) i s
     | Some (None, builtin) \<Rightarrow> builtinSemantics builtin = Some s)"

definition refAdmits :: "valueData \<Rightarrow> TypeRef option \<Rightarrow> string \<Rightarrow> SimpleAssessment \<Rightarrow> bool" where
  "refAdmits D reference v a \<longleftrightarrow> (case simpleTarget (vdSchema D) reference of
       None \<Rightarrow> False
     | Some (Some i, _) \<Rightarrow> admits D i v a
     | Some (None, builtin) \<Rightarrow> builtinSemanticsValue builtin \<noteq> None \<and> builtinAdmits (vdLibrary D) builtin v a)"

definition refRejects :: "valueData \<Rightarrow> TypeRef option \<Rightarrow> string \<Rightarrow> bool" where
  "refRejects D reference v \<longleftrightarrow> (case simpleTarget (vdSchema D) reference of
       None \<Rightarrow> False
     | Some (Some i, _) \<Rightarrow> rejects D i v
     | Some (None, builtin) \<Rightarrow> builtinSemanticsValue builtin \<noteq> None \<and> builtinRejects (vdLibrary D) builtin v)"

text \<open>The reference is to a simple type that can be assessed.\<close>

definition refReady :: "valueData \<Rightarrow> TypeRef option \<Rightarrow> bool" where
  "refReady D reference \<longleftrightarrow> (case simpleTarget (vdSchema D) reference of
       None \<Rightarrow> False
     | Some (Some i, _) \<Rightarrow> ready D i
     | Some (None, builtin) \<Rightarrow> builtinSemanticsValue builtin \<noteq> None \<and> soundType (vdSchema D) (BuiltinType builtin) \<and> \<not> entityBuiltin builtin)"

definition soundRef :: "schemaData \<Rightarrow> TypeRef option \<Rightarrow> bool" where
  "soundRef S reference \<longleftrightarrow> (snd (TypeIdentity_of S reference) \<longrightarrow> soundType S (fst (TypeIdentity_of S reference)))"

lemma refAdmits_exclusive: "refAdmits D reference v a \<Longrightarrow> \<not> refRejects D reference v"
  using verdicts(1) builtin_exclusive by (auto simp: refAdmits_def refRejects_def split: option.splits)

lemma simpleTarget_known:
  assumes "simpleTarget S reference = Some (None, builtin)" "soundType S (BuiltinType builtin)"
  shows "builtinSemanticsValue builtin \<noteq> None"
proof -
  have "builtin \<noteq> []" using assms(2) unfolding soundType_iff [of S "BuiltinType builtin"] nodeFine_def
    by (auto simp: TypeBase_def BuiltinType_def)
  with assms(1) show ?thesis by (auto simp: simpleTarget_def ResolveType_def split: option.splits if_splits)
qed

lemma ValidateSimpleType_yields:
  "yields D {} (ValidateSimpleType D reference v) (\<lambda>r moved. case r of
       None \<Rightarrow> \<not> moved \<and> (\<exists>a. refAdmits D reference v a) \<and> soundRef (vdSchema D) reference
     | Some f \<Rightarrow> if TechnicalFailure f then moved \<and> \<not> refReady D reference else \<not> moved \<and> refRejects D reference v)"
proof -
  obtain simple complex builtin found where r: "ResolveType (vdSchema D) reference = (simple, complex, builtin, found)" by (rule prod_cases4)
  show ?thesis
  proof (cases "\<not> found \<or> complex \<noteq> None")
    case True
    then have "simpleTarget (vdSchema D) reference = None" using r by (simp add: simpleTarget_def)
    then have "\<not> refReady D reference" by (simp add: refReady_def)
    with True r show ?thesis unfolding ValidateSimpleType_def
      by simp (rule yields_bnd [OF yields_IncompleteFailure], auto intro!: yields_ret)
  next
    case False
    then have t: "simpleTarget (vdSchema D) reference = Some (simple, builtin)" using r by (simp add: simpleTarget_def)
    let ?u = "\<lparr> tiSimple = simple, tiComplex = None, tiBuiltin = builtin \<rparr>"
    have u: "?u = (case simple of Some i \<Rightarrow> simpleIdentity i | None \<Rightarrow> BuiltinType builtin)"
      using r by (auto simp: simpleIdentity_def BuiltinType_def ResolveType_def split: option.splits if_splits)
    have sound: "soundType (vdSchema D) ?u \<Longrightarrow> soundRef (vdSchema D) reference" using r False by (simp add: soundRef_def TypeIdentity_of_def)
    have p: "plain ?u" using plain_identity [of "vdSchema D" reference] r False by (simp add: TypeIdentity_of_def)
    show ?thesis unfolding ValidateSimpleType_def r prod.case if_not_P [OF False]
    proof (rule yields_bnd [OF yields_metadata_of [OF p]])
      fix ok moved
      assume ok: "(ok \<longleftrightarrow> soundType (vdSchema D) ?u) \<and> (moved \<longleftrightarrow> \<not> ok)"
      let ?Q = "\<lambda>r moved. case r of None \<Rightarrow> \<not> moved \<and> (\<exists>a. refAdmits D reference v a) \<and> soundRef (vdSchema D) reference
        | Some f \<Rightarrow> if TechnicalFailure f then moved \<and> \<not> refReady D reference else \<not> moved \<and> refRejects D reference v"
      let ?finish = "\<lambda>r :: outcome. ret (case r of Inl f \<Rightarrow> Some f | Inr _ \<Rightarrow> None)"
      show "yields D {} (if \<not> ok then bnd (AssessmentFailure ''simple type metadata incomplete'' []) (\<lambda>f. ret (Some f))
          else bnd (case simple of Some i \<Rightarrow> AssessSimpleValue (valueDepth (vdSchema D)) D i v v | None \<Rightarrow> AssessBuiltinValue D builtin v v) ?finish)
        (\<lambda>s moved'. ?Q s (moved \<or> moved'))"
      proof (cases ok)
        case False
        then have "moved" "\<not> refReady D reference" using ok t u by (auto simp: refReady_def ready_def split: option.splits)
        with False show ?thesis by simp (rule yields_bnd [OF yields_AssessmentFailure], auto intro!: yields_ret)
      next
        case True
        then have s: "soundType (vdSchema D) ?u" "\<not> moved" using ok by simp_all
        show ?thesis
        proof (cases simple)
          case None
          then have k: "builtinSemanticsValue builtin \<noteq> None" using simpleTarget_known t s(1) u by simp
          then have eq: "refAdmits D reference v = builtinAdmits (vdLibrary D) builtin v" "refRejects D reference v = builtinRejects (vdLibrary D) builtin v"
            using t None by (simp_all add: refAdmits_def refRejects_def fun_eq_iff)
          show ?thesis using True s(2) None
            by simp (rule yields_bnd [OF AssessBuiltinValue_yields [OF k]],
              auto simp: verdict_def eq refReady_def t sound [OF s(1)] split: sum.splits if_splits intro!: yields_ret)
        next
          case (Some i)
          then have eq: "refAdmits D reference v = admits D i v" "refRejects D reference v = rejects D i v" "refReady D reference = ready D i"
            using t by (simp_all add: refAdmits_def refRejects_def refReady_def fun_eq_iff)
          show ?thesis using True s(2) Some
            by simp (rule yields_bnd [OF AssessSimpleValue_ready],
              auto simp: verdict_def eq sound [OF s(1)] split: sum.splits if_splits intro!: yields_ret)
        qed
      qed
    qed
  qed
qed

section \<open>Comparison of values\<close>

lemma SimpleTypeSemantics_yields:
  "yields D {} (SimpleTypeSemantics D reference) (\<lambda>r moved. (\<forall>s. r = Some s \<longleftrightarrow> refMeans D reference s) \<and> (moved \<longleftrightarrow> r = None))"
proof -
  obtain simple complex builtin found where r: "ResolveType (vdSchema D) reference = (simple, complex, builtin, found)" by (rule prod_cases4)
  let ?look = "if \<not> found \<or> complex \<noteq> None then ret None
    else (case simple of Some i \<Rightarrow> inTypes (resolveSemantics D i) | None \<Rightarrow> ret (builtinSemantics builtin))"
  have "yields D {} ?look (\<lambda>r moved. (\<forall>s. r = Some s \<longleftrightarrow> refMeans D reference s) \<and> (moved \<longrightarrow> r = None))"
  proof (cases "\<not> found \<or> complex \<noteq> None")
    case False
    then have "simpleTarget (vdSchema D) reference = Some (simple, builtin)" using r by (simp add: simpleTarget_def)
    with False show ?thesis
      by (cases simple) (auto simp: refMeans_def intro!: yields_ret intro: yields_weaken [OF yields_resolve])
  qed (use r in \<open>auto simp: refMeans_def simpleTarget_def intro!: yields_ret\<close>)
  then show ?thesis unfolding SimpleTypeSemantics_def r prod.case
    by (rule yields_bnd) (auto intro!: yields_bnd [OF yields_Incomplete] yields_ret)
qed

lemma literalVerdict_weaken: "literalVerdict R' A J r moved \<Longrightarrow> (R \<Longrightarrow> R') \<Longrightarrow> literalVerdict R A J r moved"
  by (auto simp: literalVerdict_def split: option.splits if_splits)

lemma AssessSimpleValue_below: "soundBelow D {} i (AssessSimpleValue (valueDepth (vdSchema D)) D)"
  using AssessSimpleValue_ready by (auto simp: soundBelow_def)

lemma ready_reach: "ready D i \<Longrightarrow> (i, j) \<in> (needRel (vdSchema D))\<^sup>* \<Longrightarrow> ready D j"
  using rtranclD [of i j] ready_below [of i j D] by blast

text \<open>A list named by the meaning of a type: its items can be converted with the depth that is left.\<close>

lemma list_items_yield:
  assumes "means (vdSchema D) i s" "semList s = Some l"
  shows "\<exists>m b. sItem (simpleOf (vdSchema D) l) = Some m \<and> memberMeans (vdSchema D) m b \<and>
    (\<forall>w. yields D {} (SimpleLiteralValue (Suc (length (simples (vdSchema D)))) D (AssessSimpleValue (valueDepth (vdSchema D)) D) (Some b) w)
      (literalVerdict (ready D i) (denotes D b w) (noValue D b w)))"
proof -
  let ?S = "vdSchema D"
  have l: "(i, l) \<in> (needRel ?S)\<^sup>*" "sForm (simpleOf ?S l) = SimpleList" using semantics_target(1) [OF assms(1)] assms(2) by auto
  obtain t where t: "means ?S l t" using means_below [OF assms(1) l(1)] by blast
  obtain m b where m: "sItem (simpleOf ?S l) = Some m" "memberMeans ?S m b" "Some m \<in> needs ?S l" by (rule list_item [OF t l(2)])
  have loc: "locatedBelow D l b" using member_located [OF rtrancl_refl m(3,2)] .
  have deep: "\<forall>l'. semList b = Some l' \<longrightarrow> height (needRel ?S) l' < Suc (length (simples ?S))"
    using item_deeper [OF t m(3,2)] height_le [OF meaning_deep [OF t]] by fastforce
  have "literalVerdict (ready D l) A J r moved \<Longrightarrow> literalVerdict (ready D i) A J r moved" for A J and r :: "SimpleAssessment option" and moved
    by (erule literalVerdict_weaken) (rule ready_reach [OF _ l(1)])
  with SimpleLiteralValue_yields [OF AssessSimpleValue_below _ _ loc deep] t m(1,2) show ?thesis by (blast intro: yields_weaken)
qed

lemma literalValue_yields:
  assumes "refMeans D reference s"
  shows "yields D {} (literalValue D (Some s) lit) (literalVerdict (refReady D reference) (denotes D s lit) (noValue D s lit))"
proof -
  obtain simple builtin where t: "simpleTarget (vdSchema D) reference = Some (simple, builtin)"
    using assms by (auto simp: refMeans_def split: option.splits)
  show ?thesis unfolding literalValue_def valueDepth_def
  proof (rule literal_step, unfold valueDepth_def [symmetric])
    fix u
    assume u: "semUnion s = Some u"
    then obtain i where i: "simple = Some i" "means (vdSchema D) i s"
      using assms t by (cases simple) (auto simp: refMeans_def builtinSemantics_def SimpleSemantics.extend_def)
    then have "refReady D reference \<Longrightarrow> ready D u" using semantics_target(1) [OF i(2)] u t ready_reach by (auto simp: refReady_def)
    then show "yields D {} (AssessSimpleValue (valueDepth (vdSchema D)) D u (normal s lit) (normal s lit))
        (verdict (refReady D reference) (admits D u (normal s lit)) (rejects D u (normal s lit)))"
      by (intro yields_weaken [OF AssessSimpleValue_ready]) (auto elim: verdict_weaken)
  next
    fix l
    assume "semList s = Some l"
    moreover obtain i where i: "simple = Some i" "means (vdSchema D) i s"
      using assms t \<open>semList s = Some l\<close> by (cases simple) (auto simp: refMeans_def builtinSemantics_def SimpleSemantics.extend_def)
    moreover have "refReady D reference = ready D i" using i t by (simp add: refReady_def)
    ultimately show "\<exists>m b. sItem (simpleOf (vdSchema D) l) = Some m \<and> memberMeans (vdSchema D) m b \<and>
      (\<forall>w. yields D {} (SimpleLiteralValue (Suc (length (simples (vdSchema D)))) D (AssessSimpleValue (valueDepth (vdSchema D)) D) (Some b) w)
        (literalVerdict (refReady D reference) (denotes D b w) (noValue D b w)))" using list_items_yield by simp
  next
    assume leaf: "semUnion s = None" "semList s = None"
    show "builtinSemanticsValue (Builtin s) \<noteq> None \<and> (refReady D reference \<longrightarrow> \<not> entityBuiltin (Builtin s))"
    proof (cases simple)
      case None
      then have b: "builtinSemantics builtin = Some s" using assms t by (simp add: refMeans_def)
      then have "Builtin s = builtin" using builtin_semantics(1) by (auto simp: builtinSemantics_def SimpleSemantics.extend_def)
      with b None t show ?thesis by (auto simp: refReady_def builtinSemantics_def)
    next
      case (Some i)
      then have i: "means (vdSchema D) i s" using assms t by (simp add: refMeans_def)
      from semantics_target(1) [OF i] leaf obtain j m where m: "(i, j) \<in> (needRel (vdSchema D))\<^sup>*" "Some m \<in> needs (vdSchema D) j"
        "memberTarget (vdSchema D) m = None" "Local (smName m) = Builtin s" "memberBuiltin m \<noteq> None" by blast
      then have "builtinSemanticsValue (Builtin s) \<noteq> None" by (auto simp: memberBuiltin_def builtinSemantics_def split: if_splits)
      moreover have "refReady D reference \<longrightarrow> nodeReady D j" using Some t m(1) by (simp add: refReady_def ready_def)
      ultimately show ?thesis using m by (auto simp: nodeReady_def)
    qed
  qed
qed

text \<open>Whether two literals of a type stand for the same value, as far as the code compares values.\<close>

definition byValue :: "TypeSemantics \<Rightarrow> bool" where
  "byValue s \<longleftrightarrow> Aggregate s \<or> Builtin s = ''boolean'' \<or> Builtin s = ''anyURI'' \<or> Builtin s = ''ENTITY''"

definition sameValue :: "valueData \<Rightarrow> TypeSemantics \<Rightarrow> string \<Rightarrow> string \<Rightarrow> bool" where
  "sameValue D s left right \<longleftrightarrow>
     (\<exists>a b. denotes D s left a \<and> denotes D s right b \<and> SimpleValue_equal (asValue a) (asValue b))"

text \<open>
  Agreement of two texts of other types: integers and decimals by the numbers they denote, string types by their
  normalized texts, and the rest as \<open>other\<close> reads them.
\<close>

definition textsAgree :: "(string \<Rightarrow> string) \<Rightarrow> TypeSemantics \<Rightarrow> string \<Rightarrow> string \<Rightarrow> bool" where
  "textsAgree other s left right \<longleftrightarrow>
     (if IntegerLimits (Builtin s) \<noteq> None then (\<exists>a b. parseInteger left = Some a \<and> parseInteger right = Some b \<and> intVal a = intVal b)
      else if Builtin s = ''decimal'' then (\<exists>a b. parseDecimal left = Some a \<and> parseDecimal right = Some b \<and> decVal a = decVal b)
      else if StringValue s then normal s left = normal s right
      else other left = other right)"

lemma numbers_agree:
  "integerValuesEqual left right \<longleftrightarrow> (\<exists>a b. parseInteger left = Some a \<and> parseInteger right = Some b \<and> intVal a = intVal b)"
  "decimalValuesEqual left right \<longleftrightarrow> (\<exists>a b. parseDecimal left = Some a \<and> parseDecimal right = Some b \<and> decVal a = decVal b)"
  unfolding integerValuesEqual_def decimalValuesEqual_def by (rule ints.equal_val, rule decs.equal_val)

definition valuesAgree :: "valueData \<Rightarrow> TypeRef option \<Rightarrow> string \<Rightarrow> string \<Rightarrow> bool" where
  "valuesAgree D reference left right \<longleftrightarrow>
     (\<exists>s. refMeans D reference s \<and> (if byValue s then sameValue D s left right
        else textsAgree (normalizeWhitespace (if Builtin s = [] then ''string'' else Builtin s)) s left right))"

lemma textsEqual_iff:
  "textsEqual s left right \<longleftrightarrow> textsAgree (normalizeWhitespace (if Builtin s = [] then ''string'' else Builtin s)) s left right"
  by (simp add: textsEqual_def textsAgree_def numbers_agree normal_def strCompare_eq_0 Let_def)

lemma AggregateValuesEqual_yields:
  assumes "refMeans D reference s"
  shows "yields D {} (AggregateValuesEqual D s left right)
    (\<lambda>r moved. if moved then \<not> r \<and> \<not> refReady D reference else r \<longleftrightarrow> sameValue D s left right)"
proof -
  have one: "denotes D s lit a \<Longrightarrow> denotes D s lit b \<Longrightarrow> b = a" "noValue D s lit \<Longrightarrow> \<not> denotes D s lit a" for lit a b
    using verdicts(7) [of D s lit a] verdicts(8) [of D s lit] by blast+
  show ?thesis unfolding AggregateValuesEqual_def
  proof (rule yields_bnd [OF literalValue_yields [OF assms]], rule yields_bnd [OF literalValue_yields [OF assms]], rule yields_ret)
    fix first second moved moved'
    assume a: "literalVerdict (refReady D reference) (denotes D s left) (noValue D s left) first moved"
      "literalVerdict (refReady D reference) (denotes D s right) (noValue D s right) second moved'"
    then show "if moved \<or> moved' \<or> False
      then \<not> (case (first, second) of (Some a, Some b) \<Rightarrow> SimpleValue_equal (asValue a) (asValue b) | _ \<Rightarrow> False) \<and> \<not> refReady D reference
      else (case (first, second) of (Some a, Some b) \<Rightarrow> SimpleValue_equal (asValue a) (asValue b) | _ \<Rightarrow> False) = sameValue D s left right"
      using one by (auto simp: literalVerdict_def sameValue_def split: option.splits if_splits) (metis one(1))
  qed
qed

lemma refReady_means: "refReady D reference \<Longrightarrow> \<exists>s. refMeans D reference s"
  by (cases "simpleTarget (vdSchema D) reference"; cases "fst (the (simpleTarget (vdSchema D) reference))")
    (auto simp: refReady_def refMeans_def ready_def builtinSemantics_def split: prod.splits)

lemma refMeans_unique: "refMeans D reference s \<Longrightarrow> refMeans D reference s' \<Longrightarrow> s' = s"
  by (auto simp: refMeans_def dest: means_unique split: option.splits)

text \<open>The comparison of two literals by value or, for the other types, by a comparison of texts.\<close>

lemma comparison_yields:
  "yields D {} (bnd (SimpleTypeSemantics D reference) (\<lambda>semantics. case semantics of
      None \<Rightarrow> ret False
    | Some s \<Rightarrow>
        if Aggregate s \<or> Builtin s = ''boolean'' \<or> Builtin s = ''anyURI'' then AggregateValuesEqual D s left right
        else if Builtin s = ''ENTITY'' then AggregateValuesEqual D s left right
        else ret (texts s)))
    (\<lambda>r moved. if moved then \<not> r \<and> \<not> refReady D reference
      else r \<longleftrightarrow> (\<exists>s. refMeans D reference s \<and> (if byValue s then sameValue D s left right else texts s)))"
  (is "yields D {} _ (\<lambda>r moved. if moved then \<not> r \<and> _ else r \<longleftrightarrow> ?agree)")
proof (rule yields_bnd [OF SimpleTypeSemantics_yields])
  fix r moved
  assume r: "(\<forall>s. r = Some s \<longleftrightarrow> refMeans D reference s) \<and> (moved \<longleftrightarrow> r = None)"
  show "yields D {} (case r of None \<Rightarrow> ret False | Some s \<Rightarrow>
      if Aggregate s \<or> Builtin s = ''boolean'' \<or> Builtin s = ''anyURI'' then AggregateValuesEqual D s left right
      else if Builtin s = ''ENTITY'' then AggregateValuesEqual D s left right else ret (texts s))
    (\<lambda>s moved'. if moved \<or> moved' then \<not> s \<and> \<not> refReady D reference else s \<longleftrightarrow> ?agree)"
  proof (cases r)
    case None
    then show ?thesis using r refReady_means by (auto intro!: yields_ret)
  next
    case (Some s)
    then have s: "refMeans D reference s" "\<not> moved" using r by auto
    then have eq: "?agree \<longleftrightarrow> (if byValue s then sameValue D s left right else texts s)"
      using refMeans_unique by blast
    have code: "(if Aggregate s \<or> Builtin s = ''boolean'' \<or> Builtin s = ''anyURI'' then AggregateValuesEqual D s left right
      else if Builtin s = ''ENTITY'' then AggregateValuesEqual D s left right else ret (texts s)) =
      (if byValue s then AggregateValuesEqual D s left right else ret (texts s))" by (simp add: byValue_def)
    have "yields D {} (if byValue s then AggregateValuesEqual D s left right else ret (texts s))
      (\<lambda>r moved. if moved then \<not> r \<and> \<not> refReady D reference else r \<longleftrightarrow> ?agree)"
    proof (cases "byValue s")
      case True
      with AggregateValuesEqual_yields [OF s(1), of left right] eq show ?thesis by (simp only: if_True)
    qed (simp add: eq yields_ret)
    then show ?thesis unfolding Some option.case code using s(2) by simp
  qed
qed

lemma SimpleValuesEqual_yields:
  "yields D {} (SimpleValuesEqual D reference left right)
    (\<lambda>r moved. if moved then \<not> r \<and> \<not> refReady D reference else r \<longleftrightarrow> valuesAgree D reference left right)"
  unfolding SimpleValuesEqual_def valuesAgree_def textsEqual_iff by (rule comparison_yields)

section \<open>Triples of the joint context\<close>

definition issuesOf :: "Context \<Rightarrow> Issue list" where
  "issuesOf c = Issues (icTypes (dcIdentity c))"

text \<open>The caches of the context are right and its tables hold the events.\<close>

definition good :: "valueData \<Rightarrow> identityEvent list \<Rightarrow> Context \<Rightarrow> bool" where
  "good D es c \<longleftrightarrow> Xsd_Values.cachesOK D {} (valuesOf c) \<and> tables (dcIdentity c) es \<and> icRun (dcIdentity c) = None"

definition advanced :: "bool \<Rightarrow> Issue list \<Rightarrow> Context \<Rightarrow> Context \<Rightarrow> bool" where
  "advanced moved new c c' \<longleftrightarrow> issuesOf c' = issuesOf c @ new \<and>
     Derivations (icTypes (dcIdentity c')) = Derivations (icTypes (dcIdentity c)) \<and> dcContent c' = dcContent c \<and> dcNullable c' = dcNullable c \<and>
     icOrigin (dcIdentity c') = icOrigin (dcIdentity c) \<and>
     (if moved then epoch c < epoch c' \<and> AssessmentErr (icTypes (dcIdentity c')) \<noteq> []
      else epoch c' = epoch c \<and> AssessmentErr (icTypes (dcIdentity c')) = AssessmentErr (icTypes (dcIdentity c)) \<and>
        icIncomplete (dcIdentity c') = icIncomplete (dcIdentity c))"

lemma advanced_refl [simp]: "advanced False [] c c"
  by (simp add: advanced_def)

lemma advanced_trans: "advanced m new c c1 \<Longrightarrow> advanced m' new' c1 c2 \<Longrightarrow> advanced (m \<or> m') (new @ new') c c2"
  by (auto simp: advanced_def split: if_splits)

lemma advanced_epoch: "advanced m new c c' \<Longrightarrow> epoch c \<le> epoch c' \<and> (m \<longleftrightarrow> epoch c' \<noteq> epoch c)"
  by (auto simp: advanced_def split: if_splits)

text \<open>
  From every good context in epoch \<open>e\<close> the operation returns in a good one; \<open>P\<close> relates the result, whether the
  epoch advanced, the new issues and the new events.
\<close>

definition does :: "valueData \<Rightarrow> identityOrigin \<Rightarrow> nat \<Rightarrow> 'a dact \<Rightarrow> ('a \<Rightarrow> bool \<Rightarrow> Issue list \<Rightarrow> identityEvent list \<Rightarrow> bool) \<Rightarrow> bool" where
  "does D origin e x P \<longleftrightarrow> (\<forall>c es. good D es c \<and> icOrigin (dcIdentity c) = origin \<and> epoch c = e \<longrightarrow>
     (\<exists>r c' moved new evs. x c = Some (r, c') \<and> good D (es @ evs) c' \<and> advanced moved new c c' \<and> P r moved new evs))"

lemma doesD:
  assumes "does D origin e x P" "good D es c" "icOrigin (dcIdentity c) = origin" "epoch c = e"
  obtains r c' moved new evs where "x c = Some (r, c')" "good D (es @ evs) c'" "advanced moved new c c'" "P r moved new evs"
  using assms unfolding does_def by blast

lemma does_ret: "P r False [] [] \<Longrightarrow> does D origin e (ret r) P"
  unfolding does_def ret_def using advanced_refl by (metis append_Nil2)

lemma does_weaken: "does D origin e x P \<Longrightarrow> (\<And>r moved new evs. P r moved new evs \<Longrightarrow> Q r moved new evs) \<Longrightarrow> does D origin e x Q"
  unfolding does_def by blast

lemma does_bnd:
  assumes "does D origin e x P" "\<And>r m n v e'. P r m n v \<Longrightarrow> (m \<longleftrightarrow> e' \<noteq> e) \<Longrightarrow> e \<le> e' \<Longrightarrow>
    does D origin e' (f r) (\<lambda>s m' n' v'. Q s (m \<or> m') (n @ n') (v @ v'))"
  shows "does D origin e (bnd x f) Q"
  unfolding does_def
proof (intro allI impI, elim conjE)
  fix c es
  assume a: "good D es c" "icOrigin (dcIdentity c) = origin" "epoch c = e"
  from doesD [OF assms(1) a] obtain r c1 m n v where 1: "x c = Some (r, c1)" "good D (es @ v) c1" "advanced m n c c1" "P r m n v" .
  have same: "icOrigin (dcIdentity c1) = origin" using 1(3) a(2) by (simp add: advanced_def)
  have "m \<longleftrightarrow> epoch c1 \<noteq> e" "e \<le> epoch c1" using advanced_epoch [OF 1(3)] a(3) by simp_all
  from doesD [OF assms(2) [OF 1(4) this] 1(2) same refl] obtain s c2 m' n' v' where
    2: "f r c1 = Some (s, c2)" "good D ((es @ v) @ v') c2" "advanced m' n' c1 c2" "Q s (m \<or> m') (n @ n') (v @ v')"
    by metis
  show "\<exists>s c' moved new evs. bnd x f c = Some (s, c') \<and> good D (es @ evs) c' \<and> advanced moved new c c' \<and> Q s moved new evs"
    by (rule exI [of _ s], rule exI [of _ c2], rule exI [of _ "m \<or> m'"], rule exI [of _ "n @ n'"], rule exI [of _ "v @ v'"])
      (use 1(1) 2 advanced_trans [OF 1(3) 2(3)] in \<open>simp add: bnd_def\<close>)
qed

lemma does_epoch: "does D origin e (f e) P \<Longrightarrow> does D origin e (bnd (get epoch) f) P"
  unfolding does_def bnd_def get_def by auto

lemma does_values:
  assumes "yields D {} x P"
  shows "does D origin e (inValues x) (\<lambda>r moved new evs. P r moved \<and> new = [] \<and> evs = [])"
  unfolding does_def
proof (intro allI impI, elim conjE)
  fix c es
  assume "good D es c"
  then have g: "Xsd_Values.cachesOK D {} (valuesOf c)" "tables (dcIdentity c) es" "icRun (dcIdentity c) = None" by (simp_all add: good_def)
  from yieldsD [OF assms g(1)] obtain r v moved where r: "x (valuesOf c) = Some (r, v)" "Xsd_Values.cachesOK D {} v" "trace moved (valuesOf c) v" "P r moved" .
  let ?c = "c\<lparr> dcIdentity := (dcIdentity c)\<lparr>icTypes := vcTypes v\<rparr>, dcEnumerations := EnumerationValues v \<rparr>"
  have "valuesOf ?c = v" by (simp add: valuesOf_def)
  then have "good D es ?c" using g r(2) by (simp add: good_def tables_def)
  moreover have "advanced moved [] c ?c"
    using r(3) by (cases moved) (simp_all add: advanced_def trace_def valuesOf_def version_def epoch_def issuesOf_def)
  ultimately have "good D es ?c" "advanced moved [] c ?c" by simp_all
  then show "\<exists>r c' moved new evs. inValues x c = Some (r, c') \<and> good D (es @ evs) c' \<and> advanced moved new c c' \<and> P r moved \<and> new = [] \<and> evs = []"
    using r(1,4) by (auto simp: inValues_def)
qed

definition plainConstraint :: "string \<Rightarrow> bool" where
  "plainConstraint k \<longleftrightarrow> k \<notin> {''assessment'', ''schema'', ''model-capability''}"

lemma does_issue:
  assumes "plainConstraint k"
  shows "does D origin e (addIssue path k msg) (\<lambda>_ moved new evs. \<not> moved \<and> new = [\<lparr> isPath = path, isConstraint = k, isMessage = msg \<rparr>] \<and> evs = [])"
  unfolding does_def
proof (intro allI impI, elim conjE)
  fix c es
  assume g: "good D es c"
  let ?i = "\<lparr> isPath = path, isConstraint = k, isMessage = msg \<rparr>" and ?t = "icTypes (dcIdentity c)"
  let ?c = "c\<lparr> dcIdentity := (dcIdentity c)\<lparr>icTypes := ?t\<lparr>Issues := Issues ?t @ [?i]\<rparr>\<rparr> \<rparr>"
  have "addIssue path k msg c = Some ((), ?c)"
    using assms by (simp add: addIssue_def inValues_def inTypes_def AddIssue_def plainConstraint_def upd_def valuesOf_def)
  moreover have "good D es ?c" "advanced False [?i] c ?c"
    using g by (simp_all add: good_def Xsd_Values.cachesOK_def valuesOf_def tables_def advanced_def issuesOf_def epoch_def)
  ultimately show "\<exists>r c' moved new evs. addIssue path k msg c = Some (r, c') \<and> good D (es @ evs) c' \<and> advanced moved new c c' \<and>
      \<not> moved \<and> new = [?i] \<and> evs = []" by auto
qed

lemma does_technical:
  assumes "\<not> plainConstraint k"
  shows "does D origin e (addIssue path k msg) (\<lambda>_ moved new evs. new = [] \<and> evs = [])"
proof -
  have "yields D {} (inTypes (AddIssue path k msg)) (\<lambda>_ _. True)"
    using assms by (auto simp: yields_def inTypes_def AddIssue_def plainConstraint_def act_simps Incomplete_def Xsd_Values.cachesOK_def trace_def version_def)
  from does_values [OF this] show ?thesis unfolding addIssue_def by (rule does_weaken) simp
qed

section \<open>Identity events\<close>

text \<open>Operations on the tables alone.\<close>

definition quiet :: "'a iact \<Rightarrow> bool" where
  "quiet x \<longleftrightarrow> (\<forall>c r c'. x c = Some (r, c') \<longrightarrow> icTypes c' = icTypes c \<and> icIncomplete c' = icIncomplete c)"

lemma quiet_ret: "quiet (ret r)"
  by (simp add: quiet_def ret_def)

lemma quiet_upd: "(\<And>c. icTypes (f c) = icTypes c \<and> icIncomplete (f c) = icIncomplete c) \<Longrightarrow> quiet (upd f)"
  by (auto simp: quiet_def upd_def)

lemma quiet_bnd: "quiet x \<Longrightarrow> (\<And>r. quiet (f r)) \<Longrightarrow> quiet (bnd x f)"
  unfolding quiet_def bnd_def by (fastforce split: option.splits)

lemma quiet_each: "(\<And>x b. quiet (f x b)) \<Longrightarrow> quiet (each f xs b)"
  by (induction xs arbitrary: b) (auto intro: quiet_ret quiet_bnd)

lemma quiet_get: "(\<And>r. quiet (f r)) \<Longrightarrow> quiet (bnd (get g) f)"
  by (auto simp: quiet_def bnd_def get_def)

lemma quiet_seed: "quiet (SeedIdentity v path k)"
  by (auto simp: SeedIdentity_def intro!: quiet_get quiet_ret quiet_upd)

lemma quiet_reference: "quiet (addReference v path)"
  by (auto simp: addReference_def intro!: quiet_bnd quiet_upd quiet_seed)

lemmas quiet_rules = quiet_ret quiet_upd quiet_each quiet_seed quiet_reference

lemma RecordIdentity_types:
  assumes "RecordIdentity S unconstructed reference v path c = Some ((), c')"
  shows "\<exists>k. IdentityBuiltin S reference (icTypes c) = Some (k, icTypes c') \<and> icIncomplete c' = icIncomplete c"
proof -
  let ?f = "\<lambda>builtin. let normalized = normalizeWhitespace builtin v in
       if builtin = ''ID'' then
         bnd (SeedIdentity normalized path ''ID'') (\<lambda>_.
           upd (\<lambda>c. if icIdentifiers c normalized = None then c\<lparr>icIdentifiers := (icIdentifiers c)(normalized \<mapsto> path)\<rparr> else c))
       else if builtin = ''IDREF'' then addReference normalized path
       else if builtin = ''IDREFS'' then each (\<lambda>item _. addReference item path) (splitList normalized) ()
       else ret ()"
  have q: "quiet (?f k)" for k
    by (auto simp: Let_def split: if_splits intro!: quiet_rules quiet_bnd)
  have "RecordIdentity S unconstructed reference v path c = bnd (onTypes (IdentityBuiltin S reference)) ?f c"
    by (simp add: RecordIdentity_def noteConstructedIdentity_def unconstructed_def)
  with assms obtain k t where k: "IdentityBuiltin S reference (icTypes c) = Some (k, t)" "?f k (c\<lparr>icTypes := t\<rparr>) = Some ((), c')"
    by (auto simp: bnd_def [of "onTypes _"] onTypes_def split: option.splits)
  with q [of k] show ?thesis unfolding quiet_def by fastforce
qed

lemma RecordIdentityBinding_types:
  assumes "RecordIdentityBinding S unconstructed reference v path (Some owner) c = Some ((), c')"
  shows "\<exists>k. IdentityBuiltin S reference (icTypes c) = Some (k, icTypes c') \<and> icIncomplete c' = icIncomplete c"
proof -
  let ?f = "\<lambda>builtin. if builtin \<noteq> ''ID'' then ret () else let val = collapseWhitespace v in
      upd (\<lambda>c. case icBindings c val of
          None \<Rightarrow> c\<lparr>icBindings := (icBindings c)(val \<mapsto> addOwner path (icOrigin c) owner (newBindings path (icOrigin c) owner))\<rparr>
        | Some b \<Rightarrow> if onPointer owner \<in> ibOwners b then c
            else c\<lparr>icBindings := (icBindings c)(val \<mapsto> addOwner path (icOrigin c) owner b)\<rparr>)"
  have q: "quiet (?f k)" for k
    by (auto simp: Let_def split: option.splits if_splits intro!: quiet_rules)
  have "RecordIdentityBinding S unconstructed reference v path (Some owner) c = bnd (onTypes (IdentityBuiltin S reference)) ?f c"
    by (simp add: RecordIdentityBinding_def noteConstructedIdentity_def unconstructed_def)
  with assms obtain k t where k: "IdentityBuiltin S reference (icTypes c) = Some (k, t)" "?f k (c\<lparr>icTypes := t\<rparr>) = Some ((), c')"
    by (auto simp: bnd_def [of "onTypes _"] onTypes_def split: option.splits)
  with q [of k] show ?thesis unfolding quiet_def by fastforce
qed

text \<open>For a sound type the lookup of the identity kind changes nothing but the cache of metadata.\<close>

lemma IdentityBuiltin_types:
  assumes "metaInv S {} (TypeMetadata t)" "IdentityBuiltin S reference t = Some (k, t')" "soundRef S reference"
  shows "t' = t\<lparr>TypeMetadata := TypeMetadata t'\<rparr>"
proof -
  obtain u found where v: "TypeIdentity_of S reference = (u, found)" by (rule prod.exhaust)
  have p: "plain u" using plain_identity [of S reference] v by simp
  show ?thesis
  proof (cases found)
    case True
    then have s: "soundType S u" using assms(3) v by (simp add: soundRef_def)
    obtain t1 where t1: "ValidTypeMetadata (metadataDepth S) S u t = Some (True, t1)" "settled S {} t True t1"
      using ValidTypeMetadata_exact [OF room_bound p, of "{}"] assms(1) s unfolding decides_def by fastforce
    have "t' = t1" using assms(2) v True t1(1)
      by (auto simp: IdentityBuiltin_def bnd_def ret_def panic_def split: option.splits)
    then show ?thesis using t1(2) unfolding settled_def by (metis TypeContext.surjective TypeContext.update_convs(1-3))
  qed (use assms(2) v in \<open>simp add: IdentityBuiltin_def ret_def\<close>)
qed

lemma does_identity:
  assumes "logs (vdSchema D) origin x new" "soundRef (vdSchema D) reference"
    and types: "\<And>c c'. x c = Some ((), c') \<Longrightarrow>
      \<exists>k. IdentityBuiltin (vdSchema D) reference (icTypes c) = Some (k, icTypes c') \<and> icIncomplete c' = icIncomplete c"
  shows "does D origin e (inIdentity x) (\<lambda>_ moved issues evs. \<not> moved \<and> issues = [] \<and> evs = new)"
  unfolding does_def
proof (intro allI impI, elim conjE)
  fix c es
  assume a: "good D es c" "icOrigin (dcIdentity c) = origin"
  then have g: "Xsd_Values.cachesOK D {} (valuesOf c)" "tables (dcIdentity c) es" "icRun (dcIdentity c) = None" by (simp_all add: good_def)
  then have m: "metaInv (vdSchema D) {} (TypeMetadata (icTypes (dcIdentity c)))" by (simp add: Xsd_Values.cachesOK_def valuesOf_def)
  from assms(1) g(2) m a(2) obtain i where i: "x (dcIdentity c) = Some ((), i)" "tables i (es @ new)"
    "metaInv (vdSchema D) {} (TypeMetadata (icTypes i))" "kept (dcIdentity c) i" unfolding logs_def by blast
  from types [OF i(1)] IdentityBuiltin_types [OF m _ assms(2)] have t: "icTypes i = (icTypes (dcIdentity c))\<lparr>TypeMetadata := TypeMetadata (icTypes i)\<rparr>"
    and inc: "icIncomplete i = icIncomplete (dcIdentity c)" by blast+
  let ?c = "c\<lparr>dcIdentity := i\<rparr>"
  have same: "SemanticsCache (icTypes i) = SemanticsCache (icTypes (dcIdentity c))" "AssessmentErr (icTypes i) = AssessmentErr (icTypes (dcIdentity c))"
    "AssessmentVersion (icTypes i) = AssessmentVersion (icTypes (dcIdentity c))" "Derivations (icTypes i) = Derivations (icTypes (dcIdentity c))"
    "Issues (icTypes i) = Issues (icTypes (dcIdentity c))"
    by (subst t, simp)+
  have "good D (es @ new) ?c" using g i same(1) by (simp add: good_def Xsd_Values.cachesOK_def valuesOf_def kept_def)
  moreover have "advanced False [] c ?c" using i(4) same inc by (simp add: advanced_def issuesOf_def epoch_def kept_def)
  ultimately show "\<exists>r c' moved issues evs. inIdentity x c = Some (r, c') \<and> good D (es @ evs) c' \<and> advanced moved issues c c' \<and>
      \<not> moved \<and> issues = [] \<and> evs = new"
    using i(1) by (auto simp: inIdentity_def)
qed

lemma does_record:
  assumes "soundRef (vdSchema D) reference"
  shows "does D origin e (inIdentity (RecordIdentity (vdSchema D) unconstructed reference v path))
    (\<lambda>_ moved issues evs. \<not> moved \<and> issues = [] \<and> evs = recordEvents (vdSchema D) origin reference v path)"
  by (rule does_identity [OF logs_record assms]) (rule RecordIdentity_types)

lemma does_bind:
  assumes "soundRef (vdSchema D) reference"
  shows "does D origin e (inIdentity (RecordIdentityBinding (vdSchema D) unconstructed reference v path (Some owner)))
    (\<lambda>_ moved issues evs. \<not> moved \<and> issues = [] \<and> evs = bindEvents (vdSchema D) origin reference v path (Some owner))"
  by (rule does_identity [OF logs_bind assms]) (rule RecordIdentityBinding_types)

section \<open>Expected findings\<close>

text \<open>A finding is the path of an issue and its constraint; a refused value leaves the constraint open.\<close>

type_synonym finding = "string \<times> string option"

definition matchesFinding :: "finding \<Rightarrow> Issue \<Rightarrow> bool" where
  "matchesFinding f i \<longleftrightarrow> isPath i = fst f \<and> (case snd f of None \<Rightarrow> True | Some k \<Rightarrow> isConstraint i = k)"

definition assessed :: "Attribute \<Rightarrow> bool" where
  "assessed a \<longleftrightarrow> \<not> aNamespaceDeclaration a \<and> \<not> StandardXSIName (aName a) True"

definition accepts :: "valueData \<Rightarrow> AttributeDeclaration \<Rightarrow> string \<Rightarrow> bool" where
  "accepts D decl v \<longleftrightarrow> (\<exists>a. refAdmits D (Some (adType decl)) v a)"

definition fixedBroken :: "valueData \<Rightarrow> AttributeDeclaration \<Rightarrow> string \<Rightarrow> bool" where
  "fixedBroken D decl v \<longleftrightarrow>
     (\<exists>k. adConstraint decl = Some k \<and> vcKind k = ''fixed'' \<and> \<not> valuesAgree D (Some (adType decl)) v (vcValue k))"

definition declaredFindings :: "valueData \<Rightarrow> AttributeDeclaration \<Rightarrow> string \<Rightarrow> string \<Rightarrow> finding list" where
  "declaredFindings D decl v p =
     (if adUse decl = AttributeProhibited then [(p, Some ''prohibited'')]
      else (if fixedBroken D decl v then [(p, Some ''fixed'')] else []) @ (if accepts D decl v then [] else [(p, None)]))"

definition attributeFindings :: "valueData \<Rightarrow> (QName \<rightharpoonup> AttributeDeclaration) \<Rightarrow> AnySchema option \<Rightarrow> string \<Rightarrow> Attribute \<Rightarrow> finding list" where
  "attributeFindings D decls anyAttribute path a =
     (if \<not> assessed a then []
      else (case decls (aName a) of
          None \<Rightarrow> if fst (anyAttributeAllows (libUri (vdLibrary D)) False anyAttribute (aName a) []) then []
            else [(attributePath path (aName a), Some ''attribute'')]
        | Some decl \<Rightarrow> declaredFindings D decl (aValue a) (attributePath path (aName a))))"

definition attributeEvents :: "valueData \<Rightarrow> identityOrigin \<Rightarrow> (QName \<rightharpoonup> AttributeDeclaration) \<Rightarrow> string \<Rightarrow> OwnerNode \<Rightarrow> Attribute \<Rightarrow> identityEvent list" where
  "attributeEvents D origin decls path owner a =
     (case decls (aName a) of
        Some decl \<Rightarrow>
          if assessed a \<and> adUse decl \<noteq> AttributeProhibited \<and> accepts D decl (aValue a) then
            (if fixedBroken D decl (aValue a) then []
             else recordEvents (vdSchema D) origin (Some (adType decl)) (aValue a) (attributePath path (aName a))) @
            bindEvents (vdSchema D) origin (Some (adType decl)) (aValue a) (attributePath path (aName a)) (Some owner)
          else []
      | None \<Rightarrow> [])"

definition presentNames :: "(QName \<rightharpoonup> AttributeDeclaration) \<Rightarrow> Attribute list \<Rightarrow> QName set" where
  "presentNames decls attrs = {aName a | a. a \<in> set attrs \<and> assessed a \<and> decls (aName a) \<noteq> None}"

definition requiredFindings :: "string \<Rightarrow> QName set \<Rightarrow> AttributeDeclaration list \<Rightarrow> finding list" where
  "requiredFindings path present schemas =
     map (\<lambda>s. (attributePath path (AttributeSchema.aName s), Some ''required''))
       (filter (\<lambda>s. adUse s = AttributeRequired \<and> AttributeSchema.aName s \<notin> present) schemas)"

text \<open>The attribute can be assessed with the metadata at hand.\<close>

definition attributeReady :: "valueData \<Rightarrow> (QName \<rightharpoonup> AttributeDeclaration) \<Rightarrow> bool \<Rightarrow> Attribute \<Rightarrow> bool" where
  "attributeReady D decls unavailable a \<longleftrightarrow> assessed a \<longrightarrow> (case decls (aName a) of
       None \<Rightarrow> \<not> unavailable
     | Some decl \<Rightarrow> adUse decl = AttributeProhibited \<or> refReady D (Some (adType decl)))"

section \<open>One attribute\<close>

lemma plain_constraints [simp]:
  "plainConstraint ''attribute''" "plainConstraint ''prohibited''" "plainConstraint ''fixed''" "plainConstraint ''required''"
  by (simp_all add: plainConstraint_def)

lemma plain_failure: "plainConstraint (fConstraint f) \<longleftrightarrow> \<not> TechnicalFailure f"
  by (auto simp: plainConstraint_def TechnicalFailure_def)

lemma checkFixed_does:
  "does D origin e (checkFixed D decl v p) (\<lambda>ok moved new evs. evs = [] \<and>
     (if moved then \<not> refReady D (Some (adType decl))
      else (ok \<longleftrightarrow> \<not> fixedBroken D decl v) \<and> list_all2 matchesFinding (if fixedBroken D decl v then [(p, Some ''fixed'')] else []) new))"
  (is "does D origin e _ ?Q")
  unfolding checkFixed_def
proof (rule does_epoch)
  let ?R = "\<lambda>ok moved new evs. evs = [] \<and> (if moved then \<not> refReady D (Some (adType decl))
      else (ok \<longleftrightarrow> \<not> fixedBroken D decl v) \<and> list_all2 matchesFinding (if fixedBroken D decl v then [(p, Some ''fixed'')] else []) new)"
  have check: "does D origin e (case adConstraint decl of None \<Rightarrow> ret True
      | Some k \<Rightarrow> if vcKind k = ''fixed'' then
          bnd (inValues (SimpleValuesEqual D (Some (adType decl)) v (vcValue k))) (\<lambda>equal. bnd (get epoch) (\<lambda>after.
            if \<not> equal \<and> after = e
            then bnd (addIssue p ''fixed'' (Formatted ''value %q does not equal fixed value %q'' [FmtText v, FmtText (vcValue k)])) (\<lambda>_. ret False)
            else ret True)) else ret True) ?R"
  proof (cases "\<exists>k. adConstraint decl = Some k \<and> vcKind k = ''fixed''")
    case True
    then obtain k where k: "adConstraint decl = Some k" "vcKind k = ''fixed''" by blast
    then have broken: "fixedBroken D decl v \<longleftrightarrow> \<not> valuesAgree D (Some (adType decl)) v (vcValue k)" by (simp add: fixedBroken_def)
    show ?thesis unfolding k(1) option.case if_P [OF k(2)]
    proof (rule does_bnd [OF does_values [OF SimpleValuesEqual_yields]], rule does_epoch)
      fix r m and n :: "Issue list" and w :: "identityEvent list" and e'
      assume r: "(if m then \<not> r \<and> \<not> refReady D (Some (adType decl)) else r = valuesAgree D (Some (adType decl)) v (vcValue k)) \<and> n = [] \<and> w = []"
        "m \<longleftrightarrow> e' \<noteq> e"
      show "does D origin e' (if \<not> r \<and> e' = e
            then bnd (addIssue p ''fixed'' (Formatted ''value %q does not equal fixed value %q'' [FmtText v, FmtText (vcValue k)])) (\<lambda>_. ret False)
            else ret True) (\<lambda>s m' n' v'. ?R s (m \<or> m') (n @ n') (w @ v'))"
        using r broken by (auto intro!: does_bnd [OF does_issue] does_ret simp: matchesFinding_def split: if_splits)
    qed
  next
    case False
    then have "\<not> fixedBroken D decl v" by (auto simp: fixedBroken_def)
    with False show ?thesis by (cases "adConstraint decl") (auto intro!: does_ret)
  qed
  show "does D origin e (bnd (case adConstraint decl of None \<Rightarrow> ret True
      | Some k \<Rightarrow> if vcKind k = ''fixed'' then
          bnd (inValues (SimpleValuesEqual D (Some (adType decl)) v (vcValue k))) (\<lambda>equal. bnd (get epoch) (\<lambda>after.
            if \<not> equal \<and> after = e
            then bnd (addIssue p ''fixed'' (Formatted ''value %q does not equal fixed value %q'' [FmtText v, FmtText (vcValue k)])) (\<lambda>_. ret False)
            else ret True)) else ret True) (\<lambda>ok. bnd (get epoch) (\<lambda>after. ret (ok \<and> after = e)))) ?Q"
    by (rule does_bnd [OF check], rule does_epoch, rule does_ret) (auto split: if_splits)
qed

lemma assessAttribute_does:
  "does D origin e (assessAttribute D decl v p owner dv) (\<lambda>ok moved new evs.
     if moved then \<not> refReady D (Some (adType decl))
     else (ok \<longleftrightarrow> accepts D decl v) \<and> list_all2 matchesFinding (if accepts D decl v then [] else [(p, None)]) new \<and>
       evs = (if accepts D decl v then (if dv then recordEvents (vdSchema D) origin (Some (adType decl)) v p else []) @
         bindEvents (vdSchema D) origin (Some (adType decl)) v p (Some owner) else []))"
  unfolding assessAttribute_def
proof (rule does_bnd [OF does_values [OF ValidateSimpleType_yields]], elim conjE)
  fix r :: "SimpleFailure option" and m and n :: "Issue list" and w :: "identityEvent list" and e'
  assume r: "case r of None \<Rightarrow> \<not> m \<and> (\<exists>a. refAdmits D (Some (adType decl)) v a) \<and> soundRef (vdSchema D) (Some (adType decl))
      | Some f \<Rightarrow> if TechnicalFailure f then m \<and> \<not> refReady D (Some (adType decl)) else \<not> m \<and> refRejects D (Some (adType decl)) v"
    "n = []" "w = []"
  let ?Q = "\<lambda>ok moved new evs. if moved then \<not> refReady D (Some (adType decl))
     else (ok \<longleftrightarrow> accepts D decl v) \<and> list_all2 matchesFinding (if accepts D decl v then [] else [(p, None)]) new \<and>
       evs = (if accepts D decl v then (if dv then recordEvents (vdSchema D) origin (Some (adType decl)) v p else []) @
         bindEvents (vdSchema D) origin (Some (adType decl)) v p (Some owner) else [])"
  show "does D origin e' (case r of
         Some f \<Rightarrow> bnd (addIssue p (fConstraint f) (failureText f)) (\<lambda>_. ret False)
       | None \<Rightarrow>
           bnd (if dv then inIdentity (RecordIdentity (vdSchema D) unconstructed (Some (adType decl)) v p) else ret ()) (\<lambda>_.
           bnd (inIdentity (RecordIdentityBinding (vdSchema D) unconstructed (Some (adType decl)) v p (Some owner))) (\<lambda>_. ret True)))
     (\<lambda>s m' n' v'. ?Q s (m \<or> m') (n @ n') (w @ v'))"
  proof (cases r)
    case None
    then have a: "\<not> m" "accepts D decl v" "soundRef (vdSchema D) (Some (adType decl))" using r(1) by (auto simp: accepts_def)
    have rec: "does D origin e' (if dv then inIdentity (RecordIdentity (vdSchema D) unconstructed (Some (adType decl)) v p) else ret ())
      (\<lambda>_ moved issues evs. \<not> moved \<and> issues = [] \<and> evs = (if dv then recordEvents (vdSchema D) origin (Some (adType decl)) v p else []))"
      using does_record [OF a(3)] by (cases dv) (simp_all add: does_ret)
    show ?thesis unfolding None option.case
      by (rule does_bnd [OF rec], rule does_bnd [OF does_bind [OF a(3)]], rule does_ret) (use a r(2,3) in auto)
  next
    case (Some f)
    show ?thesis
    proof (cases "TechnicalFailure f")
      case True
      then have "m" "\<not> refReady D (Some (adType decl))" using r(1) Some by simp_all
      with True show ?thesis unfolding Some option.case
        by (intro does_bnd [OF does_technical] does_ret) (auto simp: plain_failure)
    next
      case False
      then have a: "\<not> m" "refRejects D (Some (adType decl)) v" using r(1) Some by simp_all
      then have "\<not> accepts D decl v" using refAdmits_exclusive unfolding accepts_def by blast
      with False a(1) r(2,3) show ?thesis unfolding Some option.case
        by (intro does_bnd [OF does_issue] does_ret) (auto simp: plain_failure matchesFinding_def)
    qed
  qed
qed

definition noWildcard :: "string \<Rightarrow> unit dact" where
  "noWildcard msg = bnd (inValues (inTypes (Incomplete (Plain msg)))) (\<lambda>_. inIdentity (upd (\<lambda>c. c\<lparr>icIncomplete := True\<rparr>)))"

lemma does_noWildcard: "does D origin e (noWildcard msg) (\<lambda>_ moved _ _. moved)"
  unfolding does_def
proof (intro allI impI, elim conjE)
  fix c es
  assume g: "good D es c"
  let ?t = "icTypes (dcIdentity c)"
  let ?c = "c\<lparr> dcIdentity := (dcIdentity c)\<lparr> icTypes := ?t\<lparr> AssessmentErr := AssessmentErr ?t @ [Plain msg], AssessmentVersion := Suc (AssessmentVersion ?t) \<rparr>,
     icIncomplete := True \<rparr> \<rparr>"
  have "noWildcard msg c = Some ((), ?c)"
    by (simp add: noWildcard_def bnd_def inValues_def inTypes_def Incomplete_def inIdentity_def upd_def valuesOf_def)
  moreover have "good D (es @ []) ?c" "advanced True [] c ?c"
    using g by (simp_all add: good_def Xsd_Values.cachesOK_def valuesOf_def tables_def advanced_def issuesOf_def epoch_def)
  ultimately show "\<exists>r c' moved new evs. noWildcard msg c = Some (r, c') \<and> good D (es @ evs) c' \<and> advanced moved new c c' \<and> moved" by blast
qed

lemma list_all2_two: "list_all2 P [x] xs \<Longrightarrow> list_all2 P [y] ys \<Longrightarrow> list_all2 P [x, y] (xs @ ys)"
  using list_all2_appendI [of P "[x]" xs "[y]" ys] by simp

lemma checkAttribute_does:
  "does D origin e (checkAttribute D decls anyAttribute unavailable path owner a (ok, present)) (\<lambda>(ok', present') moved new evs.
     if moved then \<not> attributeReady D decls unavailable a
     else present' = present \<union> presentNames decls [a] \<and> (ok' \<longleftrightarrow> ok \<and> attributeFindings D decls anyAttribute path a = []) \<and>
       list_all2 matchesFinding (attributeFindings D decls anyAttribute path a) new \<and> evs = attributeEvents D origin decls path owner a)"
  (is "does D origin e ?x ?Q")
proof (cases "assessed a")
  case False
  then have "?x = ret (ok, present)" by (auto simp: checkAttribute_def assessed_def)
  with False show ?thesis by (auto intro!: does_ret simp: presentNames_def attributeFindings_def attributeEvents_def split: option.splits)
next
  case True
  then have skip: "\<not> aNamespaceDeclaration a" "\<not> StandardXSIName (aName a) True" by (simp_all add: assessed_def)
  let ?p = "attributePath path (aName a)"
  show ?thesis
  proof (cases "decls (aName a)")
    case None
    then have none: "presentNames decls [a] = {}" "attributeEvents D origin decls path owner a = []"
      by (auto simp: presentNames_def attributeEvents_def)
    show ?thesis
    proof (cases unavailable)
      case True
      then have x: "?x = bnd (noWildcard ''attribute wildcard union cannot be established from available schema metadata'') (\<lambda>_. ret (ok, present))"
        using skip None by (simp add: checkAttribute_def noWildcard_def bnd_assoc)
      have "\<not> attributeReady D decls unavailable a" using \<open>assessed a\<close> None True by (simp add: attributeReady_def)
      then show ?thesis unfolding x by (auto intro!: does_bnd [OF does_noWildcard] does_ret)
    next
      case False
      then have x: "?x = (if fst (anyAttributeAllows (libUri (vdLibrary D)) False anyAttribute (aName a) []) then ret (ok, present)
          else bnd (addIssue ?p ''attribute'' (Plain ''attribute is not allowed'')) (\<lambda>_. ret (False, present)))"
        using skip None by (simp add: checkAttribute_def)
      show ?thesis unfolding x using True None none
        by (auto simp: attributeFindings_def matchesFinding_def intro!: does_ret does_bnd [OF does_issue])
    qed
  next
    case (Some decl)
    have found: "presentNames decls [a] = {aName a}" "attributeFindings D decls anyAttribute path a = declaredFindings D decl (aValue a) ?p"
      using True Some by (auto simp: presentNames_def attributeFindings_def)
    show ?thesis
    proof (cases "adUse decl = AttributeProhibited")
      case prohibited: True
      then have x: "?x = bnd (addIssue ?p ''prohibited'' (Plain ''attribute is prohibited'')) (\<lambda>_. ret (False, insert (aName a) present))"
        using skip Some by (simp add: checkAttribute_def)
      show ?thesis unfolding x using prohibited Some found
        by (auto simp: attributeEvents_def declaredFindings_def matchesFinding_def intro!: does_ret does_bnd [OF does_issue])
    next
      case False
      then have x: "?x = bnd (checkFixed D decl (aValue a) ?p) (\<lambda>dv. bnd (assessAttribute D decl (aValue a) ?p owner dv) (\<lambda>accepted.
          ret (ok \<and> dv \<and> accepted, insert (aName a) present)))" using skip Some by (simp add: checkAttribute_def)
      have rdy: "attributeReady D decls unavailable a \<longleftrightarrow> refReady D (Some (adType decl))" using True Some False by (simp add: attributeReady_def)
      show ?thesis unfolding x
        by (rule does_bnd [OF checkFixed_does], rule does_bnd [OF assessAttribute_does], rule does_ret)
          (use True Some False in \<open>auto simp: found rdy attributeEvents_def declaredFindings_def split: if_splits intro: list_all2_two\<close>)
    qed
  qed
qed

section \<open>All attributes\<close>

lemma attributes_does:
  "does D origin e (each (checkAttribute D decls anyAttribute unavailable path owner) attrs (ok, present)) (\<lambda>(ok', present') moved new evs.
     if moved then \<exists>a \<in> set attrs. \<not> attributeReady D decls unavailable a
     else present' = present \<union> presentNames decls attrs \<and>
       (ok' \<longleftrightarrow> ok \<and> concat (map (attributeFindings D decls anyAttribute path) attrs) = []) \<and>
       list_all2 matchesFinding (concat (map (attributeFindings D decls anyAttribute path) attrs)) new \<and>
       evs = concat (map (attributeEvents D origin decls path owner) attrs))"
proof (induction attrs arbitrary: e ok present)
  case Nil
  then show ?case by (auto intro!: does_ret simp: presentNames_def)
next
  case (Cons a attrs)
  have names: "presentNames decls (a # attrs) = presentNames decls [a] \<union> presentNames decls attrs" by (auto simp: presentNames_def)
  show ?case unfolding each.simps
  proof (rule does_bnd [OF checkAttribute_does])
    fix r m and n :: "Issue list" and w e'
    assume r: "(case r of (ok', present') \<Rightarrow> \<lambda>moved new evs. if moved then \<not> attributeReady D decls unavailable a
       else present' = present \<union> presentNames decls [a] \<and> (ok' \<longleftrightarrow> ok \<and> attributeFindings D decls anyAttribute path a = []) \<and>
         list_all2 matchesFinding (attributeFindings D decls anyAttribute path a) new \<and> evs = attributeEvents D origin decls path owner a) m n w"
    obtain ok1 present1 where s: "r = (ok1, present1)" by (rule prod.exhaust)
    show "does D origin e' (each (checkAttribute D decls anyAttribute unavailable path owner) attrs r) (\<lambda>s m' n' v'.
       (case s of (ok', present') \<Rightarrow> \<lambda>moved new evs. if moved then \<exists>a \<in> set (a # attrs). \<not> attributeReady D decls unavailable a
         else present' = present \<union> presentNames decls (a # attrs) \<and>
           (ok' \<longleftrightarrow> ok \<and> concat (map (attributeFindings D decls anyAttribute path) (a # attrs)) = []) \<and>
           list_all2 matchesFinding (concat (map (attributeFindings D decls anyAttribute path) (a # attrs))) new \<and>
           evs = concat (map (attributeEvents D origin decls path owner) (a # attrs))) (m \<or> m') (n @ n') (w @ v'))"
      unfolding s
      by (rule does_weaken [OF Cons.IH]) (use r s names in \<open>auto split: if_splits prod.splits intro: list_all2_appendI\<close>)
  qed
qed

lemma required_does:
  "does D origin e (each (checkRequired path present) schemas ok) (\<lambda>ok' moved new evs. \<not> moved \<and> evs = [] \<and>
     (ok' \<longleftrightarrow> ok \<and> requiredFindings path present schemas = []) \<and> list_all2 matchesFinding (requiredFindings path present schemas) new)"
proof (induction schemas arbitrary: e ok)
  case Nil
  then show ?case by (auto intro!: does_ret simp: requiredFindings_def)
next
  case (Cons s schemas)
  have one: "does D origin e (checkRequired path present s ok) (\<lambda>ok' moved new evs. \<not> moved \<and> evs = [] \<and>
     (ok' \<longleftrightarrow> ok \<and> requiredFindings path present [s] = []) \<and> list_all2 matchesFinding (requiredFindings path present [s]) new)"
    by (auto simp: checkRequired_def requiredFindings_def matchesFinding_def intro!: does_ret does_bnd [OF does_issue])
  have split: "requiredFindings path present (s # schemas) = requiredFindings path present [s] @ requiredFindings path present schemas"
    by (simp add: requiredFindings_def)
  show ?case unfolding each.simps split
    by (rule does_bnd [OF one], rule does_weaken [OF Cons.IH]) (auto intro: list_all2_appendI)
qed

definition allFindings :: "valueData \<Rightarrow> AttributeDeclaration list \<Rightarrow> AnySchema option \<Rightarrow> string \<Rightarrow> Attribute list \<Rightarrow> finding list" where
  "allFindings D schemas anyAttribute path attrs =
     concat (map (attributeFindings D (knownAttributes schemas) anyAttribute path) attrs) @
     requiredFindings path (presentNames (knownAttributes schemas) attrs) schemas"

lemma validateAttributes_does:
  "does D origin e (validateAttributes D attrs schemas anyAttribute unavailable path owner) (\<lambda>ok moved new evs.
     if moved then \<exists>a \<in> set attrs. \<not> attributeReady D (knownAttributes schemas) unavailable a
     else (ok \<longleftrightarrow> allFindings D schemas anyAttribute path attrs = []) \<and> list_all2 matchesFinding (allFindings D schemas anyAttribute path attrs) new \<and>
       evs = concat (map (attributeEvents D origin (knownAttributes schemas) path owner) attrs))"
  unfolding validateAttributes_def
  by (rule does_bnd [OF attributes_does])
    (auto simp: allFindings_def split: if_splits prod.splits intro!: does_weaken [OF required_does] list_all2_appendI)

section \<open>Property\<close>

text \<open>
  C7: the attributes of an element. In every context the assessment returns, keeps the caches right and the tables
  in step with the events, and leaves the composed types alone. Unless metadata was missing, which advances the
  assessment epoch and can only happen at an attribute whose type or wildcard is not available, it records exactly
  the expected issues in order: attributes that are neither declared nor admitted by the wildcard, prohibited ones,
  values that differ from a fixed value or that the type does not admit, and required attributes that are missing;
  it answers yes exactly when there are none, and adds exactly the identity events of the accepted values.
\<close>

theorem attributes_exact:
  assumes "good D es c"
  shows "\<exists>ok c' moved new evs. validateAttributes D attrs schemas anyAttribute unavailable path owner c = Some (ok, c') \<and>
    good D (es @ evs) c' \<and> advanced moved new c c' \<and>
    (if moved then \<exists>a \<in> set attrs. \<not> attributeReady D (knownAttributes schemas) unavailable a
     else (ok \<longleftrightarrow> allFindings D schemas anyAttribute path attrs = []) \<and> list_all2 matchesFinding (allFindings D schemas anyAttribute path attrs) new \<and>
       evs = concat (map (attributeEvents D (icOrigin (dcIdentity c)) (knownAttributes schemas) path owner) attrs))"
  by (rule doesD [OF validateAttributes_does assms refl refl, of attrs schemas anyAttribute unavailable path owner]) blast

text \<open>An attribute \<open>mode\<close> of the union of two enumerations, fixed to one of its values.\<close>

definition modeType :: TypeRef where
  "modeType = \<lparr> trName = \<lparr> Space = [], Local = [] \<rparr>, InlineSimple = Some 2, InlineComplex = None \<rparr>"

definition modeAttribute :: AttributeDeclaration where
  "modeAttribute = \<lparr> AttributeSchema.aName = \<lparr> Space = [], Local = ''mode'' \<rparr>, adType = modeType, adUse = AttributeRequired,
     adConstraint = Some \<lparr> vcKind = ''fixed'', vcValue = ''dorian'' \<rparr> \<rparr>"

definition NewContext :: "schemaData \<Rightarrow> Context" where
  "NewContext S = \<lparr> dcIdentity = emptyContext None, dcEnumerations = \<lambda>_. None, dcContent = NewEffectiveContext S [], dcNullable = \<lambda>_. None \<rparr>"

lemma good_new: "good D [] (NewContext S)"
  using empty_metaInv empty_semInv
  by (simp add: good_def Xsd_Values.cachesOK_def enumInv_def NewContext_def valuesOf_def emptyContext_def tables_def entriesOf_def ownersOf_def bindingOf_def)

definition modeWalk :: "string \<Rightarrow> (bool \<times> Context) option" where
  "modeWalk v = validateAttributes sampleData [\<lparr> Attribute.aName = \<lparr> Space = [], Local = ''mode'' \<rparr>, aValue = v, aNamespaceDeclaration = False \<rparr>]
     [modeAttribute] None False ''/a'' \<lparr> onPointer = 1, onID = 1 \<rparr> (NewContext (vdSchema sampleData))"

theorem attributes_exact_witness:
  "accepts sampleData modeAttribute ''dorian'' \<and> \<not> fixedBroken sampleData modeAttribute ''dorian'' \<and>
   \<not> accepts sampleData modeAttribute ''lydian'' \<and> fixedBroken sampleData modeAttribute ''lydian''"
proof -
  have unmoved: "(if m then A else B \<and> C \<and> E) \<Longrightarrow> \<not> m \<Longrightarrow> C" for m A B C E by simp
  let ?see = "map_option (\<lambda>(r, c). (epoch c, length (issuesOf c)))"
  have run: "?see (modeWalk ''dorian'') = Some (0, 0)" "?see (modeWalk ''lydian'') = Some (0, 2)" by code_simp+
  have "length (declaredFindings sampleData modeAttribute v ''/a/@mode'') = n" if n: "?see (modeWalk v) = Some (0, n)" for v n
  proof -
    let ?attrs = "[\<lparr> Attribute.aName = \<lparr> Space = [], Local = ''mode'' \<rparr>, aValue = v, aNamespaceDeclaration = False \<rparr>]"
    have "\<exists>ok c' moved new. modeWalk v = Some (ok, c') \<and> advanced moved new (NewContext (vdSchema sampleData)) c' \<and>
        (\<not> moved \<longrightarrow> list_all2 matchesFinding (allFindings sampleData [modeAttribute] None ''/a'' ?attrs) new)"
      using attributes_exact [OF good_new [of sampleData "vdSchema sampleData"], where attrs = ?attrs and schemas = "[modeAttribute]" and
        anyAttribute = None and unavailable = False and path = "''/a''" and owner = "\<lparr> onPointer = 1, onID = 1 \<rparr>"]
      unfolding modeWalk_def [symmetric] by (elim exE conjE, intro exI conjI impI) (assumption, assumption, rule unmoved)
    then obtain ok c' moved new where r: "modeWalk v = Some (ok, c')" "advanced moved new (NewContext (vdSchema sampleData)) c'"
      "\<not> moved \<longrightarrow> list_all2 matchesFinding (allFindings sampleData [modeAttribute] None ''/a'' ?attrs) new" by blast
    have "epoch (NewContext (vdSchema sampleData)) = 0" "issuesOf (NewContext (vdSchema sampleData)) = []" by code_simp+
    moreover have "allFindings sampleData [modeAttribute] None ''/a'' ?attrs = declaredFindings sampleData modeAttribute v ''/a/@mode''"
      by (simp add: allFindings_def attributeFindings_def requiredFindings_def presentNames_def knownAttributes_def assessed_def
          modeAttribute_def StandardXSIName_def XSINamespace_def attributePath_def)
    ultimately show ?thesis using r n by (auto simp: advanced_def split: if_splits dest: list_all2_lengthD)
  qed
  from this [OF run(1)] this [OF run(2)] show ?thesis by (auto simp: declaredFindings_def modeAttribute_def split: if_splits)
qed

end
