(* ===== verification/Xsd_Elements.thy ===== *)
theory Xsd_Elements
  imports Xsd_Attributes Xsd_Canonical
begin

text \<open>
  The assessment of an element with everything below it (\<open>ValidateElementOwned\<close>, \<open>ValidateType\<close> and
  \<open>ValidateComplex\<close> in \<^verbatim>\<open>internal/xsd/kernel.go\<close>, the value constraints of \<^verbatim>\<open>xsi_values.go\<close>) in the compatibility
  context. A document is a tree; a node carries the pointer that identity constraints use. The fields of an
  element declaration that \<open>ElementSchema\<close> leaves out are a second record, and the pointer comparison of the
  actual with the declared type is a flag, which \<open>ActualElementType\<close> determines. The composition of types reads and
  grows the heaps of the context, so a simple type is looked up in the heap of the moment. The walk takes the
  height of the tree as fuel.
\<close>

section \<open>Documents and declarations\<close>

datatype ElementNode = ElementNode (enOwner: OwnerNode) (enName: QName) (enNode: Node) (enText: string) (enChildren: "ElementNode list")

record ElementDeclaration =
  edType :: TypeRef
  edBlock :: Derivation
  edDefault :: "string option"
  edFixed :: "string option"
  edNillable :: bool
  edAbstract :: bool

record documentData =
  ddContent :: contentData
  ddElements :: "QName \<rightharpoonup> ElementSchema"
  ddDeclarations :: "ElementDeclaration list"
  ddLibrary :: goLibrary

definition noType :: TypeRef where
  "noType = \<lparr> trName = \<lparr> Space = [], Local = [] \<rparr>, InlineSimple = None, InlineComplex = None \<rparr>"

definition declarationOf :: "documentData \<Rightarrow> ElementSchema \<Rightarrow> ElementDeclaration" where
  "declarationOf K e = (if eDeclaration e < length (ddDeclarations K) then ddDeclarations K ! eDeclaration e
     else \<lparr> edType = noType, edBlock = 0, edDefault = None, edFixed = None, edNillable = False, edAbstract = False \<rparr>)"

definition schemaOf :: "documentData \<Rightarrow> schemaData" where
  "schemaOf K = cdSchema (ddContent K)"

text \<open>The schema with the simple types composed so far, and the content models with the particles composed so far.\<close>

definition valuesAt :: "documentData \<Rightarrow> EffectiveContext \<Rightarrow> valueData" where
  "valuesAt K x = \<lparr> vdSchema = (schemaOf K)\<lparr>simples := xSimples x\<rparr>, vdLibrary = (ddLibrary K)\<lparr>libUri := cdUri (ddContent K)\<rparr> \<rparr>"

definition modelAt :: "documentData \<Rightarrow> ParticleSchema list \<Rightarrow> QName list \<Rightarrow> matchEnv" where
  "modelAt K particles names = \<lparr> heap = particles, elements = ddElements K, uriOK = cdUri (ddContent K), localRun = False,
     nodes = map Some names \<rparr>"

definition withValues :: "documentData \<Rightarrow> (valueData \<Rightarrow> 'a dact) \<Rightarrow> 'a dact" where
  "withValues K f = bnd (get dcContent) (\<lambda>x. f (valuesAt K x))"

definition inContent :: "'a eact \<Rightarrow> 'a dact" where
  "inContent act c = map_option (\<lambda>(a, x). (a, c\<lparr>dcContent := x\<rparr>)) (act (dcContent c))"

definition effectiveType :: "documentData \<Rightarrow> nat \<Rightarrow> EffectiveComplex option dact" where
  "effectiveType K j = inContent (EffectiveComplex_of (effectiveDepth (ddContent K)) (ddContent K) j)"

definition matchChildren :: "documentData \<Rightarrow> nat \<Rightarrow> QName list \<Rightarrow> (MatchResult \<times> MatchFailure \<times> bool) dact" where
  "matchChildren K p names c =
     map_option (\<lambda>(r, N, _). (r, c\<lparr>dcNullable := N\<rparr>)) (MatchParticle (modelAt K (xParticles (dcContent c)) names) (dcNullable c) [] p 0)"

definition incomplete :: "string \<Rightarrow> unit dact" where
  "incomplete msg = inValues (inTypes (Incomplete (Plain msg)))"

definition identityIncomplete :: "unit dact" where
  "identityIncomplete = inIdentity (upd (\<lambda>c. c\<lparr>icIncomplete := True\<rparr>))"

section \<open>Value constraints\<close>

text \<open>The scalar type of an element: unavailable, absent for other content, or a reference.\<close>

definition ScalarElementType :: "documentData \<Rightarrow> TypeRef option \<Rightarrow> TypeRef option option dact" where
  "ScalarElementType K reference =
     (case ResolveType (schemaOf K) reference of (simple, complex, builtin, found) \<Rightarrow>
        if \<not> found then bnd (incomplete ''element scalar type metadata cannot be resolved'') (\<lambda>_. ret None)
        else (case complex of
            Some j \<Rightarrow>
              bnd (effectiveType K j) (\<lambda>r. case r of
                  None \<Rightarrow> bnd (incomplete ''element scalar content metadata cannot be resolved'') (\<lambda>_. ret None)
                | Some t \<Rightarrow> ret (Some (ecSimple t)))
          | None \<Rightarrow> if builtin = ''anyType'' then ret (Some None) else ret (Some reference)))"

primrec canonicalItems :: "(string \<Rightarrow> string option vact) \<Rightarrow> string list \<Rightarrow> string list \<Rightarrow> string list option vact" where
  "canonicalItems convert done [] = ret (Some done)"
| "canonicalItems convert done (w # ws) =
     bnd (convert w) (\<lambda>r. case r of None \<Rightarrow> ret None | Some t \<Rightarrow> canonicalItems convert (done @ [t]) ws)"

primrec canonicalMember :: "valueData \<Rightarrow> assessor \<Rightarrow> (TypeSemantics option \<Rightarrow> string option vact) \<Rightarrow> string \<Rightarrow> SimpleMember option list \<Rightarrow> string option vact" where
  "canonicalMember D assess convert lit [] =
     bnd (inTypes (Incomplete (Plain ''constraint literal is not a member of its declared union''))) (\<lambda>_. ret None)"
| "canonicalMember D assess convert lit (m # ms) =
     bnd (memberSemantics D m) (\<lambda>semantics.
     bnd (AssessUnionMemberValue D assess m lit lit) (\<lambda>r. case r of
         Inr _ \<Rightarrow> convert semantics
       | Inl f \<Rightarrow> if TechnicalFailure f then ret None else canonicalMember D assess convert lit ms))"

primrec CanonicalSimpleLiteral :: "nat \<Rightarrow> valueData \<Rightarrow> assessor \<Rightarrow> TypeSemantics option \<Rightarrow> string \<Rightarrow> string option vact" where
  "CanonicalSimpleLiteral 0 D assess semantics lit = panic"
| "CanonicalSimpleLiteral (Suc n) D assess semantics lit =
     (case semantics of
        None \<Rightarrow> bnd (inTypes (Incomplete (Plain ''constraint literal type metadata cannot be resolved''))) (\<lambda>_. ret None)
      | Some s \<Rightarrow>
          let lit = SimpleSemantics_normalize (SimpleSemantics.truncate s) lit in
          (case semUnion s of
             Some u \<Rightarrow> canonicalMember D assess (\<lambda>b. CanonicalSimpleLiteral n D assess b lit) lit (sMembers (simpleOf (vdSchema D) u))
           | None \<Rightarrow>
               if semList s \<noteq> None \<or> BuiltinListItem (Builtin s) \<noteq> [] then
                 bnd (case semList s of
                     Some l \<Rightarrow> memberSemantics D (sItem (simpleOf (vdSchema D) l))
                   | None \<Rightarrow> ret (builtinSemantics (BuiltinListItem (Builtin s)))) (\<lambda>item.
                 bnd (canonicalItems (CanonicalSimpleLiteral n D assess item) [] (splitList lit)) (\<lambda>words.
                   ret (map_option (join_on '' '') words)))
               else
                 bnd (AssessBuiltinValue D (Builtin s) lit lit) (\<lambda>r. case r of
                     Inl f \<Rightarrow> bnd (if TechnicalFailure f then ret ()
                         else inTypes (Incomplete (Plain ''constraint literal is invalid for its declared type''))) (\<lambda>_. ret None)
                   | Inr _ \<Rightarrow>
                       (case canonicalBuiltin (Builtin s) lit of
                          None \<Rightarrow> bnd (inTypes (Incomplete (Formatted ''canonical constraint literal assessment is unavailable for xs:%s'' [FmtText (Builtin s)])))
                            (\<lambda>_. ret None)
                        | Some t \<Rightarrow> ret (Some t)))))"

definition canonicalLiteral :: "valueData \<Rightarrow> TypeRef option \<Rightarrow> string \<Rightarrow> string option vact" where
  "canonicalLiteral D reference lit =
     bnd (SimpleTypeSemantics D reference) (\<lambda>s.
       CanonicalSimpleLiteral (Suc (valueDepth (vdSchema D))) D (AssessSimpleValue (valueDepth (vdSchema D)) D) s lit)"

definition CanonicalElementConstraint :: "documentData \<Rightarrow> TypeRef option \<Rightarrow> string \<Rightarrow> string option dact" where
  "CanonicalElementConstraint K reference lit =
     bnd (ScalarElementType K reference) (\<lambda>r. case r of
         None \<Rightarrow> ret None
       | Some None \<Rightarrow> ret (Some lit)
       | Some scalar \<Rightarrow> withValues K (\<lambda>D. inValues (canonicalLiteral D scalar lit)))"

definition fixedTexts :: "TypeSemantics \<Rightarrow> string \<Rightarrow> string \<Rightarrow> bool" where
  "fixedTexts s left right =
     (if IntegerLimits (Builtin s) \<noteq> None then integerValuesEqual left right
      else if Builtin s = ''decimal'' then decimalValuesEqual left right
      else if StringValue s
      then strCompare (SimpleSemantics_normalize (SimpleSemantics.truncate s) left) (SimpleSemantics_normalize (SimpleSemantics.truncate s) right) = 0
      else strCompare left right = 0)"

definition fixedScalarsEqual :: "valueData \<Rightarrow> TypeRef option \<Rightarrow> string \<Rightarrow> string \<Rightarrow> bool vact" where
  "fixedScalarsEqual D reference left right =
     bnd (SimpleTypeSemantics D reference) (\<lambda>semantics. case semantics of
         None \<Rightarrow> ret False
       | Some s \<Rightarrow>
           if Aggregate s \<or> Builtin s = ''boolean'' \<or> Builtin s = ''anyURI'' then AggregateValuesEqual D s left right
           else if Builtin s = ''ENTITY'' then AggregateValuesEqual D s left right
           else ret (fixedTexts s left right))"

definition ElementFixedValuesEqual :: "documentData \<Rightarrow> TypeRef option \<Rightarrow> string \<Rightarrow> string \<Rightarrow> bool dact" where
  "ElementFixedValuesEqual K reference left right =
     (case ResolveType (schemaOf K) reference of (simple, complex, builtin, found) \<Rightarrow>
        (case complex of
           Some j \<Rightarrow>
             bnd (effectiveType K j) (\<lambda>r. case r of
                 None \<Rightarrow> bnd (incomplete ''fixed-value complex content metadata cannot be resolved'') (\<lambda>_. ret False)
               | Some t \<Rightarrow>
                   (case ecSimple t of
                      None \<Rightarrow> ret (strCompare left right = 0)
                    | Some scalar \<Rightarrow> withValues K (\<lambda>D. inValues (fixedScalarsEqual D (Some scalar) left right))))
         | None \<Rightarrow> withValues K (\<lambda>D. inValues (fixedScalarsEqual D reference left right))))"

definition textValue :: "string \<Rightarrow> SimpleValue" where
  "textValue t = SimpleValue StringDomain [] False t zeroDecimal []"

definition scalarLiteral :: "valueData \<Rightarrow> TypeRef option \<Rightarrow> string \<Rightarrow> SimpleAssessment option vact" where
  "scalarLiteral D reference lit = bnd (SimpleTypeSemantics D reference) (\<lambda>s. literalValue D s lit)"

definition ElementConstraintEqual :: "documentData \<Rightarrow> bool \<Rightarrow> TypeRef option \<Rightarrow> TypeRef option \<Rightarrow> string \<Rightarrow> string \<Rightarrow> bool dact" where
  "ElementConstraintEqual K same actual decl left right =
     bnd (get epoch) (\<lambda>before.
       if same then bnd (ElementFixedValuesEqual K actual left right) (\<lambda>equal. bnd (get epoch) (\<lambda>after. ret (equal \<or> after \<noteq> before)))
       else bnd (ScalarElementType K actual) (\<lambda>r. case r of
           None \<Rightarrow> ret True
         | Some None \<Rightarrow> bnd (CanonicalElementConstraint K decl right) (\<lambda>t. ret (case t of None \<Rightarrow> True | Some t \<Rightarrow> strCompare left t = 0))
         | Some scalar \<Rightarrow>
             bnd (ScalarElementType K decl) (\<lambda>r. case r of
                 None \<Rightarrow> ret True
               | Some None \<Rightarrow>
                   withValues K (\<lambda>D. bnd (inValues (scalarLiteral D scalar left)) (\<lambda>first. bnd (get epoch) (\<lambda>after.
                     ret (after \<noteq> before \<or> (case first of None \<Rightarrow> False | Some a \<Rightarrow> SimpleValue_equal (asValue a) (textValue right))))))
               | Some declScalar \<Rightarrow>
                   withValues K (\<lambda>D. bnd (inValues (scalarLiteral D scalar left)) (\<lambda>first.
                     bnd (inValues (scalarLiteral D declScalar right)) (\<lambda>second. bnd (get epoch) (\<lambda>after.
                       ret (after \<noteq> before \<or> (case (first, second) of (Some a, Some b) \<Rightarrow> SimpleValue_equal (asValue a) (asValue b) | _ \<Rightarrow> False)))))))))"

definition ElementDefaultImmediate :: "documentData \<Rightarrow> TypeRef option \<Rightarrow> bool dact" where
  "ElementDefaultImmediate K reference =
     (case ResolveType (schemaOf K) reference of (simple, complex, builtin, found) \<Rightarrow>
        if \<not> found then bnd (incomplete ''actual default type metadata cannot be resolved'') (\<lambda>_. ret False)
        else (case complex of
            None \<Rightarrow> ret True
          | Some j \<Rightarrow>
              bnd (effectiveType K j) (\<lambda>r. case r of
                  None \<Rightarrow> bnd (incomplete ''actual default content metadata cannot be resolved'') (\<lambda>_. ret False)
                | Some t \<Rightarrow>
                    if ecSimple t \<noteq> None then ret True
                    else if \<not> ecMixed t then ret False
                    else (case ecParticle t of
                        None \<Rightarrow> ret True
                      | Some p \<Rightarrow>
                          bnd (matchChildren K p []) (\<lambda>(r, f, matched).
                          bnd (if mfSchema f \<noteq> [] then incomplete (mfSchema f) else ret ()) (\<lambda>_. ret matched))))))"

section \<open>Content\<close>

definition namesOf :: "ElementNode \<Rightarrow> QName list" where
  "namesOf el = map enName (enChildren el)"

definition childIssue :: "ElementNode \<Rightarrow> string \<Rightarrow> nat \<Rightarrow> string \<Rightarrow> message \<Rightarrow> unit dact" where
  "childIssue el path index constraint msg = addIssue (indexedChildPath path (namesOf el) (int index)) constraint msg"

definition AddContentIssue :: "ElementNode \<Rightarrow> string \<Rightarrow> MatchFailure \<Rightarrow> unit dact" where
  "AddContentIssue el path f =
     (if mfSchema f \<noteq> [] then addIssue path ''schema'' (Plain (mfSchema f))
      else
        let position = min (mfPosition f) (length (enChildren el)); names = expectedNames (mfExpected f);
            suffix = (if names = [] then [] else ''; expected '' @ names) in
        if position = length (enChildren el) then addIssue path ''content-model'' (Plain (''required child element is missing'' @ suffix))
        else childIssue el path position ''content-model''
          (Formatted ''unexpected element %s%s'' [FmtText (displayQName (enName (enChildren el ! position))), FmtText suffix]))"

definition unexpectedElement :: "ElementNode \<Rightarrow> string \<Rightarrow> nat \<Rightarrow> unit dact" where
  "unexpectedElement el path index =
     (if length (enChildren el) \<le> index then panic
      else childIssue el path index ''content-model'' (Formatted ''unexpected element %s'' [FmtText (displayQName (enName (enChildren el ! index)))]))"

text \<open>Character data that the content does not allow.\<close>

definition characterViolation :: "EffectiveComplex \<Rightarrow> string \<Rightarrow> bool" where
  "characterViolation t val \<longleftrightarrow> \<not> ecMixed t \<and> val \<noteq> [] \<and> (ecParticle t = None \<or> trimXMLWhitespace val \<noteq> [])"

type_synonym childAssessor = "ElementNode \<Rightarrow> ElementSchema option \<Rightarrow> string \<Rightarrow> OwnerNode \<Rightarrow> bool dact"

definition assessChildren :: "childAssessor \<Rightarrow> ElementNode \<Rightarrow> string \<Rightarrow> OwnerNode \<Rightarrow> ElementMatch list \<Rightarrow> bool dact" where
  "assessChildren child el path subject matches =
     (let paths = childPaths path (namesOf el) in
      each (\<lambda>m valid. if length (enChildren el) \<le> emIndex m then panic
        else bnd (child (enChildren el ! emIndex m) (emSchema m) (paths ! emIndex m) subject) (\<lambda>ok. ret (valid \<and> ok))) matches True)"

definition ValidateContent :: "documentData \<Rightarrow> childAssessor \<Rightarrow> ElementNode \<Rightarrow> EffectiveComplex \<Rightarrow> string \<Rightarrow> OwnerNode \<Rightarrow> bool \<Rightarrow> bool dact" where
  "ValidateContent K child el t path subject attributesValid =
     bnd (if characterViolation t (enText el) then bnd (addIssue path ''element-only'' (Plain ''character data is not allowed'')) (\<lambda>_. ret False) else ret True)
       (\<lambda>contentValid.
     (case ecParticle t of
        None \<Rightarrow>
          bnd (if enChildren el \<noteq> [] then bnd identityIncomplete (\<lambda>_. unexpectedElement el path 0) else ret ())
            (\<lambda>_. ret (attributesValid \<and> contentValid \<and> enChildren el = []))
      | Some p \<Rightarrow>
          bnd (matchChildren K p (namesOf el)) (\<lambda>(r, f, matched).
            if \<not> matched \<or> mrNext r \<noteq> int (length (enChildren el)) then
              bnd (inIdentity (SkipIdentityChildren (map enOwner (enChildren el)))) (\<lambda>_.
              bnd (if \<not> matched then AddContentIssue el path f else unexpectedElement el path (nat (mrNext r))) (\<lambda>_. ret False))
            else
              bnd (assessChildren child el path subject (mrElements r)) (\<lambda>ok. ret (attributesValid \<and> contentValid \<and> ok)))))"

definition validateScalar :: "ElementNode \<Rightarrow> string \<Rightarrow> outcome dact \<Rightarrow> bool dact" where
  "validateScalar el path assess =
     (if enChildren el \<noteq> [] then
        bnd identityIncomplete (\<lambda>_. bnd (addIssue path ''simple-content'' (Plain ''simple value must not contain child elements'')) (\<lambda>_. ret False))
      else bnd assess (\<lambda>r. case r of
          Inl f \<Rightarrow> bnd (addIssue path (fConstraint f) (failureText f)) (\<lambda>_. ret False)
        | Inr _ \<Rightarrow> ret True))"

definition ValidateComplex :: "documentData \<Rightarrow> (TypeRef option \<Rightarrow> bool dact) \<Rightarrow> childAssessor \<Rightarrow> ElementNode \<Rightarrow> nat \<Rightarrow> string \<Rightarrow> bool
    \<Rightarrow> Attribute list \<Rightarrow> OwnerNode \<Rightarrow> bool dact" where
  "ValidateComplex K scalar child el j path nilled attrs subject =
     bnd (if ccAbstract (contentOf (ddContent K) j) then addIssue path ''abstract'' (Plain ''abstract type cannot be used'') else ret ()) (\<lambda>_.
     bnd (effectiveType K j) (\<lambda>r. case r of
         None \<Rightarrow> bnd (addIssue path ''schema'' (Plain ''complex type cannot be resolved'')) (\<lambda>_. ret False)
       | Some t \<Rightarrow>
           bnd (withValues K (\<lambda>D. validateAttributes D attrs (ecAttributes t) (ecAnyAttribute t) (ecAnyAttributeUnavailable t) path subject)) (\<lambda>attributesValid.
           if ccAbstract (contentOf (ddContent K) j) then
             bnd (inIdentity (SkipIdentityChildren (map enOwner (enChildren el)))) (\<lambda>_. ret False)
           else if nilled then ret attributesValid
           else if ecSimple t \<noteq> None then
             (if enChildren el \<noteq> [] then
                bnd identityIncomplete (\<lambda>_.
                bnd (addIssue path ''simple-content'' (Plain ''simple-content value must not contain child elements'')) (\<lambda>_. ret False))
              else bnd (scalar (ecSimple t)) (\<lambda>ok. ret (ok \<and> attributesValid)))
           else ValidateContent K child el t path subject attributesValid)))"

text \<open>
  The depth is 1 for the type of the element and 1 for its scalar content, which is no complex type. \<open>attrs\<close> and
  \<open>subject\<close> are those of the original node, which a default value does not change.
\<close>

primrec ValidateType :: "nat \<Rightarrow> documentData \<Rightarrow> childAssessor \<Rightarrow> ElementNode \<Rightarrow> string \<Rightarrow> Attribute list \<Rightarrow> OwnerNode \<Rightarrow> bool
    \<Rightarrow> TypeRef option \<Rightarrow> bool dact" where
  "ValidateType 0 K child el path attrs subject nilled reference = panic"
| "ValidateType (Suc n) K child el path attrs subject nilled reference =
     (case ResolveType (schemaOf K) reference of (simple, complex, builtin, found) \<Rightarrow>
        if \<not> found then bnd (addIssue path ''schema'' (Plain ''type declaration cannot be resolved'')) (\<lambda>_. ret False)
        else bnd (withValues K (\<lambda>D. inValues (inTypes (ValidTypeMetadata (metadataDepth (vdSchema D)) (vdSchema D)
            \<lparr> tiSimple = simple, tiComplex = complex, tiBuiltin = builtin \<rparr>)))) (\<lambda>ok.
          if \<not> ok then ret False
          else (case simple of
              Some i \<Rightarrow>
                if nilled then ret True
                else validateScalar el path (withValues K (\<lambda>D. inValues (AssessSimpleValue (valueDepth (vdSchema D)) D i (enText el) (enText el))))
            | None \<Rightarrow>
                (case complex of
                   Some j \<Rightarrow>
                     ValidateComplex K (ValidateType n K child el path attrs subject False) child el j path nilled attrs subject
                 | None \<Rightarrow>
                     if builtin = ''anyType'' then ret True
                     else if builtin \<noteq> [] then
                       (if nilled then ret True
                        else validateScalar el path (withValues K (\<lambda>D. inValues (AssessBuiltinValue D builtin (enText el) (enText el)))))
                     else bnd (addIssue path ''schema'' (Plain ''unsupported type declaration'')) (\<lambda>_. ret False)))))"

section \<open>The declaration of an element\<close>

text \<open>\<open>xsi:nil\<close>: whether the element is nilled, and whether the declaration is met so far.\<close>

definition checkNil :: "ElementDeclaration \<Rightarrow> ElementNode \<Rightarrow> string \<Rightarrow> (bool \<times> bool) dact" where
  "checkNil d el path =
     (case nilAttribute (map (\<lambda>a. (aName a, aValue a)) (nAttrs (enNode el))) of (val, found) \<Rightarrow>
        if \<not> found then ret (False, True)
        else
          let nilPath = attributePath path \<lparr> Space = XSINamespace, Local = ''nil'' \<rparr> in
          bnd (case parseBoolean val of
              (b, Some f) \<Rightarrow> bnd (addIssue nilPath (fConstraint f) (failureText f)) (\<lambda>_. ret False)
            | (b, None) \<Rightarrow> ret (edNillable d \<and> b)) (\<lambda>nilled.
          if \<not> edNillable d then bnd (addIssue nilPath ''nillable'' (Plain ''element is not nillable'')) (\<lambda>_. ret (nilled, False))
          else ret (nilled, True)))"

definition checkNilled :: "ElementDeclaration \<Rightarrow> ElementNode \<Rightarrow> string \<Rightarrow> bool dact" where
  "checkNilled d el path =
     bnd (if edFixed d \<noteq> None then bnd (addIssue path ''fixed'' (Plain ''nil element must not have a fixed value constraint'')) (\<lambda>_. ret False) else ret True)
       (\<lambda>ok.
     if enChildren el \<noteq> [] \<or> enText el \<noteq> [] then
       bnd (inIdentity (SkipIdentityChildren (map enOwner (enChildren el)))) (\<lambda>_.
       bnd (addIssue path ''nillable'' (Plain ''nil element must not contain character data or child elements'')) (\<lambda>_. ret False))
     else ret ok)"

text \<open>The default text of an empty element, and whether the value constraint blocks the assessment of the content.\<close>

definition defaultText :: "documentData \<Rightarrow> ElementDeclaration \<Rightarrow> bool \<Rightarrow> TypeRef \<Rightarrow> string \<Rightarrow> string \<Rightarrow> (string \<times> bool) dact" where
  "defaultText K d same actual val path =
     (if same then ret (val, False)
      else bnd (CanonicalElementConstraint K (Some (edType d)) val) (\<lambda>lexical.
        bnd (get epoch) (\<lambda>before.
        bnd (ElementDefaultImmediate K (Some actual)) (\<lambda>immediate.
        bnd (get epoch) (\<lambda>after.
        bnd (if \<not> immediate \<and> after = before
             then addIssue path ''default'' (Plain ''value constraint is not valid for the actual content type'') else ret ()) (\<lambda>_.
          ret (case lexical of None \<Rightarrow> [] | Some t \<Rightarrow> t, lexical = None \<or> \<not> immediate)))))))"

definition checkFixedElement :: "documentData \<Rightarrow> ElementDeclaration \<Rightarrow> bool \<Rightarrow> TypeRef \<Rightarrow> ElementNode \<Rightarrow> string \<Rightarrow> string \<Rightarrow> bool dact" where
  "checkFixedElement K d same actual el val path =
     bnd (get epoch) (\<lambda>before.
     bnd (if enChildren el \<noteq> []
          then bnd (addIssue path ''fixed'' (Plain ''element with a fixed value must not contain child elements'')) (\<lambda>_. ret False)
          else bnd (ElementConstraintEqual K same (Some actual) (Some (edType d)) (enText el) val) (\<lambda>equal.
            if \<not> equal
            then bnd (addIssue path ''fixed'' (Formatted ''value %q does not equal fixed value %q'' [FmtText (enText el), FmtText val])) (\<lambda>_. ret False)
            else ret True)) (\<lambda>ok.
     bnd (get epoch) (\<lambda>after. ret (ok \<and> after = before))))"

definition withText :: "ElementNode \<Rightarrow> string \<Rightarrow> ElementNode" where
  "withText el val = ElementNode (enOwner el) (enName el) (enNode el) val (enChildren el)"

text \<open>The value constraint: the element to assess, whether its content is blocked, whether the declaration is met.\<close>

definition valueConstraint :: "documentData \<Rightarrow> ElementDeclaration \<Rightarrow> bool \<Rightarrow> TypeRef \<Rightarrow> bool \<Rightarrow> ElementNode \<Rightarrow> string
    \<Rightarrow> (ElementNode \<times> bool \<times> bool) dact" where
  "valueConstraint K d same actual nilled el path =
     (if nilled then ret (el, False, True)
      else
        let empty = (enChildren el = [] \<and> enText el = []); val = (if edFixed d \<noteq> None then edFixed d else edDefault d) in
        (case (empty, val, edFixed d) of
           (True, Some v, _) \<Rightarrow> bnd (defaultText K d same actual v path) (\<lambda>(lexical, blocked). ret (withText el lexical, blocked, True))
         | (_, _, Some v) \<Rightarrow> bnd (checkFixedElement K d same actual el v path) (\<lambda>ok. ret (el, False, ok))
         | _ \<Rightarrow> ret (el, False, True)))"

definition simpleTyped :: "documentData \<Rightarrow> TypeRef \<Rightarrow> bool" where
  "simpleTyped K actual =
     (case ResolveType (schemaOf K) (Some actual) of (simple, complex, builtin, found) \<Rightarrow>
        simple \<noteq> None \<or> (builtin \<noteq> [] \<and> builtin \<noteq> ''anyType''))"

definition elementTyped :: "documentData \<Rightarrow> ElementDeclaration \<Rightarrow> ElementNode \<Rightarrow> string \<Rightarrow> (TypeRef \<times> bool) dact" where
  "elementTyped K d el path =
     withValues K (\<lambda>D. inValues (inTypes (ActualElementType (vdSchema D) (enNode el) (edType d) (edBlock d) path)))"

definition assessDeclared :: "documentData \<Rightarrow> childAssessor \<Rightarrow> ElementNode \<Rightarrow> ElementDeclaration \<Rightarrow> string \<Rightarrow> OwnerNode option \<Rightarrow> bool dact" where
  "assessDeclared K child el d path owner =
     bnd (if edAbstract d then addIssue path ''abstract'' (Plain ''abstract element cannot be used'') else ret ()) (\<lambda>_.
     bnd (elementTyped K d el path) (\<lambda>(actual, typed).
       let same = (xsiType (nAttrs (enNode el)) = None \<or> \<not> typed); nominated = typed \<and> \<not> edAbstract d in
     bnd (if simpleTyped K actual then ValidateSimpleElementAttributes (nAttrs (enNode el)) path else ret True) (\<lambda>typeAttributesValid.
     bnd (checkNil d el path) (\<lambda>(nilled, nillable).
     bnd (if nilled then checkNilled d el path else ret True) (\<lambda>empty.
     bnd (valueConstraint K d same actual nilled el path) (\<lambda>(effective, blocked, constrained).
     bnd (ValidateType 2 K child effective path (nAttrs (enNode el)) (enOwner el) (nilled \<or> blocked) (Some actual)) (\<lambda>valid.
       let typeValid = valid \<and> typeAttributesValid;
           declarationValid = nominated \<and> nillable \<and> empty \<and> constrained \<and> typeValid \<and> \<not> blocked in
     bnd (if typeValid \<and> \<not> nilled \<and> \<not> blocked
          then withValues K (\<lambda>D. inIdentity (RecordElementIdentity (vdSchema D) unconstructed (Some (edType d)) (Some actual) (enText effective) path owner declarationValid))
          else ret ()) (\<lambda>_. ret declarationValid))))))))"

primrec ValidateElementOwned :: "nat \<Rightarrow> documentData \<Rightarrow> ElementNode \<Rightarrow> ElementSchema option \<Rightarrow> string \<Rightarrow> OwnerNode option \<Rightarrow> bool dact" where
  "ValidateElementOwned 0 K el decl path owner = panic"
| "ValidateElementOwned (Suc n) K el decl path owner =
     bnd (ValidateSchemaLocationHints (cdUri (ddContent K)) (nAttrs (enNode el)) path) (\<lambda>_.
       case ResolveElement (modelAt K [] []) decl of
         None \<Rightarrow> bnd (addIssue path ''schema'' (Plain ''element declaration cannot be resolved'')) (\<lambda>_. ret False)
       | Some e \<Rightarrow>
           if enName el \<noteq> eName e
           then bnd (addIssue path ''name'' (Formatted ''got %s, expected %s'' [FmtText (displayQName (enName el)), FmtText (displayQName (eName e))]))
             (\<lambda>_. ret False)
           else assessDeclared K (\<lambda>x s p subject. ValidateElementOwned n K x s p (Some subject)) el (declarationOf K e) path owner)"

primrec treeHeight :: "ElementNode \<Rightarrow> nat" where
  "treeHeight (ElementNode owner name node text children) = Suc (fold max (map treeHeight children) 0)"

definition ValidateElement :: "documentData \<Rightarrow> ElementNode \<Rightarrow> ElementSchema option \<Rightarrow> string \<Rightarrow> unit dact" where
  "ValidateElement K el decl path = bnd (ValidateElementOwned (treeHeight el) K el decl path None) (\<lambda>_. ret ())"

end
