(* ===== verification/Xsd_Constraints.thy ===== *)
theory Xsd_Constraints
  imports Xsd_Assignments Xsd_Elements
begin

text \<open>
  The value constraints of elements are assessed right: what the canonical text of a default or fixed literal is,
  and that its conversion, the comparison of literals with a fixed value and the conversion to a value return on
  every schema and deliver it, unless metadata is missing, which advances the assessment epoch.
\<close>

section \<open>Canonical texts\<close>

definition itemOf :: "valueData \<Rightarrow> TypeSemantics \<Rightarrow> TypeSemantics \<Rightarrow> bool" where
  "itemOf D s b \<longleftrightarrow> (case semList s of
       Some l \<Rightarrow> \<exists>m. sItem (simpleOf (vdSchema D) l) = Some m \<and> memberMeans (vdSchema D) m b
     | None \<Rightarrow> BuiltinListItem (Builtin s) \<noteq> [] \<and> builtinSemantics (BuiltinListItem (Builtin s)) = Some b)"

text \<open>The first member of a union that admits the literal decides; a list is converted word by word.\<close>

inductive canonicalText :: "valueData \<Rightarrow> TypeSemantics \<Rightarrow> string \<Rightarrow> string \<Rightarrow> bool" for D :: valueData where
  ct_union: "semUnion s = Some u \<Longrightarrow> sMembers (simpleOf (vdSchema D) u) = ms @ Some m # ms' \<Longrightarrow>
    \<forall>m' \<in> set ms. \<exists>n. m' = Some n \<and> uRejects D n (normal s lit) \<Longrightarrow> uAdmits D m (normal s lit) a \<Longrightarrow>
    memberMeans (vdSchema D) m b \<Longrightarrow> canonicalText D b (normal s lit) t \<Longrightarrow> canonicalText D s lit t"
| ct_list: "semUnion s = None \<Longrightarrow> itemOf D s b \<Longrightarrow> list_all2 (canonicalText D b) (splitList (normal s lit)) ws \<Longrightarrow>
    canonicalText D s lit (join_on '' '' ws)"
| ct_atom: "semUnion s = None \<Longrightarrow> semList s = None \<Longrightarrow> BuiltinListItem (Builtin s) = [] \<Longrightarrow>
    builtinAdmits (vdLibrary D) (Builtin s) (normal s lit) a \<Longrightarrow> canonicalBuiltin (Builtin s) (normal s lit) = Some t \<Longrightarrow>
    canonicalText D s lit t"

text \<open>A result with its meaning, or nothing after the epoch has advanced.\<close>

definition orMoved :: "('a \<Rightarrow> bool) \<Rightarrow> 'a option \<Rightarrow> bool \<Rightarrow> bool" where
  "orMoved P r moved \<longleftrightarrow> (case r of None \<Rightarrow> moved | Some t \<Rightarrow> \<not> moved \<and> P t)"

lemma orMoved_simps [simp]: "orMoved P None moved \<longleftrightarrow> moved" "orMoved P (Some t) moved \<longleftrightarrow> \<not> moved \<and> P t"
  by (simp_all add: orMoved_def)

lemma yields_bnd_option:
  assumes "yields D K x (orMoved P)" "g None = ret None" "\<And>t. P t \<Longrightarrow> yields D K (g (Some t)) (orMoved Q)"
  shows "yields D K (bnd x g) (orMoved Q)"
proof (rule yields_bnd [OF assms(1)])
  fix r moved
  assume "orMoved P r moved"
  then show "yields D K (g r) (\<lambda>s moved'. orMoved Q s (moved \<or> moved'))"
    using assms(2,3) by (cases r) (auto intro!: yields_ret)
qed

lemma yields_gaveUp: "yields D K (bnd (inTypes (Incomplete msg)) (\<lambda>_. ret None)) (orMoved P)"
  by (rule yields_bnd [OF yields_Incomplete], rule yields_ret) simp

lemma canonicalItems_yields:
  assumes "\<And>w. yields D K (convert w) (orMoved (P w))"
  shows "yields D K (canonicalItems convert done ws) (orMoved (\<lambda>ts. \<exists>zs. ts = done @ zs \<and> list_all2 P ws zs))"
proof (induction ws arbitrary: "done")
  case Nil
  then show ?case by (auto intro!: yields_ret)
next
  case (Cons w ws)
  show ?case unfolding canonicalItems.simps
    by (rule yields_bnd_option [OF assms]) (auto simp: list_all2_Cons1 orMoved_def split: option.splits intro!: yields_weaken [OF Cons.IH])
qed

text \<open>The depth a conversion needs: that of the union or list, and two more for a list of a built-in type.\<close>

definition located :: "valueData \<Rightarrow> TypeSemantics \<Rightarrow> bool" where
  "located D s \<longleftrightarrow>
     (\<forall>u. semUnion s = Some u \<longrightarrow> (\<exists>t. means (vdSchema D) u t) \<and> sForm (simpleOf (vdSchema D) u) = SimpleUnion) \<and>
     (\<forall>l. semList s = Some l \<longrightarrow> (\<exists>t. means (vdSchema D) l t) \<and> sForm (simpleOf (vdSchema D) l) = SimpleList) \<and>
     (semUnion s = None \<longrightarrow> semList s = None \<longrightarrow> builtinSemanticsValue (Builtin s) \<noteq> None)"

definition depthOf :: "valueData \<Rightarrow> TypeSemantics \<Rightarrow> nat" where
  "depthOf D s = (case semUnion s of Some u \<Rightarrow> Suc (height (needRel (vdSchema D)) u)
     | None \<Rightarrow> (case semList s of Some l \<Rightarrow> Suc (height (needRel (vdSchema D)) l)
         | None \<Rightarrow> if BuiltinListItem (Builtin s) \<noteq> [] then 1 else 0))"

lemma builtin_item:
  assumes "BuiltinListItem name \<noteq> []"
  shows "builtinSemanticsValue (BuiltinListItem name) \<noteq> None" "BuiltinListItem (BuiltinListItem name) = []"
  using assms by (auto simp: BuiltinListItem_def builtinSemanticsValue_def split: if_splits)

lemma located_member:
  assumes "memberMeans (vdSchema D) m b"
  shows "located D b"
proof (cases "memberTarget (vdSchema D) m")
  case None
  then show ?thesis using semantics_target(2) [OF assms] member_known [OF assms None] by (auto simp: located_def)
next
  case (Some i)
  then have i: "means (vdSchema D) i b" using assms by (simp add: memberMeans_iff)
  have leaf: "builtinSemanticsValue (Builtin b) \<noteq> None" if "semUnion b = None" "semList b = None"
    using semantics_target(1) [OF i] that by (auto simp: memberBuiltin_def builtinSemantics_def split: if_splits)
  with semantics_target(1) [OF i] means_below [OF i] show ?thesis by (auto simp: located_def)
qed

lemma depth_member:
  assumes "means (vdSchema D) u t" "Some m \<in> needs (vdSchema D) u" "memberMeans (vdSchema D) m b"
  shows "depthOf D b \<le> height (needRel (vdSchema D)) u"
proof -
  have pos: "0 < height (needRel (vdSchema D)) u" by (rule height_pos [OF meaning_deep [OF assms(1)]])
  show ?thesis
  proof (cases "memberTarget (vdSchema D) m")
    case None
    then show ?thesis using semantics_target(2) [OF assms(3)] pos by (simp add: depthOf_def)
  next
    case (Some k)
    then have uk: "(u, k) \<in> (needRel (vdSchema D))\<^sup>+" using member_below [OF assms(2)] by simp
    have "height (needRel (vdSchema D)) v < height (needRel (vdSchema D)) u" if "(k, v) \<in> (needRel (vdSchema D))\<^sup>*" for v
      using height_below [OF assms(1) trancl_rtrancl_trancl [OF uk that]] .
    then show ?thesis using semantics_target(2) [OF assms(3)] Some pos
      by (auto simp: depthOf_def Suc_le_eq split: option.split)
  qed
qed

section \<open>The conversion\<close>

definition canonicalSound :: "valueData \<Rightarrow> (TypeSemantics option \<Rightarrow> string \<Rightarrow> string option vact) \<Rightarrow> TypeSemantics \<Rightarrow> bool" where
  "canonicalSound D convert b \<longleftrightarrow> (\<forall>lit. yields D {} (convert (Some b) lit) (orMoved (canonicalText D b lit)))"

definition firstCanonical :: "valueData \<Rightarrow> string \<Rightarrow> SimpleMember option list \<Rightarrow> string \<Rightarrow> bool" where
  "firstCanonical D v ms t \<longleftrightarrow> (\<exists>pre m post a b. ms = pre @ Some m # post \<and> (\<forall>m' \<in> set pre. \<exists>n. m' = Some n \<and> uRejects D n v) \<and>
     uAdmits D m v a \<and> memberMeans (vdSchema D) m b \<and> canonicalText D b v t)"

lemma firstCanonical_later:
  assumes "firstCanonical D v ms t" "uRejects D n v"
  shows "firstCanonical D v (Some n # ms) t"
proof -
  from assms(1) obtain pre m post a b where "ms = pre @ Some m # post" "\<forall>m' \<in> set pre. \<exists>n. m' = Some n \<and> uRejects D n v"
    "uAdmits D m v a" "memberMeans (vdSchema D) m b" "canonicalText D b v t" unfolding firstCanonical_def by blast
  with assms(2) show ?thesis unfolding firstCanonical_def
    by (intro exI [of _ "Some n # pre"] exI [of _ m] exI [of _ post] exI [of _ a] exI [of _ b]) simp
qed

lemma canonicalMember_yields:
  assumes "\<forall>m \<in> set ms. \<exists>n b. m = Some n \<and> Some n \<in> needs (vdSchema D) u \<and> memberMeans (vdSchema D) n b \<and> canonicalSound D convert b"
  shows "yields D {} (canonicalMember D (AssessSimpleValue (valueDepth (vdSchema D)) D) (\<lambda>b. convert b v) v ms) (orMoved (firstCanonical D v ms))"
  using assms
proof (induction ms)
  case Nil
  show ?case unfolding canonicalMember.simps by (rule yields_gaveUp)
next
  case (Cons m ms)
  then obtain n b where m: "m = Some n" "Some n \<in> needs (vdSchema D) u" "memberMeans (vdSchema D) n b" "canonicalSound D convert b" by auto
  have IH: "yields D {} (canonicalMember D (AssessSimpleValue (valueDepth (vdSchema D)) D) (\<lambda>b. convert b v) v ms) (orMoved (firstCanonical D v ms))"
    using Cons by simp
  show ?case unfolding canonicalMember.simps m(1)
  proof (rule yields_member [OF m(3)], rule yields_bnd [OF union_member_yields [OF AssessSimpleValue_below m(2,3)]])
    fix r moved
    assume r: "verdict (ready D u) (uAdmits D n v) (uRejects D n v) r moved"
    show "yields D {} (case r of Inr _ \<Rightarrow> convert (Some b) v
        | Inl f \<Rightarrow> if TechnicalFailure f then ret None
          else canonicalMember D (AssessSimpleValue (valueDepth (vdSchema D)) D) (\<lambda>b. convert b v) v ms)
      (\<lambda>s moved'. orMoved (firstCanonical D v (Some n # ms)) s (moved \<or> moved'))"
    proof (cases r)
      case (Inr a)
      then have a: "\<not> moved" "uAdmits D n v a" using r by (simp_all add: verdict_def)
      have first: "firstCanonical D v (Some n # ms) t" if "canonicalText D b v t" for t
        unfolding firstCanonical_def
        by (intro exI [of _ "[]"] exI [of _ n] exI [of _ ms] exI [of _ a] exI [of _ b]) (use a m(3) that in simp)
      have "yields D {} (convert (Some b) v) (orMoved (canonicalText D b v))" using m(4) by (simp add: canonicalSound_def)
      then show ?thesis unfolding Inr sum.case
        by (rule yields_weaken) (use a(1) first in \<open>auto simp: orMoved_def split: option.splits\<close>)
    next
      case (Inl f)
      show ?thesis
      proof (cases "TechnicalFailure f")
        case False
        then have "\<not> moved" "uRejects D n v" using r Inl by (auto simp: verdict_def)
        with IH False show ?thesis unfolding Inl
          by (auto simp: orMoved_def split: option.splits elim!: yields_weaken intro: firstCanonical_later)
      qed (use r Inl in \<open>auto simp: verdict_def intro!: yields_ret\<close>)
    qed
  qed
qed

lemma list_semantics:
  assumes "located D s" "semList s = Some l"
  obtains t m b where "means (vdSchema D) l t" "sItem (simpleOf (vdSchema D) l) = Some m" "memberMeans (vdSchema D) m b" "Some m \<in> needs (vdSchema D) l"
proof -
  from assms obtain t where t: "means (vdSchema D) l t" "sForm (simpleOf (vdSchema D) l) = SimpleList" by (auto simp: located_def)
  obtain m b where "sItem (simpleOf (vdSchema D) l) = Some m" "memberMeans (vdSchema D) m b" "Some m \<in> needs (vdSchema D) l"
    by (rule list_item [OF t])
  with t(1) show thesis by (rule that)
qed

lemma CanonicalSimpleLiteral_yields:
  "located D s \<Longrightarrow> depthOf D s < n \<Longrightarrow>
   canonicalSound D (CanonicalSimpleLiteral n D (AssessSimpleValue (valueDepth (vdSchema D)) D)) s"
proof (induction n arbitrary: s)
  case (Suc n)
  let ?S = "vdSchema D" and ?assess = "AssessSimpleValue (valueDepth (vdSchema D)) D"
  let ?convert = "CanonicalSimpleLiteral n D ?assess"
  have normal: "SimpleSemantics_normalize (SimpleSemantics.truncate s) lit = normal s lit" for lit by (simp add: normal_def)
  have below: "canonicalSound D ?convert b" if "means ?S u t" "Some m \<in> needs ?S u" "memberMeans ?S m b" "depthOf D s = Suc (height (needRel ?S) u)"
    for u t m b using Suc.IH [OF located_member [OF that(3)]] depth_member [OF that(1-3)] that(4) Suc.prems(2) by simp
  have "yields D {} (CanonicalSimpleLiteral (Suc n) D ?assess (Some s) lit) (orMoved (canonicalText D s lit))" for lit
  proof (cases "semUnion s")
    case (Some u)
    then obtain t where u: "means ?S u t" "sForm (simpleOf ?S u) = SimpleUnion" using Suc.prems(1) by (auto simp: located_def)
    have d: "depthOf D s = Suc (height (needRel ?S) u)" using Some by (simp add: depthOf_def)
    have "\<forall>m \<in> set (sMembers (simpleOf ?S u)). \<exists>n b. m = Some n \<and> Some n \<in> needs ?S u \<and> memberMeans ?S n b \<and> canonicalSound D ?convert b"
    proof
      fix m
      assume m: "m \<in> set (sMembers (simpleOf ?S u))"
      then have need: "m \<in> needs ?S u" using u(2) by (simp add: needs_def)
      from means_needs [OF u(1) need] obtain n' b where nb: "m = Some n'" "memberMeans ?S n' b" by blast
      with below [OF u(1) _ nb(2) d] need show "\<exists>n b. m = Some n \<and> Some n \<in> needs ?S u \<and> memberMeans ?S n b \<and> canonicalSound D ?convert b" by auto
    qed
    then have "yields D {} (canonicalMember D ?assess (\<lambda>b. ?convert b (normal s lit)) (normal s lit) (sMembers (simpleOf ?S u)))
        (orMoved (firstCanonical D (normal s lit) (sMembers (simpleOf ?S u))))" by (rule canonicalMember_yields)
    moreover have "canonicalText D s lit t" if "firstCanonical D (normal s lit) (sMembers (simpleOf ?S u)) t" for t
      using that Some unfolding firstCanonical_def by (elim exE conjE) (rule ct_union)
    ultimately show ?thesis using Some
      by (auto simp: normal Let_def orMoved_def split: option.splits elim!: yields_weaken)
  next
    case None
    show ?thesis
    proof (cases "semList s \<noteq> None \<or> BuiltinListItem (Builtin s) \<noteq> []")
      case True
      let ?item = "case semList s of Some l \<Rightarrow> memberSemantics D (sItem (simpleOf ?S l)) | None \<Rightarrow> ret (builtinSemantics (BuiltinListItem (Builtin s)))"
      have "\<exists>b. itemOf D s b \<and> canonicalSound D ?convert b \<and> (\<forall>(f :: TypeSemantics option \<Rightarrow> string option vact) Q. yields D {} (f (Some b)) Q \<longrightarrow> yields D {} (bnd ?item f) Q)"
        if list: "semList s = Some l" for l
      proof -
        obtain t m b where l: "means ?S l t" "sItem (simpleOf ?S l) = Some m" "memberMeans ?S m b" "Some m \<in> needs ?S l"
          by (rule list_semantics [OF Suc.prems(1) list])
        have "depthOf D s = Suc (height (needRel ?S) l)" using None list by (simp add: depthOf_def)
        from below [OF l(1,4,3) this] l list show ?thesis by (intro exI [of _ b]) (auto simp: itemOf_def yields_member)
      qed
      moreover have "\<exists>b. itemOf D s b \<and> canonicalSound D ?convert b \<and> (\<forall>(f :: TypeSemantics option \<Rightarrow> string option vact) Q. yields D {} (f (Some b)) Q \<longrightarrow> yields D {} (bnd ?item f) Q)"
        if none: "semList s = None"
      proof -
        have k: "BuiltinListItem (Builtin s) \<noteq> []" using True none by simp
        note item = builtin_item [OF k]
        obtain b where b: "builtinSemantics (BuiltinListItem (Builtin s)) = Some b" "Builtin b = BuiltinListItem (Builtin s)" "semUnion b = None" "semList b = None"
          using item(1) builtin_semantics(1) by (auto simp: builtinSemantics_def SimpleSemantics.extend_def)
        have "located D b" "depthOf D b = 0" using b item by (simp_all add: located_def depthOf_def)
        moreover have "depthOf D s = 1" using None none k by (simp add: depthOf_def)
        ultimately have "canonicalSound D ?convert b" using Suc.IH [of b] Suc.prems(2) by simp
        with b none k show ?thesis by (intro exI [of _ b]) (auto simp: itemOf_def)
      qed
      ultimately obtain b where b: "itemOf D s b" "canonicalSound D ?convert b" "\<And>(f :: TypeSemantics option \<Rightarrow> string option vact) Q. yields D {} (f (Some b)) Q \<Longrightarrow> yields D {} (bnd ?item f) Q"
        by (cases "semList s") blast+
      have "yields D {} (bnd ?item (\<lambda>item. bnd (canonicalItems (?convert item) [] (splitList (normal s lit))) (\<lambda>words. ret (map_option (join_on '' '') words))))
          (orMoved (canonicalText D s lit))"
      proof (rule b(3), rule yields_bnd_option [where P = "list_all2 (canonicalText D b) (splitList (normal s lit))"])
        show "yields D {} (canonicalItems (?convert (Some b)) [] (splitList (normal s lit))) (orMoved (list_all2 (canonicalText D b) (splitList (normal s lit))))"
          using canonicalItems_yields [of D "{}" "?convert (Some b)" "canonicalText D b" "[]"] b(2) by (simp add: canonicalSound_def)
        show "yields D {} (ret (map_option (join_on '' '') (Some ws))) (orMoved (canonicalText D s lit))"
          if "list_all2 (canonicalText D b) (splitList (normal s lit)) ws" for ws
          using ct_list [OF None b(1) that] by (auto intro!: yields_ret)
      qed simp
      with None True show ?thesis by (simp add: normal Let_def)
    next
      case False
      then have k: "builtinSemanticsValue (Builtin s) \<noteq> None" using Suc.prems(1) None by (simp add: located_def)
      have "yields D {} (bnd (AssessBuiltinValue D (Builtin s) (normal s lit) (normal s lit)) (\<lambda>r. case r of
          Inl f \<Rightarrow> bnd (if TechnicalFailure f then ret ()
              else inTypes (Incomplete (Plain ''constraint literal is invalid for its declared type''))) (\<lambda>_. ret None)
        | Inr _ \<Rightarrow>
            (case canonicalBuiltin (Builtin s) (normal s lit) of
               None \<Rightarrow> bnd (inTypes (Incomplete (Formatted ''canonical constraint literal assessment is unavailable for xs:%s'' [FmtText (Builtin s)])))
                 (\<lambda>_. ret None)
             | Some t \<Rightarrow> ret (Some t)))) (orMoved (canonicalText D s lit))"
      proof (rule yields_bnd [OF AssessBuiltinValue_yields [OF k]])
        fix r moved
        assume r: "verdict (\<not> entityBuiltin (Builtin s)) (builtinAdmits (vdLibrary D) (Builtin s) (normal s lit)) (builtinRejects (vdLibrary D) (Builtin s) (normal s lit)) r moved"
        have atom: "canonicalText D s lit t" if "r = Inr a" "canonicalBuiltin (Builtin s) (normal s lit) = Some t" for a t
          using ct_atom [OF None _ _ _ that(2)] r that(1) False by (auto simp: verdict_def)
        show "yields D {} (case r of
          Inl f \<Rightarrow> bnd (if TechnicalFailure f then ret ()
              else inTypes (Incomplete (Plain ''constraint literal is invalid for its declared type''))) (\<lambda>_. ret None)
        | Inr _ \<Rightarrow>
            (case canonicalBuiltin (Builtin s) (normal s lit) of
               None \<Rightarrow> bnd (inTypes (Incomplete (Formatted ''canonical constraint literal assessment is unavailable for xs:%s'' [FmtText (Builtin s)])))
                 (\<lambda>_. ret None)
             | Some t \<Rightarrow> ret (Some t))) (\<lambda>s' moved'. orMoved (canonicalText D s lit) s' (moved \<or> moved'))"
          using r atom
          by (cases r; cases "canonicalBuiltin (Builtin s) (normal s lit)")
            (auto simp: verdict_def intro!: yields_ret yields_bnd [OF yields_Incomplete])
      qed
      with None False show ?thesis by (simp add: normal Let_def)
    qed
  qed
  then show ?case by (simp add: canonicalSound_def)
qed simp

lemma located_reference:
  assumes "refMeans D reference s"
  shows "located D s" "depthOf D s \<le> Suc (length (simples (vdSchema D)))"
proof -
  obtain simple builtin where t: "simpleTarget (vdSchema D) reference = Some (simple, builtin)"
    using assms by (auto simp: refMeans_def split: option.splits)
  show located: "located D s"
  proof (cases simple)
    case None
    then have b: "builtinSemantics builtin = Some s" using assms t by (simp add: refMeans_def)
    then have "semUnion s = None" "semList s = None" "Builtin s = builtin"
      using builtin_semantics(1) by (auto simp: builtinSemantics_def SimpleSemantics.extend_def)
    with b show ?thesis by (auto simp: located_def builtinSemantics_def)
  next
    case (Some i)
    then have i: "means (vdSchema D) i s" using assms t by (simp add: refMeans_def)
    have leaf: "builtinSemanticsValue (Builtin s) \<noteq> None" if "semUnion s = None" "semList s = None"
      using semantics_target(1) [OF i] that by (auto simp: memberBuiltin_def builtinSemantics_def split: if_splits)
    with semantics_target(1) [OF i] means_below [OF i] show ?thesis by (auto simp: located_def)
  qed
  have "height (needRel (vdSchema D)) u \<le> length (simples (vdSchema D))" if "means (vdSchema D) u t" for u t
    by (rule height_le [OF meaning_deep [OF that]])
  with located show "depthOf D s \<le> Suc (length (simples (vdSchema D)))"
    by (auto simp: depthOf_def located_def split: option.split)
qed

section \<open>Value constraints by reference\<close>

definition canonicalFor :: "valueData \<Rightarrow> TypeRef option \<Rightarrow> string \<Rightarrow> string \<Rightarrow> bool" where
  "canonicalFor D reference lit t \<longleftrightarrow> (\<exists>s. refMeans D reference s \<and> canonicalText D s lit t)"

definition literalOf :: "valueData \<Rightarrow> TypeRef option \<Rightarrow> string \<Rightarrow> SimpleAssessment \<Rightarrow> bool" where
  "literalOf D reference lit a \<longleftrightarrow> (\<exists>s. refMeans D reference s \<and> denotes D s lit a)"

text \<open>Whether a text agrees with a fixed value: other types are compared as they are spelled.\<close>

definition fixedAgree :: "valueData \<Rightarrow> TypeRef option \<Rightarrow> string \<Rightarrow> string \<Rightarrow> bool" where
  "fixedAgree D reference left right \<longleftrightarrow>
     (\<exists>s. refMeans D reference s \<and> (if byValue s then sameValue D s left right else textsAgree id s left right))"

lemma fixedTexts_iff: "fixedTexts s left right \<longleftrightarrow> textsAgree id s left right"
  by (simp add: fixedTexts_def textsAgree_def numbers_agree normal_def strCompare_eq_0)

lemma canonicalLiteral_yields: "yields D {} (canonicalLiteral D reference lit) (orMoved (canonicalFor D reference lit))"
  unfolding canonicalLiteral_def
proof (rule yields_bnd [OF SimpleTypeSemantics_yields])
  fix r moved
  assume r: "(\<forall>s. r = Some s \<longleftrightarrow> refMeans D reference s) \<and> (moved \<longleftrightarrow> r = None)"
  show "yields D {} (CanonicalSimpleLiteral (Suc (valueDepth (vdSchema D))) D (AssessSimpleValue (valueDepth (vdSchema D)) D) r lit)
      (\<lambda>s moved'. orMoved (canonicalFor D reference lit) s (moved \<or> moved'))"
  proof (cases r)
    case None
    then show ?thesis using r by (simp) (rule yields_bnd [OF yields_Incomplete], rule yields_ret, simp)
  next
    case (Some s)
    then have s: "refMeans D reference s" "\<not> moved" using r by auto
    have "depthOf D s < Suc (valueDepth (vdSchema D))" using located_reference(2) [OF s(1)] by (simp add: valueDepth_def)
    from CanonicalSimpleLiteral_yields [OF located_reference(1) [OF s(1)] this] show ?thesis
      unfolding Some canonicalSound_def using s
      by (auto simp: orMoved_def canonicalFor_def split: option.splits elim!: allE [of _ lit] yields_weaken simp del: CanonicalSimpleLiteral.simps)
  qed
qed

lemma fixedScalarsEqual_yields:
  "yields D {} (fixedScalarsEqual D reference left right)
    (\<lambda>r moved. if moved then \<not> r \<and> \<not> refReady D reference else r \<longleftrightarrow> fixedAgree D reference left right)"
  unfolding fixedScalarsEqual_def fixedAgree_def fixedTexts_iff by (rule comparison_yields)

lemma scalarLiteral_yields:
  "yields D {} (scalarLiteral D reference lit) (\<lambda>r moved. \<not> moved \<longrightarrow> (\<forall>a. r = Some a \<longrightarrow> literalOf D reference lit a))"
  unfolding scalarLiteral_def
proof (rule yields_bnd [OF SimpleTypeSemantics_yields])
  fix r moved
  assume r: "(\<forall>s. r = Some s \<longleftrightarrow> refMeans D reference s) \<and> (moved \<longleftrightarrow> r = None)"
  show "yields D {} (literalValue D r lit) (\<lambda>s moved'. \<not> (moved \<or> moved') \<longrightarrow> (\<forall>a. s = Some a \<longrightarrow> literalOf D reference lit a))"
  proof (cases r)
    case None
    then show ?thesis using r unfolding literalValue_def valueDepth_def
      by simp (rule yields_bnd [OF yields_Incomplete], rule yields_ret, simp)
  next
    case (Some s)
    then have s: "refMeans D reference s" using r by simp
    show ?thesis unfolding Some
      by (rule yields_weaken [OF literalValue_yields [OF s]])
        (use s in \<open>auto simp: literalVerdict_def literalOf_def\<close>)
  qed
qed

end
