(* ===== verification/Xsd_Walk.thy ===== *)
theory Xsd_Walk
  imports Xsd_Constraints Xsd_Search Xsd_Composition
begin

text \<open>
  Triples for the walk over a document. The context of a walk fits the schema: its caches are right and its heaps
  have grown from those of the schema. Every operation of the walk returns in such a context, only adds issues and
  never lowers the assessment epoch; what it shows of the document holds when it was clean, that is when no issue was
  added and the epoch stood still.
\<close>

section \<open>Schemas and contexts\<close>

text \<open>
  The schemas covered: well-formed definitions, no all group (the grown heap would nest it in a sequence), and no
  restriction of simple content by facets of its own (which allocates simple types during the walk).
\<close>

definition plainParticles :: "ParticleSchema list \<Rightarrow> bool" where
  "plainParticles h \<longleftrightarrow> (\<forall>q \<in> set h. pKind q \<noteq> ParticleAll)"

definition layerFree :: "contentData \<Rightarrow> bool" where
  "layerFree C \<longleftrightarrow> (\<forall>j. cForm (complexOf (cdSchema C) j) = ComplexSimpleContentRestriction \<longrightarrow> ccSimpleContent (contentOf C j) = None)"

definition documentOK :: "documentData \<Rightarrow> ParticleSchema list \<Rightarrow> bool" where
  "documentOK K P \<longleftrightarrow> definitionsOK (ddContent K) \<and> particlesIn (ddContent K) P \<and> plainParticles P \<and> layerFree (ddContent K)"

definition dataOf :: "documentData \<Rightarrow> valueData" where
  "dataOf K = \<lparr> vdSchema = schemaOf K, vdLibrary = (ddLibrary K)\<lparr>libUri := cdUri (ddContent K)\<rparr> \<rparr>"

definition fit :: "documentData \<Rightarrow> ParticleSchema list \<Rightarrow> Context \<Rightarrow> bool" where
  "fit K P c \<longleftrightarrow> (\<exists>es. good (dataOf K) es c) \<and> contextOK (schemaOf K) (icTypes (dcIdentity c)) \<and>
     effectsOK (ddContent K) P {} (dcContent c) \<and> xSimples (dcContent c) = simples (schemaOf K) \<and>
     plainParticles (xParticles (dcContent c)) \<and> cacheOK (modelAt K (xParticles (dcContent c)) []) (dcNullable c)"

lemma valuesAt_fit: "xSimples x = simples (schemaOf K) \<Longrightarrow> valuesAt K x = dataOf K"
  by (simp add: valuesAt_def dataOf_def)

lemma dataOf_sel [simp]: "vdSchema (dataOf K) = schemaOf K" "vdLibrary (dataOf K) = (ddLibrary K)\<lparr>libUri := cdUri (ddContent K)\<rparr>"
  by (simp_all add: dataOf_def)

section \<open>Triples\<close>

definition clean :: "Context \<Rightarrow> Context \<Rightarrow> bool" where
  "clean c c' \<longleftrightarrow> issuesOf c' = issuesOf c \<and> epoch c' = epoch c"

definition follows_on :: "Context \<Rightarrow> Context \<Rightarrow> bool" where
  "follows_on c c' \<longleftrightarrow> grownFrom (dcContent c) (dcContent c') \<and> epoch c \<le> epoch c' \<and> (\<exists>new. issuesOf c' = issuesOf c @ new)"

text \<open>
  From a fitting context in epoch \<open>e\<close> whose heaps contain those of \<open>x\<close>: the operation returns in a fitting context, and
  \<open>Q\<close> relates the result, whether the operation was clean, and the heaps at its end.
\<close>

definition holds :: "documentData \<Rightarrow> ParticleSchema list \<Rightarrow> EffectiveContext \<Rightarrow> nat \<Rightarrow> 'a dact \<Rightarrow> ('a \<Rightarrow> bool \<Rightarrow> EffectiveContext \<Rightarrow> bool) \<Rightarrow> bool" where
  "holds K P x e act Q \<longleftrightarrow> (\<forall>c. fit K P c \<and> grownFrom x (dcContent c) \<and> epoch c = e \<longrightarrow>
     (\<exists>r c'. act c = Some (r, c') \<and> fit K P c' \<and> follows_on c c' \<and> Q r (clean c c') (dcContent c')))"

lemma holdsD:
  assumes "holds K P x e act Q" "fit K P c" "grownFrom x (dcContent c)" "epoch c = e"
  obtains r c' where "act c = Some (r, c')" "fit K P c'" "follows_on c c'" "Q r (clean c c') (dcContent c')"
  using assms unfolding holds_def by blast

lemma follows_on_refl: "follows_on c c"
  by (simp add: follows_on_def)

lemma follows_on_trans: "follows_on c c1 \<Longrightarrow> follows_on c1 c2 \<Longrightarrow> follows_on c c2"
  by (auto simp: follows_on_def intro: grownFrom_trans)

lemma clean_trans: "follows_on c c1 \<Longrightarrow> follows_on c1 c2 \<Longrightarrow> clean c c2 \<longleftrightarrow> clean c c1 \<and> clean c1 c2"
  by (auto simp: follows_on_def clean_def)

lemma holds_ret: "(\<And>x'. grownFrom x x' \<Longrightarrow> Q r True x') \<Longrightarrow> holds K P x e (ret r) Q"
  by (auto simp: holds_def ret_def clean_def follows_on_refl)

lemma holds_weaken: "holds K P x e act R \<Longrightarrow> (\<And>r cl x'. R r cl x' \<Longrightarrow> grownFrom x x' \<Longrightarrow> Q r cl x') \<Longrightarrow> holds K P x e act Q"
  unfolding holds_def
proof (intro allI impI, elim conjE)
  fix c
  assume a: "\<forall>c. fit K P c \<and> grownFrom x (dcContent c) \<and> epoch c = e \<longrightarrow>
      (\<exists>r c'. act c = Some (r, c') \<and> fit K P c' \<and> follows_on c c' \<and> R r (clean c c') (dcContent c'))"
    and R: "\<And>r cl x'. R r cl x' \<Longrightarrow> grownFrom x x' \<Longrightarrow> Q r cl x'" and c: "fit K P c" "grownFrom x (dcContent c)" "epoch c = e"
  then obtain r c' where r: "act c = Some (r, c')" "fit K P c'" "follows_on c c'" "R r (clean c c') (dcContent c')" by blast
  have "grownFrom x (dcContent c')" using c(2) r(3) by (auto simp: follows_on_def intro: grownFrom_trans)
  with R r show "\<exists>r c'. act c = Some (r, c') \<and> fit K P c' \<and> follows_on c c' \<and> Q r (clean c c') (dcContent c')" by blast
qed

lemma holds_bnd:
  assumes "holds K P x e act R" "\<And>r cl x' e'. R r cl x' \<Longrightarrow> (cl \<Longrightarrow> e' = e) \<Longrightarrow> grownFrom x x' \<Longrightarrow>
    holds K P x' e' (f r) (\<lambda>s cl' x''. Q s (cl \<and> cl') x'')"
  shows "holds K P x e (bnd act f) Q"
  unfolding holds_def
proof (intro allI impI, elim conjE)
  fix c
  assume a: "fit K P c" "grownFrom x (dcContent c)" "epoch c = e"
  from holdsD [OF assms(1) a] obtain r c1 where 1: "act c = Some (r, c1)" "fit K P c1" "follows_on c c1" "R r (clean c c1) (dcContent c1)" .
  have "grownFrom x (dcContent c1)" using a(2) 1(3) by (auto simp: follows_on_def intro: grownFrom_trans)
  moreover have "clean c c1 \<Longrightarrow> epoch c1 = e" using a(3) by (simp add: clean_def)
  ultimately have "holds K P (dcContent c1) (epoch c1) (f r) (\<lambda>s cl' x''. Q s (clean c c1 \<and> cl') x'')" using assms(2) [OF 1(4)] by blast
  from holdsD [OF this 1(2) grownFrom_refl refl] obtain s c2 where
    2: "f r c1 = Some (s, c2)" "fit K P c2" "follows_on c1 c2" "Q s (clean c c1 \<and> clean c1 c2) (dcContent c2)" .
  then show "\<exists>s c2. bnd act f c = Some (s, c2) \<and> fit K P c2 \<and> follows_on c c2 \<and> Q s (clean c c2) (dcContent c2)"
    using 1 clean_trans [OF 1(3) 2(3)] follows_on_trans by (auto simp: bnd_def)
qed

text \<open>Sequencing when only the cleanness of the first operation matters.\<close>

lemma holds_then:
  assumes "holds K P x e act (\<lambda>_ _ _. True)" "\<And>r cl x' e'. (cl \<Longrightarrow> e' = e) \<Longrightarrow> grownFrom x x' \<Longrightarrow> holds K P x' e' (f r) (\<lambda>s cl' x''. Q s (cl \<and> cl') x'')"
  shows "holds K P x e (bnd act f) Q"
  using assms by (rule holds_bnd)

lemma holds_epoch: "holds K P x e (f e) Q \<Longrightarrow> holds K P x e (bnd (get epoch) f) Q"
  by (simp add: holds_def bnd_def get_def)

lemma holds_later: "holds K P x e act Q \<Longrightarrow> grownFrom x x' \<Longrightarrow> holds K P x' e act Q"
  unfolding holds_def using grownFrom_trans [of x x'] by blast

lemma holds_if: "(b \<Longrightarrow> holds K P x e f Q) \<Longrightarrow> (\<not> b \<Longrightarrow> holds K P x e g Q) \<Longrightarrow> holds K P x e (if b then f else g) Q"
  by simp

lemma holds_each:
  assumes "\<And>a b x' e' cl. a \<in> set as \<Longrightarrow> grownFrom x x' \<Longrightarrow> I b cl x' \<Longrightarrow> (cl \<Longrightarrow> e' = e) \<Longrightarrow> holds K P x' e' (f a b) (\<lambda>b' cl' x''. I b' (cl \<and> cl') x'' \<and> (cl' \<longrightarrow> F a))"
    and "\<And>x'. grownFrom x x' \<Longrightarrow> I b True x'" "\<And>b cl x' x''. I b cl x' \<Longrightarrow> grownFrom x' x'' \<Longrightarrow> I b cl x''"
  shows "holds K P x e (each f as b) (\<lambda>b' cl x'. I b' cl x' \<and> (cl \<longrightarrow> (\<forall>a \<in> set as. F a)))"
proof -
  have "holds K P x' e' (each f bs b) (\<lambda>b' cl' x''. I b' (cl \<and> cl') x'' \<and> (cl' \<longrightarrow> (\<forall>a \<in> set bs. F a)))"
    if "set bs \<subseteq> set as" "grownFrom x x'" "I b cl x'" "cl \<Longrightarrow> e' = e" for bs b cl x' e'
    using that
  proof (induction bs arbitrary: b cl x' e')
    case Nil
    then show ?case using assms(3) by (auto intro!: holds_ret)
  next
    case (Cons a bs)
    show ?case unfolding each.simps
    proof (rule holds_bnd [OF assms(1)])
      fix b1 cl1 x1 e1
      assume 1: "I b1 (cl \<and> cl1) x1 \<and> (cl1 \<longrightarrow> F a)" "cl1 \<Longrightarrow> e1 = e'" "grownFrom x' x1"
      have "holds K P x1 e1 (each f bs b1) (\<lambda>b' cl' x''. I b' ((cl \<and> cl1) \<and> cl') x'' \<and> (cl' \<longrightarrow> (\<forall>a \<in> set bs. F a)))"
      proof (rule Cons.IH)
        show "grownFrom x x1" using Cons.prems(2) 1(3) by (rule grownFrom_trans)
      qed (use Cons.prems 1 in simp_all)
      then show "holds K P x1 e1 (each f bs b1) (\<lambda>s cl' x''. I s (cl \<and> cl1 \<and> cl') x'' \<and> (cl1 \<and> cl' \<longrightarrow> (\<forall>a \<in> set (a # bs). F a)))"
        by (rule holds_weaken) (use 1(1) in \<open>simp add: conj_assoc\<close>)
    qed (use Cons.prems in simp_all)
  qed
  from this [of as x b True e] show ?thesis using assms(2) by simp
qed

lemma holds_all:
  assumes "\<And>a b x' e'. a \<in> set as \<Longrightarrow> grownFrom x x' \<Longrightarrow> holds K P x' e' (f a b) (\<lambda>_ cl _. cl \<longrightarrow> F a)"
  shows "holds K P x e (each f as b) (\<lambda>_ cl _. cl \<longrightarrow> (\<forall>a \<in> set as. F a))"
  by (rule holds_weaken [OF holds_each [where I = "\<lambda>_ _ _. True" and F = F]]) (use assms in simp_all)

section \<open>Operations of the other components\<close>

lemma good_contextOK:
  assumes "good (dataOf K) es c" "contextOK (schemaOf K) t" "Derivations (icTypes (dcIdentity c)) = Derivations t"
  shows "contextOK (schemaOf K) (icTypes (dcIdentity c))"
  using assms by (simp add: good_def contextOK_def Xsd_Derivation.cachesOK_def Xsd_Values.cachesOK_def valuesOf_def)

lemma holds_does:
  assumes "\<And>origin. does (dataOf K) origin e act R"
  shows "holds K P x e act (\<lambda>r cl x'. \<exists>moved new evs. R r moved new evs \<and> (cl \<longleftrightarrow> \<not> moved \<and> new = []))"
  unfolding holds_def
proof (intro allI impI, elim conjE)
  fix c
  assume a: "fit K P c" "grownFrom x (dcContent c)" "epoch c = e"
  then obtain es where g: "good (dataOf K) es c" by (auto simp: fit_def)
  from doesD [OF assms g refl a(3)] obtain r c' moved new evs where
    r: "act c = Some (r, c')" "good (dataOf K) (es @ evs) c'" "advanced moved new c c'" "R r moved new evs" .
  have same: "Derivations (icTypes (dcIdentity c')) = Derivations (icTypes (dcIdentity c))" "dcContent c' = dcContent c" "dcNullable c' = dcNullable c"
    using r(3) by (simp_all add: advanced_def)
  have "contextOK (schemaOf K) (icTypes (dcIdentity c'))"
    by (rule good_contextOK [OF r(2) _ same(1)]) (use a(1) in \<open>simp add: fit_def\<close>)
  then have "fit K P c'" using a(1) r(2) same(2,3) by (auto simp: fit_def)
  moreover have "follows_on c c'" using r(3) advanced_epoch [OF r(3)] by (auto simp: follows_on_def advanced_def)
  moreover have "clean c c' \<longleftrightarrow> \<not> moved \<and> new = []" using r(3) by (auto simp: clean_def advanced_def)
  ultimately show "\<exists>r c'. act c = Some (r, c') \<and> fit K P c' \<and> follows_on c c' \<and>
      (\<exists>moved new evs. R r moved new evs \<and> (clean c c' \<longleftrightarrow> \<not> moved \<and> new = []))"
    using r(1,4) by blast
qed

lemma holds_values:
  assumes "yields (dataOf K) {} act R"
  shows "holds K P x e (inValues act) (\<lambda>r cl x'. R r (\<not> cl))"
  by (rule holds_weaken [OF holds_does [OF does_values [OF assms]]]) auto

lemma holds_withValues:
  assumes "holds K P x e (f (dataOf K)) Q"
  shows "holds K P x e (withValues K f) Q"
  using assms by (auto simp: holds_def withValues_def bnd_def get_def fit_def valuesAt_fit)

lemma holds_incomplete: "holds K P x e (incomplete msg) (\<lambda>_ cl _. \<not> cl)"
  unfolding incomplete_def by (rule holds_weaken [OF holds_values [OF yields_Incomplete]])

lemma holds_anyIssue: "holds K P x e (addIssue path k msg) (\<lambda>_ _ _. True)"
proof (cases "plainConstraint k")
  case True
  show ?thesis by (rule holds_weaken [OF holds_does [OF does_issue [OF True]]]) simp
next
  case False
  show ?thesis by (rule holds_weaken [OF holds_does [OF does_technical [OF False]]]) simp
qed

lemma bnd_get_const: "bnd (get g) (\<lambda>_. act) = act"
  by (simp add: bnd_def get_def fun_eq_iff)

lemma holds_issue:
  assumes "plainConstraint k \<or> k = ''schema''"
  shows "holds K P x e (addIssue path k msg) (\<lambda>_ cl _. \<not> cl)"
proof (cases "plainConstraint k")
  case True
  show ?thesis by (rule holds_weaken [OF holds_does [OF does_issue [OF True]]]) auto
next
  case False
  then have "k = ''schema''" using assms by simp
  then have "addIssue path k msg = inValues (inTypes (Incomplete (AtPath path msg)))"
    by (simp add: addIssue_def AddIssue_def bnd_get_const)
  then show ?thesis by (simp add: holds_weaken [OF holds_values [OF yields_Incomplete]])
qed

text \<open>Operations on the identity tables of a sound type, and the mark of a skipped part.\<close>

lemma holds_tables:
  assumes "\<And>i. act i = Some ((), i\<lparr>icIncomplete := b i\<rparr>)"
  shows "holds K P x e (inIdentity act) (\<lambda>_ cl _. cl)"
  using assms by (auto simp: holds_def inIdentity_def fit_def good_def valuesOf_def tables_def follows_on_def clean_def issuesOf_def epoch_def)

lemma holds_identityIncomplete: "holds K P x e identityIncomplete (\<lambda>_ cl _. cl)"
  unfolding identityIncomplete_def by (rule holds_tables [where b = "\<lambda>_. True"]) (simp add: upd_def)

lemma holds_skip: "holds K P x e (inIdentity (SkipIdentityChildren children)) (\<lambda>_ cl _. cl)"
  by (rule holds_tables [where b = "\<lambda>i. icIncomplete i \<or> children \<noteq> []"]) (auto simp: SkipIdentityChildren_def upd_def ret_def)

lemma holds_element_identity:
  assumes "soundRef (schemaOf K) decl" "soundRef (schemaOf K) actual"
  shows "holds K P x e (inIdentity (RecordElementIdentity (schemaOf K) unconstructed decl actual t path owner ok)) (\<lambda>_ cl _. cl)"
proof -
  have inner: "inIdentity (RecordElementIdentity (schemaOf K) unconstructed decl actual t path owner ok) =
      bnd (if ok then inIdentity (RecordIdentity (schemaOf K) unconstructed decl t path) else ret ())
        (\<lambda>_. inIdentity (RecordIdentityBinding (schemaOf K) unconstructed actual t path owner))"
    by (auto simp: RecordElementIdentity_def inIdentity_def bnd_def ret_def split: option.splits)
  have unbound: "RecordIdentityBinding (schemaOf K) unconstructed actual t path None = ret ()"
    by (simp add: RecordIdentityBinding_def noteConstructedIdentity_def unconstructed_def)
  have "holds K P x' e' (inIdentity (RecordIdentityBinding (schemaOf K) unconstructed actual t path owner)) (\<lambda>_ cl _. cl)" for x' e'
  proof (cases owner)
    case None
    show ?thesis unfolding None unbound by (rule holds_tables [where b = icIncomplete]) (simp add: ret_def)
  next
    case (Some n)
    have "does (dataOf K) origin e' (inIdentity (RecordIdentityBinding (schemaOf K) unconstructed actual t path (Some n)))
        (\<lambda>_ moved issues _. \<not> moved \<and> issues = [])" for origin
      using does_bind [of "dataOf K" actual origin e' t path n] assms(2) by (auto elim: does_weaken)
    from holds_does [OF this] show ?thesis unfolding Some by (rule holds_weaken) auto
  qed
  moreover have "holds K P x e (if ok then inIdentity (RecordIdentity (schemaOf K) unconstructed decl t path) else ret ()) (\<lambda>_ cl _. cl)"
  proof (cases ok)
    case True
    have "does (dataOf K) origin e (inIdentity (RecordIdentity (schemaOf K) unconstructed decl t path))
        (\<lambda>_ moved issues _. \<not> moved \<and> issues = [])" for origin
      using does_record [of "dataOf K" decl origin e t path] assms(1) by (auto elim: does_weaken)
    from holds_does [OF this] show ?thesis unfolding if_P [OF True] by (rule holds_weaken) auto
  qed (auto intro!: holds_ret)
  ultimately show ?thesis unfolding inner by (auto intro: holds_bnd)
qed

section \<open>Effective types\<close>

text \<open>The composition keeps the simple types and the particles plain when no layer has to be allocated.\<close>

definition keepsHeaps :: "SimpleSchema list \<Rightarrow> 'a eact \<Rightarrow> bool" where
  "keepsHeaps S act \<longleftrightarrow> (\<forall>x r x'. xSimples x = S \<and> plainParticles (xParticles x) \<and> act x = Some (r, x') \<longrightarrow>
     xSimples x' = S \<and> plainParticles (xParticles x'))"

lemma keeps_ret: "keepsHeaps S (ret r)"
  by (simp add: keepsHeaps_def ret_def)

lemma keeps_panic: "keepsHeaps S panic"
  by (simp add: keepsHeaps_def panic_def)

lemma keeps_bnd: "keepsHeaps S act \<Longrightarrow> (\<And>r. keepsHeaps S (f r)) \<Longrightarrow> keepsHeaps S (bnd act f)"
proof -
  assume a: "keepsHeaps S act" "\<And>r. keepsHeaps S (f r)"
  show ?thesis unfolding keepsHeaps_def
  proof (intro allI impI, elim conjE)
    fix x r x'
    assume x: "xSimples x = S" "plainParticles (xParticles x)" "bnd act f x = Some (r, x')"
    then obtain q x1 where q: "act x = Some (q, x1)" "f q x1 = Some (r, x')" by (auto simp: bnd_def split: option.splits)
    have "xSimples x1 = S \<and> plainParticles (xParticles x1)" using a(1) x(1,2) q(1) unfolding keepsHeaps_def by blast
    then show "xSimples x' = S \<and> plainParticles (xParticles x')" using a(2) [of q] q(2) unfolding keepsHeaps_def by blast
  qed
qed

lemma keeps_read: "keepsHeaps S (get g)"
  by (simp add: keepsHeaps_def get_def)

lemma keeps_cache: "keepsHeaps S (upd (xEffective_update f))"
  by (simp add: keepsHeaps_def upd_def)

lemma keeps_particle: "pKind q \<noteq> ParticleAll \<Longrightarrow> keepsHeaps S (upd (xParticles_update (\<lambda>h. h @ [q])))"
  by (simp add: keepsHeaps_def upd_def plainParticles_def)

lemmas keeps_rules = keeps_ret keeps_panic keeps_read keeps_cache keeps_particle keeps_bnd

lemma keeps_sequence: "keepsHeaps S (sequence l r)"
  by (auto simp: sequence_def newParticle_def sequenceParticle_def split: option.split intro!: keeps_rules)

lemma effectiveBody_keeps:
  assumes "layerFree C" "\<And>k. keepsHeaps S (f k)"
  shows "keepsHeaps S (effectiveBody C f j)"
proof -
  have "finishScalar C (complexOf (cdSchema C) j) (contentOf C j) e = ret (Some e)" for e
    using assms(1) by (auto simp: finishScalar_def layerFree_def split: ComplexForm.split option.split)
  then show ?thesis using assms(2)
    by (auto simp: effectiveBody_def Let_def simpleContent_def simpleContentBase_def complexExtension_def complexRestriction_def
        split: ComplexForm.split option.split prod.split bool.split intro!: keeps_rules keeps_sequence)
qed

lemma EffectiveComplex_keeps: "layerFree C \<Longrightarrow> keepsHeaps S (EffectiveComplex_of n C j)"
proof (induction n arbitrary: j)
  case (Suc n)
  then show ?case by (auto split: option.split intro!: keeps_rules effectiveBody_keeps)
qed (simp add: keeps_panic)

text \<open>Well-formed particles and the nullability cache do not see what is appended to a heap without all groups.\<close>

lemma at_grown: "particleAt (modelAt K h ns) p = Some q \<Longrightarrow> particleAt (modelAt K (h @ z) ns') p = Some q"
  by (auto simp: particleAt_def modelAt_def nth_append split: if_splits)

lemma plain_at: "plainParticles h \<Longrightarrow> particleAt (modelAt K h ns) p = Some q \<Longrightarrow> pKind q \<noteq> ParticleAll"
  by (auto simp: particleAt_def modelAt_def plainParticles_def split: if_splits)

lemma ResolveElement_model: "ResolveElement (modelAt K h ns) = ResolveElement (modelAt K h' ns')"
  by (auto simp: ResolveElement_def modelAt_def fun_eq_iff split: option.split)

lemma nodeOK_grown: "pKind q \<noteq> ParticleAll \<Longrightarrow> nodeOK (modelAt K h ns) q \<Longrightarrow> nodeOK (modelAt K h' ns') q"
  using ResolveElement_model [of K h ns h' ns'] by (auto simp: nodeOK_def modelAt_def split: ParticleKind.splits)

lemma wellFormed_grown:
  assumes "plainParticles h"
  shows "wellFormed (modelAt K h ns) p \<Longrightarrow> wellFormed (modelAt K (h @ z) ns') p"
proof (induction rule: wellFormed.induct)
  case (wf_node p q)
  show ?case
    by (rule wellFormed.wf_node [OF at_grown [OF wf_node(1)] nodeOK_grown [OF plain_at [OF assms wf_node(1)] wf_node(2)]]) (use wf_node(3) in blast)
qed

lemma cacheOK_grown:
  assumes "plainParticles h" "cacheOK (modelAt K h ns) N"
  shows "cacheOK (modelAt K (h @ z) ns') N"
  unfolding cacheOK_def
proof (intro allI impI)
  fix p b
  assume N: "N p = Some b"
  with assms(2) obtain q where q: "wellFormed (modelAt K h ns) p" "particleAt (modelAt K h ns) p = Some q" "b = nullableOf (modelAt K h ns) N q"
    "\<forall>c \<in> set (pChildren q). N c \<noteq> None" unfolding cacheOK_def by blast
  have "mayBeEmpty (modelAt K (h @ z) ns') N c \<longleftrightarrow> mayBeEmpty (modelAt K h ns) N c" if "c \<in> set (pChildren q)" for c
  proof -
    have "wellFormed (modelAt K h ns) c" using q(1,2) that by (auto elim: wellFormedE)
    then obtain r where "particleAt (modelAt K h ns) c = Some r" by (auto elim: wellFormedE)
    then show ?thesis using at_grown [of K h ns c r z ns'] by (simp add: mayBeEmpty_def)
  qed
  then have "nullableOf (modelAt K (h @ z) ns') N q = nullableOf (modelAt K h ns) N q" by (simp add: nullableOf_def split: ParticleKind.split)
  with q at_grown [OF q(2), of z ns'] wellFormed_grown [OF assms(1) q(1), of z ns']
  show "wellFormed (modelAt K (h @ z) ns') p \<and> (\<exists>q. particleAt (modelAt K (h @ z) ns') p = Some q \<and>
      b = nullableOf (modelAt K (h @ z) ns') N q \<and> (\<forall>c \<in> set (pChildren q). N c \<noteq> None))" by auto
qed

lemma cacheOK_names: "plainParticles h \<Longrightarrow> cacheOK (modelAt K h ns) N \<Longrightarrow> cacheOK (modelAt K h ns') N"
  using cacheOK_grown [of h K ns N "[]" ns'] by simp

definition composedAt :: "documentData \<Rightarrow> ParticleSchema list \<Rightarrow> EffectiveContext \<Rightarrow> EffectiveComplex \<Rightarrow> effectiveSpec \<Rightarrow> bool" where
  "composedAt K P x t sp \<longleftrightarrow> grownFrom (NewEffectiveContext (schemaOf K) P) x \<and> represents (ddContent K) x t sp"

lemma composedAt_grown: "composedAt K P x t sp \<Longrightarrow> grownFrom x x' \<Longrightarrow> composedAt K P x' t sp"
  by (auto simp: composedAt_def intro: grownFrom_trans represents_grown)

lemma holds_effectiveType:
  assumes "documentOK K P"
  shows "holds K P x e (effectiveType K j)
    (\<lambda>r cl x'. case r of None \<Rightarrow> True | Some t \<Rightarrow> \<exists>sp. effective (ddContent K) j sp \<and> composedAt K P x' t sp)"
  unfolding holds_def
proof (intro allI impI, elim conjE)
  fix c
  let ?C = "ddContent K"
  assume c: "fit K P c"
  have ok: "definitionsOK ?C" "layerFree ?C" using assms by (simp_all add: documentOK_def)
  have f: "effectsOK ?C P {} (dcContent c)" "xSimples (dcContent c) = simples (schemaOf K)" "plainParticles (xParticles (dcContent c))"
    "cacheOK (modelAt K (xParticles (dcContent c)) []) (dcNullable c)" using c by (simp_all add: fit_def)
  obtain r x' where r: "EffectiveComplex_of (effectiveDepth ?C) ?C j (dcContent c) = Some (r, x')" "effectsOK ?C P {} x'" "grownFrom (dcContent c) x'" "outcome ?C x' j r"
    by (rule EffectiveComplex_outcome [OF ok(1) f(1)])
  have k: "xSimples x' = simples (schemaOf K)" "plainParticles (xParticles x')"
    using EffectiveComplex_keeps [OF ok(2)] f(2,3) r(1) unfolding keepsHeaps_def by blast+
  obtain z where z: "xParticles x' = xParticles (dcContent c) @ z" using r(3) by (auto simp: grownFrom_def)
  let ?c = "c\<lparr>dcContent := x'\<rparr>"
  have "effectiveType K j c = Some (r, ?c)" using r(1) by (simp add: effectiveType_def inContent_def)
  moreover have "fit K P ?c"
    using c r(2) k cacheOK_grown [OF f(3,4), of z "[]"] by (simp add: fit_def z [symmetric] good_def valuesOf_def)
  moreover have "follows_on c ?c" using r(3) by (simp add: follows_on_def epoch_def issuesOf_def)
  moreover have "case r of None \<Rightarrow> True | Some t \<Rightarrow> \<exists>sp. effective ?C j sp \<and> composedAt K P x' t sp"
    using r(2,4) by (auto simp: outcome_def composedAt_def effectsOK_def schemaOf_def split: option.splits)
  ultimately show "\<exists>r c'. effectiveType K j c = Some (r, c') \<and> fit K P c' \<and> follows_on c c' \<and>
      (case r of None \<Rightarrow> True | Some t \<Rightarrow> \<exists>sp. effective ?C j sp \<and> composedAt K P (dcContent c') t sp)"
    by (intro exI [of _ r] exI [of _ ?c]) (cases r; simp)
qed

section \<open>Content\<close>

lemma outermost_plain: "plainParticles h \<Longrightarrow> allOutermost (modelAt K h ns)"
  using plain_at [of h K ns] by (auto simp: allOutermost_def)

lemma model_heap [simp]: "(modelAt K h ns)\<lparr>heap := h'\<rparr> = modelAt K h' ns" "size_of (modelAt K h ns) = length ns"
  by (simp_all add: modelAt_def)

lemma holds_matchChildren:
  "holds K P x e (matchChildren K p ns) (\<lambda>(r, f, matched) cl x'. cl \<and> (matched \<longrightarrow>
     (\<exists>n. mrNext r = int n \<and> n \<le> length ns \<and> (p < length (xParticles x') \<longrightarrow> occurs (modelAt K (xParticles x') ns) p 0 n (mrElements r)))))"
  unfolding holds_def
proof (intro allI impI, elim conjE)
  fix c :: Context
  let ?h = "xParticles (dcContent c)"
  let ?E = "modelAt K ?h ns"
  assume c: "fit K P c"
  then have h: "plainParticles ?h" by (simp add: fit_def)
  have cache: "cacheOK ?E (dcNullable c)" by (rule cacheOK_names [OF h, where ns = "[]"]) (use c in \<open>simp add: fit_def\<close>)
  have names: "None \<notin> set (nodes ?E)" by (auto simp: modelAt_def)
  have return: "cacheOK ?E N \<Longrightarrow> cacheOK (modelAt K ?h []) N" for N by (rule cacheOK_names [OF h])
  have "\<exists>r f matched N. MatchParticle ?E (dcNullable c) [] p 0 = Some ((r, f, matched), N, msgs) \<and> cacheOK ?E N \<and>
      (matched \<longrightarrow> (\<exists>n. mrNext r = int n \<and> n \<le> length ns \<and> (p < length ?h \<longrightarrow> occurs ?E p 0 n (mrElements r))))"
    if "msgs = snd (snd (the (MatchParticle ?E (dcNullable c) [] p 0)))" for msgs
  proof (cases "particleAt ?E p \<noteq> None \<and> wellFormed ?E p")
    case True
    from MatchParticle_searched [OF cache outermost_plain [OF h], of 0 p "[]"] True names obtain r f matched N msgs' where
      r: "MatchParticle ?E (dcNullable c) [] p 0 = Some ((r, f, matched), N, msgs')" "cacheOK ?E N" "searched ?E p 0 (r, f, matched)"
      by (auto simp del: split_paired_Ex)
    have "\<exists>n. mrNext r = int n \<and> n \<le> length ns \<and> occurs ?E p 0 n (mrElements r)" if matched
    proof -
      have m: "mrNext r = int (Max (occEnds ?E p 0))" "occurs ?E p 0 (Max (occEnds ?E p 0)) (mrElements r)"
        using r(3) that by (auto simp: searched_def split: if_splits)
      then show ?thesis using occurs_span [OF m(2)] by (auto simp: spans_def)
    qed
    with r that show ?thesis by auto
  next
    case False
    show ?thesis
    proof (cases "particleAt ?E p")
      case None
      then have "MatchParticle ?E (dcNullable c) [] p 0 = Some ((\<lparr> mrNext = 0, mrElements = [] \<rparr>, schemaFailure [], True), dcNullable c, [])"
        by (simp add: MatchParticle_def Run_def ret_def NewParticleMatcher_def)
      moreover have "\<not> p < length ?h" using None by (simp add: particleAt_def modelAt_def split: if_splits)
      ultimately show ?thesis using cache that by auto
    next
      case (Some q)
      with False have "\<not> (0 \<le> (0::int) \<and> 0 \<le> int (size_of ?E) \<and> (particleAt ?E p = None \<or> None \<notin> set (nodes ?E) \<and> wellFormed ?E p))" by simp
      from MatchParticle_refused [OF cache this, of "[]"] that show ?thesis by auto
    qed
  qed
  then obtain r f matched N msgs where m: "MatchParticle ?E (dcNullable c) [] p 0 = Some ((r, f, matched), N, msgs)" "cacheOK ?E N"
    "matched \<longrightarrow> (\<exists>n. mrNext r = int n \<and> n \<le> length ns \<and> (p < length ?h \<longrightarrow> occurs ?E p 0 n (mrElements r)))" by blast
  let ?c = "c\<lparr>dcNullable := N\<rparr>"
  have "matchChildren K p ns c = Some ((r, f, matched), ?c)" using m(1) by (simp add: matchChildren_def)
  moreover have "fit K P ?c" using c return [OF m(2)] by (simp add: fit_def good_def valuesOf_def)
  moreover have "follows_on c ?c" "clean c ?c" by (simp_all add: follows_on_def clean_def epoch_def issuesOf_def)
  ultimately show "\<exists>r c'. matchChildren K p ns c = Some (r, c') \<and> fit K P c' \<and> follows_on c c' \<and>
      (case r of (r, f, matched) \<Rightarrow> \<lambda>cl x'. cl \<and> (matched \<longrightarrow> (\<exists>n. mrNext r = int n \<and> n \<le> length ns \<and>
        (p < length (xParticles x') \<longrightarrow> occurs (modelAt K (xParticles x') ns) p 0 n (mrElements r))))) (clean c c') (dcContent c')"
    using m(3) by (intro exI [of _ "(r, f, matched)"] exI [of _ ?c]) simp
qed

text \<open>What a composed type accepts, in the particles of the schema itself.\<close>

lemma contentRep_range: "contentRep h p ps \<Longrightarrow> \<forall>q \<in> set ps. q < length h \<Longrightarrow> p = Some r \<Longrightarrow> r < length h"
  by (induction arbitrary: r rule: contentRep.induct) auto

lemma composedAt_content:
  assumes "documentOK K P" "effective (ddContent K) j sp" "composedAt K P x t sp"
  shows "ecParticle t = None \<longleftrightarrow> spContent sp = []"
    and "ecParticle t = Some p \<Longrightarrow> p < length (xParticles x) \<and>
      (occurs (modelAt K (xParticles x) ns) p 0 n w \<longleftrightarrow> follows (modelAt K P ns) (spContent sp) 0 n w)"
proof -
  have g: "grownFrom (NewEffectiveContext (cdSchema (ddContent K)) P) x" and part: "particlesIn (ddContent K) P"
    and rep: "represents (ddContent K) x t sp" using assms(1,3) by (simp_all add: composedAt_def documentOK_def schemaOf_def)
  note a = composed_accepts [OF part g assms(2) rep]
  show "ecParticle t = None \<longleftrightarrow> spContent sp = []" by (rule a(1))
  assume p: "ecParticle t = Some p"
  have "length P \<le> length (xParticles x)" using g by (auto simp: grownFrom_def NewEffectiveContext_def)
  then have "\<forall>q \<in> set (spContent sp). q < length (xParticles x)" using effective_content [OF assms(2) part] by fastforce
  moreover have "contentRep (xParticles x) (ecParticle t) (spContent sp)" using rep by (simp add: represents_def)
  ultimately have "p < length (xParticles x)" using contentRep_range p by blast
  moreover have "occurs (modelAt K (xParticles x) ns) p 0 n w \<longleftrightarrow> follows (modelAt K P ns) (spContent sp) 0 n w"
    using a(2) [OF p, of "modelAt K P ns" 0 n w] by simp
  ultimately show "p < length (xParticles x) \<and>
      (occurs (modelAt K (xParticles x) ns) p 0 n w \<longleftrightarrow> follows (modelAt K P ns) (spContent sp) 0 n w)" ..
qed

text \<open>Without layers the scalar of a type is the simple base of its derivation.\<close>

lemma scalar_simps [simp]: "spScalar (mixes b sp) = spScalar sp" "spScalar (widens C b sp) = spScalar sp" "spScalar (overrides b sp) = spScalar sp"
  "spScalar (ownSpec c) = None"
  by (simp_all add: mixes_def widens_def overrides_def ownSpec_def split: prod.split)

lemma scalar_base:
  assumes "layerFree C" "effective C j sp" "spScalar sp = Some (ref, layers)"
  shows "layers = []" "\<exists>simple complex builtin. ResolveType (cdSchema C) (Some ref) = (simple, complex, builtin, True) \<and> (simple \<noteq> None \<or> builtin \<noteq> [])"
proof -
  have none: "layersOf (complexOf (cdSchema C) j) (contentOf C j) = []" for j
    using assms(1) by (auto simp: layersOf_def layerFree_def split: option.split)
  have "effective C j sp \<Longrightarrow> (\<forall>ref layers. spScalar sp = Some (ref, layers) \<longrightarrow> layers = [] \<and>
      (\<exists>simple complex builtin. ResolveType (cdSchema C) (Some ref) = (simple, complex, builtin, True) \<and> (simple \<noteq> None \<or> builtin \<noteq> [])))" for j sp
  proof (induction rule: effective.induct)
    case (e_root j sp)
    have base: "cBase (complexOf (cdSchema C) j) \<noteq> None" if "ResolveType (cdSchema C) (cBase (complexOf (cdSchema C) j)) = (a, b, d, True)" for a b d
      using that by (auto simp: ResolveType_def split: option.splits)
    show ?case using e_root(2) none base by (auto simp: rootSpec_def Let_def split: prod.splits if_splits)
  next
    case (e_derived j k b sp)
    then show ?case
      using none by (auto simp: derivedSpec_def Let_def split: ComplexForm.splits if_splits)
  qed
  with assms(2,3) show "layers = []" "\<exists>simple complex builtin. ResolveType (cdSchema C) (Some ref) = (simple, complex, builtin, True) \<and> (simple \<noteq> None \<or> builtin \<noteq> [])"
    by blast+
qed

inductive_cases scalarRep_baseE: "scalarRep S h r (ref, [])"

lemma composedAt_scalar:
  assumes "documentOK K P" "effective (ddContent K) j sp" "composedAt K P x t sp"
  shows "ecSimple t = map_option fst (spScalar sp)" "ecMixed t = spMixed sp"
proof -
  have rep: "represents (ddContent K) x t sp" using assms(3) by (simp add: composedAt_def)
  then show "ecMixed t = spMixed sp" by (simp add: represents_def)
  show "ecSimple t = map_option fst (spScalar sp)"
  proof (cases "spScalar sp")
    case None
    then show ?thesis using rep by (simp add: represents_def)
  next
    case (Some chain)
    obtain ref layers where chain: "chain = (ref, layers)" by (rule prod.exhaust)
    have "layers = []" using scalar_base(1) [of "ddContent K" j sp] assms(1,2) Some chain by (simp add: documentOK_def)
    with Some rep show ?thesis by (auto simp: represents_def chain elim!: scalarRep_baseE)
  qed
qed

section \<open>The actual type\<close>

lemma holds_types:
  assumes "\<And>t. contextOK (schemaOf K) t \<Longrightarrow> \<exists>r t'. act t = Some (r, t') \<and> contextOK (schemaOf K) t' \<and>
      AssessmentVersion t \<le> AssessmentVersion t' \<and> (\<exists>new. Issues t' = Issues t @ new) \<and>
      R r (Issues t' = Issues t \<and> AssessmentVersion t' = AssessmentVersion t)"
  shows "holds K P x e (inValues (inTypes act)) (\<lambda>r cl _. R r cl)"
  unfolding holds_def
proof (intro allI impI, elim conjE)
  fix c :: Context
  let ?t = "icTypes (dcIdentity c)"
  assume c: "fit K P c"
  then have "contextOK (schemaOf K) ?t" by (simp add: fit_def)
  from assms [OF this] obtain r t' where r: "act ?t = Some (r, t')" "contextOK (schemaOf K) t'" "AssessmentVersion ?t \<le> AssessmentVersion t'"
    "\<exists>new. Issues t' = Issues ?t @ new" "R r (Issues t' = Issues ?t \<and> AssessmentVersion t' = AssessmentVersion ?t)" by blast
  let ?c = "c\<lparr> dcIdentity := (dcIdentity c)\<lparr>icTypes := t'\<rparr> \<rparr>"
  have "inValues (inTypes act) c = Some (r, ?c)"
    using r(1) by (simp add: inValues_def inTypes_def valuesOf_def)
  moreover have "fit K P ?c"
    using c r(2) by (auto simp: fit_def good_def Xsd_Values.cachesOK_def valuesOf_def tables_def contextOK_def Xsd_Derivation.cachesOK_def)
  moreover have "follows_on c ?c" using r(3,4) by (simp add: follows_on_def epoch_def issuesOf_def)
  ultimately show "\<exists>r c'. inValues (inTypes act) c = Some (r, c') \<and> fit K P c' \<and> follows_on c c' \<and> R r (clean c c')"
    using r(5) by (intro exI [of _ r] exI [of _ ?c]) (simp add: clean_def epoch_def issuesOf_def)
qed

lemma holds_elementTyped:
  "holds K P x e (elementTyped K d el path) (\<lambda>(t, typed) cl _.
     (xsiType (nAttrs (enNode el)) = None \<longrightarrow> t = edType d \<and> typed) \<and> (\<not> typed \<longrightarrow> t = edType d \<and> \<not> cl) \<and>
     (typed \<and> xsiType (nAttrs (enNode el)) \<noteq> None \<longrightarrow> nomination (enNode el) = Some t \<and> allowedType (schemaOf K) (edBlock d) t (edType d)))"
  (is "holds K P x e _ (\<lambda>(t, typed) cl _. ?P t typed cl)")
proof -
  let ?R = "\<lambda>(t, typed) cl. ?P t typed cl"
  have run: "\<exists>r t'. ActualElementType (schemaOf K) (enNode el) (edType d) (edBlock d) path t = Some (r, t') \<and> contextOK (schemaOf K) t' \<and>
      AssessmentVersion t \<le> AssessmentVersion t' \<and> (\<exists>new. Issues t' = Issues t @ new) \<and>
      ?R r (Issues t' = Issues t \<and> AssessmentVersion t' = AssessmentVersion t)" if t: "contextOK (schemaOf K) t" for t
  proof (cases "xsiType (nAttrs (enNode el))")
    case None
    then show ?thesis using t by (simp add: ActualElementType_def ret_def)
  next
    case (Some v)
    from ActualElementType_judged [OF t Some, of "edType d" "edBlock d" path] obtain a typed t' where
      "ActualElementType (schemaOf K) (enNode el) (edType d) (edBlock d) path t = Some ((a, typed), t')"
      "judged (schemaOf K) (edBlock d) path (edType d) (nomination (enNode el)) t ((a, typed), t')" by (metis prod_cases3 prod.collapse)
    with Some show ?thesis
      by (intro exI [of _ "(a, typed)"] exI [of _ t']) (auto simp: judged_def split: if_splits)
  qed
  show ?thesis unfolding elementTyped_def
    by (rule holds_withValues, unfold dataOf_sel, rule holds_weaken [OF holds_types [where R = ?R]])
      (use run in \<open>auto split: prod.splits\<close>)
qed

end
