(* ===== verification/Xsd_Conformance.thy ===== *)
theory Xsd_Conformance
  imports Xsd_Walk
begin

text \<open>
  The assessment of elements is sound: what it means that an element conforms to its declaration, and that the
  assessment returns on every document tree and, when it was clean, has established that meaning for the element and
  everything below it.
\<close>

section \<open>Conformance\<close>

text \<open>Hints, attributes of an element with a simple type, and attributes against an effective type.\<close>

definition hintOK :: "(string \<Rightarrow> bool) \<Rightarrow> Attribute \<Rightarrow> bool" where
  "hintOK uri a \<longleftrightarrow> aNamespaceDeclaration a \<or> Space (aName a) \<noteq> XSINamespace \<or>
     (Local (aName a) = ''schemaLocation'' \<longrightarrow> list_all uri (splitList (aValue a))) \<and>
     (Local (aName a) = ''noNamespaceSchemaLocation'' \<longrightarrow> uri (collapseWhitespace (aValue a)))"

definition attributeConforms :: "documentData \<Rightarrow> effectiveSpec \<Rightarrow> Attribute \<Rightarrow> bool" where
  "attributeConforms K sp a \<longleftrightarrow> assessed a \<longrightarrow> (case spAttributes sp (aName a) of
       None \<Rightarrow> fst (anyAttributeAllows (cdUri (ddContent K)) False (spAny sp) (aName a) [])
     | Some decl \<Rightarrow> adUse decl \<noteq> AttributeProhibited \<and> accepts (dataOf K) decl (aValue a) \<and> \<not> fixedBroken (dataOf K) decl (aValue a))"

definition attributesConform :: "documentData \<Rightarrow> effectiveSpec \<Rightarrow> Attribute list \<Rightarrow> bool" where
  "attributesConform K sp attrs \<longleftrightarrow> (\<forall>a \<in> set attrs. attributeConforms K sp a) \<and>
     (\<forall>n decl. spAttributes sp n = Some decl \<and> adUse decl = AttributeRequired \<longrightarrow> (\<exists>a \<in> set attrs. assessed a \<and> aName a = n))"

text \<open>The type an element is assessed with, whether it is a simple one, and whether the element is nilled.\<close>

definition actualType :: "documentData \<Rightarrow> ElementDeclaration \<Rightarrow> ElementNode \<Rightarrow> TypeRef \<Rightarrow> bool \<Rightarrow> bool" where
  "actualType K d el actual same \<longleftrightarrow>
     (if xsiTyped (enNode el) then \<not> same \<and> nominates (enNode el) actual \<and> permitted (schemaOf K) (edBlock d) actual (edType d)
      else same \<and> actual = edType d)"

definition plainlyTyped :: "documentData \<Rightarrow> TypeRef \<Rightarrow> bool" where
  "plainlyTyped K actual \<longleftrightarrow> (\<exists>simple complex builtin found. ResolveType (schemaOf K) (Some actual) = (simple, complex, builtin, found) \<and>
     ((\<exists>i. simple = Some i) \<or> builtin \<notin> {[], ''anyType''}))"

definition nilledAs :: "ElementDeclaration \<Rightarrow> ElementNode \<Rightarrow> bool \<Rightarrow> bool" where
  "nilledAs d el nilled \<longleftrightarrow>
     (case find (\<lambda>a. aName a = \<lparr> Space = ''http://www.w3.org/2001/XMLSchema-instance'', Local = ''nil'' \<rparr>) (nAttrs (enNode el)) of
        None \<Rightarrow> \<not> nilled
      | Some a \<Rightarrow> edNillable d \<and> joinWords (wordsOf (runes (aValue a))) \<in> (if nilled then {''true'', ''1''} else {''false'', ''0''}))"

text \<open>The scalar type of a reference, none for other content.\<close>

definition scalarOf :: "documentData \<Rightarrow> TypeRef option \<Rightarrow> TypeRef option \<Rightarrow> bool" where
  "scalarOf K reference sc \<longleftrightarrow> (case ResolveType (schemaOf K) reference of (simple, complex, builtin, found) \<Rightarrow> found \<and>
     (case complex of Some j \<Rightarrow> \<exists>sp. effective (ddContent K) j sp \<and> sc = map_option fst (spScalar sp)
      | None \<Rightarrow> sc = (if builtin = ''anyType'' then None else reference)))"

definition canonicalConstraint :: "documentData \<Rightarrow> TypeRef option \<Rightarrow> string \<Rightarrow> string \<Rightarrow> bool" where
  "canonicalConstraint K reference lit t \<longleftrightarrow>
     (\<exists>sc. scalarOf K reference sc \<and> (if sc = None then t = lit else canonicalFor (dataOf K) sc lit t))"

text \<open>Agreement with a fixed value: with the declared type itself, or with another type in its place.\<close>

definition fixedValue :: "documentData \<Rightarrow> TypeRef option \<Rightarrow> string \<Rightarrow> string \<Rightarrow> bool" where
  "fixedValue K reference left right \<longleftrightarrow> (case ResolveType (schemaOf K) reference of (simple, complex, builtin, found) \<Rightarrow>
     (case complex of
        Some j \<Rightarrow> \<exists>sp. effective (ddContent K) j sp \<and> (case spScalar sp of None \<Rightarrow> left = right
          | Some (ref, _) \<Rightarrow> fixedAgree (dataOf K) (Some ref) left right)
      | None \<Rightarrow> fixedAgree (dataOf K) reference left right))"

definition replacedValue :: "documentData \<Rightarrow> TypeRef option \<Rightarrow> TypeRef option \<Rightarrow> string \<Rightarrow> string \<Rightarrow> bool" where
  "replacedValue K actual decl left right \<longleftrightarrow> (\<exists>sc. scalarOf K actual sc \<and>
     (if sc = None then canonicalConstraint K decl right left
      else \<exists>dc a. scalarOf K decl dc \<and> literalOf (dataOf K) sc left a \<and>
        (if dc = None then SimpleValue_equal (asValue a) (textValue right)
         else \<exists>b. literalOf (dataOf K) dc right b \<and> SimpleValue_equal (asValue a) (asValue b))))"

definition constraintAgrees :: "documentData \<Rightarrow> bool \<Rightarrow> TypeRef option \<Rightarrow> TypeRef option \<Rightarrow> string \<Rightarrow> string \<Rightarrow> bool" where
  "constraintAgrees K same actual decl left right \<longleftrightarrow>
     (if same then fixedValue K actual left right else replacedValue K actual decl left right)"

text \<open>A default needs simple content, or mixed content that may be empty.\<close>

definition defaultAllowed :: "documentData \<Rightarrow> ParticleSchema list \<Rightarrow> TypeRef option \<Rightarrow> bool" where
  "defaultAllowed K P reference \<longleftrightarrow> (case ResolveType (schemaOf K) reference of (simple, complex, builtin, found) \<Rightarrow> found \<and>
     (case complex of None \<Rightarrow> True
      | Some j \<Rightarrow> \<exists>sp. effective (ddContent K) j sp \<and>
          (spScalar sp \<noteq> None \<or> spMixed sp \<and> (\<exists>w. follows (modelAt K P []) (spContent sp) 0 0 w))))"

definition isEmpty :: "ElementNode \<Rightarrow> bool" where
  "isEmpty el \<longleftrightarrow> enChildren el = [] \<and> enText el = []"

definition constraintOf :: "ElementDeclaration \<Rightarrow> string option" where
  "constraintOf d = (if edFixed d \<noteq> None then edFixed d else edDefault d)"

text \<open>The text that is assessed, after defaults, and the demand of a fixed value on an element with content.\<close>

definition textFor :: "documentData \<Rightarrow> ParticleSchema list \<Rightarrow> ElementDeclaration \<Rightarrow> bool \<Rightarrow> TypeRef \<Rightarrow> bool \<Rightarrow> ElementNode \<Rightarrow> string \<Rightarrow> bool" where
  "textFor K P d same actual nilled el t \<longleftrightarrow>
     (case constraintOf d of
        Some v \<Rightarrow>
          if \<not> nilled \<and> isEmpty el then (if same then t = v
             else canonicalConstraint K (Some (edType d)) v t \<and> defaultAllowed K P (Some actual))
          else t = enText el
      | None \<Rightarrow> t = enText el)"

definition fixedMet :: "documentData \<Rightarrow> ElementDeclaration \<Rightarrow> bool \<Rightarrow> TypeRef \<Rightarrow> bool \<Rightarrow> ElementNode \<Rightarrow> bool" where
  "fixedMet K d same actual nilled el \<longleftrightarrow> (\<forall>v. edFixed d = Some v \<longrightarrow> (if nilled then False
     else isEmpty el \<or> enChildren el = [] \<and> constraintAgrees K same (Some actual) (Some (edType d)) (enText el) v))"

text \<open>
  The content against the actual type; \<open>w\<close> assigns declarations to children, which are left to conform to them. An
  element of type \<open>anyType\<close> has no assigned children: the assessment takes its content as it is.
\<close>

definition scalarConforms :: "documentData \<Rightarrow> nat option \<Rightarrow> string \<Rightarrow> ElementNode \<Rightarrow> bool" where
  "scalarConforms K simple builtin el \<longleftrightarrow> enChildren el = [] \<and> (\<exists>a. case simple of Some i \<Rightarrow> admits (dataOf K) i (enText el) a
     | None \<Rightarrow> builtinAdmits (vdLibrary (dataOf K)) builtin (enText el) a)"

definition simpleConforms :: "documentData \<Rightarrow> TypeRef \<Rightarrow> ElementNode \<Rightarrow> bool" where
  "simpleConforms K reference el \<longleftrightarrow> soundRef (schemaOf K) (Some reference) \<and>
     (case ResolveType (schemaOf K) (Some reference) of (simple, complex, builtin, found) \<Rightarrow> found \<and>
       (simple \<noteq> None \<or> builtin \<noteq> []) \<and> (simple = None \<and> builtin = ''anyType'' \<or> scalarConforms K simple builtin el))"

definition contentConforms :: "documentData \<Rightarrow> ParticleSchema list \<Rightarrow> effectiveSpec \<Rightarrow> ElementNode \<Rightarrow> ElementMatch list \<Rightarrow> bool" where
  "contentConforms K P sp el w \<longleftrightarrow>
     (spMixed sp \<or> enText el = [] \<or> spContent sp \<noteq> [] \<and> trimXMLWhitespace (enText el) = []) \<and>
     follows (modelAt K P (namesOf el)) (spContent sp) 0 (length (enChildren el)) w"

definition complexConforms :: "documentData \<Rightarrow> ParticleSchema list \<Rightarrow> nat \<Rightarrow> bool \<Rightarrow> Attribute list \<Rightarrow> ElementNode \<Rightarrow> ElementMatch list \<Rightarrow> bool" where
  "complexConforms K P j nilled attrs el w \<longleftrightarrow> \<not> ccAbstract (contentOf (ddContent K) j) \<and>
     (\<exists>sp. effective (ddContent K) j sp \<and> attributesConform K sp attrs \<and>
       (if nilled then w = []
        else (case spScalar sp of Some (ref, _) \<Rightarrow> w = [] \<and> enChildren el = [] \<and> simpleConforms K ref el
          | None \<Rightarrow> contentConforms K P sp el w)))"

definition typeConforms :: "documentData \<Rightarrow> ParticleSchema list \<Rightarrow> TypeRef \<Rightarrow> bool \<Rightarrow> Attribute list \<Rightarrow> ElementNode \<Rightarrow> ElementMatch list \<Rightarrow> bool" where
  "typeConforms K P reference nilled attrs el w \<longleftrightarrow> soundRef (schemaOf K) (Some reference) \<and>
     (case ResolveType (schemaOf K) (Some reference) of (simple, complex, builtin, found) \<Rightarrow> found \<and>
       (case (simple, complex) of
          (None, Some j) \<Rightarrow> complexConforms K P j nilled attrs el w
        | _ \<Rightarrow> w = [] \<and> (simple \<noteq> None \<or> builtin \<noteq> []) \<and> (simple = None \<and> builtin = ''anyType'' \<or> nilled \<or> scalarConforms K simple builtin el)))"

text \<open>
  An element against its declaration, with \<open>F\<close> for the conformance of its children: the type it is assessed with,
  nilled or with the text its value constraint gives it.
\<close>

definition declaredConforms :: "documentData \<Rightarrow> ParticleSchema list \<Rightarrow> (ElementNode \<Rightarrow> ElementSchema option \<Rightarrow> bool) \<Rightarrow>
    ElementDeclaration \<Rightarrow> ElementNode \<Rightarrow> bool" where
  "declaredConforms K P F d el \<longleftrightarrow> \<not> edAbstract d \<and> (\<exists>actual same nilled t w. actualType K d el actual same \<and>
     (plainlyTyped K actual \<longrightarrow> (\<forall>a \<in> set (nAttrs (enNode el)). \<not> assessed a)) \<and>
     nilledAs d el nilled \<and> (nilled \<longrightarrow> isEmpty el) \<and> fixedMet K d same actual nilled el \<and> textFor K P d same actual nilled el t \<and>
     typeConforms K P actual nilled (nAttrs (enNode el)) (ElementNode (enOwner el) (enName el) (enNode el) t (enChildren el)) w \<and>
     (\<forall>m \<in> set w. emIndex m < length (enChildren el) \<and> F (enChildren el ! emIndex m) (emSchema m)))"

lemma declaredConforms_mono [mono]:
  "(\<And>c s. F c s \<longrightarrow> G c s) \<Longrightarrow> declaredConforms K P F d el \<longrightarrow> declaredConforms K P G d el"
  unfolding declaredConforms_def by blast

text \<open>Conformance of a tree: the name, the location hints, the declaration, and so for the children.\<close>

inductive conforms :: "documentData \<Rightarrow> ParticleSchema list \<Rightarrow> ElementNode \<Rightarrow> ElementSchema option \<Rightarrow> bool" for K P where
  conforms_element: "ResolveElement (modelAt K P []) decl = Some e \<Longrightarrow> enName el = eName e \<Longrightarrow>
    \<forall>a \<in> set (nAttrs (enNode el)). hintOK (cdUri (ddContent K)) a \<Longrightarrow>
    declaredConforms K P (conforms K P) (declarationOf K e) el \<Longrightarrow> conforms K P el decl"

lemma plainlyTyped_iff: "plainlyTyped K actual \<longleftrightarrow> simpleTyped K actual"
  by (auto simp: plainlyTyped_def simpleTyped_def split: prod.split)

section \<open>Attributes\<close>

lemma knownAttributes_declared:
  assumes "distinct (map AttributeSchema.aName xs)"
  shows "knownAttributes xs = declared xs"
proof -
  have fold: "distinct (map AttributeSchema.aName xs) \<Longrightarrow>
      foldl (\<lambda>known s. known(AttributeSchema.aName s \<mapsto> s)) m xs n = Some a \<longleftrightarrow>
      (a \<in> set xs \<and> AttributeSchema.aName a = n) \<or> (n \<notin> AttributeSchema.aName ` set xs \<and> m n = Some a)"
    for xs :: "AttributeDeclaration list" and m n a
    by (induction xs arbitrary: m) auto
  show ?thesis
  proof
    fix n
    have "knownAttributes xs n = Some a \<longleftrightarrow> declared xs n = Some a" for a
      using fold [OF assms, of Map.empty n a] declared_Some_iff [OF assms, of n a] by (simp add: knownAttributes_def)
    then show "knownAttributes xs n = declared xs n" by (metis not_None_eq)
  qed
qed

lemma no_findings:
  assumes "allFindings (dataOf K) schemas anyAttribute path attrs = []" "distinct (map AttributeSchema.aName schemas)"
    and "declared schemas = spAttributes sp" "anyAttribute = spAny sp"
  shows "attributesConform K sp attrs"
proof -
  have known: "knownAttributes schemas = spAttributes sp" using knownAttributes_declared [OF assms(2)] assms(3) by simp
  have one: "attributeConforms K sp a" if "a \<in> set attrs" for a
  proof -
    have "attributeFindings (dataOf K) (spAttributes sp) (spAny sp) path a = []"
      using assms(1) that by (auto simp: allFindings_def known assms(4))
    then show ?thesis
      by (auto simp: attributeConforms_def attributeFindings_def declaredFindings_def split: option.splits if_splits)
  qed
  have two: "\<exists>a \<in> set attrs. assessed a \<and> aName a = n" if n: "spAttributes sp n = Some decl" "adUse decl = AttributeRequired" for n decl
  proof -
    have "decl \<in> set schemas" "AttributeSchema.aName decl = n" using n(1) declared_Some_iff [OF assms(2)] assms(3) by auto
    moreover have "requiredFindings path (presentNames (spAttributes sp) attrs) schemas = []" using assms(1) by (simp add: allFindings_def known)
    ultimately have "n \<in> presentNames (spAttributes sp) attrs" using n(2) by (auto simp: requiredFindings_def filter_empty_conv)
    then show ?thesis by (auto simp: presentNames_def)
  qed
  show ?thesis unfolding attributesConform_def using one two by blast
qed

lemma issue_constraints [simp]:
  "plainConstraint ''datatype''" "plainConstraint ''nillable''" "plainConstraint ''abstract''" "plainConstraint ''name''" "plainConstraint ''default''"
  "plainConstraint ''simple-content''" "plainConstraint ''element-only''" "plainConstraint ''content-model''"
  by (simp_all add: plainConstraint_def)

text \<open>An issue, whatever is answered after it, leaves nothing to show.\<close>

lemma holds_refused:
  assumes "plainConstraint k \<or> k = ''schema''" "\<And>x'. grownFrom x x' \<Longrightarrow> Q r False x'"
  shows "holds K P x e (bnd (addIssue path k msg) (\<lambda>_. ret r)) Q"
proof (rule holds_bnd [OF holds_issue [OF assms(1)]])
  fix u cl x' e'
  assume "\<not> cl" "grownFrom x x'"
  then show "holds K P x' e' (ret r) (\<lambda>s cl' x''. Q s (cl \<and> cl') x'')"
    by (intro holds_ret) (simp add: assms(2) [OF grownFrom_trans])
qed

lemma holds_hints:
  "holds K P x e (ValidateSchemaLocationHints uri attrs path) (\<lambda>_ cl _. cl \<longrightarrow> (\<forall>a \<in> set attrs. hintOK uri a))"
proof -
  have "holds K P x e (checkHint uri path a) (\<lambda>_ cl _. cl \<longrightarrow> hintOK uri a)" for x e a
    by (auto simp: checkHint_def hintOK_def intro!: holds_ret holds_weaken [OF holds_issue])
  then show ?thesis unfolding ValidateSchemaLocationHints_def by (intro holds_all)
qed

lemma holds_simpleAttributes:
  "holds K P x e (ValidateSimpleElementAttributes attrs path) (\<lambda>_ cl _. cl \<longrightarrow> (\<forall>a \<in> set attrs. \<not> assessed a))"
  unfolding ValidateSimpleElementAttributes_def
  by (rule holds_all) (auto simp: assessed_def intro!: holds_ret holds_refused)

lemma holds_attributes:
  assumes "composedAt K P x t sp"
  shows "holds K P x e (validateAttributes (dataOf K) attrs (ecAttributes t) (ecAnyAttribute t) (ecAnyAttributeUnavailable t) path owner)
    (\<lambda>ok cl _. cl \<longrightarrow> attributesConform K sp attrs)"
proof -
  have rep: "distinct (map AttributeSchema.aName (ecAttributes t))" "declared (ecAttributes t) = spAttributes sp" "ecAnyAttribute t = spAny sp"
    using assms by (simp_all add: composedAt_def represents_def)
  have "does (dataOf K) origin e (validateAttributes (dataOf K) attrs (ecAttributes t) (ecAnyAttribute t) (ecAnyAttributeUnavailable t) path owner)
      (\<lambda>ok moved new _. \<not> moved \<and> new = [] \<longrightarrow> attributesConform K sp attrs)" for origin
    by (rule does_weaken [OF validateAttributes_does]) (auto dest: no_findings [OF _ rep] split: if_splits)
  from holds_does [OF this] show ?thesis by (rule holds_weaken) auto
qed

section \<open>Nil\<close>

lemma nilledAs_iff:
  "nilledAs d el nilled \<longleftrightarrow> (case nilAttribute (map (\<lambda>a. (aName a, aValue a)) (nAttrs (enNode el))) of (v, found) \<Rightarrow>
     if found then edNillable d \<and> parseBoolean v = (nilled, None) else \<not> nilled)"
proof -
  have "nilAttribute (map (\<lambda>a. (aName a, aValue a)) as) =
      (case find (\<lambda>a. aName a = \<lparr> Space = ''http://www.w3.org/2001/XMLSchema-instance'', Local = ''nil'' \<rparr>) as of
         None \<Rightarrow> ([], False) | Some a \<Rightarrow> (aValue a, True))" for as :: "Attribute list"
  proof (induction as)
    case (Cons a as)
    then show ?case by (cases "aName a") (simp add: XSINamespace_def)
  qed simp
  moreover have "parseBoolean v = (b, None) \<longleftrightarrow> joinWords (wordsOf (runes v)) \<in> (if b then {''true'', ''1''} else {''false'', ''0''})" for v b
    by (auto simp: parseBoolean_def Let_def normalizeWhitespace_def collapse_words)
  ultimately show ?thesis by (simp add: nilledAs_def split: option.split)
qed

lemma holds_checkNil: "holds K P x e (checkNil d el path) (\<lambda>r cl _. cl \<longrightarrow> nilledAs d el (fst r))"
proof -
  obtain v found where v: "nilAttribute (map (\<lambda>a. (aName a, aValue a)) (nAttrs (enNode el))) = (v, found)" by (rule prod.exhaust)
  obtain b f where b: "parseBoolean v = (b, f)" by (rule prod.exhaust)
  have "holds K P x e (case f of Some f \<Rightarrow> bnd (addIssue p (fConstraint f) (failureText f)) (\<lambda>_. ret False) | None \<Rightarrow> ret (edNillable d \<and> b))
      (\<lambda>n cl _. cl \<longrightarrow> f = None \<and> n = (edNillable d \<and> b))" for p
  proof (cases f)
    case (Some g)
    then have "fConstraint g = ''datatype''" using b by (auto simp: parseBoolean_def Let_def failure_def split: if_splits)
    with Some show ?thesis by (auto intro!: holds_refused)
  qed (auto intro!: holds_ret)
  note parsed = this
  show ?thesis
  proof (cases found)
    case False
    then show ?thesis by (auto simp: checkNil_def v nilledAs_iff intro!: holds_ret)
  next
    case True
    have x: "checkNil d el path = bnd (case f of Some f \<Rightarrow> bnd (addIssue (attributePath path \<lparr> Space = XSINamespace, Local = ''nil'' \<rparr>) (fConstraint f) (failureText f)) (\<lambda>_. ret False)
          | None \<Rightarrow> ret (edNillable d \<and> b)) (\<lambda>nilled. if \<not> edNillable d
        then bnd (addIssue (attributePath path \<lparr> Space = XSINamespace, Local = ''nil'' \<rparr>) ''nillable'' (Plain ''element is not nillable'')) (\<lambda>_. ret (nilled, False))
        else ret (nilled, True))"
      using True by (cases f) (simp_all add: checkNil_def v b Let_def)
    show ?thesis unfolding x
      by (rule holds_bnd [OF parsed], rule holds_if) (use True in \<open>auto simp: nilledAs_iff v b intro!: holds_ret holds_refused\<close>)
  qed
qed

lemma holds_checkNilled:
  "holds K P x e (checkNilled d el path) (\<lambda>_ cl _. cl \<longrightarrow> edFixed d = None \<and> isEmpty el)"
  unfolding checkNilled_def
  by (rule holds_bnd [where R = "\<lambda>_ cl _. cl \<longrightarrow> edFixed d = None"])
    (auto simp: isEmpty_def intro!: holds_ret holds_refused holds_then [OF holds_weaken [OF holds_skip]])

section \<open>Value constraints\<close>

lemma holds_gaveUp: "(\<And>x'. grownFrom x x' \<Longrightarrow> Q r False x') \<Longrightarrow> holds K P x e (bnd (incomplete msg) (\<lambda>_. ret r)) Q"
proof (rule holds_bnd [OF holds_incomplete])
  fix u cl x' e'
  assume Q: "\<And>x'. grownFrom x x' \<Longrightarrow> Q r False x'" and "\<not> cl" "grownFrom x x'"
  then show "holds K P x' e' (ret r) (\<lambda>s cl' x''. Q s (cl \<and> cl') x'')"
    by (intro holds_ret) (simp add: Q [OF grownFrom_trans])
qed

text \<open>Looking up the effective type of a complex definition, with the specification it delivers.\<close>

lemma holds_lookup:
  assumes "documentOK K P"
    and "\<And>cl x' e'. grownFrom x x' \<Longrightarrow> holds K P x' e' n (\<lambda>s cl' x''. Q s (cl \<and> cl') x'')"
    and "\<And>t sp cl x' e'. effective (ddContent K) j sp \<Longrightarrow> composedAt K P x' t sp \<Longrightarrow> ecSimple t = map_option fst (spScalar sp) \<Longrightarrow>
      ecMixed t = spMixed sp \<Longrightarrow> (ecParticle t = None \<longleftrightarrow> spContent sp = []) \<Longrightarrow> grownFrom x x' \<Longrightarrow> (cl \<Longrightarrow> e' = e) \<Longrightarrow>
      holds K P x' e' (g t) (\<lambda>s cl' x''. Q s (cl \<and> cl') x'')"
  shows "holds K P x e (bnd (effectiveType K j) (\<lambda>r. case r of None \<Rightarrow> n | Some t \<Rightarrow> g t)) Q"
proof (rule holds_bnd [OF holds_effectiveType [OF assms(1)]])
  fix r cl x' e'
  assume r: "case r of None \<Rightarrow> True | Some t \<Rightarrow> \<exists>sp. effective (ddContent K) j sp \<and> composedAt K P x' t sp"
    and e: "cl \<Longrightarrow> e' = e" and x: "grownFrom x x'"
  show "holds K P x' e' (case r of None \<Rightarrow> n | Some t \<Rightarrow> g t) (\<lambda>s cl' x''. Q s (cl \<and> cl') x'')"
  proof (cases r)
    case None
    with assms(2) [OF x] show ?thesis by simp
  next
    case (Some t)
    then obtain sp where sp: "effective (ddContent K) j sp" "composedAt K P x' t sp" using r by auto
    from assms(3) [OF sp composedAt_scalar [OF assms(1) sp] composedAt_content(1) [OF assms(1) sp] x e] Some show ?thesis by simp
  qed
qed

lemma holds_scalarType:
  assumes "documentOK K P"
  shows "holds K P x e (ScalarElementType K reference) (\<lambda>r cl _. cl \<longrightarrow> (\<exists>sc. r = Some sc \<and> scalarOf K reference sc))"
proof -
  obtain simple complex builtin found where r: "ResolveType (schemaOf K) reference = (simple, complex, builtin, found)" by (rule prod_cases4)
  show ?thesis
  proof (cases "\<not> found")
    case True
    then show ?thesis unfolding ScalarElementType_def r prod.case if_P [OF True] by (intro holds_gaveUp) simp
  next
    case False
    show ?thesis
    proof (cases complex)
      case None
      then show ?thesis using False by (auto simp: ScalarElementType_def r scalarOf_def intro!: holds_ret)
    next
      case (Some j)
      then have "effective (ddContent K) j sp \<Longrightarrow> scalarOf K reference (map_option fst (spScalar sp))" for sp
        using False by (auto simp: scalarOf_def r)
      then show ?thesis unfolding ScalarElementType_def r prod.case if_not_P [OF False] Some option.case
        by (intro holds_lookup [OF assms]) (auto intro!: holds_gaveUp holds_ret)
    qed
  qed
qed

lemma holds_canonicalConstraint:
  assumes "documentOK K P"
  shows "holds K P x e (CanonicalElementConstraint K reference lit) (\<lambda>r cl _. cl \<longrightarrow> (\<exists>t. r = Some t \<and> canonicalConstraint K reference lit t))"
  unfolding CanonicalElementConstraint_def
proof (rule holds_bnd [OF holds_scalarType [OF assms]])
  fix r cl x' e'
  assume r: "cl \<longrightarrow> (\<exists>sc. r = Some sc \<and> scalarOf K reference sc)"
  show "holds K P x' e' (case r of None \<Rightarrow> ret None | Some None \<Rightarrow> ret (Some lit)
      | Some scalar \<Rightarrow> withValues K (\<lambda>D. inValues (canonicalLiteral D scalar lit)))
    (\<lambda>s cl' _. cl \<and> cl' \<longrightarrow> (\<exists>t. s = Some t \<and> canonicalConstraint K reference lit t))"
  proof (cases r)
    case None
    then show ?thesis using r by (auto intro!: holds_ret)
  next
    case (Some sc)
    show ?thesis
    proof (cases sc)
      case None
      then show ?thesis using r Some by (auto simp: canonicalConstraint_def intro!: holds_ret)
    next
      case sc: (Some ref)
      have "holds K P x' e' (inValues (canonicalLiteral (dataOf K) sc lit)) (\<lambda>s cl' _. orMoved (canonicalFor (dataOf K) sc lit) s (\<not> cl'))"
        by (rule holds_values [OF canonicalLiteral_yields])
      then have "holds K P x' e' (withValues K (\<lambda>D. inValues (canonicalLiteral D sc lit))) (\<lambda>s cl' _. cl \<and> cl' \<longrightarrow> (\<exists>t. s = Some t \<and> canonicalConstraint K reference lit t))"
        by (intro holds_withValues) (rule holds_weaken, assumption, use r Some sc in \<open>auto simp: orMoved_def canonicalConstraint_def split: option.splits\<close>)
      then show ?thesis by (simp add: Some sc)
    qed
  qed
qed

lemma holds_fixedScalars:
  "holds K P x e (withValues K (\<lambda>D. inValues (fixedScalarsEqual D reference left right))) (\<lambda>r cl _. cl \<and> r \<longrightarrow> fixedAgree (dataOf K) reference left right)"
  by (rule holds_withValues, rule holds_weaken [OF holds_values [OF fixedScalarsEqual_yields]]) auto

lemma holds_fixedValue:
  assumes "documentOK K P"
  shows "holds K P x e (ElementFixedValuesEqual K reference left right) (\<lambda>r cl _. cl \<and> r \<longrightarrow> fixedValue K reference left right)"
proof -
  obtain simple complex builtin found where r: "ResolveType (schemaOf K) reference = (simple, complex, builtin, found)" by (rule prod_cases4)
  show ?thesis
  proof (cases complex)
    case None
    show ?thesis unfolding ElementFixedValuesEqual_def r prod.case None option.case
      by (rule holds_weaken [OF holds_fixedScalars]) (simp add: fixedValue_def r None)
  next
    case (Some j)
    show ?thesis unfolding ElementFixedValuesEqual_def r prod.case Some option.case
    proof (rule holds_lookup [OF assms])
      fix t sp cl x' e'
      assume sp: "effective (ddContent K) j sp" "ecSimple t = map_option fst (spScalar sp)"
      show "holds K P x' e' (case ecSimple t of None \<Rightarrow> ret (strCompare left right = 0)
          | Some scalar \<Rightarrow> withValues K (\<lambda>D. inValues (fixedScalarsEqual D (Some scalar) left right)))
        (\<lambda>s cl' _. (cl \<and> cl') \<and> s \<longrightarrow> fixedValue K reference left right)"
      proof (cases "spScalar sp")
        case None
        then show ?thesis using sp by (auto simp: fixedValue_def r Some strCompare_eq_0 intro!: holds_ret)
      next
        case scalar: (Some chain)
        then have "fixedAgree (dataOf K) (Some (fst chain)) left right \<Longrightarrow> fixedValue K reference left right"
          using sp(1) by (cases chain) (auto simp: fixedValue_def r Some intro!: exI [of _ sp])
        then show ?thesis using scalar sp(2) by (auto intro: holds_weaken [OF holds_fixedScalars])
      qed
    qed (auto intro!: holds_gaveUp)
  qed
qed

lemma holds_literal:
  "holds K P x e (inValues (scalarLiteral (dataOf K) reference lit)) (\<lambda>r cl _. cl \<longrightarrow> (\<forall>a. r = Some a \<longrightarrow> literalOf (dataOf K) reference lit a))"
  by (rule holds_weaken [OF holds_values [OF scalarLiteral_yields]]) simp

text \<open>A comparison that begins with a scalar type; an unavailable one is met by an answer that is not clean.\<close>

lemma holds_scalarCase:
  assumes "documentOK K P"
    and "\<And>cl x' e'. (cl \<Longrightarrow> e' = e) \<Longrightarrow> (cl \<Longrightarrow> scalarOf K reference None) \<Longrightarrow> holds K P x' e' f (\<lambda>s cl' _. cl' \<and> s \<longrightarrow> cl \<longrightarrow> A)"
    and "\<And>ref cl x' e'. (cl \<Longrightarrow> e' = e) \<Longrightarrow> (cl \<Longrightarrow> scalarOf K reference (Some ref)) \<Longrightarrow> holds K P x' e' (g (Some ref)) (\<lambda>s cl' _. cl' \<and> s \<longrightarrow> cl \<longrightarrow> A)"
  shows "holds K P x e (bnd (ScalarElementType K reference) (\<lambda>r. case r of None \<Rightarrow> ret True | Some None \<Rightarrow> f | Some sc \<Rightarrow> g sc))
    (\<lambda>s cl _. cl \<and> s \<longrightarrow> A)"
proof (rule holds_bnd [OF holds_scalarType [OF assms(1)]])
  fix r cl x' e'
  assume r: "cl \<longrightarrow> (\<exists>sc. r = Some sc \<and> scalarOf K reference sc)" and e: "cl \<Longrightarrow> e' = e"
  show "holds K P x' e' (case r of None \<Rightarrow> ret True | Some None \<Rightarrow> f | Some sc \<Rightarrow> g sc) (\<lambda>s cl' _. (cl \<and> cl') \<and> s \<longrightarrow> A)"
  proof (cases r)
    case None
    then show ?thesis using r by (auto intro!: holds_ret)
  next
    case (Some sc)
    show ?thesis
    proof (cases sc)
      case None
      have "holds K P x' e' f (\<lambda>s cl' _. cl' \<and> s \<longrightarrow> cl \<longrightarrow> A)" by (rule assms(2)) (use e r Some None in auto)
      then show ?thesis unfolding Some None option.case by (rule holds_weaken) simp
    next
      case ref: (Some ref)
      have "holds K P x' e' (g (Some ref)) (\<lambda>s cl' _. cl' \<and> s \<longrightarrow> cl \<longrightarrow> A)" by (rule assms(3)) (use e r Some ref in auto)
      then show ?thesis unfolding Some ref option.case by (rule holds_weaken) simp
    qed
  qed
qed

lemma holds_replacedByText:
  "holds K P x e (withValues K (\<lambda>D. bnd (inValues (scalarLiteral D sc left)) (\<lambda>first. bnd (get epoch) (\<lambda>after.
      ret (after \<noteq> e0 \<or> (case first of None \<Rightarrow> False | Some a \<Rightarrow> SimpleValue_equal (asValue a) (textValue right))))))) 
    (\<lambda>s cl _. cl \<and> e = e0 \<and> s \<longrightarrow> (\<exists>a. literalOf (dataOf K) sc left a \<and> SimpleValue_equal (asValue a) (textValue right)))"
  by (rule holds_withValues, rule holds_bnd [OF holds_literal], rule holds_epoch, rule holds_ret) (auto split: option.splits)

lemma holds_replacedByValue:
  "holds K P x e (withValues K (\<lambda>D. bnd (inValues (scalarLiteral D sc left)) (\<lambda>first. bnd (inValues (scalarLiteral D dc right)) (\<lambda>second. bnd (get epoch) (\<lambda>after.
      ret (after \<noteq> e0 \<or> (case (first, second) of (Some a, Some b) \<Rightarrow> SimpleValue_equal (asValue a) (asValue b) | _ \<Rightarrow> False)))))))
    (\<lambda>s cl _. cl \<and> e = e0 \<and> s \<longrightarrow>
      (\<exists>a b. literalOf (dataOf K) sc left a \<and> literalOf (dataOf K) dc right b \<and> SimpleValue_equal (asValue a) (asValue b)))"
  by (rule holds_withValues, rule holds_bnd [OF holds_literal], rule holds_bnd [OF holds_literal], rule holds_epoch, rule holds_ret)
    (auto split: option.splits)

lemma holds_constraintEqual:
  assumes "documentOK K P"
  shows "holds K P x e (ElementConstraintEqual K same actual decl left right) (\<lambda>r cl _. cl \<and> r \<longrightarrow> constraintAgrees K same actual decl left right)"
  unfolding ElementConstraintEqual_def
proof (rule holds_epoch, rule holds_if)
  assume s: same
  show "holds K P x e (bnd (ElementFixedValuesEqual K actual left right) (\<lambda>equal. bnd (get epoch) (\<lambda>after. ret (equal \<or> after \<noteq> e))))
      (\<lambda>r cl _. cl \<and> r \<longrightarrow> constraintAgrees K same actual decl left right)"
    by (rule holds_bnd [OF holds_fixedValue [OF assms]], rule holds_epoch, rule holds_ret) (use s in \<open>auto simp: constraintAgrees_def\<close>)
next
  assume "\<not> same"
  then have agree: "constraintAgrees K same actual decl left right \<longleftrightarrow> replacedValue K actual decl left right" by (simp add: constraintAgrees_def)
  have none: "replacedValue K actual decl left right" if "scalarOf K actual None" "canonicalConstraint K decl right left"
    unfolding replacedValue_def by (rule exI [of _ None]) (use that in simp)
  have some: "replacedValue K actual decl left right" if "scalarOf K actual (Some ref)" "scalarOf K decl dc" "literalOf (dataOf K) (Some ref) left a"
      "if dc = None then SimpleValue_equal (asValue a) (textValue right) else \<exists>b. literalOf (dataOf K) dc right b \<and> SimpleValue_equal (asValue a) (asValue b)" for ref dc a
  proof -
    have "\<exists>dc a. scalarOf K decl dc \<and> literalOf (dataOf K) (Some ref) left a \<and>
        (if dc = None then SimpleValue_equal (asValue a) (textValue right)
         else \<exists>b. literalOf (dataOf K) dc right b \<and> SimpleValue_equal (asValue a) (asValue b))"
      by (rule exI [of _ dc], rule exI [of _ a]) (use that(2-4) in simp)
    then show ?thesis unfolding replacedValue_def by (intro exI [of _ "Some ref"]) (use that(1) in simp)
  qed
  show "holds K P x e (bnd (ScalarElementType K actual) (\<lambda>r. case r of
           None \<Rightarrow> ret True
         | Some None \<Rightarrow> bnd (CanonicalElementConstraint K decl right) (\<lambda>t. ret (case t of None \<Rightarrow> True | Some t \<Rightarrow> strCompare left t = 0))
         | Some scalar \<Rightarrow>
             bnd (ScalarElementType K decl) (\<lambda>r. case r of
                 None \<Rightarrow> ret True
               | Some None \<Rightarrow>
                   withValues K (\<lambda>D. bnd (inValues (scalarLiteral D scalar left)) (\<lambda>first. bnd (get epoch) (\<lambda>after.
                     ret (after \<noteq> e \<or> (case first of None \<Rightarrow> False | Some a \<Rightarrow> SimpleValue_equal (asValue a) (textValue right))))))
               | Some declScalar \<Rightarrow>
                   withValues K (\<lambda>D. bnd (inValues (scalarLiteral D scalar left)) (\<lambda>first.
                     bnd (inValues (scalarLiteral D declScalar right)) (\<lambda>second. bnd (get epoch) (\<lambda>after.
                       ret (after \<noteq> e \<or> (case (first, second) of (Some a, Some b) \<Rightarrow> SimpleValue_equal (asValue a) (asValue b) | _ \<Rightarrow> False)))))))))
    (\<lambda>r cl _. cl \<and> r \<longrightarrow> constraintAgrees K same actual decl left right)"
    unfolding agree
  proof (rule holds_scalarCase [OF assms])
    show "holds K P x' e' (bnd (CanonicalElementConstraint K decl right) (\<lambda>t. ret (case t of None \<Rightarrow> True | Some t \<Rightarrow> strCompare left t = 0)))
        (\<lambda>s cl' _. cl' \<and> s \<longrightarrow> cl \<longrightarrow> replacedValue K actual decl left right)" if "cl \<Longrightarrow> scalarOf K actual None" for cl x' e'
      by (rule holds_bnd [OF holds_canonicalConstraint [OF assms]], rule holds_ret) (use that none in \<open>auto simp: strCompare_eq_0\<close>)
  next
    fix ref cl x1 e1
    assume 1: "cl \<Longrightarrow> e1 = e" "cl \<Longrightarrow> scalarOf K actual (Some ref)"
    show "holds K P x1 e1 (bnd (ScalarElementType K decl) (\<lambda>r. case r of
                 None \<Rightarrow> ret True
               | Some None \<Rightarrow>
                   withValues K (\<lambda>D. bnd (inValues (scalarLiteral D (Some ref) left)) (\<lambda>first. bnd (get epoch) (\<lambda>after.
                     ret (after \<noteq> e \<or> (case first of None \<Rightarrow> False | Some a \<Rightarrow> SimpleValue_equal (asValue a) (textValue right))))))
               | Some declScalar \<Rightarrow>
                   withValues K (\<lambda>D. bnd (inValues (scalarLiteral D (Some ref) left)) (\<lambda>first.
                     bnd (inValues (scalarLiteral D declScalar right)) (\<lambda>second. bnd (get epoch) (\<lambda>after.
                       ret (after \<noteq> e \<or> (case (first, second) of (Some a, Some b) \<Rightarrow> SimpleValue_equal (asValue a) (asValue b) | _ \<Rightarrow> False))))))))
      (\<lambda>s cl' _. cl' \<and> s \<longrightarrow> cl \<longrightarrow> replacedValue K actual decl left right)"
    proof (rule holds_scalarCase [OF assms])
      fix cl' x' e'
      assume 2: "cl' \<Longrightarrow> e' = e1" "cl' \<Longrightarrow> scalarOf K decl None"
      show "holds K P x' e' (withValues K (\<lambda>D. bnd (inValues (scalarLiteral D (Some ref) left)) (\<lambda>first. bnd (get epoch) (\<lambda>after.
            ret (after \<noteq> e \<or> (case first of None \<Rightarrow> False | Some a \<Rightarrow> SimpleValue_equal (asValue a) (textValue right)))))))
          (\<lambda>s cl'' _. cl'' \<and> s \<longrightarrow> cl' \<longrightarrow> cl \<longrightarrow> replacedValue K actual decl left right)"
        by (rule holds_weaken [OF holds_replacedByText]) (use 1 2 some [of ref None] in auto)
    next
      fix dref cl' x' e'
      assume 2: "cl' \<Longrightarrow> e' = e1" "cl' \<Longrightarrow> scalarOf K decl (Some dref)"
      show "holds K P x' e' (withValues K (\<lambda>D. bnd (inValues (scalarLiteral D (Some ref) left)) (\<lambda>first.
            bnd (inValues (scalarLiteral D (Some dref) right)) (\<lambda>second. bnd (get epoch) (\<lambda>after.
              ret (after \<noteq> e \<or> (case (first, second) of (Some a, Some b) \<Rightarrow> SimpleValue_equal (asValue a) (asValue b) | _ \<Rightarrow> False)))))))
          (\<lambda>s cl'' _. cl'' \<and> s \<longrightarrow> cl' \<longrightarrow> cl \<longrightarrow> replacedValue K actual decl left right)"
        by (rule holds_weaken [OF holds_replacedByValue]) (use 1 2 some [of ref "Some dref"] in auto)
    qed
  qed
qed

end
