(* ===== verification/Xsd_Soundness.thy ===== *)
theory Xsd_Soundness
  imports Xsd_Conformance
begin

text \<open>
  The assessment of elements is sound: the triples of the value constraints, of content, of types and of elements,
  put together by induction on the height of the tree.
\<close>

text \<open>Matching the children against a composed type, in the particles of the schema itself; it leaves no trace.\<close>

lemma holds_matching:
  assumes "documentOK K P" "effective (ddContent K) j sp" "composedAt K P x t sp" "ecParticle t = Some p"
    and "\<And>r f matched x'. (matched \<Longrightarrow> \<exists>n. mrNext r = int n \<and> n \<le> length ns \<and> follows (modelAt K P ns) (spContent sp) 0 n (mrElements r)) \<Longrightarrow>
      grownFrom x x' \<Longrightarrow> holds K P x' e (g r f matched) Q"
  shows "holds K P x e (bnd (matchChildren K p ns) (\<lambda>(r, f, matched). g r f matched)) Q"
proof (rule holds_bnd [OF holds_matchChildren])
  fix u :: "MatchResult \<times> MatchFailure \<times> bool" and cl x' e'
  assume m: "(case u of (r, f, matched) \<Rightarrow> \<lambda>cl x'. cl \<and> (matched \<longrightarrow> (\<exists>n. mrNext r = int n \<and> n \<le> length ns \<and>
      (p < length (xParticles x') \<longrightarrow> occurs (modelAt K (xParticles x') ns) p 0 n (mrElements r))))) cl x'"
    and e: "cl \<Longrightarrow> e' = e" and x: "grownFrom x x'"
  obtain r f matched where u: "u = (r, f, matched)" by (rule prod_cases3)
  have "holds K P x' e (g r f matched) Q"
  proof (rule assms(5) [OF _ x])
    assume matched
    then show "\<exists>n. mrNext r = int n \<and> n \<le> length ns \<and> follows (modelAt K P ns) (spContent sp) 0 n (mrElements r)"
      using m composedAt_content(2) [OF assms(1,2) composedAt_grown [OF assms(3) x] assms(4)] by (auto simp: u)
  qed
  then show "holds K P x' e' (case u of (r, f, matched) \<Rightarrow> g r f matched) (\<lambda>s cl' x''. Q s (cl \<and> cl') x'')"
    using m e by (simp add: u)
qed

section \<open>Defaults and fixed values of an element\<close>

lemma holds_defaultImmediate:
  assumes "documentOK K P"
  shows "holds K P x e (ElementDefaultImmediate K reference) (\<lambda>r cl _. cl \<and> r \<longrightarrow> defaultAllowed K P reference)"
proof -
  obtain simple complex builtin found where r: "ResolveType (schemaOf K) reference = (simple, complex, builtin, found)" by (rule prod_cases4)
  show ?thesis
  proof (cases "\<not> found")
    case True
    then show ?thesis unfolding ElementDefaultImmediate_def r prod.case if_P [OF True] by (intro holds_gaveUp) simp
  next
    case False
    show ?thesis
    proof (cases complex)
      case None
      then show ?thesis using False by (auto simp: ElementDefaultImmediate_def r defaultAllowed_def intro!: holds_ret)
    next
      case (Some j)
      have allowed: "defaultAllowed K P reference" if "effective (ddContent K) j sp"
        "spScalar sp \<noteq> None \<or> spMixed sp \<and> (\<exists>w. follows (modelAt K P []) (spContent sp) 0 0 w)" for sp
        using that False Some by (auto simp: defaultAllowed_def r)
      show ?thesis unfolding ElementDefaultImmediate_def r prod.case if_not_P [OF False] Some option.case
      proof (rule holds_lookup [OF assms])
        fix t sp cl x' e'
        assume sp: "effective (ddContent K) j sp" "composedAt K P x' t sp" "ecSimple t = map_option fst (spScalar sp)" "ecMixed t = spMixed sp"
          "ecParticle t = None \<longleftrightarrow> spContent sp = []"
        have matched: "holds K P x' e' (bnd (matchChildren K p []) (\<lambda>(r, f, matched).
              bnd (if mfSchema f \<noteq> [] then incomplete (mfSchema f) else ret ()) (\<lambda>_. ret matched)))
            (\<lambda>s cl' _. (cl \<and> cl') \<and> s \<longrightarrow> defaultAllowed K P reference)" if p: "ecParticle t = Some p" "ecMixed t" for p
          by (rule holds_matching [OF assms sp(1,2) p(1)], rule holds_then)
            (use p(2) sp(4) in \<open>auto intro!: holds_ret holds_weaken [OF holds_incomplete] allowed [OF sp(1)]\<close>)
        show "holds K P x' e' (if ecSimple t \<noteq> None then ret True else if \<not> ecMixed t then ret False else (case ecParticle t of None \<Rightarrow> ret True
            | Some p \<Rightarrow> bnd (matchChildren K p []) (\<lambda>(r, f, matched).
                bnd (if mfSchema f \<noteq> [] then incomplete (mfSchema f) else ret ()) (\<lambda>_. ret matched))))
          (\<lambda>s cl' _. (cl \<and> cl') \<and> s \<longrightarrow> defaultAllowed K P reference)"
        proof (cases "ecSimple t \<noteq> None \<or> \<not> ecMixed t \<or> ecParticle t = None")
          case True
          then show ?thesis using sp(3-5) by (auto intro!: holds_ret allowed [OF sp(1)] exI [of _ "[]"] f_nil)
        next
          case False
          then show ?thesis using matched by auto
        qed
      qed (auto intro!: holds_gaveUp)
    qed
  qed
qed

lemma holds_defaultText:
  assumes "documentOK K P"
  shows "holds K P x e (defaultText K d same actual v path) (\<lambda>(t, blocked) cl _. cl \<longrightarrow> \<not> blocked \<and>
    (if same then t = v else canonicalConstraint K (Some (edType d)) v t \<and> defaultAllowed K P (Some actual)))"
  unfolding defaultText_def
proof (rule holds_if)
  assume "\<not> same"
  let ?Q = "\<lambda>(t, blocked) cl _. cl \<longrightarrow> \<not> blocked \<and>
    (if same then t = v else canonicalConstraint K (Some (edType d)) v t \<and> defaultAllowed K P (Some actual))"
  show "holds K P x e (bnd (CanonicalElementConstraint K (Some (edType d)) v) (\<lambda>lexical.
        bnd (get epoch) (\<lambda>before.
        bnd (ElementDefaultImmediate K (Some actual)) (\<lambda>immediate.
        bnd (get epoch) (\<lambda>after.
        bnd (if \<not> immediate \<and> after = before
             then addIssue path ''default'' (Plain ''value constraint is not valid for the actual content type'') else ret ()) (\<lambda>_.
          ret (case lexical of None \<Rightarrow> [] | Some t \<Rightarrow> t, lexical = None \<or> \<not> immediate))))))) ?Q"
  proof (rule holds_bnd [OF holds_canonicalConstraint [OF assms]], rule holds_epoch, rule holds_bnd [OF holds_defaultImmediate [OF assms]], rule holds_epoch)
    fix lexical cl x1 immediate cl2 x2 and e1 e2 :: nat
    assume 1: "cl \<longrightarrow> (\<exists>t. lexical = Some t \<and> canonicalConstraint K (Some (edType d)) v t)"
      and 2: "cl2 \<and> immediate \<longrightarrow> defaultAllowed K P (Some actual)" "cl2 \<Longrightarrow> e2 = e1"
    show "holds K P x2 e2 (bnd (if \<not> immediate \<and> e2 = e1
             then addIssue path ''default'' (Plain ''value constraint is not valid for the actual content type'') else ret ()) (\<lambda>_.
          ret (case lexical of None \<Rightarrow> [] | Some t \<Rightarrow> t, lexical = None \<or> \<not> immediate)))
        (\<lambda>s cl' x''. ?Q s (cl \<and> cl2 \<and> cl') x'')"
      by (rule holds_bnd [where R = "\<lambda>_ cl _. cl \<longrightarrow> immediate \<or> \<not> cl2"])
        (use 1 2 \<open>\<not> same\<close> in \<open>auto intro!: holds_ret holds_weaken [OF holds_issue]\<close>)
  qed
qed (auto intro!: holds_ret)

lemma holds_fixedElement:
  assumes "documentOK K P"
  shows "holds K P x e (checkFixedElement K d same actual el v path)
    (\<lambda>_ cl _. cl \<longrightarrow> enChildren el = [] \<and> constraintAgrees K same (Some actual) (Some (edType d)) (enText el) v)"
  unfolding checkFixedElement_def
proof (rule holds_epoch, rule holds_bnd [where R = "\<lambda>_ cl _. cl \<longrightarrow> enChildren el = [] \<and>
    constraintAgrees K same (Some actual) (Some (edType d)) (enText el) v"], rule holds_if)
  show "holds K P x e (bnd (ElementConstraintEqual K same (Some actual) (Some (edType d)) (enText el) v) (\<lambda>equal.
            if \<not> equal
            then bnd (addIssue path ''fixed'' (Formatted ''value %q does not equal fixed value %q'' [FmtText (enText el), FmtText v])) (\<lambda>_. ret False)
            else ret True))
      (\<lambda>_ cl _. cl \<longrightarrow> enChildren el = [] \<and> constraintAgrees K same (Some actual) (Some (edType d)) (enText el) v)"
    if "\<not> enChildren el \<noteq> []"
    by (rule holds_bnd [OF holds_constraintEqual [OF assms]], rule holds_if) (use that in \<open>auto intro!: holds_ret holds_refused\<close>)
qed (auto intro!: holds_refused holds_epoch holds_ret)

lemma withText_same: "withText el (enText el) = el"
  by (cases el) (simp add: withText_def)

lemma withText_children [simp]: "enChildren (withText el t) = enChildren el"
  by (simp add: withText_def)

lemma holds_valueConstraint:
  assumes "documentOK K P"
  shows "holds K P x e (valueConstraint K d same actual nilled el path) (\<lambda>(el', blocked, _) cl _.
    \<exists>t. el' = withText el t \<and> (cl \<and> (nilled \<longrightarrow> edFixed d = None) \<longrightarrow>
      \<not> blocked \<and> fixedMet K d same actual nilled el \<and> textFor K P d same actual nilled el t))"
    (is "holds K P x e _ ?Q")
proof (cases nilled)
  case True
  then show ?thesis by (auto simp: valueConstraint_def fixedMet_def textFor_def withText_same split: option.split intro!: holds_ret exI [of _ "enText el"])
next
  case unnilled: False
  consider (default) v where "isEmpty el" "constraintOf d = Some v" | (fixed) v where "\<not> isEmpty el" "edFixed d = Some v"
    | (none) "constraintOf d = None \<or> \<not> isEmpty el \<and> edFixed d = None"
    by (cases "constraintOf d"; cases "edFixed d"; cases "isEmpty el") (auto simp: constraintOf_def)
  then show ?thesis
  proof cases
    case default
    then have x: "valueConstraint K d same actual nilled el path =
        bnd (defaultText K d same actual v path) (\<lambda>(lexical, blocked). ret (withText el lexical, blocked, True))"
      using unnilled by (simp add: valueConstraint_def Let_def isEmpty_def constraintOf_def)
    show ?thesis unfolding x
      by (rule holds_bnd [OF holds_defaultText [OF assms]])
        (use default unnilled in \<open>auto simp: fixedMet_def textFor_def split: prod.splits if_splits intro!: holds_ret\<close>)
  next
    case fixed
    then have x: "valueConstraint K d same actual nilled el path = bnd (checkFixedElement K d same actual el v path) (\<lambda>ok. ret (el, False, ok))"
      using unnilled by (auto simp: valueConstraint_def Let_def isEmpty_def split: bool.split option.split)
    show ?thesis unfolding x
      by (rule holds_bnd [OF holds_fixedElement [OF assms]])
        (use fixed unnilled in \<open>auto simp: fixedMet_def textFor_def withText_same split: option.split intro!: holds_ret exI [of _ "enText el"]\<close>)
  next
    case none
    then have x: "valueConstraint K d same actual nilled el path = ret (el, False, True)" "edFixed d = None \<or> isEmpty el"
      using unnilled by (auto simp: valueConstraint_def Let_def isEmpty_def constraintOf_def split: bool.split option.split)
    show ?thesis unfolding x(1)
      by (rule holds_ret) (use none x(2) unnilled in \<open>auto simp: fixedMet_def textFor_def withText_same split: option.split intro!: exI [of _ "enText el"]\<close>)
  qed
qed

section \<open>Content and types\<close>

lemma holds_scalar:
  assumes "\<And>x e. holds K P x e assess (\<lambda>r cl _. verdict R A J r (\<not> cl))"
  shows "holds K P x e (validateScalar el path assess) (\<lambda>_ cl _. cl \<longrightarrow> enChildren el = [] \<and> (\<exists>a. A a))"
  unfolding validateScalar_def
proof (rule holds_if)
  assume none: "\<not> enChildren el \<noteq> []"
  show "holds K P x e (bnd assess (\<lambda>r. case r of Inl f \<Rightarrow> bnd (addIssue path (fConstraint f) (failureText f)) (\<lambda>_. ret False) | Inr _ \<Rightarrow> ret True))
      (\<lambda>_ cl _. cl \<longrightarrow> enChildren el = [] \<and> (\<exists>a. A a))"
  proof (rule holds_bnd [OF assms])
    fix r :: outcome and cl x' e'
    assume r: "verdict R A J r (\<not> cl)"
    show "holds K P x' e' (case r of Inl f \<Rightarrow> bnd (addIssue path (fConstraint f) (failureText f)) (\<lambda>_. ret False) | Inr _ \<Rightarrow> ret True)
        (\<lambda>_ cl' _. cl \<and> cl' \<longrightarrow> enChildren el = [] \<and> (\<exists>a. A a))"
    proof (cases r)
      case (Inl f)
      show ?thesis
      proof (cases "TechnicalFailure f")
        case True
        then show ?thesis using r Inl by (auto simp: verdict_def intro!: holds_ret holds_then [OF holds_anyIssue])
      next
        case False
        then have "plainConstraint (fConstraint f)" by (simp add: plainConstraint_def TechnicalFailure_def)
        with Inl show ?thesis by (auto intro!: holds_refused)
      qed
    qed (use r none in \<open>auto simp: verdict_def intro!: holds_ret\<close>)
  qed
qed (auto intro!: holds_then [OF holds_weaken [OF holds_identityIncomplete]] holds_refused)

lemma holds_metadata:
  assumes "plain v"
  shows "holds K P x e (withValues K (\<lambda>D. inValues (inTypes (ValidTypeMetadata (metadataDepth (vdSchema D)) (vdSchema D) v))))
    (\<lambda>ok cl _. ok = soundType (schemaOf K) v \<and> (\<not> ok \<longrightarrow> \<not> cl))"
proof (rule holds_withValues, unfold dataOf_sel, rule holds_types)
  fix t
  assume "contextOK (schemaOf K) t"
  from metadata_run [OF this assms] obtain t' where "ValidTypeMetadata (metadataDepth (schemaOf K)) (schemaOf K) v t = Some (soundType (schemaOf K) v, t')"
    "contextOK (schemaOf K) t'" "Issues t' = Issues t"
    "if soundType (schemaOf K) v then AssessmentVersion t' = AssessmentVersion t else AssessmentVersion t < AssessmentVersion t'" .
  then show "\<exists>r t'. ValidTypeMetadata (metadataDepth (schemaOf K)) (schemaOf K) v t = Some (r, t') \<and> contextOK (schemaOf K) t' \<and>
      AssessmentVersion t \<le> AssessmentVersion t' \<and> (\<exists>new. Issues t' = Issues t @ new) \<and>
      r = soundType (schemaOf K) v \<and> (\<not> r \<longrightarrow> \<not> (Issues t' = Issues t \<and> AssessmentVersion t' = AssessmentVersion t))"
    by (intro exI [of _ "soundType (schemaOf K) v"] exI [of _ t']) (auto split: if_splits)
qed

text \<open>Content, when the assessment of a child shows \<open>F\<close> of it.\<close>

lemma holds_children:
  assumes "\<And>c s p x' e'. c \<in> set (enChildren el) \<Longrightarrow> holds K P x' e' (child c s p subject) (\<lambda>_ cl _. cl \<longrightarrow> F c s)"
    and "\<forall>m \<in> set w. emIndex m < length (enChildren el)"
  shows "holds K P x e (assessChildren child el path subject w)
    (\<lambda>_ cl _. cl \<longrightarrow> (\<forall>m \<in> set w. emIndex m < length (enChildren el) \<and> F (enChildren el ! emIndex m) (emSchema m)))"
  unfolding assessChildren_def Let_def
proof (rule holds_all)
  fix m b x' e'
  assume "m \<in> set w"
  then have m: "emIndex m < length (enChildren el)" using assms(2) by simp
  then have "holds K P x' e' (bnd (child (enChildren el ! emIndex m) (emSchema m) (childPaths path (namesOf el) ! emIndex m) subject)
      (\<lambda>ok. ret (b \<and> ok))) (\<lambda>_ cl _. cl \<longrightarrow> emIndex m < length (enChildren el) \<and> F (enChildren el ! emIndex m) (emSchema m))"
    by (intro holds_bnd [OF assms(1)]) (auto intro!: holds_ret)
  then show "holds K P x' e' (if length (enChildren el) \<le> emIndex m then panic
      else bnd (child (enChildren el ! emIndex m) (emSchema m) (childPaths path (namesOf el) ! emIndex m) subject) (\<lambda>ok. ret (b \<and> ok)))
    (\<lambda>_ cl _. cl \<longrightarrow> emIndex m < length (enChildren el) \<and> F (enChildren el ! emIndex m) (emSchema m))"
    using m by simp
qed

lemma holds_unexpected: "i < length (enChildren el) \<Longrightarrow> holds K P x e (unexpectedElement el path i) (\<lambda>_ cl _. \<not> cl)"
  by (auto simp: unexpectedElement_def childIssue_def intro!: holds_issue)

lemma holds_unmatched: "holds K P x e (AddContentIssue el path f) (\<lambda>_ cl _. \<not> cl)"
  by (auto simp: AddContentIssue_def childIssue_def Let_def intro!: holds_issue)

lemma holds_particle:
  assumes "documentOK K P" "effective (ddContent K) j sp" "composedAt K P x t sp" "ecParticle t = Some p"
    and children: "\<And>c s p x' e'. c \<in> set (enChildren el) \<Longrightarrow> holds K P x' e' (child c s p subject) (\<lambda>_ cl _. cl \<longrightarrow> F c s)"
  shows "holds K P x e (bnd (matchChildren K p (namesOf el)) (\<lambda>(r, f, matched).
      if \<not> matched \<or> mrNext r \<noteq> int (length (enChildren el)) then
        bnd (inIdentity (SkipIdentityChildren (map enOwner (enChildren el)))) (\<lambda>_.
        bnd (if \<not> matched then AddContentIssue el path f else unexpectedElement el path (nat (mrNext r))) (\<lambda>_. ret False))
      else bnd (assessChildren child el path subject (mrElements r)) (\<lambda>valid. ret (g valid))))
    (\<lambda>_ cl _. cl \<longrightarrow> (\<exists>w. follows (modelAt K P (namesOf el)) (spContent sp) 0 (length (enChildren el)) w \<and>
      (\<forall>m \<in> set w. emIndex m < length (enChildren el) \<and> F (enChildren el ! emIndex m) (emSchema m))))"
proof (rule holds_matching [OF assms(1-4)], rule holds_if)
  fix r f matched x1
  assume m: "matched \<Longrightarrow> \<exists>n. mrNext r = int n \<and> n \<le> length (namesOf el) \<and>
      follows (modelAt K P (namesOf el)) (spContent sp) 0 n (mrElements r)"
    and bad: "\<not> matched \<or> mrNext r \<noteq> int (length (enChildren el))"
  then have "matched \<Longrightarrow> nat (mrNext r) < length (enChildren el)" by (auto simp: namesOf_def)
  then have refused: "holds K P x2 e2 (if \<not> matched then AddContentIssue el path f else unexpectedElement el path (nat (mrNext r))) (\<lambda>_ cl' _. \<not> cl')" for x2 e2
    by (auto intro: holds_unmatched holds_unexpected)
  show "holds K P x1 e (bnd (inIdentity (SkipIdentityChildren (map enOwner (enChildren el)))) (\<lambda>_.
        bnd (if \<not> matched then AddContentIssue el path f else unexpectedElement el path (nat (mrNext r))) (\<lambda>_. ret False)))
      (\<lambda>_ cl _. cl \<longrightarrow> (\<exists>w. follows (modelAt K P (namesOf el)) (spContent sp) 0 (length (enChildren el)) w \<and>
        (\<forall>m \<in> set w. emIndex m < length (enChildren el) \<and> F (enChildren el ! emIndex m) (emSchema m))))"
    by (rule holds_then [OF holds_weaken [OF holds_skip]], simp, rule holds_bnd [OF refused]) (auto intro!: holds_ret)
next
  fix r f matched x1
  assume m: "matched \<Longrightarrow> \<exists>n. mrNext r = int n \<and> n \<le> length (namesOf el) \<and>
      follows (modelAt K P (namesOf el)) (spContent sp) 0 n (mrElements r)"
    and all: "\<not> (\<not> matched \<or> mrNext r \<noteq> int (length (enChildren el)))"
  then have w: "follows (modelAt K P (namesOf el)) (spContent sp) 0 (length (enChildren el)) (mrElements r)" by auto
  then have range: "\<forall>m \<in> set (mrElements r). emIndex m < length (enChildren el)" using follows_span by (fastforce simp: spans_def)
  show "holds K P x1 e (bnd (assessChildren child el path subject (mrElements r)) (\<lambda>valid. ret (g valid)))
      (\<lambda>_ cl _. cl \<longrightarrow> (\<exists>w. follows (modelAt K P (namesOf el)) (spContent sp) 0 (length (enChildren el)) w \<and>
        (\<forall>m \<in> set w. emIndex m < length (enChildren el) \<and> F (enChildren el ! emIndex m) (emSchema m))))"
    by (rule holds_bnd [OF holds_children [where F = F and child = child and subject = subject and el = el, OF children range]]) (use w in \<open>auto intro!: holds_ret\<close>)
qed

lemma holds_content:
  assumes "documentOK K P" "effective (ddContent K) j sp" "composedAt K P x t sp"
    and children: "\<And>c s p x' e'. c \<in> set (enChildren el) \<Longrightarrow> holds K P x' e' (child c s p subject) (\<lambda>_ cl _. cl \<longrightarrow> F c s)"
  shows "holds K P x e (ValidateContent K child el t path subject ok) (\<lambda>_ cl _. cl \<longrightarrow>
    (\<exists>w. contentConforms K P sp el w \<and> (\<forall>m \<in> set w. emIndex m < length (enChildren el) \<and> F (enChildren el ! emIndex m) (emSchema m))))"
  unfolding ValidateContent_def
proof (rule holds_bnd [where R = "\<lambda>_ cl _. cl \<longrightarrow> \<not> characterViolation t (enText el)"])
  let ?F = "\<lambda>w. contentConforms K P sp el w \<and> (\<forall>m \<in> set w. emIndex m < length (enChildren el) \<and> F (enChildren el ! emIndex m) (emSchema m))"
  note empty = composedAt_content(1) [OF assms(1-3)]
  fix contentValid cl x' and e' :: nat
  assume v: "cl \<longrightarrow> \<not> characterViolation t (enText el)" and x: "grownFrom x x'"
  have characters: "spMixed sp \<or> enText el = [] \<or> spContent sp \<noteq> [] \<and> trimXMLWhitespace (enText el) = []" if cl
    using v that empty composedAt_scalar(2) [OF assms(1-3)] by (auto simp: characterViolation_def)
  show "holds K P x' e' (case ecParticle t of
        None \<Rightarrow> bnd (if enChildren el \<noteq> [] then bnd identityIncomplete (\<lambda>_. unexpectedElement el path 0) else ret ())
            (\<lambda>_. ret (ok \<and> contentValid \<and> enChildren el = []))
      | Some p \<Rightarrow>
          bnd (matchChildren K p (namesOf el)) (\<lambda>(r, f, matched).
            if \<not> matched \<or> mrNext r \<noteq> int (length (enChildren el)) then
              bnd (inIdentity (SkipIdentityChildren (map enOwner (enChildren el)))) (\<lambda>_.
              bnd (if \<not> matched then AddContentIssue el path f else unexpectedElement el path (nat (mrNext r))) (\<lambda>_. ret False))
            else bnd (assessChildren child el path subject (mrElements r)) (\<lambda>valid. ret (ok \<and> contentValid \<and> valid))))
      (\<lambda>_ cl' _. cl \<and> cl' \<longrightarrow> (\<exists>w. ?F w))"
  proof (cases "ecParticle t")
    case None
    have none: "holds K P x' e' (if enChildren el \<noteq> [] then bnd identityIncomplete (\<lambda>_. unexpectedElement el path 0) else ret ())
        (\<lambda>_ cl' _. cl' \<longrightarrow> enChildren el = [])"
      by (auto intro!: holds_ret holds_then [OF holds_weaken [OF holds_identityIncomplete]] holds_weaken [OF holds_unexpected])
    have "?F []" if cl "enChildren el = []" using characters that empty None by (auto simp: contentConforms_def intro: f_nil)
    then show ?thesis unfolding None option.case by (intro holds_bnd [OF none]) (auto intro!: holds_ret)
  next
    case (Some p)
    show ?thesis unfolding Some option.case
      by (rule holds_weaken [OF holds_particle [where F = F and child = child and subject = subject and el = el, OF assms(1,2) composedAt_grown [OF assms(3) x] Some children]])
        (use characters in \<open>auto simp: contentConforms_def\<close>)
  qed
qed (auto intro!: holds_ret holds_refused)

text \<open>Before a type is looked at, it is found and its metadata are sound.\<close>

lemma holds_sound:
  assumes "ResolveType (schemaOf K) (Some ref) = (simple, complex, builtin, found)"
    and "\<And>x e. found \<Longrightarrow> soundRef (schemaOf K) (Some ref) \<Longrightarrow> holds K P x e act (\<lambda>_ cl _. cl \<longrightarrow> A)"
  shows "holds K P x e (if \<not> found then bnd (addIssue path ''schema'' msg) (\<lambda>_. ret False)
      else bnd (withValues K (\<lambda>D. inValues (inTypes (ValidTypeMetadata (metadataDepth (vdSchema D)) (vdSchema D)
          \<lparr> tiSimple = simple, tiComplex = complex, tiBuiltin = builtin \<rparr>)))) (\<lambda>ok. if \<not> ok then ret False else act))
    (\<lambda>r cl _. (r \<longrightarrow> soundRef (schemaOf K) (Some ref)) \<and> (cl \<longrightarrow> A))"
proof (rule holds_if)
  let ?v = "\<lparr> tiSimple = simple, tiComplex = complex, tiBuiltin = builtin \<rparr>"
  assume found: "\<not> \<not> found"
  have "plain ?v" using assms(1) by (auto simp: plain_def ResolveType_def split: option.splits if_splits)
  note metadata = holds_metadata [OF this]
  have sound: "soundType (schemaOf K) ?v \<Longrightarrow> soundRef (schemaOf K) (Some ref)" using assms(1) by (simp add: soundRef_def TypeIdentity_of_def)
  show "holds K P x e (bnd (withValues K (\<lambda>D. inValues (inTypes (ValidTypeMetadata (metadataDepth (vdSchema D)) (vdSchema D) ?v))))
      (\<lambda>ok. if \<not> ok then ret False else act)) (\<lambda>r cl _. (r \<longrightarrow> soundRef (schemaOf K) (Some ref)) \<and> (cl \<longrightarrow> A))"
  proof (rule holds_bnd [OF metadata], rule holds_if)
    fix ok cl x' and e' :: nat
    assume ok: "ok = soundType (schemaOf K) ?v \<and> (\<not> ok \<longrightarrow> \<not> cl)"
    show "holds K P x' e' (ret False) (\<lambda>r cl' _. (r \<longrightarrow> soundRef (schemaOf K) (Some ref)) \<and> (cl \<and> cl' \<longrightarrow> A))" if "\<not> ok"
      using ok that by (auto intro!: holds_ret)
    show "holds K P x' e' act (\<lambda>r cl' _. (r \<longrightarrow> soundRef (schemaOf K) (Some ref)) \<and> (cl \<and> cl' \<longrightarrow> A))" if "\<not> \<not> ok"
    proof -
      have "soundRef (schemaOf K) (Some ref)" using ok that sound by simp
      with found show ?thesis by (intro holds_weaken [OF assms(2)]) auto
    qed
  qed
qed (auto intro!: holds_refused)

lemma soundRef_builtin:
  assumes "ResolveType (schemaOf K) (Some ref) = (None, None, builtin, True)" "builtin \<noteq> []"
  shows "builtinSemanticsValue builtin \<noteq> None"
  using assms by (auto simp: ResolveType_def split: option.splits if_splits)

lemma holds_simple:
  assumes r: "ResolveType (schemaOf K) (Some ref) = (simple, complex, builtin, found)" and no: "simple \<noteq> None \<or> complex = None"
  shows "holds K P x e (ValidateType (Suc n) K child el path attrs subject nilled (Some ref))
    (\<lambda>r cl _. (r \<longrightarrow> soundRef (schemaOf K) (Some ref)) \<and> (cl \<longrightarrow> typeConforms K P ref nilled attrs' el []))"
  unfolding ValidateType.simps r prod.case
proof (rule holds_sound [OF r])
  fix x and e :: nat
  assume f: found and s: "soundRef (schemaOf K) (Some ref)"
  show "holds K P x e (case simple of
        Some i \<Rightarrow> if nilled then ret True
          else validateScalar el path (withValues K (\<lambda>D. inValues (AssessSimpleValue (valueDepth (vdSchema D)) D i (enText el) (enText el))))
      | None \<Rightarrow> (case complex of
             Some j \<Rightarrow> ValidateComplex K (ValidateType n K child el path attrs subject False) child el j path nilled attrs subject
           | None \<Rightarrow>
               if builtin = ''anyType'' then ret True
               else if builtin \<noteq> [] then
                 (if nilled then ret True
                  else validateScalar el path (withValues K (\<lambda>D. inValues (AssessBuiltinValue D builtin (enText el) (enText el)))))
               else bnd (addIssue path ''schema'' (Plain ''unsupported type declaration'')) (\<lambda>_. ret False)))
      (\<lambda>_ cl _. cl \<longrightarrow> typeConforms K P ref nilled attrs' el [])"
  proof (cases simple)
    case (Some i)
    have "holds K P x e (withValues K (\<lambda>D. inValues (AssessSimpleValue (valueDepth (vdSchema D)) D i t t)))
        (\<lambda>r cl _. verdict (Xsd_Values.ready (dataOf K) i) (admits (dataOf K) i t) (rejects (dataOf K) i t) r (\<not> cl))" for x e t
      by (intro holds_withValues holds_values [OF AssessSimpleValue_ready])
    note scalar = holds_scalar [OF this]
    show ?thesis unfolding Some option.case
      by (rule holds_if) (use f s Some in \<open>auto simp: typeConforms_def r scalarConforms_def intro!: holds_ret holds_weaken [OF scalar]\<close>)
  next
    case None
    then have complex: "complex = None" using no by simp
    have "holds K P x e (withValues K (\<lambda>D. inValues (AssessBuiltinValue D builtin t t))) (\<lambda>r cl _. verdict (\<not> entityBuiltin builtin)
        (builtinAdmits (vdLibrary (dataOf K)) builtin t) (builtinRejects (vdLibrary (dataOf K)) builtin t) r (\<not> cl))" if "builtin \<noteq> []" for x e t
      by (intro holds_withValues holds_values AssessBuiltinValue_yields soundRef_builtin [of K ref]) (use r f None complex that in auto)
    note scalar = holds_scalar [OF this]
    show ?thesis unfolding None complex option.case
      by (intro holds_if) (use f s None complex in \<open>auto simp: typeConforms_def r scalarConforms_def intro!: holds_ret holds_refused holds_weaken [OF scalar]\<close>)
  qed
qed

lemma simple_conforms:
  assumes "ResolveType (schemaOf K) (Some ref) = (simple, complex, builtin, found)" "simple \<noteq> None \<or> complex = None"
    "typeConforms K P ref False attrs el []"
  shows "simpleConforms K ref el"
  using assms by (auto simp: typeConforms_def simpleConforms_def split: option.splits)

text \<open>A complex type: its attributes, and its scalar or its particles.\<close>

lemma holds_body:
  assumes "documentOK K P" "effective (ddContent K) j sp" "composedAt K P x t sp" "ecSimple t = map_option fst (spScalar sp)"
    and children: "\<And>c s p x' e'. c \<in> set (enChildren el) \<Longrightarrow> holds K P x' e' (child c s p subject) (\<lambda>_ cl _. cl \<longrightarrow> F c s)"
    and scalar: "\<And>ref layers x' e'. spScalar sp = Some (ref, layers) \<Longrightarrow> holds K P x' e' (scalar (Some ref)) (\<lambda>_ cl _. cl \<longrightarrow> simpleConforms K ref el)"
    and concrete: "\<not> ccAbstract (contentOf (ddContent K) j)"
  shows "holds K P x e (if nilled then ret ok
      else if ecSimple t \<noteq> None then
        (if enChildren el \<noteq> [] then
           bnd identityIncomplete (\<lambda>_.
           bnd (addIssue path ''simple-content'' (Plain ''simple-content value must not contain child elements'')) (\<lambda>_. ret False))
         else bnd (scalar (ecSimple t)) (\<lambda>v. ret (v \<and> ok)))
      else ValidateContent K child el t path subject ok)
    (\<lambda>_ cl _. cl \<and> attributesConform K sp attrs \<longrightarrow> (\<exists>w. complexConforms K P j nilled attrs el w \<and>
      (\<forall>m \<in> set w. emIndex m < length (enChildren el) \<and> F (enChildren el ! emIndex m) (emSchema m))))"
    (is "holds K P x e _ (\<lambda>_ cl _. cl \<and> ?A \<longrightarrow> (\<exists>w. ?C w))")
proof -
  have complex: "?C w" if ?A "if nilled then w = [] else (case spScalar sp of Some (ref, _) \<Rightarrow> w = [] \<and> enChildren el = [] \<and> simpleConforms K ref el
      | None \<Rightarrow> contentConforms K P sp el w \<and> (\<forall>m \<in> set w. emIndex m < length (enChildren el) \<and> F (enChildren el ! emIndex m) (emSchema m)))" for w
    using that concrete assms(2) unfolding complexConforms_def by (auto split: if_splits option.splits)
  show ?thesis
  proof (intro holds_if)
    show "holds K P x e (ret ok) (\<lambda>_ cl _. cl \<and> ?A \<longrightarrow> (\<exists>w. ?C w))" if nilled
      using complex [of "[]"] that by (auto intro!: holds_ret)
  next
    assume s: "\<not> nilled" "ecSimple t \<noteq> None" "\<not> enChildren el \<noteq> []"
    then obtain ref layers where ref: "spScalar sp = Some (ref, layers)" "ecSimple t = Some ref" using assms(4) by auto
    show "holds K P x e (bnd (scalar (ecSimple t)) (\<lambda>v. ret (v \<and> ok))) (\<lambda>_ cl _. cl \<and> ?A \<longrightarrow> (\<exists>w. ?C w))"
      unfolding ref(2) by (rule holds_bnd [OF scalar [OF ref(1)]], rule holds_ret) (use complex [of "[]"] s ref(1) in auto)
  next
    assume s: "\<not> nilled" "\<not> ecSimple t \<noteq> None"
    then have "spScalar sp = None" using assms(4) by (cases "spScalar sp") simp_all
    then show "holds K P x e (ValidateContent K child el t path subject ok) (\<lambda>_ cl _. cl \<and> ?A \<longrightarrow> (\<exists>w. ?C w))"
      using complex s(1) by (intro holds_weaken [OF holds_content [where F = F and child = child and subject = subject and el = el, OF assms(1-3) children]]) auto
  qed (auto intro!: holds_then [OF holds_weaken [OF holds_identityIncomplete]] holds_refused)
qed

lemma holds_complex:
  assumes "documentOK K P"
    and children: "\<And>c s p x' e'. c \<in> set (enChildren el) \<Longrightarrow> holds K P x' e' (child c s p subject) (\<lambda>_ cl _. cl \<longrightarrow> F c s)"
    and scalar: "\<And>sp ref layers x' e'. effective (ddContent K) j sp \<Longrightarrow> spScalar sp = Some (ref, layers) \<Longrightarrow>
      holds K P x' e' (scalar (Some ref)) (\<lambda>_ cl _. cl \<longrightarrow> simpleConforms K ref el)"
  shows "holds K P x e (ValidateComplex K scalar child el j path nilled attrs subject)
    (\<lambda>_ cl _. cl \<longrightarrow> (\<exists>w. complexConforms K P j nilled attrs el w \<and>
      (\<forall>m \<in> set w. emIndex m < length (enChildren el) \<and> F (enChildren el ! emIndex m) (emSchema m))))"
    (is "holds K P x e _ (\<lambda>_ cl _. cl \<longrightarrow> (\<exists>w. ?C w))")
  unfolding ValidateComplex_def
proof (rule holds_bnd [where R = "\<lambda>_ cl _. cl \<longrightarrow> \<not> ccAbstract (contentOf (ddContent K) j)"], goal_cases)
  case 1
  show ?case by (auto intro!: holds_ret holds_weaken [OF holds_issue])
next
  case (2 u cl0 x0 e0)
  show ?case
  proof (rule holds_lookup [OF assms(1)], goal_cases)
    case (1 cl x' e')
    show ?case by (auto intro!: holds_refused)
  next
    case (2 t sp cl x' e')
    note sp = 2
    show ?case
    proof (rule holds_bnd [where R = "\<lambda>_ cl _. cl \<longrightarrow> attributesConform K sp attrs"], rule holds_withValues, rule holds_attributes [OF sp(2)],
        rule holds_if, goal_cases)
      case (1 ok cl1 x1 e1)
      then show ?case using \<open>cl0 \<longrightarrow> \<not> ccAbstract (contentOf (ddContent K) j)\<close>
        by (auto intro!: holds_then [OF holds_weaken [OF holds_skip]] holds_ret)
    next
      case (2 ok cl1 x1 e1)
      note body = holds_body [where F = F and child = child and subject = subject and el = el,
          OF assms(1) sp(1) composedAt_grown [OF sp(2) 2(3)] sp(3) children scalar [OF sp(1)] 2(4)]
      show ?case by (rule holds_weaken [OF body]) (use 2(1) in auto)
    qed
  qed
qed

lemma holds_type:
  assumes "documentOK K P"
    and children: "\<And>c s p x' e'. c \<in> set (enChildren el) \<Longrightarrow> holds K P x' e' (child c s p subject) (\<lambda>_ cl _. cl \<longrightarrow> F c s)"
  shows "holds K P x e (ValidateType 2 K child el path attrs subject nilled (Some ref))
    (\<lambda>r cl _. (r \<longrightarrow> soundRef (schemaOf K) (Some ref)) \<and> (cl \<longrightarrow> (\<exists>w. typeConforms K P ref nilled attrs el w \<and>
      (\<forall>m \<in> set w. emIndex m < length (enChildren el) \<and> F (enChildren el ! emIndex m) (emSchema m)))))"
proof -
  obtain simple complex builtin found where r: "ResolveType (schemaOf K) (Some ref) = (simple, complex, builtin, found)" by (rule prod_cases4)
  show ?thesis
  proof (cases "simple \<noteq> None \<or> complex = None")
    case True
    show ?thesis unfolding numeral_2_eq_2 by (rule holds_weaken [OF holds_simple [OF r True]]) force
  next
    case False
    then obtain j where j: "simple = None" "complex = Some j" by auto
    have scalar: "holds K P x' e' (ValidateType (Suc 0) K child el path attrs subject False (Some ref')) (\<lambda>_ cl _. cl \<longrightarrow> simpleConforms K ref' el)"
      if h: "effective (ddContent K) j sp" "spScalar sp = Some (ref', layers)" for sp ref' layers x' e'
    proof -
      obtain s c b where s: "ResolveType (schemaOf K) (Some ref') = (s, c, b, True)" "s \<noteq> None \<or> b \<noteq> []"
        using scalar_base(2) [OF _ h] assms(1) by (auto simp: documentOK_def schemaOf_def)
      then have "s \<noteq> None \<or> c = None" by (auto simp: ResolveType_def split: option.splits if_splits)
      then show ?thesis by (intro holds_weaken [OF holds_simple [OF s(1)]]) (use simple_conforms [OF s(1)] in auto)
    qed
    show ?thesis unfolding numeral_2_eq_2 ValidateType.simps(2) [of "Suc 0"] r prod.case j option.case
    proof (rule holds_sound)
      fix x and e :: nat
      assume s: found "soundRef (schemaOf K) (Some ref)"
      show "holds K P x e (ValidateComplex K (ValidateType (Suc 0) K child el path attrs subject False) child el j path nilled attrs subject)
          (\<lambda>_ cl _. cl \<longrightarrow> (\<exists>w. typeConforms K P ref nilled attrs el w \<and>
            (\<forall>m \<in> set w. emIndex m < length (enChildren el) \<and> F (enChildren el ! emIndex m) (emSchema m))))"
        by (rule holds_weaken [OF holds_complex [where F = F and child = child and subject = subject and el = el, OF assms(1) children scalar]])
          (use s r j in \<open>auto simp: typeConforms_def\<close>)
    qed (use r j in simp)
  qed
qed

section \<open>Elements\<close>

lemma allowed_sound: "allowedType S block t decl \<Longrightarrow> soundRef S (Some decl)"
  by (auto simp: allowedType_def soundRef_def)

text \<open>The content of an element of which the type and the state of being nilled are known.\<close>

lemma holds_valued:
  assumes "documentOK K P"
    and children: "\<And>c s p x' e'. c \<in> set (enChildren el) \<Longrightarrow> holds K P x' e' (child c s p (enOwner el)) (\<lambda>_ cl _. cl \<longrightarrow> F c s)"
    and sound: "soundRef (schemaOf K) (Some actual) \<Longrightarrow> soundRef (schemaOf K) (Some (edType d))"
  shows "holds K P x e (bnd (valueConstraint K d same actual nilled el path) (\<lambda>(effective, blocked, constrained).
     bnd (ValidateType 2 K child effective path (nAttrs (enNode el)) (enOwner el) (nilled \<or> blocked) (Some actual)) (\<lambda>valid.
       let typeValid = valid \<and> attributesValid;
           declarationValid = nominated \<and> nillable \<and> emptied \<and> constrained \<and> typeValid \<and> \<not> blocked in
     bnd (if typeValid \<and> \<not> nilled \<and> \<not> blocked
          then withValues K (\<lambda>D. inIdentity (RecordElementIdentity (vdSchema D) unconstructed (Some (edType d)) (Some actual) (enText effective) path owner declarationValid))
          else ret ()) (\<lambda>_. ret declarationValid))))
    (\<lambda>_ cl _. cl \<and> (nilled \<longrightarrow> edFixed d = None) \<longrightarrow> (\<exists>t w. fixedMet K d same actual nilled el \<and> textFor K P d same actual nilled el t \<and>
      typeConforms K P actual nilled (nAttrs (enNode el)) (withText el t) w \<and>
      (\<forall>m \<in> set w. emIndex m < length (enChildren el) \<and> F (enChildren el ! emIndex m) (emSchema m))))"
proof (rule holds_bnd [OF holds_valueConstraint [OF assms(1)]], goal_cases)
  case (1 v cl1 x1 e1)
  obtain el' blocked constrained where v: "v = (el', blocked, constrained)" by (rule prod_cases3)
  obtain t where t: "el' = withText el t" "cl1 \<and> (nilled \<longrightarrow> edFixed d = None) \<Longrightarrow>
      \<not> blocked \<and> fixedMet K d same actual nilled el \<and> textFor K P d same actual nilled el t" using 1(1) v by auto
  have kids: "holds K P x' e' (child c s p (enOwner el)) (\<lambda>_ cl _. cl \<longrightarrow> F c s)" if "c \<in> set (enChildren (withText el t))" for c s p x' e'
    by (rule children) (use that in \<open>simp add: withText_def\<close>)
  note type = holds_type [where F = F and child = child and subject = "enOwner el" and el = "withText el t", OF assms(1) kids]
  have identity: "holds K P x2 e2 (if (valid \<and> attributesValid) \<and> \<not> nilled \<and> \<not> blocked
        then withValues K (\<lambda>D. inIdentity (RecordElementIdentity (vdSchema D) unconstructed (Some (edType d)) (Some actual) z path owner ok)) else ret ())
      (\<lambda>_ _ _. True)" if "valid \<longrightarrow> soundRef (schemaOf K) (Some actual)" for valid x2 e2 z ok
    by (intro holds_if holds_withValues, unfold dataOf_sel, rule holds_weaken [OF holds_element_identity])
      (use that sound in \<open>auto intro!: holds_ret\<close>)
  show ?case unfolding v prod.case t(1) Let_def
    by (rule holds_bnd [OF type], assumption, rule holds_then [OF identity])
      (use t(2) in \<open>auto intro!: holds_ret exI [of _ t]\<close>)
qed

text \<open>An element against its declaration, and the tree.\<close>

lemma declaredConformsI:
  assumes "\<not> edAbstract d" "actualType K d el actual same" "simpleTyped K actual \<longrightarrow> (\<forall>a \<in> set (nAttrs (enNode el)). \<not> assessed a)"
    "nilledAs d el nilled" "nilled \<longrightarrow> isEmpty el" "fixedMet K d same actual nilled el" "textFor K P d same actual nilled el t"
    "typeConforms K P actual nilled (nAttrs (enNode el)) (withText el t) w"
    "\<forall>m \<in> set w. emIndex m < length (enChildren el) \<and> F (enChildren el ! emIndex m) (emSchema m)"
  shows "declaredConforms K P F d el"
  unfolding declaredConforms_def plainlyTyped_iff withText_def [symmetric] using assms by blast

lemma holds_declared:
  assumes "documentOK K P"
    and children: "\<And>c s p x' e'. c \<in> set (enChildren el) \<Longrightarrow> holds K P x' e' (child c s p (enOwner el)) (\<lambda>_ cl _. cl \<longrightarrow> F c s)"
  shows "holds K P x e (assessDeclared K child el d path owner) (\<lambda>_ cl _. cl \<longrightarrow> declaredConforms K P F d el)"
  unfolding assessDeclared_def
proof (rule holds_bnd [where R = "\<lambda>_ cl _. cl \<longrightarrow> \<not> edAbstract d"], goal_cases)
  case 1
  show ?case by (auto intro!: holds_ret holds_weaken [OF holds_issue])
next
  case (2 u cl0 x0 e0)
  note concrete = 2(1)
  show ?case
  proof (rule holds_bnd [OF holds_elementTyped], goal_cases)
    case (1 typing cl1 x1 e1)
    obtain actual typed where typing: "typing = (actual, typed)" by (rule prod.exhaust)
    define same where "same = (xsiType (nAttrs (enNode el)) = None \<or> \<not> typed)"
    have chosen: "cl1 \<Longrightarrow> actualType K d el actual same" and sound: "soundRef (schemaOf K) (Some actual) \<Longrightarrow> soundRef (schemaOf K) (Some (edType d))"
      using 1(1) allowed_sound by (auto simp: typing actualType_def same_def xsiTyped_iff nominates_iff permitted_iff)
    show ?case unfolding typing prod.case Let_def same_def [symmetric]
    proof (rule holds_bnd [where R = "\<lambda>_ cl _. cl \<and> simpleTyped K actual \<longrightarrow> (\<forall>a \<in> set (nAttrs (enNode el)). \<not> assessed a)"], goal_cases)
      case 1
      show ?case by (auto intro!: holds_ret holds_weaken [OF holds_simpleAttributes])
    next
      case (2 ok cl2 x2 e2)
      note plainAttributes = 2(1)
      show ?case
      proof (rule holds_bnd [OF holds_checkNil], goal_cases)
        case (1 nil cl3 x3 e3)
        obtain nilled nillable where nil: "nil = (nilled, nillable)" by (rule prod.exhaust)
        show ?case unfolding nil prod.case
        proof (rule holds_bnd [where R = "\<lambda>_ cl _. cl \<and> nilled \<longrightarrow> edFixed d = None \<and> isEmpty el"], goal_cases)
          case 1
          show ?case by (auto intro!: holds_ret holds_weaken [OF holds_checkNilled])
        next
          case (2 emptied cl4 x4 e4)
          note valued = holds_valued [where F = F and child = child and el = el and actual = actual and d = d, OF assms(1) children sound,
              unfolded Let_def]
          have "declaredConforms K P F d el" if clean: cl0 cl1 cl2 cl3 cl4 and met: "\<exists>t w. fixedMet K d same actual nilled el \<and> textFor K P d same actual nilled el t \<and>
                typeConforms K P actual nilled (nAttrs (enNode el)) (withText el t) w \<and>
                (\<forall>m \<in> set w. emIndex m < length (enChildren el) \<and> F (enChildren el ! emIndex m) (emSchema m))"
          proof -
            obtain t w where "fixedMet K d same actual nilled el \<and> textFor K P d same actual nilled el t \<and>
                typeConforms K P actual nilled (nAttrs (enNode el)) (withText el t) w \<and>
                (\<forall>m \<in> set w. emIndex m < length (enChildren el) \<and> F (enChildren el ! emIndex m) (emSchema m))" using met by auto
            with clean concrete chosen plainAttributes 1(1) 2(1) nil show ?thesis
              by (intro declaredConformsI [where actual = actual and same = same and nilled = nilled and t = t and w = w]) auto
          qed
          then show ?case by (intro holds_weaken [OF valued]) (use 2(1) in auto)
        qed
      qed
    qed
  qed
qed

lemma treeHeight_child:
  assumes "c \<in> set (enChildren el)" "treeHeight el \<le> Suc n"
  shows "treeHeight c \<le> n"
proof -
  have fold: "k \<le> fold max hs k \<and> (\<forall>h \<in> set hs. h \<le> fold max hs k)" for k :: nat and hs
  proof (induction hs arbitrary: k)
    case (Cons h hs)
    from Cons.IH [of "max h k"] show ?case by simp
  qed simp
  show ?thesis using assms fold [of 0 "map treeHeight (enChildren el)"] by (cases el) auto
qed

lemma holds_element:
  assumes "documentOK K P"
  shows "treeHeight el \<le> n \<Longrightarrow> holds K P x e (ValidateElementOwned n K el decl path owner) (\<lambda>_ cl _. cl \<longrightarrow> conforms K P el decl)"
proof (induction n arbitrary: x e el decl path owner)
  case 0
  then show ?case by (cases el) simp
next
  case (Suc n)
  have resolved: "ResolveElement (modelAt K [] []) = ResolveElement (modelAt K P [])" by (rule ResolveElement_model)
  have below: "holds K P x' e' (ValidateElementOwned n K c s p (Some subject)) (\<lambda>_ cl _. cl \<longrightarrow> conforms K P c s)"
    if "c \<in> set (enChildren el)" for c s p subject x' e'
    by (rule Suc.IH) (rule treeHeight_child [OF that Suc.prems])
  show ?case unfolding ValidateElementOwned.simps resolved
  proof (rule holds_bnd [OF holds_hints], goal_cases)
    case (1 u cl x' e')
    show ?case
    proof (cases "ResolveElement (modelAt K P []) decl")
      case None
      then show ?thesis by (auto intro!: holds_refused)
    next
      case (Some e)
      have "holds K P x' e' (assessDeclared K (\<lambda>x s p subject. ValidateElementOwned n K x s p (Some subject)) el (declarationOf K e) path owner)
          (\<lambda>_ cl' _. cl' \<longrightarrow> declaredConforms K P (conforms K P) (declarationOf K e) el)"
        by (rule holds_declared [OF assms below])
      then have "holds K P x' e' (assessDeclared K (\<lambda>x s p subject. ValidateElementOwned n K x s p (Some subject)) el (declarationOf K e) path owner)
          (\<lambda>_ cl' _. cl \<and> cl' \<longrightarrow> conforms K P el decl)" if "enName el = eName e"
        by (rule holds_weaken) (use 1(1) Some that conforms_element in blast)
      then show ?thesis using Some by (auto intro!: holds_refused)
    qed
  qed
qed

section \<open>Property\<close>

text \<open>
  C8: the assessment of an element returns on every tree, in every context that fits the schema, and leaves a context that
  fits. When it was clean, that is when it added no issue and the assessment epoch stood still, the element conforms to its
  declaration: the type it is assessed with is the declared one or a permitted nominee, its attributes, its value
  constraint and its content are met for that type, and every child conforms to the declaration the content model
  assigns it. The schema (documentOK) has well-formed definitions, no all group and no restriction of simple content by
  facets of its own.
\<close>

theorem clean_assessment_conforms:
  assumes "documentOK K P" "fit K P c"
  shows "\<exists>c'. ValidateElement K el decl path c = Some ((), c') \<and> fit K P c' \<and> follows_on c c' \<and> (clean c c' \<longrightarrow> conforms K P el decl)"
proof -
  have "holds K P (dcContent c) (epoch c) (ValidateElement K el decl path) (\<lambda>_ cl _. cl \<longrightarrow> conforms K P el decl)"
    unfolding ValidateElement_def by (rule holds_bnd [OF holds_element [OF assms(1) order_refl]]) (auto intro!: holds_ret)
  from holdsD [OF this assms(2) grownFrom_refl refl] show ?thesis by (metis old.unit.exhaust)
qed

text \<open>A context at the start of an assessment, and a note with a pitch and an octave that defaults to four.\<close>

definition startContext :: "documentData \<Rightarrow> ParticleSchema list \<Rightarrow> Context" where
  "startContext K P = (NewContext (schemaOf K))\<lparr>dcContent := NewEffectiveContext (schemaOf K) P\<rparr>"

lemma fit_start: "documentOK K P \<Longrightarrow> fit K P (startContext K P)"
  using good_new [of "dataOf K" "schemaOf K"] empty_metaInv
  by (auto simp: fit_def startContext_def good_def valuesOf_def NewContext_def NewEffectiveContext_def effectsOK_def documentOK_def schemaOf_def
      contextOK_def Xsd_Derivation.cachesOK_def Xsd_Values.cachesOK_def derInv_def cacheOK_def
      emptyContext_def NewTypeContext_def)

definition noteDeclaration :: "nat \<Rightarrow> string \<Rightarrow> ElementSchema" where
  "noteDeclaration d name = \<lparr> eName = \<lparr> Space = [], Local = name \<rparr>, eReference = \<lparr> Space = [], Local = [] \<rparr>, eDeclaration = d \<rparr>"

definition noteHeap :: "ParticleSchema list" where
  "noteHeap = [(elementParticle [])\<lparr> pElement := Some (noteDeclaration 1 ''step'') \<rparr>, (elementParticle [])\<lparr> pElement := Some (noteDeclaration 2 ''octave'') \<rparr>]"

definition noteData :: documentData where
  "noteData = (let plain = \<lparr> edType = noType\<lparr>trName := \<lparr> Space = XSDNamespace, Local = ''string'' \<rparr>\<rparr>, edBlock = 0, edDefault = None, edFixed = None,
       edNillable = False, edAbstract = False \<rparr> in
     \<lparr> ddContent = sampleTypes, ddElements = \<lambda>_. None,
       ddDeclarations = [plain\<lparr> edType := noType\<lparr> InlineComplex := Some 1 \<rparr> \<rparr>, plain,
         plain\<lparr> edDefault := Some ''4'' \<rparr>],
       ddLibrary = sampleLibrary \<rparr>)"

definition leaf :: "nat \<Rightarrow> string \<Rightarrow> string \<Rightarrow> ElementNode list \<Rightarrow> ElementNode" where
  "leaf n name v children = ElementNode \<lparr> onPointer = n, onID = n \<rparr> \<lparr> Space = [], Local = name \<rparr> \<lparr> nNamespaces = \<lambda>_. None, nAttrs = [] \<rparr> v children"

definition noteElement :: ElementNode where
  "noteElement = leaf 1 ''note'' [] [leaf 2 ''step'' ''C'' [], leaf 3 ''octave'' [] []]"

theorem clean_assessment_conforms_witness:
  "conforms noteData noteHeap noteElement (Some (noteDeclaration 0 ''note''))"
proof -
  have ok: "documentOK noteData noteHeap"
    by (auto simp: documentOK_def definitionsOK_def particlesIn_def closedParticles_def plainParticles_def layerFree_def noteData_def noteHeap_def
        sampleTypes_def sampleContent_def elementParticle_def complexOf_def contentOf_def extensionOf_def Let_def nth_Cons split: nat.splits if_splits)
  let ?c = "startContext noteData noteHeap"
  have run: "map_option (\<lambda>(_, c). (epoch c, issuesOf c)) (ValidateElement noteData noteElement (Some (noteDeclaration 0 ''note'')) [] ?c) = Some (0, [])"
    by code_simp
  have "epoch ?c = 0" "issuesOf ?c = []" by code_simp+
  with run clean_assessment_conforms [OF ok fit_start [OF ok], of noteElement "Some (noteDeclaration 0 ''note'')" "[]"] show ?thesis
    by (auto simp: clean_def)
qed

end
