(* ===== verification/Spec2Isabelle.thy ===== *)
theory Spec2Isabelle
  imports Rationals Xsd_Numbers Xsd_Lexical Xsd_Search Xsd_Binding Xsd_Derivation Xsd_Composition Xsd_Reports Xsd_Canonical
    Xsd_Soundness
begin

text \<open>
  A verification development for go-musicxml, a Go library that reads, writes and assesses MusicXML.

  \<^bold>\<open>The program.\<close> The root package decodes and encodes documents, MXL archives and opus files and reads
  XML sources. \<^verbatim>\<open>internal/xsd\<close> is a schema kernel: lexical spaces and facets of simple types, wildcards,
  content models. \<^verbatim>\<open>validation\<close> is the assessment engine: exact numbers, resource budgets, sessions and
  the musical rules. Generators produce the Go types and the compiled schema from the XSD files.

  \<^bold>\<open>Theories, from the bottom.\<close>
  \<^item> \<open>Go_Base\<close>, \<open>Go_Strings\<close>: 64-bit integers as HOL integers with the wrap-around written out (\<open>i64\<close>),
    error sums and their sequencing, strings as byte lists, UTF-8, decimal text.
  \<^item> \<open>Go_Actions\<close>: operations on an explicit state that may panic, and triples of total correctness for them.
  \<^item> \<open>Go_Graphs\<close>: a locale for graphs searched along paths without repetition, with the bounds on depth that
    make a recursion over a heap of pointers end.
  \<^item> \<open>Budgets\<close> (\<^verbatim>\<open>validation/errors.go\<close>, \<^verbatim>\<open>validation/budgets.go\<close>): the account of a run. Its charges,
    releases and checks are one step relation; usage stays within the limits along every run, limits never
    shrink, a charge succeeds exactly when there is room and a refused one changes nothing.
  \<^item> \<open>Exact_Values\<close> (\<^verbatim>\<open>validation/values.go\<close>, constructors of \<^verbatim>\<open>rational.go\<close>): integers, decimals and
    rationals with bounded text. The constructors accept exactly what fits the cap and their text spells the
    number.
  \<^item> \<open>Rationals\<close> (\<^verbatim>\<open>validation/rational.go\<close>, \<^verbatim>\<open>validation/session.go\<close>): arithmetic that plans its cost,
    reserves scratch bytes, computes and gives them back on every path.
  \<^item> \<open>Xsd_Numbers\<close>, \<open>Xsd_Lexical\<close> (\<^verbatim>\<open>internal/xsd/integer.go\<close>, \<^verbatim>\<open>decimal.go\<close>, \<^verbatim>\<open>datetime.go\<close>,
    \<^verbatim>\<open>binary_lexical.go\<close>, \<^verbatim>\<open>whitespace.go\<close>, \<^verbatim>\<open>value.go\<close>, parts of \<^verbatim>\<open>kernel.go\<close>): lexemes denote
    numbers, dates and octets; string comparisons decide the order of what they denote; facets are exact.
  \<^item> \<open>Xsd_Canonical\<close> (parts of \<^verbatim>\<open>internal/xsd/xsi_values.go\<close> and \<^verbatim>\<open>value.go\<close>): canonical lexical forms are
    normal forms of the values of the built-in types, and the chunked text comparison is the plain one.
  \<^item> \<open>Xsd_Names\<close>, \<open>Xsd_Wildcards\<close>: names, diagnostic paths, override of attribute declarations, namespace
    constraints and their union.
  \<^item> \<open>Xsd_Particles\<close>: the content-model matcher of \<^verbatim>\<open>internal/xsd/particle.go\<close> as written, on a heap of
    particles. \<open>Xsd_Content\<close> says what a content model accepts, as derivations. \<open>Xsd_Guard\<close> shows that the
    structural guard ends on every graph and accepts exactly the well-formed ones; \<open>Xsd_Matching\<close> that the
    memoized search finds exactly the endpoints; \<open>Xsd_Witness\<close> and \<open>Xsd_Search\<close> that a derivation is
    reconstructed for the longest one and that a rejection is located.
  \<^item> \<open>Xsd_Prefix\<close>: the push matcher of \<^verbatim>\<open>internal/xsd/prefix.go\<close>, which binds the children of an element
    before the whole child list is known. \<open>Xsd_Exploration\<close> shows that the bounded search of one child ends and
    visits what the configurations reach; \<open>Xsd_Binding\<close> that a bound child has the declaration every derivation
    of every continuation gives it.
  \<^item> \<open>Xsd_Types\<close> (\<^verbatim>\<open>internal/xsd/xsi_type.go\<close>, \<^verbatim>\<open>whitespace.go\<close>, \<^verbatim>\<open>assessment.go\<close>, parts of \<^verbatim>\<open>kernel.go\<close>): type
    definitions on a heap, the metadata check, simple semantics, the memoized derivation test and the choice
    of the type an element is assessed with. \<open>Xsd_Metadata\<close> shows that the check ends and accepts exactly the
    sound types, \<open>Xsd_Semantics\<close> that a simple type gets exactly its meaning, \<open>Xsd_Derivation\<close> that the
    derivation test decides derivation and that an instance type is used only when its name is bound and the schema
    permits it.
  \<^item> \<open>Xsd_Assess\<close> (\<open>AssessSimpleValue\<close> and what it calls in \<^verbatim>\<open>kernel.go\<close>, \<^verbatim>\<open>value.go\<close>, \<^verbatim>\<open>whitespace.go\<close>):
    the assessment of a literal against a simple type through restrictions, lists, unions, enumerations and
    facets, with its caches. \<open>Xsd_Verdicts\<close> says declaratively which literals a type admits, with which value,
    and which it rejects; \<open>Xsd_Values\<close> shows that the assessment returns on every schema and gives exactly these
    verdicts.
  \<^item> \<open>Xsd_Attributes\<close> (\<^verbatim>\<open>schema_hints.go\<close>, \<open>validateAttributes\<close> and the comparison of fixed values in \<^verbatim>\<open>kernel.go\<close>,
    \<^verbatim>\<open>value.go\<close>, \<^verbatim>\<open>whitespace.go\<close>): the attributes of an element over a context that joins the states of values,
    types, identity tables and composed types. \<open>Xsd_Assignments\<close> shows that the issues, the identity events and
    the answer are exactly the expected ones.
  \<^item> \<open>Xsd_Effective\<close>: the composition of a complex type with everything it inherits (\<open>EffectiveComplex\<close> of
    \<^verbatim>\<open>kernel.go\<close>) over heaps that grow. \<open>Xsd_Composition\<close> shows that it ends on cyclic schemas, finds exactly the
    composed type, and that the allocated particle accepts the contents along the derivation in order.
  \<^item> \<open>Xsd_Elements\<close> (\<open>ValidateElementOwned\<close>, \<open>ValidateType\<close>, \<open>ValidateComplex\<close> of \<^verbatim>\<open>kernel.go\<close>, the value constraints
    of \<^verbatim>\<open>xsi_values.go\<close>): the assessment of an element with everything below it, on a document tree. It calls the
    operations of all the theories above in the order of the code. \<open>Xsd_Constraints\<close> says what the canonical text
    of a default or fixed literal is. \<open>Xsd_Walk\<close> has the triples for the walk (what an operation shows of the
    document when it was clean, that is without a new issue and without an advance of the assessment epoch), with one
    rule per construct and one triple per operation of the theories above. \<open>Xsd_Conformance\<close> defines when an element
    conforms to its declaration, and \<open>Xsd_Soundness\<close> shows that the walk returns on every tree and that a clean one
    has established conformance.
  \<^item> \<open>Xsd_Identity\<close> (\<^verbatim>\<open>internal/xsd/identity.go\<close>, parts of \<^verbatim>\<open>run.go\<close>): the tables of identity constraints.
    \<open>Xsd_Uniqueness\<close> shows that they are a function of the recorded events, \<open>Xsd_Reports\<close> that the diagnostics are
    exactly the expected ones, that a run reports each once until it is closed, over all sessions of its clients, and
    what the resolution of a value answers.

  \<^bold>\<open>State, errors and fuel.\<close> A Go error is the left side of a sum or an option; a panic is \<open>None\<close>. Recursion
  over a heap of schema components takes a depth as fuel and running out of it is \<open>None\<close> too. The depth
  used is the size of the heap, and the theorems conclude with \<open>Some\<close>: the structural guard refuses cycles,
  so a path that has passed it visits each component at most once. A recursion over type definitions marks
  each one before it descends; \<open>metadataDepth\<close> adds room for a chain of built-in types (at most nine) to the
  number of definitions, \<open>valueDepth\<close> leaves room for the members below a type, \<open>semanticsDepth\<close> one visit past the last definition, and a derivation test walks two
  such paths. The search of prefix binding records a new point before each level of its recursion and at most
  \<open>prefixVisitLimit\<close> of them, which bounds its depth by \<open>prefixDepth\<close>; the
  composition marks a type before it descends (\<open>effectiveDepth\<close>). Loops over text and children are
  structural. A 64-bit value whose overflow is unreachable is a natural number or an integer, and the header of
  the theory says why.

  \<^bold>\<open>Assumptions.\<close> The schema kernel is modelled as it runs without a meter: metering and work counters
  abort a run but never change a result. Values are assessed in the compatibility context, without a
  controlled run and without source declarations, so an entity name is always an unavailable fact; the regular
  expression engine, \<^verbatim>\<open>strconv.ParseFloat\<close> and \<^verbatim>\<open>unicode.IsDigit\<close> of Go are arguments (\<open>goLibrary\<close>). The URI syntax check of wildcard namespaces is an argument. The
  matcher's theorems assume that an all group is no member of another group, as XML Schema requires and the
  guard does not check. The conformance of clean elements (\<open>documentOK\<close>) is stated for schemas without all groups and
  without restrictions of simple content by facets of their own, whose composition would add to the heaps of the schema
  during the walk; the MusicXML 4.0 schemas have neither. An element of type \<open>xs:anyType\<close> is taken as it is, without
  an assessment of its children, as the code does.

  \<^bold>\<open>Not modelled.\<close> Generated files and generators; input and output (archives, files, readers); the XML
  source reader with its DTD processing; decoding and encoding of the document model; schema compilation; the musical rules of the
  assessment engine (context, timeline, navigation, resources, packages). \<^verbatim>\<open>PROJECT.json\<close> lists them one by
  one.
\<close>

end
